(* ===== verification/LinPrelude.thy ===== *)
theory LinPrelude
  imports Main "HOL-Library.Word" "HOL-Library.Multiset"
begin

text \<open>
  The vocabulary every component of the Lin runtime shares (\<open>src/lin.h\<close>): node tags, ports,
  the missing port, gauges, and the generic facts about updated functions, half-open index ranges
  and bounded searches that the component theories use.
\<close>

named_theorems net_simps \<open>projections and updates of the net state\<close>
named_theorems wf_intros \<open>preservation of the wiring invariant\<close>

section \<open>Node tags and ports\<close>

text \<open>\<open>enum { LAM, APP, DUP, ERA, ROOT }\<close>, in the order the enumeration numbers them.\<close>

datatype ntag = LAM | APP | DUP | ERA | ROOT

fun tag_code :: "ntag \<Rightarrow> nat" where
  "tag_code LAM = 0"
| "tag_code APP = 1"
| "tag_code DUP = 2"
| "tag_code ERA = 3"
| "tag_code ROOT = 4"

lemma tag_code_inject [simp]: "tag_code s = tag_code t \<longleftrightarrow> s = t"
  by (cases s; cases t) simp_all

text \<open>
  \<open>typedef struct { int node:30; unsigned int port:2; } Port\<close>.  A node index is an integer
  because the code writes -1 for ``no node''.
\<close>

datatype port = Port (node: int) (pno: nat)

text \<open>\<open>#define NONE ((Port){-1, 0})\<close>\<close>

definition NONE :: port where
  "NONE = Port (- 1) 0"

lemma node_NONE [simp]: "node NONE = - 1"
  by (simp add: NONE_def)

lemma NONE_eq_Port [simp]: "NONE = Port v i \<longleftrightarrow> v = - 1 \<and> i = 0"
  by (auto simp: NONE_def)

lemma Port_eq_NONE [simp]: "Port v i = NONE \<longleftrightarrow> v = - 1 \<and> i = 0"
  by (auto simp: NONE_def)

lemma port_eqI: "node p = node q \<Longrightarrow> pno p = pno q \<Longrightarrow> p = q"
  by (cases p; cases q) simp

text \<open>A gauge (\<open>Scope\<close>) is the index of a level in the net's level trie.\<close>

type_synonym gauge = nat

text \<open>A queued active pair: two ports, stored side by side in the C array \<open>act\<close>.\<close>

type_synonym apair = "port \<times> port"

section \<open>Generic lemmas\<close>

lemma fun_upd2_same: "(f(a := x, b := y)) a = (if a = b then y else x)"
  by simp

text \<open>Searching an index range from below, as the code's \<open>for\<close> loops with an early exit do.\<close>

fun find_from :: "(nat \<Rightarrow> bool) \<Rightarrow> nat \<Rightarrow> nat \<Rightarrow> nat option" where
  "find_from P i 0 = None"
| "find_from P i (Suc k) = (if P i then Some i else find_from P (Suc i) k)"

lemma find_from_Some:
  "find_from P i k = Some j \<Longrightarrow> P j \<and> i \<le> j \<and> j < i + k \<and> (\<forall>m. i \<le> m \<and> m < j \<longrightarrow> \<not> P m)"
proof (induction P i k rule: find_from.induct)
  case (1 P i)
  then show ?case by simp
next
  case (2 P i k)
  show ?case
  proof (cases "P i")
    case True
    then show ?thesis using "2.prems" by auto
  next
    case False
    then have "P j \<and> Suc i \<le> j \<and> j < Suc i + k \<and> (\<forall>m. Suc i \<le> m \<and> m < j \<longrightarrow> \<not> P m)"
      using "2.IH" "2.prems" by simp
    with False show ?thesis
      by (auto simp: Suc_le_eq) (metis le_neq_implies_less)
  qed
qed

lemma find_from_None: "find_from P i k = None \<Longrightarrow> i \<le> j \<Longrightarrow> j < i + k \<Longrightarrow> \<not> P j"
proof (induction P i k rule: find_from.induct)
  case (2 P i k)
  then show ?case by (cases "j = i") (auto split: if_splits)
qed simp

lemma all_less_3: "(\<forall>p < 3. Q p) \<longleftrightarrow> Q 0 \<and> Q 1 \<and> Q (2 :: nat)"
proof
  assume a: "Q 0 \<and> Q 1 \<and> Q 2"
  show "\<forall>p < 3. Q p"
  proof (intro allI impI)
    fix p :: nat assume "p < 3"
    then consider "p = 0" | "p = 1" | "p = 2" by linarith
    then show "Q p" using a by cases simp_all
  qed
qed simp

lemma nth_append_last [simp]: "(xs @ [x]) ! length xs = x"
  by (simp add: nth_append)

end
