(* ===== verification/ProbeTable.thy ===== *)
theory ProbeTable
  imports LinPrelude
begin

text \<open>
  Open addressing with linear probing.  The runtime uses the same table three times: the level
  trie's edge table (\<open>lv_intern\<close>), the identifier arena (\<open>lin_intern\<close>), the e-graph's e-node
  table (\<open>eg_lookup\<close>), and a fourth time, with generations, for the wave frontier.  Each is a
  power-of-two array, a hash masked to it, and a walk \<open>h = (h + 1) & (cap - 1)\<close> that stops at
  an empty slot or at a matching entry.  This theory holds the walk, the invariant of such a table
  and its laws, proved once in the locale \<open>open_addressing\<close>.
\<close>

section \<open>The probe\<close>

text \<open>\<open>h & (cap - 1)\<close>\<close>

definition slot_mask :: "nat \<Rightarrow> nat \<Rightarrow> nat" where
  "slot_mask cap h = and h (cap - 1)"

lemma slot_mask_mod: "slot_mask (2 ^ k) h = h mod 2 ^ k"
  unfolding slot_mask_def by (metis mask_eq_exp_minus_1 take_bit_eq_mask take_bit_eq_mod)

lemma walk_inj:
  assumes "(h + d) mod cap = (h + c) mod cap" "d < cap" "c < (cap::nat)"
  shows "d = c"
  using assms
proof (induction d c rule: linorder_wlog)
  case (le d c)
  then have "cap dvd (h + c) - (h + d)"
    by (metis add_le_cancel_left mod_eq_dvd_iff_nat)
  then have "cap dvd c - d" by simp
  with le show ?case by (cases "c - d = 0") (auto dest: dvd_imp_le)
qed (simp add: eq_commute)

text \<open>The walk.  The fuel is the number of slots; a table with an empty slot never uses it up.\<close>

fun probe :: "(nat \<Rightarrow> 'e option) \<Rightarrow> ('e \<Rightarrow> bool) \<Rightarrow> nat \<Rightarrow> nat \<Rightarrow> nat \<Rightarrow> nat option" where
  "probe sl hit cap h 0 = None"
| "probe sl hit cap h (Suc k) =
     (case sl h of
        None \<Rightarrow> Some h
      | Some e \<Rightarrow> if hit e then Some h else probe sl hit cap (slot_mask cap (h + 1)) k)"

definition stops :: "(nat \<Rightarrow> 'e option) \<Rightarrow> ('e \<Rightarrow> bool) \<Rightarrow> nat \<Rightarrow> bool" where
  "stops sl hit i \<longleftrightarrow> (case sl i of None \<Rightarrow> True | Some e \<Rightarrow> hit e)"

lemma probe_find_from:
  assumes "cap = 2 ^ b"
  shows "probe sl hit cap ((h + d) mod cap) k =
    map_option (\<lambda>j. (h + j) mod cap) (find_from (\<lambda>j. stops sl hit ((h + j) mod cap)) d k)"
proof (induction k arbitrary: d)
  case 0
  then show ?case by simp
next
  case (Suc k)
  have next_slot: "slot_mask cap ((h + d) mod cap + 1) = (h + Suc d) mod cap"
    by (simp add: assms slot_mask_mod mod_simps)
  show ?case
    using Suc.IH[of "Suc d"]
    by (simp add: stops_def next_slot del: One_nat_def split: option.splits)
qed

section \<open>The invariant of a table\<close>

text \<open>Slot \<open>i\<close> is on the walk from \<open>h\<close>: every slot before it on the walk is occupied.\<close>

definition on_walk :: "(nat \<Rightarrow> 'e option) \<Rightarrow> nat \<Rightarrow> nat \<Rightarrow> nat \<Rightarrow> bool" where
  "on_walk sl cap h i \<longleftrightarrow>
     (\<exists>d < cap. i = (h + d) mod cap \<and> (\<forall>j < d. sl ((h + j) mod cap) \<noteq> None))"

text \<open>
  \<open>S\<close> is what the table stores: every entry sits on the walk from its own home slot, once, no two
  entries share a key, and the table is not full.
\<close>

definition table_ok ::
    "('k \<Rightarrow> nat \<Rightarrow> nat) \<Rightarrow> ('e \<Rightarrow> 'k) \<Rightarrow> (nat \<Rightarrow> 'e option) \<Rightarrow> nat \<Rightarrow> 'e set \<Rightarrow> bool" where
  "table_ok home key sl cap S \<longleftrightarrow>
     (\<exists>b. cap = 2 ^ b) \<and> finite S \<and> card S < cap \<and> inj_on key S \<and>
     (\<forall>i < cap. \<forall>e. sl i = Some e \<longrightarrow> e \<in> S) \<and>
     (\<forall>i < cap. \<forall>j < cap. \<forall>e. sl i = Some e \<longrightarrow> sl j = Some e \<longrightarrow> i = j) \<and>
     (\<forall>e \<in> S. \<exists>i < cap. sl i = Some e \<and> on_walk sl cap (home (key e) cap) i)"

lemma table_okD:
  assumes "table_ok home key sl cap S"
  shows table_ok_cap: "\<exists>b. cap = 2 ^ b" and table_ok_finite: "finite S"
    and table_ok_card: "card S < cap" and table_ok_inj: "inj_on key S"
    and table_ok_mem: "\<And>i e. i < cap \<Longrightarrow> sl i = Some e \<Longrightarrow> e \<in> S"
    and table_ok_once: "\<And>i j e. i < cap \<Longrightarrow> j < cap \<Longrightarrow> sl i = Some e \<Longrightarrow> sl j = Some e \<Longrightarrow> i = j"
    and table_ok_stored: "\<And>e. e \<in> S \<Longrightarrow> \<exists>i < cap. sl i = Some e \<and> on_walk sl cap (home (key e) cap) i"
  using assms unfolding table_ok_def by simp_all

lemma table_ok_cong:
  assumes "\<And>e. e \<in> S \<Longrightarrow> key e = key' e"
  shows "table_ok home key sl cap S \<longleftrightarrow> table_ok home key' sl cap S"
  unfolding table_ok_def using assms by (simp cong: inj_on_cong)

lemma table_ok_empty: "table_ok home key (\<lambda>_. None) (2 ^ b) {}"
  by (auto simp: table_ok_def)

lemma table_ok_free_slot:
  assumes "table_ok home key sl cap S"
  obtains i where "i < cap" "sl i = None"
proof -
  have "\<exists>i<cap. sl i = None"
  proof (rule ccontr)
    assume "\<not> ?thesis"
    then have full: "\<And>i. i < cap \<Longrightarrow> sl i \<noteq> None" by auto
    have "inj_on (\<lambda>i. the (sl i)) {..<cap}"
      using assms full unfolding table_ok_def inj_on_def
      by (metis lessThan_iff option.collapse)
    moreover have "(\<lambda>i. the (sl i)) ` {..<cap} \<subseteq> S"
      using assms full unfolding table_ok_def by auto
    ultimately have "card {..<cap} \<le> card S"
      using assms by (metis card_image card_mono table_ok_def)
    then show False using assms by (simp add: table_ok_def)
  qed
  then show ?thesis using that by blast
qed

lemma on_walk_upd: "on_walk sl cap h i \<Longrightarrow> on_walk (sl(k \<mapsto> e)) cap h i"
  unfolding on_walk_def by auto

text \<open>Entering an entry that is known to be absent, as the rehash loops do.\<close>

definition enter ::
    "('k \<Rightarrow> nat \<Rightarrow> nat) \<Rightarrow> ('e \<Rightarrow> 'k) \<Rightarrow> nat \<Rightarrow> (nat \<Rightarrow> 'e option) \<Rightarrow> 'e \<Rightarrow> (nat \<Rightarrow> 'e option)" where
  "enter home key cap sl e =
     (case probe sl (\<lambda>_. False) cap (home (key e) cap) cap of
        None \<Rightarrow> sl | Some h \<Rightarrow> sl(h \<mapsto> e))"

section \<open>The laws\<close>

locale open_addressing =
  fixes home :: "'k \<Rightarrow> nat \<Rightarrow> nat"
  assumes home_less: "cap = 2 ^ b \<Longrightarrow> home k cap < cap"
begin

text \<open>A probe from a key's home slot with one unit of fuel per slot always stops.\<close>

lemma probe_stops:
  assumes "table_ok home key sl cap S"
  shows "\<exists>i. probe sl hit cap (home k cap) cap = Some i \<and> i < cap \<and> stops sl hit i \<and>
    (\<exists>d < cap. i = (home k cap + d) mod cap \<and>
       (\<forall>j < d. \<not> stops sl hit ((home k cap + j) mod cap)))"
proof -
  let ?h = "home k cap"
  let ?P = "\<lambda>j. stops sl hit ((?h + j) mod cap)"
  obtain b where cap: "cap = 2 ^ b" using assms by (auto simp: table_ok_def)
  have h: "?h < cap" using home_less[OF cap] .
  obtain i where i: "i < cap" "sl i = None" using assms by (rule table_ok_free_slot)
  have "?P ((i + cap - ?h) mod cap)"
    using h i by (simp add: mod_simps stops_def)
  moreover have "(i + cap - ?h) mod cap < 0 + cap" using h by simp
  ultimately obtain d where d: "find_from ?P 0 cap = Some d"
    using find_from_None[of ?P 0 cap] by (metis le0 option.exhaust)
  then have "?P d" "d < cap" "\<forall>j<d. \<not> ?P j"
    using find_from_Some[OF d] by auto
  moreover have "probe sl hit cap ?h cap = Some ((?h + d) mod cap)"
    using probe_find_from[OF cap, of sl hit ?h 0 cap] h d by simp
  ultimately show ?thesis using h by (intro exI[of _ "(?h + d) mod cap"]) auto
qed

text \<open>A stored key is found at the slot that stores it.\<close>

lemma probe_hit:
  assumes ok: "table_ok home key sl cap S" and e: "e \<in> S"
  shows "\<exists>i. probe sl (\<lambda>x. key x = key e) cap (home (key e) cap) cap = Some i \<and>
    i < cap \<and> sl i = Some e"
proof -
  let ?h = "home (key e) cap" and ?hit = "\<lambda>x. key x = key e"
  obtain i d where p: "probe sl ?hit cap ?h cap = Some i" "i < cap" "stops sl ?hit i"
      and d: "d < cap" "i = (?h + d) mod cap" "\<forall>j < d. \<not> stops sl ?hit ((?h + j) mod cap)"
    using probe_stops[OF ok, of ?hit "key e"] by blast
  obtain k where k: "k < cap" "sl k = Some e" and w: "on_walk sl cap ?h k"
    using table_ok_stored[OF ok e] by auto
  from w obtain c where c: "c < cap" "k = (?h + c) mod cap"
      "\<forall>j < c. sl ((?h + j) mod cap) \<noteq> None"
    unfolding on_walk_def by auto
  have "d \<le> c"
  proof (rule ccontr)
    assume "\<not> d \<le> c"
    then have "\<not> stops sl ?hit k" using d(3) c(2) by simp
    with k(2) show False by (simp add: stops_def)
  qed
  moreover have "\<not> d < c"
  proof
    assume "d < c"
    then have "sl ((?h + d) mod cap) \<noteq> None" using c(3) by (elim allE impE)
    then have "sl i \<noteq> None" by (simp only: d(2) not_False_eq_True)
    then obtain x where x: "sl i = Some x" by auto
    with p(3) have kx: "key x = key e" by (simp add: stops_def)
    have xS: "x \<in> S" by (rule table_ok_mem[OF ok p(2) x])
    have "x = e" by (rule inj_onD[OF table_ok_inj[OF ok] kx xS e])
    with x have "sl i = Some e" by (simp only:)
    then have "i = k" by (rule table_ok_once[OF ok p(2) k(1) _ k(2)])
    then have "(?h + d) mod cap = (?h + c) mod cap" by (simp only: c(2) d(2))
    then have "d = c" using d(1) c(1) by (rule walk_inj)
    with \<open>d < c\<close> show False by simp
  qed
  ultimately have "d = c" by simp
  then have "i = k" using c(2) d(2) by (simp only:)
  with p(1,2) k show ?thesis by metis
qed

text \<open>An absent key leads to the empty slot its entry would take.\<close>

lemma probe_miss:
  assumes ok: "table_ok home key sl cap S" and k: "k \<notin> key ` S"
  shows "\<exists>i. probe sl (\<lambda>x. key x = k) cap (home k cap) cap = Some i \<and> i < cap \<and>
    sl i = None \<and> on_walk sl cap (home k cap) i"
proof -
  obtain i d where p: "probe sl (\<lambda>x. key x = k) cap (home k cap) cap = Some i" "i < cap"
      "stops sl (\<lambda>x. key x = k) i"
      and d: "d < cap" "i = (home k cap + d) mod cap"
        "\<forall>j < d. \<not> stops sl (\<lambda>x. key x = k) ((home k cap + j) mod cap)"
    using probe_stops[OF ok] by blast
  have "sl i = None"
    using p k ok by (auto simp: stops_def table_ok_def split: option.splits)
  moreover have "on_walk sl cap (home k cap) i"
    using d unfolding on_walk_def stops_def by (metis option.case_eq_if)
  ultimately show ?thesis using p by blast
qed

text \<open>Filling that slot stores the entry and keeps every other entry reachable.\<close>

lemma insert_ok:
  assumes ok: "table_ok home key sl cap S" and new: "key e \<notin> key ` S"
    and room: "Suc (card S) < cap" and i: "i < cap" "sl i = None" "on_walk sl cap (home (key e) cap) i"
  shows "table_ok home key (sl(i \<mapsto> e)) cap (insert e S)"
proof -
  have "e \<notin> S" using new by blast
  then have "card (insert e S) < cap" "finite (insert e S)"
    using ok room by (simp_all add: table_ok_def)
  moreover have "inj_on key (insert e S)"
    using table_ok_inj[OF ok] new \<open>e \<notin> S\<close> by simp
  moreover have "\<forall>x \<in> insert e S. \<exists>j < cap. (sl(i \<mapsto> e)) j = Some x \<and>
      on_walk (sl(i \<mapsto> e)) cap (home (key x) cap) j"
  proof
    fix x assume x: "x \<in> insert e S"
    show "\<exists>j < cap. (sl(i \<mapsto> e)) j = Some x \<and> on_walk (sl(i \<mapsto> e)) cap (home (key x) cap) j"
    proof (cases "x = e")
      case True
      then show ?thesis using i on_walk_upd by fastforce
    next
      case False
      with x obtain j where "j < cap" "sl j = Some x" "on_walk sl cap (home (key x) cap) j"
        using ok by (auto simp: table_ok_def)
      with i(2) show ?thesis by (intro exI[of _ j]) (auto intro: on_walk_upd)
    qed
  qed
  moreover have "\<forall>a < cap. \<forall>b < cap. \<forall>x. (sl(i \<mapsto> e)) a = Some x \<longrightarrow>
      (sl(i \<mapsto> e)) b = Some x \<longrightarrow> a = b"
  proof (intro allI impI)
    fix a b x
    assume ab: "a < cap" "b < cap" "(sl(i \<mapsto> e)) a = Some x" "(sl(i \<mapsto> e)) b = Some x"
    have "\<forall>c < cap. sl c \<noteq> Some e"
      using table_ok_mem[OF ok] \<open>e \<notin> S\<close> by blast
    with table_ok_once[OF ok, of a b x] show "a = b" using ab by (cases "a = i"; cases "b = i"; force)
  qed
  moreover have "\<forall>a < cap. \<forall>x. (sl(i \<mapsto> e)) a = Some x \<longrightarrow> x \<in> insert e S"
    using table_ok_mem[OF ok] by auto
  ultimately show ?thesis using table_ok_cap[OF ok] unfolding table_ok_def by blast
qed

lemma enter_ok:
  assumes ok: "table_ok home key sl cap S" and new: "key e \<notin> key ` S" and room: "Suc (card S) < cap"
  shows "table_ok home key (enter home key cap sl e) cap (insert e S)"
proof -
  obtain i d where p: "probe sl (\<lambda>_. False) cap (home (key e) cap) cap = Some i" "i < cap"
      "stops sl (\<lambda>_. False) i"
      and d: "d < cap" "i = (home (key e) cap + d) mod cap"
        "\<forall>j < d. \<not> stops sl (\<lambda>_. False) ((home (key e) cap + j) mod cap)"
    using probe_stops[OF ok, of "\<lambda>_. False" "key e"] by blast
  have "sl i = None" using p(3) by (simp add: stops_def split: option.splits)
  moreover have "on_walk sl cap (home (key e) cap) i"
    using d unfolding on_walk_def stops_def by (metis option.case_eq_if)
  ultimately show ?thesis using insert_ok[OF ok new room p(2)] p(1) by (simp add: enter_def)
qed

lemma enter_all_ok:
  assumes "table_ok home key sl cap S" "distinct es" "set es \<inter> S = {}"
    "inj_on key (S \<union> set es)" "card S + length es < cap"
  shows "table_ok home key (foldl (enter home key cap) sl es) cap (S \<union> set es)"
  using assms
proof (induction es arbitrary: sl S)
  case Nil
  then show ?case by simp
next
  case (Cons e es)
  have fin: "finite S" by (rule table_ok_finite[OF Cons.prems(1)])
  have "key e \<notin> key ` S"
    using Cons.prems(3,4) by (auto simp: inj_on_def)
  then have ok: "table_ok home key (enter home key cap sl e) cap (insert e S)"
    using Cons.prems(1,5) by (intro enter_ok) auto
  moreover have "card (insert e S) + length es < cap"
    using Cons.prems(3,5) fin by (simp add: card_insert_if)
  ultimately have "table_ok home key (foldl (enter home key cap) (enter home key cap sl e) es) cap
      (insert e S \<union> set es)"
    using Cons.prems(2,3,4) by (intro Cons.IH) auto
  moreover have "insert e S \<union> set es = S \<union> set (e # es)" by auto
  ultimately show ?case by simp
qed

end

end
