(* ===== verification/Levels.thy ===== *)
theory Levels
  imports ProbeTable
begin

text \<open>
  The level trie of a net (\<open>src/net.c\<close>, ``the level trie'').  A level is a position in the term,
  the branches taken from the root; interning the paths makes equality an integer comparison, the
  meet the lowest common ancestor and extension an intern.  The record holds the C arrays
  \<open>lv_parent\<close>, \<open>lv_bit\<close>, \<open>lv_depth\<close> and \<open>lv_hash\<close> as functions of the index, the counters
  \<open>nlv\<close>, \<open>lvcap\<close> and \<open>lv_hcap\<close>, and the theory proves what the operations do to the paths the
  levels stand for.
\<close>

section \<open>State\<close>

record levels =
  lv_parent :: "nat \<Rightarrow> nat"
  lv_depth_arr :: "nat \<Rightarrow> nat"
  lv_bit :: "nat \<Rightarrow> nat"
  lv_hash :: "nat \<Rightarrow> nat option"   \<comment> \<open>0 in the C table is an empty slot\<close>
  nlv :: nat
  lvcap :: nat
  lv_hcap :: nat

text \<open>The doubling loop of every growable array: \<open>while (nc < need) nc *= 2\<close>.\<close>

function grow_to :: "nat \<Rightarrow> nat \<Rightarrow> nat" where
  "grow_to nc need = (if 0 < nc \<and> nc < need then grow_to (nc * 2) need else nc)"
  by pat_completeness auto
termination
  by (relation "measure (\<lambda>(nc, need). need - nc)") auto

declare grow_to.simps [simp del]

lemma grow_to_ge: "0 < nc \<Longrightarrow> need \<le> grow_to nc need \<and> nc \<le> grow_to nc need"
proof (induction nc need rule: grow_to.induct)
  case (1 nc need)
  then show ?case by (cases "nc < need") (auto simp: grow_to.simps[of nc need])
qed

definition lv_ensure :: "levels \<Rightarrow> nat \<Rightarrow> levels" where
  "lv_ensure L need =
     (if need \<le> lvcap L then L
      else L\<lparr>lvcap := grow_to (if lvcap L \<noteq> 0 then lvcap L * 2 else 256) need\<rparr>)"

text \<open>The masked 32-bit hash of an edge.\<close>

definition lv_home :: "nat \<times> nat \<Rightarrow> nat \<Rightarrow> nat" where
  "lv_home k cap = (case k of (parent, br) \<Rightarrow>
     slot_mask cap (unat ((of_nat parent :: 32 word) * 2654435761 + of_nat br)))"

definition lv_key :: "levels \<Rightarrow> nat \<Rightarrow> nat \<times> nat" where
  "lv_key L l = (lv_parent L l, lv_bit L l)"

text \<open>\<open>lv_hcap_for\<close>: a power of two at least twice the entries, starting at 1024.\<close>

function hcap_loop :: "nat \<Rightarrow> nat \<Rightarrow> nat" where
  "hcap_loop cap entries =
     (if 0 < cap \<and> cap < (entries + 1) * 2 \<and> \<not> 2 ^ 30 < cap
      then hcap_loop (cap * 2) entries else cap)"
  by pat_completeness auto
termination
  by (relation "measure (\<lambda>(cap, entries). (entries + 1) * 2 - cap)") auto

declare hcap_loop.simps [simp del]

definition lv_hcap_for :: "nat \<Rightarrow> nat" where
  "lv_hcap_for entries = hcap_loop 1024 entries"

text \<open>Entering level \<open>l\<close> at the first empty slot of its walk, as the rehash loop does.\<close>

definition lv_enter :: "levels \<Rightarrow> nat \<Rightarrow> (nat \<Rightarrow> nat option) \<Rightarrow> nat \<Rightarrow> (nat \<Rightarrow> nat option)" where
  "lv_enter L cap = enter lv_home (lv_key L) cap"

definition lv_rehash :: "levels \<Rightarrow> nat \<Rightarrow> levels" where
  "lv_rehash L cap =
     L\<lparr>lv_hcap := cap, lv_hash := foldl (lv_enter L cap) (\<lambda>_. None) [1..<Suc (nlv L)]\<rparr>"

section \<open>Operations\<close>

text \<open>
  \<open>lv_intern\<close>.  The first two steps keep the table at most half full; the walk then stops at the
  level that already names this edge, or at the empty slot the new level takes.  The arrays are
  grown to hold index \<open>nlv + 1\<close> before it is written.
\<close>

definition lv_prepare :: "levels \<Rightarrow> levels" where
  "lv_prepare L =
     (let L1 = (if lv_hcap L = 0 then lv_rehash L (lv_hcap_for (nlv L)) else L)
      in if (nlv L1 + 1) * 2 > lv_hcap L1 then lv_rehash L1 (lv_hcap L1 * 2) else L1)"

definition lv_append :: "levels \<Rightarrow> nat \<Rightarrow> nat \<Rightarrow> nat \<Rightarrow> levels \<times> nat" where
  "lv_append L h parent br =
     (let L' = (if nlv L + 2 > lvcap L then lv_ensure L (nlv L + 2) else L);
          l = Suc (nlv L')
      in (L'\<lparr>nlv := l,
             lv_parent := (lv_parent L')(l := parent),
             lv_bit := (lv_bit L')(l := br mod 256),
             lv_depth_arr := (lv_depth_arr L')(l :=
                if parent \<noteq> 0 then lv_depth_arr L' parent + 1 else 1),
             lv_hash := (lv_hash L')(h \<mapsto> l)\<rparr>, l))"

definition lv_intern :: "levels \<Rightarrow> nat \<Rightarrow> nat \<Rightarrow> levels \<times> nat" where
  "lv_intern L0 parent br =
     (let L = lv_prepare L0
      in case probe (lv_hash L) (\<lambda>l. lv_key L l = (parent, br mod 256)) (lv_hcap L)
                (lv_home (parent, br) (lv_hcap L)) (lv_hcap L) of
           None \<Rightarrow> (L, 0)
         | Some h \<Rightarrow> (case lv_hash L h of Some l \<Rightarrow> (L, l) | None \<Rightarrow> lv_append L h parent br))"

definition lv_depth :: "levels \<Rightarrow> nat \<Rightarrow> nat" where
  "lv_depth L l = (if l \<noteq> 0 then lv_depth_arr L l else 0)"

definition lv_up :: "levels \<Rightarrow> nat \<Rightarrow> nat" where
  "lv_up L l = (if l \<noteq> 0 then lv_parent L l else 0)"

definition scope_app :: "levels \<Rightarrow> gauge \<Rightarrow> nat \<Rightarrow> levels \<times> gauge" where
  "scope_app L s br = lv_intern L s (and br 1)"

text \<open>\<open>scope_meet\<close>: the three guarded climbs.  \<open>None\<close> is the jump to \<open>bad\<close>.\<close>

fun climb_to :: "levels \<Rightarrow> nat \<Rightarrow> gauge \<Rightarrow> nat \<Rightarrow> (gauge \<times> nat) option" where
  "climb_to L guard a d =
     (if lv_depth L a > d
      then (case guard of 0 \<Rightarrow> None | Suc g \<Rightarrow> climb_to L g (lv_up L a) d)
      else Some (a, guard))"

fun climb_both :: "levels \<Rightarrow> nat \<Rightarrow> gauge \<Rightarrow> gauge \<Rightarrow> gauge option" where
  "climb_both L guard a b =
     (if a \<noteq> b
      then (case guard of 0 \<Rightarrow> None | Suc g \<Rightarrow> climb_both L g (lv_up L a) (lv_up L b))
      else Some a)"

declare climb_to.simps [simp del] climb_both.simps [simp del]

definition scope_meet :: "levels \<Rightarrow> gauge \<Rightarrow> gauge \<Rightarrow> gauge" where
  "scope_meet L a b =
     (case climb_to L (nlv L + 2) a (lv_depth L b) of
        None \<Rightarrow> 0
      | Some (a', g) \<Rightarrow>
          (case climb_to L g b (lv_depth L a') of
             None \<Rightarrow> 0
           | Some (b', g') \<Rightarrow>
               (case climb_both L g' a' b' of None \<Rightarrow> 0 | Some c \<Rightarrow> c)))"

text \<open>\<open>lvl_path\<close>: the bits from the root down to a level, written from the back.\<close>

primrec path_from :: "levels \<Rightarrow> nat \<Rightarrow> nat \<Rightarrow> nat list" where
  "path_from L 0 l = []"
| "path_from L (Suc d) l = path_from L d (lv_parent L l) @ [lv_bit L l]"

definition lvl_path :: "levels \<Rightarrow> gauge \<Rightarrow> nat list" where
  "lvl_path L s = path_from L (lv_depth L s) s"

text \<open>Interning a path edge by edge below a level.\<close>

fun intern_path :: "levels \<Rightarrow> nat \<Rightarrow> nat list \<Rightarrow> levels \<times> nat" where
  "intern_path L cur [] = (L, cur)"
| "intern_path L cur (b # bs) = (case lv_intern L cur b of (L', l) \<Rightarrow> intern_path L' l bs)"

definition scope_rebase :: "levels \<Rightarrow> levels \<Rightarrow> gauge \<Rightarrow> gauge \<Rightarrow> levels \<times> gauge" where
  "scope_rebase L src lvl s = (if s = 0 then (L, lvl) else intern_path L lvl (lvl_path src s))"

text \<open>The label of a commuting copy: \<open>[gen] ++ path(node) ++ path(dup)\<close>.\<close>

definition lvl_prefix2 :: "levels \<Rightarrow> nat \<Rightarrow> gauge \<Rightarrow> gauge \<Rightarrow> levels \<times> gauge" where
  "lvl_prefix2 L gen a b =
     (case lv_intern L 0 gen of (L1, cur) \<Rightarrow>
        (case intern_path L1 cur (path_from L1 (lv_depth L a) a) of (L2, cur2) \<Rightarrow>
           intern_path L2 cur2 (path_from L1 (lv_depth L b) b)))"

definition level_set_loop :: "nat list \<Rightarrow> nat list \<Rightarrow> levels \<Rightarrow> nat list \<Rightarrow> levels" where
  "level_set_loop par bits =
     foldl (\<lambda>M l. M\<lparr>lv_parent := (lv_parent M)(l := par ! (l - 1)),
                    lv_bit := (lv_bit M)(l := bits ! (l - 1)),
                    lv_depth_arr := (lv_depth_arr M)(l :=
                       if par ! (l - 1) \<noteq> 0 then lv_depth_arr M (par ! (l - 1)) + 1 else 1)\<rparr>)"

definition net_level_set :: "levels \<Rightarrow> nat list \<Rightarrow> nat list \<Rightarrow> levels" where
  "net_level_set L par bits =
     (let k = length par;
          L1 = lv_ensure L (k + 1);
          L2 = L1\<lparr>nlv := k,
                  lv_parent := (lv_parent L1)(0 := 0),
                  lv_bit := (lv_bit L1)(0 := 0),
                  lv_depth_arr := (lv_depth_arr L1)(0 := 0)\<rparr>
      in lv_rehash (level_set_loop par bits L2 [1..<Suc k]) (lv_hcap_for k))"

text \<open>The levels of a fresh net (\<open>net_init\<close>): only the root, and no table yet.\<close>

definition levels_init :: levels where
  "levels_init = lv_ensure
     \<lparr>lv_parent = (\<lambda>_. 0), lv_depth_arr = (\<lambda>_. 0), lv_bit = (\<lambda>_. 0),
      lv_hash = (\<lambda>_. None), nlv = 0, lvcap = 0, lv_hcap = 0\<rparr> 1"

section \<open>The invariant\<close>

interpretation lvt: open_addressing lv_home
  by unfold_locales (auto simp: lv_home_def slot_mask_mod)

text \<open>Every level points to an earlier one and carries its depth; levels are numbered from 1.\<close>

definition lv_edges :: "levels \<Rightarrow> bool" where
  "lv_edges L \<longleftrightarrow> (\<forall>l. 1 \<le> l \<and> l \<le> nlv L \<longrightarrow>
     lv_parent L l < l \<and> lv_bit L l < 256 \<and>
     lv_depth_arr L l = (if lv_parent L l \<noteq> 0 then lv_depth_arr L (lv_parent L l) + 1 else 1))"

definition lv_wf :: "levels \<Rightarrow> bool" where
  "lv_wf L \<longleftrightarrow> lv_edges L \<and> nlv L + 1 \<le> lvcap L \<and>
     (if lv_hcap L = 0 then nlv L = 0
      else table_ok lv_home (lv_key L) (lv_hash L) (lv_hcap L) {1..nlv L} \<and> nlv L * 2 \<le> lv_hcap L)"

text \<open>Levels only ever grow: what a level meant, it keeps meaning.\<close>

definition lv_ext :: "levels \<Rightarrow> levels \<Rightarrow> bool" where
  "lv_ext L M \<longleftrightarrow> nlv L \<le> nlv M \<and>
     (\<forall>l \<le> nlv L. lv_parent M l = lv_parent L l \<and> lv_bit M l = lv_bit L l \<and>
        lv_depth_arr M l = lv_depth_arr L l)"

lemma lv_ext_refl [simp]: "lv_ext L L"
  by (simp add: lv_ext_def)

lemma lv_ext_trans [trans]: "lv_ext L M \<Longrightarrow> lv_ext M N \<Longrightarrow> lv_ext L N"
  by (auto simp: lv_ext_def)

lemma lv_ext_nlv: "lv_ext L M \<Longrightarrow> nlv L \<le> nlv M"
  by (simp add: lv_ext_def)

lemma table_keys_inj: "lv_wf L \<Longrightarrow> inj_on (lv_key L) {1..nlv L}"
  by (auto simp: lv_wf_def dest: table_ok_inj split: if_splits)

lemma lv_edgesD:
  assumes "lv_wf L" "1 \<le> l" "l \<le> nlv L"
  shows "lv_parent L l < l" "lv_bit L l < 256"
    "lv_depth_arr L l = (if lv_parent L l \<noteq> 0 then lv_depth_arr L (lv_parent L l) + 1 else 1)"
  using assms unfolding lv_wf_def lv_edges_def by blast+

lemma rehash_ok:
  assumes "inj_on (lv_key L) {1..nlv L}" "nlv L < 2 ^ b"
  shows "table_ok lv_home (lv_key L) (lv_hash (lv_rehash L (2 ^ b))) (2 ^ b) {1..nlv L}"
proof -
  have "set [1..<Suc (nlv L)] = {1..nlv L}" by auto
  moreover have "table_ok lv_home (lv_key L)
      (foldl (enter lv_home (lv_key L) (2 ^ b)) (\<lambda>_. None) [1..<Suc (nlv L)]) (2 ^ b)
      ({} \<union> set [1..<Suc (nlv L)])"
    using assms calculation by (intro lvt.enter_all_ok table_ok_empty) auto
  ultimately show ?thesis by (simp add: lv_rehash_def lv_enter_def)
qed

lemma lv_rehash_fields [simp]:
  "nlv (lv_rehash L c) = nlv L" "lv_parent (lv_rehash L c) = lv_parent L"
  "lv_bit (lv_rehash L c) = lv_bit L" "lv_depth_arr (lv_rehash L c) = lv_depth_arr L"
  "lvcap (lv_rehash L c) = lvcap L" "lv_hcap (lv_rehash L c) = c"
  "lv_key (lv_rehash L c) = lv_key L"
  by (simp_all add: lv_rehash_def lv_key_def fun_eq_iff)

lemma lv_hcap_for_0: "lv_hcap_for 0 = 1024"
  by (simp add: lv_hcap_for_def hcap_loop.simps)

lemma lv_wf_rehash:
  assumes wf: "lv_wf L" and c: "c = 2 ^ b" and room: "nlv L * 2 \<le> c"
  shows "lv_wf (lv_rehash L c)"
proof -
  have "nlv L < 2 ^ b" using room c by (cases "nlv L = 0") auto
  then have "table_ok lv_home (lv_key L) (lv_hash (lv_rehash L c)) c {1..nlv L}"
    unfolding c by (intro rehash_ok table_keys_inj wf)
  then show ?thesis using wf room c by (simp add: lv_wf_def lv_edges_def)
qed

text \<open>After \<open>lv_prepare\<close> the table exists and keeps a free slot for one more level.\<close>

lemma lv_prepare_fields [simp]:
  "nlv (lv_prepare L) = nlv L" "lv_parent (lv_prepare L) = lv_parent L"
  "lv_bit (lv_prepare L) = lv_bit L" "lv_depth_arr (lv_prepare L) = lv_depth_arr L"
  "lvcap (lv_prepare L) = lvcap L" "lv_key (lv_prepare L) = lv_key L"
  by (simp_all add: lv_prepare_def Let_def)

lemma lv_prepare_ok:
  assumes wf: "lv_wf L"
  shows "lv_wf (lv_prepare L)" "(nlv L + 1) * 2 \<le> lv_hcap (lv_prepare L)"
proof -
  define L1 where "L1 = (if lv_hcap L = 0 then lv_rehash L (lv_hcap_for (nlv L)) else L)"
  have zero: "lv_hcap L = 0 \<Longrightarrow> nlv L = 0" using wf by (simp add: lv_wf_def)
  have f1: "nlv L1 = nlv L" by (simp add: L1_def)
  have wf1: "lv_wf L1"
    using lv_wf_rehash[OF wf, of 1024 10] wf zero lv_hcap_for_0 by (simp add: L1_def)
  have "lv_hcap L1 \<noteq> 0" using zero by (auto simp: L1_def lv_hcap_for_0)
  then obtain b where b: "lv_hcap L1 = 2 ^ b" and half: "nlv L1 * 2 \<le> lv_hcap L1"
    using wf1 table_ok_cap[of lv_home "lv_key L1" "lv_hash L1" "lv_hcap L1" "{1..nlv L1}"]
    by (auto simp: lv_wf_def)
  have prep: "lv_prepare L = (if (nlv L1 + 1) * 2 > lv_hcap L1
      then lv_rehash L1 (lv_hcap L1 * 2) else L1)"
    by (simp add: lv_prepare_def L1_def Let_def)
  show "lv_wf (lv_prepare L)"
    using lv_wf_rehash[OF wf1, of "lv_hcap L1 * 2" "Suc b"] wf1 b half by (simp add: prep)
  have "1 \<le> lv_hcap L1" using b by simp
  then show "(nlv L + 1) * 2 \<le> lv_hcap (lv_prepare L)"
    using half f1 by (simp add: prep) presburger
qed

lemma lv_ensure_fields [simp]:
  "nlv (lv_ensure L k) = nlv L" "lv_parent (lv_ensure L k) = lv_parent L"
  "lv_bit (lv_ensure L k) = lv_bit L" "lv_depth_arr (lv_ensure L k) = lv_depth_arr L"
  "lv_hash (lv_ensure L k) = lv_hash L" "lv_hcap (lv_ensure L k) = lv_hcap L"
  "lv_key (lv_ensure L k) = lv_key L"
  by (simp_all add: lv_ensure_def lv_key_def fun_eq_iff)

lemma lv_ensure_cap: "k \<le> lvcap (lv_ensure L k)"
  using grow_to_ge[of "if lvcap L \<noteq> 0 then lvcap L * 2 else 256" k]
  by (auto simp: lv_ensure_def)

text \<open>
  Interning an edge: the result names exactly that edge, an edge already interned gives its own
  level, and no earlier level changes.
\<close>

lemma lv_intern_spec:
  assumes wf: "lv_wf L" and p: "parent \<le> nlv L" and br: "br < 256"
    and res: "lv_intern L parent br = (L', l)"
  shows "lv_wf L'" "lv_ext L L'" "1 \<le> l" "l \<le> nlv L'" "lv_parent L' l = parent" "lv_bit L' l = br"
    and "(\<exists>k. 1 \<le> k \<and> k \<le> nlv L \<and> lv_parent L k = parent \<and> lv_bit L k = br) \<Longrightarrow> nlv L' = nlv L"
    and "nlv L' \<le> nlv L + 1"
proof -
  let ?P = "lv_prepare L" and ?k = "(parent, br)"
  let ?cap = "lv_hcap ?P" and ?S = "{1..nlv L}"
  note prep = lv_prepare_ok[OF wf]
  have cap0: "?cap \<noteq> 0" using prep(2) by simp
  then have ok: "table_ok lv_home (lv_key L) (lv_hash ?P) ?cap ?S"
    using prep(1) by (simp add: lv_wf_def)
  have ext: "lv_ext L ?P" by (simp add: lv_ext_def)
  have "lv_wf L' \<and> lv_ext L L' \<and> 1 \<le> l \<and> l \<le> nlv L' \<and> lv_parent L' l = parent \<and> lv_bit L' l = br
    \<and> ((\<exists>k. 1 \<le> k \<and> k \<le> nlv L \<and> lv_parent L k = parent \<and> lv_bit L k = br) \<longrightarrow> nlv L' = nlv L)
    \<and> nlv L' \<le> nlv L + 1"
  proof (cases "?k \<in> lv_key L ` ?S")
    case True
    then obtain e where e: "e \<in> ?S" "lv_key L e = ?k" by (metis imageE)
    obtain i where i: "probe (lv_hash ?P) (\<lambda>x. lv_key L x = ?k) ?cap (lv_home ?k ?cap) ?cap = Some i"
        "lv_hash ?P i = Some e"
      using lvt.probe_hit[OF ok e(1)] unfolding e(2) by metis
    have "lv_intern L parent br = (?P, e)"
      using i br by (simp add: lv_intern_def Let_def)
    with res e prep(1) ext show ?thesis by (auto simp: lv_key_def)
  next
    case False
    obtain i where i: "probe (lv_hash ?P) (\<lambda>x. lv_key L x = ?k) ?cap (lv_home ?k ?cap) ?cap = Some i"
        "i < ?cap" "lv_hash ?P i = None" "on_walk (lv_hash ?P) ?cap (lv_home ?k ?cap) i"
      using lvt.probe_miss[OF ok False] by metis
    define L2 where "L2 = (if nlv ?P + 2 > lvcap ?P then lv_ensure ?P (nlv ?P + 2) else ?P)"
    have f2: "nlv L2 = nlv L" "lv_parent L2 = lv_parent L" "lv_bit L2 = lv_bit L"
      "lv_depth_arr L2 = lv_depth_arr L" "lv_hash L2 = lv_hash ?P" "lv_hcap L2 = ?cap"
      by (simp_all add: L2_def)
    have cap2: "nlv L + 2 \<le> lvcap L2"
      using lv_ensure_cap[of "nlv L + 2" ?P] by (auto simp: L2_def)
    let ?l = "Suc (nlv L)"
    define M where "M = L2\<lparr>nlv := ?l, lv_parent := (lv_parent L2)(?l := parent),
        lv_bit := (lv_bit L2)(?l := br),
        lv_depth_arr := (lv_depth_arr L2)(?l :=
           if parent \<noteq> 0 then lv_depth_arr L2 parent + 1 else 1),
        lv_hash := (lv_hash L2)(i \<mapsto> ?l)\<rparr>"
    have "lv_append ?P i parent br = (M, ?l)"
      unfolding lv_append_def Let_def L2_def[symmetric] using br by (simp add: M_def f2)
    then have "lv_intern L parent br = (M, ?l)"
      using i br by (simp add: lv_intern_def Let_def)
    then have M: "L' = M" "l = ?l" using res by simp_all
    have kl: "lv_key M ?l = ?k" by (simp add: lv_key_def M_def)
    have ks: "\<And>e. e \<in> ?S \<Longrightarrow> lv_key M e = lv_key L e"
      by (auto simp: lv_key_def M_def f2)
    have ok': "table_ok lv_home (lv_key M) (lv_hash ?P) ?cap ?S"
      using table_ok_cong[of ?S "lv_key M" "lv_key L" lv_home "lv_hash ?P" ?cap] ks ok by blast
    have new: "lv_key M ?l \<notin> lv_key M ` ?S"
      using False ks kl by (metis (no_types, lifting) image_cong)
    have room: "Suc (card ?S) < ?cap" using prep(2) by simp
    have "table_ok lv_home (lv_key M) ((lv_hash ?P)(i \<mapsto> ?l)) ?cap (insert ?l ?S)"
      using lvt.insert_ok[OF ok' new room i(2,3)] i(4) kl by simp
    moreover have "insert ?l ?S = {1..?l}" by auto
    ultimately have tab: "table_ok lv_home (lv_key M) (lv_hash M) (lv_hcap M) {1..nlv M}"
      by (simp add: M_def f2)
    have "lv_edges M"
      using wf p br unfolding lv_edges_def lv_wf_def
      by (auto simp: M_def f2 le_Suc_eq)
    then have "lv_wf M" using tab cap0 cap2 prep(2) by (simp add: lv_wf_def M_def f2)
    moreover have "lv_ext L M" by (auto simp: lv_ext_def M_def f2)
    moreover have "\<not> (\<exists>k. 1 \<le> k \<and> k \<le> nlv L \<and> lv_parent L k = parent \<and> lv_bit L k = br)"
      using False by (force simp: lv_key_def)
    ultimately show ?thesis by (auto simp: M M_def)
  qed
  then show "lv_wf L'" "lv_ext L L'" "1 \<le> l" "l \<le> nlv L'" "lv_parent L' l = parent" "lv_bit L' l = br"
    "(\<exists>k. 1 \<le> k \<and> k \<le> nlv L \<and> lv_parent L k = parent \<and> lv_bit L k = br) \<Longrightarrow> nlv L' = nlv L"
    "nlv L' \<le> nlv L + 1"
    by blast+
qed

section \<open>Levels are their paths\<close>

lemma lv_depth_0 [simp]: "lv_depth L 0 = 0" and lvl_path_0 [simp]: "lvl_path L 0 = []"
  by (simp_all add: lv_depth_def lvl_path_def)

lemma length_path_from [simp]: "length (path_from L d l) = d"
  by (induction d arbitrary: l) auto

lemma length_lvl_path [simp]: "length (lvl_path L s) = lv_depth L s"
  by (simp add: lvl_path_def)

lemma lv_depth_step:
  "lv_wf L \<Longrightarrow> 1 \<le> l \<Longrightarrow> l \<le> nlv L \<Longrightarrow> lv_depth L l = Suc (lv_depth L (lv_parent L l))"
  using lv_edgesD(3) by (simp add: lv_depth_def)

lemma lvl_path_step:
  "lv_wf L \<Longrightarrow> 1 \<le> l \<Longrightarrow> l \<le> nlv L \<Longrightarrow> lvl_path L l = lvl_path L (lv_parent L l) @ [lv_bit L l]"
  by (simp add: lvl_path_def lv_depth_step)

lemma level_induct [consumes 2, case_names root step]:
  assumes wf: "lv_wf L" and s: "s \<le> nlv L"
    and root: "P 0"
    and step: "\<And>l. 1 \<le> l \<Longrightarrow> l \<le> nlv L \<Longrightarrow> lv_parent L l < l \<Longrightarrow> P (lv_parent L l) \<Longrightarrow> P l"
  shows "P s"
  using s
proof (induction s rule: less_induct)
  case (less s)
  show ?case
  proof (cases "s = 0")
    case False
    then have "1 \<le> s" by simp
    then show ?thesis using step lv_edgesD(1)[OF wf] less by (meson less_imp_le order_trans)
  qed (use root in simp)
qed

lemma lv_depth_le:
  assumes wf: "lv_wf L" and s: "s \<le> nlv L"
  shows "lv_depth L s \<le> s"
  using wf s by (induction s rule: level_induct) (auto simp: lv_depth_step[OF wf])

lemma lvl_path_ext:
  assumes "lv_wf L" "lv_wf M" "lv_ext L M" "s \<le> nlv L"
  shows "lvl_path M s = lvl_path L s \<and> lv_depth M s = lv_depth L s"
  using assms(1,4)
proof (induction s rule: level_induct)
  case (step l)
  then show ?case
    using assms(1-3) lvl_path_step[of L l] lvl_path_step[of M l] lv_depth_step[of L l]
      lv_depth_step[of M l] by (simp add: lv_ext_def)
qed simp

text \<open>A level id and its path determine each other: comparing gauges compares paths.\<close>

lemma lvl_path_inj:
  assumes wf: "lv_wf L" and "s \<le> nlv L" "t \<le> nlv L" "lvl_path L s = lvl_path L t"
  shows "s = t"
  using assms(1,2,3,4)
proof (induction s arbitrary: t rule: level_induct)
  case root
  then show ?case using lvl_path_step[OF wf, of t] by (cases t) auto
next
  case (step l)
  have t: "1 \<le> t" using step.prems lvl_path_step[OF wf, of l] step.hyps by (cases t) auto
  have "lvl_path L (lv_parent L l) = lvl_path L (lv_parent L t)" "lv_bit L l = lv_bit L t"
    using step.prems step.hyps t lvl_path_step[OF wf, of l] lvl_path_step[OF wf, of t] by auto
  moreover have "lv_parent L t \<le> nlv L"
    using lv_edgesD(1)[OF wf t step.prems(1)] step.prems(1) by simp
  ultimately have "lv_key L l = lv_key L t" using step.IH by (simp add: lv_key_def)
  then show ?case using inj_onD[OF table_keys_inj[OF wf]] step.hyps t step.prems(1) by simp
qed

lemma lv_intern_path:
  assumes wf: "lv_wf L" and p: "parent \<le> nlv L" and br: "br < 256"
    and res: "lv_intern L parent br = (L', l)"
  shows "lvl_path L' l = lvl_path L parent @ [br]"
proof -
  note sp = lv_intern_spec[OF assms]
  show ?thesis
    using lvl_path_step[OF sp(1,3,4)] sp(5,6) lvl_path_ext[OF wf sp(1,2) p] by simp
qed

lemma intern_path_spec:
  assumes "lv_wf L" "cur \<le> nlv L" "\<forall>b \<in> set bs. b < 256" "intern_path L cur bs = (L', l)"
  shows "lv_wf L' \<and> lv_ext L L' \<and> l \<le> nlv L' \<and> lvl_path L' l = lvl_path L cur @ bs"
  using assms
proof (induction bs arbitrary: L cur)
  case Nil
  then show ?case by simp
next
  case (Cons b bs)
  obtain M k where k: "lv_intern L cur b = (M, k)" by fastforce
  have b: "b < 256" using Cons.prems(3) by simp
  note sp = lv_intern_spec[OF Cons.prems(1,2) b k]
  have "lv_wf L' \<and> lv_ext M L' \<and> l \<le> nlv L' \<and> lvl_path L' l = lvl_path M k @ bs"
    using Cons.prems k sp(1,4) by (intro Cons.IH) auto
  then show ?case
    using lv_intern_path[OF Cons.prems(1,2) b k] lv_ext_trans[OF sp(2)] by simp
qed

lemma lvl_path_bits:
  assumes wf: "lv_wf L" and s: "s \<le> nlv L"
  shows "\<forall>b \<in> set (lvl_path L s). b < 256"
  using wf s
  by (induction s rule: level_induct) (auto simp: lvl_path_step[OF wf] lv_edgesD[OF wf])

lemma scope_app_spec:
  assumes "lv_wf L" "s \<le> nlv L" "scope_app L s br = (L', l)"
  shows "lv_wf L'" "lv_ext L L'" "l \<le> nlv L'" "lvl_path L' l = lvl_path L s @ [br mod 2]"
proof -
  have b: "and br 1 = br mod 2" by (simp add: and_one_eq)
  have lt: "br mod 2 < (256::nat)" by (rule order_less_trans[of _ 2]) simp_all
  note i = assms(3)[unfolded scope_app_def b]
  show "lv_wf L'" "lv_ext L L'" "l \<le> nlv L'" "lvl_path L' l = lvl_path L s @ [br mod 2]"
    using lv_intern_spec(1,2,4)[OF assms(1,2) lt i] lv_intern_path[OF assms(1,2) lt i] by blast+
qed

section \<open>The meet is the longest common prefix\<close>

fun lcp :: "'a list \<Rightarrow> 'a list \<Rightarrow> 'a list" where
  "lcp (x # xs) (y # ys) = (if x = y then x # lcp xs ys else [])"
| "lcp _ _ = []"

lemma lcp_same [simp]: "lcp xs xs = xs"
  by (induction xs) auto

lemma lcp_Nil [simp]: "lcp [] ys = []" "lcp xs [] = []"
  by (cases xs; simp)+

lemma lcp_commute: "lcp xs ys = lcp ys xs"
  by (induction xs ys rule: lcp.induct) auto

lemma lcp_snoc:
  "length xs = length ys \<Longrightarrow>
   lcp (xs @ [x]) (ys @ [y]) = (if xs = ys \<and> x = y then xs @ [x] else lcp xs ys)"
  by (induction xs ys rule: list_induct2) auto

lemma lcp_snoc_left: "length ys \<le> length xs \<Longrightarrow> lcp (xs @ [x]) ys = lcp xs ys"
  by (induction xs ys rule: lcp.induct) auto

lemma lcp_prefix: "\<exists>zs. xs = lcp xs ys @ zs" "\<exists>zs. ys = lcp xs ys @ zs"
  by (induction xs ys rule: lcp.induct) auto

lemma lcp_greatest: "xs = ps @ us \<Longrightarrow> ys = ps @ vs \<Longrightarrow> \<exists>zs. lcp xs ys = ps @ zs"
  by (induction ps arbitrary: xs ys) auto

lemma lv_up_le: "lv_wf L \<Longrightarrow> s \<le> nlv L \<Longrightarrow> lv_up L s \<le> nlv L"
  using lv_edgesD(1)[of L s] by (cases s) (auto simp: lv_up_def)

lemma lvl_path_up:
  "lv_wf L \<Longrightarrow> s \<le> nlv L \<Longrightarrow> s \<noteq> 0 \<Longrightarrow> lvl_path L s = lvl_path L (lv_up L s) @ [lv_bit L s]
     \<and> lv_depth L s = Suc (lv_depth L (lv_up L s))"
  using lvl_path_step[of L s] lv_depth_step[of L s] by (simp add: lv_up_def)

lemma climb_to_spec:
  assumes "lv_wf L" "a \<le> nlv L" "lv_depth L a \<le> d + g"
  shows "\<exists>a' g'. climb_to L g a d = Some (a', g') \<and> a' \<le> nlv L \<and>
    lv_depth L a' = min d (lv_depth L a) \<and> g \<le> g' + (lv_depth L a - d) \<and>
    (\<forall>ys. length ys \<le> d \<longrightarrow> lcp (lvl_path L a') ys = lcp (lvl_path L a) ys)"
  using assms
proof (induction g arbitrary: a)
  case 0
  then show ?case by (simp add: climb_to.simps min_absorb2)
next
  case (Suc g)
  show ?case
  proof (cases "lv_depth L a > d")
    case False
    then show ?thesis using Suc.prems by (simp add: climb_to.simps)
  next
    case True
    then have nz: "a \<noteq> 0" by (metis lv_depth_0 not_less0)
    note up = lvl_path_up[OF Suc.prems(1,2) nz] lv_up_le[OF Suc.prems(1,2)]
    have "lv_depth L (lv_up L a) \<le> d + g" using up Suc.prems(3) by simp
    from Suc.IH[OF Suc.prems(1) up(2) this] obtain a' g' where
      "climb_to L g (lv_up L a) d = Some (a', g')" "a' \<le> nlv L"
      "lv_depth L a' = min d (lv_depth L (lv_up L a))" "g \<le> g' + (lv_depth L (lv_up L a) - d)"
      "\<forall>ys. length ys \<le> d \<longrightarrow> lcp (lvl_path L a') ys = lcp (lvl_path L (lv_up L a)) ys"
      by blast
    moreover have "\<And>ys. length ys \<le> d \<Longrightarrow> lcp (lvl_path L a) ys = lcp (lvl_path L (lv_up L a)) ys"
      using up(1) True by (simp add: lcp_snoc_left)
    ultimately show ?thesis using True up(1) by (simp add: climb_to.simps)
  qed
qed

lemma climb_both_spec:
  assumes "lv_wf L" "a \<le> nlv L" "b \<le> nlv L" "lv_depth L a = lv_depth L b" "lv_depth L a \<le> g"
  shows "\<exists>c. climb_both L g a b = Some c \<and> c \<le> nlv L \<and>
    lvl_path L c = lcp (lvl_path L a) (lvl_path L b)"
  using assms
proof (induction g arbitrary: a b)
  case 0
  then have "lvl_path L a = lvl_path L b" by (metis le_0_eq length_0_conv length_lvl_path)
  then have "a = b" using lvl_path_inj 0 by blast
  then show ?case using 0 by (simp add: climb_both.simps)
next
  case (Suc g)
  show ?case
  proof (cases "a = b")
    case True
    then show ?thesis using Suc.prems by (simp add: climb_both.simps)
  next
    case False
    have "lv_depth L a \<noteq> 0"
      using False Suc.prems lvl_path_inj by (metis length_0_conv length_lvl_path)
    then have nz: "a \<noteq> 0" "b \<noteq> 0" using Suc.prems(4) by (metis lv_depth_0)+
    note upa = lvl_path_up[OF Suc.prems(1,2) nz(1)] lv_up_le[OF Suc.prems(1,2)]
      and upb = lvl_path_up[OF Suc.prems(1,3) nz(2)] lv_up_le[OF Suc.prems(1,3)]
    from Suc.IH[OF Suc.prems(1) upa(2) upb(2)] obtain c where
      c: "climb_both L g (lv_up L a) (lv_up L b) = Some c" "c \<le> nlv L"
        "lvl_path L c = lcp (lvl_path L (lv_up L a)) (lvl_path L (lv_up L b))"
      using upa(1) upb(1) Suc.prems(4,5) by auto
    have "lvl_path L a \<noteq> lvl_path L b" using lvl_path_inj False Suc.prems by blast
    then have "lcp (lvl_path L a) (lvl_path L b) = lcp (lvl_path L (lv_up L a)) (lvl_path L (lv_up L b))"
      using upa(1) upb(1) Suc.prems(4) lcp_snoc[of "lvl_path L (lv_up L a)" "lvl_path L (lv_up L b)"]
      by (metis Suc_inject length_lvl_path)
    then show ?thesis using c False by (simp add: climb_both.simps)
  qed
qed

lemma scope_meet_spec:
  assumes wf: "lv_wf L" and a: "a \<le> nlv L" and b: "b \<le> nlv L"
  shows "scope_meet L a b \<le> nlv L"
    and "lvl_path L (scope_meet L a b) = lcp (lvl_path L a) (lvl_path L b)"
proof -
  have da: "lv_depth L a \<le> nlv L" and db: "lv_depth L b \<le> nlv L"
    using lv_depth_le[OF wf] a b by (meson order_trans)+
  obtain a' g where 1: "climb_to L (nlv L + 2) a (lv_depth L b) = Some (a', g)" "a' \<le> nlv L"
    "lv_depth L a' = min (lv_depth L b) (lv_depth L a)" "nlv L + 2 \<le> g + (lv_depth L a - lv_depth L b)"
    "lcp (lvl_path L a') (lvl_path L b) = lcp (lvl_path L a) (lvl_path L b)"
    using climb_to_spec[OF wf a, of "lv_depth L b" "nlv L + 2"] da by auto
  have "lv_depth L b \<le> lv_depth L a' + g" using 1(3,4) da db by linarith
  from climb_to_spec[OF wf b this] obtain b' g' where
    2: "climb_to L g b (lv_depth L a') = Some (b', g')" "b' \<le> nlv L"
    "lv_depth L b' = min (lv_depth L a') (lv_depth L b)" "g \<le> g' + (lv_depth L b - lv_depth L a')"
    "lcp (lvl_path L b') (lvl_path L a') = lcp (lvl_path L b) (lvl_path L a')"
    by auto
  have "lv_depth L a' = lv_depth L b'" "lv_depth L a' \<le> g'"
    using 1(3,4) 2(3,4) da db by linarith+
  from climb_both_spec[OF wf 1(2) 2(2) this] obtain c where
    3: "climb_both L g' a' b' = Some c" "c \<le> nlv L" "lvl_path L c = lcp (lvl_path L a') (lvl_path L b')"
    by blast
  have eq: "scope_meet L a b = c" using 1(1) 2(1) 3(1) by (simp add: scope_meet_def)
  show "scope_meet L a b \<le> nlv L" using eq 3(2) by simp
  show "lvl_path L (scope_meet L a b) = lcp (lvl_path L a) (lvl_path L b)"
    using eq 3(3) 1(5) 2(5) by (metis lcp_commute)
qed

section \<open>Rebasing, labels, and loading a trie\<close>

lemma lv_wf_init: "lv_wf levels_init" and nlv_init [simp]: "nlv levels_init = 0"
  using lv_ensure_cap[of 1 "\<lparr>lv_parent = (\<lambda>_. 0), lv_depth_arr = (\<lambda>_. 0), lv_bit = (\<lambda>_. 0),
      lv_hash = (\<lambda>_. None), nlv = 0, lvcap = 0, lv_hcap = 0\<rparr>"]
  by (simp_all add: levels_init_def lv_wf_def lv_edges_def)

lemma scope_rebase_spec:
  assumes "lv_wf L" "lv_wf src" "lvl \<le> nlv L" "s \<le> nlv src" "scope_rebase L src lvl s = (L', l)"
  shows "lv_wf L'" "lv_ext L L'" "l \<le> nlv L'" "lvl_path L' l = lvl_path L lvl @ lvl_path src s"
proof -
  have "lv_wf L' \<and> lv_ext L L' \<and> l \<le> nlv L' \<and> lvl_path L' l = lvl_path L lvl @ lvl_path src s"
  proof (cases "s = 0")
    case True
    then show ?thesis using assms by (simp add: scope_rebase_def)
  next
    case False
    then show ?thesis
      using assms lvl_path_bits[OF assms(2,4)]
      by (intro intern_path_spec) (simp_all add: scope_rebase_def)
  qed
  then show "lv_wf L'" "lv_ext L L'" "l \<le> nlv L'" "lvl_path L' l = lvl_path L lvl @ lvl_path src s"
    by blast+
qed

lemma lvl_prefix2_spec:
  assumes wf: "lv_wf L" and a: "a \<le> nlv L" and b: "b \<le> nlv L" and gen: "gen < 256"
    and res: "lvl_prefix2 L gen a b = (L', l)"
  shows "lv_wf L'" "lv_ext L L'" "l \<le> nlv L'" "lvl_path L' l = gen # lvl_path L a @ lvl_path L b"
proof -
  obtain L1 c where 1: "lv_intern L 0 gen = (L1, c)" by fastforce
  note sp = lv_intern_spec[OF wf le0 gen 1]
  have pa: "path_from L1 (lv_depth L a) a = lvl_path L a"
    and pb: "path_from L1 (lv_depth L b) b = lvl_path L b"
    using lvl_path_ext[OF wf sp(1,2) a] lvl_path_ext[OF wf sp(1,2) b] by (auto simp: lvl_path_def)
  obtain L2 d where 2: "intern_path L1 c (lvl_path L a) = (L2, d)" by fastforce
  note sp2 = intern_path_spec[OF sp(1,4) lvl_path_bits[OF wf a] 2]
  have 3: "intern_path L2 d (lvl_path L b) = (L', l)"
    using res 1 2 by (simp add: lvl_prefix2_def pa pb)
  note sp3 = intern_path_spec[OF _ _ lvl_path_bits[OF wf b] 3]
  have "lvl_path L1 c = [gen]" using lv_intern_path[OF wf le0 gen 1] by simp
  then show "lv_wf L'" "lv_ext L L'" "l \<le> nlv L'" "lvl_path L' l = gen # lvl_path L a @ lvl_path L b"
    using sp2 sp3 sp(2) by (auto intro: lv_ext_trans)
qed

text \<open>A trie is reloaded edge by edge; ids are kept, and the paths with them.\<close>

lemma level_set_loop_spec:
  assumes "\<And>l. 1 \<le> l \<Longrightarrow> l \<le> k \<Longrightarrow> par ! (l - 1) < l"
  shows "let M = level_set_loop par bits L [1..<Suc k] in
    nlv M = nlv L \<and> lvcap M = lvcap L \<and> lv_hash M = lv_hash L \<and> lv_hcap M = lv_hcap L \<and>
    (\<forall>l. 1 \<le> l \<and> l \<le> k \<longrightarrow> lv_parent M l = par ! (l - 1) \<and> lv_bit M l = bits ! (l - 1) \<and>
       lv_depth_arr M l = (if par ! (l - 1) \<noteq> 0 then lv_depth_arr M (par ! (l - 1)) + 1 else 1))"
  using assms
proof (induction k)
  case 0
  then show ?case by (simp add: level_set_loop_def)
next
  case (Suc k)
  define M where "M = level_set_loop par bits L [1..<Suc k]"
  have IH: "nlv M = nlv L \<and> lvcap M = lvcap L \<and> lv_hash M = lv_hash L \<and> lv_hcap M = lv_hcap L \<and>
    (\<forall>l. 1 \<le> l \<and> l \<le> k \<longrightarrow> lv_parent M l = par ! (l - 1) \<and> lv_bit M l = bits ! (l - 1) \<and>
       lv_depth_arr M l = (if par ! (l - 1) \<noteq> 0 then lv_depth_arr M (par ! (l - 1)) + 1 else 1))"
    using Suc by (simp add: M_def Let_def)
  have par: "\<And>l. 1 \<le> l \<Longrightarrow> l \<le> Suc k \<Longrightarrow> par ! (l - 1) < l" using Suc.prems .
  have step: "level_set_loop par bits L [1..<Suc (Suc k)] =
     M\<lparr>lv_parent := (lv_parent M)(Suc k := par ! k), lv_bit := (lv_bit M)(Suc k := bits ! k),
       lv_depth_arr := (lv_depth_arr M)(Suc k := if par ! k \<noteq> 0 then lv_depth_arr M (par ! k) + 1 else 1)\<rparr>"
    by (simp add: level_set_loop_def M_def)
  have ne: "\<And>l. 1 \<le> l \<Longrightarrow> l \<le> Suc k \<Longrightarrow> par ! (l - 1) \<noteq> Suc k"
    using par by (metis leD)
  have "\<And>l. 1 \<le> l \<Longrightarrow> l \<le> Suc k \<Longrightarrow> l = Suc k \<or> (l \<noteq> Suc k \<and> 1 \<le> l \<and> l \<le> k)"
    by (auto simp: le_Suc_eq)
  then show ?case
    unfolding Let_def step using IH ne[of "Suc k"] ne by simp
qed

lemma hcap_loop_pow:
  "\<exists>b. cap = 2 ^ b \<Longrightarrow> \<exists>b. hcap_loop cap e = 2 ^ b \<and> cap \<le> 2 ^ b \<and>
     ((e + 1) * 2 \<le> 2 ^ b \<or> 2 ^ 30 < (2::nat) ^ b)"
proof (induction cap e rule: hcap_loop.induct)
  case (1 cap e)
  show ?case
  proof (cases "0 < cap \<and> cap < (e + 1) * 2 \<and> \<not> 2 ^ 30 < cap")
    case True
    obtain c where "cap = 2 ^ c" using "1.prems" by blast
    then have "\<exists>b. cap * 2 = 2 ^ b" by (intro exI[of _ "Suc c"]) simp
    from "1.IH"[OF True this] obtain b where
      "hcap_loop (cap * 2) e = 2 ^ b" "cap * 2 \<le> 2 ^ b" "(e + 1) * 2 \<le> 2 ^ b \<or> 2 ^ 30 < (2::nat) ^ b"
      by blast
    moreover have "hcap_loop cap e = hcap_loop (cap * 2) e"
      using True by (subst hcap_loop.simps) simp
    moreover have "cap \<le> 2 ^ b" using calculation(2) by simp
    ultimately show ?thesis by metis
  next
    case False
    then show ?thesis using "1.prems" by (auto simp: hcap_loop.simps[of cap e])
  qed
qed

lemma lv_hcap_for_big:
  assumes "k < 2 ^ 29"
  shows "\<exists>b. lv_hcap_for k = 2 ^ b \<and> k * 2 \<le> 2 ^ b"
proof -
  have "\<exists>b. (1024::nat) = 2 ^ b" by (rule exI[of _ 10]) simp
  from hcap_loop_pow[OF this, of k] assms show ?thesis
    unfolding lv_hcap_for_def by auto
qed

lemma net_level_set_spec:
  assumes len: "length bits = length par" and small: "length par < 2 ^ 29"
    and par: "\<And>l. 1 \<le> l \<Longrightarrow> l \<le> length par \<Longrightarrow> par ! (l - 1) < l"
    and bits: "\<forall>b \<in> set bits. b < 256" and dist: "distinct (zip par bits)"
  shows "lv_wf (net_level_set L par bits)"
    and "nlv (net_level_set L par bits) = length par"
    and "\<And>l. 1 \<le> l \<Longrightarrow> l \<le> length par \<Longrightarrow>
      lv_parent (net_level_set L par bits) l = par ! (l - 1) \<and>
      lv_bit (net_level_set L par bits) l = bits ! (l - 1)"
proof -
  let ?k = "length par"
  define L2 where "L2 = (lv_ensure L (?k + 1))\<lparr>nlv := ?k,
     lv_parent := (lv_parent (lv_ensure L (?k + 1)))(0 := 0),
     lv_bit := (lv_bit (lv_ensure L (?k + 1)))(0 := 0),
     lv_depth_arr := (lv_depth_arr (lv_ensure L (?k + 1)))(0 := 0)\<rparr>"
  define M where "M = level_set_loop par bits L2 [1..<Suc ?k]"
  have M: "nlv M = ?k" "lvcap M = lvcap (lv_ensure L (?k + 1))"
    "\<And>l. 1 \<le> l \<Longrightarrow> l \<le> ?k \<Longrightarrow> lv_parent M l = par ! (l - 1) \<and> lv_bit M l = bits ! (l - 1) \<and>
       lv_depth_arr M l = (if par ! (l - 1) \<noteq> 0 then lv_depth_arr M (par ! (l - 1)) + 1 else 1)"
    using level_set_loop_spec[of ?k par bits L2] par unfolding Let_def M_def[symmetric]
    by (auto simp: L2_def)
  have eq: "net_level_set L par bits = lv_rehash M (lv_hcap_for ?k)"
    by (simp add: net_level_set_def Let_def M_def L2_def)
  obtain b where b: "lv_hcap_for ?k = 2 ^ b" "?k * 2 \<le> 2 ^ b"
    using lv_hcap_for_big[OF small] by blast
  have key: "\<And>l. 1 \<le> l \<Longrightarrow> l \<le> ?k \<Longrightarrow> lv_key M l = zip par bits ! (l - 1)"
    using M(3) len by (simp add: lv_key_def)
  have bit_small: "\<And>l. 1 \<le> l \<Longrightarrow> l \<le> ?k \<Longrightarrow> bits ! (l - 1) < 256"
    using bits len by (simp add: nth_mem)
  have "inj_on (lv_key M) {1..nlv M}"
  proof (rule inj_onI)
    fix x y assume xy: "x \<in> {1..nlv M}" "y \<in> {1..nlv M}" "lv_key M x = lv_key M y"
    then have "zip par bits ! (x - 1) = zip par bits ! (y - 1)" using key M(1) by simp
    moreover have "x - 1 < length (zip par bits)" "y - 1 < length (zip par bits)"
      using xy M(1) len by auto
    ultimately have "x - 1 = y - 1" using dist nth_eq_iff_index_eq by blast
    moreover have "1 \<le> x" "1 \<le> y" using xy by auto
    ultimately show "x = y" by linarith
  qed
  moreover have "nlv M < 2 ^ b" using b(2) M(1) by (cases "length par") auto
  ultimately have "table_ok lv_home (lv_key M) (lv_hash (lv_rehash M (2 ^ b))) (2 ^ b) {1..nlv M}"
    by (rule rehash_ok)
  moreover have "lv_edges M"
    unfolding lv_edges_def M(1) using M(3) par bit_small by auto
  moreover have "?k + 1 \<le> lvcap M" using M(2) lv_ensure_cap by simp
  ultimately show "lv_wf (net_level_set L par bits)"
    unfolding eq b(1) lv_wf_def using b(2) M(1) by (simp add: lv_edges_def)
  show "nlv (net_level_set L par bits) = ?k" by (simp add: eq M(1))
  fix l assume "1 \<le> l" "l \<le> ?k"
  then show "lv_parent (net_level_set L par bits) l = par ! (l - 1) \<and>
      lv_bit (net_level_set L par bits) l = bits ! (l - 1)"
    using M(3) by (simp add: eq)
qed

section \<open>Properties\<close>

text \<open>C27. Interning names positions.  On a well-formed trie \<open>lv_intern\<close> returns a level whose path is
  the parent's path extended by the branch, changes the path of no existing level, keeps the trie and
  its hash table well formed, and is canonical: a level has that path only if it is the returned id,
  so comparing gauges (\<open>scope_eq\<close>) compares positions.\<close>

theorem intern_names_path:
  assumes "lv_wf L" "parent \<le> nlv L" "br < 256" "lv_intern L parent br = (L', l)"
  shows "lv_wf L' \<and> l \<le> nlv L' \<and> lvl_path L' l = lvl_path L parent @ [br] \<and>
    (\<forall>s \<le> nlv L. lvl_path L' s = lvl_path L s) \<and>
    (\<forall>t \<le> nlv L'. lvl_path L' t = lvl_path L' l \<longrightarrow> t = l)"
  using lv_intern_spec(1,2,4)[OF assms] lv_intern_path[OF assms] lvl_path_ext[OF assms(1)] lvl_path_inj
  by blast

theorem intern_names_path_witness:
  "lvl_path (fst (lv_intern levels_init 0 1)) (snd (lv_intern levels_init 0 1)) = [1]"
  using intern_names_path[OF lv_wf_init, of 0 1 "fst (lv_intern levels_init 0 1)"
      "snd (lv_intern levels_init 0 1)"] by simp

text \<open>The meet of two gauges is their lowest common ancestor: \<open>scope_meet\<close> never runs out of its
  guard, stays inside the trie, and its path is the longest common prefix of the two paths.\<close>

theorem scope_meet_lowest_common_ancestor:
  assumes "lv_wf L" "a \<le> nlv L" "b \<le> nlv L"
  shows "scope_meet L a b \<le> nlv L \<and> lvl_path L (scope_meet L a b) = lcp (lvl_path L a) (lvl_path L b)"
  using scope_meet_spec[OF assms] by blast

definition demo_levels :: levels where
  "demo_levels = net_level_set levels_init [0, 1, 1] [1, 0, 1]"

lemma demo_levels_wf: "lv_wf demo_levels" and demo_levels_nlv: "nlv demo_levels = 3"
  and demo_levels_edges: "lv_parent demo_levels 1 = 0" "lv_bit demo_levels 1 = 1"
    "lv_parent demo_levels 2 = 1" "lv_bit demo_levels 2 = 0"
    "lv_parent demo_levels 3 = 1" "lv_bit demo_levels 3 = 1"
proof -
  let ?par = "[0, 1, 1] :: nat list" and ?bits = "[1, 0, 1] :: nat list"
  have par: "\<And>l. 1 \<le> l \<Longrightarrow> l \<le> length ?par \<Longrightarrow> ?par ! (l - 1) < l"
    by (auto simp: numeral_3_eq_3 le_Suc_eq)
  note sp = net_level_set_spec[where bits = ?bits and par = ?par and L = levels_init]
  show "lv_wf demo_levels" "nlv demo_levels = 3" "lv_parent demo_levels 1 = 0" "lv_bit demo_levels 1 = 1"
    "lv_parent demo_levels 2 = 1" "lv_bit demo_levels 2 = 0"
    "lv_parent demo_levels 3 = 1" "lv_bit demo_levels 3 = 1"
    using sp(1,2)[OF _ _ par] sp(3)[OF _ _ par, of 1] sp(3)[OF _ _ par, of 2] sp(3)[OF _ _ par, of 3]
    by (simp_all add: demo_levels_def del: One_nat_def)
qed

lemma demo_levels_paths:
  "lvl_path demo_levels 1 = [1]" "lvl_path demo_levels 2 = [1, 0]" "lvl_path demo_levels 3 = [1, 1]"
  using lvl_path_step[OF demo_levels_wf, of 1] lvl_path_step[OF demo_levels_wf, of 2]
    lvl_path_step[OF demo_levels_wf, of 3]
  by (simp_all add: demo_levels_nlv demo_levels_edges del: One_nat_def)

theorem scope_meet_lowest_common_ancestor_witness: "lvl_path demo_levels (scope_meet demo_levels 2 3) = [1]"
  using scope_meet_lowest_common_ancestor[OF demo_levels_wf, of 2 3]
  by (simp add: demo_levels_nlv demo_levels_paths)

text \<open>Rebasing a gauge of one net under a level of another re-interns it: the result is a level of
  the target trie whose path is the target's path followed by the source's, whatever ids the two
  tries use.\<close>

theorem scope_rebase_appends_paths:
  assumes "lv_wf L" "lv_wf src" "lvl \<le> nlv L" "s \<le> nlv src" "scope_rebase L src lvl s = (L', l)"
  shows "lv_wf L' \<and> l \<le> nlv L' \<and> lvl_path L' l = lvl_path L lvl @ lvl_path src s \<and>
    (\<forall>t \<le> nlv L. lvl_path L' t = lvl_path L t)"
  using scope_rebase_spec[OF assms] lvl_path_ext[OF assms(1)] by blast

theorem scope_rebase_appends_paths_witness:
  "lvl_path (fst (scope_rebase levels_init demo_levels 0 3)) (snd (scope_rebase levels_init demo_levels 0 3))
     = [1, 1]"
  using scope_rebase_appends_paths[OF lv_wf_init demo_levels_wf, of 0 3
      "fst (scope_rebase levels_init demo_levels 0 3)" "snd (scope_rebase levels_init demo_levels 0 3)"]
  by (simp add: demo_levels_nlv demo_levels_paths)

end
