(* ===== verification/NetState.thy ===== *)
theory NetState
  imports Levels
begin

text \<open>
  The state of an interaction net (\<open>Net\<close> in \<open>src/lin.h\<close>) and the operations of \<open>src/net.c\<close> that
  allocate, wire, queue and reclaim nodes.  The C arrays indexed by a node are functions of the node
  index, \<open>wire\<close> is a function of the port (a port number is below 3, so the flat index
  \<open>node * 3 + port\<close> names one cell), the growable array \<open>act\<close> is a list of pairs and \<open>act_of\<close> gives
  a node's position in that list (half the C index) or a negative number.  The process-wide flags
  the operations read are the record \<open>env\<close>.
\<close>

section \<open>State\<close>

record net =
  ncap :: int
  nn :: int
  tag :: "int \<Rightarrow> ntag"
  wire :: "port \<Rightarrow> port"
  scope :: "int \<Rightarrow> gauge"
  dead :: "int \<Rightarrow> bool"
  act :: "apair list"
  act_of :: "int \<Rightarrow> int"
  lvl :: levels
  root :: "port list"
  free_head :: int
  nfree :: int
  pend_head :: int
  pins :: int
  dem :: "int \<Rightarrow> 32 word"
  dem_stamp :: "32 word"
  vport :: "int \<Rightarrow> 8 word"
  dem_out :: "apair list"
  steps :: int
  t_act :: "nat \<Rightarrow> apair list"   \<comment> \<open>the pairs each worker of a threaded wave has linked\<close>
  recycled :: "int list"          \<comment> \<open>the slots announced to the drivers by \<open>node_recycled\<close>\<close>
  fatal :: bool                   \<comment> \<open>the process has aborted: allocation past the reservation\<close>

text \<open>Process-wide flags: \<open>in_parallel\<close>, \<open>reduce_depth\<close>, \<open>noret\<close>, \<open>any_recycle\<close> and \<open>my_tid\<close>.\<close>

record env =
  in_parallel :: bool
  reduce_depth :: nat
  noret :: bool
  any_recycle :: bool
  my_tid :: nat

text \<open>\<open>NAT_IN\<close>, and being alive.\<close>

definition in_net :: "net \<Rightarrow> int \<Rightarrow> bool" where
  "in_net n v \<longleftrightarrow> 0 \<le> v \<and> v < nn n"

definition live :: "net \<Rightarrow> int \<Rightarrow> bool" where
  "live n v \<longleftrightarrow> in_net n v \<and> \<not> dead n v"

definition set_wire :: "port \<Rightarrow> port \<Rightarrow> net \<Rightarrow> net" where
  "set_wire p q n = n\<lparr>wire := (wire n)(p := q)\<rparr>"

section \<open>Allocation\<close>

text \<open>The doubling of \<open>net_ensure_cap\<close>; every array entry past the old capacity is cleared.\<close>

function cap_grow :: "int \<Rightarrow> int \<Rightarrow> int" where
  "cap_grow nc need = (if nc < need \<and> 0 < nc then cap_grow (nc * 2) need else nc)"
  by pat_completeness auto
termination
  by (relation "measure (\<lambda>(nc, need). nat (need - nc))") auto

declare cap_grow.simps [simp del]

definition net_ensure_cap :: "net \<Rightarrow> int \<Rightarrow> net" where
  "net_ensure_cap n need =
     (if need \<le> ncap n then n
      else let nc0 = cap_grow (if ncap n \<noteq> 0 then ncap n * 2 else 256) need;
               nc = (if nc0 \<le> 0 then need else nc0);
               fresh = (\<lambda>v. ncap n \<le> v \<and> v < nc)
           in n\<lparr>ncap := nc,
                dead := (\<lambda>v. \<not> fresh v \<and> dead n v),
                dem := (\<lambda>v. if fresh v then 0 else dem n v),
                vport := (\<lambda>v. if fresh v then 0 else vport n v),
                act_of := (\<lambda>v. if fresh v then - 1 else act_of n v)\<rparr>)"

text \<open>
  \<open>net_alloc\<close>: pop a reclaimed slot when one is published and no wave is threaded, else take the
  next index.  Writing past the capacity aborts the process.
\<close>

definition alloc_slot :: "env \<Rightarrow> net \<Rightarrow> net \<times> int" where
  "alloc_slot E n =
     (if \<not> in_parallel E \<and> 0 \<le> free_head n
      then let v = free_head n
           in (n\<lparr>free_head := node (wire n (Port v 0)), nfree := nfree n - 1,
                 dem := (dem n)(v := 0), vport := (vport n)(v := 0),
                 recycled := (if any_recycle E then recycled n @ [v] else recycled n)\<rparr>, v)
      else let n1 = (if in_parallel E then n else net_ensure_cap n (nn n + 1))
           in (n1\<lparr>nn := nn n1 + 1\<rparr>, nn n1))"

definition net_alloc :: "env \<Rightarrow> ntag \<Rightarrow> gauge \<Rightarrow> net \<Rightarrow> net \<times> int" where
  "net_alloc E t sc n =
     (case alloc_slot E n of (n1, v) \<Rightarrow>
        if ncap n1 \<le> v then (n1\<lparr>fatal := True\<rparr>, v)
        else (n1\<lparr>tag := (tag n1)(v := t), dead := (dead n1)(v := False), scope := (scope n1)(v := sc),
                 wire := (wire n1)(Port v 0 := NONE, Port v 1 := NONE, Port v 2 := NONE)\<rparr>, v))"

text \<open>A fresh net of a given capacity: one \<open>ROOT\<close> node, no queued pair, only the root level.\<close>

definition net_blank :: "int \<Rightarrow> net" where
  "net_blank c = \<lparr>ncap = c, nn = 0, tag = (\<lambda>_. ERA), wire = (\<lambda>_. NONE), scope = (\<lambda>_. 0),
     dead = (\<lambda>_. False), act = [], act_of = (\<lambda>_. - 1), lvl = levels_init, root = [],
     free_head = - 1, nfree = 0, pend_head = - 1, pins = 0, dem = (\<lambda>_. 0), dem_stamp = 0,
     vport = (\<lambda>_. 0), dem_out = [], steps = 0, t_act = (\<lambda>_. []), recycled = [], fatal = False\<rparr>"

definition net_init :: "env \<Rightarrow> int \<Rightarrow> net" where
  "net_init E c = fst (net_alloc E ROOT 0 (net_blank c))"

section \<open>The queue of active pairs\<close>

definition act_push :: "net \<Rightarrow> port \<Rightarrow> port \<Rightarrow> net" where
  "act_push n a b =
     (if 0 \<le> act_of n (node a) \<or> 0 \<le> act_of n (node b) then n
      else n\<lparr>act := act n @ [(a, b)],
             act_of := (act_of n)(node a := int (length (act n)), node b := int (length (act n)))\<rparr>)"

definition lin_enqueue :: "net \<Rightarrow> port \<Rightarrow> port \<Rightarrow> net" where
  "lin_enqueue = act_push"

text \<open>\<open>act_drop\<close>: unqueue \<open>v\<close>'s pair, moving the last pair into the hole.\<close>

definition act_drop :: "env \<Rightarrow> net \<Rightarrow> int \<Rightarrow> net" where
  "act_drop E n v =
     (if act_of n v < 0 \<or> in_parallel E then n
      else let i = nat (act_of n v);
               other = (if node (fst (act n ! i)) = v then snd (act n ! i) else fst (act n ! i));
               f = (act_of n)(node other := - 1, v := - 1);
               k = length (act n) - 1;
               z = act n ! k
           in if i \<noteq> k
              then n\<lparr>act := butlast ((act n)[i := z]),
                     act_of := f(node (snd z) := int i, node (fst z) := int i)\<rparr>
              else n\<lparr>act := butlast (act n), act_of := f\<rparr>)"

section \<open>Links, demand roots and pins\<close>

definition net_link :: "env \<Rightarrow> port \<Rightarrow> port \<Rightarrow> bool \<Rightarrow> net \<Rightarrow> net" where
  "net_link E a b enq n =
     (if node a < 0 \<or> node b < 0 then n
      else let n1 = set_wire b a (set_wire a b n)
           in if enq \<and> pno a = 0 \<and> pno b = 0
              then (if in_parallel E
                    then n1\<lparr>t_act := (t_act n1)(my_tid E := t_act n1 (my_tid E) @ [(a, b)])\<rparr>
                    else act_push n1 a b)
              else n1)"

definition lin_demand :: "net \<Rightarrow> port \<Rightarrow> net" where
  "lin_demand n p = (if \<not> in_net n (node p) \<or> p \<in> set (root n) then n else n\<lparr>root := root n @ [p]\<rparr>)"

definition lin_pin :: "net \<Rightarrow> net" where
  "lin_pin n = n\<lparr>pins := pins n + 1\<rparr>"

definition lin_unpin :: "net \<Rightarrow> net" where
  "lin_unpin n = (if 0 < pins n then n\<lparr>pins := pins n - 1\<rparr> else n)"

section \<open>Reclamation\<close>

definition deg_live :: "net \<Rightarrow> int \<Rightarrow> nat" where
  "deg_live n v = length (filter (\<lambda>p. live n (node (wire n (Port v p)))) [0, 1, 2])"

definition unowned :: "net \<Rightarrow> int \<Rightarrow> bool" where
  "unowned n v \<longleftrightarrow> (\<forall>p \<in> set [0, 1, 2].
     live n (node (wire n (Port v p))) \<longrightarrow> wire n (wire n (Port v p)) \<noteq> Port v p)"

text \<open>One port of the worklist loop of \<open>release_now\<close>: cut it, and reap a partner it isolates.\<close>

definition release_port :: "int \<Rightarrow> nat \<Rightarrow> net \<times> int list \<Rightarrow> net \<times> int list" where
  "release_port u p s =
     (case s of (n, st) \<Rightarrow>
        let w = wire n (Port u p);
            n1 = set_wire (Port u p) NONE n
        in if \<not> in_net n1 (node w) then (n1, st)
           else let n2 = (if wire n1 w = Port u p then set_wire w NONE n1 else n1)
                in if \<not> dead n2 (node w) \<and> deg_live n2 (node w) = 0
                   then (n2\<lparr>dead := (dead n2)(node w := True)\<rparr>, node w # st)
                   else (n2, st))"

definition release_node :: "int \<Rightarrow> net \<times> int list \<Rightarrow> net \<times> int list" where
  "release_node u s =
     (case release_port u 2 (release_port u 1 (release_port u 0 s)) of (n, st) \<Rightarrow>
        (n\<lparr>tag := (tag n)(u := ERA), wire := (wire n)(Port u 0 := Port (pend_head n) 0),
           pend_head := u, nfree := nfree n + 1\<rparr>, st))"

definition live_set :: "net \<Rightarrow> int set" where
  "live_set n = {v. live n v}"

lemma finite_live_set [simp]: "finite (live_set n)"
  by (rule finite_subset[of _ "{0..<nn n}"]) (auto simp: live_set_def live_def in_net_def)

lemma live_set_wire [simp]: "live (set_wire p q n) v = live n v"
  by (simp add: live_def in_net_def set_wire_def)

text \<open>Every node pushed was alive and is marked dead, so the loop's measure goes down.\<close>

lemma release_port_measure:
  assumes "release_port u p (n, st) = (n', st')"
  shows "2 * card (live_set n') + length st' \<le> 2 * card (live_set n) + length st"
proof -
  let ?w = "node (wire n (Port u p))"
  have same: "live_set n' = live_set n \<and> st' = st \<or>
      live n ?w \<and> live_set n' = live_set n - {?w} \<and> st' = ?w # st"
    using assms
    by (auto simp: release_port_def Let_def live_set_def live_def in_net_def set_wire_def
        split: if_splits)
  then show ?thesis
  proof
    assume a: "live n ?w \<and> live_set n' = live_set n - {?w} \<and> st' = ?w # st"
    then have "?w \<in> live_set n" by (simp add: live_set_def)
    then have "card (live_set n) = Suc (card (live_set n'))"
      using a by (metis card_Suc_Diff1 finite_live_set)
    with a show ?thesis by simp
  qed simp
qed

lemma release_node_measure:
  assumes "release_node u (n, st) = (n', st')"
  shows "2 * card (live_set n') + length st' \<le> 2 * card (live_set n) + length st"
proof -
  obtain n1 s1 where 1: "release_port u 0 (n, st) = (n1, s1)" by fastforce
  obtain n2 s2 where 2: "release_port u 1 (n1, s1) = (n2, s2)" by fastforce
  obtain n3 s3 where 3: "release_port u 2 (n2, s2) = (n3, s3)" by fastforce
  have "live_set n' = live_set n3" "st' = s3"
    using assms 1 2 3 by (auto simp: release_node_def live_set_def live_def in_net_def)
  then show ?thesis
    using release_port_measure[OF 1] release_port_measure[OF 2] release_port_measure[OF 3] by simp
qed

function release_loop :: "net \<Rightarrow> int list \<Rightarrow> net" where
  "release_loop n [] = n"
| "release_loop n (u # st) = (case release_node u (n, st) of (n', st') \<Rightarrow> release_loop n' st')"
  by pat_completeness auto
termination
proof (relation "measure (\<lambda>(n, st). 2 * card (live_set n) + length st)", goal_cases)
  case (2 n u st y z)
  have "2 * card (live_set y) + length z \<le> 2 * card (live_set n) + length st"
    using 2 by (intro release_node_measure[of u]) simp
  then show ?case by simp
qed simp

definition release_now :: "net \<Rightarrow> int \<Rightarrow> net" where
  "release_now n v = release_loop n [v]"

definition net_release :: "env \<Rightarrow> net \<Rightarrow> int \<Rightarrow> net" where
  "net_release E n v =
     (if \<not> live n v \<or> \<not> unowned n v \<or> in_parallel E \<or> pins n \<noteq> 0 then n
      else release_now (act_drop E (n\<lparr>dead := (dead n)(v := True)\<rparr>) v) v)"

text \<open>\<open>net_flush_free\<close>: publish the wave's freed slots, at the outermost reduce only.\<close>

fun flush_loop :: "nat \<Rightarrow> net \<Rightarrow> net" where
  "flush_loop 0 n = n"
| "flush_loop (Suc k) n =
     (if 0 \<le> pend_head n
      then let v = pend_head n
           in flush_loop k (n\<lparr>pend_head := node (wire n (Port v 0)),
                              wire := (wire n)(Port v 0 := Port (free_head n) 0),
                              free_head := v\<rparr>)
      else n)"

text \<open>The pending list holds at most \<open>nfree\<close> slots, which bounds the loop.\<close>

definition net_flush_free :: "env \<Rightarrow> net \<Rightarrow> net" where
  "net_flush_free E n = (if 1 < reduce_depth E then n else flush_loop (nat (nfree n)) n)"

definition net_sever :: "env \<Rightarrow> port \<Rightarrow> net \<Rightarrow> net" where
  "net_sever E p n =
     (if \<not> in_net n (node p) then n
      else let w = wire n p;
               n1 = set_wire p NONE n;
               n2 = (if in_net n1 (node w) \<and> wire n1 w = p then set_wire w NONE n1 else n1);
               n3 = (if deg_live n2 (node p) = 0 then net_release E n2 (node p) else n2)
           in if in_net n3 (node w) \<and> deg_live n3 (node w) = 0 then net_release E n3 (node w) else n3)"

definition retire :: "env \<Rightarrow> int \<Rightarrow> int \<Rightarrow> net \<Rightarrow> net" where
  "retire E a b n =
     (let n1 = n\<lparr>dead := (dead n)(a := True, b := True)\<rparr>;
          n2 = act_drop E (act_drop E n1 a) b;
          n3 = n2\<lparr>root := filter (\<lambda>r. node r \<noteq> a \<and> node r \<noteq> b) (root n2)\<rparr>
      in if 1 < reduce_depth E \<or> pins n3 \<noteq> 0 \<or> in_parallel E \<or> noret E then n3
         else release_now (release_now n3 a) b)"

end
