(* ===== verification/NetInv.thy ===== *)
theory NetInv
  imports NetState
begin

text \<open>
  The invariants of a net and their preservation by the operations of \<open>NetState\<close>: the wiring is
  a partial involution on the ports of the live nodes, the queue of active pairs and its index
  \<open>act_of\<close> agree, every queued pair is a redex, and the two lists of reclaimed slots are disjoint
  chains of dead nodes whose lengths add up to \<open>nfree\<close>.
\<close>

section \<open>Invariants\<close>

text \<open>\<open>redex_live\<close>: both ends alive and wired principal to principal.\<close>

definition redex_live :: "net \<Rightarrow> port \<Rightarrow> port \<Rightarrow> bool" where
  "redex_live n p q \<longleftrightarrow> live n (node p) \<and> live n (node q) \<and> pno p = 0 \<and> pno q = 0 \<and>
     wire n p = q \<and> wire n q = p"

text \<open>
  The wiring, seen while the nodes \<open>D\<close> are being consumed: a port of any other live node is
  unconnected or wired back and forth with another port, of a live node or of one of the ports \<open>X\<close>
  of \<open>D\<close> that still have to be handed over.  \<open>wired n {} {}\<close> is the invariant of a net at rest.
\<close>

definition standing :: "net \<Rightarrow> int set \<Rightarrow> port \<Rightarrow> bool" where
  "standing n D p \<longleftrightarrow> live n (node p) \<and> node p \<notin> D \<and> pno p < 3"

definition linked :: "net \<Rightarrow> int set \<Rightarrow> port set \<Rightarrow> port \<Rightarrow> bool" where
  "linked n D X p \<longleftrightarrow> wire n p = NONE \<or>
     (wire n p \<noteq> p \<and> pno (wire n p) < 3 \<and> wire n (wire n p) = p \<and>
      (if node (wire n p) \<in> D then wire n p \<in> X else live n (node (wire n p))))"

definition wired :: "net \<Rightarrow> int set \<Rightarrow> port set \<Rightarrow> bool" where
  "wired n D X \<longleftrightarrow> (\<forall>p. standing n D p \<longrightarrow> linked n D X p)"

text \<open>The queue and its index.\<close>

definition queue_ok :: "net \<Rightarrow> bool" where
  "queue_ok n \<longleftrightarrow>
     (\<forall>i < length (act n). node (fst (act n ! i)) \<noteq> node (snd (act n ! i)) \<and>
        act_of n (node (fst (act n ! i))) = int i \<and> act_of n (node (snd (act n ! i))) = int i) \<and>
     (\<forall>v. 0 \<le> act_of n v \<longrightarrow> nat (act_of n v) < length (act n) \<and>
        (v = node (fst (act n ! nat (act_of n v))) \<or> v = node (snd (act n ! nat (act_of n v)))))"

definition queue_live :: "net \<Rightarrow> bool" where
  "queue_live n \<longleftrightarrow> (\<forall>(p, q) \<in> set (act n). redex_live n p q)"

text \<open>A list of slots threaded through their own port 0.\<close>

fun chain :: "(port \<Rightarrow> port) \<Rightarrow> int \<Rightarrow> int list \<Rightarrow> bool" where
  "chain w h [] \<longleftrightarrow> h = - 1"
| "chain w h (x # xs) \<longleftrightarrow> h = x \<and> chain w (node (w (Port x 0))) xs"

definition slots_ok :: "net \<Rightarrow> int list \<Rightarrow> int list \<Rightarrow> bool" where
  "slots_ok n fs ps \<longleftrightarrow> chain (wire n) (free_head n) fs \<and> chain (wire n) (pend_head n) ps \<and>
     distinct (fs @ ps) \<and> (\<forall>v \<in> set (fs @ ps). in_net n v \<and> dead n v) \<and>
     nfree n = int (length fs + length ps)"

definition levels_ok :: "net \<Rightarrow> bool" where
  "levels_ok n \<longleftrightarrow> lv_wf (lvl n) \<and> (\<forall>v. live n v \<longrightarrow> scope n v \<le> nlv (lvl n))"

definition room_ok :: "net \<Rightarrow> bool" where
  "room_ok n \<longleftrightarrow> 0 < nn n \<and> nn n \<le> ncap n \<and> \<not> fatal n \<and>
     (\<forall>v. nn n \<le> v \<longrightarrow> \<not> dead n v \<and> act_of n v < 0)"

definition net_ok :: "net \<Rightarrow> bool" where
  "net_ok n \<longleftrightarrow> wired n {} {} \<and> queue_ok n \<and> queue_live n \<and> (\<exists>fs ps. slots_ok n fs ps) \<and>
     levels_ok n \<and> room_ok n"

text \<open>No redex is lost: a live principal pair is queued, or is one the current wave took out.\<close>

definition all_queued :: "net \<Rightarrow> apair set \<Rightarrow> bool" where
  "all_queued n P \<longleftrightarrow>
     (\<forall>p q. redex_live n p q \<longrightarrow> 0 \<le> act_of n (node p) \<or> (p, q) \<in> P \<or> (q, p) \<in> P)"

section \<open>Simple facts\<close>

lemma set_wire_simps [simp]:
  "ncap (set_wire p q n) = ncap n" "nn (set_wire p q n) = nn n" "tag (set_wire p q n) = tag n"
  "scope (set_wire p q n) = scope n" "dead (set_wire p q n) = dead n" "act (set_wire p q n) = act n"
  "act_of (set_wire p q n) = act_of n" "lvl (set_wire p q n) = lvl n" "root (set_wire p q n) = root n"
  "free_head (set_wire p q n) = free_head n" "nfree (set_wire p q n) = nfree n"
  "pend_head (set_wire p q n) = pend_head n" "pins (set_wire p q n) = pins n"
  "dem (set_wire p q n) = dem n" "dem_stamp (set_wire p q n) = dem_stamp n"
  "vport (set_wire p q n) = vport n" "dem_out (set_wire p q n) = dem_out n"
  "steps (set_wire p q n) = steps n" "t_act (set_wire p q n) = t_act n"
  "recycled (set_wire p q n) = recycled n" "fatal (set_wire p q n) = fatal n"
  "wire (set_wire p q n) = (wire n)(p := q)"
  by (simp_all add: set_wire_def)

lemma set_wire_live [simp]:
  "in_net (set_wire p q n) v = in_net n v" "live (set_wire p q n) v = live n v"
  "standing (set_wire p q n) D r = standing n D r"
  by (simp_all add: in_net_def live_def standing_def)

lemma live_in_net: "live n v \<Longrightarrow> in_net n v"
  by (simp add: live_def)

lemma live_nonneg: "live n v \<Longrightarrow> 0 \<le> v"
  by (simp add: live_def in_net_def)

lemma NONE_not_live [simp]: "\<not> live n (- 1)" "\<not> in_net n (- 1)"
  by (simp_all add: live_def in_net_def)

lemma standing_not_NONE: "standing n D p \<Longrightarrow> p \<noteq> NONE"
  by (auto simp: standing_def)

lemma wiredD: "wired n D X \<Longrightarrow> standing n D p \<Longrightarrow> linked n D X p"
  by (simp add: wired_def)

lemma wired_mono: "wired n D X \<Longrightarrow> X \<subseteq> Y \<Longrightarrow> wired n D Y"
  by (auto simp: wired_def linked_def subset_eq split: if_splits)

text \<open>At rest, a wire leads to a live port that leads back.\<close>

lemma wired_back:
  assumes "wired n {} {}" "standing n {} p" "wire n p \<noteq> NONE"
  shows "standing n {} (wire n p)" "wire n (wire n p) = p" "wire n p \<noteq> p"
  using wiredD[OF assms(1,2)] assms(3) by (auto simp: linked_def standing_def)

lemma deg_live_0: "deg_live n v = 0 \<longleftrightarrow> (\<forall>p < 3. \<not> live n (node (wire n (Port v p))))"
  unfolding all_less_3 by (simp add: deg_live_def)

lemma isolated_iff:
  assumes "wired n {} {}" "live n v"
  shows "deg_live n v = 0 \<longleftrightarrow> (\<forall>p < 3. wire n (Port v p) = NONE)"
proof
  assume z: "deg_live n v = 0"
  show "\<forall>p < 3. wire n (Port v p) = NONE"
  proof (intro allI impI)
    fix p :: nat assume p: "p < 3"
    then have "standing n {} (Port v p)" using assms(2) by (simp add: standing_def)
    from wiredD[OF assms(1) this] z p show "wire n (Port v p) = NONE"
      by (auto simp: linked_def deg_live_0)
  qed
qed (simp add: deg_live_0)

lemma redex_live_sym: "redex_live n p q \<Longrightarrow> redex_live n q p"
  by (auto simp: redex_live_def)

lemma redex_liveD:
  assumes "redex_live n p q"
  shows "live n (node p)" "live n (node q)" "pno p = 0" "pno q = 0" "wire n p = q" "wire n q = p"
  using assms by (simp_all add: redex_live_def)

lemma redex_wires:
  assumes "redex_live n p q"
  shows "wire n p \<noteq> NONE \<and> wire n q \<noteq> NONE \<and> pno p < 3 \<and> pno q < 3"
  using assms by (auto simp: redex_live_def)

lemma redex_node_neq:
  assumes "wired n {} {}" "redex_live n p q"
  shows "node p \<noteq> node q"
proof
  assume e: "node p = node q"
  then have "p = q" using assms(2) by (intro port_eqI) (auto simp: redex_live_def)
  then have "standing n {} p" "wire n p = p" using assms(2) by (auto simp: redex_live_def standing_def)
  then show False using wired_back(3)[OF assms(1), of p] standing_not_NONE[of n "{}" p] by simp
qed

lemma chain_cong:
  "(\<And>x. x \<in> set xs \<Longrightarrow> w (Port x 0) = w' (Port x 0)) \<Longrightarrow> chain w h xs = chain w' h xs"
  by (induction xs arbitrary: h) auto

lemma chain_neg: "chain w h xs \<Longrightarrow> (\<forall>v \<in> set xs. 0 \<le> v) \<Longrightarrow> h < 0 \<longleftrightarrow> xs = []"
  by (cases xs) auto

text \<open>Following a chain never leaves it.\<close>

lemma chain_next: "chain w h xs \<Longrightarrow> x \<in> set xs \<Longrightarrow> node (w (Port x 0)) \<in> insert (- 1) (set xs)"
proof (induction xs arbitrary: h)
  case (Cons y ys)
  then show ?case by (cases ys) auto
qed simp

section \<open>The queue\<close>

lemma queue_okD:
  assumes "queue_ok n" "i < length (act n)"
  shows "node (fst (act n ! i)) \<noteq> node (snd (act n ! i))"
    "act_of n (node (fst (act n ! i))) = int i" "act_of n (node (snd (act n ! i))) = int i"
  using assms by (auto simp: queue_ok_def)

lemma queue_ok_at:
  assumes "queue_ok n" "0 \<le> act_of n v"
  shows "nat (act_of n v) < length (act n)"
    "v = node (fst (act n ! nat (act_of n v))) \<or> v = node (snd (act n ! nat (act_of n v)))"
  using assms unfolding queue_ok_def by blast+

lemma queue_ok_mem:
  assumes "queue_ok n"
  shows "0 \<le> act_of n v \<longleftrightarrow> (\<exists>(p, q) \<in> set (act n). v = node p \<or> v = node q)"
proof
  assume "0 \<le> act_of n v"
  note at = queue_ok_at[OF assms this]
  show "\<exists>(p, q) \<in> set (act n). v = node p \<or> v = node q"
    by (rule bexI[OF _ nth_mem[OF at(1)]]) (simp add: case_prod_beta at(2))
next
  assume "\<exists>(p, q) \<in> set (act n). v = node p \<or> v = node q"
  then obtain p q where pq: "(p, q) \<in> set (act n)" "v = node p \<or> v = node q" by blast
  then obtain i where "i < length (act n)" "act n ! i = (p, q)" unfolding in_set_conv_nth by blast
  then show "0 \<le> act_of n v" using queue_okD(2,3)[OF assms, of i] pq(2) by auto
qed

lemma act_push_refused: "0 \<le> act_of n (node a) \<or> 0 \<le> act_of n (node b) \<Longrightarrow> act_push n a b = n"
  by (auto simp: act_push_def)

lemma act_push_ok:
  assumes q: "queue_ok n" and ne: "node a \<noteq> node b"
  shows "queue_ok (act_push n a b)"
proof (cases "0 \<le> act_of n (node a) \<or> 0 \<le> act_of n (node b)")
  case False
  let ?m = "act_push n a b" and ?k = "length (act n)"
  have m: "act ?m = act n @ [(a, b)]"
    "act_of ?m = (act_of n)(node a := int ?k, node b := int ?k)"
    using False by (auto simp: act_push_def)
  show ?thesis unfolding queue_ok_def
  proof (intro conjI allI impI)
    fix i assume i: "i < length (act ?m)"
    show "node (fst (act ?m ! i)) \<noteq> node (snd (act ?m ! i))"
      "act_of ?m (node (fst (act ?m ! i))) = int i" "act_of ?m (node (snd (act ?m ! i))) = int i"
    proof -
      consider "i < ?k" | "i = ?k" using i m by fastforce
      then have "node (fst (act ?m ! i)) \<noteq> node (snd (act ?m ! i)) \<and>
        act_of ?m (node (fst (act ?m ! i))) = int i \<and> act_of ?m (node (snd (act ?m ! i))) = int i"
      proof cases
        case 1
        then have "act ?m ! i = act n ! i" by (simp add: m nth_append)
        moreover have "node (fst (act n ! i)) \<notin> {node a, node b}"
          "node (snd (act n ! i)) \<notin> {node a, node b}"
          using queue_okD[OF q 1] False by auto
        ultimately show ?thesis using queue_okD[OF q 1] by (simp add: m)
      qed (simp add: m ne)
      then show "node (fst (act ?m ! i)) \<noteq> node (snd (act ?m ! i))"
        "act_of ?m (node (fst (act ?m ! i))) = int i" "act_of ?m (node (snd (act ?m ! i))) = int i"
        by simp_all
    qed
  next
    fix v assume v: "0 \<le> act_of ?m v"
    show "nat (act_of ?m v) < length (act ?m)"
      using v queue_ok_at(1)[OF q, of v] by (auto simp: m)
    show "v = node (fst (act ?m ! nat (act_of ?m v))) \<or> v = node (snd (act ?m ! nat (act_of ?m v)))"
    proof (cases "v = node a \<or> v = node b")
      case False
      then have "0 \<le> act_of n v" "act_of ?m v = act_of n v" using v by (auto simp: m)
      with queue_ok_at[OF q this(1)] show ?thesis by (simp add: m nth_append)
    qed (auto simp: m)
  qed
qed (use q in \<open>simp add: act_push_refused\<close>)

text \<open>Dropping a node takes exactly its pair out of the queue.\<close>

lemma act_drop_fields [simp]:
  "ncap (act_drop E n v) = ncap n" "nn (act_drop E n v) = nn n" "tag (act_drop E n v) = tag n"
  "wire (act_drop E n v) = wire n" "scope (act_drop E n v) = scope n" "dead (act_drop E n v) = dead n"
  "lvl (act_drop E n v) = lvl n" "root (act_drop E n v) = root n"
  "free_head (act_drop E n v) = free_head n" "nfree (act_drop E n v) = nfree n"
  "pend_head (act_drop E n v) = pend_head n" "pins (act_drop E n v) = pins n"
  "dem (act_drop E n v) = dem n" "dem_stamp (act_drop E n v) = dem_stamp n"
  "vport (act_drop E n v) = vport n" "dem_out (act_drop E n v) = dem_out n"
  "steps (act_drop E n v) = steps n" "t_act (act_drop E n v) = t_act n"
  "recycled (act_drop E n v) = recycled n" "fatal (act_drop E n v) = fatal n"
  by (simp_all add: act_drop_def Let_def)

lemma act_drop_idle: "act_of n v < 0 \<or> in_parallel E \<Longrightarrow> act_drop E n v = n"
  by (simp add: act_drop_def)

lemma act_drop_shape:
  assumes q: "queue_ok n" and v: "0 \<le> act_of n v" and E: "\<not> in_parallel E"
  defines "i \<equiv> nat (act_of n v)" and "k \<equiv> length (act n) - 1"
  defines "z \<equiv> act n ! k"
  defines "f \<equiv> (act_of n)(node (fst (act n ! i)) := - 1, node (snd (act n ! i)) := - 1)"
  shows "i < length (act n)"
    "act (act_drop E n v) = (if i = k then butlast (act n) else butlast ((act n)[i := z]))"
    "act_of (act_drop E n v) =
       (if i = k then f else f(node (snd z) := int i, node (fst z) := int i))"
proof -
  note at = queue_ok_at[OF q v, folded i_def]
  show "i < length (act n)" by (rule at(1))
  have f: "(act_of n)(node (if node (fst (act n ! i)) = v then snd (act n ! i) else fst (act n ! i)) := - 1,
      v := - 1) = f"
    using at(2) unfolding f_def by (auto simp: fun_upd_twist)
  have v': "\<not> act_of n v < 0" using v by simp
  show "act (act_drop E n v) = (if i = k then butlast (act n) else butlast ((act n)[i := z]))"
    "act_of (act_drop E n v) =
       (if i = k then f else f(node (snd z) := int i, node (fst z) := int i))"
    unfolding act_drop_def Let_def i_def[symmetric] k_def[symmetric] z_def[symmetric] f
    using v' E by simp_all
qed

lemma act_drop_ok:
  assumes q: "queue_ok n" and E: "\<not> in_parallel E"
  shows "queue_ok (act_drop E n v)"
proof (cases "act_of n v < 0")
  case False
  then have v: "0 \<le> act_of n v" by simp
  define i where "i = nat (act_of n v)"
  define k where "k = length (act n) - 1"
  define z where "z = act n ! k"
  let ?m = "act_drop E n v" and ?a = "node (fst (act n ! i))" and ?b = "node (snd (act n ! i))"
  note sh = act_drop_shape[OF q v E, folded i_def k_def z_def]
  have len: "length (act ?m) = k" "k < length (act n)" using sh(1,2) by (auto simp: k_def)
  have nth: "act ?m ! j = (if j = i then z else act n ! j)" if "j < k" for j
    using that sh(1,2) len by (auto simp: nth_butlast nth_list_update)
  have idx: "act_of ?m x = (if x = node (fst z) \<or> x = node (snd z) then (if i = k then - 1 else int i)
      else if x = ?a \<or> x = ?b then - 1 else act_of n x)" for x
    using sh(3) by (auto simp: z_def)
  have zi: "act_of n (node (fst z)) = int k" "act_of n (node (snd z)) = int k"
    using queue_okD[OF q len(2)] by (auto simp: z_def)
  have ai: "act_of n ?a = int i" "act_of n ?b = int i" using queue_okD[OF q sh(1)] by auto
  show ?thesis unfolding queue_ok_def
  proof (intro conjI allI impI)
    fix j assume "j < length (act ?m)"
    then have j: "j < k" "j < length (act n)" using len by auto
    have "node (fst (act ?m ! j)) \<noteq> node (snd (act ?m ! j)) \<and>
      act_of ?m (node (fst (act ?m ! j))) = int j \<and> act_of ?m (node (snd (act ?m ! j))) = int j"
    proof (cases "j = i")
      case True
      then show ?thesis using j nth[OF j(1)] queue_okD(1)[OF q len(2)] by (simp add: idx z_def)
    next
      case False
      note d = queue_okD[OF q j(2)]
      have "node (fst (act n ! j)) \<notin> {?a, ?b, node (fst z), node (snd z)}"
        "node (snd (act n ! j)) \<notin> {?a, ?b, node (fst z), node (snd z)}"
        using d(2,3) zi ai False j(1) by auto
      then show ?thesis using d nth[OF j(1)] False by (simp add: idx)
    qed
    then show "node (fst (act ?m ! j)) \<noteq> node (snd (act ?m ! j))"
      "act_of ?m (node (fst (act ?m ! j))) = int j" "act_of ?m (node (snd (act ?m ! j))) = int j"
      by simp_all
  next
    fix x assume x: "0 \<le> act_of ?m x"
    have "nat (act_of ?m x) < k \<and> (x = node (fst (act ?m ! nat (act_of ?m x))) \<or>
        x = node (snd (act ?m ! nat (act_of ?m x))))"
    proof (cases "x = node (fst z) \<or> x = node (snd z)")
      case True
      then have "i \<noteq> k" "act_of ?m x = int i" using x by (auto simp: idx split: if_splits)
      then show ?thesis using True sh(1) nth[of i] len by (auto simp: k_def)
    next
      case False
      then have o: "act_of ?m x = act_of n x" "0 \<le> act_of n x" "x \<noteq> ?a" "x \<noteq> ?b"
        using x by (auto simp: idx split: if_splits)
      note at = queue_ok_at[OF q o(2)]
      have "nat (act_of n x) \<noteq> k" "nat (act_of n x) \<noteq> i"
        using at(2) False o(3,4) by (auto simp: z_def)
      then show ?thesis using at o(1) nth[of "nat (act_of n x)"] by (auto simp: k_def)
    qed
    then show "nat (act_of ?m x) < length (act ?m)"
      "x = node (fst (act ?m ! nat (act_of ?m x))) \<or> x = node (snd (act ?m ! nat (act_of ?m x)))"
      using len by simp_all
  qed
qed (use q in \<open>simp add: act_drop_idle\<close>)

lemma act_drop_mset:
  assumes q: "queue_ok n" and E: "\<not> in_parallel E" and v: "0 \<le> act_of n v"
  shows "mset (act n) = add_mset (act n ! nat (act_of n v)) (mset (act (act_drop E n v)))"
proof -
  note sh = act_drop_shape[OF q v E]
  let ?i = "nat (act_of n v)" and ?k = "length (act n) - 1"
  have ne: "act n \<noteq> []" using sh(1) by auto
  have last: "last xs = xs ! (length xs - 1)" if "xs \<noteq> []" for xs :: "apair list"
    using that by (simp add: last_conv_nth)
  have bl: "mset xs = add_mset (last xs) (mset (butlast xs))" if "xs \<noteq> []" for xs :: "apair list"
    using that by (metis append_butlast_last_id mset.simps(2) mset_append union_mset_add_mset_right
        add.right_neutral mset.simps(1))
  show ?thesis
  proof (cases "?i = ?k")
    case True
    then show ?thesis using bl[OF ne] sh(2) last[OF ne] by simp
  next
    case False
    let ?ys = "(act n)[?i := act n ! ?k]"
    have "last ?ys = act n ! ?k" using last[of ?ys] ne False sh(1) by simp
    moreover have "mset ?ys = add_mset (act n ! ?k) (mset (act n) - {#act n ! ?i#})"
      using sh(1) by (simp add: mset_update)
    ultimately have "mset (butlast ?ys) = mset (act n) - {#act n ! ?i#}"
      using bl[of ?ys] ne by simp
    then show ?thesis using False sh(1,2) by simp
  qed
qed

lemma act_drop_queued:
  assumes q: "queue_ok n" and E: "\<not> in_parallel E"
  shows "0 \<le> act_of (act_drop E n v) x \<longleftrightarrow> 0 \<le> act_of n x \<and>
    (0 \<le> act_of n v \<longrightarrow> act_of n x \<noteq> act_of n v)"
proof (cases "0 \<le> act_of n v")
  case True
  define i where "i = nat (act_of n v)"
  define k where "k = length (act n) - 1"
  define z where "z = act n ! k"
  note sh = act_drop_shape[OF q True E, folded i_def k_def z_def]
  have kl: "k < length (act n)" using sh(1) by (auto simp: k_def)
  have zi: "act_of n (node (fst z)) = int k" "act_of n (node (snd z)) = int k"
    using queue_okD[OF q kl] by (auto simp: z_def)
  have ai: "act_of n (node (fst (act n ! i))) = int i" "act_of n (node (snd (act n ! i))) = int i"
    using queue_okD[OF q sh(1)] by auto
  have iv: "act_of n v = int i" using True by (simp add: i_def)
  have xi: "act_of n x = int i \<Longrightarrow> x = node (fst (act n ! i)) \<or> x = node (snd (act n ! i))"
    using queue_ok_at(2)[OF q, of x] by auto
  show ?thesis
  proof (cases "i = k")
    case True
    then show ?thesis using sh(3) xi ai iv by (auto simp: fun_upd_apply)
  next
    case False
    then show ?thesis using sh(3) xi ai zi iv by (auto simp: fun_upd_apply)
  qed
qed (simp add: act_drop_idle)

end
