(* ===== verification/NetReclaim.thy ===== *)
theory NetReclaim
  imports NetInv
begin

text \<open>
  What reclamation does to a net whose wiring is intact: \<open>release_now\<close> and everything built on it
  (\<open>net_release\<close>, \<open>net_sever\<close>, \<open>retire\<close>, \<open>net_flush_free\<close>, \<open>net_alloc\<close>) never touches a wire of a
  node that stays alive, reaps only nodes without a connection, and keeps the lists of reclaimed
  slots disjoint chains of dead nodes.
\<close>

section \<open>Reaping\<close>

definition reaps :: "net \<Rightarrow> net \<Rightarrow> bool" where
  "reaps n n' \<longleftrightarrow>
     n' = n\<lparr>dead := dead n', wire := wire n', tag := tag n', pend_head := pend_head n',
           nfree := nfree n'\<rparr> \<and>
     (\<forall>v. dead n v \<longrightarrow> dead n' v) \<and> (\<forall>v. dead n' v \<longrightarrow> dead n v \<or> in_net n v) \<and>
     (\<forall>p. standing n' {} p \<longrightarrow> wire n' p = wire n p) \<and>
     (\<forall>v. live n' v \<longrightarrow> tag n' v = tag n v) \<and>
     (\<forall>p. standing n {} p \<and> \<not> standing n' {} p \<longrightarrow> wire n p = NONE)"

lemma reaps_refl [simp]: "reaps n n"
  by (simp add: reaps_def)

lemma reaps_frame:
  assumes "reaps n n'"
  shows "ncap n' = ncap n" "nn n' = nn n" "scope n' = scope n" "act n' = act n" "act_of n' = act_of n"
    "lvl n' = lvl n" "root n' = root n" "free_head n' = free_head n" "pins n' = pins n"
    "dem n' = dem n" "dem_stamp n' = dem_stamp n" "vport n' = vport n" "dem_out n' = dem_out n"
    "steps n' = steps n" "t_act n' = t_act n" "recycled n' = recycled n" "fatal n' = fatal n"
    "in_net n' v = in_net n v"
proof -
  have e: "n' = n\<lparr>dead := dead n', wire := wire n', tag := tag n', pend_head := pend_head n',
           nfree := nfree n'\<rparr>" using assms by (simp add: reaps_def)
  show "ncap n' = ncap n" "nn n' = nn n" "scope n' = scope n" "act n' = act n" "act_of n' = act_of n"
    "lvl n' = lvl n" "root n' = root n" "free_head n' = free_head n" "pins n' = pins n"
    "dem n' = dem n" "dem_stamp n' = dem_stamp n" "vport n' = vport n" "dem_out n' = dem_out n"
    "steps n' = steps n" "t_act n' = t_act n" "recycled n' = recycled n" "fatal n' = fatal n"
    by (subst e, simp)+
  then show "in_net n' v = in_net n v" by (simp add: in_net_def)
qed

lemma reapsD:
  assumes "reaps n n'"
  shows "dead n v \<Longrightarrow> dead n' v" "dead n' v \<Longrightarrow> dead n v \<or> in_net n v"
    "standing n' {} p \<Longrightarrow> wire n' p = wire n p" "live n' v \<Longrightarrow> tag n' v = tag n v"
    "standing n {} p \<Longrightarrow> \<not> standing n' {} p \<Longrightarrow> wire n p = NONE"
    "live n' v \<Longrightarrow> live n v" "standing n' {} p \<Longrightarrow> standing n {} p"
  using assms reaps_frame(18)[OF assms] unfolding reaps_def standing_def live_def by blast+

lemma reaps_trans [trans]:
  assumes a: "reaps n m" and b: "reaps m k"
  shows "reaps n k"
proof -
  have rec: "k = n\<lparr>dead := dead k, wire := wire k, tag := tag k, pend_head := pend_head k,
      nfree := nfree k\<rparr>"
    by (rule net.equality) (simp_all add: reaps_frame(1-17)[OF a] reaps_frame(1-17)[OF b])
  note A = reapsD[OF a] and B = reapsD[OF b] and fr = reaps_frame(18)[OF a]
  have "\<forall>v. dead n v \<longrightarrow> dead k v" using A(1) B(1) by blast
  moreover have "\<forall>v. dead k v \<longrightarrow> dead n v \<or> in_net n v" using A(2) B(2) fr by blast
  moreover have "\<forall>p. standing k {} p \<longrightarrow> wire k p = wire n p"
    using A(3) B(3) B(7) by simp
  moreover have "\<forall>v. live k v \<longrightarrow> tag k v = tag n v" using A(4) B(4) B(6) by simp
  moreover have "standing n {} p \<and> \<not> standing k {} p \<longrightarrow> wire n p = NONE" for p
    using A(3)[of p] A(5)[of p] B(5)[of p] by (cases "standing m {} p") auto
  ultimately show ?thesis unfolding reaps_def using rec by blast
qed

lemma not_standing_wired:
  assumes "wired n {} {}" "\<not> standing n {} q"
  shows "wired (set_wire q x n) {} {}"
  unfolding wired_def
proof (intro allI impI)
  fix p assume "standing (set_wire q x n) {} p"
  then have p: "standing n {} p" by simp
  with assms(2) have "p \<noteq> q" by auto
  moreover have "wire n p \<noteq> NONE \<Longrightarrow> wire n p \<noteq> q" using wired_back(1)[OF assms(1) p] assms(2) by auto
  ultimately show "linked (set_wire q x n) {} {} p"
    using wiredD[OF assms(1) p] by (auto simp: linked_def)
qed

lemma not_standing_reaps: "\<not> standing n {} q \<Longrightarrow> reaps n (set_wire q x n)"
  by (auto simp: reaps_def set_wire_def standing_def live_def in_net_def)

lemma isolated_dies:
  assumes w: "wired n {} {}" and v: "live n v" and iso: "\<And>p. p < 3 \<Longrightarrow> wire n (Port v p) = NONE"
  shows "wired (n\<lparr>dead := (dead n)(v := True)\<rparr>) {} {}" "reaps n (n\<lparr>dead := (dead n)(v := True)\<rparr>)"
proof -
  let ?m = "n\<lparr>dead := (dead n)(v := True)\<rparr>"
  have lv: "live ?m u \<longleftrightarrow> live n u \<and> u \<noteq> v" for u by (auto simp: live_def in_net_def)
  have iso': "node p = v \<Longrightarrow> pno p < 3 \<Longrightarrow> wire n p = NONE" for p using iso by (cases p) auto
  show "wired ?m {} {}" unfolding wired_def
  proof (intro allI impI)
    fix p assume "standing ?m {} p"
    then have p: "standing n {} p" by (simp add: standing_def lv)
    have "node (wire n p) \<noteq> v" if ne: "wire n p \<noteq> NONE"
    proof
      assume "node (wire n p) = v"
      then have "wire n (wire n p) = NONE"
        using wired_back(1)[OF w p ne] iso' by (simp add: standing_def)
      then show False using wired_back(2)[OF w p ne] standing_not_NONE[OF p] by simp
    qed
    then show "linked ?m {} {} p" using wiredD[OF w p] by (auto simp: linked_def lv)
  qed
  show "reaps n ?m"
    using v iso' by (auto simp: reaps_def standing_def lv live_def in_net_def)
qed

text \<open>One port of a dead node: nothing alive changes, and a partner pushed was isolated.\<close>

lemma release_port_spec:
  assumes w: "wired n {} {}" and u: "dead n u" "in_net n u" and r: "release_port u p (n, st) = (n', st')"
  shows "wired n' {} {}" "reaps n n'"
    "tag n' = tag n" "pend_head n' = pend_head n" "nfree n' = nfree n"
    "st' = st \<and> dead n' = dead n \<or>
     (\<exists>x. live n x \<and> dead n' = (dead n)(x := True) \<and> st' = x # st)"
    "\<And>q. wire n' q = wire n q \<or> q = Port u p \<or> wire n q = Port u p \<and> \<not> standing n {} q"
proof -
  define n1 where "n1 = set_wire (Port u p) NONE n"
  define x where "x = wire n (Port u p)"
  define n2 where "n2 = (if wire n1 x = Port u p then set_wire x NONE n1 else n1)"
  have dead_u: "\<not> standing n {} (Port u p)" using u by (simp add: standing_def live_def)
  note s1 = not_standing_wired[OF w dead_u, of NONE] not_standing_reaps[OF dead_u, of NONE]
  have x1: "wire n1 x = Port u p \<Longrightarrow> \<not> standing n {} x"
  proof
    assume e: "wire n1 x = Port u p" and sx: "standing n {} x"
    then have "wire n x = Port u p" using dead_u by (auto simp: n1_def split: if_splits)
    moreover have "Port u p \<noteq> NONE" using u(2) by auto
    ultimately have "standing n {} (Port u p)"
      using wired_back(1)[OF w sx] by simp
    with dead_u show False by simp
  qed
  have w2: "wired n2 {} {}" "reaps n n2"
  proof -
    have a: "wired n1 {} {}" "reaps n n1" using s1 by (simp_all add: n1_def)
    show "wired n2 {} {}" using a(1) x1 not_standing_wired[OF a(1), of x NONE]
      by (auto simp: n2_def n1_def)
    have "reaps n1 n2" using x1 not_standing_reaps[of n1 x NONE] by (auto simp: n2_def n1_def)
    with a(2) show "reaps n n2" by (rule reaps_trans)
  qed
  have f2: "tag n2 = tag n" "pend_head n2 = pend_head n" "nfree n2 = nfree n" "dead n2 = dead n"
    "live n2 v = live n v" "in_net n2 v = in_net n v" for v by (auto simp: n2_def n1_def)
  have q2: "wire n2 q = wire n q \<or> q = Port u p \<or> wire n q = Port u p \<and> \<not> standing n {} q" for q
    using x1 by (auto simp: n2_def n1_def split: if_splits)
  have r': "(n', st') = (if \<not> in_net n1 (node x) then (n1, st)
      else if \<not> dead n2 (node x) \<and> deg_live n2 (node x) = 0
      then (n2\<lparr>dead := (dead n2)(node x := True)\<rparr>, node x # st) else (n2, st))"
    using r unfolding release_port_def prod.case Let_def x_def n2_def n1_def by simp
  consider (out) "n' = n1" "st' = st" "\<not> in_net n1 (node x)"
    | (kill) "n' = n2\<lparr>dead := (dead n2)(node x := True)\<rparr>" "st' = node x # st" "live n2 (node x)"
        "deg_live n2 (node x) = 0"
    | (keep) "n' = n2" "st' = st"
    using r' by (auto simp: live_def n2_def split: if_splits)
  then have "wired n' {} {} \<and> reaps n n' \<and> tag n' = tag n \<and> pend_head n' = pend_head n \<and>
    nfree n' = nfree n \<and> (st' = st \<and> dead n' = dead n \<or>
     (\<exists>x. live n x \<and> dead n' = (dead n)(x := True) \<and> st' = x # st)) \<and>
    (\<forall>q. wire n' q = wire n q \<or> q = Port u p \<or> wire n q = Port u p \<and> \<not> standing n {} q)"
  proof cases
    case out
    then show ?thesis using s1 by (auto simp: n1_def)
  next
    case kill
    have iso: "\<And>p. p < 3 \<Longrightarrow> wire n2 (Port (node x) p) = NONE"
      using isolated_iff[OF w2(1) kill(3)] kill(4) by blast
    note d = isolated_dies[OF w2(1) kill(3) iso]
    show ?thesis using kill d reaps_trans[OF w2(2) d(2)] f2 q2 by auto
  next
    case keep
    then show ?thesis using w2 f2 q2 by auto
  qed
  then show "wired n' {} {}" "reaps n n'"
    "tag n' = tag n" "pend_head n' = pend_head n" "nfree n' = nfree n"
    "st' = st \<and> dead n' = dead n \<or>
     (\<exists>x. live n x \<and> dead n' = (dead n)(x := True) \<and> st' = x # st)"
    "\<And>q. wire n' q = wire n q \<or> q = Port u p \<or> wire n q = Port u p \<and> \<not> standing n {} q"
    by blast+
qed


text \<open>The slots of the worklist: dead, in range, distinct and not yet on either list.\<close>

definition stack_ok :: "net \<Rightarrow> int list \<Rightarrow> int list \<Rightarrow> bool" where
  "stack_ok n st xs \<longleftrightarrow> distinct st \<and> set st \<inter> set xs = {} \<and> (\<forall>v \<in> set st. in_net n v \<and> dead n v)"

lemma stack_okD:
  assumes "stack_ok n st xs" "v \<in> set st"
  shows "in_net n v" "dead n v" "v \<notin> set xs" "v \<noteq> - 1"
  using assms by (auto simp: stack_ok_def in_net_def)

lemma release_port_slots:
  assumes w: "wired n {} {}" and sl: "slots_ok n fs ps" and st: "stack_ok n (u # st) (fs @ ps)"
    and r: "release_port u p (n, st) = (n', st')"
  shows "slots_ok n' fs ps" "stack_ok n' (u # st') (fs @ ps)"
proof -
  have u: "dead n u" "in_net n u" "u \<notin> set (fs @ ps)" using stack_okD[OF st, of u] by auto
  note sp = release_port_spec[OF w u(1,2) r]
  note fr = reaps_frame[OF sp(2)]
  have link: "wire n' (Port x 0) = wire n (Port x 0)" if x: "x \<in> set (fs @ ps)" for x
  proof (rule ccontr)
    assume "wire n' (Port x 0) \<noteq> wire n (Port x 0)"
    then have "Port x 0 = Port u p \<or> node (wire n (Port x 0)) = u" using sp(7) by force
    moreover have "node (wire n (Port x 0)) \<in> insert (- 1) (set (fs @ ps))"
      using chain_next[of "wire n" _ fs x] chain_next[of "wire n" _ ps x] sl x
      by (auto simp: slots_ok_def)
    ultimately show False using x u by (auto simp: in_net_def)
  qed
  have "chain (wire n') h xs = chain (wire n) h xs" if "set xs \<subseteq> set (fs @ ps)" for h xs
    using link that by (intro chain_cong) auto
  then show "slots_ok n' fs ps"
    using sl sp(1-5) fr reapsD(1)[OF sp(2)] by (auto simp: slots_ok_def)
  have dn: "x \<in> set (fs @ ps) \<Longrightarrow> dead n x" for x using sl by (auto simp: slots_ok_def)
  from sp(6) show "stack_ok n' (u # st') (fs @ ps)"
  proof
    assume "\<exists>x. live n x \<and> dead n' = (dead n)(x := True) \<and> st' = x # st"
    then obtain x where x: "live n x" "dead n' = (dead n)(x := True)" "st' = x # st" by blast
    have "x \<notin> set (u # st)" "x \<notin> set (fs @ ps)"
      using x(1) stack_okD(2)[OF st] dn by (auto simp: live_def)
    then show ?thesis using st x fr(18) by (auto simp: stack_ok_def live_def)
  qed (use st fr(18) in \<open>auto simp: stack_ok_def\<close>)
qed

lemma stack_ok_tl: "stack_ok n (u # st) xs \<Longrightarrow> stack_ok n st xs"
  by (simp add: stack_ok_def)

lemma release_node_spec:
  assumes w: "wired n {} {}" and sl: "slots_ok n fs ps" and st: "stack_ok n (u # st) (fs @ ps)"
    and r: "release_node u (n, st) = (n', st')"
  shows "wired n' {} {}" "reaps n n'" "slots_ok n' fs (u # ps)" "stack_ok n' st' (fs @ u # ps)"
    "\<forall>v \<in> set st'. v \<in> set st \<or> live n v"
proof -
  obtain n1 s1 where 1: "release_port u 0 (n, st) = (n1, s1)" by fastforce
  obtain n2 s2 where 2: "release_port u 1 (n1, s1) = (n2, s2)" by fastforce
  obtain n3 s3 where 3: "release_port u 2 (n2, s2) = (n3, s3)" by fastforce
  have u: "dead n u" "in_net n u" using stack_okD[OF st, of u] by auto
  note p1 = release_port_spec[OF w u 1] and q1 = release_port_slots[OF w sl st 1]
  have u1: "dead n1 u" "in_net n1 u" using stack_okD[OF q1(2), of u] by auto
  note p2 = release_port_spec[OF p1(1) u1 2] and q2 = release_port_slots[OF p1(1) q1 2]
  have u2: "dead n2 u" "in_net n2 u" using stack_okD[OF q2(2), of u] by auto
  note p3 = release_port_spec[OF p2(1) u2 3] and q3 = release_port_slots[OF p2(1) q2 3]
  have u3: "dead n3 u" "in_net n3 u" "u \<notin> set (fs @ ps)" using stack_okD[OF q3(2), of u] by auto
  have n': "n' = set_wire (Port u 0) (Port (pend_head n3) 0) (n3\<lparr>tag := (tag n3)(u := ERA),
      pend_head := u, nfree := nfree n3 + 1\<rparr>)" "st' = s3"
    using r 1 2 3 by (auto simp: release_node_def set_wire_def)
  let ?m = "n3\<lparr>tag := (tag n3)(u := ERA), pend_head := u, nfree := nfree n3 + 1\<rparr>"
  have lm: "live ?m v = live n3 v" "standing ?m D p = standing n3 D p" for v D p
    by (simp_all add: live_def in_net_def standing_def)
  have wm: "wired ?m {} {}" using p3(1) by (simp add: wired_def linked_def lm)
  have su: "\<not> standing ?m {} (Port u 0)" using u3(1) by (simp add: standing_def live_def)
  show "wired n' {} {}" unfolding n'(1) by (rule not_standing_wired[OF wm su])
  have "reaps n3 ?m" using u3(1) by (auto simp: reaps_def lm) (auto simp: live_def)
  then have "reaps n3 n'"
    unfolding n'(1) by (rule reaps_trans) (rule not_standing_reaps[OF su])
  then show "reaps n n'" using reaps_trans[OF p1(2) reaps_trans[OF p2(2) reaps_trans[OF p3(2)]]] by blast
  have keep: "x \<noteq> u \<Longrightarrow> wire n' (Port x 0) = wire n3 (Port x 0)" for x by (simp add: n')
  have cf: "chain (wire n') h xs = chain (wire n3) h xs" if "set xs \<subseteq> set (fs @ ps)" for h xs
    using that u3(3) by (intro chain_cong keep) auto
  have in': "in_net n' v = in_net n3 v" "dead n' = dead n3" "free_head n' = free_head n3"
    "pend_head n' = u" "nfree n' = nfree n3 + 1" "wire n' (Port u 0) = Port (pend_head n3) 0" for v
    by (simp_all add: n' in_net_def)
  show "slots_ok n' fs (u # ps)"
    using q3(1) u3 by (auto simp: slots_ok_def in' cf)
  show "stack_ok n' st' (fs @ u # ps)"
    using q3(2) by (auto simp: stack_ok_def in' n'(2))
  have "set s1 \<subseteq> set st \<union> live_set n" "set s2 \<subseteq> set s1 \<union> live_set n1" "set s3 \<subseteq> set s2 \<union> live_set n2"
    using p1(6) p2(6) p3(6) by (auto simp: live_set_def)
  moreover have "live_set n1 \<subseteq> live_set n" "live_set n2 \<subseteq> live_set n1"
    using reapsD(6)[OF p1(2)] reapsD(6)[OF p2(2)] by (auto simp: live_set_def)
  ultimately show "\<forall>v \<in> set st'. v \<in> set st \<or> live n v"
    unfolding n'(2) live_set_def by blast
qed

lemma release_loop_spec:
  "wired n {} {} \<Longrightarrow> slots_ok n fs ps \<Longrightarrow> stack_ok n st (fs @ ps) \<Longrightarrow>
   wired (release_loop n st) {} {} \<and> reaps n (release_loop n st) \<and>
   (\<exists>qs. slots_ok (release_loop n st) fs (qs @ ps) \<and> (\<forall>v \<in> set qs. v \<in> set st \<or> live n v))"
proof (induction n st arbitrary: ps rule: release_loop.induct)
  case (1 n)
  then have "slots_ok n fs ([] @ ps) \<and> (\<forall>v \<in> set []. v \<in> set [] \<or> live n v)" by simp
  with 1 show ?case unfolding release_loop.simps using reaps_refl by blast
next
  case (2 n u st)
  obtain n' st' where r: "release_node u (n, st) = (n', st')" by fastforce
  note sp = release_node_spec[OF 2(2,3,4) r]
  note ih = "2.IH"[OF r[symmetric] sp(1) sp(3,4)]
  then obtain qs where qs: "slots_ok (release_loop n' st') fs (qs @ u # ps)"
    "\<forall>v \<in> set qs. v \<in> set st' \<or> live n' v" by blast
  have "reaps n (release_loop n' st')" using ih reaps_trans[OF sp(2)] by blast
  moreover have "\<forall>v \<in> set (qs @ [u]). v \<in> set (u # st) \<or> live n v"
    using qs(2) sp(5) reapsD(6)[OF sp(2)] by auto
  ultimately show ?case using r ih exI[of _ "qs @ [u]"] qs(1) by simp
qed

lemma release_now_spec:
  assumes "wired n {} {}" "slots_ok n fs ps" "dead n v" "in_net n v" "v \<notin> set (fs @ ps)"
  shows "wired (release_now n v) {} {}" "reaps n (release_now n v)"
    "\<exists>qs. slots_ok (release_now n v) fs (qs @ ps) \<and> (\<forall>u \<in> set qs. u = v \<or> live n u)"
  using release_loop_spec[OF assms(1,2), of "[v]"] assms(3-5)
  by (auto simp: release_now_def stack_ok_def)

end
