(* ===== verification/PairInv.thy ===== *)
theory PairInv
  imports NetReclaim
begin

text \<open>
  The invariant of a net while a rule consumes the pair \<open>D\<close>: the nodes of \<open>D\<close> are still alive, the
  ports \<open>X\<close> of \<open>D\<close> have not been handed over yet, and everything else is as in a net at rest.
  Linking, severing and allocating preserve it; with \<open>D = {}\<close> it is the invariant \<open>net_ok\<close>.
\<close>

definition handed :: "net \<Rightarrow> int set \<Rightarrow> port set \<Rightarrow> bool" where
  "handed n D X \<longleftrightarrow> (\<forall>x \<in> X. node x \<in> D \<and> 0 < pno x \<and> pno x < 3 \<and>
     (wire n x = NONE \<or> node (wire n x) \<in> D \<or> standing n D (wire n x) \<and> wire n (wire n x) = x))"

definition pair_inv :: "net \<Rightarrow> int set \<Rightarrow> port set \<Rightarrow> bool" where
  "pair_inv n D X \<longleftrightarrow> wired n D X \<and> handed n D X \<and> (\<forall>v \<in> D. live n v) \<and> queue_ok n \<and> queue_live n \<and>
     (\<exists>fs ps. slots_ok n fs ps) \<and> levels_ok n \<and> room_ok n"

lemma net_ok_pair_inv: "net_ok n \<longleftrightarrow> pair_inv n {} {}"
  by (auto simp: net_ok_def pair_inv_def handed_def)

lemma pair_invD:
  assumes "pair_inv n D X"
  shows "wired n D X" "handed n D X" "\<And>v. v \<in> D \<Longrightarrow> live n v" "queue_ok n" "queue_live n"
    "\<exists>fs ps. slots_ok n fs ps" "levels_ok n" "room_ok n"
  using assms by (auto simp: pair_inv_def)

lemma handedD:
  assumes "handed n D X" "x \<in> X"
  shows "node x \<in> D" "0 < pno x" "pno x < 3"
    "wire n x = NONE \<or> node (wire n x) \<in> D \<or> standing n D (wire n x) \<and> wire n (wire n x) = x"
  using assms by (auto simp: handed_def)

text \<open>An end of a pair port, or an unconnected port: what a rule may overwrite.\<close>

definition loose :: "net \<Rightarrow> int set \<Rightarrow> port set \<Rightarrow> port \<Rightarrow> bool" where
  "loose n D X a \<longleftrightarrow> standing n D a \<and> (wire n a = NONE \<or> wire n a \<in> X)"

lemma loose_end:
  assumes "handed n D X" "x \<in> X" "wire n x \<noteq> NONE" "node (wire n x) \<notin> D"
  shows "loose n D X (wire n x)" "wire n (wire n x) = x"
  using handedD(4)[OF assms(1,2)] assms by (auto simp: loose_def)

lemma loose_unqueued:
  assumes inv: "pair_inv n D X" and l: "loose n D X a" and p0: "pno a = 0"
  shows "act_of n (node a) < 0"
proof (rule ccontr)
  assume "\<not> act_of n (node a) < 0"
  then obtain p q where pq: "(p, q) \<in> set (act n)" "node a = node p \<or> node a = node q"
    using queue_ok_mem[OF pair_invD(4)[OF inv], of "node a"] by auto
  then have r: "redex_live n p q" using pair_invD(5)[OF inv] by (auto simp: queue_live_def)
  then have "a = p \<or> a = q"
    using pq(2) p0 port_eqI[of a p] port_eqI[of a q] by (auto simp: redex_live_def)
  then have "pno (wire n a) = 0" "live n (node (wire n a))"
    using r by (auto simp: redex_live_def)
  then show False using l handedD(2)[OF pair_invD(2)[OF inv], of "wire n a"] by (auto simp: loose_def)
qed

text \<open>What linking and severing leave alone.\<close>

definition meta :: "net \<Rightarrow> net \<Rightarrow> bool" where
  "meta n m \<longleftrightarrow> lvl m = lvl n \<and> scope m = scope n \<and> root m = root n \<and> pins m = pins n \<and>
     steps m = steps n \<and> nn m = nn n \<and> ncap m = ncap n \<and> (\<forall>u. live m u \<longrightarrow> live n u \<and> tag m u = tag n u)"

lemma metaD:
  assumes "meta n m"
  shows "lvl m = lvl n" "scope m = scope n" "root m = root n" "pins m = pins n" "steps m = steps n"
    "nn m = nn n" "ncap m = ncap n" "live m u \<Longrightarrow> live n u" "live m u \<Longrightarrow> tag m u = tag n u"
  using assms by (auto simp: meta_def)

lemma meta_refl [simp]: "meta n n"
  by (simp add: meta_def)

lemma meta_trans [trans]: "meta n m \<Longrightarrow> meta m k \<Longrightarrow> meta n k"
  by (simp add: meta_def)

section \<open>Linking\<close>

lemma link_wired:
  assumes w: "wired n D X" and a: "loose n D X a" and b: "loose n D X b" and ab: "a \<noteq> b"
    and h: "handed n D X"
  shows "wired (set_wire b a (set_wire a b n)) D (X - {wire n a, wire n b})"
  unfolding wired_def
proof (intro allI impI)
  let ?m = "set_wire b a (set_wire a b n)"
  fix p assume "standing ?m D p"
  then have p: "standing n D p" by simp
  show "linked ?m D (X - {wire n a, wire n b}) p"
  proof (cases "p = a \<or> p = b")
    case True
    then show ?thesis using a b ab by (auto simp: linked_def loose_def standing_def)
  next
    case False
    have ne: "c \<noteq> wire n p" if c: "loose n D X c" "p \<noteq> c" "wire n p \<noteq> NONE" for c
    proof
      assume e: "c = wire n p"
      then have "wire n c = p" using wiredD[OF w p] c(3) by (auto simp: linked_def)
      then show False using c(1) p standing_not_NONE[OF p] handedD(1)[OF h, of p]
        by (auto simp: loose_def standing_def)
    qed
    have "wire n p \<noteq> NONE \<Longrightarrow> wire n p \<noteq> wire n a \<and> wire n p \<noteq> wire n b"
    proof -
      assume ne: "wire n p \<noteq> NONE"
      then have rt: "wire n (wire n p) = p" using wiredD[OF w p] by (auto simp: linked_def)
      have "wire n c \<noteq> NONE \<Longrightarrow> wire n (wire n c) = c" if "loose n D X c" for c
        using that wiredD[OF w, of c] by (auto simp: linked_def loose_def)
      then show ?thesis using a b ne rt False by metis
    qed
    then show ?thesis using False wiredD[OF w p] ne[OF a] ne[OF b]
      by (auto simp: linked_def)
  qed
qed

lemma act_push_fields [simp]:
  "ncap (act_push n a b) = ncap n" "nn (act_push n a b) = nn n" "tag (act_push n a b) = tag n"
  "wire (act_push n a b) = wire n" "scope (act_push n a b) = scope n" "dead (act_push n a b) = dead n"
  "lvl (act_push n a b) = lvl n" "root (act_push n a b) = root n"
  "free_head (act_push n a b) = free_head n" "nfree (act_push n a b) = nfree n"
  "pend_head (act_push n a b) = pend_head n" "pins (act_push n a b) = pins n"
  "dem (act_push n a b) = dem n" "dem_stamp (act_push n a b) = dem_stamp n"
  "vport (act_push n a b) = vport n" "dem_out (act_push n a b) = dem_out n"
  "steps (act_push n a b) = steps n" "t_act (act_push n a b) = t_act n"
  "recycled (act_push n a b) = recycled n" "fatal (act_push n a b) = fatal n"
  by (simp_all add: act_push_def)

text \<open>Facts that only read the wiring and the set of live nodes.\<close>

lemma same_view:
  assumes "wire m = wire n" "\<And>v. live m v = live n v"
  shows "standing m D p = standing n D p" "linked m D X p = linked n D X p" "wired m D X = wired n D X"
    "handed m D X = handed n D X" "redex_live m p q = redex_live n p q" "loose m D X p = loose n D X p"
proof -
  show s: "standing m D p = standing n D p" for p by (simp add: standing_def assms)
  show l: "linked m D X p = linked n D X p" for p by (simp add: linked_def assms)
  show "wired m D X = wired n D X" by (simp add: wired_def s l)
  show "handed m D X = handed n D X" by (simp add: handed_def assms s)
  show "redex_live m p q = redex_live n p q" by (simp add: redex_live_def assms)
  show "loose m D X p = loose n D X p" by (simp add: loose_def assms s)
qed

lemma live_act_push [simp]: "live (act_push n a b) v = live n v" "in_net (act_push n a b) v = in_net n v"
  by (simp_all add: live_def in_net_def)

lemma live_act_drop [simp]: "live (act_drop E n x) v = live n v" "in_net (act_drop E n x) v = in_net n v"
  by (simp_all add: live_def in_net_def)

lemma slots_ok_cong:
  assumes "slots_ok n fs ps" "\<And>v. v \<in> set (fs @ ps) \<Longrightarrow> wire m (Port v 0) = wire n (Port v 0)"
    "free_head m = free_head n" "pend_head m = pend_head n" "nfree m = nfree n"
    "\<And>v. v \<in> set (fs @ ps) \<Longrightarrow> in_net m v \<and> dead m v"
  shows "slots_ok m fs ps"
proof -
  have "chain (wire m) h xs = chain (wire n) h xs" if "set xs \<subseteq> set (fs @ ps)" for h xs
    using that assms(2) by (intro chain_cong) auto
  then show ?thesis using assms by (auto simp: slots_ok_def)
qed

lemma act_push_redex_ok:
  assumes "queue_ok n" "queue_live n" "redex_live n a b" "node a \<noteq> node b"
  shows "queue_ok (act_push n a b)" "queue_live (act_push n a b)"
proof -
  show "queue_ok (act_push n a b)" using assms by (intro act_push_ok)
  have "redex_live (act_push n a b) p q = redex_live n p q" for p q by (rule same_view) simp_all
  then show "queue_live (act_push n a b)"
    using assms(2,3) by (auto simp: queue_live_def act_push_def split: if_splits)
qed

lemma act_push_index:
  "act_of (act_push n a b) x =
     (if 0 \<le> act_of n (node a) \<or> 0 \<le> act_of n (node b) then act_of n x
      else if x = node a \<or> x = node b then int (length (act n)) else act_of n x)"
  by (simp add: act_push_def)

lemma net_link_seq:
  assumes "\<not> in_parallel E" "0 \<le> node a" "0 \<le> node b"
  shows "net_link E a b enq n =
    (if enq \<and> pno a = 0 \<and> pno b = 0 then act_push (set_wire b a (set_wire a b n)) a b
     else set_wire b a (set_wire a b n))"
  using assms by (simp add: net_link_def Let_def)


lemma loose_props:
  assumes inv: "pair_inv n D X" and l: "loose n D X a"
  shows "live n (node a)" "node a \<notin> D" "pno a < 3" "0 \<le> node a"
    "wire n a \<noteq> NONE \<Longrightarrow> wire n a \<in> X \<and> wire n (wire n a) = a"
proof -
  show l1: "live n (node a)" "node a \<notin> D" "pno a < 3" using l by (auto simp: loose_def standing_def)
  show "0 \<le> node a" using live_nonneg[OF l1(1)] .
  show "wire n a \<noteq> NONE \<Longrightarrow> wire n a \<in> X \<and> wire n (wire n a) = a"
    using l wiredD[OF pair_invD(1)[OF inv], of a] by (auto simp: loose_def linked_def)
qed

text \<open>The rewired net, before the queue is told.\<close>

lemma rewire_inv:
  assumes inv: "pair_inv n D X" and a: "loose n D X a" and b: "loose n D X b" and ab: "a \<noteq> b"
  defines "m \<equiv> set_wire b a (set_wire a b n)"
  shows "pair_inv m D (X - {wire n a, wire n b})"
    "redex_live m p q \<Longrightarrow> redex_live n p q \<or> (p, q) = (a, b) \<or> (p, q) = (b, a)"
    "wire m a = b" "wire m b = a" "\<And>q. q \<noteq> a \<Longrightarrow> q \<noteq> b \<Longrightarrow> wire m q = wire n q"
    "act m = act n" "act_of m = act_of n"
proof -
  note d = pair_invD[OF inv] and A = loose_props[OF inv a] and B = loose_props[OF inv b]
  show wm: "wire m a = b" "wire m b = a" "\<And>q. q \<noteq> a \<Longrightarrow> q \<noteq> b \<Longrightarrow> wire m q = wire n q"
    using ab by (auto simp: m_def)
  have lv: "live m v = live n v" "standing m D q = standing n D q" "in_net m v = in_net n v" for v q
    by (simp_all add: m_def)
  show fr: "act m = act n" "act_of m = act_of n" by (simp_all add: m_def)
  have "wired m D (X - {wire n a, wire n b})"
    unfolding m_def by (rule link_wired[OF d(1) a b ab d(2)])
  moreover have "handed m D (X - {wire n a, wire n b})"
    unfolding handed_def
  proof
    fix x assume x: "x \<in> X - {wire n a, wire n b}"
    then have xX: "x \<in> X" by simp
    note h = handedD[OF d(2) xX]
    have "x \<noteq> a" "x \<noteq> b" using h(1) A(2) B(2) by auto
    then have wx: "wire m x = wire n x" by (rule wm(3))
    have "standing n D (wire n x) \<and> wire n (wire n x) = x \<Longrightarrow> wire n x \<noteq> a \<and> wire n x \<noteq> b"
      using x by auto
    then show "node x \<in> D \<and> 0 < pno x \<and> pno x < 3 \<and>
     (wire m x = NONE \<or> node (wire m x) \<in> D \<or> standing m D (wire m x) \<and> wire m (wire m x) = x)"
      using h wx wm(3) by (auto simp: lv)
  qed
  moreover have "queue_live m"
    unfolding queue_live_def
  proof clarify
    fix p q assume "(p, q) \<in> set (act m)"
    then have pq: "(p, q) \<in> set (act n)" by (simp add: fr)
    then have r: "redex_live n p q" using d(5) by (auto simp: queue_live_def)
    have queued: "0 \<le> act_of n (node p)" "0 \<le> act_of n (node q)"
      using queue_ok_mem[OF d(4)] pq by auto
    have "p \<noteq> c \<and> q \<noteq> c" if "loose n D X c" for c
      using loose_unqueued[OF inv that] queued r by (auto simp: redex_live_def)
    then show "redex_live m p q" using r a b wm(3) by (auto simp: redex_live_def lv)
  qed
  moreover have "\<exists>fs ps. slots_ok m fs ps"
  proof -
    obtain fs ps where sl: "slots_ok n fs ps" using d(6) by blast
    have "v \<in> set (fs @ ps) \<Longrightarrow> Port v 0 \<noteq> a \<and> Port v 0 \<noteq> b" for v
      using sl A(1) B(1) by (auto simp: slots_ok_def live_def)
    then have "slots_ok m fs ps" using sl
      by (intro slots_ok_cong[OF sl]) (auto simp: m_def slots_ok_def)
    then show ?thesis by blast
  qed
  ultimately show "pair_inv m D (X - {wire n a, wire n b})"
    using d by (auto simp: pair_inv_def lv m_def queue_ok_def levels_ok_def room_ok_def)
  show "redex_live n p q \<or> (p, q) = (a, b) \<or> (p, q) = (b, a)" if "redex_live m p q"
  proof (cases "p \<in> {a, b} \<or> q \<in> {a, b}")
    case True
    have "wire m p = q" "wire m q = p" using that by (simp_all add: redex_live_def)
    then show ?thesis using True wm(1,2) by (metis empty_iff insert_iff)
  next
    case False
    then show ?thesis using that wm(3) by (auto simp: redex_live_def lv)
  qed
qed

lemma act_push_inv:
  assumes "pair_inv n D X" "redex_live n a b" "node a \<noteq> node b"
  shows "pair_inv (act_push n a b) D X"
proof -
  let ?m = "act_push n a b"
  have v: "wired ?m D X = wired n D X" "handed ?m D X = handed n D X" by (rule same_view; simp)+
  note d = pair_invD[OF assms(1)]
  have "\<exists>fs ps. slots_ok ?m fs ps" using d(6) by (auto simp: slots_ok_def)
  moreover have "room_ok ?m"
    using d(8) assms(2) by (auto simp: room_ok_def act_push_index redex_live_def live_def in_net_def)
  ultimately show ?thesis
    using d act_push_redex_ok[OF d(4,5) assms(2,3)]
    by (auto simp: pair_inv_def v levels_ok_def)
qed

lemma link_inv:
  assumes inv: "pair_inv n D X" and a: "loose n D X a" and b: "loose n D X b" and ne: "a \<noteq> b"
    and E: "\<not> in_parallel E" and m_def: "m = net_link E a b enq n"
  shows "pair_inv m D (X - {wire n a, wire n b})"
    "wire m a = b" "wire m b = a" "\<And>q. q \<noteq> a \<Longrightarrow> q \<noteq> b \<Longrightarrow> wire m q = wire n q"
    "\<And>P. all_queued n P \<Longrightarrow> enq \<or> 0 < pno a \<or> 0 < pno b \<Longrightarrow> all_queued m P"
    "\<And>u. live m u = live n u" "meta n m"
proof -
  let ?r = "set_wire b a (set_wire a b n)"
  have self: "pno a = 0 \<Longrightarrow> pno b = 0 \<Longrightarrow> node a \<noteq> node b" using ne port_eqI[of a b] by auto
  note r = rewire_inv[OF inv a b ne] and A = loose_props[OF inv a] and B = loose_props[OF inv b]
  have m: "m = (if enq \<and> pno a = 0 \<and> pno b = 0 then act_push ?r a b else ?r)"
    unfolding m_def using net_link_seq[OF E A(4) B(4)] by simp
  have red: "redex_live ?r a b" if "pno a = 0" "pno b = 0"
    using that ne A(1) B(1) by (auto simp: redex_live_def)
  show "pair_inv m D (X - {wire n a, wire n b})"
    using r(1) red self act_push_inv[OF r(1)] by (auto simp: m)
  show "wire m a = b" "wire m b = a" "\<And>q. q \<noteq> a \<Longrightarrow> q \<noteq> b \<Longrightarrow> wire m q = wire n q"
    using r(3-5) by (auto simp: m)
  show "\<And>u. live m u = live n u" "meta n m" by (simp_all add: m meta_def)
  show "all_queued m P" if q: "all_queued n P" and e: "enq \<or> 0 < pno a \<or> 0 < pno b" for P
    unfolding all_queued_def
  proof (intro allI impI)
    fix p p' assume "redex_live m p p'"
    then have "redex_live ?r p p'" using same_view(5)[of m ?r p p'] by (auto simp: m)
    from r(2)[OF this] show "0 \<le> act_of m (node p) \<or> (p, p') \<in> P \<or> (p', p) \<in> P"
    proof
      assume "redex_live n p p'"
      then have "0 \<le> act_of n (node p) \<or> (p, p') \<in> P \<or> (p', p) \<in> P"
        using q by (auto simp: all_queued_def)
      then show ?thesis by (auto simp: m act_push_index)
    next
      assume ab': "(p, p') = (a, b) \<or> (p, p') = (b, a)"
      then have z: "pno a = 0" "pno b = 0" using \<open>redex_live ?r p p'\<close> by (auto simp: redex_live_def)
      then have "act_of n (node a) < 0" "act_of n (node b) < 0"
        using loose_unqueued[OF inv a] loose_unqueued[OF inv b] by auto
      then show ?thesis using ab' z e by (auto simp: m act_push_index)
    qed
  qed
qed


section \<open>Severing\<close>

text \<open>Cutting the wire between an end and its pair port.\<close>

lemma cut_inv:
  assumes inv: "pair_inv n D X" and e: "loose n D X e" and x: "wire n e \<noteq> NONE"
  defines "m \<equiv> set_wire (wire n e) NONE (set_wire e NONE n)"
  shows "pair_inv m D (X - {wire n e})" "redex_live m p q \<Longrightarrow> redex_live n p q"
    "act m = act n" "act_of m = act_of n"
proof -
  let ?x = "wire n e"
  note d = pair_invD[OF inv] and A = loose_props[OF inv e]
  have X: "?x \<in> X" "wire n ?x = e" using A(5)[OF x] by auto
  have xD: "node ?x \<in> D" "0 < pno ?x" using handedD[OF d(2) X(1)] by auto
  have wm: "\<And>q. q \<noteq> e \<Longrightarrow> q \<noteq> ?x \<Longrightarrow> wire m q = wire n q" "wire m e = NONE" "wire m ?x = NONE"
    by (auto simp: m_def)
  have lv: "live m v = live n v" "standing m D q = standing n D q" "in_net m v = in_net n v" for v q
    by (simp_all add: m_def)
  show fr: "act m = act n" "act_of m = act_of n" by (simp_all add: m_def)
  have ne: "p \<noteq> e \<Longrightarrow> standing n D p \<Longrightarrow> wire n p \<noteq> NONE \<Longrightarrow> wire n p \<noteq> e \<and> wire n p \<noteq> ?x" for p
  proof -
    assume p: "p \<noteq> e" "standing n D p" "wire n p \<noteq> NONE"
    then have "wire n (wire n p) = p" using wiredD[OF d(1) p(2)] by (auto simp: linked_def)
    moreover have "p \<noteq> ?x" using p(2) xD(1) by (auto simp: standing_def)
    ultimately show "wire n p \<noteq> e \<and> wire n p \<noteq> ?x" using X(2) p(1) by auto
  qed
  have "wired m D (X - {?x})" unfolding wired_def
  proof (intro allI impI)
    fix p assume "standing m D p"
    then have p: "standing n D p" by (simp add: lv)
    show "linked m D (X - {?x}) p"
    proof (cases "p = e \<or> wire n p = NONE")
      case True
      have "p \<noteq> ?x" using p xD(1) by (auto simp: standing_def)
      then show ?thesis using True wm by (cases "p = e") (auto simp: linked_def)
    next
      case False
      then have "p \<noteq> ?x" using p xD(1) by (auto simp: standing_def)
      then show ?thesis using False ne[of p] p wiredD[OF d(1) p] wm(1) by (auto simp: linked_def lv)
    qed
  qed
  moreover have "handed m D (X - {?x})" unfolding handed_def
  proof
    fix y assume y: "y \<in> X - {?x}"
    then have yX: "y \<in> X" by simp
    note h = handedD[OF d(2) yX]
    have "y \<noteq> e" using h(1) A(2) by auto
    then have wy: "wire m y = wire n y" using y wm(1) by auto
    have "standing n D (wire n y) \<and> wire n (wire n y) = y \<Longrightarrow> wire n y \<noteq> e \<and> wire n y \<noteq> ?x"
      using y xD(1) by (auto simp: standing_def)
    then show "node y \<in> D \<and> 0 < pno y \<and> pno y < 3 \<and>
     (wire m y = NONE \<or> node (wire m y) \<in> D \<or> standing m D (wire m y) \<and> wire m (wire m y) = y)"
      using h wy wm(1) by (auto simp: lv)
  qed
  moreover have "queue_live m" unfolding queue_live_def
  proof clarify
    fix p q assume "(p, q) \<in> set (act m)"
    then have pq: "(p, q) \<in> set (act n)" by (simp add: fr)
    then have r: "redex_live n p q" using d(5) by (auto simp: queue_live_def)
    have "0 \<le> act_of n (node p)" "0 \<le> act_of n (node q)"
      using queue_ok_mem[OF d(4)] pq by auto
    then have "p \<noteq> e" "q \<noteq> e" using loose_unqueued[OF inv e] r by (auto simp: redex_live_def)
    moreover have "p \<noteq> ?x" "q \<noteq> ?x" using r xD(2) by (auto simp: redex_live_def)
    ultimately show "redex_live m p q" using r wm(1) by (auto simp: redex_live_def lv)
  qed
  moreover have "\<exists>fs ps. slots_ok m fs ps"
  proof -
    obtain fs ps where sl: "slots_ok n fs ps" using d(6) by blast
    have "Port v 0 \<noteq> ?x" for v using xD(2) by (cases ?x) auto
    moreover have "v \<in> set (fs @ ps) \<Longrightarrow> Port v 0 \<noteq> e" for v
      using sl A(1) by (auto simp: slots_ok_def live_def)
    ultimately have "v \<in> set (fs @ ps) \<Longrightarrow> Port v 0 \<noteq> e \<and> Port v 0 \<noteq> ?x" for v by blast
    then have "slots_ok m fs ps" using sl
      by (intro slots_ok_cong[OF sl]) (auto simp: m_def slots_ok_def)
    then show ?thesis by blast
  qed
  ultimately show "pair_inv m D (X - {?x})"
    using d by (auto simp: pair_inv_def lv m_def queue_ok_def levels_ok_def room_ok_def)
  show "redex_live n p q" if r: "redex_live m p q"
  proof -
    have "wire m p \<noteq> NONE" "wire m q \<noteq> NONE" using r by (auto simp: redex_live_def)
    then have "wire m p = wire n p" "wire m q = wire n q"
      using wm by metis+
    then show ?thesis using r by (auto simp: redex_live_def lv)
  qed
qed

text \<open>Reaping a node without connections puts its slot on the pending list and does nothing else.\<close>

definition shelve :: "int \<Rightarrow> net \<Rightarrow> net" where
  "shelve v n = n\<lparr>dead := (dead n)(v := True), tag := (tag n)(v := ERA),
     wire := (wire n)(Port v 0 := Port (pend_head n) 0), pend_head := v, nfree := nfree n + 1\<rparr>"

lemma isolated_unqueued:
  assumes "queue_ok n" "queue_live n" "\<And>p. p < 3 \<Longrightarrow> wire n (Port v p) = NONE"
  shows "act_of n v < 0"
proof (rule ccontr)
  assume "\<not> act_of n v < 0"
  then obtain p q where pq: "(p, q) \<in> set (act n)" "v = node p \<or> v = node q"
    using queue_ok_mem[OF assms(1), of v] by auto
  then have r: "redex_live n p q" using assms(2) by (auto simp: queue_live_def)
  then have "p = Port v 0 \<or> q = Port v 0" using pq(2) by (auto simp: redex_live_def intro: port_eqI)
  moreover have "wire n p \<noteq> NONE" "wire n q \<noteq> NONE" using r by (auto simp: redex_live_def)
  ultimately show False using assms(3)[of 0] by auto
qed

lemma release_isolated:
  assumes q: "queue_ok n" "queue_live n" and v: "live n v"
    and iso: "\<And>p. p < 3 \<Longrightarrow> wire n (Port v p) = NONE"
  shows "net_release E n v = (if in_parallel E \<or> pins n \<noteq> 0 then n else shelve v n)"
proof -
  let ?m = "n\<lparr>dead := (dead n)(v := True)\<rparr>"
  have u: "unowned n v" using iso by (simp add: unowned_def)
  have idle: "act_drop E ?m v = ?m" using isolated_unqueued[OF q iso] by (simp add: act_drop_idle)
  have same: "set_wire (Port v p) NONE n = n" if "p < 3" for p
    using iso[OF that] by (simp add: set_wire_def fun_upd_idem)
  have port: "release_port v p (?m, []) = (?m, [])" if "p < 3" for p
    using iso[OF that] by (simp add: release_port_def Let_def set_wire_def fun_upd_idem)
  have "release_now ?m v = shelve v n"
    using port[of 0] port[of 1] port[of 2]
    by (simp add: release_now_def release_node_def shelve_def)
  then show ?thesis using v u idle by (simp add: net_release_def)
qed

lemma shelve_inv:
  assumes inv: "pair_inv n D X" and v: "live n v" "v \<notin> D"
    and iso: "\<And>p. p < 3 \<Longrightarrow> wire n (Port v p) = NONE"
  shows "pair_inv (shelve v n) D X" "all_queued n P \<Longrightarrow> all_queued (shelve v n) P"
    "\<And>q. node q \<noteq> v \<Longrightarrow> wire (shelve v n) q = wire n q"
    "\<And>u. live (shelve v n) u \<longleftrightarrow> live n u \<and> u \<noteq> v"
proof -
  let ?m = "shelve v n"
  note d = pair_invD[OF inv]
  show wm: "\<And>q. node q \<noteq> v \<Longrightarrow> wire ?m q = wire n q" by (auto simp: shelve_def)
  show lv: "\<And>u. live ?m u \<longleftrightarrow> live n u \<and> u \<noteq> v" by (auto simp: shelve_def live_def in_net_def)
  have st: "standing ?m D q \<longleftrightarrow> standing n D q \<and> node q \<noteq> v" for q by (auto simp: standing_def lv)
  have iso': "node q = v \<Longrightarrow> pno q < 3 \<Longrightarrow> wire n q = NONE" for q using iso by (cases q) auto
  have far: "node (wire n p) \<noteq> v" if "standing n D p" "wire n p \<noteq> NONE" for p
  proof
    assume "node (wire n p) = v"
    then have "wire n (wire n p) = NONE" "wire n (wire n p) = p"
      using wiredD[OF d(1) that(1)] that(2) iso' by (auto simp: linked_def)
    then show False using standing_not_NONE[OF that(1)] by simp
  qed
  have "wired ?m D X" unfolding wired_def
  proof (intro allI impI)
    fix p assume "standing ?m D p"
    then have p: "standing n D p" "node p \<noteq> v" by (auto simp: st)
    show "linked ?m D X p"
      using wiredD[OF d(1) p(1)] wm[OF p(2)] wm[of "wire n p"] far[OF p(1)]
      by (auto simp: linked_def lv)
  qed
  moreover have "handed ?m D X" unfolding handed_def
  proof
    fix x assume x: "x \<in> X"
    note h = handedD[OF d(2) x]
    have "node x \<noteq> v" using h(1) v by auto
    moreover have "standing n D (wire n x) \<and> wire n (wire n x) = x \<Longrightarrow> node (wire n x) \<noteq> v"
      using iso'[of "wire n x"] h(1) d(3)[of "node x"] by (auto simp: standing_def)
    ultimately show "node x \<in> D \<and> 0 < pno x \<and> pno x < 3 \<and>
      (wire ?m x = NONE \<or> node (wire ?m x) \<in> D \<or> standing ?m D (wire ?m x) \<and> wire ?m (wire ?m x) = x)"
      using h wm by (auto simp: st)
  qed
  moreover have redex: "redex_live ?m p q = redex_live n p q" for p q
  proof -
    have "redex_live n p q \<Longrightarrow> node p \<noteq> v \<and> node q \<noteq> v"
      using iso'[of p] iso'[of q] redex_wires[of n p q] by auto
    moreover have "redex_live ?m p q \<Longrightarrow> node p \<noteq> v \<and> node q \<noteq> v"
      using lv redex_liveD(1,2)[of ?m p q] by blast
    moreover have "node p \<noteq> v \<and> node q \<noteq> v \<Longrightarrow> redex_live ?m p q = redex_live n p q"
      by (simp add: redex_live_def lv wm)
    ultimately show ?thesis by blast
  qed
  moreover have a: "act ?m = act n" "act_of ?m = act_of n" by (simp_all add: shelve_def)
  moreover have "\<exists>fs ps. slots_ok ?m fs ps"
  proof -
    obtain fs ps where sl: "slots_ok n fs ps" using d(6) by blast
    have out: "v \<notin> set (fs @ ps)" using sl v(1) by (auto simp: slots_ok_def live_def)
    have "chain (wire ?m) h xs = chain (wire n) h xs" if "set xs \<subseteq> set (fs @ ps)" for h xs
      using that out by (intro chain_cong wm) auto
    then have "slots_ok ?m fs (v # ps)"
      using sl out v(1) by (auto simp: slots_ok_def shelve_def live_def in_net_def)
    then show ?thesis by blast
  qed
  moreover have "queue_ok ?m" using d(4) by (simp add: queue_ok_def a)
  moreover have "levels_ok ?m" using d(7) by (auto simp: levels_ok_def lv) (auto simp: shelve_def)
  moreover have "room_ok ?m" using d(8) v(1) by (auto simp: room_ok_def shelve_def live_def in_net_def)
  moreover have "\<forall>u \<in> D. live ?m u" using d(3) v(2) by (auto simp: lv)
  ultimately show "pair_inv ?m D X" using d(5) by (auto simp: pair_inv_def queue_live_def)
  show "all_queued n P \<Longrightarrow> all_queued ?m P" by (simp add: all_queued_def redex a)
qed


lemma isolated_in:
  assumes inv: "pair_inv n D X" and v: "live n v" "v \<notin> D"
  shows "deg_live n v = 0 \<longleftrightarrow> (\<forall>p < 3. wire n (Port v p) = NONE)"
proof
  note d = pair_invD[OF inv]
  assume z: "deg_live n v = 0"
  show "\<forall>p < 3. wire n (Port v p) = NONE"
  proof (intro allI impI)
    fix p :: nat assume p: "p < 3"
    then have "standing n D (Port v p)" using v by (simp add: standing_def)
    from wiredD[OF d(1) this] z p d(3) show "wire n (Port v p) = NONE"
      by (auto simp: linked_def deg_live_0 split: if_splits)
  qed
qed (simp add: deg_live_0)

text \<open>
  Severing the end of a pair port: the end becomes free; when it was the node's last connection
  the node is reaped, unless a readback walk has pinned the net.
\<close>

lemma sever_inv:
  assumes inv: "pair_inv n D X" and e: "loose n D X e" and x: "wire n e \<noteq> NONE"
    and pr: "\<forall>v \<in> D. node (wire n (Port v 0)) \<in> D"
    and E: "\<not> in_parallel E" and m: "m = net_sever E e n"
  shows "pair_inv m D (X - {wire n e})"
    "\<And>P. all_queued n P \<Longrightarrow> all_queued m P"
    "\<And>q. q \<noteq> e \<Longrightarrow> q \<noteq> wire n e \<Longrightarrow> standing m {} q \<Longrightarrow> wire m q = wire n q"
    "\<And>u. live m u \<longleftrightarrow> live n u \<and> (u = node e \<and> pins n = 0 \<longrightarrow>
       (\<exists>p < 3. Port u p \<noteq> e \<and> wire n (Port u p) \<noteq> NONE))"
    "live m (node e) \<Longrightarrow> wire m e = NONE" "meta n m"
proof -
  let ?x = "wire n e" and ?v = "node e"
  define c where "c = set_wire ?x NONE (set_wire e NONE n)"
  note d = pair_invD[OF inv] and A = loose_props[OF inv e]
  note cut = cut_inv[OF inv e x, folded c_def]
  have X: "?x \<in> X" "wire n ?x = e" using A(5)[OF x] by auto
  have xD: "node ?x \<in> D" "0 < pno ?x" "live n (node ?x)"
    using handedD[OF d(2) X(1)] d(3)[of "node ?x"] by auto
  have ex: "e \<noteq> ?x" using xD(1) A(2) by auto
  have lc: "live c u = live n u" "in_net c u = in_net n u" for u by (simp_all add: c_def)
  have wc: "\<And>q. q \<noteq> e \<Longrightarrow> q \<noteq> ?x \<Longrightarrow> wire c q = wire n q" "wire c e = NONE" "wire c ?x = NONE"
    by (auto simp: c_def)
  note dc = pair_invD[OF cut(1)]
  have pc: "Port (node ?x) 0 \<noteq> e" "Port (node ?x) 0 \<noteq> ?x" using xD(2) A(2) xD(1)
    by (auto dest: arg_cong[of _ _ node] arg_cong[of _ _ pno])
  have deg_x: "deg_live k (node ?x) \<noteq> 0"
    if "live k (node (wire n (Port (node ?x) 0)))" "wire k (Port (node ?x) 0) = wire n (Port (node ?x) 0)" for k
    using that by (auto simp: deg_live_0 intro!: exI[of _ 0])
  have partner: "live n (node (wire n (Port (node ?x) 0)))" "node (wire n (Port (node ?x) 0)) \<noteq> ?v"
    using pr xD(1) d(3) A(2) by auto
  have iso: "deg_live c ?v = 0 \<longleftrightarrow> (\<forall>p < 3. wire c (Port ?v p) = NONE)"
    using isolated_in[OF cut(1)] A(1,2) by (simp add: lc)
  have pv: "wire c (Port ?v p) = (if Port ?v p = e then NONE else wire n (Port ?v p))" for p
  proof -
    have "Port ?v p \<noteq> ?x" using xD(1) A(2) by (cases ?x) auto
    then show ?thesis using wc by auto
  qed
  have ps: "pins c = pins n" by (simp add: c_def)
  have "in_net n ?v" using A(1) by (simp add: live_def)
  then have sev: "m = (let n3 = (if deg_live c ?v = 0 then net_release E c ?v else c)
      in if in_net n3 (node ?x) \<and> deg_live n3 (node ?x) = 0 then net_release E n3 (node ?x) else n3)"
    using m X(2) ex xD(3) by (simp add: net_sever_def Let_def c_def live_def)
  consider (reap) "deg_live c ?v = 0" "pins n = 0" | (keep) "deg_live c ?v \<noteq> 0 \<or> pins n \<noteq> 0" by blast
  then have shape: "m = (if deg_live c ?v = 0 \<and> pins n = 0 then shelve ?v c else c)"
  proof cases
    case reap
    have i: "\<And>p. p < 3 \<Longrightarrow> wire c (Port ?v p) = NONE" using reap iso by blast
    have "net_release E c ?v = shelve ?v c"
      using release_isolated[OF dc(4,5) _ i] A(1) E reap(2) by (simp add: lc ps)
    moreover have "deg_live (shelve ?v c) (node ?x) \<noteq> 0"
      using partner pc wc xD(1) A(2) by (intro deg_x) (auto simp: shelve_def live_def in_net_def c_def)
    ultimately show ?thesis using reap sev by (simp add: Let_def)
  next
    case keep
    have "deg_live c ?v = 0 \<Longrightarrow> net_release E c ?v = c"
      using release_isolated[OF dc(4,5)] A(1) iso keep by (auto simp: lc ps)
    moreover have "deg_live c (node ?x) \<noteq> 0" using partner pc wc by (intro deg_x) (auto simp: lc)
    ultimately show ?thesis using keep sev by (auto simp: Let_def)
  qed
  then consider (reap) "m = shelve ?v c" "deg_live c ?v = 0" "pins n = 0"
    | (keep) "m = c" "deg_live c ?v \<noteq> 0 \<or> pins n \<noteq> 0" by (auto split: if_splits)
  then show "meta n m" by cases (auto simp: meta_def lc shelve_def c_def live_def in_net_def)
  from shape consider (reap) "m = shelve ?v c" "deg_live c ?v = 0" "pins n = 0"
    | (keep) "m = c" "deg_live c ?v \<noteq> 0 \<or> pins n \<noteq> 0" by (auto split: if_splits)
  then have "pair_inv m D (X - {wire n e}) \<and> (\<forall>P. all_queued n P \<longrightarrow> all_queued m P) \<and>
    (\<forall>q. q \<noteq> e \<and> q \<noteq> wire n e \<and> standing m {} q \<longrightarrow> wire m q = wire n q) \<and>
    (\<forall>u. live m u \<longleftrightarrow> live n u \<and> (u = ?v \<and> pins n = 0 \<longrightarrow>
       (\<exists>p < 3. Port u p \<noteq> e \<and> wire n (Port u p) \<noteq> NONE))) \<and> (live m ?v \<longrightarrow> wire m e = NONE)"
  proof cases
    case reap
    have i: "\<And>p. p < 3 \<Longrightarrow> wire c (Port ?v p) = NONE" using reap iso by blast
    note sh = shelve_inv[OF cut(1) _ A(2) i]
    have aq: "all_queued n P \<Longrightarrow> all_queued c P" for P
      using cut(2,4) by (auto simp: all_queued_def)
    have lvm: "live m u \<longleftrightarrow> live n u \<and> u \<noteq> ?v" for u using sh(4) A(1) by (simp add: reap(1) lc)
    have no: "\<not> (\<exists>p < 3. Port ?v p \<noteq> e \<and> wire n (Port ?v p) \<noteq> NONE)"
      using i pv by (metis)
    show ?thesis
    proof (intro conjI allI impI)
      show "pair_inv m D (X - {wire n e})" using sh(1) A(1) by (simp add: reap(1) lc)
      show "all_queued n P \<Longrightarrow> all_queued m P" for P using sh(2) aq A(1) by (simp add: reap(1) lc)
      show "wire m q = wire n q" if "q \<noteq> e \<and> q \<noteq> wire n e \<and> standing m {} q" for q
        using that sh(3)[of q] wc(1)[of q] A(1) lvm by (auto simp: reap(1) lc standing_def)
      show "live m u \<longleftrightarrow> live n u \<and> (u = ?v \<and> pins n = 0 \<longrightarrow>
       (\<exists>p < 3. Port u p \<noteq> e \<and> wire n (Port u p) \<noteq> NONE))" for u using lvm no reap(3) by auto
      show "live m ?v \<Longrightarrow> wire m e = NONE" by (simp add: lvm)
    qed
  next
    case keep
    have "pins n = 0 \<Longrightarrow> \<exists>p < 3. Port ?v p \<noteq> e \<and> wire n (Port ?v p) \<noteq> NONE"
      using keep(2) iso pv by auto
    then show ?thesis using cut wc by (auto simp: keep(1) lc all_queued_def)
  qed
  then show "pair_inv m D (X - {wire n e})"
    "\<And>P. all_queued n P \<Longrightarrow> all_queued m P"
    "\<And>q. q \<noteq> e \<Longrightarrow> q \<noteq> wire n e \<Longrightarrow> standing m {} q \<Longrightarrow> wire m q = wire n q"
    "\<And>u. live m u \<longleftrightarrow> live n u \<and> (u = node e \<and> pins n = 0 \<longrightarrow>
       (\<exists>p < 3. Port u p \<noteq> e \<and> wire n (Port u p) \<noteq> NONE))"
    "live m (node e) \<Longrightarrow> wire m e = NONE"
    by blast+
qed


section \<open>Allocating\<close>

lemma cap_grow_ge: "0 < nc \<Longrightarrow> need \<le> cap_grow nc need \<and> nc \<le> cap_grow nc need"
proof (induction nc need rule: cap_grow.induct)
  case (1 nc need)
  then show ?case by (cases "nc < need") (auto simp: cap_grow.simps[of nc need])
qed

lemma net_ensure_cap_fields [simp]:
  "nn (net_ensure_cap n k) = nn n" "tag (net_ensure_cap n k) = tag n"
  "wire (net_ensure_cap n k) = wire n" "scope (net_ensure_cap n k) = scope n"
  "act (net_ensure_cap n k) = act n" "lvl (net_ensure_cap n k) = lvl n"
  "root (net_ensure_cap n k) = root n" "free_head (net_ensure_cap n k) = free_head n"
  "nfree (net_ensure_cap n k) = nfree n" "pend_head (net_ensure_cap n k) = pend_head n"
  "pins (net_ensure_cap n k) = pins n" "dem_stamp (net_ensure_cap n k) = dem_stamp n"
  "dem_out (net_ensure_cap n k) = dem_out n" "steps (net_ensure_cap n k) = steps n"
  "t_act (net_ensure_cap n k) = t_act n" "recycled (net_ensure_cap n k) = recycled n"
  "fatal (net_ensure_cap n k) = fatal n"
  by (simp_all add: net_ensure_cap_def Let_def)

lemma net_ensure_cap_room:
  assumes "room_ok n"
  shows "k \<le> ncap (net_ensure_cap n k)" "ncap n \<le> ncap (net_ensure_cap n k)"
    "dead (net_ensure_cap n k) = dead n" "0 \<le> act_of (net_ensure_cap n k) v \<longleftrightarrow> 0 \<le> act_of n v"
    "0 \<le> act_of n v \<Longrightarrow> act_of (net_ensure_cap n k) v = act_of n v"
proof -
  let ?c = "if ncap n \<noteq> 0 then ncap n * 2 else 256"
  have pos: "0 < ncap n" using assms by (simp add: room_ok_def)
  then have g: "k \<le> cap_grow ?c k" "ncap n * 2 \<le> cap_grow ?c k"
    using cap_grow_ge[of ?c k] by auto
  show "k \<le> ncap (net_ensure_cap n k)" "ncap n \<le> ncap (net_ensure_cap n k)"
    using g pos by (auto simp: net_ensure_cap_def Let_def)
  have out: "ncap n \<le> u \<Longrightarrow> \<not> dead n u \<and> act_of n u < 0" for u
    using assms by (auto simp: room_ok_def)
  then show "dead (net_ensure_cap n k) = dead n"
    by (auto simp: net_ensure_cap_def Let_def fun_eq_iff)
  show "0 \<le> act_of (net_ensure_cap n k) v \<longleftrightarrow> 0 \<le> act_of n v"
    "0 \<le> act_of n v \<Longrightarrow> act_of (net_ensure_cap n k) v = act_of n v"
    using out[of v] by (auto simp: net_ensure_cap_def Let_def)
qed

text \<open>What a fresh node looks like: a slot that named no live node, with three free ports.\<close>

definition fresh_node :: "ntag \<Rightarrow> gauge \<Rightarrow> net \<Rightarrow> int \<Rightarrow> net \<Rightarrow> bool" where
  "fresh_node t sc n v m \<longleftrightarrow> \<not> live n v \<and> (\<forall>u. live m u \<longleftrightarrow> live n u \<or> u = v) \<and>
     (\<forall>p < 3. wire m (Port v p) = NONE) \<and> (\<forall>q. node q \<noteq> v \<longrightarrow> wire m q = wire n q) \<and>
     tag m v = t \<and> scope m v = sc \<and> (\<forall>u. u \<noteq> v \<longrightarrow> tag m u = tag n u \<and> scope m u = scope n u) \<and>
     act m = act n \<and> lvl m = lvl n \<and> root m = root n \<and> pins m = pins n \<and> steps m = steps n \<and>
     nn m \<le> nn n + 1 \<and> (\<forall>u. 0 \<le> act_of m u \<longleftrightarrow> 0 \<le> act_of n u) \<and>
     (\<forall>u. 0 \<le> act_of n u \<longrightarrow> act_of m u = act_of n u) \<and> 0 \<le> v"

lemma alloc_slot_spec:
  assumes sl: "slots_ok n fs ps" and room: "room_ok n" and E: "\<not> in_parallel E"
    and r: "alloc_slot E n = (m, v)"
  shows "\<not> live n v" "0 \<le> v" "v < nn m" "nn m \<le> ncap m" "nn n \<le> nn m" "nn m \<le> nn n + 1"
    "wire m = wire n" "tag m = tag n" "scope m = scope n" "dead m = dead n" "act m = act n"
    "lvl m = lvl n" "root m = root n" "pins m = pins n" "steps m = steps n" "fatal m = fatal n"
    "\<And>u. 0 \<le> act_of m u \<longleftrightarrow> 0 \<le> act_of n u" "\<And>u. 0 \<le> act_of n u \<Longrightarrow> act_of m u = act_of n u"
    "nn n \<le> u \<Longrightarrow> u < nn m \<Longrightarrow> u = v"
    "\<exists>fs'. slots_ok m fs' ps \<and> v \<notin> set (fs' @ ps)"
proof -
  have "\<not> live n v \<and> 0 \<le> v \<and> v < nn m \<and> nn m \<le> ncap m \<and> nn n \<le> nn m \<and> nn m \<le> nn n + 1 \<and>
    wire m = wire n \<and> tag m = tag n \<and> scope m = scope n \<and> dead m = dead n \<and> act m = act n \<and>
    lvl m = lvl n \<and> root m = root n \<and> pins m = pins n \<and> steps m = steps n \<and> fatal m = fatal n \<and>
    (\<forall>u. 0 \<le> act_of m u \<longleftrightarrow> 0 \<le> act_of n u) \<and> (\<forall>u. 0 \<le> act_of n u \<longrightarrow> act_of m u = act_of n u) \<and>
    (\<forall>u. nn n \<le> u \<and> u < nn m \<longrightarrow> u = v) \<and> (\<exists>fs'. slots_ok m fs' ps \<and> v \<notin> set (fs' @ ps))"
  proof (cases "0 \<le> free_head n")
    case True
    then obtain fs' where fs: "fs = v # fs'" "free_head n = v"
      using sl r E by (cases fs) (auto simp: slots_ok_def alloc_slot_def Let_def)
    have m: "m = n\<lparr>free_head := node (wire n (Port v 0)), nfree := nfree n - 1,
         dem := (dem n)(v := 0), vport := (vport n)(v := 0),
         recycled := (if any_recycle E then recycled n @ [v] else recycled n)\<rparr>"
      using True E r fs(2) by (simp add: alloc_slot_def Let_def)
    have "slots_ok m fs' ps" "v \<notin> set (fs' @ ps)"
      using sl by (auto simp: slots_ok_def fs m in_net_def)
    moreover have "in_net n v" "dead n v" using sl by (auto simp: slots_ok_def fs)
    ultimately show ?thesis using room
      by (auto simp: m live_def in_net_def room_ok_def)
  next
    case False
    then have mv: "m = (net_ensure_cap n (nn n + 1))\<lparr>nn := nn n + 1\<rparr>" "v = nn n"
      using E r by (auto simp: alloc_slot_def Let_def)
    note c = net_ensure_cap_room(1-4)[OF room, of "nn n + 1"] net_ensure_cap_room(5)[OF room]
    have lt: "u \<in> set (fs @ ps) \<Longrightarrow> 0 \<le> u \<and> u < nn n \<and> dead n u" for u
      using sl by (auto simp: slots_ok_def in_net_def)
    have "slots_ok m fs ps"
      by (rule slots_ok_cong[OF sl]) (use lt in \<open>force simp: mv c(3) in_net_def\<close>)+
    moreover have "v \<notin> set (fs @ ps)" using lt[of v] by (auto simp: mv)
    ultimately have "slots_ok m fs ps" "v \<notin> set (fs @ ps)" by blast+
    then show ?thesis using room c
      by (auto simp: mv live_def in_net_def room_ok_def)
  qed
  then show "\<not> live n v" "0 \<le> v" "v < nn m" "nn m \<le> ncap m" "nn n \<le> nn m" "nn m \<le> nn n + 1"
    "wire m = wire n" "tag m = tag n" "scope m = scope n" "dead m = dead n" "act m = act n"
    "lvl m = lvl n" "root m = root n" "pins m = pins n" "steps m = steps n" "fatal m = fatal n"
    "\<And>u. 0 \<le> act_of m u \<longleftrightarrow> 0 \<le> act_of n u" "\<And>u. 0 \<le> act_of n u \<Longrightarrow> act_of m u = act_of n u"
    "nn n \<le> u \<Longrightarrow> u < nn m \<Longrightarrow> u = v"
    "\<exists>fs'. slots_ok m fs' ps \<and> v \<notin> set (fs' @ ps)"
    by blast+
qed


lemma queue_nodes_live:
  assumes "queue_ok n" "queue_live n" "0 \<le> act_of n u"
  shows "live n u"
proof -
  obtain p q where pq: "(p, q) \<in> set (act n)" "u = node p \<or> u = node q"
    using queue_ok_mem[OF assms(1), of u] assms(3) by auto
  then have "redex_live n p q" using assms(2) by (auto simp: queue_live_def)
  then show ?thesis using pq(2) redex_liveD(1,2) by blast
qed

lemma queue_ok_index:
  assumes "queue_ok n" "act m = act n" "\<And>u. 0 \<le> act_of m u \<longleftrightarrow> 0 \<le> act_of n u"
    "\<And>u. 0 \<le> act_of n u \<Longrightarrow> act_of m u = act_of n u"
  shows "queue_ok m"
proof -
  have e: "act_of m (node (fst (act n ! i))) = int i" "act_of m (node (snd (act n ! i))) = int i"
    if "i < length (act n)" for i
    using queue_okD(2,3)[OF assms(1) that] assms(4) by simp_all
  show ?thesis unfolding queue_ok_def assms(2)
    using e queue_okD(1)[OF assms(1)] queue_ok_at[OF assms(1)] assms(3,4) by simp
qed

lemma net_alloc_spec:
  assumes sl: "slots_ok n fs ps" and room: "room_ok n" and E: "\<not> in_parallel E"
    and q: "queue_ok n" "queue_live n" and r: "net_alloc E t sc n = (m, v)"
  shows "fresh_node t sc n v m" "room_ok m" "\<exists>fs'. slots_ok m fs' ps"
proof -
  obtain n1 v1 where a: "alloc_slot E n = (n1, v1)" by fastforce
  note s = alloc_slot_spec[OF sl room E a]
  let ?w = "(wire n1)(Port v 0 := NONE, Port v 1 := NONE, Port v 2 := NONE)"
  have v1: "v = v1" and m: "m = n1\<lparr>tag := (tag n1)(v := t), dead := (dead n1)(v := False),
      scope := (scope n1)(v := sc), wire := ?w\<rparr>"
    using r a s(3,4) by (auto simp: net_alloc_def)
  have w: "?w (Port v p) = NONE" if "p < 3" for p
    using that by (auto simp: numeral_3_eq_3 less_Suc_eq numeral_2_eq_2)
  have far: "?w x = wire n x" if "node x \<noteq> v" for x using that s(7) by auto
  have lv: "live m u \<longleftrightarrow> live n u \<or> u = v" for u
  proof (cases "u = v")
    case True
    then show ?thesis using s(2,3) by (simp add: m live_def in_net_def v1)
  next
    case False
    have "nn n \<le> u \<longrightarrow> \<not> u < nn n1" using s(19)[of u] False v1 by blast
    then have "in_net n1 u \<longleftrightarrow> in_net n u" using s(5) unfolding in_net_def by linarith
    then show ?thesis using False s(10) by (auto simp: m live_def in_net_def)
  qed
  show "fresh_node t sc n v m" unfolding fresh_node_def
    using s v1 lv w far by (simp add: m)
  have av: "act_of n v < 0" using queue_nodes_live[OF q, of v] s(1) v1 by fastforce
  have "\<not> dead n u \<and> act_of n1 u < 0" if "nn n1 \<le> u" for u
    using room s(5) s(17)[of u] that by (auto simp: room_ok_def not_le[symmetric])
  then show "room_ok m" using room s(2-6,10,16) v1 by (auto simp: room_ok_def m)
  obtain fs' where fs: "slots_ok n1 fs' ps" "v \<notin> set (fs' @ ps)" using s(20) v1 by blast
  have lt: "u \<in> set (fs' @ ps) \<Longrightarrow> in_net n1 u \<and> dead n1 u" for u using fs(1) by (auto simp: slots_ok_def)
  have "slots_ok m fs' ps"
    by (rule slots_ok_cong[OF fs(1)]) (use fs(2) lt in \<open>force simp: m in_net_def\<close>)+
  then show "\<exists>fs'. slots_ok m fs' ps" ..
qed

lemma alloc_inv:
  assumes inv: "pair_inv n D X" and E: "\<not> in_parallel E" and sc: "sc \<le> nlv (lvl n)"
    and r: "net_alloc E t sc n = (m, v)"
  shows "fresh_node t sc n v m" "pair_inv m D X" "v \<notin> D"
    "redex_live m p q \<longleftrightarrow> redex_live n p q" "all_queued n P \<Longrightarrow> all_queued m P"
proof -
  note d = pair_invD[OF inv]
  obtain fs ps where sl: "slots_ok n fs ps" using d(6) by blast
  note a = net_alloc_spec[OF sl d(8) E d(4,5) r]
  show fr: "fresh_node t sc n v m" by (rule a(1))
  then have f: "\<not> live n v" "\<And>u. live m u \<longleftrightarrow> live n u \<or> u = v" "\<And>p. p < 3 \<Longrightarrow> wire m (Port v p) = NONE"
    "\<And>q. node q \<noteq> v \<Longrightarrow> wire m q = wire n q" "scope m v = sc" "\<And>u. u \<noteq> v \<Longrightarrow> scope m u = scope n u"
    "act m = act n" "lvl m = lvl n" "\<And>u. 0 \<le> act_of m u \<longleftrightarrow> 0 \<le> act_of n u"
    "\<And>u. 0 \<le> act_of n u \<Longrightarrow> act_of m u = act_of n u"
    by (auto simp: fresh_node_def)
  show vD: "v \<notin> D" using d(3) f(1) by blast
  have vport: "node x = v \<Longrightarrow> pno x < 3 \<Longrightarrow> wire m x = NONE" for x using f(3) by (cases x) auto
  have st: "standing m D x \<longleftrightarrow> standing n D x \<or> node x = v \<and> pno x < 3" for x
    using vD by (auto simp: standing_def f(2))
  have nv: "standing n D x \<Longrightarrow> node x \<noteq> v" for x using f(1) by (auto simp: standing_def)
  have far: "standing n D x \<Longrightarrow> wire n x \<noteq> NONE \<Longrightarrow> node (wire n x) \<noteq> v" for x
    using wiredD[OF d(1), of x] f(1) vD by (auto simp: linked_def split: if_splits)
  have "wired m D X" unfolding wired_def
  proof (intro allI impI)
    fix x assume "standing m D x"
    then consider "standing n D x" | "node x = v" "pno x < 3" using st by blast
    then show "linked m D X x"
    proof cases
      case 1
      then show ?thesis using wiredD[OF d(1) 1] f(4)[OF nv[OF 1]] far[OF 1] f(4)[of "wire n x"]
        by (auto simp: linked_def f(2))
    qed (simp add: linked_def vport)
  qed
  moreover have "handed m D X" unfolding handed_def
  proof
    fix x assume x: "x \<in> X"
    note h = handedD[OF d(2) x]
    have "node x \<noteq> v" using h(1) vD by auto
    then have wx: "wire m x = wire n x" by (rule f(4))
    show "node x \<in> D \<and> 0 < pno x \<and> pno x < 3 \<and>
     (wire m x = NONE \<or> node (wire m x) \<in> D \<or> standing m D (wire m x) \<and> wire m (wire m x) = x)"
      using h nv[of "wire n x"] f(4)[of "wire n x"] by (auto simp: wx st)
  qed
  moreover have redex: "redex_live m p q \<longleftrightarrow> redex_live n p q" for p q
  proof -
    have "redex_live m p q \<Longrightarrow> node p \<noteq> v \<and> node q \<noteq> v"
      using vport[of p] vport[of q] redex_wires[of m p q] by blast
    moreover have "redex_live n p q \<Longrightarrow> node p \<noteq> v \<and> node q \<noteq> v"
      using f(1) redex_liveD(1,2)[of n p q] by blast
    moreover have "node p \<noteq> v \<and> node q \<noteq> v \<Longrightarrow> redex_live m p q = redex_live n p q"
      by (simp add: redex_live_def f(2,4))
    ultimately show ?thesis by blast
  qed
  then show "redex_live m p q \<longleftrightarrow> redex_live n p q" .
  have "queue_live m" using d(5) by (simp add: queue_live_def f(7) redex)
  moreover have "queue_ok m" by (rule queue_ok_index[OF d(4) f(7,9,10)])
  moreover have "levels_ok m"
    using d(7) sc f(2,5,6,8) by (metis levels_ok_def)
  ultimately show "pair_inv m D X"
    using d(3) f(2) a(2,3) by (auto simp: pair_inv_def)
  show "all_queued n P \<Longrightarrow> all_queued m P" by (simp add: all_queued_def redex f(9))
qed

end
