(* ===== verification/Interact.thy ===== *)
theory Interact
  imports PairInv
begin

text \<open>
  The four rules of the calculus (\<open>net_interact\<close> in \<open>src/net.c\<close>) and the two descriptions they
  share: \<open>pair_boundary\<close>, which joins the outside ends of the classes a consumed pair connects,
  and \<open>split2\<close> with \<open>link_copies\<close>, which make the copies of a duplication.
\<close>

section \<open>The boundary of a pair\<close>

text \<open>
  \<open>pfind\<close> and \<open>punion\<close>, on the six ports of the pair.  \<open>pfind\<close> halves the path it walks; on six
  elements a walk has at most five steps.
\<close>

fun pfind_fuel :: "nat \<Rightarrow> nat list \<Rightarrow> nat \<Rightarrow> nat list \<times> nat" where
  "pfind_fuel 0 u x = (u, x)"
| "pfind_fuel (Suc k) u x =
     (if u ! x \<noteq> x then (let u' = u[x := u ! (u ! x)] in pfind_fuel k u' (u' ! x)) else (u, x))"

definition pfind :: "nat list \<Rightarrow> nat \<Rightarrow> nat list \<times> nat" where
  "pfind u x = pfind_fuel 6 u x"

definition punion :: "nat list \<Rightarrow> nat \<Rightarrow> nat \<Rightarrow> nat list" where
  "punion u a b = (case pfind u a of (u1, ra) \<Rightarrow> case pfind u1 b of (u2, rb) \<Rightarrow>
     if ra \<noteq> rb then u2[rb := ra] else u2)"

text \<open>The ports 0 to 5 of the pair, and the one a port's wire leads to when it stays inside.\<close>

definition pport :: "int \<Rightarrow> int \<Rightarrow> nat \<Rightarrow> port" where
  "pport n1 n2 i = (if i < 3 then Port n1 i else Port n2 (i - 3))"

definition inside :: "net \<Rightarrow> int \<Rightarrow> int \<Rightarrow> nat \<Rightarrow> nat option" where
  "inside n n1 n2 i =
     (let w = wire n (pport n1 n2 i)
      in if node w = n1 then Some (pno w) else if node w = n2 then Some (3 + pno w) else None)"

text \<open>The classes: union along the inside wires, then along the rule's correspondence.\<close>

definition pair_union :: "nat option list \<Rightarrow> (nat \<times> nat) list \<Rightarrow> nat list" where
  "pair_union ms cor =
     fold (\<lambda>(a, b) u. punion u a b) cor
       (fold (\<lambda>i u. case ms ! i of None \<Rightarrow> u | Some k \<Rightarrow> punion u i k) [0..<6] [0..<6])"

fun class_members :: "nat list \<Rightarrow> nat \<Rightarrow> nat list \<Rightarrow> nat list \<times> nat list" where
  "class_members u i [] = (u, [])"
| "class_members u i (j # js) =
     (case pfind u j of (u1, r) \<Rightarrow> case class_members u1 i js of (u2, ms) \<Rightarrow>
        (u2, if r = i then j # ms else ms))"

fun classes :: "nat list \<Rightarrow> nat list \<Rightarrow> nat list list" where
  "classes u [] = []"
| "classes u (i # is) =
     (case pfind u i of (u1, r) \<Rightarrow>
        if r \<noteq> i then classes u1 is
        else case class_members u1 i [0..<6] of (u2, ms) \<Rightarrow> ms # classes u2 is)"

text \<open>
  One class: its ends outside the pair.  One end is severed, two are linked, and a class with no
  end, or closed inside the pair, needs nothing.
\<close>

definition class_ends :: "int \<Rightarrow> int \<Rightarrow> nat list \<Rightarrow> net \<Rightarrow> port list" where
  "class_ends n1 n2 ms n =
     filter (\<lambda>w. node w \<noteq> n1 \<and> node w \<noteq> n2 \<and> \<not> node w < 0) (map (\<lambda>j. wire n (pport n1 n2 j)) ms)"

definition join_class :: "env \<Rightarrow> bool \<Rightarrow> int \<Rightarrow> int \<Rightarrow> nat list \<Rightarrow> net \<Rightarrow> net" where
  "join_class E lnk n1 n2 ms n =
     (case class_ends n1 n2 ms n of
        [e] \<Rightarrow> if lnk then net_sever E e n else n
      | [e, f] \<Rightarrow> if lnk then net_link E e f True n else n
      | _ \<Rightarrow> n)"

definition pair_boundary :: "env \<Rightarrow> int \<Rightarrow> int \<Rightarrow> (nat \<times> nat) list \<Rightarrow> bool \<Rightarrow> net \<Rightarrow> net" where
  "pair_boundary E n1 n2 cor lnk n =
     fold (join_class E lnk n1 n2)
       (classes (pair_union (map (inside n n1 n2) [0..<6]) cor) [0..<6]) n"

section \<open>Duplication\<close>

text \<open>\<open>split2\<close>: two copies of each node, copy i of the first meeting copy j of the second.\<close>

definition split2 :: "env \<Rightarrow> ntag \<Rightarrow> gauge \<Rightarrow> gauge \<Rightarrow> ntag \<Rightarrow> gauge \<Rightarrow> net \<Rightarrow>
    net \<times> int \<times> int \<times> int \<times> int" where
  "split2 E t1 s1a s1b t2 s2 n =
     (case net_alloc E t1 s1a n of (na, m1) \<Rightarrow> case net_alloc E t1 s1b na of (nb, m2) \<Rightarrow>
      case net_alloc E t2 s2 nb of (nc, d1) \<Rightarrow> case net_alloc E t2 s2 nc of (nd, d2) \<Rightarrow>
        (net_link E (Port d2 2) (Port m2 2) False
          (net_link E (Port d2 1) (Port m1 2) False
            (net_link E (Port d1 2) (Port m2 1) False
              (net_link E (Port d1 1) (Port m1 1) False nd))), m1, m2, d1, d2))"

text \<open>
  \<open>link_copies\<close>: each copy takes the place of one auxiliary, except that two auxiliaries wired to
  each other have their copies joined.  \<open>t\<close> holds the four auxiliaries' wires and \<open>cp\<close> the copies.
\<close>

definition aux_index :: "int \<Rightarrow> int \<Rightarrow> port \<Rightarrow> nat option" where
  "aux_index n1 n2 w =
     (if node w = n1 then Some (if pno w = 1 then 0 else 1)
      else if node w = n2 then Some (if pno w = 1 then 2 else 3) else None)"

definition join_copy :: "env \<Rightarrow> int \<Rightarrow> int \<Rightarrow> port list \<Rightarrow> int list \<Rightarrow> nat \<Rightarrow> nat set \<times> net \<Rightarrow> nat set \<times> net" where
  "join_copy E n1 n2 t cp k s =
     (case s of (ins, n) \<Rightarrow> case aux_index n1 n2 (t ! k) of
        None \<Rightarrow> (ins, n)
      | Some m \<Rightarrow> if m \<le> k \<or> k \<in> ins then (ins, n)
          else (insert k (insert m ins), net_link E (Port (cp ! k) 0) (Port (cp ! m) 0) True n))"

definition link_copies :: "env \<Rightarrow> int \<Rightarrow> int \<Rightarrow> port list \<Rightarrow> int list \<Rightarrow> net \<Rightarrow> net" where
  "link_copies E n1 n2 t cp n =
     (case fold (join_copy E n1 n2 t cp) [0, 1, 2, 3] ({}, n) of (ins, n') \<Rightarrow>
        fold (\<lambda>k m. if k \<in> ins then m else net_link E (Port (cp ! k) 0) (t ! k) True m) [0, 1, 2, 3] n')"

text \<open>The auxiliaries' wires, the copies, and the retirement of the pair.\<close>

definition duplicate :: "env \<Rightarrow> int \<Rightarrow> int \<Rightarrow> ntag \<Rightarrow> gauge \<Rightarrow> gauge \<Rightarrow> ntag \<Rightarrow> gauge \<Rightarrow>
    port list \<Rightarrow> net \<Rightarrow> net" where
  "duplicate E n1 n2 t1 s1a s1b t2 s2 t n =
     (case split2 E t1 s1a s1b t2 s2 n of (n', m1, m2, d1, d2) \<Rightarrow>
        retire E n1 n2 (link_copies E n1 n2 t [d1, d2, m1, m2] n'))"

section \<open>The rules\<close>

definition cor_beta :: "(nat \<times> nat) list" where
  "cor_beta = [(1, 5), (2, 4)]"

definition cor_delta :: "(nat \<times> nat) list" where
  "cor_delta = [(1, 4), (2, 5)]"

definition aux_wires :: "net \<Rightarrow> int \<Rightarrow> int \<Rightarrow> port list" where
  "aux_wires n n1 n2 =
     [wire n (Port n1 1), wire n (Port n1 2), wire n (Port n2 1), wire n (Port n2 2)]"

text \<open>
  The rule for a pair whose tags are in order.  The two labels of the copies are arguments of one
  call in C, whose order of evaluation is unspecified; it only decides which of the two levels gets
  the smaller number.
\<close>

definition interact_ordered :: "env \<Rightarrow> int \<Rightarrow> int \<Rightarrow> net \<Rightarrow> net \<times> bool" where
  "interact_ordered E n1 n2 n =
     (if tag n n1 = LAM \<and> tag n n2 = APP
      then (retire E n1 n2 (pair_boundary E n1 n2 cor_beta True n), True)
      else if tag n n1 = DUP \<and> tag n n2 = DUP
      then (if scope n n1 \<noteq> scope n n2
            then (duplicate E n1 n2 DUP (scope n n1) (scope n n1) DUP (scope n n2)
                   (aux_wires n n1 n2) n, True)
            else (retire E n1 n2 (pair_boundary E n1 n2 cor_delta True n), True))
      else if (tag n n1 = LAM \<or> tag n n1 = APP) \<and> tag n n2 = DUP
      then (case lvl_prefix2 (lvl n) 1 (scope n n1) (scope n n2) of (L1, s1) \<Rightarrow>
            case lvl_prefix2 L1 2 (scope n n1) (scope n n2) of (L2, s2) \<Rightarrow>
              (duplicate E n1 n2 (tag n n1) s1 s2 DUP (scope n n2)
                 (aux_wires n n1 n2) (n\<lparr>lvl := L2\<rparr>), True))
      else (n, False))"

definition net_interact :: "env \<Rightarrow> port \<Rightarrow> port \<Rightarrow> net \<Rightarrow> net \<times> bool" where
  "net_interact E p1 p2 n =
     (if tag_code (tag n (node p1)) > tag_code (tag n (node p2))
      then interact_ordered E (node p2) (node p1) n
      else interact_ordered E (node p1) (node p2) n)"

end
