(* ===== verification/Boundary.thy ===== *)
theory Boundary
  imports Interact
begin

text \<open>
  What \<open>pair_boundary\<close> does to a net: the classes of the union-find are exactly the paths the
  pair's inside wires and the rule's correspondence connect, each path hands its two outside ends to
  each other, and the invariant of the net survives.
\<close>

section \<open>The pair being consumed\<close>

definition consuming :: "net \<Rightarrow> int \<Rightarrow> int \<Rightarrow> port set \<Rightarrow> bool" where
  "consuming n a b X \<longleftrightarrow> pair_inv n {a, b} X \<and> redex_live n (Port a 0) (Port b 0) \<and> a \<noteq> b"

definition aux_ports :: "int \<Rightarrow> int \<Rightarrow> port set" where
  "aux_ports a b = {Port a 1, Port a 2, Port b 1, Port b 2}"

lemma consumingD:
  assumes "consuming n a b X"
  shows "pair_inv n {a, b} X" "redex_live n (Port a 0) (Port b 0)" "a \<noteq> b" "live n a" "live n b"
    "wire n (Port a 0) = Port b 0" "wire n (Port b 0) = Port a 0" "0 \<le> a" "0 \<le> b"
  using assms live_nonneg by (auto simp: consuming_def redex_live_def)

lemma consuming_start:
  assumes ok: "net_ok n" and r: "redex_live n (Port a 0) (Port b 0)"
  shows "consuming n a b (aux_ports a b)"
proof -
  note d = pair_invD[OF ok[unfolded net_ok_pair_inv]]
  have ab: "a \<noteq> b" using redex_node_neq[OF d(1) r] by simp
  have lv: "live n a" "live n b" "wire n (Port a 0) = Port b 0" "wire n (Port b 0) = Port a 0"
    using r by (simp_all add: redex_live_def)
  have st: "standing n {a, b} p \<Longrightarrow> standing n {} p" for p by (simp add: standing_def)
  have "wired n {a, b} (aux_ports a b)" unfolding wired_def
  proof (intro allI impI)
    fix p assume p: "standing n {a, b} p"
    note l = wiredD[OF d(1) st[OF p]]
    have "wire n p \<noteq> NONE \<Longrightarrow> node (wire n p) \<in> {a, b} \<Longrightarrow> wire n p \<in> aux_ports a b"
    proof -
      assume w: "wire n p \<noteq> NONE" "node (wire n p) \<in> {a, b}"
      have rt: "wire n (wire n p) = p" "pno (wire n p) < 3" using l w(1) by (auto simp: linked_def)
      have "wire n p \<noteq> Port a 0 \<and> wire n p \<noteq> Port b 0"
        using rt(1) lv(3,4) p by (auto simp: standing_def)
      then have "pno (wire n p) \<noteq> 0" using w(2) by (metis empty_iff insertE port.collapse)
      then have "pno (wire n p) = 1 \<or> pno (wire n p) = 2" using rt(2) by linarith
      then show ?thesis using w(2) by (cases "wire n p") (auto simp: aux_ports_def)
    qed
    then show "linked n {a, b} (aux_ports a b) p" using l by (auto simp: linked_def)
  qed
  moreover have "handed n {a, b} (aux_ports a b)" unfolding handed_def
  proof
    fix x assume x: "x \<in> aux_ports a b"
    then have s: "standing n {} x" "node x \<in> {a, b}" "0 < pno x" "pno x < 3"
      using lv by (auto simp: aux_ports_def standing_def)
    then show "node x \<in> {a, b} \<and> 0 < pno x \<and> pno x < 3 \<and>
     (wire n x = NONE \<or> node (wire n x) \<in> {a, b} \<or>
      standing n {a, b} (wire n x) \<and> wire n (wire n x) = x)"
      using wired_back(1,2)[OF d(1) s(1)] by (auto simp: standing_def)
  qed
  ultimately show ?thesis using d lv ab r by (auto simp: consuming_def pair_inv_def)
qed

text \<open>A pair port without an end outside needs no handing over.\<close>

lemma drop_port:
  assumes inv: "pair_inv n D X" and x: "x \<in> X" "wire n x = NONE \<or> node (wire n x) \<in> D"
  shows "pair_inv n D (X - {x})"
proof -
  note d = pair_invD[OF inv]
  have "linked n D (X - {x}) p" if p: "standing n D p" for p
  proof -
    have "wire n p \<noteq> NONE \<Longrightarrow> wire n p \<noteq> x"
      using wiredD[OF d(1) p] x(2) p standing_not_NONE[OF p] by (auto simp: linked_def standing_def)
    then show ?thesis using wiredD[OF d(1) p] by (auto simp: linked_def)
  qed
  then show ?thesis using d by (auto simp: pair_inv_def wired_def handed_def)
qed

section \<open>Joining two ends\<close>

text \<open>
  \<open>m\<close> is \<open>n\<close> with the outside ends of the pair ports \<open>x\<close> and \<open>y\<close> handed to each other: two ends are
  wired together, a single end becomes free, and nothing else changes, except that a node whose only
  connection was cut may have been reaped.
\<close>

definition joined :: "net \<Rightarrow> net \<Rightarrow> port \<Rightarrow> port \<Rightarrow> bool" where
  "joined n m x y \<longleftrightarrow> meta n m \<and>
     (\<forall>q. standing m {} q \<and> q \<notin> {x, y, wire n x, wire n y} \<longrightarrow> wire m q = wire n q) \<and>
     (\<forall>u. live n u \<and> \<not> live m u \<longrightarrow> (\<exists>e \<in> {wire n x, wire n y}. u = node e \<and>
        (\<forall>p < 3. Port u p \<noteq> e \<longrightarrow> wire n (Port u p) = NONE))) \<and>
     (wire n x \<noteq> NONE \<and> wire n y \<noteq> NONE \<longrightarrow>
        wire m (wire n x) = wire n y \<and> wire m (wire n y) = wire n x \<and> (\<forall>u. live n u \<longrightarrow> live m u)) \<and>
     (wire n x \<noteq> NONE \<and> wire n y = NONE \<and> live m (node (wire n x)) \<longrightarrow> wire m (wire n x) = NONE) \<and>
     (wire n y \<noteq> NONE \<and> wire n x = NONE \<and> live m (node (wire n y)) \<longrightarrow> wire m (wire n y) = NONE)"

lemma joined_sym: "joined n m x y \<Longrightarrow> joined n m y x"
  unfolding joined_def by (auto simp: insert_commute)

definition ends_list :: "int \<Rightarrow> int \<Rightarrow> port list \<Rightarrow> net \<Rightarrow> port list" where
  "ends_list a b xs n = filter (\<lambda>w. node w \<noteq> a \<and> node w \<noteq> b \<and> \<not> node w < 0) (map (wire n) xs)"

definition join_ends :: "env \<Rightarrow> port list \<Rightarrow> net \<Rightarrow> net" where
  "join_ends E es n =
     (case es of [e] \<Rightarrow> net_sever E e n | [e, f] \<Rightarrow> net_link E e f True n | _ \<Rightarrow> n)"

lemma join_class_ends:
  "join_class E True a b ms n = join_ends E (ends_list a b (map (pport a b) ms) n) n"
  by (simp add: join_class_def join_ends_def class_ends_def ends_list_def comp_def
      split: list.splits)

lemma join_two:
  assumes c: "consuming n a b X" and x: "x \<in> X" "node (wire n x) \<notin> {a, b}"
    and y: "y \<in> X" "node (wire n y) \<notin> {a, b}" and xy: "x \<noteq> y" and E: "\<not> in_parallel E"
    and m: "m = join_ends E (ends_list a b [x, y] n) n"
  shows "consuming m a b (X - {x, y})" "joined n m x y" "\<And>P. all_queued n P \<Longrightarrow> all_queued m P"
proof -
  let ?D = "{a, b}"
  note cd = consumingD[OF c] and inv = consumingD(1)[OF c]
  note d = pair_invD[OF inv]
  have ends: "wire n z = NONE \<or> loose n ?D X (wire n z) \<and> wire n (wire n z) = z \<and> 0 \<le> node (wire n z)"
    if "z \<in> X" "node (wire n z) \<notin> ?D" for z
    using loose_end[OF d(2) that(1) _ that(2)] loose_props(4)[OF inv] by blast
  have nz: "node (wire n z) < 0 \<longleftrightarrow> wire n z = NONE" if "z \<in> X" "node (wire n z) \<notin> ?D" for z
    using ends[OF that] by auto
  have es: "ends_list a b [x, y] n = filter (\<lambda>w. w \<noteq> NONE) [wire n x, wire n y]"
    using x y nz[OF x] nz[OF y] by (simp add: ends_list_def)
  have pr: "\<forall>v \<in> ?D. node (wire n (Port v 0)) \<in> ?D" using cd(6,7) by auto
  have pX: "z \<in> X \<Longrightarrow> z \<noteq> Port a 0 \<and> z \<noteq> Port b 0" for z using handedD(2)[OF d(2), of z] by auto
  have step: "consuming m a b Z" if "pair_inv m ?D Z" "wire m (Port a 0) = wire n (Port a 0)"
    "wire m (Port b 0) = wire n (Port b 0)" for Z
    using that cd(3,6,7) pair_invD(3)[OF that(1)] by (simp add: consuming_def redex_live_def)
  have "consuming m a b (X - {x, y}) \<and> joined n m x y \<and> (\<forall>P. all_queued n P \<longrightarrow> all_queued m P)"
  proof (cases "wire n x = NONE \<or> wire n y = NONE")
    case False
    then have l: "loose n ?D X (wire n x)" "wire n (wire n x) = x" "loose n ?D X (wire n y)"
      "wire n (wire n y) = y" using ends[OF x] ends[OF y] by auto
    have ne: "wire n x \<noteq> wire n y" using l(2,4) xy by metis
    have m': "m = net_link E (wire n x) (wire n y) True n" using m es False by (simp add: join_ends_def)
    note li = link_inv[OF inv l(1,3) ne E m']
    have far: "Port a 0 \<noteq> wire n x" "Port a 0 \<noteq> wire n y" "Port b 0 \<noteq> wire n x" "Port b 0 \<noteq> wire n y"
      using x(2) y(2) by (metis insertCI port.sel(1))+
    have "consuming m a b (X - {x, y})"
      using li(1) l(2,4) step[of "X - {x, y}"] li(4)[OF far(1,2)] li(4)[OF far(3,4)] by simp
    moreover have "joined n m x y" unfolding joined_def using li(2-4,6,7) False by auto
    ultimately show ?thesis using li(5) by auto
  next
    case True
    have one: "consuming m a b (X - {x, y}) \<and> joined n m x y \<and> (\<forall>P. all_queued n P \<longrightarrow> all_queued m P)"
      if z: "z \<in> X" "node (wire n z) \<notin> ?D" "wire n z \<noteq> NONE" and o: "wire n z' = NONE" "z' \<in> X"
        and zs: "{x, y} = {z, z'}" "z \<noteq> z'" for z z'
    proof -
      have l: "loose n ?D X (wire n z)" "wire n (wire n z) = z" using ends[OF z(1,2)] z(3) by auto
      have m': "m = net_sever E (wire n z) n"
        using m es z(3) o(1) zs by (auto simp: join_ends_def doubleton_eq_iff)
      have w: "wire n (wire n z) \<noteq> NONE" using l(2) handedD(1)[OF d(2) z(1)] cd(8,9) by auto
      note s = sever_inv[OF inv l(1) w pr E m', unfolded l(2)]
      have live_ab: "standing m {} (Port a 0)" "standing m {} (Port b 0)"
        using pair_invD(3)[OF s(1)] by (auto simp: standing_def)
      have far: "Port a 0 \<noteq> wire n z" "Port b 0 \<noteq> wire n z" using z(2) by (metis insertCI port.sel(1))+
      have c1: "consuming m a b (X - {z})"
        using step[OF s(1)] s(3)[OF far(1) _ live_ab(1)] s(3)[OF far(2) _ live_ab(2)] pX[OF z(1)] by auto
      have z'n: "z' \<noteq> wire n z" using handedD(1)[OF d(2) o(2)] z(2) by auto
      have "standing m {} z'" using consumingD(4,5)[OF c1] handedD(1,3)[OF d(2) o(2)]
        by (auto simp: standing_def)
      then have "wire m z' = NONE" using s(3)[of z'] z'n zs(2) o(1) by auto
      then have "pair_inv m ?D (X - {z} - {z'})"
        using zs(2) o(2) by (intro drop_port consumingD(1)[OF c1]) auto
      then have "pair_inv m ?D (X - {x, y})" by (simp add: zs(1) Diff_insert2[symmetric] insert_commute)
      then have "consuming m a b (X - {x, y})" using c1 by (simp add: consuming_def)
      moreover have "joined n m z z'" unfolding joined_def
        using s(3-6) z(3) o(1) l(2) by auto
      moreover have "joined n m x y = joined n m z z' \<or> joined n m x y = joined n m z' z"
        using zs(1) by (auto simp: doubleton_eq_iff)
      ultimately show ?thesis using s(2) joined_sym by blast
    qed
    show ?thesis
    proof (cases "wire n x = NONE \<and> wire n y = NONE")
      case True
      then have "m = n" using m es by (simp add: join_ends_def)
      moreover have "pair_inv n ?D (X - {x} - {y})"
        using True x y xy by (intro drop_port inv) auto
      ultimately show ?thesis using c True
        by (auto simp: joined_def consuming_def Diff_insert2[symmetric] insert_commute)
    next
      case F: False
      show ?thesis
      proof (cases "wire n y = NONE")
        case True
        then show ?thesis using one[of x y] F x y xy by auto
      next
        case False
        then have "wire n x = NONE" using \<open>wire n x = NONE \<or> wire n y = NONE\<close> by blast
        then show ?thesis by (intro one[of y x]) (use False x y xy in auto)
      qed
    qed
  qed
  then show "consuming m a b (X - {x, y})" "joined n m x y" "\<And>P. all_queued n P \<Longrightarrow> all_queued m P"
    by blast+
qed


section \<open>Handing over several pairs of ends\<close>

text \<open>The outside end of \<open>x\<close> takes over what the outside end of \<open>y\<close> was connected to.\<close>

definition handover :: "net \<Rightarrow> net \<Rightarrow> port \<Rightarrow> port \<Rightarrow> bool" where
  "handover n m x y \<longleftrightarrow> (wire n x \<noteq> NONE \<longrightarrow>
     (if wire n y \<noteq> NONE then live m (node (wire n x)) \<and> wire m (wire n x) = wire n y
      else live m (node (wire n x)) \<longrightarrow> wire m (wire n x) = NONE))"

text \<open>From \<open>n\<close> to \<open>m\<close> exactly the ends of the pair ports \<open>Z\<close> have been rewired.\<close>

definition rewired :: "net \<Rightarrow> net \<Rightarrow> port set \<Rightarrow> bool" where
  "rewired n m Z \<longleftrightarrow> meta n m \<and>
     (\<forall>q. standing m {} q \<and> q \<notin> Z \<and> q \<notin> wire n ` Z \<longrightarrow> wire m q = wire n q) \<and>
     (\<forall>u. live n u \<and> \<not> live m u \<longrightarrow> (\<forall>p < 3. wire n (Port u p) = NONE \<or> wire n (Port u p) \<in> Z))"

lemma rewired_refl [simp]: "rewired n n {}"
  by (simp add: rewired_def)

lemma rewiredD:
  assumes "rewired n m Z"
  shows "meta n m" "standing m {} q \<Longrightarrow> q \<notin> Z \<Longrightarrow> q \<notin> wire n ` Z \<Longrightarrow> wire m q = wire n q"
    "live n u \<Longrightarrow> \<not> live m u \<Longrightarrow> p < 3 \<Longrightarrow> wire n (Port u p) = NONE \<or> wire n (Port u p) \<in> Z"
  using assms unfolding rewired_def by blast+

text \<open>The pair ports of \<open>Z\<close> lead outside, and their ends lead back.\<close>

definition outside :: "net \<Rightarrow> int set \<Rightarrow> port set \<Rightarrow> bool" where
  "outside n D Z \<longleftrightarrow> (\<forall>x \<in> Z. node x \<in> D \<and> 0 \<le> node x \<and> pno x < 3 \<and> node (wire n x) \<notin> D \<and>
     (wire n x \<noteq> NONE \<longrightarrow> wire n (wire n x) = x \<and> pno (wire n x) < 3))"

lemma outsideD:
  assumes "outside n D Z" "x \<in> Z"
  shows "node x \<in> D" "0 \<le> node x" "pno x < 3" "node (wire n x) \<notin> D"
    "wire n x \<noteq> NONE \<Longrightarrow> wire n (wire n x) = x" "wire n x \<noteq> NONE \<Longrightarrow> pno (wire n x) < 3"
  using assms by (auto simp: outside_def)

lemma join_step:
  assumes c: "consuming k a b X" and r: "rewired n k Z" and Z: "outside n {a, b} (Z \<union> {x, y})"
    and x: "x \<in> X" "x \<notin> Z" and y: "y \<in> X" "y \<notin> Z" and xy: "x \<noteq> y" and E: "\<not> in_parallel E"
    and m: "m = join_ends E (ends_list a b [x, y] k) k"
  shows "consuming m a b (X - {x, y})" "rewired n m (Z \<union> {x, y})"
    "handover n m x y" "handover n m y x"
    "\<And>z z'. z \<in> Z \<Longrightarrow> z' \<in> Z \<Longrightarrow> handover n k z z' \<Longrightarrow> handover n m z z'"
    "\<And>P. all_queued k P \<Longrightarrow> all_queued m P"
proof -
  note cd = consumingD[OF c] and o = outsideD[OF Z]
  have wk: "wire k z = wire n z" if "z \<in> {x, y}" for z
  proof -
    have "standing k {} z" using o(1,3)[of z] that cd(4,5) by (auto simp: standing_def)
    moreover have "z \<notin> wire n ` Z" using o(1)[of z] o(4) that by blast
    ultimately show ?thesis using rewiredD(2)[OF r] that x(2) y(2) by blast
  qed
  then have w: "wire k x = wire n x" "wire k y = wire n y" by auto
  have out: "node (wire k x) \<notin> {a, b}" "node (wire k y) \<notin> {a, b}" using o(4) w by auto
  note j = join_two[OF c x(1) out(1) y(1) out(2) xy E m]
  show "consuming m a b (X - {x, y})" by (rule j(1))
  show "\<And>P. all_queued k P \<Longrightarrow> all_queued m P" by (rule j(3))
  have jm: "meta k m"
    "\<And>q. standing m {} q \<Longrightarrow> q \<notin> {x, y, wire n x, wire n y} \<Longrightarrow> wire m q = wire k q"
    "\<And>u. live k u \<Longrightarrow> \<not> live m u \<Longrightarrow> \<exists>e \<in> {wire n x, wire n y}. u = node e \<and>
        (\<forall>p < 3. Port u p \<noteq> e \<longrightarrow> wire k (Port u p) = NONE)"
    using j(2) unfolding joined_def w by auto
  have nk: "standing m {} q \<Longrightarrow> standing k {} q" for q using metaD(8)[OF jm(1)] by (auto simp: standing_def)
  show "rewired n m (Z \<union> {x, y})" unfolding rewired_def
  proof (intro conjI allI impI)
    show "meta n m" by (rule meta_trans[OF rewiredD(1)[OF r] jm(1)])
    fix q assume "standing m {} q \<and> q \<notin> Z \<union> {x, y} \<and> q \<notin> wire n ` (Z \<union> {x, y})"
    then show "wire m q = wire n q" using jm(2)[of q] rewiredD(2)[OF r, of q] nk[of q] by auto
  next
    fix u p assume u: "live n u \<and> \<not> live m u" and p: "p < (3 :: nat)"
    show "wire n (Port u p) = NONE \<or> wire n (Port u p) \<in> Z \<union> {x, y}"
    proof (cases "live k u")
      case True
      then obtain e where e: "e \<in> {wire n x, wire n y}" "u = node e"
        "\<forall>p < 3. Port u p \<noteq> e \<longrightarrow> wire k (Port u p) = NONE" using jm(3) u by blast
      have s: "standing k {} (Port u p)" using True p by (simp add: standing_def)
      have uD: "u \<notin> {a, b}" using e(1,2) o(4) by auto
      have en: "e \<noteq> NONE" using e(2) True live_nonneg by fastforce
      consider "Port u p = e" | "Port u p \<in> wire n ` Z" | "Port u p \<noteq> e" "Port u p \<notin> wire n ` Z" by blast
      then show ?thesis
      proof cases
        case 1
        then show ?thesis using e(1) o(5) en by auto
      next
        case 2
        then obtain z where "z \<in> Z" "wire n z = Port u p" by auto
        then have "wire n (Port u p) = z" using o(5)[of z] True live_nonneg by fastforce
        then show ?thesis using \<open>z \<in> Z\<close> by auto
      next
        case 3
        have "Port u p \<notin> Z" using o(1)[of "Port u p"] uD by auto
        then show ?thesis using rewiredD(2)[OF r s] 3 e(3) p by auto
      qed
    qed (use rewiredD(3)[OF r] u p in blast)
  qed
  have lv: "live k (node (wire n z))" if "z \<in> {x, y}" "wire n z \<noteq> NONE" for z
    using handedD(4)[OF pair_invD(2)[OF cd(1)], of z] that w x(1) y(1) out
    by (auto simp: standing_def)
  have lmk: "wire n x \<noteq> NONE \<Longrightarrow> wire n y \<noteq> NONE \<Longrightarrow> live k u \<Longrightarrow> live m u" for u
    using j(2) unfolding joined_def w by blast
  show "handover n m x y" "handover n m y x"
    using j(2) lmk lv unfolding joined_def handover_def w by auto
  show "handover n m z z'" if z: "z \<in> Z" "z' \<in> Z" and h: "handover n k z z'" for z z'
  proof (cases "wire n z = NONE")
    case False
    let ?e = "wire n z"
    have oz: "node ?e \<notin> {a, b}" "wire n ?e = z" "pno ?e < 3" using o(4-6)[of z] z False by auto
    have "?e \<notin> {x, y, wire n x, wire n y}"
      using oz o(1)[of x] o(1)[of y] o(5)[of x] o(5)[of y] x(2) y(2) z(1) False by auto
    then have we: "live m (node ?e) \<Longrightarrow> wire m ?e = wire k ?e"
      using jm(2)[of ?e] oz(3) by (auto simp: standing_def)
    show ?thesis
    proof (cases "wire n z' = NONE")
      case True
      then show ?thesis using h we metaD(8)[OF jm(1)] False by (auto simp: handover_def)
    next
      case F: False
      then have k: "live k (node ?e)" "wire k ?e = wire n z'" using h False by (auto simp: handover_def)
      have "live m (node ?e)"
      proof (rule ccontr)
        assume "\<not> live m (node ?e)"
        then obtain e where e: "e \<in> {wire n x, wire n y}" "node ?e = node e"
          "\<forall>p < 3. Port (node ?e) p \<noteq> e \<longrightarrow> wire k (Port (node ?e) p) = NONE" using jm(3) k(1) by blast
        have "?e \<noteq> e" using \<open>?e \<notin> {x, y, wire n x, wire n y}\<close> e(1) by auto
        then have "wire k ?e = NONE" using e(3) oz(3) by (metis port.collapse)
        then show False using k(2) F by simp
      qed
      then show ?thesis using we k F by (simp add: handover_def)
    qed
  qed (simp add: handover_def)
qed


section \<open>The classes of the union-find\<close>

text \<open>The pair port at the other end of the path through the pair that starts at port \<open>i\<close>.\<close>

definition mate :: "(nat \<times> nat) list \<Rightarrow> nat \<Rightarrow> nat" where
  "mate cor i = (case map_of (cor @ map prod.swap cor) i of Some k \<Rightarrow> k | None \<Rightarrow> i)"

definition exit_of :: "nat option list \<Rightarrow> (nat \<times> nat) list \<Rightarrow> nat \<Rightarrow> nat" where
  "exit_of ms cor i = (case ms ! mate cor i of None \<Rightarrow> mate cor i | Some z \<Rightarrow> mate cor z)"

definition inside_map :: "net \<Rightarrow> int \<Rightarrow> int \<Rightarrow> nat option list" where
  "inside_map n a b = map (inside n a b) [0..<6]"

text \<open>The ten ways the four auxiliaries of a pair can be wired to each other.\<close>

definition matchings :: "nat option list list" where
  "matchings = [
     [Some 3, None, None, Some 0, None, None],
     [Some 3, Some 2, Some 1, Some 0, None, None],
     [Some 3, Some 4, None, Some 0, Some 1, None],
     [Some 3, Some 5, None, Some 0, None, Some 1],
     [Some 3, None, Some 4, Some 0, Some 2, None],
     [Some 3, None, Some 5, Some 0, None, Some 2],
     [Some 3, None, None, Some 0, Some 5, Some 4],
     [Some 3, Some 2, Some 1, Some 0, Some 5, Some 4],
     [Some 3, Some 4, Some 5, Some 0, Some 1, Some 2],
     [Some 3, Some 5, Some 4, Some 0, Some 2, Some 1]]"

text \<open>
  For every matching and both correspondences the union-find yields classes whose ports without an
  inside wire are none or exactly two, each the exit of the other, and every such auxiliary is in
  one of them.
\<close>

definition terminals :: "nat option list \<Rightarrow> nat list \<Rightarrow> nat list" where
  "terminals ms c = filter (\<lambda>j. ms ! j = None) c"

definition class_good :: "nat option list \<Rightarrow> (nat \<times> nat) list \<Rightarrow> nat list \<Rightarrow> bool" where
  "class_good ms cor c \<longleftrightarrow> list_all (\<lambda>j. j < 6) c \<and> (case terminals ms c of [] \<Rightarrow> True
     | [x, y] \<Rightarrow> x \<noteq> y \<and> exit_of ms cor x = y \<and> exit_of ms cor y = x | _ \<Rightarrow> False)"

definition plan_good :: "nat option list \<Rightarrow> (nat \<times> nat) list \<Rightarrow> nat list list \<Rightarrow> bool" where
  "plan_good ms cor cs \<longleftrightarrow> list_all (class_good ms cor) cs \<and>
     distinct (concat (map (terminals ms) cs)) \<and>
     list_all (\<lambda>i. i \<in> set (concat (map (terminals ms) cs)) \<longleftrightarrow> ms ! i = None) [1, 2, 4, 5]"

lemma plans_good:
  "list_all (\<lambda>ms. plan_good ms cor_beta (classes (pair_union ms cor_beta) [0..<6]) \<and>
     plan_good ms cor_delta (classes (pair_union ms cor_delta) [0..<6])) matchings"
  by code_simp

lemma matching_list:
  fixes f :: "nat \<Rightarrow> nat option"
  assumes "f 0 = Some 3" "f 3 = Some 0"
    and inv: "\<And>i k. i \<in> {1, 2, 4, 5} \<Longrightarrow> f i = Some k \<Longrightarrow> k \<in> {1, 2, 4, 5} \<and> k \<noteq> i \<and> f k = Some i"
  shows "map f [0..<6] \<in> set matchings"
proof -
  have l: "map f [0..<6] = [f 0, f 1, f 2, f 3, f 4, f 5]"
    by (simp add: upt_rec numeral_eq_Suc)
  have sw: "f i = Some k \<longleftrightarrow> f k = Some i" if "i \<in> {1, 2, 4, 5}" "k \<in> {1, 2, 4, 5}" for i k
    using inv[OF that(1)] inv[OF that(2)] by blast
  have val: "f i = None \<or> f i = Some 1 \<and> i \<noteq> 1 \<or> f i = Some 2 \<and> i \<noteq> 2 \<or> f i = Some 4 \<and> i \<noteq> 4 \<or>
      f i = Some 5 \<and> i \<noteq> 5" if "i \<in> {1, 2, 4, 5}" for i
    using inv[OF that] by (cases "f i") auto
  have "f 1 = None \<or> f 1 = Some 2 \<or> f 1 = Some 4 \<or> f 1 = Some 5"
    "f 2 = None \<or> f 2 = Some 1 \<or> f 2 = Some 4 \<or> f 2 = Some 5"
    "f 4 = None \<or> f 4 = Some 1 \<or> f 4 = Some 2 \<or> f 4 = Some 5"
    "f 5 = None \<or> f 5 = Some 1 \<or> f 5 = Some 2 \<or> f 5 = Some 4"
    using val[of 1] val[of 2] val[of 4] val[of 5] by auto
  moreover have "f 1 = Some 2 \<longleftrightarrow> f 2 = Some 1" "f 1 = Some 4 \<longleftrightarrow> f 4 = Some 1" "f 1 = Some 5 \<longleftrightarrow> f 5 = Some 1"
    "f 2 = Some 4 \<longleftrightarrow> f 4 = Some 2" "f 2 = Some 5 \<longleftrightarrow> f 5 = Some 2" "f 4 = Some 5 \<longleftrightarrow> f 5 = Some 4"
    by (rule sw; simp)+
  ultimately show ?thesis
    unfolding l matchings_def assms(1,2) by (elim disjE) simp_all
qed


lemma pport_simps:
  "pport a b 0 = Port a 0" "pport a b 1 = Port a 1" "pport a b 2 = Port a 2" "pport a b 3 = Port b 0"
  "pport a b 4 = Port b 1" "pport a b 5 = Port b 2" "node (pport a b i) \<in> {a, b}"
  by (simp_all add: pport_def)

lemma pport_inj: "a \<noteq> b \<Longrightarrow> pport a b i = pport a b j \<longleftrightarrow> i = j"
  by (auto simp: pport_def split: if_splits)

lemma pport_aux: "i \<in> {1, 2, 4, 5} \<longleftrightarrow> i < 6 \<and> i \<noteq> 0 \<and> i \<noteq> (3 :: nat)"
  by auto

lemma pport_aux_ports: "i \<in> {1, 2, 4, 5} \<Longrightarrow> pport a b i \<in> aux_ports a b"
  by (auto simp: pport_def aux_ports_def)

lemma aux_ports_pport: "x \<in> aux_ports a b \<Longrightarrow> \<exists>i \<in> {1, 2, 4, 5}. x = pport a b i"
  by (auto simp: pport_def aux_ports_def)

text \<open>The facts about a pair at rest that the rest of the proof uses.\<close>

lemma inside_map_nth: "i < 6 \<Longrightarrow> inside_map n a b ! i = inside n a b i"
  by (simp add: inside_map_def del: upt_Suc)

lemma inside_Some:
  assumes "a \<noteq> b" "inside n a b i = Some k" "pno (wire n (pport a b i)) < 3"
  shows "wire n (pport a b i) = pport a b k" "k < 6"
  using assms by (cases "wire n (pport a b i)"; auto simp: inside_def Let_def pport_def split: if_splits)+

lemma inside_None: "inside n a b i = None \<longleftrightarrow> node (wire n (pport a b i)) \<notin> {a, b}"
  by (simp add: inside_def Let_def)

lemma inside_pport: "a \<noteq> b \<Longrightarrow> wire n (pport a b i) = pport a b k \<Longrightarrow> inside n a b i = Some k"
  by (auto simp: inside_def Let_def pport_def split: if_splits)

lemma pair_matching:
  assumes ok: "net_ok n" and r: "redex_live n (Port a 0) (Port b 0)"
  shows "inside_map n a b \<in> set matchings"
    "outside n {a, b} (pport a b ` {i \<in> {1, 2, 4, 5}. inside n a b i = None})"
proof -
  note c = consumingD[OF consuming_start[OF ok r]]
  have w: "wired n {} {}" using ok by (simp add: net_ok_def)
  have st: "standing n {} (pport a b i)" if "i < 6" for i
    using that c(4,5) by (auto simp: standing_def pport_def)
  have "map (inside n a b) [0..<6] \<in> set matchings"
  proof (rule matching_list)
    show "inside n a b 0 = Some 3" "inside n a b 3 = Some 0"
      using c(3,6,7) by (auto simp: inside_def Let_def pport_def)
    fix i k :: nat assume i: "i \<in> {1, 2, 4, 5}" and k: "inside n a b i = Some k"
    have "wire n (pport a b i) \<noteq> NONE" using k c(8,9) by (auto simp: inside_def Let_def split: if_splits)
    note b' = wired_back[OF w st this]
    have i6: "i < 6" using i by auto
    note s = inside_Some[OF c(3) k] b'[OF i6]
    have s3: "pno (wire n (pport a b i)) < 3" using s(3) by (simp add: standing_def)
    have "inside n a b k = Some i" using s(1,4) s3 by (intro inside_pport c(3)) simp
    moreover have "k \<noteq> i" using s(1,5) s3 by auto
    moreover have p: "wire n (pport a b 0) = pport a b 3" "wire n (pport a b 3) = pport a b 0"
      using c(6,7) by (simp_all add: pport_simps)
    have wk: "wire n (pport a b k) = pport a b i" using s(1,4) s3 by simp
    have "i \<noteq> 3" "i \<noteq> 0" using i by auto
    then have "k \<noteq> 0" "k \<noteq> 3" using wk p pport_inj[OF c(3), of i] by metis+
    ultimately show "k \<in> {1, 2, 4, 5} \<and> k \<noteq> i \<and> inside n a b k = Some i"
      using s(2) s3 pport_aux[of k] by blast
  qed
  then show "inside_map n a b \<in> set matchings" by (simp add: inside_map_def)
  show "outside n {a, b} (pport a b ` {i \<in> {1, 2, 4, 5}. inside n a b i = None})"
    unfolding outside_def
  proof
    fix x assume "x \<in> pport a b ` {i \<in> {1, 2, 4, 5}. inside n a b i = None}"
    then obtain i where i: "x = pport a b i" "i \<in> {1, 2, 4, 5}" "inside n a b i = None" by blast
    have i6: "i < 6" using i(2) by auto
    show "node x \<in> {a, b} \<and> 0 \<le> node x \<and> pno x < 3 \<and> node (wire n x) \<notin> {a, b} \<and>
     (wire n x \<noteq> NONE \<longrightarrow> wire n (wire n x) = x \<and> pno (wire n x) < 3)"
      using i(3) wired_back(1,2)[OF w st[OF i6]] st[OF i6] pport_simps(7)[of a b i] c(8,9)
      by (auto simp: i(1) inside_None standing_def)
  qed
qed

lemma ends_list_filter:
  "ends_list a b xs n = ends_list a b (filter (\<lambda>x. node (wire n x) \<notin> {a, b}) xs) n"
  by (induction xs) (auto simp: ends_list_def)

text \<open>Running the classes one after the other.\<close>

lemma fold_classes:
  assumes ab: "a \<noteq> b" and E: "\<not> in_parallel E" and ms: "ms = inside_map n a b"
    and out: "outside n {a, b} (pport a b ` {i \<in> {1, 2, 4, 5}. inside n a b i = None})"
  shows "list_all (class_good ms cor) cs \<Longrightarrow> distinct (concat (map (terminals ms) cs)) \<Longrightarrow>
    set (concat (map (terminals ms) cs)) \<subseteq> {1, 2, 4, 5} - S \<Longrightarrow>
    S \<subseteq> {i \<in> {1, 2, 4, 5}. inside n a b i = None} \<Longrightarrow>
    consuming k a b (aux_ports a b - pport a b ` S) \<Longrightarrow> rewired n k (pport a b ` S) \<Longrightarrow>
    (\<forall>i \<in> S. exit_of ms cor i \<in> S \<and> handover n k (pport a b i) (pport a b (exit_of ms cor i))) \<Longrightarrow>
    T = S \<union> set (concat (map (terminals ms) cs)) \<Longrightarrow> m = fold (join_class E True a b) cs k \<Longrightarrow>
    consuming m a b (aux_ports a b - pport a b ` T) \<and> rewired n m (pport a b ` T) \<and>
    (\<forall>i \<in> T. handover n m (pport a b i) (pport a b (exit_of ms cor i))) \<and>
    (\<forall>P. all_queued k P \<longrightarrow> all_queued m P)"
proof (induction cs arbitrary: S k)
  case (Cons c cs)
  let ?p = "pport a b" and ?t = "terminals ms c" and ?k = "join_class E True a b c k"
  have good: "class_good ms cor c" and c6: "\<And>j. j \<in> set c \<Longrightarrow> j < 6"
    using Cons.prems(1) by (auto simp: class_good_def list_all_iff)
  have tn: "ms ! j = inside n a b j" if "j \<in> set c" for j
    using inside_map_nth[OF c6[OF that]] ms by simp
  have same: "node (wire k (?p j)) \<in> {a, b} \<longleftrightarrow> node (wire n (?p j)) \<in> {a, b}"
    if j: "j \<in> set c" "j \<notin> S" for j
  proof -
    have "standing k {} (?p j)"
      using consumingD(4,5)[OF Cons.prems(5)] c6[OF j(1)] by (auto simp: standing_def pport_def)
    moreover have "?p j \<notin> wire n ` ?p ` S"
      using outsideD(4)[OF out] Cons.prems(4) pport_simps(7)[of a b j] by (auto simp del: pport_simps)
    moreover have "?p j \<notin> ?p ` S" using j(2) pport_inj[OF ab] by auto
    ultimately show ?thesis using rewiredD(2)[OF Cons.prems(6)] by simp
  qed
  have tS: "set ?t \<inter> S = {}" using Cons.prems(3) by auto
  have Sn: "j \<in> S \<Longrightarrow> inside n a b j = None" for j using Cons.prems(4) by auto
  have "filter (\<lambda>x. node (wire k x) \<notin> {a, b}) (map ?p c) = map ?p ?t"
  proof -
    have "node (wire k (?p j)) \<notin> {a, b} \<longleftrightarrow> ms ! j = None" if j: "j \<in> set c" for j
    proof (cases "j \<in> S")
      case True
      then have "j \<in> set ?t" using j tn[OF j] Sn by (simp add: terminals_def)
      with True tS show ?thesis by blast
    next
      case False
      then show ?thesis using same[OF j] tn[OF j] inside_None by simp
    qed
    then show ?thesis unfolding terminals_def filter_map comp_def
      by (intro arg_cong[of _ _ "map ?p"] filter_cong) auto
  qed
  then have k': "?k = join_ends E (ends_list a b (map ?p ?t) k) k"
    unfolding join_class_ends using ends_list_filter[of a b "map ?p c" k] by simp
  have rest: "list_all (class_good ms cor) cs" "distinct (concat (map (terminals ms) cs))"
    "m = fold (join_class E True a b) cs ?k"
    using Cons.prems(1,2,9) by simp_all
  from good consider "?t = []" | x y where "?t = [x, y]" "x \<noteq> y" "exit_of ms cor x = y" "exit_of ms cor y = x"
    by (auto simp: class_good_def split: list.splits)
  then show ?case
  proof cases
    case 1
    then have "?k = k" using k' by (simp add: ends_list_def join_ends_def)
    then show ?thesis using Cons.IH[of S k] Cons.prems 1 rest by simp
  next
    case 2
    have xy: "x \<in> {1, 2, 4, 5}" "y \<in> {1, 2, 4, 5}" "x \<notin> S" "y \<notin> S"
      using Cons.prems(3) 2(1) by auto
    have xyn: "inside n a b x = None" "inside n a b y = None"
    proof -
      have "x \<in> set ?t" "y \<in> set ?t" using 2(1) by auto
      then have "x \<in> set c" "ms ! x = None" "y \<in> set c" "ms ! y = None" by (simp_all add: terminals_def)
      then show "inside n a b x = None" "inside n a b y = None" using tn by auto
    qed
    let ?S = "S \<union> {x, y}"
    have o: "outside n {a, b} (?p ` S \<union> {?p x, ?p y})"
      using out Cons.prems(4) xy xyn unfolding outside_def by blast
    have kk: "?k = join_ends E (ends_list a b [?p x, ?p y] k) k" using k' 2(1) by simp
    have inX: "?p z \<in> aux_ports a b - ?p ` S" "?p z \<notin> ?p ` S" if "z \<in> {x, y}" for z
      using pport_aux_ports[of z a b] that xy pport_inj[OF ab] by auto
    note j = join_step[OF Cons.prems(5,6) o inX(1) inX(2) inX(1) inX(2) _ E kk]
    have ne: "?p x \<noteq> ?p y" using pport_inj[OF ab] 2(2) by auto
    have X: "aux_ports a b - ?p ` S - {?p x, ?p y} = aux_ports a b - ?p ` ?S" by auto
    have H: "\<forall>i \<in> ?S. exit_of ms cor i \<in> ?S \<and> handover n ?k (?p i) (?p (exit_of ms cor i))"
      using j(3,4)[OF _ _ _ _ ne] j(5)[OF _ _ _ _ ne] Cons.prems(7) 2(3,4) by auto
    have d: "set (concat (map (terminals ms) cs)) \<subseteq> {1, 2, 4, 5} - ?S"
      using Cons.prems(2,3) 2(1) by auto
    have T': "T = ?S \<union> set (concat (map (terminals ms) cs))" using Cons.prems(8) 2(1) by auto
    have S': "?S \<subseteq> {i \<in> {1, 2, 4, 5}. inside n a b i = None}" using Cons.prems(4) xy xyn by auto
    have c1: "consuming ?k a b (aux_ports a b - ?p ` ?S)" using j(1)[OF _ _ _ _ ne] X by simp
    have r1: "rewired n ?k (?p ` ?S)" using j(2)[OF _ _ _ _ ne] by (simp add: insert_commute)
    show ?thesis
      using Cons.IH[OF rest(1,2) d S' c1 r1 H T' rest(3)] j(6)[OF _ _ _ _ ne] by auto
  qed
qed simp


lemma drop_ports:
  assumes inv: "pair_inv n D X" and x: "\<And>x. x \<in> X \<Longrightarrow> wire n x = NONE \<or> node (wire n x) \<in> D"
  shows "pair_inv n D {}"
proof -
  note d = pair_invD[OF inv]
  have "linked n D {} p" if p: "standing n D p" for p
  proof -
    have "wire n p \<noteq> NONE \<Longrightarrow> wire n p \<notin> X"
      using wiredD[OF d(1) p] x[of "wire n p"] p standing_not_NONE[OF p]
      by (auto simp: linked_def standing_def)
    then show ?thesis using wiredD[OF d(1) p] by (cases "wire n p = NONE") (auto simp: linked_def)
  qed
  then show ?thesis using d by (auto simp: pair_inv_def wired_def handed_def)
qed

text \<open>The auxiliaries of the pair whose wires leave it.\<close>

definition leaving :: "net \<Rightarrow> int \<Rightarrow> int \<Rightarrow> nat set" where
  "leaving n a b = {i \<in> {1, 2, 4, 5}. inside n a b i = None}"

lemma boundary_spec:
  assumes ok: "net_ok n" and r: "redex_live n (Port a 0) (Port b 0)" and E: "\<not> in_parallel E"
    and cor: "cor = cor_beta \<or> cor = cor_delta" and m: "m = pair_boundary E a b cor True n"
  shows "consuming m a b {}" "rewired n m (pport a b ` leaving n a b)"
    "\<And>i. i \<in> leaving n a b \<Longrightarrow>
       handover n m (pport a b i) (pport a b (exit_of (inside_map n a b) cor i))"
    "\<And>P. all_queued n P \<Longrightarrow> all_queued m P"
proof -
  let ?ms = "inside_map n a b" and ?T = "leaving n a b" and ?p = "pport a b"
  let ?cs = "classes (pair_union ?ms cor) [0..<6]"
  note c = consuming_start[OF ok r] and pm = pair_matching[OF ok r]
  have "plan_good ?ms cor ?cs"
    using plans_good pm(1) cor by (auto simp: list_all_iff)
  then have pl: "list_all (class_good ?ms cor) ?cs" "distinct (concat (map (terminals ?ms) ?cs))"
    "\<forall>i \<in> {1, 2, 4, 5}. i \<in> set (concat (map (terminals ?ms) ?cs)) \<longleftrightarrow> ?ms ! i = None"
    by (simp_all add: plan_good_def list_all_iff del: upt_Suc)
  have nth: "i < 6 \<Longrightarrow> ?ms ! i = inside n a b i" for i by (rule inside_map_nth)
  have s6: "set (concat (map (terminals ?ms) ?cs)) \<subseteq> {i. i < 6 \<and> ?ms ! i = None}"
    using pl(1) by (fastforce simp: class_good_def list_all_iff terminals_def)
  have n03: "?ms ! 0 \<noteq> None" "?ms ! 3 \<noteq> None"
    using pm(1) by (auto simp: matchings_def)
  have sub: "set (concat (map (terminals ?ms) ?cs)) \<subseteq> {1, 2, 4, 5} - {}"
  proof (intro subsetI)
    fix i assume "i \<in> set (concat (map (terminals ?ms) ?cs))"
    then have i: "i < 6" "?ms ! i = None" using s6 by auto
    then have "i \<noteq> 0" "i \<noteq> 3" using n03 by metis+
    then show "i \<in> {1, 2, 4, 5} - {}" using i(1) pport_aux by blast
  qed
  have T: "?T = {} \<union> set (concat (map (terminals ?ms) ?cs))"
    using pl(3) sub nth by (auto simp: leaving_def)
  have m': "m = fold (join_class E True a b) ?cs n"
    using m by (simp add: pair_boundary_def inside_map_def)
  have c0: "consuming n a b (aux_ports a b - ?p ` {})" using c by simp
  have fc: "consuming m a b (aux_ports a b - ?p ` ?T) \<and> rewired n m (?p ` ?T) \<and>
    (\<forall>i \<in> ?T. handover n m (?p i) (?p (exit_of ?ms cor i))) \<and>
    (\<forall>P. all_queued n P \<longrightarrow> all_queued m P)"
    using fold_classes[OF consumingD(3)[OF c] E refl pm(2) pl(1,2) sub _ c0 _ _ T m'] by simp
  then show "rewired n m (?p ` ?T)"
    "\<And>i. i \<in> ?T \<Longrightarrow> handover n m (?p i) (?p (exit_of ?ms cor i))"
    "\<And>P. all_queued n P \<Longrightarrow> all_queued m P" by blast+
  have cm: "consuming m a b (aux_ports a b - ?p ` ?T)" and rw: "rewired n m (?p ` ?T)" using fc by blast+
  have "node (wire m x) \<in> {a, b}" if x: "x \<in> aux_ports a b - ?p ` ?T" for x
  proof -
    obtain i where i: "i \<in> {1, 2, 4, 5}" "x = ?p i" using aux_ports_pport x by blast
    have "i \<notin> ?T" using x i(2) by auto
    then have "inside n a b i \<noteq> None" using i(1) unfolding leaving_def by blast
    then have "node (wire n x) \<in> {a, b}" unfolding i(2) inside_None by blast
    moreover have "standing m {} x"
      using consumingD(4,5)[OF cm] x by (auto simp: aux_ports_def standing_def)
    moreover have "x \<notin> wire n ` ?p ` ?T"
      using outsideD(4)[OF pm(2)] pport_simps(7)[of a b i] i(2) by (auto simp: leaving_def simp del: pport_simps)
    ultimately show ?thesis using rewiredD(2)[OF rw] x by simp
  qed
  then have "pair_inv m {a, b} {}" by (intro drop_ports[OF consumingD(1)[OF cm]]) blast
  then show "consuming m a b {}" using cm by (simp add: consuming_def)
qed


section \<open>Retiring the pair\<close>

lemma reaps_queue_live:
  assumes w: "wired n {} {}" and r: "reaps n m" and q: "queue_live n"
  shows "queue_live m"
  unfolding queue_live_def
proof clarify
  fix p q assume "(p, q) \<in> set (act m)"
  then have pq: "redex_live n p q" using q reaps_frame(4)[OF r] by (auto simp: queue_live_def)
  then have "standing n {} p" "standing n {} q" by (auto simp: redex_live_def standing_def)
  then have "standing m {} p" "standing m {} q"
    using reapsD(5)[OF r] redex_wires[OF pq] by blast+
  then show "redex_live m p q"
    using pq reapsD(3)[OF r] by (simp add: redex_live_def standing_def)
qed

lemma reaps_redex: "reaps n m \<Longrightarrow> redex_live m p q \<Longrightarrow> redex_live n p q"
  using reapsD(3,6)[of n m] by (auto simp: redex_live_def standing_def)

lemma reaps_queue_ok: "reaps n m \<Longrightarrow> queue_ok n \<Longrightarrow> queue_ok m"
  using reaps_frame(4,5)[of n m] by (simp add: queue_ok_def)

lemma reaps_levels_ok: "reaps n m \<Longrightarrow> levels_ok n \<Longrightarrow> levels_ok m"
  using reaps_frame(3,6)[of n m] reapsD(6)[of n m] by (auto simp: levels_ok_def)

lemma reaps_room_ok: "reaps n m \<Longrightarrow> room_ok n \<Longrightarrow> room_ok m"
  using reaps_frame(1,2,5,17)[of n m] reapsD(2)[of n m] by (fastforce simp: room_ok_def in_net_def)

text \<open>What a rule leaves behind: the pair is gone, and so are nodes only it was connected to.\<close>

definition retired :: "net \<Rightarrow> net \<Rightarrow> int \<Rightarrow> int \<Rightarrow> bool" where
  "retired n m a b \<longleftrightarrow> lvl m = lvl n \<and> scope m = scope n \<and> pins m = pins n \<and> steps m = steps n \<and>
     root m = filter (\<lambda>r. node r \<noteq> a \<and> node r \<noteq> b) (root n) \<and> nn m = nn n \<and> ncap m = ncap n \<and>
     \<not> live m a \<and> \<not> live m b \<and> (\<forall>u. live m u \<longrightarrow> live n u \<and> tag m u = tag n u) \<and>
     (\<forall>q. standing m {} q \<longrightarrow> wire m q = wire n q) \<and>
     (\<forall>q. standing n {a, b} q \<and> \<not> standing m {} q \<longrightarrow> wire n q = NONE)"

lemma retire_spec:
  assumes c: "consuming n a b {}" and E: "\<not> in_parallel E" and m: "m = retire E a b n"
  shows "net_ok m" "retired n m a b" "all_queued n P \<Longrightarrow> all_queued m P"
proof -
  define n1 where "n1 = n\<lparr>dead := (dead n)(a := True, b := True)\<rparr>"
  define n2 where "n2 = act_drop E (act_drop E n1 a) b"
  define n3 where "n3 = n2\<lparr>root := filter (\<lambda>r. node r \<noteq> a \<and> node r \<noteq> b) (root n2)\<rparr>"
  note cd = consumingD[OF c] and d = pair_invD[OF consumingD(1)[OF c]]
  have lv3: "live n3 u \<longleftrightarrow> live n u \<and> u \<noteq> a \<and> u \<noteq> b" for u
    by (simp add: n3_def n2_def n1_def live_def in_net_def)
  have f3: "wire n3 = wire n" "tag n3 = tag n" "scope n3 = scope n" "lvl n3 = lvl n" "nn n3 = nn n"
    "ncap n3 = ncap n" "pins n3 = pins n" "steps n3 = steps n" "fatal n3 = fatal n"
    "free_head n3 = free_head n" "pend_head n3 = pend_head n" "nfree n3 = nfree n"
    "dead n3 = (dead n)(a := True, b := True)"
    "root n3 = filter (\<lambda>r. node r \<noteq> a \<and> node r \<noteq> b) (root n)"
    by (simp_all add: n3_def n2_def n1_def)
  have st3: "standing n3 {} q \<longleftrightarrow> standing n {a, b} q" for q by (auto simp: standing_def lv3)
  have w3: "wired n3 {} {}" unfolding wired_def
  proof (intro allI impI)
    fix p assume "standing n3 {} p"
    then show "linked n3 {} {} p" using wiredD[OF d(1), of p] by (auto simp: st3 linked_def f3 lv3 split: if_splits)
  qed
  have q1: "queue_ok n1" using d(4) by (simp add: queue_ok_def n1_def)
  note q1a = act_drop_ok[OF q1 E, of a]
  have q2: "queue_ok n2" unfolding n2_def by (rule act_drop_ok[OF q1a E])
  have gone: "act_of n2 a < 0" "act_of n2 b < 0"
    using act_drop_queued[OF q1a E, of b a] act_drop_queued[OF q1 E, of a a]
      act_drop_queued[OF q1a E, of b b] by (auto simp: n2_def)
  have a3: "act n3 = act n2" "act_of n3 = act_of n2" by (simp_all add: n3_def)
  have sub: "set (act n2) \<subseteq> set (act n)"
  proof -
    have "set (act (act_drop E k v)) \<subseteq> set (act k)" if "queue_ok k" for k v
    proof (cases "0 \<le> act_of k v")
      case True
      then have "set_mset (mset (act (act_drop E k v))) \<subseteq> set_mset (mset (act k))"
        using act_drop_mset[OF that E True] by auto
      then show ?thesis by simp
    qed (simp add: act_drop_idle)
    from this[OF q1a, of b] this[OF q1, of a] show ?thesis by (auto simp: n2_def n1_def)
  qed
  have notab: "node p \<notin> {a, b} \<and> node q \<notin> {a, b}" if "(p, q) \<in> set (act n2)" for p q
  proof -
    have "0 \<le> act_of n2 (node p)" "0 \<le> act_of n2 (node q)" using queue_ok_mem[OF q2] that by auto
    then show ?thesis using gone by auto
  qed
  have ql3: "queue_live n3" unfolding queue_live_def a3
  proof clarify
    fix p q assume pq: "(p, q) \<in> set (act n2)"
    then have "redex_live n p q" using sub d(5) by (auto simp: queue_live_def)
    then show "redex_live n3 p q" using notab[OF pq] by (simp add: redex_live_def lv3 f3)
  qed
  obtain fs ps where sl: "slots_ok n fs ps" using d(6) by blast
  have out: "a \<notin> set (fs @ ps)" "b \<notin> set (fs @ ps)" using sl cd(4,5) by (auto simp: slots_ok_def live_def)
  have sl3: "slots_ok n3 fs ps" using sl by (auto simp: slots_ok_def f3 in_net_def)
  have lo3: "levels_ok n3" using d(7) by (auto simp: levels_ok_def f3 lv3)
  have ix: "0 \<le> act_of n2 x \<Longrightarrow> 0 \<le> act_of n x" for x
    using act_drop_queued[OF q1a E, of b x] act_drop_queued[OF q1 E, of a x] by (auto simp: n2_def n1_def)
  have ro3: "room_ok n3"
    using d(8) cd(4,5) ix by (auto simp: room_ok_def f3 a3 live_def in_net_def not_le[symmetric])
  have ret: "retired n n3 a b"
    using st3 by (auto simp: retired_def f3 lv3)
  have aq3: "all_queued n3 P" if aq: "all_queued n P" for P
    unfolding all_queued_def
  proof (intro allI impI)
    fix p q assume r3: "redex_live n3 p q"
    then have r: "redex_live n p q" "node p \<notin> {a, b}" "node q \<notin> {a, b}"
      by (auto simp: redex_live_def lv3 f3)
    show "0 \<le> act_of n3 (node p) \<or> (p, q) \<in> P \<or> (q, p) \<in> P"
    proof (rule ccontr)
      assume no: "\<not> ?thesis"
      then have in_n: "0 \<le> act_of n (node p)" using aq r(1) by (auto simp: all_queued_def)
      then obtain x y where xy: "(x, y) \<in> set (act n)" "node p = node x \<or> node p = node y"
        using queue_ok_mem[OF d(4), of "node p"] by auto
      then have rx: "redex_live n x y" using d(5) by (auto simp: queue_live_def)
      then have nodes: "{node x, node y} = {node p, node q}"
        using r(1) xy(2) port_eqI[of p x] port_eqI[of p y] by (auto simp: redex_live_def)
      have keep: "(x, y) \<in> set (act (act_drop E k v))"
        if k: "queue_ok k" "(x, y) \<in> set (act k)" "v \<in> {a, b}" for k v
      proof (cases "0 \<le> act_of k v")
        case True
        note at = queue_ok_at[OF k(1) True]
        have "act k ! nat (act_of k v) \<noteq> (x, y)" using at(2) k(3) nodes r(2,3) by (auto simp: doubleton_eq_iff)
        moreover have "(x, y) \<in># mset (act k)" using k(2) by simp
        ultimately show ?thesis using act_drop_mset[OF k(1) E True] by auto
      qed (use k(2) in \<open>simp add: act_drop_idle\<close>)
      have "(x, y) \<in> set (act n1)" using xy(1) by (simp add: n1_def)
      from keep[OF q1a keep[OF q1 this]] have "(x, y) \<in> set (act n2)" by (simp add: n2_def)
      then have "0 \<le> act_of n2 (node p)" using queue_ok_mem[OF q2, of "node p"] xy(2) by auto
      then show False using no a3(2) by simp
    qed
  qed
  have m': "m = (if 1 < reduce_depth E \<or> pins n3 \<noteq> 0 \<or> in_parallel E \<or> noret E then n3
         else release_now (release_now n3 a) b)"
    unfolding m retire_def Let_def n3_def n2_def n1_def ..
  have q3: "queue_ok n3" using q2 by (simp add: queue_ok_def a3)
  have fin: "net_ok k \<and> retired n k a b \<and> (all_queued n P \<longrightarrow> all_queued k P)"
    if k: "reaps n3 k" "wired k {} {}" "\<exists>fs ps. slots_ok k fs ps" for k
  proof -
    note rf = reaps_frame[OF k(1)] and rd = reapsD[OF k(1)]
    have "net_ok k"
      using k reaps_queue_ok[OF k(1) q3] reaps_queue_live[OF w3 k(1) ql3] reaps_levels_ok[OF k(1) lo3]
        reaps_room_ok[OF k(1) ro3] by (simp add: net_ok_def)
    moreover have "retired n k a b"
    proof -
      have "live k u \<Longrightarrow> live n u \<and> tag k u = tag n u" for u using rd(4,6)[of u] lv3 f3(2) by simp
      moreover have "\<not> live k a" "\<not> live k b" using rd(6) lv3 by blast+
      moreover have "standing k {} q \<Longrightarrow> wire k q = wire n q" for q using rd(3)[of q] f3(1) by simp
      moreover have "standing n {a, b} q \<and> \<not> standing k {} q \<longrightarrow> wire n q = NONE" for q
        using rd(5)[of q] st3 f3(1) by simp
      ultimately show ?thesis unfolding retired_def using rf f3 by simp
    qed
    moreover have "all_queued n P \<longrightarrow> all_queued k P"
      using aq3 reaps_redex[OF k(1)] rf(5) by (auto simp: all_queued_def)
    ultimately show ?thesis by blast
  qed
  have "net_ok m \<and> retired n m a b \<and> (all_queued n P \<longrightarrow> all_queued m P)"
  proof (cases "1 < reduce_depth E \<or> pins n3 \<noteq> 0 \<or> in_parallel E \<or> noret E")
    case True
    then show ?thesis using m' fin[of n3] w3 sl3 by auto
  next
    case False
    have ab3: "dead n3 a" "in_net n3 a" "dead n3 b" "in_net n3 b"
      using cd(4,5) by (auto simp: f3 live_def in_net_def)
    note ra = release_now_spec[OF w3 sl3 ab3(1,2) out(1)]
    obtain qs where qs: "slots_ok (release_now n3 a) fs (qs @ ps)" "\<forall>u \<in> set qs. u = a \<or> live n3 u"
      using ra(3) by blast
    have "b \<notin> set (fs @ qs @ ps)" using qs(2) out(2) cd(3) lv3 by auto
    note rb = release_now_spec[OF ra(1) qs(1) _ _ this]
    have "dead (release_now n3 a) b" "in_net (release_now n3 a) b"
      using reapsD(1)[OF ra(2)] reaps_frame(18)[OF ra(2)] ab3 by auto
    note rb = rb[OF this]
    show ?thesis using False m' fin[of m] reaps_trans[OF ra(2) rb(2)] rb(1,3) by auto
  qed
  then show "net_ok m" "retired n m a b" "all_queued n P \<Longrightarrow> all_queued m P" by blast+
qed

end
