(* ===== verification/Duplicate.thy ===== *)
theory Duplicate
  imports Boundary
begin

text \<open>
  What the duplication rules do: \<open>split2\<close> makes four fresh copies wired crosswise, \<open>link_copies\<close>
  lets each copy take the place of one auxiliary of the pair (two auxiliaries wired to each other
  have their copies joined), and the invariant of the net survives.
\<close>

section \<open>The four copies\<close>

text \<open>\<open>m\<close> is \<open>n\<close> with the four copies added; \<open>cp\<close> lists them in the order of the auxiliaries.\<close>

definition copied :: "net \<Rightarrow> net \<Rightarrow> ntag \<Rightarrow> gauge \<Rightarrow> gauge \<Rightarrow> ntag \<Rightarrow> gauge \<Rightarrow>
    int \<Rightarrow> int \<Rightarrow> int \<Rightarrow> int \<Rightarrow> bool" where
  "copied n m t1 s1a s1b t2 s2 m1 m2 d1 d2 \<longleftrightarrow>
     distinct [m1, m2, d1, d2] \<and> (\<forall>v \<in> {m1, m2, d1, d2}. \<not> live n v \<and> 0 \<le> v) \<and>
     (\<forall>u. live m u \<longleftrightarrow> live n u \<or> u \<in> {m1, m2, d1, d2}) \<and>
     (\<forall>q. node q \<notin> {m1, m2, d1, d2} \<longrightarrow> wire m q = wire n q) \<and>
     (\<forall>u. u \<notin> {m1, m2, d1, d2} \<longrightarrow> tag m u = tag n u \<and> scope m u = scope n u) \<and>
     (\<forall>v \<in> {m1, m2, d1, d2}. wire m (Port v 0) = NONE) \<and>
     wire m (Port d1 1) = Port m1 1 \<and> wire m (Port m1 1) = Port d1 1 \<and>
     wire m (Port d1 2) = Port m2 1 \<and> wire m (Port m2 1) = Port d1 2 \<and>
     wire m (Port d2 1) = Port m1 2 \<and> wire m (Port m1 2) = Port d2 1 \<and>
     wire m (Port d2 2) = Port m2 2 \<and> wire m (Port m2 2) = Port d2 2 \<and>
     tag m m1 = t1 \<and> tag m m2 = t1 \<and> tag m d1 = t2 \<and> tag m d2 = t2 \<and>
     scope m m1 = s1a \<and> scope m m2 = s1b \<and> scope m d1 = s2 \<and> scope m d2 = s2 \<and>
     lvl m = lvl n \<and> root m = root n \<and> pins m = pins n \<and> steps m = steps n \<and> nn m \<le> nn n + 4"

lemma copiedD:
  assumes "copied n m t1 s1a s1b t2 s2 m1 m2 d1 d2"
  shows "distinct [m1, m2, d1, d2]" "v \<in> {m1, m2, d1, d2} \<Longrightarrow> \<not> live n v"
    "v \<in> {m1, m2, d1, d2} \<Longrightarrow> 0 \<le> v" "live m u \<longleftrightarrow> live n u \<or> u \<in> {m1, m2, d1, d2}"
    "node q \<notin> {m1, m2, d1, d2} \<Longrightarrow> wire m q = wire n q"
    "v \<in> {m1, m2, d1, d2} \<Longrightarrow> wire m (Port v 0) = NONE"
    "u \<notin> {m1, m2, d1, d2} \<Longrightarrow> tag m u = tag n u" "u \<notin> {m1, m2, d1, d2} \<Longrightarrow> scope m u = scope n u"
    "nn m \<le> nn n + 4" "lvl m = lvl n" "root m = root n" "pins m = pins n" "steps m = steps n"
proof -
  note c = assms[unfolded copied_def]
  show "distinct [m1, m2, d1, d2]" "nn m \<le> nn n + 4" "lvl m = lvl n" "root m = root n" "pins m = pins n"
    "steps m = steps n" using c by simp_all
  have "\<forall>v \<in> {m1, m2, d1, d2}. \<not> live n v \<and> 0 \<le> v" using c by (elim conjE) assumption
  then show "v \<in> {m1, m2, d1, d2} \<Longrightarrow> \<not> live n v" "v \<in> {m1, m2, d1, d2} \<Longrightarrow> 0 \<le> v" by blast+
  show "live m u \<longleftrightarrow> live n u \<or> u \<in> {m1, m2, d1, d2}" using c by simp
  have q: "\<forall>q. node q \<notin> {m1, m2, d1, d2} \<longrightarrow> wire m q = wire n q" using c by (elim conjE) assumption
  have v: "\<forall>v \<in> {m1, m2, d1, d2}. wire m (Port v 0) = NONE" using c by (elim conjE) assumption
  have u: "\<forall>u. u \<notin> {m1, m2, d1, d2} \<longrightarrow> tag m u = tag n u \<and> scope m u = scope n u"
    using c by (elim conjE) assumption
  show "node q \<notin> {m1, m2, d1, d2} \<Longrightarrow> wire m q = wire n q"
    "v \<in> {m1, m2, d1, d2} \<Longrightarrow> wire m (Port v 0) = NONE"
    "u \<notin> {m1, m2, d1, d2} \<Longrightarrow> tag m u = tag n u" "u \<notin> {m1, m2, d1, d2} \<Longrightarrow> scope m u = scope n u"
    using q v u by blast+
qed

lemma copied_cross:
  assumes "copied n m t1 s1a s1b t2 s2 m1 m2 d1 d2"
  shows "wire m (Port d1 1) = Port m1 1" "wire m (Port m1 1) = Port d1 1"
    "wire m (Port d1 2) = Port m2 1" "wire m (Port m2 1) = Port d1 2"
    "wire m (Port d2 1) = Port m1 2" "wire m (Port m1 2) = Port d2 1"
    "wire m (Port d2 2) = Port m2 2" "wire m (Port m2 2) = Port d2 2"
    "tag m m1 = t1" "tag m m2 = t1" "tag m d1 = t2" "tag m d2 = t2"
    "scope m m1 = s1a" "scope m m2 = s1b" "scope m d1 = s2" "scope m d2 = s2"
  using assms unfolding copied_def by simp_all

lemma consuming_alloc:
  assumes c: "consuming n a b X" and E: "\<not> in_parallel E" and sc: "sc \<le> nlv (lvl n)"
    and r: "net_alloc E t sc n = (m, v)"
  shows "fresh_node t sc n v m" "consuming m a b X" "v \<notin> {a, b}"
    "all_queued n P \<Longrightarrow> all_queued m P" "lvl m = lvl n"
  using alloc_inv[OF consumingD(1)[OF c] E sc r] c
  by (auto simp: consuming_def fresh_node_def)

text \<open>Linking two unconnected ports of nodes outside the pair.\<close>

lemma consuming_link_free:
  assumes c: "consuming n a b X" and E: "\<not> in_parallel E"
    and p: "live n (node p)" "node p \<notin> {a, b}" "pno p < 3" "wire n p = NONE"
    and q: "live n (node q)" "node q \<notin> {a, b}" "pno q < 3" "wire n q = NONE"
    and pq: "p \<noteq> q" and e: "enq \<or> 0 < pno p \<or> 0 < pno q" and m: "m = net_link E p q enq n"
  shows "consuming m a b X" "wire m = (wire n)(p := q, q := p)" "meta n m"
    "\<And>u. live m u = live n u" "\<And>P. all_queued n P \<Longrightarrow> all_queued m P" "tag m = tag n"
proof -
  let ?D = "{a, b}"
  note cd = consumingD[OF c]
  have l: "loose n ?D X p" "loose n ?D X q" using p q by (auto simp: loose_def standing_def)
  note li = link_inv[OF cd(1) l pq E m]
  have "NONE \<notin> X" using handedD(1)[OF pair_invD(2)[OF cd(1)], of NONE] cd(8,9) by auto
  then have X: "X - {wire n p, wire n q} = X" using p(4) q(4) by simp
  show w: "wire m = (wire n)(p := q, q := p)"
  proof
    fix r show "wire m r = ((wire n)(p := q, q := p)) r" using li(2-4) pq by (auto simp: fun_upd_apply)
  qed
  have "Port a 0 \<noteq> p" "Port a 0 \<noteq> q" "Port b 0 \<noteq> p" "Port b 0 \<noteq> q" using p(2) q(2) by auto
  then show "consuming m a b X"
    using c li(1,6) X by (simp add: consuming_def redex_live_def w)
  show "meta n m" "\<And>u. live m u = live n u" "\<And>P. all_queued n P \<Longrightarrow> all_queued m P"
    using li(5-7) e by blast+
  show "tag m = tag n" using m E live_nonneg[OF p(1)] live_nonneg[OF q(1)] by (simp add: net_link_seq)
qed

lemma cross_link:
  assumes "consuming n a b X" "\<not> in_parallel E" "live n v" "v \<notin> {a, b}" "live n w" "w \<notin> {a, b}" "v \<noteq> w"
    "wire n (Port v i) = NONE" "wire n (Port w j) = NONE" "i < 3" "j < 3" "0 < i"
    "m = net_link E (Port v i) (Port w j) False n"
  shows "consuming m a b X" "wire m = (wire n)(Port v i := Port w j, Port w j := Port v i)" "meta n m"
    "\<And>u. live m u = live n u" "\<And>P. all_queued n P \<Longrightarrow> all_queued m P" "tag m = tag n"
proof -
  have "Port v i \<noteq> Port w j" using assms(7) by simp
  note l = consuming_link_free[OF assms(1,2) _ _ _ assms(8) _ _ _ assms(9) this _ assms(13)]
  show "consuming m a b X" "wire m = (wire n)(Port v i := Port w j, Port w j := Port v i)" "meta n m"
    "\<And>u. live m u = live n u" "\<And>P. all_queued n P \<Longrightarrow> all_queued m P" "tag m = tag n"
    using l assms(3-6,10-12) by simp_all
qed

lemma split2_spec:
  assumes c: "consuming n a b X" and E: "\<not> in_parallel E"
    and sc: "s1a \<le> nlv (lvl n)" "s1b \<le> nlv (lvl n)" "s2 \<le> nlv (lvl n)"
    and r: "split2 E t1 s1a s1b t2 s2 n = (m, m1, m2, d1, d2)"
  shows "consuming m a b X" "copied n m t1 s1a s1b t2 s2 m1 m2 d1 d2"
    "\<And>P. all_queued n P \<Longrightarrow> all_queued m P"
proof -
  obtain na where A: "net_alloc E t1 s1a n = (na, m1)" using r by (auto simp: split2_def split: prod.splits)
  obtain nb where B: "net_alloc E t1 s1b na = (nb, m2)" using r A by (auto simp: split2_def split: prod.splits)
  obtain nc where C: "net_alloc E t2 s2 nb = (nc, d1)" using r A B by (auto simp: split2_def split: prod.splits)
  obtain nd where D: "net_alloc E t2 s2 nc = (nd, d2)" using r A B C by (auto simp: split2_def split: prod.splits)
  note a = consuming_alloc[OF c E sc(1) A]
  note b = consuming_alloc[OF a(2) E _ B, unfolded a(5), OF sc(2)]
  note c' = consuming_alloc[OF b(2) E _ C, unfolded b(5) a(5), OF sc(3)]
  note d = consuming_alloc[OF c'(2) E _ D, unfolded c'(5) b(5) a(5), OF sc(3)]
  have lv: "\<not> live n m1" "\<not> live na m2" "\<not> live nb d1" "\<not> live nc d2"
    "live na u \<longleftrightarrow> live n u \<or> u = m1" "live nb u \<longleftrightarrow> live na u \<or> u = m2"
    "live nc u \<longleftrightarrow> live nb u \<or> u = d1" "live nd u \<longleftrightarrow> live nc u \<or> u = d2" for u
    using a(1) b(1) c'(1) d(1) by (auto simp: fresh_node_def)
  have dist: "distinct [m1, m2, d1, d2]" using lv by auto
  have "lvl m = lvl n" if "m = nd" using that a(5) b(5) c'(5) d(5) by simp
  have free: "wire nd (Port v p) = NONE" if "v \<in> {m1, m2, d1, d2}" "p < 3" for v p
    using that dist a(1) b(1) c'(1) d(1) by (auto simp: fresh_node_def)
  have tags: "tag nd m1 = t1" "tag nd m2 = t1" "tag nd d1 = t2" "tag nd d2 = t2"
    "scope nd m1 = s1a" "scope nd m2 = s1b" "scope nd d1 = s2" "scope nd d2 = s2"
    using dist a(1) b(1) c'(1) d(1) by (auto simp: fresh_node_def)
  have old: "node q \<notin> {m1, m2, d1, d2} \<Longrightarrow> wire nd q = wire n q"
    "u \<notin> {m1, m2, d1, d2} \<Longrightarrow> tag nd u = tag n u \<and> scope nd u = scope n u" for q u
    using a(1) b(1) c'(1) d(1) by (auto simp: fresh_node_def)
  have oth: "lvl nd = lvl n" "root nd = root n" "pins nd = pins n" "steps nd = steps n" "nn nd \<le> nn n + 4"
    using a(1) b(1) c'(1) d(1) by (auto simp: fresh_node_def)
  have new: "live nd v \<and> v \<notin> {a, b} \<and> \<not> live n v \<and> 0 \<le> v" if "v \<in> {m1, m2, d1, d2}" for v
    using that lv a(1,3) b(1,3) c'(1,3) d(1,3) by (auto simp: fresh_node_def)
  have out: "m1 \<notin> {a, b}" "m2 \<notin> {a, b}" "d1 \<notin> {a, b}" "d2 \<notin> {a, b}"
    and lnd: "live nd m1" "live nd m2" "live nd d1" "live nd d2" using new by auto
  define n1 where "n1 = net_link E (Port d1 1) (Port m1 1) False nd"
  define n2 where "n2 = net_link E (Port d1 2) (Port m2 1) False n1"
  define n3 where "n3 = net_link E (Port d2 1) (Port m1 2) False n2"
  have mm: "m = net_link E (Port d2 2) (Port m2 2) False n3"
    using r A B C D by (simp add: split2_def n1_def n2_def n3_def)
  have num: "(1 :: nat) < 3" "(2 :: nat) < 3" "0 < (1 :: nat)" "0 < (2 :: nat)" by simp_all
  have ne: "d1 \<noteq> m1" "d1 \<noteq> m2" "d2 \<noteq> m1" "d2 \<noteq> m2" using dist by auto
  have f: "wire nd (Port d1 1) = NONE" "wire nd (Port m1 1) = NONE" "wire nd (Port d1 2) = NONE"
    "wire nd (Port m2 1) = NONE" "wire nd (Port d2 1) = NONE" "wire nd (Port m1 2) = NONE"
    "wire nd (Port d2 2) = NONE" "wire nd (Port m2 2) = NONE" by (simp_all add: free)
  note L1 = cross_link[OF d(2) E lnd(3) out(3) lnd(1) out(1) ne(1) f(1,2) num(1,1,3) n1_def]
  have f2: "wire n1 (Port d1 2) = NONE" "wire n1 (Port m2 1) = NONE" "wire n1 (Port d2 1) = NONE"
    "wire n1 (Port m1 2) = NONE" "wire n1 (Port d2 2) = NONE" "wire n1 (Port m2 2) = NONE"
    and lv1: "live n1 d1" "live n1 d2" "live n1 m1" "live n1 m2"
    using f lnd dist by (simp_all add: L1(2,4))
  note L2 = cross_link[OF L1(1) E lv1(1) out(3) lv1(4) out(2) ne(2) f2(1,2) num(2,1,4) n2_def]
  have f3: "wire n2 (Port d2 1) = NONE" "wire n2 (Port m1 2) = NONE" "wire n2 (Port d2 2) = NONE"
    "wire n2 (Port m2 2) = NONE" and lv2: "live n2 d1" "live n2 d2" "live n2 m1" "live n2 m2"
    using f2 lv1 dist by (simp_all add: L2(2,4))
  note L3 = cross_link[OF L2(1) E lv2(2) out(4) lv2(3) out(1) ne(3) f3(1,2) num(1,2,3) n3_def]
  have f4: "wire n3 (Port d2 2) = NONE" "wire n3 (Port m2 2) = NONE"
    and lv3: "live n3 d1" "live n3 d2" "live n3 m1" "live n3 m2"
    using f3 lv2 dist by (simp_all add: L3(2,4))
  note L4 = cross_link[OF L3(1) E lv3(2) out(4) lv3(4) out(2) ne(4) f4(1,2) num(2,2,4) mm]
  show "consuming m a b X" by (rule L4(1))
  show "all_queued n P \<Longrightarrow> all_queued m P" for P
    by (intro L4(5) L3(5) L2(5) L1(5) d(4) c'(4) b(4) a(4))
  have wm: "wire m = (wire nd)(Port d1 1 := Port m1 1, Port m1 1 := Port d1 1, Port d1 2 := Port m2 1,
      Port m2 1 := Port d1 2, Port d2 1 := Port m1 2, Port m1 2 := Port d2 1, Port d2 2 := Port m2 2,
      Port m2 2 := Port d2 2)"
    by (simp add: L4(2) L3(2) L2(2) L1(2))
  have mt: "meta nd m" by (intro meta_trans[OF L1(3)] meta_trans[OF L2(3)] meta_trans[OF L3(3)] L4(3))
  have lm: "live m u \<longleftrightarrow> live n u \<or> u \<in> {m1, m2, d1, d2}" for u
    by (simp add: L4(4) L3(4) L2(4) L1(4) lv)
  have W: "wire m (Port d1 1) = Port m1 1" "wire m (Port m1 1) = Port d1 1"
    "wire m (Port d1 2) = Port m2 1" "wire m (Port m2 1) = Port d1 2"
    "wire m (Port d2 1) = Port m1 2" "wire m (Port m1 2) = Port d2 1"
    "wire m (Port d2 2) = Port m2 2" "wire m (Port m2 2) = Port d2 2"
    using dist by (simp_all add: wm)
  have W0: "\<forall>v \<in> {m1, m2, d1, d2}. wire m (Port v 0) = NONE" by (simp add: wm free)
  have Wo: "wire m q = wire n q" if "node q \<notin> {m1, m2, d1, d2}" for q
  proof -
    have "wire m q = wire nd q" using that by (cases q) (simp add: wm)
    then show ?thesis using old(1)[OF that] by simp
  qed
  have T: "tag m = tag nd" by (simp add: L1(6) L2(6) L3(6) L4(6))
  have "\<forall>u. u \<notin> {m1, m2, d1, d2} \<longrightarrow> tag m u = tag n u \<and> scope m u = scope n u"
    using old(2) by (simp add: T metaD(2)[OF mt])
  moreover have "\<forall>v \<in> {m1, m2, d1, d2}. \<not> live n v \<and> 0 \<le> v" using new by blast
  ultimately show "copied n m t1 s1a s1b t2 s2 m1 m2 d1 d2"
    unfolding copied_def using dist lm W W0 Wo
    by (simp only: T tags oth metaD(1-6)[OF mt]) blast
qed


section \<open>Handing the auxiliaries to the copies\<close>

definition ax :: "int \<Rightarrow> int \<Rightarrow> nat \<Rightarrow> port" where
  "ax a b j = [Port a 1, Port a 2, Port b 1, Port b 2] ! j"

lemma ax_simps [simp]: "ax a b 0 = Port a 1" "ax a b (Suc 0) = Port a 2" "ax a b 2 = Port b 1"
  "ax a b 3 = Port b 2"
  by (simp_all add: ax_def numeral_eq_Suc)

lemma less_4: "j < 4 \<longleftrightarrow> j = 0 \<or> j = Suc 0 \<or> j = 2 \<or> j = (3 :: nat)"
  by auto

lemma ax_props:
  assumes "j < 4"
  shows "ax a b j \<in> aux_ports a b" "node (ax a b j) \<in> {a, b}" "0 < pno (ax a b j)" "pno (ax a b j) < 3"
  using assms by (auto simp: less_4 aux_ports_def)

lemma ax_inj: "a \<noteq> b \<Longrightarrow> i < 4 \<Longrightarrow> j < 4 \<Longrightarrow> ax a b i = ax a b j \<longleftrightarrow> i = j"
  by (auto simp: less_4)

lemma aux_index_ax:
  assumes "a \<noteq> b" "aux_index a b w = Some m" "0 < pno w" "pno w < 3"
  shows "m < 4" "w = ax a b m"
  using assms by (cases w; auto simp: aux_index_def less_4 split: if_splits)+

text \<open>What auxiliary \<open>j\<close>'s copy has become.\<close>

definition took_over :: "net \<Rightarrow> net \<Rightarrow> int \<Rightarrow> int \<Rightarrow> int list \<Rightarrow> nat \<Rightarrow> bool" where
  "took_over n m a b cp j \<longleftrightarrow>
     (case aux_index a b (wire n (ax a b j)) of
        Some i \<Rightarrow> wire m (Port (cp ! j) 0) = Port (cp ! i) 0
      | None \<Rightarrow> wire m (Port (cp ! j) 0) = wire n (ax a b j) \<and>
          (wire n (ax a b j) \<noteq> NONE \<longrightarrow> wire m (wire n (ax a b j)) = Port (cp ! j) 0))"

text \<open>
  The state of the hand-over: \<open>n\<close> is the net before the rule, \<open>n1\<close> the net with the copies, and the
  auxiliaries of \<open>S\<close> have been dealt with.
\<close>

definition handing :: "net \<Rightarrow> net \<Rightarrow> int \<Rightarrow> int \<Rightarrow> int list \<Rightarrow> net \<Rightarrow> nat set \<Rightarrow> bool" where
  "handing n n1 a b cp k S \<longleftrightarrow> consuming k a b (aux_ports a b - ax a b ` S) \<and> S \<subseteq> {..<4} \<and>
     meta n1 k \<and> tag k = tag n1 \<and> (\<forall>u. live k u = live n1 u) \<and>
     (\<forall>j < 4. j \<notin> S \<longrightarrow> wire k (Port (cp ! j) 0) = NONE) \<and>
     (\<forall>q. node q \<in> {a, b} \<longrightarrow> wire k q = wire n q) \<and>
     (\<forall>j \<in> S. took_over n k a b cp j) \<and>
     (\<forall>q. q \<notin> (\<lambda>j. Port (cp ! j) 0) ` S \<and> q \<notin> (\<lambda>j. wire n (ax a b j)) ` S \<longrightarrow> wire k q = wire n1 q)"

lemma handingD:
  assumes "handing n n1 a b cp k S"
  shows "consuming k a b (aux_ports a b - ax a b ` S)" "S \<subseteq> {..<4}" "meta n1 k" "tag k = tag n1"
    "live k u = live n1 u" "j < 4 \<Longrightarrow> j \<notin> S \<Longrightarrow> wire k (Port (cp ! j) 0) = NONE"
    "node q \<in> {a, b} \<Longrightarrow> wire k q = wire n q" "j \<in> S \<Longrightarrow> took_over n k a b cp j"
    "q \<notin> (\<lambda>j. Port (cp ! j) 0) ` S \<Longrightarrow> q \<notin> (\<lambda>j. wire n (ax a b j)) ` S \<Longrightarrow> wire k q = wire n1 q"
  using assms unfolding handing_def by blast+

text \<open>The pair at rest, its copies, and how the auxiliaries lead to each other or outside.\<close>

definition copy_ctx :: "net \<Rightarrow> net \<Rightarrow> int \<Rightarrow> int \<Rightarrow> int list \<Rightarrow> bool" where
  "copy_ctx n n1 a b cp \<longleftrightarrow> a \<noteq> b \<and> 0 \<le> a \<and> 0 \<le> b \<and> length cp = 4 \<and> distinct cp \<and>
     (\<forall>v \<in> set cp. \<not> live n v \<and> live n1 v \<and> v \<notin> {a, b} \<and> 0 \<le> v) \<and>
     (\<forall>j < 4. wire n (ax a b j) \<noteq> NONE \<longrightarrow>
        (case aux_index a b (wire n (ax a b j)) of
           Some i \<Rightarrow> i < 4 \<and> i \<noteq> j \<and> wire n (ax a b j) = ax a b i \<and> wire n (ax a b i) = ax a b j
         | None \<Rightarrow> live n (node (wire n (ax a b j))) \<and> node (wire n (ax a b j)) \<notin> {a, b} \<and>
             wire n (wire n (ax a b j)) = ax a b j))"

lemma copy_ctxD:
  assumes "copy_ctx n n1 a b cp"
  shows "a \<noteq> b" "0 \<le> a" "0 \<le> b" "j < 4 \<Longrightarrow> \<not> live n (cp ! j)" "j < 4 \<Longrightarrow> live n1 (cp ! j)"
    "j < 4 \<Longrightarrow> cp ! j \<notin> {a, b}" "j < 4 \<Longrightarrow> 0 \<le> cp ! j" "i < 4 \<Longrightarrow> j < 4 \<Longrightarrow> cp ! i = cp ! j \<longleftrightarrow> i = j"
  using assms by (auto simp: copy_ctx_def nth_eq_iff_index_eq)

lemma copy_ctx_wire:
  assumes "copy_ctx n n1 a b cp" "j < 4"
  shows "aux_index a b (wire n (ax a b j)) = Some i \<Longrightarrow> i < 4 \<and> i \<noteq> j \<and> wire n (ax a b j) = ax a b i \<and>
      wire n (ax a b i) = ax a b j \<and> aux_index a b (wire n (ax a b i)) = Some j"
    "aux_index a b (wire n (ax a b j)) = None \<Longrightarrow> wire n (ax a b j) \<noteq> NONE \<Longrightarrow>
      live n (node (wire n (ax a b j))) \<and> node (wire n (ax a b j)) \<notin> {a, b} \<and>
      wire n (wire n (ax a b j)) = ax a b j"
proof -
  have none: "aux_index a b NONE = None" using copy_ctxD(2,3)[OF assms(1)] by (auto simp: aux_index_def)
  have idx: "aux_index a b (ax a b j) = Some j"
    using assms(2) copy_ctxD(1)[OF assms(1)] by (auto simp: less_4 aux_index_def)
  show "aux_index a b (wire n (ax a b j)) = Some i \<Longrightarrow> i < 4 \<and> i \<noteq> j \<and> wire n (ax a b j) = ax a b i \<and>
      wire n (ax a b i) = ax a b j \<and> aux_index a b (wire n (ax a b i)) = Some j"
    using assms none idx by (cases "wire n (ax a b j) = NONE") (auto simp: copy_ctx_def)
  show "aux_index a b (wire n (ax a b j)) = None \<Longrightarrow> wire n (ax a b j) \<noteq> NONE \<Longrightarrow>
      live n (node (wire n (ax a b j))) \<and> node (wire n (ax a b j)) \<notin> {a, b} \<and>
      wire n (wire n (ax a b j)) = ax a b j"
    using assms by (auto simp: copy_ctx_def)
qed

text \<open>A result already reached survives a link elsewhere.\<close>

lemma took_over_keep:
  assumes "took_over n k a b cp j" "wire m (Port (cp ! j) 0) = wire k (Port (cp ! j) 0)"
    "wire n (ax a b j) \<noteq> NONE \<Longrightarrow> aux_index a b (wire n (ax a b j)) = None \<Longrightarrow>
       wire m (wire n (ax a b j)) = wire k (wire n (ax a b j))"
  shows "took_over n m a b cp j"
  using assms by (auto simp: took_over_def split: option.splits)


lemma handing_link:
  assumes h: "handing n n1 a b cp k S" and T: "T \<subseteq> {..<4}"
    and c: "consuming m a b (aux_ports a b - ax a b ` (S \<union> T))"
    and mt: "meta k m" "tag m = tag k" "\<And>u. live m u = live k u"
    and pq: "\<And>r. r \<noteq> p \<Longrightarrow> r \<noteq> q \<Longrightarrow> wire m r = wire k r"
    and out: "node p \<notin> {a, b}" "node q \<notin> {a, b}"
    and newp: "{p, q} \<subseteq> (\<lambda>j. Port (cp ! j) 0) ` T \<union> (\<lambda>j. wire n (ax a b j)) ` T"
    and fresh: "\<And>j. j < 4 \<Longrightarrow> j \<notin> S \<union> T \<Longrightarrow> Port (cp ! j) 0 \<notin> {p, q}"
    and old: "\<And>j. j \<in> S \<Longrightarrow> Port (cp ! j) 0 \<notin> {p, q} \<and>
      (wire n (ax a b j) \<noteq> NONE \<and> aux_index a b (wire n (ax a b j)) = None \<longrightarrow> wire n (ax a b j) \<notin> {p, q})"
    and new: "\<And>j. j \<in> T \<Longrightarrow> took_over n m a b cp j"
  shows "handing n n1 a b cp m (S \<union> T)"
  unfolding handing_def
proof (intro conjI allI impI ballI)
  note hd = handingD[OF h]
  show "S \<union> T \<subseteq> {..<4}" using hd(2) T by blast
  show "meta n1 m" by (rule meta_trans[OF hd(3) mt(1)])
  show "tag m = tag n1" by (simp add: mt(2) hd(4))
  show "live m u = live n1 u" for u by (simp add: mt(3) hd(5))
  show "wire m (Port (cp ! j) 0) = NONE" if "j < 4" "j \<notin> S \<union> T" for j
    using fresh[OF that] pq[of "Port (cp ! j) 0"] hd(6)[of j] that by auto
  show "wire m r = wire n r" if "node r \<in> {a, b}" for r
    using pq[of r] out that hd(7)[OF that] by auto
  show "took_over n m a b cp j" if "j \<in> S \<union> T" for j
  proof (cases "j \<in> T")
    case False
    then have j: "j \<in> S" using that by blast
    show ?thesis
      by (rule took_over_keep[OF hd(8)[OF j]]) (use old[OF j] pq in auto)
  qed (rule new)
  show "wire m r = wire n1 r" if r: "r \<notin> (\<lambda>j. Port (cp ! j) 0) ` (S \<union> T) \<and> r \<notin> (\<lambda>j. wire n (ax a b j)) ` (S \<union> T)" for r
  proof -
    have "r \<noteq> p" "r \<noteq> q" using r newp by auto
    then show ?thesis using pq hd(9)[of r] r by auto
  qed
qed (rule c)

lemma ax_drop:
  assumes "consuming k a b (aux_ports a b - ax a b ` S)" "j < 4" "j \<notin> S"
    "wire k (ax a b j) = NONE \<or> node (wire k (ax a b j)) \<in> {a, b}"
  shows "consuming k a b (aux_ports a b - ax a b ` insert j S)"
proof -
  have X: "aux_ports a b - ax a b ` insert j S = aux_ports a b - ax a b ` S - {ax a b j}" by auto
  show ?thesis
  proof (cases "ax a b j \<in> aux_ports a b - ax a b ` S")
    case True
    then show ?thesis using drop_port[OF consumingD(1)[OF assms(1)] True assms(4)] assms(1)
      unfolding X consuming_def by blast
  next
    case False
    then show ?thesis using assms(1) unfolding X by simp
  qed
qed

lemma step_joined:
  assumes ctx: "copy_ctx n n1 a b cp" and h: "handing n n1 a b cp k S" and E: "\<not> in_parallel E"
    and j: "j < 4" "j \<notin> S" and i: "i < 4" "i \<notin> S" and ij: "aux_index a b (wire n (ax a b j)) = Some i"
    and m: "m = net_link E (Port (cp ! j) 0) (Port (cp ! i) 0) True k"
  shows "handing n n1 a b cp m (S \<union> {j, i})" "\<And>P. all_queued k P \<Longrightarrow> all_queued m P"
proof -
  note C = copy_ctxD[OF ctx] and hd = handingD[OF h] and w = copy_ctx_wire(1)[OF ctx j(1) ij]
  let ?p = "Port (cp ! j) 0" and ?q = "Port (cp ! i) 0"
  have ne: "?p \<noteq> ?q" using C(8)[OF j(1) i(1)] w by simp
  have lv: "live k (cp ! j)" "live k (cp ! i)" using C(5) j(1) i(1) hd(5) by auto
  have pr: "live k (node ?p)" "node ?p \<notin> {a, b}" "pno ?p < 3" "live k (node ?q)" "node ?q \<notin> {a, b}" "pno ?q < 3"
    using lv C(6)[OF j(1)] C(6)[OF i(1)] by simp_all
  note L = consuming_link_free[OF hd(1) E pr(1-3) hd(6)[OF j] pr(4-6) hd(6)[OF i] ne disjI1[OF TrueI] m]
  show "\<And>P. all_queued k P \<Longrightarrow> all_queued m P" by (rule L(5))
  have axw: "wire m (ax a b x) = wire n (ax a b x)" if "x < 4" for x
  proof -
    have "ax a b x \<noteq> ?p" "ax a b x \<noteq> ?q" using ax_props(2)[OF that, of a b] C(6)[OF j(1)] C(6)[OF i(1)] by auto
    then show ?thesis using hd(7)[of "ax a b x"] ax_props(2)[OF that] by (simp add: L(2))
  qed
  have w2: "wire n (ax a b i) = ax a b j" "wire n (ax a b j) = ax a b i" using w by blast+
  have wij: "wire m (ax a b i) = ax a b j" "wire m (ax a b j) = ax a b i"
    by (rule trans[OF axw[OF i(1)] w2(1)], rule trans[OF axw[OF j(1)] w2(2)])
  have "node (wire m (ax a b i)) \<in> {a, b}" "node (wire m (ax a b j)) \<in> {a, b}"
    unfolding wij using ax_props(2)[OF j(1), of a b] ax_props(2)[OF i(1), of a b] by blast+
  note D = ax_drop[OF L(1) i disjI2[OF this(1)]] this(2)
  have "j \<notin> insert i S" using w j(2) by simp
  then have "consuming m a b (aux_ports a b - ax a b ` insert j (insert i S))"
    using ax_drop[OF D(1) j(1) _ disjI2[OF D(2)]] by blast
  moreover have "insert j (insert i S) = S \<union> {j, i}" by auto
  ultimately have c: "consuming m a b (aux_ports a b - ax a b ` (S \<union> {j, i}))" by (simp only:)
  show "handing n n1 a b cp m (S \<union> {j, i})"
  proof (rule handing_link[OF h _ c L(3,6,4)])
    show "{j, i} \<subseteq> {..<4}" using i j by simp
    show "r \<noteq> ?p \<Longrightarrow> r \<noteq> ?q \<Longrightarrow> wire m r = wire k r" for r by (simp add: L(2))
    show "node ?p \<notin> {a, b}" "node ?q \<notin> {a, b}" using C(6) i(1) j(1) by simp_all
    show "Port (cp ! x) 0 \<notin> {?p, ?q}" if "x < 4" "x \<notin> S \<union> {j, i}" for x
      using C(8) that i(1) j(1) by auto
    show "Port (cp ! x) 0 \<notin> {?p, ?q} \<and> (wire n (ax a b x) \<noteq> NONE \<and>
        aux_index a b (wire n (ax a b x)) = None \<longrightarrow> wire n (ax a b x) \<notin> {?p, ?q})" if x: "x \<in> S" for x
    proof -
      have x4: "x < 4" using x hd(2) by auto
      have "x \<noteq> j" "x \<noteq> i" using x i(2) j(2) by auto
      then show ?thesis using C(8)[OF x4] i(1) j(1) copy_ctx_wire(2)[OF ctx x4] C(4) by auto
    qed
    show "took_over n m a b cp x" if "x \<in> {j, i}" for x
      using that ij w ne by (auto simp: took_over_def L(2))
  qed auto
qed

lemma step_outside:
  assumes ctx: "copy_ctx n n1 a b cp" and h: "handing n n1 a b cp k S" and E: "\<not> in_parallel E"
    and j: "j < 4" "j \<notin> S" and ij: "aux_index a b (wire n (ax a b j)) = None"
    and m: "m = net_link E (Port (cp ! j) 0) (wire n (ax a b j)) True k"
  shows "handing n n1 a b cp m (S \<union> {j})" "\<And>P. all_queued k P \<Longrightarrow> all_queued m P"
proof -
  note C = copy_ctxD[OF ctx] and hd = handingD[OF h]
  let ?p = "Port (cp ! j) 0" and ?x = "ax a b j"
  let ?e = "wire n ?x"
  have kx: "wire k ?x = ?e" using hd(7) ax_props(2)[OF j(1)] by simp
  have "handing n n1 a b cp m (S \<union> {j}) \<and> (\<forall>P. all_queued k P \<longrightarrow> all_queued m P)"
  proof (cases "?e = NONE")
    case True
    then have mk: "m = k" by (simp add: m net_link_def)
    have c: "consuming m a b (aux_ports a b - ax a b ` (S \<union> {j}))"
      using ax_drop[OF hd(1) j] True kx by (simp add: mk)
    have "took_over n k a b cp j" using hd(6)[OF j] True ij by (simp add: took_over_def)
    then have "handing n n1 a b cp m (S \<union> {j})"
      using h c j unfolding mk handing_def by auto
    then show ?thesis using mk by simp
  next
    case False
    note w = copy_ctx_wire(2)[OF ctx j(1) ij False]
    have xX: "?x \<in> aux_ports a b - ax a b ` S"
      using ax_props(1)[OF j(1)] ax_inj[OF C(1)] j hd(2) by auto
    have le: "loose k {a, b} (aux_ports a b - ax a b ` S) ?e" "wire k ?e = ?x"
      using loose_end[OF pair_invD(2)[OF consumingD(1)[OF hd(1)]] xX] kx False w by auto
    have lp: "loose k {a, b} (aux_ports a b - ax a b ` S) ?p"
      using C(5,6)[OF j(1)] hd(5) hd(6)[OF j] by (auto simp: loose_def standing_def)
    have ne: "?p \<noteq> ?e" using w C(4)[OF j(1)] by (metis port.sel(1))
    note L = link_inv[OF consumingD(1)[OF hd(1)] lp le(1) ne E m]
    have X: "aux_ports a b - ax a b ` S - {wire k ?p, wire k ?e} = aux_ports a b - ax a b ` (S \<union> {j})"
    proof -
      have "NONE \<notin> aux_ports a b" using C(2,3) by (auto simp: aux_ports_def)
      then show ?thesis using hd(6)[OF j] le(2) by auto
    qed
    have far: "Port v 0 \<noteq> ?p \<and> Port v 0 \<noteq> ?e" if "v \<in> {a, b}" for v
      using that w C(6)[OF j(1)] by (metis port.sel(1))
    have c: "consuming m a b (aux_ports a b - ax a b ` (S \<union> {j}))"
      using L(1,6) L(4)[of "Port a 0"] L(4)[of "Port b 0"] far hd(1) X
      by (simp add: consuming_def redex_live_def)
    have far2: "Port (cp ! x) 0 \<noteq> ?e" if "x < 4" for x using w C(4)[OF that] by (metis port.sel(1))
    have tg: "tag m = tag k"
      using m E C(7)[OF j(1)] live_nonneg[of n "node ?e"] w by (simp add: net_link_seq)
    have "handing n n1 a b cp m (S \<union> {j})"
    proof (rule handing_link[OF h _ c L(7) tg L(6) L(4)])
      show "{j} \<subseteq> {..<4}" using j by simp
      show "node ?p \<notin> {a, b}" "node ?e \<notin> {a, b}" using C(6)[OF j(1)] w by simp_all
      show "Port (cp ! x) 0 \<notin> {?p, ?e}" if "x < 4" "x \<notin> S \<union> {j}" for x
        using C(8)[OF that(1) j(1)] far2[OF that(1)] that by auto
      show "Port (cp ! x) 0 \<notin> {?p, ?e} \<and> (wire n (ax a b x) \<noteq> NONE \<and>
          aux_index a b (wire n (ax a b x)) = None \<longrightarrow> wire n (ax a b x) \<notin> {?p, ?e})" if x: "x \<in> S" for x
      proof -
        have x4: "x < 4" "x \<noteq> j" using x hd(2) j(2) by auto
        have "wire n (ax a b x) \<noteq> NONE \<Longrightarrow> aux_index a b (wire n (ax a b x)) = None \<Longrightarrow> wire n (ax a b x) \<noteq> ?e"
          using copy_ctx_wire(2)[OF ctx x4(1)] w ax_inj[OF C(1) x4(1) j(1)] x4(2) by auto
        moreover have "Port (cp ! x) 0 \<notin> {?p, ?e}"
          using C(8)[OF x4(1) j(1)] far2[OF x4(1)] x4 by auto
        moreover have "wire n (ax a b x) \<noteq> NONE \<Longrightarrow> aux_index a b (wire n (ax a b x)) = None \<Longrightarrow>
            wire n (ax a b x) \<noteq> ?p"
          using copy_ctx_wire(2)[OF ctx x4(1)] C(4)[OF j(1)] by auto
        ultimately show ?thesis by auto
      qed
      show "took_over n m a b cp x" if "x \<in> {j}" for x
        using that ij L(2,3) by (simp add: took_over_def)
    qed auto
    then show ?thesis using L(5) by auto
  qed
  then show "handing n n1 a b cp m (S \<union> {j})" "\<And>P. all_queued k P \<Longrightarrow> all_queued m P" by blast+
qed


text \<open>The two loops of \<open>link_copies\<close>.\<close>

definition inside_loop :: "net \<Rightarrow> net \<Rightarrow> int \<Rightarrow> int \<Rightarrow> int list \<Rightarrow> nat \<Rightarrow> nat set \<Rightarrow> net \<Rightarrow> bool" where
  "inside_loop n n1 a b cp j S k \<longleftrightarrow> handing n n1 a b cp k S \<and>
     (\<forall>x < 4. \<forall>y. aux_index a b (wire n (ax a b x)) = Some y \<longrightarrow> (x \<in> S \<longleftrightarrow> y \<in> S)) \<and>
     (\<forall>x < j. aux_index a b (wire n (ax a b x)) \<noteq> None \<longrightarrow> x \<in> S) \<and>
     (\<forall>x \<in> S. aux_index a b (wire n (ax a b x)) \<noteq> None) \<and>
     (\<forall>P. all_queued n1 P \<longrightarrow> all_queued k P)"

lemma join_copy_inv:
  assumes ctx: "copy_ctx n n1 a b cp" and E: "\<not> in_parallel E"
    and h: "inside_loop n n1 a b cp j S k" and j: "j < 4"
    and t: "t ! j = wire n (ax a b j)" and r: "join_copy E a b t cp j (S, k) = (S', k')"
  shows "inside_loop n n1 a b cp (Suc j) S' k'"
proof -
  let ?f = "\<lambda>x. aux_index a b (wire n (ax a b x))"
  have hk: "handing n n1 a b cp k S" and closed: "\<And>x y. x < 4 \<Longrightarrow> ?f x = Some y \<Longrightarrow> x \<in> S \<longleftrightarrow> y \<in> S"
    and before: "\<And>x. x < j \<Longrightarrow> ?f x \<noteq> None \<Longrightarrow> x \<in> S" and only: "\<And>x. x \<in> S \<Longrightarrow> ?f x \<noteq> None"
    and aq: "\<And>P. all_queued n1 P \<Longrightarrow> all_queued k P"
    using h unfolding inside_loop_def by blast+
  show ?thesis
  proof (cases "\<exists>i. ?f j = Some i \<and> j < i \<and> j \<notin> S")
    case True
    then obtain i where i: "?f j = Some i" "j < i" "j \<notin> S" by blast
    note w = copy_ctx_wire(1)[OF ctx j i(1)]
    have S': "S' = S \<union> {j, i}" "k' = net_link E (Port (cp ! j) 0) (Port (cp ! i) 0) True k"
      using r i t by (auto simp: join_copy_def)
    have iS: "i < 4" "i \<notin> S" using w closed[OF j i(1)] i(3) by auto
    have wi: "?f i = Some j" using w by blast
    note st = step_joined[OF ctx hk E j i(3) iS i(1) S'(2), folded S'(1)]
    have "x \<in> S' \<longleftrightarrow> y \<in> S'" if "x < 4" "?f x = Some y" for x y
    proof -
      have "?f y = Some x" using copy_ctx_wire(1)[OF ctx that] by blast
      then have "x = j \<longleftrightarrow> y = i" "x = i \<longleftrightarrow> y = j" using that i(1) wi by auto
      then show ?thesis using closed[OF that] S'(1) by auto
    qed
    moreover have "\<forall>x < Suc j. ?f x \<noteq> None \<longrightarrow> x \<in> S'" using before S'(1) by (auto simp: less_Suc_eq)
    moreover have "\<forall>x \<in> S'. ?f x \<noteq> None" using only S'(1) i(1) wi by auto
    ultimately show ?thesis using st aq unfolding inside_loop_def by blast
  next
    case False
    have same: "S' = S" "k' = k"
      using r t False by (auto simp: join_copy_def split: option.splits if_splits)
    have jS: "j \<in> S" if ne: "?f j \<noteq> None"
    proof -
      obtain i where i: "?f j = Some i" using ne by blast
      note w = copy_ctx_wire(1)[OF ctx j i]
      have "i < j \<Longrightarrow> i \<in> S" using before w by blast
      then show ?thesis using False i w closed[OF j i] by (cases "j < i") auto
    qed
    have "x \<in> S" if "x < Suc j" "?f x \<noteq> None" for x
      using that before jS unfolding less_Suc_eq by blast
    then show ?thesis using h unfolding inside_loop_def same by blast
  qed
qed

lemma outside_copy_inv:
  assumes ctx: "copy_ctx n n1 a b cp" and E: "\<not> in_parallel E"
    and h: "handing n n1 a b cp k (S \<union> {..<j}) \<and> (\<forall>P. all_queued n1 P \<longrightarrow> all_queued k P)" and j: "j < 4"
    and S: "\<forall>x < 4. x \<in> S \<longleftrightarrow> aux_index a b (wire n (ax a b x)) \<noteq> None"
    and k': "k' = (if j \<in> S then k else net_link E (Port (cp ! j) 0) (wire n (ax a b j)) True k)"
  shows "handing n n1 a b cp k' (S \<union> {..<Suc j}) \<and> (\<forall>P. all_queued n1 P \<longrightarrow> all_queued k' P)"
proof (cases "j \<in> S")
  case True
  then have "S \<union> {..<Suc j} = S \<union> {..<j}" unfolding lessThan_Suc by blast
  then show ?thesis using h k' True by simp
next
  case False
  have e: "S \<union> {..<Suc j} = (S \<union> {..<j}) \<union> {j}" by auto
  have h': "handing n n1 a b cp k (S \<union> {..<j})" using h by blast
  have f: "j \<notin> S \<union> {..<j}" "aux_index a b (wire n (ax a b j)) = None"
    "k' = net_link E (Port (cp ! j) 0) (wire n (ax a b j)) True k" using False S j k' by auto
  show ?thesis unfolding e using step_outside[OF ctx h' E j f] h by blast
qed

lemma link_copies_spec:
  assumes ctx: "copy_ctx n n1 a b cp" and E: "\<not> in_parallel E" and h: "handing n n1 a b cp n1 {}"
    and m: "m = link_copies E a b (aux_wires n a b) cp n1"
  shows "handing n n1 a b cp m {..<4} \<and> (\<forall>P. all_queued n1 P \<longrightarrow> all_queued m P)"
proof -
  let ?t = "aux_wires n a b" and ?f = "\<lambda>x. aux_index a b (wire n (ax a b x))"
  have t: "?t ! 0 = wire n (ax a b 0)" "?t ! 1 = wire n (ax a b 1)" "?t ! 2 = wire n (ax a b 2)"
    "?t ! 3 = wire n (ax a b 3)" by (simp_all add: aux_wires_def numeral_eq_Suc ax_def)
  obtain S1 k1 where 1: "join_copy E a b ?t cp 0 ({}, n1) = (S1, k1)" by fastforce
  obtain S2 k2 where 2: "join_copy E a b ?t cp 1 (S1, k1) = (S2, k2)" by fastforce
  obtain S3 k3 where 3: "join_copy E a b ?t cp 2 (S2, k2) = (S3, k3)" by fastforce
  obtain S k where 4: "join_copy E a b ?t cp 3 (S3, k3) = (S, k)" by fastforce
  have lt: "0 < (4 :: nat)" "1 < (4 :: nat)" "2 < (4 :: nat)" "3 < (4 :: nat)" by simp_all
  have suc: "Suc 0 = 1" "Suc 1 = 2" "Suc 2 = 3" "Suc 3 = 4" by simp_all
  have I0: "inside_loop n n1 a b cp 0 {} n1" using h by (simp add: inside_loop_def)
  note I1 = join_copy_inv[OF ctx E I0 lt(1) t(1) 1, unfolded suc]
  note I2 = join_copy_inv[OF ctx E I1 lt(2) t(2) 2, unfolded suc]
  note I3 = join_copy_inv[OF ctx E I2 lt(3) t(3) 3, unfolded suc]
  note I4 = join_copy_inv[OF ctx E I3 lt(4) t(4) 4, unfolded suc]
  have S: "\<forall>x < 4. x \<in> S \<longleftrightarrow> ?f x \<noteq> None" using I4 unfolding inside_loop_def by blast
  let ?step = "\<lambda>j m. if j \<in> S then m else net_link E (Port (cp ! j) 0) (wire n (ax a b j)) True m"
  have "fold (join_copy E a b ?t cp) [0, 1, 2, 3] ({}, n1) = (S, k)" using 1 2 3 4 by simp
  then have m': "m = ?step 3 (?step 2 (?step 1 (?step 0 k)))"
    using m t by (simp add: link_copies_def)
  have O0: "handing n n1 a b cp k (S \<union> {..<0}) \<and> (\<forall>P. all_queued n1 P \<longrightarrow> all_queued k P)"
    using I4 by (simp add: inside_loop_def)
  note O1 = outside_copy_inv[OF ctx E O0 lt(1) S refl, unfolded suc]
  note O2 = outside_copy_inv[OF ctx E O1 lt(2) S refl, unfolded suc]
  note O3 = outside_copy_inv[OF ctx E O2 lt(3) S refl, unfolded suc]
  note O4 = outside_copy_inv[OF ctx E O3 lt(4) S refl, unfolded suc]
  have "S \<subseteq> {..<4}" using I4 handingD(2) unfolding inside_loop_def by blast
  then have "S \<union> {..<4} = {..<4}" by auto
  then show ?thesis using O4 unfolding m' by simp
qed

end
