(* ===== verification/Rules.thy ===== *)
theory Rules
  imports Duplicate
begin

text \<open>
  Correctness of the interaction rules (\<open>net_interact\<close>): each rule consumes exactly the pair it is
  given, hands the pair's outside connections over as the calculus prescribes, preserves the invariant
  of the net and leaves no new redex unqueued.
\<close>

section \<open>Duplication\<close>

lemma copy_ctx_start:
  assumes ok: "net_ok n" and r: "redex_live n (Port a 0) (Port b 0)"
    and cp: "copied n n1 t1 s1a s1b t2 s2 m1 m2 d1 d2" and c1: "consuming n1 a b (aux_ports a b)"
  shows "copy_ctx n n1 a b [d1, d2, m1, m2]" "handing n n1 a b [d1, d2, m1, m2] n1 {}"
proof -
  note c = consumingD[OF consuming_start[OF ok r]]
  have w: "wired n {} {}" using ok by (simp add: net_ok_def)
  note cpD = copiedD[OF cp]
  have new: "\<not> live n v" "0 \<le> v" "live n1 v" if "v \<in> {m1, m2, d1, d2}" for v
    using that cpD(2,3) cpD(4)[of v] by blast+
  have nab: "v \<notin> {a, b}" if "v \<in> {m1, m2, d1, d2}" for v using new(1)[OF that] c(4,5) by auto
  have st: "standing n {} (ax a b j)" if "j < 4" for j
    using ax_props[OF that, of a b] c(4,5) by (auto simp: standing_def)
  have "case aux_index a b (wire n (ax a b j)) of
           Some i \<Rightarrow> i < 4 \<and> i \<noteq> j \<and> wire n (ax a b j) = ax a b i \<and> wire n (ax a b i) = ax a b j
         | None \<Rightarrow> live n (node (wire n (ax a b j))) \<and> node (wire n (ax a b j)) \<notin> {a, b} \<and>
             wire n (wire n (ax a b j)) = ax a b j"
    if j: "j < 4" and ne: "wire n (ax a b j) \<noteq> NONE" for j
  proof -
    let ?w = "wire n (ax a b j)"
    note wb = wired_back[OF w st[OF j] ne]
    have p0: "pno ?w \<noteq> 0" if "node ?w \<in> {a, b}"
    proof
      assume "pno ?w = 0"
      then have "?w = Port a 0 \<or> ?w = Port b 0" using that by (cases ?w) auto
      then have "ax a b j = Port a 0 \<or> ax a b j = Port b 0" using wb(2) c(6,7) by auto
      then show False using ax_props(3)[OF j, of a b] by auto
    qed
    show ?thesis
    proof (cases "aux_index a b ?w")
      case None
      then show ?thesis using wb by (auto simp: aux_index_def standing_def split: if_splits)
    next
      case (Some i)
      then have "node ?w \<in> {a, b}" by (auto simp: aux_index_def split: if_splits)
      then have "0 < pno ?w" "pno ?w < 3" using p0 wb(1) by (auto simp: standing_def)
      note ai = aux_index_ax[OF c(3) Some this]
      then show ?thesis using Some wb(2,3) by auto
    qed
  qed
  moreover have "distinct [d1, d2, m1, m2]" using cpD(1) by auto
  ultimately show "copy_ctx n n1 a b [d1, d2, m1, m2]"
    using new nab c(3,8,9) by (auto simp: copy_ctx_def)
  have "wire n1 (Port ([d1, d2, m1, m2] ! j) 0) = NONE" if "j < 4" for j
  proof (rule cpD(6))
    show "[d1, d2, m1, m2] ! j \<in> {m1, m2, d1, d2}" using nth_mem[of j "[d1, d2, m1, m2]"] that by auto
  qed
  moreover have "wire n1 q = wire n q" if "node q \<in> {a, b}" for q
  proof -
    have "node q \<notin> {m1, m2, d1, d2}" using that nab by blast
    then show ?thesis by (rule cpD(5))
  qed
  ultimately show "handing n n1 a b [d1, d2, m1, m2] n1 {}"
    using c1 by (auto simp: handing_def)
qed

lemma duplicate_spec:
  assumes ok: "net_ok n" and r: "redex_live n (Port a 0) (Port b 0)" and E: "\<not> in_parallel E"
    and sc: "s1a \<le> nlv (lvl n)" "s1b \<le> nlv (lvl n)" "s2 \<le> nlv (lvl n)"
    and m: "m = duplicate E a b t1 s1a s1b t2 s2 (aux_wires n a b) n"
  shows "net_ok m" "\<And>P. all_queued n P \<Longrightarrow> all_queued m P"
    "\<exists>n1 k m1 m2 d1 d2. copied n n1 t1 s1a s1b t2 s2 m1 m2 d1 d2 \<and>
       copy_ctx n n1 a b [d1, d2, m1, m2] \<and> handing n n1 a b [d1, d2, m1, m2] k {..<4} \<and> retired k m a b"
proof -
  obtain n1 m1 m2 d1 d2 where s: "split2 E t1 s1a s1b t2 s2 n = (n1, m1, m2, d1, d2)"
    by (metis prod_cases5)
  note sp = split2_spec[OF consuming_start[OF ok r] E sc s]
  note ctx = copy_ctx_start[OF ok r sp(2,1)]
  define k where "k = link_copies E a b (aux_wires n a b) [d1, d2, m1, m2] n1"
  note lc = link_copies_spec[OF ctx(1) E ctx(2) k_def]
  have m': "m = retire E a b k" using m s by (simp add: duplicate_def k_def)
  have "aux_ports a b - ax a b ` {..<4} = {}"
  proof -
    have "{..<4} = {0, Suc 0, 2, 3}" by auto
    then have "ax a b ` {..<4} = aux_ports a b" by (simp add: aux_ports_def)
    then show ?thesis by simp
  qed
  then have c: "consuming k a b {}" using lc handingD(1)[of n n1 a b _ k "{..<4}"] by metis
  note rt = retire_spec[OF c E m']
  show "net_ok m" by (rule rt(1))
  show "all_queued m P" if "all_queued n P" for P using rt(3) lc sp(3)[OF that] by blast
  show "\<exists>n1 k m1 m2 d1 d2. copied n n1 t1 s1a s1b t2 s2 m1 m2 d1 d2 \<and>
       copy_ctx n n1 a b [d1, d2, m1, m2] \<and> handing n n1 a b [d1, d2, m1, m2] k {..<4} \<and> retired k m a b"
    using sp(2) ctx(1) lc rt(2) by blast
qed

text \<open>Growing the level trie does not disturb the net.\<close>

lemma net_ok_lvl:
  assumes ok: "net_ok n" and wf: "lv_wf L" and ext: "lv_ext (lvl n) L"
  shows "net_ok (n\<lparr>lvl := L\<rparr>)" "all_queued n P \<Longrightarrow> all_queued (n\<lparr>lvl := L\<rparr>) P"
    "redex_live (n\<lparr>lvl := L\<rparr>) p q = redex_live n p q"
proof -
  let ?m = "n\<lparr>lvl := L\<rparr>"
  have lv: "live ?m v = live n v" "in_net ?m v = in_net n v" for v by (simp_all add: live_def in_net_def)
  have w: "wire ?m = wire n" by simp
  note sv = same_view[OF w lv(1)]
  have "nlv (lvl n) \<le> nlv L" by (rule lv_ext_nlv[OF ext])
  then have "levels_ok ?m" using ok wf by (auto simp: net_ok_def levels_ok_def lv intro: order_trans)
  moreover have "queue_live ?m" using ok by (simp add: net_ok_def queue_live_def sv)
  ultimately show "net_ok ?m"
    using ok by (auto simp: net_ok_def sv queue_ok_def slots_ok_def room_ok_def lv)
  show "all_queued n P \<Longrightarrow> all_queued ?m P" by (simp add: all_queued_def sv)
  show "redex_live ?m p q = redex_live n p q" by (rule sv(5))
qed


section \<open>The rules, one by one\<close>

lemma retiredD:
  assumes "retired n m a b"
  shows "lvl m = lvl n" "scope m = scope n" "pins m = pins n" "steps m = steps n" "nn m = nn n"
    "\<not> live m a" "\<not> live m b" "live m u \<Longrightarrow> live n u" "live m u \<Longrightarrow> tag m u = tag n u"
    "standing m {} q \<Longrightarrow> wire m q = wire n q"
    "standing n {a, b} q \<Longrightarrow> wire n q \<noteq> NONE \<Longrightarrow> standing m {} q"
    "root m = filter (\<lambda>r. node r \<noteq> a \<and> node r \<noteq> b) (root n)"
  using assms unfolding retired_def by blast+

lemma handover_retired:
  assumes h: "handover n k x y" and r: "retired k m a b"
    and e: "wire n x \<noteq> NONE \<Longrightarrow> node (wire n x) \<notin> {a, b} \<and> pno (wire n x) < 3"
  shows "handover n m x y"
proof (cases "wire n x = NONE")
  case False
  let ?e = "wire n x"
  note rd = retiredD[OF r] and e = e[OF False]
  show ?thesis
  proof (cases "wire n y = NONE")
    case True
    have "live m (node ?e) \<Longrightarrow> wire m ?e = NONE"
      using h True False rd(8)[of "node ?e"] rd(10)[of ?e] e by (auto simp: handover_def standing_def)
    then show ?thesis using True by (simp add: handover_def)
  next
    case F: False
    then have k: "live k (node ?e)" "wire k ?e = wire n y" using h False by (simp_all add: handover_def)
    then have "standing k {a, b} ?e" using e by (simp add: standing_def)
    then have "standing m {} ?e" using rd(11) k(2) F by simp
    then show ?thesis using rd(10)[of ?e] k(2) F by (simp add: handover_def standing_def)
  qed
qed (simp add: handover_def)

text \<open>A rule that rewires a boundary: what it hands over, and what it leaves alone.\<close>

definition rewires :: "net \<Rightarrow> net \<Rightarrow> int \<Rightarrow> int \<Rightarrow> (nat \<times> nat) list \<Rightarrow> bool" where
  "rewires n m a b cor \<longleftrightarrow>
     (\<forall>i \<in> leaving n a b. handover n m (pport a b i) (pport a b (exit_of (inside_map n a b) cor i))) \<and>
     (\<forall>q. standing m {} q \<and> (\<forall>i \<in> leaving n a b. q \<noteq> wire n (pport a b i)) \<longrightarrow> wire m q = wire n q) \<and>
     \<not> live m a \<and> \<not> live m b \<and> (\<forall>u. live m u \<longrightarrow> live n u \<and> tag m u = tag n u \<and> scope m u = scope n u) \<and>
     (\<forall>u. live n u \<and> u \<noteq> a \<and> u \<noteq> b \<and> \<not> live m u \<longrightarrow>
        (\<forall>p < 3. wire n (Port u p) = NONE \<or> node (wire n (Port u p)) \<in> {a, b}))"

lemma boundary_rule:
  assumes ok: "net_ok n" and r: "redex_live n (Port a 0) (Port b 0)" and E: "\<not> in_parallel E"
    and cor: "cor = cor_beta \<or> cor = cor_delta"
    and m: "m = retire E a b (pair_boundary E a b cor True n)"
  shows "net_ok m" "rewires n m a b cor" "\<And>P. all_queued n P \<Longrightarrow> all_queued m P"
    "nn m = nn n" "steps m = steps n"
proof -
  define k where "k = pair_boundary E a b cor True n"
  note b = boundary_spec[OF ok r E cor k_def] and out = pair_matching(2)[OF ok r, folded leaving_def]
  have m': "m = retire E a b k" by (simp add: m k_def)
  note rt = retire_spec[OF b(1) E m']
  note rd = retiredD[OF rt(2)] and rw = rewiredD[OF b(2)] and mt = metaD[OF rewiredD(1)[OF b(2)]]
  show "net_ok m" by (rule rt(1))
  show "nn m = nn n" "steps m = steps n" using rd(4,5) mt(5,6) by simp_all
  show "all_queued m P" if "all_queued n P" for P by (rule rt(3)[OF b(4)[OF that]])
  have ends: "i \<in> leaving n a b \<Longrightarrow> wire n (pport a b i) \<noteq> NONE \<Longrightarrow>
      node (wire n (pport a b i)) \<notin> {a, b} \<and> pno (wire n (pport a b i)) < 3" for i
    using outsideD(4,6)[OF out] by blast
  have "\<forall>i \<in> leaving n a b. handover n m (pport a b i) (pport a b (exit_of (inside_map n a b) cor i))"
    using handover_retired[OF b(3) rt(2) ends] by blast
  moreover have "wire m q = wire n q"
    if q: "standing m {} q" "\<forall>i \<in> leaving n a b. q \<noteq> wire n (pport a b i)" for q
  proof -
    have "standing k {} q" using rd(8) q(1) by (auto simp: standing_def)
    moreover have "node q \<notin> {a, b}" using q(1) rd(6,7) by (auto simp: standing_def)
    then have "q \<notin> pport a b ` leaving n a b" using pport_simps(7)[of a b] by blast
    moreover have "q \<notin> wire n ` pport a b ` leaving n a b" using q(2) by blast
    ultimately show ?thesis using rw(2) rd(10)[OF q(1)] by simp
  qed
  moreover have "live n u \<and> tag m u = tag n u \<and> scope m u = scope n u" if "live m u" for u
    using that rd(2,8,9) mt(2,8,9) by simp
  moreover have "wire n (Port u p) = NONE \<or> node (wire n (Port u p)) \<in> {a, b}"
    if u: "live n u" "u \<noteq> a" "u \<noteq> b" "\<not> live m u" and p: "p < 3" for u p
  proof (cases "live k u")
    case False
    then show ?thesis using rw(3)[OF u(1) False p] pport_simps(7)[of a b] by force
  next
    case True
    have s: "standing k {a, b} (Port u p)" "standing k {} (Port u p)" using True u p by (auto simp: standing_def)
    have kn: "wire k (Port u p) = NONE" using rd(11)[OF s(1)] u(4) by (auto simp: standing_def)
    show ?thesis
    proof (cases "Port u p \<in> wire n ` pport a b ` leaving n a b")
      case True
      then obtain i where i: "i \<in> leaving n a b" "Port u p = wire n (pport a b i)" by blast
      have "u \<noteq> - 1" using live_nonneg[OF u(1)] by simp
      then have "wire n (pport a b i) \<noteq> NONE" unfolding i(2)[symmetric] by simp
      then have "wire n (Port u p) = pport a b i" using outsideD(5)[OF out] i by auto
      then show ?thesis using pport_simps(7)[of a b i] by simp
    next
      case False
      have "Port u p \<notin> pport a b ` leaving n a b"
      proof
        assume "Port u p \<in> pport a b ` leaving n a b"
        then obtain i where "Port u p = pport a b i" by blast
        then have "u \<in> {a, b}" using pport_simps(7)[of a b i] by (metis port.sel(1))
        then show False using u(2,3) by blast
      qed
      then show ?thesis using rw(2)[OF s(2) _ False] kn by simp
    qed
  qed
  ultimately show "rewires n m a b cor" unfolding rewires_def using rd(6,7) by blast
qed

text \<open>The four copies of a duplication, in the net the rule leaves.\<close>

definition commuted :: "net \<Rightarrow> net \<Rightarrow> int \<Rightarrow> int \<Rightarrow> int \<Rightarrow> int \<Rightarrow> int \<Rightarrow> int \<Rightarrow> bool" where
  "commuted n m a b m1 m2 d1 d2 \<longleftrightarrow>
     distinct [m1, m2, d1, d2] \<and> (\<forall>v \<in> {m1, m2, d1, d2}. \<not> live n v \<and> live m v) \<and>
     tag m m1 = tag n a \<and> tag m m2 = tag n a \<and> tag m d1 = tag n b \<and> tag m d2 = tag n b \<and>
     wire m (Port d1 1) = Port m1 1 \<and> wire m (Port d1 2) = Port m2 1 \<and>
     wire m (Port d2 1) = Port m1 2 \<and> wire m (Port d2 2) = Port m2 2 \<and>
     (\<forall>j < 4. took_over n m a b [d1, d2, m1, m2] j) \<and>
     \<not> live m a \<and> \<not> live m b \<and>
     (\<forall>u. live m u \<and> u \<notin> {m1, m2, d1, d2} \<longrightarrow> live n u \<and> tag m u = tag n u \<and> scope m u = scope n u) \<and>
     (\<forall>q. standing n {a, b} q \<and> wire n q \<noteq> NONE \<longrightarrow> live m (node q)) \<and>
     (\<forall>q. standing m {} q \<and> node q \<notin> {m1, m2, d1, d2} \<and> (\<forall>j < 4. q \<noteq> wire n (ax a b j)) \<longrightarrow>
        wire m q = wire n q)"

lemma duplicate_rule:
  assumes ok: "net_ok n" and r: "redex_live n (Port a 0) (Port b 0)" and E: "\<not> in_parallel E"
    and sc: "s1a \<le> nlv (lvl n)" "s1b \<le> nlv (lvl n)"
    and m: "m = duplicate E a b (tag n a) s1a s1b (tag n b) (scope n b) (aux_wires n a b) n"
  shows "net_ok m" "\<And>P. all_queued n P \<Longrightarrow> all_queued m P"
    "\<exists>m1 m2 d1 d2. commuted n m a b m1 m2 d1 d2 \<and> scope m m1 = s1a \<and> scope m m2 = s1b \<and>
       scope m d1 = scope n b \<and> scope m d2 = scope n b"
    "nn m \<le> nn n + 4" "steps m = steps n" "lvl m = lvl n"
proof -
  have lb: "live n b" using r by (simp add: redex_live_def)
  then have s2: "scope n b \<le> nlv (lvl n)" using ok by (simp add: net_ok_def levels_ok_def)
  note d = duplicate_spec[OF ok r E sc s2 m]
  show "net_ok m" "\<And>P. all_queued n P \<Longrightarrow> all_queued m P" by (rule d(1), rule d(2))
  obtain n1 k m1 m2 d1 d2 where cp: "copied n n1 (tag n a) s1a s1b (tag n b) (scope n b) m1 m2 d1 d2"
    and ctx: "copy_ctx n n1 a b [d1, d2, m1, m2]"
    and h: "handing n n1 a b [d1, d2, m1, m2] k {..<4}" and rt: "retired k m a b" using d(3) by blast
  let ?C = "{m1, m2, d1, d2}" and ?cp = "[d1, d2, m1, m2]"
  note cd = copiedD[OF cp] and hd = handingD[OF h] and rd = retiredD[OF rt] and mt = metaD[OF handingD(3)[OF h]]
  show "nn m \<le> nn n + 4" "steps m = steps n" "lvl m = lvl n" using rd(1,4,5) mt(1,5,6) cd(9,10,13) by simp_all
  have nab: "v \<notin> {a, b}" if "v \<in> ?C" for v
    using that copy_ctxD(6)[OF ctx, of 0] copy_ctxD(6)[OF ctx, of 1] copy_ctxD(6)[OF ctx, of 2]
      copy_ctxD(6)[OF ctx, of 3] by auto
  have lk: "live k u \<longleftrightarrow> live n u \<or> u \<in> ?C" for u using hd(5) cd(4) by simp
  have own: "wire k (Port v p) = wire n1 (Port v p)" if "v \<in> ?C" "p \<noteq> 0" for v p
  proof (rule hd(9))
    show "Port v p \<notin> (\<lambda>j. Port (?cp ! j) 0) ` {..<4}" using that by auto
    show "Port v p \<notin> (\<lambda>j. wire n (ax a b j)) ` {..<4}"
    proof
      assume "Port v p \<in> (\<lambda>j. wire n (ax a b j)) ` {..<4}"
      then obtain j where j: "j < 4" "Port v p = wire n (ax a b j)" by blast
      have ne: "wire n (ax a b j) \<noteq> NONE" using j(2) cd(3)[OF that(1)] by auto
      show False
      proof (cases "aux_index a b (wire n (ax a b j))")
        case None
        then show False using copy_ctx_wire(2)[OF ctx j(1) None ne] j(2) cd(2)[OF that(1)] by (metis port.sel(1))
      next
        case (Some i)
        then have "node (wire n (ax a b j)) \<in> {a, b}" by (auto simp: aux_index_def split: if_splits)
        then show False using j(2) nab[OF that(1)] by (metis port.sel(1))
      qed
    qed
  qed
  note cross = copied_cross[OF cp]
  have sm: "standing m {} q" if "live k (node q)" "node q \<notin> {a, b}" "pno q < 3" "wire k q \<noteq> NONE" for q
    using rd(11)[of q] that by (auto simp: standing_def)
  have keepi: "standing m {} (Port v i) \<and> wire m (Port v i) = wire n1 (Port v i)"
    if v: "v \<in> ?C" and i: "i \<noteq> 0" "i < 3" and ne: "wire n1 (Port v i) \<noteq> NONE" for v i
  proof -
    have w: "wire k (Port v i) = wire n1 (Port v i)" by (rule own[OF v i(1)])
    have "live k v" using lk v by blast
    then have "standing m {} (Port v i)" using sm[of "Port v i"] nab[OF v] i(2) ne w by simp
    with w rd(10)[OF this] show ?thesis by simp
  qed
  have keep: "standing m {} (Port v 1) \<and> wire m (Port v 1) = wire n1 (Port v 1)"
    "standing m {} (Port v 2) \<and> wire m (Port v 2) = wire n1 (Port v 2)" if v: "v \<in> ?C" for v
  proof -
    have "m1 \<noteq> - 1" "m2 \<noteq> - 1" "d1 \<noteq> - 1" "d2 \<noteq> - 1"
      using cd(3)[of m1] cd(3)[of m2] cd(3)[of d1] cd(3)[of d2] by auto
    then have ne: "wire n1 (Port v 1) \<noteq> NONE" "wire n1 (Port v 2) \<noteq> NONE"
      using v unfolding insert_iff empty_iff by (elim disjE; simp add: cross(1-8) del: One_nat_def)+
    have num: "(1 :: nat) \<noteq> 0" "(1 :: nat) < 3" "(2 :: nat) \<noteq> 0" "(2 :: nat) < 3" by simp_all
    show "standing m {} (Port v 1) \<and> wire m (Port v 1) = wire n1 (Port v 1)"
      by (rule keepi[OF v num(1,2) ne(1)])
    show "standing m {} (Port v 2) \<and> wire m (Port v 2) = wire n1 (Port v 2)"
      by (rule keepi[OF v num(3,4) ne(2)])
  qed
  have lvC: "live m v" if "v \<in> ?C" for v using keep(1)[OF that] by (simp add: standing_def)
  have told: "took_over n m a b ?cp j" if j: "j < 4" for j
  proof -
    have cj: "?cp ! j \<in> ?C" using nth_mem[of j ?cp] j by auto
    have s: "standing m {} (Port (?cp ! j) 0)" using lvC[OF cj] by (simp add: standing_def)
    show ?thesis
    proof (rule took_over_keep)
      show "took_over n k a b ?cp j" using hd(8) j by simp
      show "wire m (Port (?cp ! j) 0) = wire k (Port (?cp ! j) 0)" by (rule rd(10)[OF s])
      assume ne: "wire n (ax a b j) \<noteq> NONE" and no: "aux_index a b (wire n (ax a b j)) = None"
      let ?e = "wire n (ax a b j)"
      note w = copy_ctx_wire(2)[OF ctx j no ne]
      have "wire k ?e = Port (?cp ! j) 0" using hd(8)[of j] j no ne by (simp add: took_over_def)
      then have wk: "wire k ?e \<noteq> NONE" using cd(3)[OF cj] by auto
      have ax3: "standing n {} (ax a b j)"
        using ax_props[OF j, of a b] r by (auto simp: redex_live_def standing_def)
      have "wired n {} {}" using ok by (simp add: net_ok_def)
      then have "pno ?e < 3" using wired_back(1)[OF _ ax3 ne] by (simp add: standing_def)
      then have "standing m {} ?e" using sm[of ?e] wk w lk by simp
      then show "wire m ?e = wire k ?e" by (rule rd(10))
    qed
  qed
  have notcp: "q \<notin> (\<lambda>j. Port (?cp ! j) 0) ` {..<4}" if "node q \<notin> ?C" for q
  proof
    assume "q \<in> (\<lambda>j. Port (?cp ! j) 0) ` {..<4}"
    then obtain j where "j < 4" "q = Port (?cp ! j) 0" by blast
    then have "node q \<in> ?C" using nth_mem[of j ?cp] by auto
    with that show False by blast
  qed
  have frame: "wire m q = wire n q"
    if q: "standing m {} q" "node q \<notin> ?C" "\<forall>j < 4. q \<noteq> wire n (ax a b j)" for q
  proof -
    have "wire k q = wire n1 q"
    proof (rule hd(9))
      show "q \<notin> (\<lambda>j. Port (?cp ! j) 0) ` {..<4}" by (rule notcp[OF q(2)])
      show "q \<notin> (\<lambda>j. wire n (ax a b j)) ` {..<4}" using q(3) by auto
    qed
    then show ?thesis using rd(10)[OF q(1)] cd(5)[OF q(2)] by simp
  qed
  have others: "live n u \<and> tag m u = tag n u \<and> scope m u = scope n u" if "live m u" "u \<notin> ?C" for u
  proof -
    have "live n u" using rd(8)[OF that(1)] lk[of u] that(2) by blast
    moreover have "tag m u = tag n u" using rd(9)[OF that(1)] hd(4) cd(7)[OF that(2)] by simp
    moreover have "scope m u = scope n u" using rd(2) mt(2) cd(8)[OF that(2)] by simp
    ultimately show ?thesis by blast
  qed
  have stay: "live m (node q)" if q: "standing n {a, b} q" "wire n q \<noteq> NONE" for q
  proof -
    have nq: "node q \<notin> ?C" using q(1) cd(2) by (auto simp: standing_def)
    have "wire k q \<noteq> NONE"
    proof (cases "\<exists>j < 4. q = wire n (ax a b j)")
      case True
      then obtain j where j: "j < 4" "q = wire n (ax a b j)" by blast
      have "q \<noteq> NONE" using standing_not_NONE[OF q(1)] .
      moreover have "aux_index a b q = None" using q(1) by (auto simp: standing_def aux_index_def)
      ultimately have wq: "wire k q = Port (?cp ! j) 0" using hd(8)[of j] j by (simp add: took_over_def)
      have "?cp ! j \<in> ?C" using nth_mem[of j ?cp] j(1) by auto
      then have "0 \<le> ?cp ! j" by (rule cd(3))
      then show ?thesis unfolding wq by simp
    next
      case False
      have "wire k q = wire n1 q"
      proof (rule hd(9))
        show "q \<notin> (\<lambda>j. Port (?cp ! j) 0) ` {..<4}" by (rule notcp[OF nq])
        show "q \<notin> (\<lambda>j. wire n (ax a b j)) ` {..<4}" using False by auto
      qed
      then show ?thesis using cd(5)[OF nq] q(2) by simp
    qed
    then have "standing m {} q" using q(1) lk by (intro sm) (auto simp: standing_def)
    then show ?thesis by (simp add: standing_def)
  qed
  have tm: "tag m v = tag n1 v" "scope m v = scope n1 v" if "v \<in> ?C" for v
    using rd(2,9) lvC[OF that] hd(4) mt(2) by simp_all
  have "commuted n m a b m1 m2 d1 d2"
  proof -
    have w: "wire m (Port d1 1) = Port m1 1" "wire m (Port d1 2) = Port m2 1"
      "wire m (Port d2 1) = Port m1 2" "wire m (Port d2 2) = Port m2 2"
      using keep[of d1] keep[of d2] cross(1-8) by (metis insertCI)+
    have t: "tag m m1 = tag n a" "tag m m2 = tag n a" "tag m d1 = tag n b" "tag m d2 = tag n b"
      using tm(1) cross(9-12) by simp_all
    have "\<forall>v \<in> ?C. \<not> live n v \<and> live m v" using cd(2) lvC by blast
    then show ?thesis unfolding commuted_def using cd(1) w t told rd(6,7) others stay frame by blast
  qed
  moreover have "scope m m1 = s1a" "scope m m2 = s1b" "scope m d1 = scope n b" "scope m d2 = scope n b"
    using tm cross by simp_all
  ultimately show "\<exists>m1 m2 d1 d2. commuted n m a b m1 m2 d1 d2 \<and> scope m m1 = s1a \<and> scope m m2 = s1b \<and>
       scope m d1 = scope n b \<and> scope m d2 = scope n b" by blast
qed


section \<open>Every rule preserves the invariant\<close>

definition interacts :: "ntag \<Rightarrow> ntag \<Rightarrow> bool" where
  "interacts s t \<longleftrightarrow> (s, t) \<in> {(LAM, APP), (APP, LAM), (DUP, DUP), (LAM, DUP), (DUP, LAM), (APP, DUP), (DUP, APP)}"

text \<open>The labels of a commutation: the copies of \<open>a\<close> get the paths \<open>1 : a ++ b\<close> and \<open>2 : a ++ b\<close>.\<close>

lemma commute_labels:
  assumes ok: "net_ok n" and ab: "live n a" "live n b"
    and 1: "lvl_prefix2 (lvl n) 1 (scope n a) (scope n b) = (L1, s1)"
    and 2: "lvl_prefix2 L1 2 (scope n a) (scope n b) = (L2, s2)"
  shows "lv_wf L2" "lv_ext (lvl n) L2" "s1 \<le> nlv L2" "s2 \<le> nlv L2"
    "lvl_path L2 s1 = 1 # lvl_path (lvl n) (scope n a) @ lvl_path (lvl n) (scope n b)"
    "lvl_path L2 s2 = 2 # lvl_path (lvl n) (scope n a) @ lvl_path (lvl n) (scope n b)"
proof -
  have lo: "lv_wf (lvl n)" "scope n a \<le> nlv (lvl n)" "scope n b \<le> nlv (lvl n)"
    using ok ab by (auto simp: net_ok_def levels_ok_def)
  have g: "(1 :: nat) < 256" "(2 :: nat) < 256" by simp_all
  note p1 = lvl_prefix2_spec[OF lo g(1) 1]
  have sc: "scope n a \<le> nlv L1" "scope n b \<le> nlv L1" using lo(2,3) lv_ext_nlv[OF p1(2)] by simp_all
  note p2 = lvl_prefix2_spec[OF p1(1) sc g(2) 2]
  show "lv_wf L2" by (rule p2(1))
  show "lv_ext (lvl n) L2" by (rule lv_ext_trans[OF p1(2) p2(2)])
  show "s1 \<le> nlv L2" using p1(3) lv_ext_nlv[OF p2(2)] by simp
  show "s2 \<le> nlv L2" by (rule p2(3))
  show "lvl_path L2 s1 = 1 # lvl_path (lvl n) (scope n a) @ lvl_path (lvl n) (scope n b)"
    using lvl_path_ext[OF p1(1) p2(1,2) p1(3)] p1(4) by simp
  show "lvl_path L2 s2 = 2 # lvl_path (lvl n) (scope n a) @ lvl_path (lvl n) (scope n b)"
    using p2(4) lvl_path_ext[OF lo(1) p1(1,2) lo(2)] lvl_path_ext[OF lo(1) p1(1,2) lo(3)] by simp
qed

lemma ordered_cases:
  assumes r: "interact_ordered E a b n = (m, fired)"
  obtains (beta) "tag n a = LAM" "tag n b = APP" "fired" "m = retire E a b (pair_boundary E a b cor_beta True n)"
  | (annihilate) "tag n a = DUP" "tag n b = DUP" "scope n a = scope n b" "fired"
      "m = retire E a b (pair_boundary E a b cor_delta True n)"
  | (cross) "tag n a = DUP" "tag n b = DUP" "scope n a \<noteq> scope n b" "fired"
      "m = duplicate E a b (tag n a) (scope n a) (scope n a) (tag n b) (scope n b) (aux_wires n a b) n"
  | (commute) L1 s1 L2 s2 where "tag n a = LAM \<or> tag n a = APP" "tag n b = DUP" "fired"
      "lvl_prefix2 (lvl n) 1 (scope n a) (scope n b) = (L1, s1)"
      "lvl_prefix2 L1 2 (scope n a) (scope n b) = (L2, s2)"
      "m = duplicate E a b (tag n a) s1 s2 (tag n b) (scope n b) (aux_wires n a b) (n\<lparr>lvl := L2\<rparr>)"
  | (stuck) "\<not> fired" "m = n" "tag_code (tag n a) \<le> tag_code (tag n b) \<Longrightarrow> \<not> interacts (tag n a) (tag n b)"
proof -
  obtain L1 s1 where 1: "lvl_prefix2 (lvl n) 1 (scope n a) (scope n b) = (L1, s1)" by fastforce
  obtain L2 s2 where 2: "lvl_prefix2 L1 2 (scope n a) (scope n b) = (L2, s2)" by fastforce
  consider "tag n a = LAM \<and> tag n b = APP" | "tag n a = DUP \<and> tag n b = DUP \<and> scope n a = scope n b"
    | "tag n a = DUP \<and> tag n b = DUP \<and> scope n a \<noteq> scope n b"
    | "(tag n a = LAM \<or> tag n a = APP) \<and> tag n b = DUP"
    | "\<not> (tag n a = LAM \<and> tag n b = APP) \<and> \<not> (tag n a = DUP \<and> tag n b = DUP) \<and>
       \<not> ((tag n a = LAM \<or> tag n a = APP) \<and> tag n b = DUP)" by blast
  then show ?thesis
  proof cases
    case 1
    then show ?thesis using r by (intro beta) (auto simp: interact_ordered_def)
  next
    case 2
    then show ?thesis using r by (intro annihilate) (auto simp: interact_ordered_def)
  next
    case 3
    then show ?thesis using r by (intro cross) (auto simp: interact_ordered_def)
  next
    case 4
    then have "m = duplicate E a b (tag n a) s1 s2 (tag n b) (scope n b) (aux_wires n a b) (n\<lparr>lvl := L2\<rparr>)" "fired"
      using r 1 2 by (auto simp: interact_ordered_def)
    then show ?thesis using 1 2 4 commute by blast
  next
    case 5
    then have "m = n" "\<not> fired" using r by (auto simp: interact_ordered_def split: if_splits)
    moreover have "\<not> interacts (tag n a) (tag n b)" if "tag_code (tag n a) \<le> tag_code (tag n b)"
      using 5 that by (auto simp: interacts_def)
    ultimately show ?thesis by (rule_tac stuck)
  qed
qed

lemma ordered_ok:
  assumes ok: "net_ok n" and r: "redex_live n (Port a 0) (Port b 0)" and E: "\<not> in_parallel E"
    and i: "interact_ordered E a b n = (m, fired)"
  shows "net_ok m" "\<And>P. all_queued n P \<Longrightarrow> all_queued m P" "nn m \<le> nn n + 4" "steps m = steps n"
    "fired \<Longrightarrow> \<not> live m a \<and> \<not> live m b" "\<not> fired \<Longrightarrow> m = n"
    "tag_code (tag n a) \<le> tag_code (tag n b) \<Longrightarrow> fired \<longleftrightarrow> interacts (tag n a) (tag n b)"
proof -
  have lab: "live n a" "live n b" using r by (simp_all add: redex_live_def)
  have sc: "scope n a \<le> nlv (lvl n)" using ok lab by (auto simp: net_ok_def levels_ok_def)
  have "net_ok m \<and> (\<forall>P. all_queued n P \<longrightarrow> all_queued m P) \<and> nn m \<le> nn n + 4 \<and> steps m = steps n \<and>
    (fired \<longrightarrow> \<not> live m a \<and> \<not> live m b) \<and> (\<not> fired \<longrightarrow> m = n) \<and>
    (tag_code (tag n a) \<le> tag_code (tag n b) \<longrightarrow> (fired \<longleftrightarrow> interacts (tag n a) (tag n b)))"
    using i
  proof (cases rule: ordered_cases)
    case beta
    have "cor_beta = cor_beta \<or> cor_beta = cor_delta" by simp
    note b = boundary_rule[OF ok r E this beta(4)]
    show ?thesis using b beta by (simp add: rewires_def interacts_def)
  next
    case annihilate
    have "cor_delta = cor_beta \<or> cor_delta = cor_delta" by simp
    note b = boundary_rule[OF ok r E this annihilate(5)]
    show ?thesis using b annihilate by (simp add: rewires_def interacts_def)
  next
    case cross
    note d = duplicate_rule[OF ok r E sc sc cross(5)]
    then show ?thesis using cross unfolding commuted_def by (auto simp: interacts_def)
  next
    case (commute L1 s1 L2 s2)
    note l = commute_labels[OF ok lab commute(4,5)]
    let ?n = "n\<lparr>lvl := L2\<rparr>"
    note o = net_ok_lvl[OF ok l(1,2)]
    have "redex_live ?n (Port a 0) (Port b 0)" using o(3) r by simp
    moreover have "m = duplicate E a b (tag ?n a) s1 s2 (tag ?n b) (scope ?n b) (aux_wires ?n a b) ?n"
      using commute(6) by (simp add: aux_wires_def)
    ultimately have d: "net_ok m" "\<And>P. all_queued ?n P \<Longrightarrow> all_queued m P" "nn m \<le> nn ?n + 4"
      "steps m = steps ?n" "\<not> live m a" "\<not> live m b"
      using duplicate_rule[OF o(1) _ E, of a b s1 s2 m] l(3,4) unfolding commuted_def by auto
    then show ?thesis using o(2) commute(1-3) by (auto simp: interacts_def)
  next
    case stuck
    then show ?thesis using ok by auto
  qed
  then show "net_ok m" "\<And>P. all_queued n P \<Longrightarrow> all_queued m P" "nn m \<le> nn n + 4" "steps m = steps n"
    "fired \<Longrightarrow> \<not> live m a \<and> \<not> live m b" "\<not> fired \<Longrightarrow> m = n"
    "tag_code (tag n a) \<le> tag_code (tag n b) \<Longrightarrow> fired \<longleftrightarrow> interacts (tag n a) (tag n b)" by blast+
qed

text \<open>What firing a redex does to a net at rest; the reduction theories use it in this form.\<close>

lemma interact_ok:
  assumes ok: "net_ok n" and r: "redex_live n p q" and E: "\<not> in_parallel E"
    and i: "net_interact E p q n = (m, fired)"
  shows "net_ok m" "\<And>P. all_queued n P \<Longrightarrow> all_queued m P" "nn m \<le> nn n + 4" "steps m = steps n"
    "fired \<Longrightarrow> \<not> live m (node p) \<and> \<not> live m (node q)" "\<not> fired \<Longrightarrow> m = n"
    "fired \<longleftrightarrow> interacts (tag n (node p)) (tag n (node q))"
proof -
  have pq: "p = Port (node p) 0" "q = Port (node q) 0" using r by (simp_all add: redex_live_def port_eqI)
  have "net_ok m \<and> (\<forall>P. all_queued n P \<longrightarrow> all_queued m P) \<and> nn m \<le> nn n + 4 \<and> steps m = steps n \<and>
    (fired \<longrightarrow> \<not> live m (node p) \<and> \<not> live m (node q)) \<and> (\<not> fired \<longrightarrow> m = n) \<and>
    (fired \<longleftrightarrow> interacts (tag n (node p)) (tag n (node q)))"
  proof (cases "tag_code (tag n (node p)) > tag_code (tag n (node q))")
    case True
    then have i': "interact_ordered E (node q) (node p) n = (m, fired)" using i by (simp add: net_interact_def)
    have r': "redex_live n (Port (node q) 0) (Port (node p) 0)" using redex_live_sym[OF r] pq by simp
    have "interacts (tag n (node q)) (tag n (node p)) = interacts (tag n (node p)) (tag n (node q))"
      by (auto simp: interacts_def)
    then show ?thesis using ordered_ok[OF ok r' E i'] True by auto
  next
    case False
    then have i': "interact_ordered E (node p) (node q) n = (m, fired)" using i by (simp add: net_interact_def)
    have r': "redex_live n (Port (node p) 0) (Port (node q) 0)" using r pq by simp
    show ?thesis using ordered_ok[OF ok r' E i'] False by auto
  qed
  then show "net_ok m" "\<And>P. all_queued n P \<Longrightarrow> all_queued m P" "nn m \<le> nn n + 4" "steps m = steps n"
    "fired \<Longrightarrow> \<not> live m (node p) \<and> \<not> live m (node q)" "\<not> fired \<Longrightarrow> m = n"
    "fired \<longleftrightarrow> interacts (tag n (node p)) (tag n (node q))" by blast+
qed

end
