(* ===== verification/NetOps.thy ===== *)
theory NetOps
  imports Rules
begin

text \<open>
  The operations a client builds nets with (\<open>net_init\<close>, \<open>net_alloc\<close>, \<open>net_link\<close>, \<open>net_sever\<close>,
  \<open>lin_demand\<close>, \<open>lin_pin\<close>, \<open>lin_enqueue\<close>) on a net at rest, the nets the witnesses of the
  reduction theories run on, and the properties of the allocator and of the rules.
\<close>

section \<open>Building nets\<close>

lemma net_init_ok:
  assumes "0 < c" "\<not> in_parallel E"
  shows "net_ok (net_init E c)" "\<And>P. all_queued (net_init E c) P"
proof -
  have i: "net_init E c = (net_blank c)\<lparr>nn := 1, tag := (\<lambda>_. ERA)(0 := ROOT), dead := (\<lambda>_. False)(0 := False),
      scope := (\<lambda>_. 0)(0 := 0), wire := (\<lambda>_. NONE)(Port 0 0 := NONE, Port 0 1 := NONE, Port 0 2 := NONE)\<rparr>"
    using assms by (simp add: net_init_def net_alloc_def alloc_slot_def net_blank_def net_ensure_cap_def Let_def)
  let ?m = "net_init E c"
  have w: "wire ?m p = NONE" "dead ?m v = False" "nn ?m = 1" "ncap ?m = c" for p v
    by (simp_all add: i net_blank_def)
  have "slots_ok ?m [] []" by (simp add: slots_ok_def i net_blank_def)
  then show "net_ok ?m"
    using assms(1) lv_wf_init unfolding net_ok_def
    by (auto simp: wired_def linked_def w queue_ok_def queue_live_def levels_ok_def room_ok_def)
      (auto simp: i net_blank_def)
  show "all_queued ?m P" for P
    by (auto simp: all_queued_def redex_live_def w)
qed

lemma net_ok_alloc:
  assumes ok: "net_ok n" and E: "\<not> in_parallel E" and sc: "sc \<le> nlv (lvl n)"
    and r: "net_alloc E t sc n = (m, v)"
  shows "fresh_node t sc n v m" "net_ok m" "\<And>P. all_queued n P \<Longrightarrow> all_queued m P"
  using alloc_inv[OF _ E sc r, of "{}" "{}"] ok by (auto simp: net_ok_pair_inv)

lemma net_ok_link:
  assumes ok: "net_ok n" and E: "\<not> in_parallel E"
    and p: "standing n {} p" "wire n p = NONE" and q: "standing n {} q" "wire n q = NONE" and pq: "p \<noteq> q"
    and m: "m = net_link E p q enq n"
  shows "net_ok m" "wire m = (wire n)(p := q, q := p)" "\<And>u. live m u = live n u" "meta n m"
    "\<And>P. all_queued n P \<Longrightarrow> enq \<or> 0 < pno p \<or> 0 < pno q \<Longrightarrow> all_queued m P"
proof -
  have inv: "pair_inv n {} {}" using ok by (simp add: net_ok_pair_inv)
  have l: "loose n {} {} p" "loose n {} {} q" using p q by (simp_all add: loose_def)
  note li = link_inv[OF inv l pq E m]
  show "net_ok m" using li(1) by (simp add: net_ok_pair_inv)
  show "wire m = (wire n)(p := q, q := p)"
  proof
    fix r show "wire m r = ((wire n)(p := q, q := p)) r" using li(2-4) pq by (auto simp: fun_upd_apply)
  qed
  show "\<And>u. live m u = live n u" "meta n m"
    "\<And>P. all_queued n P \<Longrightarrow> enq \<or> 0 < pno p \<or> 0 < pno q \<Longrightarrow> all_queued m P"
    using li(5-7) by blast+
qed

text \<open>Operations that only touch the demand roots, the pins or the level trie.\<close>

lemma net_ok_view:
  assumes ok: "net_ok n" and m: "m = n\<lparr>root := r, pins := i, dem := d, dem_stamp := s, vport := vp,
    dem_out := out, steps := st, recycled := rc\<rparr>"
  shows "net_ok m" "all_queued n P \<Longrightarrow> all_queued m P" "live m v = live n v" "wire m = wire n"
    "redex_live m p q = redex_live n p q"
proof -
  show w: "wire m = wire n" and lv: "live m v = live n v" for v by (simp_all add: m live_def in_net_def)
  note sv = same_view[OF w lv]
  have i: "in_net m v = in_net n v" for v by (simp add: m in_net_def)
  show "redex_live m p q = redex_live n p q" by (rule sv(5))
  show "all_queued n P \<Longrightarrow> all_queued m P" by (simp add: all_queued_def sv(5)) (simp add: m)
  have f: "act m = act n" "act_of m = act_of n" "free_head m = free_head n" "pend_head m = pend_head n"
    "nfree m = nfree n" "dead m = dead n" "lvl m = lvl n" "scope m = scope n" "nn m = nn n" "ncap m = ncap n"
    "fatal m = fatal n" by (simp_all add: m)
  have sl: "slots_ok m fs ps = slots_ok n fs ps" for fs ps by (simp add: slots_ok_def f w i)
  show "net_ok m"
    using ok unfolding net_ok_def sv(3) sl by (simp add: queue_ok_def queue_live_def levels_ok_def
        room_ok_def f lv sv(5))
qed

text \<open>An environment with no threaded wave, at the outermost reduce.\<close>

definition seq_env :: env where
  "seq_env = \<lparr>in_parallel = False, reduce_depth = 1, noret = False, any_recycle = False, my_tid = 0\<rparr>"

lemma seq_env_simps [simp]: "\<not> in_parallel seq_env" "reduce_depth seq_env = 1" "\<not> noret seq_env"
  by (simp_all add: seq_env_def)

text \<open>
  The net of \<open>(\\x x) t\<close> under \<open>ROOT\<close>: node 1 is the identity, node 2 the application, node 3 the
  argument \<open>t\<close>, another identity.
\<close>

definition demo_alloc :: "ntag list \<Rightarrow> net" where
  "demo_alloc ts = fold (\<lambda>t n. fst (net_alloc seq_env t 0 n)) ts (net_init seq_env 256)"

definition demo_links :: "(port \<times> port) list \<Rightarrow> net \<Rightarrow> net" where
  "demo_links ls n = fold (\<lambda>(p, q) n. net_link seq_env p q True n) ls n"

lemma demo_alloc_ok:
  "net_ok (demo_alloc ts) \<and> (\<forall>P. all_queued (demo_alloc ts) P) \<and> lvl (demo_alloc ts) = levels_init"
proof -
  let ?G = "\<lambda>n. net_ok n \<and> (\<forall>P. all_queued n P) \<and> lvl n = levels_init"
  have step: "?G (fst (net_alloc seq_env t 0 n))" if "?G n" for t n
  proof -
    obtain m v where r: "net_alloc seq_env t 0 n = (m, v)" by fastforce
    have "0 \<le> nlv (lvl n)" by simp
    note a = net_ok_alloc[OF _ _ this r]
    show ?thesis using that a r by (auto simp: fresh_node_def)
  qed
  have "?G (fold (\<lambda>t n. fst (net_alloc seq_env t 0 n)) ts n)" if "?G n" for n
    using that
  proof (induction ts arbitrary: n)
    case (Cons t ts)
    show ?case using Cons.IH[OF step[OF Cons.prems, of t]] unfolding fold_Cons comp_apply .
  next
    case Nil
    then show ?case unfolding fold_Nil id_apply .
  qed
  moreover have "?G (net_init seq_env 256)"
    using net_init_ok[of 256 seq_env] by (simp add: net_init_def net_alloc_def alloc_slot_def net_blank_def
        net_ensure_cap_def Let_def)
  ultimately show ?thesis unfolding demo_alloc_def by blast
qed

definition links_fit :: "net \<Rightarrow> (port \<times> port) list \<Rightarrow> bool" where
  "links_fit n ls \<longleftrightarrow> distinct (map fst ls @ map snd ls) \<and>
     (\<forall>p \<in> set (map fst ls @ map snd ls). standing n {} p \<and> wire n p = NONE)"

lemma demo_links_ok:
  "net_ok n \<Longrightarrow> links_fit n ls \<Longrightarrow> (\<forall>P. all_queued n P) \<Longrightarrow>
   net_ok (demo_links ls n) \<and> (\<forall>P. all_queued (demo_links ls n) P)"
proof (induction ls arbitrary: n)
  case (Cons l ls)
  obtain p q where l: "l = (p, q)" by fastforce
  have pq: "standing n {} p" "wire n p = NONE" "standing n {} q" "wire n q = NONE" "p \<noteq> q"
    using Cons.prems(2) by (auto simp: links_fit_def l)
  note k = net_ok_link[OF Cons.prems(1) seq_env_simps(1) pq refl[of "net_link seq_env p q True n"]]
  have "links_fit (net_link seq_env p q True n) ls"
    using Cons.prems(2) k(2,3) by (auto simp: links_fit_def l standing_def)
  then show ?case using Cons.IH[OF k(1)] k(5) Cons.prems(3) by (simp add: demo_links_def l)
qed (simp add: demo_links_def)


lemmas demo_eval = demo_alloc_def net_init_def net_alloc_def alloc_slot_def net_ensure_cap_def
  net_blank_def Let_def seq_env_def

definition beta_links :: "(port \<times> port) list" where
  "beta_links = [(Port 2 2, Port 0 0), (Port 1 1, Port 1 2), (Port 2 1, Port 3 0), (Port 3 1, Port 3 2),
     (Port 1 0, Port 2 0)]"

definition beta_net :: net where
  "beta_net = demo_links beta_links (demo_alloc [LAM, APP, LAM])"

text \<open>Two fans at the root level, of which each auxiliary leads to an identity; and the same under
  an application and a fan.\<close>

definition fan_links :: "(port \<times> port) list" where
  "fan_links = [(Port 1 1, Port 3 0), (Port 1 2, Port 4 0), (Port 2 1, Port 5 0), (Port 2 2, Port 6 0),
     (Port 3 1, Port 3 2), (Port 4 1, Port 4 2), (Port 5 1, Port 5 2), (Port 6 1, Port 6 2),
     (Port 1 0, Port 2 0)]"

definition fan_net :: "ntag \<Rightarrow> net" where
  "fan_net t = demo_links fan_links (demo_alloc [t, DUP, LAM, LAM, LAM, LAM])"

lemma demo_links_tag [simp]:
  "tag (demo_links ls n) = tag n" "scope (demo_links ls n) = scope n" "lvl (demo_links ls n) = lvl n"
  "pins (demo_links ls n) = pins n" "live (demo_links ls n) v = live n v"
proof -
  have "tag (demo_links ls n) = tag n \<and> scope (demo_links ls n) = scope n \<and> lvl (demo_links ls n) = lvl n \<and>
    pins (demo_links ls n) = pins n \<and> dead (demo_links ls n) = dead n \<and> nn (demo_links ls n) = nn n"
    by (induction ls arbitrary: n) (auto simp: demo_links_def net_link_def Let_def seq_env_def)
  then show "tag (demo_links ls n) = tag n" "scope (demo_links ls n) = scope n"
    "lvl (demo_links ls n) = lvl n" "pins (demo_links ls n) = pins n" "live (demo_links ls n) v = live n v"
    by (simp_all add: live_def in_net_def)
qed

definition link_ends :: "port \<times> port \<Rightarrow> (port \<Rightarrow> port) \<Rightarrow> port \<Rightarrow> port" where
  "link_ends l w = w(fst l := snd l, snd l := fst l)"

lemma link_ends_pair: "link_ends (p, q) w = w(p := q, q := p)"
  by (simp add: link_ends_def)

lemma demo_links_wire:
  "(\<forall>(p, q) \<in> set ls. 0 \<le> node p \<and> 0 \<le> node q) \<Longrightarrow>
   wire (demo_links ls n) = fold link_ends ls (wire n)"
proof (induction ls arbitrary: n)
  case (Cons l ls)
  obtain p q where "l = (p, q)" by fastforce
  then show ?case using Cons by (simp add: demo_links_def net_link_seq link_ends_pair)
qed (simp add: demo_links_def)

lemma beta_alloc:
  "tag (demo_alloc [LAM, APP, LAM]) = (\<lambda>_. ERA)(0 := ROOT, 1 := LAM, 2 := APP, 3 := LAM)"
  "wire (demo_alloc [LAM, APP, LAM]) p = NONE" "scope (demo_alloc [LAM, APP, LAM]) v = 0"
  "pins (demo_alloc [LAM, APP, LAM]) = 0" "live (demo_alloc [LAM, APP, LAM]) v \<longleftrightarrow> 0 \<le> v \<and> v < 4"
  by (auto simp: demo_eval live_def in_net_def)

lemma fan_alloc:
  "tag (demo_alloc [t, DUP, LAM, LAM, LAM, LAM]) =
     (\<lambda>_. ERA)(0 := ROOT, 1 := t, 2 := DUP, 3 := LAM, 4 := LAM, 5 := LAM, 6 := LAM)"
  "wire (demo_alloc [t, DUP, LAM, LAM, LAM, LAM]) p = NONE"
  "scope (demo_alloc [t, DUP, LAM, LAM, LAM, LAM]) v = 0"
  "pins (demo_alloc [t, DUP, LAM, LAM, LAM, LAM]) = 0"
  "live (demo_alloc [t, DUP, LAM, LAM, LAM, LAM]) v \<longleftrightarrow> 0 \<le> v \<and> v < 7"
  by (auto simp: demo_eval live_def in_net_def)

lemma beta_net_wire:
  "wire beta_net = fold link_ends beta_links (\<lambda>_. NONE)"
proof -
  have "wire (demo_alloc [LAM, APP, LAM]) = (\<lambda>_. NONE)" using beta_alloc(2) by blast
  then show ?thesis unfolding beta_net_def by (subst demo_links_wire) (simp_all add: beta_links_def)
qed

lemma fan_net_wire:
  "wire (fan_net t) = fold link_ends fan_links (\<lambda>_. NONE)"
proof -
  have "wire (demo_alloc [t, DUP, LAM, LAM, LAM, LAM]) = (\<lambda>_. NONE)" using fan_alloc(2) by blast
  then show ?thesis unfolding fan_net_def by (subst demo_links_wire) (simp_all add: fan_links_def)
qed

lemma beta_net_ok: "net_ok beta_net" "\<And>P. all_queued beta_net P"
  "redex_live beta_net (Port 1 0) (Port 2 0)" "tag beta_net 1 = LAM" "tag beta_net 2 = APP"
proof -
  have "links_fit (demo_alloc [LAM, APP, LAM]) beta_links"
    by (simp add: links_fit_def beta_links_def standing_def beta_alloc)
  then show "net_ok beta_net" "\<And>P. all_queued beta_net P"
    using demo_links_ok[of "demo_alloc [LAM, APP, LAM]" beta_links] demo_alloc_ok[of "[LAM, APP, LAM]"]
    by (auto simp: beta_net_def)
  show "redex_live beta_net (Port 1 0) (Port 2 0)" "tag beta_net 1 = LAM" "tag beta_net 2 = APP"
    by (simp_all add: redex_live_def beta_net_wire beta_links_def link_ends_pair) (simp_all add: beta_net_def beta_alloc)
qed

lemma fan_net_ok: "net_ok (fan_net t)" "\<And>P. all_queued (fan_net t) P"
  "redex_live (fan_net t) (Port 1 0) (Port 2 0)" "tag (fan_net t) 1 = t" "tag (fan_net t) 2 = DUP"
proof -
  let ?n = "demo_alloc [t, DUP, LAM, LAM, LAM, LAM]"
  have "links_fit ?n fan_links"
    by (simp add: links_fit_def fan_links_def standing_def fan_alloc)
  then show "net_ok (fan_net t)" "\<And>P. all_queued (fan_net t) P"
    using demo_links_ok[of ?n fan_links] demo_alloc_ok[of "[t, DUP, LAM, LAM, LAM, LAM]"]
    by (auto simp: fan_net_def)
  show "redex_live (fan_net t) (Port 1 0) (Port 2 0)" "tag (fan_net t) 1 = t" "tag (fan_net t) 2 = DUP"
    by (simp_all add: redex_live_def fan_net_wire fan_links_def link_ends_pair) (simp_all add: fan_net_def fan_alloc)
qed

end
