(* ===== verification/NetProps.thy ===== *)
theory NetProps
  imports NetOps
begin

text \<open>
  The properties of the allocator, of reclamation and of the interaction rules, each with a witness
  on a net built by the net operations.
\<close>

section \<open>Reclamation at rest\<close>

lemma net_release_at_rest:
  assumes ok: "net_ok n"
  shows "net_release E n v =
    (if live n v \<and> (\<forall>p < 3. wire n (Port v p) = NONE) \<and> \<not> in_parallel E \<and> pins n = 0
     then shelve v n else n)"
proof (cases "live n v \<and> (\<forall>p < 3. wire n (Port v p) = NONE)")
  case True
  then show ?thesis using ok release_isolated[of n v E] by (auto simp: net_ok_def)
next
  case False
  have "\<not> unowned n v" if lv: "live n v"
  proof -
    obtain p where p: "p < 3" "wire n (Port v p) \<noteq> NONE" using False lv by blast
    have s: "standing n {} (Port v p)" using lv p(1) by (simp add: standing_def)
    have "p \<in> set [0, 1, 2]" using p(1) by auto
    then show ?thesis
      using wired_back(1,2)[OF _ s p(2)] ok unfolding unowned_def net_ok_def standing_def by blast
  qed
  then show ?thesis using False by (auto simp: net_release_def)
qed

lemma shelve_ok:
  assumes "net_ok n" "live n v" "\<forall>p < 3. wire n (Port v p) = NONE"
  shows "net_ok (shelve v n)" "\<And>P. all_queued n P \<Longrightarrow> all_queued (shelve v n) P"
    "live (shelve v n) u \<longleftrightarrow> live n u \<and> u \<noteq> v" "node q \<noteq> v \<Longrightarrow> wire (shelve v n) q = wire n q"
  using shelve_inv[of n "{}" "{}" v] assms by (auto simp: net_ok_pair_inv)

text \<open>Cutting a wire between two live ports that are not a queued redex.\<close>

lemma cut_at_rest:
  assumes ok: "net_ok n" and p: "standing n {} p" "wire n p \<noteq> NONE"
    and nr: "\<not> redex_live n p (wire n p) \<or> act_of n (node p) < 0"
  defines "m \<equiv> set_wire (wire n p) NONE (set_wire p NONE n)"
  shows "net_ok m" "\<And>P. all_queued n P \<Longrightarrow> all_queued m P"
proof -
  let ?w = "wire n p"
  have w: "wired n {} {}" using ok by (simp add: net_ok_def)
  note b = wired_back[OF w p]
  have wm: "wire m q = (if q = p \<or> q = ?w then NONE else wire n q)" for q by (simp add: m_def)
  have lv: "live m v = live n v" "standing m D q = standing n D q" "in_net m v = in_net n v" for v D q
    by (simp_all add: m_def)
  have "linked m {} {} q" if q: "standing n {} q" for q
  proof (cases "q = p \<or> q = ?w \<or> wire n q = NONE")
    case False
    then have "wire n (wire n q) = q" using wired_back(2)[OF w q] by blast
    then have "wire n q \<noteq> p \<and> wire n q \<noteq> ?w" using False b(2) by metis
    then show ?thesis using wiredD[OF w q] False by (auto simp: linked_def wm lv)
  qed (auto simp: linked_def wm)
  then have wd: "wired m {} {}" by (simp add: wired_def lv)
  have same: "redex_live m x y" if r: "redex_live n x y" and q: "0 \<le> act_of n (node x)" "0 \<le> act_of n (node y)" for x y
  proof -
    have "x \<noteq> p" using r nr q(1) redex_liveD(5)[OF r] by auto
    moreover have "y \<noteq> p" using r nr q(2) redex_liveD(6)[OF r] redex_live_sym[OF r] by auto
    moreover have "x \<noteq> ?w" using r nr q redex_liveD(5)[OF r] b(2) redex_live_sym[OF r] by auto
    moreover have "y \<noteq> ?w" using r nr q redex_liveD(6)[OF r] b(2) by auto
    ultimately show "redex_live m x y" using r by (simp add: redex_live_def wm lv)
  qed
  have rev: "redex_live m x y \<Longrightarrow> redex_live n x y" for x y
    using redex_wires[of m x y] by (auto simp: redex_live_def wm lv split: if_splits)
  have f: "act m = act n" "act_of m = act_of n" "free_head m = free_head n" "pend_head m = pend_head n"
    "nfree m = nfree n" "dead m = dead n" "lvl m = lvl n" "scope m = scope n" "nn m = nn n" "ncap m = ncap n"
    "fatal m = fatal n" by (simp_all add: m_def)
  have "\<exists>fs ps. slots_ok m fs ps"
  proof -
    obtain fs ps where sl: "slots_ok n fs ps" using ok by (auto simp: net_ok_def)
    have "v \<in> set (fs @ ps) \<Longrightarrow> \<not> live n v" for v using sl by (auto simp: slots_ok_def live_def)
    moreover have "live n (node p)" "live n (node ?w)" using p(1) b(1) by (simp_all add: standing_def)
    ultimately have "v \<in> set (fs @ ps) \<Longrightarrow> Port v 0 \<noteq> p \<and> Port v 0 \<noteq> ?w" for v
      by (metis port.sel(1))
    then have "slots_ok m fs ps"
      by (intro slots_ok_cong[OF sl]) (use sl in \<open>auto simp: wm f lv slots_ok_def\<close>)
    then show ?thesis by blast
  qed
  moreover have "queue_live m"
  proof -
    have qs: "queue_ok n" "queue_live n" using ok by (simp_all add: net_ok_def)
    have "redex_live m x y" if "(x, y) \<in> set (act n)" for x y
    proof (rule same)
      show "redex_live n x y" using that qs(2) by (auto simp: queue_live_def)
      show "0 \<le> act_of n (node x)" "0 \<le> act_of n (node y)" using that queue_ok_mem[OF qs(1)] by blast+
    qed
    then show ?thesis by (auto simp: queue_live_def f)
  qed
  ultimately show "net_ok m"
    using ok wd unfolding net_ok_def by (simp add: queue_ok_def levels_ok_def room_ok_def f lv)
  show "all_queued n P \<Longrightarrow> all_queued m P" for P using rev by (auto simp: all_queued_def f)
qed

lemma sever_at_rest:
  assumes ok: "net_ok n" and p: "standing n {} p" "wire n p \<noteq> NONE"
    and nr: "\<not> redex_live n p (wire n p) \<or> act_of n (node p) < 0" and m: "m = net_sever E p n"
  shows "net_ok m" "\<And>P. all_queued n P \<Longrightarrow> all_queued m P"
    "\<And>q. standing m {} q \<Longrightarrow> wire m q = (if q = p \<or> q = wire n p then NONE else wire n q)"
    "\<And>u. live m u \<Longrightarrow> live n u"
    "\<And>u. live n u \<Longrightarrow> \<not> live m u \<Longrightarrow> (u = node p \<or> u = node (wire n p)) \<and> pins n = 0 \<and>
       (\<forall>i < 3. Port u i = p \<or> Port u i = wire n p \<or> wire n (Port u i) = NONE)"
proof -
  let ?w = "wire n p"
  define c where "c = set_wire ?w NONE (set_wire p NONE n)"
  have w: "wired n {} {}" using ok by (simp add: net_ok_def)
  note b = wired_back[OF w p] and ct = cut_at_rest[OF ok p nr, folded c_def]
  have lv: "live c v = live n v" "in_net c v = in_net n v" for v by (simp_all add: c_def)
  have wc: "wire c q = (if q = p \<or> q = ?w then NONE else wire n q)" for q by (simp add: c_def)
  have inn: "in_net n (node p)" "in_net n (node ?w)" "live n (node p)" "live n (node ?w)"
    using p(1) b(1) by (auto simp: standing_def live_def)
  define n3 where "n3 = (if deg_live c (node p) = 0 then net_release E c (node p) else c)"
  have m': "m = (if in_net n3 (node ?w) \<and> deg_live n3 (node ?w) = 0 then net_release E n3 (node ?w) else n3)"
    using m inn(1,2) b(2,3) by (simp add: net_sever_def Let_def n3_def c_def set_wire_live)
  let ?G = "\<lambda>k. net_ok k \<and> (\<forall>P. all_queued n P \<longrightarrow> all_queued k P) \<and>
    (\<forall>q. standing k {} q \<longrightarrow> wire k q = wire c q) \<and> (\<forall>u. live k u \<longrightarrow> live c u) \<and> pins k = pins n \<and>
    (\<forall>u. live c u \<and> \<not> live k u \<longrightarrow> (u = node p \<or> u = node ?w) \<and> pins n = 0 \<and> (\<forall>i < 3. wire c (Port u i) = NONE))"
  have rel: "?G (net_release E k v)" if k: "?G k" and v: "v = node p \<or> v = node ?w" for k v
  proof (cases "live k v \<and> (\<forall>i < 3. wire k (Port v i) = NONE) \<and> \<not> in_parallel E \<and> pins k = 0")
    case True
    then have e: "net_release E k v = shelve v k" using net_release_at_rest[of k E v] k by auto
    have iso: "live k v" "\<forall>i < 3. wire k (Port v i) = NONE" using True by blast+
    have okk: "net_ok k" using k by blast
    note s = shelve_ok[OF okk iso]
    have "wire c (Port v i) = NONE" if "i < 3" for i
    proof -
      have "standing k {} (Port v i)" using True that by (simp add: standing_def)
      then show ?thesis using k iso(2) that by metis
    qed
    moreover have "standing (shelve v k) {} q \<Longrightarrow> wire (shelve v k) q = wire c q" for q
      using s(3)[of "node q"] s(4)[of q] k by (auto simp: standing_def)
    moreover have "pins (shelve v k) = pins k" by (simp add: shelve_def)
    ultimately show ?thesis unfolding e using s k v True by auto
  next
    case False
    then have "net_release E k v = k" using net_release_at_rest[of k E v] k by auto
    then show ?thesis using k by simp
  qed
  have Gc: "?G c" using ct by (auto simp: c_def)
  have G3: "?G n3"
  proof (cases "deg_live c (node p) = 0")
    case True
    then have e: "n3 = net_release E c (node p)" by (simp add: n3_def)
    show ?thesis unfolding e by (rule rel[OF Gc disjI1[OF refl]])
  next
    case False
    then have e: "n3 = c" by (simp add: n3_def)
    show ?thesis unfolding e by (rule Gc)
  qed
  have G: "?G m"
  proof (cases "in_net n3 (node ?w) \<and> deg_live n3 (node ?w) = 0")
    case True
    have e: "m = net_release E n3 (node ?w)" unfolding m' by (rule if_P[OF True])
    show ?thesis unfolding e by (rule rel[OF G3 disjI2[OF refl]])
  next
    case False
    have e: "m = n3" unfolding m' by (rule if_not_P[OF False])
    show ?thesis unfolding e by (rule G3)
  qed
  then show "net_ok m" "\<And>P. all_queued n P \<Longrightarrow> all_queued m P" by blast+
  show "\<And>u. live m u \<Longrightarrow> live n u" using G lv by blast
  show "wire m q = (if q = p \<or> q = wire n p then NONE else wire n q)" if "standing m {} q" for q
    using G that wc by simp
  show "(u = node p \<or> u = node (wire n p)) \<and> pins n = 0 \<and>
       (\<forall>i < 3. Port u i = p \<or> Port u i = wire n p \<or> wire n (Port u i) = NONE)" if "live n u" "\<not> live m u" for u
  proof -
    have "live c u" using that(1) lv by simp
    then have "(u = node p \<or> u = node ?w) \<and> pins n = 0" and i: "\<forall>i < 3. wire c (Port u i) = NONE"
      using G that(2) by blast+
    moreover have "Port u i = p \<or> Port u i = ?w \<or> wire n (Port u i) = NONE" if "i < 3" for i
      using i[rule_format, OF that] wc[of "Port u i"] by (auto split: if_splits)
    ultimately show ?thesis by blast
  qed
qed

text \<open>Publishing the pending slots moves them, in reverse, to the front of the free list.\<close>

lemma flush_loop_slots:
  "slots_ok n fs ps \<Longrightarrow> length ps \<le> k \<Longrightarrow>
   slots_ok (flush_loop k n) (rev ps @ fs) [] \<and>
   flush_loop k n = n\<lparr>wire := wire (flush_loop k n), free_head := free_head (flush_loop k n),
     pend_head := - 1\<rparr> \<and>
   (\<forall>q. (\<forall>v \<in> set ps. q \<noteq> Port v 0) \<longrightarrow> wire (flush_loop k n) q = wire n q)"
proof (induction k arbitrary: n fs ps)
  case 0
  then have "pend_head n = - 1" by (simp add: slots_ok_def)
  then show ?case using 0 by simp
next
  case (Suc k)
  show ?case
  proof (cases ps)
    case Nil
    then have "pend_head n = - 1" using Suc.prems by (simp add: slots_ok_def)
    then show ?thesis using Suc.prems Nil by simp
  next
    case (Cons v vs)
    have v: "pend_head n = v" "0 \<le> v" "v \<notin> set vs" "v \<notin> set fs"
      using Suc.prems(1) by (auto simp: slots_ok_def Cons in_net_def)
    let ?m = "n\<lparr>pend_head := node (wire n (Port v 0)), wire := (wire n)(Port v 0 := Port (free_head n) 0),
       free_head := v\<rparr>"
    have sl: "slots_ok ?m (v # fs) vs"
    proof -
      have "chain ((wire n)(Port v 0 := x)) h xs = chain (wire n) h xs" if "v \<notin> set xs" for x h xs
        using that by (intro chain_cong) auto
      then show ?thesis using Suc.prems(1) v by (auto simp: slots_ok_def Cons in_net_def)
    qed
    have lk: "length vs \<le> k" using Suc.prems(2) by (simp add: Cons)
    note ih = Suc.IH[OF sl lk]
    have fl: "flush_loop (Suc k) n = flush_loop k ?m" using v by simp
    have "flush_loop k ?m = n\<lparr>wire := wire (flush_loop k ?m), free_head := free_head (flush_loop k ?m),
        pend_head := - 1\<rparr>" by (rule trans[OF conjunct1[OF conjunct2[OF ih]]]) simp
    moreover have "\<forall>q. (\<forall>u \<in> set ps. q \<noteq> Port u 0) \<longrightarrow> wire (flush_loop k ?m) q = wire n q"
      using ih by (auto simp: Cons)
    moreover have "slots_ok (flush_loop k ?m) (rev ps @ fs) []" using ih by (simp add: Cons)
    ultimately show ?thesis unfolding fl by blast
  qed
qed

end
