(* ===== verification/NetRules.thy ===== *)
theory NetRules
  imports NetProps
begin

text \<open>
  The properties of the net operations and of the four rules of \<open>net_interact\<close>: what each rule does
  to the wiring, and that every operation keeps the invariant \<open>net_ok\<close> and loses no redex.
\<close>

section \<open>The rules\<close>

lemma interact_sides:
  assumes p: "{p, q} = {Port a 0, Port b 0}" and i: "net_interact E p q n = (m, fired)"
    and o: "tag_code (tag n a) < tag_code (tag n b)"
  shows "interact_ordered E a b n = (m, fired)"
proof -
  have "p = Port a 0 \<and> q = Port b 0 \<or> p = Port b 0 \<and> q = Port a 0"
    using p by (auto simp: doubleton_eq_iff)
  then show ?thesis using i o by (auto simp: net_interact_def)
qed

text \<open>The four auxiliaries are wired to ports outside the pair.\<close>

definition apart :: "net \<Rightarrow> int \<Rightarrow> int \<Rightarrow> bool" where
  "apart n a b \<longleftrightarrow> (\<forall>i \<in> {1, 2, 4, 5}. wire n (pport a b i) \<noteq> NONE \<and> node (wire n (pport a b i)) \<notin> {a, b})"

definition fused :: "net \<Rightarrow> net \<Rightarrow> port \<Rightarrow> port \<Rightarrow> bool" where
  "fused n m x y \<longleftrightarrow> wire m (wire n x) = wire n y \<and> wire m (wire n y) = wire n x"

lemma rewires_apart:
  assumes r: "rewires n m a b cor" and ap: "apart n a b" and c: "cor = cor_beta \<or> cor = cor_delta"
    and xy: "(x, y) \<in> set cor"
  shows "fused n m (pport a b x) (pport a b y)"
proof -
  have l: "leaving n a b = {1, 2, 4, 5}"
    using ap by (auto simp: leaving_def apart_def inside_None)
  have h: "handover n m (pport a b i) (pport a b (exit_of (inside_map n a b) cor i))" if "i \<in> {1, 2, 4, 5}" for i
    using r that unfolding rewires_def l by blast
  have ms: "inside_map n a b ! i = None" if "i \<in> {1, 2, 4, 5}" for i
    using that ap by (subst inside_map_nth) (auto simp: apart_def inside_None)
  have m: "mate cor x = y" "mate cor y = x" "x \<in> {1, 2, 4, 5}" "y \<in> {1, 2, 4, 5}"
    using xy c by (auto simp: cor_beta_def cor_delta_def mate_def)
  have "exit_of (inside_map n a b) cor x = y" "exit_of (inside_map n a b) cor y = x"
    using ms[OF m(3)] ms[OF m(4)] m(1,2) by (simp_all add: exit_of_def)
  then have "handover n m (pport a b x) (pport a b y)" "handover n m (pport a b y) (pport a b x)"
    using h[OF m(3)] h[OF m(4)] by simp_all
  moreover have "wire n (pport a b x) \<noteq> NONE" "wire n (pport a b y) \<noteq> NONE"
    using ap m(3,4) unfolding apart_def by blast+
  ultimately show ?thesis by (simp add: handover_def fused_def)
qed

text \<open>C1. The beta rule.  On a net that satisfies the invariant, firing a live lambda/application pair
  always succeeds, whichever order the two ports are given in; it keeps the invariant, loses no
  redex, removes the pair, leaves every other wire alone and hands each outside end of the pair
  to the end the rule pairs it with, also when auxiliaries of the pair are wired to each other.
  When all four auxiliaries lead outside, the body's end meets the result's and the binder's end
  meets the argument's.
\<close>

theorem beta_rule:
  assumes ok: "net_ok n" and r: "redex_live n (Port a 0) (Port b 0)" and E: "\<not> in_parallel E"
    and t: "tag n a = LAM" "tag n b = APP" and p: "{p, q} = {Port a 0, Port b 0}"
    and i: "net_interact E p q n = (m, fired)"
  shows "fired \<and> net_ok m \<and> (\<forall>P. all_queued n P \<longrightarrow> all_queued m P) \<and> rewires n m a b cor_beta \<and>
    (apart n a b \<longrightarrow> fused n m (Port a 1) (Port b 2) \<and> fused n m (Port a 2) (Port b 1))"
proof -
  have o: "interact_ordered E a b n = (m, fired)" using interact_sides[OF p i] t by simp
  then have m: "m = retire E a b (pair_boundary E a b cor_beta True n)" and f: "fired"
    using t by (auto simp: interact_ordered_def)
  note br = boundary_rule[OF ok r E disjI1[OF refl] m]
  have "apart n a b \<Longrightarrow> fused n m (Port a 1) (Port b 2) \<and> fused n m (Port a 2) (Port b 1)"
    using rewires_apart[OF br(2), of 1 5] rewires_apart[OF br(2), of 2 4]
    by (simp add: cor_beta_def pport_def)
  then show ?thesis using br(1-3) f by blast
qed

theorem beta_rule_witness:
  "\<exists>m. net_interact seq_env (Port 2 0) (Port 1 0) beta_net = (m, True) \<and> net_ok m \<and>
     rewires beta_net m 1 2 cor_beta \<and> wire m (Port 0 0) = Port 3 0"
proof -
  obtain m f where i: "net_interact seq_env (Port 2 0) (Port 1 0) beta_net = (m, f)" by fastforce
  have s: "{Port 2 0, Port 1 0} = {Port 1 0, Port 2 0}" by auto
  note th = beta_rule[OF beta_net_ok(1,3) seq_env_simps(1) beta_net_ok(4,5) s i]
  have w: "wire beta_net (Port 2 2) = Port 0 0" "wire beta_net (Port 2 1) = Port 3 0"
    "wire beta_net (Port 1 1) = Port 1 2" "wire beta_net (Port 1 2) = Port 1 1"
    by (simp_all add: beta_net_wire beta_links_def link_ends_pair)
  have l: "5 \<in> leaving beta_net 1 2" by (simp add: leaving_def inside_def pport_def w)
  have "inside_map beta_net 1 2 ! 1 = Some 2" by (subst inside_map_nth) (simp_all add: inside_def pport_def w Let_def del: One_nat_def)
  then have x: "exit_of (inside_map beta_net 1 2) cor_beta 5 = 4"
    by (simp add: exit_of_def mate_def cor_beta_def)
  have "\<forall>i \<in> leaving beta_net 1 2.
      handover beta_net m (pport 1 2 i) (pport 1 2 (exit_of (inside_map beta_net 1 2) cor_beta i))"
    using th unfolding rewires_def by blast
  then have "handover beta_net m (pport 1 2 5) (pport 1 2 4)" using l unfolding x[symmetric] by blast
  then have "wire m (Port 0 0) = Port 3 0" by (simp add: handover_def pport_def w w[unfolded One_nat_def])
  then show ?thesis using th i by auto
qed


text \<open>C2. The annihilation rule.  Two fans of the same level always annihilate: the invariant is kept, no
  redex is lost, every other wire is left alone, and first meets first and second meets second.
\<close>

theorem annihilation_rule:
  assumes ok: "net_ok n" and r: "redex_live n (Port a 0) (Port b 0)" and E: "\<not> in_parallel E"
    and t: "tag n a = DUP" "tag n b = DUP" "scope n a = scope n b"
    and i: "net_interact E (Port a 0) (Port b 0) n = (m, fired)"
  shows "fired \<and> net_ok m \<and> (\<forall>P. all_queued n P \<longrightarrow> all_queued m P) \<and> rewires n m a b cor_delta \<and>
    (apart n a b \<longrightarrow> fused n m (Port a 1) (Port b 1) \<and> fused n m (Port a 2) (Port b 2))"
proof -
  have m: "m = retire E a b (pair_boundary E a b cor_delta True n)" and f: "fired"
    using t i by (auto simp: net_interact_def interact_ordered_def)
  note br = boundary_rule[OF ok r E disjI2[OF refl] m]
  have "apart n a b \<Longrightarrow> fused n m (Port a 1) (Port b 1) \<and> fused n m (Port a 2) (Port b 2)"
    using rewires_apart[OF br(2), of 1 4] rewires_apart[OF br(2), of 2 5]
    by (simp add: cor_delta_def pport_def)
  then show ?thesis using br(1-3) f by blast
qed

lemma fan_scope: "scope (fan_net t) v = 0"
  by (simp add: fan_net_def fan_alloc)

lemma fan_wires:
  "wire (fan_net t) (Port 1 1) = Port 3 0" "wire (fan_net t) (Port 1 2) = Port 4 0"
  "wire (fan_net t) (Port 2 1) = Port 5 0" "wire (fan_net t) (Port 2 2) = Port 6 0"
  by (simp_all add: fan_net_wire fan_links_def link_ends_pair)

lemmas fan_wires_Suc = fan_wires[unfolded One_nat_def]

lemma fan_apart: "apart (fan_net t) 1 2"
  unfolding apart_def using fan_wires_Suc[of t] by (simp add: pport_def)

theorem annihilation_rule_witness:
  "\<exists>m. net_interact seq_env (Port 1 0) (Port 2 0) (fan_net DUP) = (m, True) \<and> net_ok m \<and>
     wire m (Port 3 0) = Port 5 0 \<and> wire m (Port 4 0) = Port 6 0"
proof -
  obtain m f where i: "net_interact seq_env (Port 1 0) (Port 2 0) (fan_net DUP) = (m, f)" by fastforce
  have s: "scope (fan_net DUP) 1 = scope (fan_net DUP) 2" by (simp add: fan_scope)
  note th = annihilation_rule[OF fan_net_ok(1,3) seq_env_simps(1) fan_net_ok(4,5) s i]
  then have "fused (fan_net DUP) m (Port 1 1) (Port 2 1)" "fused (fan_net DUP) m (Port 1 2) (Port 2 2)"
    using fan_apart by blast+
  then show ?thesis using th i by (auto simp: fused_def fan_wires fan_wires_Suc)
qed

text \<open>C3. The duplication rule.  A lambda or an application meeting a fan always commutes with it.  The
  four copies are fresh nodes, cross-wired as the rule says, each at the place of one auxiliary (two
  auxiliaries wired to each other have their copies joined); the fan's copies keep its level and
  the node's copies get the levels whose paths are 1 resp. 2, the node's path and the fan's
  path, in that order.  The invariant is kept and no redex is lost.
\<close>

theorem duplication_rule:
  assumes ok: "net_ok n" and r: "redex_live n (Port a 0) (Port b 0)" and E: "\<not> in_parallel E"
    and t: "tag n a = LAM \<or> tag n a = APP" "tag n b = DUP" and p: "{p, q} = {Port a 0, Port b 0}"
    and i: "net_interact E p q n = (m, fired)"
  shows "fired \<and> net_ok m \<and> (\<forall>P. all_queued n P \<longrightarrow> all_queued m P) \<and>
    (\<exists>m1 m2 d1 d2. commuted n m a b m1 m2 d1 d2 \<and> scope m d1 = scope n b \<and> scope m d2 = scope n b \<and>
       lvl_path (lvl m) (scope m m1) = 1 # lvl_path (lvl n) (scope n a) @ lvl_path (lvl n) (scope n b) \<and>
       lvl_path (lvl m) (scope m m2) = 2 # lvl_path (lvl n) (scope n a) @ lvl_path (lvl n) (scope n b))"
proof -
  have o: "interact_ordered E a b n = (m, fired)" using interact_sides[OF p i] t by auto
  obtain L1 s1 where l1: "lvl_prefix2 (lvl n) 1 (scope n a) (scope n b) = (L1, s1)" by fastforce
  obtain L2 s2 where l2: "lvl_prefix2 L1 2 (scope n a) (scope n b) = (L2, s2)" by fastforce
  let ?n = "n\<lparr>lvl := L2\<rparr>"
  have lab: "live n a" "live n b" using r by (simp_all add: redex_live_def)
  note cl = commute_labels[OF ok lab l1 l2]
  note nl = net_ok_lvl[OF ok cl(1,2)]
  have f: "fired" and m: "m = duplicate E a b (tag ?n a) s1 s2 (tag ?n b) (scope ?n b) (aux_wires ?n a b) ?n"
    using o t by (auto simp: interact_ordered_def l1 l2 aux_wires_def simp del: One_nat_def)
  have r': "redex_live ?n (Port a 0) (Port b 0)" using r nl(3) by simp
  have sc: "s1 \<le> nlv (lvl ?n)" "s2 \<le> nlv (lvl ?n)" using cl(3,4) by simp_all
  note d = duplicate_rule[OF nl(1) r' E sc m]
  obtain m1 m2 d1 d2 where c: "commuted ?n m a b m1 m2 d1 d2" and
    s: "scope m m1 = s1" "scope m m2 = s2" "scope m d1 = scope n b" "scope m d2 = scope n b"
    using d(3) by auto
  have "live ?n = live n" "standing ?n = standing n" "wire ?n = wire n" "tag ?n = tag n" "scope ?n = scope n"
    by (auto simp: fun_eq_iff live_def in_net_def standing_def)
  note same = this
  have "commuted n m a b m1 m2 d1 d2"
    using c unfolding commuted_def took_over_def same .
  moreover have "lvl m = L2" using d(6) by simp
  ultimately have "\<exists>m1 m2 d1 d2. commuted n m a b m1 m2 d1 d2 \<and> scope m d1 = scope n b \<and> scope m d2 = scope n b \<and>
       lvl_path (lvl m) (scope m m1) = 1 # lvl_path (lvl n) (scope n a) @ lvl_path (lvl n) (scope n b) \<and>
       lvl_path (lvl m) (scope m m2) = 2 # lvl_path (lvl n) (scope n a) @ lvl_path (lvl n) (scope n b)"
    using s cl(5,6) by metis
  moreover have "all_queued n P \<Longrightarrow> all_queued m P" for P using nl(2) d(2) by blast
  ultimately show ?thesis using f d(1) by blast
qed

theorem duplication_rule_witness:
  "\<exists>m m1 m2 d1 d2. net_interact seq_env (Port 2 0) (Port 1 0) (fan_net LAM) = (m, True) \<and> net_ok m \<and>
     commuted (fan_net LAM) m 1 2 m1 m2 d1 d2 \<and> lvl_path (lvl m) (scope m m1) = [1] \<and>
     lvl_path (lvl m) (scope m m2) = [2]"
proof -
  obtain m f where i: "net_interact seq_env (Port 2 0) (Port 1 0) (fan_net LAM) = (m, f)" by fastforce
  have s: "{Port 2 0, Port 1 0} = {Port 1 0, Port 2 0}" by auto
  note th = duplication_rule[OF fan_net_ok(1,3) seq_env_simps(1) disjI1[OF fan_net_ok(4)] fan_net_ok(5) s i]
  then show ?thesis using i by (auto simp: fan_scope)
qed

section \<open>Every operation keeps the invariant\<close>

text \<open>C4. Firing a pair.  On a net that satisfies the invariant, \<open>net_interact\<close> fires a live redex
  exactly when the rule table has an entry for its two tags; then both nodes are gone, at most four
  slots are taken, the invariant holds again and every redex of the result is queued or was
  already exempt.  A pair without a rule leaves the net as it is.
\<close>

theorem interact_preserves:
  assumes ok: "net_ok n" and r: "redex_live n p q" and E: "\<not> in_parallel E"
    and i: "net_interact E p q n = (m, fired)"
  shows "net_ok m \<and> (\<forall>P. all_queued n P \<longrightarrow> all_queued m P) \<and> nn m \<le> nn n + 4 \<and>
    (fired \<longleftrightarrow> interacts (tag n (node p)) (tag n (node q))) \<and>
    (fired \<longrightarrow> \<not> live m (node p) \<and> \<not> live m (node q)) \<and> (\<not> fired \<longrightarrow> m = n)"
  using interact_ok[OF ok r E i] by blast

theorem interact_preserves_witness:
  "snd (net_interact seq_env (Port 1 0) (Port 2 0) (fan_net ERA)) = False \<and>
   fst (net_interact seq_env (Port 1 0) (Port 2 0) (fan_net ERA)) = fan_net ERA"
proof -
  obtain m f where i: "net_interact seq_env (Port 1 0) (Port 2 0) (fan_net ERA) = (m, f)" by fastforce
  have "\<not> interacts (tag (fan_net ERA) 1) (tag (fan_net ERA) 2)"
    by (simp add: fan_net_ok(4,5) interacts_def)
  then show ?thesis using interact_preserves[OF fan_net_ok(1,3) seq_env_simps(1) i] i by simp
qed

text \<open>C5. Allocation.  \<open>net_alloc\<close> with a level of the trie never aborts outside a threaded wave; the
  node it hands out was not alive, is alive afterwards with its tag, its level and three free
  ports, no other node and no other wire changes, and the invariant and the queue are kept.
\<close>

theorem alloc_hands_out_fresh_node:
  assumes ok: "net_ok n" and E: "\<not> in_parallel E" and sc: "sc \<le> nlv (lvl n)"
    and r: "net_alloc E t sc n = (m, v)"
  shows "net_ok m \<and> \<not> fatal m \<and> \<not> live n v \<and> (\<forall>u. live m u \<longleftrightarrow> live n u \<or> u = v) \<and>
    tag m v = t \<and> scope m v = sc \<and> (\<forall>i < 3. wire m (Port v i) = NONE) \<and>
    (\<forall>q. node q \<noteq> v \<longrightarrow> wire m q = wire n q) \<and> act m = act n \<and>
    (0 \<le> free_head n \<longrightarrow> v = free_head n \<and> nn m = nn n) \<and> (free_head n < 0 \<longrightarrow> v = nn n)"
proof -
  note a = net_ok_alloc[OF ok E sc r]
  have "nn (net_ensure_cap n k) = nn n" for k
    by (auto simp: net_ensure_cap_def Let_def)
  then have "(0 \<le> free_head n \<longrightarrow> v = free_head n \<and> nn m = nn n) \<and> (free_head n < 0 \<longrightarrow> v = nn n)"
    using r E by (auto simp: net_alloc_def alloc_slot_def Let_def split: if_splits)
  moreover have "\<not> fatal m" using a(2) by (simp add: net_ok_def room_ok_def)
  ultimately show ?thesis using a unfolding fresh_node_def by blast
qed

theorem alloc_hands_out_fresh_node_witness:
  "\<exists>m. net_alloc seq_env DUP 0 beta_net = (m, nn beta_net) \<and> net_ok m \<and> tag m (nn beta_net) = DUP"
proof -
  obtain m v where r: "net_alloc seq_env DUP 0 beta_net = (m, v)" by fastforce
  have z: "0 \<le> nlv (lvl beta_net)" by simp
  have "free_head beta_net = - 1"
    by (simp add: beta_net_def demo_links_def beta_links_def demo_eval net_link_def)
  then show ?thesis using alloc_hands_out_fresh_node[OF beta_net_ok(1) seq_env_simps(1) z r] r by auto
qed

text \<open>C6. Severing.  Cutting a wire that is not a redex, on a net that satisfies the invariant, removes
  that wire at both ends and no other, keeps the invariant and the queue, and frees a node only when
  the cut removed its last connection and no walk has the net pinned.
\<close>

theorem sever_cuts_one_wire:
  assumes ok: "net_ok n" and p: "standing n {} p" "wire n p \<noteq> NONE"
    and nr: "\<not> redex_live n p (wire n p)"
  shows "let m = net_sever E p n in net_ok m \<and> (\<forall>P. all_queued n P \<longrightarrow> all_queued m P) \<and>
    (\<forall>q. standing m {} q \<longrightarrow> wire m q = (if q = p \<or> q = wire n p then NONE else wire n q)) \<and>
    (\<forall>u. live m u \<longrightarrow> live n u) \<and>
    (\<forall>u. live n u \<and> \<not> live m u \<longrightarrow> (u = node p \<or> u = node (wire n p)) \<and> pins n = 0 \<and>
       (\<forall>i < 3. Port u i = p \<or> Port u i = wire n p \<or> wire n (Port u i) = NONE))"
  unfolding Let_def using sever_at_rest[OF ok p disjI1[OF nr] refl[of "net_sever E p n"]] by blast

theorem sever_cuts_one_wire_witness:
  "wire (net_sever seq_env (Port 2 2) beta_net) (Port 2 2) = NONE \<and> net_ok (net_sever seq_env (Port 2 2) beta_net)"
proof -
  have l: "live beta_net v \<longleftrightarrow> 0 \<le> v \<and> v < 4" for v by (simp add: beta_net_def beta_alloc)
  have w: "wire beta_net (Port 2 2) = Port 0 0" "wire beta_net (Port 2 0) = Port 1 0"
    by (simp_all add: beta_net_wire beta_links_def link_ends_pair)
  have s: "standing beta_net {} (Port 2 2)" by (simp add: standing_def l)
  have "wire beta_net (Port 2 2) \<noteq> NONE" "\<not> redex_live beta_net (Port 2 2) (wire beta_net (Port 2 2))"
    by (simp_all add: w redex_live_def)
  note th = sever_cuts_one_wire[OF beta_net_ok(1) s this, of seq_env, unfolded Let_def]
  let ?m = "net_sever seq_env (Port 2 2) beta_net"
  have "live ?m 2"
  proof (rule ccontr)
    assume "\<not> live ?m 2"
    then have "Port 2 0 = Port 2 2 \<or> Port 2 0 = wire beta_net (Port 2 2) \<or> wire beta_net (Port 2 0) = NONE"
      using th l[of 2] by fastforce
    then show False by (simp add: w)
  qed
  then have "standing ?m {} (Port 2 2)" by (simp add: standing_def)
  then show ?thesis using th by auto
qed

lemma flush_ok:
  assumes ok: "net_ok n" and sl: "slots_ok n fs ps"
  defines "m \<equiv> flush_loop (nat (nfree n)) n"
  shows "net_ok m" "slots_ok m (rev ps @ fs) []" "live m v = live n v" "live n (node q) \<Longrightarrow> wire m q = wire n q"
    "\<And>P. all_queued n P \<Longrightarrow> all_queued m P" "m = n\<lparr>wire := wire m, free_head := free_head m, pend_head := - 1\<rparr>"
proof -
  have "length ps \<le> nat (nfree n)" using sl by (simp add: slots_ok_def)
  note fl = flush_loop_slots[OF sl this, folded m_def]
  show s: "slots_ok m (rev ps @ fs) []" and e: "m = n\<lparr>wire := wire m, free_head := free_head m, pend_head := - 1\<rparr>"
    using fl by blast+
  have f: "act m = act n" "act_of m = act_of n" "dead m = dead n" "lvl m = lvl n" "scope m = scope n"
    "nn m = nn n" "ncap m = ncap n" "fatal m = fatal n"
  proof -
    obtain w h where "m = n\<lparr>wire := w, free_head := h, pend_head := - 1\<rparr>" using e by blast
    then show "act m = act n" "act_of m = act_of n" "dead m = dead n" "lvl m = lvl n" "scope m = scope n"
      "nn m = nn n" "ncap m = ncap n" "fatal m = fatal n" by simp_all
  qed
  show lv: "live m v = live n v" for v by (simp add: live_def in_net_def f)
  have dd: "v \<in> set ps \<Longrightarrow> \<not> live n v" for v using sl by (auto simp: slots_ok_def live_def)
  show w: "live n (node q) \<Longrightarrow> wire m q = wire n q" for q
    using fl dd by (metis port.sel(1))
  have st: "standing m D q = standing n D q" for D q by (simp add: standing_def lv)
  have rd: "redex_live m p q = redex_live n p q" for p q
  proof (cases "live n (node p) \<and> live n (node q)")
    case True
    then have "wire m p = wire n p" "wire m q = wire n q" using w by blast+
    then show ?thesis unfolding redex_live_def lv by simp
  qed (auto simp: redex_live_def lv)
  have "wired m {} {}" unfolding wired_def
  proof (intro allI impI)
    fix p assume "standing m {} p"
    then have p: "standing n {} p" using st by simp
    then have wp: "wire m p = wire n p" using w by (simp add: standing_def)
    have l: "linked n {} {} p" using ok p by (simp add: net_ok_def wired_def)
    show "linked m {} {} p"
    proof (cases "wire n p = NONE")
      case False
      then have "live n (node (wire n p))" using l by (simp add: linked_def)
      then show ?thesis using l w by (simp add: linked_def wp lv)
    qed (simp add: linked_def wp)
  qed
  moreover have "queue_live m" using ok by (simp add: net_ok_def queue_live_def f rd)
  moreover have "queue_ok m" using ok by (simp add: net_ok_def queue_ok_def f)
  moreover have "levels_ok m" "room_ok m" using ok by (simp_all add: net_ok_def levels_ok_def room_ok_def f lv)
  ultimately show "net_ok m" using s unfolding net_ok_def by blast
  show "all_queued n P \<Longrightarrow> all_queued m P" for P by (simp add: all_queued_def f rd)
qed

text \<open>Publication.  At the outermost reduce \<open>net_flush_free\<close> moves every pending slot, last freed
  first, in front of the free list and nothing else: no live node, no wire of a live node and no
  queued pair changes, and the pending list is empty.  In a nested reduce it publishes nothing.
\<close>

theorem flush_publishes_pending:
  assumes ok: "net_ok n" and sl: "slots_ok n fs ps"
  shows "(1 < reduce_depth E \<longrightarrow> net_flush_free E n = n) \<and>
    (reduce_depth E \<le> 1 \<longrightarrow> (let m = net_flush_free E n in net_ok m \<and> slots_ok m (rev ps @ fs) [] \<and>
       (\<forall>v. live m v = live n v) \<and> (\<forall>q. live n (node q) \<longrightarrow> wire m q = wire n q) \<and> act m = act n \<and>
       pend_head m = - 1))"
proof -
  note f = flush_ok[OF ok sl]
  obtain w h where "flush_loop (nat (nfree n)) n = n\<lparr>wire := w, free_head := h, pend_head := - 1\<rparr>"
    using f(6) by blast
  then have "act (flush_loop (nat (nfree n)) n) = act n" "pend_head (flush_loop (nat (nfree n)) n) = - 1"
    by simp_all
  then show ?thesis using f(1-4) by (simp add: net_flush_free_def)
qed

theorem flush_publishes_pending_witness:
  "let n = net_release seq_env (demo_alloc [LAM, APP]) 2
   in pend_head n = 2 \<and> free_head (net_flush_free seq_env n) = 2 \<and> pend_head (net_flush_free seq_env n) = - 1"
proof -
  let ?d = "demo_alloc [LAM, APP]" and ?n = "net_release seq_env (demo_alloc [LAM, APP]) 2"
  have d: "live ?d v \<longleftrightarrow> 0 \<le> v \<and> v < 3" "wire ?d p = NONE" "pins ?d = 0" "pend_head ?d = - 1"
    "free_head ?d = - 1" "nfree ?d = 0" "in_net ?d v \<longleftrightarrow> 0 \<le> v \<and> v < 3" for v p
    by (auto simp: demo_eval live_def in_net_def)
  have ok: "net_ok ?d" using demo_alloc_ok by blast
  have e: "?n = shelve 2 ?d" unfolding net_release_at_rest[OF ok] by (simp add: d)
  have nok: "net_ok ?n" unfolding e by (rule shelve_ok[OF ok]) (simp_all add: d)
  have "slots_ok ?n [] [2]" unfolding e using d(7)[of 2] d by (simp add: slots_ok_def shelve_def in_net_def)
  note th = flush_publishes_pending[OF nok this, of seq_env]
  have "chain (wire (net_flush_free seq_env ?n)) (free_head (net_flush_free seq_env ?n)) [2]"
    using th by (simp add: Let_def slots_ok_def)
  then have fh: "free_head (net_flush_free seq_env ?n) = 2" by simp
  have "pend_head (net_flush_free seq_env ?n) = - 1" using th by (simp add: Let_def)
  moreover have "pend_head ?n = 2" unfolding e by (simp add: shelve_def)
  ultimately show ?thesis using fh by (simp add: Let_def)
qed

end
