(* ===== verification/Collector.thy ===== *)
theory Collector
  imports NetRules
begin

text \<open>
  The collector \<open>net_gc\<close> of \<open>src/net.c\<close>: a breadth-first mark from node 0, the demand roots and the
  queued pairs, the clean-up of the roots and of the queue with its index, and the sweep that puts
  every unmarked live node on the free list.  The marks are a predicate on node indices and the
  worklist, an array with a head and a tail in C, is a list read from the front.
\<close>

section \<open>Marking\<close>

text \<open>The macro \<open>SEED\<close>, which is also the loop body's test on a partner.\<close>

definition gc_add :: "net \<Rightarrow> int \<Rightarrow> (int \<Rightarrow> bool) \<times> int list \<Rightarrow> (int \<Rightarrow> bool) \<times> int list" where
  "gc_add n v s =
     (case s of (r, q) \<Rightarrow>
        if in_net n v \<and> \<not> dead n v \<and> \<not> r v then (r(v := True), q @ [v]) else (r, q))"

definition gc_anchors :: "net \<Rightarrow> int list" where
  "gc_anchors n = 0 # map node (root n) @ concat (map (\<lambda>(p, q). [node p, node q]) (act n))"

definition partners :: "net \<Rightarrow> int \<Rightarrow> int list" where
  "partners n u = map (\<lambda>p. node (wire n (Port u p))) [0, 1, 2]"

definition unmarked :: "net \<Rightarrow> (int \<Rightarrow> bool) \<Rightarrow> int set" where
  "unmarked n r = {v. live n v \<and> \<not> r v}"

lemma finite_unmarked [simp]: "finite (unmarked n r)"
  by (rule finite_subset[OF _ finite_live_set[of n]]) (auto simp: unmarked_def live_set_def)

lemma gc_add_spec:
  assumes "gc_add n v (r, q) = (r', q')"
  shows "r' u \<longleftrightarrow> r u \<or> u = v \<and> live n v" "u \<in> set q' \<longleftrightarrow> u \<in> set q \<or> r' u \<and> \<not> r u"
    "2 * card (unmarked n r') + length q' \<le> 2 * card (unmarked n r) + length q"
proof -
  have "r' = r \<and> q' = q \<and> \<not> (live n v \<and> \<not> r v) \<or>
      live n v \<and> \<not> r v \<and> r' = r(v := True) \<and> q' = q @ [v]"
    using assms by (auto simp: gc_add_def live_def split: if_splits)
  moreover have "card (unmarked n r) = Suc (card (unmarked n (r(v := True))))" if "live n v" "\<not> r v"
  proof -
    have "unmarked n (r(v := True)) = unmarked n r - {v}" "v \<in> unmarked n r"
      using that by (auto simp: unmarked_def)
    then show ?thesis by (metis card_Suc_Diff1 finite_unmarked)
  qed
  ultimately show "r' u \<longleftrightarrow> r u \<or> u = v \<and> live n v" "u \<in> set q' \<longleftrightarrow> u \<in> set q \<or> r' u \<and> \<not> r u"
    "2 * card (unmarked n r') + length q' \<le> 2 * card (unmarked n r) + length q"
    by (auto split: if_splits)
qed

lemma gc_adds_spec:
  "fold (gc_add n) vs (r, q) = (r', q') \<Longrightarrow>
   (\<forall>u. r' u \<longleftrightarrow> r u \<or> u \<in> set vs \<and> live n u) \<and> (\<forall>u. u \<in> set q' \<longleftrightarrow> u \<in> set q \<or> r' u \<and> \<not> r u) \<and>
   2 * card (unmarked n r') + length q' \<le> 2 * card (unmarked n r) + length q"
proof (induction vs arbitrary: r q)
  case (Cons v vs)
  obtain r1 q1 where a: "gc_add n v (r, q) = (r1, q1)" by fastforce
  have f: "fold (gc_add n) vs (r1, q1) = (r', q')" using Cons.prems by (simp add: a)
  note s = gc_add_spec[OF a] and ih = Cons.IH[OF f]
  show ?case
  proof (intro conjI allI)
    show "r' u \<longleftrightarrow> r u \<or> u \<in> set (v # vs) \<and> live n u" for u using ih s(1)[of u] by auto
    show "u \<in> set q' \<longleftrightarrow> u \<in> set q \<or> r' u \<and> \<not> r u" for u using ih s(1,2)[of u] by blast
    show "2 * card (unmarked n r') + length q' \<le> 2 * card (unmarked n r) + length q"
      using ih s(3) by linarith
  qed
qed auto

function gc_mark :: "net \<Rightarrow> (int \<Rightarrow> bool) \<Rightarrow> int list \<Rightarrow> int \<Rightarrow> bool" where
  "gc_mark n r [] = r"
| "gc_mark n r (u # q) = (case fold (gc_add n) (partners n u) (r, q) of (r', q') \<Rightarrow> gc_mark n r' q')"
  by pat_completeness auto
termination
proof (relation "measure (\<lambda>(n, r, q). 2 * card (unmarked n r) + length q)", goal_cases)
  case (2 n r u q x y)
  then have "fold (gc_add n) (partners n u) (r, q) = (x, y)" by simp
  then show ?case using gc_adds_spec[of n "partners n u" r q x y] by simp
qed simp

definition gc_reach :: "net \<Rightarrow> int \<Rightarrow> bool" where
  "gc_reach n = (case fold (gc_add n) (gc_anchors n) (\<lambda>_. False, []) of (r, q) \<Rightarrow> gc_mark n r q)"

text \<open>What the mark computes: the nodes a live path leads to from an anchor.\<close>

inductive reaches :: "net \<Rightarrow> int \<Rightarrow> bool" for n where
  anchor: "v \<in> set (gc_anchors n) \<Longrightarrow> live n v \<Longrightarrow> reaches n v"
| step: "reaches n u \<Longrightarrow> i < 3 \<Longrightarrow> live n (node (wire n (Port u i))) \<Longrightarrow> reaches n (node (wire n (Port u i)))"

lemma partners_iff: "v \<in> set (partners n u) \<longleftrightarrow> (\<exists>i < 3. v = node (wire n (Port u i)))"
proof -
  have "set [0, 1, 2] = {i :: nat. i < 3}" by auto
  then show ?thesis unfolding partners_def set_map by blast
qed

lemma reaches_live: "reaches n v \<Longrightarrow> live n v"
  by (induction rule: reaches.induct) auto

lemma gc_mark_sound:
  "\<forall>v. r v \<longrightarrow> reaches n v \<Longrightarrow> \<forall>v \<in> set q. r v \<Longrightarrow> gc_mark n r q v \<Longrightarrow> reaches n v"
proof (induction n r q rule: gc_mark.induct)
  case (2 n r u q)
  obtain r' q' where a: "fold (gc_add n) (partners n u) (r, q) = (r', q')" by fastforce
  note s = gc_adds_spec[OF a]
  have "reaches n u" using 2 by simp
  then have "\<forall>v. r' v \<longrightarrow> reaches n v" using s 2(2) unfolding partners_iff by (blast intro: reaches.step)
  moreover have "\<forall>v \<in> set q'. r' v" using s 2(3) by auto
  ultimately show ?case using 2(1)[OF a[symmetric]] 2(4) by (simp add: a)
qed simp

lemma gc_mark_complete:
  "\<forall>v \<in> set (gc_anchors n). live n v \<longrightarrow> r v \<Longrightarrow>
   \<forall>u. r u \<and> u \<notin> set q \<longrightarrow> (\<forall>v \<in> set (partners n u). live n v \<longrightarrow> r v) \<Longrightarrow>
   reaches n v \<Longrightarrow> gc_mark n r q v"
proof (induction n r q rule: gc_mark.induct)
  case (1 n r)
  from 1(3) show ?case
  proof (induction rule: reaches.induct)
    case (step u i)
    then have "r u" by simp
    moreover have "node (wire n (Port u i)) \<in> set (partners n u)" using step.hyps(2) unfolding partners_iff by blast
    ultimately show ?case using 1(2) step.hyps(3) by simp
  qed (use 1(1) in simp)
next
  case (2 n r u q)
  obtain r' q' where a: "fold (gc_add n) (partners n u) (r, q) = (r', q')" by fastforce
  note s = gc_adds_spec[OF a]
  have 1: "\<forall>v \<in> set (gc_anchors n). live n v \<longrightarrow> r' v" using s 2(2) by blast
  have "\<forall>x. r' x \<and> x \<notin> set q' \<longrightarrow> (\<forall>v \<in> set (partners n x). live n v \<longrightarrow> r' v)"
  proof (intro allI impI)
    fix x assume x: "r' x \<and> x \<notin> set q'"
    then have "r x" "x \<notin> set q" using s by blast+
    then show "\<forall>v \<in> set (partners n x). live n v \<longrightarrow> r' v"
      using 2(3) s by (cases "x = u") auto
  qed
  then show ?case using 2(1)[OF a[symmetric] 1 _ 2(4)] by (simp add: a)
qed

lemma gc_reach_iff: "gc_reach n v \<longleftrightarrow> reaches n v"
proof -
  obtain r q where a: "fold (gc_add n) (gc_anchors n) (\<lambda>_. False, []) = (r, q)" by fastforce
  note s = gc_adds_spec[OF a]
  have r: "r u \<longleftrightarrow> u \<in> set (gc_anchors n) \<and> live n u" "u \<in> set q \<longleftrightarrow> r u" for u using s by auto
  have "gc_mark n r q v \<Longrightarrow> reaches n v"
    by (rule gc_mark_sound[of r n q]) (use r in \<open>auto intro: reaches.anchor\<close>)
  moreover have "reaches n v \<Longrightarrow> gc_mark n r q v"
    by (rule gc_mark_complete[of n r q]) (use r in auto)
  ultimately show ?thesis by (auto simp: gc_reach_def a)
qed

section \<open>The sweep\<close>

definition gc_reindex :: "apair list \<Rightarrow> int \<Rightarrow> int" where
  "gc_reindex ps = fold (\<lambda>(i, (p, q)) f. f(node p := int i, node q := int i)) (enumerate 0 ps) (\<lambda>_. - 1)"

definition gc_free :: "(int \<Rightarrow> bool) \<Rightarrow> int \<Rightarrow> net \<times> int \<Rightarrow> net \<times> int" where
  "gc_free r v s =
     (case s of (n, freed) \<Rightarrow>
        if dead n v \<or> r v then (n, freed)
        else (n\<lparr>dead := (dead n)(v := True), tag := (tag n)(v := ERA),
                wire := (wire n)(Port v 0 := Port (free_head n) 0, Port v 1 := NONE, Port v 2 := NONE),
                free_head := v\<rparr>, freed + 1))"

definition net_gc :: "net \<Rightarrow> net" where
  "net_gc n =
     (if nn n \<le> 1 then n
      else let r = gc_reach n;
               n1 = n\<lparr>root := filter (\<lambda>p. \<not> dead n (node p)) (root n),
                      act := filter (\<lambda>(p, q). \<not> dead n (node p) \<and> \<not> dead n (node q)) (act n)\<rparr>;
               n2 = n1\<lparr>act_of := gc_reindex (act n1)\<rparr>
           in case fold (gc_free r) [1..nn n2 - 1] (n2, 0) of (n3, freed) \<Rightarrow>
                n3\<lparr>nfree := nfree n3 + freed\<rparr>)"

definition garbage :: "net \<Rightarrow> int list" where
  "garbage n = filter (\<lambda>v. live n v \<and> \<not> reaches n v) [1..nn n - 1]"

lemma gc_free_fold:
  "fold (gc_free r) vs (n, c) = (m, d) \<Longrightarrow> distinct vs \<Longrightarrow> chain (wire n) (free_head n) fs \<Longrightarrow>
   \<forall>v \<in> set fs. dead n v \<Longrightarrow> new = filter (\<lambda>v. \<not> dead n v \<and> \<not> r v) vs \<Longrightarrow>
   (\<exists>D T W h. m = n\<lparr>dead := D, tag := T, wire := W, free_head := h\<rparr>) \<and> d = c + int (length new) \<and>
   (\<forall>v. dead m v \<longleftrightarrow> dead n v \<or> v \<in> set new) \<and> (\<forall>v. v \<notin> set new \<longrightarrow> tag m v = tag n v) \<and>
   (\<forall>q. node q \<notin> set new \<longrightarrow> wire m q = wire n q) \<and> chain (wire m) (free_head m) (rev new @ fs)"
proof (induction vs arbitrary: n c fs new)
  case Nil
  have "n = n\<lparr>dead := dead n, tag := tag n, wire := wire n, free_head := free_head n\<rparr>" by simp
  then have "\<exists>D T W h. n = n\<lparr>dead := D, tag := T, wire := W, free_head := h\<rparr>" by blast
  then show ?case using Nil by auto
next
  case (Cons v vs)
  show ?case
  proof (cases "dead n v \<or> r v")
    case True
    then have "fold (gc_free r) vs (n, c) = (m, d)" "new = filter (\<lambda>v. \<not> dead n v \<and> \<not> r v) vs"
      using Cons.prems gc_free_def[of r v "(n, c)"] by auto
    then show ?thesis using Cons.IH[of n c fs new] Cons.prems by simp
  next
    case False
    let ?k = "n\<lparr>dead := (dead n)(v := True), tag := (tag n)(v := ERA),
      wire := (wire n)(Port v 0 := Port (free_head n) 0, Port v 1 := NONE, Port v 2 := NONE), free_head := v\<rparr>"
    let ?new = "filter (\<lambda>v. \<not> dead n v \<and> \<not> r v) vs"
    have "gc_free r v (n, c) = (?k, c + 1)" using False by (simp add: gc_free_def)
    then have f: "fold (gc_free r) vs (?k, c + 1) = (m, d)" using Cons.prems(1) by simp
    have nv: "v \<notin> set vs" "v \<notin> set fs" using Cons.prems(2,4) False by auto
    then have new': "?new = filter (\<lambda>v. \<not> dead ?k v \<and> \<not> r v) vs" by (auto intro: filter_cong)
    have "chain ((wire n)(Port v 0 := x, Port v 1 := NONE, Port v 2 := NONE)) h fs = chain (wire n) h fs" for x h
      using nv by (intro chain_cong) auto
    then have ch: "chain (wire ?k) (free_head ?k) (v # fs)" using Cons.prems(3) by simp
    have "distinct vs" "\<forall>u \<in> set (v # fs). dead ?k u" using Cons.prems(2,4) by auto
    note ih = Cons.IH[OF f this(1) ch this(2) new']
    have n: "new = v # ?new" using Cons.prems(5) False by simp
    obtain D T W h where m: "m = ?k\<lparr>dead := D, tag := T, wire := W, free_head := h\<rparr>" using ih by blast
    have "m = n\<lparr>dead := D, tag := T, wire := W, free_head := h\<rparr>" unfolding m by simp
    then have "\<exists>D T W h. m = n\<lparr>dead := D, tag := T, wire := W, free_head := h\<rparr>" by blast
    moreover have "d = c + int (length new)" using ih n by simp
    moreover have "dead m u \<longleftrightarrow> dead n u \<or> u \<in> set new" for u using ih n by auto
    moreover have "u \<notin> set new \<Longrightarrow> tag m u = tag n u" for u using ih n by auto
    moreover have "node q \<notin> set new \<Longrightarrow> wire m q = wire n q" for q using ih n by (auto simp: fun_upd_apply)
    moreover have "chain (wire m) (free_head m) (rev new @ fs)" using ih n by simp
    ultimately show ?thesis by blast
  qed
qed

text \<open>Rebuilding the index of a well-formed queue gives back the index.\<close>

lemma gc_reindex_snoc:
  "gc_reindex (ps @ [(p, q)]) = (gc_reindex ps)(node p := int (length ps), node q := int (length ps))"
  by (simp add: gc_reindex_def enumerate_append_eq)

lemma gc_reindex_spec_aux:
  "(0 \<le> gc_reindex ps v \<longrightarrow> nat (gc_reindex ps v) < length ps \<and>
     (v = node (fst (ps ! nat (gc_reindex ps v))) \<or> v = node (snd (ps ! nat (gc_reindex ps v))))) \<and>
   (gc_reindex ps v < 0 \<longrightarrow> (\<forall>i < length ps. v \<noteq> node (fst (ps ! i)) \<and> v \<noteq> node (snd (ps ! i))))"
proof (induction ps rule: rev_induct)
  case (snoc x ps)
  obtain p q where x: "x = (p, q)" by fastforce
  show ?case using snoc unfolding x gc_reindex_snoc
    by (auto simp: nth_append less_Suc_eq split: if_splits)
qed (simp add: gc_reindex_def)

lemma gc_reindex_spec:
  "0 \<le> gc_reindex ps v \<Longrightarrow> nat (gc_reindex ps v) < length ps \<and>
     (v = node (fst (ps ! nat (gc_reindex ps v))) \<or> v = node (snd (ps ! nat (gc_reindex ps v))))"
  "gc_reindex ps v < 0 \<Longrightarrow> i < length ps \<Longrightarrow> v \<noteq> node (fst (ps ! i)) \<and> v \<noteq> node (snd (ps ! i))"
  using gc_reindex_spec_aux[of ps v] by blast+

lemma gc_reindex_queue:
  assumes q: "queue_ok n" and a: "act m = act n" "act_of m = gc_reindex (act n)"
  shows "queue_ok m" "0 \<le> act_of m v \<longleftrightarrow> 0 \<le> act_of n v"
proof -
  let ?f = "gc_reindex (act n)"
  have q1: "node (fst (act n ! i)) \<noteq> node (snd (act n ! i))" "act_of n (node (fst (act n ! i))) = int i"
    "act_of n (node (snd (act n ! i))) = int i" if "i < length (act n)" for i
    using q that unfolding queue_ok_def by blast+
  have q2: "nat (act_of n v) < length (act n)"
    "v = node (fst (act n ! nat (act_of n v))) \<or> v = node (snd (act n ! nat (act_of n v)))" if "0 \<le> act_of n v" for v
    using q that unfolding queue_ok_def by blast+
  have val: "?f v = int i" if i: "i < length (act n)" "v = node (fst (act n ! i)) \<or> v = node (snd (act n ! i))" for v i
  proof -
    have nn: "0 \<le> ?f v" using gc_reindex_spec(2)[of "act n" v i] i by linarith
    have "act_of n v = int (nat (?f v))" using gc_reindex_spec(1)[OF nn] q1(2,3) by metis
    moreover have "act_of n v = int i" using i q1(2,3) by metis
    ultimately show ?thesis using nn by simp
  qed
  show "queue_ok m" unfolding queue_ok_def a
  proof (intro conjI allI impI)
    fix i assume "i < length (act n)"
    then show "node (fst (act n ! i)) \<noteq> node (snd (act n ! i))" "?f (node (fst (act n ! i))) = int i"
      "?f (node (snd (act n ! i))) = int i" using q1(1) val by blast+
  next
    fix v assume "0 \<le> ?f v"
    then show "nat (?f v) < length (act n)" "v = node (fst (act n ! nat (?f v))) \<or> v = node (snd (act n ! nat (?f v)))"
      using gc_reindex_spec(1) by blast+
  qed
  show "0 \<le> act_of m v \<longleftrightarrow> 0 \<le> act_of n v"
  proof
    assume "0 \<le> act_of m v"
    then have "0 \<le> ?f v" by (simp add: a)
    then have "act_of n v = int (nat (?f v))" using gc_reindex_spec(1)[of "act n" v] q1(2,3) by metis
    then show "0 \<le> act_of n v" by simp
  next
    assume "0 \<le> act_of n v"
    then have "?f v = int (nat (act_of n v))" using val q2 by blast
    then show "0 \<le> act_of m v" by (simp add: a)
  qed
qed

section \<open>What a collection does\<close>

lemma net_gc_shape:
  assumes ok: "net_ok n" and nn: "1 < nn n" and sl: "slots_ok n fs ps" and m: "m = net_gc n"
  shows "\<exists>D T W h. m = n\<lparr>root := filter (\<lambda>p. \<not> dead n (node p)) (root n), act_of := gc_reindex (act n),
      dead := D, tag := T, wire := W, free_head := h, nfree := nfree n + int (length (garbage n))\<rparr>"
    "dead m v \<longleftrightarrow> dead n v \<or> v \<in> set (garbage n)" "v \<notin> set (garbage n) \<Longrightarrow> tag m v = tag n v"
    "node q \<notin> set (garbage n) \<Longrightarrow> wire m q = wire n q"
    "chain (wire m) (free_head m) (rev (garbage n) @ fs)"
proof -
  have ql: "queue_live n" using ok by (simp add: net_ok_def)
  have act: "filter (\<lambda>(p, q). \<not> dead n (node p) \<and> \<not> dead n (node q)) (act n) = act n"
    using ql by (intro filter_True) (auto simp: queue_live_def redex_live_def live_def)
  define k where "k = n\<lparr>root := filter (\<lambda>p. \<not> dead n (node p)) (root n), act_of := gc_reindex (act n)\<rparr>"
  have k: "nn k = nn n" "dead k = dead n" "wire k = wire n" "free_head k = free_head n" "tag k = tag n"
    by (simp_all add: k_def)
  obtain m' d where f: "fold (gc_free (gc_reach n)) [1..nn n - 1] (k, 0) = (m', d)" by fastforce
  have m': "m = m'\<lparr>nfree := nfree m' + d\<rparr>"
    unfolding m net_gc_def using nn f[unfolded k_def] by (simp add: Let_def act)
  have g: "garbage n = filter (\<lambda>v. \<not> dead k v \<and> \<not> gc_reach n v) [1..nn n - 1]"
    unfolding garbage_def by (intro filter_cong) (auto simp: k live_def in_net_def gc_reach_iff)
  have ch: "chain (wire k) (free_head k) fs" "\<forall>v \<in> set fs. dead k v"
    using sl by (auto simp: slots_ok_def k)
  note sp = gc_free_fold[OF f distinct_upto ch g]
  obtain D T W h where e: "m' = k\<lparr>dead := D, tag := T, wire := W, free_head := h\<rparr>" using sp by blast
  have "d = int (length (garbage n))" using sp by simp
  then have "m = n\<lparr>root := filter (\<lambda>p. \<not> dead n (node p)) (root n), act_of := gc_reindex (act n),
      dead := D, tag := T, wire := W, free_head := h, nfree := nfree n + int (length (garbage n))\<rparr>"
    unfolding m' e by (simp add: k_def)
  then show "\<exists>D T W h. m = n\<lparr>root := filter (\<lambda>p. \<not> dead n (node p)) (root n), act_of := gc_reindex (act n),
      dead := D, tag := T, wire := W, free_head := h, nfree := nfree n + int (length (garbage n))\<rparr>" by blast
  show "dead m v \<longleftrightarrow> dead n v \<or> v \<in> set (garbage n)" "v \<notin> set (garbage n) \<Longrightarrow> tag m v = tag n v"
    "node q \<notin> set (garbage n) \<Longrightarrow> wire m q = wire n q" "chain (wire m) (free_head m) (rev (garbage n) @ fs)"
    using sp by (simp_all add: m' k)
qed

lemma garbage_iff: "v \<in> set (garbage n) \<longleftrightarrow> live n v \<and> \<not> reaches n v"
proof -
  have "live n 0 \<Longrightarrow> reaches n 0" by (rule reaches.anchor) (simp_all add: gc_anchors_def)
  then have "live n v \<Longrightarrow> \<not> reaches n v \<Longrightarrow> v \<noteq> 0" by blast
  then show ?thesis by (force simp: garbage_def live_def in_net_def)
qed

lemma distinct_garbage: "distinct (garbage n)"
  by (simp add: garbage_def)

lemma net_gc_trivial:
  assumes "nn n \<le> 1"
  shows "net_gc n = n" "garbage n = []"
  using assms by (simp_all add: net_gc_def garbage_def)

lemma reaches_queue: "(p, q) \<in> set (act n) \<Longrightarrow> queue_live n \<Longrightarrow> reaches n (node p) \<and> reaches n (node q)"
  by (fastforce simp: queue_live_def redex_live_def gc_anchors_def intro: reaches.anchor)

lemma net_gc_ok:
  assumes ok: "net_ok n" and sl: "slots_ok n fs ps" and m: "m = net_gc n"
  shows "net_ok m" "slots_ok m (rev (garbage n) @ fs) ps" "live m v \<longleftrightarrow> reaches n v"
    "reaches n (node q) \<Longrightarrow> wire m q = wire n q" "reaches n v \<Longrightarrow> tag m v = tag n v \<and> scope m v = scope n v"
    "act m = act n" "root m = (if nn n \<le> 1 then root n else filter (\<lambda>p. \<not> dead n (node p)) (root n))" "\<And>P. all_queued n P \<Longrightarrow> all_queued m P"
proof -
  have "net_ok m \<and> slots_ok m (rev (garbage n) @ fs) ps \<and> (\<forall>v. live m v \<longleftrightarrow> reaches n v) \<and>
    (\<forall>q. reaches n (node q) \<longrightarrow> wire m q = wire n q) \<and>
    (\<forall>v. reaches n v \<longrightarrow> tag m v = tag n v \<and> scope m v = scope n v) \<and>
    act m = act n \<and> root m = (if nn n \<le> 1 then root n else filter (\<lambda>p. \<not> dead n (node p)) (root n)) \<and> (\<forall>P. all_queued n P \<longrightarrow> all_queued m P)"
  proof (cases "nn n \<le> 1")
    case True
    note t = net_gc_trivial[OF True]
    have g: "live n v \<longleftrightarrow> reaches n v" for v using garbage_iff[of v n] reaches_live[of n v] t(2) by auto
    then show ?thesis using ok sl True reaches_live unfolding m t by auto
  next
    case False
    then have nn: "1 < nn n" by simp
    note sh = net_gc_shape[OF ok nn sl m]
    obtain D T W h where e: "m = n\<lparr>root := filter (\<lambda>p. \<not> dead n (node p)) (root n), act_of := gc_reindex (act n),
      dead := D, tag := T, wire := W, free_head := h, nfree := nfree n + int (length (garbage n))\<rparr>"
      using sh(1) by blast
    have f: "root m = filter (\<lambda>p. \<not> dead n (node p)) (root n)" "act m = act n" "act_of m = gc_reindex (act n)"
      "scope m = scope n" "lvl m = lvl n" "nn m = nn n" "ncap m = ncap n" "fatal m = fatal n"
      "pend_head m = pend_head n" "nfree m = nfree n + int (length (garbage n))" by (simp_all add: e)
    have i: "in_net m v = in_net n v" for v by (simp add: in_net_def f)
    have lv: "live m v \<longleftrightarrow> reaches n v" for v
      using sh(2)[of v] garbage_iff[of v n] reaches_live[of n v] by (auto simp: live_def i)
    have ng: "reaches n v \<Longrightarrow> v \<notin> set (garbage n)" for v by (simp add: garbage_iff)
    have w: "reaches n (node q) \<Longrightarrow> wire m q = wire n q" for q using sh(4) ng by blast
    have q: "queue_ok n" "queue_live n" "wired n {} {}" using ok by (simp_all add: net_ok_def)
    have "wired m {} {}" unfolding wired_def
    proof (intro allI impI)
      fix p assume p: "standing m {} p"
      then have rp: "reaches n (node p)" "pno p < 3" by (simp_all add: standing_def lv)
      have sp: "standing n {} p" using rp reaches_live by (simp add: standing_def)
      show "linked m {} {} p"
      proof (cases "wire n p = NONE")
        case False
        note b = wired_back[OF q(3) sp False]
        have "live n (node (wire n (Port (node p) (pno p))))" using b(1) by (simp add: standing_def)
        from reaches.step[OF rp this] have "reaches n (node (wire n p))" by simp
        then show ?thesis using b w rp by (simp add: linked_def lv standing_def)
      qed (simp add: linked_def w rp)
    qed
    moreover have "queue_ok m" by (rule gc_reindex_queue(1)[OF q(1) f(2,3)])
    moreover have rl: "redex_live m x y" if "(x, y) \<in> set (act n)" for x y
    proof -
      have "redex_live n x y" using q(2) that by (auto simp: queue_live_def)
      then show ?thesis using reaches_queue[OF that q(2)] by (simp add: redex_live_def lv w)
    qed
    then have "queue_live m" by (auto simp: queue_live_def f)
    moreover have slm: "slots_ok m (rev (garbage n) @ fs) ps"
    proof -
      have d: "v \<in> set (fs @ ps) \<Longrightarrow> v \<notin> set (garbage n) \<and> in_net n v \<and> dead n v" for v
        using sl by (auto simp: slots_ok_def garbage_iff live_def)
      have "chain (wire m) (pend_head n) ps = chain (wire n) (pend_head n) ps"
        using d by (intro chain_cong) (auto intro: sh(4))
      moreover have "v \<in> set (garbage n) \<Longrightarrow> in_net n v" for v by (simp add: garbage_iff live_def)
      moreover have "distinct (rev (garbage n) @ fs @ ps)"
        using sl d distinct_garbage[of n] by (auto simp: slots_ok_def)
      ultimately show ?thesis using sl sh(5) d by (auto simp: slots_ok_def f i sh(2))
    qed
    moreover have "levels_ok m" using ok reaches_live by (auto simp: net_ok_def levels_ok_def f lv)
    moreover have "room_ok m"
    proof -
      have "\<not> dead m v \<and> act_of m v < 0" if v: "nn n \<le> v" for v
      proof -
        have "v \<notin> set (garbage n)" using v by (auto simp: garbage_iff live_def in_net_def)
        moreover have "\<not> dead n v \<and> act_of n v < 0" using ok v by (simp add: net_ok_def room_ok_def)
        ultimately show ?thesis using sh(2) gc_reindex_queue(2)[OF q(1) f(2,3), of v] by auto
      qed
      then show ?thesis using ok by (simp add: net_ok_def room_ok_def f)
    qed
    ultimately have "net_ok m" unfolding net_ok_def by blast
    moreover have "all_queued m P" if "all_queued n P" for P
    proof -
      have "redex_live m x y \<Longrightarrow> redex_live n x y" for x y
        using w[of x] w[of y] by (auto simp: redex_live_def lv reaches_live)
      then show ?thesis using that gc_reindex_queue(2)[OF q(1) f(2,3)] by (simp add: all_queued_def)
    qed
    ultimately show ?thesis using lv w sh(3) ng slm f nn by simp
  qed
  then show "net_ok m" "slots_ok m (rev (garbage n) @ fs) ps" "live m v \<longleftrightarrow> reaches n v"
    "reaches n (node q) \<Longrightarrow> wire m q = wire n q" "reaches n v \<Longrightarrow> tag m v = tag n v \<and> scope m v = scope n v"
    "act m = act n" "root m = (if nn n \<le> 1 then root n else filter (\<lambda>p. \<not> dead n (node p)) (root n))" "\<And>P. all_queued n P \<Longrightarrow> all_queued m P"
    by blast+
qed

text \<open>C7. The collector is exact.  On a net that satisfies the invariant, after \<open>net_gc\<close> a node is
  alive exactly when a path of live nodes led to it from node 0, a demand root or a queued pair;
  every such node keeps its tag, its level and its three wires, the queue and all its redexes are
  kept, and the invariant holds again.
\<close>

theorem gc_keeps_exactly_reachable:
  assumes ok: "net_ok n"
  shows "net_ok (net_gc n) \<and> (\<forall>v. live (net_gc n) v \<longleftrightarrow> reaches n v) \<and>
    (\<forall>q. reaches n (node q) \<longrightarrow> wire (net_gc n) q = wire n q) \<and>
    (\<forall>v. reaches n v \<longrightarrow> tag (net_gc n) v = tag n v \<and> scope (net_gc n) v = scope n v) \<and>
    act (net_gc n) = act n \<and> (\<forall>P. all_queued n P \<longrightarrow> all_queued (net_gc n) P)"
proof -
  obtain fs ps where sl: "slots_ok n fs ps" using ok by (auto simp: net_ok_def)
  show ?thesis using net_gc_ok[OF ok sl refl] by blast
qed

lemma demo_reaches: "reaches (demo_alloc [LAM, APP]) v \<longleftrightarrow> v = 0"
proof
  have d: "wire (demo_alloc [LAM, APP]) p = NONE" "root (demo_alloc [LAM, APP]) = []"
    "act (demo_alloc [LAM, APP]) = []" "live (demo_alloc [LAM, APP]) 0" for p
    by (auto simp: demo_eval live_def in_net_def)
  show "reaches (demo_alloc [LAM, APP]) v \<Longrightarrow> v = 0"
    by (induction rule: reaches.induct) (auto simp: gc_anchors_def d)
  show "v = 0 \<Longrightarrow> reaches (demo_alloc [LAM, APP]) v"
    using d by (auto intro!: reaches.anchor simp: gc_anchors_def)
qed

theorem gc_keeps_exactly_reachable_witness:
  "live (demo_alloc [LAM, APP]) 1 \<and> \<not> live (net_gc (demo_alloc [LAM, APP])) 1 \<and>
   live (net_gc (demo_alloc [LAM, APP])) 0"
proof -
  have ok: "net_ok (demo_alloc [LAM, APP])" using demo_alloc_ok by blast
  have "live (demo_alloc [LAM, APP]) 1" by (simp add: demo_eval live_def in_net_def)
  then show ?thesis using gc_keeps_exactly_reachable[OF ok] by (simp add: demo_reaches)
qed

text \<open>C8. Collected slots are reused.  A collection puts exactly the live unreachable nodes, highest
  first, in front of the published slots and leaves the pending ones alone; the next allocation
  then takes the highest of them instead of growing the net.
\<close>

theorem gc_recycles_garbage:
  assumes ok: "net_ok n" and sl: "slots_ok n fs ps" and E: "\<not> in_parallel E"
    and g: "garbage n \<noteq> []" and a: "net_alloc E t sc (net_gc n) = (m, v)"
  shows "slots_ok (net_gc n) (rev (garbage n) @ fs) ps \<and> (\<forall>u. u \<in> set (garbage n) \<longleftrightarrow> live n u \<and> \<not> reaches n u) \<and>
    v = last (garbage n) \<and> nn m = nn n"
proof -
  note gc = net_gc_ok[OF ok sl refl]
  have nn: "1 < nn n" using g net_gc_trivial(2)[of n] by fastforce
  obtain D T W h where "net_gc n = n\<lparr>root := filter (\<lambda>p. \<not> dead n (node p)) (root n),
      act_of := gc_reindex (act n), dead := D, tag := T, wire := W, free_head := h,
      nfree := nfree n + int (length (garbage n))\<rparr>" using net_gc_shape(1)[OF ok nn sl refl] by blast
  then have k: "nn (net_gc n) = nn n" "ncap (net_gc n) = ncap n" by simp_all
  obtain xs x where x: "garbage n = xs @ [x]" using g by (metis rev_exhaust)
  then have fh: "free_head (net_gc n) = last (garbage n)" using gc(2) by (simp add: slots_ok_def x)
  have "live n (last (garbage n))" using g garbage_iff last_in_set by blast
  then have "0 \<le> last (garbage n)" by (rule live_nonneg)
  then have "v = last (garbage n) \<and> nn m = nn n"
    using a E fh k by (auto simp: net_alloc_def alloc_slot_def Let_def split: if_splits)
  then show ?thesis using gc(2) garbage_iff by blast
qed

theorem gc_recycles_garbage_witness:
  "snd (net_alloc seq_env DUP 0 (net_gc (demo_alloc [LAM, APP]))) = 2"
proof -
  let ?d = "demo_alloc [LAM, APP]"
  have ok: "net_ok ?d" using demo_alloc_ok by blast
  have sl: "slots_ok ?d [] []" by (simp add: demo_eval slots_ok_def)
  have lv: "live ?d v \<longleftrightarrow> 0 \<le> v \<and> v < 3" for v by (auto simp: demo_eval live_def in_net_def)
  have "nn ?d - 1 = 2" by (simp add: demo_eval)
  then have g: "garbage ?d = [1, 2]" unfolding garbage_def lv demo_reaches by (simp add: upto.simps)
  obtain m v where a: "net_alloc seq_env DUP 0 (net_gc ?d) = (m, v)" by fastforce
  have "garbage ?d \<noteq> []" by (simp add: g)
  from gc_recycles_garbage[OF ok sl seq_env_simps(1) this a] show ?thesis using a by (simp add: g)
qed

end
