(* ===== verification/Demand.thy ===== *)
theory Demand
  imports NetRules
begin

unbundle bit_operations_syntax

text \<open>
  Needed order (\<open>src/net.c\<close>): \<open>net_mark_demand\<close> walks from the demand roots along the paths a weak
  head normal form runs through, marks the nodes it visits with the current stamp, and moves every
  queued pair whose two nodes are marked from the queue to \<open>dem_out\<close> (\<open>dem_put\<close>).  A node counts
  as visited once per port: \<open>vport\<close> holds one bit per port, valid under the current stamp.
\<close>

section \<open>The walk\<close>

definition marked :: "net \<Rightarrow> int \<Rightarrow> bool" where
  "marked n v \<longleftrightarrow> dem n v = dem_stamp n"

definition port_mask :: "port \<Rightarrow> 8 word" where
  "port_mask p = push_bit (pno p mod 4) 1"

definition seen :: "net \<Rightarrow> port \<Rightarrow> bool" where
  "seen n p \<longleftrightarrow> marked n (node p) \<and> vport n (node p) AND port_mask p \<noteq> 0"

text \<open>The node at the other end of the pair \<open>v\<close> is queued in.\<close>

definition queued_mate :: "net \<Rightarrow> int \<Rightarrow> int" where
  "queued_mate n v =
     (let a = act n ! nat (act_of n v) in if node (fst a) = v then node (snd a) else node (fst a))"

definition dem_put :: "env \<Rightarrow> net \<Rightarrow> int \<Rightarrow> net" where
  "dem_put E n v =
     (if act_of n v < 0 \<or> dem n (queued_mate n v) \<noteq> dem_stamp n then n
      else act_drop E (n\<lparr>dem_out := dem_out n @ [act n ! nat (act_of n v)]\<rparr>) v)"

text \<open>Marking the port the walk stands at; \<open>None\<close> when it has been visited before.\<close>

definition visit :: "env \<Rightarrow> net \<Rightarrow> port \<Rightarrow> net option" where
  "visit E n p =
     (let u = node p
      in if dem n u = dem_stamp n
         then (if vport n u AND port_mask p \<noteq> 0 then None
               else Some (n\<lparr>vport := (vport n)(u := vport n u OR port_mask p)\<rparr>))
         else let n1 = n\<lparr>dem := (dem n)(u := dem_stamp n), vport := (vport n)(u := port_mask p)\<rparr>
              in Some (if 0 \<le> act_of n1 u then dem_put E n1 u else n1))"

text \<open>A principal port: a principal that faces it and interacts with it is marked too.\<close>

definition facing :: "net \<Rightarrow> port \<Rightarrow> bool" where
  "facing n p \<longleftrightarrow> (let q = wire n p; t = tag n (node p); s = tag n (node q)
     in live n (node q) \<and> pno q = 0 \<and>
        (t = LAM \<and> (s = APP \<or> s = DUP) \<or> t \<noteq> LAM \<and> (s = LAM \<or> s = DUP)))"

definition mark_facing :: "env \<Rightarrow> net \<Rightarrow> port \<Rightarrow> net" where
  "mark_facing E n p =
     (if \<not> facing n p then n
      else let v = node (wire n p);
               n1 = (if dem n v = dem_stamp n then n
                     else let n0 = n\<lparr>vport := (vport n)(v := 0)\<rparr>
                          in if 0 \<le> act_of n0 v then dem_put E n0 v else n0)
           in n1\<lparr>dem := (dem n1)(v := dem_stamp n1)\<rparr>)"

text \<open>Where the walk continues from a port.\<close>

definition walk_next :: "net \<Rightarrow> port \<Rightarrow> port option" where
  "walk_next n p =
     (let t = tag n (node p)
      in if t = ROOT then Some (wire n p)
         else if t = ERA then None
         else if t = LAM \<and> pno p \<noteq> 0 then None
         else if t = APP \<and> pno p \<noteq> 0 then Some (wire n (Port (node p) 0))
         else if t = DUP \<and> pno p \<noteq> 0 then Some (wire n (Port (node p) 0))
         else None)"

definition at_principal :: "net \<Rightarrow> port \<Rightarrow> bool" where
  "at_principal n p \<longleftrightarrow> pno p = 0 \<and> tag n (node p) \<in> {LAM, APP, DUP}"

definition unseen :: "net \<Rightarrow> (int \<times> nat) set" where
  "unseen n = {(v, k). live n v \<and> k < 4 \<and> \<not> seen n (Port v k)}"

lemma finite_unseen [simp]: "finite (unseen n)"
proof (rule finite_subset)
  show "unseen n \<subseteq> live_set n \<times> {..<4}" by (auto simp: unseen_def live_set_def)
qed simp

lemma dem_put_fields [simp]:
  "ncap (dem_put E n v) = ncap n" "nn (dem_put E n v) = nn n" "tag (dem_put E n v) = tag n"
  "wire (dem_put E n v) = wire n" "scope (dem_put E n v) = scope n" "dead (dem_put E n v) = dead n"
  "lvl (dem_put E n v) = lvl n" "root (dem_put E n v) = root n" "free_head (dem_put E n v) = free_head n"
  "nfree (dem_put E n v) = nfree n" "pend_head (dem_put E n v) = pend_head n"
  "pins (dem_put E n v) = pins n" "dem (dem_put E n v) = dem n" "dem_stamp (dem_put E n v) = dem_stamp n"
  "vport (dem_put E n v) = vport n" "steps (dem_put E n v) = steps n" "fatal (dem_put E n v) = fatal n"
  "live (dem_put E n v) u = live n u"
  by (simp_all add: dem_put_def live_def in_net_def)

lemma seen_bit: "seen n p \<longleftrightarrow> marked n (node p) \<and> bit (vport n (node p)) (pno p mod 4)"
  by (simp add: seen_def port_mask_def bit_iff_and_push_bit_not_eq_0)

lemma bit_port_mask: "bit (port_mask p) k \<longleftrightarrow> k = pno p mod 4"
proof -
  have "pno p mod 4 < 8" by (rule less_trans[of _ 4]) simp_all
  then show ?thesis by (auto simp: port_mask_def bit_simps)
qed

lemma visit_marks:
  assumes "visit E n p = Some m"
  shows "\<not> seen n p" "seen m q \<longleftrightarrow> seen n q \<or> node q = node p \<and> pno q mod 4 = pno p mod 4"
    "marked m v \<longleftrightarrow> marked n v \<or> v = node p" "dem_stamp m = dem_stamp n" "live m v = live n v"
    "tag m = tag n" "wire m = wire n"
  using assms
  by (auto simp: visit_def seen_bit marked_def Let_def bit_port_mask bit_or_iff live_def in_net_def
      simp flip: seen_def split: if_splits)
    (auto simp: port_mask_def bit_iff_and_push_bit_not_eq_0)

function dem_walk :: "env \<Rightarrow> net \<Rightarrow> port \<Rightarrow> net" where
  "dem_walk E n p =
     (if \<not> live n (node p) then n
      else case visit E n p of
        None \<Rightarrow> n
      | Some m \<Rightarrow>
          (case walk_next m p of
             Some q \<Rightarrow> dem_walk E m q
           | None \<Rightarrow> if at_principal m p then mark_facing E m p else m))"
  by pat_completeness auto
termination
proof (relation "measure (\<lambda>(E, n, p). card (unseen n))", goal_cases)
  case (2 E n p m q)
  note v = visit_marks[OF 2(2)]
  have "(node p, pno p mod 4) \<in> unseen n"
    using 2(1) v(1) by (simp add: unseen_def seen_bit)
  moreover have "unseen m \<subseteq> unseen n - {(node p, pno p mod 4)}"
    using v(2,5) by (auto simp: unseen_def)
  ultimately have "unseen m \<subset> unseen n" by blast
  then show ?case by (simp add: psubset_card_mono)
qed simp

declare dem_walk.simps [simp del]

text \<open>
  \<open>net_mark_demand\<close>: a new stamp (a wrapped stamp clears every mark and starts from 1), then one
  walk per root, \<open>ROOT\<close> first.
\<close>

definition bump_stamp :: "net \<Rightarrow> net" where
  "bump_stamp n =
     (let n1 = n\<lparr>dem_stamp := dem_stamp n + 1, dem_out := []\<rparr>
      in if dem_stamp n1 = 0
         then n1\<lparr>dem := (\<lambda>v. if 0 \<le> v \<and> v < ncap n then 0 else dem n v), dem_stamp := 1\<rparr>
         else n1)"

definition net_mark_demand :: "env \<Rightarrow> net \<Rightarrow> net" where
  "net_mark_demand E n = (let n1 = bump_stamp n in fold (\<lambda>p m. dem_walk E m p) (Port 0 0 # root n1) n1)"

definition demanded :: "net \<Rightarrow> port \<Rightarrow> bool" where
  "demanded n p \<longleftrightarrow> in_net n (node p) \<and> dem n (node p) = dem_stamp n"

section \<open>What is emitted\<close>

text \<open>The fields the walk writes; everything else is the net it started from.\<close>

definition walked :: "net \<Rightarrow> net \<Rightarrow> bool" where
  "walked n m \<longleftrightarrow> (\<exists>D V A F O'. m = n\<lparr>dem := D, vport := V, act := A, act_of := F, dem_out := O'\<rparr>)"

lemma walkedD:
  assumes "walked n m"
  shows "tag m = tag n" "wire m = wire n" "root m = root n" "dem_stamp m = dem_stamp n" "live m v = live n v"
    "in_net m v = in_net n v" "dead m = dead n" "nn m = nn n" "lvl m = lvl n" "scope m = scope n"
    "free_head m = free_head n" "pend_head m = pend_head n" "nfree m = nfree n" "ncap m = ncap n"
    "fatal m = fatal n" "pins m = pins n" "steps m = steps n"
  using assms by (auto simp: walked_def live_def in_net_def)

lemma walked_refl [simp]: "walked n n"
proof -
  have "n = n\<lparr>dem := dem n, vport := vport n, act := act n, act_of := act_of n, dem_out := dem_out n\<rparr>" by simp
  then show ?thesis unfolding walked_def by blast
qed

lemma walked_update:
  assumes "walked n m"
  shows "walked n (m\<lparr>dem := d\<rparr>)" "walked n (m\<lparr>vport := v\<rparr>)" "walked n (m\<lparr>dem_out := x\<rparr>)"
    "walked n (m\<lparr>act := a, act_of := f\<rparr>)"
proof -
  obtain D V A F P where m: "m = n\<lparr>dem := D, vport := V, act := A, act_of := F, dem_out := P\<rparr>"
    using assms by (auto simp: walked_def)
  have "m\<lparr>dem := d\<rparr> = n\<lparr>dem := d, vport := V, act := A, act_of := F, dem_out := P\<rparr>"
    "m\<lparr>vport := v\<rparr> = n\<lparr>dem := D, vport := v, act := A, act_of := F, dem_out := P\<rparr>"
    "m\<lparr>dem_out := x\<rparr> = n\<lparr>dem := D, vport := V, act := A, act_of := F, dem_out := x\<rparr>"
    "m\<lparr>act := a, act_of := f\<rparr> = n\<lparr>dem := D, vport := V, act := a, act_of := f, dem_out := P\<rparr>"
    by (simp_all add: m)
  then show "walked n (m\<lparr>dem := d\<rparr>)" "walked n (m\<lparr>vport := v\<rparr>)" "walked n (m\<lparr>dem_out := x\<rparr>)"
    "walked n (m\<lparr>act := a, act_of := f\<rparr>)" unfolding walked_def by blast+
qed

lemma walked_dem_put: assumes "walked n m" shows "walked n (dem_put E m v)"
proof (cases "act_of m v < 0 \<or> dem m (queued_mate m v) \<noteq> dem_stamp m")
  case False
  let ?k = "m\<lparr>dem_out := dem_out m @ [act m ! nat (act_of m v)]\<rparr>"
  have e: "act_drop E ?k v = ?k\<lparr>act := act (act_drop E ?k v), act_of := act_of (act_drop E ?k v)\<rparr>"
    by (simp add: act_drop_def Let_def)
  have "walked n (?k\<lparr>act := act (act_drop E ?k v), act_of := act_of (act_drop E ?k v)\<rparr>)"
    using walked_update(4)[OF walked_update(3)[OF assms]] .
  then have "walked n (act_drop E ?k v)" unfolding e[symmetric] .
  then show ?thesis using False by (simp add: dem_put_def)
qed (simp add: dem_put_def assms)

text \<open>
  Queue and output share the pairs of the start: no queued pair has both nodes marked, every emitted
  pair has.
\<close>

definition parted :: "net \<Rightarrow> net \<Rightarrow> bool" where
  "parted n m \<longleftrightarrow> walked n m \<and> queue_ok m \<and> mset (act m) + mset (dem_out m) = mset (act n) \<and>
     (\<forall>(p, q) \<in> set (act m). \<not> (marked m (node p) \<and> marked m (node q))) \<and>
     (\<forall>(p, q) \<in> set (dem_out m). marked m (node p) \<and> marked m (node q))"

definition hits :: "net \<Rightarrow> int \<Rightarrow> bool" where
  "hits n v \<longleftrightarrow> 0 \<le> act_of n v \<and> marked n (queued_mate n v)"

lemma dem_put_shape:
  assumes "\<not> in_parallel E"
  shows "act (dem_put E n v) = (if hits n v then act (act_drop E n v) else act n)"
    "act_of (dem_put E n v) = (if hits n v then act_of (act_drop E n v) else act_of n)"
    "dem_out (dem_put E n v) = (if hits n v then dem_out n @ [act n ! nat (act_of n v)] else dem_out n)"
  using assms by (auto simp: dem_put_def hits_def marked_def act_drop_def Let_def)

lemma queued_mate_neq: "queue_ok n \<Longrightarrow> 0 \<le> act_of n v \<Longrightarrow> queued_mate n v \<noteq> v"
  using queue_ok_at[of n v] queue_okD[of n "nat (act_of n v)"] by (auto simp: queued_mate_def Let_def)

lemma hits_view:
  assumes "queue_ok n" "act m = act n" "act_of m = act_of n" "dem_stamp m = dem_stamp n"
    "\<And>u. u \<noteq> v \<Longrightarrow> dem m u = dem n u"
  shows "hits m v = hits n v"
  using queued_mate_neq[OF assms(1), of v] assms(2-5) by (auto simp: hits_def marked_def queued_mate_def)

lemma act_drop_view:
  assumes "act m = act n" "act_of m = act_of n"
  shows "act (act_drop E m v) = act (act_drop E n v)" "act_of (act_drop E m v) = act_of (act_drop E n v)"
  by (simp_all add: act_drop_def Let_def assms)

lemma parted_mark:
  assumes pt: "parted n k" and E: "\<not> in_parallel E" and v: "\<not> marked k v"
    and w: "walked n m" and d: "dem m = (dem k)(v := dem_stamp k)" "dem_stamp m = dem_stamp k"
    and a: "act m = act (dem_put E k v)" "act_of m = act_of (dem_put E k v)" "dem_out m = dem_out (dem_put E k v)"
  shows "parted n m"
proof -
  have q: "queue_ok k" and ms: "mset (act k) + mset (dem_out k) = mset (act n)"
    and sep: "\<forall>(p, q) \<in> set (act k). \<not> (marked k (node p) \<and> marked k (node q))"
    and em: "\<forall>(p, q) \<in> set (dem_out k). marked k (node p) \<and> marked k (node q)"
    using pt by (simp_all add: parted_def)
  note sh = dem_put_shape[OF E, of k v]
  have mk: "marked m u \<longleftrightarrow> marked k u \<or> u = v" for u by (auto simp: marked_def d)
  show ?thesis
  proof (cases "hits k v")
    case True
    let ?a = "act k ! nat (act_of k v)"
    have av: "0 \<le> act_of k v" using True by (simp add: hits_def)
    have am: "act m = act (act_drop E k v)" "act_of m = act_of (act_drop E k v)" "dem_out m = dem_out k @ [?a]"
      using True a sh by simp_all
    have qm: "queue_ok m" using act_drop_ok[OF q E, of v] by (simp add: queue_ok_def am)
    have ms': "mset (act m) + mset (dem_out m) = mset (act n)"
      using act_drop_mset[OF q E av] ms by (simp add: am)
    have sub: "set (act m) \<subseteq> set (act k)"
    proof -
      have "mset (act m) \<subseteq># mset (act k)" using act_drop_mset[OF q E av] by (simp add: am)
      then show ?thesis using set_mset_mono by fastforce
    qed
    have "act_of m v < 0" using act_drop_queued[OF q E, of v v] av by (simp add: am)
    then have nv: "(p, r) \<in> set (act m) \<Longrightarrow> node p \<noteq> v \<and> node r \<noteq> v" for p r
      using queue_ok_mem[OF qm, of v] by fastforce
    have "\<forall>(p, r) \<in> set (act m). \<not> (marked m (node p) \<and> marked m (node r))"
      using sub sep nv by (fastforce simp: mk)
    moreover have "marked k (queued_mate k v)" using True by (simp add: hits_def)
    then have "marked m (node (fst ?a)) \<and> marked m (node (snd ?a))"
      using queue_ok_at(2)[OF q av] by (auto simp: mk queued_mate_def Let_def split: if_splits)
    then have "\<forall>(p, r) \<in> set (dem_out m). marked m (node p) \<and> marked m (node r)"
      using em by (auto simp: am mk)
    ultimately show ?thesis using w qm ms' by (simp add: parted_def)
  next
    case False
    then have am: "act m = act k" "act_of m = act_of k" "dem_out m = dem_out k" using a sh by simp_all
    have "\<not> (marked m (node p) \<and> marked m (node r))" if pr: "(p, r) \<in> set (act k)" for p r
    proof
      assume both: "marked m (node p) \<and> marked m (node r)"
      then have pv: "node p = v \<or> node r = v" using sep pr by (auto simp: mk)
      obtain i where i: "i < length (act k)" "act k ! i = (p, r)" using pr by (metis in_set_conv_nth)
      note qi = queue_okD[OF q i(1), unfolded i(2)]
      have "act_of k v = int i" using pv qi by auto
      then have "hits k v" using pv both qi i(2) by (auto simp: hits_def queued_mate_def mk)
      then show False using False by simp
    qed
    then show ?thesis using w q ms em by (auto simp: parted_def am queue_ok_def mk)
  qed
qed

section \<open>What is marked\<close>

text \<open>The positions the needed-order walks pass through, and the nodes they need.\<close>

inductive walk_at :: "net \<Rightarrow> port \<Rightarrow> bool" for n where
  seed: "p = Port 0 0 \<or> p \<in> set (root n) \<Longrightarrow> walk_at n p"
| onward: "walk_at n p \<Longrightarrow> live n (node p) \<Longrightarrow> walk_next n p = Some q \<Longrightarrow> walk_at n q"

definition needed :: "net \<Rightarrow> int \<Rightarrow> bool" where
  "needed n v \<longleftrightarrow> (\<exists>p. walk_at n p \<and> live n (node p) \<and>
     (v = node p \<or> at_principal n p \<and> facing n p \<and> v = node (wire n p)))"

definition roots_ok :: "net \<Rightarrow> bool" where
  "roots_ok n \<longleftrightarrow> (\<forall>p \<in> set (root n). pno p < 3)"

lemma wire_pno:
  assumes "wired n {} {}" "standing n {} p"
  shows "pno (wire n p) < 3"
  using wiredD[OF assms] by (cases "wire n p = NONE") (auto simp: linked_def NONE_def)

lemma walk_at_pno:
  assumes w: "wired n {} {}" and r: "roots_ok n" and p: "walk_at n p"
  shows "pno p < 3"
  using p
proof (induction rule: walk_at.induct)
  case (onward p q)
  have "wire n p = q \<or> wire n (Port (node p) 0) = q"
    using onward.hyps(3) by (auto simp: walk_next_def Let_def split: if_splits)
  moreover have "standing n {} p" "standing n {} (Port (node p) 0)"
    using onward by (simp_all add: standing_def)
  ultimately show ?case using wire_pno[OF w] by blast
qed (use r in \<open>auto simp: roots_ok_def\<close>)

lemma walked_view:
  assumes "walked n m"
  shows "walk_next m p = walk_next n p" "at_principal m p = at_principal n p" "facing m p = facing n p"
  unfolding walk_next_def at_principal_def facing_def walkedD[OF assms] by (rule refl)+

text \<open>
  The marks are sound, and closed except at the positions \<open>S\<close> the walk still has to reach and
  the principals \<open>T\<close> whose facing node it still has to mark.
\<close>

definition sound :: "net \<Rightarrow> net \<Rightarrow> bool" where
  "sound n m \<longleftrightarrow> (\<forall>v. in_net n v \<and> marked m v \<longrightarrow> needed n v) \<and>
     (\<forall>p. live n (node p) \<and> pno p < 4 \<and> seen m p \<longrightarrow> walk_at n p)"

definition closed_but :: "net \<Rightarrow> net \<Rightarrow> port set \<Rightarrow> port set \<Rightarrow> bool" where
  "closed_but n m S T \<longleftrightarrow> (\<forall>p. live n (node p) \<and> pno p < 3 \<and> seen m p \<longrightarrow>
     (\<forall>q. walk_next n p = Some q \<and> live n (node q) \<longrightarrow> seen m q \<or> q \<in> S) \<and>
     (walk_next n p = None \<and> at_principal n p \<and> facing n p \<longrightarrow> marked m (node (wire n p)) \<or> p \<in> T))"

lemma visit_step:
  assumes E: "\<not> in_parallel E" and pt: "parted n k" and so: "sound n k" and cl: "closed_but n k {p} {}"
    and p: "walk_at n p" "live n (node p)" "pno p < 3" and v: "visit E k p = Some m"
  shows "parted n m" "sound n m"
    "walk_next n p = Some q \<Longrightarrow> closed_but n m {q} {}" "walk_next n p = None \<Longrightarrow> closed_but n m {} {p}"
    "\<And>q. seen k q \<Longrightarrow> seen m q" "\<And>u. marked k u \<Longrightarrow> marked m u" "seen m p"
proof -
  note vm = visit_marks[OF v]
  have w: "walked n k" using pt by (simp add: parted_def)
  let ?u = "node p" and ?d = "(dem k)(node p := dem_stamp k)"
  show "parted n m"
  proof (cases "marked k ?u")
    case True
    then have m: "m = k\<lparr>vport := (vport k)(?u := vport k ?u OR port_mask p)\<rparr>"
      using v by (auto simp: visit_def marked_def Let_def split: if_splits)
    have "marked m x = marked k x" for x by (simp add: marked_def m)
    then show ?thesis using pt walked_update(2)[OF w] by (simp add: parted_def m queue_ok_def marked_def)
  next
    case False
    let ?n1 = "k\<lparr>dem := ?d, vport := (vport k)(?u := port_mask p)\<rparr>"
    have m: "m = dem_put E ?n1 ?u"
      using v False by (auto simp: visit_def marked_def Let_def dem_put_def split: if_splits)
    have q: "queue_ok k" using pt by (simp add: parted_def)
    have h: "hits ?n1 ?u = hits k ?u" by (rule hits_view[OF q]) auto
    note sh = dem_put_shape[OF E, of ?n1 ?u] dem_put_shape[OF E, of k ?u]
    have "act (act_drop E ?n1 ?u) = act (act_drop E k ?u)" "act_of (act_drop E ?n1 ?u) = act_of (act_drop E k ?u)"
      by (rule act_drop_view; simp)+
    then have a: "act m = act (dem_put E k ?u)" "act_of m = act_of (dem_put E k ?u)"
      "dem_out m = dem_out (dem_put E k ?u)" unfolding m sh h by simp_all
    have wm: "walked n m" unfolding m
      by (rule walked_dem_put) (use walked_update(2)[OF walked_update(1)[OF w]] in simp)
    show ?thesis by (rule parted_mark[OF pt E False wm _ _ a]) (simp_all add: m)
  qed
  have nv: "needed n ?u" using p by (auto simp: needed_def)
  show "sound n m" unfolding sound_def
  proof (intro conjI allI impI)
    show "needed n v" if "in_net n v \<and> marked m v" for v
      using that so nv vm(3) by (auto simp: sound_def)
    show "walk_at n q" if "live n (node q) \<and> pno q < 4 \<and> seen m q" for q
    proof (cases "seen k q")
      case False
      then have "node q = node p" "pno q = pno p" using that vm(2)[of q] p(3) by auto
      then have "q = p" by (cases p, cases q) simp
      then show ?thesis using p by simp
    qed (use that so in \<open>auto simp: sound_def\<close>)
  qed
  show mono: "seen k q \<Longrightarrow> seen m q" "marked k u \<Longrightarrow> marked m u" for q u using vm(2,3) by auto
  show "seen m p" using vm(2) by simp
  have old: "seen m x \<Longrightarrow> pno x < 3 \<Longrightarrow> x \<noteq> p \<Longrightarrow> seen k x" for x
    using vm(2)[of x] p(3) by (cases x; cases p) auto
  have gen: "closed_but n m S T" if "\<And>q. walk_next n p = Some q \<Longrightarrow> q \<in> S" "walk_next n p = None \<Longrightarrow> p \<in> T" for S T
    unfolding closed_but_def
  proof (intro allI impI)
    fix x assume x: "live n (node x) \<and> pno x < 3 \<and> seen m x"
    show "(\<forall>q. walk_next n x = Some q \<and> live n (node q) \<longrightarrow> seen m q \<or> q \<in> S) \<and>
     (walk_next n x = None \<and> at_principal n x \<and> facing n x \<longrightarrow> marked m (node (wire n x)) \<or> x \<in> T)"
    proof (cases "x = p")
      case False
      then have "seen k x" using old x by blast
      then have "(\<forall>q. walk_next n x = Some q \<and> live n (node q) \<longrightarrow> seen k q \<or> q = p) \<and>
        (walk_next n x = None \<and> at_principal n x \<and> facing n x \<longrightarrow> marked k (node (wire n x)))"
        using cl x False unfolding closed_but_def by blast
      then show ?thesis using mono \<open>seen m p\<close> by blast
    qed (use that in auto)
  qed
  show "walk_next n p = Some q \<Longrightarrow> closed_but n m {q} {}" "walk_next n p = None \<Longrightarrow> closed_but n m {} {p}"
    by (rule gen; simp)+
qed

lemma mark_facing_step:
  assumes E: "\<not> in_parallel E" and pt: "parted n k" and so: "sound n k" and cl: "closed_but n k {} {p}"
    and p: "walk_at n p" "live n (node p)" "at_principal n p" "seen k p" and m: "m = mark_facing E k p"
  shows "parted n m" "sound n m" "closed_but n m {} {}" "seen m q = seen k q" "\<And>u. marked k u \<Longrightarrow> marked m u"
proof -
  have w: "walked n k" using pt by (simp add: parted_def)
  note wv = walked_view[OF w] walkedD[OF w]
  have "parted n m \<and> (\<forall>x. seen m x = seen k x) \<and>
    (\<forall>v. marked m v \<longleftrightarrow> marked k v \<or> facing n p \<and> v = node (wire n p))"
  proof (cases "facing n p")
    case False
    then show ?thesis using pt by (simp add: m mark_facing_def wv)
  next
    case True
    let ?v = "node (wire n p)"
    show ?thesis
    proof (cases "marked k ?v")
      case mk: True
      have "m = k\<lparr>dem := (dem k)(?v := dem_stamp k)\<rparr>" using m True mk
        by (simp add: mark_facing_def wv marked_def Let_def)
      also have "(dem k)(?v := dem_stamp k) = dem k" using mk by (auto simp: marked_def)
      finally have "m = k" by simp
      then show ?thesis using pt mk by auto
    next
      case False
      let ?n0 = "k\<lparr>vport := (vport k)(?v := 0)\<rparr>" and ?d = "(dem k)(?v := dem_stamp k)"
      have me: "m = (dem_put E ?n0 ?v)\<lparr>dem := ?d\<rparr>"
        using m True False by (auto simp: mark_facing_def wv marked_def Let_def dem_put_def)
      have q: "queue_ok k" using pt by (simp add: parted_def)
      have h: "hits ?n0 ?v = hits k ?v" by (rule hits_view[OF q]) auto
      note sh = dem_put_shape[OF E, of ?n0 ?v] dem_put_shape[OF E, of k ?v]
      have "act (act_drop E ?n0 ?v) = act (act_drop E k ?v)" "act_of (act_drop E ?n0 ?v) = act_of (act_drop E k ?v)"
        by (rule act_drop_view; simp)+
      then have "act (dem_put E ?n0 ?v) = act (dem_put E k ?v)" "act_of (dem_put E ?n0 ?v) = act_of (dem_put E k ?v)"
        "dem_out (dem_put E ?n0 ?v) = dem_out (dem_put E k ?v)" unfolding sh h by simp_all
      then have a: "act m = act (dem_put E k ?v)" "act_of m = act_of (dem_put E k ?v)"
        "dem_out m = dem_out (dem_put E k ?v)" by (simp_all add: me)
      have wm: "walked n m" unfolding me by (intro walked_update(1) walked_dem_put walked_update(2) w)
      have "parted n m" by (rule parted_mark[OF pt E False wm _ _ a]) (simp_all add: me)
      moreover have "seen m x = seen k x" for x using False by (auto simp: seen_bit marked_def me)
      moreover have "marked m u \<longleftrightarrow> marked k u \<or> u = ?v" for u by (auto simp: marked_def me)
      ultimately show ?thesis using True by simp
    qed
  qed
  then have pm: "parted n m" and sn: "\<And>x. seen m x = seen k x"
    and mk: "\<And>v. marked m v \<longleftrightarrow> marked k v \<or> facing n p \<and> v = node (wire n p)" by blast+
  show "parted n m" "seen m q = seen k q" "\<And>u. marked k u \<Longrightarrow> marked m u" using pm sn mk by blast+
  have "facing n p \<Longrightarrow> needed n (node (wire n p))" unfolding needed_def using p by blast
  then show "sound n m" using so unfolding sound_def sn mk by blast
  show "closed_but n m {} {}" unfolding closed_but_def sn mk
  proof (intro allI impI)
    fix x assume "live n (node x) \<and> pno x < 3 \<and> seen k x"
    then have "(\<forall>q. walk_next n x = Some q \<and> live n (node q) \<longrightarrow> seen k q \<or> q \<in> {}) \<and>
     (walk_next n x = None \<and> at_principal n x \<and> facing n x \<longrightarrow> marked k (node (wire n x)) \<or> x \<in> {p})"
      using cl unfolding closed_but_def by blast
    then show "(\<forall>q. walk_next n x = Some q \<and> live n (node q) \<longrightarrow> seen k q \<or> q \<in> {}) \<and>
      (walk_next n x = None \<and> at_principal n x \<and> facing n x \<longrightarrow>
         (marked k (node (wire n x)) \<or> facing n p \<and> node (wire n x) = node (wire n p)) \<or> x \<in> {})"
      using p(4) by auto
  qed
qed

lemma dem_walk_spec:
  "parted n k \<Longrightarrow> sound n k \<Longrightarrow> closed_but n k {p} {} \<Longrightarrow> walk_at n p \<Longrightarrow> \<not> in_parallel E \<Longrightarrow>
   wired n {} {} \<Longrightarrow> roots_ok n \<Longrightarrow>
    parted n (dem_walk E k p) \<and> sound n (dem_walk E k p) \<and> closed_but n (dem_walk E k p) {} {} \<and>
    (live n (node p) \<longrightarrow> seen (dem_walk E k p) p) \<and> (\<forall>q. seen k q \<longrightarrow> seen (dem_walk E k p) q)"
proof (induction E k p rule: dem_walk.induct)
  case (1 E k p)
  note IH = 1(1) and pt = 1(2) and so = 1(3) and cl = 1(4) and at = 1(5) and E = 1(6) and w = 1(7) and r = 1(8)
  have wk: "walked n k" using pt by (simp add: parted_def)
  have lk: "live k v = live n v" for v by (rule walkedD(5)[OF wk])
  show ?case
  proof (cases "live n (node p)")
    case False
    then have "dem_walk E k p = k" by (simp add: dem_walk.simps[of E k p] lk)
    moreover have "closed_but n k {} {}" using cl False unfolding closed_but_def by blast
    ultimately show ?thesis using pt so False by simp
  next
    case lp: True
    have pp: "pno p < 3" by (rule walk_at_pno[OF w r at])
    show ?thesis
    proof (cases "visit E k p")
      case None
      then have e: "dem_walk E k p = k" by (simp add: dem_walk.simps[of E k p])
      have "seen k p" using None by (auto simp: visit_def seen_def marked_def Let_def split: if_splits)
      moreover then have "closed_but n k {} {}" using cl unfolding closed_but_def by blast
      ultimately show ?thesis using pt so by (simp add: e)
    next
      case (Some m)
      note vs = visit_step[OF E pt so cl at lp pp Some]
      have wm: "walked n m" using vs(1) by (simp add: parted_def)
      note wv = walked_view[OF wm]
      show ?thesis
      proof (cases "walk_next n p")
        case nx: (Some q)
        have e: "dem_walk E k p = dem_walk E m q"
          using lp Some nx by (simp add: dem_walk.simps[of E k p] lk wv)
        have aq: "walk_at n q" by (rule walk_at.onward[OF at lp nx])
        have "live k (node p)" "walk_next m p = Some q" using lp nx by (simp_all add: lk wv)
        then have "parted n (dem_walk E m q) \<and> sound n (dem_walk E m q) \<and> closed_but n (dem_walk E m q) {} {} \<and>
          (live n (node q) \<longrightarrow> seen (dem_walk E m q) q) \<and> (\<forall>x. seen m x \<longrightarrow> seen (dem_walk E m q) x)"
          using IH[OF _ Some _ vs(1,2) vs(3)[OF nx] aq E w r] by blast
        then show ?thesis using vs(5,7) unfolding e by blast
      next
        case nx: None
        show ?thesis
        proof (cases "at_principal n p")
          case True
          then have e: "dem_walk E k p = mark_facing E m p"
            using lp Some nx by (simp add: dem_walk.simps[of E k p] lk wv)
          note mf = mark_facing_step[OF E vs(1,2) vs(4)[OF nx] at lp True vs(7) refl]
          show ?thesis using mf(1-4) vs(5,7) unfolding e by blast
        next
          case False
          then have e: "dem_walk E k p = m"
            using lp Some nx by (simp add: dem_walk.simps[of E k p] lk wv)
          have "closed_but n m {} {}" using vs(4)[OF nx] False unfolding closed_but_def by blast
          then show ?thesis using vs(1,2,5,7) unfolding e by blast
        qed
      qed
    qed
  qed
qed

lemma dem_walks_spec:
  assumes w: "wired n {} {}" and r: "roots_ok n" and E: "\<not> in_parallel E"
  shows "parted n k \<Longrightarrow> sound n k \<Longrightarrow> closed_but n k {} {} \<Longrightarrow> \<forall>p \<in> set ps. walk_at n p \<Longrightarrow>
    m = fold (\<lambda>p m. dem_walk E m p) ps k \<Longrightarrow>
    parted n m \<and> sound n m \<and> closed_but n m {} {} \<and> (\<forall>p \<in> set ps. live n (node p) \<longrightarrow> seen m p) \<and>
    (\<forall>q. seen k q \<longrightarrow> seen m q)"
proof (induction ps arbitrary: k)
  case (Cons p ps)
  have "closed_but n k {p} {}" using Cons.prems(3) unfolding closed_but_def by blast
  note d = dem_walk_spec[OF Cons.prems(1,2) this _ E w r]
  have p: "walk_at n p" "\<forall>p \<in> set ps. walk_at n p" using Cons.prems(4) by simp_all
  note d = d[OF p(1)]
  have "m = fold (\<lambda>p m. dem_walk E m p) ps (dem_walk E k p)" using Cons.prems(5) by simp
  note ih = Cons.IH[OF _ _ _ p(2) this]
  show ?case using ih d by auto
qed simp

text \<open>Marks of an earlier wave never survive a new stamp.\<close>

definition stamps_ok :: "net \<Rightarrow> bool" where
  "stamps_ok n \<longleftrightarrow> (\<forall>v. in_net n v \<longrightarrow> dem n v \<le> dem_stamp n)"

lemma bump_stamp_spec:
  assumes st: "stamps_ok n" and room: "nn n \<le> ncap n"
  shows "in_net n v \<Longrightarrow> \<not> marked (bump_stamp n) v" "dem_out (bump_stamp n) = []"
    "\<exists>D s. bump_stamp n = n\<lparr>dem := D, dem_stamp := s, dem_out := []\<rparr>"
    "in_net n v \<Longrightarrow> dem (bump_stamp n) v \<le> dem_stamp (bump_stamp n)"
proof -
  show "\<exists>D s. bump_stamp n = n\<lparr>dem := D, dem_stamp := s, dem_out := []\<rparr>"
  proof (cases "dem_stamp n + 1 = 0")
    case True
    then have "bump_stamp n = n\<lparr>dem := \<lambda>v. if 0 \<le> v \<and> v < ncap n then 0 else dem n v, dem_stamp := 1, dem_out := []\<rparr>"
      by (simp add: bump_stamp_def Let_def)
    then show ?thesis by blast
  next
    case False
    then have "bump_stamp n = n\<lparr>dem := dem n, dem_stamp := dem_stamp n + 1, dem_out := []\<rparr>"
      by (simp add: bump_stamp_def Let_def)
    then show ?thesis by blast
  qed
  show "dem_out (bump_stamp n) = []" by (simp add: bump_stamp_def Let_def)
  have lt: "dem n v < dem_stamp n + 1" if "in_net n v" "dem_stamp n + 1 \<noteq> 0"
  proof -
    have "dem n v \<le> dem_stamp n" using st that(1) by (simp add: stamps_ok_def)
    moreover have "dem_stamp n < dem_stamp n + 1" using that(2) unatSuc[of "dem_stamp n"] by (simp add: word_less_nat_alt add.commute)
    ultimately show ?thesis by simp
  qed
  show "in_net n v \<Longrightarrow> \<not> marked (bump_stamp n) v"
    using lt room by (auto simp: marked_def bump_stamp_def Let_def in_net_def)
  show "in_net n v \<Longrightarrow> dem (bump_stamp n) v \<le> dem_stamp (bump_stamp n)"
    using lt room by (auto simp: bump_stamp_def Let_def in_net_def)
qed

lemma dem_walk_dem:
  "(dem (dem_walk E k p) v = dem k v \<or> dem (dem_walk E k p) v = dem_stamp k) \<and>
   dem_stamp (dem_walk E k p) = dem_stamp k"
proof (induction E k p rule: dem_walk.induct)
  case (1 E k p)
  show ?case
  proof (cases "live k (node p)")
    case lp: True
    show ?thesis
    proof (cases "visit E k p")
      case (Some m)
      have m: "(dem m v = dem k v \<or> dem m v = dem_stamp k) \<and> dem_stamp m = dem_stamp k"
        using Some by (auto simp: visit_def Let_def split: if_splits)
      have mf: "(dem (mark_facing E m p) v = dem m v \<or> dem (mark_facing E m p) v = dem_stamp m) \<and>
        dem_stamp (mark_facing E m p) = dem_stamp m"
        by (auto simp: mark_facing_def Let_def)
      show ?thesis
      proof (cases "walk_next m p")
        case nx: (Some q)
        then show ?thesis using 1[OF _ Some nx] lp Some m
          by (simp add: dem_walk.simps[of E k p]) metis
      next
        case None
        then show ?thesis using lp Some m mf by (simp add: dem_walk.simps[of E k p]) metis
      qed
    qed (simp add: dem_walk.simps[of E k p])
  qed (simp add: dem_walk.simps[of E k p])
qed

lemma dem_walks_dem:
  "(dem (fold (\<lambda>p m. dem_walk E m p) ps k) v = dem k v \<or>
    dem (fold (\<lambda>p m. dem_walk E m p) ps k) v = dem_stamp k) \<and>
   dem_stamp (fold (\<lambda>p m. dem_walk E m p) ps k) = dem_stamp k"
proof (induction ps arbitrary: k)
  case (Cons p ps)
  show ?case using Cons.IH[of "dem_walk E k p"] dem_walk_dem[of E k p v] by simp metis
qed simp

section \<open>The demand mark\<close>

lemma net_mark_demand_spec:
  assumes ok: "net_ok n" and st: "stamps_ok n" and r: "roots_ok n" and E: "\<not> in_parallel E"
    and m: "m = net_mark_demand E n"
  shows "net_ok m" "stamps_ok m" "in_net n v \<Longrightarrow> marked m v \<longleftrightarrow> needed n v"
    "mset (act m) + mset (dem_out m) = mset (act n)"
    "set (dem_out m) = {(p, q) \<in> set (act n). needed n (node p) \<and> needed n (node q)}"
    "all_queued n P \<Longrightarrow> all_queued m (P \<union> set (dem_out m))"
    "wire m = wire n" "live m v = live n v" "steps m = steps n" "tag m = tag n" "root m = root n" "nn m = nn n"
    "scope m = scope n"
proof -
  define k where "k = bump_stamp n"
  have w: "wired n {} {}" and room: "nn n \<le> ncap n" and q: "queue_ok n" and ql: "queue_live n"
    using ok by (simp_all add: net_ok_def room_ok_def)
  note bs = bump_stamp_spec[OF st room, folded k_def]
  obtain D s where k: "k = n\<lparr>dem := D, dem_stamp := s, dem_out := []\<rparr>" using bs(3) by blast
  have kf: "live k v = live n v" "in_net k v = in_net n v" for v by (simp_all add: k live_def in_net_def)
  have kk: "wire k = wire n" "tag k = tag n" "root k = root n" "act k = act n" "act_of k = act_of n" by (simp_all add: k)
  have w': "wired k {} {}" and r': "roots_ok k" using w r
    by (simp_all add: wired_def linked_def standing_def roots_ok_def kf kk)
  have nm: "in_net n v \<Longrightarrow> \<not> marked k v" for v by (rule bs(1))
  have li: "(p, x) \<in> set (act n) \<Longrightarrow> in_net n (node p) \<and> in_net n (node x)" for p x
    using ql by (auto simp: queue_live_def redex_live_def live_def)
  have pk: "parted k k" unfolding parted_def kk using q nm li bs(2) by (auto simp: queue_ok_def kk)
  have sk: "sound k k" using nm by (auto simp: sound_def seen_def kf live_def)
  have ck: "closed_but k k {} {}" using nm by (auto simp: closed_but_def seen_def kf live_def)
  have roots: "\<forall>p \<in> set (Port 0 0 # root k). walk_at k p" by (auto intro: walk_at.seed)
  have me: "m = fold (\<lambda>p m. dem_walk E m p) (Port 0 0 # root k) k"
    by (simp add: m net_mark_demand_def k_def Let_def)
  have sp: "parted k m" "sound k m" "closed_but k m {} {}" "\<forall>p \<in> set (Port 0 0 # root k). live k (node p) \<longrightarrow> seen m p"
    using dem_walks_spec[OF w' r' E pk sk ck roots me] by blast+
  have wa: "walk_at k = walk_at n" and ne: "needed k v = needed n v" for v
  proof -
    have x: "walk_next k p = walk_next n p" "at_principal k p = at_principal n p" "facing k p = facing n p" for p
      unfolding walk_next_def at_principal_def facing_def kf kk by (rule refl)+
    have "walk_at k p \<Longrightarrow> walk_at n p" for p
      by (induction rule: walk_at.induct) (auto simp: kf kk x intro: walk_at.intros)
    moreover have "walk_at n p \<Longrightarrow> walk_at k p" for p
      by (induction rule: walk_at.induct) (auto simp: kf[symmetric] kk[symmetric] x[symmetric] intro: walk_at.intros)
    ultimately show "walk_at k = walk_at n" by (intro ext) blast
    then show "needed k v = needed n v" for v by (simp add: needed_def x kf kk)
  qed
  have reach: "seen m p" if "walk_at k p" "live k (node p)" for p
    using that
  proof (induction rule: walk_at.induct)
    case (onward p y)
    have "pno p < 3" by (rule walk_at_pno[OF w' r' onward.hyps(1)])
    then show ?case using sp(3) onward unfolding closed_but_def by blast
  qed (use sp(4) in auto)
  show mk: "in_net n v \<Longrightarrow> marked m v \<longleftrightarrow> needed n v" for v
  proof
    assume "in_net n v" "marked m v"
    then show "needed n v" using sp(2) unfolding sound_def ne kf by blast
  next
    assume "needed n v"
    then have "needed k v" by (simp add: ne)
    then obtain p where p: "walk_at k p" "live k (node p)"
      "v = node p \<or> at_principal k p \<and> facing k p \<and> v = node (wire k p)" unfolding needed_def by blast
    have s: "seen m p" by (rule reach[OF p(1,2)])
    show "marked m v"
    proof (cases "v = node p")
      case True
      then show ?thesis using s by (simp add: seen_def)
    next
      case False
      then have f: "at_principal k p" "facing k p" "v = node (wire k p)" using p(3) by simp_all
      then have "walk_next k p = None" by (auto simp: at_principal_def walk_next_def Let_def)
      moreover have "pno p < 3" by (rule walk_at_pno[OF w' r' p(1)])
      ultimately show ?thesis using sp(3) s p(2) f unfolding closed_but_def by blast
    qed
  qed
  have wm: "walked k m" and qm: "queue_ok m" using sp(1) by (simp_all add: parted_def)
  note wd = walkedD[OF wm]
  have f: "wire m = wire n" "tag m = tag n" "root m = root n" "dead m = dead n" "nn m = nn n" "lvl m = lvl n"
    "scope m = scope n" "free_head m = free_head n" "pend_head m = pend_head n" "nfree m = nfree n"
    "ncap m = ncap n" "fatal m = fatal n" "steps m = steps n" using wd by (simp_all add: k)
  show "wire m = wire n" "steps m = steps n" "tag m = tag n" "root m = root n" "nn m = nn n" "scope m = scope n"
    by (rule f)+
  show lv: "live m v = live n v" for v by (simp add: wd(5) kf)
  have inn: "in_net m v = in_net n v" for v by (simp add: wd(6) kf)
  show ms: "mset (act m) + mset (dem_out m) = mset (act n)" using sp(1) by (simp add: parted_def kk)
  then have un: "set (act m) \<union> set (dem_out m) = set (act n)" by (metis set_mset_mset set_mset_union)
  have am: "(p, x) \<in> set (act m) \<Longrightarrow> \<not> (marked m (node p) \<and> marked m (node x))"
    and om: "(p, x) \<in> set (dem_out m) \<Longrightarrow> marked m (node p) \<and> marked m (node x)" for p x
    using sp(1) unfolding parted_def by blast+
  have "(p, x) \<in> set (dem_out m) \<longleftrightarrow> (p, x) \<in> set (act n) \<and> needed n (node p) \<and> needed n (node x)" for p x
  proof (cases "(p, x) \<in> set (act n)")
    case True
    then show ?thesis using am[of p x] om[of p x] mk[OF conjunct1[OF li[OF True]]] mk[OF conjunct2[OF li[OF True]]] un
      by blast
  qed (use un in blast)
  then show "set (dem_out m) = {(p, x) \<in> set (act n). needed n (node p) \<and> needed n (node x)}" by auto
  have rd: "redex_live m p x = redex_live n p x" for p x by (simp add: redex_live_def f lv)
  have qlm: "queue_live m" using ql un unfolding queue_live_def rd by blast
  have sl: "slots_ok m fs ps = slots_ok n fs ps" for fs ps by (simp add: slots_ok_def f inn)
  have av: "0 \<le> act_of m v \<Longrightarrow> 0 \<le> act_of n v" for v
    using queue_ok_mem[OF qm, of v] queue_ok_mem[OF q, of v] un by blast
  then have "act_of n v < 0 \<Longrightarrow> act_of m v < 0" for v by (meson not_le)
  moreover have "wired m {} {}" using w by (simp add: wired_def linked_def standing_def f lv)
  ultimately show "net_ok m" using ok qm qlm unfolding net_ok_def sl
    by (simp add: levels_ok_def room_ok_def f lv)
  show "all_queued m (P \<union> set (dem_out m))" if aq: "all_queued n P"
    unfolding all_queued_def rd
  proof (intro allI impI)
    fix p x assume px: "redex_live n p x"
    show "0 \<le> act_of m (node p) \<or> (p, x) \<in> P \<union> set (dem_out m) \<or> (x, p) \<in> P \<union> set (dem_out m)"
    proof (cases "(p, x) \<in> P \<or> (x, p) \<in> P")
      case False
      then have "0 \<le> act_of n (node p)" using aq px by (auto simp: all_queued_def)
      then obtain a b where ab: "(a, b) \<in> set (act n)" "node p = node a \<or> node p = node b"
        using queue_ok_mem[OF q, of "node p"] by blast
      then have "redex_live n a b" using ql by (auto simp: queue_live_def)
      then have "(a, b) = (p, x) \<or> (a, b) = (x, p)"
        using px ab(2) redex_liveD[OF px] redex_liveD[of n a b] port_eqI by metis
      moreover have "(a, b) \<in> set (act m) \<Longrightarrow> 0 \<le> act_of m (node p)"
        using queue_ok_mem[OF qm, of "node p"] ab(2) by blast
      ultimately show ?thesis using un ab(1) by blast
    qed blast
  qed
  have "dem m v \<le> dem_stamp m" if v: "in_net n v" for v
    using dem_walks_dem[of E "Port 0 0 # root k" k v] bs(4)[OF v] unfolding me by auto
  then show "stamps_ok m" by (simp add: stamps_ok_def inn)
qed

text \<open>C9. Needed order.  On a net that satisfies the invariant, \<open>net_mark_demand\<close> marks exactly the
  nodes on the demand paths of \<open>ROOT\<close> and the demand roots, together with the principals those
  paths end at a redex with, whatever marks earlier waves left.
\<close>

theorem mark_demand_exact:
  assumes "net_ok n" "stamps_ok n" "roots_ok n" "\<not> in_parallel E"
  shows "let m = net_mark_demand E n in net_ok m \<and> stamps_ok m \<and>
    (\<forall>v. in_net n v \<longrightarrow> (dem m v = dem_stamp m \<longleftrightarrow> needed n v))"
  using net_mark_demand_spec(1-3)[OF assms refl] by (simp add: Let_def marked_def)

lemma beta_act: "act beta_net = [(Port 1 0, Port 2 0)]" "root beta_net = []" "dem beta_net v = 0"
  "dem_stamp beta_net = 0"
  by (simp_all add: beta_net_def demo_links_def beta_links_def demo_eval net_link_def act_push_def)

lemma beta_ready: "stamps_ok beta_net" "roots_ok beta_net"
  by (simp_all add: stamps_ok_def roots_ok_def beta_act)

lemma beta_needed: "needed beta_net 1" "needed beta_net 2" "\<not> needed beta_net 3"
proof -
  have l: "live beta_net v \<longleftrightarrow> 0 \<le> v \<and> v < 4" for v by (simp add: beta_net_def beta_alloc)
  have w: "wire beta_net (Port 0 0) = Port 2 2" "wire beta_net (Port 2 0) = Port 1 0" "wire beta_net (Port 1 0) = Port 2 0"
    "wire beta_net (Port 2 2) = Port 0 0" by (simp_all add: beta_net_wire beta_links_def link_ends_pair)
  have t: "tag beta_net = (\<lambda>_. ERA)(0 := ROOT, 1 := LAM, 2 := APP, 3 := LAM)"
    by (simp add: beta_net_def beta_alloc)
  have n: "walk_next beta_net (Port 0 0) = Some (Port 2 2)" "walk_next beta_net (Port 2 2) = Some (Port 1 0)"
    "walk_next beta_net (Port 1 0) = None" by (simp_all add: walk_next_def w t)
  have "walk_at beta_net (Port 0 0)" by (rule walk_at.seed) simp
  then have "walk_at beta_net (Port 2 2)" by (rule walk_at.onward) (simp_all add: l n)
  then have a: "walk_at beta_net (Port 1 0)" by (rule walk_at.onward) (simp_all add: l n)
  have f: "at_principal beta_net (Port 1 0)" "facing beta_net (Port 1 0)"
    by (simp_all add: at_principal_def facing_def w t l)
  show "needed beta_net 1" unfolding needed_def using a l by (intro exI[of _ "Port 1 0"]) simp
  show "needed beta_net 2" unfolding needed_def using a l f w by (intro exI[of _ "Port 1 0"]) simp
  have "walk_at beta_net p \<Longrightarrow> p = Port 0 0 \<or> p = Port 2 2 \<or> p = Port 1 0" for p
    by (induction rule: walk_at.induct) (auto simp: beta_act n)
  note pos = this
  have "node p \<noteq> 3 \<and> node (wire beta_net p) \<noteq> 3" if "walk_at beta_net p" for p
    using pos[OF that] w by auto
  then show "\<not> needed beta_net 3" unfolding needed_def by metis
qed

theorem mark_demand_exact_witness:
  "let m = net_mark_demand seq_env beta_net in dem m 1 = dem_stamp m \<and> dem m 3 \<noteq> dem_stamp m"
proof -
  have "live beta_net 1" "live beta_net 3" by (simp_all add: beta_net_def beta_alloc)
  then have "in_net beta_net 1" "in_net beta_net 3" by (simp_all add: live_in_net)
  then show ?thesis
    using mark_demand_exact[OF beta_net_ok(1) beta_ready seq_env_simps(1)] beta_needed by (simp add: Let_def)
qed

text \<open>A wave is the demanded pairs.  \<open>net_mark_demand\<close> moves exactly the queued pairs whose two nodes
  are both needed from the queue to \<open>dem_out\<close>; the others stay queued, nothing is duplicated or
  dropped, no wire, tag or level changes, and a redex is still queued or was emitted.
\<close>

theorem mark_demand_partitions:
  assumes "net_ok n" "stamps_ok n" "roots_ok n" "\<not> in_parallel E"
  shows "let m = net_mark_demand E n in mset (act m) + mset (dem_out m) = mset (act n) \<and>
    set (dem_out m) = {(p, q) \<in> set (act n). needed n (node p) \<and> needed n (node q)} \<and>
    wire m = wire n \<and> tag m = tag n \<and> scope m = scope n \<and> (\<forall>v. live m v = live n v) \<and>
    (\<forall>P. all_queued n P \<longrightarrow> all_queued m (P \<union> set (dem_out m)))"
  using net_mark_demand_spec(4-8,10,13)[OF assms refl] by (simp add: Let_def)

theorem mark_demand_partitions_witness:
  "act (net_mark_demand seq_env beta_net) = [] \<and>
   set (dem_out (net_mark_demand seq_env beta_net)) = {(Port 1 0, Port 2 0)}"
proof -
  note th = mark_demand_partitions[OF beta_net_ok(1) beta_ready seq_env_simps(1), unfolded Let_def]
  let ?m = "net_mark_demand seq_env beta_net"
  have s: "set (dem_out ?m) = {(Port 1 0, Port 2 0)}" using th beta_needed by (auto simp: beta_act)
  then have "dem_out ?m \<noteq> []" by auto
  moreover have "size (mset (act ?m)) + size (mset (dem_out ?m)) = 1"
    using arg_cong[OF conjunct1[OF th], of size] by (simp add: beta_act)
  ultimately show ?thesis using s by (cases "dem_out ?m") auto
qed

end
