(* ===== verification/Claims.thy ===== *)
theory Claims
  imports NetOps
begin

text \<open>
  The claim protocol (\<open>LinClaim\<close> in \<open>src/lin.h\<close>, \<open>lin_claim_check\<close> in \<open>src/net.c\<close>): a driver proposes
  redexes and the exits of a region, and the core validates the proposal from tags, ports and
  wiring alone.  The reasons of a refusal are the values of \<open>refusal\<close>, with the index the message
  names.  An array with its counter is a list.
\<close>

section \<open>The check\<close>

record claim =
  region :: bool             \<comment> \<open>\<open>flags & LIN_CLAIM_REGION\<close>\<close>
  hold :: bool               \<comment> \<open>\<open>flags & LIN_CLAIM_HELD\<close>\<close>
  pairs :: "apair list"
  exits :: "port list"
  members :: "int list"      \<comment> \<open>\<open>nodes\<close>, filled by the check\<close>

datatype refusal = Shape_range | Pair_dead nat | Exit_principal nat | Exit_dead nat | Exits_no_region
  | Claim_large | Region_large | Exit_outside nat | Exit_internal nat

definition claim_pairs_max :: nat where "claim_pairs_max = 32"
definition claim_exits_max :: nat where "claim_exits_max = 16"
definition claim_nodes_max :: nat where "claim_nodes_max = 128"

definition claim_in_set :: "int list \<Rightarrow> int \<Rightarrow> bool" where
  "claim_in_set ns v \<longleftrightarrow> v \<in> set ns"

definition claim_is_exit :: "port list \<Rightarrow> int \<Rightarrow> nat \<Rightarrow> bool" where
  "claim_is_exit es v i \<longleftrightarrow> (\<exists>e \<in> set es. node e = v \<and> pno e = i)"

definition claim_covers :: "claim \<Rightarrow> port \<Rightarrow> port \<Rightarrow> bool" where
  "claim_covers c p q \<longleftrightarrow> members c \<noteq> [] \<and> claim_in_set (members c) (node p) \<and> claim_in_set (members c) (node q)"

text \<open>Adding a node to the region, bounded by its storage.\<close>

definition claim_put :: "refusal \<Rightarrow> int \<Rightarrow> int list \<Rightarrow> refusal + int list" where
  "claim_put e v ns =
     (if claim_in_set ns v then Inr ns
      else if claim_nodes_max \<le> length ns then Inl e else Inr (ns @ [v]))"

fun claim_puts :: "refusal \<Rightarrow> int list \<Rightarrow> int list \<Rightarrow> refusal + int list" where
  "claim_puts e [] ns = Inr ns"
| "claim_puts e (v # vs) ns = (case claim_put e v ns of Inl r \<Rightarrow> Inl r | Inr ns' \<Rightarrow> claim_puts e vs ns')"

definition pair_nodes :: "apair list \<Rightarrow> int list" where
  "pair_nodes ps = concat (map (\<lambda>(p, q). [node p, node q]) ps)"

text \<open>The partners one node of the region contributes: across a port that is no exit, if alive.\<close>

definition region_next :: "net \<Rightarrow> port list \<Rightarrow> int \<Rightarrow> int list" where
  "region_next n es u =
     filter (live n) (map (\<lambda>i. node (wire n (Port u i))) (filter (\<lambda>i. \<not> claim_is_exit es u i) [0, 1, 2]))"

lemma claim_puts_length:
  "claim_puts e vs ns = Inr ms \<Longrightarrow> max (length ms) claim_nodes_max = max (length ns) claim_nodes_max"
  by (induction vs arbitrary: ns) (auto simp: claim_put_def split: if_splits)

function region_loop :: "net \<Rightarrow> port list \<Rightarrow> int list \<Rightarrow> nat \<Rightarrow> refusal + int list" where
  "region_loop n es ns k =
     (if k < length ns
      then case claim_puts Region_large (region_next n es (ns ! k)) ns of
             Inl r \<Rightarrow> Inl r
           | Inr ms \<Rightarrow> region_loop n es ms (Suc k)
      else Inr ns)"
  by pat_completeness auto
termination
proof (relation "measure (\<lambda>(n, es, ns, k). max (length ns) claim_nodes_max - k)", goal_cases)
  case (2 n es ns k ms)
  then show ?case using claim_puts_length[OF 2(2)] by simp
qed simp

declare region_loop.simps [simp del]

fun check_pairs :: "net \<Rightarrow> nat \<Rightarrow> apair list \<Rightarrow> refusal option" where
  "check_pairs n i [] = None"
| "check_pairs n i ((p, q) # ps) = (if redex_live n p q then check_pairs n (Suc i) ps else Some (Pair_dead i))"

fun check_exits :: "net \<Rightarrow> nat \<Rightarrow> port list \<Rightarrow> refusal option" where
  "check_exits n i [] = None"
| "check_exits n i (e # es) =
     (if pno e = 0 then Some (Exit_principal i)
      else if \<not> live n (node e) then Some (Exit_dead i)
      else check_exits n (Suc i) es)"

fun check_frontier :: "net \<Rightarrow> int list \<Rightarrow> nat \<Rightarrow> port list \<Rightarrow> refusal option" where
  "check_frontier n ns i [] = None"
| "check_frontier n ns i (e # es) =
     (if \<not> claim_in_set ns (node e) then Some (Exit_outside i)
      else if live n (node (wire n e)) \<and> claim_in_set ns (node (wire n e)) then Some (Exit_internal i)
      else check_frontier n ns (Suc i) es)"

definition lin_claim_check :: "net \<Rightarrow> claim \<Rightarrow> refusal + claim" where
  "lin_claim_check n c0 =
     (let c = c0\<lparr>members := []\<rparr>
      in if pairs c = [] \<or> claim_pairs_max < length (pairs c) \<or> claim_exits_max < length (exits c)
         then Inl Shape_range
         else case check_pairs n 0 (pairs c) of
           Some r \<Rightarrow> Inl r
         | None \<Rightarrow>
             (case (if region c then check_exits n 0 (exits c) else None) of
                Some r \<Rightarrow> Inl r
              | None \<Rightarrow>
                  if \<not> region c
                  then (if exits c \<noteq> [] then Inl Exits_no_region
                        else case claim_puts Claim_large (pair_nodes (pairs c)) [] of
                               Inl r \<Rightarrow> Inl r
                             | Inr ns \<Rightarrow> Inr (c\<lparr>members := ns\<rparr>))
                  else case claim_puts Region_large (pair_nodes (pairs c)) [] of
                         Inl r \<Rightarrow> Inl r
                       | Inr ns \<Rightarrow>
                           (case region_loop n (exits c) ns 0 of
                              Inl r \<Rightarrow> Inl r
                            | Inr ms \<Rightarrow>
                                (case check_frontier n ms 0 (exits c) of
                                   Some r \<Rightarrow> Inl r
                                 | None \<Rightarrow> Inr (c\<lparr>members := ms\<rparr>)))))"

section \<open>What an accepted region is\<close>

text \<open>The closure of the claimed redexes under wires that do not leave by an exit.\<close>

inductive in_region :: "net \<Rightarrow> apair list \<Rightarrow> port list \<Rightarrow> int \<Rightarrow> bool" for n ps es where
  start: "v \<in> set (pair_nodes ps) \<Longrightarrow> in_region n ps es v"
| across: "in_region n ps es u \<Longrightarrow> i < 3 \<Longrightarrow> \<not> claim_is_exit es u i \<Longrightarrow> live n (node (wire n (Port u i))) \<Longrightarrow>
    in_region n ps es (node (wire n (Port u i)))"

lemma region_next_iff:
  "v \<in> set (region_next n es u) \<longleftrightarrow>
   (\<exists>i < 3. \<not> claim_is_exit es u i \<and> v = node (wire n (Port u i)) \<and> live n v)"
proof -
  have "set [0, 1, 2] = {i :: nat. i < 3}" by auto
  then show ?thesis unfolding region_next_def set_filter set_map by blast
qed

lemma claim_puts_Inr:
  "claim_puts e vs ns = Inr ms \<Longrightarrow> set ms = set ns \<union> set vs \<and> (distinct ns \<longrightarrow> distinct ms) \<and>
   (length ns \<le> claim_nodes_max \<longrightarrow> length ms \<le> claim_nodes_max) \<and> (\<exists>zs. ms = ns @ zs)"
proof (induction vs arbitrary: ns)
  case (Cons v vs)
  obtain ns' where p: "claim_put e v ns = Inr ns'" "claim_puts e vs ns' = Inr ms"
    using Cons.prems by (auto split: sum.splits)
  have "set ns' = insert v (set ns) \<and> (distinct ns \<longrightarrow> distinct ns') \<and>
    (length ns \<le> claim_nodes_max \<longrightarrow> length ns' \<le> claim_nodes_max) \<and> (\<exists>zs. ns' = ns @ zs)"
    using p(1) by (auto simp: claim_put_def claim_in_set_def split: if_splits)
  then show ?case using Cons.IH[OF p(2)] by auto
qed simp

lemma claim_puts_Inl:
  "claim_puts e vs ns = Inl r \<Longrightarrow> distinct ns \<Longrightarrow> r = e \<and> claim_nodes_max < card (set ns \<union> set vs)"
proof (induction vs arbitrary: ns)
  case (Cons v vs)
  show ?case
  proof (cases "claim_put e v ns")
    case (Inl x)
    then have x: "x = e" "v \<notin> set ns" "claim_nodes_max \<le> length ns"
      by (auto simp: claim_put_def claim_in_set_def split: if_splits)
    have "card (insert v (set ns)) \<le> card (set ns \<union> set (v # vs))" by (intro card_mono) auto
    moreover have "card (insert v (set ns)) = Suc (length ns)"
      using x(2) Cons.prems(2) by (simp add: distinct_card)
    ultimately show ?thesis using Inl x Cons.prems(1) by simp
  next
    case (Inr ns')
    then have "set ns' = insert v (set ns)" "distinct ns'"
      using Cons.prems(2) by (auto simp: claim_put_def claim_in_set_def split: if_splits)
    moreover have "claim_puts e vs ns' = Inl r" using Inr Cons.prems(1) by simp
    ultimately show ?thesis using Cons.IH[of ns'] by simp
  qed
qed simp

lemma region_loop_spec:
  "distinct ns \<Longrightarrow> length ns \<le> claim_nodes_max \<Longrightarrow> \<forall>v \<in> set ns. in_region n ps es v \<Longrightarrow>
   \<forall>j < k. set (region_next n es (ns ! j)) \<subseteq> set ns \<Longrightarrow> k \<le> length ns \<Longrightarrow>
   (case region_loop n es ns k of
      Inl r \<Rightarrow> r = Region_large \<and> (\<exists>S. finite S \<and> (\<forall>v \<in> S. in_region n ps es v) \<and> claim_nodes_max < card S)
    | Inr ms \<Rightarrow> distinct ms \<and> length ms \<le> claim_nodes_max \<and> set ns \<subseteq> set ms \<and>
        (\<forall>v \<in> set ms. in_region n ps es v) \<and> (\<forall>v \<in> set ms. set (region_next n es v) \<subseteq> set ms))"
proof (induction n es ns k rule: region_loop.induct)
  case (1 n es ns k)
  note d = 1(2) and len = 1(3) and inr = 1(4) and cl = 1(5) and k = 1(6)
  show ?case
  proof (cases "k < length ns")
    case False
    then have "\<forall>v \<in> set ns. set (region_next n es v) \<subseteq> set ns" using cl k by (metis in_set_conv_nth le_antisym not_less)
    then show ?thesis using False d len inr by (simp add: region_loop.simps[of n es ns k])
  next
    case True
    have u: "in_region n ps es (ns ! k)" using inr True by simp
    have nx: "in_region n ps es v" if "v \<in> set (region_next n es (ns ! k))" for v
      using that u unfolding region_next_iff by (blast intro: in_region.across)
    show ?thesis
    proof (cases "claim_puts Region_large (region_next n es (ns ! k)) ns")
      case (Inl r)
      let ?S = "set ns \<union> set (region_next n es (ns ! k))"
      have "r = Region_large \<and> claim_nodes_max < card ?S" by (rule claim_puts_Inl[OF Inl d])
      moreover have "finite ?S \<and> (\<forall>v \<in> ?S. in_region n ps es v)" using inr nx by auto
      ultimately show ?thesis using True Inl by (auto simp: region_loop.simps[of n es ns k])
    next
      case (Inr ms)
      note cp = claim_puts_Inr[OF Inr]
      obtain zs where z: "ms = ns @ zs" using cp by blast
      have "\<forall>j < Suc k. set (region_next n es (ms ! j)) \<subseteq> set ms"
        using cl True cp by (auto simp: z nth_append less_Suc_eq)
      moreover have "\<forall>v \<in> set ms. in_region n ps es v" using cp inr nx by auto
      ultimately have "case region_loop n es ms (Suc k) of
          Inl r \<Rightarrow> r = Region_large \<and> (\<exists>S. finite S \<and> (\<forall>v \<in> S. in_region n ps es v) \<and> claim_nodes_max < card S)
        | Inr xs \<Rightarrow> distinct xs \<and> length xs \<le> claim_nodes_max \<and> set ms \<subseteq> set xs \<and>
            (\<forall>v \<in> set xs. in_region n ps es v) \<and> (\<forall>v \<in> set xs. set (region_next n es v) \<subseteq> set xs)"
        using 1(1)[OF True Inr] cp d len True z by simp
      moreover have "region_loop n es ns k = region_loop n es ms (Suc k)"
        using True Inr by (simp add: region_loop.simps[of n es ns k])
      ultimately show ?thesis using cp by (auto split: sum.splits)
    qed
  qed
qed

lemma check_pairs_None: "check_pairs n i ps = None \<longleftrightarrow> (\<forall>(p, q) \<in> set ps. redex_live n p q)"
  by (induction n i ps rule: check_pairs.induct) auto

lemma check_exits_None: "check_exits n i es = None \<longleftrightarrow> (\<forall>e \<in> set es. pno e \<noteq> 0 \<and> live n (node e))"
  by (induction n i es rule: check_exits.induct) auto

lemma check_frontier_None:
  "check_frontier n ns i es = None \<longleftrightarrow>
   (\<forall>e \<in> set es. node e \<in> set ns \<and> \<not> (live n (node (wire n e)) \<and> node (wire n e) \<in> set ns))"
  by (induction n ns i es rule: check_frontier.induct) (auto simp: claim_in_set_def)

definition region_set :: "net \<Rightarrow> claim \<Rightarrow> int set" where
  "region_set n c = {v. in_region n (pairs c) (exits c) v}"

text \<open>The conditions the protocol states for a region claim.\<close>

definition region_valid :: "net \<Rightarrow> claim \<Rightarrow> bool" where
  "region_valid n c \<longleftrightarrow> pairs c \<noteq> [] \<and> length (pairs c) \<le> claim_pairs_max \<and> length (exits c) \<le> claim_exits_max \<and>
     (\<forall>(p, q) \<in> set (pairs c). redex_live n p q) \<and> (\<forall>e \<in> set (exits c). pno e \<noteq> 0 \<and> live n (node e)) \<and>
     finite (region_set n c) \<and> card (region_set n c) \<le> claim_nodes_max \<and>
     (\<forall>e \<in> set (exits c). node e \<in> region_set n c \<and> \<not> (live n (node (wire n e)) \<and> node (wire n e) \<in> region_set n c))"

lemma region_run:
  assumes "region c"
  shows "case (case claim_puts Region_large (pair_nodes (pairs c)) [] of Inl r \<Rightarrow> Inl r
      | Inr ns \<Rightarrow> region_loop n (exits c) ns 0) of
    Inl r \<Rightarrow> r = Region_large \<and> \<not> (finite (region_set n c) \<and> card (region_set n c) \<le> claim_nodes_max)
  | Inr ms \<Rightarrow> distinct ms \<and> set ms = region_set n c \<and> length ms \<le> claim_nodes_max"
proof (cases "claim_puts Region_large (pair_nodes (pairs c)) []")
  case (Inl r)
  have p: "r = Region_large" "claim_nodes_max < card (set (pair_nodes (pairs c)))"
    using claim_puts_Inl[OF Inl] by simp_all
  have sub: "set (pair_nodes (pairs c)) \<subseteq> region_set n c" by (auto simp: region_set_def intro: in_region.start)
  have "\<not> (finite (region_set n c) \<and> card (region_set n c) \<le> claim_nodes_max)"
    using p(2) card_mono[OF _ sub] by (meson leD le_trans less_le_trans)
  then show ?thesis using Inl p by simp
next
  case (Inr ns)
  note cp = claim_puts_Inr[OF Inr]
  have "\<forall>v \<in> set ns. in_region n (pairs c) (exits c) v" using cp by (auto intro: in_region.start)
  then have rl: "case region_loop n (exits c) ns 0 of
      Inl r \<Rightarrow> r = Region_large \<and> (\<exists>S. finite S \<and> (\<forall>v \<in> S. in_region n (pairs c) (exits c) v) \<and> claim_nodes_max < card S)
    | Inr ms \<Rightarrow> distinct ms \<and> length ms \<le> claim_nodes_max \<and> set ns \<subseteq> set ms \<and>
        (\<forall>v \<in> set ms. in_region n (pairs c) (exits c) v) \<and> (\<forall>v \<in> set ms. set (region_next n (exits c) v) \<subseteq> set ms)"
    using cp by (intro region_loop_spec) (auto simp: claim_nodes_max_def)
  show ?thesis
  proof (cases "region_loop n (exits c) ns 0")
    case l: (Inl r)
    then obtain S where S: "r = Region_large" "finite S" "S \<subseteq> region_set n c" "claim_nodes_max < card S"
      using rl by (auto simp: region_set_def)
    have "\<not> (finite (region_set n c) \<and> card (region_set n c) \<le> claim_nodes_max)"
      using S card_mono[OF _ S(3)] by (meson leD le_trans less_le_trans)
    then show ?thesis using Inr l S by simp
  next
    case r: (Inr ms)
    then have m: "distinct ms" "length ms \<le> claim_nodes_max" "set ns \<subseteq> set ms" "set ms \<subseteq> region_set n c"
      "\<forall>v \<in> set ms. set (region_next n (exits c) v) \<subseteq> set ms" using rl by (auto simp: region_set_def)
    have "v \<in> set ms" if "in_region n (pairs c) (exits c) v" for v
      using that
    proof (induction rule: in_region.induct)
      case (start v)
      then show ?case using cp m(3) by auto
    next
      case (across u i)
      then have "node (wire n (Port u i)) \<in> set (region_next n (exits c) u)" unfolding region_next_iff by blast
      then show ?case using m(5) across.IH by blast
    qed
    then show ?thesis using Inr r m by (auto simp: region_set_def)
  qed
qed

lemma region_set_members [simp]: "region_set n (c\<lparr>members := ns\<rparr>) = region_set n c"
  by (simp add: region_set_def)

lemma region_check:
  assumes rg: "region c"
  shows "(\<exists>c'. lin_claim_check n c = Inr c') \<longleftrightarrow> region_valid n c"
    "lin_claim_check n c = Inr c' \<Longrightarrow> (\<exists>ms. c' = c\<lparr>members := ms\<rparr> \<and> distinct ms \<and> set ms = region_set n c \<and>
       length ms \<le> claim_nodes_max)"
proof -
  let ?shape = "pairs c = [] \<or> claim_pairs_max < length (pairs c) \<or> claim_exits_max < length (exits c)"
  let ?run = "case claim_puts Region_large (pair_nodes (pairs c)) [] of Inl r \<Rightarrow> Inl r
      | Inr ns \<Rightarrow> region_loop n (exits c) ns 0"
  have e: "lin_claim_check n c =
     (if ?shape then Inl Shape_range
      else case check_pairs n 0 (pairs c) of Some r \<Rightarrow> Inl r
      | None \<Rightarrow> (case check_exits n 0 (exits c) of Some r \<Rightarrow> Inl r
         | None \<Rightarrow> (case ?run of Inl r \<Rightarrow> Inl r
            | Inr ms \<Rightarrow> (case check_frontier n ms 0 (exits c) of Some r \<Rightarrow> Inl r
                | None \<Rightarrow> Inr (c\<lparr>members := ms\<rparr>)))))"
    using rg by (simp add: lin_claim_check_def split: sum.splits option.splits)
  note rr = region_run[OF rg, of n]
  have "(\<exists>c'. lin_claim_check n c = Inr c') \<longleftrightarrow> region_valid n c \<and>
    (\<forall>c'. lin_claim_check n c = Inr c' \<longrightarrow> (\<exists>ms. c' = c\<lparr>members := ms\<rparr> \<and> distinct ms \<and> set ms = region_set n c \<and>
       length ms \<le> claim_nodes_max))"
  proof (cases ?run)
    case (Inl r)
    then have "\<not> region_valid n c" using rr by (auto simp: region_valid_def)
    then show ?thesis unfolding e Inl by (auto split: option.splits)
  next
    case (Inr ms)
    then have m: "distinct ms" "set ms = region_set n c" "length ms \<le> claim_nodes_max" using rr by auto
    have "card (region_set n c) \<le> claim_nodes_max" "finite (region_set n c)"
      using m distinct_card[OF m(1)] by (simp_all flip: m(2))
    then have v: "region_valid n c \<longleftrightarrow> \<not> ?shape \<and> check_pairs n 0 (pairs c) = None \<and> check_exits n 0 (exits c) = None \<and>
        check_frontier n ms 0 (exits c) = None"
      unfolding region_valid_def check_pairs_None check_exits_None check_frontier_None m(2) by auto
    show ?thesis unfolding e Inr v using m by (auto split: option.splits)
  qed
  then show "(\<exists>c'. lin_claim_check n c = Inr c') \<longleftrightarrow> region_valid n c"
    "lin_claim_check n c = Inr c' \<Longrightarrow> (\<exists>ms. c' = c\<lparr>members := ms\<rparr> \<and> distinct ms \<and> set ms = region_set n c \<and>
       length ms \<le> claim_nodes_max)" by blast+
qed

text \<open>C13. What a region claim is granted.  The check accepts a region claim exactly when it is within
  its storage, every pair is a live redex, every exit is a live auxiliary port of the region that
  leads out of it, and the closure of the pairs under wires that do not leave by an exit has at most
  128 nodes; the granted nodes are then exactly that closure, without repetition.
\<close>

theorem region_claim_exact:
  assumes "region c"
  shows "((\<exists>c'. lin_claim_check n c = Inr c') \<longleftrightarrow> region_valid n c) \<and>
    (\<forall>c'. lin_claim_check n c = Inr c' \<longrightarrow> distinct (members c') \<and> set (members c') = region_set n c)"
  using region_check[OF assms, of n] by auto

text \<open>The redex of \<open>beta_net\<close> with the two exits of the application.\<close>

definition beta_claim :: claim where
  "beta_claim = \<lparr>region = True, hold = False, pairs = [(Port 1 0, Port 2 0)],
     exits = [Port 2 1, Port 2 2], members = []\<rparr>"

lemma beta_claim_region: "region_set beta_net beta_claim = {1, 2}"
proof -
  have w: "wire beta_net (Port 1 0) = Port 2 0" "wire beta_net (Port 1 1) = Port 1 2"
    "wire beta_net (Port 1 2) = Port 1 1" "wire beta_net (Port 2 0) = Port 1 0"
    by (simp_all add: beta_net_wire beta_links_def link_ends_pair)
  have i3: "i < 3 \<Longrightarrow> i = 0 \<or> i = 1 \<or> i = 2" for i :: nat by auto
  have "in_region beta_net [(Port 1 0, Port 2 0)] [Port 2 1, Port 2 2] v \<longleftrightarrow> v = 1 \<or> v = 2" for v
  proof
    assume "in_region beta_net [(Port 1 0, Port 2 0)] [Port 2 1, Port 2 2] v"
    then show "v = 1 \<or> v = 2"
    proof (induction rule: in_region.induct)
      case (across u i)
      then show ?case using i3[OF across.hyps(2)] w w[unfolded One_nat_def] by (auto simp: claim_is_exit_def)
    qed (simp add: pair_nodes_def)
  next
    assume "v = 1 \<or> v = 2"
    then show "in_region beta_net [(Port 1 0, Port 2 0)] [Port 2 1, Port 2 2] v"
      by (intro in_region.start) (auto simp: pair_nodes_def)
  qed
  then show ?thesis by (auto simp: region_set_def beta_claim_def)
qed

lemma beta_claim_valid: "region_valid beta_net beta_claim"
proof -
  have "live beta_net 2" by (simp add: beta_net_def beta_alloc)
  moreover have "wire beta_net (Port 2 1) = Port 3 0" "wire beta_net (Port 2 2) = Port 0 0"
    by (simp_all add: beta_net_wire beta_links_def link_ends_pair)
  ultimately show ?thesis
    using beta_net_ok(3) unfolding region_valid_def beta_claim_region
    by (simp add: beta_claim_def claim_pairs_max_def claim_exits_max_def claim_nodes_max_def)
qed

theorem region_claim_exact_witness:
  "\<exists>c'. lin_claim_check beta_net beta_claim = Inr c' \<and> set (members c') = {1, 2}"
proof -
  have r: "region beta_claim" by (simp add: beta_claim_def)
  show ?thesis using region_claim_exact[OF r] beta_claim_valid beta_claim_region by blast
qed

text \<open>C14. The exit rule.  No redex crosses the boundary of a granted region: a live redex with one end
  in the region has the other in it as well, and a wire that leaves the region leaves by an exit.
\<close>

theorem region_boundary_no_redex:
  assumes rg: "region c" and ok: "lin_claim_check n c = Inr c'"
  shows "(\<forall>p q. redex_live n p q \<longrightarrow> (node p \<in> set (members c') \<longleftrightarrow> node q \<in> set (members c'))) \<and>
    (\<forall>u i. u \<in> set (members c') \<and> i < 3 \<and> live n (node (wire n (Port u i))) \<and>
       node (wire n (Port u i)) \<notin> set (members c') \<longrightarrow> Port u i \<in> set (exits c))"
proof -
  have "\<exists>d. lin_claim_check n c = Inr d" using ok by simp
  then have v: "region_valid n c" using region_check(1)[OF rg] by simp
  obtain ms where ms: "c' = c\<lparr>members := ms\<rparr>" "set ms = region_set n c"
    using region_check(2)[OF rg ok] by (elim exE conjE)
  have m: "set (members c') = region_set n c" unfolding ms(1) by (simp add: ms(2))
  have aux: "\<not> claim_is_exit (exits c) u 0" for u using v by (auto simp: region_valid_def claim_is_exit_def)
  have one: "node q \<in> region_set n c" if "redex_live n p q" "node p \<in> region_set n c" for p q
  proof -
    note r = redex_liveD[OF that(1)]
    have "p = Port (node p) 0" using r(3) by (cases p) simp
    then have "wire n (Port (node p) 0) = q" using r(5) by metis
    then show ?thesis
      using in_region.across[of n "pairs c" "exits c" "node p" 0] that(2) aux r(2) by (auto simp: region_set_def)
  qed
  have "Port u i \<in> set (exits c)" if "u \<in> region_set n c" "i < 3" "live n (node (wire n (Port u i)))"
    "node (wire n (Port u i)) \<notin> region_set n c" for u i
  proof (rule ccontr)
    assume "Port u i \<notin> set (exits c)"
    then have "\<not> claim_is_exit (exits c) u i" unfolding claim_is_exit_def by (metis port.collapse)
    then show False using that in_region.across[of n "pairs c" "exits c" u i] by (auto simp: region_set_def)
  qed
  then show ?thesis unfolding m using one redex_live_sym by blast
qed

theorem region_boundary_no_redex_witness:
  "\<exists>c'. lin_claim_check beta_net beta_claim = Inr c' \<and>
     (\<forall>u i. u \<in> set (members c') \<and> i < 3 \<and> live beta_net (node (wire beta_net (Port u i))) \<and>
       node (wire beta_net (Port u i)) \<notin> set (members c') \<longrightarrow> Port u i \<in> {Port 2 1, Port 2 2})"
proof -
  have r: "region beta_claim" by (simp add: beta_claim_def)
  obtain c' where c: "lin_claim_check beta_net beta_claim = Inr c'"
    using region_check(1)[OF r] beta_claim_valid by blast
  show ?thesis using region_boundary_no_redex[OF r c] c by (auto simp: beta_claim_def)
qed

end
