(* ===== verification/Wave.thy ===== *)
theory Wave
  imports Collector Demand Claims ProbeTable
begin

text \<open>
  One wave of the base engine (\<open>lin_reduce_wave_parallel\<close> in \<open>src/net.c\<close>): the serial loop, and the
  choice of the pairs a threaded wave may fire together, which enters each chosen pair's
  neighbourhood into the frontier table (\<open>fw_reset\<close>, \<open>fw_has\<close>, \<open>fw_put\<close>) and defers every pair that
  meets a node already there.  The threads themselves are not modelled.
\<close>

section \<open>The serial wave\<close>

definition wave_pair :: "env \<Rightarrow> apair \<Rightarrow> net \<times> int \<Rightarrow> net \<times> int" where
  "wave_pair E pq s =
     (case (pq, s) of ((p, q), (n, changed)) \<Rightarrow>
        if \<not> redex_live n p q then (n, changed)
        else (case net_interact E p q n of (m, fired) \<Rightarrow>
                let m1 = (if fired then m
                          else if \<not> dead m (node p) \<and> \<not> dead m (node q) then act_push m p q else m)
                in (m1\<lparr>steps := steps m1 + 1\<rparr>, if fired then changed + 1 else changed)))"

definition serial_wave :: "env \<Rightarrow> apair list \<Rightarrow> net \<times> int \<Rightarrow> net \<times> int" where
  "serial_wave E ps s = fold (wave_pair E) ps s"

lemma steps_view:
  assumes "net_ok n"
  shows "net_ok (n\<lparr>steps := k\<rparr>)" "all_queued n P \<Longrightarrow> all_queued (n\<lparr>steps := k\<rparr>) P"
  using net_ok_view[OF assms, where m = "n\<lparr>steps := k\<rparr>" and r = "root n" and i = "pins n" and d = "dem n"
      and s = "dem_stamp n" and vp = "vport n" and out = "dem_out n" and st = k and rc = "recycled n"]
  by simp_all

text \<open>A live redex that is put back, as the wave does with one no rule fired.\<close>

lemma act_push_redex:
  assumes ok: "net_ok n" and r: "redex_live n p q"
  shows "net_ok (act_push n p q)" "0 \<le> act_of (act_push n p q) (node p)" "0 \<le> act_of (act_push n p q) (node q)"
    "0 \<le> act_of n v \<Longrightarrow> 0 \<le> act_of (act_push n p q) v"
proof -
  let ?m = "act_push n p q"
  have w: "wired n {} {}" and qo: "queue_ok n" and ql: "queue_live n" using ok by (simp_all add: net_ok_def)
  have ne: "node p \<noteq> node q" by (rule redex_node_neq[OF w r])
  note po = act_push_redex_ok[OF qo ql r ne]
  have sv: "wired ?m {} {} = wired n {} {}" by (rule same_view) simp_all
  have sl: "slots_ok ?m fs ps = slots_ok n fs ps" for fs ps by (simp add: slots_ok_def)
  have lv: "live n (node p)" "live n (node q)" using r by (simp_all add: redex_live_def)
  have "act_of ?m v < 0" if "nn n \<le> v" for v
  proof -
    have "v \<noteq> node p" "v \<noteq> node q" using that lv by (auto simp: live_def in_net_def)
    then show ?thesis using ok that by (simp add: act_push_index net_ok_def room_ok_def)
  qed
  then have "room_ok ?m" using ok by (simp add: net_ok_def room_ok_def)
  then show "net_ok ?m" using ok po unfolding net_ok_def sv sl by (simp add: levels_ok_def)
  have mate: "0 \<le> act_of n (node x) \<Longrightarrow> 0 \<le> act_of n (node y)" if xy: "redex_live n x y" for x y
  proof -
    assume "0 \<le> act_of n (node x)"
    then obtain a b where ab: "(a, b) \<in> set (act n)" "node x = node a \<or> node x = node b"
      using queue_ok_mem[OF qo, of "node x"] by blast
    then have "redex_live n a b" using ql by (auto simp: queue_live_def)
    then have "(a, b) = (x, y) \<or> (a, b) = (y, x)"
      using ab(2) redex_liveD[OF xy] redex_liveD[of n a b] port_eqI by metis
    then show "0 \<le> act_of n (node y)" using queue_ok_mem[OF qo, of "node y"] ab(1) by blast
  qed
  show "0 \<le> act_of ?m (node p)" "0 \<le> act_of ?m (node q)"
    using mate[OF r] mate[OF redex_live_sym[OF r]] by (auto simp: act_push_index)
  show "0 \<le> act_of n v \<Longrightarrow> 0 \<le> act_of ?m v" by (simp add: act_push_index)
qed

lemma wave_pair_ok:
  assumes ok: "net_ok n" and E: "\<not> in_parallel E" and q: "all_queued n (insert (p, q) P)"
    and w: "wave_pair E (p, q) (n, c) = (m, d)"
  shows "net_ok m" "all_queued m P" "c \<le> d" "d = c \<or> d = c + 1" "nn m \<le> nn n + 4"
    "d = c + 1 \<longleftrightarrow> redex_live n p q \<and> interacts (tag n (node p)) (tag n (node q))"
    "steps m = (if redex_live n p q then steps n + 1 else steps n)"
proof -
  have "net_ok m \<and> all_queued m P \<and> (d = c \<or> d = c + 1) \<and> nn m \<le> nn n + 4 \<and>
    (d = c + 1 \<longleftrightarrow> redex_live n p q \<and> interacts (tag n (node p)) (tag n (node q))) \<and>
    steps m = (if redex_live n p q then steps n + 1 else steps n)"
  proof (cases "redex_live n p q")
    case False
    then have "m = n" "d = c" using w by (simp_all add: wave_pair_def)
    moreover have "\<not> redex_live n q p" using False redex_live_sym by blast
    ultimately show ?thesis using ok q False by (auto simp: all_queued_def)
  next
    case True
    obtain k f where i: "net_interact E p q n = (k, f)" by fastforce
    note io = interact_ok[OF ok True E i]
    show ?thesis
    proof (cases f)
      case f: True
      then have m: "m = k\<lparr>steps := steps k + 1\<rparr>" "d = c + 1" using w True i by (auto simp: wave_pair_def)
      note sv = steps_view[OF io(1), where k = "steps k + 1"]
      have "all_queued k P"
        using io(2)[OF q] io(5)[OF f] unfolding all_queued_def redex_live_def by blast
      then have "all_queued m P" unfolding m by (rule sv(2))
      then show ?thesis using io(1,3,4,7) f True sv(1) m by simp
    next
      case f: False
      have k: "k = n" by (rule io(6)[OF f])
      have nd: "\<not> dead n (node p)" "\<not> dead n (node q)" using True by (simp_all add: redex_live_def live_def)
      let ?n = "act_push n p q"
      have m: "m = ?n\<lparr>steps := steps ?n + 1\<rparr>" "d = c"
        using w True i f nd by (simp_all add: wave_pair_def k Let_def)
      note ap = act_push_redex[OF ok True]
      have rd: "redex_live ?n x y = redex_live n x y" for x y by (rule same_view) simp_all
      have "all_queued ?n P" unfolding all_queued_def rd
      proof (intro allI impI)
        fix x y assume "redex_live n x y"
        then have "0 \<le> act_of n (node x) \<or> (x, y) \<in> insert (p, q) P \<or> (y, x) \<in> insert (p, q) P"
          using q unfolding all_queued_def by blast
        then show "0 \<le> act_of ?n (node x) \<or> (x, y) \<in> P \<or> (y, x) \<in> P" using ap(2-4) by auto
      qed
      note pushed = ap(1) this
      have "all_queued m P" unfolding m by (rule steps_view(2)[OF pushed])
      moreover have "net_ok m" unfolding m by (rule steps_view(1)[OF pushed(1)])
      moreover have "nn ?n = nn n" "steps ?n = steps n" by (simp_all add: act_push_def)
      ultimately show ?thesis using io(7) f True m by simp
    qed
  qed
  then show "net_ok m" "all_queued m P" "c \<le> d" "d = c \<or> d = c + 1" "nn m \<le> nn n + 4"
    "d = c + 1 \<longleftrightarrow> redex_live n p q \<and> interacts (tag n (node p)) (tag n (node q))"
    "steps m = (if redex_live n p q then steps n + 1 else steps n)" by auto
qed

definition gone :: "net \<Rightarrow> apair \<Rightarrow> bool" where
  "gone n pq \<longleftrightarrow> \<not> redex_live n (fst pq) (snd pq)"

lemma serial_wave_ok:
  "net_ok n \<Longrightarrow> \<not> in_parallel E \<Longrightarrow> all_queued n (set ps \<union> P) \<Longrightarrow> serial_wave E ps (n, c) = (m, d) \<Longrightarrow>
   net_ok m \<and> all_queued m P \<and> c \<le> d \<and> d \<le> c + int (length ps) \<and> nn m \<le> nn n + 4 * int (length ps) \<and>
   steps n \<le> steps m \<and> d - c \<le> steps m - steps n \<and> steps m \<le> steps n + int (length ps)"
proof (induction ps arbitrary: n c)
  case Nil
  then show ?case by (simp add: serial_wave_def)
next
  case (Cons pq ps)
  obtain p q where pq: "pq = (p, q)" by fastforce
  obtain n1 c1 where s: "wave_pair E (p, q) (n, c) = (n1, c1)" by fastforce
  have "all_queued n (insert (p, q) (set ps \<union> P))" using Cons.prems(3) by (simp add: pq)
  note w = wave_pair_ok[OF Cons.prems(1,2) this s]
  have "serial_wave E ps (n1, c1) = (m, d)" using Cons.prems(4) s by (simp add: serial_wave_def pq)
  note ih = Cons.IH[OF w(1) Cons.prems(2) w(2) this]
  have "c1 - c \<le> steps n1 - steps n" "steps n1 \<le> steps n + 1" "steps n \<le> steps n1" using w(4,6,7) by auto
  then show ?case using ih w(3,4,5) by auto
qed

text \<open>C10. A wave loses nothing.  Running the serial wave over the pairs taken from the queue keeps the
  invariant, and if every redex of the net was queued or among those pairs, every redex of the
  result is queued: a pair that fired is gone, one a rule declined is back in the queue, and one an
  earlier interaction of the wave invalidated is no redex.  \<open>changed\<close> counts the pairs fired, of
  which each takes at most four nodes, and \<open>steps\<close> those still live at their turn.
\<close>

theorem serial_wave_loses_nothing:
  assumes "net_ok n" "\<not> in_parallel E" "all_queued n (set ps)" "serial_wave E ps (n, 0) = (m, fired)"
  shows "net_ok m \<and> all_queued m {} \<and> 0 \<le> fired \<and> fired \<le> steps m - steps n \<and>
    steps m - steps n \<le> int (length ps) \<and> nn m \<le> nn n + 4 * int (length ps)"
  using serial_wave_ok[OF assms(1,2) _ assms(4), of "{}"] assms(3) by simp

theorem serial_wave_loses_nothing_witness:
  "\<exists>m fired. serial_wave seq_env (dem_out (net_mark_demand seq_env beta_net)) (net_mark_demand seq_env beta_net, 0) = (m, fired) \<and>
     net_ok m \<and> all_queued m {}"
proof -
  let ?k = "net_mark_demand seq_env beta_net"
  note sp = net_mark_demand_spec[OF beta_net_ok(1) beta_ready seq_env_simps(1) refl]
  have "all_queued ?k (set (dem_out ?k))" using sp(6)[OF beta_net_ok(2)[of "{}"]] by simp
  moreover obtain m f where "serial_wave seq_env (dem_out ?k) (?k, 0) = (m, f)" by fastforce
  ultimately show ?thesis using serial_wave_loses_nothing[OF sp(1) seq_env_simps(1)] by blast
qed

section \<open>The frontier table\<close>

text \<open>\<open>fw_tkey\<close>, \<open>fw_tgen\<close>, \<open>fw_tcap\<close> and \<open>fw_gen\<close>: a slot is occupied when its generation is the current one.\<close>

record frontier =
  fw_tkey :: "nat \<Rightarrow> int"
  fw_tgen :: "nat \<Rightarrow> 32 word"
  fw_tcap :: nat
  fw_gen :: "32 word"

definition frontier_init :: frontier where
  "frontier_init = \<lparr>fw_tkey = (\<lambda>_. 0), fw_tgen = (\<lambda>_. 0), fw_tcap = 0, fw_gen = 0\<rparr>"

definition fw_slot :: "frontier \<Rightarrow> nat \<Rightarrow> int option" where
  "fw_slot f h = (if fw_tgen f h = fw_gen f then Some (fw_tkey f h) else None)"

definition fw_home :: "int \<Rightarrow> nat \<Rightarrow> nat" where
  "fw_home v cap = slot_mask cap (unat (of_int v * 2654435761 :: 32 word))"

function fw_need :: "nat \<Rightarrow> nat \<Rightarrow> nat" where
  "fw_need need entries = (if need < entries * 8 \<and> 0 < need then fw_need (need * 2) entries else need)"
  by pat_completeness auto
termination by (relation "measure (\<lambda>(need, entries). entries * 8 - need)") auto

declare fw_need.simps [simp del]

definition fw_reset :: "nat \<Rightarrow> frontier \<Rightarrow> frontier" where
  "fw_reset entries f =
     (let need = fw_need 8 entries;
          f1 = (if fw_tcap f < need
                then f\<lparr>fw_tcap := need, fw_tgen := (\<lambda>h. if h < need then 0 else fw_tgen f h), fw_gen := 1\<rparr>
                else f);
          g = fw_gen f1 + 1
      in if g = 0
         then f1\<lparr>fw_tgen := (\<lambda>h. if h < fw_tcap f1 then 0 else fw_tgen f1 h), fw_gen := 1\<rparr>
         else f1\<lparr>fw_gen := g\<rparr>)"

definition fw_walk :: "frontier \<Rightarrow> int \<Rightarrow> nat option" where
  "fw_walk f v = probe (fw_slot f) (\<lambda>x. x = v) (fw_tcap f) (fw_home v (fw_tcap f)) (fw_tcap f)"

definition fw_has :: "frontier \<Rightarrow> int \<Rightarrow> bool" where
  "fw_has f v = (case fw_walk f v of Some h \<Rightarrow> fw_slot f h \<noteq> None | None \<Rightarrow> False)"

definition fw_put :: "frontier \<Rightarrow> int \<Rightarrow> frontier" where
  "fw_put f v =
     (case fw_walk f v of
        None \<Rightarrow> f
      | Some h \<Rightarrow> if fw_slot f h \<noteq> None then f
          else f\<lparr>fw_tgen := (fw_tgen f)(h := fw_gen f), fw_tkey := (fw_tkey f)(h := v)\<rparr>)"

interpretation fwt: open_addressing fw_home
  by unfold_locales (auto simp: fw_home_def slot_mask_mod)

text \<open>Generations in use never exceed the current one, so a reset empties the table.\<close>

definition fw_fresh :: "frontier \<Rightarrow> bool" where
  "fw_fresh f \<longleftrightarrow> (fw_tcap f = 0 \<or> (\<exists>b. fw_tcap f = 2 ^ b)) \<and> (\<forall>h < fw_tcap f. fw_tgen f h \<le> fw_gen f)"

definition fw_holds :: "frontier \<Rightarrow> int set \<Rightarrow> bool" where
  "fw_holds f S \<longleftrightarrow> table_ok fw_home (\<lambda>x. x) (fw_slot f) (fw_tcap f) S"

lemma fw_need_pow: "\<exists>b. k = 2 ^ b \<Longrightarrow> \<exists>b. fw_need k e = 2 ^ b"
proof (induction k e rule: fw_need.induct)
  case (1 k e)
  then obtain b where "k = 2 ^ b" by blast
  then have "\<exists>b. k * 2 = 2 ^ b" by (intro exI[of _ "Suc b"]) simp
  then show ?case using 1 fw_need.simps[of k e] by (cases "k < e * 8 \<and> 0 < k") auto
qed

lemma fw_need_ge: "0 < k \<Longrightarrow> e * 8 \<le> fw_need k e \<and> k \<le> fw_need k e"
proof (induction k e rule: fw_need.induct)
  case (1 k e)
  then show ?case using fw_need.simps[of k e] by (cases "k < e * 8") auto
qed

lemma fw_reset_holds:
  assumes "fw_fresh f"
  shows "fw_holds (fw_reset e f) {}" "fw_fresh (fw_reset e f)" "e * 8 \<le> fw_tcap (fw_reset e f)"
    "8 \<le> fw_tcap (fw_reset e f)"
proof -
  let ?need = "fw_need 8 e"
  let ?f1 = "if fw_tcap f < ?need
    then f\<lparr>fw_tcap := ?need, fw_tgen := (\<lambda>h. if h < ?need then 0 else fw_tgen f h), fw_gen := 1\<rparr> else f"
  have "\<exists>b. (8 :: nat) = 2 ^ b" by (intro exI[of _ 3]) simp
  then have pow: "\<exists>b. ?need = 2 ^ b" by (rule fw_need_pow)
  have ge: "e * 8 \<le> ?need" "8 \<le> ?need" using fw_need_ge[of 8 e] by simp_all
  have cap: "fw_tcap (fw_reset e f) = max (fw_tcap f) ?need" by (auto simp: fw_reset_def Let_def)
  have f1: "(\<exists>b. fw_tcap ?f1 = 2 ^ b) \<and> (\<forall>h < fw_tcap ?f1. fw_tgen ?f1 h \<le> fw_gen ?f1)"
    using assms pow ge by (auto simp: fw_fresh_def)
  have lt: "g \<le> G \<Longrightarrow> G + 1 \<noteq> 0 \<Longrightarrow> g < G + 1" for g G :: "32 word"
    using unatSuc[of G] by (simp add: word_less_nat_alt word_le_nat_alt add.commute)
  have all: "\<forall>h < fw_tcap (fw_reset e f). fw_tgen (fw_reset e f) h < fw_gen (fw_reset e f)"
  proof (cases "fw_gen ?f1 + 1 = 0")
    case True
    have r: "fw_reset e f = ?f1\<lparr>fw_tgen := (\<lambda>h. if h < fw_tcap ?f1 then 0 else fw_tgen ?f1 h), fw_gen := 1\<rparr>"
      unfolding fw_reset_def Let_def by (rule if_P[OF True])
    show ?thesis unfolding r by simp
  next
    case False
    have r: "fw_reset e f = ?f1\<lparr>fw_gen := fw_gen ?f1 + 1\<rparr>"
      unfolding fw_reset_def Let_def by (rule if_not_P[OF False])
    have "fw_tgen ?f1 h < fw_gen ?f1 + 1" if "h < fw_tcap ?f1" for h
      using f1 that by (intro lt[OF _ False]) blast
    then show ?thesis unfolding r by simp
  qed
  have p2: "\<exists>b. fw_tcap (fw_reset e f) = 2 ^ b" using assms pow unfolding cap fw_fresh_def by (auto simp: max_def)
  have none: "fw_slot (fw_reset e f) h = None" if "h < fw_tcap (fw_reset e f)" for h
    using all that by (auto simp: fw_slot_def)
  show "e * 8 \<le> fw_tcap (fw_reset e f)" "8 \<le> fw_tcap (fw_reset e f)" using ge by (simp_all add: cap)
  show "fw_fresh (fw_reset e f)" using p2 all by (auto simp: fw_fresh_def less_imp_le)
  show "fw_holds (fw_reset e f) {}" unfolding fw_holds_def table_ok_def using p2 none by (auto simp: cap ge)
qed

lemma fw_has_iff:
  assumes h: "fw_holds f S"
  shows "fw_has f v \<longleftrightarrow> v \<in> S"
proof
  have ok: "table_ok fw_home (\<lambda>x. x) (fw_slot f) (fw_tcap f) S" using h by (simp add: fw_holds_def)
  show "fw_has f v" if "v \<in> S"
    using fwt.probe_hit[OF ok that] by (auto simp: fw_has_def fw_walk_def)
  show "v \<in> S" if "fw_has f v"
  proof (rule ccontr)
    assume "v \<notin> S"
    then have "v \<notin> (\<lambda>x. x) ` S" by simp
    from fwt.probe_miss[OF ok this] that show False by (auto simp: fw_has_def fw_walk_def)
  qed
qed

lemma fw_put_holds:
  assumes h: "fw_holds f S" and room: "Suc (card S) < fw_tcap f" and fr: "fw_fresh f"
  shows "fw_holds (fw_put f v) (insert v S)" "fw_tcap (fw_put f v) = fw_tcap f" "fw_fresh (fw_put f v)"
proof -
  have ok: "table_ok fw_home (\<lambda>x. x) (fw_slot f) (fw_tcap f) S" using h by (simp add: fw_holds_def)
  have "fw_holds (fw_put f v) (insert v S) \<and> fw_tcap (fw_put f v) = fw_tcap f \<and> fw_fresh (fw_put f v)"
  proof (cases "v \<in> S")
    case True
    then have "fw_put f v = f" using fwt.probe_hit[OF ok True] by (auto simp: fw_put_def fw_walk_def)
    then show ?thesis using h fr True by (simp add: insert_absorb)
  next
    case False
    then have "v \<notin> (\<lambda>x. x) ` S" by simp
    then obtain i where i: "fw_walk f v = Some i" "i < fw_tcap f" "fw_slot f i = None"
      "on_walk (fw_slot f) (fw_tcap f) (fw_home v (fw_tcap f)) i"
      using fwt.probe_miss[OF ok] unfolding fw_walk_def by blast
    let ?g = "f\<lparr>fw_tgen := (fw_tgen f)(i := fw_gen f), fw_tkey := (fw_tkey f)(i := v)\<rparr>"
    have p: "fw_put f v = ?g" using i by (simp add: fw_put_def)
    have sl: "fw_slot ?g = (fw_slot f)(i \<mapsto> v)" by (auto simp: fw_slot_def fun_eq_iff)
    have "table_ok fw_home (\<lambda>x. x) ((fw_slot f)(i \<mapsto> v)) (fw_tcap f) (insert v S)"
      by (rule fwt.insert_ok[OF ok _ room i(2-4)]) (use False in simp)
    then have "fw_holds ?g (insert v S)" unfolding fw_holds_def sl by simp
    moreover have "fw_fresh ?g" using fr by (simp add: fw_fresh_def)
    ultimately show ?thesis unfolding p by simp
  qed
  then show "fw_holds (fw_put f v) (insert v S)" "fw_tcap (fw_put f v) = fw_tcap f" "fw_fresh (fw_put f v)" by blast+
qed

section \<open>The pairs a threaded wave fires together\<close>

definition pair_nb :: "net \<Rightarrow> port \<Rightarrow> port \<Rightarrow> int list" where
  "pair_nb n p q =
     [node p, node q] @ filter (in_net n) (map (\<lambda>k. node (wire n (Port (node p) k))) [1, 2]) @
     filter (in_net n) (map (\<lambda>k. node (wire n (Port (node q) k))) [1, 2])"

text \<open>Interning writes the shared trie, so a commutation is deferred.\<close>

definition wave_pick :: "net \<Rightarrow> apair \<Rightarrow> frontier \<times> apair list \<times> apair list \<Rightarrow> frontier \<times> apair list \<times> apair list" where
  "wave_pick n pq s =
     (case (pq, s) of ((p, q), (f, together, later)) \<Rightarrow>
        if \<not> redex_live n p q then s
        else let nodes = pair_nb n p q;
                 ok = ((tag n (node p) = DUP) = (tag n (node q) = DUP)) \<and> (\<forall>v \<in> set nodes. \<not> fw_has f v)
             in if \<not> ok then (f, together, later @ [(p, q)])
                else (fold (\<lambda>v f. fw_put f v) nodes f, together @ [(p, q)], later))"

definition wave_split :: "net \<Rightarrow> apair list \<Rightarrow> frontier \<Rightarrow> frontier \<times> apair list \<times> apair list" where
  "wave_split n ps f = fold (wave_pick n) ps (fw_reset (length ps * 6) f, [], [])"

lemma pair_nb_length: "length (pair_nb n p q) \<le> 6"
proof -
  have "length (filter P (map g [1, 2])) \<le> 2" for P :: "int \<Rightarrow> bool" and g :: "nat \<Rightarrow> int"
    using length_filter_le[of P "map g [1, 2]"] by simp
  from this[of "in_net n" "\<lambda>k. node (wire n (Port (node p) k))"]
    this[of "in_net n" "\<lambda>k. node (wire n (Port (node q) k))"] show ?thesis unfolding pair_nb_def by simp
qed

lemma fw_puts_holds:
  "fw_holds f S \<Longrightarrow> card S + length vs < fw_tcap f \<Longrightarrow> fw_fresh f \<Longrightarrow> finite S \<Longrightarrow>
   fw_holds (fold (\<lambda>v f. fw_put f v) vs f) (S \<union> set vs) \<and> fw_tcap (fold (\<lambda>v f. fw_put f v) vs f) = fw_tcap f \<and>
   fw_fresh (fold (\<lambda>v f. fw_put f v) vs f)"
proof (induction vs arbitrary: f S)
  case (Cons v vs)
  have "Suc (card S) < fw_tcap f" using Cons.prems(2) by simp
  note p = fw_put_holds[OF Cons.prems(1) this Cons.prems(3), of v]
  have "card (insert v S) + length vs < fw_tcap (fw_put f v)"
    using Cons.prems(2,4) by (simp add: p(2) card_insert_if)
  from Cons.IH[OF p(1) this p(3)] show ?case using Cons.prems(4) p(2) by simp
qed simp

text \<open>What the split has chosen so far: disjoint neighbourhoods, all entered in the table.\<close>

definition nb_set :: "net \<Rightarrow> apair \<Rightarrow> int set" where
  "nb_set n pq = set (pair_nb n (fst pq) (snd pq))"

definition disjoint_pairs :: "net \<Rightarrow> apair list \<Rightarrow> bool" where
  "disjoint_pairs n ps \<longleftrightarrow> (\<forall>i < length ps. \<forall>j < length ps. i \<noteq> j \<longrightarrow> nb_set n (ps ! i) \<inter> nb_set n (ps ! j) = {})"

lemma disjoint_pairs_snoc:
  assumes "disjoint_pairs n ps" "\<forall>x \<in> set ps. nb_set n x \<inter> nb_set n y = {}"
  shows "disjoint_pairs n (ps @ [y])"
  using assms nth_mem by (fastforce simp: disjoint_pairs_def nth_append less_Suc_eq)

lemma wave_split_fold:
  "fw_holds f (\<Union>x \<in> set ts. nb_set n x) \<Longrightarrow> fw_fresh f \<Longrightarrow> (length ts + length ps) * 6 < fw_tcap f \<Longrightarrow>
   disjoint_pairs n ts \<Longrightarrow> fold (wave_pick n) ps (f, ts, ls) = (f', ts', ls') \<Longrightarrow>
   disjoint_pairs n ts' \<and> mset ts' + mset ls' = mset ts + mset ls + filter_mset (\<lambda>x. \<not> gone n x) (mset ps) \<and>
   (\<forall>x \<in> set ts' - set ts. (tag n (node (fst x)) = DUP) = (tag n (node (snd x)) = DUP))"
proof (induction ps arbitrary: f ts ls)
  case (Cons pq ps)
  obtain p q where pq: "pq = (p, q)" by fastforce
  have rest: "(length ts + length ps) * 6 < fw_tcap f" using Cons.prems(3) by simp
  show ?case
  proof (cases "redex_live n p q")
    case False
    then have "fold (wave_pick n) ps (f, ts, ls) = (f', ts', ls')"
      using Cons.prems(5) wave_pick_def[of n "(p, q)" "(f, ts, ls)"] by (simp add: pq)
    from Cons.IH[OF Cons.prems(1,2) rest Cons.prems(4) this] False show ?thesis
      by (simp add: pq gone_def)
  next
    case r: True
    let ?ok = "((tag n (node p) = DUP) = (tag n (node q) = DUP)) \<and> (\<forall>v \<in> set (pair_nb n p q). \<not> fw_has f v)"
    show ?thesis
    proof (cases ?ok)
      case False
      have "wave_pick n (p, q) (f, ts, ls) = (f, ts, ls @ [(p, q)])"
        using r False by (auto simp: wave_pick_def Let_def)
      then have "fold (wave_pick n) ps (f, ts, ls @ [(p, q)]) = (f', ts', ls')"
        using Cons.prems(5) by (simp add: pq)
      from Cons.IH[OF Cons.prems(1,2) rest Cons.prems(4) this] r show ?thesis
        by (simp add: pq gone_def)
    next
      case ok: True
      let ?g = "fold (\<lambda>v f. fw_put f v) (pair_nb n p q) f" and ?S = "\<Union>x \<in> set ts. nb_set n x"
      have "wave_pick n (p, q) (f, ts, ls) = (?g, ts @ [(p, q)], ls)"
        using r ok by (auto simp: wave_pick_def Let_def)
      then have "fold (wave_pick n) ps (?g, ts @ [(p, q)], ls) = (f', ts', ls')"
        using Cons.prems(5) by (simp add: pq)
      note f' = this
      have fin: "finite ?S" by (simp add: nb_set_def)
      have "card ?S \<le> (\<Sum>x \<in> set ts. card (nb_set n x))" by (rule card_UN_le) simp
      also have "\<dots> \<le> (\<Sum>x \<in> set ts. 6)"
      proof (rule sum_mono)
        fix x
        have "card (nb_set n x) \<le> length (pair_nb n (fst x) (snd x))" by (simp add: nb_set_def card_length)
        then show "card (nb_set n x) \<le> 6" using pair_nb_length[of n "fst x" "snd x"] by linarith
      qed
      also have "\<dots> \<le> length ts * 6" by (simp add: card_length)
      finally have card: "card ?S + length (pair_nb n p q) < fw_tcap f"
        using pair_nb_length[of n p q] Cons.prems(3) by simp
      note fp = fw_puts_holds[OF Cons.prems(1) card Cons.prems(2) fin]
      have S: "?S \<union> set (pair_nb n p q) = (\<Union>x \<in> set (ts @ [(p, q)]). nb_set n x)" by (auto simp: nb_set_def)
      have h: "fw_holds ?g (\<Union>x \<in> set (ts @ [(p, q)]). nb_set n x)" "fw_fresh ?g"
        "(length (ts @ [(p, q)]) + length ps) * 6 < fw_tcap ?g"
        using fp Cons.prems(3) unfolding S by simp_all
      have "\<forall>x \<in> set ts. nb_set n x \<inter> nb_set n (p, q) = {}"
        using ok fw_has_iff[OF Cons.prems(1)] by (fastforce simp: nb_set_def)
      then have d: "disjoint_pairs n (ts @ [(p, q)])" by (rule disjoint_pairs_snoc[OF Cons.prems(4)])
      from Cons.IH[OF h d f'] r ok show ?thesis by (auto simp: pq gone_def)
    qed
  qed
qed simp

text \<open>C12. The threaded wave's choice.  The frontier table, whatever earlier waves left in it, decides
  membership exactly: the pairs chosen to fire together have pairwise disjoint neighbourhoods, none
  of them is a commutation, and every live pair of the wave is chosen or deferred, once.
\<close>

theorem wave_split_disjoint:
  assumes "fw_fresh f" "wave_split n ps f = (f', together, later)"
  shows "disjoint_pairs n together \<and>
    mset together + mset later = filter_mset (\<lambda>x. redex_live n (fst x) (snd x)) (mset ps) \<and>
    (\<forall>x \<in> set together. (tag n (node (fst x)) = DUP) = (tag n (node (snd x)) = DUP))"
proof -
  note r = fw_reset_holds[OF assms(1), of "length ps * 6"]
  have c: "(length ([] :: apair list) + length ps) * 6 < fw_tcap (fw_reset (length ps * 6) f)"
    using r(3,4) by (cases ps) simp_all
  have h: "fw_holds (fw_reset (length ps * 6) f) (\<Union>x \<in> set []. nb_set n x)" using r(1) by simp
  have d: "disjoint_pairs n []" by (simp add: disjoint_pairs_def)
  show ?thesis
    using wave_split_fold[OF h r(2) c d assms(2)[unfolded wave_split_def]] by (simp add: gone_def)
qed

theorem wave_split_disjoint_witness:
  "\<exists>f' together later. wave_split beta_net [(Port 1 0, Port 2 0), (Port 1 0, Port 2 0)] frontier_init =
     (f', together, later) \<and> length together + length later = 2 \<and> length together \<le> 1"
proof -
  let ?ps = "[(Port 1 0, Port 2 0), (Port 1 0, Port 2 0)]"
  obtain f' ts ls where w: "wave_split beta_net ?ps frontier_init = (f', ts, ls)" by (metis prod_cases3)
  have "fw_fresh frontier_init" by (simp add: fw_fresh_def frontier_init_def)
  note th = wave_split_disjoint[OF this w]
  have m: "mset ts + mset ls = mset ?ps" using th beta_net_ok(3) by simp
  have "size (mset ts) + size (mset ls) = 2" using arg_cong[OF m, of size] by simp
  moreover have "length ts \<le> 1"
  proof (rule ccontr)
    assume l: "\<not> length ts \<le> 1"
    have "set_mset (mset ts) \<subseteq> set_mset (mset ?ps)" using m by (metis set_mset_mono mset_subset_eq_add_left)
    then have all: "x = (Port 1 0, Port 2 0)" if "x \<in> set ts" for x using that by auto
    have "ts ! 0 \<in> set ts" "ts ! 1 \<in> set ts" using l by (auto intro: nth_mem)
    then have "ts ! 0 = (Port 1 0, Port 2 0)" "ts ! 1 = (Port 1 0, Port 2 0)" by (blast intro: all)+
    moreover have "0 < length ts" "1 < length ts" using l by linarith+
    then have "nb_set beta_net (ts ! 0) \<inter> nb_set beta_net (ts ! 1) = {}"
      using conjunct1[OF th] unfolding disjoint_pairs_def by (metis zero_neq_one)
    ultimately show False by (auto simp: nb_set_def pair_nb_def)
  qed
  ultimately show ?thesis using w by (intro exI conjI) auto
qed

end
