(* ===== verification/Registry.thy ===== *)
theory Registry
  imports LinPrelude
begin

unbundle bit_operations_syntax

text \<open>
  The driver registry of \<open>src/net.c\<close>: acceptance of a driver (\<open>lin_driver_add\<close>) with its state slot and
  its place in the priority order, the reset to a strategy (\<open>lin_driver_clear\<close>), and the look-ups by
  capability, domain and name.  A driver's hooks are the set of fields that lie within its \<open>size\<close>
  and are not null, which is what the macro \<open>DRV_HAS\<close> and the null test decide; two drivers are the
  same pointer when their \<open>ident\<close> agrees.
\<close>

section \<open>Drivers\<close>

datatype hook = H_claim | H_reduce | H_state_new | H_state_free | H_state_copy | H_node_recycled
  | H_val_box | H_val_unbox | H_carry_save | H_carry_load | H_match | H_act | H_revalidate
  | H_release_claim | H_read_value | H_print | H_run_io | H_aot

record driver =
  ident :: nat
  dname :: "string option"
  magic :: "32 word"
  abi :: "32 word"
  net_size :: nat
  dsize :: nat
  caps :: "64 word"
  wants :: "64 word"
  domains :: "64 word"
  priority :: int
  hooks :: "hook list"

definition driver_magic :: "32 word" where "driver_magic = 0x4C494E44"
definition driver_abi :: "32 word" where "driver_abi = 6"

definition cap_native_num :: "64 word" where "cap_native_num = 0x01"
definition cap_preempt :: "64 word" where "cap_preempt = 0x08"
definition cap_provider :: "64 word" where "cap_provider = 0x10"

definition want_state :: "64 word" where "want_state = 0x01"
definition want_recycle :: "64 word" where "want_recycle = 0x02"
definition want_carry :: "64 word" where "want_carry = 0x04"
definition want_values :: "64 word" where "want_values = 0x08"
definition want_match :: "64 word" where "want_match = 0x10"
definition want_held :: "64 word" where "want_held = 0x20"
definition want_readback :: "64 word" where "want_readback = 0x40"
definition want_aot :: "64 word" where "want_aot = 0x80"
definition want_all :: "64 word" where "want_all = 0xff"

text \<open>
  What the layout of the build fixes: \<open>sizeof(Net)\<close> and the end of the field \<open>slot\<close> in a driver.
\<close>

record layout =
  net_bytes :: nat
  slot_end :: nat

definition drv_slots :: nat where "drv_slots = 8"

text \<open>The registry: the dispatch table in priority order, the slots and the two sweep flags.\<close>

record registry =
  table :: "driver list"
  slots :: "driver option list"      \<comment> \<open>\<open>dslot\<close>\<close>
  recycle_on :: bool                  \<comment> \<open>\<open>any_recycle\<close>\<close>
  state_on :: bool                    \<comment> \<open>\<open>any_state\<close>\<close>

definition registry_init :: registry where
  "registry_init = \<lparr>table = [], slots = replicate drv_slots None, recycle_on = False, state_on = False\<rparr>"

definition has :: "driver \<Rightarrow> hook \<Rightarrow> bool" where
  "has d h \<longleftrightarrow> h \<in> set (hooks d)"

definition wanted :: "driver \<Rightarrow> 64 word \<Rightarrow> bool" where
  "wanted d w \<longleftrightarrow> wants d AND w \<noteq> 0"

section \<open>Acceptance\<close>

datatype rejection = Bad_abi | Bad_size | Unknown_want | Missing_hook | No_slot

text \<open>The capabilities a driver wants and the hooks each needs, in the order of the checks.\<close>

definition missing_hook :: "driver \<Rightarrow> bool" where
  "missing_hook d \<longleftrightarrow>
     (wanted d want_state \<and> \<not> has d H_state_new) \<or>
     (wanted d want_recycle \<and> \<not> has d H_node_recycled) \<or>
     (wanted d want_carry \<and> \<not> has d H_carry_save) \<or>
     (wanted d want_aot \<and> \<not> has d H_aot) \<or>
     (wanted d want_values \<and> (\<not> has d H_val_box \<or> \<not> has d H_val_unbox)) \<or>
     (wanted d want_readback \<and> (\<not> has d H_read_value \<or> \<not> has d H_print \<or> \<not> has d H_run_io))"

fun slot_find :: "(driver option \<Rightarrow> bool) \<Rightarrow> nat \<Rightarrow> driver option list \<Rightarrow> nat option" where
  "slot_find P i [] = None"
| "slot_find P i (x # xs) = (if P x then Some i else slot_find P (Suc i) xs)"

definition is_driver :: "driver \<Rightarrow> driver option \<Rightarrow> bool" where
  "is_driver d x \<longleftrightarrow> (case x of Some e \<Rightarrow> ident e = ident d | None \<Rightarrow> False)"

definition slot_for :: "driver \<Rightarrow> driver option list \<Rightarrow> nat option" where
  "slot_for d xs = (case slot_find (is_driver d) 0 xs of Some i \<Rightarrow> Some i | None \<Rightarrow> slot_find (\<lambda>x. x = None) 0 xs)"

text \<open>The insertion loop runs from the back of the table.\<close>

fun sift :: "driver \<Rightarrow> driver list \<Rightarrow> driver list" where
  "sift d [] = [d]"
| "sift d (e # es) = (if priority d < priority e then e # sift d es else d # e # es)"

definition table_insert :: "driver \<Rightarrow> driver list \<Rightarrow> driver list" where
  "table_insert d ds = rev (sift d (rev ds))"

definition lin_driver_add :: "layout \<Rightarrow> driver option \<Rightarrow> registry \<Rightarrow> (rejection option + nat) \<times> registry" where
  "lin_driver_add L p R =
     (case p of
        None \<Rightarrow> (Inl None, R)
      | Some d \<Rightarrow>
          if magic d \<noteq> driver_magic \<or> abi d \<noteq> driver_abi then (Inl (Some Bad_abi), R)
          else if net_bytes L < net_size d \<or> dsize d < slot_end L then (Inl (Some Bad_size), R)
          else if wants d AND NOT want_all \<noteq> 0 then (Inl (Some Unknown_want), R)
          else if missing_hook d then (Inl (Some Missing_hook), R)
          else (case slot_for d (slots R) of
              None \<Rightarrow> (Inl (Some No_slot), R)
            | Some i \<Rightarrow>
                let R1 = R\<lparr>slots := (slots R)[i := Some d],
                           recycle_on := recycle_on R \<or> has d H_node_recycled,
                           state_on := state_on R \<or> has d H_state_new\<rparr>
                in if \<exists>e \<in> set (table R1). ident e = ident d then (Inr i, R1)
                   else (Inr i, R1\<lparr>table := table_insert d (table R1)\<rparr>)))"

definition permanent :: "driver \<Rightarrow> bool" where
  "permanent d \<longleftrightarrow> caps d AND (cap_preempt OR cap_provider) \<noteq> 0"

definition lin_driver_clear :: "registry \<Rightarrow> registry" where
  "lin_driver_clear R = R\<lparr>table := filter permanent (table R)\<rparr>"

section \<open>Look-ups\<close>

definition lin_get_driver :: "registry \<Rightarrow> driver option" where
  "lin_get_driver R = find (\<lambda>d. \<not> permanent d) (rev (table R))"

definition provides :: "driver \<Rightarrow> 64 word \<Rightarrow> bool" where
  "provides d w =
     (if w = want_state then has d H_state_new
      else if w = want_recycle then has d H_node_recycled
      else if w = want_carry then has d H_carry_save
      else if w = want_values then has d H_val_box
      else if w = want_match then has d H_match
      else if w = want_held then has d H_revalidate
      else if w = want_readback then has d H_print \<and> has d H_run_io
      else False)"

definition lin_driver_wanting :: "registry \<Rightarrow> 64 word \<Rightarrow> driver option" where
  "lin_driver_wanting R w = find (\<lambda>d. provides d w) (table R)"

definition domain_provider :: "registry \<Rightarrow> int \<Rightarrow> driver option" where
  "domain_provider R k =
     (if k < 0 \<or> 64 \<le> k then None
      else find (\<lambda>d. has d H_val_box \<and> drop_bit (nat k) (domains d) AND 1 \<noteq> 0) (table R))"

definition driver_by_name :: "registry \<Rightarrow> string \<Rightarrow> driver option" where
  "driver_by_name R s =
     (case find (\<lambda>x. case x of Some d \<Rightarrow> dname d = Some s | None \<Rightarrow> False) (slots R) of
        Some x \<Rightarrow> x | None \<Rightarrow> None)"

text \<open>The drivers the AOT pass point offers the term to, in order.\<close>

definition lin_driver_aot :: "bool \<Rightarrow> registry \<Rightarrow> driver list" where
  "lin_driver_aot no_pass R = (if no_pass then [] else filter (\<lambda>d. has d H_aot \<and> wanted d want_aot) (table R))"

definition carries_presence :: "driver \<Rightarrow> bool" where
  "carries_presence d \<longleftrightarrow> caps d AND (cap_preempt OR cap_provider OR cap_native_num) \<noteq> 0"

section \<open>The registry's invariant\<close>

definition in_slot :: "registry \<Rightarrow> driver \<Rightarrow> bool" where
  "in_slot R d \<longleftrightarrow> (\<exists>i < length (slots R). \<exists>e. slots R ! i = Some e \<and> ident e = ident d)"

definition registry_ok :: "registry \<Rightarrow> bool" where
  "registry_ok R \<longleftrightarrow> length (slots R) = drv_slots \<and> sorted (map priority (table R)) \<and>
     distinct (map ident (table R)) \<and> (\<forall>d \<in> set (table R). in_slot R d \<and> \<not> missing_hook d) \<and>
     (\<forall>i < drv_slots. \<forall>j < drv_slots. \<forall>d e. slots R ! i = Some d \<and> slots R ! j = Some e \<and>
        ident d = ident e \<longrightarrow> i = j) \<and>
     (\<forall>d \<in> set (table R). (has d H_node_recycled \<longrightarrow> recycle_on R) \<and> (has d H_state_new \<longrightarrow> state_on R))"

lemma slot_find_Some: "slot_find P i xs = Some j \<Longrightarrow> \<exists>k < length xs. j = i + k \<and> P (xs ! k)"
proof (induction P i xs rule: slot_find.induct)
  case (2 P i x xs)
  show ?case
  proof (cases "P x")
    case False
    then obtain k where "k < length xs" "j = Suc i + k" "P (xs ! k)" using 2 by auto
    then show ?thesis by (intro exI[of _ "Suc k"]) simp
  qed (use 2 in auto)
qed simp

lemma slot_find_None: "slot_find P i xs = None \<longleftrightarrow> (\<forall>x \<in> set xs. \<not> P x)"
  by (induction P i xs rule: slot_find.induct) auto

lemma slot_for_cases:
  assumes "slot_for d xs = Some i"
  obtains (own) e where "i < length xs" "xs ! i = Some e" "ident e = ident d"
  | (free) "i < length xs" "xs ! i = None" "\<forall>x \<in> set xs. \<not> is_driver d x"
proof (cases "slot_find (is_driver d) 0 xs")
  case None
  then have "slot_find (\<lambda>x. x = None) 0 xs = Some i" using assms by (simp add: slot_for_def)
  then show ?thesis using slot_find_Some[of "\<lambda>x. x = None" 0 xs i] None free by (auto simp: slot_find_None)
next
  case (Some k)
  then have "i = k" using assms by (simp add: slot_for_def)
  then show ?thesis using slot_find_Some[OF Some] own by (auto simp: is_driver_def split: option.splits)
qed

lemma sift_set [simp]: "set (sift d es) = insert d (set es)"
  by (induction d es rule: sift.induct) auto

lemma sift_mset: "mset (sift d es) = add_mset d (mset es)"
  by (induction d es rule: sift.induct) auto

lemma sift_sorted: "sorted_wrt (\<ge>) (map priority es) \<Longrightarrow> sorted_wrt (\<ge>) (map priority (sift d es))"
  by (induction d es rule: sift.induct) auto

lemma table_insert_mset: "mset (table_insert d ds) = add_mset d (mset ds)"
  by (simp add: table_insert_def sift_mset)

lemma table_insert_set [simp]: "set (table_insert d ds) = insert d (set ds)"
  by (simp add: table_insert_def)

lemma table_insert_sorted: "sorted (map priority ds) \<Longrightarrow> sorted (map priority (table_insert d ds))"
  using sift_sorted[of "rev ds" d] by (simp add: table_insert_def rev_map sorted_wrt_rev flip: rev_map)

text \<open>The new driver comes after every driver of its priority: the earlier registration pre-empts.\<close>

lemma table_insert_split:
  assumes "sorted (map priority ds)"
  shows "\<exists>as bs. ds = as @ bs \<and> table_insert d ds = as @ d # bs \<and>
    (\<forall>e \<in> set as. priority e \<le> priority d) \<and> (\<forall>e \<in> set bs. priority d < priority e)"
proof -
  have "sorted_wrt (\<ge>) (map priority es) \<Longrightarrow> \<exists>xs ys. es = xs @ ys \<and> sift d es = xs @ d # ys \<and>
      (\<forall>e \<in> set xs. priority d < priority e) \<and> (\<forall>e \<in> set ys. priority e \<le> priority d)" for es
  proof (induction es)
    case (Cons e es)
    show ?case
    proof (cases "priority d < priority e")
      case True
      obtain xs ys where x: "es = xs @ ys" "sift d es = xs @ d # ys"
        "\<forall>e \<in> set xs. priority d < priority e" "\<forall>e \<in> set ys. priority e \<le> priority d"
        using Cons by auto
      then show ?thesis using True by (intro exI[of _ "e # xs"] exI[of _ ys]) simp
    next
      case False
      then show ?thesis using Cons.prems by (intro exI[of _ "[]"] exI[of _ "e # es"]) auto
    qed
  qed simp
  moreover have "sorted_wrt (\<ge>) (map priority (rev ds))" using assms by (simp add: sorted_wrt_rev flip: rev_map)
  ultimately obtain xs ys where x: "rev ds = xs @ ys" "sift d (rev ds) = xs @ d # ys"
    "\<forall>e \<in> set xs. priority d < priority e" "\<forall>e \<in> set ys. priority e \<le> priority d" by blast
  have "ds = rev ys @ rev xs" using arg_cong[OF x(1), of rev] by simp
  then show ?thesis using x by (intro exI[of _ "rev ys"] exI[of _ "rev xs"]) (simp add: table_insert_def)
qed

lemma add_accepted:
  assumes "lin_driver_add L (Some d) R = (Inr i, R')"
  shows "\<not> missing_hook d" "slot_for d (slots R) = Some i" "slots R' = (slots R)[i := Some d]"
    "recycle_on R' = (recycle_on R \<or> has d H_node_recycled)" "state_on R' = (state_on R \<or> has d H_state_new)"
    "table R' = (if \<exists>e \<in> set (table R). ident e = ident d then table R else table_insert d (table R))"
  using assms by (auto simp: lin_driver_add_def Let_def split: if_splits option.splits)

lemma add_refused: "lin_driver_add L p R = (Inl r, R') \<Longrightarrow> R' = R"
  by (auto simp: lin_driver_add_def Let_def split: if_splits option.splits)

text \<open>A pointer names one driver: two registered values with one address are the same value.\<close>

definition same_pointer :: "driver \<Rightarrow> registry \<Rightarrow> bool" where
  "same_pointer d R \<longleftrightarrow> (\<forall>e \<in> set (table R). ident e = ident d \<longrightarrow> e = d)"

lemma add_ok:
  assumes ok: "registry_ok R" and a: "lin_driver_add L (Some d) R = (Inr i, R')" and sp: "same_pointer d R"
  shows "registry_ok R'"
proof -
  note f = add_accepted[OF a]
  have len: "length (slots R) = drv_slots" using ok by (simp add: registry_ok_def)
  have i: "i < drv_slots" using slot_for_cases[OF f(2)] len by metis
  have uniq: "j = i" if "j < drv_slots" "slots R ! j = Some e" "ident e = ident d" for j e
  proof (rule slot_for_cases[OF f(2)])
    fix e' assume e': "i < length (slots R)" "slots R ! i = Some e'" "ident e' = ident d"
    show "j = i" using ok that e' len unfolding registry_ok_def by metis
  next
    assume "\<forall>x \<in> set (slots R). \<not> is_driver d x"
    then have "\<not> is_driver d (slots R ! j)" using that(1) len nth_mem by metis
    then show "j = i" using that by (simp add: is_driver_def)
  qed
  have slot: "in_slot R' e" if ed: "e = d \<or> in_slot R e" for e
  proof (cases "ident e = ident d")
    case True
    then show ?thesis using i by (auto simp: in_slot_def f(3) len intro!: exI[of _ i])
  next
    case False
    then obtain j x where j: "j < length (slots R)" "slots R ! j = Some x" "ident x = ident e"
      using ed False by (auto simp: in_slot_def)
    have "j \<noteq> i"
    proof
      assume "j = i"
      then have xi: "slots R ! i = Some x" using j by simp
      show False by (rule slot_for_cases[OF f(2)]) (use xi j(3) False in auto)
    qed
    then show ?thesis using j by (auto simp: in_slot_def f(3) intro!: exI[of _ j])
  qed
  have u0: "\<And>j k x y. j < drv_slots \<Longrightarrow> k < drv_slots \<Longrightarrow> slots R ! j = Some x \<Longrightarrow> slots R ! k = Some y \<Longrightarrow>
      ident x = ident y \<Longrightarrow> j = k" using ok unfolding registry_ok_def by blast
  have at: "slots R' ! j = Some x \<Longrightarrow> j < drv_slots \<Longrightarrow> j = i \<and> x = d \<or> j \<noteq> i \<and> slots R ! j = Some x" for j x
    by (cases "j = i") (simp_all add: f(3) len)
  have inj: "j = k" if j: "j < drv_slots" "slots R' ! j = Some x" and k: "k < drv_slots" "slots R' ! k = Some y"
    and xy: "ident x = ident y" for j k x y
    using at[OF j(2,1)] at[OF k(2,1)]
  proof (elim disjE conjE)
    assume "j = i" "x = d" "slots R ! k = Some y"
    then show ?thesis using uniq[OF k(1)] xy by metis
  next
    assume "k = i" "y = d" "slots R ! j = Some x"
    then show ?thesis using uniq[OF j(1)] xy by metis
  next
    assume "slots R ! j = Some x" "slots R ! k = Some y"
    then show ?thesis using u0[OF j(1) k(1)] xy by metis
  qed simp
  have inj': "\<forall>j < drv_slots. \<forall>k < drv_slots. \<forall>x y. slots R' ! j = Some x \<and> slots R' ! k = Some y \<and>
        ident x = ident y \<longrightarrow> j = k" using inj by blast
  have len': "length (slots R') = drv_slots" by (simp add: f(3) len)
  show ?thesis
  proof (cases "\<exists>e \<in> set (table R). ident e = ident d")
    case True
    then have "d \<in> set (table R)" using sp unfolding same_pointer_def by blast
    then have "table R' = table R" using True by (auto simp: f(6))
    then show ?thesis using ok slot inj' len' unfolding registry_ok_def f(4,5) by auto
  next
    case False
    have "distinct (map ident (table_insert d (table R)))"
    proof -
      have "mset (map ident (table_insert d (table R))) = mset (ident d # map ident (table R))"
        by (simp add: table_insert_mset)
      moreover have "distinct (ident d # map ident (table R))" using ok False by (auto simp: registry_ok_def)
      ultimately show ?thesis by (metis mset_eq_imp_distinct_iff)
    qed
    moreover have t: "table R' = table_insert d (table R)" using False by (simp add: f(6))
    moreover have "sorted (map priority (table_insert d (table R)))"
      using ok by (intro table_insert_sorted) (simp add: registry_ok_def)
    ultimately show ?thesis using ok slot inj' len' f(1) unfolding registry_ok_def f(4,5) by simp
  qed
qed

text \<open>C25. Registration.  Accepting a driver keeps the registry well formed: the dispatch table stays
  sorted by priority with one entry per driver, every entry owns one state slot and implements what
  it wants.  A driver already in the table is not entered twice and keeps its place; a new one is
  placed after every driver of lower or equal priority number and before all others.  A
  refused driver leaves the registry exactly as it was.
\<close>

theorem driver_add_keeps_registry:
  assumes ok: "registry_ok R" and sp: "same_pointer d R" and a: "lin_driver_add L (Some d) R = (res, R')"
  shows "registry_ok R' \<and> (\<forall>r. res = Inl r \<longrightarrow> R' = R) \<and>
    (\<forall>i. res = Inr i \<longrightarrow> slots R' ! i = Some d \<and>
       (if d \<in> set (table R) then table R' = table R
        else \<exists>as bs. table R = as @ bs \<and> table R' = as @ d # bs \<and>
          (\<forall>e \<in> set as. priority e \<le> priority d) \<and> (\<forall>e \<in> set bs. priority d < priority e)))"
proof (cases res)
  case (Inl r)
  then show ?thesis using add_refused[of L "Some d" R r R'] a ok by simp
next
  case (Inr i)
  have a': "lin_driver_add L (Some d) R = (Inr i, R')" using a Inr by simp
  note f = add_accepted[OF a']
  have "i < length (slots R)" by (rule slot_for_cases[OF f(2)])
  then have s: "slots R' ! i = Some d" by (simp add: f(3))
  have iff: "(\<exists>e \<in> set (table R). ident e = ident d) \<longleftrightarrow> d \<in> set (table R)"
    using sp unfolding same_pointer_def by blast
  have "sorted (map priority (table R))" using ok by (simp add: registry_ok_def)
  from table_insert_split[OF this, of d] show ?thesis
    using add_ok[OF ok a' sp] s f(6) Inr unfolding iff by auto
qed

definition demo_driver :: driver where
  "demo_driver = \<lparr>ident = 1, dname = Some ''arith'', magic = driver_magic, abi = driver_abi, net_size = 8,
     dsize = 8, caps = cap_preempt, wants = want_state, domains = 0, priority = 5, hooks = [H_state_new]\<rparr>"

definition demo_layout :: layout where
  "demo_layout = \<lparr>net_bytes = 8, slot_end = 8\<rparr>"

lemma registry_init_ok: "registry_ok registry_init"
  by (simp add: registry_ok_def registry_init_def drv_slots_def)

theorem driver_add_keeps_registry_witness:
  "registry_ok (snd (lin_driver_add demo_layout (Some demo_driver) registry_init)) \<and>
   table (snd (lin_driver_add demo_layout (Some demo_driver) registry_init)) = [demo_driver]"
proof -
  let ?a = "lin_driver_add demo_layout (Some demo_driver) registry_init"
  have e: "?a = (Inr 0, snd ?a)" by code_simp
  have "same_pointer demo_driver registry_init" by (simp add: same_pointer_def registry_init_def)
  from driver_add_keeps_registry[OF registry_init_ok this e] show ?thesis
    by (simp add: registry_init_def)
qed

text \<open>The pass-through pieces survive a reset.  \<open>lin_driver_clear\<close> removes exactly the strategies:
  the pre-emptors and providers stay, in their order, with every slot still owned, so there is no
  strategy left and a look-up by a capability only they offer is unchanged.
\<close>

theorem clear_drops_strategies_only:
  assumes "registry_ok R"
  shows "registry_ok (lin_driver_clear R) \<and> lin_get_driver (lin_driver_clear R) = None \<and>
    slots (lin_driver_clear R) = slots R \<and>
    (\<forall>w. (\<forall>d \<in> set (table R). provides d w \<longrightarrow> permanent d) \<longrightarrow>
       lin_driver_wanting (lin_driver_clear R) w = lin_driver_wanting R w)"
proof -
  have "sorted (map priority (filter permanent (table R)))" "distinct (map ident (filter permanent (table R)))"
    using assms by (auto simp: registry_ok_def intro: sorted_filter distinct_map_filter)
  then have "registry_ok (lin_driver_clear R)"
    using assms by (auto simp: registry_ok_def lin_driver_clear_def in_slot_def)
  moreover have "lin_get_driver (lin_driver_clear R) = None"
    by (auto simp: lin_get_driver_def lin_driver_clear_def find_None_iff)
  moreover have "find (\<lambda>d. provides d w) (filter permanent ds) = find (\<lambda>d. provides d w) ds"
    if "\<forall>d \<in> set ds. provides d w \<longrightarrow> permanent d" for w ds
    using that by (induction ds) auto
  ultimately show ?thesis by (simp add: lin_driver_clear_def lin_driver_wanting_def)
qed

theorem clear_drops_strategies_only_witness:
  "lin_get_driver (lin_driver_clear (snd (lin_driver_add demo_layout (Some demo_driver) registry_init))) = None"
proof -
  have "registry_ok (snd (lin_driver_add demo_layout (Some demo_driver) registry_init))"
  proof -
    let ?a = "lin_driver_add demo_layout (Some demo_driver) registry_init"
    have e: "?a = (Inr 0, snd ?a)" by code_simp
    have "same_pointer demo_driver registry_init" by (simp add: same_pointer_def registry_init_def)
    from add_ok[OF registry_init_ok e this] show ?thesis .
  qed
  from clear_drops_strategies_only[OF this] show ?thesis by simp
qed

end
