(* ===== verification/Terms.thy ===== *)
theory Terms
  imports LinPrelude
begin

text \<open>
  The source language of Lin (\<open>Term\<close> and \<open>Type\<close> in \<open>src/lin.h\<close>, the constructors of \<open>src/parse.c\<close>
  and \<open>src/type.c\<close>).  A \<open>Term\<close> in C is one record with a kind, a name and two children; the
  kinds are the constructors here, with the children each kind uses.  Strings are lists of the
  bytes of the source text.
\<close>

section \<open>Types as they are parsed\<close>

datatype ty = Ty_var nat | Ty_arrow ty ty | Ty_nom string "ty list" | Ty_param nat

section \<open>Terms\<close>

text \<open>A constructor of a \<open>datatype\<close> form: its name and its fields, each with an optional type.\<close>

type_synonym ctor = "string \<times> (string \<times> ty option) list"

datatype tm =
    Var string
  | Lam string tm
  | App tm tm
  | Num string
  | Flt string
  | Let string tm tm
  | Def string tm
  | Defx string ty tm
  | Load string
  | Namespace string
  | Open_ns string
  | Export string
  | Data string nat "ctor list"
| Baked string

text \<open>\<open>Baked\<close> is the \<open>TDEF\<close> without a body by which an expansion refers to a definition whose net is cached.\<close>

text \<open>\<open>term_refs\<close>: does \<open>name\<close> occur free?  The
  constructors of a \<open>datatype\<close> form are chained variables in C, of which only the first is compared.\<close>

fun ctor_refs :: "string \<Rightarrow> ctor list \<Rightarrow> bool" where
  "ctor_refs x [] = False"
| "ctor_refs x ((c, fs) # cs) = (c = x)"

primrec term_refs :: "tm \<Rightarrow> string \<Rightarrow> bool" where
  "term_refs (Var y) x = (y = x)"
| "term_refs (Lam y b) x = (y \<noteq> x \<and> term_refs b x)"
| "term_refs (App f a) x = (term_refs f x \<or> term_refs a x)"
| "term_refs (Num s) x = False"
| "term_refs (Flt s) x = False"
| "term_refs (Let y v b) x = (y \<noteq> x \<and> (term_refs v x \<or> term_refs b x))"
| "term_refs (Def y b) x = term_refs b x"
| "term_refs (Defx y t b) x = term_refs b x"
| "term_refs (Load s) x = False"
| "term_refs (Namespace s) x = False"
| "term_refs (Open_ns s) x = False"
| "term_refs (Export s) x = False"
| "term_refs (Data s n cs) x = ctor_refs x cs"
| "term_refs (Baked s) x = False"

text \<open>\<open>snprintf "%d"\<close> of a natural number.\<close>

fun show_nat :: "nat \<Rightarrow> string" where
  "show_nat n = (if n < 10 then [char_of (48 + n)] else show_nat (n div 10) @ [char_of (48 + n mod 10)])"

declare show_nat.simps [simp del]

text \<open>\<open>term_fix\<close>: the fixed point of \<open>\\name. body\<close>.\<close>

definition term_fix :: "string \<Rightarrow> tm \<Rightarrow> tm" where
  "term_fix name body =
     (let h = ''_fix_h''; x = ''_fix_x'';
          lam = Lam x (App (Var h) (App (Var x) (Var x)))
      in App (Lam h (App lam lam)) (Lam name body))"

text \<open>The free variables of a term, which \<open>term_refs\<close> decides.\<close>

primrec frees :: "tm \<Rightarrow> string set" where
  "frees (Var y) = {y}"
| "frees (Lam y b) = frees b - {y}"
| "frees (App f a) = frees f \<union> frees a"
| "frees (Num s) = {}"
| "frees (Flt s) = {}"
| "frees (Let y v b) = (frees v \<union> frees b) - {y}"
| "frees (Def y b) = frees b"
| "frees (Defx y t b) = frees b"
| "frees (Load s) = {}"
| "frees (Namespace s) = {}"
| "frees (Open_ns s) = {}"
| "frees (Export s) = {}"
| "frees (Data s n cs) = {x. ctor_refs x cs}"
| "frees (Baked s) = {}"

lemma term_refs_frees: "term_refs t x \<longleftrightarrow> x \<in> frees t"
  by (induction t) auto

lemma frees_fix: "frees (term_fix f b) = frees b - {f}"
  by (auto simp: term_fix_def Let_def)

end
