(* ===== verification/ErrState.thy ===== *)
theory ErrState
  imports LinPrelude
begin

text \<open>
  Computations over a state that may fail: the shape of the C functions that leave by \<open>longjmp\<close>
  (\<open>pfail\<close> in \<open>src/parse.c\<close>, \<open>tfail\<close> in \<open>src/type.c\<close>).  The state at the failure is part of the result,
  because globals keep their values across the jump.
\<close>

type_synonym ('s, 'e, 'a) comp = "'s \<Rightarrow> ('e + 'a) \<times> 's"

definition pret :: "'a \<Rightarrow> ('s, 'e, 'a) comp" where
  "pret v st = (Inr v, st)"

definition pthrow :: "'e \<Rightarrow> ('s, 'e, 'a) comp" where
  "pthrow e st = (Inl e, st)"

definition pbind :: "('s, 'e, 'a) comp \<Rightarrow> ('a \<Rightarrow> ('s, 'e, 'b) comp) \<Rightarrow> ('s, 'e, 'b) comp" where
  "pbind p f st = (case p st of (Inl e, st') \<Rightarrow> (Inl e, st') | (Inr v, st') \<Rightarrow> f v st')"

definition pmodify :: "('s \<Rightarrow> 's) \<Rightarrow> ('s, 'e, unit) comp" where
  "pmodify g st = (Inr (), g st)"

text \<open>The second computation runs on the state the first one leaves, whether that fails or not.\<close>

definition pthen :: "('s, 'e, 'a) comp \<Rightarrow> ('s, 'e, 'b) comp \<Rightarrow> ('s, 'e, 'b) comp" where
  "pthen p q = pbind p (\<lambda>_. q)"

lemma pbind_assoc: "pbind (pbind p f) g = pbind p (\<lambda>v. pbind (f v) g)"
  by (rule ext) (simp add: pbind_def split: prod.splits sum.splits)

lemma pbind_Inr: "pbind p f st = (Inr v, st') \<longleftrightarrow> (\<exists>u s. p st = (Inr u, s) \<and> f u s = (Inr v, st'))"
  by (auto simp: pbind_def split: prod.splits sum.splits)

lemma pret_Inr [simp]: "pret u st = (Inr v, st') \<longleftrightarrow> u = v \<and> st = st'"
  by (auto simp: pret_def)

lemma pthrow_Inr [simp]: "pthrow e st \<noteq> (Inr v, st')"
  by (simp add: pthrow_def)

lemma pmodify_Inr [simp]: "pmodify g st = (Inr v, st') \<longleftrightarrow> st' = g st"
  by (auto simp: pmodify_def)

text \<open>A relation between the states before and after, kept by every computation of a group.\<close>

definition keeps :: "('s \<Rightarrow> 's \<Rightarrow> bool) \<Rightarrow> ('s, 'e, 'a) comp \<Rightarrow> bool" where
  "keeps r p \<longleftrightarrow> (\<forall>st. r st (snd (p st)))"

lemma keepsD: "keeps r p \<Longrightarrow> p st = (v, st') \<Longrightarrow> r st st'"
  unfolding keeps_def by (metis snd_conv)

lemma keeps_pret: "reflp r \<Longrightarrow> keeps r (pret v)"
  by (simp add: keeps_def pret_def reflp_def)

lemma keeps_pthrow: "reflp r \<Longrightarrow> keeps r (pthrow e)"
  by (simp add: keeps_def pthrow_def reflp_def)

lemma keeps_pbind: "transp r \<Longrightarrow> keeps r p \<Longrightarrow> (\<And>v. keeps r (f v)) \<Longrightarrow> keeps r (pbind p f)"
  unfolding keeps_def pbind_def transp_def
  by (auto split: prod.splits sum.splits) (metis snd_conv)+

end
