(* ===== verification/Parser.thy ===== *)
theory Parser
  imports Terms ErrState
begin

text \<open>
  The parser (\<open>src/parse.c\<close>).  The source text from the current position \<open>S + P\<close> on is the string
  \<open>rest\<close>, so the terminating NUL is the empty string.  \<open>pfail\<close> with its \<open>longjmp\<close> is the left summand
  of a result; the state at the failure is returned with it, because the globals keep their
  values across the jump.  The recursive functions take fuel, and \<open>No_fuel\<close> is shown not to occur.
\<close>

section \<open>State\<close>

text \<open>
  \<open>noms\<close> is the nominal-type registry of \<open>src/type.c\<close>, \<open>tvs\<close> the type variables of the annotation
  being read (\<open>tvn\<close>, \<open>tvt\<close>), \<open>next_tv\<close> the counter behind \<open>type_var\<close>, and \<open>dt_params\<close>, \<open>dt_np\<close>,
  \<open>dt_in\<close> the type-parameter context of a \<open>datatype\<close> form.
\<close>

record pst =
  rest :: string
  noms :: "(string \<times> nat) list"
  tvs :: "(string \<times> nat) list"
  next_tv :: nat
  dt_params :: "string list"
  dt_np :: nat
  dt_in :: bool

datatype perr = Fail string | No_fuel

type_synonym 'a parser = "(pst, perr, 'a) comp"

definition pfail :: "string \<Rightarrow> 'a parser" where
  "pfail msg st = (Inl (Fail msg), st)"

definition no_fuel :: "'a parser" where
  "no_fuel st = (Inl No_fuel, st)"

text \<open>Messages that quote a character.\<close>

definition quoted :: "string \<Rightarrow> string \<Rightarrow> string" where
  "quoted a b = a @ [CHR 0x27] @ b @ [CHR 0x27]"

text \<open>\<open>S[P] == c\<close>, \<open>!S[P]\<close> and \<open>P += n\<close>.\<close>

definition at :: "char \<Rightarrow> pst \<Rightarrow> bool" where
  "at c st = (case rest st of x # _ \<Rightarrow> x = c | [] \<Rightarrow> False)"

definition at_end :: "pst \<Rightarrow> bool" where
  "at_end st = (rest st = [])"

definition adv :: "nat \<Rightarrow> pst \<Rightarrow> pst" where
  "adv n st = st\<lparr>rest := drop n (rest st)\<rparr>"

section \<open>Lexing\<close>

definition lparen :: char where "lparen = CHR ''(''"
definition rparen :: char where "rparen = CHR '')''"
definition semi :: char where "semi = CHR '';''"
definition quote :: char where "quote = CHR 0x22"
definition bslash :: char where "bslash = CHR 0x5C"
definition newline :: char where "newline = CHR 0x0A"

definition is_space :: "char \<Rightarrow> bool" where
  "is_space c \<longleftrightarrow> c \<in> {CHR 0x09, CHR 0x0A, CHR 0x0B, CHR 0x0C, CHR 0x0D, CHR 0x20}"

definition is_digit :: "char \<Rightarrow> bool" where
  "is_digit c \<longleftrightarrow> 48 \<le> (of_char c :: nat) \<and> (of_char c :: nat) \<le> 57"

definition sym_char :: "char \<Rightarrow> bool" where
  "sym_char c \<longleftrightarrow> \<not> is_space c \<and> c \<noteq> lparen \<and> c \<noteq> rparen"

function skip_text :: "string \<Rightarrow> string" where
  "skip_text s =
     (case dropWhile is_space s of
        [] \<Rightarrow> []
      | c # cs \<Rightarrow> if c = semi then skip_text (dropWhile (\<lambda>x. x \<noteq> newline) (c # cs)) else c # cs)"
  by pat_completeness auto
termination
proof (relation "measure length", goal_cases)
  case (2 s c cs)
  have "length (dropWhile (\<lambda>x. x \<noteq> newline) (c # cs)) \<le> length cs"
    using 2 by (auto simp: semi_def newline_def length_dropWhile_le)
  moreover have "length (c # cs) \<le> length s" using length_dropWhile_le[of is_space s] 2 by simp
  ultimately show ?case by simp
qed simp

declare skip_text.simps [simp del]

definition skipws :: "pst \<Rightarrow> pst" where
  "skipws st = st\<lparr>rest := skip_text (rest st)\<rparr>"

text \<open>\<open>sym\<close>: a lone lambda sign (a backslash or the two bytes of its UTF-8 letter), else a run of symbol characters.\<close>

definition sym_text :: "string \<Rightarrow> string option \<times> string" where
  "sym_text s =
     (case s of
        [] \<Rightarrow> (None, s)
      | c # cs \<Rightarrow>
          if c = bslash then (Some [c], cs)
          else if c = CHR 0xCE \<and> (case cs of d # _ \<Rightarrow> d = CHR 0xBB | [] \<Rightarrow> False)
          then (Some (take 2 s), drop 2 s)
          else if sym_char c then (Some (takeWhile sym_char s), dropWhile sym_char s)
          else (None, s))"

definition sym :: "pst \<Rightarrow> string option \<times> pst" where
  "sym st = (case sym_text (rest st) of (r, s) \<Rightarrow> (r, st\<lparr>rest := s\<rparr>))"

definition sym_or :: "string \<Rightarrow> string parser" where
  "sym_or msg st = (case sym st of (Some s, st') \<Rightarrow> (Inr s, st') | (None, st') \<Rightarrow> (Inl (Fail msg), st'))"

definition expect :: "char \<Rightarrow> string \<Rightarrow> unit parser" where
  "expect c msg st = (if at c st then (Inr (), adv 1 st) else (Inl (Fail msg), st))"

definition pskip :: "unit parser" where
  "pskip st = (Inr (), skipws st)"

definition islambda :: "string \<Rightarrow> bool" where
  "islambda s \<longleftrightarrow> s \<in> {[bslash], ''lambda'', ''lam'', [CHR 0xCE, CHR 0xBB]}"

definition isnum :: "string \<Rightarrow> bool" where
  "isnum s \<longleftrightarrow> s \<noteq> [] \<and> list_all is_digit s"

definition isfloat :: "string \<Rightarrow> bool" where
  "isfloat s =
     (let p = (case s of c # cs \<Rightarrow> if c = CHR ''-'' \<or> c = CHR ''+'' then cs else s | [] \<Rightarrow> [])
      in s \<noteq> [] \<and> p \<noteq> [] \<and> is_digit (hd p) \<and> list_ex (\<lambda>c. c \<in> {CHR ''.'', CHR ''e'', CHR ''E''}) p \<and>
         list_all (\<lambda>c. is_digit c \<or> c \<in> {CHR ''.'', CHR ''e'', CHR ''E''}) p)"

definition parse_atom :: "string \<Rightarrow> tm" where
  "parse_atom kw = (if isnum kw then Num kw else if isfloat kw then Flt kw else Var kw)"

section \<open>String literals\<close>

definition octal :: "char \<Rightarrow> bool" where
  "octal c \<longleftrightarrow> 48 \<le> (of_char c :: nat) \<and> (of_char c :: nat) \<le> 55"

definition hex_val :: "char \<Rightarrow> nat option" where
  "hex_val c =
     (let n = of_char c :: nat
      in if 48 \<le> n \<and> n \<le> 57 then Some (n - 48)
         else if 97 \<le> n \<and> n \<le> 102 then Some (n - 87)
         else if 65 \<le> n \<and> n \<le> 70 then Some (n - 55) else None)"

text \<open>One escape after the backslash: the byte it stands for and the text after it.\<close>

definition escape :: "char \<Rightarrow> string \<Rightarrow> nat \<times> string" where
  "escape c s =
     (if c = CHR ''n'' then (10, s) else if c = CHR ''t'' then (9, s)
      else if c = CHR ''r'' then (13, s) else if c = CHR ''e'' then (27, s)
      else if c = CHR ''0'' then
        (case s of
           a # b # s' \<Rightarrow> if octal a \<and> octal b then ((of_char a - 48) * 8 + (of_char b - 48), s') else (0, s)
         | _ \<Rightarrow> (0, s))
      else if c = CHR ''x'' then
        (case s of
           a # b # s' \<Rightarrow> (case (hex_val a, hex_val b) of
                           (Some m, Some n) \<Rightarrow> (m * 16 + n, s') | _ \<Rightarrow> (of_char c, s))
         | _ \<Rightarrow> (of_char c, s))
      else (of_char c, s))"

lemma escape_length: "escape c s = (b, s') \<Longrightarrow> length s' \<le> length s"
  by (auto simp: escape_def split: if_splits list.splits option.splits)

text \<open>The bytes up to the closing quote or the end of the text; the buffer keeps the first 4096.\<close>

function string_body :: "string \<Rightarrow> nat list \<times> string" where
  "string_body s =
     (case s of
        [] \<Rightarrow> ([], [])
      | c # cs \<Rightarrow>
          if c = quote then ([], s)
          else if c = bslash \<and> cs \<noteq> []
          then (case escape (hd cs) (tl cs) of (b, s') \<Rightarrow> case string_body s' of (bs, r) \<Rightarrow> (b # bs, r))
          else (case string_body cs of (bs, r) \<Rightarrow> (of_char c # bs, r)))"
  by pat_completeness auto
termination
proof (relation "measure length", goal_cases)
  case (2 s c cs x y)
  then show ?case using escape_length[of "hd cs" "tl cs" x y] by (cases cs) auto
qed auto

declare string_body.simps [simp del]

definition string_max :: nat where "string_max = 4096"

definition string_term :: "nat list \<Rightarrow> tm" where
  "string_term bs = foldr (\<lambda>b t. App (App (Var ''list.cons'') (Num (show_nat b))) t) bs (Var ''list.nil'')"

definition parse_string :: "tm parser" where
  "parse_string st =
     (case string_body (rest st) of (bs, r) \<Rightarrow>
        if r = [] then (Inl (Fail ''unterminated string literal''), st\<lparr>rest := r\<rparr>)
        else (Inr (string_term (take string_max bs)), st\<lparr>rest := drop 1 r\<rparr>))"

section \<open>Types\<close>

definition nominal_arity :: "(string \<times> nat) list \<Rightarrow> string \<Rightarrow> nat option" where
  "nominal_arity ns s = map_of ns s"

definition nominal_register :: "string \<Rightarrow> nat \<Rightarrow> pst \<Rightarrow> pst" where
  "nominal_register s n st = (if nominal_arity (noms st) s \<noteq> None then st else st\<lparr>noms := noms st @ [(s, n)]\<rparr>)"

fun index_of :: "string \<Rightarrow> string list \<Rightarrow> nat option" where
  "index_of x [] = None"
| "index_of x (y # ys) = (if y = x then Some 0 else map_option Suc (index_of x ys))"

text \<open>A name that is no nominal type: a parameter of the \<open>datatype\<close> form, or a variable of the annotation.\<close>

definition type_name :: "string \<Rightarrow> ty parser" where
  "type_name nm st =
     (case (if dt_in st then index_of nm (take (dt_np st) (dt_params st)) else None) of
        Some i \<Rightarrow> (Inr (Ty_param i), st)
      | None \<Rightarrow>
          (case map_of (tvs st) nm of
             Some v \<Rightarrow> (Inr (Ty_var v), st)
           | None \<Rightarrow> (Inr (Ty_var (next_tv st)),
                      st\<lparr>tvs := tvs st @ [(nm, next_tv st)], next_tv := next_tv st + 1\<rparr>)))"

fun parse_type_atom :: "nat \<Rightarrow> ty parser" and parse_type :: "nat \<Rightarrow> ty parser"
  and parse_type_args :: "nat \<Rightarrow> nat \<Rightarrow> ty list parser" where
  "parse_type_atom 0 st = no_fuel st"
| "parse_type_atom (Suc k) st =
     (let st = skipws st
      in if at lparen st
         then pbind (parse_type k) (\<lambda>t. pbind pskip (\<lambda>_. pbind (expect rparen (quoted ''type: missing '' '')''))
                (\<lambda>_. pret t))) (adv 1 st)
         else pbind (sym_or ''type: expected name'') (\<lambda>nm st.
                case nominal_arity (noms st) nm of
                  Some n \<Rightarrow> pbind (parse_type_args k n) (\<lambda>ts. pret (Ty_nom nm ts)) st
                | None \<Rightarrow> type_name nm st) st)"
| "parse_type 0 st = no_fuel st"
| "parse_type (Suc k) st =
     pbind (parse_type_atom k) (\<lambda>a st.
       let st = skipws st
       in if take 2 (rest st) = ''->''
          then pbind (parse_type k) (\<lambda>b. pret (Ty_arrow a b)) (adv 2 st)
          else pret a st) st"
| "parse_type_args 0 n st = no_fuel st"
| "parse_type_args (Suc k) n st =
     (if n = 0 then pret [] st
      else pbind (parse_type_atom k) (\<lambda>t. pbind (parse_type_args k (n - 1)) (\<lambda>ts. pret (t # ts))) st)"

definition parse_type_top :: "nat \<Rightarrow> ty parser" where
  "parse_type_top k st = parse_type k (st\<lparr>tvs := []\<rparr>)"

section \<open>Terms\<close>

text \<open>
  Each special form is a definition over the parser \<open>pt\<close> of its sub-terms, which \<open>parse_term\<close>
  instantiates with itself; the loops of the forms take the fuel \<open>k\<close>.
\<close>

text \<open>\<open>parse_tail\<close>: arguments up to the closing parenthesis, applied one after the other.\<close>

primrec parse_tail :: "tm parser \<Rightarrow> nat \<Rightarrow> tm \<Rightarrow> tm parser" where
  "parse_tail pt 0 f = no_fuel"
| "parse_tail pt (Suc k) f = (\<lambda>st.
     let st = skipws st
     in if at rparen st then pret f (adv 1 st)
        else if at_end st then pfail (quoted ''missing '' '')'') st
        else pbind pt (\<lambda>a. parse_tail pt k (App f a)) st)"

definition form_lambda :: "tm parser \<Rightarrow> nat \<Rightarrow> tm parser" where
  "form_lambda pt k =
     pbind pskip (\<lambda>_. pbind (sym_or ''lambda: expected binder'') (\<lambda>x.
     pbind pt (\<lambda>b. pbind (parse_tail pt k b) (\<lambda>body. pret (Lam x body)))))"

definition form_define :: "tm parser \<Rightarrow> nat \<Rightarrow> bool \<Rightarrow> tm parser" where
  "form_define pt k typed =
     pbind pskip (\<lambda>_. pbind (sym_or ''define: expected name'') (\<lambda>x.
     pbind (if typed then pbind (parse_type_top k) (\<lambda>t. pret (Some t)) else pret None) (\<lambda>ty.
     pbind pt (\<lambda>v. pbind pskip (\<lambda>_. pbind (expect rparen (quoted ''define: expected '' '')'')) (\<lambda>_.
     pret (case ty of Some t \<Rightarrow> Defx x t v | None \<Rightarrow> Def x v)))))))"

text \<open>The path of a \<open>load\<close>, kept with its escapes: a backslash protects the byte after it.\<close>

fun path_text :: "string \<Rightarrow> string \<times> string" where
  "path_text [] = ([], [])"
| "path_text [c] = (if c = quote then ([], [c]) else ([c], []))"
| "path_text (c # d # cs) =
     (if c = quote then ([], c # d # cs)
      else if c = bslash then (case path_text cs of (p, r) \<Rightarrow> (c # d # p, r))
      else (case path_text (d # cs) of (p, r) \<Rightarrow> (c # p, r)))"

definition form_load :: "tm parser" where
  "form_load =
     pbind pskip (\<lambda>_. pbind (expect quote ''load: expected string path'') (\<lambda>_ st.
       case path_text (rest st) of (p, r) \<Rightarrow>
         let st = st\<lparr>rest := r\<rparr>
         in if \<not> at quote st then pfail ''load: unterminated path'' st
            else pbind pskip (\<lambda>_. pbind (expect rparen (quoted ''load: expected '' '')''))
                   (\<lambda>_. pret (Load p))) (adv 1 st)))"

text \<open>\<open>namespace\<close>, \<open>open\<close> and \<open>export\<close>: one name.\<close>

definition form_name :: "(string \<Rightarrow> tm) \<Rightarrow> tm parser" where
  "form_name con =
     pbind pskip (\<lambda>_. pbind (sym_or ''expected name'') (\<lambda>x.
     pbind pskip (\<lambda>_. pbind (expect rparen (quoted ''expected '' '')'')) (\<lambda>_. pret (con x)))))"

section \<open>Match\<close>

primrec pattern_fields :: "nat \<Rightarrow> string list parser" where
  "pattern_fields 0 = no_fuel"
| "pattern_fields (Suc k) = (\<lambda>st.
     let st = skipws st
     in if at rparen st then pret [] (adv 1 st)
        else pbind (sym_or ''match: bad field'') (\<lambda>x.
               pbind (pattern_fields k) (\<lambda>xs. pret (x # xs))) st)"

text \<open>The pattern of a case: the binders of its fields; a lone name binds nothing.\<close>

definition case_pattern :: "nat \<Rightarrow> string list parser" where
  "case_pattern k st =
     (if at lparen st
      then pbind (sym_or ''match: bad pattern'') (\<lambda>c. pattern_fields k) (skipws (adv 1 st))
      else pbind (sym_or ''match: bad pattern'') (\<lambda>_. pret []) st)"

primrec match_cases :: "tm parser \<Rightarrow> nat \<Rightarrow> tm \<Rightarrow> tm parser" where
  "match_cases pt 0 app = no_fuel"
| "match_cases pt (Suc k) app = (\<lambda>st.
     if \<not> at lparen st then pret app st
     else let st = skipws (adv 1 st)
          in if at rparen st then pret app (adv 1 st)
             else pbind (case_pattern k) (\<lambda>vs. pbind pt (\<lambda>b. pbind (parse_tail pt k b) (\<lambda>body.
                    pbind pskip (\<lambda>_. match_cases pt k (App app (foldr Lam vs body)))))) st)"

text \<open>The closing parenthesis of \<open>match\<close> and \<open>datatype\<close>, which may be absent.\<close>

definition close_opt :: "unit parser" where
  "close_opt st = (let st = skipws st in pret () (if at rparen st then adv 1 st else st))"

definition form_match :: "tm parser \<Rightarrow> nat \<Rightarrow> tm parser" where
  "form_match pt k =
     pbind pt (\<lambda>scrut. pbind pskip (\<lambda>_. pbind (match_cases pt k scrut) (\<lambda>app.
     pbind close_opt (\<lambda>_. pret app))))"

section \<open>Datatype declarations\<close>

definition put_param :: "nat \<Rightarrow> string \<Rightarrow> pst \<Rightarrow> pst" where
  "put_param i x st = st\<lparr>dt_params := take i (dt_params st) @ [x] @ drop (Suc i) (dt_params st)\<rparr>"

primrec type_params :: "nat \<Rightarrow> nat \<Rightarrow> nat parser" where
  "type_params 0 i = no_fuel"
| "type_params (Suc k) i = (\<lambda>st.
     if at rparen st then pret i (adv 1 st)
     else pbind (sym_or ''datatype: bad type param'') (\<lambda>x st.
            type_params k (Suc i) (skipws (put_param i x st))) st)"

text \<open>A field: its name, or its name and type in parentheses.\<close>

definition ctor_field :: "nat \<Rightarrow> (string \<times> ty option) parser" where
  "ctor_field k st =
     (if at lparen st
      then pbind (sym_or ''datatype: bad field'') (\<lambda>x. pbind pskip (\<lambda>_. pbind (parse_type k) (\<lambda>t.
             pbind pskip (\<lambda>_. pbind (expect rparen ''datatype: bad field type'') (\<lambda>_. pret (x, Some t))))))
             (skipws (adv 1 st))
      else pbind (sym_or ''datatype: expected field'') (\<lambda>x. pret (x, None)) st)"

primrec ctor_fields :: "nat \<Rightarrow> (string \<times> ty option) list parser" where
  "ctor_fields 0 = no_fuel"
| "ctor_fields (Suc k) = (\<lambda>st.
     if at rparen st then pret [] (adv 1 st)
     else pbind (ctor_field k) (\<lambda>f. pbind pskip (\<lambda>_. pbind (ctor_fields k) (\<lambda>fs. pret (f # fs)))) st)"

text \<open>The constructors; an empty \<open>()\<close> is skipped without the white space after it.\<close>

primrec data_ctors :: "nat \<Rightarrow> ctor list parser" where
  "data_ctors 0 = no_fuel"
| "data_ctors (Suc k) = (\<lambda>st.
     if \<not> at lparen st then pret [] st
     else let st = skipws (adv 1 st)
          in if at rparen st then data_ctors k (adv 1 st)
             else pbind (sym_or ''datatype: expected constructor'') (\<lambda>c. pbind pskip (\<lambda>_.
                    pbind (ctor_fields k) (\<lambda>fs. pbind pskip (\<lambda>_.
                    pbind (data_ctors k) (\<lambda>cs. pret ((c, fs) # cs)))))) st)"

text \<open>The head of a declaration: a name, or a name and its parameters in parentheses.\<close>

definition data_head :: "nat \<Rightarrow> (string \<times> nat) parser" where
  "data_head k st =
     (if at lparen st
      then pbind (sym_or ''datatype: expected name'') (\<lambda>d. pbind pskip (\<lambda>_.
             pbind (type_params k 0) (\<lambda>n. pret (d, n)))) (skipws (adv 1 st))
      else pbind (sym_or ''datatype: expected name'') (\<lambda>d. pret (d, 0)) st)"

definition form_data :: "nat \<Rightarrow> tm parser" where
  "form_data k =
     pbind pskip (\<lambda>_. pbind (data_head k) (\<lambda>(d, n) st.
       let st' = nominal_register d n st;
           st' = st'\<lparr>dt_in := (n > 0), dt_np := n\<rparr>
       in pbind pskip (\<lambda>_. pbind (data_ctors k) (\<lambda>cs st2.
            pbind close_opt (\<lambda>_. pret (Data d n cs)) (st2\<lparr>dt_in := dt_in st, dt_np := dt_np st\<rparr>))) st'))"

section \<open>Let\<close>

primrec let_bindings :: "tm parser \<Rightarrow> nat \<Rightarrow> (string \<times> tm) list parser" where
  "let_bindings pt 0 = no_fuel"
| "let_bindings pt (Suc k) = (\<lambda>st.
     let st = skipws st
     in if at rparen st then pret [] (adv 1 st)
        else pbind (expect lparen ''let: expected binding'') (\<lambda>_. pbind pskip (\<lambda>_.
               pbind (sym_or ''let: bad binding'') (\<lambda>x. pbind pt (\<lambda>v. pbind pskip (\<lambda>_.
               pbind (expect rparen (quoted ''let: missing '' '')'' @ '' in binding'')) (\<lambda>_.
               pbind (let_bindings pt k) (\<lambda>bs. pret ((x, v) # bs)))))))) st)"

definition form_let :: "tm parser \<Rightarrow> nat \<Rightarrow> tm parser" where
  "form_let pt k =
     pbind pskip (\<lambda>_. pbind (expect lparen (quoted ''let: expected '' ''('')) (\<lambda>_.
     pbind (let_bindings pt k) (\<lambda>bs. pbind pt (\<lambda>b. pbind (parse_tail pt k b) (\<lambda>body.
     pret (foldr (\<lambda>(x, v) t. Let x v t) bs body))))))"

section \<open>The term parser\<close>

text \<open>What follows an opening parenthesis and a first symbol.\<close>

definition parse_keyword :: "tm parser \<Rightarrow> nat \<Rightarrow> string \<Rightarrow> tm parser" where
  "parse_keyword pt k kw =
     (if islambda kw then form_lambda pt k
      else if kw = ''define'' then form_define pt k False
      else if kw = ''define!'' then form_define pt k True
      else if kw = ''load'' then form_load
      else if kw \<in> {''namespace'', ''ns'', ''module''} then form_name Namespace
      else if kw \<in> {''open'', ''use''} then form_name Open_ns
      else if kw = ''export'' then form_name Export
      else if kw = ''match'' then form_match pt k
      else if kw \<in> {''datatype'', ''data''} then form_data k
      else if kw = ''let'' then form_let pt k
      else parse_tail pt k (parse_atom kw))"

definition parse_form :: "tm parser \<Rightarrow> nat \<Rightarrow> tm parser" where
  "parse_form pt k st =
     (let st = skipws st
      in if at lparen st then pbind pt (parse_tail pt k) st
         else pbind (sym_or (quoted ''empty '' ''('')) (parse_keyword pt k) st)"

primrec parse_term :: "nat \<Rightarrow> tm parser" where
  "parse_term 0 = no_fuel"
| "parse_term (Suc k) = (\<lambda>st.
     let st = skipws st
     in if at_end st then pfail ''unexpected end of input'' st
        else if at rparen st then pfail (quoted ''unexpected '' '')'') st
        else if at quote st then parse_string (adv 1 st)
        else if at lparen st then parse_form (parse_term k) k (adv 1 st)
        else pbind (sym_or ''unexpected character'') (\<lambda>kw. pret (parse_atom kw)) st)"

section \<open>Forms and recovery\<close>

text \<open>
  \<open>resync\<close>: after an error, the text behind the form that starts here.  A comment is passed over,
  parentheses are counted, and a symbol outside them ends the form.
\<close>

function resync_from :: "int \<Rightarrow> string \<Rightarrow> string" where
  "resync_from d s =
     (case s of
        [] \<Rightarrow> []
      | c # cs \<Rightarrow>
          if c = semi then resync_from d (dropWhile (\<lambda>x. x \<noteq> newline) (c # cs))
          else if c = lparen then resync_from (d + 1) cs
          else if c = rparen then (if d - 1 \<le> 0 then cs else resync_from (d - 1) cs)
          else if d = 0 \<and> \<not> is_space c then dropWhile sym_char (c # cs)
          else resync_from d cs)"
  by pat_completeness auto
termination
proof (relation "measure (\<lambda>(d, s). length s)", goal_cases)
  case (2 d s c cs)
  then show ?case
    using length_dropWhile_le[of "\<lambda>x. x \<noteq> newline" cs]
    by (auto simp: semi_def newline_def less_Suc_eq_le)
qed auto

declare resync_from.simps [simp del]

definition resync :: "string \<Rightarrow> string" where
  "resync s = resync_from 0 s"

text \<open>Fuel for a text: two calls a byte, and two to see the end.\<close>

definition fuel :: "pst \<Rightarrow> nat" where
  "fuel st = 2 * length (rest st) + 3"

end
