(* ===== verification/ParserTotal.thy ===== *)
theory ParserTotal
  imports Parser
begin

text \<open>
  Progress and termination of the parser (\<open>src/parse.c\<close>): every parser of the component either fails
  with a message or consumes text, the fuel of \<open>parse_term\<close> is enough, and so the loop
  \<open>parse_forms\<close> over the forms of a text, with its recovery after an error, ends.
\<close>

section \<open>Parsers that make progress\<close>

text \<open>\<open>good b p st\<close>: run at \<open>st\<close>, \<open>p\<close> does not run out of fuel, and a success consumes at least \<open>b\<close> bytes.\<close>

definition good :: "nat \<Rightarrow> 'a parser \<Rightarrow> pst \<Rightarrow> bool" where
  "good b p st =
     (case p st of (Inl e, st') \<Rightarrow> e \<noteq> No_fuel | (Inr v, st') \<Rightarrow> length (rest st') + b \<le> length (rest st))"

named_theorems good_rules

lemma good_weaken: "good b p st \<Longrightarrow> b' \<le> b \<Longrightarrow> good b' p st"
  by (auto simp: good_def split: prod.splits sum.splits)

lemma good_pbind:
  assumes "good b1 p st" "\<And>v st'. length (rest st') + b1 \<le> length (rest st) \<Longrightarrow> good (b - b1) (f v) st'"
  shows "good b (pbind p f) st"
proof (cases "p st")
  case (Pair r st')
  then show ?thesis
  proof (cases r)
    case (Inl e)
    then show ?thesis using assms(1) Pair by (auto simp: good_def pbind_def)
  next
    case (Inr v)
    then have l: "length (rest st') + b1 \<le> length (rest st)" using assms(1) Pair by (auto simp: good_def)
    show ?thesis
      using assms(2)[OF l, of v] l Pair Inr by (auto simp: good_def pbind_def split: prod.splits sum.splits)
  qed
qed

lemma good_pret: "good 0 (pret v) st"
  by (simp add: good_def pret_def)

lemma good_pfail: "good b (pfail m) st"
  by (simp add: good_def pfail_def)

text \<open>A parser run on a later state of the text.\<close>

lemma good_later:
  assumes "good b p st'" "q st = p st'" "length (rest st') + c \<le> length (rest st)" "b' \<le> b + c"
  shows "good b' q st"
  using assms by (auto simp: good_def split: prod.splits sum.splits)

lemma good_cong: "good b p st \<Longrightarrow> q st = p st \<Longrightarrow> good b q st"
  by (simp add: good_def)

lemma good_seq:
  assumes "good b p st" "\<And>v st'. length (rest st') + b \<le> length (rest st) \<Longrightarrow> good 0 (f v) st'"
  shows "good 0 (pbind p f) st"
  using good_pbind[OF assms(1), of 0 f] assms(2) by simp

lemma good_first:
  assumes "good b p st" "\<And>v st'. length (rest st') + b \<le> length (rest st) \<Longrightarrow> good 0 (f v) st'"
  shows "good b (pbind p f) st"
  using good_pbind[OF assms(1), of b f] assms(2) by simp

lemma good_ret [simp]: "good b (pret v) st \<longleftrightarrow> b = 0"
  by (simp add: good_def pret_def)

section \<open>Lexing\<close>

lemma skip_text_length: "length (skip_text s) \<le> length s"
proof (induction s rule: skip_text.induct)
  case (1 s)
  show ?case
  proof (cases "dropWhile is_space s")
    case Nil
    show ?thesis by (subst skip_text.simps, unfold Nil) simp
  next
    case (Cons c cs)
    have le: "length (c # cs) \<le> length s" using length_dropWhile_le[of is_space s] Cons by simp
    show ?thesis
    proof (cases "c = semi")
      case True
      have "length (skip_text (dropWhile (\<lambda>x. x \<noteq> newline) (c # cs))) \<le> length s"
        using 1[OF Cons True] length_dropWhile_le[of "\<lambda>x. x \<noteq> newline" "c # cs"] le by linarith
      then show ?thesis using Cons True by (subst skip_text.simps) simp
    next
      case False
      then show ?thesis using Cons le by (subst skip_text.simps) simp
    qed
  qed
qed

lemma skipws_length: "length (rest (skipws st)) \<le> length (rest st)"
  by (simp add: skipws_def skip_text_length)

lemma adv_length: "rest st \<noteq> [] \<Longrightarrow> n > 0 \<Longrightarrow> length (rest (adv n st)) + 1 \<le> length (rest st)"
  by (cases "rest st") (auto simp: adv_def)

lemma at_rest: "at c st \<longleftrightarrow> (\<exists>cs. rest st = c # cs)"
  by (auto simp: at_def split: list.splits)

lemma at_adv: "at c st \<Longrightarrow> length (rest (adv 1 st)) + 1 \<le> length (rest st)"
  by (auto simp: at_rest adv_def)

lemma sym_text_length: "sym_text s = (r, s') \<Longrightarrow> length s' + (if r = None then 0 else 1) \<le> length s"
proof (cases s)
  case (Cons c cs)
  assume "sym_text s = (r, s')"
  then show ?thesis
    using Cons length_dropWhile_le[of sym_char cs] by (auto simp: sym_text_def split: if_splits list.splits)
qed (auto simp: sym_text_def)

lemma good_sym_or: "good 1 (sym_or m) st"
proof (cases "sym_text (rest st)")
  case (Pair r s)
  show ?thesis using sym_text_length[OF Pair] Pair
    by (auto simp: good_def sym_or_def sym_def split: option.splits)
qed

lemma good_expect: "good 1 (expect c m) st"
  using at_adv[of c st] by (auto simp: good_def expect_def)

lemma good_pskip: "good 0 pskip st"
  using skipws_length[of st] by (auto simp: good_def pskip_def)

lemma good_close_opt: "good 0 close_opt st"
  using skipws_length[of st] at_adv[of rparen "skipws st"] by (auto simp: good_def close_opt_def pret_def Let_def)

lemma string_body_length: "string_body s = (bs, r) \<Longrightarrow> length r \<le> length s"
proof (induction s arbitrary: bs r rule: string_body.induct)
  case (1 s)
  show ?case
  proof (cases s)
    case Nil
    then show ?thesis using 1(3) by (subst (asm) string_body.simps) simp
  next
    case (Cons c cs)
    consider "c = quote" | "c \<noteq> quote" "c = bslash" "cs \<noteq> []" | "c \<noteq> quote" "\<not> (c = bslash \<and> cs \<noteq> [])" by blast
    then show ?thesis
    proof cases
      case a: 1
      then show ?thesis using 1(3) Cons by (subst (asm) string_body.simps) simp
    next
      case a: 2
      obtain b s' where e: "escape (hd cs) (tl cs) = (b, s')" by fastforce
      obtain bs' r' where r: "string_body s' = (bs', r')" by fastforce
      have "length r' \<le> length s'" using 1(1)[OF Cons a(1) _ e[symmetric] r] a by simp
      moreover have "length s' \<le> length cs" using escape_length[OF e] by simp
      moreover have "r = r'" using 1(3) Cons a e r by (subst (asm) string_body.simps) simp
      ultimately show ?thesis using Cons by simp
    next
      case a: 3
      obtain bs' r' where r: "string_body cs = (bs', r')" by fastforce
      have "length r' \<le> length cs" using 1(2)[OF Cons a(1) a(2) r] .
      moreover have "r = r'" using 1(3) Cons a r by (subst (asm) string_body.simps) auto
      ultimately show ?thesis using Cons by simp
    qed
  qed
qed

lemma good_parse_string: "good 0 parse_string st"
proof (cases "string_body (rest st)")
  case (Pair bs r)
  then show ?thesis using string_body_length[OF Pair] by (auto simp: good_def parse_string_def)
qed

section \<open>Types\<close>

lemma good_type_name: "good 0 (type_name nm) st"
  by (auto simp: good_def type_name_def split: option.splits)

lemma good_types:
  "(2 * length (rest st) + 1 \<le> k \<longrightarrow> good 1 (parse_type_atom k) st) \<and>
   (2 * length (rest st) + 2 \<le> k \<longrightarrow> good 1 (parse_type k) st) \<and>
   (2 * length (rest st) + 2 \<le> k \<longrightarrow> good 0 (parse_type_args k n) st)"
proof (induction k arbitrary: st n)
  case 0
  then show ?case by simp
next
  case (Suc k)
  have atom: "good 1 (parse_type_atom (Suc k)) st" if k: "2 * length (rest st) + 1 \<le> Suc k"
  proof (cases "at lparen (skipws st)")
    case True
    have l: "length (rest (adv 1 (skipws st))) + 1 \<le> length (rest st)"
      using at_adv[OF True] skipws_length[of st] by simp
    have "good 1 (parse_type k) (adv 1 (skipws st))" using Suc l k by simp
    then have g: "good 0 (pbind (parse_type k) (\<lambda>t. pbind pskip (\<lambda>_. pbind (expect rparen (quoted ''type: missing '' '')''))
                  (\<lambda>_. pret t)))) (adv 1 (skipws st))"
      by (intro good_pbind[where ?b1.0 = 1] good_pbind[OF good_pskip] good_pbind[OF good_expect] good_weaken[OF good_pret]) auto
    show ?thesis by (rule good_later[OF g _ l]) (use True in \<open>simp_all add: Let_def\<close>)
  next
    case False
    have l: "length (rest (skipws st)) + 0 \<le> length (rest st)" using skipws_length[of st] by simp
    have g: "good 1 (pbind (sym_or ''type: expected name'') (\<lambda>nm st.
                case nominal_arity (noms st) nm of
                  Some n \<Rightarrow> pbind (parse_type_args k n) (\<lambda>ts. pret (Ty_nom nm ts)) st
                | None \<Rightarrow> type_name nm st)) (skipws st)"
    proof (rule good_pbind[OF good_sym_or], goal_cases)
      case (1 nm st')
      have a: "good 0 (parse_type_args k n) st'" for n using Suc 1 l k by simp
      have "good 0 (pbind (parse_type_args k n) (\<lambda>ts. pret (Ty_nom nm ts))) st'" for n
        by (rule good_pbind[OF a]) (simp add: good_pret)
      then show ?case using good_type_name[of nm st'] by (auto simp: good_def split: option.splits)
    qed
    show ?thesis by (rule good_later[OF g _ l]) (use False in \<open>simp_all add: Let_def\<close>)
  qed
  moreover have "good 1 (parse_type (Suc k)) st" if k: "2 * length (rest st) + 2 \<le> Suc k"
  proof -
    have a: "good 1 (parse_type_atom k) st" using Suc k by simp
    have "good 1 (pbind (parse_type_atom k) (\<lambda>a st.
       let st = skipws st
       in if take 2 (rest st) = ''->''
          then pbind (parse_type k) (\<lambda>b. pret (Ty_arrow a b)) (adv 2 st)
          else pret a st)) st"
    proof (rule good_pbind[OF a], goal_cases)
      case (1 v st')
      show ?case
      proof (cases "take 2 (rest (skipws st')) = ''->''")
        case True
        then have "rest (skipws st') \<noteq> []" by auto
        then have l: "length (rest (adv 2 (skipws st'))) + 1 \<le> length (rest st')"
          using adv_length[of "skipws st'" 2] skipws_length[of st'] by simp
        then have "good 1 (parse_type k) (adv 2 (skipws st'))" using Suc 1 k by simp
        then have g: "good 1 (pbind (parse_type k) (\<lambda>b. pret (Ty_arrow v b))) (adv 2 (skipws st'))"
          by (rule good_pbind) (simp add: good_pret)
        show ?thesis by (rule good_later[OF g _ l]) (use True in \<open>simp_all add: Let_def\<close>)
      next
        case False
        then show ?thesis using skipws_length[of st'] by (simp add: good_def Let_def pret_def)
      qed
    qed
    then show ?thesis by (rule good_cong) simp
  qed
  moreover have "good 0 (parse_type_args (Suc k) n) st" if k: "2 * length (rest st) + 2 \<le> Suc k"
  proof (cases "n = 0")
    case True
    then show ?thesis using good_pret[of "[]" st] by (simp add: good_def)
  next
    case False
    have a: "good 1 (parse_type_atom k) st" using Suc k by simp
    have "good 0 (pbind (parse_type_atom k) (\<lambda>t. pbind (parse_type_args k (n - 1)) (\<lambda>ts. pret (t # ts)))) st"
    proof (rule good_pbind[OF a], goal_cases)
      case (1 v st')
      have b: "good 0 (parse_type_args k (n - 1)) st'" using Suc 1 k by simp
      show ?case by (rule good_weaken[OF good_pbind[OF b]]) (auto simp: good_pret)
    qed
    then show ?thesis using False by (simp add: good_def)
  qed
  ultimately show ?case by blast
qed

lemma good_parse_type: "2 * length (rest st) + 2 \<le> k \<Longrightarrow> good 1 (parse_type k) st"
  using good_types by blast

lemma good_parse_type_top: "2 * length (rest st) + 2 \<le> k \<Longrightarrow> good 1 (parse_type_top k) st"
  by (rule good_later[OF good_parse_type[of "st\<lparr>tvs := []\<rparr>" k], where c = 0]) (simp_all add: parse_type_top_def)

section \<open>Terms\<close>

text \<open>The parser of sub-terms makes progress on every text of at most \<open>n\<close> bytes.\<close>

definition subs :: "tm parser \<Rightarrow> nat \<Rightarrow> bool" where
  "subs pt n \<longleftrightarrow> (\<forall>st. length (rest st) \<le> n \<longrightarrow> good 1 pt st)"

lemma subsD: "subs pt n \<Longrightarrow> length (rest st) \<le> n \<Longrightarrow> good 1 pt st"
  by (simp add: subs_def)

text \<open>A loop that runs to a closing parenthesis.\<close>

lemma good_parse_tail:
  "subs pt n \<Longrightarrow> length (rest st) \<le> n \<Longrightarrow> length (rest st) < k \<Longrightarrow> good 0 (parse_tail pt k f) st"
proof (induction k arbitrary: f st)
  case (Suc k)
  have l: "length (rest (skipws st)) + 0 \<le> length (rest st)" using skipws_length[of st] by simp
  consider "at rparen (skipws st)" | "\<not> at rparen (skipws st)" "at_end (skipws st)"
    | "\<not> at rparen (skipws st)" "\<not> at_end (skipws st)" by blast
  then show ?case
  proof cases
    case 1
    then show ?thesis using at_adv[OF 1] l by (simp add: good_def pret_def Let_def)
  next
    case 2
    then show ?thesis by (simp add: good_def pfail_def Let_def)
  next
    case 3
    have s: "good 1 pt (skipws st)" using Suc.prems l by (intro subsD[OF Suc.prems(1)]) auto
    have "good 0 (pbind pt (\<lambda>a. parse_tail pt k (App f a))) (skipws st)"
      by (rule good_seq[OF s], rule Suc.IH) (use Suc.prems l in auto)
    then show ?thesis by (rule good_later[OF _ _ l]) (use 3 in \<open>simp_all add: Let_def\<close>)
  qed
qed simp

lemma good_form_lambda:
  assumes "subs pt n" "length (rest st) \<le> n" "length (rest st) < k"
  shows "good 0 (form_lambda pt k) st"
  unfolding form_lambda_def
  apply (rule good_seq[OF good_pskip])
  apply (rule good_seq[OF good_sym_or])
  apply (rule good_seq[OF subsD[OF assms(1)]])
  using assms apply simp
  apply (rule good_seq[OF good_parse_tail[OF assms(1)]])
  using assms by auto

lemma good_form_define:
  assumes "subs pt n" "length (rest st) \<le> n" "2 * length (rest st) + 2 \<le> k"
  shows "good 0 (form_define pt k typed) st"
proof -
  have t: "good 0 (if typed then pbind (parse_type_top k) (\<lambda>t. pret (Some t)) else pret None) s"
    if "length (rest s) \<le> length (rest st)" for s
    using good_seq[OF good_parse_type_top[of s k], of "\<lambda>t. pret (Some t)"] assms that by simp
  show ?thesis
    unfolding form_define_def
    apply (rule good_seq[OF good_pskip])
    apply (rule good_seq[OF good_sym_or])
    apply (rule good_seq[OF t])
     apply simp
    apply (rule good_seq[OF subsD[OF assms(1)]])
    using assms apply simp
    apply (rule good_seq[OF good_pskip])
    apply (rule good_seq[OF good_expect])
    by simp
qed

lemma path_text_length: "path_text s = (p, r) \<Longrightarrow> length r \<le> length s"
  by (induction s arbitrary: p r rule: path_text.induct) (fastforce split: if_splits prod.splits)+

lemma good_form_load: "good 0 form_load st"
  unfolding form_load_def
  apply (rule good_seq[OF good_pskip])
  apply (rule good_seq[OF good_expect])
  subgoal for _ s1 _ s2
  proof (cases "path_text (rest s2)")
    case (Pair p r)
    define s3 where "s3 = s2\<lparr>rest := r\<rparr>"
    have l: "length (rest s3) + 0 \<le> length (rest s2)" using path_text_length[OF Pair] by (simp add: s3_def)
    show ?thesis
    proof (cases "at quote s3")
      case True
      have l3: "length (rest (adv 1 s3)) + 0 \<le> length (rest s2)" using at_adv[OF True] l by simp
      have "good 0 (pbind pskip (\<lambda>_. pbind (expect rparen (quoted ''load: expected '' '')''))
                   (\<lambda>_. pret (Load p)))) (adv 1 s3)"
        by (rule good_seq[OF good_pskip], rule good_seq[OF good_expect]) simp
      then show ?thesis by (rule good_later[OF _ _ l3]) (use Pair True in \<open>simp_all add: Let_def s3_def\<close>)
    next
      case False
      then show ?thesis using Pair by (simp add: good_def pfail_def Let_def s3_def)
    qed
  qed
  done

lemma good_form_name: "good 0 (form_name con) st"
  unfolding form_name_def
  by (rule good_seq[OF good_pskip], rule good_seq[OF good_sym_or], rule good_seq[OF good_pskip],
      rule good_seq[OF good_expect]) simp

lemma good_pattern_fields: "length (rest st) < k \<Longrightarrow> good 0 (pattern_fields k) st"
proof (induction k arbitrary: st)
  case (Suc k)
  have l: "length (rest (skipws st)) + 0 \<le> length (rest st)" using skipws_length[of st] by simp
  show ?case
  proof (cases "at rparen (skipws st)")
    case True
    then show ?thesis using at_adv[OF True] l by (simp add: good_def pret_def Let_def)
  next
    case False
    have "good 0 (pbind (sym_or ''match: bad field'') (\<lambda>x.
            pbind (pattern_fields k) (\<lambda>xs. pret (x # xs)))) (skipws st)"
      by (rule good_seq[OF good_sym_or], rule good_seq[OF Suc.IH]) (use Suc.prems l in auto)
    then show ?thesis by (rule good_later[OF _ _ l]) (use False in \<open>simp_all add: Let_def\<close>)
  qed
qed simp

lemma good_case_pattern:
  assumes "length (rest st) < k"
  shows "good 0 (case_pattern k) st"
proof (cases "at lparen st")
  case True
  have l: "length (rest (skipws (adv 1 st))) + 0 \<le> length (rest st)"
    using at_adv[OF True] skipws_length[of "adv 1 st"] by simp
  have "good 0 (pbind (sym_or ''match: bad pattern'') (\<lambda>c. pattern_fields k)) (skipws (adv 1 st))"
    by (rule good_seq[OF good_sym_or], rule good_pattern_fields) (use l assms in simp)
  then show ?thesis by (rule good_later[OF _ _ l]) (use True in \<open>simp_all add: case_pattern_def\<close>)
next
  case False
  have "good 0 (pbind (sym_or ''match: bad pattern'') (\<lambda>_. pret [])) st"
    by (rule good_seq[OF good_sym_or]) simp
  then show ?thesis by (rule good_cong) (use False in \<open>simp add: case_pattern_def\<close>)
qed

lemma good_match_cases:
  "subs pt n \<Longrightarrow> length (rest st) \<le> n \<Longrightarrow> length (rest st) < k \<Longrightarrow> good 0 (match_cases pt k app) st"
proof (induction k arbitrary: app st)
  case (Suc k)
  consider "\<not> at lparen st" | "at lparen st" "at rparen (skipws (adv 1 st))"
    | "at lparen st" "\<not> at rparen (skipws (adv 1 st))" by blast
  then show ?case
  proof cases
    case 1
    then show ?thesis by (simp add: good_def pret_def)
  next
    case 2
    then show ?thesis using at_adv[OF 2(1)] at_adv[OF 2(2)] skipws_length[of "adv 1 st"]
      by (simp add: good_def pret_def Let_def)
  next
    case 3
    have l: "length (rest (skipws (adv 1 st))) + 1 \<le> length (rest st)"
      using at_adv[OF 3(1)] skipws_length[of "adv 1 st"] by simp
    have "good 0 (pbind (case_pattern k) (\<lambda>vs. pbind pt (\<lambda>b. pbind (parse_tail pt k b) (\<lambda>body.
                    pbind pskip (\<lambda>_. match_cases pt k (App app (foldr Lam vs body))))))) (skipws (adv 1 st))"
      apply (rule good_seq[OF good_case_pattern])
      using Suc.prems l apply simp
      apply (rule good_seq[OF subsD[OF Suc.prems(1)]])
      using Suc.prems l apply simp
      apply (rule good_seq[OF good_parse_tail[OF Suc.prems(1)]])
      using Suc.prems l apply (simp, simp)
      apply (rule good_seq[OF good_pskip])
      apply (rule Suc.IH)
      using Suc.prems l by simp_all
    then show ?thesis by (rule good_later[OF _ _ l]) (use 3 in \<open>simp_all add: Let_def\<close>)
  qed
qed simp

lemma good_form_match:
  assumes "subs pt n" "length (rest st) \<le> n" "length (rest st) < k"
  shows "good 0 (form_match pt k) st"
  unfolding form_match_def
  apply (rule good_seq[OF subsD[OF assms(1)]])
  using assms apply simp
  apply (rule good_seq[OF good_pskip])
  apply (rule good_seq[OF good_match_cases[OF assms(1)]])
  using assms apply (simp, simp)
  apply (rule good_seq[OF good_close_opt])
  by simp

section \<open>Datatype declarations\<close>

lemma good_type_params: "length (rest st) < k \<Longrightarrow> good 0 (type_params k i) st"
proof (induction k arbitrary: st i)
  case (Suc k)
  show ?case
  proof (cases "at rparen st")
    case True
    then show ?thesis using at_adv[OF True] by (simp add: good_def pret_def)
  next
    case False
    have "good 0 (pbind (sym_or ''datatype: bad type param'') (\<lambda>x st. type_params k (Suc i) (skipws (put_param i x st)))) st"
    proof (rule good_seq[OF good_sym_or], goal_cases)
      case (1 x st')
      have l: "length (rest (skipws (put_param i x st'))) + 0 \<le> length (rest st')"
        using skipws_length[of "put_param i x st'"] by (simp add: put_param_def)
      have "good 0 (type_params k (Suc i)) (skipws (put_param i x st'))"
        by (rule Suc.IH) (use 1 l Suc.prems in simp)
      then show ?case by (rule good_later[OF _ _ l]) simp_all
    qed
    then show ?thesis by (rule good_cong) (use False in simp)
  qed
qed simp

lemma good_ctor_field:
  assumes "2 * length (rest st) + 2 \<le> k"
  shows "good 1 (ctor_field k) st"
proof (cases "at lparen st")
  case True
  have l: "length (rest (skipws (adv 1 st))) + 1 \<le> length (rest st)"
    using at_adv[OF True] skipws_length[of "adv 1 st"] by simp
  have "good 0 (pbind (sym_or ''datatype: bad field'') (\<lambda>x. pbind pskip (\<lambda>_. pbind (parse_type k) (\<lambda>t.
             pbind pskip (\<lambda>_. pbind (expect rparen ''datatype: bad field type'') (\<lambda>_. pret (x, Some t)))))))
          (skipws (adv 1 st))"
    apply (rule good_seq[OF good_sym_or])
    apply (rule good_seq[OF good_pskip])
    apply (rule good_seq[OF good_parse_type])
    using assms l apply simp
    apply (rule good_seq[OF good_pskip])
    apply (rule good_seq[OF good_expect])
    by simp
  then show ?thesis by (rule good_later[OF _ _ l]) (use True in \<open>simp_all add: ctor_field_def\<close>)
next
  case False
  have "good 1 (pbind (sym_or ''datatype: expected field'') (\<lambda>x. pret (x, None))) st"
    by (rule good_first[OF good_sym_or]) simp
  then show ?thesis by (rule good_cong) (use False in \<open>simp add: ctor_field_def\<close>)
qed

lemma good_ctor_fields: "2 * length (rest st) + 3 \<le> k \<Longrightarrow> good 0 (ctor_fields k) st"
proof (induction k arbitrary: st)
  case (Suc k)
  show ?case
  proof (cases "at rparen st")
    case True
    then show ?thesis using at_adv[OF True] by (simp add: good_def pret_def)
  next
    case False
    have f: "good 1 (ctor_field k) st" by (rule good_ctor_field) (use Suc.prems in simp)
    have "good 0 (pbind (ctor_field k) (\<lambda>f. pbind pskip (\<lambda>_. pbind (ctor_fields k) (\<lambda>fs. pret (f # fs))))) st"
      apply (rule good_seq[OF f])
      apply (rule good_seq[OF good_pskip])
      apply (rule good_seq[OF Suc.IH])
      using Suc.prems by simp_all
    then show ?thesis by (rule good_cong) (use False in simp)
  qed
qed simp

lemma good_data_ctors: "2 * length (rest st) + 3 \<le> k \<Longrightarrow> good 0 (data_ctors k) st"
proof (induction k arbitrary: st)
  case (Suc k)
  consider "\<not> at lparen st" | "at lparen st" "at rparen (skipws (adv 1 st))"
    | "at lparen st" "\<not> at rparen (skipws (adv 1 st))" by blast
  then show ?case
  proof cases
    case 1
    then show ?thesis by (simp add: good_def pret_def)
  next
    case 2
    have l: "length (rest (adv 1 (skipws (adv 1 st)))) + 1 \<le> length (rest st)"
      using at_adv[OF 2(1)] at_adv[OF 2(2)] skipws_length[of "adv 1 st"] by linarith
    have "good 0 (data_ctors k) (adv 1 (skipws (adv 1 st)))" by (rule Suc.IH) (use Suc.prems l in linarith)
    then show ?thesis by (rule good_later[OF _ _ l]) (use 2 in \<open>simp_all add: Let_def\<close>)
  next
    case 3
    have l: "length (rest (skipws (adv 1 st))) + 1 \<le> length (rest st)"
      using at_adv[OF 3(1)] skipws_length[of "adv 1 st"] by simp
    have "good 0 (pbind (sym_or ''datatype: expected constructor'') (\<lambda>c. pbind pskip (\<lambda>_.
                    pbind (ctor_fields k) (\<lambda>fs. pbind pskip (\<lambda>_.
                    pbind (data_ctors k) (\<lambda>cs. pret ((c, fs) # cs))))))) (skipws (adv 1 st))"
      apply (rule good_seq[OF good_sym_or])
      apply (rule good_seq[OF good_pskip])
      apply (rule good_seq[OF good_ctor_fields])
      using Suc.prems l apply simp
      apply (rule good_seq[OF good_pskip])
      apply (rule good_seq[OF Suc.IH])
      using Suc.prems l by simp_all
    then show ?thesis by (rule good_later[OF _ _ l]) (use 3 in \<open>simp_all add: Let_def\<close>)
  qed
qed simp

lemma good_data_head:
  assumes "length (rest st) < k"
  shows "good 0 (data_head k) st"
proof (cases "at lparen st")
  case True
  have l: "length (rest (skipws (adv 1 st))) + 0 \<le> length (rest st)"
    using at_adv[OF True] skipws_length[of "adv 1 st"] by simp
  have "good 0 (pbind (sym_or ''datatype: expected name'') (\<lambda>d. pbind pskip (\<lambda>_.
             pbind (type_params k 0) (\<lambda>n. pret (d, n))))) (skipws (adv 1 st))"
    apply (rule good_seq[OF good_sym_or])
    apply (rule good_seq[OF good_pskip])
    apply (rule good_seq[OF good_type_params])
    using assms l by simp_all
  then show ?thesis by (rule good_later[OF _ _ l]) (use True in \<open>simp_all add: data_head_def\<close>)
next
  case False
  have "good 0 (pbind (sym_or ''datatype: expected name'') (\<lambda>d. pret (d, 0))) st"
    by (rule good_seq[OF good_sym_or]) simp
  then show ?thesis by (rule good_cong) (use False in \<open>simp add: data_head_def\<close>)
qed

lemma good_form_data:
  assumes "2 * length (rest st) + 3 \<le> k"
  shows "good 0 (form_data k) st"
  unfolding form_data_def
  apply (rule good_seq[OF good_pskip])
  apply (rule good_seq[OF good_data_head])
  using assms apply simp
  subgoal for _ s1 v s2
  proof (cases v)
    case (Pair d n)
    define s3 where "s3 = (nominal_register d n s2)\<lparr>dt_in := (n > 0), dt_np := n\<rparr>"
    have l: "length (rest s3) + 0 \<le> length (rest s2)" by (simp add: s3_def nominal_register_def)
    assume a: "length (rest s1) + 0 \<le> length (rest st)" "length (rest s2) + 0 \<le> length (rest s1)"
    have "good 0 (pbind pskip (\<lambda>_. pbind (data_ctors k) (\<lambda>cs st2.
            pbind close_opt (\<lambda>_. pret (Data d n cs)) (st2\<lparr>dt_in := dt_in s2, dt_np := dt_np s2\<rparr>)))) s3"
      apply (rule good_seq[OF good_pskip])
      apply (rule good_seq[OF good_data_ctors])
      using assms a l apply simp
      subgoal for _ s4 cs s5
        by (rule good_later[where c = 0 and st' = "s5\<lparr>dt_in := dt_in s2, dt_np := dt_np s2\<rparr>",
              OF good_seq[OF good_close_opt]]) simp_all
      done
    then show ?thesis by (rule good_later[OF _ _ l]) (simp_all add: Pair Let_def s3_def)
  qed
  done

section \<open>Let\<close>

lemma good_let_bindings:
  "subs pt n \<Longrightarrow> length (rest st) \<le> n \<Longrightarrow> length (rest st) < k \<Longrightarrow> good 0 (let_bindings pt k) st"
proof (induction k arbitrary: st)
  case (Suc k)
  have l: "length (rest (skipws st)) + 0 \<le> length (rest st)" using skipws_length[of st] by simp
  show ?case
  proof (cases "at rparen (skipws st)")
    case True
    then show ?thesis using at_adv[OF True] l by (simp add: good_def pret_def Let_def)
  next
    case False
    have "good 0 (pbind (expect lparen ''let: expected binding'') (\<lambda>_. pbind pskip (\<lambda>_.
               pbind (sym_or ''let: bad binding'') (\<lambda>x. pbind pt (\<lambda>v. pbind pskip (\<lambda>_.
               pbind (expect rparen (quoted ''let: missing '' '')'' @ '' in binding'')) (\<lambda>_.
               pbind (let_bindings pt k) (\<lambda>bs. pret ((x, v) # bs))))))))) (skipws st)"
      apply (rule good_seq[OF good_expect])
      apply (rule good_seq[OF good_pskip])
      apply (rule good_seq[OF good_sym_or])
      apply (rule good_seq[OF subsD[OF Suc.prems(1)]])
      using Suc.prems l apply simp
      apply (rule good_seq[OF good_pskip])
      apply (rule good_seq[OF good_expect])
      apply (rule good_seq[OF Suc.IH[OF Suc.prems(1)]])
      using Suc.prems l by simp_all
    then show ?thesis by (rule good_later[OF _ _ l]) (use False in \<open>simp_all add: Let_def\<close>)
  qed
qed simp

lemma good_form_let:
  assumes "subs pt n" "length (rest st) \<le> n" "length (rest st) < k"
  shows "good 0 (form_let pt k) st"
  unfolding form_let_def
  apply (rule good_seq[OF good_pskip])
  apply (rule good_seq[OF good_expect])
  apply (rule good_seq[OF good_let_bindings[OF assms(1)]])
  using assms apply (simp, simp)
  apply (rule good_seq[OF subsD[OF assms(1)]])
  using assms apply simp
  apply (rule good_seq[OF good_parse_tail[OF assms(1)]])
  using assms by simp_all

section \<open>The term parser\<close>

lemma good_parse_keyword:
  assumes "subs pt n" "length (rest st) \<le> n" "2 * length (rest st) + 3 \<le> k"
  shows "good 0 (parse_keyword pt k kw) st"
  using assms good_form_lambda[OF assms(1,2), of k] good_form_define[OF assms(1,2), of k]
    good_form_load good_form_name good_form_match[OF assms(1,2), of k] good_form_data[of st k]
    good_form_let[OF assms(1,2), of k] good_parse_tail[OF assms(1,2), of k]
  by (simp add: parse_keyword_def)

lemma good_parse_form:
  assumes "subs pt n" "length (rest st) \<le> n" "2 * length (rest st) + 3 \<le> k"
  shows "good 0 (parse_form pt k) st"
proof -
  have l: "length (rest (skipws st)) + 0 \<le> length (rest st)" using skipws_length[of st] by simp
  show ?thesis
  proof (cases "at lparen (skipws st)")
    case True
    have "good 0 (pbind pt (parse_tail pt k)) (skipws st)"
      by (rule good_seq[OF subsD[OF assms(1)]], use assms l in simp,
          rule good_parse_tail[OF assms(1)]) (use assms l in auto)
    then show ?thesis by (rule good_later[OF _ _ l]) (use True in \<open>simp_all add: parse_form_def\<close>)
  next
    case False
    have "good 0 (pbind (sym_or (quoted ''empty '' ''('')) (parse_keyword pt k)) (skipws st)"
      by (rule good_seq[OF good_sym_or], rule good_parse_keyword[OF assms(1)]) (use assms l in auto)
    then show ?thesis by (rule good_later[OF _ _ l]) (use False in \<open>simp_all add: parse_form_def\<close>)
  qed
qed

lemma good_parse_term: "2 * length (rest st) + 3 \<le> k \<Longrightarrow> good 1 (parse_term k) st"
proof (induction k arbitrary: st)
  case (Suc k)
  let ?s = "skipws st"
  have l: "length (rest ?s) + 0 \<le> length (rest st)" using skipws_length[of st] by simp
  consider "at_end ?s" | "\<not> at_end ?s" "at rparen ?s" | "\<not> at_end ?s" "\<not> at rparen ?s" "at quote ?s"
    | "\<not> at_end ?s" "\<not> at rparen ?s" "\<not> at quote ?s" "at lparen ?s"
    | "\<not> at_end ?s" "\<not> at rparen ?s" "\<not> at quote ?s" "\<not> at lparen ?s" by blast
  then show ?case
  proof cases
    case 3
    have l3: "length (rest (adv 1 ?s)) + 1 \<le> length (rest st)" using at_adv[OF 3(3)] l by simp
    show ?thesis by (rule good_later[OF good_parse_string _ l3]) (use 3 in \<open>simp_all add: Let_def\<close>)
  next
    case 4
    have l4: "length (rest (adv 1 ?s)) + 1 \<le> length (rest st)" using at_adv[OF 4(4)] l by simp
    have "subs (parse_term k) (length (rest (adv 1 ?s)))" using Suc l4 by (simp add: subs_def)
    from good_parse_form[OF this, of "adv 1 ?s" k]
    have "good 0 (parse_form (parse_term k) k) (adv 1 ?s)" using Suc.prems l4 by simp
    then show ?thesis by (rule good_later[OF _ _ l4]) (use 4 in \<open>simp_all add: Let_def\<close>)
  next
    case 5
    have "good 1 (pbind (sym_or ''unexpected character'') (\<lambda>kw. pret (parse_atom kw))) ?s"
      by (rule good_first[OF good_sym_or]) simp
    then show ?thesis by (rule good_later[OF _ _ l]) (use 5 in \<open>simp_all add: Let_def\<close>)
  qed (simp_all add: good_def pfail_def Let_def)
qed simp

section \<open>The forms of a text\<close>

lemma skip_text_front:
  assumes "skip_text s = c # cs"
  shows "\<not> is_space c \<and> c \<noteq> semi"
  using assms
proof (induction s rule: skip_text.induct)
  case (1 s)
  show ?case
  proof (cases "dropWhile is_space s")
    case Nil
    then show ?thesis using 1(2) by (subst (asm) skip_text.simps) (simp only: list.case list.distinct)
  next
    case (Cons x xs)
    have x: "\<not> is_space x" using hd_dropWhile[of is_space s] Cons by simp
    show ?thesis
    proof (cases "x = semi")
      case True
      have "skip_text (dropWhile (\<lambda>x. x \<noteq> newline) (x # xs)) = c # cs"
        using 1(2) Cons True by (subst (asm) skip_text.simps) (simp only: list.case if_True simp_thms)
      then show ?thesis using 1(1)[OF Cons True] by blast
    next
      case False
      then show ?thesis using 1(2) Cons x by (subst (asm) skip_text.simps) simp
    qed
  qed
qed

lemma resync_from_length: "length (resync_from d s) \<le> length s"
proof (induction d s rule: resync_from.induct)
  case (1 d s)
  show ?case
  proof (cases s)
    case Nil
    then show ?thesis by (simp add: resync_from.simps)
  next
    case (Cons c cs)
    have dl: "length (dropWhile (\<lambda>x. x \<noteq> newline) (c # cs)) \<le> length s" using Cons length_dropWhile_le by metis
    have dl2: "length (dropWhile sym_char (c # cs)) \<le> length s" using Cons length_dropWhile_le by metis
    consider "c = semi" | "c \<noteq> semi" "c = lparen" | "c \<noteq> semi" "c \<noteq> lparen" "c = rparen" "d - 1 \<le> 0"
      | "c \<noteq> semi" "c \<noteq> lparen" "c = rparen" "\<not> d - 1 \<le> 0"
      | "c \<noteq> semi" "c \<noteq> lparen" "c \<noteq> rparen" "d = 0 \<and> \<not> is_space c"
      | "c \<noteq> semi" "c \<noteq> lparen" "c \<noteq> rparen" "\<not> (d = 0 \<and> \<not> is_space c)" by blast
    then show ?thesis
    proof cases
      case a: 1
      have "resync_from d s = resync_from d (dropWhile (\<lambda>x. x \<noteq> newline) (c # cs))"
        using Cons a by (subst resync_from.simps) (simp only: list.case if_True simp_thms)
      then show ?thesis using 1(1)[OF Cons a] dl by simp
    next
      case a: 2
      then show ?thesis using 1(2)[OF Cons a] Cons by (subst resync_from.simps) simp
    next
      case a: 3
      then show ?thesis using Cons by (subst resync_from.simps) simp
    next
      case a: 4
      then show ?thesis using 1(3)[OF Cons a] Cons by (subst resync_from.simps) simp
    next
      case a: 5
      have "resync_from d s = dropWhile sym_char (c # cs)"
        using Cons a by (subst resync_from.simps) (simp only: list.case if_True if_False simp_thms)
      then show ?thesis using dl2 by simp
    next
      case a: 6
      have "resync_from d s = resync_from d cs"
        using Cons a by (subst resync_from.simps) (simp only: list.case if_False simp_thms)
      then show ?thesis using 1(4)[OF Cons a] Cons by simp
    qed
  qed
qed

text \<open>Behind an error the reader always moves on.\<close>

lemma resync_progress:
  assumes "\<not> is_space c" "c \<noteq> semi"
  shows "length (resync (c # cs)) < length (c # cs)"
proof -
  consider "c = lparen" | "c \<noteq> lparen" "c = rparen" | "c \<noteq> lparen" "c \<noteq> rparen" by blast
  then show ?thesis
  proof cases
    case 1
    have "resync (c # cs) = resync_from (0 + 1) cs"
      using assms 1 unfolding resync_def by (subst resync_from.simps) (simp only: list.case if_True if_False simp_thms)
    then show ?thesis using resync_from_length[of "0 + 1" cs] by simp
  next
    case 2
    then show ?thesis using assms by (simp add: resync_def resync_from.simps[where s = "_ # _"])
  next
    case 3
    then have "sym_char c" using assms by (simp add: sym_char_def)
    then show ?thesis using 3 assms length_dropWhile_le[of sym_char cs]
      by (simp add: resync_def resync_from.simps[of 0 "c # cs"])
  qed
qed

text \<open>
  \<open>parse_forms\<close>: what the callback is given, in order, for each form of the text: a term, or the
  message of an error, after which reading goes on behind the form.
\<close>

function parse_forms :: "pst \<Rightarrow> (string + tm) list \<times> pst" where
  "parse_forms st =
     (let st = skipws st
      in if at_end st then ([], st)
         else case parse_term (fuel st) st of
                (Inr t, st') \<Rightarrow> (case parse_forms st' of (rs, r) \<Rightarrow> (Inr t # rs, r))
              | (Inl e, st') \<Rightarrow>
                  (case parse_forms (st'\<lparr>rest := resync (rest st)\<rparr>) of (rs, r) \<Rightarrow>
                     (Inl (''parse error: '' @ (case e of Fail m \<Rightarrow> m | No_fuel \<Rightarrow> [])) # rs, r)))"
  by pat_completeness auto
termination
proof (relation "measure (\<lambda>st. length (rest st))", goal_cases)
  case (2 st s r st' e)
  obtain c cs where c: "rest s = c # cs" using 2 by (cases "rest s") (auto simp: at_end_def)
  then have "skip_text (rest st) = c # cs" using 2 by (simp add: skipws_def)
  then have "length (resync (c # cs)) < length (c # cs)" using resync_progress skip_text_front by blast
  moreover have "length (rest s) \<le> length (rest st)" using 2 skipws_length by simp
  ultimately show ?case using c by simp
next
  case (3 st s r st' t)
  have p: "parse_term (fuel s) s = (Inr t, st')" using 3 by simp
  have "length (rest st') + 1 \<le> length (rest s)"
    using good_parse_term[of s "fuel s"] unfolding good_def p by (simp add: fuel_def)
  then show ?case using skipws_length[of st] 3 by simp
qed simp

declare parse_forms.simps [simp del]

end
