(* ===== verification/ParserProps.thy ===== *)
theory ParserProps
  imports ParserTotal
begin

text \<open>
  What the parser (\<open>src/parse.c\<close>) guarantees: it is total, it reads back the terms a printer writes,
  and after a form it cannot read it goes on with the form behind it.
\<close>

section \<open>Printing\<close>

text \<open>A printer of the core forms, the inverse of \<open>parse_term\<close> on the terms below.\<close>

primrec show_tm :: "tm \<Rightarrow> string" where
  "show_tm (Var x) = x"
| "show_tm (Num s) = s"
| "show_tm (Flt s) = s"
| "show_tm (Lam x b) = lparen # ''lambda '' @ x @ '' '' @ show_tm b @ [rparen]"
| "show_tm (App f a) = lparen # show_tm f @ '' '' @ show_tm a @ [rparen]"
| "show_tm (Let x v b) = lparen # ''let '' @ lparen # lparen # x @ '' '' @ show_tm v @ rparen # rparen # '' '' @ show_tm b @ [rparen]"
| "show_tm (Def x v) = lparen # ''define '' @ x @ '' '' @ show_tm v @ [rparen]"
| "show_tm (Namespace x) = lparen # ''namespace '' @ x @ [rparen]"
| "show_tm (Open_ns x) = lparen # ''open '' @ x @ [rparen]"
| "show_tm (Export x) = lparen # ''export '' @ x @ [rparen]"
| "show_tm (Defx x t v) = []"
| "show_tm (Load p) = []"
| "show_tm (Data d n cs) = []"
| "show_tm (Baked d) = []"

definition keywords_of_forms :: "string set" where
  "keywords_of_forms = {[bslash], ''lambda'', ''lam'', [CHR 0xCE, CHR 0xBB], ''define'', ''define!'', ''load'', ''namespace'',
     ''ns'', ''module'', ''open'', ''use'', ''export'', ''match'', ''datatype'', ''data'', ''let''}"

text \<open>A name is a run of symbol characters that starts no comment, no string and no lambda sign.\<close>

definition name_ok :: "string \<Rightarrow> bool" where
  "name_ok x \<longleftrightarrow> x \<noteq> [] \<and> list_all sym_char x \<and> hd x \<notin> {semi, quote, bslash, CHR 0xCE}"

definition no_form :: "tm \<Rightarrow> bool" where
  "no_form t = (case t of Var x \<Rightarrow> x \<notin> keywords_of_forms | _ \<Rightarrow> True)"

primrec printable :: "tm \<Rightarrow> bool" where
  "printable (Var x) \<longleftrightarrow> name_ok x \<and> \<not> isnum x \<and> \<not> isfloat x"
| "printable (Num s) \<longleftrightarrow> isnum s"
| "printable (Flt s) \<longleftrightarrow> isfloat s"
| "printable (Lam x b) \<longleftrightarrow> name_ok x \<and> printable b"
| "printable (App f a) \<longleftrightarrow> printable f \<and> printable a \<and> no_form f"
| "printable (Let x v b) \<longleftrightarrow> name_ok x \<and> printable v \<and> printable b"
| "printable (Def x v) \<longleftrightarrow> name_ok x \<and> printable v"
| "printable (Namespace x) \<longleftrightarrow> name_ok x"
| "printable (Open_ns x) \<longleftrightarrow> name_ok x"
| "printable (Export x) \<longleftrightarrow> name_ok x"
| "printable (Defx x t v) \<longleftrightarrow> False"
| "printable (Load p) \<longleftrightarrow> False"
| "printable (Data d n cs) \<longleftrightarrow> False"
| "printable (Baked d) \<longleftrightarrow> False"

section \<open>Lexing printed text\<close>

lemmas chars = lparen_def rparen_def semi_def quote_def bslash_def newline_def

lemma skip_space [simp]: "skip_text (CHR '' '' # s) = skip_text s"
  by (subst (1 2) skip_text.simps) (simp add: is_space_def)

lemma skip_front: "\<not> is_space c \<Longrightarrow> c \<noteq> semi \<Longrightarrow> skip_text (c # s) = c # s"
  by (subst skip_text.simps) simp

lemma skip_paren [simp]: "skip_text (lparen # s) = lparen # s" "skip_text (rparen # s) = rparen # s"
  by (simp_all add: skip_front is_space_def chars)

lemma skip_nil [simp]: "skip_text [] = []"
  by (subst skip_text.simps) simp

lemma name_front: "name_ok x \<Longrightarrow> \<exists>c cs. x = c # cs \<and> sym_char c \<and> c \<notin> {semi, quote, bslash, CHR 0xCE}"
  by (cases x) (auto simp: name_ok_def)

lemma skip_name: "name_ok x \<Longrightarrow> skip_text (x @ s) = x @ s"
  using name_front[of x] by (auto simp: skip_front sym_char_def)

text \<open>The text after a symbol: its end, white space or a parenthesis.\<close>

definition delim :: "string \<Rightarrow> bool" where
  "delim s = (case s of [] \<Rightarrow> True | c # _ \<Rightarrow> \<not> sym_char c)"

lemma delim_simps [simp]: "delim []" "delim (CHR '' '' # s)" "delim (lparen # s)" "delim (rparen # s)"
  by (simp_all add: delim_def sym_char_def is_space_def)

lemma take_sym: "list_all sym_char x \<Longrightarrow> delim s \<Longrightarrow> takeWhile sym_char (x @ s) = x \<and> dropWhile sym_char (x @ s) = s"
  by (induction x) (auto simp: delim_def split: list.splits)

lemma sym_text_name:
  assumes "name_ok x" "delim s"
  shows "sym_text (x @ s) = (Some x, s)"
proof -
  obtain c cs where c: "x = c # cs" "sym_char c" "c \<notin> {semi, quote, bslash, CHR 0xCE}" using name_front[OF assms(1)] by blast
  have "list_all sym_char x" using assms by (simp add: name_ok_def)
  from take_sym[OF this assms(2)] show ?thesis using c by (simp add: sym_text_def)
qed

lemma sym_or_name:
  "rest st = x @ s \<Longrightarrow> name_ok x \<Longrightarrow> delim s \<Longrightarrow> sym_or m st = (Inr x, st\<lparr>rest := s\<rparr>)"
  by (simp add: sym_or_def sym_def sym_text_name)

lemma digits_sym: "list_all is_digit s \<Longrightarrow> list_all sym_char s"
  by (induction s) (auto simp: is_digit_def sym_char_def is_space_def chars)

lemma name_num: "isnum s \<Longrightarrow> name_ok s"
  using digits_sym[of s] by (cases s) (auto simp: isnum_def name_ok_def is_digit_def chars)

lemma name_float:
  assumes "isfloat s"
  shows "name_ok s"
proof -
  obtain c cs where s: "s = c # cs" using assms by (cases s) (auto simp: isfloat_def)
  have a: "is_digit d \<or> d \<in> {CHR ''.'', CHR ''e'', CHR ''E''} \<Longrightarrow>
      sym_char d \<and> d \<notin> {semi, quote, bslash, CHR 0xCE}" for d
    by (auto simp: is_digit_def sym_char_def is_space_def chars)
  show ?thesis
  proof (cases "c = CHR ''-'' \<or> c = CHR ''+''")
    case True
    then have c: "sym_char c \<and> c \<notin> {semi, quote, bslash, CHR 0xCE}" by (auto simp: sym_char_def is_space_def chars)
    have "list_all (\<lambda>d. is_digit d \<or> d \<in> {CHR ''.'', CHR ''e'', CHR ''E''}) cs"
      using assms s True by (auto simp: isfloat_def Let_def)
    then have "list_all sym_char cs" using a by (auto simp: list_all_iff)
    then show ?thesis using s c by (simp add: name_ok_def)
  next
    case False
    have "list_all (\<lambda>d. is_digit d \<or> d \<in> {CHR ''.'', CHR ''e'', CHR ''E''}) s"
      using assms s False by (auto simp: isfloat_def Let_def)
    then have "list_all (\<lambda>d. sym_char d \<and> d \<notin> {semi, quote, bslash, CHR 0xCE}) s" using a by (auto simp: list_all_iff)
    then show ?thesis using s by (auto simp: name_ok_def list_all_iff)
  qed
qed

lemma float_not_num:
  assumes "isfloat s"
  shows "\<not> isnum s"
proof -
  define p where "p = (case s of c # cs \<Rightarrow> if c = CHR ''-'' \<or> c = CHR ''+'' then cs else s | [] \<Rightarrow> [])"
  obtain c where c: "c \<in> set p" "c \<in> {CHR ''.'', CHR ''e'', CHR ''E''}"
    using assms by (auto simp: isfloat_def p_def Let_def list_ex_iff)
  have "c \<in> set s" using c by (auto simp: p_def split: list.splits if_splits)
  moreover have "\<not> is_digit c" using c by (auto simp: is_digit_def)
  ultimately show ?thesis by (auto simp: isnum_def list_all_iff)
qed

section \<open>One step of the parser on printed text\<close>

lemmas run_parser = pbind_def pret_def pskip_def expect_def skipws_def at_def adv_def at_end_def

lemma parse_symbol:
  assumes "skip_text (rest st) = x @ r" "name_ok x" "delim r"
  shows "parse_term (Suc k) st = (Inr (parse_atom x), st\<lparr>rest := r\<rparr>)"
proof -
  obtain c cs where x: "x = c # cs" "sym_char c" "c \<notin> {semi, quote, bslash, CHR 0xCE}"
    using name_front[OF assms(2)] by blast
  define st' where "st' = st\<lparr>rest := x @ r\<rparr>"
  have s: "skipws st = st'" using assms(1) by (simp add: skipws_def st'_def)
  have r: "rest st' = x @ r" by (simp add: st'_def)
  have c: "c \<noteq> lparen" "c \<noteq> rparen" "c \<noteq> quote" using x by (auto simp: sym_char_def)
  have "parse_term (Suc k) st = pbind (sym_or ''unexpected character'') (\<lambda>kw. pret (parse_atom kw)) st'"
    using c r x(1) by (simp add: s at_def at_end_def)
  also have "\<dots> = (Inr (parse_atom x), st'\<lparr>rest := r\<rparr>)"
    using sym_or_name[OF r assms(2,3)] by (simp add: pbind_def pret_def)
  finally show ?thesis by (simp add: st'_def)
qed

lemma parse_open:
  assumes "skip_text (rest st) = lparen # s"
  shows "parse_term (Suc k) st = parse_form (parse_term k) k (st\<lparr>rest := s\<rparr>)"
  using assms by (simp add: run_parser Let_def lparen_def rparen_def quote_def)

lemma parse_form_keyword:
  assumes "skip_text (rest st) = kw @ r" "name_ok kw" "delim r"
  shows "parse_form pt k st = parse_keyword pt k kw (st\<lparr>rest := r\<rparr>)"
proof -
  obtain c cs where x: "kw = c # cs" "sym_char c" using name_front[OF assms(2)] by blast
  define st' where "st' = st\<lparr>rest := kw @ r\<rparr>"
  have s: "skipws st = st'" using assms(1) by (simp add: skipws_def st'_def)
  have "parse_form pt k st = pbind (sym_or (quoted ''empty '' ''('')) (parse_keyword pt k) st'"
    using x by (simp add: parse_form_def s at_def st'_def sym_char_def)
  then show ?thesis using sym_or_name[of st' kw r] assms(2,3) by (simp add: pbind_def st'_def)
qed

lemma parse_form_open:
  assumes "skip_text (rest st) = lparen # s"
  shows "parse_form pt k st = pbind pt (parse_tail pt k) (st\<lparr>rest := lparen # s\<rparr>)"
  using assms by (simp add: parse_form_def skipws_def at_def)

lemma tail_close:
  assumes "skip_text (rest st) = rparen # r"
  shows "parse_tail pt (Suc k) f st = (Inr f, st\<lparr>rest := r\<rparr>)"
  using assms by (simp add: run_parser Let_def)

lemma tail_arg:
  assumes "skip_text (rest st) = c # s" "c \<noteq> rparen" "pt (st\<lparr>rest := c # s\<rparr>) = (Inr a, st')"
  shows "parse_tail pt (Suc k) f st = parse_tail pt k (App f a) st'"
  using assms by (simp add: run_parser Let_def)

lemma show_front: "printable t \<Longrightarrow> \<exists>c cs. show_tm t = c # cs \<and> c \<noteq> rparen \<and> \<not> is_space c \<and> c \<noteq> semi"
proof (induction t)
  case (Var x)
  then show ?case using name_front[of x] by (auto simp: sym_char_def)
next
  case (Num x)
  then show ?case using name_front[of x] name_num[of x] by (auto simp: sym_char_def)
next
  case (Flt x)
  then show ?case using name_front[of x] name_float[of x] by (auto simp: sym_char_def)
qed (auto simp: lparen_def rparen_def semi_def is_space_def)

lemma skip_show: "printable t \<Longrightarrow> skip_text (show_tm t @ r) = show_tm t @ r"
  using show_front[of t] by (auto simp: skip_front)

lemma sym_or_skip:
  assumes "skip_text (rest st) = x @ s" "name_ok x" "delim s"
  shows "sym_or m (skipws st) = (Inr x, st\<lparr>rest := s\<rparr>)"
  using sym_or_name[of "skipws st" x s m] assms by (simp add: skipws_def)

lemma form_name_text:
  assumes "skip_text (rest st) = x @ rparen # r" "name_ok x"
  shows "form_name con st = (Inr (con x), st\<lparr>rest := r\<rparr>)"
  using sym_or_skip[OF assms(1,2)] by (simp add: form_name_def run_parser)

lemma keyword_ok:
  "name_ok ''lambda''" "name_ok ''let''" "name_ok ''define''" "name_ok ''namespace''" "name_ok ''open''" "name_ok ''export''"
  by (simp_all add: name_ok_def sym_char_def is_space_def chars)

lemma keyword_form:
  "parse_keyword pt k ''lambda'' = form_lambda pt k" "parse_keyword pt k ''let'' = form_let pt k"
  "parse_keyword pt k ''define'' = form_define pt k False" "parse_keyword pt k ''namespace'' = form_name Namespace"
  "parse_keyword pt k ''open'' = form_name Open_ns" "parse_keyword pt k ''export'' = form_name Export"
  by (simp_all add: parse_keyword_def islambda_def bslash_def)

lemma keyword_none: "kw \<notin> keywords_of_forms \<Longrightarrow> parse_keyword pt k kw = parse_tail pt k (parse_atom kw)"
  by (simp add: parse_keyword_def keywords_of_forms_def islambda_def)

text \<open>A special form of printed text: its keyword, a blank, and its parts.\<close>

lemma parse_special:
  assumes "skip_text (rest st) = lparen # kw @ CHR '' '' # s" "name_ok kw"
  shows "parse_term (Suc k) st = parse_keyword (parse_term k) k kw (st\<lparr>rest := CHR '' '' # s\<rparr>)"
proof -
  have "skip_text (rest (st\<lparr>rest := kw @ CHR '' '' # s\<rparr>)) = kw @ CHR '' '' # s" using skip_name[OF assms(2)] by simp
  from parse_form_keyword[OF this assms(2)] parse_open[OF assms(1)] show ?thesis by simp
qed

section \<open>Round trip\<close>

definition reads :: "tm \<Rightarrow> bool" where
  "reads t \<longleftrightarrow> (\<forall>st r k. skip_text (rest st) = show_tm t @ r \<longrightarrow> delim r \<longrightarrow> length (show_tm t) < k \<longrightarrow>
     parse_term k st = (Inr t, st\<lparr>rest := r\<rparr>))"

lemma readsD:
  "reads t \<Longrightarrow> skip_text (rest st) = show_tm t @ r \<Longrightarrow> delim r \<Longrightarrow> length (show_tm t) < k \<Longrightarrow>
   parse_term k st = (Inr t, st\<lparr>rest := r\<rparr>)"
  by (simp add: reads_def)

lemma reads_symbol:
  assumes "show_tm t = x" "name_ok x" "parse_atom x = t"
  shows "reads t"
  unfolding reads_def
proof (intro allI impI)
  fix st :: pst and r k assume "skip_text (rest st) = show_tm t @ r" "delim r" "length (show_tm t) < k"
  then show "parse_term k st = (Inr t, st\<lparr>rest := r\<rparr>)"
    using parse_symbol[of st x r "k - 1"] assms by (cases k) auto
qed

text \<open>The last part of a form: a term, then the closing parenthesis.\<close>

lemma last_part:
  assumes "reads t" "printable t" "rest st = CHR '' '' # show_tm t @ rparen # r" "length (show_tm t) < k"
  shows "pbind (parse_term k) (parse_tail (parse_term k) k) st = (Inr t, st\<lparr>rest := r\<rparr>)"
proof -
  have "parse_term k st = (Inr t, st\<lparr>rest := rparen # r\<rparr>)"
    by (rule readsD[OF assms(1)]) (use assms skip_show in auto)
  moreover obtain j where "k = Suc j" using assms(4) by (cases k) auto
  ultimately show ?thesis using tail_close[of "st\<lparr>rest := rparen # r\<rparr>" r "parse_term k" j t] by (simp add: pbind_def)
qed

lemma reads_lam:
  assumes "reads b" "printable b" "name_ok x"
  shows "reads (Lam x b)"
  unfolding reads_def
proof (intro allI impI)
  fix st :: pst and r k assume a: "skip_text (rest st) = show_tm (Lam x b) @ r" "length (show_tm (Lam x b)) < k"
  then obtain j where k: "k = Suc j" "length (show_tm b) < j" by (cases k) auto
  let ?s = "st\<lparr>rest := CHR '' '' # x @ CHR '' '' # show_tm b @ rparen # r\<rparr>"
  let ?s2 = "st\<lparr>rest := CHR '' '' # show_tm b @ rparen # r\<rparr>"
  have p: "parse_term k st = form_lambda (parse_term j) j ?s"
    using parse_special[of st "''lambda''" _ j] a keyword_ok keyword_form k by simp
  have n: "sym_or m (skipws ?s) = (Inr x, ?s2)" for m
    using sym_or_skip[of ?s x "CHR '' '' # show_tm b @ rparen # r"] assms(3) by (simp add: skip_name)
  have l: "pbind (parse_term j) (parse_tail (parse_term j) j) ?s2 = (Inr b, st\<lparr>rest := r\<rparr>)"
    using last_part[OF assms(1,2), of ?s2 r j] k by simp
  have "form_lambda (parse_term j) j ?s =
      pbind (pbind (parse_term j) (parse_tail (parse_term j) j)) (\<lambda>body. pret (Lam x body)) ?s2"
    by (simp only: form_lambda_def pbind_def[of pskip] pskip_def pbind_def[of "sym_or _"] n sum.case prod.case pbind_assoc)
  also have "\<dots> = (Inr (Lam x b), st\<lparr>rest := r\<rparr>)"
    by (simp only: pbind_def[of "pbind _ _"] l sum.case prod.case) (simp add: pret_def)
  finally show "parse_term k st = (Inr (Lam x b), st\<lparr>rest := r\<rparr>)" using p by simp
qed

lemma reads_def_form:
  assumes "reads v" "printable v" "name_ok x"
  shows "reads (Def x v)"
  unfolding reads_def
proof (intro allI impI)
  fix st :: pst and r k assume a: "skip_text (rest st) = show_tm (Def x v) @ r" "length (show_tm (Def x v)) < k"
  then obtain j where k: "k = Suc j" "length (show_tm v) < j" by (cases k) auto
  let ?s = "st\<lparr>rest := CHR '' '' # x @ CHR '' '' # show_tm v @ rparen # r\<rparr>"
  let ?s2 = "st\<lparr>rest := CHR '' '' # show_tm v @ rparen # r\<rparr>"
  have "parse_term k st = form_define (parse_term j) j False ?s"
    using parse_special[of st "''define''" _ j] a keyword_ok keyword_form k by simp
  moreover have "sym_or ''define: expected name'' (skipws ?s) = (Inr x, ?s2)"
    using sym_or_skip[of ?s x "CHR '' '' # show_tm v @ rparen # r"] assms(3) by (simp add: skip_name)
  moreover have "parse_term j ?s2 = (Inr v, st\<lparr>rest := rparen # r\<rparr>)"
    using readsD[OF assms(1), of ?s2 "rparen # r" j] skip_show[OF assms(2)] k by simp
  moreover have "skipws (st\<lparr>rest := rparen # r\<rparr>) = st\<lparr>rest := rparen # r\<rparr>" by (simp add: skipws_def)
  ultimately show "parse_term k st = (Inr (Def x v), st\<lparr>rest := r\<rparr>)"
    by (simp add: form_define_def pbind_def pskip_def pret_def expect_def at_def adv_def)
qed

lemma reads_let:
  assumes "reads v" "printable v" "reads b" "printable b" "name_ok x"
  shows "reads (Let x v b)"
  unfolding reads_def
proof (intro allI impI)
  fix st :: pst and r k assume a: "skip_text (rest st) = show_tm (Let x v b) @ r" "length (show_tm (Let x v b)) < k"
  then obtain j where j: "k = Suc (Suc (Suc j))" "length (show_tm v) < j" "length (show_tm b) < j"
    using that[of "k - 3"] by auto
  let ?j = "Suc (Suc j)" let ?pt = "parse_term ?j"
  let ?tb = "CHR '' '' # show_tm b @ rparen # r"
  let ?s = "st\<lparr>rest := CHR '' '' # lparen # lparen # x @ CHR '' '' # show_tm v @ rparen # rparen # ?tb\<rparr>"
  let ?s1 = "st\<lparr>rest := lparen # x @ CHR '' '' # show_tm v @ rparen # rparen # ?tb\<rparr>"
  let ?s2 = "st\<lparr>rest := x @ CHR '' '' # show_tm v @ rparen # rparen # ?tb\<rparr>"
  let ?s3 = "st\<lparr>rest := CHR '' '' # show_tm v @ rparen # rparen # ?tb\<rparr>"
  let ?s4 = "st\<lparr>rest := rparen # rparen # ?tb\<rparr>"
  have p: "parse_term k st = form_let ?pt ?j ?s"
    using parse_special[of st "''let''" _ ?j] a keyword_ok keyword_form j(1) by simp
  have e: "expect lparen m (skipws ?s) = (Inr (), ?s1)" "expect lparen m' (skipws ?s1) = (Inr (), ?s2)" for m m'
    by (simp_all add: skipws_def expect_def at_def adv_def)
  have n: "sym_or m (skipws ?s2) = (Inr x, ?s3)" for m
    using sym_or_skip[of ?s2 x "CHR '' '' # show_tm v @ rparen # rparen # ?tb" m] assms(5) by (simp add: skip_name)
  have v: "?pt ?s3 = (Inr v, ?s4)"
    using readsD[OF assms(1), of ?s3 "rparen # rparen # ?tb" ?j] skip_show[OF assms(2)] j by simp
  have x: "expect rparen m (skipws ?s4) = (Inr (), st\<lparr>rest := rparen # ?tb\<rparr>)" for m
    by (simp add: skipws_def expect_def at_def adv_def)
  have d: "let_bindings ?pt (Suc j) (st\<lparr>rest := rparen # ?tb\<rparr>) = (Inr [], st\<lparr>rest := ?tb\<rparr>)"
    by (simp add: skipws_def at_def adv_def pret_def Let_def del: parse_term.simps)
  have nr: "\<not> at rparen (skipws ?s1)" by (simp add: at_def skipws_def) (simp add: lparen_def rparen_def)
  have "let_bindings ?pt ?j ?s1 = pbind (expect lparen ''let: expected binding'') (\<lambda>_. pbind pskip (\<lambda>_.
               pbind (sym_or ''let: bad binding'') (\<lambda>x. pbind ?pt (\<lambda>v. pbind pskip (\<lambda>_.
               pbind (expect rparen (quoted ''let: missing '' '')'' @ '' in binding'')) (\<lambda>_.
               pbind (let_bindings ?pt (Suc j)) (\<lambda>bs. pret ((x, v) # bs)))))))) (skipws ?s1)"
    unfolding let_bindings.simps(2)[of ?pt "Suc j"] Let_def if_not_P[OF nr] ..
  also have "\<dots> = (Inr [(x, v)], st\<lparr>rest := ?tb\<rparr>)"
    by (simp only: pbind_def pskip_def e n v x d sum.case prod.case) (simp add: pret_def)
  finally have b: "let_bindings ?pt ?j ?s1 = (Inr [(x, v)], st\<lparr>rest := ?tb\<rparr>)" .
  have l: "pbind ?pt (parse_tail ?pt ?j) (st\<lparr>rest := ?tb\<rparr>) = (Inr b, st\<lparr>rest := r\<rparr>)"
    using last_part[OF assms(3,4), of "st\<lparr>rest := ?tb\<rparr>" r ?j] j by simp
  have "form_let ?pt ?j ?s = pbind (pbind ?pt (parse_tail ?pt ?j)) (\<lambda>body. pret (foldr (\<lambda>(x, v) t. Let x v t) [(x, v)] body))
      (st\<lparr>rest := ?tb\<rparr>)"
    by (simp only: form_let_def pbind_def[of pskip] pskip_def pbind_def[of "expect _ _"] e pbind_def[of "let_bindings _ _"] b
        sum.case prod.case pbind_assoc)
  also have "\<dots> = (Inr (Let x v b), st\<lparr>rest := r\<rparr>)"
    by (simp only: pbind_def[of "pbind _ _"] l sum.case prod.case) (simp add: pret_def)
  finally show "parse_term k st = (Inr (Let x v b), st\<lparr>rest := r\<rparr>)" using p by simp
qed

lemma reads_app:
  assumes "reads f" "printable f" "reads a" "printable a" "no_form f"
  shows "reads (App f a)"
  unfolding reads_def
proof (intro allI impI)
  fix st :: pst and r k assume h: "skip_text (rest st) = show_tm (App f a) @ r" "length (show_tm (App f a)) < k"
  then obtain j where j: "k = Suc (Suc (Suc j))" "length (show_tm f) < Suc (Suc j)" "length (show_tm a) < Suc (Suc j)"
    using that[of "k - 3"] by auto
  let ?j = "Suc (Suc j)" let ?pt = "parse_term ?j"
  let ?s = "st\<lparr>rest := show_tm f @ CHR '' '' # show_tm a @ rparen # r\<rparr>"
  let ?s2 = "st\<lparr>rest := CHR '' '' # show_tm a @ rparen # r\<rparr>"
  have p: "parse_term k st = parse_form ?pt ?j ?s" using parse_open[of st _ ?j] h j(1) by simp
  have t: "parse_tail ?pt ?j f ?s2 = (Inr (App f a), st\<lparr>rest := r\<rparr>)"
  proof -
    obtain c cs where c: "show_tm a = c # cs" "c \<noteq> rparen" using show_front[OF assms(4)] by blast
    have "?pt (st\<lparr>rest := c # cs @ rparen # r\<rparr>) = (Inr a, st\<lparr>rest := rparen # r\<rparr>)"
      using readsD[OF assms(3), of "st\<lparr>rest := c # cs @ rparen # r\<rparr>" "rparen # r" ?j] skip_show[OF assms(4)] c j by simp
    from tail_arg[of ?s2, OF _ c(2), of "cs @ rparen # r" ?pt a _ "Suc j" f] this skip_show[OF assms(4)] c
    have "parse_tail ?pt ?j f ?s2 = parse_tail ?pt (Suc j) (App f a) (st\<lparr>rest := rparen # r\<rparr>)" by simp
    also have "\<dots> = (Inr (App f a), st\<lparr>rest := r\<rparr>)" using tail_close[of "st\<lparr>rest := rparen # r\<rparr>" r] by simp
    finally show ?thesis .
  qed
  show "parse_term k st = (Inr (App f a), st\<lparr>rest := r\<rparr>)"
  proof (cases "\<exists>cs. show_tm f = lparen # cs")
    case True
    then obtain cs where c: "show_tm f = lparen # cs" by blast
    have "?pt ?s = (Inr f, ?s2)"
      using readsD[OF assms(1), of ?s "CHR '' '' # show_tm a @ rparen # r" ?j] skip_show[OF assms(2)] j by simp
    then show ?thesis using p t parse_form_open[of ?s _ ?pt ?j] c by (simp add: pbind_def)
  next
    case False
    have x: "name_ok (show_tm f) \<and> parse_atom (show_tm f) = f \<and> show_tm f \<notin> keywords_of_forms"
    proof (cases f)
      case (Var y)
      then show ?thesis using assms(2,5) by (simp add: parse_atom_def no_form_def)
    next
      case (Num y)
      have "\<not> list_all is_digit y" if "y \<in> keywords_of_forms"
        using that by (auto simp: keywords_of_forms_def is_digit_def bslash_def)
      then show ?thesis using Num assms(2) name_num[of y] by (auto simp: parse_atom_def isnum_def)
    next
      case (Flt y)
      have "\<not> isfloat y" if "y \<in> keywords_of_forms"
        using that by (auto simp: keywords_of_forms_def isfloat_def is_digit_def bslash_def)
      then show ?thesis using Flt assms(2) name_float[of y] float_not_num[of y] by (auto simp: parse_atom_def)
    qed (use False assms(2) in auto)
    have "parse_form ?pt ?j ?s = parse_keyword ?pt ?j (show_tm f) ?s2"
      using parse_form_keyword[of ?s "show_tm f" "CHR '' '' # show_tm a @ rparen # r"] x skip_name by simp
    then show ?thesis using p t keyword_none x by simp
  qed
qed

lemma reads_name_form:
  assumes "name_ok kw" "\<And>pt k. parse_keyword pt k kw = form_name con" "name_ok x"
    "show_tm (con x) = lparen # kw @ CHR '' '' # x @ [rparen]"
  shows "reads (con x)"
  unfolding reads_def
proof (intro allI impI)
  fix st :: pst and r k assume a: "skip_text (rest st) = show_tm (con x) @ r" "length (show_tm (con x)) < k"
  then obtain j where k: "k = Suc j" by (cases k) auto
  have "parse_term k st = form_name con (st\<lparr>rest := CHR '' '' # x @ rparen # r\<rparr>)"
    using parse_special[of st kw _ j] a assms k by simp
  then show "parse_term k st = (Inr (con x), st\<lparr>rest := r\<rparr>)"
    using form_name_text[of "st\<lparr>rest := CHR '' '' # x @ rparen # r\<rparr>" x r con] assms(3) by (simp add: skip_name)
qed

lemma reads_printable: "printable t \<Longrightarrow> reads t"
proof (induction t)
  case (Var x)
  then show ?case by (intro reads_symbol[of _ x]) (auto simp: parse_atom_def)
next
  case (Num x)
  then show ?case by (intro reads_symbol[of _ x]) (auto simp: parse_atom_def name_num)
next
  case (Flt x)
  then show ?case by (intro reads_symbol[of _ x]) (auto simp: parse_atom_def name_float float_not_num)
next
  case (Namespace x)
  then show ?case by (intro reads_name_form[of "''namespace''"]) (simp_all add: keyword_ok keyword_form)
next
  case (Open_ns x)
  then show ?case by (intro reads_name_form[of "''open''"]) (simp_all add: keyword_ok keyword_form)
next
  case (Export x)
  then show ?case by (intro reads_name_form[of "''export''"]) (simp_all add: keyword_ok keyword_form)
qed (auto intro: reads_lam reads_let reads_def_form reads_app)

section \<open>Forms, one after the other\<close>

lemma parse_forms_end:
  assumes "skip_text (rest st) = []"
  shows "parse_forms st = ([], st\<lparr>rest := []\<rparr>)"
  using assms by (subst parse_forms.simps) (simp add: skipws_def at_end_def Let_def)

lemma parse_forms_term:
  assumes "skip_text (rest st) \<noteq> []" "parse_term (fuel (skipws st)) (skipws st) = (Inr t, st')"
  shows "parse_forms st = (Inr t # fst (parse_forms st'), snd (parse_forms st'))"
  using assms by (subst parse_forms.simps) (simp add: skipws_def at_end_def Let_def split: prod.splits)


lemma skip_idem: "skip_text (skip_text s) = skip_text s"
proof (cases "skip_text s")
  case (Cons c cs)
  then show ?thesis using skip_text_front[OF Cons] by (simp add: skip_front)
qed simp

text \<open>C28. The round trip of the parser: printed terms, one to a line, are read back as they were.\<close>

theorem parse_forms_reads_printed_terms:
  assumes "list_all printable ts"
  shows "parse_forms (st\<lparr>rest := concat (map (\<lambda>t. show_tm t @ [newline]) ts)\<rparr>) = (map Inr ts, st\<lparr>rest := []\<rparr>)"
  using assms
proof (induction ts)
  case Nil
  then show ?case using parse_forms_end[of "st\<lparr>rest := []\<rparr>"] by simp
next
  case (Cons t ts)
  let ?r = "concat (map (\<lambda>t. show_tm t @ [newline]) ts)"
  let ?s = "st\<lparr>rest := show_tm t @ newline # ?r\<rparr>"
  have t: "printable t" using Cons.prems by simp
  have k: "skip_text (rest ?s) = show_tm t @ newline # ?r" using skip_show[OF t] by simp
  have d: "delim (newline # ?r)" by (simp add: delim_def sym_char_def is_space_def newline_def)
  have w: "skipws ?s = ?s" using k by (simp add: skipws_def)
  have "parse_term (fuel ?s) ?s = (Inr t, st\<lparr>rest := newline # ?r\<rparr>)"
    using readsD[OF reads_printable[OF t] k d, of "fuel ?s"] by (simp add: fuel_def)
  then have "parse_forms ?s = (Inr t # fst (parse_forms (st\<lparr>rest := newline # ?r\<rparr>)), snd (parse_forms (st\<lparr>rest := newline # ?r\<rparr>)))"
    using parse_forms_term[of ?s t] w k show_front[OF t] by auto
  moreover have "parse_forms (st\<lparr>rest := newline # ?r\<rparr>) = parse_forms (st\<lparr>rest := ?r\<rparr>)"
  proof -
    have "skip_text (newline # ?r) = skip_text ?r"
      by (subst (1 2) skip_text.simps) (simp add: is_space_def newline_def)
    then show ?thesis by (subst (1 2) parse_forms.simps) (simp add: skipws_def)
  qed
  ultimately show ?case using Cons by simp
qed

definition blank_parser :: pst where
  "blank_parser = \<lparr>rest = [], noms = [], tvs = [], next_tv = 0, dt_params = [], dt_np = 0, dt_in = False\<rparr>"

theorem parse_forms_reads_printed_terms_witness:
  "parse_forms (blank_parser\<lparr>rest := concat (map (\<lambda>t. show_tm t @ [newline])
      [Def ''id'' (Lam ''x'' (Var ''x'')), App (Var ''id'') (Num ''42'')])\<rparr>) =
    ([Inr (Def ''id'' (Lam ''x'' (Var ''x''))), Inr (App (Var ''id'') (Num ''42''))], blank_parser\<lparr>rest := []\<rparr>)"
  using parse_forms_reads_printed_terms[of "[Def ''id'' (Lam ''x'' (Var ''x'')), App (Var ''id'') (Num ''42'')]" blank_parser]
  by (simp add: name_ok_def sym_char_def is_space_def chars isnum_def isfloat_def is_digit_def no_form_def
      keywords_of_forms_def del: show_tm.simps)

section \<open>Totality\<close>

text \<open>C29. The parser is total: with fuel for twice the bytes of the text, the term parser reports a message or
  consumes text, and never runs out.\<close>

theorem parse_term_total:
  "case parse_term (fuel st) st of
     (Inl e, st') \<Rightarrow> \<exists>m. e = Fail m
   | (Inr t, st') \<Rightarrow> length (rest st') < length (rest st)"
proof -
  have "good 1 (parse_term (fuel st)) st" by (rule good_parse_term) (simp add: fuel_def)
  moreover have "e \<noteq> No_fuel \<Longrightarrow> \<exists>m. e = Fail m" for e by (cases e) auto
  ultimately show ?thesis by (auto simp: good_def split: prod.splits sum.splits)
qed

section \<open>Recovery\<close>




definition start :: "string \<Rightarrow> pst" where
  "start s = \<lparr>rest = s, noms = [], tvs = [], next_tv = 0, dt_params = [], dt_np = 0, dt_in = False\<rparr>"


text \<open>A \<open>datatype\<close> form that fails inside its constructors leaves its parameter context behind: in a later
  annotation the name of a parameter of the failed form still denotes that parameter.\<close>

theorem failed_datatype_keeps_params:
  "fst (parse_forms (start ''(data (B a) (C (f a b))) (define! x a y)'')) =
     [Inl ''parse error: datatype: bad field type'', Inr (Defx ''x'' (Ty_param 0) (Var ''y''))] \<and>
   fst (parse_forms (start ''(define! x a y)'')) = [Inr (Defx ''x'' (Ty_var 0) (Var ''y''))]"
  by code_simp

end
