(* ===== verification/Defs.thy ===== *)
theory Defs
  imports Terms
begin

text \<open>
  The table of definitions and its namespaces (\<open>Def\<close> in \<open>src/lin.h\<close>; \<open>lookup_raw\<close>, \<open>def_find\<close>,
  \<open>set_namespace\<close>, \<open>open_namespace\<close> in \<open>src/main.c\<close>).
\<close>

text \<open>A type scheme: the quantified variables and the type.\<close>

type_synonym scheme = "nat list \<times> ty"

text \<open>
  A definition.  \<open>dsch\<close> is \<open>sch\<close> with the flag \<open>typed\<close>, \<open>dexp\<close> the cached expansion, and \<open>dcomp\<close> whether a
  reduced net is cached (\<open>compiled\<close>); \<open>dtried\<close> is \<open>comp_tried\<close>.
\<close>

record ddef =
  dname :: string
  dterm :: tm
  draw :: "tm option"
  dsch :: "scheme option"
  drec :: bool
  dexp :: "tm option"
  dcomp :: bool
  dtried :: bool

text \<open>\<open>curr_ns\<close>, and \<open>open_ns\<close> in the order they were opened.\<close>

record spaces =
  curr_ns :: string
  open_ns :: "string list"

definition dot :: char where "dot = CHR ''.''"

definition set_namespace :: "string \<Rightarrow> spaces \<Rightarrow> spaces" where
  "set_namespace nm sp = sp\<lparr>curr_ns := (if nm \<in> {[], ''_'', ''root''} then [] else nm)\<rparr>"

definition open_namespace :: "string \<Rightarrow> spaces \<Rightarrow> spaces" where
  "open_namespace nm sp =
     (if nm = [] \<or> nm \<in> set (open_ns sp) then sp else sp\<lparr>open_ns := open_ns sp @ [nm]\<rparr>)"

definition qual_name :: "string \<Rightarrow> string \<Rightarrow> string" where
  "qual_name ns nm = ns @ dot # nm"

text \<open>\<open>lookup_raw\<close>: the latest definition of that full name.\<close>

fun last_index :: "('a \<Rightarrow> bool) \<Rightarrow> 'a list \<Rightarrow> nat option" where
  "last_index p [] = None"
| "last_index p (x # xs) =
     (case last_index p xs of Some i \<Rightarrow> Some (Suc i) | None \<Rightarrow> if p x then Some 0 else None)"

definition lookup_raw :: "ddef list \<Rightarrow> string \<Rightarrow> nat option" where
  "lookup_raw ds s = last_index (\<lambda>d. dname d = s) ds"

text \<open>The first of the names that is defined.\<close>

fun first_known :: "ddef list \<Rightarrow> string list \<Rightarrow> nat option" where
  "first_known ds [] = None"
| "first_known ds (s # ss) = (case lookup_raw ds s of Some i \<Rightarrow> Some i | None \<Rightarrow> first_known ds ss)"

text \<open>
  \<open>def_find\<close>: a dotted name is looked up as it is; any other in the current namespace, in the opened
  ones from the latest on, and at the root.
\<close>

definition candidates :: "spaces \<Rightarrow> string \<Rightarrow> string list" where
  "candidates sp nm =
     (if curr_ns sp = [] then [] else [qual_name (curr_ns sp) nm]) @
     map (\<lambda>ns. qual_name ns nm) (rev (open_ns sp)) @ [nm]"

definition def_find :: "spaces \<Rightarrow> ddef list \<Rightarrow> string \<Rightarrow> nat option" where
  "def_find sp ds nm = (if dot \<in> set nm then lookup_raw ds nm else first_known ds (candidates sp nm))"

section \<open>Lookup\<close>

lemma last_index_None: "last_index p xs = None \<longleftrightarrow> (\<forall>x \<in> set xs. \<not> p x)"
  by (induction xs) (auto split: option.splits)

lemma last_index_Some:
  "last_index p xs = Some i \<longleftrightarrow> i < length xs \<and> p (xs ! i) \<and> (\<forall>j. i < j \<and> j < length xs \<longrightarrow> \<not> p (xs ! j))"
proof (induction xs arbitrary: i)
  case (Cons x xs)
  show ?case
  proof (cases "last_index p xs")
    case None
    have n: "\<forall>j < length xs. \<not> p (xs ! j)"
      using None by (auto simp: last_index_None)
    have "last_index p (x # xs) = Some i \<longleftrightarrow> p x \<and> i = 0" using None by auto
    also have "\<dots> \<longleftrightarrow> i < length (x # xs) \<and> p ((x # xs) ! i) \<and>
        (\<forall>j. i < j \<and> j < length (x # xs) \<longrightarrow> \<not> p ((x # xs) ! j))"
      using n by (auto simp: nth_Cons split: nat.splits)
    finally show ?thesis .
  next
    case (Some k)
    then have k: "k < length xs" "p (xs ! k)" "\<forall>j. k < j \<and> j < length xs \<longrightarrow> \<not> p (xs ! j)" using Cons.IH[of k] by auto
    have "last_index p (x # xs) = Some i \<longleftrightarrow> i = Suc k" using Some by auto
    also have "\<dots> \<longleftrightarrow> i < length (x # xs) \<and> p ((x # xs) ! i) \<and>
        (\<forall>j. i < j \<and> j < length (x # xs) \<longrightarrow> \<not> p ((x # xs) ! j))"
    proof (cases i)
      case 0
      then show ?thesis using k by auto
    next
      case (Suc m)
      have "p (xs ! m) \<and> m < length xs \<and> (\<forall>j. m < j \<and> j < length xs \<longrightarrow> \<not> p (xs ! j)) \<longleftrightarrow> m = k"
        using k by (metis nat_neq_iff)
      then show ?thesis using Suc by (auto simp: nth_Cons split: nat.splits) 
    qed
    finally show ?thesis .
  qed
qed simp

lemma lookup_raw_Some:
  "lookup_raw ds s = Some i \<longleftrightarrow>
     i < length ds \<and> dname (ds ! i) = s \<and> (\<forall>j. i < j \<and> j < length ds \<longrightarrow> dname (ds ! j) \<noteq> s)"
  by (simp add: lookup_raw_def last_index_Some)

lemma first_known_bound: "first_known ds ss = Some i \<Longrightarrow> i < length ds"
  by (induction ss) (auto simp: lookup_raw_Some split: option.splits)

lemma def_find_bound: "def_find sp ds nm = Some i \<Longrightarrow> i < length ds"
  using first_known_bound by (auto simp: def_find_def lookup_raw_Some split: if_splits)

text \<open>A change of the definitions that leaves their names alone changes no lookup.\<close>

lemma lookup_raw_names: "map dname ds = map dname ds' \<Longrightarrow> lookup_raw ds s = lookup_raw ds' s"
proof -
  have "last_index (\<lambda>d. dname d = s) ds = last_index (\<lambda>x. x = s) (map dname ds)" for ds
    by (induction ds) (auto split: option.splits)
  note n = this
  show "map dname ds = map dname ds' \<Longrightarrow> lookup_raw ds s = lookup_raw ds' s"
    unfolding lookup_raw_def n[of ds] n[of ds'] by simp
qed

lemma def_find_names: "map dname ds = map dname ds' \<Longrightarrow> def_find sp ds nm = def_find sp ds' nm"
proof -
  assume a: "map dname ds = map dname ds'"
  have "first_known ds ss = first_known ds' ss" for ss
    by (induction ss) (auto simp: lookup_raw_names[OF a] split: option.splits)
  then show ?thesis by (simp add: def_find_def lookup_raw_names[OF a])
qed

end
