(* ===== verification/Types.thy ===== *)
theory Types
  imports ErrState Defs
begin

text \<open>
  The type checker (\<open>src/type.c\<close>).  A type variable is a heap cell of kind \<open>TVR\<close> that unification turns
  into a \<open>TLINK\<close>; as every such cell has an identifier of its own, the heap is the map \<open>links\<close> from
  identifiers to the types they were linked to, and a type is a tree over identifiers.  Links can
  become cyclic (see below), so the walks take fuel.
\<close>

type_synonym links = "nat \<Rightarrow> ty option"

datatype terr = Mismatch | Infinite | Unbound string | Bad_term | Fuel_out

section \<open>Walks over types\<close>

text \<open>\<open>find\<close>: the end of a chain of links.\<close>

fun find_ty :: "nat \<Rightarrow> links \<Rightarrow> ty \<Rightarrow> ty option" where
  "find_ty 0 l t = None"
| "find_ty (Suc k) l t =
     (case t of Ty_var v \<Rightarrow> (case l v of Some u \<Rightarrow> find_ty k l u | None \<Rightarrow> Some t) | _ \<Rightarrow> Some t)"

text \<open>Does one of the results hold, from left to right, up to the first that does?\<close>

definition or_else :: "bool option \<Rightarrow> bool option \<Rightarrow> bool option" where
  "or_else a b = (case a of None \<Rightarrow> None | Some True \<Rightarrow> Some True | Some False \<Rightarrow> b)"

fun occurs :: "nat \<Rightarrow> links \<Rightarrow> nat \<Rightarrow> ty \<Rightarrow> bool option" and
  occurs_args :: "nat \<Rightarrow> links \<Rightarrow> nat \<Rightarrow> ty list \<Rightarrow> bool option" where
  "occurs 0 l v t = None"
| "occurs (Suc k) l v t =
     (case find_ty k l t of
        None \<Rightarrow> None
      | Some (Ty_var w) \<Rightarrow> Some (w = v)
      | Some (Ty_arrow a b) \<Rightarrow> or_else (occurs k l v a) (occurs k l v b)
      | Some (Ty_nom s ts) \<Rightarrow> occurs_args k l v ts
      | Some (Ty_param i) \<Rightarrow> Some False)"
| "occurs_args 0 l v ts = None"
| "occurs_args (Suc k) l v ts =
     (case ts of [] \<Rightarrow> Some False | t # ts \<Rightarrow> or_else (occurs k l v t) (occurs_args k l v ts))"

text \<open>\<open>fv\<close>: the unlinked variables, each once, in the order they are met, after those already listed.\<close>

fun fv :: "nat \<Rightarrow> links \<Rightarrow> ty \<Rightarrow> nat list \<Rightarrow> nat list option" and
  fv_args :: "nat \<Rightarrow> links \<Rightarrow> ty list \<Rightarrow> nat list \<Rightarrow> nat list option" where
  "fv 0 l t f = None"
| "fv (Suc k) l t f =
     (case find_ty k l t of
        None \<Rightarrow> None
      | Some (Ty_var v) \<Rightarrow> Some (if v \<in> set f then f else f @ [v])
      | Some (Ty_arrow a b) \<Rightarrow> (case fv k l a f of None \<Rightarrow> None | Some f' \<Rightarrow> fv k l b f')
      | Some (Ty_nom s ts) \<Rightarrow> fv_args k l ts f
      | Some (Ty_param i) \<Rightarrow> Some f)"
| "fv_args 0 l ts f = None"
| "fv_args (Suc k) l ts f =
     (case ts of [] \<Rightarrow> Some f | t # ts \<Rightarrow> (case fv k l t f of None \<Rightarrow> None | Some f' \<Rightarrow> fv_args k l ts f'))"

text \<open>\<open>inst_rec\<close>: the type with its links followed and the variables of \<open>m\<close> replaced.\<close>

fun inst_rec :: "nat \<Rightarrow> links \<Rightarrow> links \<Rightarrow> ty \<Rightarrow> ty option" and
  inst_args :: "nat \<Rightarrow> links \<Rightarrow> links \<Rightarrow> ty list \<Rightarrow> ty list option" where
  "inst_rec 0 l m t = None"
| "inst_rec (Suc k) l m t =
     (case find_ty k l t of
        None \<Rightarrow> None
      | Some (Ty_var v) \<Rightarrow> Some (case m v of Some u \<Rightarrow> u | None \<Rightarrow> Ty_var v)
      | Some (Ty_arrow a b) \<Rightarrow>
          (case (inst_rec k l m a, inst_rec k l m b) of (Some a', Some b') \<Rightarrow> Some (Ty_arrow a' b') | _ \<Rightarrow> None)
      | Some (Ty_nom s ts) \<Rightarrow> map_option (Ty_nom s) (inst_args k l m ts)
      | Some (Ty_param i) \<Rightarrow> Some (Ty_param i))"
| "inst_args 0 l m ts = None"
| "inst_args (Suc k) l m ts =
     (case ts of
        [] \<Rightarrow> Some []
      | t # ts \<Rightarrow> (case (inst_rec k l m t, inst_args k l m ts) of (Some t', Some ts') \<Rightarrow> Some (t' # ts') | _ \<Rightarrow> None))"

section \<open>Unification\<close>

definition link :: "nat \<Rightarrow> ty \<Rightarrow> (links, terr, unit) comp" where
  "link v t = pmodify (\<lambda>l. l(v \<mapsto> t))"

text \<open>A variable against a type that is no nominal: only here is the occurs check made.\<close>

definition link_checked :: "nat \<Rightarrow> nat \<Rightarrow> ty \<Rightarrow> (links, terr, unit) comp" where
  "link_checked k v t l =
     (case occurs k l v t of
        None \<Rightarrow> pthrow Fuel_out l
      | Some True \<Rightarrow> pthrow Infinite l
      | Some False \<Rightarrow> link v t l)"

text \<open>A nominal against an arrow: accepted (a datatype is applied as its own dispatch) unless it is a container.\<close>

definition dispatches :: "string \<Rightarrow> bool" where
  "dispatches s \<longleftrightarrow> s \<noteq> ''list'' \<and> s \<noteq> ''string''"

fun unify :: "nat \<Rightarrow> ty \<Rightarrow> ty \<Rightarrow> (links, terr, unit) comp" and
  unify_args :: "nat \<Rightarrow> ty list \<Rightarrow> ty list \<Rightarrow> (links, terr, unit) comp" where
  "unify 0 x y l = pthrow Fuel_out l"
| "unify (Suc k) x y l =
     (case (find_ty k l x, find_ty k l y) of
        (Some x', Some y') \<Rightarrow>
          (case (x', y') of
             (Ty_arrow a b, Ty_arrow c d) \<Rightarrow> pbind (unify k a c) (\<lambda>_. unify k b d) l
           | (Ty_nom s ts, Ty_nom s' ts') \<Rightarrow> if s = s' then unify_args k ts ts' l else pthrow Mismatch l
           | (Ty_var v, Ty_var w) \<Rightarrow> if v = w then pret () l else link_checked k v y' l
           | (Ty_var v, Ty_nom s ts) \<Rightarrow> link v y' l
           | (Ty_nom s ts, Ty_var v) \<Rightarrow> link v x' l
           | (Ty_nom s ts, Ty_arrow c d) \<Rightarrow> if dispatches s then pret () l else pthrow Mismatch l
           | (Ty_arrow a b, Ty_nom s ts) \<Rightarrow> if dispatches s then pret () l else pthrow Mismatch l
           | (Ty_var v, _) \<Rightarrow> link_checked k v y' l
           | (_, Ty_var v) \<Rightarrow> link_checked k v x' l
           | _ \<Rightarrow> pthrow Mismatch l)
      | _ \<Rightarrow> pthrow Fuel_out l)"
| "unify_args 0 ts us l = pthrow Fuel_out l"
| "unify_args (Suc k) ts us l =
     (case (ts, us) of
        (t # ts, u # us) \<Rightarrow> pbind (unify k t u) (\<lambda>_. unify_args k ts us) l
      | _ \<Rightarrow> pret () l)"

section \<open>The checker's state\<close>

text \<open>
  \<open>tenv\<close> is the stack \<open>env\<close> of the binders in scope, its top first; \<open>envrc\<close> counts, per variable, the
  schemes of definitions it is free in, and \<open>reg_n\<close> the definitions counted so far.  \<open>reports\<close> is the
  output of the checks made on demand.
\<close>

record tst =
  links :: links
  next_id :: nat
  tenv :: "(string \<times> scheme) list"
  defs :: "ddef list"
  spaces :: spaces
  envrc :: "nat \<Rightarrow> nat"
  reg_n :: nat
  reports :: "terr list"

type_synonym 'a tc = "(tst, terr, 'a) comp"

definition tvar :: "ty tc" where
  "tvar st = (Inr (Ty_var (next_id st)), st\<lparr>next_id := next_id st + 1\<rparr>)"

definition env_push :: "string \<Rightarrow> scheme \<Rightarrow> unit tc" where
  "env_push x s = pmodify (\<lambda>st. st\<lparr>tenv := (x, s) # tenv st\<rparr>)"

definition env_pop :: "unit tc" where
  "env_pop = pmodify (\<lambda>st. st\<lparr>tenv := tl (tenv st)\<rparr>)"

definition unify_st :: "nat \<Rightarrow> ty \<Rightarrow> ty \<Rightarrow> unit tc" where
  "unify_st k x y st = (case unify k x y (links st) of (r, l) \<Rightarrow> (r, st\<lparr>links := l\<rparr>))"

definition fresh_map :: "nat list \<Rightarrow> nat \<Rightarrow> links" where
  "fresh_map q n = map_of (zip q (map Ty_var [n ..< n + length q]))"

definition instantiate :: "nat \<Rightarrow> scheme \<Rightarrow> ty tc" where
  "instantiate k s st =
     (case s of (q, t) \<Rightarrow>
        let st' = st\<lparr>next_id := next_id st + length q\<rparr>
        in case inst_rec k (links st) (fresh_map q (next_id st)) t of
             None \<Rightarrow> (Inl Fuel_out, st') | Some u \<Rightarrow> (Inr u, st'))"

text \<open>The free variables of the binders: one whose variable is still bare needs no walk.\<close>

fun env_vars :: "nat \<Rightarrow> links \<Rightarrow> (string \<times> scheme) list \<Rightarrow> nat list \<Rightarrow> nat list option" where
  "env_vars k l [] f = Some f"
| "env_vars k l ((x, q, t) # es) f =
     (case find_ty k l t of
        None \<Rightarrow> None
      | Some (Ty_var v) \<Rightarrow> env_vars k l es (f @ [v])
      | Some _ \<Rightarrow> (case fv k l t f of None \<Rightarrow> None | Some f' \<Rightarrow> env_vars k l es f'))"

definition generalize :: "nat \<Rightarrow> ty \<Rightarrow> scheme tc" where
  "generalize k t st =
     (case (fv k (links st) t [], env_vars k (links st) (rev (tenv st)) []) of
        (Some f, Some dyn) \<Rightarrow> (Inr (filter (\<lambda>v. envrc st v = 0 \<and> v \<notin> set dyn) f, t), st)
      | _ \<Rightarrow> (Inl Fuel_out, st))"

text \<open>\<open>scheme_all\<close>: the scheme of an annotation.\<close>

definition scheme_all :: "nat \<Rightarrow> links \<Rightarrow> ty \<Rightarrow> scheme option" where
  "scheme_all k l t = map_option (\<lambda>f. (f, t)) (fv k l t [])"

definition count_free :: "nat \<Rightarrow> scheme \<Rightarrow> tst \<Rightarrow> tst" where
  "count_free k s st =
     (case fv k (links st) (snd s) [] of
        None \<Rightarrow> st
      | Some f \<Rightarrow> st\<lparr>envrc := (\<lambda>v. envrc st v + (if v \<in> set f then 1 else 0))\<rparr>)"

text \<open>\<open>env_load_defs\<close>: counts the typed definitions made since the last check.\<close>

definition env_load_defs :: "nat \<Rightarrow> bool \<Rightarrow> unit tc" where
  "env_load_defs k outer = pmodify (\<lambda>st.
     let st' = fold (\<lambda>d st. case dsch d of Some s \<Rightarrow> count_free k s st | None \<Rightarrow> st) (drop (reg_n st) (defs st)) st;
         st' = st'\<lparr>reg_n := length (defs st)\<rparr>
     in if outer then st'\<lparr>tenv := []\<rparr> else st')"

section \<open>Inference\<close>

text \<open>The name after the last dot.\<close>

definition base_name :: "string \<Rightarrow> string" where
  "base_name s = rev (takeWhile (\<lambda>c. c \<noteq> dot) (rev s))"

definition set_scheme :: "nat \<Rightarrow> nat \<Rightarrow> scheme \<Rightarrow> tst \<Rightarrow> tst" where
  "set_scheme k i s st = count_free k s (st\<lparr>defs := (defs st)[i := (defs st ! i)\<lparr>dsch := Some s\<rparr>]\<rparr>)"

text \<open>A computation with one more binder on the stack.\<close>

definition bind_in :: "string \<Rightarrow> scheme \<Rightarrow> 'a tc \<Rightarrow> 'a tc" where
  "bind_in x s p = pbind (env_push x s) (\<lambda>_. pbind p (\<lambda>v. pbind env_pop (\<lambda>_. pret v)))"

definition head_lam :: "tm \<Rightarrow> (string \<times> tm) option" where
  "head_lam f = (case f of Lam x b \<Rightarrow> Some (x, b) | _ \<Rightarrow> None)"

fun infer :: "nat \<Rightarrow> tm \<Rightarrow> ty tc" and env_find :: "nat \<Rightarrow> string \<Rightarrow> scheme option tc"
  and check_body :: "nat \<Rightarrow> string option \<Rightarrow> tm \<Rightarrow> scheme tc" where
  "infer 0 t st = pthrow Fuel_out st"
| "infer (Suc k) (Var x) st =
     pbind (env_find k x) (\<lambda>s. case s of None \<Rightarrow> pthrow (Unbound x) | Some s \<Rightarrow> instantiate k s) st"
| "infer (Suc k) (Lam x b) st =
     pbind tvar (\<lambda>a. pbind (bind_in x ([], a) (infer k b)) (\<lambda>t. pret (Ty_arrow a t))) st"
| "infer (Suc k) (App f a) st =
     (case head_lam f of
        Some (x, b) \<Rightarrow>
          pbind (infer k a) (\<lambda>ta. pbind (generalize k ta) (\<lambda>s. bind_in x s (infer k b))) st
      | None \<Rightarrow>
          pbind (infer k f) (\<lambda>tf. pbind (infer k a) (\<lambda>ta. pbind tvar (\<lambda>r.
          pbind (unify_st k tf (Ty_arrow ta r)) (\<lambda>_. pret r)))) st)"
| "infer (Suc k) (Let x v b) st =
     pbind (env_find k x) (\<lambda>s.
       case s of
         Some _ \<Rightarrow>
           pbind (infer k v) (\<lambda>tv. pbind (generalize k tv) (\<lambda>s. bind_in x s (infer k b)))
       | None \<Rightarrow>
           pbind tvar (\<lambda>a. pbind (bind_in x ([], a) (pbind (infer k v) (unify_st k a))) (\<lambda>_.
           pbind (generalize k a) (\<lambda>s. bind_in x s (infer k b))))) st"
| "infer (Suc k) (Defx x ty v) st = infer k v st"
| "infer (Suc k) (Flt s) st = tvar st"
| "infer (Suc k) (Num s) st = tvar st"
| "infer (Suc k) _ st = pthrow Bad_term st"
| "env_find 0 x st = pthrow Fuel_out st"
| "env_find (Suc k) x st =
     (case map_of (tenv st) x of
        Some s \<Rightarrow> pret (Some s) st
      | None \<Rightarrow>
          (case def_find (spaces st) (defs st) x of
             None \<Rightarrow> pret None st
           | Some i \<Rightarrow>
               (case dsch (defs st ! i) of
                  Some s \<Rightarrow> pret (Some s) st
                | None \<Rightarrow>
                    (let d = defs st ! i;
                         nm = (if drec d then Some (base_name (dname d)) else None);
                         b = (case draw d of Some b \<Rightarrow> b | None \<Rightarrow> dterm d)
                     in case check_body k nm b st of
                          (Inr s, st') \<Rightarrow> pret (Some s) (set_scheme k i s (st'\<lparr>tenv := tenv st\<rparr>))
                        | (Inl Fuel_out, st') \<Rightarrow> pthrow Fuel_out st'
                        | (Inl e, st') \<Rightarrow> pret None (st'\<lparr>tenv := tenv st, reports := reports st' @ [e]\<rparr>)))))"
| "check_body 0 nm b st = pthrow Fuel_out st"
| "check_body (Suc k) nm b st =
     pbind (env_load_defs k False) (\<lambda>_.
       case nm of
         None \<Rightarrow> pbind (infer k b) (generalize k)
       | Some x \<Rightarrow>
           pbind tvar (\<lambda>a. pbind (bind_in x ([], a) (pbind (infer k b) (unify_st k a))) (\<lambda>_. generalize k a))) st"

text \<open>\<open>type_check\<close> of a form: the outermost check, which first clears the stack of binders.\<close>

definition type_check :: "nat \<Rightarrow> tm \<Rightarrow> scheme tc" where
  "type_check k t = pbind (env_load_defs k True) (\<lambda>_. pbind (infer k t) (generalize k))"

end
