(* ===== verification/TypesProps.thy ===== *)
theory TypesProps
  imports Types
begin

text \<open>
  What the type checker (\<open>src/type.c\<close>) guarantees: unification makes its arguments agree, generalisation
  quantifies exactly the variables that are free nowhere else, and every inference that succeeds is
  backed by a typing derivation.
\<close>

section \<open>Links only grow\<close>

definition extends :: "links \<Rightarrow> links \<Rightarrow> bool" where
  "extends l l' \<longleftrightarrow> (\<forall>v t. l v = Some t \<longrightarrow> l' v = Some t)"

lemma extends_refl [simp]: "extends l l"
  by (simp add: extends_def)

lemma extends_trans: "extends l l' \<Longrightarrow> extends l' l'' \<Longrightarrow> extends l l''"
  by (simp add: extends_def)

lemma extends_link: "l v = None \<Longrightarrow> extends l (l(v \<mapsto> t))"
  by (auto simp: extends_def)

lemma find_unlinked: "find_ty k l t = Some (Ty_var v) \<Longrightarrow> l v = None"
  by (induction k l t rule: find_ty.induct) (auto split: ty.splits option.splits)

section \<open>Free variables\<close>

text \<open>\<open>w\<close> is reached from a type over the links and is itself unlinked.\<close>

inductive reach :: "links \<Rightarrow> ty \<Rightarrow> nat \<Rightarrow> bool" for l where
  reach_var: "l v = None \<Longrightarrow> reach l (Ty_var v) v"
| reach_link: "l v = Some t \<Longrightarrow> reach l t w \<Longrightarrow> reach l (Ty_var v) w"
| reach_left: "reach l a w \<Longrightarrow> reach l (Ty_arrow a b) w"
| reach_right: "reach l b w \<Longrightarrow> reach l (Ty_arrow a b) w"
| reach_arg: "t \<in> set ts \<Longrightarrow> reach l t w \<Longrightarrow> reach l (Ty_nom s ts) w"

inductive_simps reach_simps:
  "reach l (Ty_var v) w" "reach l (Ty_arrow a b) w" "reach l (Ty_nom s ts) w" "reach l (Ty_param i) w"

lemma reach_find: "find_ty k l t = Some u \<Longrightarrow> reach l t w \<longleftrightarrow> reach l u w"
proof (induction k l t rule: find_ty.induct)
  case (2 k l t)
  show ?case
  proof (cases "\<exists>v t'. t = Ty_var v \<and> l v = Some t'")
    case True
    then obtain v t' where v: "t = Ty_var v" "l v = Some t'" by blast
    then show ?thesis using 2 by (simp add: reach_simps(1))
  next
    case False
    then show ?thesis using 2(2) by (auto split: ty.splits option.splits)
  qed
qed simp

lemma fv_reach:
  "fv k l t f = Some f' \<Longrightarrow> set f' = set f \<union> {w. reach l t w}"
  "fv_args k l ts f = Some f' \<Longrightarrow> set f' = set f \<union> {w. \<exists>t \<in> set ts. reach l t w}"
proof (induction k l t f and k l ts f arbitrary: f' and f' rule: fv_fv_args.induct)
  case (2 k l t f)
  then obtain u where u: "find_ty k l t = Some u" by (auto split: option.splits)
  show ?case
  proof (cases u)
    case (Ty_var v)
    then have "l v = None" using u find_unlinked by simp
    moreover have "f' = (if v \<in> set f then f else f @ [v])" using 2(4) u Ty_var by simp
    ultimately show ?thesis using Ty_var by (auto simp: reach_find[OF u] reach_simps)
  next
    case (Ty_arrow a b)
    then obtain f1 where f1: "fv k l a f = Some f1" "fv k l b f1 = Some f'" using 2(4) u by (auto split: option.splits)
    then show ?thesis using 2(1)[OF u] 2(2)[OF u] Ty_arrow by (auto simp: reach_find[OF u] reach_simps)
  next
    case (Ty_nom s ts)
    then show ?thesis using 2(3)[OF u] 2(4) u by (auto simp: reach_find[OF u] reach_simps)
  next
    case (Ty_param i)
    then show ?thesis using 2(4) u by (auto simp: reach_find[OF u] reach_simps)
  qed
next
  case (4 k l ts f)
  then show ?case by (fastforce split: list.splits option.splits)
qed simp_all

lemma env_vars_reach:
  "env_vars k l es f = Some f' \<Longrightarrow> set f' = set f \<union> {w. \<exists>(x, q, t) \<in> set es. reach l t w}"
proof (induction k l es f rule: env_vars.induct)
  case (2 k l x q t es f)
  obtain u where u: "find_ty k l t = Some u" using 2(5) by (cases "find_ty k l t") simp_all
  show ?case
  proof (cases "\<exists>v. u = Ty_var v")
    case True
    then obtain v where v: "u = Ty_var v" by blast
    then have "l v = None" using u find_unlinked by simp
    moreover have "env_vars k l es (f @ [v]) = Some f'" using 2(5) u v by simp
    ultimately show ?thesis using 2(1)[OF u v] by (auto simp: reach_find[OF u] v reach_simps)
  next
    case False
    then have "(case fv k l t f of None \<Rightarrow> None | Some f' \<Rightarrow> env_vars k l es f') = Some f'"
      using 2(5) u by (cases u) simp_all
    then obtain f1 where f1: "fv k l t f = Some f1" "env_vars k l es f1 = Some f'" by (cases "fv k l t f") simp_all
    have "set f' = set f1 \<union> {w. \<exists>(x, q, t) \<in> set es. reach l t w}"
    proof (cases u)
      case (Ty_arrow a b)
      show ?thesis by (rule 2(2)[OF u Ty_arrow f1(1,2)])
    next
      case (Ty_nom s ts)
      show ?thesis by (rule 2(3)[OF u Ty_nom f1(1,2)])
    next
      case (Ty_param i)
      show ?thesis by (rule 2(4)[OF u Ty_param f1(1,2)])
    qed (use False in simp)
    then show ?thesis using fv_reach(1)[OF f1(1)] by auto
  qed
qed simp

section \<open>Agreement\<close>

text \<open>
  Two types agree under the links: they are the same type once links are followed, up to the one
  equation the checker grants, a nominal that dispatches against an arrow; the arguments of a nominal
  are compared as far as both go.
\<close>

inductive agree :: "links \<Rightarrow> ty \<Rightarrow> ty \<Rightarrow> bool" for l where
  agree_refl: "agree l t t"
| agree_left: "l v = Some t \<Longrightarrow> agree l t u \<Longrightarrow> agree l (Ty_var v) u"
| agree_right: "l v = Some t \<Longrightarrow> agree l u t \<Longrightarrow> agree l u (Ty_var v)"
| agree_arrow: "agree l a c \<Longrightarrow> agree l b d \<Longrightarrow> agree l (Ty_arrow a b) (Ty_arrow c d)"
| agree_nom: "(\<And>i. i < length ts \<Longrightarrow> i < length us \<Longrightarrow> agree l (ts ! i) (us ! i)) \<Longrightarrow> agree l (Ty_nom s ts) (Ty_nom s us)"
| agree_dispatch: "dispatches s \<Longrightarrow> agree l (Ty_nom s ts) (Ty_arrow c d)"
| agree_dispatch': "dispatches s \<Longrightarrow> agree l (Ty_arrow c d) (Ty_nom s ts)"

lemma agree_extends: "agree l t u \<Longrightarrow> extends l l' \<Longrightarrow> agree l' t u"
proof (induction rule: agree.induct)
  case (agree_left v t u)
  then show ?case by (intro agree.agree_left[of l' v t]) (auto simp: extends_def)
next
  case (agree_right v t u)
  then show ?case by (intro agree.agree_right[of l' v t]) (auto simp: extends_def)
qed (auto intro: agree.intros)

lemma agree_find_left: "find_ty k l t = Some t' \<Longrightarrow> extends l l' \<Longrightarrow> agree l' t' u \<Longrightarrow> agree l' t u"
proof (induction k l t rule: find_ty.induct)
  case (2 k l t)
  show ?case
  proof (cases "\<exists>v u'. t = Ty_var v \<and> l v = Some u'")
    case True
    then obtain v u' where v: "t = Ty_var v" "l v = Some u'" by blast
    then have "agree l' u' u" using 2 by simp
    moreover have "l' v = Some u'" using v 2(3) by (simp add: extends_def)
    ultimately show ?thesis unfolding v(1) by (rule agree_left[rotated])
  next
    case False
    then have "t' = t" using 2(2) by (auto split: ty.splits option.splits)
    then show ?thesis using 2(4) by simp
  qed
qed simp

lemma agree_find_right: "find_ty k l t = Some t' \<Longrightarrow> extends l l' \<Longrightarrow> agree l' u t' \<Longrightarrow> agree l' u t"
proof (induction k l t rule: find_ty.induct)
  case (2 k l t)
  show ?case
  proof (cases "\<exists>v u'. t = Ty_var v \<and> l v = Some u'")
    case True
    then obtain v u' where v: "t = Ty_var v" "l v = Some u'" by blast
    then have "agree l' u u'" using 2 by simp
    moreover have "l' v = Some u'" using v 2(3) by (simp add: extends_def)
    ultimately show ?thesis unfolding v(1) by (rule agree_right[rotated])
  next
    case False
    then have "t' = t" using 2(2) by (auto split: ty.splits option.splits)
    then show ?thesis using 2(4) by simp
  qed
qed simp

section \<open>Unification\<close>

lemma link_checked_ok:
  "link_checked k v t l = (Inr (), l') \<Longrightarrow> l' = l(v \<mapsto> t) \<and> occurs k l v t = Some False"
  by (auto simp: link_checked_def link_def split: option.splits bool.splits)

text \<open>The outcome of one comparison of two found types.\<close>

definition unifies :: "links \<Rightarrow> links \<Rightarrow> ty \<Rightarrow> ty \<Rightarrow> bool" where
  "unifies l l' x y \<longleftrightarrow> extends l l' \<and> agree l' x y"

lemma unifies_link:
  assumes "l v = None"
  shows "unifies l (l(v \<mapsto> t)) (Ty_var v) t" "unifies l (l(v \<mapsto> t)) t (Ty_var v)"
proof -
  have "agree (l(v \<mapsto> t)) (Ty_var v) t" by (rule agree_left[of _ v t]) (auto intro: agree_refl)
  moreover have "agree (l(v \<mapsto> t)) t (Ty_var v)" by (rule agree_right[of _ v t]) (auto intro: agree_refl)
  ultimately show "unifies l (l(v \<mapsto> t)) (Ty_var v) t" "unifies l (l(v \<mapsto> t)) t (Ty_var v)"
    using extends_link[of l v t] assms by (auto simp: unifies_def)
qed

lemma unify_ok:
  "(unify k x y l = (Inr (), l') \<longrightarrow> unifies l l' x y) \<and>
   (unify_args k ts us l = (Inr (), l') \<longrightarrow>
     extends l l' \<and> (\<forall>i. i < length ts \<and> i < length us \<longrightarrow> agree l' (ts ! i) (us ! i)))"
proof (induction k arbitrary: x y ts us l l')
  case 0
  then show ?case by simp
next
  case (Suc k)
  have U: "unify k x y l = (Inr (), l') \<Longrightarrow> unifies l l' x y" for x y l l' using Suc by blast
  have A: "unify_args k ts us l = (Inr (), l') \<Longrightarrow>
     extends l l' \<and> (\<forall>i. i < length ts \<and> i < length us \<longrightarrow> agree l' (ts ! i) (us ! i))" for ts us l l'
    using Suc by blast
  have "unifies l l' x y" if u: "unify (Suc k) x y l = (Inr (), l')"
  proof -
    obtain x' y' where f: "find_ty k l x = Some x'" "find_ty k l y = Some y'"
      using u by (auto split: option.splits)
    have "unifies l l' x' y'"
    proof (cases x'; cases y')
      fix a b c d assume c: "x' = Ty_arrow a b" "y' = Ty_arrow c d"
      then obtain m where m: "unify k a c l = (Inr (), m)" "unify k b d m = (Inr (), l')"
        using u f by (auto simp: pbind_Inr)
      have "extends l m" "agree m a c" "extends m l'" "agree l' b d" using U[OF m(1)] U[OF m(2)] by (auto simp: unifies_def)
      then show ?thesis using c extends_trans agree_extends by (auto simp: unifies_def intro!: agree_arrow)
    next
      fix s ts s' ts' assume c: "x' = Ty_nom s ts" "y' = Ty_nom s' ts'"
      then have "s = s'" "unify_args k ts ts' l = (Inr (), l')" using u f by (auto split: if_splits)
      then show ?thesis using A[of ts ts' l l'] c by (auto simp: unifies_def intro: agree_nom)
    next
      fix v w assume c: "x' = Ty_var v" "y' = Ty_var w"
      show ?thesis
      proof (cases "v = w")
        case True
        then show ?thesis using u f c by (auto simp: unifies_def intro: agree_refl)
      next
        case False
        then show ?thesis using u f c link_checked_ok[of k v y' l l'] find_unlinked[of k l x v] unifies_link(1)[of l v] by simp
      qed
    qed (use u f find_unlinked[of k l] unifies_link[of l] in
        \<open>auto simp: link_def pmodify_def unifies_def pret_def pthrow_def dest!: link_checked_ok intro: agree.intros split: if_splits\<close>)
    then show ?thesis using agree_find_left[OF f(1)] agree_find_right[OF f(2)] by (auto simp: unifies_def)
  qed
  moreover have "extends l l' \<and> (\<forall>i. i < length ts \<and> i < length us \<longrightarrow> agree l' (ts ! i) (us ! i))"
    if u: "unify_args (Suc k) ts us l = (Inr (), l')"
  proof (cases ts)
    case Nil
    then show ?thesis using u by simp
  next
    case ts: (Cons t ts')
    show ?thesis
    proof (cases us)
      case Nil
      then show ?thesis using u ts by simp
    next
      case us: (Cons w us')
      obtain m where m: "unify k t w l = (Inr (), m)" "unify_args k ts' us' m = (Inr (), l')"
        using u ts us by (auto simp: pbind_Inr)
      have e: "extends l m" "agree m t w" using U[OF m(1)] by (auto simp: unifies_def)
      have "agree l' ((t # ts') ! i) ((w # us') ! i)" if "i < length (t # ts')" "i < length (w # us')" for i
        using that A[OF m(2)] agree_extends[OF e(2)] by (cases i) auto
      then show ?thesis using e A[OF m(2)] extends_trans ts us by blast
    qed
  qed
  ultimately show ?case by blast
qed

lemmas unify_unifies = conjunct1[OF unify_ok, rule_format]

text \<open>A failed unification leaves links behind, but no link is ever changed.\<close>

lemma link_checked_extends: "l v = None \<Longrightarrow> extends l (snd (link_checked k v t l))"
  using extends_link[of l v t] by (auto simp: link_checked_def link_def pmodify_def pthrow_def split: option.splits bool.splits)

lemma extends_pbind:
  assumes "extends l (snd (p l))" "\<And>v m. extends m (snd (f v m))"
  shows "extends l (snd (pbind p f l))"
proof (cases "p l")
  case (Pair r m)
  show ?thesis
  proof (cases r)
    case (Inl e)
    then show ?thesis using assms(1) Pair by (simp add: pbind_def)
  next
    case (Inr v)
    then show ?thesis using assms(1) assms(2)[of m v] Pair extends_trans by (auto simp: pbind_def)
  qed
qed

lemma unify_extends: "extends l (snd (unify k x y l)) \<and> extends l (snd (unify_args k ts us l))"
proof (induction k arbitrary: x y ts us l)
  case 0
  then show ?case by (simp add: pthrow_def)
next
  case (Suc k)
  have U: "extends l (snd (unify k x y l))" for x y l using Suc by blast
  have A: "extends l (snd (unify_args k ts us l))" for ts us l using Suc by blast
  have P: "extends l (snd (pbind (unify k a c) (\<lambda>_. unify k b d) l))" for a b c d l
    by (rule extends_pbind) (rule U)+
  have Q: "extends l (snd (pbind (unify k a c) (\<lambda>_. unify_args k b d) l))" for a b c d l
    by (rule extends_pbind) (rule U A)+
  have "extends l (snd (unify (Suc k) x y l))"
  proof (cases "find_ty k l x")
    case None
    then show ?thesis by (simp add: pthrow_def)
  next
    case fx: (Some x')
    show ?thesis
    proof (cases "find_ty k l y")
      case None
      then show ?thesis using fx by (simp add: pthrow_def)
    next
      case fy: (Some y')
      show ?thesis
        by (cases x'; cases y')
          (use fx fy A find_unlinked[of k l x] find_unlinked[of k l y] P
             link_checked_extends[of l] extends_link[of l] in
             \<open>auto simp: pthrow_def pret_def link_def pmodify_def\<close>)
    qed
  qed
  moreover have "extends l (snd (unify_args (Suc k) ts us l))"
    using Q by (auto simp: pret_def split: list.splits)
  ultimately show ?case by blast
qed

section \<open>States only grow\<close>

definition st_ext :: "tst \<Rightarrow> tst \<Rightarrow> bool" where
  "st_ext st st' \<longleftrightarrow> extends (links st) (links st') \<and> spaces st' = spaces st \<and>
     map dname (defs st') = map dname (defs st)"

lemma st_ext_refl [simp]: "st_ext st st"
  by (simp add: st_ext_def)

lemma st_ext_trans: "st_ext st st' \<Longrightarrow> st_ext st' st'' \<Longrightarrow> st_ext st st''"
  unfolding st_ext_def using extends_trans by metis

text \<open>A computation that only lets the state grow, and on success leaves the stack of binders as it was.\<close>

definition calm :: "'a tc \<Rightarrow> bool" where
  "calm p \<longleftrightarrow> (\<forall>st r st'. p st = (r, st') \<longrightarrow> st_ext st st' \<and> (\<forall>v. r = Inr v \<longrightarrow> tenv st' = tenv st))"

lemma calmD: "calm p \<Longrightarrow> p st = (r, st') \<Longrightarrow> st_ext st st'"
  by (auto simp: calm_def)

lemma calm_tenv: "calm p \<Longrightarrow> p st = (Inr v, st') \<Longrightarrow> tenv st' = tenv st"
  by (auto simp: calm_def)

lemma calm_pret: "calm (pret v)" and calm_pthrow: "calm (pthrow e)"
  by (auto simp: calm_def pret_def pthrow_def)

lemma calm_pbind: 
  assumes "calm p" "\<And>v. calm (f v)"
  shows "calm (pbind p f)"
  unfolding calm_def
proof (intro allI impI)
  fix st r st' assume b: "pbind p f st = (r, st')"
  show "st_ext st st' \<and> (\<forall>v. r = Inr v \<longrightarrow> tenv st' = tenv st)"
  proof (cases "p st")
    case (Pair r1 s1)
    show ?thesis
    proof (cases r1)
      case (Inl e)
      then show ?thesis using b Pair calmD[OF assms(1) Pair] by (auto simp: pbind_def)
    next
      case (Inr v)
      then have p: "p st = (Inr v, s1)" and f: "f v s1 = (r, st')" using b Pair by (auto simp: pbind_def)
      show ?thesis
        using calmD[OF assms(1) p] calm_tenv[OF assms(1) p] calmD[OF assms(2) f] st_ext_trans calm_tenv[OF assms(2)] f by metis
    qed
  qed
qed

lemma calm_bind_in: 
  assumes "calm p"
  shows "calm (bind_in x s p)"
  unfolding calm_def
proof (intro allI impI)
  fix st r st' assume b: "bind_in x s p st = (r, st')"
  let ?s = "st\<lparr>tenv := (x, s) # tenv st\<rparr>"
  have e: "st_ext st ?s" by (simp add: st_ext_def)
  show "st_ext st st' \<and> (\<forall>v. r = Inr v \<longrightarrow> tenv st' = tenv st)"
  proof (cases "p ?s")
    case (Pair r1 s1)
    have s1: "st_ext st s1" using calmD[OF assms Pair] e st_ext_trans by blast
    have s2: "st_ext st (s1\<lparr>tenv := t\<rparr>)" for t using s1 by (simp add: st_ext_def)
    show ?thesis
      using b Pair s1 s2 calm_tenv[OF assms] Pair
      by (cases r1) (auto simp: bind_in_def pbind_def env_push_def env_pop_def pmodify_def pret_def)
  qed
qed

lemma calm_tvar: "calm tvar"
  by (auto simp: calm_def tvar_def st_ext_def)

lemma calm_unify_st: "calm (unify_st k x y)"
  unfolding calm_def
proof (intro allI impI)
  fix st r st' assume "unify_st k x y st = (r, st')"
  then obtain l where l: "unify k x y (links st) = (r, l)" "st' = st\<lparr>links := l\<rparr>"
    by (auto simp: unify_st_def split: prod.splits)
  have "extends (links st) l" using unify_extends[of "links st" k x y] l by simp
  then show "st_ext st st' \<and> (\<forall>v. r = Inr v \<longrightarrow> tenv st' = tenv st)" using l by (simp add: st_ext_def)
qed

lemma calm_instantiate: "calm (instantiate k s)"
  by (auto simp: calm_def instantiate_def st_ext_def Let_def split: prod.splits option.splits)

lemma generalize_state: "snd (generalize k t st) = st"
  by (auto simp: generalize_def split: option.splits)

lemma calm_generalize: "calm (generalize k t)"
  unfolding calm_def using generalize_state by (metis snd_conv st_ext_refl)

text \<open>Counting free variables touches only the counts.\<close>

lemma count_free_fields: "links (count_free k s st) = links st \<and> tenv (count_free k s st) = tenv st \<and>
    defs (count_free k s st) = defs st \<and> spaces (count_free k s st) = spaces st"
  by (simp add: count_free_def split: option.splits)

lemma calm_load_defs: "calm (env_load_defs k False)"
proof -
  define g :: "ddef \<Rightarrow> tst \<Rightarrow> tst" where "g = (\<lambda>d st. case dsch d of Some s \<Rightarrow> count_free k s st | None \<Rightarrow> st)"
  have "links (fold g ds st) = links st \<and> tenv (fold g ds st) = tenv st \<and>
      defs (fold g ds st) = defs st \<and> spaces (fold g ds st) = spaces st" for ds st
    by (induction ds arbitrary: st) (auto simp: g_def count_free_fields split: option.splits)
  moreover have "env_load_defs k False =
      pmodify (\<lambda>st. (fold g (drop (reg_n st) (defs st)) st)\<lparr>reg_n := length (defs st)\<rparr>)"
    by (simp add: env_load_defs_def g_def Let_def)
  ultimately show ?thesis by (simp add: calm_def pmodify_def st_ext_def)
qed

lemma set_scheme_ext:
  assumes "i < length (defs st)"
  shows "st_ext st (set_scheme k i s st)"
proof -
  have "map dname ((defs st)[i := (defs st ! i)\<lparr>dsch := Some s\<rparr>]) = map dname (defs st)"
    using assms by (simp add: map_update list_update_same_conv)
  then show ?thesis by (simp add: set_scheme_def st_ext_def count_free_fields)
qed

text \<open>The equations of the checker as equations between computations.\<close>

lemma infer_eqs:
  "infer (Suc k) (Var x) = pbind (env_find k x) (\<lambda>s. case s of None \<Rightarrow> pthrow (Unbound x) | Some s \<Rightarrow> instantiate k s)"
  "infer (Suc k) (Lam x b) = pbind tvar (\<lambda>a. pbind (bind_in x ([], a) (infer k b)) (\<lambda>t. pret (Ty_arrow a t)))"
  "infer (Suc k) (Let x v b) =
     pbind (env_find k x) (\<lambda>s.
       case s of
         Some _ \<Rightarrow> pbind (infer k v) (\<lambda>tv. pbind (generalize k tv) (\<lambda>s. bind_in x s (infer k b)))
       | None \<Rightarrow>
           pbind tvar (\<lambda>a. pbind (bind_in x ([], a) (pbind (infer k v) (unify_st k a))) (\<lambda>_.
           pbind (generalize k a) (\<lambda>s. bind_in x s (infer k b)))))"
  "infer (Suc k) (Defx x ty v) = infer k v"
  "infer (Suc k) (Flt s) = tvar" "infer (Suc k) (Num s) = tvar"
  by (rule ext, simp)+

lemma infer_app:
  "head_lam f = Some (x, b) \<Longrightarrow> infer (Suc k) (App f a) =
     pbind (infer k a) (\<lambda>ta. pbind (generalize k ta) (\<lambda>s. bind_in x s (infer k b)))"
  "head_lam f = None \<Longrightarrow> infer (Suc k) (App f a) =
     pbind (infer k f) (\<lambda>tf. pbind (infer k a) (\<lambda>ta. pbind tvar (\<lambda>r.
       pbind (unify_st k tf (Ty_arrow ta r)) (\<lambda>_. pret r))))"
  by (rule ext, simp)+

lemma check_body_eqs:
  "check_body (Suc k) None b = pbind (env_load_defs k False) (\<lambda>_. pbind (infer k b) (generalize k))"
  "check_body (Suc k) (Some x) b = pbind (env_load_defs k False) (\<lambda>_.
     pbind tvar (\<lambda>a. pbind (bind_in x ([], a) (pbind (infer k b) (unify_st k a))) (\<lambda>_. generalize k a)))"
  by (rule ext, simp)+

lemma calm_infer: "calm (infer k t) \<and> calm (env_find k x) \<and> calm (check_body k nm b)"
proof (induction k arbitrary: t x nm b)
  case 0
  have "infer 0 t = pthrow Fuel_out" "env_find 0 x = pthrow Fuel_out" "check_body 0 nm b = pthrow Fuel_out"
    by auto
  then show ?case by (simp add: calm_pthrow)
next
  case (Suc k)
  then have I: "calm (infer k t)" and F: "calm (env_find k x)" and B: "calm (check_body k nm b)" for t x nm b by blast+
  note rules = calm_pbind calm_bind_in calm_pret calm_pthrow calm_tvar calm_unify_st calm_instantiate calm_generalize I F
  have "calm (infer (Suc k) t)"
  proof (cases t)
    case (Var x)
    then show ?thesis unfolding Var infer_eqs by (auto intro!: rules split: option.splits)
  next
    case (Lam x b)
    then show ?thesis unfolding Lam infer_eqs by (auto intro!: rules)
  next
    case (App f a)
    show ?thesis
    proof (cases "head_lam f")
      case None
      show ?thesis unfolding App infer_app(2)[OF None] by (intro rules)
    next
      case (Some xb)
      obtain x b where h: "head_lam f = Some (x, b)" using Some by (cases xb) auto
      show ?thesis unfolding App infer_app(1)[OF h] by (intro rules)
    qed
  next
    case (Let x v b)
    show ?thesis unfolding Let infer_eqs
    proof (intro calm_pbind F)
      fix s show "calm (case s of Some _ \<Rightarrow> pbind (infer k v) (\<lambda>tv. pbind (generalize k tv) (\<lambda>s. bind_in x s (infer k b)))
         | None \<Rightarrow> pbind tvar (\<lambda>a. pbind (bind_in x ([], a) (pbind (infer k v) (unify_st k a))) (\<lambda>_.
             pbind (generalize k a) (\<lambda>s. bind_in x s (infer k b)))))"
        by (cases s) (auto intro!: rules)
    qed
  next
    case (Defx x ty v)
    show ?thesis unfolding Defx infer_eqs by (rule I)
  next
    case (Flt s)
    show ?thesis unfolding Flt infer_eqs by (rule calm_tvar)
  next
    case (Num s)
    show ?thesis unfolding Num infer_eqs by (rule calm_tvar)
  qed (auto simp: calm_def pthrow_def)
  moreover have "calm (env_find (Suc k) x)"
    unfolding calm_def
  proof (intro allI impI)
    fix st r st' assume e: "env_find (Suc k) x st = (r, st')"
    show "st_ext st st' \<and> (\<forall>v. r = Inr v \<longrightarrow> tenv st' = tenv st)"
    proof (cases "map_of (tenv st) x = None \<and> (\<exists>i. def_find (spaces st) (defs st) x = Some i \<and> dsch (defs st ! i) = None)")
      case True
      then obtain i where i: "map_of (tenv st) x = None" "def_find (spaces st) (defs st) x = Some i" "dsch (defs st ! i) = None"
        by blast
      let ?d = "defs st ! i"
      let ?c = "check_body k (if drec ?d then Some (base_name (dname ?d)) else None)
        (case draw ?d of Some b \<Rightarrow> b | None \<Rightarrow> dterm ?d) st"
      obtain r1 s1 where c: "?c = (r1, s1)" by fastforce
      have x1: "st_ext st s1" using calmD[OF B c] .
      then have x2: "st_ext st (s1\<lparr>tenv := tenv st\<rparr>)" "st_ext st (s1\<lparr>tenv := tenv st, reports := rs\<rparr>)" for rs
        by (simp_all add: st_ext_def)
      show ?thesis
      proof (cases r1)
        case (Inl err)
        then show ?thesis using e i c x1 x2 by (cases err) (auto simp: Let_def pret_def pthrow_def)
      next
        case (Inr s)
        then have s': "r = Inr (Some s) \<and> st' = set_scheme k i s (s1\<lparr>tenv := tenv st\<rparr>)"
          using e i c by (simp add: Let_def pret_def)
        have "length (defs s1) = length (defs st)" using x1 unfolding st_ext_def by (metis length_map)
        then have "st_ext (s1\<lparr>tenv := tenv st\<rparr>) st'"
          using set_scheme_ext[of i "s1\<lparr>tenv := tenv st\<rparr>" k s] def_find_bound[OF i(2)] s' by simp
        then have "st_ext st st'" by (rule st_ext_trans[OF x2(1)])
        moreover have "tenv st' = tenv st" unfolding conjunct2[OF s'] by (simp add: set_scheme_def count_free_fields)
        ultimately show ?thesis by simp
      qed
    next
      case False
      then have "st' = st" using e by (auto simp: pret_def split: option.splits)
      then show ?thesis by simp
    qed
  qed
  moreover have "calm (check_body (Suc k) nm b)"
    by (cases nm) (auto simp only: check_body_eqs intro!: rules calm_load_defs)
  ultimately show ?case by blast
qed

section \<open>Instances\<close>

text \<open>\<open>u\<close> is \<open>t\<close> with the variables of \<open>m\<close> replaced, links followed where they are needed.\<close>

inductive inst :: "links \<Rightarrow> links \<Rightarrow> ty \<Rightarrow> ty \<Rightarrow> bool" for l m where
  inst_var: "m v = Some u \<Longrightarrow> inst l m (Ty_var v) u"
| inst_same: "m v = None \<Longrightarrow> inst l m (Ty_var v) (Ty_var v)"
| inst_link: "l v = Some t \<Longrightarrow> inst l m t u \<Longrightarrow> inst l m (Ty_var v) u"
| inst_arrow: "inst l m a c \<Longrightarrow> inst l m b d \<Longrightarrow> inst l m (Ty_arrow a b) (Ty_arrow c d)"
| inst_nom: "length ts = length us \<Longrightarrow> (\<And>i. i < length ts \<Longrightarrow> inst l m (ts ! i) (us ! i)) \<Longrightarrow> inst l m (Ty_nom s ts) (Ty_nom s us)"
| inst_param: "inst l m (Ty_param i) (Ty_param i)"

lemma inst_extends: "inst l m t u \<Longrightarrow> extends l l' \<Longrightarrow> inst l' m t u"
proof (induction rule: inst.induct)
  case (inst_link v t u)
  then show ?case by (intro inst.inst_link[of l' v t]) (auto simp: extends_def)
qed (auto intro: inst.intros)

lemma inst_find: "find_ty k l t = Some t' \<Longrightarrow> inst l m t' u \<Longrightarrow> inst l m t u"
proof (induction k l t rule: find_ty.induct)
  case (2 k l t)
  show ?case
  proof (cases "\<exists>v u'. t = Ty_var v \<and> l v = Some u'")
    case True
    then obtain v u' where v: "t = Ty_var v" "l v = Some u'" by blast
    then have "inst l m u' u" using 2 by simp
    then show ?thesis unfolding v(1) using inst_link v(2) by blast
  next
    case False
    then have "t' = t" using 2(2) by (auto split: ty.splits option.splits)
    then show ?thesis using 2(3) by simp
  qed
qed simp

lemma inst_rec_inst:
  "(inst_rec k l m t = Some u \<longrightarrow> inst l m t u) \<and>
   (inst_args k l m ts = Some us \<longrightarrow> length ts = length us \<and> (\<forall>i < length ts. inst l m (ts ! i) (us ! i)))"
proof (induction k arbitrary: t u ts us)
  case 0
  then show ?case by simp
next
  case (Suc k)
  have R: "inst_rec k l m t = Some u \<Longrightarrow> inst l m t u" for t u using Suc by blast
  have A: "inst_args k l m ts = Some us \<Longrightarrow> length ts = length us \<and> (\<forall>i < length ts. inst l m (ts ! i) (us ! i))" for ts us
    using Suc by blast
  have "inst l m t u" if u: "inst_rec (Suc k) l m t = Some u"
  proof -
    obtain t' where f: "find_ty k l t = Some t'" using u by (cases "find_ty k l t") simp_all
    have "inst l m t' u"
    proof (cases t')
      case (Ty_var v)
      then show ?thesis using u f by (auto split: option.splits intro: inst_var inst_same)
    next
      case (Ty_arrow a b)
      then obtain a' b' where ab: "inst_rec k l m a = Some a'" "inst_rec k l m b = Some b'" "u = Ty_arrow a' b'"
        using u f by (auto split: option.splits)
      then show ?thesis using Ty_arrow R by (auto intro: inst_arrow)
    next
      case (Ty_nom s ts)
      then obtain us where "inst_args k l m ts = Some us" "u = Ty_nom s us" using u f by auto
      then show ?thesis using Ty_nom A by (auto intro: inst_nom)
    next
      case (Ty_param i)
      then show ?thesis using u f by (auto intro: inst_param)
    qed
    then show ?thesis using inst_find[OF f] by blast
  qed
  moreover have "length ts = length us \<and> (\<forall>i < length ts. inst l m (ts ! i) (us ! i))"
    if u: "inst_args (Suc k) l m ts = Some us"
  proof (cases ts)
    case Nil
    then show ?thesis using u by simp
  next
    case (Cons t ts')
    then obtain t1 us' where r: "inst_rec k l m t = Some t1" "inst_args k l m ts' = Some us'" "us = t1 # us'"
      using u by (auto split: option.splits)
    show ?thesis using R[OF r(1)] A[OF r(2)] Cons r(3) by (auto simp: nth_Cons split: nat.splits)
  qed
  ultimately show ?case by blast
qed

lemma dom_fresh_map: "dom (fresh_map q n) = set q"
  by (simp add: fresh_map_def dom_map_of_zip)

section \<open>Derivations\<close>

text \<open>The scheme of a name: its innermost binder, else its definition once that is typed.\<close>

definition scheme_of :: "tst \<Rightarrow> (string \<times> scheme) list \<Rightarrow> string \<Rightarrow> scheme option" where
  "scheme_of st G x =
     (case map_of G x of
        Some s \<Rightarrow> Some s
      | None \<Rightarrow> (case def_find (spaces st) (defs st) x of None \<Rightarrow> None | Some i \<Rightarrow> dsch (defs st ! i)))"

text \<open>A scheme that quantifies only variables free in its type and free in no binder.\<close>

definition general :: "tst \<Rightarrow> (string \<times> scheme) list \<Rightarrow> ty \<Rightarrow> scheme \<Rightarrow> bool" where
  "general st G t s \<longleftrightarrow> snd s = t \<and>
     (\<forall>v \<in> set (fst s). reach (links st) t v \<and> \<not> (\<exists>(x, q, u) \<in> set G. reach (links st) u v))"

text \<open>
  The typing rules, over the links of the state \<open>st\<close>: a name has an instance of its scheme, an application
  makes the function agree with an arrow, and a let or an applied lambda generalises.  A scheme is the one
  known at some point before \<open>st\<close>.
\<close>

inductive typed :: "tst \<Rightarrow> (string \<times> scheme) list \<Rightarrow> tm \<Rightarrow> ty \<Rightarrow> bool" for st where
  typed_var: "st_ext st0 st \<Longrightarrow> scheme_of st0 G x = Some (q, t) \<Longrightarrow> dom m = set q \<Longrightarrow> inst (links st) m t u \<Longrightarrow>
     typed st G (Var x) u"
| typed_lam: "typed st ((x, [], a) # G) b t \<Longrightarrow> typed st G (Lam x b) (Ty_arrow a t)"
| typed_beta: "typed st G a ta \<Longrightarrow> st_ext st0 st \<Longrightarrow> general st0 G ta s \<Longrightarrow> typed st ((x, s) # G) b t \<Longrightarrow>
     typed st G (App (Lam x b) a) t"
| typed_app: "typed st G f tf \<Longrightarrow> typed st G a ta \<Longrightarrow> agree (links st) tf (Ty_arrow ta r) \<Longrightarrow> typed st G (App f a) r"
| typed_let: "typed st G v tv \<Longrightarrow> st_ext st0 st \<Longrightarrow> general st0 G tv s \<Longrightarrow> typed st ((x, s) # G) b t \<Longrightarrow>
     typed st G (Let x v b) t"
| typed_letrec: "typed st ((x, [], a) # G) v tv \<Longrightarrow> agree (links st) a tv \<Longrightarrow> st_ext st0 st \<Longrightarrow> general st0 G a s \<Longrightarrow>
     typed st ((x, s) # G) b t \<Longrightarrow> typed st G (Let x v b) t"
| typed_defx: "typed st G v t \<Longrightarrow> typed st G (Defx x ty v) t"
| typed_num: "typed st G (Num n) t"
| typed_flt: "typed st G (Flt n) t"

lemma typed_ext: "typed st G t u \<Longrightarrow> st_ext st st' \<Longrightarrow> typed st' G t u"
proof (induction rule: typed.induct)
  case (typed_var st0 G x q t m u)
  then have "st_ext st0 st'" "inst (links st') m t u" using st_ext_trans inst_extends unfolding st_ext_def by blast+
  then show ?case by (rule typed.typed_var[OF _ typed_var(2,3)])
next
  case (typed_app G f tf a ta r)
  then show ?case using agree_extends by (intro typed.typed_app) (auto simp: st_ext_def)
next
  case (typed_letrec x a G v tv st0 s b t)
  then show ?case using agree_extends st_ext_trans by (intro typed.typed_letrec[of st' x a G v tv st0 s]) (auto simp: st_ext_def)
qed (auto intro: typed.intros st_ext_trans)

lemma generalize_general:
  assumes "generalize k t st = (Inr s, st')"
  shows "st' = st" "general st (tenv st) t s"
proof -
  obtain f where f: "fv k (links st) t [] = Some f" using assms by (cases "fv k (links st) t []") (simp_all add: generalize_def)
  obtain dyn where d: "env_vars k (links st) (rev (tenv st)) [] = Some dyn"
    using assms f by (cases "env_vars k (links st) (rev (tenv st)) []") (simp_all add: generalize_def)
  have s: "s = (filter (\<lambda>v. envrc st v = 0 \<and> v \<notin> set dyn) f, t)" and "st = st'"
    using assms f d by (auto simp: generalize_def)
  then show "st' = st" by simp
  show "general st (tenv st) t s"
    using fv_reach(1)[OF f] env_vars_reach[OF d] s by (auto simp: general_def)
qed

lemma env_find_scheme:
  assumes "env_find k x st = (Inr (Some s), st')"
  shows "st_ext st st' \<and> scheme_of st' (tenv st) x = Some s"
proof -
  have e: "st_ext st st'" using calm_infer calmD assms by blast
  obtain j where k: "k = Suc j" using assms by (cases k) (auto simp: pthrow_def)
  show ?thesis
  proof (cases "map_of (tenv st) x = None \<and> (\<exists>i. def_find (spaces st) (defs st) x = Some i \<and> dsch (defs st ! i) = None)")
    case True
    then obtain i where i: "map_of (tenv st) x = None" "def_find (spaces st) (defs st) x = Some i" "dsch (defs st ! i) = None"
      by blast
    let ?d = "defs st ! i"
    let ?c = "check_body j (if drec ?d then Some (base_name (dname ?d)) else None)
        (case draw ?d of Some b \<Rightarrow> b | None \<Rightarrow> dterm ?d) st"
    obtain r1 s1 where c: "?c = (r1, s1)" by fastforce
    have x1: "st_ext st s1" using calm_infer calmD c by blast
    have r: "r1 = Inr s \<and> st' = set_scheme j i s (s1\<lparr>tenv := tenv st\<rparr>)"
    proof (cases r1)
      case (Inl err)
      then show ?thesis using assms i c k by (cases err) (auto simp: Let_def pret_def pthrow_def)
    next
      case (Inr s')
      then have "s' = s" "set_scheme j i s' (s1\<lparr>tenv := tenv st\<rparr>) = st'"
        using assms i c k by (auto simp: Let_def pret_def)
      then show ?thesis using Inr by blast
    qed
    have "length (defs s1) = length (defs st)" using x1 unfolding st_ext_def by (metis length_map)
    then have d: "dsch (defs st' ! i) = Some s"
      unfolding conjunct2[OF r] using def_find_bound[OF i(2)] by (simp add: set_scheme_def count_free_fields)
    have "def_find (spaces st') (defs st') x = Some i"
      using e i(2) def_find_names[of "defs st'" "defs st" "spaces st" x] by (simp add: st_ext_def)
    then show ?thesis using e d i by (simp add: scheme_of_def)
  next
    case False
    then show ?thesis using assms k by (auto simp: pret_def scheme_of_def split: option.splits)
  qed
qed

section \<open>Soundness of inference\<close>

lemma bind_in_Inr:
  assumes "bind_in x s p st = (Inr v, st')"
  obtains s1 where "p (st\<lparr>tenv := (x, s) # tenv st\<rparr>) = (Inr v, s1)" "st' = s1\<lparr>tenv := tl (tenv s1)\<rparr>"
  using assms by (auto simp: bind_in_def pbind_Inr env_push_def env_pop_def pmodify_def)

lemma st_ext_tenv: "st_ext st (st'\<lparr>tenv := G\<rparr>) \<longleftrightarrow> st_ext st st'" "st_ext (st\<lparr>tenv := G\<rparr>) st' \<longleftrightarrow> st_ext st st'"
  by (simp_all add: st_ext_def)

lemma unify_st_Inr:
  assumes "unify_st k x y st = (Inr u, st')"
  shows "st_ext st st' \<and> tenv st' = tenv st \<and> agree (links st') x y"
proof -
  obtain l where l: "unify k x y (links st) = (Inr (), l)" "st' = st\<lparr>links := l\<rparr>"
    using assms by (auto simp: unify_st_def split: prod.splits)
  show ?thesis using unify_unifies[OF l(1)] l(2) by (simp add: unifies_def st_ext_def)
qed

lemma pbind_gen:
  assumes "pbind (generalize k t) f st = (Inr v, st')"
  obtains s where "generalize k t st = (Inr s, st)" "f s st = (Inr v, st')"
proof -
  obtain s s1 where s: "generalize k t st = (Inr s, s1)" "f s s1 = (Inr v, st')"
    using assms by (auto simp: pbind_Inr)
  have "s1 = st" using generalize_general(1)[OF s(1)] .
  then show ?thesis using that s by simp
qed

lemma typed_infer: "infer k t st = (Inr u, st') \<Longrightarrow> typed st' (tenv st) t u"
proof (induction k arbitrary: t st u st')
  case 0
  then show ?case by (simp add: pthrow_def)
next
  case (Suc k)
  have C: "st_ext st st' \<and> tenv st' = tenv st" if "infer k t st = (Inr u, st')" for t st u st'
    using calmD[OF conjunct1[OF calm_infer] that] calm_tenv[OF conjunct1[OF calm_infer] that] by blast
  have body: "typed st' ((x, s) # tenv st) b u \<and> st_ext st st' \<and> tenv st' = tenv st"
    if q: "bind_in x s (infer k b) st = (Inr u, st')" for x s b st u st'
  proof -
    obtain s1 where s1: "infer k b (st\<lparr>tenv := (x, s) # tenv st\<rparr>) = (Inr u, s1)" "st' = s1\<lparr>tenv := tl (tenv s1)\<rparr>"
      by (rule bind_in_Inr[OF q])
    have "typed s1 ((x, s) # tenv st) b u" using Suc.IH[OF s1(1)] by simp
    moreover have "st_ext s1 st'" using s1(2) by (simp add: st_ext_tenv)
    ultimately have "typed st' ((x, s) # tenv st) b u" using typed_ext by blast
    moreover have "st_ext st st' \<and> tenv st' = tenv st" using C[OF s1(1)] s1(2) by (simp add: st_ext_tenv)
    ultimately show ?thesis by blast
  qed
  have poly: "typed st' (tenv st) v tv \<and> (\<exists>s. general s1 (tenv st) tv s \<and> typed st' ((x, s) # tenv st) b u) \<and> st_ext s1 st'"
    if v: "infer k v st = (Inr tv, s1)" and b: "pbind (generalize k tv) (\<lambda>s. bind_in x s (infer k b)) s1 = (Inr u, st')"
    for v st tv s1 x b u st'
  proof -
    obtain s where s: "generalize k tv s1 = (Inr s, s1)" "bind_in x s (infer k b) s1 = (Inr u, st')"
      by (rule pbind_gen[OF b])
    have "typed s1 (tenv st) v tv" using Suc.IH[OF v] .
    moreover have "typed st' ((x, s) # tenv s1) b u \<and> st_ext s1 st'" using body[OF s(2)] by blast
    ultimately show ?thesis using C[OF v] generalize_general(2)[OF s(1)] typed_ext by metis
  qed
  show ?case
  proof (cases t)
    case (Var x)
    obtain s s1 where s: "env_find k x st = (Inr (Some s), s1)" "instantiate k s s1 = (Inr u, st')"
      using Suc.prems unfolding Var infer_eqs by (auto simp: pbind_Inr pthrow_def split: option.splits)
    obtain q ty where q: "s = (q, ty)" by (cases s)
    have i: "inst_rec k (links s1) (fresh_map q (next_id s1)) ty = Some u" "st' = s1\<lparr>next_id := next_id s1 + length q\<rparr>"
      using s(2) q by (auto simp: instantiate_def Let_def split: option.splits)
    have "links st' = links s1" unfolding i(2) by simp
    then have "inst (links st') (fresh_map q (next_id s1)) ty u" using inst_rec_inst i(1) by metis
    moreover have "st_ext s1 st'" unfolding i(2) by (simp add: st_ext_def)
    moreover have "scheme_of s1 (tenv st) x = Some (q, ty)" using env_find_scheme[OF s(1)] q by simp
    ultimately show ?thesis unfolding Var using typed_var dom_fresh_map by metis
  next
    case (Lam x b)
    obtain a t1 s1 s2 where a: "tvar st = (Inr a, s1)" "bind_in x ([], a) (infer k b) s1 = (Inr t1, s2)" "u = Ty_arrow a t1" "st' = s2"
      using Suc.prems unfolding Lam infer_eqs by (auto simp: pbind_Inr)
    have "tenv s1 = tenv st" using calm_tenv[OF calm_tvar a(1)] .
    then show ?thesis using body[OF a(2)] a Lam by (auto intro: typed_lam)
  next
    case (App f a)
    show ?thesis
    proof (cases "head_lam f")
      case None
      obtain tf ta r s1 s2 s3 s4 where p: "infer k f st = (Inr tf, s1)" "infer k a s1 = (Inr ta, s2)" "tvar s2 = (Inr r, s3)"
        "unify_st k tf (Ty_arrow ta r) s3 = (Inr (), s4)" "u = r" "st' = s4"
        using Suc.prems unfolding App infer_app(2)[OF None] by (auto simp: pbind_Inr)
      have e: "st_ext s1 s2" "tenv s1 = tenv st" "st_ext s2 s3" "tenv s2 = tenv s1" "tenv s3 = tenv s2"
        using C[OF p(1)] C[OF p(2)] calmD[OF calm_tvar p(3)] calm_tenv[OF calm_tvar p(3)] by simp_all
      have g: "st_ext s3 s4" "agree (links s4) tf (Ty_arrow ta r)" using unify_st_Inr[OF p(4)] by auto
      have "typed s4 (tenv st) f tf" "typed s4 (tenv st) a ta"
        using Suc.IH[OF p(1)] Suc.IH[OF p(2)] e g(1) st_ext_trans typed_ext by metis+
      then show ?thesis unfolding App p(5,6) using g(2) by (rule typed_app)
    next
      case (Some xb)
      obtain x b where h: "f = Lam x b" using Some by (cases f) (auto simp: head_lam_def)
      then have hl: "head_lam f = Some (x, b)" by (simp add: head_lam_def)
      obtain ta s1 where p: "infer k a st = (Inr ta, s1)" "pbind (generalize k ta) (\<lambda>s. bind_in x s (infer k b)) s1 = (Inr u, st')"
        using Suc.prems unfolding App infer_app(1)[OF hl] by (auto simp: pbind_Inr[of "infer k a"])
      show ?thesis unfolding App h using poly[OF p] typed_beta by blast
    qed
  next
    case (Let x v b)
    obtain r s0 where r: "env_find k x st = (Inr r, s0)" "(case r of
         Some _ \<Rightarrow> pbind (infer k v) (\<lambda>tv. pbind (generalize k tv) (\<lambda>s. bind_in x s (infer k b)))
       | None \<Rightarrow>
           pbind tvar (\<lambda>a. pbind (bind_in x ([], a) (pbind (infer k v) (unify_st k a))) (\<lambda>_.
           pbind (generalize k a) (\<lambda>s. bind_in x s (infer k b))))) s0 = (Inr u, st')"
      using Suc.prems unfolding Let infer_eqs by (auto simp: pbind_Inr[of "env_find k x"])
    have t0: "tenv s0 = tenv st" using calm_infer calm_tenv[where p = "env_find k x"] r(1) by blast
    show ?thesis
    proof (cases r)
      case (Some s)
      then obtain tv s1 where p: "infer k v s0 = (Inr tv, s1)" "pbind (generalize k tv) (\<lambda>s. bind_in x s (infer k b)) s1 = (Inr u, st')"
        using r(2) by (auto simp: pbind_Inr[of "infer k v"])
      show ?thesis unfolding Let using poly[OF p] t0 typed_let by metis
    next
      case None
      then obtain a s1 s2 where p: "tvar s0 = (Inr a, s1)" "bind_in x ([], a) (pbind (infer k v) (unify_st k a)) s1 = (Inr (), s2)"
        "pbind (generalize k a) (\<lambda>s. bind_in x s (infer k b)) s2 = (Inr u, st')"
        using r(2) by (auto simp: pbind_Inr[of tvar] pbind_Inr[of "bind_in _ _ _"])
      have t1: "tenv s1 = tenv st" using calm_tenv[OF calm_tvar p(1)] t0 by simp
      obtain s3 where s3: "pbind (infer k v) (unify_st k a) (s1\<lparr>tenv := (x, [], a) # tenv s1\<rparr>) = (Inr (), s3)"
        "s2 = s3\<lparr>tenv := tl (tenv s3)\<rparr>"
        by (rule bind_in_Inr[OF p(2)])
      obtain tv s4 where s4: "infer k v (s1\<lparr>tenv := (x, [], a) # tenv s1\<rparr>) = (Inr tv, s4)" "unify_st k a tv s4 = (Inr (), s3)"
        using s3(1) by (auto simp: pbind_Inr)
      have v: "typed s4 ((x, [], a) # tenv st) v tv" using Suc.IH[OF s4(1)] t1 by simp
      have g: "st_ext s4 s3" "tenv s3 = tenv s4" "agree (links s3) a tv" using unify_st_Inr[OF s4(2)] by auto
      have t2: "tenv s2 = tenv st" using C[OF s4(1)] g(2) s3(2) t1 by simp
      obtain s where s: "generalize k a s2 = (Inr s, s2)" "bind_in x s (infer k b) s2 = (Inr u, st')"
        by (rule pbind_gen[OF p(3)])
      have b: "typed st' ((x, s) # tenv st) b u" "st_ext s2 st'" using body[OF s(2)] t2 by auto
      have e: "st_ext s3 st'" using b(2) s3(2) by (simp add: st_ext_tenv)
      have "typed st' ((x, [], a) # tenv st) v tv" using typed_ext[OF v] g(1) e st_ext_trans by blast
      moreover have "agree (links st') a tv" using agree_extends[OF g(3)] e by (simp add: st_ext_def)
      ultimately show ?thesis unfolding Let using typed_letrec b generalize_general(2)[OF s(1)] t2 by metis
    qed
  next
    case (Defx x ty v)
    then show ?thesis using Suc.prems Suc.IH[of v st u st'] by (auto simp: infer_eqs intro: typed_defx)
  next
    case (Num s)
    then show ?thesis by (simp add: typed_num)
  next
    case (Flt s)
    then show ?thesis by (simp add: typed_flt)
  qed (use Suc.prems in \<open>auto simp: pthrow_def\<close>)
qed

end
