(* ===== verification/TypeLaws.thy ===== *)
theory TypeLaws
  imports TypesProps
begin

text \<open>
  The laws of the type checker (\<open>src/type.c\<close>): what unification, generalisation and inference promise,
  and three programs on which the checker does not do what it means to.
\<close>

definition plain_def :: "string \<Rightarrow> tm \<Rightarrow> ddef" where
  "plain_def x b = \<lparr>dname = x, dterm = b, draw = None, dsch = None, drec = False, dexp = None, dcomp = False, dtried = False\<rparr>"

definition tst_of :: "ddef list \<Rightarrow> tst" where
  "tst_of ds = \<lparr>links = (\<lambda>v. None), next_id = 0, tenv = [], defs = ds, spaces = \<lparr>curr_ns = [], open_ns = []\<rparr>,
     envrc = (\<lambda>v. 0), reg_n = 0, reports = []\<rparr>"

text \<open>C32. Unification that succeeds makes its two types agree under the links it leaves, and changes no link
  that was there.\<close>

theorem unify_makes_agree:
  assumes "unify k x y l = (Inr (), l')"
  shows "extends l l' \<and> agree l' x y"
  using unify_unifies[OF assms] by (simp add: unifies_def)

theorem unify_makes_agree_witness:
  "\<exists>l'. unify 9 (Ty_arrow (Ty_var 0) (Ty_nom ''num'' [])) (Ty_arrow (Ty_var 1) (Ty_var 0)) (\<lambda>v. None) = (Inr (), l') \<and>
     extends (\<lambda>v. None) l' \<and> agree l' (Ty_arrow (Ty_var 0) (Ty_nom ''num'' [])) (Ty_arrow (Ty_var 1) (Ty_var 0))"
proof -
  define l' :: links where "l' = (\<lambda>v. None)(0 \<mapsto> Ty_var 1, 1 \<mapsto> Ty_nom ''num'' [])"
  have "unify 9 (Ty_arrow (Ty_var 0) (Ty_nom ''num'' [])) (Ty_arrow (Ty_var 1) (Ty_var 0)) (\<lambda>v. None) = (Inr (), l')"
    by (simp add: eval_nat_numeral pbind_def pret_def link_def link_checked_def pmodify_def l'_def)
  from this unify_makes_agree[OF this] show ?thesis by blast
qed

text \<open>C33. Generalisation quantifies exactly the variables that are free in the type, in no binder in scope and
  in no counted scheme of a definition, and leaves the state alone.\<close>

theorem generalize_exact:
  assumes "generalize k t st = (Inr s, st')"
  shows "st' = st \<and> snd s = t \<and>
    set (fst s) = {v. reach (links st) t v \<and> envrc st v = 0 \<and> \<not> (\<exists>(x, q, u) \<in> set (tenv st). reach (links st) u v)}"
proof -
  obtain f where f: "fv k (links st) t [] = Some f" using assms by (cases "fv k (links st) t []") (simp_all add: generalize_def)
  obtain dyn where d: "env_vars k (links st) (rev (tenv st)) [] = Some dyn"
    using assms f by (cases "env_vars k (links st) (rev (tenv st)) []") (simp_all add: generalize_def)
  have s: "s = (filter (\<lambda>v. envrc st v = 0 \<and> v \<notin> set dyn) f, t)" using assms f d by (auto simp: generalize_def)
  show ?thesis using fv_reach(1)[OF f] env_vars_reach[OF d] generalize_general(1)[OF assms] unfolding s by auto
qed

theorem generalize_exact_witness:
  "generalize 9 (Ty_arrow (Ty_var 0) (Ty_var 1)) ((tst_of [])\<lparr>tenv := [(''x'', [], Ty_var 1)]\<rparr>) =
     (Inr ([0], Ty_arrow (Ty_var 0) (Ty_var 1)), (tst_of [])\<lparr>tenv := [(''x'', [], Ty_var 1)]\<rparr>) \<and>
   {v. reach (\<lambda>v. None) (Ty_arrow (Ty_var 0) (Ty_var 1)) v \<and> \<not> reach (\<lambda>v. None) (Ty_var 1) v} = {0}"
proof -
  let ?st = "(tst_of [])\<lparr>tenv := [(''x'', [], Ty_var 1)]\<rparr>"
  have "generalize 9 (Ty_arrow (Ty_var 0) (Ty_var 1)) ?st = (Inr ([0], Ty_arrow (Ty_var 0) (Ty_var 1)), ?st)"
    by (simp add: generalize_def tst_of_def eval_nat_numeral)
  from this generalize_exact[OF this] show ?thesis by (auto simp: tst_of_def)
qed



text \<open>Without an occurs check a variable is linked to a nominal type that contains it: \<open>a\<close> against \<open>list a\<close>
  succeeds, and afterwards no walk over \<open>a\<close> ends, whatever its fuel.\<close>

theorem nominal_link_makes_cycle:
  "unify 9 (Ty_var 0) (Ty_nom ''list'' [Ty_var 0]) (\<lambda>v. None) = (Inr (), (\<lambda>v. None)(0 \<mapsto> Ty_nom ''list'' [Ty_var 0])) \<and>
   fv k ((\<lambda>v. None)(0 \<mapsto> Ty_nom ''list'' [Ty_var 0])) (Ty_var 0) f = None"
proof -
  let ?l = "(\<lambda>v. None)(0 \<mapsto> Ty_nom ''list'' [Ty_var 0]) :: links"
  have "fv k l (Ty_var 0) f = None \<and> fv_args k l [Ty_var 0] f = None"
    if l: "l 0 = Some (Ty_nom ''list'' [Ty_var 0])" for l k f
  proof (induction k arbitrary: f)
    case (Suc k)
    have "find_ty k l (Ty_var 0) = None \<or> find_ty k l (Ty_var 0) = Some (Ty_nom ''list'' [Ty_var 0])"
      by (cases k; cases "k - 1") (auto simp: l)
    then show ?case using Suc by auto
  qed simp
  then have "fv k ?l (Ty_var 0) f = None" by simp
  moreover have "unify 9 (Ty_var 0) (Ty_nom ''list'' [Ty_var 0]) (\<lambda>v. None) = (Inr (), ?l)"
    by (simp add: eval_nat_numeral link_def pmodify_def)
  ultimately show ?thesis by blast
qed

text \<open>A definition that is typed on its first reference is typed among the binders of that reference: here
  the \<open>g\<close> in the body of \<open>f\<close> is the identity defined beside it, but below a lambda that binds another \<open>g\<close>
  the body of \<open>f\<close> is typed with that binder, and the scheme kept for \<open>f\<close> quantifies nothing.\<close>

theorem def_typed_under_binders:
  "let ds = [plain_def ''f'' (Lam ''y'' (App (Var ''g'') (Var ''y''))), plain_def ''g'' (Lam ''x'' (Var ''x''))];
       st = snd (type_check 12 (Lam ''g'' (Var ''f'')) (tst_of ds))
   in fst (type_check 12 (Var ''f'') (tst_of ds)) = Inr ([4], Ty_arrow (Ty_var 4) (Ty_var 4)) \<and>
      dsch (defs st ! 0) = Some ([], Ty_arrow (Ty_var 1) (Ty_var 2)) \<and> links st 0 = Some (Ty_arrow (Ty_var 1) (Ty_var 2))"
  by code_simp

text \<open>The step of the theorem below: from a state without binders, neither definition's scheme is found.\<close>

lemma mutual_step:
  assumes "tenv st = []" "spaces st = \<lparr>curr_ns = [], open_ns = []\<rparr>"
    "defs st = [plain_def ''f'' (Var ''g''), plain_def ''g'' (Var ''f'')]"
    and "x = ''f'' \<or> x = ''g''"
  shows "fst (env_find k x st) = Inl Fuel_out"
proof -
  let ?ds = "[plain_def ''f'' (Var ''g''), plain_def ''g'' (Var ''f'')]"
  have l: "def_find \<lparr>curr_ns = [], open_ns = []\<rparr> ?ds ''f'' = Some 0" "def_find \<lparr>curr_ns = [], open_ns = []\<rparr> ?ds ''g'' = Some 1"
    by (simp_all add: def_find_def candidates_def lookup_raw_def plain_def_def dot_def)
  have "(x = ''f'' \<or> x = ''g'') \<longrightarrow> tenv st = [] \<longrightarrow> spaces st = \<lparr>curr_ns = [], open_ns = []\<rparr> \<longrightarrow> defs st = ?ds \<longrightarrow>
      fst (env_find k x st) = Inl Fuel_out" for x st
  proof (induction k arbitrary: x st rule: less_induct)
    case (less k)
    show ?case
    proof (intro impI)
      assume x: "x = ''f'' \<or> x = ''g''" and t: "tenv st = []" and sp: "spaces st = \<lparr>curr_ns = [], open_ns = []\<rparr>" and d: "defs st = ?ds"
      let ?y = "if x = ''f'' then ''g'' else ''f''"
      have c: "fst (check_body j None (Var ?y) st) = Inl Fuel_out" if j: "j < k" for j
      proof (cases j)
        case (Suc i)
        define s1 where "s1 = st\<lparr>reg_n := 2\<rparr>"
        have "drop (reg_n st) ?ds = [] \<or> drop (reg_n st) ?ds = [plain_def ''g'' (Var ''f'')] \<or> drop (reg_n st) ?ds = ?ds"
          by (cases "reg_n st"; cases "reg_n st - 1") auto
        then have e: "env_load_defs i False st = (Inr (), s1)"
          using d by (auto simp: env_load_defs_def pmodify_def s1_def plain_def_def)
        have f: "fst (env_find m ?y s1) = Inl Fuel_out" if "m < k" for m
          using less[of m ?y s1] that x t sp d by (auto simp: s1_def)
        have "fst (infer i (Var ?y) s1) = Inl Fuel_out"
        proof (cases i)
          case (Suc m)
          have "fst (env_find m ?y s1) = Inl Fuel_out" by (rule f) (use j \<open>j = Suc i\<close> Suc in simp)
          then show ?thesis using Suc by (cases "env_find m ?y s1") (simp add: pbind_def)
        qed (simp add: pthrow_def)
        then show ?thesis using Suc e by (cases "infer i (Var ?y) s1") (simp add: pbind_def)
      qed (simp add: pthrow_def)
      show "fst (env_find k x st) = Inl Fuel_out"
      proof (cases k)
        case (Suc j)
        obtain s2 where s2: "check_body j None (Var ?y) st = (Inl Fuel_out, s2)"
          using c[of j] Suc by (cases "check_body j None (Var ?y) st") simp
        show ?thesis using x
        proof
          assume "x = ''f''"
          then show ?thesis using Suc t sp d l s2 by (simp add: Let_def plain_def_def pthrow_def)
        next
          assume "x = ''g''"
          then show ?thesis using Suc t sp d l s2 by (simp add: Let_def plain_def_def pthrow_def)
        qed
      qed (simp add: pthrow_def)
    qed
  qed
  from this[of x st] show ?thesis using assms by blast
qed

text \<open>Two definitions that name each other are never typed: the check of one asks for the other, whatever
  the fuel.\<close>

theorem mutual_defs_never_typed:
  "fst (type_check k (Var ''f'') (tst_of [plain_def ''f'' (Var ''g''), plain_def ''g'' (Var ''f'')])) = Inl Fuel_out"
proof -
  let ?st = "tst_of [plain_def ''f'' (Var ''g''), plain_def ''g'' (Var ''f'')]"
  define s1 where "s1 = ?st\<lparr>reg_n := 2\<rparr>"
  have e: "env_load_defs k True ?st = (Inr (), s1)"
    by (simp add: env_load_defs_def pmodify_def s1_def tst_of_def plain_def_def)
  have "fst (infer k (Var ''f'') s1) = Inl Fuel_out"
  proof (cases k)
    case (Suc j)
    have "fst (env_find j ''f'' s1) = Inl Fuel_out" by (rule mutual_step) (simp_all add: s1_def tst_of_def)
    then show ?thesis using Suc by (cases "env_find j ''f'' s1") (simp add: pbind_def)
  qed (simp add: pthrow_def)
  then show ?thesis using e by (cases "infer k (Var ''f'') s1") (simp add: type_check_def pbind_def)
qed

end
