(* ===== verification/Program.thy ===== *)
theory Program
  imports Types
begin

text \<open>
  From forms to definitions (\<open>src/main.c\<close>): a definition is qualified, expanded where it is used, and a
  datatype becomes one Scott-encoded definition per constructor.
\<close>

section \<open>Expansion\<close>

text \<open>
  \<open>expand\<close> replaces the names of definitions by their bodies, each expanded once and kept in \<open>dexp\<close>.  The
  guard \<open>g\<close> lists the binders and the definitions being expanded.  \<open>bake\<close> is the part of \<open>def_precompile\<close>
  that compiles and reduces: \<open>None\<close> where \<open>LIN_PRECOMPILE\<close> is not set, else whether the net of an
  expanded term comes to a value.  A let pushes its name for its value only, as the code does.
\<close>

fun expand :: "nat \<Rightarrow> spaces \<Rightarrow> (tm \<Rightarrow> bool) option \<Rightarrow> string list \<Rightarrow> tm \<Rightarrow> ddef list \<Rightarrow> (tm \<times> ddef list) option"
and def_expand :: "nat \<Rightarrow> spaces \<Rightarrow> (tm \<Rightarrow> bool) option \<Rightarrow> string list \<Rightarrow> nat \<Rightarrow> ddef list \<Rightarrow> ddef list option"
and def_precompile :: "nat \<Rightarrow> spaces \<Rightarrow> (tm \<Rightarrow> bool) option \<Rightarrow> nat \<Rightarrow> ddef list \<Rightarrow> ddef list option" where
  "expand 0 sp bake g t ds = None"
| "expand (Suc k) sp bake g t ds =
     (case t of
        Var x \<Rightarrow>
          if x \<in> set g then Some (Var x, ds)
          else (case def_find sp ds x of
                  None \<Rightarrow> Some (Var x, ds)
                | Some i \<Rightarrow>
                    (case def_expand k sp bake g i ds of
                       None \<Rightarrow> None
                     | Some ds1 \<Rightarrow>
                         (case def_precompile k sp bake i ds1 of
                            None \<Rightarrow> None
                          | Some ds2 \<Rightarrow>
                              Some (if dcomp (ds2 ! i) then Baked (dname (ds2 ! i))
                                    else (case dexp (ds2 ! i) of Some e \<Rightarrow> e | None \<Rightarrow> Var x), ds2))))
      | Lam x b \<Rightarrow> map_option (\<lambda>(b', ds). (Lam x b', ds)) (expand k sp bake (x # g) b ds)
      | Def x b \<Rightarrow> map_option (\<lambda>(b', ds). (Def x b', ds)) (expand k sp bake (x # g) b ds)
      | Defx x ty b \<Rightarrow> map_option (\<lambda>(b', ds). (Defx x ty b', ds)) (expand k sp bake g b ds)
      | App f a \<Rightarrow>
          (case expand k sp bake g f ds of
             None \<Rightarrow> None
           | Some (f', ds1) \<Rightarrow> map_option (\<lambda>(a', ds2). (App f' a', ds2)) (expand k sp bake g a ds1))
      | Let x v b \<Rightarrow>
          (case expand k sp bake (x # g) v ds of
             None \<Rightarrow> None
           | Some (v', ds1) \<Rightarrow> map_option (\<lambda>(b', ds2). (Let x v' b', ds2)) (expand k sp bake g b ds1))
      | _ \<Rightarrow> Some (t, ds))"
| "def_expand 0 sp bake g i ds = None"
| "def_expand (Suc k) sp bake g i ds =
     (case dexp (ds ! i) of
        Some e \<Rightarrow> Some ds
      | None \<Rightarrow>
          map_option (\<lambda>(e, ds'). ds'[i := (ds' ! i)\<lparr>dexp := Some e\<rparr>])
            (expand k sp bake (dname (ds ! i) # g) (dterm (ds ! i)) ds))"
| "def_precompile 0 sp bake i ds = None"
| "def_precompile (Suc k) sp bake i ds =
     (case bake of
        None \<Rightarrow> Some ds
      | Some value \<Rightarrow>
          if dtried (ds ! i) then Some ds
          else (let ds1 = ds[i := (ds ! i)\<lparr>dtried := True\<rparr>]
                in if drec (ds ! i) then Some ds1
                   else map_option (\<lambda>(e, ds'). if value e then ds'[i := (ds' ! i)\<lparr>dcomp := True\<rparr>] else ds')
                          (expand k sp bake [] (dterm (ds ! i)) ds1)))"

definition expand_defs :: "nat \<Rightarrow> spaces \<Rightarrow> (tm \<Rightarrow> bool) option \<Rightarrow> tm \<Rightarrow> ddef list \<Rightarrow> (tm \<times> ddef list) option" where
  "expand_defs k sp bake t ds = expand k sp bake [] t ds"

section \<open>Definitions\<close>

text \<open>\<open>qualify_free\<close>: a free undotted name that the current namespace defines gets its full name; only lambdas bind here.\<close>

primrec qualify_free :: "spaces \<Rightarrow> ddef list \<Rightarrow> string list \<Rightarrow> tm \<Rightarrow> tm" where
  "qualify_free sp ds g (Var x) =
     (if dot \<notin> set x \<and> x \<notin> set g \<and> curr_ns sp \<noteq> [] \<and> lookup_raw ds (qual_name (curr_ns sp) x) \<noteq> None
      then Var (qual_name (curr_ns sp) x) else Var x)"
| "qualify_free sp ds g (Lam x b) = Lam x (qualify_free sp ds (x # g) b)"
| "qualify_free sp ds g (App f a) = App (qualify_free sp ds g f) (qualify_free sp ds g a)"
| "qualify_free sp ds g (Num s) = Num s"
| "qualify_free sp ds g (Flt s) = Flt s"
| "qualify_free sp ds g (Let x v b) = Let x (qualify_free sp ds g v) (qualify_free sp ds g b)"
| "qualify_free sp ds g (Def x b) = Def x (qualify_free sp ds g b)"
| "qualify_free sp ds g (Defx x t b) = Defx x t (qualify_free sp ds g b)"
| "qualify_free sp ds g (Load s) = Load s"
| "qualify_free sp ds g (Namespace s) = Namespace s"
| "qualify_free sp ds g (Open_ns s) = Open_ns s"
| "qualify_free sp ds g (Export s) = Export s"
| "qualify_free sp ds g (Data s n cs) = Data s n cs"
| "qualify_free sp ds g (Baked s) = Baked s"

definition full_name :: "spaces \<Rightarrow> string \<Rightarrow> string" where
  "full_name sp x = (if curr_ns sp \<noteq> [] \<and> dot \<notin> set x then qual_name (curr_ns sp) x else x)"

text \<open>\<open>process_def\<close> of \<open>(define x v)\<close>, or of \<open>(define! x t v)\<close> when a type is given.\<close>

definition process_def :: "nat \<Rightarrow> string \<Rightarrow> ty option \<Rightarrow> tm \<Rightarrow> tst \<Rightarrow> tst" where
  "process_def k x annot v st =
     (let rec = term_refs v x;
          sch = (case annot of None \<Rightarrow> None | Some t \<Rightarrow> scheme_all k (links st) t);
          v' = qualify_free (spaces st) (defs st) [] v
      in st\<lparr>defs := defs st @
           [\<lparr>dname = full_name (spaces st) x, dterm = (if rec then term_fix x v' else v'),
             draw = (if rec then Some v' else None), dsch = sch, drec = rec,
             dexp = None, dcomp = False, dtried = False\<rparr>]\<rparr>)"

text \<open>\<open>export_namespace\<close>: an alias for every public direct member of the namespace.\<close>

definition member_of :: "string \<Rightarrow> string \<Rightarrow> string option" where
  "member_of ns full =
     (let p = qual_name ns [] in
      if take (length p) full \<noteq> p then None
      else (let s = drop (length p) full
            in if s = [] \<or> dot \<in> set s \<or> hd s = CHR ''_'' then None else Some s))"

definition export_namespace :: "nat \<Rightarrow> string \<Rightarrow> tst \<Rightarrow> tst" where
  "export_namespace k ns st =
     (if ns = [] then st
      else fold (\<lambda>s st. process_def k s None (Var (qual_name ns s)) st)
             (List.map_filter (\<lambda>d. member_of ns (dname d)) (defs st)) st)"

section \<open>Datatypes\<close>

definition slot_name :: "nat \<Rightarrow> string" where
  "slot_name i = ''_d'' @ show_nat i"

text \<open>\<open>scott_ctor\<close>: \<open>\\f1 .. fk d0 .. dm. (di f1 .. fk)\<close>.\<close>

definition scott_ctor :: "nat \<Rightarrow> string list \<Rightarrow> nat \<Rightarrow> tm" where
  "scott_ctor i xs m =
     foldr Lam xs (foldr Lam (map slot_name [0..<m])
       (foldl App (Var (slot_name i)) (map Var xs)))"

text \<open>\<open>resolve_dt_type\<close>: parameter references become the parameters' variables; an untyped field a fresh one.\<close>

fun resolve_dt_type :: "ty \<Rightarrow> ty list \<Rightarrow> ty" where
  "resolve_dt_type (Ty_param i) ps = ps ! i"
| "resolve_dt_type (Ty_arrow a b) ps = Ty_arrow (resolve_dt_type a ps) (resolve_dt_type b ps)"
| "resolve_dt_type (Ty_nom s ts) ps = Ty_nom s (map (\<lambda>t. resolve_dt_type t ps) ts)"
| "resolve_dt_type (Ty_var v) ps = Ty_var v"

definition field_type :: "ty option \<Rightarrow> ty list \<Rightarrow> tst \<Rightarrow> ty \<times> tst" where
  "field_type annot ps st =
     (case annot of
        None \<Rightarrow> (Ty_var (next_id st), st\<lparr>next_id := next_id st + 1\<rparr>)
      | Some t \<Rightarrow> (resolve_dt_type t ps, st))"

fun field_types :: "ty option list \<Rightarrow> ty list \<Rightarrow> tst \<Rightarrow> ty list \<times> tst" where
  "field_types [] ps st = ([], st)"
| "field_types (a # as) ps st =
     (let (t, st1) = field_type a ps st; (ts, st2) = field_types as ps st1 in (t # ts, st2))"

text \<open>One constructor: its parameters fresh, its type \<open>t1 -> .. -> Name p1 .. pk\<close>, its body the Scott encoding.\<close>

definition process_ctor :: "nat \<Rightarrow> string \<Rightarrow> nat \<Rightarrow> nat \<Rightarrow> nat \<times> ctor \<Rightarrow> tst \<Rightarrow> tst" where
  "process_ctor k dn arity m ic st =
     (let (i, c, fs) = ic;
          ps = map Ty_var [next_id st ..< next_id st + arity];
          st1 = st\<lparr>next_id := next_id st + arity\<rparr>;
          (ts, st2) = field_types (map snd fs) ps st1
      in process_def k c (Some (foldr Ty_arrow ts (Ty_nom dn ps))) (scott_ctor i (map fst fs) m) st2)"

definition process_datatype :: "nat \<Rightarrow> string \<Rightarrow> nat \<Rightarrow> ctor list \<Rightarrow> tst \<Rightarrow> tst" where
  "process_datatype k dn arity cs st = fold (process_ctor k dn arity (length cs)) (enumerate 0 cs) st"

text \<open>\<open>type_domain\<close>: the value domain the head of a type names (\<open>DT_NUM\<close>, \<open>DT_BOOL\<close>, \<open>DT_STR\<close>, \<open>DT_FLOAT\<close>), or -1.\<close>

definition type_domain :: "nat \<Rightarrow> links \<Rightarrow> ty \<Rightarrow> int" where
  "type_domain k l t =
     (case find_ty k l t of
        Some (Ty_nom s ts) \<Rightarrow>
          if s = ''num'' then 0 else if s = ''bool'' then 1 else if s = ''float'' then 4
          else if s = ''list'' then 2 else -1
      | _ \<Rightarrow> -1)"

end
