(* ===== verification/ProgramProps.thy ===== *)
theory ProgramProps
  imports Program
begin

text \<open>
  What definitions and their expansion (\<open>src/main.c\<close>) guarantee, and the programs on which they do not:
  expansion of a program whose definitions precede their uses and whose binders shadow no definition
  resolves every name; a binder that shadows a definition is where it goes wrong.
\<close>

section \<open>Programs in order\<close>

primrec binders :: "tm \<Rightarrow> string set" where
  "binders (Var x) = {}"
| "binders (Lam x b) = insert x (binders b)"
| "binders (App f a) = binders f \<union> binders a"
| "binders (Num s) = {}"
| "binders (Flt s) = {}"
| "binders (Let x v b) = insert x (binders v \<union> binders b)"
| "binders (Def x b) = binders b"
| "binders (Defx x t b) = binders b"
| "binders (Load s) = {}"
| "binders (Namespace s) = {}"
| "binders (Open_ns s) = {}"
| "binders (Export s) = {}"
| "binders (Data s n cs) = {}"
| "binders (Baked s) = {}"

text \<open>The terms a program computes with.\<close>

primrec core :: "tm \<Rightarrow> bool" where
  "core (Var x) = True"
| "core (Lam x b) = core b"
| "core (App f a) = (core f \<and> core a)"
| "core (Num s) = True"
| "core (Flt s) = True"
| "core (Let x v b) = (core v \<and> core b)"
| "core (Def x b) = False"
| "core (Defx x t b) = False"
| "core (Load s) = False"
| "core (Namespace s) = False"
| "core (Open_ns s) = False"
| "core (Export s) = False"
| "core (Data s n cs) = False"
| "core (Baked s) = False"

definition resolved :: "spaces \<Rightarrow> ddef list \<Rightarrow> tm \<Rightarrow> bool" where
  "resolved sp ds t \<longleftrightarrow> (\<forall>x \<in> frees t. def_find sp ds x = None)"

definition no_shadow :: "spaces \<Rightarrow> ddef list \<Rightarrow> tm \<Rightarrow> bool" where
  "no_shadow sp ds t \<longleftrightarrow> (\<forall>x \<in> binders t. def_find sp ds x = None)"

definition below :: "spaces \<Rightarrow> ddef list \<Rightarrow> nat \<Rightarrow> tm \<Rightarrow> bool" where
  "below sp ds b t \<longleftrightarrow> (\<forall>x \<in> frees t. \<forall>j. def_find sp ds x = Some j \<longrightarrow> j < b)"

text \<open>Definitions precede their uses, no binder shadows one, a kept expansion is resolved, and the name of
  a definition finds it or a later one.\<close>

definition in_order :: "spaces \<Rightarrow> ddef list \<Rightarrow> bool" where
  "in_order sp ds \<longleftrightarrow> (\<forall>i < length ds.
     core (dterm (ds ! i)) \<and> below sp ds i (dterm (ds ! i)) \<and> no_shadow sp ds (dterm (ds ! i)) \<and>
     \<not> dcomp (ds ! i) \<and> (\<forall>e. dexp (ds ! i) = Some e \<longrightarrow> resolved sp ds e) \<and>
     (\<exists>j \<ge> i. def_find sp ds (dname (ds ! i)) = Some j))"

definition same_defs :: "ddef list \<Rightarrow> ddef list \<Rightarrow> bool" where
  "same_defs ds ds' \<longleftrightarrow> map dname ds = map dname ds' \<and> map dterm ds = map dterm ds'"

lemma same_defs_find: "same_defs ds ds' \<Longrightarrow> def_find sp ds' x = def_find sp ds x"
  unfolding same_defs_def by (metis def_find_names)

lemma same_defs_resolved:
  assumes "same_defs ds ds'"
  shows "resolved sp ds' t = resolved sp ds t" "no_shadow sp ds' t = no_shadow sp ds t" "below sp ds' b t = below sp ds b t"
  by (simp_all add: resolved_def no_shadow_def below_def same_defs_find[OF assms])

lemma same_defs_refl [simp]: "same_defs ds ds"
  by (simp add: same_defs_def)

lemma same_defs_trans: "same_defs a b \<Longrightarrow> same_defs b c \<Longrightarrow> same_defs a c"
  by (simp add: same_defs_def)

lemma map_upd_same: "f y = f (xs ! i) \<Longrightarrow> i < length xs \<Longrightarrow> map f (xs[i := y]) = map f xs"
  by (metis list_update_id map_update)

text \<open>The outcome of an expansion that ends well.\<close>

definition expands_to :: "spaces \<Rightarrow> ddef list \<Rightarrow> (tm \<times> ddef list) option \<Rightarrow> bool" where
  "expands_to sp ds r \<longleftrightarrow> (\<exists>t' ds'. r = Some (t', ds') \<and> resolved sp ds t' \<and> in_order sp ds' \<and> same_defs ds ds')"

lemma expands_toE:
  assumes "expands_to sp ds r"
  obtains t' ds' where "r = Some (t', ds')" "resolved sp ds t'" "in_order sp ds'" "same_defs ds ds'"
  using assms by (auto simp: expands_to_def)

text \<open>A guard that names no definition below \<open>b\<close>.\<close>

definition guards :: "spaces \<Rightarrow> ddef list \<Rightarrow> nat \<Rightarrow> string list \<Rightarrow> bool" where
  "guards sp ds b g \<longleftrightarrow> (\<forall>x \<in> set g. \<forall>j. def_find sp ds x = Some j \<longrightarrow> b \<le> j)"

text \<open>From fuel \<open>K\<close> on, the term is expanded well, whatever the program has cached.\<close>

definition settles :: "spaces \<Rightarrow> ddef list \<Rightarrow> nat \<Rightarrow> nat \<Rightarrow> tm \<Rightarrow> bool" where
  "settles sp ds0 b K t \<longleftrightarrow> (\<forall>k g ds. K \<le> k \<longrightarrow> same_defs ds0 ds \<longrightarrow> in_order sp ds \<longrightarrow> guards sp ds0 b g \<longrightarrow>
     expands_to sp ds (expand k sp None g t ds))"

lemma settlesD:
  assumes "settles sp ds0 b K t" "K \<le> k" "same_defs ds0 ds" "in_order sp ds" "guards sp ds0 b g"
  obtains t' ds' where "expand k sp None g t ds = Some (t', ds')" "resolved sp ds t'" "in_order sp ds'" "same_defs ds ds'"
proof -
  have "expands_to sp ds (expand k sp None g t ds)" using assms unfolding settles_def by blast
  then show ?thesis by (rule expands_toE) (rule that)
qed

text \<open>A name: unknown, guarded, or a definition whose body settles.\<close>

lemma settles_var:
  assumes "below sp ds0 b (Var x)"
    and "\<And>i. def_find sp ds0 x = Some i \<Longrightarrow> settles sp ds0 i K (dterm (ds0 ! i))"
  shows "settles sp ds0 b (K + 2) (Var x)"
  unfolding settles_def
proof (intro allI impI)
  fix k g and ds :: "ddef list"
  assume kK: "K + 2 \<le> k" and s0: "same_defs ds0 ds" and o: "in_order sp ds" and g: "guards sp ds0 b g"
  define j where "j = k - 2"
  have k: "k = Suc (Suc j)" "K \<le> j" using kK by (simp_all add: j_def)
  note fd = same_defs_find[OF s0]
  show "expands_to sp ds (expand k sp None g (Var x) ds)"
  proof (cases "x \<notin> set g \<and> def_find sp ds x \<noteq> None")
    case False
    then have n: "def_find sp ds x = None" using assms(1) g fd by (fastforce simp: below_def guards_def)
    then show ?thesis using k o by (simp add: expands_to_def resolved_def)
  next
    case True
    then obtain i where i: "def_find sp ds x = Some i" "x \<notin> set g" by auto
    have l: "i < length ds" using def_find_bound[OF i(1)] .
    have len: "length ds = length ds0" using s0 unfolding same_defs_def by (metis length_map)
    have dt: "dterm (ds0 ! i) = dterm (ds ! i)" using s0 l len unfolding same_defs_def by (metis nth_map)
    have b: "i < b" using assms(1) i fd by (simp add: below_def)
    have oi: "\<not> dcomp (ds ! i)" "\<forall>e. dexp (ds ! i) = Some e \<longrightarrow> resolved sp ds e" "\<exists>m \<ge> i. def_find sp ds (dname (ds ! i)) = Some m"
      using o l by (auto simp: in_order_def)
    show ?thesis
    proof (cases "dexp (ds ! i)")
      case (Some e)
      then show ?thesis using k i oi o by (simp add: expands_to_def)
    next
      case None
      have g': "guards sp ds0 i (dname (ds ! i) # g)"
        using oi(3) g b fd by (fastforce simp: guards_def)
      obtain e ds' where e: "expand j sp None (dname (ds ! i) # g) (dterm (ds ! i)) ds = Some (e, ds')"
        "resolved sp ds e" "in_order sp ds'" "same_defs ds ds'"
        using settlesD[OF assms(2)[of i] k(2) s0 o g'] i fd dt by metis
      let ?ds = "ds'[i := (ds' ! i)\<lparr>dexp := Some e\<rparr>]"
      have l': "i < length ds'" using l e(4) unfolding same_defs_def by (metis length_map)
      have s': "same_defs ds' ?ds" using l' by (simp add: same_defs_def map_upd_same)
      have r: "resolved sp ds' e" using e(2) same_defs_resolved(1)[OF e(4)] by simp
      have "in_order sp ?ds"
        unfolding in_order_def same_defs_resolved[OF s'] same_defs_find[OF s']
      proof (intro allI impI)
        fix a assume "a < length ?ds"
        then show "core (dterm (?ds ! a)) \<and> below sp ds' a (dterm (?ds ! a)) \<and> no_shadow sp ds' (dterm (?ds ! a)) \<and>
          \<not> dcomp (?ds ! a) \<and> (\<forall>e. dexp (?ds ! a) = Some e \<longrightarrow> resolved sp ds' e) \<and>
          (\<exists>j \<ge> a. def_find sp ds' (dname (?ds ! a)) = Some j)"
          using e(3) r l' by (cases "a = i") (auto simp: in_order_def)
      qed
      moreover have "expand k sp None g (Var x) ds = Some (e, ?ds)"
        using k(1) i None e(1) l' e(3) by (simp add: in_order_def)
      ultimately show ?thesis using e(2) same_defs_trans[OF e(4) s'] by (simp add: expands_to_def)
    qed
  qed
qed

lemma settles_lam:
  assumes "settles sp ds0 b K t" "def_find sp ds0 x = None"
  shows "settles sp ds0 b (Suc K) (Lam x t)"
  unfolding settles_def
proof (intro allI impI)
  fix k g and ds :: "ddef list"
  assume kK: "Suc K \<le> k" and s0: "same_defs ds0 ds" and o: "in_order sp ds" and g: "guards sp ds0 b g"
  obtain j where k: "k = Suc j" "K \<le> j" using kK by (cases k) auto
  have g': "guards sp ds0 b (x # g)" using g assms(2) by (simp add: guards_def)
  obtain t' ds' where "expand j sp None (x # g) t ds = Some (t', ds')" "resolved sp ds t'" "in_order sp ds'" "same_defs ds ds'"
    using settlesD[OF assms(1) k(2) s0 o g'] by metis
  then show "expands_to sp ds (expand k sp None g (Lam x t) ds)" using k(1) by (auto simp: expands_to_def resolved_def)
qed

text \<open>Two parts, one after the other, the second on what the first has cached.\<close>

lemma settles_two:
  assumes "settles sp ds0 b K t" "settles sp ds0 b L u" "K \<le> k" "L \<le> k" "same_defs ds0 ds" "in_order sp ds"
    "guards sp ds0 b g" "guards sp ds0 b h"
  obtains t' ds1 u' ds2 where "expand k sp None g t ds = Some (t', ds1)" "expand k sp None h u ds1 = Some (u', ds2)"
    "resolved sp ds t'" "resolved sp ds u'" "in_order sp ds2" "same_defs ds ds2"
proof -
  obtain t' ds1 where t: "expand k sp None g t ds = Some (t', ds1)" "resolved sp ds t'" "in_order sp ds1" "same_defs ds ds1"
    using settlesD[OF assms(1,3,5,6,7)] by metis
  obtain u' ds2 where u: "expand k sp None h u ds1 = Some (u', ds2)" "resolved sp ds1 u'" "in_order sp ds2" "same_defs ds1 ds2"
    using settlesD[OF assms(2,4) same_defs_trans[OF assms(5) t(4)] t(3) assms(8)] by metis
  have "resolved sp ds u'" using u(2) same_defs_resolved(1)[OF t(4)] by simp
  then show ?thesis by (rule that[OF t(1) u(1) t(2) _ u(3) same_defs_trans[OF t(4) u(4)]])
qed

lemma settles_app:
  assumes "settles sp ds0 b K f" "settles sp ds0 b L a"
  shows "settles sp ds0 b (Suc (max K L)) (App f a)"
  unfolding settles_def
proof (intro allI impI)
  fix k g and ds :: "ddef list"
  assume kK: "Suc (max K L) \<le> k" and s0: "same_defs ds0 ds" and o: "in_order sp ds" and g: "guards sp ds0 b g"
  obtain j where k: "k = Suc j" "K \<le> j" "L \<le> j" using kK by (cases k) auto
  obtain f' ds1 a' ds2 where "expand j sp None g f ds = Some (f', ds1)" "expand j sp None g a ds1 = Some (a', ds2)"
    "resolved sp ds f'" "resolved sp ds a'" "in_order sp ds2" "same_defs ds ds2"
    using settles_two[OF assms k(2,3) s0 o g g] by metis
  then show "expands_to sp ds (expand k sp None g (App f a) ds)" using k(1) by (auto simp: expands_to_def resolved_def)
qed

lemma settles_let:
  assumes "settles sp ds0 b K v" "settles sp ds0 b L t" "def_find sp ds0 x = None"
  shows "settles sp ds0 b (Suc (max K L)) (Let x v t)"
  unfolding settles_def
proof (intro allI impI)
  fix k g and ds :: "ddef list"
  assume kK: "Suc (max K L) \<le> k" and s0: "same_defs ds0 ds" and o: "in_order sp ds" and g: "guards sp ds0 b g"
  obtain j where k: "k = Suc j" "K \<le> j" "L \<le> j" using kK by (cases k) auto
  have g': "guards sp ds0 b (x # g)" using g assms(3) by (simp add: guards_def)
  obtain v' ds1 t' ds2 where "expand j sp None (x # g) v ds = Some (v', ds1)" "expand j sp None g t ds1 = Some (t', ds2)"
    "resolved sp ds v'" "resolved sp ds t'" "in_order sp ds2" "same_defs ds ds2"
    using settles_two[OF assms(1,2) k(2,3) s0 o g' g] by metis
  then show "expands_to sp ds (expand k sp None g (Let x v t) ds)" using k(1) by (auto simp: expands_to_def resolved_def)
qed

lemma settles_core:
  assumes "in_order sp ds0" "core t" "below sp ds0 b t" "no_shadow sp ds0 t"
  shows "\<exists>K. settles sp ds0 b K t"
  using assms(2-)
proof (induction b arbitrary: t rule: less_induct)
  case (less b)
  note outer = less.IH
  show ?case using less.prems
  proof (induction t)
    case (Var x)
    show ?case
    proof (cases "def_find sp ds0 x")
      case None
      then show ?thesis using settles_var[OF Var(2), of 0] by auto
    next
      case (Some i)
      have "i < b" using Var(2) Some by (simp add: below_def)
      moreover have "core (dterm (ds0 ! i))" "below sp ds0 i (dterm (ds0 ! i))" "no_shadow sp ds0 (dterm (ds0 ! i))"
        using assms(1) def_find_bound[OF Some] by (auto simp: in_order_def)
      ultimately obtain K where "settles sp ds0 i K (dterm (ds0 ! i))" using outer by blast
      then show ?thesis using settles_var[OF Var(2), of K] Some by auto
    qed
  next
    case (Lam x t)
    have u: "def_find sp ds0 x = None" using Lam.prems(3) by (simp add: no_shadow_def)
    have "core t" "below sp ds0 b t" "no_shadow sp ds0 t"
      using Lam.prems u by (fastforce simp: below_def no_shadow_def)+
    then show ?case using Lam.IH settles_lam u by blast
  next
    case (App f a)
    then show ?case using settles_app by (fastforce simp: below_def no_shadow_def)
  next
    case (Let x v t)
    have u: "def_find sp ds0 x = None" using Let.prems(3) by (simp add: no_shadow_def)
    have "core v" "below sp ds0 b v" "no_shadow sp ds0 v" "core t" "below sp ds0 b t" "no_shadow sp ds0 t"
      using Let.prems u by (fastforce simp: below_def no_shadow_def)+
    then show ?case using Let.IH settles_let u by blast
  next
    case (Num s)
    have "settles sp ds0 b 1 (Num s)"
      unfolding settles_def
    proof (intro allI impI)
      fix k :: nat and g and ds :: "ddef list" assume "1 \<le> k" "in_order sp ds"
      then show "expands_to sp ds (expand k sp None g (Num s) ds)" by (cases k) (auto simp: expands_to_def resolved_def)
    qed
    then show ?case by blast
  next
    case (Flt s)
    have "settles sp ds0 b 1 (Flt s)"
      unfolding settles_def
    proof (intro allI impI)
      fix k :: nat and g and ds :: "ddef list" assume "1 \<le> k" "in_order sp ds"
      then show "expands_to sp ds (expand k sp None g (Flt s) ds)" by (cases k) (auto simp: expands_to_def resolved_def)
    qed
    then show ?case by blast
  qed simp_all
qed

section \<open>The laws\<close>

text \<open>C34. Expansion ends and resolves every name of a program whose definitions precede their uses and in which no
  binder carries the name of a definition: no name of a definition is left free, and the program stays so.\<close>

theorem expand_resolves_program:
  assumes "in_order sp ds" "core t" "no_shadow sp ds t"
  shows "\<exists>K. \<forall>k \<ge> K. \<exists>t' ds'. expand_defs k sp None t ds = Some (t', ds') \<and> resolved sp ds t' \<and> in_order sp ds' \<and>
    same_defs ds ds'"
proof -
  have "below sp ds (length ds) t" using def_find_bound by (auto simp: below_def)
  then obtain K where K: "settles sp ds (length ds) K t" using settles_core assms by blast
  have "expands_to sp ds (expand k sp None [] t ds)" if "K \<le> k" for k
    using K that assms(1) by (simp add: settles_def guards_def)
  then show ?thesis by (auto simp: expands_to_def expand_defs_def)
qed

definition root_space :: spaces where
  "root_space = \<lparr>curr_ns = [], open_ns = []\<rparr>"

definition def_of :: "string \<Rightarrow> tm \<Rightarrow> ddef" where
  "def_of x b = \<lparr>dname = x, dterm = b, draw = None, dsch = None, drec = False, dexp = None, dcomp = False, dtried = False\<rparr>"

theorem expand_resolves_program_witness:
  "let ds = [def_of ''id'' (Lam ''x'' (Var ''x'')), def_of ''two'' (App (Var ''id'') (Var ''id''))] in
     in_order root_space ds \<and> (\<exists>K. \<forall>k \<ge> K. \<exists>t' ds'. expand_defs k root_space None (App (Var ''two'') (Num ''7'')) ds = Some (t', ds') \<and>
       resolved root_space ds t')"
proof -
  let ?ds = "[def_of ''id'' (Lam ''x'' (Var ''x'')), def_of ''two'' (App (Var ''id'') (Var ''id''))]"
  have f: "def_find root_space ?ds ''id'' = Some 0" "def_find root_space ?ds ''two'' = Some 1"
    "def_find root_space ?ds ''x'' = None"
    by (simp_all add: def_find_def candidates_def root_space_def lookup_raw_def def_of_def dot_def)
  have o: "in_order root_space ?ds"
    unfolding in_order_def
  proof (intro allI impI)
    fix i assume "i < length ?ds"
    then consider "i = 0" | "i = 1" by fastforce
    then show "core (dterm (?ds ! i)) \<and> below root_space ?ds i (dterm (?ds ! i)) \<and> no_shadow root_space ?ds (dterm (?ds ! i)) \<and>
     \<not> dcomp (?ds ! i) \<and> (\<forall>e. dexp (?ds ! i) = Some e \<longrightarrow> resolved root_space ?ds e) \<and>
     (\<exists>j \<ge> i. def_find root_space ?ds (dname (?ds ! i)) = Some j)"
    proof cases
      case 1
      then show ?thesis using f by (simp add: below_def no_shadow_def) (simp add: def_of_def)
    next
      case 2
      then show ?thesis using f by (simp add: below_def no_shadow_def) (simp add: def_of_def)
    qed
  qed
  have "core (App (Var ''two'') (Num ''7''))" "no_shadow root_space ?ds (App (Var ''two'') (Num ''7''))"
    by (simp_all add: no_shadow_def)
  from expand_resolves_program[OF o this] show ?thesis unfolding Let_def using o by blast
qed

text \<open>A let whose name is also defined is expanded wrongly: its name is guarded in the value only, so in the body
  the definition takes the place of the binder.\<close>

theorem let_body_loses_binder:
  "map_option fst (expand_defs 9 root_space None (Let ''x'' (Num ''5'') (Var ''x''))
     [def_of ''x'' (Num ''1'')]) = Some (Let ''x'' (Num ''5'') (Num ''1''))"
  by code_simp

text \<open>The expansion of a definition is kept with the names that happened to be bound where it was first used: after
  a use below a lambda that binds \<open>g\<close>, the definition \<open>f\<close> refers to \<open>g\<close> for good, and the first use is captured.\<close>

theorem expansion_keeps_captured_names:
  "let ds = [def_of ''g'' (Num ''1''), def_of ''f'' (Lam ''y'' (Var ''g''))];
       r = expand_defs 9 root_space None (Lam ''g'' (Var ''f'')) ds
   in map_option fst r = Some (Lam ''g'' (Lam ''y'' (Var ''g''))) \<and>
      map_option fst (expand_defs 9 root_space None (Var ''f'') (snd (the r))) = Some (Lam ''y'' (Var ''g'')) \<and>
      map_option fst (expand_defs 9 root_space None (Var ''f'') ds) = Some (Lam ''y'' (Num ''1''))"
  by code_simp

text \<open>A let binder does not protect its name from qualification: in a namespace that defines the name, the body
  of the let refers to the definition.\<close>

theorem qualify_ignores_let:
  "qualify_free \<lparr>curr_ns = ''m'', open_ns = []\<rparr> [def_of ''m.x'' (Num ''1'')] [] (Let ''x'' (Num ''5'') (Var ''x'')) =
     Let ''x'' (Num ''5'') (Var ''m.x'') \<and>
   qualify_free \<lparr>curr_ns = ''m'', open_ns = []\<rparr> [def_of ''m.x'' (Num ''1'')] [] (Lam ''x'' (Var ''x'')) = Lam ''x'' (Var ''x'')"
  by code_simp

section \<open>New definitions\<close>

lemma last_index_append:
  "last_index p (xs @ [y]) = (if p y then Some (length xs) else last_index p xs)"
  by (induction xs) (auto split: option.splits)

lemma lookup_raw_append:
  "lookup_raw (ds @ [d]) s = (if dname d = s then Some (length ds) else lookup_raw ds s)"
  by (simp add: lookup_raw_def last_index_append)

lemma process_def_defs:
  "\<exists>d. defs (process_def k x annot v st) = defs st @ [d] \<and> dname d = full_name (spaces st) x \<and>
     spaces (process_def k x annot v st) = spaces st"
  by (simp add: process_def_def Let_def)

lemma first_known_none: "(\<And>s. s \<in> set ss \<Longrightarrow> lookup_raw ds s = None) \<Longrightarrow> first_known ds (ss @ ts) = first_known ds ts"
  by (induction ss) auto

lemma qual_name_dot: "dot \<in> set (qual_name ns x)"
  by (simp add: qual_name_def)

text \<open>C35. A definition is what its name means from then on: an undotted name is found as the definition just made,
  inside a namespace always, at the root unless an opened namespace has a member of that name.\<close>

theorem definition_is_found:
  assumes "dot \<notin> set x"
    and "curr_ns (spaces st) \<noteq> [] \<or> (\<forall>ns \<in> set (open_ns (spaces st)). lookup_raw (defs st) (qual_name ns x) = None)"
  shows "def_find (spaces st) (defs (process_def k x annot v st)) x = Some (length (defs st))"
proof -
  obtain d where d: "defs (process_def k x annot v st) = defs st @ [d]" "dname d = full_name (spaces st) x"
    using process_def_defs by blast
  show ?thesis
  proof (cases "curr_ns (spaces st) = []")
    case False
    then show ?thesis using assms(1) d by (simp add: def_find_def candidates_def full_name_def lookup_raw_append)
  next
    case True
    then have n: "dname d = x" using d by (simp add: full_name_def)
    have "lookup_raw (defs st @ [d]) s = None" if s: "s \<in> set (map (\<lambda>ns. qual_name ns x) (rev (open_ns (spaces st))))" for s
    proof -
      obtain ns where ns: "s = qual_name ns x" "ns \<in> set (open_ns (spaces st))" using s by auto
      have "s \<noteq> x" using ns qual_name_dot[of ns x] assms(1) by metis
      then show ?thesis using ns assms(2) True n by (simp add: lookup_raw_append)
    qed
    then have "first_known (defs st @ [d]) (map (\<lambda>ns. qual_name ns x) (rev (open_ns (spaces st))) @ [x]) =
        first_known (defs st @ [d]) [x]"
      by (rule first_known_none)
    then show ?thesis using assms(1) d n True by (simp add: def_find_def candidates_def lookup_raw_append)
  qed
qed

theorem definition_is_found_witness:
  "def_find \<lparr>curr_ns = ''m'', open_ns = [''n'']\<rparr>
     (defs (process_def 9 ''x'' None (Num ''2'')
       \<lparr>links = (\<lambda>v. None), next_id = 0, tenv = [], defs = [def_of ''x'' (Num ''1''), def_of ''n.x'' (Num ''1'')],
        spaces = \<lparr>curr_ns = ''m'', open_ns = [''n'']\<rparr>, envrc = (\<lambda>v. 0), reg_n = 0, reports = []\<rparr>)) ''x'' = Some 2"
  using definition_is_found[of "''x''" "\<lparr>links = (\<lambda>v. None), next_id = 0, tenv = [],
    defs = [def_of ''x'' (Num ''1''), def_of ''n.x'' (Num ''1'')],
    spaces = \<lparr>curr_ns = ''m'', open_ns = [''n'']\<rparr>, envrc = (\<lambda>v. 0), reg_n = 0, reports = []\<rparr>" 9 None "Num ''2''"]
  by (simp add: dot_def numeral_2_eq_2)

section \<open>Datatypes\<close>

lemma frees_lams: "frees (foldr Lam xs b) = frees b - set xs"
  by (induction xs) auto

lemma frees_apps: "frees (foldl App f as) = frees f \<union> (\<Union>a \<in> set as. frees a)"
  by (induction as arbitrary: f) auto

lemma scott_ctor_closed: "i < m \<Longrightarrow> frees (scott_ctor i xs m) = {}"
  by (auto simp: scott_ctor_def frees_lams frees_apps)

lemma qualify_lams: "qualify_free sp ds g (foldr Lam xs b) = foldr Lam xs (qualify_free sp ds (rev xs @ g) b)"
  by (induction xs arbitrary: g) auto

lemma qualify_apps:
  "qualify_free sp ds g (foldl App f as) = foldl App (qualify_free sp ds g f) (map (qualify_free sp ds g) as)"
  by (induction as arbitrary: f) auto

lemma qualify_scott: "i < m \<Longrightarrow> qualify_free sp ds g (scott_ctor i xs m) = scott_ctor i xs m"
proof -
  assume i: "i < m"
  have "map (qualify_free sp ds (rev (map slot_name [0..<m]) @ rev xs @ g) \<circ> Var) xs = map Var xs"
    by (auto intro!: map_cong)
  moreover have "slot_name i \<in> slot_name ` {0..<m}" using i by simp
  ultimately show ?thesis by (simp add: scott_ctor_def qualify_lams qualify_apps del: map_eq_conv)
qed

lemma process_ctor_def:
  assumes "fst ic < m"
  shows "\<exists>d. defs (process_ctor k dn a m ic st) = defs st @ [d] \<and> dname d = full_name (spaces st) (fst (snd ic)) \<and>
    dterm d = scott_ctor (fst ic) (map fst (snd (snd ic))) m \<and>
    spaces (process_ctor k dn a m ic st) = spaces st"
proof -
  obtain i c fs where ic: "ic = (i, c, fs)" by (cases ic)
  have f: "defs (snd (field_types as ps st)) = defs st \<and> spaces (snd (field_types as ps st)) = spaces st" for as ps and st :: tst
    by (induction as ps st rule: field_types.induct)
      (auto simp: Let_def field_type_def split: prod.splits option.splits)
  obtain ts st2 where t: "field_types (map snd fs) (map Ty_var [next_id st ..< next_id st + a]) (st\<lparr>next_id := next_id st + a\<rparr>) = (ts, st2)"
    by fastforce
  have s2: "defs st2 = defs st" "spaces st2 = spaces st" using f t by (metis snd_conv tst.ext_inject tst.surjective tst.update_convs(2))+
  have r: "\<not> term_refs (scott_ctor i (map fst fs) m) c" using scott_ctor_closed[of i m "map fst fs"] assms ic by (simp add: term_refs_frees)
  have q: "qualify_free (spaces st2) (defs st2) [] (scott_ctor i (map fst fs) m) = scott_ctor i (map fst fs) m"
    using qualify_scott assms ic by simp
  show ?thesis using t r q s2 by (simp add: process_ctor_def ic process_def_def Let_def)
qed

lemma process_ctors_defs:
  assumes "\<forall>ic \<in> set ics. fst ic < m"
  shows "\<exists>ds'. defs (fold (process_ctor k dn a m) ics st) = defs st @ ds' \<and>
     map dname ds' = map (\<lambda>(i, c, fs). full_name (spaces st) c) ics \<and>
     map dterm ds' = map (\<lambda>(i, c, fs). scott_ctor i (map fst fs) m) ics"
  using assms
proof (induction ics arbitrary: st)
  case (Cons ic ics)
  obtain d where d: "defs (process_ctor k dn a m ic st) = defs st @ [d]" "dname d = full_name (spaces st) (fst (snd ic))"
    "dterm d = scott_ctor (fst ic) (map fst (snd (snd ic))) m" "spaces (process_ctor k dn a m ic st) = spaces st"
    using process_ctor_def[of ic m k dn a st] Cons.prems by auto
  obtain ds' where ds': "defs (fold (process_ctor k dn a m) ics (process_ctor k dn a m ic st)) = defs (process_ctor k dn a m ic st) @ ds'"
    "map dname ds' = map (\<lambda>(i, c, fs). full_name (spaces st) c) ics"
    "map dterm ds' = map (\<lambda>(i, c, fs). scott_ctor i (map fst fs) m) ics"
    using Cons.IH[of "process_ctor k dn a m ic st"] Cons.prems d(4) by auto
  show ?case by (rule exI[of _ "d # ds'"]) (use d ds' in \<open>simp add: case_prod_unfold\<close>)
qed simp

text \<open>A datatype of \<open>m\<close> constructors adds \<open>m\<close> definitions, in order: each under its full name, its body the Scott
  encoding over its fields and \<open>m\<close> cases, untouched by qualification and recursion.\<close>

theorem datatype_defines_constructors:
  "\<exists>ds'. defs (process_datatype k dn a cs st) = defs st @ ds' \<and>
     map dname ds' = map (\<lambda>(c, fs). full_name (spaces st) c) cs \<and>
     map dterm ds' = map (\<lambda>(i, c, fs). scott_ctor i (map fst fs) (length cs)) (enumerate 0 cs)"
proof -
  have "\<forall>ic \<in> set (enumerate 0 cs). fst ic < length cs" by (auto simp: enumerate_eq_zip elim: in_set_zipE)
  from process_ctors_defs[OF this, of k dn a st] obtain ds' where
    ds': "defs (fold (process_ctor k dn a (length cs)) (enumerate 0 cs) st) = defs st @ ds'"
      "map dname ds' = map (\<lambda>(i, c, fs). full_name (spaces st) c) (enumerate 0 cs)"
      "map dterm ds' = map (\<lambda>(i, c, fs). scott_ctor i (map fst fs) (length cs)) (enumerate 0 cs)" by blast
  have "map (\<lambda>(i, c, fs). full_name (spaces st) c) (enumerate 0 cs) = map (\<lambda>(c, fs). full_name (spaces st) c) (map snd (enumerate 0 cs))"
    by (simp only: map_map o_def case_prod_unfold)
  then have "map dname ds' = map (\<lambda>(c, fs). full_name (spaces st) c) cs" using ds'(2) by simp
  then show ?thesis using ds' by (auto simp: process_datatype_def)
qed

end
