(* ===== verification/Build.thy ===== *)
theory Build
  imports Program ParserTotal
begin

text \<open>
  The driver of the compiler (\<open>src/main.c\<close>): what is done with each form read, loading of files, and the
  search for the artifact of a build.
\<close>

section \<open>Forms\<close>

text \<open>What the program writes: a reader's or a checker's error, or a term handed on to the reducer.\<close>

datatype event = Read_error string | Type_error terr | No_expansion | Run tm int | Ran_artifact string | Cannot_load string

text \<open>
  \<open>ps\<close> holds the reader's globals between forms, \<open>tc\<close> the checker's and the definitions; \<open>loaded\<close> and \<open>dirs\<close>
  are \<open>loaded_paths\<close> and \<open>dir_stack\<close> (its top first); \<open>building\<close>, \<open>build_term\<close> and \<open>build_read_err\<close> belong to a
  build; \<open>out\<close> is the output.
\<close>

record top =
  tc :: tst
  ps :: pst
  building :: bool
  build_term :: "tm option"
  build_read_err :: bool
  loaded :: "string list"
  dirs :: "string list"
  out :: "event list"

text \<open>The file system: whether a path is an artifact that runs, where a path resolves to, what a file holds, its directory.\<close>

record files =
  run_line :: "string \<Rightarrow> bool"
  resolve_path :: "string list \<Rightarrow> string \<Rightarrow> string option"
  read_file :: "string \<Rightarrow> string option"
  dir_of :: "string \<Rightarrow> string"

definition emit :: "event \<Rightarrow> top \<Rightarrow> top" where
  "emit e tp = tp\<lparr>out := out tp @ [e]\<rparr>"

definition on_tc :: "(tst \<Rightarrow> tst) \<Rightarrow> top \<Rightarrow> top" where
  "on_tc f tp = tp\<lparr>tc := f (tc tp)\<rparr>"

definition on_spaces :: "(spaces \<Rightarrow> spaces) \<Rightarrow> top \<Rightarrow> top" where
  "on_spaces f = on_tc (\<lambda>st. st\<lparr>spaces := f (spaces st)\<rparr>)"

text \<open>\<open>eval_form\<close> up to the reducer: definitions and namespace forms are no programs; the rest is checked and expanded.\<close>

definition eval_form :: "nat \<Rightarrow> tm \<Rightarrow> top \<Rightarrow> top" where
  "eval_form k t tp =
     (case t of
        Def _ _ \<Rightarrow> tp | Defx _ _ _ \<Rightarrow> tp | Namespace _ \<Rightarrow> tp | Open_ns _ \<Rightarrow> tp
      | _ \<Rightarrow>
          (case type_check k t (tc tp) of
             (Inl e, st) \<Rightarrow> emit (Type_error e) (tp\<lparr>tc := st\<rparr>)
           | (Inr s, st) \<Rightarrow>
               (case expand_defs k (spaces st) None t (defs st) of
                  None \<Rightarrow> emit No_expansion (tp\<lparr>tc := st\<rparr>)
                | Some (ex, ds) \<Rightarrow>
                    emit (Run ex (type_domain k (links st) (snd s))) (tp\<lparr>tc := st\<lparr>defs := ds\<rparr>\<rparr>))))"

text \<open>The reader and the checker draw their type variables from one counter.\<close>

definition read_form :: "top \<Rightarrow> (perr + tm) \<times> top" where
  "read_form tp =
     (let (r, p) = parse_term (fuel (ps tp)) (ps tp\<lparr>next_tv := next_id (tc tp)\<rparr>)
      in (r, tp\<lparr>ps := p, tc := (tc tp)\<lparr>next_id := next_tv p\<rparr>\<rparr>))"

definition error_text :: "perr \<Rightarrow> string" where
  "error_text e = ''parse error: '' @ (case e of Fail m \<Rightarrow> m | No_fuel \<Rightarrow> [])"

fun run_forms :: "nat \<Rightarrow> files \<Rightarrow> top \<Rightarrow> top" and form_cb :: "nat \<Rightarrow> files \<Rightarrow> string + tm \<Rightarrow> top \<Rightarrow> top"
  and load_file :: "nat \<Rightarrow> files \<Rightarrow> string \<Rightarrow> top \<Rightarrow> bool \<times> top" where
  "run_forms 0 fs tp = tp"
| "run_forms (Suc k) fs tp =
     (let tp = tp\<lparr>ps := skipws (ps tp)\<rparr>
      in if at_end (ps tp) then tp
         else (case read_form tp of
                 (Inr t, tp') \<Rightarrow> run_forms k fs (form_cb k fs (Inr t) tp')
               | (Inl e, tp') \<Rightarrow>
                   (let tp1 = form_cb k fs (Inl (error_text e)) tp'
                    in run_forms k fs (tp1\<lparr>ps := ps tp1\<lparr>rest := resync (rest (ps tp))\<rparr>\<rparr>))))"
| "form_cb 0 fs r tp = tp"
| "form_cb (Suc k) fs r tp =
     (case r of
        Inl msg \<Rightarrow> emit (Read_error msg) (tp\<lparr>build_read_err := True\<rparr>)
      | Inr t \<Rightarrow>
          (let tp = tp\<lparr>build_read_err := False\<rparr>
           in case t of
                Load p \<Rightarrow> (case load_file k fs p tp of (ok, tp') \<Rightarrow> if ok then tp' else emit (Cannot_load p) tp')
              | Namespace x \<Rightarrow> on_spaces (set_namespace x) tp
              | Open_ns x \<Rightarrow> on_spaces (open_namespace x) tp
              | Export x \<Rightarrow> on_tc (export_namespace k x) tp
              | Def x v \<Rightarrow> on_tc (process_def k x None v) tp
              | Defx x ty v \<Rightarrow> on_tc (process_def k x (Some ty) v) tp
              | Data d n cs \<Rightarrow> on_tc (process_datatype k d n cs) (tp\<lparr>ps := nominal_register d n (ps tp)\<rparr>)
              | _ \<Rightarrow> if building tp then tp\<lparr>build_term := Some t\<rparr> else eval_form k t tp))"
| "load_file 0 fs p tp = (False, tp)"
| "load_file (Suc k) fs p tp =
     (if \<not> building tp \<and> run_line fs p then (True, emit (Ran_artifact p) tp)
      else case resolve_path fs (dirs tp) p of
             None \<Rightarrow> (False, tp)
           | Some full \<Rightarrow>
               if full \<in> set (loaded tp) then (True, tp)
               else (let tp1 = tp\<lparr>loaded := loaded tp @ [full]\<rparr>
                     in case read_file fs full of
                          None \<Rightarrow> (False, tp1)
                        | Some src \<Rightarrow>
                            (let tp2 = run_forms k fs (tp1\<lparr>dirs := dir_of fs full # dirs tp1, ps := ps tp1\<lparr>rest := src\<rparr>\<rparr>);
                                 tp3 = tp2\<lparr>ps := ps tp2\<lparr>rest := rest (ps tp)\<rparr>, dirs := tl (dirs tp2)\<rparr>
                             in (True, on_spaces (\<lambda>sp. sp\<lparr>curr_ns := curr_ns (spaces (tc tp)),
                                          open_ns := take (length (open_ns (spaces (tc tp)))) (open_ns sp)\<rparr>) tp3))))"

section \<open>The candidates of a build\<close>

type_synonym environ = "string \<Rightarrow> string option"

record cand =
  cname :: string
  egraph :: "string option"
  rules :: "string option"
  precompile :: bool

definition aot_default_cand :: cand where
  "aot_default_cand = \<lparr>cname = ''default'', egraph = None, rules = None, precompile = False\<rparr>"

definition aot_cands :: "cand list" where
  "aot_cands =
     [\<lparr>cname = ''default'', egraph = None, rules = None, precompile = False\<rparr>,
      \<lparr>cname = ''precompiled'', egraph = None, rules = None, precompile = True\<rparr>,
      \<lparr>cname = ''no-egraph'', egraph = Some ''off'', rules = None, precompile = False\<rparr>,
      \<lparr>cname = ''rules=eta'', egraph = None, rules = Some ''eta'', precompile = False\<rparr>]"

definition aot_apply_cand :: "cand \<Rightarrow> environ \<Rightarrow> environ" where
  "aot_apply_cand c env =
     env(''LIN_NO_EGRAPH'' := (if egraph c = Some ''off'' then Some ''1'' else None),
         ''LIN_EGRULES'' := rules c,
         ''LIN_PRECOMPILE'' := (if precompile c then None else Some ''0''))"

text \<open>The test at the start of \<open>def_precompile\<close>.\<close>

definition precompile_on :: "environ \<Rightarrow> bool" where
  "precompile_on env \<longleftrightarrow> env ''LIN_PRECOMPILE'' = Some ''1''"

text \<open>What is measured of a candidate: \<open>rsteps\<close> is -1 where the artifact could not be loaded back.\<close>

record stats =
  bytes :: int
  rsteps :: int
  ok :: bool

text \<open>
  \<open>aot_run\<close>: compile and reduce the program, compact, save, load back, and reduce again.  \<open>build\<close> is the
  pipeline up to the net, \<open>net_save\<close> the size of the file written, \<open>net_load\<close> and \<open>reduce\<close> the way back.
\<close>

definition aot_run ::
  "(environ \<Rightarrow> 'n option) \<Rightarrow> ('n \<Rightarrow> 'n) \<Rightarrow> ('n \<Rightarrow> int option) \<Rightarrow> ('n \<Rightarrow> 'n option) \<Rightarrow> ('n \<Rightarrow> int) \<Rightarrow>
   cand \<Rightarrow> environ \<Rightarrow> stats option \<times> environ" where
  "aot_run build gc save net_load reduce c env =
     (let env = aot_apply_cand c env
      in (case build env of
            None \<Rightarrow> None
          | Some n \<Rightarrow>
              (case save (gc n) of
                 None \<Rightarrow> None
               | Some sz \<Rightarrow>
                   Some \<lparr>bytes = sz, rsteps = (case net_load (gc n) of None \<Rightarrow> -1 | Some m \<Rightarrow> reduce m), ok = True\<rparr>), env))"

definition aot_better :: "stats \<Rightarrow> stats \<Rightarrow> bool \<Rightarrow> bool" where
  "aot_better a b bytes_first =
     (if \<not> ok b then True
      else if \<not> ok a then False
      else if bytes_first then (if bytes a \<noteq> bytes b then bytes a < bytes b else rsteps a < rsteps b)
      else if rsteps a \<noteq> rsteps b then rsteps a < rsteps b
      else bytes a < bytes b)"

text \<open>The state of the search: the best row so far with its measurements, and the temporary files left.\<close>

record search =
  best :: "(nat \<times> stats) option"
  temps :: "nat set"
  senv :: environ

definition aot_step :: "(cand \<Rightarrow> environ \<Rightarrow> stats option \<times> environ) \<Rightarrow> bool \<Rightarrow> nat \<times> cand \<Rightarrow> search \<Rightarrow> search" where
  "aot_step run bytes_first ic s =
     (let (i, c) = ic; (r, env) = run c (senv s); s = s\<lparr>senv := env\<rparr>
      in case r of
           None \<Rightarrow> s\<lparr>temps := temps s - {i}\<rparr>
         | Some st \<Rightarrow>
             (if (case best s of None \<Rightarrow> True | Some (j, b) \<Rightarrow> aot_better st b bytes_first)
              then s\<lparr>best := Some (i, st), temps := insert i (temps s)\<rparr>
              else s\<lparr>temps := temps s - {i}\<rparr>))"

text \<open>The row that ships, and the temporary files that remain after it is renamed.\<close>

definition aot_search :: "(cand \<Rightarrow> environ \<Rightarrow> stats option \<times> environ) \<Rightarrow> environ \<Rightarrow> (nat \<times> stats) option \<times> nat set" where
  "aot_search run env =
     (let bytes_first = (env ''LIN_AOT_OBJ'' = Some ''bytes'');
          rows = (if env ''LIN_AOT_SEARCH'' = None then [aot_default_cand] else aot_cands);
          s = fold (aot_step run bytes_first) (enumerate 0 rows) \<lparr>best = None, temps = {}, senv = env\<rparr>
      in (best s, case best s of None \<Rightarrow> temps s | Some (i, b) \<Rightarrow> temps s - {i}))"

section \<open>Building\<close>

datatype build_result = Unreadable | Unparsed | Nothing_to_build | Ill_typed terr | Built "(nat \<times> stats) option"

text \<open>\<open>do_build\<close>: the last expression of the file, or \<open>main\<close>; a file whose last form does not parse is refused.\<close>

definition do_build :: "nat \<Rightarrow> files \<Rightarrow> (tm \<Rightarrow> (nat \<times> stats) option) \<Rightarrow> string \<Rightarrow> top \<Rightarrow> build_result" where
  "do_build k fs ship path tp =
     (case load_file k fs path (tp\<lparr>building := True, build_term := None, build_read_err := False\<rparr>) of
        (False, _) \<Rightarrow> Unreadable
      | (True, tp) \<Rightarrow>
          if build_read_err tp then Unparsed
          else (let t = (case build_term tp of
                           Some t \<Rightarrow> Some t
                         | None \<Rightarrow> if def_find (spaces (tc tp)) (defs (tc tp)) ''main'' \<noteq> None then Some (Var ''main'') else None)
                in case t of
                     None \<Rightarrow> Nothing_to_build
                   | Some t \<Rightarrow>
                       (case fst (type_check k t (tc tp)) of Inl e \<Rightarrow> Ill_typed e | Inr s \<Rightarrow> Built (ship t))))"

end
