(* ===== verification/BuildProps.thy ===== *)
theory BuildProps
  imports Build TypesProps
begin

text \<open>
  What loading and building (\<open>src/main.c\<close>) guarantee: a file leaves the namespaces as it found them, a
  build ships a candidate no other one beats, and a file whose last form does not parse is not built.
\<close>

section \<open>Namespaces\<close>

text \<open>Opened namespaces are only ever appended; the reader's and checker's work does not touch them.\<close>

definition opens_more :: "top \<Rightarrow> top \<Rightarrow> bool" where
  "opens_more tp tp' \<longleftrightarrow> (\<exists>more. open_ns (spaces (tc tp')) = open_ns (spaces (tc tp)) @ more)"

lemma opens_more_refl: "opens_more tp tp"
  by (simp add: opens_more_def)

lemma opens_more_trans: "opens_more a b \<Longrightarrow> opens_more b c \<Longrightarrow> opens_more a c"
  by (auto simp: opens_more_def)

lemma opens_more_same: "spaces (tc tp') = spaces (tc tp) \<Longrightarrow> opens_more tp tp'"
  by (simp add: opens_more_def)

lemma process_def_spaces: "spaces (process_def k x a v st) = spaces st"
  by (simp add: process_def_def Let_def)

lemma fold_same: "(\<And>x st. f (g x st) = f st) \<Longrightarrow> f (fold g xs st) = f st"
  by (induction xs arbitrary: st) auto

lemma export_spaces: "spaces (export_namespace k ns st) = spaces st"
  unfolding export_namespace_def by (auto intro!: fold_same process_def_spaces)

lemma field_types_spaces: "spaces (snd (field_types qs vs st)) = spaces st"
  by (induction qs vs st rule: field_types.induct)
    (auto simp: Let_def field_type_def split: prod.splits option.splits)

lemma process_ctor_spaces: "spaces (process_ctor k dn a m ic st) = spaces st"
proof -
  obtain i c fs where ic: "ic = (i, c, fs)" by (cases ic)
  obtain ts st2 where t: "field_types (map snd fs) (map Ty_var [next_id st ..< next_id st + a]) (st\<lparr>next_id := next_id st + a\<rparr>) = (ts, st2)"
    by fastforce
  show ?thesis using t field_types_spaces[of "map snd fs" "map Ty_var [next_id st ..< next_id st + a]" "st\<lparr>next_id := next_id st + a\<rparr>"] by (simp add: process_ctor_def ic Let_def process_def_spaces)
qed

lemma process_datatype_spaces: "spaces (process_datatype k dn a cs st) = spaces st"
  unfolding process_datatype_def by (intro fold_same process_ctor_spaces)

text \<open>A check leaves the namespaces alone, whether it succeeds or fails.\<close>

lemma load_defs_spaces: "spaces (snd (env_load_defs k outer st)) = spaces st"
proof -
  define g :: "ddef \<Rightarrow> tst \<Rightarrow> tst" where "g = (\<lambda>d st. case dsch d of Some s \<Rightarrow> count_free k s st | None \<Rightarrow> st)"
  have "spaces (g d st) = spaces st" for d st by (simp add: g_def count_free_fields split: option.splits)
  then have "spaces (fold g ds st) = spaces st" for ds by (rule fold_same)
  moreover have "snd (env_load_defs k outer st) =
      (let s = (fold g (drop (reg_n st) (defs st)) st)\<lparr>reg_n := length (defs st)\<rparr> in if outer then s\<lparr>tenv := []\<rparr> else s)"
    by (simp add: env_load_defs_def pmodify_def g_def Let_def)
  ultimately show ?thesis by (simp add: Let_def)
qed

lemma type_check_spaces: "spaces (snd (type_check k t st)) = spaces st"
proof -
  obtain s0 where s0: "env_load_defs k True st = (Inr (), s0)" by (auto simp: env_load_defs_def pmodify_def)
  have e: "spaces s0 = spaces st" using load_defs_spaces[of k True st] s0 by simp
  have "calm (pbind (infer k t) (generalize k))" using calm_infer calm_generalize by (intro calm_pbind) auto
  then have "st_ext s0 (snd (pbind (infer k t) (generalize k) s0))" using calmD by (metis prod.collapse)
  moreover have "snd (type_check k t st) = snd (pbind (infer k t) (generalize k) s0)"
    by (simp add: type_check_def pbind_def[of "env_load_defs k True"] s0)
  ultimately show ?thesis using e by (simp add: st_ext_def)
qed

lemma eval_form_spaces: "spaces (tc (eval_form k t tp)) = spaces (tc tp)"
proof -
  obtain r st where r: "type_check k t (tc tp) = (r, st)" by fastforce
  have "spaces st = spaces (tc tp)" using type_check_spaces[of k t "tc tp"] r by simp
  then show ?thesis using r
    by (auto simp: eval_form_def emit_def split: tm.splits sum.splits option.splits prod.splits)
qed

lemma read_form_spaces: "read_form tp = (r, tp') \<Longrightarrow> spaces (tc tp') = spaces (tc tp)"
  by (auto simp: read_form_def Let_def split: prod.splits)

lemma on_spaces_opens:
  "\<exists>more. open_ns (f (spaces (tc tp))) = open_ns (spaces (tc tp)) @ more \<Longrightarrow> opens_more tp (on_spaces f tp)"
  by (simp add: opens_more_def on_spaces_def on_tc_def)

lemma forms_opens:
  "opens_more tp (run_forms k fs tp) \<and> opens_more tp (form_cb k fs r tp) \<and> opens_more tp (snd (load_file k fs p tp)) \<and>
   spaces (tc (snd (load_file k fs p tp))) = spaces (tc tp)"
proof (induction k arbitrary: tp r p)
  case 0
  then show ?case by (simp add: opens_more_refl)
next
  case (Suc k)
  have R: "opens_more tp (run_forms k fs tp)" and F: "opens_more tp (form_cb k fs r tp)"
    and L: "spaces (tc (snd (load_file k fs p tp))) = spaces (tc tp)" for tp r p using Suc by blast+
  have forms: "opens_more tp (run_forms (Suc k) fs tp)"
  proof -
    let ?tp = "tp\<lparr>ps := skipws (ps tp)\<rparr>"
    obtain r tp' where r: "read_form ?tp = (r, tp')" by fastforce
    have e: "opens_more tp tp'" using read_form_spaces[OF r] by (intro opens_more_same) simp
    show ?thesis
    proof (cases r)
      case (Inr t)
      have "opens_more tp (run_forms k fs (form_cb k fs (Inr t) tp'))"
        using e F[of tp' "Inr t"] R[of "form_cb k fs (Inr t) tp'"] opens_more_trans by blast
      then show ?thesis using r Inr opens_more_same[of ?tp tp] by (simp add: Let_def opens_more_same)
    next
      case (Inl m)
      let ?t1 = "form_cb k fs (Inl (error_text m)) tp'"
      let ?t2 = "?t1\<lparr>ps := ps ?t1\<lparr>rest := resync (rest (ps ?tp))\<rparr>\<rparr>"
      have "opens_more ?t1 ?t2" by (rule opens_more_same) simp
      then have "opens_more tp (run_forms k fs ?t2)"
        using e F[of tp' "Inl (error_text m)"] R[of ?t2] opens_more_trans by blast
      then show ?thesis using r Inl by (simp add: Let_def opens_more_same)
    qed
  qed
  have load: "spaces (tc (snd (load_file (Suc k) fs p tp))) = spaces (tc tp)"
  proof (cases "(\<not> building tp \<and> run_line fs p) \<or> resolve_path fs (dirs tp) p = None")
    case True
    then show ?thesis by (auto simp: emit_def)
  next
    case False
    then obtain full where full: "resolve_path fs (dirs tp) p = Some full" by auto
    show ?thesis
    proof (cases "full \<in> set (loaded tp) \<or> read_file fs full = None")
      case True
      then show ?thesis using False full by (auto simp: Let_def)
    next
      case f: False
      then obtain src where src: "read_file fs full = Some src" by auto
      let ?t1 = "tp\<lparr>loaded := loaded tp @ [full]\<rparr>"
      let ?t2 = "?t1\<lparr>dirs := dir_of fs full # dirs ?t1, ps := ps ?t1\<lparr>rest := src\<rparr>\<rparr>"
      obtain more where "open_ns (spaces (tc (run_forms k fs ?t2))) = open_ns (spaces (tc tp)) @ more"
        using R[of ?t2] by (auto simp: opens_more_def)
      then show ?thesis using False f full src
        by (simp add: Let_def on_spaces_def on_tc_def emit_def)
    qed
  qed
  have cb: "opens_more tp (form_cb (Suc k) fs r tp)"
  proof (cases r)
    case (Inl m)
    then show ?thesis by (simp add: emit_def opens_more_same)
  next
    case (Inr t)
    let ?tp = "tp\<lparr>build_read_err := False\<rparr>"
    have "opens_more ?tp (form_cb (Suc k) fs (Inr t) tp)"
    proof (cases t)
      case (Load p)
      obtain okk tp' where l: "load_file k fs p ?tp = (okk, tp')" by fastforce
      have "spaces (tc tp') = spaces (tc ?tp)" using L[where p = p and tp = ?tp] l by simp
      then show ?thesis using Load l by (simp add: emit_def opens_more_def)
    next
      case (Namespace x)
      then show ?thesis by (simp add: on_spaces_opens set_namespace_def)
    next
      case (Open_ns x)
      then show ?thesis by (simp add: on_spaces_opens open_namespace_def)
    next
      case (Export x)
      then show ?thesis by (simp add: opens_more_same on_tc_def export_spaces)
    next
      case (Def x v)
      then show ?thesis by (simp add: opens_more_same on_tc_def process_def_spaces)
    next
      case (Defx x ty v)
      then show ?thesis by (simp add: opens_more_same on_tc_def process_def_spaces)
    next
      case (Data d n cs)
      then show ?thesis by (simp add: opens_more_same on_tc_def process_datatype_spaces)
    qed (simp_all add: Let_def opens_more_def eval_form_spaces)
    then show ?thesis using Inr by (simp add: opens_more_def)
  qed
  show ?case using forms cb load opens_more_same by simp
qed

text \<open>Loading a file leaves the current namespace and the opened ones as they were, whatever the file and the files
  it loads open, and whether or not it can be read.\<close>

theorem load_keeps_namespaces:
  "spaces (tc (snd (load_file k fs p tp))) = spaces (tc tp)"
  using forms_opens by blast

section \<open>The search\<close>

text \<open>The order of the rows: by remaining work and then by size, or the other way round.\<close>

definition measure_of :: "bool \<Rightarrow> stats \<Rightarrow> int \<times> int" where
  "measure_of bf s = (if bf then (bytes s, rsteps s) else (rsteps s, bytes s))"

lemma aot_better_measure:
  "ok a \<Longrightarrow> ok b \<Longrightarrow> aot_better a b bf \<longleftrightarrow>
     fst (measure_of bf a) < fst (measure_of bf b) \<or>
     fst (measure_of bf a) = fst (measure_of bf b) \<and> snd (measure_of bf a) < snd (measure_of bf b)"
  by (auto simp: aot_better_def measure_of_def)

lemma aot_better_trans:
  assumes "ok a" "ok b" "ok c" "\<not> aot_better a b bf" "\<not> aot_better b c bf"
  shows "\<not> aot_better a c bf"
  using assms by (auto simp: aot_better_measure)

text \<open>The rows tried, with the measurements each gave, as the environment is passed on from one to the next.\<close>

fun tried :: "(cand \<Rightarrow> environ \<Rightarrow> stats option \<times> environ) \<Rightarrow> (nat \<times> cand) list \<Rightarrow> environ \<Rightarrow> (nat \<times> stats) list" where
  "tried run [] env = []"
| "tried run ((i, c) # ics) env =
     (case run c env of
        (None, env') \<Rightarrow> tried run ics env'
      | (Some s, env') \<Rightarrow> (i, s) # tried run ics env')"

definition beats_none :: "bool \<Rightarrow> (nat \<times> stats) list \<Rightarrow> (nat \<times> stats) option \<Rightarrow> bool" where
  "beats_none bf rows r \<longleftrightarrow>
     (case r of
        None \<Rightarrow> rows = []
      | Some (i, b) \<Rightarrow> (i, b) \<in> set rows \<and> (\<forall>(j, s) \<in> set rows. \<not> aot_better s b bf))"

lemma aot_fold:
  assumes "\<And>c env s env'. run c env = (Some s, env') \<Longrightarrow> ok s" "beats_none bf rows (best s)"
    "\<forall>(i, st) \<in> set rows. ok st"
  shows "beats_none bf (rows @ tried run ics (senv s)) (best (fold (aot_step run bf) ics s))"
  using assms(2,3)
proof (induction ics arbitrary: s rows)
  case (Cons ic ics)
  obtain i c where ic: "ic = (i, c)" by (cases ic)
  obtain r env' where r: "run c (senv s) = (r, env')" by fastforce
  show ?case
  proof (cases r)
    case None
    let ?s = "s\<lparr>senv := env', temps := temps s - {i}\<rparr>"
    have "aot_step run bf ic s = ?s" using r None ic by (simp add: aot_step_def Let_def)
    then show ?thesis using Cons.IH[of rows ?s] Cons.prems r None ic by simp
  next
    case (Some st)
    have o: "ok st" using assms(1) r Some by blast
    let ?s = "aot_step run bf ic s"
    have e: "senv ?s = env'" using r Some ic by (simp add: aot_step_def Let_def split: option.splits)
    have "beats_none bf (rows @ [(i, st)]) (best ?s)"
    proof (cases "best s")
      case None
      then have "best ?s = Some (i, st)" "rows = []"
        using r Some ic Cons.prems by (simp_all add: aot_step_def Let_def beats_none_def)
      then show ?thesis using o by (simp add: beats_none_def aot_better_def)
    next
      case b: (Some jb)
      obtain j b where jb: "best s = Some (j, b)" using b by (cases jb) auto
      have in': "(j, b) \<in> set rows" "\<forall>(j, s) \<in> set rows. \<not> aot_better s b bf" using Cons.prems(1) jb by (auto simp: beats_none_def)
      have ob: "ok b" using in'(1) Cons.prems(2) by auto
      show ?thesis
      proof (cases "aot_better st b bf")
        case True
        have "\<not> aot_better s' st bf" if "(j', s') \<in> set rows" for j' s'
        proof -
          have "\<not> aot_better s' b bf" "ok s'" using that in'(2) Cons.prems(2) by auto
          moreover have "\<not> aot_better b st bf" using True o ob by (auto simp: aot_better_measure)
          ultimately show ?thesis using aot_better_trans o ob by blast
        qed
        moreover have "best ?s = Some (i, st)" using r Some ic jb True by (simp add: aot_step_def Let_def)
        moreover have "\<not> aot_better st st bf" using o by (simp add: aot_better_measure)
        ultimately show ?thesis by (auto simp: beats_none_def)
      next
        case False
        have "best ?s = Some (j, b)" using r Some ic jb False by (simp add: aot_step_def Let_def)
        then show ?thesis using in' False by (auto simp: beats_none_def)
      qed
    qed
    then show ?thesis using Cons.IH[of "rows @ [(i, st)]" ?s] Cons.prems(2) o e r Some ic by simp
  qed
qed simp

text \<open>C36. The build ships a candidate that none of those tried beats, and ships none only if none produced an
  artifact; without \<open>LIN_AOT_SEARCH\<close> the only row is the default.\<close>

theorem aot_search_ships_unbeaten:
  assumes "\<And>c env s env'. run c env = (Some s, env') \<Longrightarrow> ok s"
  shows "beats_none (env ''LIN_AOT_OBJ'' = Some ''bytes'')
     (tried run (enumerate 0 (if env ''LIN_AOT_SEARCH'' = None then [aot_default_cand] else aot_cands)) env)
     (fst (aot_search run env))"
  using aot_fold[OF assms, where rows = "[]" and s = "\<lparr>best = None, temps = {}, senv = env\<rparr>"]
  by (simp add: aot_search_def Let_def beats_none_def)

text \<open>A pipeline that measures each row by what the environment asks for.\<close>

definition sample_run :: "cand \<Rightarrow> environ \<Rightarrow> stats option \<times> environ" where
  "sample_run c env =
     aot_run (\<lambda>env. Some (if env ''LIN_NO_EGRAPH'' = None then 3 else 5)) (\<lambda>n. n) (\<lambda>n. Some (10 * n))
       (\<lambda>n. Some n) (\<lambda>n. n) c env"

theorem aot_search_ships_unbeaten_witness:
  "beats_none False (tried sample_run (enumerate 0 aot_cands) [''LIN_AOT_SEARCH'' \<mapsto> ''1''])
     (fst (aot_search sample_run [''LIN_AOT_SEARCH'' \<mapsto> ''1'']))"
proof -
  have k: "\<And>c env s env'. sample_run c env = (Some s, env') \<Longrightarrow> ok s"
    by (auto simp: sample_run_def aot_run_def Let_def)
  show ?thesis
    using aot_search_ships_unbeaten[where run = sample_run and env = "[''LIN_AOT_SEARCH'' \<mapsto> ''1'']", OF k] by simp
qed

section \<open>Rows and files that should not ship\<close>

text \<open>No row of the search turns precompilation on: the row that asks for it clears the variable, and only its
  value \<open>1\<close> enables it.\<close>

theorem precompiled_row_precompiles_nothing:
  "map (\<lambda>c. precompile_on (aot_apply_cand c env)) aot_cands = [False, False, False, False]"
  by (simp add: aot_cands_def aot_apply_cand_def precompile_on_def)

text \<open>A candidate whose artifact cannot be loaded back is measured as -1 steps of remaining work, and so beats every
  candidate that can.\<close>

theorem unloadable_artifact_beats_all:
  "aot_better \<lparr>bytes = b, rsteps = -1, ok = True\<rparr> \<lparr>bytes = b', rsteps = int n, ok = True\<rparr> False"
  by (simp add: aot_better_def)

text \<open>A build of a file whose last form does not parse is refused, whatever was read before it.\<close>

theorem unparsed_file_is_not_built:
  assumes "load_file k fs path (tp\<lparr>building := True, build_term := None, build_read_err := False\<rparr>) = (True, tp')"
    and "build_read_err tp'"
  shows "do_build k fs ship path tp = Unparsed"
  using assms by (simp add: do_build_def)

end
