(* ===== verification/EGraph.thy ===== *)
theory EGraph
  imports ProbeTable Terms
begin

text \<open>
  The e-graph optimiser of \<open>src/compile.c\<close>: hash-consed e-nodes in equivalence classes kept by a
  union-find, the rewrite rules \<open>beta\<close> and \<open>eta\<close>, the cost model, extraction of the cheapest term and the
  lifting of shared closed applications into lets.  Node and class numbers are natural numbers; the
  child that C writes as -1 is \<open>None\<close>.  Costs are \<open>int\<close> in C and natural numbers here: the model does not
  wrap them.  Where C leaves the order of the two arguments of a call open the left one is evaluated first.
  A child that is missing where the kind of a node has one (its term had no class) indexes the classes
  at -1 in C; the model counts it as cost 0 and skips the rule.
\<close>

section \<open>The graph\<close>

text \<open>The kinds of term a node can have, with the numbers of the enumeration of \<open>src/lin.h\<close>.\<close>

datatype ekind = K_var | K_lam | K_app | K_def | K_defx | K_float | K_let | K_num

fun ekind_code :: "ekind \<Rightarrow> nat" where
  "ekind_code K_var = 0"
| "ekind_code K_lam = 1"
| "ekind_code K_app = 2"
| "ekind_code K_def = 3"
| "ekind_code K_defx = 4"
| "ekind_code K_float = 9"
| "ekind_code K_let = 11"
| "ekind_code K_num = 12"

datatype enode = ENode (ek: ekind) (ename: string) (el: "nat option") (er: "nat option")

record eclass =
  eparent :: nat
  best_node :: nat
  ecost :: nat

record egraph =
  enodes :: "enode list"
  node_cls :: "nat list"
  eclasses :: "eclass list"
  eslot :: "nat \<Rightarrow> nat option"
  ehcap :: nat
  capture :: bool

definition egraph_empty :: egraph where
  "egraph_empty = \<lparr>enodes = [], node_cls = [], eclasses = [], eslot = (\<lambda>_. None), ehcap = 0, capture = False\<rparr>"

section \<open>Union-find\<close>

definition set_parent :: "nat \<Rightarrow> nat \<Rightarrow> egraph \<Rightarrow> egraph" where
  "set_parent c p g = g\<lparr>eclasses := (eclasses g)[c := (eclasses g ! c)\<lparr>eparent := p\<rparr>]\<rparr>"

text \<open>\<open>eg_find\<close> with its path halving; the classes on a walk are distinct, so their number is fuel enough.\<close>

fun find_loop :: "nat \<Rightarrow> nat \<Rightarrow> egraph \<Rightarrow> nat \<times> egraph" where
  "find_loop 0 c g = (c, g)"
| "find_loop (Suc k) c g =
     (if eparent (eclasses g ! c) = c then (c, g)
      else let p = eparent (eclasses g ! eparent (eclasses g ! c)) in find_loop k p (set_parent c p g))"

definition eg_find :: "nat \<Rightarrow> egraph \<Rightarrow> nat \<times> egraph" where
  "eg_find c g = find_loop (length (eclasses g)) c g"

fun eg_opaque :: "ekind \<Rightarrow> bool" where
  "eg_opaque K_def = True"
| "eg_opaque K_defx = True"
| "eg_opaque K_float = True"
| "eg_opaque K_num = True"
| "eg_opaque _ = False"

definition eg_union :: "nat \<Rightarrow> nat \<Rightarrow> egraph \<Rightarrow> egraph" where
  "eg_union c1 c2 g0 =
     (case eg_find c1 g0 of (r1, g1) \<Rightarrow> case eg_find c2 g1 of (r2, g2) \<Rightarrow>
        if r1 = r2 then g2
        else if ecost (eclasses g2 ! r1) \<le> ecost (eclasses g2 ! r2) then set_parent r2 r1 g2
        else set_parent r1 r2 g2)"

section \<open>Costs\<close>

definition child_cost :: "nat option \<Rightarrow> egraph \<Rightarrow> nat \<times> egraph" where
  "child_cost c g = (case c of None \<Rightarrow> (0, g) | Some c \<Rightarrow> (case eg_find c g of (r, g1) \<Rightarrow> (ecost (eclasses g1 ! r), g1)))"

definition eg_cost :: "enode \<Rightarrow> egraph \<Rightarrow> nat \<times> egraph" where
  "eg_cost n g =
     (if ek n = K_var \<or> eg_opaque (ek n) then (1, g)
      else if ek n = K_lam then (case child_cost (el n) g of (a, g1) \<Rightarrow> (2 + a, g1))
      else (case child_cost (el n) g of (a, g1) \<Rightarrow> case child_cost (er n) g1 of (b, g2) \<Rightarrow> (3 + a + b, g2)))"

section \<open>The table of nodes\<close>

definition child_word :: "nat option \<Rightarrow> 32 word" where
  "child_word c = (case c of None \<Rightarrow> - 1 | Some i \<Rightarrow> of_nat i)"

text \<open>\<open>eg_hash\<close>, in unsigned 32-bit arithmetic.\<close>

definition eg_hash :: "enode \<Rightarrow> 32 word" where
  "eg_hash n =
     (let h0 = of_nat (ekind_code (ek n)) * 2654435761;
          h1 = foldl (\<lambda>h c. h * 131 + of_nat (of_char c)) h0 (ename n);
          h2 = h1 * 2654435761 + child_word (el n)
      in h2 * 2654435761 + child_word (er n))"

definition eg_home :: "enode \<Rightarrow> nat \<Rightarrow> nat" where
  "eg_home n cap = slot_mask cap (unat (eg_hash n))"

definition eg_key :: "egraph \<Rightarrow> nat \<Rightarrow> enode" where
  "eg_key g i = enodes g ! i"

definition eg_rehash :: "nat \<Rightarrow> egraph \<Rightarrow> egraph" where
  "eg_rehash cap g =
     g\<lparr>ehcap := cap, eslot := foldl (enter eg_home (eg_key g) cap) (\<lambda>_. None) [0..<length (enodes g)]\<rparr>"

definition eg_room :: "egraph \<Rightarrow> egraph" where
  "eg_room g = (if ehcap g \<le> (length (enodes g) + 1) * 2
                then eg_rehash (if ehcap g \<noteq> 0 then ehcap g * 2 else 1024) g else g)"

definition eg_lookup :: "enode \<Rightarrow> egraph \<Rightarrow> nat option \<times> egraph" where
  "eg_lookup n g0 =
     (let g = eg_room g0
      in (case probe (eslot g) (\<lambda>i. eg_key g i = n) (ehcap g) (eg_home n (ehcap g)) (ehcap g) of
            None \<Rightarrow> None | Some h \<Rightarrow> eslot g h, g))"

definition eg_insert :: "nat \<Rightarrow> egraph \<Rightarrow> egraph" where
  "eg_insert nid g = g\<lparr>eslot := enter eg_home (eg_key g) (ehcap g) (eslot g) nid\<rparr>"

definition find_child :: "nat option \<Rightarrow> egraph \<Rightarrow> nat option \<times> egraph" where
  "find_child c g = (case c of None \<Rightarrow> (None, g) | Some c \<Rightarrow> (case eg_find c g of (r, g1) \<Rightarrow> (Some r, g1)))"

text \<open>\<open>eg_add\<close>: the class of the node over the representatives of its children, entered if it is new.\<close>

definition eg_enter :: "enode \<Rightarrow> egraph \<Rightarrow> nat \<times> egraph" where
  "eg_enter n g =
     (let nid = length (enodes g); cid = length (eclasses g);
          g1 = g\<lparr>enodes := enodes g @ [n], node_cls := node_cls g @ [cid]\<rparr>
      in case eg_cost n g1 of (cst, g2) \<Rightarrow>
           (cid, eg_insert nid (g2\<lparr>eclasses := eclasses g2 @ [\<lparr>eparent = cid, best_node = nid, ecost = cst\<rparr>]\<rparr>)))"

definition eg_add :: "ekind \<Rightarrow> string \<Rightarrow> nat option \<Rightarrow> nat option \<Rightarrow> egraph \<Rightarrow> nat \<times> egraph" where
  "eg_add k x l r g0 =
     (case find_child l g0 of (l', g1) \<Rightarrow> case find_child r g1 of (r', g2) \<Rightarrow>
      case eg_lookup (ENode k x l' r') g2 of (hit, g3) \<Rightarrow>
        (case hit of Some i \<Rightarrow> eg_find (node_cls g3 ! i) g3
         | None \<Rightarrow> eg_enter (ENode k x l' r') g3))"

section \<open>Entering a term\<close>

text \<open>\<open>eg_add_term\<close>.  A definition is entered by its name alone, a \<open>datatype\<close> form by its first constructor,
  and a form without children has no class.\<close>

fun eg_add_term :: "tm \<Rightarrow> egraph \<Rightarrow> nat option \<times> egraph" where
  "eg_add_term (Var x) g = map_prod Some id (eg_add K_var x None None g)"
| "eg_add_term (Lam x b) g =
     (case eg_add_term b g of (l, g1) \<Rightarrow> map_prod Some id (eg_add K_lam x l None g1))"
| "eg_add_term (App f a) g =
     (case eg_add_term f g of (l, g1) \<Rightarrow> case eg_add_term a g1 of (r, g2) \<Rightarrow> map_prod Some id (eg_add K_app [] l r g2))"
| "eg_add_term (Let x v b) g =
     (case eg_add_term v g of (l, g1) \<Rightarrow> case eg_add_term b g1 of (r, g2) \<Rightarrow> map_prod Some id (eg_add K_let x l r g2))"
| "eg_add_term (Def x b) g = map_prod Some id (eg_add K_def x None None g)"
| "eg_add_term (Baked x) g = map_prod Some id (eg_add K_def x None None g)"
| "eg_add_term (Defx x ty b) g = map_prod Some id (eg_add K_defx x None None g)"
| "eg_add_term (Flt x) g = map_prod Some id (eg_add K_float x None None g)"
| "eg_add_term (Num x) g = map_prod Some id (eg_add K_num x None None g)"
| "eg_add_term (Data x n cs) g =
     (case cs of [] \<Rightarrow> (None, g) | c # _ \<Rightarrow> map_prod Some id (eg_add K_var (fst c) None None g))"
| "eg_add_term t g = (None, g)"

section \<open>Substitution\<close>

text \<open>The node a class is extracted as.\<close>

definition best :: "nat \<Rightarrow> egraph \<Rightarrow> enode" where
  "best r g = enodes g ! best_node (eclasses g ! r)"

text \<open>\<open>eg_has_var\<close> recurses in C without a bound; \<open>None\<close> is a recursion that has not come to an end.\<close>

fun eg_has_var :: "nat \<Rightarrow> nat option \<Rightarrow> string \<Rightarrow> egraph \<Rightarrow> (bool \<times> egraph) option" where
  "eg_has_var 0 c x g = None"
| "eg_has_var (Suc k) c x g =
     (case c of None \<Rightarrow> None
      | Some c \<Rightarrow>
         (case eg_find c g of (r, g1) \<Rightarrow>
            let n = best r g1 in
            (case ek n of
               K_var \<Rightarrow> Some (ename n = x, g1)
             | K_lam \<Rightarrow> if ename n = x then Some (False, g1) else eg_has_var k (el n) x g1
             | K_app \<Rightarrow> (case eg_has_var k (el n) x g1 of
                          None \<Rightarrow> None
                        | Some (True, g2) \<Rightarrow> Some (True, g2)
                        | Some (False, g2) \<Rightarrow> eg_has_var k (er n) x g2)
             | K_let \<Rightarrow> Some (True, g1)
             | _ \<Rightarrow> Some (False, g1))))"

text \<open>\<open>eg_subst\<close>; \<open>k\<close> is how many levels are left under the limit, which is one more than the number of
  classes at entry.  \<open>None\<close> is a test for capture that does not end.\<close>

fun eg_subst :: "nat \<Rightarrow> nat option \<Rightarrow> string \<Rightarrow> nat \<Rightarrow> egraph \<Rightarrow> (nat option \<times> egraph) option" where
  "eg_subst 0 c x arg g = Some (c, g\<lparr>capture := True\<rparr>)"
| "eg_subst (Suc k) c x arg g =
     (case c of None \<Rightarrow> None
      | Some c \<Rightarrow>
         (case eg_find c g of (r, g1) \<Rightarrow>
            let n = best r g1 in
            (case ek n of
               K_var \<Rightarrow> Some (Some (if ename n = x then arg else r), g1)
             | K_lam \<Rightarrow>
                 if ename n = x then Some (Some r, g1)
                 else (case eg_has_var (Suc (length (eclasses g1))) (Some arg) (ename n) g1 of
                         None \<Rightarrow> None
                       | Some (True, g2) \<Rightarrow> Some (Some r, g2\<lparr>capture := True\<rparr>)
                       | Some (False, g2) \<Rightarrow>
                           (case eg_subst k (el n) x arg g2 of
                              None \<Rightarrow> None
                            | Some (l, g3) \<Rightarrow> Some (map_prod Some id (eg_add K_lam (ename n) l None g3))))
             | K_app \<Rightarrow>
                 (case eg_subst k (el n) x arg g1 of
                    None \<Rightarrow> None
                  | Some (l, g2) \<Rightarrow>
                      (case eg_subst k (er n) x arg g2 of
                         None \<Rightarrow> None
                       | Some (r', g3) \<Rightarrow> Some (map_prod Some id (eg_add K_app [] l r' g3))))
             | K_let \<Rightarrow> Some (Some r, g1\<lparr>capture := True\<rparr>)
             | _ \<Rightarrow> Some (Some r, g1))))"

section \<open>The rules\<close>

datatype eg_kind = EG_BETA | EG_ETA

record eg_rule =
  rule_name :: string
  rule_kind :: eg_kind
  rule_param :: nat
  rule_on :: bool
  fires :: nat
  declines :: nat

definition eg_rules :: "eg_rule list" where
  "eg_rules =
     [\<lparr>rule_name = ''beta'', rule_kind = EG_BETA, rule_param = 64, rule_on = True, fires = 0, declines = 0\<rparr>,
      \<lparr>rule_name = ''eta'', rule_kind = EG_ETA, rule_param = 0, rule_on = False, fires = 0, declines = 0\<rparr>]"

text \<open>\<open>eg_rules_init\<close>: \<open>LIN_EGRULES\<close> turns eta on when it contains the word; the counts start at zero.\<close>

fun has_infix :: "string \<Rightarrow> string \<Rightarrow> bool" where
  "has_infix w [] = (w = [])"
| "has_infix w (c # cs) = (take (length w) (c # cs) = w \<or> has_infix w cs)"

definition eg_rules_init :: "string option \<Rightarrow> eg_rule list" where
  "eg_rules_init sel =
     (let eta = (case sel of None \<Rightarrow> False | Some s \<Rightarrow> has_infix ''eta'' s)
      in [(eg_rules ! 0)\<lparr>rule_on := True\<rparr>, (eg_rules ! 1)\<lparr>rule_on := eta\<rparr>])"

text \<open>What a rule did at a node: it did not match, declined, or merged two classes, which counts as fired
  when the representative of the node's class changed.\<close>

datatype outcome = Idle | Declined | Merged bool

definition merge_found :: "nat \<Rightarrow> nat \<Rightarrow> nat \<Rightarrow> egraph \<Rightarrow> outcome \<times> egraph" where
  "merge_found old cls new g =
     (case eg_find cls (eg_union cls new g) of (r, g1) \<Rightarrow> (Merged (r \<noteq> old), g1))"

definition beta_at :: "nat \<Rightarrow> enode \<Rightarrow> nat \<Rightarrow> egraph \<Rightarrow> (outcome \<times> egraph) option" where
  "beta_at param n cls g =
     (case (el n, er n) of
        (Some f, Some arg) \<Rightarrow>
          (case eg_find f g of (fc, g1) \<Rightarrow>
             let b = best fc g1 in
             (case (ek b, el b) of
                (K_lam, Some body) \<Rightarrow>
                  (case eg_find body g1 of (bl, g2) \<Rightarrow>
                     if ecost (eclasses g2 ! bl) \<le> param
                     then (case eg_find cls g2 of (old, g3) \<Rightarrow>
                             (case eg_subst (Suc (length (eclasses g3))) (Some body) (ename b) arg (g3\<lparr>capture := False\<rparr>) of
                                None \<Rightarrow> None
                              | Some (sub, g4) \<Rightarrow>
                                  if capture g4 then Some (Declined, g4)
                                  else (case sub of None \<Rightarrow> Some (Idle, g4) | Some c \<Rightarrow> Some (merge_found old cls c g4))))
                     else Some (Idle, g2))
              | _ \<Rightarrow> Some (Idle, g1)))
      | _ \<Rightarrow> Some (Idle, g))"

definition eta_at :: "enode \<Rightarrow> nat \<Rightarrow> egraph \<Rightarrow> (outcome \<times> egraph) option" where
  "eta_at n cls g =
     (case el n of None \<Rightarrow> Some (Idle, g)
      | Some body \<Rightarrow>
          (case eg_find body g of (bc, g1) \<Rightarrow>
             let b = best bc g1 in
             (case (ek b, el b, er b) of
                (K_app, Some f, Some a) \<Rightarrow>
                  (case eg_find a g1 of (ac, g2) \<Rightarrow>
                     let an = best ac g2 in
                     if ek an = K_var \<and> ename an = ename n
                     then (case eg_has_var (Suc (length (eclasses g2))) (Some f) (ename n) g2 of
                             None \<Rightarrow> None
                           | Some (True, g3) \<Rightarrow> Some (Idle, g3)
                           | Some (False, g3) \<Rightarrow>
                               (case eg_find cls g3 of (old, g4) \<Rightarrow> Some (merge_found old cls f g4)))
                     else Some (Idle, g2))
              | _ \<Rightarrow> Some (Idle, g1))))"

definition count_outcome :: "outcome \<Rightarrow> eg_rule \<Rightarrow> eg_rule" where
  "count_outcome out r =
     (case out of
        Idle \<Rightarrow> r
      | Declined \<Rightarrow> r\<lparr>declines := declines r + 1\<rparr>
      | Merged moved \<Rightarrow> if moved then r\<lparr>fires := fires r + 1\<rparr> else r)"

definition rule_at :: "enode \<Rightarrow> nat \<Rightarrow> eg_rule \<Rightarrow> egraph \<Rightarrow> (outcome \<times> egraph) option" where
  "rule_at n cls r g =
     (if \<not> rule_on r then Some (Idle, g)
      else if rule_kind r = EG_BETA \<and> ek n = K_app then beta_at (rule_param r) n cls g
      else if rule_kind r = EG_ETA \<and> ek n = K_lam then eta_at n cls g
      else Some (Idle, g))"

fun rules_at :: "enode \<Rightarrow> nat \<Rightarrow> eg_rule list \<Rightarrow> egraph \<Rightarrow> (eg_rule list \<times> egraph) option" where
  "rules_at n cls [] g = Some ([], g)"
| "rules_at n cls (r # rs) g =
     (case rule_at n cls r g of None \<Rightarrow> None
      | Some (out, g1) \<Rightarrow>
          (case rules_at n cls rs g1 of None \<Rightarrow> None
           | Some (rs', g2) \<Rightarrow> Some (count_outcome out r # rs', g2)))"

section \<open>Saturation\<close>

text \<open>One pass of the rules over the nodes there were at its start, while the graph is under its cap.\<close>

fun match_pass :: "nat \<Rightarrow> nat \<Rightarrow> nat \<Rightarrow> eg_rule list \<Rightarrow> egraph \<Rightarrow> (eg_rule list \<times> egraph) option" where
  "match_pass cap i 0 rs g = Some (rs, g)"
| "match_pass cap i (Suc k) rs g =
     (if length (enodes g) < cap
      then (case eg_find (node_cls g ! i) g of (cls, g1) \<Rightarrow>
              case rules_at (enodes g ! i) cls rs g1 of None \<Rightarrow> None
              | Some (rs', g2) \<Rightarrow> match_pass cap (Suc i) k rs' g2)
      else Some (rs, g))"

text \<open>The pass that lowers costs.\<close>

definition recost :: "nat \<Rightarrow> egraph \<Rightarrow> egraph" where
  "recost i g0 =
     (case eg_find (node_cls g0 ! i) g0 of (c, g1) \<Rightarrow> case eg_cost (enodes g0 ! i) g1 of (cst, g2) \<Rightarrow>
        if cst < ecost (eclasses g2 ! c)
        then g2\<lparr>eclasses := (eclasses g2)[c := (eclasses g2 ! c)\<lparr>ecost := cst, best_node := i\<rparr>]\<rparr>
        else g2)"

definition recost_pass :: "egraph \<Rightarrow> egraph" where
  "recost_pass g = foldl (\<lambda>g i. recost i g) g [0..<length (enodes g)]"

fun saturate :: "nat \<Rightarrow> nat \<Rightarrow> eg_rule list \<Rightarrow> egraph \<Rightarrow> (eg_rule list \<times> egraph) option" where
  "saturate 0 cap rs g = Some (rs, g)"
| "saturate (Suc k) cap rs g =
     (case match_pass cap 0 (length (enodes g)) rs g of None \<Rightarrow> None
      | Some (rs', g1) \<Rightarrow> saturate k cap rs' (recost_pass g1))"

definition eg_saturate :: "string option \<Rightarrow> egraph \<Rightarrow> (eg_rule list \<times> egraph) option" where
  "eg_saturate sel = saturate 4 32768 (eg_rules_init sel)"

section \<open>Extraction\<close>

text \<open>The terms the optimiser builds: \<open>term_new\<close> with a kind and a name, a definition without its body.\<close>

datatype xterm = XVar string | XLam string xterm | XApp xterm xterm | XLet string xterm xterm | XLeaf ekind string

text \<open>\<open>eg_has_free\<close>, which returns true past its limit; \<open>k\<close> as for \<open>eg_subst\<close>.\<close>

fun eg_has_free :: "nat \<Rightarrow> nat option \<Rightarrow> string list \<Rightarrow> egraph \<Rightarrow> bool \<times> egraph" where
  "eg_has_free 0 c bs g = (True, g)"
| "eg_has_free (Suc k) c bs g =
     (case c of None \<Rightarrow> (True, g)
      | Some c \<Rightarrow>
         (case eg_find c g of (r, g1) \<Rightarrow>
            let n = best r g1 in
            (case ek n of
               K_var \<Rightarrow> (ename n \<notin> set bs, g1)
             | K_lam \<Rightarrow> eg_has_free k (el n) (ename n # bs) g1
             | K_app \<Rightarrow> (case eg_has_free k (el n) bs g1 of (a, g2) \<Rightarrow>
                          if a then (True, g2) else eg_has_free k (er n) bs g2)
             | K_let \<Rightarrow> (case eg_has_free k (el n) (ename n # bs) g1 of (a, g2) \<Rightarrow>
                          if a then (True, g2) else eg_has_free k (er n) (ename n # bs) g2)
             | _ \<Rightarrow> (False, g1))))"

text \<open>\<open>eg_count_uses\<close>: how often a class is reached, its children counted on the first visit only.\<close>

fun eg_count_uses :: "nat \<Rightarrow> nat option \<Rightarrow> (nat \<Rightarrow> nat) \<times> (nat \<Rightarrow> bool) \<times> egraph \<Rightarrow> (nat \<Rightarrow> nat) \<times> (nat \<Rightarrow> bool) \<times> egraph" where
  "eg_count_uses 0 c s = s"
| "eg_count_uses (Suc k) c s =
     (case (c, s) of
        (None, _) \<Rightarrow> s
      | (Some c, uses, vis, g) \<Rightarrow>
         (case eg_find c g of (r, g1) \<Rightarrow>
            let uses1 = uses(r := uses r + 1); n = best r g1 in
            if vis r then (uses1, vis, g1)
            else let s1 = (uses1, vis(r := True), g1) in
                 if eg_opaque (ek n) \<or> ek n = K_var then s1
                 else eg_count_uses k (er n) (eg_count_uses k (el n) s1)))"

definition both :: "('a \<Rightarrow> 'a \<Rightarrow> 'b) \<Rightarrow> 'a option \<Rightarrow> 'a option \<Rightarrow> 'b option" where
  "both f x y = (case (x, y) of (Some a, Some b) \<Rightarrow> Some (f a b) | _ \<Rightarrow> None)"

definition cse_name :: "nat \<Rightarrow> string" where
  "cse_name c = ''_cse'' @ show_nat c"

text \<open>\<open>eg_extract\<close>: \<open>None\<close> past the limit, a placeholder for a class that is lifted.\<close>

fun eg_extract :: "nat \<Rightarrow> nat option \<Rightarrow> (nat \<Rightarrow> bool) \<Rightarrow> egraph \<Rightarrow> xterm option \<times> egraph" where
  "eg_extract 0 c cse g = (None, g)"
| "eg_extract (Suc k) c cse g =
     (case c of None \<Rightarrow> (None, g)
      | Some c \<Rightarrow>
         (case eg_find c g of (r, g1) \<Rightarrow>
            if cse r then (Some (XVar (cse_name r)), g1)
            else let n = best r g1 in
              (case ek n of
                 K_var \<Rightarrow> (Some (XVar (ename n)), g1)
               | K_lam \<Rightarrow> (case eg_extract k (el n) cse g1 of (l, g2) \<Rightarrow> (map_option (XLam (ename n)) l, g2))
               | K_app \<Rightarrow> (case eg_extract k (el n) cse g1 of (l, g2) \<Rightarrow> case eg_extract k (er n) cse g2 of (r', g3) \<Rightarrow>
                            (both XApp l r', g3))
               | K_let \<Rightarrow> (case eg_extract k (el n) cse g1 of (l, g2) \<Rightarrow> case eg_extract k (er n) cse g2 of (r', g3) \<Rightarrow>
                            (both (XLet (ename n)) l r', g3))
               | kd \<Rightarrow> (Some (XLeaf kd (ename n)), g1))))"

section \<open>The pass\<close>

text \<open>Which classes are lifted: shared, closed applications that are no leaf and not the whole program.\<close>

definition shared_app :: "nat \<Rightarrow> (nat \<Rightarrow> nat) \<Rightarrow> nat \<Rightarrow> egraph \<Rightarrow> bool \<times> egraph" where
  "shared_app rt uses c g =
     (if c = rt then (False, g)
      else case eg_find c g of (r, g1) \<Rightarrow>
        if r = c \<and> 2 \<le> uses c \<and> 4 \<le> ecost (eclasses g1 ! c) \<and> ek (best c g1) = K_app
        then (case eg_has_free (Suc (length (eclasses g1))) (Some c) [] g1 of (fr, g2) \<Rightarrow> (\<not> fr, g2))
        else (False, g1))"

fun pick_shared :: "nat \<Rightarrow> (nat \<Rightarrow> nat) \<Rightarrow> nat list \<Rightarrow> egraph \<Rightarrow> nat list \<times> egraph" where
  "pick_shared rt uses [] g = ([], g)"
| "pick_shared rt uses (c # cs) g =
     (case shared_app rt uses c g of (b, g1) \<Rightarrow> case pick_shared rt uses cs g1 of (ds, g2) \<Rightarrow>
        (if b then c # ds else ds, g2))"

text \<open>The terms of the lifted classes; one that cannot be extracted is not lifted.\<close>

fun lifted_terms :: "nat list \<Rightarrow> egraph \<Rightarrow> (nat \<times> xterm) list \<times> egraph" where
  "lifted_terms [] g = ([], g)"
| "lifted_terms (c # cs) g =
     (case eg_extract (Suc (length (eclasses g))) (Some c) (\<lambda>_. False) g of (v, g1) \<Rightarrow>
      case lifted_terms cs g1 of (vs, g2) \<Rightarrow> (case v of None \<Rightarrow> vs | Some t \<Rightarrow> (c, t) # vs, g2))"

definition lift_shared :: "bool \<Rightarrow> nat \<Rightarrow> egraph \<Rightarrow> (nat \<times> xterm) list \<times> egraph" where
  "lift_shared no_cse rt g =
     (if no_cse then ([], g)
      else case eg_count_uses (Suc (length (eclasses g))) (Some rt) (\<lambda>_. 0, \<lambda>_. False, g) of (uses, vis, g1) \<Rightarrow>
           case pick_shared rt uses [0..<length (eclasses g1)] g1 of (cs, g2) \<Rightarrow> lifted_terms cs g2)"

text \<open>The lets of the lifted classes, the lowest class outermost.\<close>

definition wrap_lets :: "(nat \<times> xterm) list \<Rightarrow> xterm \<Rightarrow> xterm" where
  "wrap_lets vs t = foldr (\<lambda>(c, v) b. XLet (cse_name c) v b) vs t"

text \<open>What the pass hands on: a copy of the term it was given, or a term it built; \<open>Some None\<close> is a null
  term.\<close>

record eg_flags =
  no_egraph :: bool
  no_cse :: bool
  sel_rules :: "string option"

definition extract_program :: "bool \<Rightarrow> tm \<Rightarrow> nat \<Rightarrow> egraph \<Rightarrow> tm + xterm" where
  "extract_program nocse t rt g =
     (case lift_shared nocse rt g of (vs, g1) \<Rightarrow>
      case eg_extract (Suc (length (eclasses g1))) (Some rt) (\<lambda>c. c \<in> fst ` set vs) g1 of (res, g2) \<Rightarrow>
        (case res of None \<Rightarrow> Inl t | Some b \<Rightarrow> Inr (wrap_lets vs b)))"

definition egraph_optimize :: "eg_flags \<Rightarrow> tm \<Rightarrow> (tm + xterm) option option" where
  "egraph_optimize fl t =
     (if no_egraph fl then Some (Some (Inl t))
      else case eg_add_term t egraph_empty of (rt, g) \<Rightarrow>
        (case eg_saturate (sel_rules fl) g of None \<Rightarrow> None
         | Some (rs, g1) \<Rightarrow>
             (case rt of None \<Rightarrow> Some None
              | Some rt \<Rightarrow>
                  (case eg_find rt g1 of (r, g2) \<Rightarrow> Some (Some (extract_program (no_cse fl) t r g2))))))"

end
