(* ===== verification/Builders.thy ===== *)
theory Builders
  imports NetOps
begin

text \<open>
  The builders of the value encodings (\<open>src/io.c\<close>): Church booleans, numerals as chains of bit cells, and
  boxed indices, each a piece of net reached through the port the builder returns.  A \<open>long\<close> is a 64-bit
  word, read as signed; a level that a C call computes for its argument is interned before the call.
\<close>

type_synonym long = "64 word"

text \<open>\<open>scope_app\<close> on the trie of a net.\<close>

definition net_scope_app :: "gauge \<Rightarrow> nat \<Rightarrow> net \<Rightarrow> net \<times> gauge" where
  "net_scope_app s br n = (case scope_app (lvl n) s br of (L, g) \<Rightarrow> (n\<lparr>lvl := L\<rparr>, g))"

text \<open>Links without queueing, in order.\<close>

definition link_all :: "env \<Rightarrow> (port \<times> port) list \<Rightarrow> net \<Rightarrow> net" where
  "link_all E ls n = foldl (\<lambda>n (a, b). net_link E a b False n) n ls"

definition net_alloc_bool :: "env \<Rightarrow> bool \<Rightarrow> net \<Rightarrow> net \<times> port" where
  "net_alloc_bool E val n =
     (case net_alloc E LAM 0 n of (n1, bt) \<Rightarrow> case net_alloc E LAM 0 n1 of (n2, bf) \<Rightarrow>
        (link_all E [(Port bt 2, Port bf 0), (Port bf 2, Port (if val then bt else bf) 1)] n2, Port bt 0))"

text \<open>How many cells a numeral gets: \<open>w\<close> starts at 1 and stops at 62.\<close>

fun width_loop :: "nat \<Rightarrow> nat \<Rightarrow> long \<Rightarrow> nat" where
  "width_loop 0 w k = w"
| "width_loop (Suc f) w k = (if signed_drop_bit w k \<noteq> 0 \<and> w < 62 then width_loop f (w + 1) k else w)"

definition scott_width :: "long \<Rightarrow> nat" where
  "scott_width k = width_loop 62 1 k"

text \<open>The terminal of a chain, and one cell put before \<open>cur\<close>.\<close>

definition scott_nil :: "env \<Rightarrow> gauge \<Rightarrow> net \<Rightarrow> net \<times> port" where
  "scott_nil E lv n =
     (case net_scope_app lv 1 n of (n1, bl) \<Rightarrow>
      case net_alloc E LAM lv n1 of (n2, nl) \<Rightarrow>
      case net_alloc E LAM bl n2 of (n3, nr) \<Rightarrow>
      case net_alloc_bool E True (net_link E (Port nl 2) (Port nr 0) False n3) of (n4, t) \<Rightarrow>
        (net_link E (Port nr 2) t False n4, Port nl 0))"

definition scott_cell :: "env \<Rightarrow> gauge \<Rightarrow> bool \<Rightarrow> net \<times> port \<Rightarrow> net \<times> port" where
  "scott_cell E lv b s =
     (case s of (n, cur) \<Rightarrow>
      case net_scope_app lv 1 n of (n1, f) \<Rightarrow> case net_scope_app lv 2 n1 of (n2, a) \<Rightarrow>
      case net_alloc_bool E b n2 of (n3, bit_port) \<Rightarrow>
      case net_alloc E LAM f n3 of (n4, c) \<Rightarrow>
      case net_scope_app f 1 n4 of (n5, fi) \<Rightarrow> case net_alloc E LAM fi n5 of (n6, nr) \<Rightarrow>
      case net_alloc E APP f n6 of (n7, ia) \<Rightarrow> case net_alloc E APP a n7 of (n8, ou) \<Rightarrow>
        (link_all E [(Port c 2, Port nr 0), (Port nr 2, Port ou 1), (Port ou 0, Port ia 1), (Port ou 2, cur),
                     (Port ia 0, Port c 1), (Port ia 2, bit_port)] n8, Port c 0))"

definition alloc_scott :: "env \<Rightarrow> long \<Rightarrow> gauge \<Rightarrow> net \<Rightarrow> net \<times> port" where
  "alloc_scott E k lv n =
     foldl (\<lambda>s b. scott_cell E lv (bit (signed_drop_bit b k) 0) s) (scott_nil E lv n) (rev [0..<scott_width k])"

definition net_alloc_scott_at :: "env \<Rightarrow> long \<Rightarrow> gauge \<Rightarrow> net \<Rightarrow> net \<times> port" where
  "net_alloc_scott_at = alloc_scott"

definition net_alloc_scott :: "env \<Rightarrow> long \<Rightarrow> net \<Rightarrow> net \<times> port" where
  "net_alloc_scott E k = alloc_scott E k 0"

text \<open>\<open>\\b0. \\b1. (b0 (b1 i))\<close>\<close>

definition net_box_index :: "env \<Rightarrow> long \<Rightarrow> net \<Rightarrow> net \<times> port" where
  "net_box_index E i n =
     (case net_alloc E LAM 0 n of (n1, a) \<Rightarrow> case net_alloc E LAM 0 n1 of (n2, b) \<Rightarrow>
      case net_alloc E APP 0 n2 of (n3, ia) \<Rightarrow> case net_alloc E APP 0 n3 of (n4, oa) \<Rightarrow>
      case alloc_scott E i 0 n4 of (n5, idx) \<Rightarrow>
        (link_all E [(Port a 2, Port b 0), (Port b 2, Port oa 1), (Port oa 0, Port a 1), (Port oa 2, Port ia 1),
                     (Port ia 0, Port b 1), (Port ia 2, idx)] n5, Port a 0))"

end
