(* ===== verification/Compile.thy ===== *)
theory Compile
  imports Builders Terms ErrState
begin

text \<open>
  The compiler from terms to nets (\<open>compile\<close> and \<open>ct\<close> in \<open>src/compile.c\<close>).  Its globals are a record; a
  binder's entry on the stack counts its uses and collects the placeholders of the uses after the first.
  The map from terms to ports, keyed by pointers in C, is keyed by the position of a subterm in the program:
  0 and 1 for the two children, 2 for the value of a let that is replaced by its fixed point.
\<close>

record cvar =
  vname :: string
  vbind :: port
  uses :: nat
  extra :: "port list"

record cst =
  cnet :: net
  cstack :: "cvar list"       \<comment> \<open>the innermost binder last\<close>
  cur_lvl :: gauge
  aot_map :: "(nat list \<times> port) list"

text \<open>How a compilation ends early: by its own message, or by reading through a null pointer.\<close>

datatype cerr = Cfail string | Crash

type_synonym 'a comp_m = "(cst, cerr, 'a) comp"

text \<open>
  What lies outside: the environment of the net operations, the nets cached for definitions
  (\<open>def_find(name)->compiled\<close>) and the storage of floats (\<open>net_alloc_float\<close> on \<open>strtod\<close> of the text).
\<close>

record cenv =
  nenv :: env
  baked :: "string \<Rightarrow> net option"
  alloc_float :: "string \<Rightarrow> net \<Rightarrow> net \<times> port"

section \<open>Steps on the net\<close>

definition on_net :: "(net \<Rightarrow> net \<times> 'a) \<Rightarrow> 'a comp_m" where
  "on_net f st = (case f (cnet st) of (n, x) \<Rightarrow> (Inr x, st\<lparr>cnet := n\<rparr>))"

definition c_alloc :: "cenv \<Rightarrow> ntag \<Rightarrow> gauge \<Rightarrow> int comp_m" where
  "c_alloc C t sc = on_net (net_alloc (nenv C) t sc)"

definition c_link :: "cenv \<Rightarrow> port \<Rightarrow> port \<Rightarrow> bool \<Rightarrow> unit comp_m" where
  "c_link C a b enq = on_net (\<lambda>n. (net_link (nenv C) a b enq n, ()))"

definition c_wire :: "port \<Rightarrow> port comp_m" where
  "c_wire p = on_net (\<lambda>n. (n, wire n p))"

definition kill :: "int \<Rightarrow> net \<Rightarrow> net" where
  "kill v n = set_wire (Port v 1) NONE (n\<lparr>dead := (dead n)(v := True)\<rparr>)"

definition c_kill :: "int \<Rightarrow> unit comp_m" where
  "c_kill v = on_net (\<lambda>n. (kill v n, ()))"

text \<open>\<open>fan_lvl\<close> and \<open>fan_lvl_at\<close>; \<open>at_level\<close> runs a step with the current level set.\<close>

definition fan_lvl :: "gauge comp_m" where
  "fan_lvl st = (Inr (cur_lvl st), st)"

definition fan_lvl_at :: "nat \<Rightarrow> gauge comp_m" where
  "fan_lvl_at br st = on_net (net_scope_app (cur_lvl st) br) st"

definition set_lvl :: "gauge \<Rightarrow> unit comp_m" where
  "set_lvl g = pmodify (\<lambda>st. st\<lparr>cur_lvl := g\<rparr>)"

definition deeper :: "gauge \<Rightarrow> nat \<Rightarrow> unit comp_m" where
  "deeper save br = pbind (on_net (net_scope_app save br)) set_lvl"

section \<open>The stack of binders\<close>

definition push_var :: "string \<Rightarrow> port \<Rightarrow> unit comp_m" where
  "push_var x b = pmodify (\<lambda>st. st\<lparr>cstack := cstack st @ [\<lparr>vname = x, vbind = b, uses = 0, extra = []\<rparr>]\<rparr>)"

definition pop_var :: "cvar comp_m" where
  "pop_var st = (Inr (last (cstack st)), st\<lparr>cstack := butlast (cstack st)\<rparr>)"

definition top_var :: "cvar comp_m" where
  "top_var st = (Inr (last (cstack st)), st)"

text \<open>The innermost entry of a name.\<close>

fun last_named :: "string \<Rightarrow> cvar list \<Rightarrow> nat option" where
  "last_named x [] = None"
| "last_named x (v # vs) =
     (case last_named x vs of Some i \<Rightarrow> Some (Suc i) | None \<Rightarrow> if vname v = x then Some 0 else None)"

definition is_bound :: "string \<Rightarrow> cvar list \<Rightarrow> bool" where
  "is_bound x vs \<longleftrightarrow> (\<exists>v \<in> set vs. vname v = x)"

text \<open>A use of a variable: the first is the binder's own port, the others are placeholders.\<close>

definition use_at :: "nat \<Rightarrow> (cvar \<Rightarrow> cvar) \<Rightarrow> unit comp_m" where
  "use_at i f = pmodify (\<lambda>st. st\<lparr>cstack := (cstack st)[i := f (cstack st ! i)]\<rparr>)"

definition ct_var :: "cenv \<Rightarrow> string \<Rightarrow> port comp_m" where
  "ct_var C x st =
     (case last_named x (cstack st) of
        None \<Rightarrow> pthrow (Cfail (take 255 (''unbound variable '' @ [CHR 0x27] @ x @ [CHR 0x27]))) st
      | Some i \<Rightarrow>
          pthen (use_at i (\<lambda>e. e\<lparr>uses := uses e + 1\<rparr>))
            (if uses (cstack st ! i) = 0 then pret (vbind (cstack st ! i))
             else pbind (c_alloc C ERA 0) (\<lambda>ph.
                    pthen (use_at i (\<lambda>e. e\<lparr>extra := extra e @ [Port ph 1]\<rparr>)) (pret (Port ph 1)))) st)"

text \<open>\<open>use_ports\<close>: where the uses went; the placeholders are spent.\<close>

fun spend :: "port list \<Rightarrow> port list comp_m" where
  "spend [] = pret []"
| "spend (e # es) =
     pbind (c_wire (Port (node e) 1)) (\<lambda>w. pthen (c_kill (node e)) (pbind (spend es) (\<lambda>ws. pret (w # ws))))"

definition use_ports :: "cvar \<Rightarrow> port \<Rightarrow> port list comp_m" where
  "use_ports e b = pbind (c_wire b) (\<lambda>w. pbind (spend (extra e)) (\<lambda>ws. pret (w # ws)))"

text \<open>\<open>dup_tree\<close>: the left-leaning tree of fans over the uses.\<close>

definition fan_over :: "cenv \<Rightarrow> gauge \<Rightarrow> port \<Rightarrow> port \<Rightarrow> port comp_m" where
  "fan_over C sc a b =
     pbind (c_alloc C DUP sc) (\<lambda>d. pthen (c_link C (Port d 1) a False)
       (pthen (c_link C (Port d 2) b False) (pret (Port d 0))))"

fun dup_tree_from :: "cenv \<Rightarrow> gauge \<Rightarrow> port \<Rightarrow> port list \<Rightarrow> port comp_m" where
  "dup_tree_from C sc cur [] = pret cur"
| "dup_tree_from C sc cur (t # ts) = pbind (fan_over C sc cur t) (\<lambda>c. dup_tree_from C sc c ts)"

definition dup_tree :: "cenv \<Rightarrow> port list \<Rightarrow> gauge \<Rightarrow> port comp_m" where
  "dup_tree C ts sc = dup_tree_from C sc (hd ts) (tl ts)"

section \<open>Splicing a cached net\<close>

fun splice_nodes :: "cenv \<Rightarrow> net \<Rightarrow> gauge \<Rightarrow> nat \<Rightarrow> nat \<Rightarrow> net \<Rightarrow> net \<times> int list" where
  "splice_nodes C s lv i 0 n = (n, [])"
| "splice_nodes C s lv i (Suc k) n =
     (case scope_rebase (lvl n) (lvl s) lv (scope s (int i)) of (L, g) \<Rightarrow>
      case net_alloc (nenv C) (tag s (int i)) g (n\<lparr>lvl := L\<rparr>) of (n1, v) \<Rightarrow>
      case splice_nodes C s lv (Suc i) k n1 of (n2, vs) \<Rightarrow> (n2, v # vs))"

text \<open>The image of a port of the cached net.\<close>

definition image_port :: "int list \<Rightarrow> port \<Rightarrow> port" where
  "image_port mp w = Port (mp ! nat (node w)) (pno w)"

definition splice_port :: "cenv \<Rightarrow> net \<Rightarrow> int list \<Rightarrow> port \<Rightarrow> port \<Rightarrow> net \<Rightarrow> net" where
  "splice_port C s mp val p n =
     (let w = wire s p in
      if node w < 0 \<or> p = Port 0 0 \<or> p = val then n
      else net_link (nenv C) (image_port mp p) (image_port mp w) True n)"

definition splice_wires :: "cenv \<Rightarrow> net \<Rightarrow> int list \<Rightarrow> port \<Rightarrow> net \<Rightarrow> net" where
  "splice_wires C s mp val n =
     foldl (\<lambda>n i. if dead s (int i) then n
                  else foldl (\<lambda>n q. splice_port C s mp val (Port (int i) q) n) n [0, 1, 2]) n [0..<nat (nn s)]"

definition ct_splice :: "cenv \<Rightarrow> net \<Rightarrow> port comp_m" where
  "ct_splice C s =
     pbind fan_lvl (\<lambda>lv. on_net (\<lambda>n.
       case splice_nodes C s lv 0 (nat (nn s)) n of (n1, mp) \<Rightarrow>
         (splice_wires C s mp (wire s (Port 0 0)) n1, image_port mp (wire s (Port 0 0)))))"

section \<open>Terms\<close>

text \<open>\<open>atol\<close> of the digits of a numeral; the conversion stops at the first other byte and saturates.\<close>

definition digits_value :: "string \<Rightarrow> nat" where
  "digits_value s = foldl (\<lambda>v c. v * 10 + (of_char c - 48)) 0 (takeWhile (\<lambda>c. of_char c \<in> {48..57::nat}) s)"

definition atol :: "string \<Rightarrow> long" where
  "atol s = of_nat (min (digits_value s) (2 ^ 63 - 1))"

text \<open>What a binder does when its body is compiled: its uses beyond the first meet in a tree of fans.\<close>

definition ct_lam_end :: "cenv \<Rightarrow> int \<Rightarrow> gauge \<Rightarrow> port \<Rightarrow> port comp_m" where
  "ct_lam_end C self lv body =
     pthen (c_link C (Port self 2) body False)
       (pbind top_var (\<lambda>e.
          pthen (if 1 < uses e
                 then pbind (use_ports e (Port self 1)) (\<lambda>ts. pbind (dup_tree C ts lv) (\<lambda>d.
                        c_link C (Port self 1) d False))
                 else pret ())
            (pthen pop_var (pret (Port self 0)))))"

definition ct_let_end :: "cenv \<Rightarrow> int \<Rightarrow> port \<Rightarrow> port \<Rightarrow> port comp_m" where
  "ct_let_end C ph val body =
     pbind top_var (\<lambda>e.
       pbind (if uses e = 1
              then if body = Port ph 1 then pret val
                   else pbind (c_wire (Port ph 1)) (\<lambda>use0.
                          pthen (if 0 \<le> node use0 \<and> use0 \<noteq> val then c_link C use0 val True else pret ()) (pret body))
              else if 1 < uses e
              then pbind (use_ports e (Port ph 1)) (\<lambda>ts. pbind (fan_lvl_at 2) (\<lambda>lv. pbind (dup_tree C ts lv) (\<lambda>d.
                     pthen (c_link C d val True) (pret body))))
              else pret body)
         (\<lambda>result. pthen (c_kill ph) (pthen pop_var (pret result))))"

definition record_port :: "nat list \<Rightarrow> port \<Rightarrow> port comp_m" where
  "record_port pos p = pthen (pmodify (\<lambda>st. st\<lparr>aot_map := aot_map st @ [(pos, p)]\<rparr>)) (pret p)"

text \<open>\<open>ct\<close> with its cases (\<open>ct_in\<close>).  A fixed point is larger than the let it replaces but has fewer lets.\<close>

primrec lets :: "tm \<Rightarrow> nat" where
  "lets (Var x) = 0"
| "lets (Lam x b) = lets b"
| "lets (App f a) = lets f + lets a"
| "lets (Num s) = 0"
| "lets (Flt s) = 0"
| "lets (Let x v b) = lets v + lets b + 1"
| "lets (Def x b) = lets b"
| "lets (Defx x t b) = lets b"
| "lets (Load s) = 0"
| "lets (Namespace s) = 0"
| "lets (Open_ns s) = 0"
| "lets (Export s) = 0"
| "lets (Data s n cs) = 0"
| "lets (Baked s) = 0"

definition needs_fix :: "string \<Rightarrow> tm \<Rightarrow> bool comp_m" where
  "needs_fix x v st = (Inr (\<not> is_bound x (cstack st) \<and> term_refs v x), st)"

definition is_outer :: "string \<Rightarrow> bool comp_m" where
  "is_outer x st = (Inr (is_bound x (cstack st)), st)"

function ct :: "cenv \<Rightarrow> nat list \<Rightarrow> tm \<Rightarrow> port comp_m" where
  "ct C pos (Flt s) = pbind (on_net (alloc_float C s)) (record_port pos)"
| "ct C pos (Num s) =
     pbind fan_lvl (\<lambda>lv. pbind (on_net (net_alloc_scott_at (nenv C) (atol s) lv)) (record_port pos))"
| "ct C pos (Var x) = pbind (ct_var C x) (record_port pos)"
| "ct C pos (Lam x b) =
     pbind fan_lvl (\<lambda>save. pbind (c_alloc C LAM save) (\<lambda>self. pbind (fan_lvl_at 1) (\<lambda>lv.
       pthen (push_var x (Port self 1)) (pthen (deeper save 1)
         (pbind (ct C (pos @ [0]) b) (\<lambda>body. pthen (set_lvl save)
            (pbind (ct_lam_end C self lv body) (record_port pos))))))))"
| "ct C pos (App f a) =
     pbind fan_lvl (\<lambda>save. pbind (c_alloc C APP save) (\<lambda>v.
       pthen (deeper save 1) (pbind (ct C (pos @ [0]) f) (\<lambda>pf. pthen (c_link C (Port v 0) pf True)
         (pthen (deeper save 2) (pbind (ct C (pos @ [1]) a) (\<lambda>pa. pthen (c_link C (Port v 2) pa True)
            (pthen (set_lvl save) (record_port pos (Port v 1))))))))))"
| "ct C pos (Let x v b) =
     pbind fan_lvl (\<lambda>save. pbind (is_outer x) (\<lambda>outer. pbind (needs_fix x v) (\<lambda>fix.
       pbind (if outer \<or> fix
              then pthen (deeper save 2)
                     (if fix then ct C (pos @ [2]) (term_fix x v) else ct C (pos @ [0]) v)
              else pret NONE) (\<lambda>early.
       pbind (c_alloc C ERA 0) (\<lambda>ph. pthen (push_var x (Port ph 1))
         (pbind (if outer \<or> fix then pret early else pthen (deeper save 2) (ct C (pos @ [0]) v)) (\<lambda>val.
            pthen (deeper save 1) (pbind (ct C (pos @ [1]) b) (\<lambda>body. pthen (set_lvl save)
              (pbind (ct_let_end C ph val body) (record_port pos)))))))))))"
| "ct C pos (Def x b) = pbind (ct C (pos @ [0]) b) (record_port pos)"
| "ct C pos (Baked x) =
     (case baked C x of None \<Rightarrow> pthrow Crash | Some s \<Rightarrow> pbind (ct_splice C s) (record_port pos))"
| "ct C pos (Defx x t b) = record_port pos NONE"
| "ct C pos (Load s) = record_port pos NONE"
| "ct C pos (Namespace s) = record_port pos NONE"
| "ct C pos (Open_ns s) = record_port pos NONE"
| "ct C pos (Export s) = record_port pos NONE"
| "ct C pos (Data s n cs) = record_port pos NONE"
  by pat_completeness auto
termination
  by (relation "measures [\<lambda>(C, pos, t). lets t, \<lambda>(C, pos, t). size t]") (auto simp: term_fix_def Let_def)

text \<open>\<open>lin_node_of\<close>: the last entry of a position.\<close>

definition lin_node_of :: "cst \<Rightarrow> nat list \<Rightarrow> port" where
  "lin_node_of st pos = (case find (\<lambda>e. fst e = pos) (rev (aot_map st)) of None \<Rightarrow> NONE | Some e \<Rightarrow> snd e)"

definition compile :: "cenv \<Rightarrow> tm \<Rightarrow> net \<Rightarrow> (cerr + unit) \<times> cst" where
  "compile C t n =
     pbind (ct C [] t) (\<lambda>r. c_link C (Port 0 0) r False)
       \<lparr>cnet = n, cstack = [], cur_lvl = 0, aot_map = []\<rparr>"

end
