(* ===== verification/Readers.thy ===== *)
theory Readers
  imports Builders Registry
begin

text \<open>
  The readers of the value encodings (\<open>src/io.c\<close>): walks through fans, one layer of each encoding, the
  chain readers and the arguments of closures.  Reading demands: \<open>force\<close> is the core's reducer \<open>net_force\<close>,
  which fires the redex a port names; here it is a parameter, a function on nets.  A reader returns the net
  it leaves.
\<close>

section \<open>Walks\<close>

definition alive :: "net \<Rightarrow> port \<Rightarrow> bool" where
  "alive n p \<longleftrightarrow> 0 \<le> node p \<and> node p < nn n \<and> \<not> dead n (node p)"

definition is_tag :: "ntag \<Rightarrow> net \<Rightarrow> port \<Rightarrow> bool" where
  "is_tag t n p \<longleftrightarrow> alive n p \<and> tag n (node p) = t"

text \<open>Both walks take at most one step per node of the net.\<close>

fun cross_loop :: "nat \<Rightarrow> net \<Rightarrow> port \<Rightarrow> port" where
  "cross_loop 0 n p = p"
| "cross_loop (Suc k) n p =
     (if is_tag DUP n p
      then cross_loop k n (if pno p = 0 then wire n (Port (node p) 1) else wire n (Port (node p) 0)) else p)"

definition dup_hop :: "net \<Rightarrow> port \<Rightarrow> port" where
  "dup_hop n = cross_loop (nat (nn n)) n"

fun skip_loop :: "nat \<Rightarrow> net \<Rightarrow> port \<Rightarrow> port" where
  "skip_loop 0 n p = p"
| "skip_loop (Suc k) n p = (if is_tag DUP n p then skip_loop k n (wire n (Port (node p) 0)) else p)"

definition skip_dup :: "net \<Rightarrow> port \<Rightarrow> port" where
  "skip_dup n = skip_loop (nat (nn n)) n"

section \<open>Forcing\<close>

type_synonym forcing = "net \<Rightarrow> port \<Rightarrow> net"

text \<open>\<open>net_force_val\<close> compares its step with the count of nodes as it is then.  That cnt stays below the
  largest index a port can hold (\<open>int node:30\<close>), which bounds the loop whatever forcing allocates.\<close>

definition max_nodes :: int where
  "max_nodes = 2 ^ 29"

function force_loop :: "forcing \<Rightarrow> int \<Rightarrow> port \<Rightarrow> net \<Rightarrow> net \<times> port" where
  "force_loop force i p n =
     (if nn n \<le> i \<or> max_nodes \<le> i \<or> \<not> in_net n (node p) then (n, p)
      else let s = wire n p;
               n1 = (if \<not> dead n (node p) then force n p else n)
           in if \<not> dead n1 (node p) then (n1, p)
              else if \<not> alive n1 s then (n1, p)
              else let v = wire n1 s in
                   if \<not> alive n1 v then (n1, p)
                   else if v = p then (n1, p)
                   else force_loop force (i + 1) v n1)"
  by pat_completeness auto
termination
  by (relation "measure (\<lambda>(force, i, p, n). nat (max_nodes - i))") auto

declare force_loop.simps [simp del]

definition net_force_val :: "forcing \<Rightarrow> port \<Rightarrow> net \<Rightarrow> net \<times> port" where
  "net_force_val force p n = force_loop force 0 p n"

section \<open>Layers\<close>

text \<open>\<open>hop\<close> forces and follows the fans, crossing them or not.\<close>

definition hop :: "forcing \<Rightarrow> bool \<Rightarrow> port \<Rightarrow> net \<Rightarrow> net \<times> port" where
  "hop force cross p n =
     (case net_force_val force p n of (n1, q) \<Rightarrow> (n1, if cross then dup_hop n1 q else skip_dup n1 q))"

definition hop_lam :: "forcing \<Rightarrow> bool \<Rightarrow> port \<Rightarrow> net \<Rightarrow> net \<times> port option" where
  "hop_lam force cross p n =
     (case hop force cross p n of (n1, q) \<Rightarrow> (n1, if is_tag LAM n1 q then Some q else None))"

text \<open>The second binder below a binder \<open>p\<close>, and what that binder's body is.\<close>

definition inner_lam :: "forcing \<Rightarrow> bool \<Rightarrow> port \<Rightarrow> net \<Rightarrow> net \<times> port option" where
  "inner_lam force cross p n =
     (case hop force cross (wire n (Port (node p) 2)) n of (n1, w) \<Rightarrow>
        (n1, if pno w = 0 \<and> is_tag LAM n1 w then Some w else None))"

definition two_lams :: "forcing \<Rightarrow> bool \<Rightarrow> port \<Rightarrow> net \<Rightarrow> net \<times> (port \<times> port) option" where
  "two_lams force cross p n =
     (case hop_lam force cross p n of
        (n1, None) \<Rightarrow> (n1, None)
      | (n1, Some q) \<Rightarrow>
          (case inner_lam force cross q n1 of
             (n2, None) \<Rightarrow> (n2, None)
           | (n2, Some w) \<Rightarrow> (n2, Some (q, w))))"

definition body_of :: "forcing \<Rightarrow> bool \<Rightarrow> port \<Rightarrow> net \<Rightarrow> net \<times> port" where
  "body_of force cross w n = hop force cross (wire n (Port (node w) 2)) n"

definition sel_layer :: "forcing \<Rightarrow> bool \<Rightarrow> port \<Rightarrow> net \<Rightarrow> net \<times> bool" where
  "sel_layer force second p n =
     (case two_lams force True p n of
        (n1, None) \<Rightarrow> (n1, False)
      | (n1, Some (q, w)) \<Rightarrow>
          (case body_of force True w n1 of (n2, b) \<Rightarrow>
             (n2, node b = (if second then node w else node q) \<and> pno b = 1)))"

definition succ_layer :: "forcing \<Rightarrow> port \<Rightarrow> net \<Rightarrow> net \<times> port option" where
  "succ_layer force p n =
     (case two_lams force True p n of
        (n1, None) \<Rightarrow> (n1, None)
      | (n1, Some (q, w)) \<Rightarrow>
          (case body_of force True w n1 of (n2, body) \<Rightarrow>
             if \<not> is_tag APP n2 body then (n2, None)
             else (case hop force True (wire n2 (Port (node body) 0)) n2 of (n3, f) \<Rightarrow>
                     (n3, if node f = node w \<and> pno f = 1 then Some (wire n3 (Port (node body) 2)) else None))))"

definition cell_layer :: "forcing \<Rightarrow> port \<Rightarrow> net \<Rightarrow> net \<times> (port \<times> port) option" where
  "cell_layer force p n =
     (case two_lams force False p n of
        (n1, None) \<Rightarrow> (n1, None)
      | (n1, Some (q, w)) \<Rightarrow>
          (case body_of force False w n1 of (n2, body) \<Rightarrow>
             if \<not> is_tag APP n2 body then (n2, None)
             else (case hop force False (wire n2 (Port (node body) 0)) n2 of (n3, ia) \<Rightarrow>
                     (n3, if is_tag APP n3 ia
                          then Some (wire n3 (Port (node ia) 2), wire n3 (Port (node body) 2)) else None))))"

definition net_read_cell :: "forcing \<Rightarrow> port \<Rightarrow> net \<Rightarrow> net \<times> (port \<times> port) option" where
  "net_read_cell = cell_layer"

definition nil_layer :: "forcing \<Rightarrow> port \<Rightarrow> net \<Rightarrow> net \<times> bool" where
  "nil_layer force p n =
     (case two_lams force False p n of
        (n1, None) \<Rightarrow> (n1, False)
      | (n1, Some (q, w)) \<Rightarrow> (case body_of force False w n1 of (n2, b) \<Rightarrow> (n2, is_tag LAM n2 b)))"

text \<open>\<open>enum { L_TERMINAL, L_INDUCTIVE, L_FALSE }\<close> with the ports of the layer.\<close>

datatype layer = Terminal | Inductive port port | False_layer

definition cons_layer :: "forcing \<Rightarrow> port \<Rightarrow> net \<Rightarrow> net \<times> layer option" where
  "cons_layer force p n =
     (case cell_layer force p n of
        (n1, Some (h, t)) \<Rightarrow> (n1, Some (Inductive h t))
      | (n1, None) \<Rightarrow> (case nil_layer force p n1 of (n2, b) \<Rightarrow> (n2, if b then Some Terminal else None)))"

section \<open>Reading chains\<close>

datatype enc = ENC_NUM | ENC_BOOL | ENC_CONS | ENC_STR | ENC_OP | ENC_FFI | ENC_EFF | ENC_BOX

definition enc_layer :: "forcing \<Rightarrow> enc \<Rightarrow> port \<Rightarrow> net \<Rightarrow> net \<times> layer option" where
  "enc_layer force e p n =
     (case e of
        ENC_NUM \<Rightarrow>
          (case sel_layer force False p n of (n1, b) \<Rightarrow>
             if b then (n1, Some Terminal)
             else (case succ_layer force p n1 of (n2, t) \<Rightarrow> (n2, map_option (Inductive NONE) t)))
      | ENC_BOOL \<Rightarrow>
          (case sel_layer force False p n of (n1, b) \<Rightarrow>
             if b then (n1, Some Terminal)
             else (case sel_layer force True p n1 of (n2, b2) \<Rightarrow> (n2, if b2 then Some False_layer else None)))
      | ENC_CONS \<Rightarrow> cons_layer force p n
      | ENC_STR \<Rightarrow> cons_layer force p n
      | _ \<Rightarrow> (n, None))"

text \<open>The loop of \<open>net_read_int\<close>; \<open>-1\<close> when \<open>p\<close> is not of the encoding.\<close>

function count_loop :: "forcing \<Rightarrow> enc \<Rightarrow> int \<Rightarrow> long \<Rightarrow> port \<Rightarrow> net \<Rightarrow> net \<times> long" where
  "count_loop force e i cnt p n =
     (if nn n \<le> i \<or> max_nodes \<le> i then (n, - 1)
      else case enc_layer force e p n of (n1, l) \<Rightarrow>
        (case l of
           None \<Rightarrow> (n1, - 1)
         | Some l \<Rightarrow>
             if e = ENC_BOOL then (n1, if l = Terminal then 1 else 0)
             else (case l of
                     Inductive h t \<Rightarrow> count_loop force e (i + 1) (cnt + 1) t n1
                   | _ \<Rightarrow> (n1, cnt))))"
  by pat_completeness auto
termination
  by (relation "measure (\<lambda>(force, e, i, cnt, p, n). nat (max_nodes - i))") auto

declare count_loop.simps [simp del]

definition read_bool :: "forcing \<Rightarrow> port \<Rightarrow> net \<Rightarrow> net \<times> long" where
  "read_bool force p n = count_loop force ENC_BOOL 0 0 p n"

text \<open>\<open>net_read_bits\<close>: cell \<open>k\<close> of a chain contributes bit \<open>k\<close>.  A shift by 64 or more, undefined in C,
  contributes nothing here.\<close>

function bits_loop :: "forcing \<Rightarrow> int \<Rightarrow> long \<Rightarrow> port \<Rightarrow> net \<Rightarrow> net \<times> int \<times> long" where
  "bits_loop force k a p n =
     (if nn n \<le> k \<or> max_nodes \<le> k then (n, k, a)
      else case cons_layer force p n of
        (n1, Some (Inductive h t)) \<Rightarrow>
          (case read_bool force h n1 of (n2, b) \<Rightarrow>
             if b <s 0 then (n2, k, a)
             else bits_loop force (k + 1) (a OR push_bit (nat k) (b AND 1)) t n2)
      | (n1, _) \<Rightarrow> (n1, k, a))"
  by pat_completeness auto
termination
  by (relation "measure (\<lambda>(force, k, a, p, n). nat (max_nodes - k))") auto

declare bits_loop.simps [simp del]

definition net_read_bits :: "forcing \<Rightarrow> port \<Rightarrow> net \<Rightarrow> net \<times> long" where
  "net_read_bits force p n = (case bits_loop force 0 0 p n of (n1, k, a) \<Rightarrow> (n1, if k \<noteq> 0 then a else - 1))"

definition net_read_int :: "forcing \<Rightarrow> port \<Rightarrow> enc \<Rightarrow> net \<Rightarrow> net \<times> long" where
  "net_read_int force p e n = (if e = ENC_NUM then net_read_bits force p n else count_loop force e 0 0 p n)"

text \<open>\<open>net_read_string_arena\<close>: the whole string, or \<open>None\<close> for its -1.\<close>

definition add_char :: "long \<Rightarrow> string \<Rightarrow> string" where
  "add_char ch buf = (if 0 <s ch \<and> ch <s 256 then buf @ [char_of (unat ch)] else buf)"

function string_loop :: "forcing \<Rightarrow> enc \<Rightarrow> int \<Rightarrow> string \<Rightarrow> port \<Rightarrow> net \<Rightarrow> net \<times> string option" where
  "string_loop force pay i buf cur n =
     (if nn n \<le> i \<or> max_nodes \<le> i then (n, if buf = [] then None else Some buf)
      else case cons_layer force cur n of
        (n1, None) \<Rightarrow> (n1, if buf = [] then None else Some buf)
      | (n1, Some (Inductive h t)) \<Rightarrow>
          (case net_read_int force h pay n1 of (n2, ch) \<Rightarrow> string_loop force pay (i + 1) (add_char ch buf) t n2)
      | (n1, Some _) \<Rightarrow> (n1, Some buf))"
  by pat_completeness auto
termination
  by (relation "measure (\<lambda>(force, pay, i, buf, cur, n). nat (max_nodes - i))") auto

declare string_loop.simps [simp del]

definition net_read_string_arena :: "forcing \<Rightarrow> port \<Rightarrow> enc \<Rightarrow> net \<Rightarrow> net \<times> string option" where
  "net_read_string_arena force p pay n = string_loop force pay 0 [] p n"

section \<open>Boxes\<close>

definition box_layer :: "forcing \<Rightarrow> port \<Rightarrow> net \<Rightarrow> net \<times> port option" where
  "box_layer force p n =
     (case two_lams force True p n of
        (n1, None) \<Rightarrow> (n1, None)
      | (n1, Some (q, b)) \<Rightarrow>
          (case body_of force True b n1 of (n2, oa) \<Rightarrow>
             if pno oa \<noteq> 1 \<or> \<not> is_tag APP n2 oa then (n2, None)
             else case hop force True (wire n2 (Port (node oa) 0)) n2 of (n3, f1) \<Rightarrow>
               if node f1 \<noteq> node q \<or> pno f1 \<noteq> 1 then (n3, None)
               else case hop force True (wire n3 (Port (node oa) 2)) n3 of (n4, ia) \<Rightarrow>
                 if pno ia \<noteq> 1 \<or> \<not> is_tag APP n4 ia then (n4, None)
                 else case hop force True (wire n4 (Port (node ia) 0)) n4 of (n5, f2) \<Rightarrow>
                   (n5, if node f2 = node b \<and> pno f2 = 1 then Some (wire n5 (Port (node ia) 2)) else None)))"

definition net_peel_index :: "forcing \<Rightarrow> port \<Rightarrow> net \<Rightarrow> net \<times> long" where
  "net_peel_index force p n =
     (case box_layer force p n of
        (n1, None) \<Rightarrow> (n1, - 1)
      | (n1, Some idx) \<Rightarrow> net_read_int force idx ENC_NUM n1)"

section \<open>Closures\<close>

text \<open>\<open>net_ffi_header\<close> is pure: it follows wires and fans and forces nothing.\<close>

definition net_ffi_header :: "net \<Rightarrow> port \<Rightarrow> (port \<times> port) option" where
  "net_ffi_header n lam =
     (let r = dup_hop n (wire n (Port (node lam) 2)) in
      if node r < 0 \<or> pno r \<noteq> 0 \<or> tag n (node r) \<noteq> LAM then None
      else let a2 = dup_hop n (wire n (Port (node r) 2)) in
      if node a2 < 0 \<or> pno a2 \<noteq> 1 \<or> tag n (node a2) \<noteq> APP then None
      else let fn = wire n (Port (node a2) 0) in
      if pno fn \<noteq> 1 \<or> tag n (node fn) \<noteq> APP then None
      else let a = dup_hop n (wire n (Port (node lam) 1)); b = dup_hop n (wire n (Port (node fn) 0)) in
      if node a \<noteq> node fn \<or> pno a \<noteq> 0 then None
      else if \<not> alive n b \<or> pno b \<noteq> 1 \<or> tag n (node b) \<noteq> LAM then None
      else Some (fn, wire n (Port (node a2) 2)))"

definition net_ffi_fn :: "forcing \<Rightarrow> port \<Rightarrow> nat \<Rightarrow> net \<Rightarrow> net \<times> string option" where
  "net_ffi_fn force p fnmax n =
     (case net_ffi_header n p of
        None \<Rightarrow> (n, None)
      | Some (a1, argp) \<Rightarrow>
          if node a1 < 0 \<or> pno a1 \<noteq> 1 \<or> tag n (node a1) \<noteq> APP then (n, None)
          else (case net_read_string_arena force (wire n (Port (node a1) 2)) ENC_NUM n of
                  (n1, Some s) \<Rightarrow> (n1, if s = [] then None else Some (take (fnmax - 1) s))
                | (n1, None) \<Rightarrow> (n1, None)))"

definition spine_entry :: "forcing \<Rightarrow> port \<Rightarrow> net \<Rightarrow> net \<times> bool" where
  "spine_entry force argp n = (case cons_layer force argp n of (n1, l) \<Rightarrow> (n1, l \<noteq> None))"

function slots_loop :: "forcing \<Rightarrow> int \<Rightarrow> int \<Rightarrow> port \<Rightarrow> net \<Rightarrow> net \<times> int" where
  "slots_loop force i k cur n =
     (if nn n \<le> i \<or> max_nodes \<le> i then (n, k)
      else case cons_layer force cur n of
        (n1, Some (Inductive h t)) \<Rightarrow>
          (case net_force_val force t n1 of (n2, nxt) \<Rightarrow> slots_loop force (i + 1) (k + 1) nxt n2)
      | (n1, _) \<Rightarrow> (n1, k))"
  by pat_completeness auto
termination
  by (relation "measure (\<lambda>(force, i, k, cur, n). nat (max_nodes - i))") auto

declare slots_loop.simps [simp del]

definition net_spine_slots :: "forcing \<Rightarrow> port \<Rightarrow> net \<Rightarrow> net \<times> int" where
  "net_spine_slots force argp n =
     (case hop force False argp n of (n1, cur) \<Rightarrow>
      case spine_entry force cur n1 of (n2, b) \<Rightarrow> if b then slots_loop force 0 0 cur n2 else (n2, - 1))"

section \<open>Operands\<close>

text \<open>\<open>Val\<close> by its kind; the bits of a float are a word.\<close>

datatype val = V_none | V_int long | V_str string | V_bool long | V_float long

datatype dom = DT_NUM | DT_BOOL | DT_STR | DT_FFI | DT_FLOAT | DT_OP

text \<open>
  What the readers ask of the drivers: \<open>observe\<close> is \<open>net_read_value\<close> through the readback provider and
  \<open>unbox\<close> is \<open>net_unbox_value\<close> through the provider of the float domain; both come back with the net they
  leave.  \<open>building\<close> says that a build or precompile marker is up.
\<close>

record world =
  force :: forcing
  observe :: "port \<Rightarrow> dom \<Rightarrow> net \<Rightarrow> net \<times> val option"
  unbox :: "port \<Rightarrow> net \<Rightarrow> net \<times> val option"
  building :: bool

definition net_read_float :: "world \<Rightarrow> port \<Rightarrow> net \<Rightarrow> net \<times> long option" where
  "net_read_float W p n =
     (case unbox W p n of
        (n1, Some (V_float d)) \<Rightarrow> (n1, Some d)
      | (n1, _) \<Rightarrow> (n1, None))"

text \<open>What the structure determines when the expectation does not hold.\<close>

definition dec_structure :: "world \<Rightarrow> port \<Rightarrow> net \<Rightarrow> net \<times> val option" where
  "dec_structure W p n =
     (case net_read_float W p n of
        (n1, Some d) \<Rightarrow> (n1, Some (V_float d))
      | (n1, None) \<Rightarrow>
          (case net_read_int (force W) p ENC_NUM n1 of (n2, x) \<Rightarrow>
             if 0 <s x then (n2, Some (V_int x))
             else (case net_read_string_arena (force W) p ENC_NUM n2 of
                     (n3, Some s) \<Rightarrow> (n3, if s = [] then None else Some (V_str s))
                   | (n3, None) \<Rightarrow> (n3, None))))"

definition dec_expected :: "world \<Rightarrow> port \<Rightarrow> dom \<Rightarrow> net \<Rightarrow> net \<times> val option" where
  "dec_expected W p d n =
     (case d of
        DT_NUM \<Rightarrow> (case net_read_int (force W) p ENC_NUM n of (n1, x) \<Rightarrow> (n1, if 0 \<le>s x then Some (V_int x) else None))
      | DT_BOOL \<Rightarrow> (case net_read_int (force W) p ENC_BOOL n of (n1, x) \<Rightarrow> (n1, if 0 \<le>s x then Some (V_bool x) else None))
      | DT_STR \<Rightarrow> (case net_read_string_arena (force W) p ENC_NUM n of (n1, s) \<Rightarrow> (n1, map_option V_str s))
      | DT_FLOAT \<Rightarrow> (case net_read_float W p n of (n1, x) \<Rightarrow> (n1, map_option V_float x))
      | DT_FFI \<Rightarrow> observe W p DT_FFI n
      | DT_OP \<Rightarrow> (n, None))"

definition dec_arg :: "world \<Rightarrow> port \<Rightarrow> dom \<Rightarrow> net \<Rightarrow> net \<times> val option" where
  "dec_arg W p d n =
     (if d = DT_STR \<and> building W then (n, None)
      else case observe W p DT_FFI n of (n1, v) \<Rightarrow>
        if v \<noteq> None \<and> v \<noteq> Some V_none then (n1, v)
        else let q = skip_dup n1 p in
          (case (if pno q = 0 then net_ffi_fn (force W) q 2 n1 else (n1, None)) of
             (n2, Some fn) \<Rightarrow> (n2, None)
           | (n2, None) \<Rightarrow>
               (case dec_expected W p d n2 of
                  (n3, Some v) \<Rightarrow> (n3, Some v)
                | (n3, None) \<Rightarrow> dec_structure W p n3)))"

text \<open>\<open>net_spine_args\<close>: the values decoded, in order; the loop of the walk over the cells.\<close>

definition slot_dom :: "dom list \<Rightarrow> int \<Rightarrow> dom" where
  "slot_dom doms i = doms ! (if i < int (length doms) then nat i else length doms - 1)"

function args_loop :: "world \<Rightarrow> dom list \<Rightarrow> nat \<Rightarrow> int \<Rightarrow> val list \<Rightarrow> port \<Rightarrow> net \<Rightarrow> net \<times> val list" where
  "args_loop W doms mx i vals cur n =
     (if nn n \<le> i \<or> max_nodes \<le> i \<or> mx \<le> length vals then (n, vals)
      else case cons_layer (force W) cur n of
        (n1, Some (Inductive h t)) \<Rightarrow>
          (case dec_arg W h (slot_dom doms i) n1 of (n2, v) \<Rightarrow>
             let vals' = (case v of None \<Rightarrow> vals | Some v \<Rightarrow> vals @ [v]) in
             (case cell_layer (force W) cur n2 of
                (n3, None) \<Rightarrow> (n3, vals')
              | (n3, Some (h2, t2)) \<Rightarrow> args_loop W doms mx (i + 1) vals' t2 n3))
      | (n1, _) \<Rightarrow> (n1, vals))"
  by pat_completeness auto
termination
  by (relation "measure (\<lambda>(W, doms, mx, i, vals, cur, n). nat (max_nodes - i))") auto

declare args_loop.simps [simp del]

definition net_spine_args :: "world \<Rightarrow> port \<Rightarrow> dom list \<Rightarrow> nat \<Rightarrow> net \<Rightarrow> net \<times> val list" where
  "net_spine_args W argp doms mx n =
     (case hop (force W) False argp n of (n1, cur) \<Rightarrow>
        if doms = [] then (n1, [])
        else case spine_entry (force W) cur n1 of (n2, b) \<Rightarrow>
          if b then args_loop W doms mx 0 [] cur n2
          else (case dec_arg W argp (doms ! 0) n2 of (n3, v) \<Rightarrow> (n3, case v of None \<Rightarrow> [] | Some v \<Rightarrow> [v])))"

definition net_ffi_args :: "world \<Rightarrow> port \<Rightarrow> dom list \<Rightarrow> nat \<Rightarrow> net \<Rightarrow> net \<times> val list" where
  "net_ffi_args W lam doms mx n =
     (case net_ffi_header n lam of None \<Rightarrow> (n, []) | Some (a1, argp) \<Rightarrow> net_spine_args W argp doms mx n)"

end
