(* ===== verification/NumeralProps.thy ===== *)
theory NumeralProps
  imports Readers
begin

text \<open>
  What the encodings keep: a boolean and a numeral built on a net stand there as the readers expect them, and
  reading gives back the low 62 bits of the number.
\<close>

section \<open>Adding to a net\<close>

text \<open>From \<open>n\<close> to \<open>m\<close> nodes and levels may have been added; of the ports of \<open>n\<close> only those of \<open>X\<close> were wired.\<close>

definition adds :: "net \<Rightarrow> net \<Rightarrow> port set \<Rightarrow> bool" where
  "adds n m X \<longleftrightarrow> net_ok m \<and> (\<forall>P. all_queued n P \<longrightarrow> all_queued m P) \<and>
     (\<forall>v. live n v \<longrightarrow> live m v \<and> tag m v = tag n v) \<and>
     (\<forall>q. live n (node q) \<and> q \<notin> X \<longrightarrow> wire m q = wire n q) \<and> nlv (lvl n) \<le> nlv (lvl m)"

lemma addsD:
  assumes "adds n m X"
  shows "net_ok m" "\<And>P. all_queued n P \<Longrightarrow> all_queued m P" "live n v \<Longrightarrow> live m v" "live n v \<Longrightarrow> tag m v = tag n v"
    "live n (node q) \<Longrightarrow> q \<notin> X \<Longrightarrow> wire m q = wire n q" "l \<le> nlv (lvl n) \<Longrightarrow> l \<le> nlv (lvl m)"
  using assms by (auto simp: adds_def)

lemma adds_refl: "net_ok n \<Longrightarrow> adds n n X"
  by (simp add: adds_def)

lemma adds_trans: "adds n m X \<Longrightarrow> adds m k Y \<Longrightarrow> adds n k (X \<union> Y)"
  unfolding adds_def by auto

text \<open>Only the ports that were there matter.\<close>

lemma adds_cut: "adds n m X \<Longrightarrow> (\<And>x. x \<in> X \<Longrightarrow> live n (node x) \<Longrightarrow> x \<in> Y) \<Longrightarrow> adds n m Y"
  unfolding adds_def by blast

lemma adds_then: "adds n m {} \<Longrightarrow> adds m k {} \<Longrightarrow> adds n k {}"
  using adds_trans[of n m "{}" k "{}"] by simp

lemma adds_alloc:
  assumes "net_ok n" "\<not> in_parallel E" "sc \<le> nlv (lvl n)" "net_alloc E t sc n = (m, v)"
  shows "adds n m {}" "\<not> live n v" "live m v" "tag m v = t" "p < 3 \<Longrightarrow> wire m (Port v p) = NONE"
proof -
  note a = net_ok_alloc[OF assms]
  have f: "fresh_node t sc n v m" by (rule a(1))
  have "\<not> live n v" "\<And>u. live m u \<longleftrightarrow> live n u \<or> u = v" "\<And>q. node q \<noteq> v \<Longrightarrow> wire m q = wire n q"
    "\<And>u. u \<noteq> v \<Longrightarrow> tag m u = tag n u" "lvl m = lvl n" using f by (simp_all add: fresh_node_def)
  then show "adds n m {}" unfolding adds_def using a(2,3) by (intro conjI allI impI) (metis order_refl)+
  show "\<not> live n v" "live m v" "tag m v = t" "p < 3 \<Longrightarrow> wire m (Port v p) = NONE" using f by (auto simp: fresh_node_def)
qed

lemma adds_level:
  assumes ok: "net_ok n" and s: "s \<le> nlv (lvl n)" and r: "net_scope_app s br n = (m, g)"
  shows "adds n m {}" "g \<le> nlv (lvl m)"
proof -
  obtain L where L: "scope_app (lvl n) s br = (L, g)" "m = n\<lparr>lvl := L\<rparr>"
    using r by (auto simp: net_scope_app_def split: prod.splits)
  have wf: "lv_wf (lvl n)" using ok by (simp add: net_ok_def levels_ok_def)
  note sp = scope_app_spec[OF wf s L(1)]
  note o = net_ok_lvl[OF ok sp(1,2)]
  show "adds n m {}" unfolding adds_def using o lv_ext_nlv[OF sp(2)] by (auto simp: L(2) live_def in_net_def)
  show "g \<le> nlv (lvl m)" using sp(3) by (simp add: L(2))
qed

definition free_ends :: "net \<Rightarrow> (port \<times> port) list \<Rightarrow> bool" where
  "free_ends n ls \<longleftrightarrow> distinct (map fst ls @ map snd ls) \<and>
     (\<forall>p \<in> set (map fst ls @ map snd ls). live n (node p) \<and> pno p < 3 \<and> wire n p = NONE) \<and>
     (\<forall>(p, q) \<in> set ls. 0 < pno p \<or> 0 < pno q)"

lemma adds_links:
  "net_ok n \<Longrightarrow> \<not> in_parallel E \<Longrightarrow> free_ends n ls \<Longrightarrow>
   adds n (link_all E ls n) (set (map fst ls @ map snd ls)) \<and> wire (link_all E ls n) = fold link_ends ls (wire n) \<and>
   (\<forall>v. live (link_all E ls n) v = live n v) \<and> (\<forall>v. live n v \<longrightarrow> tag (link_all E ls n) v = tag n v)"
proof (induction ls arbitrary: n)
  case (Cons l ls)
  obtain p q where l: "l = (p, q)" by fastforce
  have pq: "standing n {} p" "wire n p = NONE" "standing n {} q" "wire n q = NONE" "p \<noteq> q" "0 < pno p \<or> 0 < pno q"
    using Cons.prems(3) by (auto simp: free_ends_def l standing_def)
  let ?m = "net_link E p q False n"
  note k = net_ok_link[OF Cons.prems(1,2) pq(1-5) refl[of ?m]]
  have lv: "live ?m v = live n v" for v by (rule k(3))
  have mt: "lvl ?m = lvl n" "live n v \<Longrightarrow> tag ?m v = tag n v" for v using k(4) lv by (auto simp: meta_def)
  have fe: "free_ends ?m ls" using Cons.prems(3) k(2) lv by (auto simp: free_ends_def l)
  have a: "adds n ?m {p, q}" unfolding adds_def using k(1,2,5) lv mt pq(6) by auto
  note ih = Cons.IH[OF k(1) Cons.prems(2) fe]
  have e: "link_all E (l # ls) n = link_all E ls ?m" by (simp add: link_all_def l)
  have "adds n (link_all E (l # ls) n) ({p, q} \<union> set (map fst ls @ map snd ls))"
    unfolding e by (rule adds_trans[OF a]) (use ih in blast)
  moreover have "{p, q} \<union> set (map fst ls @ map snd ls) = set (map fst (l # ls) @ map snd (l # ls))" by (auto simp: l)
  moreover have "wire (link_all E (l # ls) n) = fold link_ends (l # ls) (wire n)"
    unfolding e using ih by (simp only: l fold_Cons comp_apply link_ends_pair k(2))
  ultimately show ?case using ih lv mt unfolding e by simp
qed (simp add: link_all_def adds_refl)

section \<open>Booleans\<close>

definition lam_at :: "net \<Rightarrow> int \<Rightarrow> bool" where
  "lam_at m v \<longleftrightarrow> live m v \<and> tag m v = LAM"

definition app_at :: "net \<Rightarrow> int \<Rightarrow> bool" where
  "app_at m v \<longleftrightarrow> live m v \<and> tag m v = APP"

definition bool_at :: "net \<Rightarrow> port \<Rightarrow> bool \<Rightarrow> bool" where
  "bool_at m q b \<longleftrightarrow> (\<exists>t f. q = Port t 0 \<and> t \<noteq> f \<and> lam_at m t \<and> lam_at m f \<and> wire m (Port t 2) = Port f 0 \<and>
     wire m (Port f 2) = Port (if b then t else f) 1)"

text \<open>A port that was built, nothing being wired to it yet.\<close>

definition open_at :: "net \<Rightarrow> net \<Rightarrow> port \<Rightarrow> bool" where
  "open_at n m p \<longleftrightarrow> pno p = 0 \<and> \<not> live n (node p) \<and> lam_at m (node p) \<and> wire m p = NONE"

lemma alloc_bool_spec:
  assumes ok: "net_ok n" and E: "\<not> in_parallel E" and r: "net_alloc_bool E b n = (m, q)"
  shows "adds n m {}" "bool_at m q b" "open_at n m q"
proof -
  obtain n1 t n2 f where a: "net_alloc E LAM 0 n = (n1, t)" "net_alloc E LAM 0 n1 = (n2, f)"
    and q: "q = Port t 0" and m: "m = link_all E [(Port t 2, Port f 0), (Port f 2, Port (if b then t else f) 1)] n2"
    using r by (auto simp: net_alloc_bool_def split: prod.splits)
  note a1 = adds_alloc[OF ok E _ a(1), simplified]
  note a2 = adds_alloc[OF addsD(1)[OF a1(1)] E _ a(2), simplified]
  have tf: "t \<noteq> f" using a1(3) a2(2) by blast
  have t: "live n2 t" "tag n2 t = LAM" "p < 3 \<Longrightarrow> wire n2 (Port t p) = NONE" for p
    using a1 addsD(3-5)[OF a2(1)] by auto
  let ?ls = "[(Port t 2, Port f 0), (Port f 2, Port (if b then t else f) 1)]"
  have "free_ends n2 ?ls" unfolding free_ends_def using t a2 tf by auto
  note l = adds_links[OF addsD(1)[OF a2(1)] E this, folded m]
  have "adds n m (set (map fst ?ls @ map snd ?ls))"
    using adds_trans[OF adds_then[OF a1(1) a2(1)], of m] l by simp
  moreover have "\<not> live n f" using a2(2) addsD(3)[OF a1(1)] by blast
  ultimately show "adds n m {}" by (elim adds_cut) (use a1(2) in \<open>auto split: if_splits\<close>)
  have w: "wire m = fold link_ends ?ls (wire n2)" using l by blast
  have nd: "lam_at m t" "lam_at m f" using l t a2 by (auto simp: lam_at_def)
  have "wire m (Port t 2) = Port f 0" "wire m (Port f 2) = Port (if b then t else f) 1" "wire m (Port t 0) = NONE"
    using tf t(3) by (simp_all add: w link_ends_pair)
  then show "bool_at m q b" "open_at n m q" using nd tf a1(2) q by (auto simp: bool_at_def open_at_def)
qed

text \<open>Wiring principal ports of binders disturbs no encoding.\<close>

definition heads :: "net \<Rightarrow> port set \<Rightarrow> bool" where
  "heads m X \<longleftrightarrow> (\<forall>x \<in> X. pno x = 0 \<and> lam_at m (node x))"

lemma adds_lam: "adds n m X \<Longrightarrow> lam_at n v \<Longrightarrow> lam_at m v" "adds n m X \<Longrightarrow> app_at n v \<Longrightarrow> app_at m v"
  by (auto simp: lam_at_def app_at_def adds_def)

lemma adds_wire2: "adds n m X \<Longrightarrow> heads n X \<Longrightarrow> lam_at n v \<Longrightarrow> wire m (Port v 2) = wire n (Port v 2)"
  by (rule addsD(5)) (auto simp: heads_def lam_at_def)

lemma adds_wireA: "adds n m X \<Longrightarrow> heads n X \<Longrightarrow> app_at n v \<Longrightarrow> wire m (Port v p) = wire n (Port v p)"
  by (rule addsD(5)) (auto simp: heads_def lam_at_def app_at_def)

text \<open>The nodes of encodings stay what they are, and wired as they are.\<close>

definition carries :: "net \<Rightarrow> net \<Rightarrow> bool" where
  "carries n m \<longleftrightarrow> (\<forall>v. lam_at n v \<longrightarrow> lam_at m v \<and> wire m (Port v 2) = wire n (Port v 2)) \<and>
     (\<forall>v p. app_at n v \<longrightarrow> app_at m v \<and> wire m (Port v p) = wire n (Port v p))"

lemma carriesD:
  assumes "carries n m"
  shows "lam_at n v \<Longrightarrow> lam_at m v" "lam_at n v \<Longrightarrow> wire m (Port v 2) = wire n (Port v 2)"
    "app_at n v \<Longrightarrow> app_at m v" "app_at n v \<Longrightarrow> wire m (Port v p) = wire n (Port v p)"
  using assms unfolding carries_def by blast+

lemma adds_carries: "adds n m X \<Longrightarrow> heads n X \<Longrightarrow> carries n m"
  unfolding carries_def using adds_lam adds_wire2 adds_wireA by blast

lemma bool_at_carries:
  assumes "bool_at n q b" "carries n m"
  shows "bool_at m q b"
proof -
  obtain t f where b: "q = Port t 0" "t \<noteq> f" "lam_at n t" "lam_at n f" "wire n (Port t 2) = Port f 0"
    "wire n (Port f 2) = Port (if b then t else f) 1" using assms(1) unfolding bool_at_def by blast
  then show ?thesis unfolding bool_at_def
    using carriesD(1,2)[OF assms(2)] by (intro exI[of _ t] exI[of _ f]) simp
qed

lemmas bool_at_adds = bool_at_carries[OF _ adds_carries]

section \<open>Numerals\<close>

fun bits_at :: "net \<Rightarrow> port \<Rightarrow> bool list \<Rightarrow> bool" where
  "bits_at m p [] \<longleftrightarrow> (\<exists>a r t. p = Port a 0 \<and> lam_at m a \<and> wire m (Port a 2) = Port r 0 \<and> lam_at m r \<and>
     wire m (Port r 2) = Port t 0 \<and> lam_at m t)"
| "bits_at m p (b # bs) \<longleftrightarrow> (\<exists>c r ou ia q cur. p = Port c 0 \<and> lam_at m c \<and> wire m (Port c 2) = Port r 0 \<and> lam_at m r \<and>
     wire m (Port r 2) = Port ou 1 \<and> app_at m ou \<and> wire m (Port ou 0) = Port ia 1 \<and> app_at m ia \<and>
     wire m (Port ia 2) = q \<and> bool_at m q b \<and> wire m (Port ou 2) = cur \<and> bits_at m cur bs)"

lemma bits_at_carries: "bits_at n p bs \<Longrightarrow> carries n m \<Longrightarrow> bits_at m p bs"
proof (induction bs arbitrary: p)
  case Nil
  note c = carriesD(1,2)[OF Nil.prems(2)]
  obtain a r t where b: "p = Port a 0" "lam_at n a" "wire n (Port a 2) = Port r 0" "lam_at n r"
    "wire n (Port r 2) = Port t 0" "lam_at n t" using Nil.prems(1) by auto
  show ?case unfolding bits_at.simps
    by (rule exI[of _ a], rule exI[of _ r], rule exI[of _ t]) (use b c in simp)
next
  case (Cons b bs)
  note c = carriesD[OF Cons.prems(2)]
  obtain u r ou ia where b: "p = Port u 0" "lam_at n u" "wire n (Port u 2) = Port r 0" "lam_at n r"
    "wire n (Port r 2) = Port ou 1" "app_at n ou" "wire n (Port ou 0) = Port ia 1" "app_at n ia"
    "bool_at n (wire n (Port ia 2)) b" "bits_at n (wire n (Port ou 2)) bs" using Cons.prems(1) by auto
  have k: "bits_at m (wire n (Port ou 2)) bs" by (rule Cons.IH[OF b(10) Cons.prems(2)])
  have q: "bool_at m (wire n (Port ia 2)) b" by (rule bool_at_carries[OF b(9) Cons.prems(2)])
  show ?case unfolding bits_at.simps
    by (rule exI[of _ u], rule exI[of _ r], rule exI[of _ ou], rule exI[of _ ia]) (use b k q c in simp)
qed

lemmas bits_at_adds = bits_at_carries[OF _ adds_carries]

definition fresh_at :: "ntag \<Rightarrow> net \<Rightarrow> int \<Rightarrow> bool" where
  "fresh_at t n v \<longleftrightarrow> live n v \<and> tag n v = t \<and> (\<forall>p < 3. wire n (Port v p) = NONE)"

lemma fresh_adds: "fresh_at t n v \<Longrightarrow> adds n m {} \<Longrightarrow> fresh_at t m v"
  by (auto simp: fresh_at_def adds_def)

lemma fresh_alloc:
  "net_ok n \<Longrightarrow> \<not> in_parallel E \<Longrightarrow> sc \<le> nlv (lvl n) \<Longrightarrow> net_alloc E t sc n = (m, v) \<Longrightarrow> fresh_at t m v"
  using adds_alloc[of n E sc t m v] by (auto simp: fresh_at_def)

lemma scott_nil_spec:
  assumes ok: "net_ok n" and E: "\<not> in_parallel E" and lv: "lv \<le> nlv (lvl n)" and r: "scott_nil E lv n = (m, p)"
  shows "adds n m {}" "bits_at m p []" "open_at n m p"
proof -
  obtain n1 bl n2 a n3 b n4 t where s: "net_scope_app lv 1 n = (n1, bl)" "net_alloc E LAM lv n1 = (n2, a)"
    "net_alloc E LAM bl n2 = (n3, b)" "net_alloc_bool E True (net_link E (Port a 2) (Port b 0) False n3) = (n4, t)"
    and m: "m = net_link E (Port b 2) t False n4" and p: "p = Port a 0"
    using r by (auto simp: scott_nil_def split: prod.splits)
  note a0 = adds_level[OF ok lv s(1)]
  note ok1 = addsD(1)[OF a0(1)]
  note a1 = adds_alloc[OF ok1 E addsD(6)[OF a0(1) lv] s(2)]
  note ok2 = addsD(1)[OF a1(1)]
  note a2 = adds_alloc[OF ok2 E addsD(6)[OF a1(1) a0(2)] s(3)]
  note ok3 = addsD(1)[OF a2(1)]
  have ab: "a \<noteq> b" using a1(3) a2(2) by blast
  have f: "fresh_at LAM n3 a" "fresh_at LAM n3 b"
    using fresh_adds[OF fresh_alloc[OF ok1 E addsD(6)[OF a0(1) lv] s(2)] a2(1)]
      fresh_alloc[OF ok2 E addsD(6)[OF a1(1) a0(2)] s(3)] by simp_all
  have new: "\<not> live n a" "\<not> live n b"
    using a1(2) a2(2) addsD(3)[OF a0(1)] addsD(3)[OF a1(1)] by blast+
  have e: "net_link E (Port a 2) (Port b 0) False n3 = link_all E [(Port a 2, Port b 0)] n3"
    "net_link E (Port b 2) t False n4 = link_all E [(Port b 2, t)] n4" by (simp_all add: link_all_def)
  have "free_ends n3 [(Port a 2, Port b 0)]" using f ab by (simp add: free_ends_def fresh_at_def)
  note l1 = adds_links[OF ok3 E this, folded e(1)]
  let ?k = "net_link E (Port a 2) (Port b 0) False n3"
  have okk: "net_ok ?k" using l1 by (simp add: adds_def)
  note bo = alloc_bool_spec[OF okk E s(4)]
  have wk: "wire ?k (Port a 2) = Port b 0" "wire ?k (Port b 2) = NONE" "wire ?k (Port a 0) = NONE"
    using l1 f ab by (simp_all add: link_ends_pair fresh_at_def)
  have lk: "lam_at ?k a" "lam_at ?k b" using l1 f by (auto simp: lam_at_def fresh_at_def)
  have w4: "wire n4 (Port a 2) = Port b 0" "wire n4 (Port b 2) = NONE" "wire n4 (Port a 0) = NONE"
    using addsD(5)[OF bo(1)] wk lk by (simp_all add: lam_at_def)
  have l4: "lam_at n4 a" "lam_at n4 b" using adds_lam(1)[OF bo(1)] lk by simp_all
  obtain v where t: "t = Port v 0" "lam_at n4 v" "wire n4 t = NONE" "\<not> live ?k v" using bo(3)
    by (cases t) (auto simp: open_at_def)
  have v: "v \<noteq> a" "v \<noteq> b" using t(4) lk by (auto simp: lam_at_def)
  have "free_ends n4 [(Port b 2, t)]" using t l4 v w4 by (simp add: free_ends_def lam_at_def)
  note l2 = adds_links[OF addsD(1)[OF bo(1)] E this, folded e(2) m]
  have wm: "wire m (Port a 2) = Port b 0" "wire m (Port b 2) = t" "wire m (Port a 0) = NONE"
    using l2 w4 ab v t(1) by (simp_all add: link_ends_pair)
  have lm: "lam_at m a" "lam_at m b" "lam_at m v" using l2 l4 t(2) by (auto simp: lam_at_def)
  show "bits_at m p []" unfolding bits_at.simps
    by (rule exI[of _ a], rule exI[of _ b], rule exI[of _ v]) (use wm lm p t(1) in simp)
  show "open_at n m p" using wm(3) lm(1) new(1) p by (simp add: open_at_def)
  have n3: "adds n n3 {}" by (rule adds_then[OF adds_then[OF a0(1) a1(1)] a2(1)])
  have "adds n ?k {Port a 2, Port b 0}" using adds_trans[OF n3, of ?k] l1 by simp
  then have "adds n ?k {}" by (elim adds_cut) (use new in auto)
  then have n4: "adds n n4 {}" by (rule adds_then[OF _ bo(1)])
  have "adds n m {Port b 2, t}" using adds_trans[OF n4, of m] l2 by simp
  moreover have "\<not> live n v" using t(4) addsD(3)[OF \<open>adds n ?k {}\<close>] by blast
  ultimately show "adds n m {}" by (elim adds_cut) (use new t(1) in auto)
qed

text \<open>Nodes taken from the allocator and not wired yet.\<close>

definition stocked :: "net \<Rightarrow> net \<Rightarrow> (ntag \<times> int) list \<Rightarrow> bool" where
  "stocked n m vs \<longleftrightarrow> adds n m {} \<and> (\<forall>(t, v) \<in> set vs. fresh_at t m v \<and> \<not> live n v) \<and> distinct (map snd vs)"

lemma stocked_start: "net_ok n \<Longrightarrow> stocked n n []"
  by (simp add: stocked_def adds_refl)

lemma stocked_alloc:
  assumes st: "stocked n m vs" and E: "\<not> in_parallel E" and sc: "sc \<le> nlv (lvl m)" and r: "net_alloc E t sc m = (k, v)"
  shows "stocked n k ((t, v) # vs)" "l \<le> nlv (lvl m) \<Longrightarrow> l \<le> nlv (lvl k)"
proof -
  have ok: "net_ok m" and nm: "adds n m {}" using st by (auto simp: stocked_def adds_def)
  note a = adds_alloc[OF ok E sc r]
  have "(t', v) \<notin> set vs" for t' using st a(2) by (auto simp: stocked_def fresh_at_def)
  then have "v \<notin> set (map snd vs)" by auto
  moreover have "\<not> live n v" using a(2) addsD(3)[OF nm] by blast
  moreover have "fresh_at t k v" by (rule fresh_alloc[OF ok E sc r])
  ultimately show "stocked n k ((t, v) # vs)"
    using st adds_then[OF nm a(1)] fresh_adds[OF _ a(1)] by (auto simp: stocked_def)
  show "l \<le> nlv (lvl m) \<Longrightarrow> l \<le> nlv (lvl k)" by (rule addsD(6)[OF a(1)])
qed

lemma stocked_level:
  assumes st: "stocked n m vs" and s: "s \<le> nlv (lvl m)" and r: "net_scope_app s br m = (k, g)"
  shows "stocked n k vs" "g \<le> nlv (lvl k)" "l \<le> nlv (lvl m) \<Longrightarrow> l \<le> nlv (lvl k)"
proof -
  have ok: "net_ok m" and nm: "adds n m {}" using st by (auto simp: stocked_def adds_def)
  note a = adds_level[OF ok s r]
  show "stocked n k vs" using st adds_then[OF nm a(1)] fresh_adds[OF _ a(1)] by (auto simp: stocked_def)
  show "g \<le> nlv (lvl k)" "l \<le> nlv (lvl m) \<Longrightarrow> l \<le> nlv (lvl k)" using a addsD(6)[OF a(1)] by blast+
qed

lemma scott_cell_spec:
  assumes b: "bits_at n cur bs" "open_at n0 n cur" "adds n0 n {}" and E: "\<not> in_parallel E" and lv: "lv \<le> nlv (lvl n0)"
    and r: "scott_cell E lv x (n, cur) = (m, p)"
  shows "bits_at m p (x # bs)" "open_at n0 m p" "adds n0 m {}" "live_set n \<subset> live_set m"
proof -
  have ok: "net_ok n" and lv: "lv \<le> nlv (lvl n)" using b(3) lv by (auto simp: adds_def)
  obtain n1 f n2 a n3 q n4 c n5 fi n6 nr n7 ia n8 ou where s: "net_scope_app lv 1 n = (n1, f)" "net_scope_app lv 2 n1 = (n2, a)"
    "net_alloc_bool E x n2 = (n3, q)" "net_alloc E LAM f n3 = (n4, c)" "net_scope_app f 1 n4 = (n5, fi)"
    "net_alloc E LAM fi n5 = (n6, nr)" "net_alloc E APP f n6 = (n7, ia)" "net_alloc E APP a n7 = (n8, ou)"
    and m: "m = link_all E [(Port c 2, Port nr 0), (Port nr 2, Port ou 1), (Port ou 0, Port ia 1), (Port ou 2, cur),
                     (Port ia 0, Port c 1), (Port ia 2, q)] n8" and p: "p = Port c 0"
    using r by (auto simp: scott_cell_def split: prod.splits)
  note s1 = stocked_level[OF stocked_start[OF ok] lv s(1)]
  note s2 = stocked_level[OF s1(1) s1(3)[OF lv] s(2)]
  have a2: "adds n n2 {}" using s2(1) by (simp add: stocked_def)
  note bo = alloc_bool_spec[OF addsD(1)[OF a2] E s(3)]
  note ok3 = addsD(1)[OF bo(1)]
  note up3 = addsD(6)[OF bo(1)]
  have f3: "f \<le> nlv (lvl n3)" "a \<le> nlv (lvl n3)" using up3 s2 s1(2) by blast+
  note s4 = stocked_alloc[OF stocked_start[OF ok3] E f3(1) s(4)]
  note s5 = stocked_level[OF s4(1) s4(2)[OF f3(1)] s(5)]
  note s6 = stocked_alloc[OF s5(1) E s5(2) s(6)]
  note f6 = s6(2)[OF s5(3)[OF s4(2)[OF f3(1)]]]
  note s7 = stocked_alloc[OF s6(1) E f6 s(7)]
  note a7 = s7(2)[OF s6(2)[OF s5(3)[OF s4(2)[OF f3(2)]]]]
  note s8 = stocked_alloc[OF s7(1) E a7 s(8), unfolded stocked_def]
  have n38: "adds n3 n8 {}" using s8(1) by blast
  have fr: "fresh_at APP n8 ou" "fresh_at APP n8 ia" "fresh_at LAM n8 nr" "fresh_at LAM n8 c"
    "\<not> live n3 ou" "\<not> live n3 ia" "\<not> live n3 nr" "\<not> live n3 c" and d: "distinct [ou, ia, nr, c]"
    using s8(1) by auto
  obtain u where u: "cur = Port u 0" "lam_at n u" "wire n cur = NONE" "\<not> live n0 u"
    using b(2) by (cases cur) (auto simp: open_at_def)
  obtain v where v: "q = Port v 0" "lam_at n3 v" "wire n3 q = NONE" "\<not> live n2 v"
    using bo(3) by (cases q) (auto simp: open_at_def)
  note n13 = adds_then[OF a2 bo(1)]
  have u3: "lam_at n3 u" "wire n3 cur = NONE" using adds_lam(1)[OF n13 u(2)] addsD(5)[OF n13] u by (simp_all add: lam_at_def)
  have uv: "u \<noteq> v" using u(2) v(4) addsD(3)[OF a2] by (auto simp: lam_at_def)
  have u8: "lam_at n8 u" "wire n8 cur = NONE" "lam_at n8 v" "wire n8 q = NONE"
    using adds_lam(1)[OF n38] addsD(5)[OF n38] u3 v u(1) by (auto simp: lam_at_def)
  have ne: "u \<notin> {ou, ia, nr, c}" "v \<notin> {ou, ia, nr, c}" using fr u3 v(2) by (auto simp: lam_at_def)
  let ?ls = "[(Port c 2, Port nr 0), (Port nr 2, Port ou 1), (Port ou 0, Port ia 1), (Port ou 2, cur),
              (Port ia 0, Port c 1), (Port ia 2, q)]"
  have "free_ends n8 ?ls" unfolding free_ends_def using fr d u8 ne uv u(1) v(1) by (auto simp: fresh_at_def lam_at_def)
  note l = adds_links[OF addsD(1)[OF n38] E this, folded m]
  have w: "wire m = fold link_ends ?ls (wire n8)" using l by blast
  have wm: "wire m (Port c 2) = Port nr 0" "wire m (Port nr 2) = Port ou 1" "wire m (Port ou 0) = Port ia 1"
    "wire m (Port ou 2) = cur" "wire m (Port ia 2) = q" "wire m (Port c 0) = NONE"
    unfolding w using d ne uv u(1) v(1) fr by (auto simp: link_ends_pair fresh_at_def)
  have lm: "lam_at m c" "lam_at m nr" "app_at m ou" "app_at m ia"
    using l fr by (auto simp: lam_at_def app_at_def fresh_at_def)
  have n3m: "adds n3 m {cur, q}"
  proof -
    have "adds n3 m (set (map fst ?ls @ map snd ?ls))" using adds_trans[OF n38, of m] l by simp
    then show ?thesis by (elim adds_cut) (use fr in auto)
  qed
  have nm: "adds n m {cur}"
  proof -
    have "adds n m {cur, q}" using adds_trans[OF n13 n3m] by simp
    then show ?thesis by (elim adds_cut) (use v addsD(3)[OF a2] in auto)
  qed
  have "heads n {cur}" "heads n3 {cur, q}" using u u3 v by (simp_all add: heads_def)
  then have "bits_at m cur bs" "bool_at m q x"
    using bits_at_adds[OF b(1) nm] bool_at_adds[OF bo(2) n3m] by blast+
  then show "bits_at m p (x # bs)" unfolding bits_at.simps
    by (intro exI[of _ c] exI[of _ nr] exI[of _ ou] exI[of _ ia]) (use wm lm p in simp)
  have nc: "\<not> live n c" using fr(8) addsD(3)[OF n13] by blast
  then have "\<not> live n0 c" using addsD(3)[OF b(3)] by blast
  then show "open_at n0 m p" using wm(6) lm(1) p by (simp add: open_at_def)
  have "adds n0 m {cur}" using adds_trans[OF b(3) nm] by simp
  then show "adds n0 m {}" by (elim adds_cut) (use u in auto)
  show "live_set n \<subset> live_set m" using addsD(3)[OF nm] nc lm(1) by (auto simp: live_set_def lam_at_def)
qed

lemma alloc_scott_spec:
  assumes ok: "net_ok n" and E: "\<not> in_parallel E" and lv: "lv \<le> nlv (lvl n)" and r: "alloc_scott E k lv n = (m, p)"
  shows "adds n m {}" "open_at n m p" "bits_at m p (map (\<lambda>b. bit (signed_drop_bit b k) 0) [0..<scott_width k])"
    "int (scott_width k) < nn m" "scott_width k < card (live_set m)"
proof -
  let ?f = "\<lambda>s b. scott_cell E lv (bit (signed_drop_bit b k) 0) s" and ?b = "\<lambda>b. bit (signed_drop_bit b k) 0"
  have step: "adds n m {} \<and> open_at n m p \<and> bits_at m p (map ?b (rev is)) \<and> length is < card (live_set m)"
    if "foldl ?f (scott_nil E lv n) is = (m, p)" for "is" m p
    using that
  proof (induction "is" arbitrary: m p rule: rev_induct)
    case Nil
    then have r: "scott_nil E lv n = (m, p)" by simp
    note sn = scott_nil_spec[OF ok E lv r]
    have "node p \<in> live_set m" using sn(3) by (simp add: open_at_def lam_at_def live_set_def)
    then have "0 < card (live_set m)" using card_gt_0_iff finite_live_set by blast
    then show ?case using sn by simp
  next
    case (snoc i "is")
    obtain k' cur where c: "foldl ?f (scott_nil E lv n) is = (k', cur)" by fastforce
    have s: "scott_cell E lv (?b i) (k', cur) = (m, p)" using snoc.prems c by simp
    have i: "adds n k' {}" "open_at n k' cur" "bits_at k' cur (map ?b (rev is))" "length is < card (live_set k')"
      using snoc.IH[OF c] by blast+
    note sc = scott_cell_spec[OF i(3,2,1) E lv s]
    have "card (live_set k') < card (live_set m)" by (rule psubset_card_mono[OF finite_live_set sc(4)])
    then show ?case using sc i(4) by simp
  qed
  note st = step[OF r[unfolded alloc_scott_def]]
  show "adds n m {}" "open_at n m p" "bits_at m p (map ?b [0..<scott_width k])"
    using st by (simp_all add: rev_map)
  have "live_set m \<subseteq> {0..<nn m}" by (auto simp: live_set_def live_def in_net_def)
  then have "card (live_set m) \<le> nat (nn m)" using card_mono[of "{0..<nn m}" "live_set m"] by simp
  moreover show "scott_width k < card (live_set m)" using st by simp
  ultimately show "int (scott_width k) < nn m" by linarith
qed

section \<open>Reading on a net at rest\<close>

text \<open>Forcing leaves the net as it is, and the walks stop at once at a node that is no fan.\<close>

definition resting :: "forcing \<Rightarrow> net \<Rightarrow> bool" where
  "resting frc m \<longleftrightarrow> (\<forall>q. frc m q = m)"

lemma hop_at_rest:
  assumes f: "resting frc m" and q: "lam_at m (node q) \<or> app_at m (node q)"
  shows "hop frc cross q m = (m, q)"
proof -
  have l: "live m (node q)" "tag m (node q) \<noteq> DUP" using q by (auto simp: lam_at_def app_at_def)
  then have i: "in_net m (node q)" "\<not> dead m (node q)" "0 < nn m" by (auto simp: live_def in_net_def)
  have "net_force_val frc q m = (m, q)"
    unfolding net_force_val_def by (subst force_loop.simps) (simp add: i f[unfolded resting_def] max_nodes_def)
  moreover have "cross_loop k m q = q" "skip_loop k m q = q" for k using l by (cases k; simp add: is_tag_def)+
  ultimately show ?thesis by (simp add: hop_def dup_hop_def skip_dup_def)
qed

lemma tag_at:
  "is_tag LAM m p \<longleftrightarrow> lam_at m (node p)" "is_tag APP m p \<longleftrightarrow> app_at m (node p)"
  by (auto simp: is_tag_def alive_def lam_at_def app_at_def live_def in_net_def)

lemma lam_not_app: "lam_at m v \<Longrightarrow> \<not> app_at m v"
  by (simp add: lam_at_def app_at_def)

lemma two_lams_at:
  assumes rest: "resting frc m" and c: "lam_at m c" "wire m (Port c 2) = Port r 0" "lam_at m r"
  shows "two_lams frc cross (Port c 0) m = (m, Some (Port c 0, Port r 0))"
  using c by (simp add: two_lams_def hop_lam_def inner_lam_def hop_at_rest[OF rest] tag_at)

lemma body_at:
  assumes rest: "resting frc m" and c: "lam_at m (node (wire m (Port r 2))) \<or> app_at m (node (wire m (Port r 2)))"
  shows "body_of frc cross (Port r 0) m = (m, wire m (Port r 2))"
  using c by (simp add: body_of_def hop_at_rest[OF rest])

lemma read_bool_at:
  assumes rest: "resting frc m" and b: "bool_at m q b" and pos: "0 < nn m"
  shows "read_bool frc q m = (m, if b then 1 else 0)"
proof -
  obtain t f where b: "q = Port t 0" "t \<noteq> f" "lam_at m t" "lam_at m f" "wire m (Port t 2) = Port f 0"
    "wire m (Port f 2) = Port (if b then t else f) 1" using b unfolding bool_at_def by blast
  have l: "sel_layer frc second q m = (m, (if b then t else f) = (if second then f else t))" for second
    using b by (simp add: sel_layer_def two_lams_at[OF rest b(3,5,4)] body_at[OF rest])
  have "enc_layer frc ENC_BOOL q m = (m, Some (if b then Terminal else False_layer))"
    using b(2) l[of False] l[of True] by (simp add: enc_layer_def)
  then show ?thesis using pos unfolding read_bool_def
    by (subst count_loop.simps) (simp add: max_nodes_def)
qed

lemma cons_layer_nil:
  assumes rest: "resting frc m" and b: "bits_at m p []"
  shows "cons_layer frc p m = (m, Some Terminal)"
proof -
  obtain a r t where b: "p = Port a 0" "lam_at m a" "wire m (Port a 2) = Port r 0" "lam_at m r"
    "wire m (Port r 2) = Port t 0" "lam_at m t" using b by auto
  have t: "two_lams frc False p m = (m, Some (Port a 0, Port r 0))" unfolding b(1) by (rule two_lams_at[OF rest b(2,3,4)])
  have w: "body_of frc False (Port r 0) m = (m, Port t 0)" using body_at[OF rest, of r False] b(5,6) by simp
  show ?thesis using lam_not_app[OF b(6)] b(6)
    by (simp add: cons_layer_def cell_layer_def nil_layer_def t w tag_at)
qed

lemma cons_layer_cell:
  assumes rest: "resting frc m" and b: "bits_at m p (x # bs)"
  shows "\<exists>q cur. cons_layer frc p m = (m, Some (Inductive q cur)) \<and> bool_at m q x \<and> bits_at m cur bs"
proof -
  obtain c r ou ia where b: "p = Port c 0" "lam_at m c" "wire m (Port c 2) = Port r 0" "lam_at m r"
    "wire m (Port r 2) = Port ou 1" "app_at m ou" "wire m (Port ou 0) = Port ia 1" "app_at m ia"
    "bool_at m (wire m (Port ia 2)) x" "bits_at m (wire m (Port ou 2)) bs" using b by auto
  have t: "two_lams frc False p m = (m, Some (Port c 0, Port r 0))" unfolding b(1) by (rule two_lams_at[OF rest b(2,3,4)])
  have w: "body_of frc False (Port r 0) m = (m, Port ou 1)" using body_at[OF rest, of r False] b(5,6) by simp
  have h: "hop frc False (Port ia 1) m = (m, Port ia 1)" by (rule hop_at_rest[OF rest]) (simp add: b(8))
  have "cons_layer frc p m = (m, Some (Inductive (wire m (Port ia 2)) (wire m (Port ou 2))))"
    using b(6,7,8) by (simp add: cons_layer_def cell_layer_def t w h[unfolded One_nat_def] tag_at)
  then show ?thesis using b(9,10) by blast
qed

text \<open>The number a list of bits stands for, from bit \<open>i\<close> on.\<close>

fun bits_value :: "nat \<Rightarrow> bool list \<Rightarrow> long" where
  "bits_value i [] = 0"
| "bits_value i (b # bs) = push_bit i (of_bool b) OR bits_value (Suc i) bs"

lemma bits_loop_at:
  assumes rest: "resting frc m"
  shows "bits_at m p bs \<Longrightarrow> int (i + length bs) < nn m \<Longrightarrow> i + length bs < 100 \<Longrightarrow>
    bits_loop frc (int i) a p m = (m, int (i + length bs), a OR bits_value i bs)"
proof (induction bs arbitrary: i a p)
  case Nil
  have "cons_layer frc p m = (m, Some Terminal)" by (rule cons_layer_nil[OF rest Nil.prems(1)])
  then show ?case using Nil.prems(2,3) by (subst bits_loop.simps) simp
next
  case (Cons b bs)
  obtain q cur where c: "cons_layer frc p m = (m, Some (Inductive q cur))" "bool_at m q b" "bits_at m cur bs"
    using cons_layer_cell[OF rest Cons.prems(1)] by blast
  have r: "read_bool frc q m = (m, if b then 1 else 0)"
    by (rule read_bool_at[OF rest c(2)]) (use Cons.prems(2) in simp)
  have e: "int i + 1 = int (Suc i)" by simp
  have ih: "bits_loop frc (int (Suc i)) a' cur m = (m, int (Suc i + length bs), a' OR bits_value (Suc i) bs)" for a'
    by (rule Cons.IH[OF c(3)]) (use Cons.prems in simp_all)
  have s: "\<not> (if b then 1 else 0 :: long) <s 0" by (simp add: word_sless_alt)
  have g: "\<not> (nn m \<le> int i \<or> max_nodes \<le> int i)" using Cons.prems(2,3) by (simp add: max_nodes_def)
  show ?case
    by (subst bits_loop.simps) (use s g in \<open>simp add: c(1) r e ih or.assoc del: of_nat_Suc\<close>)
qed

section \<open>The bits of a number\<close>

lemma bit_bits_value: "bit (bits_value i bs) j \<longleftrightarrow> i \<le> j \<and> j < i + length bs \<and> j < 64 \<and> bs ! (j - i)"
proof (induction bs arbitrary: i)
  case (Cons b bs)
  show ?case
  proof (cases "j = i")
    case True
    then show ?thesis using Cons.IH[of "Suc i"] by (auto simp: bit_or_iff bit_push_bit_iff)
  next
    case False
    then have "Suc i \<le> j \<longleftrightarrow> i \<le> j" by auto
    moreover have "i \<le> j \<Longrightarrow> j - i = Suc (j - Suc i)" using False by simp
    moreover have "\<not> bit (push_bit i (of_bool b) :: long) j" using False by (auto simp: bit_push_bit_iff bit_of_bool_iff)
    ultimately show ?thesis using Cons.IH[of "Suc i"] by (auto simp: bit_or_iff)
  qed
qed simp

lemma width_loop_spec:
  "1 \<le> w \<Longrightarrow> w \<le> 62 \<Longrightarrow> 62 - w \<le> f \<Longrightarrow>
   width_loop f w k \<le> 62 \<and> (width_loop f w k < 62 \<longrightarrow> signed_drop_bit (width_loop f w k) k = 0)"
  by (induction f arbitrary: w) auto

lemma scott_width_spec: "scott_width k \<le> 62" "scott_width k < 62 \<Longrightarrow> signed_drop_bit (scott_width k) k = 0"
  using width_loop_spec[of 1 62 k] by (simp_all add: scott_width_def)

lemma width_bits:
  assumes "scott_width k \<le> j" "j < 62"
  shows "\<not> bit k j"
proof -
  let ?w = "scott_width k"
  have "signed_drop_bit ?w k = 0" using scott_width_spec(2) assms by simp
  then have "\<not> bit (signed_drop_bit ?w k) (j - ?w)" by simp
  then show ?thesis using assms by (auto simp: bit_signed_drop_bit_iff split: if_splits)
qed

lemma numeral_bits: "bits_value 0 (map (\<lambda>b. bit (signed_drop_bit b k) 0) [0..<scott_width k]) = k AND mask 62"
proof (rule bit_word_eqI)
  fix j assume "j < LENGTH(64)"
  have b: "bit (signed_drop_bit j k) 0 = bit k j" if "j < 62"
    using that by (auto simp: bit_signed_drop_bit_iff)
  show "bit (bits_value 0 (map (\<lambda>b. bit (signed_drop_bit b k) 0) [0..<scott_width k])) j = bit (k AND mask 62) j"
  proof (cases "j < scott_width k")
    case True
    then have "j < 62" using scott_width_spec(1)[of k] by simp
    then show ?thesis using True b by (simp add: bit_bits_value bit_and_iff bit_mask_iff)
  next
    case False
    then show ?thesis using width_bits[of k j] by (auto simp: bit_bits_value bit_and_iff bit_mask_iff)
  qed
qed

text \<open>A number as it stands on a net.\<close>

definition num_at :: "net \<Rightarrow> port \<Rightarrow> long \<Rightarrow> bool" where
  "num_at m q k \<longleftrightarrow> bits_at m q (map (\<lambda>b. bit (signed_drop_bit b k) 0) [0..<scott_width k]) \<and> scott_width k < card (live_set m)"

lemma live_bound: "int (card (live_set m)) \<le> nn m \<or> card (live_set m) = 0"
proof -
  have "live_set m \<subseteq> {0..<nn m}" by (auto simp: live_set_def live_def in_net_def)
  then have "card (live_set m) \<le> nat (nn m)" using card_mono[of "{0..<nn m}" "live_set m"] by simp
  then show ?thesis by linarith
qed

lemma read_num_at:
  assumes rest: "resting frc m" and k: "num_at m q k"
  shows "net_read_int frc q ENC_NUM m = (m, k AND mask 62)"
proof -
  let ?w = "scott_width k"
  have w: "?w \<le> 62" "1 \<le> ?w"
  proof -
    show "?w \<le> 62" by (rule scott_width_spec)
    have "w \<le> width_loop f w k" for f w by (induction f arbitrary: w) (auto intro: Suc_leD)
    then show "1 \<le> ?w" unfolding scott_width_def .
  qed
  have b: "bits_at m q (map (\<lambda>b. bit (signed_drop_bit b k) 0) [0..<?w])" "?w < card (live_set m)"
    using k by (simp_all add: num_at_def)
  then have "int ?w < nn m" using live_bound[of m] by linarith
  then have "bits_loop frc (int 0) 0 q m = (m, int (0 + ?w), 0 OR k AND mask 62)"
    using bits_loop_at[OF rest b(1), of 0 0] w(1) by (simp add: numeral_bits)
  then show ?thesis using w(2) by (simp add: net_read_int_def net_read_bits_def)
qed

text \<open>C40. Numerals keep 62 bits.  On a net that satisfies the invariant \<open>net_alloc_scott_at\<close> adds a numeral of at
  most 62 cells without touching a node or wire that was there, keeps the invariant and the queue complete, and
  on the net it leaves, when forcing has nothing to fire, \<open>net_read_int\<close> reads back exactly the low 62 bits of
  the number: a number from 0 to \<open>2 ^ 62 - 1\<close> as itself, and a larger or a negative one truncated.
\<close>

theorem numeral_round_trip:
  assumes "net_ok n" "\<not> in_parallel E" "lv \<le> nlv (lvl n)" "net_alloc_scott_at E k lv n = (m, p)" "resting frc m"
  shows "net_read_int frc p ENC_NUM m = (m, k AND mask 62) \<and> net_ok m \<and> adds n m {}"
proof -
  note a = alloc_scott_spec[OF assms(1-3) assms(4)[unfolded net_alloc_scott_at_def]]
  have "num_at m p k" using a(3,5) by (simp add: num_at_def)
  then show ?thesis using read_num_at[OF assms(5)] a(1) by (simp add: adds_def)
qed

theorem numeral_round_trip_witness:
  "\<exists>m p. net_alloc_scott_at seq_env (2 ^ 62 + 5) 0 beta_net = (m, p) \<and> net_read_int (\<lambda>n q. n) p ENC_NUM m = (m, 5)"
proof -
  obtain m p where r: "net_alloc_scott_at seq_env (2 ^ 62 + 5) 0 beta_net = (m, p)" by fastforce
  have "resting (\<lambda>n q. n) m" by (simp add: resting_def)
  moreover have "(2 ^ 62 + 5 :: long) AND mask 62 = 5" by (simp add: mask_eq_exp_minus_1)
  ultimately show ?thesis using numeral_round_trip[OF beta_net_ok(1) seq_env_simps(1) _ r] r by auto
qed

end
