(* ===== verification/CompileProps.thy ===== *)
theory CompileProps
  imports Compile NumeralProps
begin

text \<open>
  What the compiler builds: the net of a closed term whose lets are used satisfies the invariant of the
  reducer.  While a term is compiled every use of a bound name is a port of its own; where the uses of a
  binder meet, their wires are cut and led into a tree of fans.  The placeholders are killed before the
  wires that face them are overwritten, so those wires dangle for a while: \<open>differ\<close> relates the net to the
  one on which they have been cut.
\<close>

section \<open>Cutting wires and killing placeholders\<close>

definition snip :: "port \<Rightarrow> net \<Rightarrow> net" where
  "snip p n = set_wire p NONE (if wire n p = NONE then n else set_wire (wire n p) NONE n)"

lemma snip_fields [simp]:
  "live (snip p n) v = live n v" "tag (snip p n) = tag n" "lvl (snip p n) = lvl n"
  by (simp_all add: snip_def)

lemma snip_wire: "wire (snip p n) q = (if q = p \<or> wire n p \<noteq> NONE \<and> q = wire n p then NONE else wire n q)"
  by (auto simp: snip_def)

lemma snip_ok:
  assumes ok: "net_ok n" and p: "standing n {} p" "0 < pno p"
  shows "net_ok (snip p n)" "all_queued n P \<Longrightarrow> all_queued (snip p n) P"
proof -
  let ?m = "snip p n"
  have w: "wired n {} {}" and ql: "queue_live n" and qo: "queue_ok n" using ok by (simp_all add: net_ok_def)
  have bk: "wire n p \<noteq> NONE \<Longrightarrow> wire n (wire n p) = p" using wired_back[OF w p(1)] by blast
  have wm: "wire ?m q = (if q = p \<or> wire n p \<noteq> NONE \<and> q = wire n p then NONE else wire n q)" for q by (rule snip_wire)
  have st: "standing ?m {} q = standing n {} q" for q by (simp add: standing_def)
  have "linked ?m {} {} q" if q: "standing ?m {} q" for q
  proof -
    have q': "standing n {} q" using q st by simp
    show ?thesis
    proof (cases "wire ?m q = NONE")
      case False
      then have e: "wire ?m q = wire n q" "q \<noteq> p" "wire n p = NONE \<or> q \<noteq> wire n p" by (auto simp: wm split: if_splits)
      have n: "wire n q \<noteq> NONE" using False e by simp
      note b = wired_back[OF w q' n]
      have "wire n q \<noteq> p" using b(2) e(3) standing_not_NONE[OF q'] by metis
      moreover have "\<not> (wire n p \<noteq> NONE \<and> wire n q = wire n p)" using b(2) bk e(2) by metis
      ultimately have "wire ?m (wire n q) = q" using b(2) unfolding wm by presburger
      then show ?thesis using b by (simp add: linked_def e(1) standing_def)
    qed (simp add: linked_def)
  qed
  then have wd: "wired ?m {} {}" by (simp add: wired_def)
  have red: "redex_live ?m x y = redex_live n x y" for x y
  proof -
    have "redex_live ?m x y" if r: "redex_live n x y"
    proof -
      have c: "pno x = 0" "pno y = 0" "wire n x = y" "wire n y = x" using r by (simp_all add: redex_live_def)
      then have ne: "x \<noteq> p" "y \<noteq> p" using p(2) by auto
      have "\<not> (wire n p \<noteq> NONE \<and> x = wire n p)" "\<not> (wire n p \<noteq> NONE \<and> y = wire n p)"
        using bk c(3,4) ne by metis+
      then have "wire ?m x = wire n x" "wire ?m y = wire n y" unfolding wm using ne by presburger+
      then show ?thesis using r by (simp add: redex_live_def)
    qed
    moreover have "redex_live n x y" if r: "redex_live ?m x y"
    proof -
      have "wire ?m x \<noteq> NONE" "wire ?m y \<noteq> NONE" using r by (auto simp: redex_live_def)
      then have "wire ?m x = wire n x" "wire ?m y = wire n y" by (auto simp: wm split: if_splits)
      then show ?thesis using r by (simp add: redex_live_def)
    qed
    ultimately show ?thesis by blast
  qed
  have f: "act ?m = act n" "act_of ?m = act_of n" "dead ?m = dead n" "nn ?m = nn n" "ncap ?m = ncap n" "fatal ?m = fatal n"
    "free_head ?m = free_head n" "pend_head ?m = pend_head n" "nfree ?m = nfree n" "scope ?m = scope n" by (simp_all add: snip_def)
  obtain fs ps where sl: "slots_ok n fs ps" using ok by (auto simp: net_ok_def)
  have "slots_ok ?m fs ps"
  proof (rule slots_ok_cong[OF sl])
    fix v assume v: "v \<in> set (fs @ ps)"
    then have "\<not> live n v" using sl by (auto simp: slots_ok_def live_def)
    moreover have "wire n p \<noteq> NONE \<Longrightarrow> live n (node (wire n p))" using wired_back(1)[OF w p(1)] by (simp add: standing_def)
    moreover have "live n (node p)" using p by (simp add: standing_def)
    ultimately have "Port v 0 \<noteq> p" "wire n p \<noteq> NONE \<Longrightarrow> Port v 0 \<noteq> wire n p" by (metis port.sel(1))+
    then show "wire ?m (Port v 0) = wire n (Port v 0)" unfolding wm by presburger
    show "in_net ?m v \<and> dead ?m v" using v sl by (auto simp: slots_ok_def f in_net_def)
  qed (simp_all add: f)
  then show "net_ok ?m" using ok wd red unfolding net_ok_def
    by (auto simp: queue_ok_def queue_live_def levels_ok_def room_ok_def f)
  show "all_queued n P \<Longrightarrow> all_queued ?m P" by (simp add: all_queued_def red f)
qed

text \<open>A node none of whose ports is wired may be killed.\<close>

lemma kill_ok:
  assumes ok: "net_ok n" and l: "live n v" and i: "\<And>p. p < 3 \<Longrightarrow> wire n (Port v p) = NONE"
  shows "net_ok (kill v n)" "all_queued n P \<Longrightarrow> all_queued (kill v n) P"
    "live (kill v n) u \<longleftrightarrow> live n u \<and> u \<noteq> v" "wire (kill v n) = wire n" "tag (kill v n) = tag n" "lvl (kill v n) = lvl n"
proof -
  let ?m = "kill v n"
  have w: "wired n {} {}" and ql: "queue_live n" and qo: "queue_ok n" using ok by (simp_all add: net_ok_def)
  show wm: "wire ?m = wire n" using i[of 1] by (auto simp: kill_def)
  show lv: "live ?m u \<longleftrightarrow> live n u \<and> u \<noteq> v" for u by (auto simp: kill_def live_def in_net_def)
  show t: "tag ?m = tag n" "lvl ?m = lvl n" by (simp_all add: kill_def)
  have f: "act ?m = act n" "act_of ?m = act_of n" "nn ?m = nn n" "ncap ?m = ncap n" "fatal ?m = fatal n"
    "free_head ?m = free_head n" "pend_head ?m = pend_head n" "nfree ?m = nfree n" "scope ?m = scope n"
    "dead ?m = (dead n)(v := True)" by (simp_all add: kill_def)
  have far: "node (wire n q) \<noteq> v" if "standing n {} q" "wire n q \<noteq> NONE" for q
  proof
    assume "node (wire n q) = v"
    moreover have "pno (wire n q) < 3" using wired_back(1)[OF w that] by (simp add: standing_def)
    ultimately have "wire n (wire n q) = NONE" using i by (cases "wire n q") auto
    then show False using wired_back(2)[OF w that] that(1) by (metis standing_not_NONE)
  qed
  have wd: "wired ?m {} {}" unfolding wired_def
  proof (intro allI impI)
    fix q assume "standing ?m {} q"
    then have q: "standing n {} q" by (simp add: standing_def lv)
    show "linked ?m {} {} q" using wiredD[OF w q] far[OF q] by (auto simp: linked_def wm lv)
  qed
  have red: "redex_live ?m x y = redex_live n x y" for x y
  proof -
    have "node x \<noteq> v \<and> node y \<noteq> v" if "redex_live n x y"
    proof -
      have "x = Port (node x) 0" "y = Port (node y) 0" using that by (cases x; cases y; auto simp: redex_live_def)+
      then have "wire n (Port (node x) 0) \<noteq> NONE" "wire n (Port (node y) 0) \<noteq> NONE"
        using that by (metis redex_live_def NONE_not_live(1) node_NONE)+
      then show ?thesis using i[of 0] by auto
    qed
    then show ?thesis by (auto simp: redex_live_def wm lv)
  qed
  obtain fs ps where sl: "slots_ok n fs ps" using ok by (auto simp: net_ok_def)
  have "slots_ok ?m fs ps"
    by (rule slots_ok_cong[OF sl]) (use sl in \<open>auto simp: wm f slots_ok_def in_net_def\<close>)
  moreover have "in_net n v" using l by (simp add: live_def)
  ultimately show "net_ok ?m" using ok wd red unfolding net_ok_def
    by (auto simp: queue_ok_def queue_live_def levels_ok_def room_ok_def f lv t in_net_def)
  show "all_queued n P \<Longrightarrow> all_queued ?m P" by (simp add: all_queued_def red f)
qed

section \<open>Nets that differ in some wires\<close>

definition differ :: "port set \<Rightarrow> net \<Rightarrow> net \<Rightarrow> bool" where
  "differ S n m \<longleftrightarrow> (\<exists>w. n = m\<lparr>wire := w\<rparr> \<and> (\<forall>q. q \<notin> S \<longrightarrow> w q = wire m q))"

lemma differ_empty:
  assumes "differ {} n m"
  shows "n = m"
proof -
  obtain w where n: "n = m\<lparr>wire := w\<rparr>" and w: "\<And>q. w q = wire m q" using assms by (auto simp: differ_def)
  have "w = wire m" using w by (intro ext)
  then show ?thesis by (simp add: n)
qed

lemma differ_mono: "differ S n m \<Longrightarrow> S \<subseteq> T \<Longrightarrow> differ T n m"
  unfolding differ_def by blast

lemma differ_link:
  assumes d: "differ S n m" and E: "\<not> in_parallel E"
  shows "differ (if node a < 0 \<or> node b < 0 then S else S - {a, b}) (net_link E a b enq n) (net_link E a b enq m)"
proof -
  obtain w where n: "n = m\<lparr>wire := w\<rparr>" and w: "\<And>q. q \<notin> S \<Longrightarrow> w q = wire m q" using d by (auto simp: differ_def)
  show ?thesis
  proof (cases "node a < 0 \<or> node b < 0")
    case False
    have "net_link E a b enq n = (net_link E a b enq m)\<lparr>wire := w(a := b, b := a)\<rparr>"
      using False E by (simp add: n net_link_def act_push_def Let_def)
    moreover have "wire (net_link E a b enq m) = (wire m)(a := b, b := a)"
      using False E by (simp add: net_link_def act_push_def Let_def)
    ultimately show ?thesis using False w unfolding differ_def
      by (intro exI[of _ "w(a := b, b := a)"]) auto
  qed (use d in \<open>simp add: net_link_def\<close>)
qed

lemma ensure_cap_wire: "net_ensure_cap (m\<lparr>wire := w\<rparr>) c = (net_ensure_cap m c)\<lparr>wire := w\<rparr>"
  by (simp add: net_ensure_cap_def Let_def cong: if_cong)

lemma differ_alloc:
  assumes d: "differ S n m" and ok: "net_ok m" and E: "\<not> in_parallel E" and sc: "sc \<le> nlv (lvl m)" and S: "\<And>q. q \<in> S \<Longrightarrow> live m (node q)"
    and r: "net_alloc E t sc m = (m', v)"
  shows "\<exists>n'. net_alloc E t sc n = (n', v) \<and> differ S n' m'"
proof -
  obtain w where n: "n = m\<lparr>wire := w\<rparr>" and w: "\<And>q. q \<notin> S \<Longrightarrow> w q = wire m q" using d by (auto simp: differ_def)
  obtain k u where k: "alloc_slot E m = (k, u)" by fastforce
  have slot: "alloc_slot E n = (k\<lparr>wire := w\<rparr>, u)"
  proof (cases "0 \<le> free_head m")
    case True
    obtain fs ps where sl: "slots_ok m fs ps" using ok by (auto simp: net_ok_def)
    have "fs \<noteq> []" using sl True by (auto simp: slots_ok_def)
    then obtain x xs where "fs = x # xs" by (cases fs) auto
    then have "dead m (free_head m)" using sl by (auto simp: slots_ok_def)
    then have "Port (free_head m) 0 \<notin> S" using S[of "Port (free_head m) 0"] by (auto simp: live_def)
    then show ?thesis using k True E w by (auto simp: alloc_slot_def n Let_def)
  next
    case False
    then show ?thesis using k E by (auto simp: alloc_slot_def n Let_def ensure_cap_wire)
  qed
  have cap: "\<not> ncap k \<le> u"
  proof
    assume "ncap k \<le> u"
    then have "fatal m'" using r k by (auto simp: net_alloc_def)
    moreover have "net_ok m'" by (rule net_ok_alloc(2)[OF ok E sc r])
    ultimately show False by (simp add: net_ok_def room_ok_def)
  qed
  then have m': "m' = k\<lparr>tag := (tag k)(u := t), dead := (dead k)(u := False), scope := (scope k)(u := sc),
      wire := (wire k)(Port u 0 := NONE, Port u 1 := NONE, Port u 2 := NONE)\<rparr>" "v = u"
    using r k by (auto simp: net_alloc_def)
  let ?w = "w(Port u 0 := NONE, Port u 1 := NONE, Port u 2 := NONE)"
  have "net_alloc E t sc n = (m'\<lparr>wire := ?w\<rparr>, v)"
    using cap by (simp add: net_alloc_def slot m')
  moreover have "wire k = wire m"
    using k E by (auto simp: alloc_slot_def Let_def split: if_splits)
  then have "differ S (m'\<lparr>wire := ?w\<rparr>) m'" unfolding differ_def
    by (intro exI[of _ ?w]) (use w in \<open>auto simp: m'\<close>)
  ultimately show ?thesis by blast
qed

section \<open>A tree of fans\<close>

fun fans :: "env \<Rightarrow> gauge \<Rightarrow> port \<Rightarrow> port list \<Rightarrow> net \<Rightarrow> net \<times> port" where
  "fans E sc p [] n = (n, p)"
| "fans E sc p (t # ts) n =
     (case net_alloc E DUP sc n of (n1, d) \<Rightarrow>
        fans E sc (Port d 0) ts (net_link E (Port d 2) t False (net_link E (Port d 1) p False n1)))"

lemma dup_tree_fans:
  "dup_tree_from C sc p ts st = (case fans (nenv C) sc p ts (cnet st) of (n, d) \<Rightarrow> (Inr d, st\<lparr>cnet := n\<rparr>))"
proof (induction ts arbitrary: p st)
  case (Cons t ts)
  obtain n1 d where a: "net_alloc (nenv C) DUP sc (cnet st) = (n1, d)" by fastforce
  show ?case
    by (simp add: fan_over_def pbind_def pthen_def c_alloc_def c_link_def on_net_def pret_def a Cons.IH split: prod.splits)
qed (simp add: pret_def)

text \<open>A port to link: none at all, or one with nothing on it.\<close>

definition open_port :: "net \<Rightarrow> port \<Rightarrow> bool" where
  "open_port n p \<longleftrightarrow> live n (node p) \<and> pno p < 3 \<and> wire n p = NONE"

definition endp :: "net \<Rightarrow> port \<Rightarrow> bool" where
  "endp n p \<longleftrightarrow> p = NONE \<or> open_port n p"

lemma link_end:
  assumes ok: "net_ok n" and E: "\<not> in_parallel E" and a: "open_port n a" and b: "endp n b" and ab: "a \<noteq> b"
    and q: "enq \<or> 0 < pno a \<or> 0 < pno b" and m: "m = net_link E a b enq n"
  shows "adds n m {a, b}" "wire m = (if b = NONE then wire n else (wire n)(a := b, b := a))"
    "live m v = live n v" "live n v \<Longrightarrow> tag m v = tag n v" "lvl m = lvl n"
proof -
  have "adds n m {a, b} \<and> wire m = (if b = NONE then wire n else (wire n)(a := b, b := a)) \<and>
    (\<forall>v. live m v = live n v) \<and> (\<forall>v. live n v \<longrightarrow> tag m v = tag n v) \<and> lvl m = lvl n"
  proof (cases "b = NONE")
    case True
    then show ?thesis using ok by (simp add: m net_link_def adds_refl)
  next
    case False
    then have s: "standing n {} a" "wire n a = NONE" "standing n {} b" "wire n b = NONE"
      using a b by (auto simp: endp_def open_port_def standing_def)
    note k = net_ok_link[OF ok E s ab m]
    have "adds n m {a, b}" unfolding adds_def using k(1,2,4,5) k(3) q by (auto simp: meta_def)
    then show ?thesis using False k(2,3,4) by (auto simp: meta_def)
  qed
  then show "adds n m {a, b}" "wire m = (if b = NONE then wire n else (wire n)(a := b, b := a))"
    "live m v = live n v" "live n v \<Longrightarrow> tag m v = tag n v" "lvl m = lvl n" by blast+
qed

lemma endp_adds: "endp n p \<Longrightarrow> adds n m X \<Longrightarrow> p \<notin> X \<Longrightarrow> endp m p"
  by (auto simp: endp_def open_port_def adds_def)

lemma fan_step:
  assumes ok: "net_ok n" and E: "\<not> in_parallel E" and sc: "sc \<le> nlv (lvl n)" and p: "endp n p" "endp n t"
    and ne: "p = t \<Longrightarrow> p = NONE" and r: "net_alloc E DUP sc n = (n1, d)"
    and m: "m = net_link E (Port d 2) t False (net_link E (Port d 1) p False n1)"
  shows "adds n m {p, t}" "\<not> live n d" "live m d" "open_port m (Port d 0)" "sc \<le> nlv (lvl m)"
    "p \<noteq> NONE \<Longrightarrow> wire m p = Port d 1" "t \<noteq> NONE \<Longrightarrow> wire m t = Port d 2"
proof -
  note a = adds_alloc[OF ok E sc r]
  have nd: "node p \<noteq> d" "node t \<noteq> d" using p a(2,3) by (auto simp: endp_def open_port_def)
  have p1: "endp n1 p" "endp n1 t" using endp_adds[OF p(1) a(1)] endp_adds[OF p(2) a(1)] by simp_all
  have o1: "open_port n1 (Port d 1)" using a by (simp add: open_port_def)
  let ?k = "net_link E (Port d 1) p False n1"
  have n1: "Port d 1 \<noteq> p" using nd by auto
  have z1: "False \<or> 0 < pno (Port d 1) \<or> 0 < pno p" by simp
  note l1 = link_end[OF addsD(1)[OF a(1)] E o1 p1(1) n1 z1 refl[of ?k]]
  have o2: "open_port ?k (Port d 2)" using l1(2,3) a nd by (auto simp: open_port_def)
  have tk: "endp ?k t"
  proof (cases "t = p")
    case True
    then show ?thesis using ne by (simp add: endp_def)
  next
    case False
    then show ?thesis by (intro endp_adds[OF p1(2) l1(1)]) (use nd in auto)
  qed
  have n2: "Port d 2 \<noteq> t" using nd by auto
  have z2: "False \<or> 0 < pno (Port d 2) \<or> 0 < pno t" by simp
  note l2 = link_end[OF addsD(1)[OF l1(1)] E o2 tk n2 z2 m]
  have "adds n m ({} \<union> {Port d 1, p} \<union> {Port d 2, t})" by (rule adds_trans[OF adds_trans[OF a(1) l1(1)] l2(1)])
  then show "adds n m {p, t}" by (elim adds_cut) (use a(2) in auto)
  show "\<not> live n d" "live m d" using a l1(3) l2(3) by auto
  show "open_port m (Port d 0)" using l1(2,3) l2(2,3) a nd by (auto simp: open_port_def)
  show "sc \<le> nlv (lvl m)" using addsD(6)[OF a(1) sc] l1(5) l2(5) by simp
  show "p \<noteq> NONE \<Longrightarrow> wire m p = Port d 1"
    using l1(2) l2(2) nd ne by (cases "t = NONE") auto
  show "t \<noteq> NONE \<Longrightarrow> wire m t = Port d 2" using l2(2) nd by auto
qed

lemma fans_ok:
  "net_ok n \<Longrightarrow> \<not> in_parallel E \<Longrightarrow> sc \<le> nlv (lvl n) \<Longrightarrow> endp n p \<Longrightarrow> \<forall>t \<in> set ts. endp n t \<Longrightarrow>
   distinct (filter (\<lambda>x. x \<noteq> NONE) (p # ts)) \<Longrightarrow> fans E sc p ts n = (m, d) \<Longrightarrow> ts \<noteq> [] \<Longrightarrow>
   adds n m (set (p # ts)) \<and> \<not> live n (node d) \<and> open_port m d \<and> pno d = 0 \<and>
   (\<forall>t \<in> set (p # ts). t \<noteq> NONE \<longrightarrow> wire m t \<noteq> NONE \<and> \<not> live n (node (wire m t)))"
proof (induction ts arbitrary: n p)
  case (Cons t ts)
  obtain n1 v where a: "net_alloc E DUP sc n = (n1, v)" by fastforce
  define k where "k = net_link E (Port v 2) t False (net_link E (Port v 1) p False n1)"
  have ne: "p = t \<Longrightarrow> p = NONE" using Cons.prems(6) by (auto split: if_splits)
  have t: "endp n t" using Cons.prems(5) by simp
  note f = fan_step[OF Cons.prems(1-4) t ne a k_def]
  have r: "fans E sc (Port v 0) ts k = (m, d)" using Cons.prems(7) a by (simp add: k_def)
  have vp: "0 \<le> v" using f(3) by (rule live_nonneg)
  then have nn: "\<not> live n v" "NONE \<noteq> Port v x" for x using f(2) by auto
  show ?case
  proof (cases "ts = []")
    case True
    then have "m = k" "d = Port v 0" using r by simp_all
    then show ?thesis using f True nn(1) by (auto intro: adds_cut[OF f(1)])
  next
    case False
    have es: "\<forall>u \<in> set ts. endp k u"
    proof
      fix u assume u: "u \<in> set ts"
      show "endp k u"
      proof (cases "u = NONE")
        case False
        then have "u \<notin> {p, t}" using Cons.prems(6) u by (auto split: if_splits)
        then show ?thesis using endp_adds[OF _ f(1)] Cons.prems(5) u by simp
      qed (simp add: endp_def)
    qed
    have new: "Port v 0 \<notin> set ts" using Cons.prems(5) f(2) vp by (auto simp: endp_def open_port_def)
    then have di: "distinct (filter (\<lambda>x. x \<noteq> NONE) (Port v 0 # ts))" using Cons.prems(6) by (auto split: if_splits)
    have "endp k (Port v 0)" using f(4) by (simp add: endp_def)
    note ih = Cons.IH[OF addsD(1)[OF f(1)] Cons.prems(2) f(5) this es di r False]
    have ad: "adds n m ({p, t} \<union> set (Port v 0 # ts))" by (rule adds_trans[OF f(1) conjunct1[OF ih]])
    then have "adds n m (set (p # t # ts))" by (elim adds_cut) (use nn in auto)
    moreover have up: "live n u \<Longrightarrow> live k u" for u by (rule addsD(3)[OF f(1)])
    moreover have "wire m u \<noteq> NONE \<and> \<not> live n (node (wire m u))" if u: "u \<in> set (p # t # ts)" "u \<noteq> NONE" for u
    proof (cases "u \<in> set ts")
      case True
      then show ?thesis using ih u(2) up by auto
    next
      case uf: False
      have "live n (node u)" using u Cons.prems(4,5) by (auto simp: endp_def open_port_def)
      then have "live k (node u)" "u \<noteq> Port v 0" using up nn by auto
      then have "wire m u = wire k u" using addsD(5)[of k m "set (Port v 0 # ts)" u] ih uf by auto
      then show ?thesis using u uf f(6,7) nn by auto
    qed
    ultimately show ?thesis using ih by blast
  qed
qed simp

lemma fans_differ:
  "net_ok m \<Longrightarrow> \<not> in_parallel E \<Longrightarrow> sc \<le> nlv (lvl m) \<Longrightarrow> endp m p \<Longrightarrow> \<forall>t \<in> set ts. endp m t \<Longrightarrow>
   distinct (filter (\<lambda>x. x \<noteq> NONE) (p # ts)) \<Longrightarrow> differ S n m \<Longrightarrow> \<forall>q \<in> S. live m (node q) \<Longrightarrow> ts \<noteq> [] \<Longrightarrow>
   fans E sc p ts m = (m', d) \<Longrightarrow> \<exists>n'. fans E sc p ts n = (n', d) \<and> differ (S - set (p # ts)) n' m'"
proof (induction ts arbitrary: n m p S)
  case (Cons t ts)
  obtain m1 v where a: "net_alloc E DUP sc m = (m1, v)" by fastforce
  define k where "k = net_link E (Port v 2) t False (net_link E (Port v 1) p False m1)"
  have ne: "p = t \<Longrightarrow> p = NONE" using Cons.prems(6) by (auto split: if_splits)
  have t: "endp m t" using Cons.prems(5) by simp
  note f = fan_step[OF Cons.prems(1-4) t ne a k_def]
  have r: "fans E sc (Port v 0) ts k = (m', d)" using Cons.prems(10) a by (simp add: k_def)
  obtain n1 where n1: "net_alloc E DUP sc n = (n1, v)" "differ S n1 m1"
    using differ_alloc[OF Cons.prems(7,1,2,3) _ a] Cons.prems(8) by blast
  define j where "j = net_link E (Port v 2) t False (net_link E (Port v 1) p False n1)"
  have nS: "NONE \<notin> S" using Cons.prems(8) by auto
  have vp: "0 \<le> v" using f(3) by (rule live_nonneg)
  have neg: "p = NONE \<or> 0 \<le> node p" "t = NONE \<or> 0 \<le> node t"
    using Cons.prems(4) t live_nonneg by (auto simp: endp_def open_port_def)
  have lnk: "differ (T - {x}) (net_link E (Port v i) x False a) (net_link E (Port v i) x False b)"
    if "differ T a b" "x = NONE \<or> 0 \<le> node x" "NONE \<notin> T" for T a b x i
  proof -
    have "(if node (Port v i) < 0 \<or> node x < 0 then T else T - {Port v i, x}) \<subseteq> T - {x}" using that(2,3) vp by auto
    then show ?thesis by (rule differ_mono[OF differ_link[OF that(1) Cons.prems(2)]])
  qed
  have "S - {p} - {t} = S - {p, t}" by blast
  then have jk: "differ (S - {p, t}) j k" unfolding j_def k_def
    using lnk[OF lnk[OF n1(2) neg(1) nS] neg(2)] nS by auto
  have e: "fans E sc p (t # ts) n = fans E sc (Port v 0) ts j" by (simp add: n1(1) j_def)
  show ?case
  proof (cases "ts = []")
    case True
    then show ?thesis using r jk e by simp
  next
    case False
    have es: "\<forall>u \<in> set ts. endp k u"
    proof
      fix u assume u: "u \<in> set ts"
      show "endp k u"
      proof (cases "u = NONE")
        case False
        then have "u \<notin> {p, t}" using Cons.prems(6) u by (auto split: if_splits)
        then show ?thesis using endp_adds[OF _ f(1)] Cons.prems(5) u by simp
      qed (simp add: endp_def)
    qed
    have new: "Port v 0 \<notin> set ts" using Cons.prems(5) f(2) vp by (auto simp: endp_def open_port_def)
    then have di: "distinct (filter (\<lambda>x. x \<noteq> NONE) (Port v 0 # ts))" using Cons.prems(6) by (auto split: if_splits)
    have ev: "endp k (Port v 0)" using f(4) by (simp add: endp_def)
    have Sl: "\<forall>q \<in> S - {p, t}. live k (node q)" using Cons.prems(8) addsD(3)[OF f(1)] by blast
    obtain n' where n': "fans E sc (Port v 0) ts j = (n', d)" "differ (S - {p, t} - set (Port v 0 # ts)) n' m'"
      using Cons.IH[OF addsD(1)[OF f(1)] Cons.prems(2) f(5) ev es di jk Sl False r] by blast
    have "S - {p, t} - set (Port v 0 # ts) \<subseteq> S - set (p # t # ts)" by auto
    then show ?thesis using n' e differ_mono by metis
  qed
qed simp

section \<open>Gathering the uses of a binder\<close>

definition kills :: "port list \<Rightarrow> net \<Rightarrow> net" where
  "kills es n = fold (\<lambda>p. kill (node p)) es n"

lemma kill_sel:
  "wire (kill v n) = (wire n)(Port v 1 := NONE)" "dead (kill v n) = (dead n)(v := True)"
  "kill v n\<lparr>dead := d, wire := w\<rparr> = n\<lparr>dead := d, wire := w\<rparr>"
  by (simp_all add: kill_def)

lemma kills_eq:
  "kills es n = n\<lparr>dead := (\<lambda>v. v \<in> node ` set es \<or> dead n v),
     wire := (\<lambda>q. if pno q = 1 \<and> node q \<in> node ` set es then NONE else wire n q)\<rparr>"
proof (induction es arbitrary: n)
  case (Cons p es)
  have e: "kills (p # es) n = kills es (kill (node p) n)" by (simp add: kills_def)
  have d: "(\<lambda>v. v \<in> node ` set es \<or> ((dead n)(node p := True)) v) = (\<lambda>v. v \<in> node ` set (p # es) \<or> dead n v)"
    by (rule ext) simp
  have w: "(\<lambda>q. if pno q = 1 \<and> node q \<in> node ` set es then NONE else ((wire n)(Port (node p) 1 := NONE)) q) =
      (\<lambda>q. if pno q = 1 \<and> node q \<in> node ` set (p # es) then NONE else wire n q)"
  proof
    fix q
    show "(if pno q = 1 \<and> node q \<in> node ` set es then NONE else ((wire n)(Port (node p) 1 := NONE)) q) =
      (if pno q = 1 \<and> node q \<in> node ` set (p # es) then NONE else wire n q)" by (cases q) auto
  qed
  show ?case unfolding e Cons.IH kill_sel d w by (rule refl)
qed (simp add: kills_def)

lemma distinct_node: "distinct (map node (p # es)) \<Longrightarrow> q \<in> set es \<Longrightarrow> node q \<noteq> node p"
  by (metis distinct.simps(2) image_eqI list.set_map list.simps(9))

lemma spend_eq:
  "distinct (map node es) \<Longrightarrow>
   spend es st = (Inr (map (\<lambda>e. wire (cnet st) (Port (node e) 1)) es), st\<lparr>cnet := kills es (cnet st)\<rparr>)"
proof (induction es arbitrary: st)
  case (Cons p es)
  have w: "wire (kill (node p) (cnet st)) (Port (node e) 1) = wire (cnet st) (Port (node e) 1)" if "e \<in> set es" for e
  proof -
    have "node e \<noteq> node p" by (rule distinct_node[OF Cons.prems that])
    then show ?thesis by (simp add: kill_sel)
  qed
  have "kills (p # es) (cnet st) = kills es (kill (node p) (cnet st))" by (simp add: kills_def)
  then show ?case using Cons.IH[of "st\<lparr>cnet := kill (node p) (cnet st)\<rparr>"] Cons.prems w
    by (simp add: pbind_def pthen_def c_wire_def c_kill_def on_net_def pret_def)
qed (simp add: pret_def kills_def)

text \<open>A placeholder: an eraser of which only port 1 may be wired.\<close>

definition spot :: "net \<Rightarrow> port \<Rightarrow> bool" where
  "spot n p \<longleftrightarrow> live n (node p) \<and> pno p = 1 \<and> wire n (Port (node p) 0) = NONE \<and> wire n (Port (node p) 2) = NONE"

lemma kills_ok:
  "net_ok n \<Longrightarrow> distinct (map node es) \<Longrightarrow> \<forall>p \<in> set es. live n (node p) \<and> (\<forall>k < 3. wire n (Port (node p) k) = NONE) \<Longrightarrow>
   net_ok (kills es n) \<and> (\<forall>P. all_queued n P \<longrightarrow> all_queued (kills es n) P) \<and>
   (\<forall>u. live (kills es n) u \<longleftrightarrow> live n u \<and> u \<notin> node ` set es) \<and> wire (kills es n) = wire n \<and> tag (kills es n) = tag n \<and>
   lvl (kills es n) = lvl n"
proof (induction es arbitrary: n)
  case (Cons p es)
  have p: "live n (node p)" "\<And>k. k < 3 \<Longrightarrow> wire n (Port (node p) k) = NONE" using Cons.prems(3) by auto
  note k = kill_ok[OF Cons.prems(1) p]
  have "\<forall>q \<in> set es. live (kill (node p) n) (node q) \<and> (\<forall>j < 3. wire (kill (node p) n) (Port (node q) j) = NONE)"
  proof
    fix q assume q: "q \<in> set es"
    then have "node q \<noteq> node p" by (rule distinct_node[OF Cons.prems(2)])
    then show "live (kill (node p) n) (node q) \<and> (\<forall>j < 3. wire (kill (node p) n) (Port (node q) j) = NONE)"
      using q Cons.prems(3) k(3)[of "node q"] by (simp add: k(4))
  qed
  note ih = Cons.IH[OF k(1) _ this]
  have e: "kills (p # es) n = kills es (kill (node p) n)" by (simp add: kills_def)
  show ?case unfolding e using ih Cons.prems(2) k(2-6) by auto
qed (simp add: kills_def)

lemma snips_ok:
  "net_ok n \<Longrightarrow> \<forall>p \<in> set ps. live n (node p) \<and> pno p = 1 \<and> wire n p \<notin> set ps \<Longrightarrow>
   (let m = fold snip ps n in net_ok m \<and> (\<forall>P. all_queued n P \<longrightarrow> all_queued m P) \<and> (\<forall>v. live m v = live n v) \<and>
     m = n\<lparr>wire := wire m\<rparr> \<and>
     (\<forall>q. wire m q = (if q \<in> set ps \<or> q \<in> wire n ` set ps \<and> q \<noteq> NONE then NONE else wire n q)))"
proof (induction ps arbitrary: n)
  case (Cons p ps)
  have p: "standing n {} p" "0 < pno p" using Cons.prems(2) by (auto simp: standing_def)
  note s = snip_ok[OF Cons.prems(1) p]
  have other: "wire (snip p n) q = wire n q" if "q \<in> set ps" "q \<noteq> p" for q
    using that Cons.prems(2) by (auto simp: snip_wire)
  have self: "wire (snip p n) p = NONE" by (simp add: snip_wire)
  have "\<forall>q \<in> set ps. live (snip p n) (node q) \<and> pno q = 1 \<and> wire (snip p n) q \<notin> set ps"
  proof
    fix q assume q: "q \<in> set ps"
    have "wire (snip p n) q \<notin> set ps"
    proof (cases "q = p")
      case True
      have "NONE \<notin> set ps" using Cons.prems(2) by auto
      then show ?thesis using self True by simp
    qed (use other q Cons.prems(2) in auto)
    then show "live (snip p n) (node q) \<and> pno q = 1 \<and> wire (snip p n) q \<notin> set ps" using q Cons.prems(2) by simp
  qed
  note IH = Cons.IH[OF s(1) this, unfolded Let_def]
  let ?m = "fold snip ps (snip p n)"
  have ih: "net_ok ?m" "\<forall>P. all_queued (snip p n) P \<longrightarrow> all_queued ?m P" "\<forall>v. live ?m v = live (snip p n) v"
    "?m = (snip p n)\<lparr>wire := wire ?m\<rparr>"
    "\<forall>q. wire ?m q = (if q \<in> set ps \<or> q \<in> wire (snip p n) ` set ps \<and> q \<noteq> NONE then NONE else wire (snip p n) q)"
    by (rule conjunct1[OF IH], rule conjunct1[OF conjunct2[OF IH]], rule conjunct1[OF conjunct2[OF conjunct2[OF IH]]],
        rule conjunct1[OF conjunct2[OF conjunct2[OF conjunct2[OF IH]]]],
        rule conjunct2[OF conjunct2[OF conjunct2[OF conjunct2[OF IH]]]])
  have "(snip p n)\<lparr>wire := wire ?m\<rparr> = n\<lparr>wire := wire ?m\<rparr>" by (simp add: snip_def)
  then have rec: "?m = n\<lparr>wire := wire ?m\<rparr>" using ih(4) by (rule trans[rotated])
  have wr: "wire ?m q = (if q \<in> set (p # ps) \<or> q \<in> wire n ` set (p # ps) \<and> q \<noteq> NONE then NONE else wire n q)" for q
  proof -
    have i: "wire ?m q = (if q \<in> set ps \<or> q \<in> wire (snip p n) ` set ps \<and> q \<noteq> NONE then NONE else wire (snip p n) q)"
      using ih(5) by blast
    consider "q \<in> set ps" | "q = p" | "q = wire n p" "q \<noteq> NONE" | "q \<notin> set (p # ps)" "q = wire n p \<longrightarrow> q = NONE" by auto
    then show ?thesis
    proof cases
      case 4
      have "q \<in> wire (snip p n) ` set ps \<longleftrightarrow> q \<in> wire n ` set ps" if "q \<noteq> NONE"
      proof -
        have "wire (snip p n) r = q \<longleftrightarrow> wire n r = q" if "r \<in> set ps" for r
          using other[OF that] self 4(2) \<open>q \<noteq> NONE\<close> by (cases "r = p") auto
        then show ?thesis unfolding image_iff by metis
      qed
      moreover have "q \<noteq> NONE \<Longrightarrow> q \<in> wire n ` set (p # ps) \<longleftrightarrow> q \<in> wire n ` set ps" using 4(2) by auto
      moreover have "wire (snip p n) q = wire n q" using 4 by (auto simp: snip_wire)
      ultimately show ?thesis unfolding i using 4(1) by (cases "q = NONE") auto
    next
      case 1
      then show ?thesis unfolding i by simp
    next
      case 2
      then show ?thesis unfolding i using self by simp
    next
      case 3
      then have "wire (snip p n) q = NONE" by (simp add: snip_wire)
      then show ?thesis unfolding i using 3 by simp
    qed
  qed
  have e: "fold snip (p # ps) n = ?m" by simp
  have aq: "\<forall>P. all_queued n P \<longrightarrow> all_queued ?m P" using ih(2) s(2) by blast
  have lv: "\<forall>v. live ?m v = live n v" using ih(3) by simp
  show ?case unfolding Let_def e
    by (intro conjI) (rule ih(1), rule aq, rule lv, rule rec, rule allI, rule wr)
qed simp

lemma partner:
  assumes "net_ok n" "live n (node p)" "pno p < 3" "wire n p \<noteq> NONE"
  shows "live n (node (wire n p))" "pno (wire n p) < 3" "wire n (wire n p) = p"
proof -
  have w: "wired n {} {}" using assms(1) by (simp add: net_ok_def)
  have "standing n {} p" using assms(2,3) by (simp add: standing_def)
  from wired_back[OF w this assms(4)]
  show "live n (node (wire n p))" "pno (wire n p) < 3" "wire n (wire n p) = p" by (simp_all add: standing_def)
qed

text \<open>
  The uses of \<open>b\<close> and of the placeholders \<open>es\<close>, gathered: what the compiler makes differs at \<open>b\<close> only from a
  net that satisfies the invariant.
\<close>

definition severed :: "net \<Rightarrow> port \<Rightarrow> port list \<Rightarrow> net \<Rightarrow> bool" where
  "severed n b es K \<longleftrightarrow> net_ok K \<and> (\<forall>P. all_queued n P \<longrightarrow> all_queued K P) \<and> wire K b = NONE \<and>
     (\<forall>v. live n v \<and> v \<notin> node ` set es \<longrightarrow> live K v \<and> tag K v = tag n v) \<and>
     (\<forall>q. live n (node q) \<and> node q \<notin> node ` set es \<and> q \<noteq> b \<and> q \<notin> wire n ` set (b # es) \<longrightarrow> wire K q = wire n q) \<and>
     nlv (lvl n) \<le> nlv (lvl K)"

definition gathered :: "net \<Rightarrow> port \<Rightarrow> port list \<Rightarrow> net \<Rightarrow> port \<Rightarrow> bool" where
  "gathered n b es K d \<longleftrightarrow> severed n b es K \<and> pno d = 0 \<and> open_port K d \<and> (live n (node d) \<longrightarrow> node d \<in> node ` set es)"

lemma gather:
  assumes ok: "net_ok n" and E: "\<not> in_parallel E" and sc: "sc \<le> nlv (lvl n)" and es: "es \<noteq> []"
    and b: "live n (node b)" "pno b = 1" and sp: "\<forall>p \<in> set es. spot n p" and d: "distinct (map node (b # es))"
    and apart: "\<forall>p \<in> set (b # es). wire n p \<notin> set (b # es)"
  shows "\<exists>R d K. fans E sc (wire n b) (map (wire n) es) (kills es n) = (R, d) \<and> differ {b} R K \<and> gathered n b es K d"
proof -
  let ?P = "b # es" and ?V = "node ` set es"
  have P: "\<forall>p \<in> set ?P. live n (node p) \<and> pno p = 1 \<and> wire n p \<notin> set ?P" using b sp apart by (auto simp: spot_def)
  define K0 where "K0 = fold snip ?P n"
  note S0 = snips_ok[OF ok P, folded K0_def, unfolded Let_def]
  note K0 = conjunct1[OF S0] conjunct1[OF conjunct2[OF S0]] conjunct1[OF conjunct2[OF conjunct2[OF S0]]]
    conjunct1[OF conjunct2[OF conjunct2[OF conjunct2[OF S0]]]] conjunct2[OF conjunct2[OF conjunct2[OF conjunct2[OF S0]]]]
  define w0 where "w0 = wire K0"
  have K0n: "K0 = n\<lparr>wire := w0\<rparr>" unfolding w0_def by (rule K0(4))
  have w0: "w0 q = (if q \<in> set ?P \<or> q \<in> wire n ` set ?P \<and> q \<noteq> NONE then NONE else wire n q)" for q
    unfolding w0_def using K0(5) by blast
  have free: "\<forall>p \<in> set es. live K0 (node p) \<and> (\<forall>k < 3. wire K0 (Port (node p) k) = NONE)"
  proof (intro ballI conjI allI impI)
    fix p k assume p: "p \<in> set es" and k: "k < (3 :: nat)"
    have s: "spot n p" "p = Port (node p) 1" using sp p by (auto simp: spot_def intro: port_eqI)
    have "k = 0 \<or> k = 1 \<or> k = 2" using k by auto
    then show "wire K0 (Port (node p) k) = NONE"
      unfolding w0_def[symmetric] w0 using s p by (elim disjE) (auto simp: spot_def)
  qed (use sp K0(3) in \<open>auto simp: spot_def\<close>)
  have de: "distinct (map node es)" using d by simp
  define K1 where "K1 = kills es K0"
  note K1 = kills_ok[OF K0(1) de free, folded K1_def]
  have l1: "live K1 v \<longleftrightarrow> live n v \<and> v \<notin> ?V" for v using K1 K0(3) by simp
  have wk1: "wire K1 = w0" using K1 by (simp add: w0_def)
  have t1: "tag K1 = tag n" "lvl K1 = lvl n" using K1 by (simp_all add: K0n)
  let ?S = "insert b (wire n ` set ?P - {NONE})"
  have bV: "node b \<notin> ?V" using d by auto
  have pa: "live n (node (wire n p)) \<and> pno (wire n p) < 3 \<and> wire n (wire n p) = p \<and> node (wire n p) \<notin> ?V"
    if p: "p \<in> set ?P" "wire n p \<noteq> NONE" for p
  proof -
    have pp: "live n (node p)" "pno p < 3" using P p(1) by auto
    note q = partner[OF ok pp p(2)]
    have "node (wire n p) \<notin> ?V"
    proof
      assume "node (wire n p) \<in> ?V"
      then obtain e where e: "e \<in> set es" "node e = node (wire n p)" by auto
      then have s: "spot n e" using sp by blast
      have "pno (wire n p) = 0 \<or> pno (wire n p) = 1 \<or> pno (wire n p) = 2" using q(2) by auto
      moreover have "wire n (wire n p) \<noteq> NONE" using q(3) pp(1) by (metis NONE_not_live(1) node_NONE)
      ultimately have "pno (wire n p) = 1" using s e(2) by (cases "wire n p") (auto simp: spot_def)
      then have "wire n p = e" using e(2) s by (auto simp: spot_def intro: port_eqI)
      then show False using P p(1) e(1) by auto
    qed
    then show ?thesis using q by blast
  qed
  have Slive: "\<forall>q \<in> ?S. live K1 (node q)" using pa b(1) bV by (auto simp: l1)
  have ends: "endp K1 (wire n p)" if "p \<in> set ?P" for p
    using pa[OF that] that unfolding endp_def open_port_def l1 wk1 w0 by auto
  have di: "distinct (filter (\<lambda>x. x \<noteq> NONE) (wire n b # map (wire n) es))"
  proof -
    have inj: "inj_on (wire n) (set (filter (\<lambda>p. wire n p \<noteq> NONE) ?P))"
    proof (rule inj_onI)
      fix x y assume a: "x \<in> set (filter (\<lambda>p. wire n p \<noteq> NONE) ?P)" "y \<in> set (filter (\<lambda>p. wire n p \<noteq> NONE) ?P)"
        "wire n x = wire n y"
      then have "x \<in> set ?P" "wire n x \<noteq> NONE" "y \<in> set ?P" "wire n y \<noteq> NONE" by (auto split: if_splits)
      then have "wire n (wire n x) = x" "wire n (wire n y) = y" using pa[of x] pa[of y] by blast+
      then show "x = y" using a(3) by metis
    qed
    have "distinct (filter (\<lambda>p. wire n p \<noteq> NONE) ?P)" using d by (metis distinct_filter distinct_map)
    then have "distinct (map (wire n) (filter (\<lambda>p. wire n p \<noteq> NONE) ?P))" using inj by (simp add: distinct_map)
    moreover have "filter (\<lambda>x. x \<noteq> NONE) (map (wire n) ?P) = map (wire n) (filter (\<lambda>p. wire n p \<noteq> NONE) ?P)"
      by (simp add: filter_map comp_def)
    ultimately show ?thesis by simp
  qed
  obtain K t where f: "fans E sc (wire n b) (map (wire n) es) K1 = (K, t)" by fastforce
  have c1: "net_ok K1" using K1 by blast
  have c3: "sc \<le> nlv (lvl K1)" using sc t1 by simp
  have c4: "endp K1 (wire n b)" "\<forall>x \<in> set (map (wire n) es). endp K1 x" using ends by auto
  have ne: "map (wire n) es \<noteq> []" using es by simp
  note fo = fans_ok[OF c1 E c3 c4 di f ne]
  have dk: "differ ?S (kills es n) K1"
  proof -
    have k1: "K1 = n\<lparr>dead := (\<lambda>v. v \<in> ?V \<or> dead n v), wire := w0\<rparr>"
    proof -
      have "K1 = K1\<lparr>wire := wire K1\<rparr>" by simp
      also have "\<dots> = n\<lparr>dead := (\<lambda>v. v \<in> ?V \<or> dead n v), wire := w0\<rparr>"
        unfolding wk1 unfolding K1_def kills_eq K0n by simp
      finally show ?thesis .
    qed
    have "kills es n = K1\<lparr>wire := wire (kills es n)\<rparr>" unfolding kills_eq k1 by simp
    moreover have "wire (kills es n) q = wire K1 q" if q: "q \<notin> ?S" for q
    proof (cases "pno q = 1 \<and> node q \<in> ?V")
      case True
      then have "q \<in> set es" using sp by (auto simp: spot_def intro: port_eqI dest: port_eqI)
      then show ?thesis using True by (simp add: kills_eq wk1 w0)
    next
      case False
      then have "q \<notin> set ?P" using q sp by (auto simp: spot_def)
      moreover have "\<not> (q \<in> wire n ` set ?P \<and> q \<noteq> NONE)" using q by auto
      moreover have "wire (kills es n) q = wire n q" using False by (auto simp: kills_eq)
      ultimately show ?thesis unfolding wk1 w0 by presburger
    qed
    ultimately show ?thesis unfolding differ_def by blast
  qed
  obtain R where R: "fans E sc (wire n b) (map (wire n) es) (kills es n) = (R, t)"
      "differ (?S - set (wire n b # map (wire n) es)) R K"
    using fans_differ[OF c1 E c3 c4 di dk Slive ne f] by blast
  have "differ {b} R K" by (rule differ_mono[OF R(2)]) auto
  moreover have "gathered n b es K t"
  proof -
    note a = conjunct1[OF fo]
    have T: "set (wire n b # map (wire n) es) = wire n ` set ?P" by simp
    have bT: "b \<notin> wire n ` set ?P" using P by auto
    have "wire K b = NONE"
      using addsD(5)[OF a, of b] bT b(1) bV unfolding T by (simp add: l1 wk1 w0)
    moreover have "wire K q = wire n q" if q: "live n (node q)" "node q \<notin> ?V" "q \<noteq> b" "q \<notin> wire n ` set ?P" for q
    proof -
      have "wire K q = w0 q" using addsD(5)[OF a, of q] q unfolding T by (simp add: l1 wk1)
      moreover have "q \<notin> set ?P" using q(2,3) by auto
      ultimately show ?thesis using q(4) by (simp add: w0)
    qed
    moreover have "live n (node t) \<longrightarrow> node t \<in> ?V" using fo l1 by blast
    moreover have "\<forall>P. all_queued n P \<longrightarrow> all_queued K P" using addsD(2)[OF a] K1 K0(2) by blast
    moreover have "live n v \<Longrightarrow> v \<notin> ?V \<Longrightarrow> live K v \<and> tag K v = tag n v" for v
      using addsD(3,4)[OF a] by (simp add: l1 t1)
    moreover have "nlv (lvl n) \<le> nlv (lvl K)" using addsD(6)[OF a, of "nlv (lvl n)"] t1 by simp
    ultimately show ?thesis using fo addsD(1)[OF a] unfolding gathered_def severed_def by blast
  qed
  ultimately show ?thesis using R(1) by blast
qed

section \<open>The stack of binders and the net\<close>

definition vports :: "cvar \<Rightarrow> port list" where
  "vports e = vbind e # extra e"

definition allv :: "cvar list \<Rightarrow> port list" where
  "allv vs = concat (map vports vs)"

definition unused :: "cvar list \<Rightarrow> port set" where
  "unused vs = {vbind e |e. e \<in> set vs \<and> uses e = 0}"

definition entry_ok :: "net \<Rightarrow> cvar \<Rightarrow> bool" where
  "entry_ok n e \<longleftrightarrow> (\<forall>p \<in> set (extra e). spot n p) \<and>
     (if uses e = 0 then extra e = [] \<and> wire n (vbind e) = NONE else uses e = Suc (length (extra e)))"

text \<open>The ports of the names in scope lie on nodes of their own and are not wired to one another.\<close>

definition stack_ok :: "net \<Rightarrow> cvar list \<Rightarrow> bool" where
  "stack_ok n vs \<longleftrightarrow> distinct (map node (allv vs)) \<and>
     (\<forall>p \<in> set (allv vs). live n (node p) \<and> pno p = 1 \<and> wire n p \<notin> set (allv vs)) \<and> (\<forall>e \<in> set vs. entry_ok n e)"

text \<open>A port that is no name's and no unwired port of a placeholder.\<close>

definition clear :: "cvar list \<Rightarrow> port \<Rightarrow> bool" where
  "clear vs p \<longleftrightarrow> p \<notin> set (allv vs) \<and> (\<forall>e \<in> set vs. \<forall>q \<in> set (extra e). p \<noteq> Port (node q) 0 \<and> p \<noteq> Port (node q) 2)"

definition usable :: "cvar list \<Rightarrow> port \<Rightarrow> bool" where
  "usable vs p \<longleftrightarrow> p \<in> set (allv vs) \<and> p \<notin> unused vs \<or> clear vs p"

lemma allv_simps [simp]:
  "allv [] = []" "allv (e # vs) = vports e @ allv vs" "allv (vs @ ws) = allv vs @ allv ws"
  by (simp_all add: allv_def)

lemma set_allv: "set (allv vs) = (\<Union>e \<in> set vs. set (vports e))"
  by (simp add: allv_def)

lemma unused_allv: "p \<in> unused vs \<Longrightarrow> p \<in> set (allv vs)"
  by (auto simp: unused_def set_allv vports_def)

lemma unused_app [simp]: "unused (vs @ ws) = unused vs \<union> unused ws"
  by (auto simp: unused_def)

lemma clear_node: "node p \<notin> node ` set (allv vs) \<Longrightarrow> clear vs p"
  by (force simp: clear_def set_allv vports_def)

lemma stack_port: "stack_ok n vs \<Longrightarrow> p \<in> set (allv vs) \<Longrightarrow> live n (node p) \<and> pno p = 1"
  by (auto simp: stack_ok_def)

lemma stack_inj:
  assumes "stack_ok n vs" "p \<in> set (allv vs)" "q \<in> set (allv vs)" "node p = node q"
  shows "p = q"
proof -
  have "inj_on node (set (allv vs))" using assms(1) by (simp add: stack_ok_def distinct_map)
  then show ?thesis using assms by (auto dest: inj_onD)
qed

lemma not_live_clear: "stack_ok n vs \<Longrightarrow> \<not> live n (node p) \<Longrightarrow> clear vs p"
  by (rule clear_node) (auto simp: stack_ok_def)

text \<open>What keeps a stack sound: wires of its ports may be overwritten by ports that are clear.\<close>

lemma stack_keep:
  assumes st: "stack_ok n vs" and l: "\<And>v. v \<in> node ` set (allv vs) \<Longrightarrow> live m v"
    and w: "\<And>p. p \<in> set (allv vs) \<Longrightarrow> wire m p = wire n p \<or> p \<notin> unused vs \<and> wire m p \<notin> set (allv vs)"
    and o2: "\<And>e q. e \<in> set vs \<Longrightarrow> q \<in> set (extra e) \<Longrightarrow>
      wire m (Port (node q) 0) = wire n (Port (node q) 0) \<and> wire m (Port (node q) 2) = wire n (Port (node q) 2)"
  shows "stack_ok m vs"
  unfolding stack_ok_def
proof (intro conjI ballI)
  show "distinct (map node (allv vs))" using st by (simp add: stack_ok_def)
  fix p assume p: "p \<in> set (allv vs)"
  show "live m (node p)" using l p by simp
  show "pno p = 1" using stack_port[OF st p] by simp
  have "wire n p \<notin> set (allv vs)" using st p unfolding stack_ok_def by blast
  then show "wire m p \<notin> set (allv vs)" using w[OF p] by auto
next
  fix e assume e: "e \<in> set vs"
  have eo: "entry_ok n e" using st e unfolding stack_ok_def by blast
  have "spot m q" if q: "q \<in> set (extra e)" for q
  proof -
    have "q \<in> set (allv vs)" using e q by (auto simp: set_allv vports_def)
    then show ?thesis using eo q o2[OF e q] l by (auto simp: entry_ok_def spot_def)
  qed
  moreover have "wire m (vbind e) = NONE" if u: "uses e = 0"
  proof -
    have "vbind e \<in> unused vs" using e u by (auto simp: unused_def)
    then show ?thesis using w[of "vbind e"] unused_allv eo u by (auto simp: entry_ok_def)
  qed
  ultimately show "entry_ok m e" using eo by (auto simp: entry_ok_def)
qed

lemma stack_adds:
  assumes st: "stack_ok n vs" and ad: "adds n m X" and X: "\<And>x. x \<in> X \<Longrightarrow> live n (node x) \<Longrightarrow> clear vs x"
  shows "stack_ok m vs"
proof (rule stack_keep[OF st])
  fix v assume "v \<in> node ` set (allv vs)"
  then have "live n v" using stack_port[OF st] by auto
  then show "live m v" by (rule addsD(3)[OF ad])
next
  fix p assume p: "p \<in> set (allv vs)"
  then have l: "live n (node p)" using stack_port[OF st] by simp
  have "p \<notin> X" using X l p by (auto simp: clear_def)
  then show "wire m p = wire n p \<or> p \<notin> unused vs \<and> wire m p \<notin> set (allv vs)" using addsD(5)[OF ad l] by simp
next
  fix e q assume e: "e \<in> set vs" "q \<in> set (extra e)"
  then have l: "live n (node q)" using stack_port[OF st, of q] by (auto simp: set_allv vports_def)
  have "\<not> clear vs (Port (node q) 0)" "\<not> clear vs (Port (node q) 2)" using e by (auto simp: clear_def)
  then have "Port (node q) 0 \<notin> X" "Port (node q) 2 \<notin> X" using X l by auto
  then show "wire m (Port (node q) 0) = wire n (Port (node q) 0) \<and> wire m (Port (node q) 2) = wire n (Port (node q) 2)"
    using addsD(5)[OF ad] l by simp
qed

text \<open>Linking a clear port with one that may be used.\<close>

lemma stack_link:
  assumes st: "stack_ok n vs" and ad: "adds n m {a, b}" and w: "wire m = (wire n)(a := b, b := a)"
    and a: "clear vs a" and b: "usable vs b" and ab: "a \<noteq> b"
  shows "stack_ok m vs"
proof (rule stack_keep[OF st])
  fix v assume "v \<in> node ` set (allv vs)"
  then have "live n v" using stack_port[OF st] by auto
  then show "live m v" by (rule addsD(3)[OF ad])
next
  fix p assume p: "p \<in> set (allv vs)"
  then show "wire m p = wire n p \<or> p \<notin> unused vs \<and> wire m p \<notin> set (allv vs)"
    using a b ab by (auto simp: w usable_def clear_def)
next
  fix e q assume e: "e \<in> set vs" "q \<in> set (extra e)"
  have "\<not> clear vs (Port (node q) 0)" "\<not> clear vs (Port (node q) 2)" using e by (auto simp: clear_def)
  moreover have "Port (node q) 0 \<notin> set (allv vs)" "Port (node q) 2 \<notin> set (allv vs)" using stack_port[OF st] by fastforce+
  ultimately have "b \<noteq> Port (node q) 0" "b \<noteq> Port (node q) 2" using b by (auto simp: usable_def)
  then show "wire m (Port (node q) 0) = wire n (Port (node q) 0) \<and> wire m (Port (node q) 2) = wire n (Port (node q) 2)"
    using a e by (auto simp: w clear_def)
qed

text \<open>The stack at a later moment.\<close>

definition grown :: "net \<Rightarrow> cvar list \<Rightarrow> cvar list \<Rightarrow> bool" where
  "grown n vs ws \<longleftrightarrow> length ws = length vs \<and>
     (\<forall>i < length vs. vname (ws ! i) = vname (vs ! i) \<and> vbind (ws ! i) = vbind (vs ! i) \<and> uses (vs ! i) \<le> uses (ws ! i) \<and>
        set (extra (vs ! i)) \<subseteq> set (extra (ws ! i)) \<and>
        (\<forall>q \<in> set (extra (ws ! i)). q \<in> set (extra (vs ! i)) \<or> \<not> live n (node q))) \<and>
     (\<forall>p \<in> set (allv ws). p \<in> set (allv vs) \<or> \<not> live n (node p))"

lemma grown_refl: "grown n vs vs"
  by (simp add: grown_def)

lemma grownD:
  assumes "grown n vs ws" "i < length vs"
  shows "length ws = length vs" "vname (ws ! i) = vname (vs ! i)" "vbind (ws ! i) = vbind (vs ! i)"
    "uses (vs ! i) \<le> uses (ws ! i)" "set (extra (vs ! i)) \<subseteq> set (extra (ws ! i))"
    "\<forall>q \<in> set (extra (ws ! i)). q \<in> set (extra (vs ! i)) \<or> \<not> live n (node q)"
  using assms by (auto simp: grown_def)

lemma grown_allv:
  assumes "grown n vs ws"
  shows "set (allv vs) \<subseteq> set (allv ws)"
proof
  fix p assume "p \<in> set (allv vs)"
  then obtain e where e: "e \<in> set vs" "p \<in> set (vports e)" by (auto simp: set_allv)
  then obtain i where i: "i < length vs" "p \<in> set (vports (vs ! i))" unfolding in_set_conv_nth by blast
  note g = grownD[OF assms i(1)]
  have "p \<in> set (vports (ws ! i))" using i(2) g(3,5) by (auto simp: vports_def)
  moreover have "ws ! i \<in> set ws" using i(1) g(1) by simp
  ultimately show "p \<in> set (allv ws)" unfolding set_allv by blast
qed

lemma grown_unused:
  assumes "grown n vs ws"
  shows "unused ws \<subseteq> unused vs"
proof
  fix p assume "p \<in> unused ws"
  then obtain e where "e \<in> set ws" "p = vbind e" "uses e = 0" by (auto simp: unused_def)
  then obtain i where i: "i < length ws" "p = vbind (ws ! i)" "uses (ws ! i) = 0" by (auto simp: in_set_conv_nth)
  then have l: "i < length vs" using assms by (simp add: grown_def)
  note g = grownD[OF assms l]
  have "uses (vs ! i) = 0" "p = vbind (vs ! i)" using g(3,4) i by simp_all
  then show "p \<in> unused vs" using l by (auto simp: unused_def)
qed

lemma grown_trans:
  assumes "grown n vs ws" "grown m ws us" "\<And>v. live n v \<Longrightarrow> live m v"
  shows "grown n vs us"
proof -
  have "length us = length vs" using assms(1,2) by (simp add: grown_def)
  moreover have "vname (us ! i) = vname (vs ! i) \<and> vbind (us ! i) = vbind (vs ! i) \<and> uses (vs ! i) \<le> uses (us ! i) \<and>
      set (extra (vs ! i)) \<subseteq> set (extra (us ! i)) \<and>
      (\<forall>q \<in> set (extra (us ! i)). q \<in> set (extra (vs ! i)) \<or> \<not> live n (node q))" if i: "i < length vs" for i
  proof -
    note g = grownD[OF assms(1) i]
    have "i < length ws" using i g(1) by simp
    note h = grownD[OF assms(2) this]
    have "\<forall>q \<in> set (extra (us ! i)). q \<in> set (extra (vs ! i)) \<or> \<not> live n (node q)" using g(6) h(6) assms(3) by blast
    then show ?thesis using g(2-5) h(2-5) by simp
  qed
  moreover have "p \<in> set (allv vs) \<or> \<not> live n (node p)" if "p \<in> set (allv us)" for p
    using assms that unfolding grown_def by blast
  ultimately show ?thesis unfolding grown_def by blast
qed

lemma last_named_cong: "map vname vs = map vname ws \<Longrightarrow> last_named x vs = last_named x ws"
proof (induction vs arbitrary: ws)
  case (Cons v vs)
  then obtain w us where w: "ws = w # us" "vname v = vname w" "map vname vs = map vname us" by (cases ws) auto
  show ?case using Cons.IH[OF w(3)] w(1,2) by simp
qed simp

lemma grown_names: "grown n vs ws \<Longrightarrow> map vname ws = map vname vs"
  unfolding grown_def by (auto intro: nth_equalityI)

lemma last_named_app:
  "last_named x (vs @ [e]) = (if vname e = x then Some (length vs) else last_named x vs)"
  by (induction vs) auto

lemma last_named_Some: "last_named x vs = Some i \<Longrightarrow> i < length vs \<and> vname (vs ! i) = x"
  by (induction vs arbitrary: i) (auto split: option.splits if_splits)

lemma last_named_None: "last_named x vs = None \<longleftrightarrow> x \<notin> vname ` set vs"
  by (induction vs) (auto split: option.splits)

lemma severed_stack:
  assumes st: "stack_ok n (vs @ [e])" and ok: "net_ok n" and g: "severed n (vbind e) (extra e) K"
  shows "stack_ok K vs"
proof -
  let ?V = "node ` set (extra e)" and ?P = "set (vbind e # extra e)"
  have P: "?P \<subseteq> set (allv (vs @ [e]))" by (auto simp: vports_def)
  have apart: "node p \<notin> node ` ?P" if "p \<in> set (allv vs)" for p
    using st that by (auto simp: stack_ok_def vports_def image_iff)
  have st': "stack_ok n vs" using st by (auto simp: stack_ok_def)
  have off: "wire K q = wire n q" if q: "live n (node q)" "node q \<notin> node ` ?P" "wire n q \<notin> ?P" "pno q < 3" for q
  proof -
    have "q \<notin> wire n ` set (vbind e # extra e)"
    proof
      assume "q \<in> wire n ` set (vbind e # extra e)"
      then obtain p where p: "p \<in> ?P" "q = wire n p" by auto
      have "live n (node p)" "pno p = 1" using P p(1) stack_port[OF st] by blast+
      moreover have "wire n p \<noteq> NONE" using p(2) q(1) by auto
      ultimately have "wire n q = p" using partner(3)[OF ok] p(2) by simp
      then show False using q(3) p(1) by simp
    qed
    then show ?thesis using g q(1,2) unfolding severed_def by auto
  qed
  show "stack_ok K vs"
  proof (rule stack_keep[OF st'])
    fix v assume "v \<in> node ` set (allv vs)"
    then obtain p where p: "p \<in> set (allv vs)" "v = node p" by auto
    then have "live n v" "v \<notin> ?V" using stack_port[OF st'] apart by auto
    then show "live K v" using g by (auto simp: severed_def)
  next
    fix p assume p: "p \<in> set (allv vs)"
    have "wire n p \<notin> set (allv (vs @ [e]))" using st p by (auto simp: stack_ok_def)
    then have "wire n p \<notin> ?P" using P by blast
    then show "wire K p = wire n p \<or> p \<notin> unused vs \<and> wire K p \<notin> set (allv vs)"
      using off[of p] stack_port[OF st' p] apart[OF p] by simp
  next
    fix x q assume x: "x \<in> set vs" "q \<in> set (extra x)"
    then have q: "q \<in> set (allv vs)" by (auto simp: set_allv vports_def)
    have "spot n q" using st' x by (auto simp: stack_ok_def entry_ok_def)
    moreover have "NONE \<notin> ?P" using P stack_port[OF st, of NONE] by auto
    ultimately show "wire K (Port (node q) 0) = wire n (Port (node q) 0) \<and> wire K (Port (node q) 2) = wire n (Port (node q) 2)"
      using off[of "Port (node q) 0"] off[of "Port (node q) 2"] stack_port[OF st' q] apart[OF q] by (auto simp: spot_def)
  qed
qed

lemma gathered_clear:
  assumes st: "stack_ok n (vs @ [e])" and g: "gathered n (vbind e) (extra e) K d"
  shows "clear vs d"
proof -
  have apart: "node p \<notin> node ` set (vbind e # extra e)" if "p \<in> set (allv vs)" for p
    using st that by (auto simp: stack_ok_def vports_def image_iff)
  have st': "stack_ok n vs" using st by (auto simp: stack_ok_def)
  have "node d \<notin> node ` set (allv vs)"
  proof
    assume "node d \<in> node ` set (allv vs)"
    then obtain p where p: "p \<in> set (allv vs)" "node d = node p" by auto
    then have "node d \<in> node ` set (extra e)" using g stack_port[OF st' p(1)] by (auto simp: gathered_def)
    then show False using apart[OF p(1)] p(2) by auto
  qed
  then show "clear vs d" by (rule clear_node)
qed

lemma severed_adds:
  assumes ad: "adds n0 n X" and ok0: "net_ok n0" and ok: "net_ok n" and g: "severed n b es K"
    and new: "\<And>p. p \<in> set (b # es) \<Longrightarrow> \<not> live n0 (node p) \<and> live n (node p) \<and> pno p = 1"
  shows "adds n0 K X"
proof -
  have nV: "live n0 v \<Longrightarrow> v \<notin> node ` set es" for v using new by auto
  have "wire K q = wire n0 q" if q: "live n0 (node q)" "q \<notin> X" for q
  proof -
    have w: "wire n q = wire n0 q" by (rule addsD(5)[OF ad q])
    have "q \<noteq> b" using q(1) new[of b] by auto
    moreover have "q \<notin> wire n ` set (b # es)"
    proof
      assume "q \<in> wire n ` set (b # es)"
      then obtain p where p: "p \<in> set (b # es)" "q = wire n p" by auto
      have "wire n p \<noteq> NONE" using p(2) q(1) by auto
      then have "wire n q = p" "pno q < 3" using partner(2,3)[OF ok] new[OF p(1)] p(2) by simp_all
      then have "wire n0 q = p" "p \<noteq> NONE" using w new[OF p(1)] by auto
      then have "live n0 (node p)" using partner(1)[OF ok0 q(1) \<open>pno q < 3\<close>] by simp
      then show False using new[OF p(1)] by simp
    qed
    ultimately show ?thesis using g addsD(3)[OF ad q(1)] nV[OF q(1)] w by (auto simp: severed_def)
  qed
  moreover have "live K v \<and> tag K v = tag n0 v" if "live n0 v" for v
    using g addsD(3,4)[OF ad that] nV[OF that] by (auto simp: severed_def)
  moreover have "nlv (lvl n0) \<le> nlv (lvl K)" using g addsD(6)[OF ad, of "nlv (lvl n0)"] by (auto simp: severed_def)
  moreover have "\<forall>P. all_queued n0 P \<longrightarrow> all_queued K P" using g addsD(2)[OF ad] by (auto simp: severed_def)
  ultimately show "adds n0 K X" using g unfolding adds_def severed_def by blast
qed

text \<open>A port that is open before the gathering and is none of the uses stays open.\<close>

lemma severed_open:
  assumes ok: "net_ok n" and g: "severed n b es K" and p: "open_port n p" "node p \<notin> node ` set es" "p \<noteq> b"
    and P: "\<And>p. p \<in> set (b # es) \<Longrightarrow> live n (node p) \<and> pno p = 1"
  shows "open_port K p"
proof -
  have "p \<notin> wire n ` set (b # es)"
  proof
    assume "p \<in> wire n ` set (b # es)"
    then obtain q where q: "q \<in> set (b # es)" "p = wire n q" by auto
    have "wire n q \<noteq> NONE" using q(2) p(1) by (auto simp: open_port_def)
    then have "wire n p = q" using partner(3)[OF ok, of q] P[OF q(1)] q(2) by simp
    then show False using p(1) P[OF q(1)] by (auto simp: open_port_def)
  qed
  then show ?thesis using g p by (auto simp: severed_def open_port_def)
qed

section \<open>The ends of binders as functions on nets\<close>

definition lam_net :: "env \<Rightarrow> int \<Rightarrow> gauge \<Rightarrow> port \<Rightarrow> cvar \<Rightarrow> net \<Rightarrow> net" where
  "lam_net E self lv q e n =
     (let n1 = net_link E (Port self 2) q False n
      in if 1 < uses e
         then case fans E lv (wire n1 (Port self 1)) (map (wire n1) (extra e)) (kills (extra e) n1) of (r, d) \<Rightarrow>
                net_link E (Port self 1) d False r
         else n1)"

definition tidy :: "cvar \<Rightarrow> bool" where
  "tidy e \<longleftrightarrow> distinct (map node (extra e)) \<and> (\<forall>p \<in> set (extra e). pno p = 1)"

lemma tidy_wires: "tidy e \<Longrightarrow> map (\<lambda>p. w (Port (node p) 1)) (extra e) = map w (extra e)"
  unfolding tidy_def by (auto) (metis One_nat_def port.collapse)

lemma use_ports_eq:
  "tidy e \<Longrightarrow> use_ports e b st = (Inr (wire (cnet st) b # map (wire (cnet st)) (extra e)), st\<lparr>cnet := kills (extra e) (cnet st)\<rparr>)"
  using spend_eq[of "extra e" st] tidy_wires[of e "wire (cnet st)"]
  by (simp add: use_ports_def pbind_def c_wire_def on_net_def pret_def tidy_def)

lemma ct_lam_end_eq:
  assumes "tidy (last (cstack st))"
  shows "ct_lam_end C self lv q st =
    (Inr (Port self 0), st\<lparr>cnet := lam_net (nenv C) self lv q (last (cstack st)) (cnet st), cstack := butlast (cstack st)\<rparr>)"
  using assms
  by (simp add: ct_lam_end_def pthen_def pbind_def c_link_def on_net_def top_var_def pop_var_def pret_def lam_net_def Let_def
      use_ports_eq dup_tree_def dup_tree_fans split: prod.splits)

definition let_net :: "env \<Rightarrow> gauge \<Rightarrow> int \<Rightarrow> port \<Rightarrow> port \<Rightarrow> cvar \<Rightarrow> net \<Rightarrow> net" where
  "let_net E lv0 ph val q e n =
     kill ph (if uses e = 1
              then if q = Port ph 1 \<or> node (wire n (Port ph 1)) < 0 \<or> wire n (Port ph 1) = val then n
                   else net_link E (wire n (Port ph 1)) val True n
              else if 1 < uses e
              then case net_scope_app lv0 2 (kills (extra e) n) of (n1, lv) \<Rightarrow>
                   case fans E lv (wire n (Port ph 1)) (map (wire n) (extra e)) n1 of (r, d) \<Rightarrow> net_link E d val True r
              else n)"

lemma ct_let_end_eq:
  assumes "tidy (last (cstack st))"
  shows "ct_let_end C ph val q st =
    (Inr (if uses (last (cstack st)) = 1 \<and> q = Port ph 1 then val else q),
     st\<lparr>cnet := let_net (nenv C) (cur_lvl st) ph val q (last (cstack st)) (cnet st), cstack := butlast (cstack st)\<rparr>)"
  using assms
  by (simp add: ct_let_end_def pthen_def pbind_def c_link_def c_wire_def c_kill_def on_net_def top_var_def pop_var_def pret_def
      let_net_def fan_lvl_at_def use_ports_eq dup_tree_def dup_tree_fans split: prod.splits) auto

section \<open>What compiling a term does\<close>

definition sound :: "cst \<Rightarrow> bool" where
  "sound st \<longleftrightarrow> net_ok (cnet st) \<and> cur_lvl st \<le> nlv (lvl (cnet st)) \<and> stack_ok (cnet st) (cstack st)"

definition same_uses :: "cvar list \<Rightarrow> cvar list \<Rightarrow> tm \<Rightarrow> bool" where
  "same_uses vs ws t \<longleftrightarrow>
     (\<forall>i < length vs. uses (vs ! i) < uses (ws ! i) \<longleftrightarrow> (\<exists>x \<in> frees t. last_named x vs = Some i))"

text \<open>A port that is a name's is that name's only use.\<close>

definition lone_use :: "cvar list \<Rightarrow> cvar list \<Rightarrow> port \<Rightarrow> bool" where
  "lone_use vs ws p \<longleftrightarrow> (\<forall>i < length vs. p \<in> set (vports (ws ! i)) \<longrightarrow>
     (\<forall>j < length vs. uses (ws ! j) = uses (vs ! j) + (if j = i then 1 else 0)))"

definition made :: "cst \<Rightarrow> tm \<Rightarrow> port \<Rightarrow> cst \<Rightarrow> bool" where
  "made st t p st' \<longleftrightarrow>
     adds (cnet st) (cnet st') (unused (cstack st)) \<and> stack_ok (cnet st') (cstack st') \<and> cur_lvl st' = cur_lvl st \<and>
     grown (cnet st) (cstack st) (cstack st') \<and> same_uses (cstack st) (cstack st') t \<and>
     open_port (cnet st') p \<and> (live (cnet st) (node p) \<longrightarrow> p \<in> unused (cstack st)) \<and> usable (cstack st') p \<and>
     lone_use (cstack st) (cstack st') p"

lemma madeD:
  assumes "made st t p st'"
  shows "adds (cnet st) (cnet st') (unused (cstack st))" "stack_ok (cnet st') (cstack st')" "cur_lvl st' = cur_lvl st"
    "grown (cnet st) (cstack st) (cstack st')" "same_uses (cstack st) (cstack st') t" "open_port (cnet st') p"
    "live (cnet st) (node p) \<Longrightarrow> p \<in> unused (cstack st)" "usable (cstack st') p" "lone_use (cstack st) (cstack st') p"
  using assms by (auto simp: made_def)

lemma made_sound: "sound st \<Longrightarrow> made st t p st' \<Longrightarrow> sound st'"
  unfolding sound_def made_def by (auto dest: addsD(1) addsD(6))

text \<open>A step on the net that the stack does not see, and a port of a node that is new.\<close>

lemma sound_adds:
  assumes "sound st" "adds (cnet st) n X" "\<And>x. x \<in> X \<Longrightarrow> live (cnet st) (node x) \<Longrightarrow> clear (cstack st) x"
    "l \<le> nlv (lvl n)"
  shows "sound (st\<lparr>cnet := n, cur_lvl := l\<rparr>)"
  using assms stack_adds[of "cnet st" "cstack st" n X] by (simp add: sound_def adds_def)

lemma made_new:
  assumes st: "sound st" and ad: "adds (cnet st) n {}" and p: "open_port n p" "\<not> live (cnet st) (node p)"
    and f: "frees t = {}" and st': "cnet st' = n" "cstack st' = cstack st" "cur_lvl st' = cur_lvl st"
  shows "made st t p st'"
proof -
  have s: "stack_ok n (cstack st)" by (rule stack_adds[OF _ ad]) (use st in \<open>auto simp: sound_def\<close>)
  have c: "clear (cstack st) p" by (rule not_live_clear[OF _ p(2)]) (use st in \<open>simp add: sound_def\<close>)
  have a: "adds (cnet st) n (unused (cstack st))" by (rule adds_cut[OF ad]) simp
  have "p \<notin> set (vports (cstack st ! i))" if "i < length (cstack st)" for i
    using c that nth_mem[OF that] unfolding clear_def set_allv by blast
  then show ?thesis using s c a p f
    by (auto simp: made_def st' grown_refl same_uses_def lone_use_def usable_def)
qed

lemma made_num:
  assumes st: "sound st" and E: "\<not> in_parallel (nenv C)" and r: "ct C pos (Num s) st = (Inr p, st')"
  shows "made st (Num s) p st'"
proof -
  obtain n q where a: "net_alloc_scott_at (nenv C) (atol s) (cur_lvl st) (cnet st) = (n, q)" by fastforce
  have e: "st' = st\<lparr>cnet := n, aot_map := aot_map st @ [(pos, q)]\<rparr>" "p = q"
    using r by (auto simp: pbind_def pthen_def pret_def pmodify_def fan_lvl_def on_net_def record_port_def a)
  have ok: "net_ok (cnet st)" "cur_lvl st \<le> nlv (lvl (cnet st))" using st by (simp_all add: sound_def)
  note sp = alloc_scott_spec[OF ok(1) E ok(2) a[unfolded net_alloc_scott_at_def]]
  show ?thesis
    by (rule made_new[OF st sp(1)]) (use sp(2) in \<open>auto simp: e open_at_def open_port_def lam_at_def\<close>)
qed

section \<open>Variables\<close>

lemma distinct_concat_nth:
  "distinct (concat xss) \<Longrightarrow> i < length xss \<Longrightarrow> j < length xss \<Longrightarrow> x \<in> set (xss ! i) \<Longrightarrow> x \<in> set (xss ! j) \<Longrightarrow> i = j"
proof (induction xss arbitrary: i j)
  case (Cons xs xss)
  have d: "y \<notin> set xs" if "y \<in> set (xss ! k)" "k < length xss" for y k
  proof -
    have "xss ! k \<in> set xss" using that(2) by simp
    then show ?thesis using Cons.prems(1) that(1) by auto
  qed
  show ?case
  proof (cases i; cases j)
    fix a b assume "i = Suc a" "j = Suc b"
    then show ?thesis using Cons by simp
  qed (use Cons.prems d in auto)
qed simp

lemma stack_owner:
  assumes "stack_ok n vs" "i < length vs" "j < length vs" "p \<in> set (vports (vs ! i))" "p \<in> set (vports (vs ! j))"
  shows "i = j"
proof -
  have "distinct (concat (map vports vs))" using assms(1) by (auto simp: stack_ok_def allv_def distinct_map)
  then show ?thesis using distinct_concat_nth[of "map vports vs" i j p] assms(2-5) by simp
qed

lemma allv_update:
  assumes "i < length vs"
  shows "allv vs = allv (take i vs) @ vports (vs ! i) @ allv (drop (Suc i) vs)"
    "allv (vs[i := e]) = allv (take i vs) @ vports e @ allv (drop (Suc i) vs)"
proof -
  have "vs = take i vs @ vs ! i # drop (Suc i) vs" using id_take_nth_drop[OF assms] .
  then have "allv vs = allv (take i vs @ vs ! i # drop (Suc i) vs)" by simp
  then show "allv vs = allv (take i vs) @ vports (vs ! i) @ allv (drop (Suc i) vs)" by simp
  show "allv (vs[i := e]) = allv (take i vs) @ vports e @ allv (drop (Suc i) vs)"
    unfolding upd_conv_take_nth_drop[OF assms] by simp
qed

lemma entry_at: "stack_ok n vs \<Longrightarrow> i < length vs \<Longrightarrow> entry_ok n (vs ! i)"
  by (simp add: stack_ok_def)

lemma port_at: "i < length vs \<Longrightarrow> p \<in> set (vports (vs ! i)) \<Longrightarrow> p \<in> set (allv vs)"
  unfolding set_allv using nth_mem by blast

lemma stack_first_use:
  assumes st: "stack_ok n vs" and i: "i < length vs" and u: "uses (vs ! i) = 0"
  shows "stack_ok n (vs[i := (vs ! i)\<lparr>uses := 1\<rparr>])"
proof -
  let ?e = "(vs ! i)\<lparr>uses := 1\<rparr>"
  have "vports ?e = vports (vs ! i)" by (simp add: vports_def)
  then have a: "allv (vs[i := ?e]) = allv vs" using allv_update[OF i] by simp
  have "entry_ok n ?e" using entry_at[OF st i] u by (simp add: entry_ok_def)
  then have "\<forall>e \<in> set (vs[i := ?e]). entry_ok n e"
    using st set_update_subset_insert[of vs i ?e] unfolding stack_ok_def by blast
  then show ?thesis using st unfolding stack_ok_def a by blast
qed

lemma stack_next_use:
  assumes st: "stack_ok n vs" and i: "i < length vs" and u: "0 < uses (vs ! i)" and ph: "spot n (Port ph 1)"
    and w: "wire n (Port ph 1) = NONE" and new: "ph \<notin> node ` set (allv vs)"
    and far: "\<And>p. p \<in> set (allv vs) \<Longrightarrow> wire n p \<noteq> Port ph 1"
  shows "stack_ok n (vs[i := (vs ! i)\<lparr>uses := uses (vs ! i) + 1, extra := extra (vs ! i) @ [Port ph 1]\<rparr>])"
proof -
  let ?e = "(vs ! i)\<lparr>uses := uses (vs ! i) + 1, extra := extra (vs ! i) @ [Port ph 1]\<rparr>"
  have v: "vports ?e = vports (vs ! i) @ [Port ph 1]" by (simp add: vports_def)
  have d: "distinct (map node (allv (vs[i := ?e])))"
    using st new unfolding stack_ok_def allv_update(2)[OF i] v by (auto simp: allv_update(1)[OF i])
  have a: "set (allv (vs[i := ?e])) = insert (Port ph 1) (set (allv vs))"
    unfolding allv_update(2)[OF i] v by (auto simp: allv_update(1)[OF i])
  have "entry_ok n ?e" using entry_at[OF st i] u ph by (auto simp: entry_ok_def)
  then have e: "\<forall>e \<in> set (vs[i := ?e]). entry_ok n e"
    using st set_update_subset_insert[of vs i ?e] unfolding stack_ok_def by blast
  have "NONE \<notin> set (allv vs)" using stack_port[OF st, of NONE] by auto
  moreover have "live n ph" using ph by (simp add: spot_def)
  moreover from this have "NONE \<noteq> Port ph 1" using live_nonneg by force
  ultimately have "\<forall>p \<in> set (allv (vs[i := ?e])). live n (node p) \<and> pno p = 1 \<and> wire n p \<notin> set (allv (vs[i := ?e]))"
    using st far w unfolding a stack_ok_def by auto
  then show ?thesis unfolding stack_ok_def using d e by blast
qed

lemma made_var:
  assumes st: "sound st" and E: "\<not> in_parallel (nenv C)" and x: "x \<in> vname ` set (cstack st)"
    and r: "ct C pos (Var x) st = (Inr p, st')"
  shows "made st (Var x) p st'"
proof -
  let ?vs = "cstack st"
  obtain i where i: "last_named x ?vs = Some i" using x last_named_None by (cases "last_named x ?vs") auto
  then have il: "i < length ?vs" by (simp add: last_named_Some)
  have ok: "net_ok (cnet st)" and so: "stack_ok (cnet st) ?vs" using st by (simp_all add: sound_def)
  have b: "live (cnet st) (node (vbind (?vs ! i)))" "pno (vbind (?vs ! i)) = 1" "vbind (?vs ! i) \<in> set (allv ?vs)"
    using stack_port[OF so] port_at[OF il, of "vbind (?vs ! i)"] by (auto simp: vports_def)
  note eo = entry_at[OF so il]
  show ?thesis
  proof (cases "uses (?vs ! i) = 0")
    case True
    let ?ws = "?vs[i := (?vs ! i)\<lparr>uses := 1\<rparr>]" and ?p = "vbind (?vs ! i)"
    have e: "st' = st\<lparr>cstack := ?ws, aot_map := aot_map st @ [(pos, ?p)]\<rparr>" "p = ?p"
      using r i True by (auto simp: ct_var_def pbind_def pthen_def pret_def pmodify_def use_at_def record_port_def)
    have sw: "stack_ok (cnet st) ?ws" by (rule stack_first_use[OF so il True])
    have pw: "?p \<in> set (vports (?ws ! i))" using il by (simp add: vports_def)
    have nu: "?p \<notin> unused ?ws"
    proof
      assume "?p \<in> unused ?ws"
      then obtain f where "f \<in> set ?ws" "?p = vbind f" "uses f = 0" by (auto simp: unused_def)
      then obtain j where j: "j < length ?ws" "?p = vbind (?ws ! j)" "uses (?ws ! j) = 0" unfolding in_set_conv_nth by blast
      have "j = i" using stack_owner[OF sw j(1) _ _ pw] j(2) il by (simp add: vports_def)
      then show False using j(3) il by simp
    qed
    have "set (allv ?ws) = set (allv ?vs)" by (simp add: allv_update[OF il] vports_def)
    moreover have "grown (cnet st) ?vs ?ws" using calculation il True by (auto simp: grown_def nth_list_update)
    moreover have "same_uses ?vs ?ws (Var x)" using i il True by (auto simp: same_uses_def nth_list_update)
    moreover have "lone_use ?vs ?ws ?p"
      unfolding lone_use_def
    proof (intro allI impI)
      fix k j assume k: "k < length ?vs" "?p \<in> set (vports (?ws ! k))" and j: "j < length ?vs"
      have "k = i" using stack_owner[OF sw _ _ k(2) pw] k(1) il by simp
      then show "uses (?ws ! j) = uses (?vs ! j) + (if j = k then 1 else 0)" using il j True by (auto simp: nth_list_update)
    qed
    moreover have "?p \<in> unused ?vs" using True il by (auto simp: unused_def)
    moreover have "open_port (cnet st) ?p" using b eo True by (simp add: open_port_def entry_ok_def)
    ultimately show ?thesis using sw nu b(3) adds_refl[OF ok] by (simp add: made_def e usable_def)
  next
    case False
    obtain n ph where a: "net_alloc (nenv C) ERA 0 (cnet st) = (n, ph)" by fastforce
    let ?e = "(?vs ! i)\<lparr>uses := uses (?vs ! i) + 1, extra := extra (?vs ! i) @ [Port ph 1]\<rparr>"
    let ?ws = "?vs[i := ?e]" and ?p = "Port ph 1"
    have e: "st' = st\<lparr>cnet := n, cstack := ?ws, aot_map := aot_map st @ [(pos, ?p)]\<rparr>" "p = ?p"
      using r i False il
      by (auto simp: ct_var_def pbind_def pthen_def pret_def pmodify_def use_at_def record_port_def c_alloc_def on_net_def a)
    note ad = adds_alloc[OF ok E _ a, simplified]
    have sn: "stack_ok n ?vs" by (rule stack_adds[OF so ad(1)]) simp
    have new: "ph \<notin> node ` set (allv ?vs)" using stack_port[OF so] ad(2) by auto
    have far: "wire n q \<noteq> Port ph 1" if "q \<in> set (allv ?vs)" for q
    proof -
      have l: "live (cnet st) (node q)" "pno q = 1" using stack_port[OF so that] by auto
      have "wire n q = wire (cnet st) q" using addsD(5)[OF ad(1) l(1)] by simp
      moreover have "wire (cnet st) q \<noteq> NONE \<Longrightarrow> live (cnet st) (node (wire (cnet st) q))" using partner(1)[OF ok l(1)] l(2) by simp
      moreover have "0 \<le> ph" using ad(3) by (rule live_nonneg)
      ultimately show ?thesis using ad(2) by auto
    qed
    have sp: "spot n (Port ph 1)" using ad by (simp add: spot_def)
    have w: "wire n (Port ph 1) = NONE" using ad(5) by simp
    have sw: "stack_ok n ?ws" using stack_next_use[OF sn il _ sp w new far] False by simp
    have pw: "?p \<in> set (vports (?ws ! i))" using il by (simp add: vports_def)
    have set: "set (allv ?ws) = insert ?p (set (allv ?vs))" by (auto simp: allv_update[OF il] vports_def)
    have "?p \<notin> unused ?ws"
    proof
      assume "?p \<in> unused ?ws"
      then obtain f where f: "f \<in> set ?ws" "?p = vbind f" by (auto simp: unused_def)
      then obtain j where j: "j < length ?ws" "?p = vbind (?ws ! j)" unfolding in_set_conv_nth by blast
      have jl: "j < length ?vs" using j(1) by simp
      have "vbind (?ws ! j) = vbind (?vs ! j)" by (cases "j = i") (use il in simp_all)
      then have "?p \<in> set (allv ?vs)" using port_at[OF jl, of ?p] j(2) by (simp add: vports_def)
      then show False using new by force
    qed
    moreover have "grown (cnet st) ?vs ?ws" using set ad(2) il by (auto simp: grown_def nth_list_update)
    moreover have "same_uses ?vs ?ws (Var x)" using i il by (auto simp: same_uses_def nth_list_update)
    moreover have "lone_use ?vs ?ws ?p"
      unfolding lone_use_def
    proof (intro allI impI)
      fix k j assume k: "k < length ?vs" "?p \<in> set (vports (?ws ! k))" and j: "j < length ?vs"
      have "k = i" using stack_owner[OF sw _ _ k(2) pw] k(1) il by simp
      then show "uses (?ws ! j) = uses (?vs ! j) + (if j = k then 1 else 0)" using il j by (auto simp: nth_list_update)
    qed
    moreover have "open_port n ?p" using ad(3) w by (simp add: open_port_def)
    moreover have "adds (cnet st) n (unused ?vs)" by (rule adds_cut[OF ad(1)]) simp
    ultimately show ?thesis using sw set ad(2) by (simp add: made_def e usable_def)
  qed
qed

section \<open>Passing from one state to a later one\<close>

definition passed :: "cst \<Rightarrow> string set \<Rightarrow> cst \<Rightarrow> bool" where
  "passed b X st \<longleftrightarrow> adds (cnet b) (cnet st) (unused (cstack b)) \<and> stack_ok (cnet st) (cstack st) \<and>
     grown (cnet b) (cstack b) (cstack st) \<and>
     (\<forall>i < length (cstack b). uses (cstack b ! i) < uses (cstack st ! i) \<longleftrightarrow> (\<exists>x \<in> X. last_named x (cstack b) = Some i))"

lemma passedD:
  assumes "passed b X st"
  shows "adds (cnet b) (cnet st) (unused (cstack b))" "stack_ok (cnet st) (cstack st)" "grown (cnet b) (cstack b) (cstack st)"
    "i < length (cstack b) \<Longrightarrow> uses (cstack b ! i) < uses (cstack st ! i) \<longleftrightarrow> (\<exists>x \<in> X. last_named x (cstack b) = Some i)"
  using assms by (simp_all add: passed_def)

lemma made_passed: "made st t p st' \<Longrightarrow> passed st (frees t) st'"
  by (simp add: made_def passed_def same_uses_def)

lemma passed_start: "sound st \<Longrightarrow> passed st {} st"
  by (simp add: passed_def sound_def adds_refl grown_refl)

lemma passed_made:
  assumes p: "passed b X st" and m: "made st t q st'"
  shows "passed b (X \<union> frees t) st'"
proof -
  note a = passedD[OF p] and c = madeD[OF m]
  have u: "unused (cstack st) \<subseteq> unused (cstack b)" by (rule grown_unused[OF a(3)])
  have "adds (cnet b) (cnet st') (unused (cstack b) \<union> unused (cstack st))" by (rule adds_trans[OF a(1) c(1)])
  then have ad: "adds (cnet b) (cnet st') (unused (cstack b))" using u by (simp add: Un_absorb2)
  have g: "grown (cnet b) (cstack b) (cstack st')" by (rule grown_trans[OF a(3) c(4)]) (rule addsD(3)[OF a(1)])
  have ln: "last_named x (cstack st) = last_named x (cstack b)" for x
    by (rule last_named_cong) (rule grown_names[OF a(3)])
  have us: "uses (cstack b ! i) < uses (cstack st' ! i) \<longleftrightarrow> (\<exists>x \<in> X \<union> frees t. last_named x (cstack b) = Some i)"
    if i: "i < length (cstack b)" for i
  proof -
    have j: "i < length (cstack st)" using grownD(1)[OF a(3) i] i by simp
    have "uses (cstack st ! i) < uses (cstack st' ! i) \<longleftrightarrow> (\<exists>x \<in> frees t. last_named x (cstack b) = Some i)"
      using c(5) j unfolding same_uses_def ln by blast
    then show ?thesis using a(4)[OF i] grownD(4)[OF a(3) i] grownD(4)[OF c(4) j] by (auto intro: le_less_trans less_le_trans)
  qed
  show ?thesis unfolding passed_def using ad c(2) g us by blast
qed

text \<open>Steps on the net alone.\<close>

lemma passed_net:
  assumes p: "passed b X st" and ad: "adds (cnet st) n Y"
    and Y: "\<And>y. y \<in> Y \<Longrightarrow> live (cnet st) (node y) \<Longrightarrow> clear (cstack st) y \<and> \<not> live (cnet b) (node y)"
    and s: "cnet st' = n" "cstack st' = cstack st"
  shows "passed b X st'"
proof -
  note a = passedD[OF p]
  have "stack_ok n (cstack st)" by (rule stack_adds[OF a(2) ad]) (use Y in blast)
  moreover have "adds (cnet b) n (unused (cstack b))"
    by (rule adds_cut[OF adds_trans[OF a(1) ad]]) (use Y addsD(3)[OF a(1)] in blast)
  ultimately show ?thesis using p by (simp add: passed_def s)
qed

text \<open>A port the compiler has in hand.\<close>

definition in_hand :: "cst \<Rightarrow> cst \<Rightarrow> port \<Rightarrow> bool" where
  "in_hand b st p \<longleftrightarrow> open_port (cnet st) p \<and> usable (cstack st) p \<and> (live (cnet b) (node p) \<longrightarrow> p \<in> unused (cstack b))"

lemma made_in_hand: "made st t p st' \<Longrightarrow> in_hand st st' p"
  by (simp add: made_def in_hand_def)

lemma in_hand_from:
  assumes "passed b X st" "in_hand st st' p"
  shows "in_hand b st' p"
  using assms addsD(3)[OF passedD(1)[OF assms(1)]] grown_unused[OF passedD(3)[OF assms(1)]]
  by (auto simp: in_hand_def)

lemma in_hand_new:
  "stack_ok (cnet st) (cstack st) \<Longrightarrow> open_port (cnet st) p \<Longrightarrow> node p \<notin> node ` set (allv (cstack st)) \<Longrightarrow>
   \<not> live (cnet b) (node p) \<Longrightarrow> in_hand b st p"
  by (simp add: in_hand_def usable_def clear_node)

lemma keep_clear:
  assumes g: "grown n vs ws" and c: "clear vs p" and l: "live n (node p)"
  shows "clear ws p"
proof -
  have "p \<notin> set (allv ws)" using g c l by (auto simp: grown_def clear_def)
  moreover have "p \<noteq> Port (node q) 0 \<and> p \<noteq> Port (node q) 2" if e: "e \<in> set ws" and q: "q \<in> set (extra e)" for e q
  proof -
    obtain i where i: "i < length ws" "e = ws ! i" using e by (auto simp: in_set_conv_nth)
    then have iv: "i < length vs" using g by (simp add: grown_def)
    have "q \<in> set (extra (vs ! i)) \<or> \<not> live n (node q)" using grownD(6)[OF g iv] q i(2) by blast
    then show ?thesis
    proof
      assume "q \<in> set (extra (vs ! i))"
      then show ?thesis using c nth_mem[OF iv] unfolding clear_def by blast
    qed (use l in auto)
  qed
  ultimately show ?thesis by (simp add: clear_def)
qed

lemma keep_usable:
  assumes g: "grown n vs ws" and c: "usable vs p" and l: "live n (node p)"
  shows "usable ws p"
  using c keep_clear[OF g _ l] grown_allv[OF g] grown_unused[OF g] unfolding usable_def by blast

lemma usable_unused: "usable vs p \<Longrightarrow> p \<notin> unused vs"
  using unused_allv by (auto simp: usable_def clear_def)

lemma keep_in_hand:
  assumes h: "in_hand b st p" and m: "passed st X st'"
  shows "in_hand b st' p"
proof -
  note c = passedD[OF m]
  have p: "open_port (cnet st) p" "usable (cstack st) p" using h by (simp_all add: in_hand_def)
  have l: "live (cnet st) (node p)" using p by (simp add: open_port_def)
  have "open_port (cnet st') p" using p addsD(3,5)[OF c(1)] usable_unused[OF p(2)] by (simp add: open_port_def)
  then show ?thesis using h keep_usable[OF c(3) p(2) l] by (simp add: in_hand_def)
qed

text \<open>Linking what is in hand with a clear port of a node that is new.\<close>

lemma passed_link:
  assumes p: "passed b X st" and E: "\<not> in_parallel E" and a: "open_port (cnet st) a" "clear (cstack st) a" "\<not> live (cnet b) (node a)"
    and h: "in_hand b st q" and ne: "a \<noteq> q" and enq: "enq \<or> 0 < pno a \<or> 0 < pno q"
    and s: "cnet st' = net_link E a q enq (cnet st)" "cstack st' = cstack st"
  shows "passed b X st'" "adds (cnet st) (cnet st') {a, q}" "wire (cnet st') = (wire (cnet st))(a := q, q := a)"
proof -
  note c = passedD[OF p]
  have q: "open_port (cnet st) q" "usable (cstack st) q" using h by (simp_all add: in_hand_def)
  have "q \<noteq> NONE" using q(1) by (auto simp: open_port_def)
  moreover have "endp (cnet st) q" using q(1) by (simp add: endp_def)
  ultimately have l: "adds (cnet st) (cnet st') {a, q}" "wire (cnet st') = (wire (cnet st))(a := q, q := a)"
    using link_end[OF addsD(1)[OF c(1)] E a(1) _ ne enq s(1)] by simp_all
  then show "adds (cnet st) (cnet st') {a, q}" "wire (cnet st') = (wire (cnet st))(a := q, q := a)" .
  have "stack_ok (cnet st') (cstack st)" by (rule stack_link[OF c(2) l a(2) q(2) ne])
  moreover have "adds (cnet b) (cnet st') (unused (cstack b))"
    by (rule adds_cut[OF adds_trans[OF c(1) l(1)]]) (use a(3) h in \<open>auto simp: in_hand_def\<close>)
  ultimately show "passed b X st'" using p by (simp add: passed_def s(2))
qed

lemma far_new:
  assumes "stack_ok n vs" "net_ok n" "adds n m {}" "\<not> live n v" "0 \<le> v" "p \<in> set (allv vs)"
  shows "wire m p \<noteq> Port v k"
proof -
  have l: "live n (node p)" "pno p = 1" using stack_port[OF assms(1,6)] by auto
  have "wire m p = wire n p" using addsD(5)[OF assms(3) l(1)] by simp
  moreover have "wire n p \<noteq> NONE \<Longrightarrow> live n (node (wire n p))" using partner(1)[OF assms(2) l(1)] l(2) by simp
  ultimately show ?thesis using assms(4,5) by auto
qed

definition entry :: "string \<Rightarrow> int \<Rightarrow> cvar" where
  "entry x v = \<lparr>vname = x, vbind = Port v 1, uses = 0, extra = []\<rparr>"

lemma entry_sel [simp]: "vname (entry x v) = x" "vbind (entry x v) = Port v 1" "uses (entry x v) = 0" "extra (entry x v) = []"
  by (simp_all add: entry_def)

lemma stack_push:
  assumes st: "stack_ok n vs" and l: "live n v" "wire n (Port v 1) = NONE" "v \<notin> node ` set (allv vs)"
    and far: "\<And>p. p \<in> set (allv vs) \<Longrightarrow> wire n p \<noteq> Port v 1"
  shows "stack_ok n (vs @ [entry x v])"
proof -
  have v: "vports (entry x v) = [Port v 1]" by (simp add: vports_def)
  have "NONE \<notin> set (allv vs)" using stack_port[OF st, of NONE] by auto
  moreover have "NONE \<noteq> Port v 1" using live_nonneg[OF l(1)] by auto
  moreover have "entry_ok n (entry x v)" using l by (simp add: entry_ok_def)
  ultimately show ?thesis using st l far unfolding stack_ok_def by (auto simp: v)
qed

text \<open>A port of the node at work: nothing is on it yet and no name sees it.\<close>

definition own :: "cst \<Rightarrow> port \<Rightarrow> bool" where
  "own st a \<longleftrightarrow> open_port (cnet st) a \<and> clear (cstack st) a"

lemma own_passed:
  assumes o: "own st a" and m: "passed st X st'"
  shows "own st' a"
proof -
  note c = passedD[OF m]
  have a: "open_port (cnet st) a" "clear (cstack st) a" using o by (simp_all add: own_def)
  then have l: "live (cnet st) (node a)" and u: "a \<notin> unused (cstack st)" using unused_allv by (auto simp: open_port_def clear_def)
  have "open_port (cnet st') a" using a addsD(3,5)[OF c(1)] u by (simp add: open_port_def)
  then show ?thesis using keep_clear[OF c(3) a(2) l] by (simp add: own_def)
qed

lemma own_other: "own st a \<Longrightarrow> in_hand st st' q \<Longrightarrow> a \<noteq> q"
  using unused_allv by (auto simp: own_def in_hand_def open_port_def clear_def)

lemma own_net:
  "own st a \<Longrightarrow> adds (cnet st) (cnet st') Y \<Longrightarrow> a \<notin> Y \<Longrightarrow> cstack st' = cstack st \<Longrightarrow> own st' a"
  by (auto simp: own_def open_port_def adds_def)

lemma own_new:
  assumes st: "sound st" and n: "\<not> live (cnet st) (node a)" and o: "open_port (cnet st') a" and s: "cstack st' = cstack st"
  shows "own st' a"
  using not_live_clear[OF _ n] st o by (simp add: own_def s sound_def)

lemma passed_sound: "passed b X st \<Longrightarrow> l \<le> nlv (lvl (cnet st)) \<Longrightarrow> sound (st\<lparr>cur_lvl := l\<rparr>)"
  using passedD(1,2) addsD(1) by (fastforce simp: sound_def)

lemma madeI:
  assumes p: "passed st (frees t) st'" and l: "cur_lvl st' = cur_lvl st" and o: "own st' q" and n: "\<not> live (cnet st) (node q)"
  shows "made st t q st'"
proof -
  have "q \<notin> set (vports (cstack st' ! i))" if "i < length (cstack st)" for i
    using o that grownD(1)[OF passedD(3)[OF p] that] port_at[of i "cstack st'" q] by (auto simp: own_def clear_def)
  then show ?thesis using p l o n
    by (auto simp: made_def passed_def same_uses_def own_def usable_def lone_use_def)
qed

section \<open>Applications\<close>

lemma level_step:
  assumes p: "passed b X st" and l: "l \<le> nlv (lvl (cnet st))" and r: "net_scope_app l br (cnet st) = (n, g)"
  shows "passed b X (st\<lparr>cnet := n, cur_lvl := g\<rparr>)" "sound (st\<lparr>cnet := n, cur_lvl := g\<rparr>)" "adds (cnet st) n {}"
proof -
  have ok: "net_ok (cnet st)" using passedD(1)[OF p] by (simp add: adds_def)
  note a = adds_level[OF ok l r]
  show "passed b X (st\<lparr>cnet := n, cur_lvl := g\<rparr>)" by (rule passed_net[OF p a(1)]) simp_all
  have "passed b X (st\<lparr>cnet := n\<rparr>)" by (rule passed_net[OF p a(1)]) simp_all
  from passed_sound[OF this, of g] show "sound (st\<lparr>cnet := n, cur_lvl := g\<rparr>)" using a(2) by simp
  show "adds (cnet st) n {}" by (rule a(1))
qed

lemma passed_level: "passed b X st \<Longrightarrow> cur_lvl b \<le> nlv (lvl (cnet b)) \<Longrightarrow> cur_lvl b \<le> nlv (lvl (cnet st))"
  using passedD(1) addsD(6) by blast

text \<open>Steps that succeed.\<close>

lemma step_Inr:
  "fan_lvl st = (Inr l, st') \<longleftrightarrow> l = cur_lvl st \<and> st' = st"
  "on_net h st = (Inr y, st') \<longleftrightarrow> (\<exists>n. h (cnet st) = (n, y) \<and> st' = st\<lparr>cnet := n\<rparr>)"
  "set_lvl g st = (Inr u, st') \<longleftrightarrow> st' = st\<lparr>cur_lvl := g\<rparr>"
  "push_var x (Port v 1) st = (Inr u', st') \<longleftrightarrow> st' = st\<lparr>cstack := cstack st @ [entry x v]\<rparr>"
  "record_port pos q st = (Inr p, st') \<longleftrightarrow> p = q \<and> st' = st\<lparr>aot_map := aot_map st @ [(pos, q)]\<rparr>"
  by (auto simp: fan_lvl_def on_net_def set_lvl_def push_var_def record_port_def pthen_def pbind_def pmodify_def pret_def entry_def
      split: prod.splits)

lemma link_Inr: "c_link C a q enq st = (Inr u, st') \<longleftrightarrow> st' = st\<lparr>cnet := net_link (nenv C) a q enq (cnet st)\<rparr>"
  by (simp add: c_link_def step_Inr)

lemma deeper_Inr:
  "deeper l br st = (Inr u, st') \<longleftrightarrow> (\<exists>n g. net_scope_app l br (cnet st) = (n, g) \<and> st' = st\<lparr>cnet := n, cur_lvl := g\<rparr>)"
  by (auto simp: deeper_def pbind_Inr step_Inr)

lemma app_steps:
  assumes "ct C pos (App t u) st = (Inr p, st')"
  shows "\<exists>n1 v n2 l1 pf sB n4 l2 pa sE.
    net_alloc (nenv C) APP (cur_lvl st) (cnet st) = (n1, v) \<and> net_scope_app (cur_lvl st) 1 n1 = (n2, l1) \<and>
    ct C (pos @ [0]) t (st\<lparr>cnet := n2, cur_lvl := l1\<rparr>) = (Inr pf, sB) \<and>
    net_scope_app (cur_lvl st) 2 (net_link (nenv C) (Port v 0) pf True (cnet sB)) = (n4, l2) \<and>
    ct C (pos @ [1]) u (sB\<lparr>cnet := n4, cur_lvl := l2\<rparr>) = (Inr pa, sE) \<and> p = Port v 1 \<and>
    st' = sE\<lparr>cnet := net_link (nenv C) (Port v 2) pa True (cnet sE), cur_lvl := cur_lvl st,
             aot_map := aot_map sE @ [(pos, Port v 1)]\<rparr>"
  using assms unfolding ct.simps pthen_def c_alloc_def pbind_Inr step_Inr link_Inr deeper_Inr
  apply (elim exE conjE) apply hypsubst apply (simp (no_asm_use)) apply (intro exI conjI) apply assumption apply assumption apply assumption apply assumption apply assumption apply (rule refl) apply (rule refl) done

lemma made_app:
  assumes st: "sound st" and E: "\<not> in_parallel (nenv C)"
    and f: "\<And>s p s'. sound s \<Longrightarrow> vname ` set (cstack s) = vname ` set (cstack st) \<Longrightarrow> ct C (pos @ [0]) t s = (Inr p, s') \<Longrightarrow> made s t p s'"
    and a: "\<And>s p s'. sound s \<Longrightarrow> vname ` set (cstack s) = vname ` set (cstack st) \<Longrightarrow> ct C (pos @ [1]) u s = (Inr p, s') \<Longrightarrow> made s u p s'"
    and r: "ct C pos (App t u) st = (Inr p, st')"
  shows "made st (App t u) p st'"
proof -
  let ?E = "nenv C" and ?l = "cur_lvl st"
  obtain n1 v n2 l1 pf sB n4 l2 pa sE where al: "net_alloc ?E APP ?l (cnet st) = (n1, v)"
    and l1: "net_scope_app ?l 1 n1 = (n2, l1)" and cf: "ct C (pos @ [0]) t (st\<lparr>cnet := n2, cur_lvl := l1\<rparr>) = (Inr pf, sB)"
    and l2: "net_scope_app ?l 2 (net_link ?E (Port v 0) pf True (cnet sB)) = (n4, l2)"
    and ca: "ct C (pos @ [1]) u (sB\<lparr>cnet := n4, cur_lvl := l2\<rparr>) = (Inr pa, sE)" and p: "p = Port v 1"
    and st': "st' = sE\<lparr>cnet := net_link ?E (Port v 2) pa True (cnet sE), cur_lvl := ?l, aot_map := aot_map sE @ [(pos, Port v 1)]\<rparr>"
    using app_steps[OF r] by blast
  define sA where "sA = st\<lparr>cnet := n2, cur_lvl := l1\<rparr>"
  define sC where "sC = sB\<lparr>cnet := net_link ?E (Port v 0) pf True (cnet sB)\<rparr>"
  define sD where "sD = sC\<lparr>cnet := n4, cur_lvl := l2\<rparr>"
  have sDe: "sB\<lparr>cnet := n4, cur_lvl := l2\<rparr> = sD" by (simp add: sD_def sC_def)
  note cf = cf[folded sA_def] and ca = ca[unfolded sDe]
  have l2: "net_scope_app ?l 2 (cnet sC) = (n4, l2)" using l2 by (simp add: sC_def)
  have ok: "net_ok (cnet st)" "?l \<le> nlv (lvl (cnet st))" using st by (simp_all add: sound_def)
  note aa = adds_alloc[OF ok(1) E ok(2) al]
  note ls = adds_level[OF addsD(1)[OF aa(1)] addsD(6)[OF aa(1) ok(2)] l1]
  have p1: "passed st {} (st\<lparr>cnet := n1\<rparr>)" by (rule passed_net[OF passed_start[OF st] aa(1)]) simp_all
  have l1': "net_scope_app ?l 1 (cnet (st\<lparr>cnet := n1\<rparr>)) = (n2, l1)" using l1 by simp
  note A = level_step[OF p1 _ l1']
  have pA: "passed st {} sA" "sound sA" using A addsD(6)[OF aa(1) ok(2)] by (simp_all add: sA_def)
  have ports: "own sA (Port v k)" if "k < 3" for k
    by (rule own_new[OF st]) (use aa ls(1) that in \<open>auto simp: sA_def open_port_def adds_def\<close>)
  have nA: "map vname (cstack sA) = map vname (cstack st)" by (simp add: sA_def)
  have mf: "made sA t pf sB" by (rule f[OF pA(2) _ cf]) (simp add: sA_def)
  have pB: "passed st (frees t) sB" using passed_made[OF pA(1) mf] by simp
  have hf: "in_hand sA sB pf" by (rule made_in_hand[OF mf])
  have oB: "own sB (Port v k)" "Port v k \<noteq> pf" if "k < 3" for k
    using own_passed[OF ports[OF that] made_passed[OF mf]] own_other[OF ports[OF that] hf] by blast+
  have nv: "\<not> live (cnet st) v" by (rule aa(2))
  have C: "passed st (frees t) sC" "adds (cnet sB) (cnet sC) {Port v 0, pf}"
    by (rule passed_link[OF pB E, where a = "Port v 0" and q = pf and enq = True];
        use oB nv in_hand_from[OF pA(1) hf] in \<open>simp add: own_def sC_def\<close>)+
  have oC: "own sC (Port v k)" if "k < 3" "k \<noteq> 0" for k
    by (rule own_net[OF oB(1)[OF that(1)] C(2)]) (use oB(2)[OF that(1)] that in \<open>auto simp: sC_def\<close>)
  note D = level_step[OF C(1) passed_level[OF C(1) ok(2)] l2, folded sD_def]
  have oD: "own sD (Port v k)" if "k < 3" "k \<noteq> 0" for k
    by (rule own_net[OF oC[OF that]]) (use D(3) in \<open>auto simp: sD_def\<close>)
  have names: "map vname (cstack sD) = map vname (cstack st)" by (rule grown_names[OF passedD(3)[OF D(1)]])
  have ma: "made sD u pa sE"
    by (rule a[OF D(2) _ ca]) (use arg_cong[OF names, of set] in \<open>simp\<close>)
  have pE: "passed st (frees t \<union> frees u) sE" by (rule passed_made[OF D(1) ma])
  have ha: "in_hand sD sE pa" by (rule made_in_hand[OF ma])
  have oE: "own sE (Port v k)" "Port v k \<noteq> pa" if "k < 3" "k \<noteq> 0" for k
    using own_passed[OF oD[OF that] made_passed[OF ma]] own_other[OF oD[OF that] ha] by blast+
  have F: "passed st (frees t \<union> frees u) st'" "adds (cnet sE) (cnet st') {Port v 2, pa}"
    by (rule passed_link[OF pE E, where a = "Port v 2" and q = pa and enq = True];
        use oE nv in_hand_from[OF D(1) ha] in \<open>simp add: own_def st'\<close>)+
  have "own st' (Port v 1)" by (rule own_net[OF oE(1) F(2)]) (use oE(2) in \<open>auto simp: st'\<close>)
  then show ?thesis unfolding p using madeI[of st "App t u" st' "Port v 1"] F(1) nv by (simp add: st')
qed

end
