(* ===== verification/CompileTerms.thy ===== *)
theory CompileTerms
  imports CompileProps
begin

text \<open>
  Binders, and the compilation of whole terms (\<open>ct\<close> and \<open>compile\<close> in \<open>src/compile.c\<close>): the ends of an
  abstraction and of a let on a sound state, the induction over the term, and that a plain closed term is
  always compiled.
\<close>

section \<open>Leaving a binder\<close>

lemma stack_tidy: "stack_ok n (us @ [e]) \<Longrightarrow> tidy e"
  by (auto simp: stack_ok_def tidy_def vports_def)

lemma stack_front: "stack_ok n (us @ [e]) \<Longrightarrow> stack_ok n us"
  by (auto simp: stack_ok_def)

lemma clear_front: "clear (us @ [e]) p \<Longrightarrow> clear us p"
  by (auto simp: clear_def)

lemma front_apart: "stack_ok n (us @ [e]) \<Longrightarrow> p \<in> set (vports e) \<Longrightarrow> node p \<notin> node ` set (allv us)"
  by (auto simp: stack_ok_def)

lemma made_pop:
  assumes m: "made sA b q sB" and s: "cstack sA = vs @ [entry x v]"
  obtains us e where "cstack sB = us @ [e]" "length us = length vs" "vbind e = Port v 1" "grown (cnet sA) vs us"
    "\<forall>i < length vs. uses (vs ! i) < uses (us ! i) \<longleftrightarrow> (\<exists>y \<in> frees b - {x}. last_named y vs = Some i)"
    "0 < uses e \<longleftrightarrow> x \<in> frees b" "\<forall>r \<in> set (extra e). \<not> live (cnet sA) (node r)"
proof -
  note c = madeD[OF m, unfolded s]
  have len: "length (cstack sB) = Suc (length vs)" using c(4) by (simp add: grown_def)
  then obtain us e where st: "cstack sB = us @ [e]" by (metis append_butlast_last_id list.size(3) nat.distinct(1))
  have lu: "length us = length vs" using len st by simp
  have at: "(us @ [e]) ! i = us ! i" "(vs @ [entry x v]) ! i = vs ! i" if "i < length vs" for i
    using that lu by (simp_all add: nth_append)
  have top: "(us @ [e]) ! length vs = e" using lu by (simp add: nth_append)
  have te: "vbind e = Port v 1" "\<forall>r \<in> set (extra e). \<not> live (cnet sA) (node r)"
    using grownD(3,6)[OF c(4), of "length vs"] by (simp_all add: st top)
  have "Port v 1 \<in> set (vports e)" using te(1) by (simp add: vports_def)
  from front_apart[OF c(2)[unfolded st] this] have ve: "Port v 1 \<notin> set (allv us)" by force
  have g: "grown (cnet sA) vs us" unfolding grown_def
  proof (intro conjI allI impI ballI)
    show "length us = length vs" by (rule lu)
    fix i assume i: "i < length vs"
    then have j: "i < length (vs @ [entry x v])" by simp
    note h = grownD[OF c(4) j, unfolded st at[OF i]]
    show "vname (us ! i) = vname (vs ! i)" "vbind (us ! i) = vbind (vs ! i)" "uses (vs ! i) \<le> uses (us ! i)"
      "set (extra (vs ! i)) \<subseteq> set (extra (us ! i))" by (rule h)+
    show "r \<in> set (extra (vs ! i)) \<or> \<not> live (cnet sA) (node r)" if "r \<in> set (extra (us ! i))" for r using h(6) that by blast
  next
    fix p assume p: "p \<in> set (allv us)"
    then have "p \<in> set (allv (cstack sB))" by (simp add: st)
    then have "p \<in> set (allv (vs @ [entry x v])) \<or> \<not> live (cnet sA) (node p)" using c(4) unfolding grown_def by blast
    then show "p \<in> set (allv vs) \<or> \<not> live (cnet sA) (node p)" using p ve by (auto simp: vports_def)
  qed
  have u: "uses (vs ! i) < uses (us ! i) \<longleftrightarrow> (\<exists>y \<in> frees b - {x}. last_named y vs = Some i)" if i: "i < length vs" for i
  proof -
    have "uses (vs ! i) < uses (us ! i) \<longleftrightarrow> (\<exists>y \<in> frees b. last_named y (vs @ [entry x v]) = Some i)"
      using c(5) i unfolding same_uses_def st by (metis at length_append_singleton less_SucI)
    also have "\<dots> \<longleftrightarrow> (\<exists>y \<in> frees b - {x}. last_named y vs = Some i)" using i by (auto simp: last_named_app)
    finally show ?thesis .
  qed
  have "0 < uses e \<longleftrightarrow> (\<exists>y \<in> frees b. last_named y (vs @ [entry x v]) = Some (length vs))"
    using c(5) unfolding same_uses_def st by (metis entry_sel(3) lessI length_append_singleton nth_append_length top)
  also have "\<dots> \<longleftrightarrow> x \<in> frees b" by (auto simp: last_named_app dest: last_named_Some)
  finally have l: "0 < uses e \<longleftrightarrow> x \<in> frees b" .
  have u': "\<forall>i < length vs. uses (vs ! i) < uses (us ! i) \<longleftrightarrow> (\<exists>y \<in> frees b - {x}. last_named y vs = Some i)" using u by blast
  show ?thesis by (rule that[OF st lu te(1) g u' l te(2)])
qed

section \<open>Abstractions\<close>

lemma lam_steps:
  assumes "ct C pos (Lam x b) st = (Inr p, st')"
  shows "\<exists>n1 v n2 lv n3 l1 q sB sC.
    net_alloc (nenv C) LAM (cur_lvl st) (cnet st) = (n1, v) \<and> net_scope_app (cur_lvl st) 1 n1 = (n2, lv) \<and>
    net_scope_app (cur_lvl st) 1 n2 = (n3, l1) \<and>
    ct C (pos @ [0]) b (st\<lparr>cstack := cstack st @ [entry x v], cnet := n3, cur_lvl := l1\<rparr>) = (Inr q, sB) \<and>
    ct_lam_end C v lv q (sB\<lparr>cur_lvl := cur_lvl st\<rparr>) = (Inr p, sC) \<and> st' = sC\<lparr>aot_map := aot_map sC @ [(pos, p)]\<rparr>"
  using assms unfolding ct.simps pthen_def c_alloc_def pbind_Inr step_Inr link_Inr deeper_Inr fan_lvl_at_def
  apply (elim exE conjE) apply hypsubst apply (simp (no_asm_use)) apply (intro exI conjI)
  apply assumption apply assumption apply assumption apply assumption apply assumption apply (rule refl) done

lemma unused_entry [simp]: "unused [entry x v] = {Port v 1}"
  by (auto simp: unused_def)

text \<open>A node made for a binder: the three ports are its own until the binder is pushed.\<close>

lemma binder_node:
  assumes st: "sound st" and ad: "adds (cnet st) n {}" and v: "\<not> live (cnet st) v" "live n v"
    and w: "\<And>k. k < 3 \<Longrightarrow> wire n (Port v k) = NONE" and l: "l \<le> nlv (lvl n)"
    and sA: "sA = st\<lparr>cstack := cstack st @ [entry x v], cnet := n, cur_lvl := l\<rparr>"
  shows "sound sA" "k < 3 \<Longrightarrow> k \<noteq> 1 \<Longrightarrow> own sA (Port v k)"
proof -
  let ?vs = "cstack st"
  have so: "stack_ok (cnet st) ?vs" and ok: "net_ok (cnet st)" using st by (simp_all add: sound_def)
  have sn: "stack_ok n ?vs" by (rule stack_adds[OF so ad]) simp
  have new: "v \<notin> node ` set (allv ?vs)" using stack_port[OF so] v(1) by auto
  have far: "wire n p \<noteq> Port v 1" if "p \<in> set (allv ?vs)" for p
    by (rule far_new[OF so ok ad v(1) live_nonneg[OF v(2)] that])
  have "wire n (Port v 1) = NONE" by (rule w) simp
  from stack_push[OF sn v(2) this new far] have "stack_ok n (?vs @ [entry x v])" .
  then show "sound sA" using addsD(1)[OF ad] l by (simp add: sound_def sA)
  have "clear ?vs (Port v k)" by (rule clear_node) (use new in simp)
  then have "clear (?vs @ [entry x v]) (Port v k)" if "k \<noteq> 1" using that by (auto simp: clear_def vports_def)
  then show "k < 3 \<Longrightarrow> k \<noteq> 1 \<Longrightarrow> own sA (Port v k)" using w v(2) by (simp add: own_def open_port_def sA)
qed

text \<open>The uses of the innermost binder can be gathered.\<close>

lemma gather_top:
  assumes ok: "net_ok n" and E: "\<not> in_parallel E" and sc: "sc \<le> nlv (lvl n)" and st: "stack_ok n (us @ [e])" and u: "1 < uses e"
  shows "\<exists>R d K. fans E sc (wire n (vbind e)) (map (wire n) (extra e)) (kills (extra e) n) = (R, d) \<and>
    differ {vbind e} R K \<and> gathered n (vbind e) (extra e) K d"
proof -
  have eo: "entry_ok n e" using st by (auto simp: stack_ok_def)
  have es: "extra e \<noteq> []" using eo u by (auto simp: entry_ok_def)
  have V: "set (vports e) \<subseteq> set (allv (us @ [e]))" by simp
  have b: "live n (node (vbind e))" "pno (vbind e) = 1" using stack_port[OF st, of "vbind e"] by (auto simp: vports_def)
  have sp: "\<forall>p \<in> set (extra e). spot n p" using eo by (simp add: entry_ok_def)
  have d: "distinct (map node (vbind e # extra e))" using st by (auto simp: stack_ok_def vports_def)
  have "\<forall>p \<in> set (vports e). wire n p \<notin> set (vports e)" using st by (auto simp: stack_ok_def)
  then have apart: "\<forall>p \<in> set (vbind e # extra e). wire n p \<notin> set (vbind e # extra e)" unfolding vports_def .
  show ?thesis by (rule gather[OF ok E sc es b sp d apart])
qed

text \<open>Linking the binder's own port with the tree of fans.\<close>

lemma gathered_link:
  assumes g: "gathered n b es K d" and df: "differ {b} R K" and E: "\<not> in_parallel E" and b: "live n (node b)" "pno b = 1" "node b \<notin> node ` set es"
    and m: "m = net_link E b d False R"
  shows "adds K m {b, d}" "wire m = (wire K)(b := d, d := b)" "m = net_link E b d False K"
proof -
  have d: "open_port K d" "net_ok K" using g by (simp_all add: gathered_def severed_def)
  have ob: "open_port K b" using g b by (simp add: gathered_def severed_def open_port_def)
  have nd: "0 \<le> node d" "0 \<le> node b" "d \<noteq> NONE" using d(1) ob live_nonneg by (auto simp: open_port_def)
  have bd: "b \<noteq> d" using g b by (auto simp: gathered_def severed_def)
  have "differ ({b} - {b, d}) (net_link E b d False R) (net_link E b d False K)" using differ_link[OF df E, of b d False] nd by simp
  then show e: "m = net_link E b d False K" unfolding m by (intro differ_empty) simp
  have "endp K d" "False \<or> 0 < pno b \<or> 0 < pno d" using d(1) b(2) by (simp_all add: endp_def)
  from link_end[OF d(2) E ob this(1) bd this(2) e] show "adds K m {b, d}" "wire m = (wire K)(b := d, d := b)" using nd(3) by simp_all
qed

text \<open>What is over once a binder has gone: the terms before it have passed.\<close>

lemma pop_passed:
  assumes ad: "adds (cnet b) (cnet st) (unused (cstack b))" and so: "stack_ok (cnet st) (cstack st)" and g: "grown n (cstack b) (cstack st)"
    and n: "\<And>v. live (cnet b) v \<Longrightarrow> live n v"
    and u: "\<And>i. i < length (cstack b) \<Longrightarrow>
      uses (cstack b ! i) < uses (cstack st ! i) \<longleftrightarrow> (\<exists>x \<in> X. last_named x (cstack b) = Some i)"
  shows "passed b X st"
proof -
  have "grown (cnet b) (cstack b) (cstack st)" by (rule grown_trans[OF grown_refl g n])
  then show ?thesis using ad so u by (simp add: passed_def)
qed

lemma lam_end:
  assumes E: "\<not> in_parallel E" and ok: "net_ok n" and so: "stack_ok n (us @ [e])" and lv: "lv \<le> nlv (lvl n)"
    and vb: "vbind e = Port v 1" and o: "open_port n (Port v 0)" "open_port n (Port v 2)" "clear (us @ [e]) (Port v 2)"
    and q: "open_port n q" "usable (us @ [e]) q" "Port v 2 \<noteq> q" "Port v 0 \<noteq> q"
    and ad: "adds n0 n X" and n0: "\<not> live n0 v" "\<And>r. r \<in> set (extra e) \<Longrightarrow> \<not> live n0 (node r)"
      "live n0 (node q) \<Longrightarrow> q \<in> X" and ok0: "net_ok n0"
    and m: "m = lam_net E v lv q e n"
  shows "adds n0 m X" "stack_ok m us" "open_port m (Port v 0)"
proof -
  define n4 where "n4 = net_link E (Port v 2) q False n"
  have qN: "q \<noteq> NONE" using q(1) by (auto simp: open_port_def)
  have "endp n q" "False \<or> 0 < pno (Port v 2) \<or> 0 < pno q" using q(1) by (simp_all add: endp_def)
  note l = link_end[OF ok E o(2) this(1) q(3) this(2) n4_def]
  have w4: "wire n4 = (wire n)(Port v 2 := q, q := Port v 2)" using l(2) qN by simp
  have s4: "stack_ok n4 (us @ [e])" by (rule stack_link[OF so l(1) w4 o(3) q(2,3)])
  have o4: "open_port n4 (Port v 0)" using o(1) q(4) l(3) by (simp add: open_port_def w4)
  have a4: "adds n0 n4 X" by (rule adds_cut[OF adds_trans[OF ad l(1)]]) (use n0 in auto)
  have me: "m = (if 1 < uses e
         then case fans E lv (wire n4 (Port v 1)) (map (wire n4) (extra e)) (kills (extra e) n4) of (r, d) \<Rightarrow>
                net_link E (Port v 1) d False r
         else n4)" by (simp add: m lam_net_def n4_def Let_def)
  have "adds n0 m X \<and> stack_ok m us \<and> open_port m (Port v 0)"
  proof (cases "1 < uses e")
    case False
    then show ?thesis using a4 s4 o4 stack_front me by auto
  next
    case True
    note ok4 = addsD(1)[OF a4]
    have lv4: "lv \<le> nlv (lvl n4)" using lv l(5) by simp
    obtain R d K where f: "fans E lv (wire n4 (Port v 1)) (map (wire n4) (extra e)) (kills (extra e) n4) = (R, d)"
      and df: "differ {Port v 1} R K" and g: "gathered n4 (Port v 1) (extra e) K d"
      using gather_top[OF ok4 E lv4 s4 True] unfolding vb by blast
    have ves: "Port v 1 \<in> set (vports e)" using vb by (simp add: vports_def)
    have P: "live n4 (node p) \<and> pno p = 1" if "p \<in> set (Port v 1 # extra e)" for p
      by (rule stack_port[OF s4]) (use that in \<open>auto simp: vports_def vb\<close>)
    have vV: "node (Port v 1) \<notin> node ` set (extra e)" using s4 by (auto simp: stack_ok_def vports_def vb)
    have mR: "m = net_link E (Port v 1) d False R" using me True f by simp
    have p1: "live n4 (node (Port v 1))" "pno (Port v 1) = 1" using P[of "Port v 1"] by simp_all
    note gl = gathered_link[OF g df E p1 vV mR]
    have new: "\<not> live n0 (node p) \<and> live n4 (node p) \<and> pno p = 1" if "p \<in> set (Port v 1 # extra e)" for p
      using P[OF that] that n0 by auto
    have sv: "severed n4 (Port v 1) (extra e) K" using g by (simp add: gathered_def)
    note ga = severed_adds[OF a4 ok0 ok4 sv new]
    have dn: "\<not> live n0 (node d)" using g addsD(3)[OF a4] new by (auto simp: gathered_def)
    have "adds n0 m X" by (rule adds_cut[OF adds_trans[OF ga gl(1)]]) (use dn n0(1) in auto)
    moreover have "stack_ok m us"
    proof -
      have g': "gathered n4 (vbind e) (extra e) K d" using g by (simp add: vb)
      have gs: "stack_ok K us" "clear us d" using severed_stack[OF s4 ok4] gathered_clear[OF s4 g'] g' by (simp_all add: gathered_def)
      have "clear us (Port v 1)" by (rule clear_node[OF front_apart[OF s4 ves]])
      moreover have "usable us d" using gs(2) by (simp add: usable_def)
      moreover have "Port v 1 \<noteq> d" using g by (auto simp: gathered_def severed_def)
      ultimately show ?thesis by (rule stack_link[OF gs(1) gl(1,2)])
    qed
    moreover have "open_port m (Port v 0)"
    proof -
      have "open_port K (Port v 0)" by (rule severed_open[OF ok4 sv o4 _ _ P]) (use vV in simp_all)
      moreover have "Port v 0 \<noteq> d" using g vV p1 by (auto simp: gathered_def severed_def)
      ultimately show ?thesis using addsD(3)[OF gl(1)] by (simp add: open_port_def gl(2))
    qed
    ultimately show ?thesis by blast
  qed
  then show "adds n0 m X" "stack_ok m us" "open_port m (Port v 0)" by blast+
qed

lemma made_lam:
  assumes st: "sound st" and E: "\<not> in_parallel (nenv C)"
    and bd: "\<And>s p s'. sound s \<Longrightarrow> vname ` set (cstack s) = insert x (vname ` set (cstack st)) \<Longrightarrow>
      ct C (pos @ [0]) b s = (Inr p, s') \<Longrightarrow> made s b p s'"
    and r: "ct C pos (Lam x b) st = (Inr p, st')"
  shows "made st (Lam x b) p st'"
proof -
  let ?E = "nenv C" and ?l = "cur_lvl st" and ?vs = "cstack st"
  obtain n1 v n2 lv n3 l1 q sB sC where al: "net_alloc ?E LAM ?l (cnet st) = (n1, v)"
    and l1: "net_scope_app ?l 1 n1 = (n2, lv)" and l2: "net_scope_app ?l 1 n2 = (n3, l1)"
    and cb: "ct C (pos @ [0]) b (st\<lparr>cstack := ?vs @ [entry x v], cnet := n3, cur_lvl := l1\<rparr>) = (Inr q, sB)"
    and en: "ct_lam_end C v lv q (sB\<lparr>cur_lvl := ?l\<rparr>) = (Inr p, sC)" and st': "st' = sC\<lparr>aot_map := aot_map sC @ [(pos, p)]\<rparr>"
    using lam_steps[OF r] by blast
  define sA where "sA = st\<lparr>cstack := ?vs @ [entry x v], cnet := n3, cur_lvl := l1\<rparr>"
  note cb = cb[folded sA_def]
  have ok: "net_ok (cnet st)" "?l \<le> nlv (lvl (cnet st))" and so: "stack_ok (cnet st) ?vs" using st by (simp_all add: sound_def)
  note aa = adds_alloc[OF ok(1) E ok(2) al]
  note la = adds_level[OF addsD(1)[OF aa(1)] addsD(6)[OF aa(1) ok(2)] l1]
  note ab = adds_then[OF aa(1) la(1)]
  note lb = adds_level[OF addsD(1)[OF ab] addsD(6)[OF ab ok(2)] l2]
  note a3 = adds_then[OF ab lb(1)]
  have lv: "live n3 v" using aa(3) addsD(3)[OF la(1)] addsD(3)[OF lb(1)] by blast
  have w3: "wire n3 (Port v k) = NONE" if "k < 3" for k
    using aa(5)[OF that] addsD(5)[OF la(1)] addsD(5)[OF lb(1)] aa(3) addsD(3)[OF la(1)] by simp
  note A = binder_node[OF st a3 aa(2) lv w3 lb(2) sA_def]
  have mb: "made sA b q sB" by (rule bd[OF A(1) _ cb]) (auto simp: sA_def)
  have "cstack sA = ?vs @ [entry x v]" by (simp add: sA_def)
  note mp = made_pop[OF mb this]
  obtain us e where sB: "cstack sB = us @ [e]" "length us = length ?vs" "vbind e = Port v 1"
    and g: "grown (cnet sA) ?vs us"
    and u: "\<forall>i < length ?vs. uses (?vs ! i) < uses (us ! i) \<longleftrightarrow> (\<exists>y \<in> frees b - {x}. last_named y ?vs = Some i)"
    and ue: "0 < uses e \<longleftrightarrow> x \<in> frees b" and ex: "\<forall>r \<in> set (extra e). \<not> live (cnet sA) (node r)" by (rule mp)
  note c = madeD[OF mb]
  have sBo: "stack_ok (cnet sB) (us @ [e])" using c(2) by (simp add: sB)
  have eq: "p = Port v 0" "sC = sB\<lparr>cur_lvl := ?l, cnet := lam_net ?E v lv q e (cnet sB), cstack := us\<rparr>"
    using en ct_lam_end_eq[of "sB\<lparr>cur_lvl := ?l\<rparr>" C v lv q] stack_tidy[OF sBo] by (simp_all add: sB)
  note oB = own_passed[OF A(2) made_passed[OF mb]]
  have hq: "in_hand sA sB q" by (rule made_in_hand[OF mb])
  note no = own_other[OF A(2) hq]
  have up: "live (cnet st) w \<Longrightarrow> live (cnet sA) w" for w using addsD(3)[OF a3] by (simp add: sA_def)
  have uA: "unused (cstack sA) = insert (Port v 1) (unused ?vs)" by (simp add: sA_def)
  have adB: "adds (cnet st) (cnet sB) (unused ?vs)"
  proof (rule adds_cut)
    show "adds (cnet st) (cnet sB) ({} \<union> unused (cstack sA))" using adds_trans[OF a3] c(1) by (simp add: sA_def)
  qed (use uA aa(2) in auto)
  have gu: "unused us \<subseteq> unused ?vs" by (rule grown_unused[OF g])
  have sA: "cstack sA = ?vs @ [entry x v]" "cnet sA = n3" by (simp_all add: sA_def)
  have lvB: "lv \<le> nlv (lvl (cnet sB))" using addsD(6)[OF c(1)] addsD(6)[OF lb(1) la(2)] by (simp add: sA)
  have qB: "open_port (cnet sB) q" "usable (us @ [e]) q" using hq by (simp_all add: in_hand_def sB)
  have oo: "open_port (cnet sB) (Port v 0)" "open_port (cnet sB) (Port v 2)" "clear (us @ [e]) (Port v 2)" "clear (us @ [e]) (Port v 0)"
    using oB[of 0] oB[of 2] by (simp_all add: own_def sB)
  have qst: "q \<in> unused ?vs" if "live (cnet st) (node q)"
    using c(7) up[OF that] uA that aa(2) by auto
  have new: "\<not> live (cnet st) (node r)" if "r \<in> set (extra e)" for r using ex that up by blast
  have q2: "Port v 2 \<noteq> q" "Port v 0 \<noteq> q" using no by simp_all
  note le = lam_end[OF E addsD(1)[OF c(1)] sBo lvB sB(3) oo(1,2,3) qB q2 adB aa(2) new qst ok(1) refl]
  have f: "cnet st' = lam_net ?E v lv q e (cnet sB)" "cstack st' = us" "cur_lvl st' = ?l" by (simp_all add: st' eq)
  have "passed st (frees (Lam x b)) st'"
    by (rule pop_passed[of _ _ "cnet sA"]) (use le g up u in \<open>simp_all add: f\<close>)
  moreover have "own st' p" using le(3) clear_front[OF oo(4)] by (simp add: own_def f eq)
  ultimately show ?thesis using aa(2) by (intro madeI) (simp_all add: f eq)
qed

section \<open>Lets\<close>

lemma kill_differ: "differ {Port v 1} n m \<Longrightarrow> kill v n = kill v m"
proof -
  assume "differ {Port v 1} n m"
  then obtain w where n: "n = m\<lparr>wire := w\<rparr>" and w: "\<And>q. q \<noteq> Port v 1 \<Longrightarrow> w q = wire m q" unfolding differ_def by blast
  have "w(Port v 1 := NONE) = (wire m)(Port v 1 := NONE)" by (rule ext) (simp add: w)
  then show ?thesis by (simp add: n kill_def)
qed

lemma kill_end:
  assumes ok: "net_ok m" and l: "live m ph" and w: "\<And>k. k < 3 \<Longrightarrow> wire m (Port ph k) = NONE"
    and ad: "adds n0 m X" and n0: "\<not> live n0 ph" and so: "stack_ok m us" and ph: "ph \<notin> node ` set (allv us)"
  shows "adds n0 (kill ph m) X" "stack_ok (kill ph m) us" "open_port m q \<Longrightarrow> node q \<noteq> ph \<Longrightarrow> open_port (kill ph m) q"
proof -
  note k = kill_ok[OF ok l w]
  show "adds n0 (kill ph m) X" unfolding adds_def
  proof (intro conjI allI impI)
    show "net_ok (kill ph m)" by (rule k(1))
    show "all_queued (kill ph m) P" if "all_queued n0 P" for P using k(2) addsD(2)[OF ad that] by blast
    show "live (kill ph m) v" "tag (kill ph m) v = tag n0 v" if "live n0 v" for v
      using addsD(3,4)[OF ad that] that n0 by (auto simp: k(3,5))
    show "wire (kill ph m) q = wire n0 q" if "live n0 (node q) \<and> q \<notin> X" for q using addsD(5)[OF ad] that by (simp add: k(4))
    show "nlv (lvl n0) \<le> nlv (lvl (kill ph m))" using addsD(6)[OF ad, of "nlv (lvl n0)"] by (simp add: k(6))
  qed
  show "stack_ok (kill ph m) us"
    by (rule stack_keep[OF so]) (use stack_port[OF so] ph in \<open>auto simp: k(3,4)\<close>)
  show "open_port m q \<Longrightarrow> node q \<noteq> ph \<Longrightarrow> open_port (kill ph m) q" by (simp add: open_port_def k(3,4))
qed

text \<open>The uses of a let, severed or gathered at \<open>a\<close>, meet its value.\<close>

lemma let_join:
  assumes E: "\<not> in_parallel E" and ok: "net_ok K" and so: "stack_ok K us" and ad: "adds n0 K X"
    and a: "open_port K a" "clear us a" "live n0 (node a) \<Longrightarrow> a \<in> X" "node a \<noteq> ph"
    and val: "open_port K val" "usable us val" "live n0 (node val) \<Longrightarrow> val \<in> X" "node val \<noteq> ph" "a \<noteq> val"
    and ph: "live K ph" "\<And>k. k < 3 \<Longrightarrow> wire K (Port ph k) = NONE" "\<not> live n0 ph" "ph \<notin> node ` set (allv us)"
    and q: "open_port K q" "node q \<noteq> ph" "q \<noteq> a" "q \<noteq> val"
    and m: "m = kill ph (net_link E a val True K)"
  shows "adds n0 m X" "stack_ok m us" "open_port m q"
proof -
  let ?M = "net_link E a val True K"
  have vN: "val \<noteq> NONE" "endp K val" using val(1) by (auto simp: open_port_def endp_def)
  note l = link_end[OF ok E a(1) vN(2) val(5) disjI1[OF TrueI] refl[of ?M]]
  have w: "wire ?M = (wire K)(a := val, val := a)" using l(2) vN by simp
  have so': "stack_ok ?M us" by (rule stack_link[OF so l(1) w a(2) val(2,5)])
  have ad': "adds n0 ?M X" by (rule adds_cut[OF adds_trans[OF ad l(1)]]) (use a(3) val(3) in auto)
  have wph: "wire ?M (Port ph k) = NONE" if "k < 3" for k using ph(2)[OF that] a(4) val(4) by (auto simp: w)
  have "live ?M ph" using ph(1) l(3) by simp
  note k = kill_end[OF addsD(1)[OF l(1)] this wph ad' ph(3) so' ph(4)]
  show "adds n0 m X" "stack_ok m us" using k m by simp_all
  have "open_port ?M q" using q l(3) by (simp add: open_port_def w)
  then show "open_port m q" using k(3) q(2) m by simp
qed

lemma scope_app_kills:
  assumes "net_scope_app l br n = (n', lv)"
  shows "net_scope_app l br (kills es n) = (kills es n', lv)" "wire n' = wire n"
  using assms by (auto simp: net_scope_app_def kills_eq split: prod.splits cong: if_cong)

lemma usable_front: "usable (us @ [e]) p \<Longrightarrow> p \<notin> set (vports e) \<Longrightarrow> usable us p"
  by (auto simp: usable_def clear_def)

text \<open>Where the body's port is: the placeholder as the only use, or clear of every name.\<close>

lemma body_port:
  assumes m: "made sA b q sB" and s: "cstack sA = vs @ [entry x v]" and t: "cstack sB = us @ [e]" "length us = length vs"
    and u: "0 < uses e" and vb: "vbind e = Port v 1"
  shows "q = Port v 1 \<and> uses e = 1 \<and> (\<forall>j < length vs. uses (us ! j) = uses (vs ! j)) \<or>
    clear (us @ [e]) q \<and> \<not> live (cnet sA) (node q)"
proof (cases "q \<in> set (allv (us @ [e]))")
  case True
  note c = madeD[OF m, unfolded s t]
  obtain f where "f \<in> set (us @ [e])" "q \<in> set (vports f)" using True unfolding set_allv by blast
  then obtain i where i: "i < length (us @ [e])" "q \<in> set (vports ((us @ [e]) ! i))" unfolding in_set_conv_nth by blast
  have len: "length (us @ [e]) = length (vs @ [entry x v])" using t by simp
  have k: "uses ((us @ [e]) ! j) = uses ((vs @ [entry x v]) ! j) + (if j = i then 1 else 0)" if "j < length (vs @ [entry x v])" for j
    using c(9) i that len unfolding lone_use_def by auto
  have top: "(us @ [e]) ! length vs = e" "(vs @ [entry x v]) ! length vs = entry x v" using t by (simp_all add: nth_append)
  have at: "(us @ [e]) ! j = us ! j" "(vs @ [entry x v]) ! j = vs ! j" if "j < length vs" for j
    using that t by (simp_all add: nth_append)
  have ue: "uses e = (if length vs = i then 1 else 0)" using k[of "length vs"] by (simp add: top)
  then have il: "i = length vs" using u by (auto split: if_splits)
  have "uses (us ! j) = uses (vs ! j)" if "j < length vs" for j using k[of j] that il at[OF that] by simp
  moreover have "extra e = []" using c(2) ue il by (auto simp: stack_ok_def entry_ok_def)
  ultimately show ?thesis using i(2) ue il top vb by (simp add: vports_def)
next
  case False
  note c = madeD[OF m, unfolded s t]
  have "clear (us @ [e]) q" using c(8) False by (simp add: usable_def)
  moreover have "q \<notin> unused (vs @ [entry x v])" using False grown_allv[OF c(4)] unused_allv by blast
  ultimately show ?thesis using c(7) by blast
qed

text \<open>The ports of a cleared port's node are none of the placeholders.\<close>

lemma clear_extra:
  assumes "stack_ok n (us @ [e])" "clear (us @ [e]) q" "pno q < 3"
  shows "node q \<notin> node ` set (extra e)"
proof
  assume "node q \<in> node ` set (extra e)"
  then obtain r where r: "r \<in> set (extra e)" "node q = node r" by auto
  have "r \<in> set (allv (us @ [e]))" using r(1) by (simp add: vports_def)
  then have "r = Port (node q) 1" "q \<noteq> r" using stack_port[OF assms(1)] assms(2) r(2) by (auto simp: clear_def intro: port_eqI)
  moreover have "q \<noteq> Port (node q) 0" "q \<noteq> Port (node q) 2" using assms(2) r by (auto simp: clear_def)
  moreover have "pno q = 0 \<or> pno q = 1 \<or> pno q = 2" using assms(3) by auto
  ultimately show False by (metis port.collapse)
qed

text \<open>The placeholder, cut from its only use.\<close>

lemma snip_severed:
  assumes ok: "net_ok n" and p: "live n (node p)" "pno p = 1"
  shows "severed n p [] (snip p n)"
proof -
  have s: "standing n {} p" "0 < pno p" using p by (auto simp: standing_def)
  note k = snip_ok[OF ok s]
  show ?thesis using k by (auto simp: severed_def snip_wire)
qed

lemma snip_link:
  assumes E: "\<not> in_parallel E" and w: "wire n (Port ph 1) = a" "0 \<le> node a" "0 \<le> node val"
  shows "kill ph (net_link E a val True n) = kill ph (net_link E a val True (snip (Port ph 1) n))"
proof -
  let ?k = "snip (Port ph 1) n"
  have "n = ?k\<lparr>wire := wire n\<rparr>" by (simp add: snip_def)
  then have "differ {Port ph 1, a} n ?k" unfolding differ_def using w(1) by (intro exI[of _ "wire n"]) (auto simp: snip_wire)
  from differ_link[OF this E, of a val True] w(2,3)
  have "differ ({Port ph 1, a} - {a, val}) (net_link E a val True n) (net_link E a val True ?k)" by simp
  then have "differ {Port ph 1} (net_link E a val True n) (net_link E a val True ?k)" by (rule differ_mono) auto
  then show ?thesis by (rule kill_differ)
qed

lemma severed_adds_top:
  assumes ad: "adds n0 n X" and ok: "net_ok n0" "net_ok n" and so: "stack_ok n (us @ [e])"
    and new: "\<And>p. p \<in> set (vports e) \<Longrightarrow> \<not> live n0 (node p)" and sv: "severed n (vbind e) (extra e) K"
  shows "adds n0 K X" "stack_ok K us"
proof -
  have "\<not> live n0 (node p) \<and> live n (node p) \<and> pno p = 1" if "p \<in> set (vbind e # extra e)" for p
  proof -
    have "p \<in> set (vports e)" using that by (simp add: vports_def)
    then show ?thesis using new stack_port[OF so, of p] by simp
  qed
  from severed_adds[OF ad ok sv this] show "adds n0 K X" .
  show "stack_ok K us" by (rule severed_stack[OF so ok(2) sv])
qed

lemma let_end_one:
  assumes E: "\<not> in_parallel E" and ok0: "net_ok n0" and ok: "net_ok n" and so: "stack_ok n (us @ [e])" and u: "uses e = 1"
    and vb: "vbind e = Port ph 1" and ad: "adds n0 n X"
    and ph: "live n ph" "\<not> live n0 ph" "wire n (Port ph 0) = NONE" "wire n (Port ph 2) = NONE"
    and val: "open_port n val" "usable us val" "live n0 (node val) \<Longrightarrow> val \<in> X" "node val \<noteq> ph"
    and q: "open_port n q" "q = Port ph 1 \<or> q \<noteq> val \<and> node q \<noteq> ph"
    and m: "m = let_net E l ph val q e n"
  shows "adds n0 m X" "stack_ok m us" "open_port m (if q = Port ph 1 then val else q)"
proof -
  let ?w = "wire n (Port ph 1)"
  have ex: "extra e = []" using so u by (auto simp: stack_ok_def entry_ok_def)
  have V: "Port ph 1 \<in> set (vports e)" using vb by (simp add: vports_def)
  have pu: "ph \<notin> node ` set (allv us)" using front_apart[OF so V] by simp
  have three: "k = 0 \<or> k = 1 \<or> k = 2" if "k < 3" for k :: nat using that by auto
  have "adds n0 m X \<and> stack_ok m us \<and> open_port m (if q = Port ph 1 then val else q)"
  proof (cases "?w = NONE")
    case True
    then have "m = kill ph n" using m u by (simp add: let_net_def)
    moreover have wp: "wire n (Port ph k) = NONE" if "k < 3" for k using three[OF that] ph(3,4) True by auto
    note kill_end[OF ok ph(1) wp ad ph(2) stack_front[OF so] pu]
    ultimately show ?thesis using val(1,4) q by auto
  next
    case False
    let ?K = "snip (Port ph 1) n"
    have p3: "live n (node (Port ph 1))" "pno (Port ph 1) < 3" using ph(1) by simp_all
    note w = partner[OF ok p3 False]
    have wN: "0 \<le> node ?w" using w(1) by (rule live_nonneg)
    have wv: "?w \<noteq> val" "?w \<noteq> q" using w(3) val(1) q(1) by (auto simp: open_port_def)
    have q': "q \<noteq> Port ph 1" using q(1) False by (auto simp: open_port_def)
    have V3: "Port ph 1 \<in> set (allv (us @ [e]))" using V by simp
    have wa: "?w \<notin> set (allv (us @ [e]))" using so V3 unfolding stack_ok_def by blast
    have wk: "?w \<noteq> Port ph k" if "k < 3" for k
      using three[OF that] wa V3 w(3) ph(3,4) by auto
    then have wph: "node ?w \<noteq> ph" using w(2) by (metis port.collapse)
    have clr: "clear us ?w"
    proof -
      have "?w \<noteq> Port (node r) 0 \<and> ?w \<noteq> Port (node r) 2" if "f \<in> set us" "r \<in> set (extra f)" for f r
      proof -
        have "spot n r" using so that by (auto simp: stack_ok_def entry_ok_def)
        then show ?thesis using w(3) by (auto simp: spot_def)
      qed
      then show ?thesis using wa by (auto simp: clear_def)
    qed
    have p1: "live n (node (Port ph 1))" "pno (Port ph 1) = 1" using ph(1) by simp_all
    have sv: "severed n (Port ph 1) [] ?K" by (rule snip_severed[OF ok p1])
    have new: "\<not> live n0 (node p)" if "p \<in> set (vports e)" for p using that ph(2) ex vb by (simp add: vports_def)
    have "severed n (vbind e) (extra e) ?K" using sv vb ex by simp
    note K = severed_adds_top[OF ad ok0 ok so new this]
    have okK: "net_ok ?K" using sv by (simp add: severed_def)
    have opn: "open_port ?K r" if "open_port n r" for r using that by (auto simp: open_port_def snip_wire)
    have wo: "open_port ?K ?w" using w False by (simp add: open_port_def snip_wire)
    have wX: "?w \<in> X" if l: "live n0 (node ?w)"
    proof (rule ccontr)
      assume "?w \<notin> X"
      then have "wire n0 ?w = Port ph 1" using addsD(5)[OF ad l] w(3) by simp
      moreover have "Port ph 1 \<noteq> NONE" using live_nonneg[OF ph(1)] by auto
      ultimately have "live n0 ph" using partner(1)[OF ok0 l w(2)] by simp
      then show False using ph(2) by simp
    qed
    have wp: "wire ?K (Port ph k) = NONE" if "k < 3" for k using three[OF that] ph(3,4) by (auto simp: snip_wire)
    have nv: "0 \<le> node val" using val(1) live_nonneg[of n "node val"] by (simp add: open_port_def)
    have "m = kill ph (net_link E ?w val True n)" using m u q' wN wv(1) by (simp add: let_net_def)
    then have mk: "m = kill ph (net_link E ?w val True ?K)" using snip_link[OF E refl wN nv] by simp
    have lk: "live ?K ph" using ph(1) by simp
    have qq: "node q \<noteq> ph" "q \<noteq> ?w" "q \<noteq> val" using q(2) q' wv(2) by auto
    note j = let_join[OF E okK K(2,1) wo clr wX wph opn[OF val(1)] val(2,3,4) wv(1) lk wp ph(2) pu opn[OF q(1)] qq mk]
    show ?thesis using j q' by simp
  qed
  then show "adds n0 m X" "stack_ok m us" "open_port m (if q = Port ph 1 then val else q)" by blast+
qed

lemma let_end_many:
  assumes E: "\<not> in_parallel E" and ok0: "net_ok n0" and ok: "net_ok n" and so: "stack_ok n (us @ [e])" and u: "1 < uses e"
    and l: "l \<le> nlv (lvl n)" and vb: "vbind e = Port ph 1" and ad: "adds n0 n X"
    and ph: "live n ph" "\<not> live n0 ph" "wire n (Port ph 0) = NONE" "wire n (Port ph 2) = NONE"
    and ex: "\<And>r. r \<in> set (extra e) \<Longrightarrow> \<not> live n0 (node r)"
    and val: "open_port n val" "usable us val" "live n0 (node val) \<Longrightarrow> val \<in> X" "node val \<noteq> ph" "node val \<notin> node ` set (extra e)"
    and q: "open_port n q" "clear (us @ [e]) q" "q \<noteq> val" "node q \<noteq> ph"
    and m: "m = let_net E l ph val q e n"
  shows "adds n0 m X" "stack_ok m us" "open_port m q"
proof -
  have V: "Port ph 1 \<in> set (vports e)" using vb by (simp add: vports_def)
  have pu: "ph \<notin> node ` set (allv us)" using front_apart[OF so V] by simp
  have three: "k = 0 \<or> k = 1 \<or> k = 2" if "k < 3" for k :: nat using that by auto
  obtain n' lv where sc: "net_scope_app l 2 n = (n', lv)" by fastforce
  note a = adds_level[OF ok l sc]
  note w' = scope_app_kills(2)[OF sc]
  have ok': "net_ok n'" by (rule addsD(1)[OF a(1)])
  have so': "stack_ok n' (us @ [e])" by (rule stack_adds[OF so a(1)]) simp
  have adn: "adds n0 n' X" by (rule adds_cut[OF adds_trans[OF ad a(1)]]) auto
  have opn': "open_port n' r" if "open_port n r" for r using that addsD(3)[OF a(1)] by (simp add: open_port_def w')
  have ph': "live n' ph" using ph(1) addsD(3)[OF a(1)] by blast
  obtain R d K where f: "fans E lv (wire n' (Port ph 1)) (map (wire n') (extra e)) (kills (extra e) n') = (R, d)"
    and df: "differ {Port ph 1} R K" and g: "gathered n' (Port ph 1) (extra e) K d"
    using gather_top[OF ok' E a(2) so' u] unfolding vb by blast
  have sv: "severed n' (Port ph 1) (extra e) K" and d: "open_port K d" "live n' (node d) \<Longrightarrow> node d \<in> node ` set (extra e)"
    and okK: "net_ok K" using g by (simp_all add: gathered_def severed_def)
  have new: "\<not> live n0 (node p)" if "p \<in> set (vports e)" for p using that ph(2) ex vb by (auto simp: vports_def)
  have "severed n' (vbind e) (extra e) K" using sv vb by simp
  note K = severed_adds_top[OF adn ok0 ok' so' new this]
  have P: "live n' (node p) \<and> pno p = 1" if "p \<in> set (Port ph 1 # extra e)" for p
    by (rule stack_port[OF so']) (use that in \<open>auto simp: vports_def vb\<close>)
  have phe: "ph \<notin> node ` set (extra e)" using so by (auto simp: stack_ok_def vports_def vb)
  have opn: "open_port K r" if "open_port n r" "node r \<notin> node ` set (extra e)" "r \<noteq> Port ph 1" for r
    by (rule severed_open[OF ok' sv opn'[OF that(1)] that(2,3) P])
  have off: "node d \<noteq> node r" if "live n (node r)" "node r \<notin> node ` set (extra e)" for r
    using d(2) addsD(3)[OF a(1) that(1)] that(2) by auto
  have dph: "node d \<noteq> ph" using off[of "Port ph 1"] ph(1) phe by simp
  have lv: "live n (node val)" "live n (node q)" using val(1) q(1) by (simp_all add: open_port_def)
  have dv: "d \<noteq> val" using off[OF lv(1) val(5)] by auto
  have qe: "node q \<notin> node ` set (extra e)" by (rule clear_extra[OF so q(2)]) (use q(1) in \<open>simp add: open_port_def\<close>)
  have dX: "d \<in> X" if "live n0 (node d)" using d(2) addsD(3)[OF adn that] ex that by auto
  have wp: "wire K (Port ph k) = NONE" if "k < 3" for k
  proof -
    have o2: "open_port n (Port ph 0)" "open_port n (Port ph 2)" using ph by (simp_all add: open_port_def)
    have "open_port K (Port ph 0)" "open_port K (Port ph 2)" using opn[OF o2(1)] opn[OF o2(2)] phe by simp_all
    moreover have "wire K (Port ph 1) = NONE" using sv by (simp add: severed_def)
    ultimately show ?thesis using three[OF that] by (auto simp: open_port_def)
  qed
  have Kph: "live K ph" using sv ph' phe by (simp add: severed_def)
  have gc: "clear us d" using gathered_clear[OF so'] g vb by simp
  have ne: "val \<noteq> Port ph 1" "q \<noteq> Port ph 1" "q \<noteq> d" using val(4) q(4) off[OF lv(2) qe] by auto
  have "m = kill ph (net_link E d val True R)"
    using m u f[unfolded w'] by (simp add: let_net_def scope_app_kills(1)[OF sc])
  moreover have "differ {Port ph 1} (net_link E d val True R) (net_link E d val True K)"
    by (rule differ_mono[OF differ_link[OF df E]]) auto
  ultimately have mk: "m = kill ph (net_link E d val True K)" using kill_differ by simp
  note j = let_join[OF E okK K(2,1) d(1) gc dX dph opn[OF val(1,5) ne(1)] val(2,3,4) dv Kph wp ph(2) pu opn[OF q(1) qe ne(2)] q(4) ne(3) q(3) mk]
  then show "adds n0 m X" "stack_ok m us" "open_port m q" by blast+
qed

lemma let_body:
  assumes E: "\<not> in_parallel (nenv C)" and st: "sound st" and xb: "x \<in> frees b"
    and s0: "cstack s0 = vs @ [entry x ph]" and ad: "adds (cnet st) (cnet s0) (unused (cstack st))"
    and so: "stack_ok (cnet s0) (vs @ [entry x ph])" and g: "grown (cnet st) (cstack st) vs"
    and u: "\<And>i. i < length (cstack st) \<Longrightarrow>
      uses (cstack st ! i) < uses (vs ! i) \<longleftrightarrow> (\<exists>y \<in> frees v - {x}. last_named y (cstack st) = Some i)"
    and ph: "live (cnet s0) ph" "\<not> live (cnet st) ph" "own s0 (Port ph 0)" "own s0 (Port ph 2)"
    and val: "in_hand st s0 val" "node val \<noteq> ph" "lone_use (cstack st) vs val"
    and bd: "\<And>s p s'. sound s \<Longrightarrow> vname ` set (cstack s) = insert x (vname ` set (cstack st)) \<Longrightarrow>
      ct C (pos @ [1]) b s = (Inr p, s') \<Longrightarrow> made s b p s'"
    and r1: "net_scope_app (cur_lvl st) 1 (cnet s0) = (n3, l1)" and r2: "ct C (pos @ [1]) b (s0\<lparr>cnet := n3, cur_lvl := l1\<rparr>) = (Inr q, sB)"
    and r3: "ct_let_end C ph val q (sB\<lparr>cur_lvl := cur_lvl st\<rparr>) = (Inr p, sE)" and r4: "st' = sE\<lparr>aot_map := aot_map sE @ [(pos, p)]\<rparr>"
  shows "made st (Let x v b) p st'"
proof -
  let ?E = "nenv C" and ?l = "cur_lvl st" and ?vs = "cstack st"
  have ok: "net_ok (cnet st)" "?l \<le> nlv (lvl (cnet st))" using st by (simp_all add: sound_def)
  define sA where "sA = s0\<lparr>cnet := n3, cur_lvl := l1\<rparr>"
  have sA: "cstack sA = vs @ [entry x ph]" "cnet sA = n3" "cur_lvl sA = l1" using s0 by (simp_all add: sA_def)
  note a1 = adds_level[OF addsD(1)[OF ad] addsD(6)[OF ad ok(2)] r1]
  have a1': "adds (cnet s0) (cnet sA) {}" using a1(1) by (simp add: sA)
  have "stack_ok n3 (vs @ [entry x ph])" by (rule stack_adds[OF so a1(1)]) simp
  then have sd: "sound sA" using a1(2) addsD(1)[OF a1(1)] by (simp add: sound_def sA)
  have len: "length vs = length ?vs" using g by (simp add: grown_def)
  have "map vname vs = map vname ?vs" by (rule grown_names[OF g])
  then have nm: "vname ` set vs = vname ` set ?vs" by (metis list.set_map)
  have mb: "made sA b q sB" by (rule bd[OF sd _ r2[folded sA_def]]) (simp add: sA nm)
  obtain us e where sB: "cstack sB = us @ [e]" "length us = length vs" "vbind e = Port ph 1"
    and gu: "grown (cnet sA) vs us"
    and uu: "\<forall>i < length vs. uses (vs ! i) < uses (us ! i) \<longleftrightarrow> (\<exists>y \<in> frees b - {x}. last_named y vs = Some i)"
    and ue: "0 < uses e \<longleftrightarrow> x \<in> frees b" and ex: "\<forall>r \<in> set (extra e). \<not> live (cnet sA) (node r)"
    by (rule made_pop[OF mb sA(1)])
  have ue: "0 < uses e" using ue xb by simp
  note c = madeD[OF mb]
  have pm: "passed sA (frees b) sB" by (rule made_passed[OF mb])
  have sBo: "stack_ok (cnet sB) (us @ [e])" using c(2) by (simp add: sB)
  have oA: "own sA (Port ph 0)" "own sA (Port ph 2)"
    using own_net[OF ph(3) a1'] own_net[OF ph(4) a1'] by (simp_all add: sA s0)
  have oB: "open_port (cnet sB) (Port ph 0)" "open_port (cnet sB) (Port ph 2)"
    using own_passed[OF oA(1) pm] own_passed[OF oA(2) pm] by (simp_all add: own_def)
  have up: "live (cnet st) w \<Longrightarrow> live (cnet s0) w" "live (cnet s0) w \<Longrightarrow> live (cnet sA) w" for w
    using addsD(3)[OF ad] addsD(3)[OF a1'] by blast+
  have hA: "in_hand st sA val"
    using val(1) addsD(3,5)[OF a1'] by (simp add: in_hand_def open_port_def sA(1) s0)
  have hB: "in_hand st sB val" by (rule keep_in_hand[OF hA pm])
  have lvA: "live (cnet sA) (node val)" using hA by (simp add: in_hand_def open_port_def)
  have ve: "node val \<notin> node ` set (extra e)" using ex lvA by auto
  have "val \<notin> set (vports e)" using ve val(2) by (auto simp: vports_def sB(3))
  then have vus: "usable us val" using hB usable_front by (auto simp: in_hand_def sB)
  have vop: "open_port (cnet sB) val" and vX: "live (cnet st) (node val) \<Longrightarrow> val \<in> unused ?vs" using hB by (simp_all add: in_hand_def)
  have gall: "grown (cnet st) ?vs us" by (rule grown_trans[OF g gu]) (use up in blast)
  have adB: "adds (cnet st) (cnet sB) (unused ?vs)"
  proof (rule adds_cut)
    show "adds (cnet st) (cnet sB) (unused ?vs \<union> {} \<union> unused (cstack sA))"
      by (rule adds_trans[OF adds_trans[OF ad a1'] c(1)])
  qed (use ph(2) grown_unused[OF g] in \<open>auto simp: sA\<close>)
  have new: "\<not> live (cnet st) (node r)" if "r \<in> set (extra e)" for r using ex that up by blast
  have lph: "live (cnet sB) ph" using addsD(3)[OF c(1)] up(2)[OF ph(1)] by blast
  have wph: "wire (cnet sB) (Port ph 0) = NONE" "wire (cnet sB) (Port ph 2) = NONE" using oB by (simp_all add: open_port_def)
  have bp: "q = Port ph 1 \<and> uses e = 1 \<and> (\<forall>j < length vs. uses (us ! j) = uses (vs ! j)) \<or>
    clear (us @ [e]) q \<and> \<not> live (cnet sA) (node q)" by (rule body_port[OF mb sA(1) sB(1,2) ue sB(3)])
  have clr: "q \<noteq> Port ph 1 \<Longrightarrow> clear (us @ [e]) q \<and> q \<noteq> val \<and> node q \<noteq> ph \<and> \<not> live (cnet st) (node q)"
    using bp lvA up ph(1) by auto
  define m where "m = let_net ?E ?l ph val q e (cnet sB)"
  have okB: "net_ok (cnet sB)" by (rule addsD(1)[OF c(1)])
  have lB: "?l \<le> nlv (lvl (cnet sB))" by (rule addsD(6)[OF adB ok(2)])
  have M: "adds (cnet st) m (unused ?vs) \<and> stack_ok m us \<and> open_port m (if uses e = 1 \<and> q = Port ph 1 then val else q)"
  proof (cases "uses e = 1")
    case True
    have "q = Port ph 1 \<or> q \<noteq> val \<and> node q \<noteq> ph" using clr by blast
    from let_end_one[OF E ok(1) okB sBo True sB(3) adB lph ph(2) wph vop vus vX val(2) c(6) this m_def] True
    show ?thesis by simp
  next
    case False
    then have u2: "1 < uses e" using ue by linarith
    have "q \<noteq> Port ph 1" using bp False ph(1) up(2) by auto
    then have "clear (us @ [e]) q" "q \<noteq> val" "node q \<noteq> ph" using clr by blast+
    from let_end_many[OF E ok(1) okB sBo u2 lB sB(3) adB lph ph(2) wph new vop vus vX val(2) ve c(6) this m_def] False
    show ?thesis by simp
  qed
  have eq: "p = (if uses e = 1 \<and> q = Port ph 1 then val else q)" "cnet st' = m" "cstack st' = us" "cur_lvl st' = ?l"
    using r3 ct_let_end_eq[of "sB\<lparr>cur_lvl := ?l\<rparr>" C ph val q] stack_tidy[OF sBo] by (auto simp: sB r4 m_def)
  have ln: "last_named y vs = last_named y ?vs" for y by (rule last_named_cong[OF grown_names[OF g]])
  have us: "uses (?vs ! i) < uses (us ! i) \<longleftrightarrow> (\<exists>y \<in> frees (Let x v b). last_named y ?vs = Some i)" if i: "i < length ?vs" for i
  proof -
    have j: "i < length vs" using i len by simp
    have "uses (vs ! i) < uses (us ! i) \<longleftrightarrow> (\<exists>y \<in> frees b - {x}. last_named y ?vs = Some i)" using uu j ln by simp
    moreover have "uses (?vs ! i) \<le> uses (vs ! i)" "uses (vs ! i) \<le> uses (us ! i)"
      using grownD(4)[OF g i] grownD(4)[OF gu j] by simp_all
    moreover note u[OF i]
    ultimately have "uses (?vs ! i) < uses (us ! i) \<longleftrightarrow>
        (\<exists>y \<in> frees v - {x}. last_named y ?vs = Some i) \<or> (\<exists>y \<in> frees b - {x}. last_named y ?vs = Some i)" by linarith
    then show ?thesis by auto
  qed
  have pa: "passed st (frees (Let x v b)) st'"
    by (rule pop_passed[of _ _ "cnet st"]) (use M gall us in \<open>simp_all add: eq\<close>)
  show ?thesis
  proof (cases "uses e = 1 \<and> q = Port ph 1")
    case False
    then have "q \<noteq> Port ph 1" using bp ph(1) up(2) by auto
    then have "own st' q" "\<not> live (cnet st) (node q)" using M False clr clear_front by (auto simp: own_def eq)
    moreover have "p = q" using False eq(1) by metis
    ultimately show ?thesis using madeI[OF pa eq(4)] by blast
  next
    case True
    have same: "uses (us ! j) = uses (vs ! j)" if "j < length vs" for j
      using bp True that ph(1) up(2) by auto
    have "lone_use ?vs us val" unfolding lone_use_def
    proof (intro allI impI)
      fix i j assume i: "i < length ?vs" "val \<in> set (vports (us ! i))" and j: "j < length ?vs"
      have iv: "i < length vs" using i len by simp
      note h = grownD[OF gu iv]
      have "val \<in> set (vports (vs ! i))" using i(2) h(3,6) lvA by (auto simp: vports_def)
      then have "uses (vs ! j) = uses (?vs ! j) + (if j = i then 1 else 0)" using val(3) i(1) j unfolding lone_use_def by blast
      then show "uses (us ! j) = uses (?vs ! j) + (if j = i then 1 else 0)" using same j len by simp
    qed
    moreover have "open_port m val" "p = val" using M True by (simp_all add: eq)
    ultimately show ?thesis using pa vX vus by (auto simp: made_def passed_def same_uses_def eq)
  qed
qed

lemma let_eqs:
  assumes x: "x \<notin> vname ` set (cstack st)"
  shows "x \<notin> frees v \<Longrightarrow> ct C pos (Let x v b) st =
      pbind fan_lvl (\<lambda>save. pbind (c_alloc C ERA 0) (\<lambda>ph. pthen (push_var x (Port ph 1))
        (pthen (deeper save 2) (pbind (ct C (pos @ [0]) v) (\<lambda>val.
           pthen (deeper save 1) (pbind (ct C (pos @ [1]) b) (\<lambda>body. pthen (set_lvl save)
             (pbind (ct_let_end C ph val body) (record_port pos))))))))) st"
    "x \<in> frees v \<Longrightarrow> ct C pos (Let x v b) st =
      pbind fan_lvl (\<lambda>save. pthen (deeper save 2) (pbind (ct C (pos @ [2]) (term_fix x v)) (\<lambda>val.
        pbind (c_alloc C ERA 0) (\<lambda>ph. pthen (push_var x (Port ph 1))
           (pthen (deeper save 1) (pbind (ct C (pos @ [1]) b) (\<lambda>body. pthen (set_lvl save)
             (pbind (ct_let_end C ph val body) (record_port pos))))))))) st"
proof -
  have o: "is_outer x st = (Inr False, st)" "needs_fix x v st = (Inr (x \<in> frees v), st)"
    using x by (auto simp: is_outer_def needs_fix_def is_bound_def term_refs_frees image_iff)
  have as: "pbind (pbind m f) g s = pbind m (\<lambda>y. pbind (f y) g) s" for m f g s
    by (simp add: pbind_def split: prod.splits sum.splits)
  have at: "pbind (pthen m k) g s = pthen m (pbind k g) s" for m k g s
    by (simp add: pbind_def pthen_def split: prod.splits sum.splits)
  have fl: "pbind fan_lvl f s = f (cur_lvl s) s" for f s by (simp add: pbind_def fan_lvl_def)
  have po: "pbind (is_outer x) f st = f False st" "pbind (needs_fix x v) g st = g (x \<in> frees v) st" for f g
    by (simp_all add: pbind_def o)
  have pr: "pbind (pret u) f = f u" for u f by (rule ext) (simp add: pbind_def pret_def)
  have pt: "pbind (pthen m k) g = pthen m (pbind k g)" for m k g by (rule ext) (rule at)
  show "x \<notin> frees v \<Longrightarrow> ct C pos (Let x v b) st =
      pbind fan_lvl (\<lambda>save. pbind (c_alloc C ERA 0) (\<lambda>ph. pthen (push_var x (Port ph 1))
        (pthen (deeper save 2) (pbind (ct C (pos @ [0]) v) (\<lambda>val.
           pthen (deeper save 1) (pbind (ct C (pos @ [1]) b) (\<lambda>body. pthen (set_lvl save)
             (pbind (ct_let_end C ph val body) (record_port pos))))))))) st"
    unfolding ct.simps fl po by (simp add: pr pt)
  show "x \<in> frees v \<Longrightarrow> ct C pos (Let x v b) st =
      pbind fan_lvl (\<lambda>save. pthen (deeper save 2) (pbind (ct C (pos @ [2]) (term_fix x v)) (\<lambda>val.
        pbind (c_alloc C ERA 0) (\<lambda>ph. pthen (push_var x (Port ph 1))
           (pthen (deeper save 1) (pbind (ct C (pos @ [1]) b) (\<lambda>body. pthen (set_lvl save)
             (pbind (ct_let_end C ph val body) (record_port pos))))))))) st"
    unfolding ct.simps fl po by (simp add: pr pt)
qed

lemma let_late:
  assumes "x \<notin> vname ` set (cstack st)" "x \<notin> frees v" "ct C pos (Let x v b) st = (Inr p, st')"
  shows "\<exists>n1 ph n2 l2 val sV n3 l1 q sB sE.
      net_alloc (nenv C) ERA 0 (cnet st) = (n1, ph) \<and> net_scope_app (cur_lvl st) 2 n1 = (n2, l2) \<and>
      ct C (pos @ [0]) v (st\<lparr>cstack := cstack st @ [entry x ph], cnet := n2, cur_lvl := l2\<rparr>) = (Inr val, sV) \<and>
      net_scope_app (cur_lvl st) 1 (cnet sV) = (n3, l1) \<and>
      ct C (pos @ [1]) b (sV\<lparr>cnet := n3, cur_lvl := l1\<rparr>) = (Inr q, sB) \<and>
      ct_let_end C ph val q (sB\<lparr>cur_lvl := cur_lvl st\<rparr>) = (Inr p, sE) \<and> st' = sE\<lparr>aot_map := aot_map sE @ [(pos, p)]\<rparr>"
  using assms(3) unfolding let_eqs(1)[OF assms(1,2)] pthen_def c_alloc_def pbind_Inr step_Inr link_Inr deeper_Inr
  apply (elim exE conjE) apply hypsubst apply (simp (no_asm_use) del: One_nat_def) apply (intro exI conjI)
  apply assumption apply assumption apply assumption apply assumption apply assumption apply assumption apply (rule refl) done

lemma let_fix:
  assumes "x \<notin> vname ` set (cstack st)" "x \<in> frees v" "ct C pos (Let x v b) st = (Inr p, st')"
  shows "\<exists>n0 l2 val sV n1 ph n3 l1 q sB sE.
      net_scope_app (cur_lvl st) 2 (cnet st) = (n0, l2) \<and>
      ct C (pos @ [2]) (term_fix x v) (st\<lparr>cnet := n0, cur_lvl := l2\<rparr>) = (Inr val, sV) \<and>
      net_alloc (nenv C) ERA 0 (cnet sV) = (n1, ph) \<and>
      net_scope_app (cur_lvl st) 1 n1 = (n3, l1) \<and>
      ct C (pos @ [1]) b (sV\<lparr>cstack := cstack sV @ [entry x ph], cnet := n3, cur_lvl := l1\<rparr>) = (Inr q, sB) \<and>
      ct_let_end C ph val q (sB\<lparr>cur_lvl := cur_lvl st\<rparr>) = (Inr p, sE) \<and> st' = sE\<lparr>aot_map := aot_map sE @ [(pos, p)]\<rparr>"
  using assms(3) unfolding let_eqs(2)[OF assms(1,2)] pthen_def c_alloc_def pbind_Inr step_Inr link_Inr deeper_Inr
  apply (elim exE conjE) apply hypsubst apply (simp (no_asm_use) del: One_nat_def) apply (intro exI conjI)
  apply assumption apply assumption apply assumption apply assumption apply assumption apply assumption apply (rule refl) done

lemma own_port_new:
  assumes so: "stack_ok n vs" and l: "live n v" "\<And>k. k < 3 \<Longrightarrow> wire n (Port v k) = NONE" and new: "v \<notin> node ` set (allv vs)"
    and s: "cnet s = n" "cstack s = vs @ [entry x v]" and k: "k < 3" "k \<noteq> 1"
  shows "own s (Port v k)"
proof -
  have "clear vs (Port v k)" by (rule clear_node) (use new in simp)
  then have "clear (vs @ [entry x v]) (Port v k)" using k by (auto simp: clear_def vports_def)
  then show ?thesis using l k by (simp add: own_def open_port_def s)
qed

lemma made_let:
  assumes st: "sound st" and E: "\<not> in_parallel (nenv C)" and x: "x \<notin> vname ` set (cstack st)" and xb: "x \<in> frees b"
    and vl: "\<And>s p s'. x \<notin> frees v \<Longrightarrow> sound s \<Longrightarrow> vname ` set (cstack s) = insert x (vname ` set (cstack st)) \<Longrightarrow>
      ct C (pos @ [0]) v s = (Inr p, s') \<Longrightarrow> made s v p s'"
    and vf: "\<And>s p s'. x \<in> frees v \<Longrightarrow> sound s \<Longrightarrow> vname ` set (cstack s) = vname ` set (cstack st) \<Longrightarrow>
      ct C (pos @ [2]) (term_fix x v) s = (Inr p, s') \<Longrightarrow> made s (term_fix x v) p s'"
    and bd: "\<And>s p s'. sound s \<Longrightarrow> vname ` set (cstack s) = insert x (vname ` set (cstack st)) \<Longrightarrow>
      ct C (pos @ [1]) b s = (Inr p, s') \<Longrightarrow> made s b p s'"
    and r: "ct C pos (Let x v b) st = (Inr p, st')"
  shows "made st (Let x v b) p st'"
proof -
  let ?E = "nenv C" and ?l = "cur_lvl st" and ?vs = "cstack st"
  have ok: "net_ok (cnet st)" "?l \<le> nlv (lvl (cnet st))" using st by (simp_all add: sound_def)
  show ?thesis
  proof (cases "x \<in> frees v")
    case False
    obtain n1 ph n2 l2 val sV n3 l1 q sB sE where al: "net_alloc ?E ERA 0 (cnet st) = (n1, ph)"
      and r0: "net_scope_app ?l 2 n1 = (n2, l2)"
      and cv: "ct C (pos @ [0]) v (st\<lparr>cstack := ?vs @ [entry x ph], cnet := n2, cur_lvl := l2\<rparr>) = (Inr val, sV)"
      and r1: "net_scope_app ?l 1 (cnet sV) = (n3, l1)" and r2: "ct C (pos @ [1]) b (sV\<lparr>cnet := n3, cur_lvl := l1\<rparr>) = (Inr q, sB)"
      and r3: "ct_let_end C ph val q (sB\<lparr>cur_lvl := ?l\<rparr>) = (Inr p, sE)" and r4: "st' = sE\<lparr>aot_map := aot_map sE @ [(pos, p)]\<rparr>"
      using let_late[OF x False r] by blast
    define sA where "sA = st\<lparr>cstack := ?vs @ [entry x ph], cnet := n2, cur_lvl := l2\<rparr>"
    note aa = adds_alloc[OF ok(1) E _ al, simplified]
    note la = adds_level[OF addsD(1)[OF aa(1)] addsD(6)[OF aa(1) ok(2)] r0]
    note a2 = adds_then[OF aa(1) la(1)]
    have lv: "live n2 ph" using aa(3) addsD(3)[OF la(1)] by blast
    have w2: "wire n2 (Port ph k) = NONE" if "k < 3" for k using aa(5)[OF that] addsD(5)[OF la(1)] aa(3) by simp
    note A = binder_node[OF st a2 aa(2) lv w2 la(2) sA_def]
    have mv: "made sA v val sV" by (rule vl[OF False A(1) _ cv[folded sA_def]]) (auto simp: sA_def)
    have sA: "cstack sA = ?vs @ [entry x ph]" "cnet sA = n2" by (simp_all add: sA_def)
    obtain us e where sV: "cstack sV = us @ [e]" "length us = length ?vs" "vbind e = Port ph 1" and g: "grown (cnet sA) ?vs us"
      and u: "\<forall>i < length ?vs. uses (?vs ! i) < uses (us ! i) \<longleftrightarrow> (\<exists>y \<in> frees v - {x}. last_named y ?vs = Some i)"
      and ue: "0 < uses e \<longleftrightarrow> x \<in> frees v" and ex: "\<forall>r \<in> set (extra e). \<not> live (cnet sA) (node r)"
      by (rule made_pop[OF mv sA(1)])
    note c = madeD[OF mv]
    have soV: "stack_ok (cnet sV) (us @ [e])" using c(2) by (simp add: sV)
    have "length ?vs < length (?vs @ [entry x ph])" by simp
    from grownD(2)[OF c(4)[unfolded sA sV] this] have vn: "vname e = x" using sV(2) by (simp add: nth_append)
    have e: "e = entry x ph" using ue False sV(3) vn soV by (auto simp: stack_ok_def entry_ok_def intro: cvar.equality)
    have up: "live (cnet st) w \<Longrightarrow> live (cnet sA) w" for w using addsD(3)[OF a2] by (simp add: sA)
    have adV: "adds (cnet st) (cnet sV) (unused ?vs)"
    proof (rule adds_cut)
      show "adds (cnet st) (cnet sV) ({} \<union> unused (cstack sA))" using adds_trans[OF a2] c(1) by (simp add: sA)
    qed (use aa(2) in \<open>auto simp: sA\<close>)
    have gs: "grown (cnet st) ?vs us" by (rule grown_trans[OF grown_refl g]) (use up in blast)
    have pV: "passed sA (frees v) sV" by (rule made_passed[OF mv])
    have oV: "own sV (Port ph 0)" "own sV (Port ph 2)" using own_passed[OF A(2) pV] by simp_all
    have hV: "in_hand sA sV val" by (rule made_in_hand[OF mv])
    have pu: "Port ph 1 \<in> unused (cstack sV)" by (simp add: sV e)
    have "val \<noteq> Port ph k" if "k < 3" for k
      using own_other[OF A(2) hV, of 0] own_other[OF A(2) hV, of 2] usable_unused[of "cstack sV" val] hV pu that
      by (cases "k = 1") (auto simp: in_hand_def numeral_3_eq_3 less_Suc_eq)
    moreover have v3: "pno val < 3" using hV by (simp add: in_hand_def open_port_def)
    ultimately have vp: "node val \<noteq> ph" by (metis port.collapse)
    have hst: "in_hand st sV val" using hV up aa(2) vp by (auto simp: in_hand_def sA)
    have lone: "lone_use ?vs us val" unfolding lone_use_def
    proof (intro allI impI)
      fix i j assume i: "i < length ?vs" "val \<in> set (vports (us ! i))" and j: "j < length ?vs"
      have "(us @ [e]) ! k = us ! k" "(?vs @ [entry x ph]) ! k = ?vs ! k" if "k < length ?vs" for k
        using that sV(2) by (simp_all add: nth_append)
      then show "uses (us ! j) = uses (?vs ! j) + (if j = i then 1 else 0)"
        using c(9)[unfolded sA sV lone_use_def, rule_format, of i j] i j by simp
    qed
    show ?thesis
      by (rule let_body[OF E st xb sV(1)[unfolded e] adV soV[unfolded e] gs _ _ aa(2) oV hst vp lone bd r1 r2 r3 r4])
        (use u addsD(3)[OF c(1)] lv in \<open>auto simp: sA\<close>)
  next
    case True
    obtain n0 l2 val sV n1 ph n3 l1 q sB sE where r0: "net_scope_app ?l 2 (cnet st) = (n0, l2)"
      and cv: "ct C (pos @ [2]) (term_fix x v) (st\<lparr>cnet := n0, cur_lvl := l2\<rparr>) = (Inr val, sV)"
      and al: "net_alloc ?E ERA 0 (cnet sV) = (n1, ph)" and r1: "net_scope_app ?l 1 n1 = (n3, l1)"
      and r2: "ct C (pos @ [1]) b (sV\<lparr>cstack := cstack sV @ [entry x ph], cnet := n3, cur_lvl := l1\<rparr>) = (Inr q, sB)"
      and r3: "ct_let_end C ph val q (sB\<lparr>cur_lvl := ?l\<rparr>) = (Inr p, sE)" and r4: "st' = sE\<lparr>aot_map := aot_map sE @ [(pos, p)]\<rparr>"
      using let_fix[OF x True r] by blast
    define sA where "sA = st\<lparr>cnet := n0, cur_lvl := l2\<rparr>"
    note A = level_step[OF passed_start[OF st] ok(2) r0, folded sA_def]
    have mv: "made sA (term_fix x v) val sV" by (rule vf[OF True A(2) _ cv[folded sA_def]]) (simp add: sA_def)
    have sA: "cstack sA = ?vs" "cnet sA = n0" by (simp_all add: sA_def)
    note c = madeD[OF mv]
    have pV: "passed st (frees v - {x}) sV" using passed_made[OF A(1) mv] by (simp add: frees_fix)
    note p = passedD[OF pV]
    note aa = adds_alloc[OF addsD(1)[OF p(1)] E _ al, simplified]
    define s0 where "s0 = sV\<lparr>cstack := cstack sV @ [entry x ph], cnet := n1\<rparr>"
    have s0: "cstack s0 = cstack sV @ [entry x ph]" "cnet s0 = n1" by (simp_all add: s0_def)
    have so1: "stack_ok n1 (cstack sV)" by (rule stack_adds[OF p(2) aa(1)]) simp
    have new: "ph \<notin> node ` set (allv (cstack sV))" using stack_port[OF p(2)] aa(2) by auto
    have far: "wire n1 q \<noteq> Port ph 1" if "q \<in> set (allv (cstack sV))" for q
      by (rule far_new[OF p(2) addsD(1)[OF p(1)] aa(1,2) live_nonneg[OF aa(3)] that])
    have w1: "wire n1 (Port ph 1) = NONE" using aa(5)[of 1] by simp
    have so: "stack_ok (cnet s0) (cstack sV @ [entry x ph])" unfolding s0 by (rule stack_push[OF so1 aa(3) w1 new far])
    have ad: "adds (cnet st) (cnet s0) (unused ?vs)" unfolding s0
      by (rule adds_cut[OF adds_trans[OF p(1) aa(1)]]) auto
    have o0: "own s0 (Port ph k)" if "k < 3" "k \<noteq> 1" for k
      by (rule own_port_new[OF so1 aa(3) aa(5) new s0(2,1) that])
    have nst: "\<not> live (cnet st) ph" using addsD(3)[OF p(1)] aa(2) by blast
    have hV: "in_hand st sV val" by (rule in_hand_from[OF A(1) made_in_hand[OF mv]])
    have lval: "live (cnet sV) (node val)" using hV by (simp add: in_hand_def open_port_def)
    then have vp: "node val \<noteq> ph" using aa(2) by auto
    have us: "usable (cstack sV @ [entry x ph]) val"
      using hV vp by (auto simp: in_hand_def usable_def clear_def vports_def)
    have hand: "in_hand st s0 val"
      using hV addsD(3,5)[OF aa(1)] us by (simp add: in_hand_def open_port_def s0)
    have lone: "lone_use ?vs (cstack sV) val" using c(9) by (simp add: sA)
    have eq: "s0\<lparr>cnet := n3, cur_lvl := l1\<rparr> = sV\<lparr>cstack := cstack sV @ [entry x ph], cnet := n3, cur_lvl := l1\<rparr>"
      by (simp add: s0_def)
    have r1': "net_scope_app ?l 1 (cnet s0) = (n3, l1)" using r1 by (simp add: s0)
    have lph: "live (cnet s0) ph" using aa(3) by (simp add: s0)
    have o02: "own s0 (Port ph 0)" "own s0 (Port ph 2)" using o0 by simp_all
    show ?thesis
      by (rule let_body[OF E st xb s0(1) ad so p(3,4) lph nst o02 hand vp lone bd r1' r2[folded eq] r3 r4])
  qed
qed

section \<open>Plain terms\<close>

text \<open>
  The terms without floats, cached nets and the declarations of a program, closed over the names \<open>S\<close>, whose
  lets shadow no name in scope and are used in their bodies.
\<close>

primrec plain :: "string set \<Rightarrow> tm \<Rightarrow> bool" where
  "plain S (Var x) = (x \<in> S)"
| "plain S (Lam x b) = plain (insert x S) b"
| "plain S (App f a) = (plain S f \<and> plain S a)"
| "plain S (Num s) = True"
| "plain S (Flt s) = False"
| "plain S (Let x v b) = (x \<notin> S \<and> x \<in> frees b \<and> plain (insert x S) v \<and> plain (insert x S) b)"
| "plain S (Def x b) = plain S b"
| "plain S (Defx x t b) = False"
| "plain S (Load s) = False"
| "plain S (Namespace s) = False"
| "plain S (Open_ns s) = False"
| "plain S (Export s) = False"
| "plain S (Data s n cs) = False"
| "plain S (Baked s) = False"

lemma plain_fix: "plain S (term_fix x v) \<longleftrightarrow> plain (insert x S) v"
  by (auto simp: term_fix_def Let_def)

lemma ct_made:
  "plain S t \<Longrightarrow> sound st \<Longrightarrow> vname ` set (cstack st) = S \<Longrightarrow> \<not> in_parallel (nenv C) \<Longrightarrow> ct C pos t st = (Inr p, st') \<Longrightarrow>
   made st t p st'"
proof (induction C pos t arbitrary: S st p st' rule: ct.induct)
  case (2 C pos s)
  then show ?case by (intro made_num) auto
next
  case (3 C pos x)
  then show ?case by (intro made_var) auto
next
  case (4 C pos x b)
  show ?case
    by (rule made_lam[OF 4(3,5) _ 4(6)]) (rule 4(1)[of "insert x S"], use 4 in auto)
next
  case (5 C pos f a)
  show ?case
    by (rule made_app[OF 5(4,6) _ _ 5(7)], rule 5(1)[of S], (use 5 in auto)[5], rule 5(2)[of S], use 5 in auto)
next
  case (6 C pos x v b)
  have pl: "x \<notin> S" "x \<in> frees b" "plain (insert x S) v" "plain (insert x S) b" "plain S (term_fix x v)"
    using 6(5) by (simp_all add: plain_fix)
  have x: "x \<notin> vname ` set (cstack st)" using pl(1) 6(7) by simp
  show ?case
  proof (rule made_let[OF 6(6,8) x pl(2) _ _ _ 6(9)])
    fix s p s'
    assume a: "sound s"
    show "made s v p s'" if "vname ` set (cstack s) = insert x (vname ` set (cstack st))" "ct C (pos @ [0]) v s = (Inr p, s')"
      by (rule 6(3)[of False False, OF _ pl(3) a _ 6(8) that(2)]) (use that(1) 6(7) in simp_all)
    show "made s b p s'" if "vname ` set (cstack s) = insert x (vname ` set (cstack st))" "ct C (pos @ [1]) b s = (Inr p, s')"
      by (rule 6(4)[OF pl(4) a _ 6(8) that(2)]) (use that(1) 6(7) in simp)
    show "made s (term_fix x v) p s'" if "vname ` set (cstack s) = vname ` set (cstack st)"
        "ct C (pos @ [2]) (term_fix x v) s = (Inr p, s')"
      by (rule 6(1)[of True True, OF _ _ pl(5) a _ 6(8) that(2)]) (use that(1) 6(7) in simp_all)
  qed
next
  case (7 C pos x b)
  obtain s where s: "ct C (pos @ [0]) b st = (Inr p, s)" "st' = s\<lparr>aot_map := aot_map s @ [(pos, p)]\<rparr>"
    using 7(6) unfolding ct.simps pbind_Inr step_Inr by blast
  have "made st b p s" by (rule 7(1)[OF _ 7(3,4,5) s(1)]) (use 7(2) in simp)
  then show ?case by (simp add: made_def same_uses_def s(2))
qed simp_all

section \<open>Plain terms are compiled\<close>

text \<open>A step that succeeds and takes the names \<open>a\<close> of the stack to \<open>b\<close>.\<close>

definition runs :: "string list \<Rightarrow> 'a comp_m \<Rightarrow> string list \<Rightarrow> bool" where
  "runs a m b \<longleftrightarrow> (\<forall>st. map vname (cstack st) = a \<longrightarrow> (\<exists>y st'. m st = (Inr y, st') \<and> map vname (cstack st') = b))"

lemma runs_bind: "runs a m b \<Longrightarrow> (\<And>y. runs b (f y) c) \<Longrightarrow> runs a (pbind m f) c"
  unfolding runs_def pbind_def by fastforce

lemma runs_then: "runs a m b \<Longrightarrow> runs b k c \<Longrightarrow> runs a (pthen m k) c"
  unfolding pthen_def by (rule runs_bind)

lemma runs_net:
  "runs a (on_net f) a" "runs a (c_alloc C t sc) a" "runs a (c_link C p q enq) a" "runs a (c_wire p) a" "runs a (c_kill v) a"
  "runs a fan_lvl a" "runs a (fan_lvl_at br) a" "runs a (set_lvl g) a" "runs a (pret y) a" "runs a (record_port pos p) a"
  by (auto simp: runs_def c_alloc_def c_link_def c_wire_def c_kill_def fan_lvl_def fan_lvl_at_def set_lvl_def pmodify_def pret_def
      on_net_def record_port_def pthen_def pbind_def split: prod.splits)

lemma runs_stay: "runs a m a \<Longrightarrow> (\<And>y. runs a (f y) c) \<Longrightarrow> runs a (pbind m f) c" "runs a m a \<Longrightarrow> runs a k c \<Longrightarrow> runs a (pthen m k) c"
  by (rule runs_bind runs_then; assumption)+

lemma runs_if: "runs a m b \<Longrightarrow> runs a k b \<Longrightarrow> runs a (if P then m else k) b"
  by simp

lemma runs_deeper: "runs a (deeper l br) a"
  unfolding deeper_def by (intro runs_stay runs_net)

lemma runs_stack: "runs a (push_var x b) (a @ [x])" "runs (a @ [x]) pop_var a" "runs (a @ [x]) top_var (a @ [x])"
proof -
  show "runs a (push_var x b) (a @ [x])" by (simp add: runs_def push_var_def pmodify_def)
  show "runs (a @ [x]) top_var (a @ [x])" by (simp add: runs_def top_var_def)
  show "runs (a @ [x]) pop_var a" unfolding runs_def
  proof (intro allI impI)
    fix st :: cst assume "map vname (cstack st) = a @ [x]"
    from arg_cong[OF this, of butlast] have "map vname (butlast (cstack st)) = a" by (simp add: map_butlast)
    then show "\<exists>y st'. pop_var st = (Inr y, st') \<and> map vname (cstack st') = a" by (simp add: pop_var_def)
  qed
qed

lemma runs_tree: "runs a (dup_tree_from C sc p ts) a"
  by (induction ts arbitrary: p) (auto simp: fan_over_def intro!: runs_stay runs_net)

lemma runs_spend: "runs a (spend es) a"
  by (induction es) (auto intro!: runs_stay runs_net)

lemma runs_uses: "runs a (use_ports e b) a"
  unfolding use_ports_def by (intro runs_stay runs_net runs_spend)

lemmas runs_intros = runs_if runs_stay runs_net runs_deeper runs_stack(3) runs_uses runs_tree

lemma runs_lam_end: "runs (a @ [x]) (ct_lam_end C v lv q) a"
  unfolding ct_lam_end_def dup_tree_def
  by (intro runs_intros runs_then[OF runs_stack(2)])

lemma runs_let_end: "runs (a @ [x]) (ct_let_end C ph val q) a"
  unfolding ct_let_end_def dup_tree_def
  by (intro runs_intros runs_then[OF runs_stack(2)])

lemma runs_var:
  assumes "x \<in> set a"
  shows "runs a (ct_var C x) a"
  unfolding runs_def
proof (intro allI impI)
  fix st :: cst assume a: "map vname (cstack st) = a"
  have "x \<in> vname ` set (cstack st)" using assms unfolding a[symmetric] by simp
  then obtain i where i: "last_named x (cstack st) = Some i" using last_named_None by (cases "last_named x (cstack st)") auto
  have use: "runs a (use_at i f) a" if "\<And>e. vname (f e) = vname e" for f
  proof -
    have "map vname (vs[i := f (vs ! i)]) = map vname vs" for vs
      by (cases "i < length vs") (simp_all add: map_update that list_update_same_conv list_update_beyond)
    then show ?thesis by (simp add: runs_def use_at_def pmodify_def)
  qed
  have "runs a (pthen (use_at i (\<lambda>e. e\<lparr>uses := uses e + 1\<rparr>))
      (if uses (cstack st ! i) = 0 then pret (vbind (cstack st ! i))
       else pbind (c_alloc C ERA 0) (\<lambda>ph.
              pthen (use_at i (\<lambda>e. e\<lparr>extra := extra e @ [Port ph 1]\<rparr>)) (pret (Port ph 1))))) a"
    by (intro runs_intros use) simp_all
  then show "\<exists>y st'. ct_var C x st = (Inr y, st') \<and> map vname (cstack st') = a"
    using a i unfolding runs_def ct_var_def by simp
qed

lemma ct_runs: "plain (set a) t \<Longrightarrow> runs a (ct C pos t) a"
proof (induction C pos t arbitrary: a rule: ct.induct)
  case (2 C pos s)
  then show ?case unfolding ct.simps by (intro runs_intros)
next
  case (3 C pos x)
  then show ?case unfolding ct.simps by (intro runs_stay runs_net runs_var) simp
next
  case (4 C pos x b)
  have "runs (a @ [x]) (ct C (pos @ [0]) b) (a @ [x])" by (rule 4(1)) (use 4(2) in simp)
  then show ?case unfolding ct.simps
    by (intro runs_stay runs_net runs_then[OF runs_stack(1)] runs_deeper runs_bind[OF runs_lam_end])
next
  case (5 C pos f u)
  have "runs a (ct C (pos @ [0]) f) a" "runs a (ct C (pos @ [1]) u) a" using 5 by auto
  then show ?case unfolding ct.simps by (intro runs_stay runs_net runs_deeper)
next
  case (6 C pos x v b)
  have pl: "x \<notin> set a" "plain (insert x (set a)) v" "plain (insert x (set a)) b" "plain (set a) (term_fix x v)"
    using 6(5) by (simp_all add: plain_fix)
  have b: "runs (a @ [x]) (ct C (pos @ [1]) b) (a @ [x])" by (rule 6(4)) (use pl(3) in simp)
  have x: "x \<notin> vname ` set (cstack st)" if "map vname (cstack st) = a" for st :: cst
    using pl(1) unfolding that[symmetric] by simp
  have cong: "runs a m' a \<Longrightarrow> (\<And>st. map vname (cstack st) = a \<Longrightarrow> m st = m' st) \<Longrightarrow> runs a m a" for m m' :: "port comp_m"
    by (simp add: runs_def)
  show ?case
  proof (cases "x \<in> frees v")
    case False
    have v: "runs (a @ [x]) (ct C (pos @ [0]) v) (a @ [x])" by (rule 6(3)[of False False]) (use pl(2) in simp_all)
    show ?thesis
      by (rule cong[OF _ let_eqs(1)[OF x False]])
        (intro runs_stay runs_net runs_then[OF runs_stack(1)] runs_deeper v b runs_bind[OF runs_let_end])
  next
    case True
    have v: "runs a (ct C (pos @ [2]) (term_fix x v)) a" by (rule 6(1)[of True True]) (use pl(4) in simp_all)
    show ?thesis
      by (rule cong[OF _ let_eqs(2)[OF x True]])
        (intro runs_stay runs_net runs_then[OF runs_stack(1)] runs_deeper v b runs_bind[OF runs_let_end])
  qed
next
  case (7 C pos x b)
  have "runs a (ct C (pos @ [0]) b) a" using 7 by simp
  then show ?case unfolding ct.simps by (intro runs_stay runs_net)
qed simp_all

section \<open>The compiled net\<close>

text \<open>C26. The compiler builds sound nets: for a closed term whose lets shadow nothing and are used, \<open>compile\<close>
  succeeds, and the net it leaves satisfies the invariant of the reducer; the node of the program's value is
  new and wired to the root port; every node that was there before keeps its kind and, but for the root port,
  its wires; and every active pair other than the root's own is queued if it was before.
\<close>

theorem compile_sound:
  assumes "plain {} t" "net_ok n" "\<not> in_parallel (nenv C)" "open_port n (Port 0 0)" "compile C t n = (r, st)"
  shows "r = Inr () \<and> net_ok (cnet st) \<and>
    (\<exists>q. wire (cnet st) (Port 0 0) = q \<and> wire (cnet st) q = Port 0 0 \<and> live (cnet st) (node q) \<and> \<not> live n (node q) \<and>
       (\<forall>P. all_queued n P \<longrightarrow> all_queued (cnet st) (insert (Port 0 0, q) P))) \<and>
    (\<forall>v. live n v \<longrightarrow> live (cnet st) v \<and> tag (cnet st) v = tag n v) \<and>
    (\<forall>p. live n (node p) \<and> p \<noteq> Port 0 0 \<longrightarrow> wire (cnet st) p = wire n p)"
proof -
  let ?s = "\<lparr>cnet = n, cstack = [], cur_lvl = 0, aot_map = []\<rparr>" and ?E = "nenv C"
  have "runs [] (ct C [] t) []" by (rule ct_runs) (simp add: assms(1))
  then have "\<exists>q s. ct C [] t ?s = (Inr q, s)" unfolding runs_def by (elim allE[of _ ?s]) auto
  then obtain q s where c: "ct C [] t ?s = (Inr q, s)" by blast
  have "sound ?s" using assms(2) by (simp add: sound_def stack_ok_def)
  from ct_made[OF assms(1) this _ assms(3) c] have m: "made ?s t q s" by simp
  note d = madeD[OF m]
  have ad: "adds n (cnet s) {}" using d(1) by (simp add: unused_def)
  have q: "open_port (cnet s) q" "\<not> live n (node q)" using d(6,7) by (auto simp: unused_def)
  have eq: "r = Inr ()" "cnet st = net_link ?E (Port 0 0) q False (cnet s)"
    using assms(5) c by (auto simp: compile_def pbind_def c_link_def on_net_def)
  let ?a = "Port 0 0"
  have a: "open_port (cnet s) ?a" using assms(4) addsD(3,5)[OF ad] by (simp add: open_port_def)
  have ne: "?a \<noteq> q" using q(2) assms(4) by (auto simp: open_port_def)
  have sa: "standing (cnet s) {} ?a" "wire (cnet s) ?a = NONE" "standing (cnet s) {} q" "wire (cnet s) q = NONE"
    using a q(1) by (simp_all add: open_port_def standing_def)
  note l = net_ok_link[OF addsD(1)[OF ad] assms(3) sa ne eq(2)]
  have at: "act_of (cnet st) = act_of (cnet s)" unfolding eq(2) by (simp add: net_link_def Let_def)
  have "all_queued (cnet st) (insert (?a, q) P)" if "all_queued n P" for P
    unfolding all_queued_def
  proof (intro allI impI)
    fix x y assume r: "redex_live (cnet st) x y"
    show "0 \<le> act_of (cnet st) (node x) \<or> (x, y) \<in> insert (?a, q) P \<or> (y, x) \<in> insert (?a, q) P"
    proof (cases "x \<in> {?a, q} \<or> y \<in> {?a, q}")
      case True
      then have "(x, y) = (?a, q) \<or> (y, x) = (?a, q)" using r ne by (auto simp: redex_live_def l(2) split: if_splits)
      then show ?thesis by blast
    next
      case False
      then have "redex_live (cnet s) x y" using r by (simp add: redex_live_def l(2,3))
      then show ?thesis using addsD(2)[OF ad that] unfolding all_queued_def at by blast
    qed
  qed
  moreover have "wire (cnet st) ?a = q" "wire (cnet st) q = ?a" "live (cnet st) (node q)"
    using q(1) ne by (simp_all add: l(2,3) open_port_def)
  moreover have "live (cnet st) v \<and> tag (cnet st) v = tag n v" if "live n v" for v
    using addsD(3,4)[OF ad that] l(3,4) by (simp add: meta_def)
  moreover have "wire (cnet st) p = wire n p" if "live n (node p)" "p \<noteq> ?a" for p
    using addsD(5)[OF ad that(1)] that q(2) by (auto simp: l(2))
  ultimately show ?thesis using l(1) q(2) eq(1) by blast
qed

text \<open>The compilation of \<open>let y = \\x. x x in y (let z = 5 in z)\<close>.\<close>

definition demo_cenv :: cenv where
  "demo_cenv = \<lparr>nenv = seq_env, baked = (\<lambda>x. None), alloc_float = (\<lambda>s n. (n, NONE))\<rparr>"

definition demo_term :: tm where
  "demo_term = Let ''y'' (Lam ''x'' (App (Var ''x'') (Var ''x''))) (App (Var ''y'') (Let ''z'' (Num ''5'') (Var ''z'')))"

theorem compile_sound_witness:
  "\<exists>st. compile demo_cenv demo_term (demo_alloc []) = (Inr (), st) \<and> net_ok (cnet st)"
proof -
  obtain r st where c: "compile demo_cenv demo_term (demo_alloc []) = (r, st)" by fastforce
  have p: "plain {} demo_term" by (simp add: demo_term_def)
  have ok: "net_ok (demo_alloc [])" using demo_alloc_ok by blast
  have o: "open_port (demo_alloc []) (Port 0 0)" by (simp add: demo_eval open_port_def live_def in_net_def)
  have E: "\<not> in_parallel (nenv demo_cenv)" by (simp add: demo_cenv_def)
  show ?thesis using compile_sound[OF p ok E o c] c by auto
qed

end
