(* ===== verification/Scalars.thy ===== *)
theory Scalars
  imports Registry "HOL-Library.Signed_Division"
begin

text \<open>
  Native scalar operations: the table of \<open>src/std/drivers/arith.c\<close> (\<open>lin_arith_scalar\<close>), the registry of
  providers it enters and the gate every call passes (\<open>src/io.c\<close>), and the choice of the readback driver.
  A \<open>long\<close> is a 64-bit word read as signed; the operations C leaves undefined on overflow wrap.  Floats
  travel as the bits of their words, and the floating-point unit and libm are a record of functions on
  those words.
\<close>

section \<open>The table\<close>

type_synonym scalar = "64 word"

record fpu =
  f_add :: "scalar \<Rightarrow> scalar \<Rightarrow> scalar"
  f_sub :: "scalar \<Rightarrow> scalar \<Rightarrow> scalar"
  f_mul :: "scalar \<Rightarrow> scalar \<Rightarrow> scalar"
  f_div :: "scalar \<Rightarrow> scalar \<Rightarrow> scalar"
  f_pow :: "scalar \<Rightarrow> scalar \<Rightarrow> scalar"
  f_atan2 :: "scalar \<Rightarrow> scalar \<Rightarrow> scalar"
  f_sqrt :: "scalar \<Rightarrow> scalar"
  f_sin :: "scalar \<Rightarrow> scalar"
  f_cos :: "scalar \<Rightarrow> scalar"
  f_tan :: "scalar \<Rightarrow> scalar"
  f_abs :: "scalar \<Rightarrow> scalar"
  f_floor :: "scalar \<Rightarrow> scalar"
  f_to_long :: "scalar \<Rightarrow> scalar"
  f_lt :: "scalar \<Rightarrow> scalar \<Rightarrow> bool"
  f_eq :: "scalar \<Rightarrow> scalar \<Rightarrow> bool"

definition f_le :: "fpu \<Rightarrow> scalar \<Rightarrow> scalar \<Rightarrow> bool" where
  "f_le F x y \<longleftrightarrow> f_lt F x y \<or> f_eq F x y"

text \<open>The bits of 0.0, 1.0 and -1.0.\<close>

definition f_zero :: scalar where "f_zero = 0"
definition f_one :: scalar where "f_one = 0x3FF0000000000000"
definition f_minus_one :: scalar where "f_minus_one = 0xBFF0000000000000"

text \<open>\<open>outkind\<close>: 1 an integer, 3 a boolean, 4 the bits of a float.\<close>

datatype outkind = Out_int | Out_bool | Out_float

type_synonym answer = "(scalar \<times> outkind) option"

definition yes :: "bool \<Rightarrow> answer" where
  "yes b = Some (if b then 1 else 0, Out_bool)"

text \<open>\<open>!strncmp(fn, row, strlen(row))\<close>\<close>

definition row_of :: "string \<Rightarrow> string \<Rightarrow> bool" where
  "row_of r fn \<longleftrightarrow> take (length r) fn = r"

definition arith_rows :: "string list" where
  "arith_rows =
     [''lin_fadd'', ''lin_fsub'', ''lin_fmul'', ''lin_fdiv'', ''lin_fpow'', ''lin_fatan2'', ''lin_fmin'', ''lin_fmax'',
      ''lin_fsqrt'', ''lin_fsin'', ''lin_fcos'', ''lin_ftan'', ''lin_fabs'', ''lin_fsign'', ''lin_ffract'',
      ''lin_feq'', ''lin_flt'', ''lin_fleq'', ''lin_ffloor'', ''lin_lerp'', ''lin_fclamp'',
      ''lin_add'', ''lin_sub'', ''lin_mul'', ''lin_div'', ''lin_mod'', ''lin_pow'',
      ''lin_eq'', ''lin_lt'', ''lin_leq'', ''lin_gt'', ''lin_geq'']"

definition arith_supplies :: "string \<Rightarrow> bool" where
  "arith_supplies fn \<longleftrightarrow> (\<exists>r \<in> set arith_rows. row_of r fn)"

text \<open>The rows on floats that come first, with the number of operands they need.\<close>

definition float_row :: "fpu \<Rightarrow> string \<Rightarrow> scalar list \<Rightarrow> (nat \<times> answer) option" where
  "float_row F fn a =
     (let x = a ! 0; y = a ! 1; fl = (\<lambda>r. Some (r, Out_float)) in
      if row_of ''lin_fadd'' fn then Some (2, fl (f_add F x y))
      else if row_of ''lin_fsub'' fn then Some (2, fl (f_sub F x y))
      else if row_of ''lin_fmul'' fn then Some (2, fl (f_mul F x y))
      else if row_of ''lin_fdiv'' fn then Some (2, fl (if \<not> f_eq F y f_zero then f_div F x y else f_zero))
      else if row_of ''lin_fpow'' fn then Some (2, fl (f_pow F x y))
      else if row_of ''lin_fatan2'' fn then Some (2, fl (f_atan2 F x y))
      else if row_of ''lin_fmin'' fn then Some (2, fl (if f_lt F x y then x else y))
      else if row_of ''lin_fmax'' fn then Some (2, fl (if f_lt F y x then x else y))
      else if row_of ''lin_fsqrt'' fn then Some (1, fl (if f_le F f_zero x then f_sqrt F x else f_zero))
      else if row_of ''lin_fsin'' fn then Some (1, fl (f_sin F x))
      else if row_of ''lin_fcos'' fn then Some (1, fl (f_cos F x))
      else if row_of ''lin_ftan'' fn then Some (1, fl (f_tan F x))
      else if row_of ''lin_fabs'' fn then Some (1, fl (f_abs F x))
      else if row_of ''lin_fsign'' fn then Some (1, fl (if f_le F f_zero x then f_one else f_minus_one))
      else if row_of ''lin_ffract'' fn then Some (1, fl (f_sub F x (f_floor F x)))
      else if row_of ''lin_feq'' fn then Some (2, yes (f_eq F x y))
      else if row_of ''lin_flt'' fn then Some (2, yes (f_lt F x y))
      else if row_of ''lin_fleq'' fn then Some (2, yes (f_le F x y))
      else if row_of ''lin_ffloor'' fn then Some (1, Some (f_to_long F (f_floor F x), Out_int))
      else None)"

text \<open>The row \<open>lin_pow\<close>: squaring, with \<open>e >>= 1\<close> on a positive exponent.\<close>

function pow_loop :: "scalar \<Rightarrow> scalar \<Rightarrow> scalar \<Rightarrow> scalar" where
  "pow_loop b e r =
     (if 0 <s e then pow_loop (b * b) (signed_drop_bit 1 e) (if bit e 0 then r * b else r) else r)"
  by pat_completeness auto
termination
proof (relation "measure (\<lambda>(b, e, r). nat (sint e))", goal_cases)
  case (2 b e r)
  have "0 < sint e" using 2 by (simp add: word_sless_alt)
  then show ?case by (simp add: sint_signed_drop_bit_eq drop_bit_Suc flip: drop_bit_eq_div)
qed simp

declare pow_loop.simps [simp del]

definition int_row :: "string \<Rightarrow> scalar list \<Rightarrow> answer" where
  "int_row fn a =
     (let x = a ! 0; y = a ! 1; int_out = (\<lambda>r. Some (r, Out_int)) in
      if row_of ''lin_add'' fn then int_out (x + y)
      else if row_of ''lin_sub'' fn then int_out (if y \<le>s x then x - y else 0)
      else if row_of ''lin_mul'' fn then int_out (x * y)
      else if row_of ''lin_div'' fn then int_out (if y \<noteq> 0 then word_of_int (sint x sdiv sint y) else 0)
      else if row_of ''lin_mod'' fn then int_out (if y \<noteq> 0 then word_of_int (sint x smod sint y) else 0)
      else if row_of ''lin_pow'' fn then int_out (pow_loop x y 1)
      else if row_of ''lin_eq'' fn then yes (x = y)
      else if row_of ''lin_lt'' fn then yes (x <s y)
      else if row_of ''lin_leq'' fn then yes (x \<le>s y)
      else if row_of ''lin_gt'' fn then yes (y <s x)
      else if row_of ''lin_geq'' fn then yes (y \<le>s x)
      else None)"

text \<open>\<open>lin_arith_scalar\<close>.  With \<open>argc < 0\<close> it only says whether the name is its own; nothing is computed,
  so the value that goes with the answer is arbitrary and none of the callers reads it.\<close>

definition lin_arith_scalar :: "fpu \<Rightarrow> string \<Rightarrow> int \<Rightarrow> scalar list \<Rightarrow> answer" where
  "lin_arith_scalar F fn argc a =
     (if argc < 0 then (if arith_supplies fn then Some (0, Out_int) else None)
      else case float_row F fn a of
        Some (need, r) \<Rightarrow> if argc < int need then None else r
      | None \<Rightarrow>
          (let x = a ! 0; y = a ! 1; z = a ! 2 in
           if row_of ''lin_lerp'' fn \<and> 3 \<le> argc then Some (f_add F x (f_mul F (f_sub F y x) z), Out_float)
           else if row_of ''lin_fclamp'' fn \<and> 3 \<le> argc
           then Some (if f_lt F x y then y else if f_lt F z x then z else x, Out_float)
           else if argc < 2 then None
           else int_row fn a))"

section \<open>Providers and the gate\<close>

type_synonym scalar_fn = "string \<Rightarrow> int \<Rightarrow> scalar list \<Rightarrow> answer"

record scalar_state =
  scalar_ops :: "(scalar_fn \<times> bool) list"   \<comment> \<open>a provider and whether it declared itself pure\<close>
  precompile_depth :: nat
  build_depth :: nat
  build_observed :: nat
  gate_reports :: "string list"

definition lin_scalar_ops_add :: "scalar_fn \<Rightarrow> bool \<Rightarrow> scalar_state \<Rightarrow> scalar_state" where
  "lin_scalar_ops_add f pure S = S\<lparr>scalar_ops := scalar_ops S @ [(f, pure)]\<rparr>"

definition in_build :: "scalar_state \<Rightarrow> bool" where
  "in_build S \<longleftrightarrow> 0 < build_depth S \<or> 0 < precompile_depth S"

text \<open>The first provider that answers, of those a build may ask when \<open>build\<close> is set.\<close>

fun ask_ops :: "bool \<Rightarrow> (scalar_fn \<times> bool) list \<Rightarrow> string \<Rightarrow> int \<Rightarrow> scalar list \<Rightarrow> answer" where
  "ask_ops build [] fn argc a = None"
| "ask_ops build ((f, pure) # ops) fn argc a =
     (if build \<and> \<not> pure then ask_ops build ops fn argc a
      else case f fn argc a of Some r \<Rightarrow> Some r | None \<Rightarrow> ask_ops build ops fn argc a)"

text \<open>\<open>lin_scalar_ops_run\<close>.  The plugin \<open>arith\<close>, which registers itself when it is loaded, is fetched by the
  first call with operands; \<open>plugin\<close> is what the dynamic linker makes of that.\<close>

definition lin_scalar_ops_run ::
    "(scalar_state \<Rightarrow> scalar_state) \<Rightarrow> string \<Rightarrow> int \<Rightarrow> scalar list \<Rightarrow> scalar_state \<Rightarrow> answer \<times> scalar_state" where
  "lin_scalar_ops_run plugin fn argc a S =
     (let S1 = (if scalar_ops S = [] \<and> 0 \<le> argc then plugin S else S)
      in (ask_ops (argc < 0 \<or> in_build S1) (scalar_ops S1) fn argc a, S1))"

definition lin_build_gate ::
    "(scalar_state \<Rightarrow> scalar_state) \<Rightarrow> string \<Rightarrow> bool \<Rightarrow> scalar_state \<Rightarrow> bool \<times> scalar_state" where
  "lin_build_gate plugin fn pure S =
     (if \<not> in_build S then (True, S)
      else if pure then (True, S)
      else case lin_scalar_ops_run plugin fn (- 1) [] S of
        (Some r, S1) \<Rightarrow> (True, S1)
      | (None, S1) \<Rightarrow>
          (False, S1\<lparr>build_observed := build_observed S1 + 1,
                     gate_reports := (if build_observed S1 = 0 then gate_reports S1 @ [fn] else gate_reports S1)\<rparr>))"

section \<open>The readback driver\<close>

record readback_state =
  rb_registry :: registry
  rb_found :: "driver option"
  rb_warned :: bool

definition readback_name :: "string option \<Rightarrow> string" where
  "readback_name v = (case v of Some s \<Rightarrow> if s \<noteq> [] then s else ''readback'' | None \<Rightarrow> ''readback'')"

text \<open>\<open>load\<close> is \<open>lin_driver_load\<close>: the plugin of that name, once opened, adds its driver.\<close>

definition readback_driver ::
    "(string \<Rightarrow> registry \<Rightarrow> registry) \<Rightarrow> string option \<Rightarrow> readback_state \<Rightarrow> driver option \<times> readback_state" where
  "readback_driver load env_name S =
     (case rb_found S of
        Some d \<Rightarrow> (Some d, S)
      | None \<Rightarrow>
          (case lin_driver_wanting (rb_registry S) want_readback of
             Some d \<Rightarrow> (Some d, S\<lparr>rb_found := Some d\<rparr>)
           | None \<Rightarrow>
               (let R = load (readback_name env_name) (rb_registry S);
                    d = lin_driver_wanting R want_readback
                in (d, S\<lparr>rb_registry := R, rb_found := d, rb_warned := rb_warned S \<or> d = None\<rparr>))))"

definition net_print ::
    "(string \<Rightarrow> registry \<Rightarrow> registry) \<Rightarrow> string option \<Rightarrow> (driver \<Rightarrow> 'n \<Rightarrow> int \<times> 'n) \<Rightarrow> 'n \<Rightarrow> readback_state \<Rightarrow>
      int \<times> 'n \<times> readback_state" where
  "net_print load env_name print n S =
     (case readback_driver load env_name S of
        (None, S1) \<Rightarrow> (0, n, S1)
      | (Some d, S1) \<Rightarrow> (case print d n of (r, n1) \<Rightarrow> (r, n1, S1)))"

definition net_run_io ::
    "(string \<Rightarrow> registry \<Rightarrow> registry) \<Rightarrow> string option \<Rightarrow> (driver \<Rightarrow> 'n \<Rightarrow> int \<Rightarrow> int \<times> 'n) \<Rightarrow> 'n \<Rightarrow> int \<Rightarrow>
      readback_state \<Rightarrow> int \<times> 'n \<times> readback_state" where
  "net_run_io load env_name run n limit S =
     (case readback_driver load env_name S of
        (None, S1) \<Rightarrow> (0, n, S1)
      | (Some d, S1) \<Rightarrow> (case run d n limit of (r, n1) \<Rightarrow> (r, n1, S1)))"

end
