(* ===== verification/ScalarProps.thy ===== *)
theory ScalarProps
  imports Scalars
begin

text \<open>
  Laws of the scalar operations: the ownership query agrees with the table, the integer rows are exact as
  long as their results fit, and a build performs only calls that were declared pure.
\<close>

section \<open>The ownership query\<close>

text \<open>A chain of rows answers when one of its names does.\<close>

lemma yes_Some [simp]: "yes b \<noteq> None"
  by (simp add: yes_def)

lemma float_row_names:
  "(float_row F fn a \<noteq> None) =
     (\<exists>r \<in> set [''lin_fadd'', ''lin_fsub'', ''lin_fmul'', ''lin_fdiv'', ''lin_fpow'', ''lin_fatan2'', ''lin_fmin'', ''lin_fmax'',
      ''lin_fsqrt'', ''lin_fsin'', ''lin_fcos'', ''lin_ftan'', ''lin_fabs'', ''lin_fsign'', ''lin_ffract'',
      ''lin_feq'', ''lin_flt'', ''lin_fleq'', ''lin_ffloor'']. row_of r fn)"
  by (simp add: float_row_def Let_def)

lemma float_row_answers: "float_row F fn a = Some (need, r) \<Longrightarrow> need \<le> 2 \<and> r \<noteq> None"
  by (simp add: float_row_def Let_def split: if_splits) (auto simp: yes_def)

lemma int_row_names:
  "(int_row fn a \<noteq> None) =
     (\<exists>r \<in> set [''lin_add'', ''lin_sub'', ''lin_mul'', ''lin_div'', ''lin_mod'', ''lin_pow'',
      ''lin_eq'', ''lin_lt'', ''lin_leq'', ''lin_gt'', ''lin_geq'']. row_of r fn)"
  by (simp add: int_row_def Let_def yes_def)

lemma arith_rows_split:
  "set arith_rows = set [''lin_fadd'', ''lin_fsub'', ''lin_fmul'', ''lin_fdiv'', ''lin_fpow'', ''lin_fatan2'', ''lin_fmin'',
      ''lin_fmax'', ''lin_fsqrt'', ''lin_fsin'', ''lin_fcos'', ''lin_ftan'', ''lin_fabs'', ''lin_fsign'', ''lin_ffract'',
      ''lin_feq'', ''lin_flt'', ''lin_fleq'', ''lin_ffloor''] \<union> {''lin_lerp'', ''lin_fclamp''} \<union>
     set [''lin_add'', ''lin_sub'', ''lin_mul'', ''lin_div'', ''lin_mod'', ''lin_pow'',
      ''lin_eq'', ''lin_lt'', ''lin_leq'', ''lin_gt'', ''lin_geq'']"
  unfolding arith_rows_def by auto

text \<open>The ownership query and the table agree: a name is claimed without operands exactly when the table
  computes an answer for it from three operands or more.\<close>

theorem ownership_query_exact:
  "(lin_arith_scalar F fn (- 1) [] \<noteq> None) = (lin_arith_scalar F fn (3 + int k) a \<noteq> None)"
proof -
  have "arith_supplies fn = (float_row F fn a \<noteq> None \<or> row_of ''lin_lerp'' fn \<or> row_of ''lin_fclamp'' fn \<or> int_row fn a \<noteq> None)"
    unfolding arith_supplies_def arith_rows_split float_row_names int_row_names by (simp only: bex_Un) simp
  then show ?thesis
    by (auto simp: lin_arith_scalar_def Let_def dest: float_row_answers split: option.splits)
qed

section \<open>Integer rows\<close>

lemma pow_loop_power:
  "0 \<le> sint e \<Longrightarrow> pow_loop b e r = r * b ^ nat (sint e)"
proof (induction b e r rule: pow_loop.induct)
  case (1 b e r)
  show ?case
  proof (cases "0 <s e")
    case True
    then have pos: "0 < sint e" by (simp add: word_sless_alt)
    have half: "sint (signed_drop_bit 1 e) = sint e div 2"
      by (simp add: sint_signed_drop_bit_eq drop_bit_Suc flip: drop_bit_eq_div)
    have "odd (sint e) = bit (sint e) 0" by (simp add: bit_0)
    also have "\<dots> = bit e 0" by (subst bit_sint_iff) simp
    finally have odd: "bit e 0 = odd (sint e)" by simp
    have n: "nat (sint e) = 2 * nat (sint e div 2) + (if odd (sint e) then 1 else 0)"
      using pos by (auto simp: nat_add_distrib nat_mult_distrib elim!: oddE evenE)
    have "pow_loop b e r = (if odd (sint e) then r * b else r) * (b * b) ^ nat (sint e div 2)"
      using 1(1)[OF True] True pos half by (subst pow_loop.simps) (simp add: odd)
    also have "\<dots> = r * b ^ nat (sint e)"
      by (subst n) (simp add: power_add power_mult power2_eq_square mult.assoc)
    finally show ?thesis .
  next
    case False
    then have "sint e = 0" using 1(2) by (simp add: word_sless_alt)
    then show ?thesis using False by (subst pow_loop.simps) simp
  qed
qed

text \<open>A result that fits reads back as itself.\<close>

lemma sint_word_of_int_fits: "- (2 ^ 63) \<le> i \<Longrightarrow> i < 2 ^ 63 \<Longrightarrow> sint (word_of_int i :: scalar) = i"
  by (simp add: signed_of_int signed_take_bit_int_eq_self)

lemma row_names [simp]:
  "row_of r fn \<longleftrightarrow> take (length r) fn = r"
  by (simp add: row_of_def)

lemma word_of_sint: "x = word_of_int (sint (x :: scalar))"
  by simp

text \<open>What a row should compute on natural numbers.\<close>

definition natural_row :: "string \<Rightarrow> int \<Rightarrow> int \<Rightarrow> int" where
  "natural_row fn x y =
     (if fn = ''lin_add'' then x + y
      else if fn = ''lin_sub'' then max 0 (x - y)
      else if fn = ''lin_mul'' then x * y
      else if fn = ''lin_div'' then x div y
      else if fn = ''lin_mod'' then (if y = 0 then 0 else x mod y)
      else x ^ nat y)"

lemma nonneg_sdiv: "0 \<le> k \<Longrightarrow> 0 \<le> l \<Longrightarrow> k sdiv l = k div l" for k l :: int
  by (cases "k = 0"; cases "l = 0") (auto simp: signed_divide_int_def sgn_if)

lemma nonneg_smod: "0 \<le> k \<Longrightarrow> 0 \<le> l \<Longrightarrow> k smod l = k mod l" for k l :: int
  by (cases "k = 0") (auto simp: signed_modulo_int_def sgn_if)

lemma int_rows_natural:
  assumes x: "0 \<le> sint x" and y: "0 \<le> sint y"
    and fn: "fn \<in> {''lin_add'', ''lin_sub'', ''lin_mul'', ''lin_div'', ''lin_mod'', ''lin_pow''}"
  shows "int_row fn [x, y] = Some (word_of_int (natural_row fn (sint x) (sint y)), Out_int)"
proof -
  have z: "y = 0 \<longleftrightarrow> sint y = 0" by (rule signed_eq_0_iff[symmetric])
  have le: "y \<le>s x \<longleftrightarrow> sint y \<le> sint x" by (simp add: word_sle_eq)
  from fn consider "fn = ''lin_add''" | "fn = ''lin_sub''" | "fn = ''lin_mul''" | "fn = ''lin_div''"
    | "fn = ''lin_mod''" | "fn = ''lin_pow''" unfolding insert_iff empty_iff by blast
  then show ?thesis
  proof cases
    case 1
    then show ?thesis by (simp add: int_row_def natural_row_def)
  next
    case 2
    then show ?thesis using le by (auto simp: int_row_def natural_row_def max_def)
  next
    case 3
    then show ?thesis by (simp add: int_row_def natural_row_def)
  next
    case 4
    have "sint x sdiv sint y = sint x div sint y" using x y by (rule nonneg_sdiv)
    then show ?thesis using 4 by (simp add: int_row_def natural_row_def z)
  next
    case 5
    have "sint x smod sint y = sint x mod sint y" using x y by (rule nonneg_smod)
    then show ?thesis using 5 by (simp add: int_row_def natural_row_def z)
  next
    case 6
    then show ?thesis using pow_loop_power[OF y, of x 1] by (simp add: int_row_def natural_row_def)
  qed
qed

text \<open>C38. The integer rows compute on natural numbers, with subtraction cut at zero and division by zero giving
  zero, whenever the operands are not negative and the result is below \<open>2 ^ 63\<close>.\<close>

theorem integer_rows_exact:
  assumes "0 \<le> sint x" "0 \<le> sint y" "natural_row fn (sint x) (sint y) < 2 ^ 63"
    and "fn \<in> {''lin_add'', ''lin_sub'', ''lin_mul'', ''lin_div'', ''lin_mod'', ''lin_pow''}"
  shows "\<exists>r. lin_arith_scalar F fn 2 [x, y] = Some (r, Out_int) \<and> sint r = natural_row fn (sint x) (sint y)"
proof -
  have n: "0 \<le> natural_row fn (sint x) (sint y)"
    using assms(1,2) by (auto simp: natural_row_def pos_imp_zdiv_nonneg_iff div_int_pos_iff)
  have "float_row F fn [x, y] = None" "\<not> row_of ''lin_lerp'' fn" "\<not> row_of ''lin_fclamp'' fn"
    using assms(4) unfolding insert_iff empty_iff by (elim disjE FalseE; simp add: float_row_def Let_def)+
  then have "lin_arith_scalar F fn 2 [x, y] = int_row fn [x, y]"
    by (simp add: lin_arith_scalar_def Let_def del: row_names)
  then show ?thesis
    using int_rows_natural[OF assms(1,2,4)] sint_word_of_int_fits[of "natural_row fn (sint x) (sint y)"] n assms(3) by auto
qed

definition blank_fpu :: fpu where
  "blank_fpu = \<lparr>f_add = (\<lambda>x y. 0), f_sub = (\<lambda>x y. 0), f_mul = (\<lambda>x y. 0), f_div = (\<lambda>x y. 0), f_pow = (\<lambda>x y. 0),
     f_atan2 = (\<lambda>x y. 0), f_sqrt = id, f_sin = id, f_cos = id, f_tan = id, f_abs = id, f_floor = id, f_to_long = id,
     f_lt = (\<lambda>x y. False), f_eq = (\<lambda>x y. False)\<rparr>"

theorem integer_rows_exact_witness:
  "\<exists>r. lin_arith_scalar blank_fpu ''lin_pow'' 2 [3, 39] = Some (r, Out_int) \<and> sint r = 3 ^ 39"
  using integer_rows_exact[of 3 39 "''lin_pow''" blank_fpu] by (simp add: natural_row_def)

section \<open>The gate\<close>

lemma ask_ops_Some:
  "ask_ops build ops fn argc a = Some r \<Longrightarrow> \<exists>f p. (f, p) \<in> set ops \<and> (build \<longrightarrow> p) \<and> f fn argc a = Some r"
  by (induction build ops fn argc a rule: ask_ops.induct) (auto split: if_splits option.splits)

lemma ask_ops_None:
  "ask_ops build ops fn argc a = None \<Longrightarrow> (f, p) \<in> set ops \<Longrightarrow> build \<longrightarrow> p \<Longrightarrow> f fn argc a = None"
  by (induction build ops fn argc a rule: ask_ops.induct) (auto split: if_splits option.splits)

text \<open>C39. While a build or a precompilation runs, the gate lets a call through exactly when its caller declared
  it pure or some provider that declared itself pure owns its name; the gate never loads a plugin, counts
  every refusal and reports the first.\<close>

theorem build_gate_exact:
  assumes "in_build S"
  shows "case lin_build_gate plugin fn pure S of (ok, S') \<Rightarrow>
    ok = (pure \<or> (\<exists>(f, p) \<in> set (scalar_ops S). p \<and> f fn (- 1) [] \<noteq> None)) \<and>
    S' = (if ok then S
          else S\<lparr>build_observed := build_observed S + 1,
                 gate_reports := gate_reports S @ (if build_observed S = 0 then [fn] else [])\<rparr>)"
proof -
  let ?own = "\<exists>(f, p) \<in> set (scalar_ops S). p \<and> f fn (- 1) [] \<noteq> None"
  have run: "lin_scalar_ops_run plugin fn (- 1) [] S = (ask_ops True (scalar_ops S) fn (- 1) [], S)"
    by (simp add: lin_scalar_ops_run_def)
  show ?thesis
  proof (cases "ask_ops True (scalar_ops S) fn (- 1) []")
    case None
    then have "\<not> ?own" using ask_ops_None[OF None] by fastforce
    moreover have "lin_build_gate plugin fn pure S = (pure, if pure then S
       else S\<lparr>build_observed := build_observed S + 1,
              gate_reports := gate_reports S @ (if build_observed S = 0 then [fn] else [])\<rparr>)"
      using assms by (simp add: lin_build_gate_def run None)
    ultimately show ?thesis unfolding \<open>lin_build_gate plugin fn pure S = _\<close> prod.case by (intro conjI refl) blast
  next
    case (Some r)
    then obtain f p where "(f, p) \<in> set (scalar_ops S)" "p" "f fn (- 1) [] = Some r"
      using ask_ops_Some[OF Some] by blast
    then have "?own" by (intro bexI[of _ "(f, p)"]) simp_all
    moreover have "lin_build_gate plugin fn pure S = (True, S)"
      using assms by (simp add: lin_build_gate_def run Some)
    ultimately show ?thesis unfolding \<open>lin_build_gate plugin fn pure S = _\<close> prod.case if_True by (intro conjI refl) blast
  qed
qed

text \<open>A provider that declared nothing, one that is pure, and the state of a build.\<close>

definition demo_gate :: scalar_state where
  "demo_gate = \<lparr>scalar_ops = [(\<lambda>fn k a. Some (0, Out_int), False), (\<lambda>fn k a. if fn = ''lin_add'' then Some (0, Out_int) else None, True)],
     precompile_depth = 0, build_depth = 1, build_observed = 0, gate_reports = []\<rparr>"

theorem build_gate_exact_witness:
  "fst (lin_build_gate id ''lin_add'' False demo_gate) \<and> \<not> fst (lin_build_gate id ''getenv'' False demo_gate)"
  using build_gate_exact[where S = demo_gate and plugin = id and fn = "''lin_add''" and pure = False]
    build_gate_exact[where S = demo_gate and plugin = id and fn = "''getenv''" and pure = False]
  by (simp add: demo_gate_def in_build_def split: prod.splits)

end
