(* ===== verification/Container.thy ===== *)
theory Container
  imports NetOps Registry
begin

text \<open>
  The \<open>.line\<close> container (\<open>net_save_line\<close>, \<open>net_load_line\<close> in \<open>src/compile.c\<close>, the driver sections of
  \<open>src/net.c\<close>).  A file is a list of bytes; words are written in the order of the machine the artifacts are
  made for, least significant byte first, and a port is the word of its two bit fields.
\<close>

type_synonym byte = "8 word"

section \<open>Words, ports and fields\<close>

definition le32 :: "32 word \<Rightarrow> byte list" where
  "le32 w = map (\<lambda>i. ucast (drop_bit (8 * i) w)) [0, 1, 2, 3]"

definition of_le32 :: "byte list \<Rightarrow> 32 word" where
  "of_le32 bs = foldr (\<lambda>b w. ucast b OR push_bit 8 w) bs 0"

definition port_word :: "port \<Rightarrow> 32 word" where
  "port_word p = (word_of_int (node p) AND mask 30) OR push_bit 30 (of_nat (pno p))"

definition word_port :: "32 word \<Rightarrow> port" where
  "word_port w = Port (sint (ucast w :: 30 word)) (unat (drop_bit 30 w))"

definition text_bytes :: "string \<Rightarrow> byte list" where
  "text_bytes s = map of_char s"

definition bytes_text :: "byte list \<Rightarrow> string" where
  "bytes_text bs = map (\<lambda>b. char_of (unat b)) bs"

text \<open>\<open>fread\<close> of a number of bytes: all of them, or the read fails.\<close>

definition fread :: "nat \<Rightarrow> byte list \<Rightarrow> (byte list \<times> byte list) option" where
  "fread k bs = (if length bs < k then None else Some (take k bs, drop k bs))"

definition read32 :: "byte list \<Rightarrow> (32 word \<times> byte list) option" where
  "read32 bs = map_option (\<lambda>(w, r). (of_le32 w, r)) (fread 4 bs)"

text \<open>An array of words.\<close>

fun read_words :: "nat \<Rightarrow> byte list \<Rightarrow> (32 word list \<times> byte list) option" where
  "read_words 0 bs = Some ([], bs)"
| "read_words (Suc k) bs =
     (case read32 bs of None \<Rightarrow> None
      | Some (w, r) \<Rightarrow> map_option (\<lambda>(ws, r'). (w # ws, r')) (read_words k r))"

section \<open>Driver sections\<close>

text \<open>\<open>lin_driver_carry_write\<close>.  \<open>save\<close> is the driver's \<open>carry_save\<close>: the bytes it has to keep, if any.\<close>

definition section_of :: "(driver \<Rightarrow> byte list option) \<Rightarrow> driver \<Rightarrow> (driver \<times> byte list) option" where
  "section_of save d =
     (case (if has d H_carry_save then save d else None) of
        Some blob \<Rightarrow> Some (d, blob)
      | None \<Rightarrow> if carries_presence d then Some (d, []) else None)"

definition carry_sections :: "(driver \<Rightarrow> byte list option) \<Rightarrow> registry \<Rightarrow> (driver \<times> byte list) list" where
  "carry_sections save R =
     List.map_filter (\<lambda>x. case x of None \<Rightarrow> None | Some d \<Rightarrow> section_of save d) (slots R)"

definition driver_text :: "driver \<Rightarrow> string" where
  "driver_text d = (case dname d of None \<Rightarrow> [] | Some s \<Rightarrow> s)"

definition section_bytes :: "driver \<times> byte list \<Rightarrow> byte list" where
  "section_bytes s =
     (case s of (d, blob) \<Rightarrow>
        let name = driver_text d in
        if 255 < length name then []
        else let l32 = of_nat (length blob) :: 32 word
             in of_nat (length name) # text_bytes name @ le32 l32 @ take (unat l32) blob)"

definition carry_write :: "(driver \<Rightarrow> byte list option) \<Rightarrow> registry \<Rightarrow> byte list" where
  "carry_write save R =
     (let secs = carry_sections save R in le32 (of_nat (length secs)) @ concat (map section_bytes secs))"

text \<open>\<open>lin_driver_carry_read\<close>: each section goes to the driver of its name, loaded if it is absent; a short
  read ends the loop.  \<open>open_plugin\<close> is \<open>lin_driver_load\<close> and \<open>carry_load\<close> the hook of a driver.\<close>

record 's carriers =
  open_plugin :: "string \<Rightarrow> registry \<Rightarrow> registry"
  carry_load :: "driver \<Rightarrow> byte list \<Rightarrow> 's \<Rightarrow> 's"

definition give_section :: "'s carriers \<Rightarrow> string \<Rightarrow> byte list \<Rightarrow> registry \<times> 's \<Rightarrow> registry \<times> 's" where
  "give_section H name blob s =
     (case s of (R, st) \<Rightarrow>
        let R1 = (case driver_by_name R name of Some d \<Rightarrow> R | None \<Rightarrow> open_plugin H name R) in
        (case driver_by_name R1 name of
           Some d \<Rightarrow> (R1, if has d H_carry_load then carry_load H d blob st else st)
         | None \<Rightarrow> (R1, st)))"

definition read_section :: "byte list \<Rightarrow> (string \<times> byte list \<times> byte list) option" where
  "read_section bs =
     (case fread 1 bs of None \<Rightarrow> None
      | Some (l, r1) \<Rightarrow>
          (case fread (unat (hd l)) r1 of None \<Rightarrow> None
           | Some (name, r2) \<Rightarrow>
               (case read32 r2 of None \<Rightarrow> None
                | Some (len, r3) \<Rightarrow>
                    map_option (\<lambda>(blob, r4). (bytes_text (takeWhile (\<lambda>b. b \<noteq> 0) name), blob, r4)) (fread (unat len) r3))))"

fun carry_read :: "'s carriers \<Rightarrow> nat \<Rightarrow> byte list \<Rightarrow> registry \<times> 's \<Rightarrow> registry \<times> 's" where
  "carry_read H 0 bs s = s"
| "carry_read H (Suc k) bs s =
     (case read_section bs of None \<Rightarrow> s
      | Some (name, blob, r) \<Rightarrow> carry_read H k r (give_section H name blob s))"

definition carry_legacy :: "'s carriers \<Rightarrow> int \<Rightarrow> byte list \<Rightarrow> registry \<times> 's \<Rightarrow> registry \<times> 's" where
  "carry_legacy H dm blob s =
     (case s of (R, st) \<Rightarrow>
        (case domain_provider R dm of
           Some d \<Rightarrow> (R, if has d H_carry_load then carry_load H d blob st else st)
         | None \<Rightarrow> (R, st)))"

section \<open>Writing a net\<close>

definition nodes_of :: "net \<Rightarrow> int list" where
  "nodes_of n = map int [0..<nat (nn n)]"

definition levels_of :: "net \<Rightarrow> nat list" where
  "levels_of n = [1..<Suc (nlv (lvl n))]"

definition wire_words :: "net \<Rightarrow> int \<Rightarrow> 32 word list" where
  "wire_words n v = map (\<lambda>p. port_word (wire n (Port v p))) [0, 1, 2]"

definition net_save_line :: "string \<Rightarrow> (driver \<Rightarrow> byte list option) \<Rightarrow> registry \<Rightarrow> net \<Rightarrow> byte list" where
  "net_save_line self save R n =
     text_bytes (''#!'' @ self) @ [10] @ text_bytes ''LINE'' @
     concat (map le32 [7, word_of_int (nn n), of_nat (nlv (lvl n)), 0]) @
     map (\<lambda>v. of_nat (tag_code (tag n v))) (nodes_of n) @
     map (\<lambda>v. if dead n v then 1 else 0) (nodes_of n) @
     concat (map (\<lambda>v. concat (map le32 (wire_words n v))) (nodes_of n)) @
     concat (map (\<lambda>v. le32 (of_nat (scope n v))) (nodes_of n)) @
     concat (map (\<lambda>l. le32 (of_nat (lv_parent (lvl n) l))) (levels_of n)) @
     map (\<lambda>l. of_nat (lv_bit (lvl n) l)) (levels_of n) @
     le32 (of_nat (length (root n))) @ concat (map (\<lambda>p. le32 (port_word p)) (root n)) @
     carry_write save R"

section \<open>Reading a net\<close>

text \<open>The shebang: skipped up to its newline when the first two bytes are \<open>#!\<close>.\<close>

definition skip_shebang :: "byte list \<Rightarrow> byte list" where
  "skip_shebang bs =
     (if take 2 bs = text_bytes ''#!'' then drop 1 (dropWhile (\<lambda>b. b \<noteq> 10) (drop 2 bs)) else bs)"

text \<open>The byte of a tag; bytes past the last tag, which no writer makes, have no tag of their own here.\<close>

definition code_tag :: "byte \<Rightarrow> ntag" where
  "code_tag b = (if b = 0 then LAM else if b = 1 then APP else if b = 2 then DUP else if b = 3 then ERA else ROOT)"

text \<open>The arrays of the nodes, entered over a blank net.\<close>

definition wire_at :: "32 word list \<Rightarrow> (port \<Rightarrow> port) \<Rightarrow> int \<Rightarrow> port \<Rightarrow> port" where
  "wire_at ws w0 k p =
     (if 0 \<le> node p \<and> node p < k \<and> pno p < 3 then word_port (ws ! (nat (node p) * 3 + pno p)) else w0 p)"

definition fill_nodes :: "nat \<Rightarrow> byte list \<Rightarrow> byte list \<Rightarrow> 32 word list \<Rightarrow> 32 word list \<Rightarrow> net \<Rightarrow> net" where
  "fill_nodes k tags deads ws scs n =
     (let inside = (\<lambda>v. 0 \<le> v \<and> v < int k) in
      n\<lparr>nn := int k,
        tag := (\<lambda>v. if inside v then code_tag (tags ! nat v) else tag n v),
        dead := (\<lambda>v. if inside v then deads ! nat v \<noteq> 0 else dead n v),
        wire := wire_at ws (wire n) (int k),
        scope := (\<lambda>v. if inside v then unat (scs ! nat v) else scope n v)\<rparr>)"

definition read_nodes :: "nat \<Rightarrow> net \<Rightarrow> byte list \<Rightarrow> (net \<times> byte list) option" where
  "read_nodes k n bs =
     (case fread k bs of None \<Rightarrow> None | Some (tags, r1) \<Rightarrow>
      case fread k r1 of None \<Rightarrow> None | Some (deads, r2) \<Rightarrow>
      case read_words (3 * k) r2 of None \<Rightarrow> None | Some (ws, r3) \<Rightarrow>
      case read_words k r3 of None \<Rightarrow> None | Some (scs, r4) \<Rightarrow> Some (fill_nodes k tags deads ws scs n, r4))"

text \<open>The carrier names of old containers, read and dropped.\<close>

fun skip_names :: "nat \<Rightarrow> byte list \<Rightarrow> byte list option" where
  "skip_names 0 bs = Some bs"
| "skip_names (Suc k) bs =
     (case fread 4 bs of None \<Rightarrow> None | Some (idx, r1) \<Rightarrow>
      case fread 1 r1 of None \<Rightarrow> None | Some (len, r2) \<Rightarrow>
      case fread (unat (hd len)) r2 of None \<Rightarrow> None | Some (name, r3) \<Rightarrow> skip_names k r3)"

definition read_levels :: "nat \<Rightarrow> net \<Rightarrow> byte list \<Rightarrow> (net \<times> byte list) option" where
  "read_levels k n bs =
     (if k = 0 then Some (n, bs)
      else case read_words k bs of None \<Rightarrow> None | Some (par, r1) \<Rightarrow>
           case fread k r1 of None \<Rightarrow> None | Some (br, r2) \<Rightarrow>
             Some (n\<lparr>lvl := net_level_set (lvl n) (map unat par) (map unat br)\<rparr>, r2))"

definition read_roots :: "net \<Rightarrow> byte list \<Rightarrow> (net \<times> byte list) option" where
  "read_roots n bs =
     (case read32 bs of None \<Rightarrow> None | Some (k, r1) \<Rightarrow>
      case read_words (unat k) r1 of None \<Rightarrow> None | Some (ws, r2) \<Rightarrow>
        Some (foldl lin_demand n (map word_port ws), r2))"

text \<open>Every principal pair with the lower node first is queued.\<close>

definition requeue :: "net \<Rightarrow> net" where
  "requeue n =
     foldl (\<lambda>n v. if pno (wire n (Port v 0)) = 0 \<and> v < node (wire n (Port v 0))
                  then lin_enqueue n (Port v 0) (wire n (Port v 0)) else n) n (nodes_of n)"

text \<open>The tail of a container by its version: the float table of version 4, the sections of later ones.\<close>

definition read_tail :: "'s carriers \<Rightarrow> nat \<Rightarrow> byte list \<Rightarrow> registry \<times> 's \<Rightarrow> (registry \<times> 's) option" where
  "read_tail H ver bs s =
     (if ver = 4
      then case read32 bs of None \<Rightarrow> None
           | Some (nf, r1) \<Rightarrow>
               if nf = 0 then Some s
               else (case fread (8 * unat nf) r1 of None \<Rightarrow> None | Some (d, r2) \<Rightarrow> Some (carry_legacy H 4 d s))
      else if 5 \<le> ver
      then case read32 bs of None \<Rightarrow> None | Some (cnt, r1) \<Rightarrow> Some (carry_read H (unat cnt) r1 s)
      else Some s)"

text \<open>A count in the header is an \<open>int\<close>; a negative one asks \<open>fread\<close> for more than any file holds.\<close>

definition net_load_line :: "env \<Rightarrow> 's carriers \<Rightarrow> byte list \<Rightarrow> registry \<times> 's \<Rightarrow> (net \<times> registry \<times> 's) option" where
  "net_load_line E H file s =
     (case fread 4 (skip_shebang file) of None \<Rightarrow> None | Some (mgc, r1) \<Rightarrow>
      if mgc \<noteq> text_bytes ''LINE'' then None
      else case read_words 4 r1 of None \<Rightarrow> None | Some (hdr, r2) \<Rightarrow>
        let ver = unat (hdr ! 0); k = sint (hdr ! 1); nl = sint (hdr ! 2) in
        if ver \<notin> {3, 4, 5, 6, 7} \<or> k < 0 then None
        else case read_nodes (nat k) (net_init E (k + 16)) r2 of None \<Rightarrow> None | Some (n1, r3) \<Rightarrow>
             case skip_names (unat (hdr ! 3)) r3 of None \<Rightarrow> None | Some r4 \<Rightarrow>
             case read_levels (nat nl) n1 r4 of None \<Rightarrow> None | Some (n2, r5) \<Rightarrow>
             case (if 7 \<le> ver then read_roots n2 r5 else Some (n2, r5)) of None \<Rightarrow> None | Some (n3, r6) \<Rightarrow>
             case read_tail H ver r6 s of None \<Rightarrow> None | Some s' \<Rightarrow> Some (requeue n3, s'))"

end
