(* ===== verification/ContainerProps.thy ===== *)
theory ContainerProps
  imports Container
begin

text \<open>
  What the container keeps: bytes, words and ports read back as they were written, an array at a time, and a
  net loaded from the bytes of a net has its nodes, wires, levels and demand roots.
\<close>

section \<open>Words and ports\<close>

lemma length_le32 [simp]: "length (le32 w) = 4"
  by (simp add: le32_def)

lemma of_le32_le32 [simp]: "of_le32 (le32 w) = w"
proof (rule bit_word_eqI)
  fix k assume "k < LENGTH(32)"
  then have "k < 32" by simp
  then consider "k < 8" | j where "k = 8 + j" "j < 8" | j where "k = 16 + j" "j < 8" | j where "k = 24 + j" "j < 8"
    by atomize_elim presburger
  then show "bit (of_le32 (le32 w)) k = bit w k"
    by cases (simp_all add: le32_def of_le32_def bit_simps)
qed

lemma word_port_word [simp]:
  assumes "- (2 ^ 29) \<le> node p" "node p < 2 ^ 29" "pno p < 4"
  shows "word_port (port_word p) = p"
proof (rule port_eqI)
  let ?w = "port_word p"
  have q: "of_nat (pno p) = (of_nat (pno p) :: 32 word)" by simp
  have lo: "ucast ?w = (word_of_int (node p) :: 30 word)"
    by (rule bit_word_eqI) (auto simp: port_word_def bit_simps)
  show "node (word_port ?w) = node p"
    using assms(1,2) by (simp add: word_port_def lo signed_of_int signed_take_bit_int_eq_self)
  have "drop_bit 30 ?w = of_nat (pno p)"
  proof (rule bit_word_eqI)
    fix k assume "k < LENGTH(32)"
    have "\<not> bit (pno p) j" if "2 \<le> j" for j
    proof -
      have "pno p < 2 ^ j" using assms(3) power_increasing[OF that, of "2::nat"] by simp
      then show ?thesis by (simp add: bit_iff_odd)
    qed
    then show "bit (drop_bit 30 ?w) k = bit (of_nat (pno p) :: 32 word) k"
      using \<open>k < LENGTH(32)\<close> not_le[of 2 k] by (auto simp: port_word_def bit_simps)
  qed
  then show "pno (word_port ?w) = pno p" using assms(3) by (simp add: word_port_def unsigned_of_nat take_bit_nat_eq_self)
qed

section \<open>Reading what was written\<close>

lemma fread_append [simp]: "length xs = k \<Longrightarrow> fread k (xs @ ys) = Some (xs, ys)"
  by (auto simp: fread_def)

lemma fread_one [simp]: "fread 1 (b # ys) = Some ([b], ys)" "fread (Suc 0) (b # ys) = Some ([b], ys)"
  by (auto simp: fread_def)

lemma read32_append [simp]: "read32 (le32 w @ ys) = Some (w, ys)"
  by (simp add: read32_def)

lemma read_words_append: "length ws = k \<Longrightarrow> read_words k (concat (map le32 ws) @ ys) = Some (ws, ys)"
  by (induction ws arbitrary: k) auto

lemma unat_char: "unat (of_char c :: byte) = of_char c"
proof -
  have "unat (of_nat (of_char c) :: byte) = of_char c mod 256"
    by (simp add: unsigned_of_nat take_bit_eq_mod)
  then show ?thesis by (simp add: of_nat_of_char)
qed

lemma text_bytes_inverse [simp]: "bytes_text (text_bytes s) = s"
  by (induction s) (simp_all add: text_bytes_def bytes_text_def unat_char)

lemma length_text_bytes [simp]: "length (text_bytes s) = length s"
  by (simp add: text_bytes_def)

section \<open>Sections\<close>

text \<open>A section fits the format: a name of at most 255 characters without the zero that ends a C string.\<close>

definition section_fits :: "driver \<times> byte list \<Rightarrow> bool" where
  "section_fits s \<longleftrightarrow> length (driver_text (fst s)) \<le> 255 \<and> CHR 0x00 \<notin> set (driver_text (fst s)) \<and> length (snd s) < 2 ^ 32"

lemma read_section_bytes:
  assumes "section_fits s"
  shows "read_section (section_bytes s @ ys) = Some (driver_text (fst s), snd s, ys)"
proof -
  obtain d blob where s: "s = (d, blob)" by fastforce
  let ?t = "driver_text d"
  have l: "length ?t \<le> 255" "length blob < 2 ^ 32" and z: "CHR 0x00 \<notin> set ?t"
    using assms by (auto simp: section_fits_def s)
  have n: "unat (of_nat (length ?t) :: byte) = length ?t"
    using l(1) by (simp add: unsigned_of_nat take_bit_nat_eq_self)
  have b: "unat (of_nat (length blob) :: 32 word) = length blob"
    using l(2) by (simp add: unsigned_of_nat take_bit_nat_eq_self)
  have "of_char c \<noteq> (0 :: byte)" if "c \<in> set ?t" for c
  proof
    assume "of_char c = (0 :: byte)"
    then have "unat (of_char c :: byte) = 0" by simp
    then have "char_of (of_char c :: nat) = char_of (0 :: nat)" by (simp only: unat_char)
    then have "c = CHR 0x00" unfolding char_of_char by (simp add: char_of_def)
    then show False using z that by simp
  qed
  then have t: "takeWhile (\<lambda>b. b \<noteq> 0) (text_bytes ?t) = text_bytes ?t"
    by (auto simp: text_bytes_def takeWhile_eq_all_conv)
  have e: "section_bytes s @ ys =
     of_nat (length ?t) # text_bytes ?t @ le32 (of_nat (length blob)) @ blob @ ys"
    using l(1) by (simp add: section_bytes_def s b Let_def)
  have "fread (length ?t) (text_bytes ?t @ r) = Some (text_bytes ?t, r)" for r by simp
  moreover have "fread (length blob) (blob @ ys) = Some (blob, ys)" by simp
  ultimately show ?thesis unfolding e by (simp add: read_section_def n b t s)
qed

lemma carry_read_sections:
  "\<forall>s \<in> set secs. section_fits s \<Longrightarrow>
   carry_read H (length secs) (concat (map section_bytes secs)) st =
     fold (\<lambda>s. give_section H (driver_text (fst s)) (snd s)) secs st"
proof (induction secs arbitrary: st)
  case (Cons x xs)
  then show ?case by (simp add: read_section_bytes)
qed simp

section \<open>Nodes\<close>

definition port_fits :: "port \<Rightarrow> bool" where
  "port_fits p \<longleftrightarrow> - (2 ^ 29) \<le> node p \<and> node p < 2 ^ 29 \<and> pno p < 4"

lemma word_port_fits [simp]: "port_fits p \<Longrightarrow> word_port (port_word p) = p"
  by (simp add: port_fits_def)

lemma nth_triples:
  assumes "\<And>i. length (f i) = 3" "i < k" "p < 3"
  shows "concat (map f [0..<k]) ! (i * 3 + p) = f i ! p"
proof -
  have len: "length (concat (map f [0..<j])) = j * 3" for j
    by (induction j) (simp_all add: assms(1))
  show ?thesis using assms(2)
  proof (induction k)
    case (Suc k)
    show ?case
    proof (cases "i < k")
      case True
      then have "i * 3 + p < k * 3" using assms(3) by simp
      then show ?thesis using Suc.IH[OF True] by (simp add: nth_append len)
    next
      case False
      then have "i = k" using Suc.prems by simp
      then show ?thesis using assms(3) by (simp add: nth_append len)
    qed
  qed simp
qed

lemma concat_map_concat: "concat (map (\<lambda>x. concat (g x)) xs) = concat (concat (map g xs))"
  by (induction xs) simp_all

lemma code_tag_code [simp]: "code_tag (of_nat (tag_code t)) = t"
  by (cases t) (simp_all add: code_tag_def)

lemma unat_small [simp]: "k < 2 ^ 32 \<Longrightarrow> unat (of_nat k :: 32 word) = k"
  by (simp add: unsigned_of_nat take_bit_nat_eq_self)

text \<open>The arrays of \<open>n\<close> over a net \<open>b\<close>: the nodes of \<open>n\<close> with their wires.\<close>

definition same_nodes :: "net \<Rightarrow> net \<Rightarrow> bool" where
  "same_nodes n m \<longleftrightarrow> nn m = nn n \<and>
     (\<forall>v. in_net n v \<longrightarrow> tag m v = tag n v \<and> dead m v = dead n v \<and> scope m v = scope n v \<and>
        (\<forall>p < 3. wire m (Port v p) = wire n (Port v p)))"

definition nodes_fit :: "net \<Rightarrow> bool" where
  "nodes_fit n \<longleftrightarrow> 0 \<le> nn n \<and> (\<forall>v. in_net n v \<longrightarrow> scope n v < 2 ^ 32 \<and> (\<forall>p < 3. port_fits (wire n (Port v p))))"

lemma read_nodes_saved:
  assumes fit: "nodes_fit n"
  defines "k \<equiv> nat (nn n)"
  shows "\<exists>m. read_nodes k b
     (map (\<lambda>v. of_nat (tag_code (tag n v))) (nodes_of n) @ map (\<lambda>v. if dead n v then 1 else 0) (nodes_of n) @
      concat (map (\<lambda>v. concat (map le32 (wire_words n v))) (nodes_of n)) @
      concat (map (\<lambda>v. le32 (of_nat (scope n v))) (nodes_of n)) @ r) = Some (m, r) \<and> same_nodes n m \<and>
     m = b\<lparr>nn := nn m, tag := tag m, dead := dead m, wire := wire m, scope := scope m\<rparr>"
proof -
  let ?ws = "concat (map (\<lambda>i. wire_words n (int i)) [0..<k])"
  define scs where "scs = map (\<lambda>v. of_nat (scope n v) :: 32 word) (nodes_of n)"
  have nodes: "nodes_of n = map int [0..<k]" by (simp add: nodes_of_def k_def)
  have w: "concat (map (\<lambda>v. concat (map le32 (wire_words n v))) (nodes_of n)) = concat (map le32 ?ws)"
    by (simp add: nodes map_concat comp_def concat_map_concat)
  have sc: "concat (map (\<lambda>v. le32 (of_nat (scope n v))) (nodes_of n)) = concat (map le32 scs)"
    by (simp add: comp_def scs_def)
  have "length ?ws = 3 * k" by (induction k) (simp_all add: wire_words_def)
  note rw = read_words_append[OF this] and rs = read_words_append[of scs k]
  define tags :: "byte list" where "tags = map (\<lambda>v. of_nat (tag_code (tag n v))) (nodes_of n)"
  define deads :: "byte list" where "deads = map (\<lambda>v. if dead n v then 1 else 0) (nodes_of n)"
  define m where "m = fill_nodes k tags deads ?ws scs b"
  have l: "length tags = k" "length deads = k" "length scs = k" by (simp_all add: tags_def deads_def scs_def nodes)
  have r: "read_nodes k b (tags @ deads @ concat (map le32 ?ws) @ concat (map le32 scs) @ r) = Some (m, r)"
    using l by (simp add: read_nodes_def rw rs m_def)
  moreover have "same_nodes n m" unfolding same_nodes_def
  proof (intro conjI allI impI)
    show nn: "nn m = nn n" using fit by (simp add: m_def fill_nodes_def k_def nodes_fit_def)
    fix v assume v: "in_net n v"
    then have i: "0 \<le> v" "nat v < k" "v < int k" by (auto simp: in_net_def k_def)
    have at: "nodes_of n ! nat v = v" using i by (simp add: nodes)
    have "nat v < length (nodes_of n)" using i by (simp add: nodes)
    then show "tag m v = tag n v" "dead m v = dead n v" "scope m v = scope n v"
      using i at fit v by (auto simp: m_def fill_nodes_def Let_def tags_def deads_def scs_def nodes_fit_def)
    fix p :: nat assume p: "p < 3"
    have "?ws ! (nat v * 3 + p) = wire_words n (int (nat v)) ! p"
      using i(2) p by (intro nth_triples) (simp_all add: wire_words_def)
    also have "\<dots> = port_word (wire n (Port v p))"
      using p i(1) by (auto simp: wire_words_def less_Suc_eq numeral_eq_Suc)
    finally show "wire m (Port v p) = wire n (Port v p)"
      using i p fit v by (simp add: m_def fill_nodes_def wire_at_def Let_def nodes_fit_def)
  qed
  moreover have "m = b\<lparr>nn := nn m, tag := tag m, dead := dead m, wire := wire m, scope := scope m\<rparr>"
    by (simp add: m_def fill_nodes_def Let_def)
  ultimately show ?thesis unfolding w sc tags_def[symmetric] deads_def[symmetric] by blast
qed

section \<open>Levels and roots\<close>

lemma same_paths:
  assumes L: "lv_wf L" and M: "lv_wf M" and k: "nlv M = nlv L"
    and same: "\<And>l. 1 \<le> l \<Longrightarrow> l \<le> nlv L \<Longrightarrow> lv_parent M l = lv_parent L l \<and> lv_bit M l = lv_bit L l"
    and s: "s \<le> nlv L"
  shows "lvl_path M s = lvl_path L s"
  using L s
proof (induction s rule: level_induct)
  case (step l)
  then show ?case using same[of l] by (simp add: lvl_path_step[OF L] lvl_path_step[OF M] k)
qed simp

lemma read_levels_saved:
  assumes wf: "lv_wf (lvl n)" and small: "nlv (lvl n) < 2 ^ 29" and b: "lvl b = levels_init"
  shows "\<exists>L. read_levels (nlv (lvl n)) b
     (concat (map (\<lambda>l. le32 (of_nat (lv_parent (lvl n) l))) (levels_of n)) @
      map (\<lambda>l. of_nat (lv_bit (lvl n) l)) (levels_of n) @ r) = Some (b\<lparr>lvl := L\<rparr>, r) \<and>
     lv_wf L \<and> nlv L = nlv (lvl n) \<and> (\<forall>s \<le> nlv (lvl n). lvl_path L s = lvl_path (lvl n) s)"
proof (cases "nlv (lvl n) = 0")
  case True
  have "b = b\<lparr>lvl := levels_init\<rparr>" using b by simp
  moreover have "nlv levels_init = 0" by simp
  moreover have "levels_of n = []" using True by (simp add: levels_of_def)
  ultimately show ?thesis using True lv_wf_init by (intro exI[of _ levels_init]) (simp add: read_levels_def)
next
  case False
  let ?L = "lvl n" and ?k = "nlv (lvl n)"
  define par where "par = map (lv_parent ?L) (levels_of n)"
  define br where "br = map (lv_bit ?L) (levels_of n)"
  have lo: "levels_of n = [1..<Suc ?k]" by (simp add: levels_of_def)
  have len: "length par = ?k" "length br = ?k" by (simp_all add: par_def br_def lo del: upt_Suc)
  have at: "par ! (l - 1) = lv_parent ?L l" "br ! (l - 1) = lv_bit ?L l" if "1 \<le> l" "l \<le> ?k" for l
    using that by (simp_all add: par_def br_def lo nth_upt del: upt_Suc)
  have lt: "lv_parent ?L l < l" "lv_bit ?L l < 256" if "1 \<le> l" "l \<le> ?k" for l
    using lv_edgesD[OF wf that] by blast+
  have inl: "l \<in> set (levels_of n) \<longleftrightarrow> 1 \<le> l \<and> l \<le> ?k" for l by (auto simp: lo simp del: upt_Suc)
  have rdb: "map unat (map of_nat par :: 32 word list) = par" "map unat (map of_nat br :: byte list) = br"
  proof -
    have "x < 2 ^ 32" if "x \<in> set par" for x
      using that lt(1) small by (fastforce simp: par_def inl)
    then show "map unat (map of_nat par :: 32 word list) = par" by (simp add: map_idI)
    have "x < 256" if "x \<in> set br" for x using that lt(2) by (auto simp: br_def inl)
    then show "map unat (map of_nat br :: byte list) = br"
      by (simp add: map_idI unsigned_of_nat take_bit_nat_eq_self)
  qed
  have bytes: "concat (map (\<lambda>l. le32 (of_nat (lv_parent ?L l))) (levels_of n)) = concat (map le32 (map of_nat par))"
    "map (\<lambda>l. of_nat (lv_bit ?L l)) (levels_of n) = (map of_nat br :: byte list)"
    by (simp_all add: par_def br_def comp_def)
  define L where "L = net_level_set levels_init par br"
  have rd: "read_levels ?k b (concat (map le32 (map of_nat par)) @ map of_nat br @ r) = Some (b\<lparr>lvl := L\<rparr>, r)"
    using False len rdb b
    by (simp add: read_levels_def read_words_append L_def del: map_map)
  have "distinct (zip par br)"
  proof -
    have "zip par br = map (lv_key ?L) (levels_of n)"
      by (simp add: par_def br_def zip_map_map zip_same_conv_map lv_key_def comp_def)
    moreover have "inj_on (lv_key ?L) (set (levels_of n))"
      using table_keys_inj[OF wf] by (rule inj_on_subset) (auto simp: inl)
    ultimately show ?thesis by (simp add: distinct_map lo del: upt_Suc)
  qed
  moreover have "\<forall>x \<in> set br. x < 256" using lt(2) by (auto simp: br_def inl)
  moreover have "par ! (l - 1) < l" if "1 \<le> l" "l \<le> length par" for l using at lt that len by simp
  moreover have "length br = length par" "length par < 2 ^ 29" using len small by simp_all
  ultimately have L: "lv_wf L" "nlv L = ?k"
    "\<And>l. 1 \<le> l \<Longrightarrow> l \<le> ?k \<Longrightarrow> lv_parent L l = lv_parent ?L l \<and> lv_bit L l = lv_bit ?L l"
    using net_level_set_spec[where bits = br and par = par and L = levels_init] at len by (auto simp: L_def)
  show ?thesis unfolding bytes
    using rd L same_paths[OF wf L(1,2) L(3)] by blast
qed

lemma demand_roots:
  "\<forall>p \<in> set ps. in_net n (node p) \<Longrightarrow> distinct ps \<Longrightarrow> set ps \<inter> set (root n) = {} \<Longrightarrow>
   foldl lin_demand n ps = n\<lparr>root := root n @ ps\<rparr>"
proof (induction ps arbitrary: n)
  case (Cons p ps)
  have "lin_demand n p = n\<lparr>root := root n @ [p]\<rparr>" using Cons.prems by (simp add: lin_demand_def)
  moreover have "\<forall>q \<in> set ps. in_net (n\<lparr>root := root n @ [p]\<rparr>) (node q)" using Cons.prems by (simp add: in_net_def)
  ultimately show ?case using Cons by simp
qed simp

lemma read_roots_saved:
  assumes "\<forall>p \<in> set ps. in_net n (node p) \<and> port_fits p" "distinct ps" "length ps < 2 ^ 32" "root n = []"
  shows "read_roots n (le32 (of_nat (length ps)) @ concat (map (\<lambda>p. le32 (port_word p)) ps) @ r) =
    Some (n\<lparr>root := ps\<rparr>, r)"
proof -
  have "map word_port (map port_word ps) = ps" using assms(1) by (simp add: map_idI)
  moreover have "concat (map (\<lambda>p. le32 (port_word p)) ps) = concat (map le32 (map port_word ps))"
    by (simp add: comp_def)
  ultimately show ?thesis
    using assms demand_roots[of ps n] by (simp add: read_roots_def read_words_append del: map_map)
qed

section \<open>The queue\<close>

text \<open>A slot that is not alive does not claim the principal port of a node that is.\<close>

definition dead_apart :: "net \<Rightarrow> bool" where
  "dead_apart n \<longleftrightarrow> (\<forall>v. in_net n v \<and> dead n v \<longrightarrow> \<not> live n (node (wire n (Port v 0))))"

definition requeue_step :: "net \<Rightarrow> int \<Rightarrow> net" where
  "requeue_step n v =
     (if pno (wire n (Port v 0)) = 0 \<and> v < node (wire n (Port v 0)) then lin_enqueue n (Port v 0) (wire n (Port v 0)) else n)"

lemma requeue_fold: "requeue n = foldl requeue_step n (nodes_of n)"
  by (simp add: requeue_def requeue_step_def[abs_def])

text \<open>Both ends of a redex are queued, or neither.\<close>

definition paired :: "net \<Rightarrow> net \<Rightarrow> bool" where
  "paired n m \<longleftrightarrow> (\<forall>x y. redex_live n (Port x 0) (Port y 0) \<longrightarrow> (0 \<le> act_of m x) = (0 \<le> act_of m y))"

lemma requeue_step_fields:
  "\<exists>A F. requeue_step m v = m\<lparr>act := A, act_of := F\<rparr>"
proof -
  have "m = m\<lparr>act := act m, act_of := act_of m\<rparr>" by simp
  then show ?thesis unfolding requeue_step_def lin_enqueue_def act_push_def by metis
qed

lemma requeue_step_queues:
  assumes w: "wired n {} {}" and da: "dead_apart n" and m: "wire m = wire n" and k: "paired n m" and v: "in_net n v"
  shows "paired n (requeue_step m v)" "0 \<le> act_of m x \<Longrightarrow> 0 \<le> act_of (requeue_step m v) x"
    "redex_live n (Port v 0) (Port y 0) \<Longrightarrow> v < y \<Longrightarrow> 0 \<le> act_of (requeue_step m v) v"
proof -
  let ?w = "wire n (Port v 0)"
  show mono: "0 \<le> act_of m x \<Longrightarrow> 0 \<le> act_of (requeue_step m v) x" for x
    by (auto simp: requeue_step_def lin_enqueue_def act_push_def)
  have rest: "act_of (requeue_step m v) z = act_of m z" if "z \<noteq> v" "z \<noteq> node ?w" for z
    using that by (auto simp: requeue_step_def lin_enqueue_def act_push_def m)
  have rl: "wire n (Port a 0) = Port b 0" "wire n (Port b 0) = Port a 0" "live n a" "live n b"
    if "redex_live n (Port a 0) (Port b 0)" for a b
    using that by (auto simp: redex_live_def)
  show "paired n (requeue_step m v)" unfolding paired_def
  proof (intro allI impI)
    fix a b assume ab: "redex_live n (Port a 0) (Port b 0)"
    note r = rl[OF ab]
    show "(0 \<le> act_of (requeue_step m v) a) = (0 \<le> act_of (requeue_step m v) b)"
    proof (cases "act_of (requeue_step m v) = act_of m")
      case True
      then show ?thesis using k ab by (simp add: paired_def)
    next
      case False
      then have p: "pno ?w = 0" and q: "0 \<le> act_of (requeue_step m v) v" "0 \<le> act_of (requeue_step m v) (node ?w)"
        by (auto simp: requeue_step_def lin_enqueue_def act_push_def m split: if_splits)
      have wp: "?w = Port (node ?w) 0" using p by (cases ?w) simp
      have "c = v \<Longrightarrow> d = node ?w" if "redex_live n (Port c 0) (Port d 0)" for c d using rl[OF that] by simp
      moreover have "c = node ?w \<Longrightarrow> d = v" if cd: "redex_live n (Port c 0) (Port d 0)" for c d
      proof -
        assume c: "c = node ?w"
        note r = rl[OF cd]
        have "live n v" using da v r(3) c by (auto simp: dead_apart_def live_def)
        then have "standing n {} (Port v 0)" by (simp add: standing_def)
        moreover have "?w \<noteq> NONE" using r(3) c by auto
        ultimately have "wire n ?w = Port v 0" using wired_back[OF w] by blast
        then show "d = v" using r(1) c wp by simp
      qed
      moreover have "redex_live n (Port b 0) (Port a 0)" using ab by (rule redex_live_sym)
      ultimately have "a \<in> {v, node ?w} \<longleftrightarrow> b \<in> {v, node ?w}" using ab by blast
      then show ?thesis using q rest[of a] rest[of b] k ab by (auto simp: paired_def)
    qed
  qed
  show "0 \<le> act_of (requeue_step m v) v" if r: "redex_live n (Port v 0) (Port y 0)" "v < y"
  proof -
    have "?w = Port y 0" using rl[OF r(1)] by simp
    moreover have "(0 \<le> act_of m v) = (0 \<le> act_of m y)" using k r(1) by (simp add: paired_def)
    ultimately show ?thesis using r(2) by (auto simp: requeue_step_def lin_enqueue_def act_push_def m)
  qed
qed

lemma requeue_all:
  assumes w: "wired n {} {}" and da: "dead_apart n" and none: "\<And>v. act_of n v < 0"
  shows "all_queued (requeue n) {}" "\<exists>A F. requeue n = n\<lparr>act := A, act_of := F\<rparr>"
proof -
  have main: "set vs \<subseteq> {v. in_net n v} \<Longrightarrow> (let m = foldl requeue_step n vs in
      paired n m \<and> (\<exists>A F. m = n\<lparr>act := A, act_of := F\<rparr>) \<and>
      (\<forall>v \<in> set vs. \<forall>y. redex_live n (Port v 0) (Port y 0) \<and> v < y \<longrightarrow> 0 \<le> act_of m v))" for vs
  proof (induction vs rule: rev_induct)
    case Nil
    have "n = n\<lparr>act := act n, act_of := act_of n\<rparr>" by simp
    then have "\<exists>A F. n = n\<lparr>act := A, act_of := F\<rparr>" by blast
    moreover have "paired n n" using none by (simp add: paired_def not_le[symmetric])
    ultimately show ?case by (simp add: Let_def)
  next
    case (snoc v vs)
    define m where "m = foldl requeue_step n vs"
    have IH: "paired n m" "\<exists>A F. m = n\<lparr>act := A, act_of := F\<rparr>"
      "\<forall>v \<in> set vs. \<forall>y. redex_live n (Port v 0) (Port y 0) \<and> v < y \<longrightarrow> 0 \<le> act_of m v"
      using snoc by (simp_all add: m_def Let_def)
    have wm: "wire m = wire n" using IH(2) by auto
    have v: "in_net n v" using snoc.prems by simp
    note st = requeue_step_queues[OF w da wm IH(1) v]
    have "\<exists>A F. requeue_step m v = n\<lparr>act := A, act_of := F\<rparr>"
      using IH(2) requeue_step_fields[of m v] by fastforce
    then show ?case using st IH(3) by (auto simp: m_def[symmetric] Let_def)
  qed
  have in_nodes: "v \<in> set (nodes_of n) \<longleftrightarrow> in_net n v" for v
  proof
    assume "in_net n v"
    then have "v = int (nat v)" "nat v \<in> set [0..<nat (nn n)]" by (auto simp: in_net_def)
    then show "v \<in> set (nodes_of n)" unfolding nodes_of_def set_map by (rule image_eqI)
  qed (auto simp: nodes_of_def in_net_def)
  define m where "m = requeue n"
  have sub: "set (nodes_of n) \<subseteq> {v. in_net n v}" using in_nodes by blast
  have m: "paired n m" "\<exists>A F. m = n\<lparr>act := A, act_of := F\<rparr>"
    "\<And>v y. in_net n v \<Longrightarrow> redex_live n (Port v 0) (Port y 0) \<Longrightarrow> v < y \<Longrightarrow> 0 \<le> act_of m v"
    using main[OF sub] by (auto simp: m_def requeue_fold Let_def in_nodes)
  show "\<exists>A F. requeue n = n\<lparr>act := A, act_of := F\<rparr>" using m(2) by (simp add: m_def)
  have same: "redex_live m p q = redex_live n p q" for p q
    using m(2) by (auto simp: redex_live_def live_def in_net_def)
  have "0 \<le> act_of m (node p)" if "redex_live n p q" for p q
  proof -
    have pq: "p = Port (node p) 0" "q = Port (node q) 0" "live n (node p)" "live n (node q)"
      using that by (auto simp: redex_live_def intro: port_eqI)
    have r: "redex_live n (Port (node p) 0) (Port (node q) 0)" using that pq(1,2) by metis
    then have r': "redex_live n (Port (node q) 0) (Port (node p) 0)" by (rule redex_live_sym)
    have ne: "node p \<noteq> node q" using redex_node_neq[OF w that] .
    have eq: "(0 \<le> act_of m (node p)) = (0 \<le> act_of m (node q))" using m(1) r by (simp add: paired_def)
    show ?thesis
    proof (cases "node p < node q")
      case True
      then show ?thesis using m(3)[OF live_in_net[OF pq(3)] r] by simp
    next
      case False
      then show ?thesis using m(3)[OF live_in_net[OF pq(4)] r'] ne eq by simp
    qed
  qed
  then show "all_queued (requeue n) {}" by (simp add: all_queued_def same flip: m_def)
qed

section \<open>The round trip\<close>

lemma same_nodes_live: "same_nodes n m \<Longrightarrow> live m v = live n v" "same_nodes n m \<Longrightarrow> in_net m v = in_net n v"
  by (auto simp: same_nodes_def live_def in_net_def)

lemma same_nodes_wire: "same_nodes n m \<Longrightarrow> in_net n (node p) \<Longrightarrow> pno p < 3 \<Longrightarrow> wire m p = wire n p"
  by (cases p) (auto simp: same_nodes_def)

lemma wired_same:
  assumes s: "same_nodes n m" and w: "wired n {} {}"
  shows "wired m {} {}"
  unfolding wired_def
proof (intro allI impI)
  fix p assume "standing m {} p"
  then have p: "standing n {} p" by (simp add: standing_def same_nodes_live[OF s])
  then have wp: "wire m p = wire n p" by (simp add: same_nodes_wire[OF s] standing_def live_in_net)
  show "linked m {} {} p"
  proof (cases "wire n p = NONE")
    case False
    note b = wired_back[OF w p False]
    then have "wire m (wire n p) = wire n (wire n p)"
      by (simp add: same_nodes_wire[OF s] standing_def live_in_net)
    then show ?thesis using b by (simp add: linked_def wp same_nodes_live[OF s] standing_def)
  qed (simp add: linked_def wp)
qed

lemma dead_apart_same: "same_nodes n m \<Longrightarrow> dead_apart n \<Longrightarrow> dead_apart m"
  unfolding dead_apart_def
proof (intro allI impI)
  fix v assume s: "same_nodes n m" and d: "\<forall>v. in_net n v \<and> dead n v \<longrightarrow> \<not> live n (node (wire n (Port v 0)))"
    and v: "in_net m v \<and> dead m v"
  have iv: "in_net n v" using v by (simp add: same_nodes_live[OF s])
  then have "wire m (Port v 0) = wire n (Port v 0)" "dead m v = dead n v" using s by (simp_all add: same_nodes_def)
  then show "\<not> live m (node (wire m (Port v 0)))" using d v iv by (simp add: same_nodes_live[OF s])
qed

lemma net_init_blank: "lvl (net_init E c) = levels_init" "root (net_init E c) = []" "act_of (net_init E c) v < 0"
  by (simp_all add: net_init_def net_alloc_def alloc_slot_def net_ensure_cap_def net_blank_def Let_def)

lemma skip_shebang_saved:
  assumes "CHR 0x0A \<notin> set self"
  shows "skip_shebang (text_bytes (''#!'' @ self) @ [10] @ r) = r"
proof -
  have "of_char c \<noteq> (10 :: byte)" if "c \<in> set self" for c
  proof
    assume "of_char c = (10 :: byte)"
    then have "unat (of_char c :: byte) = 10" by simp
    then have "char_of (of_char c :: nat) = char_of (10 :: nat)" by (simp only: unat_char)
    then have "c = CHR 0x0A" unfolding char_of_char by (simp add: char_of_def bit_iff_odd)
    then show False using assms that by simp
  qed
  then have "dropWhile (\<lambda>b. b \<noteq> 10) (text_bytes self @ [10] @ r) = [10] @ r"
    by (subst dropWhile_append2) (auto simp: text_bytes_def)
  then show ?thesis by (simp add: skip_shebang_def text_bytes_def)
qed

definition storable :: "net \<Rightarrow> bool" where
  "storable n \<longleftrightarrow> net_ok n \<and> nn n \<le> 2 ^ 29 \<and> nodes_fit n \<and> nlv (lvl n) < 2 ^ 29 \<and> dead_apart n \<and>
     distinct (root n) \<and> (\<forall>p \<in> set (root n). in_net n (node p) \<and> port_fits p) \<and> length (root n) < 2 ^ 32"

text \<open>What the loader has when it comes to the queue.\<close>

lemma load_saved:
  assumes n: "storable n" and self: "CHR 0x0A \<notin> set self"
    and fits: "\<forall>s \<in> set (carry_sections save R). section_fits s" "length (carry_sections save R) < 2 ^ 32"
  shows "\<exists>m. net_load_line E H (net_save_line self save R n) st =
      Some (requeue m, fold (\<lambda>s. give_section H (driver_text (fst s)) (snd s)) (carry_sections save R) st) \<and>
    same_nodes n m \<and> root m = root n \<and> lv_wf (lvl m) \<and> (\<forall>v. act_of m v < 0) \<and>
    (\<forall>s \<le> nlv (lvl n). lvl_path (lvl m) s = lvl_path (lvl n) s)"
proof -
  have ok: "net_ok n" "0 \<le> nn n" "nn n \<le> 2 ^ 29" "nodes_fit n" "nlv (lvl n) < 2 ^ 29" "dead_apart n"
    using n by (simp_all add: storable_def nodes_fit_def)
  have w: "wired n {} {}" and lv: "lv_wf (lvl n)" using ok(1) by (simp_all add: net_ok_def levels_ok_def)
  let ?b = "net_init E (nn n + 16)" and ?secs = "carry_sections save R"
  define tags :: "byte list" where "tags = map (\<lambda>v. of_nat (tag_code (tag n v))) (nodes_of n)"
  define deads :: "byte list" where "deads = map (\<lambda>v. if dead n v then 1 else 0) (nodes_of n)"
  define wires where "wires = concat (map (\<lambda>v. concat (map le32 (wire_words n v))) (nodes_of n))"
  define scopes where "scopes = concat (map (\<lambda>v. le32 (of_nat (scope n v))) (nodes_of n))"
  define pars where "pars = concat (map (\<lambda>l. le32 (of_nat (lv_parent (lvl n) l))) (levels_of n))"
  define brs :: "byte list" where "brs = map (\<lambda>l. of_nat (lv_bit (lvl n) l)) (levels_of n)"
  define roots where "roots = concat (map (\<lambda>p. le32 (port_word p)) (root n))"
  define secs where "secs = concat (map section_bytes ?secs)"
  define nsecs :: "32 word" where "nsecs = of_nat (length ?secs)"
  define nroots :: "32 word" where "nroots = of_nat (length (root n))"
  define hdr :: "32 word list" where "hdr = [7, word_of_int (nn n), of_nat (nlv (lvl n)), 0]"
  define r3 where "r3 = le32 nroots @ roots @ le32 nsecs @ secs"
  define r2 where "r2 = tags @ deads @ wires @ scopes @ pars @ brs @ r3"
  define r1 where "r1 = concat (map le32 hdr) @ r2"
  have fl: "net_save_line self save R n = text_bytes (''#!'' @ self) @ [10] @ text_bytes ''LINE'' @ r1"
    by (simp add: net_save_line_def carry_write_def Let_def r1_def r2_def r3_def tags_def deads_def wires_def
        scopes_def pars_def brs_def roots_def secs_def nsecs_def nroots_def hdr_def)
  obtain m1 where m1: "read_nodes (nat (nn n)) ?b r2 = Some (m1, pars @ brs @ r3)" and s1: "same_nodes n m1"
    and b1: "m1 = ?b\<lparr>nn := nn m1, tag := tag m1, dead := dead m1, wire := wire m1, scope := scope m1\<rparr>"
    using read_nodes_saved[OF ok(4), of ?b "pars @ brs @ r3"]
    unfolding r2_def tags_def deads_def wires_def scopes_def by blast
  have l1: "lvl m1 = levels_init" "root m1 = []" "\<And>v. act_of m1 v < 0"
    using net_init_blank[of E "nn n + 16"] by (subst b1, simp)+
  obtain L where L: "read_levels (nlv (lvl n)) m1 (pars @ brs @ r3) = Some (m1\<lparr>lvl := L\<rparr>, r3)" "lv_wf L"
    "\<forall>s \<le> nlv (lvl n). lvl_path L s = lvl_path (lvl n) s"
    using read_levels_saved[OF lv ok(5) l1(1), of r3] unfolding pars_def brs_def by blast
  let ?m2 = "m1\<lparr>lvl := L\<rparr>"
  have s2: "same_nodes n ?m2" using s1 by (simp add: same_nodes_def)
  have "read_roots ?m2 (le32 nroots @ roots @ le32 nsecs @ secs) = Some (?m2\<lparr>root := root n\<rparr>, le32 nsecs @ secs)"
    unfolding nroots_def roots_def using n l1(2)
    by (intro read_roots_saved) (simp_all add: storable_def same_nodes_live[OF s2])
  then have rr: "read_roots ?m2 r3 = Some (?m2\<lparr>root := root n\<rparr>, le32 nsecs @ secs)" by (simp add: r3_def)
  define m3 where "m3 = ?m2\<lparr>root := root n\<rparr>"
  have s3: "same_nodes n m3" using s1 by (simp add: same_nodes_def m3_def)
  have tl: "read_tail H 7 (le32 nsecs @ secs) st =
      Some (fold (\<lambda>s. give_section H (driver_text (fst s)) (snd s)) ?secs st)"
    using fits by (simp add: read_tail_def nsecs_def secs_def carry_read_sections)
  have a3: "act_of m3 v < 0" for v using l1(3) by (simp add: m3_def)
  have h: "unat (hdr ! 0) = 7" "sint (hdr ! 1) = nn n" "sint (hdr ! 2) = int (nlv (lvl n))" "hdr ! 3 = 0"
    using ok(2,3,5) by (simp_all add: hdr_def signed_of_int signed_of_nat signed_take_bit_int_eq_self)
  have rw: "read_words 4 r1 = Some (hdr, r2)" unfolding r1_def by (rule read_words_append) (simp add: hdr_def)
  have fr: "fread 4 (text_bytes ''LINE'' @ r1) = Some (text_bytes ''LINE'', r1)" by (rule fread_append) simp
  have m3r: "root m3 = root n" "lvl m3 = L" by (simp_all add: m3_def)
  have "net_load_line E H (net_save_line self save R n) st =
     Some (requeue m3, fold (\<lambda>s. give_section H (driver_text (fst s)) (snd s)) ?secs st)"
    unfolding net_load_line_def fl skip_shebang_saved[OF self] fr
    using ok(2) by (simp add: rw h m1 L(1) rr tl m3_def Let_def del: One_nat_def)
  then show ?thesis using s3 m3r L(2,3) a3 by (intro exI[of _ m3] conjI allI impI) (simp_all only:)
qed

text \<open>C37. The container is faithful: the bytes of a net load as a net with the same nodes, wires, levels and
  demand roots, every redex of which is queued again, and each driver gets its own section back.  The net has
  to fit the format (30-bit ports, 32-bit words), and no reclaimed slot may face a live node.\<close>

theorem container_round_trip:
  assumes n: "storable n" and self: "CHR 0x0A \<notin> set self"
    and fits: "\<forall>s \<in> set (carry_sections save R). section_fits s" "length (carry_sections save R) < 2 ^ 32"
  shows "\<exists>m. net_load_line E H (net_save_line self save R n) st =
      Some (m, fold (\<lambda>s. give_section H (driver_text (fst s)) (snd s)) (carry_sections save R) st) \<and>
    same_nodes n m \<and> root m = root n \<and> all_queued m {} \<and> lv_wf (lvl m) \<and>
    (\<forall>s \<le> nlv (lvl n). lvl_path (lvl m) s = lvl_path (lvl n) s)"
proof -
  have ok: "net_ok n" "dead_apart n" using n by (simp_all add: storable_def)
  have w: "wired n {} {}" using ok(1) by (simp add: net_ok_def)
  obtain m where m: "net_load_line E H (net_save_line self save R n) st =
      Some (requeue m, fold (\<lambda>s. give_section H (driver_text (fst s)) (snd s)) (carry_sections save R) st)"
    "same_nodes n m" "root m = root n" "lv_wf (lvl m)" "\<forall>v. act_of m v < 0"
    "\<forall>s \<le> nlv (lvl n). lvl_path (lvl m) s = lvl_path (lvl n) s"
    using load_saved[OF assms, where E = E and H = H and st = st] by (elim exE conjE) (rule that)
  note rq = requeue_all[OF wired_same[OF m(2) w] dead_apart_same[OF m(2) ok(2)] m(5)[rule_format]]
  obtain A F where q: "requeue m = m\<lparr>act := A, act_of := F\<rparr>" using rq(2) by blast
  have "same_nodes n (requeue m)" "root (requeue m) = root n" "lvl (requeue m) = lvl m"
    using m(2,3) by (simp_all add: q same_nodes_def)
  then show ?thesis using rq(1) m(1,4,6) by auto
qed

lemma beta_storable: "storable beta_net"
proof -
  have lv: "live beta_net v \<longleftrightarrow> 0 \<le> v \<and> v < 4" for v by (simp add: beta_net_def beta_alloc)
  have nn: "nn beta_net = 4" by (simp add: beta_net_def demo_links_def beta_links_def demo_eval net_link_def act_push_def)
  have all: "\<forall>q \<in> insert NONE (fst ` set beta_links \<union> snd ` set beta_links). port_fits q"
    by (simp add: beta_links_def port_fits_def NONE_def del: Port_eq_NONE NONE_eq_Port)
  have "wire beta_net p \<in> insert NONE (fst ` set beta_links \<union> snd ` set beta_links)" for p
    by (simp add: beta_net_wire beta_links_def link_ends_pair fun_upd_apply)
  then have fit: "port_fits (wire beta_net p)" for p by (rule bspec[OF all])
  have "nodes_fit beta_net" unfolding nodes_fit_def using fit by (simp add: nn) (simp add: beta_net_def beta_alloc)
  moreover have "dead_apart beta_net" unfolding dead_apart_def
  proof (intro allI impI)
    fix v assume "in_net beta_net v \<and> dead beta_net v"
    then have "0 \<le> v" "v < 4" "\<not> live beta_net v" by (auto simp: in_net_def nn live_def)
    then show "\<not> live beta_net (node (wire beta_net (Port v 0)))" using lv by simp
  qed
  moreover have "root beta_net = []" "lvl beta_net = levels_init"
    by (simp_all add: beta_net_def demo_links_def beta_links_def demo_eval net_link_def act_push_def levels_init_def)
  ultimately show ?thesis using beta_net_ok by (simp add: storable_def nn)
qed

theorem container_round_trip_witness:
  "\<exists>m. net_load_line seq_env \<lparr>open_plugin = (\<lambda>_ R. R), carry_load = (\<lambda>_ _ s. s)\<rparr>
      (net_save_line ''/bin/lin'' (\<lambda>_. None) registry_init beta_net) (registry_init, ()) = Some (m, registry_init, ()) \<and>
    same_nodes beta_net m \<and> all_queued m {}"
proof -
  have c: "carry_sections (\<lambda>_. None) registry_init = []"
    by (simp add: carry_sections_def registry_init_def drv_slots_def map_filter_def)
  show ?thesis
    using container_round_trip[OF beta_storable, of "''/bin/lin''" "\<lambda>_. None" registry_init seq_env
        "\<lparr>open_plugin = (\<lambda>_ R. R), carry_load = (\<lambda>_ _ s. s)\<rparr>" "(registry_init, ())"]
    by (auto simp: c)
qed

end
