(* ===== verification/Reduce.thy ===== *)
theory Reduce
  imports Wave Claims Collector
begin

text \<open>
  The reducer (\<open>net_reduce\<close>, \<open>net_force\<close> and \<open>net_copy\<close> in \<open>src/net.c\<close>): waves of demanded pairs, offered
  to the drivers in priority order and fired by the base engine where no driver takes them, until a wave
  fires nothing or the step limit is reached.  Drivers are records of hooks on the state of a reduction;
  a wave is fired by the serial loop of \<open>lin_reduce_wave_parallel\<close>.  A claim is held in the name of its
  driver, whose hooks are looked up among the drivers of the call.
\<close>

section \<open>State and drivers\<close>

text \<open>The net, what the drivers keep (\<open>'w\<close>), the claims held across waves with the driver that holds each, and
  \<open>nested_reduce\<close>.\<close>

record 'w rst =
  rnet :: net
  world :: 'w
  held :: "(claim \<times> nat) list"
  nested :: bool

record 'w engine =
  eid :: nat
  folds_only :: bool     \<comment> \<open>\<open>caps & LIN_CAP_FOLD\<close>\<close>
  on_match :: "('w rst \<Rightarrow> apair list \<Rightarrow> 'w rst \<times> claim option) option"
  on_claim :: "('w rst \<Rightarrow> apair \<Rightarrow> bool) option"
  on_act :: "('w rst \<Rightarrow> claim \<Rightarrow> 'w rst \<times> int) option"
  on_reduce :: "'w rst \<Rightarrow> apair list \<Rightarrow> int \<Rightarrow> int \<Rightarrow> 'w rst \<times> int"
  on_revalidate :: "('w rst \<Rightarrow> claim \<Rightarrow> 'w rst \<times> bool) option"
  on_release :: "('w rst \<Rightarrow> claim \<Rightarrow> 'w rst) option"

definition held_max :: nat where
  "held_max = 4"

text \<open>What a wave knows besides: who owns each of its pairs (negative: nobody) and the claims to act on.\<close>

record wst =
  owned :: "int list"
  claimed :: "nat \<Rightarrow> claim option"     \<comment> \<open>\<open>have\<close> and \<open>claimed\<close>, by driver\<close>

definition on_net :: "(net \<Rightarrow> net) \<Rightarrow> 'w rst \<Rightarrow> 'w rst" where
  "on_net f s = s\<lparr>rnet := f (rnet s)\<rparr>"

text \<open>The pairs of a wave nobody owns.\<close>

definition unowned_pairs :: "apair list \<Rightarrow> int list \<Rightarrow> apair list" where
  "unowned_pairs ps ow = map fst (filter (\<lambda>(p, w). w < 0) (zip ps ow))"

definition reserve :: "claim \<Rightarrow> int \<Rightarrow> apair list \<Rightarrow> int list \<Rightarrow> int list" where
  "reserve c w ps ow = map (\<lambda>((p, q), k). if k < 0 \<and> claim_covers c p q then w else k) (zip ps ow)"

section \<open>Held claims\<close>

definition hold_check :: "'w engine list \<Rightarrow> 'w rst \<Rightarrow> claim \<times> nat \<Rightarrow> 'w rst \<times> claim option" where
  "hold_check drvs s h =
     (case (case find (\<lambda>d. eid d = snd h) drvs of
              Some d \<Rightarrow> (case on_revalidate d of Some f \<Rightarrow> f s (fst h) | None \<Rightarrow> (s, True))
            | None \<Rightarrow> (s, True)) of
        (s1, keep) \<Rightarrow>
          if \<not> keep then (s1, None)
          else (s1, case lin_claim_check (rnet s1) (fst h) of Inl r \<Rightarrow> None | Inr c \<Rightarrow> Some c))"

definition hold_release :: "'w engine list \<Rightarrow> 'w rst \<Rightarrow> claim \<times> nat \<Rightarrow> 'w rst" where
  "hold_release drvs s h =
     (case find (\<lambda>d. eid d = snd h) drvs of
        Some d \<Rightarrow> (case on_release d of Some f \<Rightarrow> f s (fst h) | None \<Rightarrow> s)
      | None \<Rightarrow> s)"

text \<open>The pairs a kept claim covers stay queued and belong to it.\<close>

definition hold_pairs :: "env \<Rightarrow> claim \<Rightarrow> apair list \<Rightarrow> int list \<Rightarrow> net \<Rightarrow> net" where
  "hold_pairs E c ps ow n =
     foldl (\<lambda>n ((p, q), k). if k < 0 \<and> claim_covers c p q then act_push n p q else n) n (zip ps ow)"

definition hold_keep :: "env \<Rightarrow> apair list \<Rightarrow> nat \<Rightarrow> claim \<Rightarrow> nat \<Rightarrow> 'w rst \<times> wst \<Rightarrow> 'w rst \<times> wst" where
  "hold_keep E ps i c d sw =
     (case sw of (s, w) \<Rightarrow>
        (s\<lparr>held := (held s)[i := (c, d)], rnet := hold_pairs E c ps (owned w) (rnet s)\<rparr>,
         w\<lparr>owned := reserve c 0 ps (owned w), claimed := (claimed w)(d \<mapsto> c)\<rparr>))"

text \<open>Entry \<open>i\<close> is kept, or replaced by the last entry; each round moves on or shortens the list.\<close>

fun hold_loop :: "env \<Rightarrow> 'w engine list \<Rightarrow> apair list \<Rightarrow> nat \<Rightarrow> nat \<Rightarrow> 'w rst \<times> wst \<Rightarrow> 'w rst \<times> wst" where
  "hold_loop E drvs ps 0 i sw = sw"
| "hold_loop E drvs ps (Suc k) i sw =
     (case sw of (s, w) \<Rightarrow>
        if length (held s) \<le> i then (s, w)
        else let h = held s ! i in
          (case hold_check drvs s h of
             (s1, Some c) \<Rightarrow> hold_loop E drvs ps k (Suc i) (hold_keep E ps i c (snd h) (s1, w))
           | (s1, None) \<Rightarrow>
               let s2 = hold_release drvs s1 h
               in hold_loop E drvs ps k i (s2\<lparr>held := butlast ((held s2)[i := last (held s2)])\<rparr>, w)))"

section \<open>Claims of a wave\<close>

definition clash :: "claim \<Rightarrow> apair list \<Rightarrow> int list \<Rightarrow> bool" where
  "clash c ps ow \<longleftrightarrow> (\<exists>((p, q), k) \<in> set (zip ps ow). 0 \<le> k \<and> claim_covers c p q)"

definition match_one :: "apair list \<Rightarrow> apair list \<Rightarrow> nat \<times> 'w engine \<Rightarrow> 'w rst \<times> wst \<Rightarrow> 'w rst \<times> wst" where
  "match_one ps cand di sw =
     (case (di, sw) of ((i, d), (s, w)) \<Rightarrow>
        (case on_match d of None \<Rightarrow> (s, w)
         | Some f \<Rightarrow>
             (case f s cand of
                (s1, None) \<Rightarrow> (s1, w)
              | (s1, Some c0) \<Rightarrow>
                  (case lin_claim_check (rnet s1) c0 of
                     Inl r \<Rightarrow> (s1, w)
                   | Inr c \<Rightarrow>
                       if clash c ps (owned w) then (s1, w)
                       else (if hold c \<and> length (held s1) < held_max then s1\<lparr>held := held s1 @ [(c, eid d)]\<rparr> else s1,
                             w\<lparr>owned := reserve c (int i + 1) ps (owned w), claimed := (claimed w)(eid d \<mapsto> c)\<rparr>)))))"

definition match_all :: "'w engine list \<Rightarrow> apair list \<Rightarrow> apair list \<Rightarrow> 'w rst \<times> wst \<Rightarrow> 'w rst \<times> wst" where
  "match_all drvs ps cand sw = fold (match_one ps cand) (enumerate 0 drvs) sw"

section \<open>Slices\<close>

text \<open>A pair nobody owns goes to the first driver whose predicate takes it, and to the base engine otherwise.
  One whose nodes a matcher's own reduction has marked again is left out.\<close>

definition takes :: "(net \<Rightarrow> apair \<Rightarrow> bool) option \<Rightarrow> wst \<Rightarrow> 'w rst \<Rightarrow> apair \<Rightarrow> 'w engine \<Rightarrow> bool" where
  "takes shape w s pq d \<longleftrightarrow>
     \<not> (folds_only d \<and> (case shape of None \<Rightarrow> False | Some f \<Rightarrow> \<not> f (rnet s) pq)) \<and>
     claimed w (eid d) = None \<and> (case on_claim d of None \<Rightarrow> False | Some f \<Rightarrow> f s pq)"

definition slice_for ::
    "(net \<Rightarrow> apair \<Rightarrow> bool) option \<Rightarrow> 'w engine list \<Rightarrow> wst \<Rightarrow> 32 word \<Rightarrow> 'w rst \<Rightarrow> apair \<Rightarrow> nat option option" where
  "slice_for shape drvs w snap s pq =
     (if dem (rnet s) (node (fst pq)) \<noteq> snap \<or> dem (rnet s) (node (snd pq)) \<noteq> snap then None
      else Some (map_option eid (find (takes shape w s pq) drvs)))"

definition slices ::
    "(net \<Rightarrow> apair \<Rightarrow> bool) option \<Rightarrow> 'w engine list \<Rightarrow> wst \<Rightarrow> 32 word \<Rightarrow> 'w rst \<Rightarrow> apair list \<Rightarrow> nat option \<Rightarrow> apair list" where
  "slices shape drvs w snap s ps who =
     filter (\<lambda>pq. slice_for shape drvs w snap s pq = Some who) (unowned_pairs ps (owned w))"

section \<open>A wave\<close>

definition act_one ::
    "(nat option \<Rightarrow> apair list) \<Rightarrow> wst \<Rightarrow> int \<Rightarrow> 'w engine \<Rightarrow> 'w rst \<times> int \<Rightarrow> 'w rst \<times> int" where
  "act_one sl w limit d sc =
     (let (s1, c1) =
            (case sc of (s, c) \<Rightarrow>
               (case (claimed w (eid d), on_act d) of
                  (Some cl, Some f) \<Rightarrow> (case f s cl of (s1, k) \<Rightarrow> (s1, c + k))
                | _ \<Rightarrow> (s, c)))
      in if sl (Some (eid d)) \<noteq> [] then on_reduce d s1 (sl (Some (eid d))) limit c1 else (s1, c1))"

definition base_wave :: "env \<Rightarrow> apair list \<Rightarrow> 'w rst \<times> int \<Rightarrow> 'w rst \<times> int" where
  "base_wave E ps sc =
     (case sc of (s, c) \<Rightarrow> (case serial_wave E ps (rnet s, c) of (n, c') \<Rightarrow> (s\<lparr>rnet := n\<rparr>, c')))"

definition wave ::
    "env \<Rightarrow> (net \<Rightarrow> apair \<Rightarrow> bool) option \<Rightarrow> 'w engine list \<Rightarrow> int \<Rightarrow> 'w rst \<times> int \<Rightarrow> 'w rst \<times> int" where
  "wave E shape drvs limit sc =
     (case sc of (s0, c0) \<Rightarrow>
        let s1 = s0\<lparr>rnet := net_mark_demand E (rnet s0), nested := nested s0 \<and> reduce_depth E \<noteq> 1\<rparr>;
            snap = dem_stamp (rnet s1);
            ps = dem_out (rnet s1)
        in case hold_loop E drvs ps (2 * held_max) 0 (s1, \<lparr>owned = map (\<lambda>_. - 1) ps, claimed = (\<lambda>_. None)\<rparr>) of (s2, w1) \<Rightarrow>
             let cand = unowned_pairs ps (owned w1);
                 offer = (cand \<noteq> [] \<or> held s2 \<noteq> [])
             in case (if offer then match_all drvs ps cand (s2, w1) else (s2, w1)) of (s3, w2) \<Rightarrow>
                  let c1 = c0 + (steps (rnet s3) - steps (rnet s2));
                      sl = (if offer then slices shape drvs w2 snap s3 ps else (\<lambda>_. []))
                  in case base_wave E (sl None) (fold (act_one sl w2 limit) drvs (s3, c1)) of (s4, c2) \<Rightarrow>
                       (if nested s4 then s4 else on_net (net_flush_free E) s4, c2))"

section \<open>The loops\<close>

text \<open>\<open>None\<close> is running out of fuel.\<close>

fun waves ::
    "env \<Rightarrow> (net \<Rightarrow> apair \<Rightarrow> bool) option \<Rightarrow> 'w engine list \<Rightarrow> int \<Rightarrow> nat \<Rightarrow> 'w rst \<times> int \<Rightarrow> ('w rst \<times> int) option" where
  "waves E shape drvs limit 0 sc = None"
| "waves E shape drvs limit (Suc k) sc =
     (if act (rnet (fst sc)) = [] \<or> limit \<le> steps (rnet (fst sc)) then Some sc
      else let sc' = wave E shape drvs limit sc
           in if snd sc' = snd sc then Some sc' else waves E shape drvs limit k sc')"

definition live_count :: "net \<Rightarrow> int" where
  "live_count n = nn n - nfree n"

definition collect_due :: "env \<Rightarrow> int \<Rightarrow> net \<Rightarrow> bool" where
  "collect_due E gcmark n \<longleftrightarrow> reduce_depth E = 1 \<and> pins n = 0 \<and> free_head n < 0 \<and> gcmark < live_count n"

fun reduce_loop ::
    "env \<Rightarrow> (net \<Rightarrow> apair \<Rightarrow> bool) option \<Rightarrow> 'w engine list \<Rightarrow> int \<Rightarrow> nat \<Rightarrow> int \<Rightarrow> 'w rst \<Rightarrow> 'w rst option" where
  "reduce_loop E shape drvs limit 0 gcmark s = None"
| "reduce_loop E shape drvs limit (Suc k) gcmark s =
     (if limit \<le> steps (rnet s) then Some s
      else case waves E shape drvs limit k (s, 0) of None \<Rightarrow> None
        | Some (s1, changed) \<Rightarrow>
            let due = collect_due E gcmark (rnet s1);
                s2 = (if due then on_net net_gc s1 else s1);
                mark2 = (if due then live_count (rnet s2) * 2 + 64 else gcmark)
            in if changed = 0 then Some s2 else reduce_loop E shape drvs limit k mark2 s2)"

definition net_reduce_body ::
    "env \<Rightarrow> (net \<Rightarrow> apair \<Rightarrow> bool) option \<Rightarrow> 'w engine list \<Rightarrow> int option \<Rightarrow> int \<Rightarrow> nat \<Rightarrow> 'w rst \<Rightarrow> 'w rst option" where
  "net_reduce_body E shape drvs gcenv limit k s =
     (let gcmark = (case gcenv of Some g \<Rightarrow> if 0 \<le> g then g else live_count (rnet s) * 2 + 64
                    | None \<Rightarrow> live_count (rnet s) * 2 + 64)
      in map_option (on_net (net_flush_free E)) (reduce_loop E shape drvs limit k gcmark s))"

definition net_reduce ::
    "env \<Rightarrow> (net \<Rightarrow> apair \<Rightarrow> bool) option \<Rightarrow> 'w engine list \<Rightarrow> int option \<Rightarrow> int \<Rightarrow> nat \<Rightarrow> 'w rst \<Rightarrow> 'w rst option" where
  "net_reduce E shape drvs gcenv limit k s =
     net_reduce_body (E\<lparr>reduce_depth := reduce_depth E + 1\<rparr>) shape drvs gcenv limit k
       (s\<lparr>nested := nested s \<or> 0 < reduce_depth E\<rparr>)"

section \<open>Forcing and copying\<close>

definition port_whnf :: "net \<Rightarrow> port \<Rightarrow> bool" where
  "port_whnf n p \<longleftrightarrow>
     \<not> live n (node p) \<or>
     tag n (node p) = LAM \<and> pno p = 0 \<and>
     \<not> (live n (node (wire n p)) \<and> pno (wire n p) = 0 \<and> tag n (node (wire n p)) \<in> {APP, DUP})"

definition force_steps :: int where
  "force_steps = 2 ^ 22"

definition net_force ::
    "env \<Rightarrow> (net \<Rightarrow> apair \<Rightarrow> bool) option \<Rightarrow> 'w engine list \<Rightarrow> int option \<Rightarrow> nat \<Rightarrow> port \<Rightarrow> 'w rst \<Rightarrow> 'w rst option" where
  "net_force E shape drvs gcenv k p s =
     (let n = rnet s in
      if \<not> live n (node p) \<or> port_whnf n p then Some s
      else map_option (on_net (\<lambda>m. m\<lparr>root := take (length (root n)) (root m)\<rparr>))
             (net_reduce E shape drvs gcenv (steps n + force_steps) k (on_net (\<lambda>n. lin_demand n p) s)))"

text \<open>The net of a copy; its drivers start with states of their own.\<close>

definition net_copy :: "net \<Rightarrow> net" where
  "net_copy n =
     (let L = lvl n; ks = [1..<Suc (nlv L)] in
      n\<lparr>dem := (\<lambda>_. 0), dem_stamp := 0, vport := (\<lambda>_. 0), act := [], act_of := (\<lambda>_. - 1), steps := 0, dem_out := [],
        root := [], free_head := - 1, nfree := 0, pend_head := - 1, pins := 0,
        lvl := net_level_set \<lparr>lv_parent = (\<lambda>_. 0), lv_depth_arr = (\<lambda>_. 0), lv_bit = (\<lambda>_. 0),
                  lv_hash = (\<lambda>_. None), nlv = 0, lvcap = 0, lv_hcap = 0\<rparr> (map (lv_parent L) ks) (map (lv_bit L) ks)\<rparr>)"

end
