(* ===== verification/ReduceProps.thy ===== *)
theory ReduceProps
  imports Reduce
begin

text \<open>
  The reducer without drivers: what a wave keeps, why the loops end, and what has been reached when they do.
\<close>

section \<open>Demand marks under interaction\<close>

text \<open>Steps that clear marks and drop roots but set none; marks past the old capacity are clear.\<close>

definition quiet :: "net \<Rightarrow> net \<Rightarrow> bool" where
  "quiet n m \<longleftrightarrow> dem_stamp m = dem_stamp n \<and> ncap n \<le> ncap m \<and> (\<forall>v. dem m v = dem n v \<or> dem m v = 0) \<and>
     (\<forall>v. ncap n \<le> v \<and> v < ncap m \<longrightarrow> dem m v = 0) \<and> set (root m) \<subseteq> set (root n)"

lemma quiet_refl [simp]: "quiet n n"
  by (auto simp: quiet_def)

lemma quiet_trans [trans]: "quiet n m \<Longrightarrow> quiet m k \<Longrightarrow> quiet n k"
  unfolding quiet_def
proof (elim conjE, intro conjI)
  assume a: "\<forall>v. dem m v = dem n v \<or> dem m v = 0" "\<forall>v. dem k v = dem m v \<or> dem k v = 0"
  then show "\<forall>v. dem k v = dem n v \<or> dem k v = 0" by metis
  assume "\<forall>v. ncap n \<le> v \<and> v < ncap m \<longrightarrow> dem m v = 0" "\<forall>v. ncap m \<le> v \<and> v < ncap k \<longrightarrow> dem k v = 0"
  then show "\<forall>v. ncap n \<le> v \<and> v < ncap k \<longrightarrow> dem k v = 0" using a by (metis linorder_not_le)
qed auto

text \<open>A step that leaves marks, stamp, capacity and roots alone.\<close>

lemma quiet_same:
  "dem m = dem n \<Longrightarrow> dem_stamp m = dem_stamp n \<Longrightarrow> ncap m = ncap n \<Longrightarrow> set (root m) \<subseteq> set (root n) \<Longrightarrow> quiet n m"
  by (auto simp: quiet_def)

lemma quiet_fold: "(\<And>x m. quiet m (f x m)) \<Longrightarrow> quiet n (fold f xs n)"
  by (induction xs arbitrary: n) (auto intro: quiet_trans)

lemma quiet_link: "quiet n (net_link E a b enq n)"
  by (rule quiet_same) (simp_all add: net_link_def act_push_def Let_def)

lemma quiet_act_drop: "quiet n (act_drop E n v)"
  by (rule quiet_same) simp_all

lemma quiet_ensure: "quiet n (net_ensure_cap n k)"
proof (cases "k \<le> ncap n")
  case False
  define c where "c = (if ncap n \<noteq> 0 then ncap n * 2 else 256)"
  define nc where "nc = (if cap_grow c k \<le> 0 then k else cap_grow c k)"
  have "ncap n \<le> nc"
  proof (cases "0 < c")
    case True
    then show ?thesis using cap_grow_ge[OF True, of k] False by (auto simp: nc_def)
  next
    case neg: False
    then have "cap_grow c k = c" by (subst cap_grow.simps) simp
    then show ?thesis using False neg by (simp add: nc_def)
  qed
  moreover have "net_ensure_cap n k = n\<lparr>ncap := nc, dead := (\<lambda>v. \<not> (ncap n \<le> v \<and> v < nc) \<and> dead n v),
     dem := (\<lambda>v. if ncap n \<le> v \<and> v < nc then 0 else dem n v), vport := (\<lambda>v. if ncap n \<le> v \<and> v < nc then 0 else vport n v),
     act_of := (\<lambda>v. if ncap n \<le> v \<and> v < nc then - 1 else act_of n v)\<rparr>"
    using False by (simp add: net_ensure_cap_def Let_def nc_def c_def)
  ultimately show ?thesis by (simp add: quiet_def)
qed (simp add: net_ensure_cap_def)

lemma quiet_alloc: "quiet n (fst (net_alloc E t sc n))"
proof -
  have "quiet n (fst (alloc_slot E n))"
  proof (cases "\<not> in_parallel E \<and> 0 \<le> free_head n")
    case True
    then show ?thesis by (simp add: alloc_slot_def Let_def quiet_def)
  next
    case False
    let ?m = "if in_parallel E then n else net_ensure_cap n (nn n + 1)"
    have "quiet ?m (?m\<lparr>nn := nn ?m + 1\<rparr>)" by (rule quiet_same) simp_all
    moreover have "quiet n ?m" by (simp add: quiet_ensure)
    ultimately have "quiet n (?m\<lparr>nn := nn ?m + 1\<rparr>)" by (rule quiet_trans[rotated])
    moreover have "fst (alloc_slot E n) = ?m\<lparr>nn := nn ?m + 1\<rparr>"
      unfolding alloc_slot_def Let_def using False by (simp only: if_False fst_conv)
    ultimately show ?thesis by simp
  qed
  moreover have "quiet (fst (alloc_slot E n)) (fst (net_alloc E t sc n))"
    by (rule quiet_same) (auto simp: net_alloc_def split: prod.splits)
  ultimately show ?thesis by (rule quiet_trans)
qed

lemma quiet_release_loop: "quiet n (release_loop n st)"
proof -
  have port: "quiet (fst s) (fst (release_port u p s))" for u p and s :: "net \<times> int list"
    by (cases s) (rule quiet_same, auto simp: release_port_def Let_def set_wire_def)
  have node: "quiet (fst s) (fst (release_node u s))" for u and s :: "net \<times> int list"
  proof -
    let ?c = "release_port u 2 (release_port u 1 (release_port u 0 s))"
    have "quiet (fst s) (fst ?c)" by (rule quiet_trans[OF quiet_trans[OF port port] port])
    moreover have "quiet (fst ?c) (fst (release_node u s))"
      by (rule quiet_same) (simp_all add: release_node_def split: prod.splits)
    ultimately show ?thesis by (rule quiet_trans)
  qed
  show ?thesis
  proof (induction n st rule: release_loop.induct)
    case (2 n u st)
    obtain n' st' where r: "release_node u (n, st) = (n', st')" by fastforce
    then have "quiet n n'" using node[of "(n, st)" u] by simp
    then show ?case using 2[OF r[symmetric]] r by (simp add: quiet_trans)
  qed simp
qed

lemma quiet_release: "quiet n (net_release E n v)"
proof -
  have "quiet n (n\<lparr>dead := (dead n)(v := True)\<rparr>)" by (rule quiet_same) simp_all
  then have "quiet n (release_now (act_drop E (n\<lparr>dead := (dead n)(v := True)\<rparr>) v) v)"
    unfolding release_now_def by (blast intro: quiet_trans quiet_act_drop quiet_release_loop)
  then show ?thesis by (simp add: net_release_def)
qed

lemma quiet_wire: "quiet n (set_wire p q n)"
  by (rule quiet_same) simp_all

lemma quiet_release_if: "quiet n m \<Longrightarrow> quiet n (if b then net_release E m v else m)"
  using quiet_trans[OF _ quiet_release] by simp

lemma quiet_wire_if: "quiet n m \<Longrightarrow> quiet n (if b then set_wire p q m else m)"
  using quiet_trans[OF _ quiet_wire] by simp

lemma quiet_sever: "quiet n (net_sever E p n)"
proof (cases "in_net n (node p)")
  case True
  show ?thesis unfolding net_sever_def Let_def using True
    by (simp only: not_True_eq_False if_False) (intro quiet_release_if quiet_wire_if quiet_wire)
qed (simp add: net_sever_def)

lemma quiet_retire: "quiet n (retire E a b n)"
proof -
  let ?n1 = "n\<lparr>dead := (dead n)(a := True, b := True)\<rparr>"
  let ?n2 = "act_drop E (act_drop E ?n1 a) b"
  let ?n3 = "?n2\<lparr>root := filter (\<lambda>r. node r \<noteq> a \<and> node r \<noteq> b) (root ?n2)\<rparr>"
  have "quiet n ?n1" by (rule quiet_same) simp_all
  moreover have "quiet ?n1 ?n2" by (rule quiet_trans[OF quiet_act_drop quiet_act_drop])
  moreover have "quiet ?n2 ?n3" by (rule quiet_same) auto
  ultimately have q: "quiet n ?n3" by (blast intro: quiet_trans)
  then have "quiet n (release_now (release_now ?n3 a) b)"
    unfolding release_now_def by (blast intro: quiet_trans quiet_release_loop)
  with q show ?thesis unfolding retire_def Let_def
    by (cases "1 < reduce_depth E \<or> pins ?n3 \<noteq> 0 \<or> in_parallel E \<or> noret E") (simp_all only: if_True if_False)
qed

lemma quiet_interact: "quiet n (fst (net_interact E p q n))"
proof -
  have b: "quiet n (pair_boundary E a b cor lnk n)" for a b cor lnk n
    unfolding pair_boundary_def
    by (rule quiet_fold) (auto simp: join_class_def intro: quiet_sever quiet_link split: list.splits)
  have s: "quiet n (fst (split2 E t1 g1 g2 t2 g3 n))" for t1 g1 g2 t2 g3 n
    unfolding split2_def
    by (auto split: prod.splits intro!: quiet_trans[OF _ quiet_link])
      (metis fst_conv quiet_alloc quiet_trans)
  have l: "quiet n (link_copies E a b t cp n)" for a b t cp n
  proof -
    have j: "quiet (snd x) (snd (join_copy E a b t cp k x))" for k x
      by (auto simp: join_copy_def intro: quiet_link split: prod.splits option.splits)
    have f: "quiet (snd x) (snd (fold (join_copy E a b t cp) ks x))" for ks x
      proof (induction ks arbitrary: x)
      case (Cons k ks)
      show ?case using quiet_trans[OF j Cons.IH] by simp
    qed simp
    obtain ins n' where r: "fold (join_copy E a b t cp) [0, 1, 2, 3] ({}, n) = (ins, n')" by fastforce
    have "quiet n n'" using f[of "({}, n)" "[0, 1, 2, 3]"] by (simp only: r snd_conv)
    moreover have "quiet n' (fold (\<lambda>k m. if k \<in> ins then m else net_link E (Port (cp ! k) 0) (t ! k) True m) [0, 1, 2, 3] n')"
      by (rule quiet_fold) (auto intro: quiet_link)
    ultimately show ?thesis unfolding link_copies_def r prod.case by (rule quiet_trans)
  qed
  have d: "quiet n (duplicate E a b t1 g1 g2 t2 g3 t n)" for a b t1 g1 g2 t2 g3 t n
  proof -
    obtain n' m1 m2 d1 d2 where r: "split2 E t1 g1 g2 t2 g3 n = (n', m1, m2, d1, d2)" by (cases "split2 E t1 g1 g2 t2 g3 n") auto
    have "quiet n n'" using s[of n t1 g1 g2 t2 g3] by (simp add: r)
    then show ?thesis unfolding duplicate_def r prod.case by (blast intro: quiet_trans l quiet_retire)
  qed
  have o: "quiet n (fst (interact_ordered E a b n))" for a b
  proof -
    have "quiet n (n\<lparr>lvl := L\<rparr>)" for L by (rule quiet_same) simp_all
    then have "quiet n (duplicate E a b t1 g1 g2 t2 g3 t (n\<lparr>lvl := L\<rparr>))" for t1 g1 g2 t2 g3 t L
      by (blast intro: quiet_trans d)
    then show ?thesis unfolding interact_ordered_def
      by (auto intro: quiet_trans[OF b quiet_retire] d split: prod.splits)
  qed
  show ?thesis by (simp add: net_interact_def o)
qed

section \<open>A net ready to be reduced\<close>

text \<open>No mark within the capacity is ahead of the stamp.\<close>

definition stamps_cap :: "net \<Rightarrow> bool" where
  "stamps_cap n \<longleftrightarrow> (\<forall>v. 0 \<le> v \<and> v < ncap n \<longrightarrow> dem n v \<le> dem_stamp n)"

definition ready :: "net \<Rightarrow> bool" where
  "ready n \<longleftrightarrow> net_ok n \<and> all_queued n {} \<and> stamps_cap n \<and> roots_ok n"

lemma stamps_cap_ok: "net_ok n \<Longrightarrow> stamps_cap n \<Longrightarrow> stamps_ok n"
  by (auto simp: stamps_cap_def stamps_ok_def net_ok_def room_ok_def in_net_def)

lemma stamps_cap_quiet:
  assumes "stamps_cap n" "quiet n m"
  shows "stamps_cap m"
  unfolding stamps_cap_def
proof (intro allI impI)
  fix v assume v: "0 \<le> v \<and> v < ncap m"
  have q: "dem_stamp m = dem_stamp n" "dem m v = dem n v \<or> dem m v = 0" "ncap n \<le> v \<Longrightarrow> dem m v = 0"
    using assms(2) v by (auto simp: quiet_def)
  show "dem m v \<le> dem_stamp m"
  proof (cases "v < ncap n")
    case True
    then have "dem n v \<le> dem_stamp n" using assms(1) v by (simp add: stamps_cap_def)
    then show ?thesis using q by auto
  qed (use q in simp)
qed

lemma roots_ok_sub: "roots_ok n \<Longrightarrow> set (root m) \<subseteq> set (root n) \<Longrightarrow> roots_ok m"
  by (auto simp: roots_ok_def)

lemma dem_walk_cap: "ncap (dem_walk E k p) = ncap k"
proof (induction E k p rule: dem_walk.induct)
  case (1 E k p)
  have put: "ncap (dem_put E n v) = ncap n" for n v by (simp add: dem_put_def Let_def)
  have mf: "ncap (mark_facing E m p) = ncap m" for m by (simp add: mark_facing_def Let_def put)
  have vi: "visit E k p = Some m \<Longrightarrow> ncap m = ncap k" for m
    by (auto simp: visit_def Let_def put split: if_splits)
  show ?case
  proof (cases "live k (node p)")
    case True
    note u = dem_walk.simps[of E k p]
    show ?thesis
    proof (cases "visit E k p")
      case None
      then show ?thesis using True u by simp
    next
      case (Some m)
      show ?thesis
      proof (cases "walk_next m p")
        case None
        then show ?thesis using True u Some vi[OF Some] mf by simp
      next
        case (Some q)
        then show ?thesis using True u \<open>visit E k p = Some m\<close> vi[OF \<open>visit E k p = Some m\<close>] 1[of m q] by simp
      qed
    qed
  next
    case False
    then show ?thesis by (subst dem_walk.simps) simp
  qed
qed

lemma stamps_cap_mark:
  assumes "stamps_cap n"
  shows "stamps_cap (net_mark_demand E n)"
proof -
  let ?k = "bump_stamp n"
  have k: "dem ?k v \<le> dem_stamp ?k" if v: "0 \<le> v" "v < ncap n" for v
  proof (cases "dem_stamp n + 1 = 0")
    case False
    have "dem n v \<le> dem_stamp n" using assms v by (simp add: stamps_cap_def)
    moreover have "dem_stamp n \<le> dem_stamp n + 1"
      using False by (simp add: word_le_nat_alt unatSuc add.commute)
    ultimately show ?thesis using False by (simp add: bump_stamp_def Let_def)
  qed (use v in \<open>simp add: bump_stamp_def Let_def\<close>)
  have c: "ncap ?k = ncap n" by (simp add: bump_stamp_def Let_def)
  have f: "ncap (fold (\<lambda>p m. dem_walk E m p) ps m) = ncap m" for ps m
    by (induction ps arbitrary: m) (simp_all add: dem_walk_cap)
  show ?thesis unfolding stamps_cap_def net_mark_demand_def Let_def f c
  proof (intro allI impI)
    fix v assume v: "0 \<le> v \<and> v < ncap n"
    have "dem ?k v \<le> dem_stamp ?k" using k v by simp
    then show "dem (fold (\<lambda>p m. dem_walk E m p) (Port 0 0 # root ?k) ?k) v \<le>
        dem_stamp (fold (\<lambda>p m. dem_walk E m p) (Port 0 0 # root ?k) ?k)"
      using dem_walks_dem[of E "Port 0 0 # root ?k" ?k v] by auto
  qed
qed

lemma quiet_wave: "quiet n (fst (serial_wave E ps (n, c)))"
proof -
  have p: "quiet (fst s) (fst (wave_pair E pq s))" for pq and s :: "net \<times> int"
  proof -
    obtain p q where pq: "pq = (p, q)" by fastforce
    obtain n c where s: "s = (n, c)" by fastforce
    obtain m f where i: "net_interact E p q n = (m, f)" by fastforce
    have q: "quiet n m" using quiet_interact[of n E p q] by (simp add: i)
    have "quiet m (act_push m p q)" by (rule quiet_same) (simp_all add: act_push_def Let_def)
    then have "quiet n (if f then m else if \<not> dead m (node p) \<and> \<not> dead m (node q) then act_push m p q else m)"
      using q quiet_trans[OF q] by simp
    moreover have "quiet x (x\<lparr>steps := k\<rparr>)" for x k by (rule quiet_same) simp_all
    ultimately show ?thesis unfolding s pq
      by (cases "redex_live n p q") (auto simp: wave_pair_def i Let_def intro: quiet_trans)
  qed
  have "quiet (fst s) (fst (fold (wave_pair E) ps s))" for s
  proof (induction ps arbitrary: s)
    case (Cons x ps)
    show ?case using quiet_trans[OF p Cons.IH] by simp
  qed simp
  from this[of "(n, c)"] show ?thesis by (simp add: serial_wave_def)
qed

lemma quiet_gc: "quiet n (net_gc n)"
proof (cases "nn n \<le> 1")
  case False
  have f: "quiet (fst s) (fst (fold (gc_free r) vs s))" for r vs and s :: "net \<times> int"
  proof (induction vs arbitrary: s)
    case (Cons v vs)
    have "quiet (fst s) (fst (gc_free r v s))" by (cases s) (rule quiet_same, auto simp: gc_free_def)
    then show ?case using quiet_trans[OF _ Cons.IH] by simp
  qed simp
  define n2 where "n2 = n\<lparr>root := filter (\<lambda>p. \<not> dead n (node p)) (root n),
     act := filter (\<lambda>(p, q). \<not> dead n (node p) \<and> \<not> dead n (node q)) (act n),
     act_of := gc_reindex (filter (\<lambda>(p, q). \<not> dead n (node p) \<and> \<not> dead n (node q)) (act n))\<rparr>"
  obtain n3 k where r: "fold (gc_free (gc_reach n)) [1..nn n2 - 1] (n2, 0) = (n3, k)" by fastforce
  have "quiet n n2" by (rule quiet_same) (auto simp: n2_def)
  moreover have "quiet n2 n3" using f[of "(n2, 0)"] r by (metis fst_conv)
  moreover have "quiet n3 (n3\<lparr>nfree := nfree n3 + k\<rparr>)" by (rule quiet_same) simp_all
  moreover have "net_gc n = n3\<lparr>nfree := nfree n3 + k\<rparr>"
    unfolding net_gc_def Let_def using False r by (simp add: n2_def)
  ultimately show ?thesis by (metis quiet_trans)
qed (simp add: net_gc_def)

lemma quiet_flush: "quiet n (net_flush_free E n)"
proof -
  have "quiet n (flush_loop k n)" for k
  proof (induction k n rule: flush_loop.induct)
    case (2 k n)
    show ?case
    proof (cases "0 \<le> pend_head n")
      case True
      let ?m = "n\<lparr>pend_head := node (wire n (Port (pend_head n) 0)),
        wire := (wire n)(Port (pend_head n) 0 := Port (free_head n) 0), free_head := pend_head n\<rparr>"
      have "quiet n ?m" by (rule quiet_same) simp_all
      moreover have "quiet ?m (flush_loop k ?m)" using 2[OF True refl] by simp
      ultimately have "quiet n (flush_loop k ?m)" by (rule quiet_trans)
      then show ?thesis using True by (simp add: Let_def)
    qed simp
  qed simp
  then show ?thesis by (simp add: net_flush_free_def)
qed

section \<open>What a reduction leaves\<close>

text \<open>No redex the answer needs is one a rule fires on.\<close>

definition settled :: "net \<Rightarrow> bool" where
  "settled n \<longleftrightarrow> (\<forall>x y. redex_live n x y \<and> needed n (node x) \<and> needed n (node y) \<longrightarrow>
     \<not> interacts (tag n (node x)) (tag n (node y)))"

text \<open>A net that keeps the wires and tags of its nodes, some of which it has lost, needs no more.\<close>

lemma settled_sub:
  assumes st: "settled n" and lv: "\<And>v. live m v \<Longrightarrow> live n v"
    and w: "\<And>q. live m (node q) \<Longrightarrow> wire m q = wire n q" and t: "\<And>v. live m v \<Longrightarrow> tag m v = tag n v"
    and r: "set (root m) \<subseteq> set (root n)"
  shows "settled m"
proof -
  have nx: "walk_next m p = walk_next n p" if "live m (node p)" for p
    using that by (simp add: walk_next_def w t Let_def)
  have wa: "walk_at m p \<Longrightarrow> walk_at n p" for p
  proof (induction rule: walk_at.induct)
    case (seed p)
    then show ?case using r by (intro walk_at.seed) blast
  next
    case (onward p q)
    then show ?case using walk_at.onward[of n p q] lv nx by simp
  qed
  have ne: "needed n v" if nv: "needed m v" for v
  proof -
    obtain p where p: "walk_at m p" "live m (node p)"
      "v = node p \<or> at_principal m p \<and> facing m p \<and> v = node (wire m p)"
      using nv unfolding needed_def by blast
    have "at_principal m p = at_principal n p" "wire m p = wire n p" using p(2) by (simp_all add: at_principal_def t w)
    moreover have "facing n p" if "facing m p"
    proof -
      have "live m (node (wire m p))" using that by (simp add: facing_def Let_def)
      then show ?thesis using that p(2) by (simp add: facing_def Let_def w t lv)
    qed
    ultimately show ?thesis using p(3) wa[OF p(1)] lv[OF p(2)] unfolding needed_def by metis
  qed
  show ?thesis unfolding settled_def
  proof (intro allI impI)
    fix x y assume a: "redex_live m x y \<and> needed m (node x) \<and> needed m (node y)"
    then have l: "live m (node x)" "live m (node y)" by (simp_all add: redex_live_def)
    have "redex_live n x y" using a l by (simp add: redex_live_def w lv)
    then show "\<not> interacts (tag m (node x)) (tag m (node y))"
      using st a ne unfolding settled_def t[OF l(1)] t[OF l(2)] by blast
  qed
qed

lemma settled_idle:
  assumes ok: "net_ok n" and q: "all_queued n {}" and a: "act n = []"
  shows "settled n"
proof -
  have "\<not> redex_live n x y" for x y
  proof
    assume "redex_live n x y"
    then have "0 \<le> act_of n (node x)" using q by (auto simp: all_queued_def)
    moreover have "queue_ok n" using ok by (simp add: net_ok_def)
    ultimately show False using queue_ok_mem a by simp
  qed
  then show ?thesis by (simp add: settled_def)
qed

lemma ready_flush:
  assumes "ready n" and mdef: "m = net_flush_free E n"
  shows "ready m" "steps m = steps n" "settled n \<Longrightarrow> settled m"
proof -
  have ok: "net_ok n" using assms(1) by (simp add: ready_def)
  then obtain fs ps where sl: "slots_ok n fs ps" by (auto simp: net_ok_def)
  note fo = flush_ok[OF ok sl]
  have q: "quiet n m" unfolding mdef by (rule quiet_flush)
  have rt: "set (root m) \<subseteq> set (root n)" using q by (simp add: quiet_def)
  have k: "net_ok m \<and> all_queued m {} \<and> steps m = steps n \<and> (settled n \<longrightarrow> settled m)"
  proof (cases "1 < reduce_depth E")
    case True
    then show ?thesis using assms(1) by (simp add: mdef net_flush_free_def ready_def)
  next
    case False
    then have m: "m = flush_loop (nat (nfree n)) n" by (simp add: mdef net_flush_free_def)
    obtain w h where r: "m = n\<lparr>wire := w, free_head := h, pend_head := - 1\<rparr>" using fo(6) unfolding m by blast
    have t: "tag m = tag n" "steps m = steps n" by (simp_all add: r)
    have lv: "live m v = live n v" for v using fo(3) m by simp
    have wr: "wire m q = wire n q" if "live m (node q)" for q using fo(4)[of q] that lv m by simp
    have "settled m" if "settled n"
      by (rule settled_sub[OF that]) (simp_all add: lv wr t rt)
    then show ?thesis using fo(1) fo(5)[of "{}"] assms(1) t by (simp add: m ready_def)
  qed
  then show "ready m" using assms(1) stamps_cap_quiet[OF _ q] roots_ok_sub[OF _ rt] by (simp add: ready_def)
  show "steps m = steps n" "settled n \<Longrightarrow> settled m" using k by simp_all
qed

lemma ready_gc:
  assumes "ready n"
  shows "ready (net_gc n)" "steps (net_gc n) = steps n" "settled n \<Longrightarrow> settled (net_gc n)"
proof -
  have ok: "net_ok n" using assms by (simp add: ready_def)
  then obtain fs ps where sl: "slots_ok n fs ps" by (auto simp: net_ok_def)
  note g = net_gc_ok[OF ok sl refl]
  have q: "quiet n (net_gc n)" by (rule quiet_gc)
  then have rt: "set (root (net_gc n)) \<subseteq> set (root n)" by (simp add: quiet_def)
  show "ready (net_gc n)"
    using assms g(1) g(8)[of "{}"] stamps_cap_quiet[OF _ q] roots_ok_sub[OF _ rt] by (simp add: ready_def)
  show "settled (net_gc n)" if "settled n"
    by (rule settled_sub[OF that]) (use g(3,4,5) rt reaches_live in \<open>auto\<close>)
  have f: "steps (fst (fold (gc_free r) vs s)) = steps (fst s)" for r vs and s :: "net \<times> int"
    by (induction vs arbitrary: s) (auto simp: gc_free_def split: prod.splits)
  show "steps (net_gc n) = steps n"
  proof (cases "nn n \<le> 1")
    case False
    define k where "k = n\<lparr>root := filter (\<lambda>p. \<not> dead n (node p)) (root n),
       act := filter (\<lambda>(p, q). \<not> dead n (node p) \<and> \<not> dead n (node q)) (act n),
       act_of := gc_reindex (filter (\<lambda>(p, q). \<not> dead n (node p) \<and> \<not> dead n (node q)) (act n))\<rparr>"
    obtain n3 j where r: "fold (gc_free (gc_reach n)) [1..nn k - 1] (k, 0) = (n3, j)" by fastforce
    have "net_gc n = n3\<lparr>nfree := nfree n3 + j\<rparr>"
      unfolding net_gc_def Let_def using False r by (simp add: k_def)
    moreover have "steps n3 = steps k" using f[of "gc_reach n" "[1..nn k - 1]" "(k, 0)"] unfolding r by simp
    moreover have "steps k = steps n" by (simp add: k_def)
    ultimately show ?thesis by simp
  qed (simp add: net_gc_def)
qed

text \<open>A wave that fires nothing has left every node as it was, and no rule fires on a pair it was given.\<close>

lemma serial_wave_idle:
  "net_ok n \<Longrightarrow> \<not> in_parallel E \<Longrightarrow> all_queued n (set ps \<union> P) \<Longrightarrow> serial_wave E ps (n, c) = (m, c) \<Longrightarrow>
   wire m = wire n \<and> tag m = tag n \<and> root m = root n \<and> (\<forall>v. live m v = live n v) \<and>
   (\<forall>(p, q) \<in> set ps. redex_live n p q \<longrightarrow> \<not> interacts (tag n (node p)) (tag n (node q)))"
proof (induction ps arbitrary: n)
  case Nil
  then show ?case by (simp add: serial_wave_def)
next
  case (Cons pq ps)
  obtain p q where pq: "pq = (p, q)" by fastforce
  obtain n1 c1 where s: "wave_pair E (p, q) (n, c) = (n1, c1)" by fastforce
  have q: "all_queued n (insert (p, q) (set ps \<union> P))" using Cons.prems(3) by (simp add: pq)
  note w = wave_pair_ok[OF Cons.prems(1,2) q s]
  have r: "serial_wave E ps (n1, c1) = (m, c)" using Cons.prems(4) s by (simp add: serial_wave_def pq)
  have c1: "c1 = c" using serial_wave_ok[OF w(1) Cons.prems(2) w(2) r] w(3) by linarith
  have no: "redex_live n p q \<longrightarrow> \<not> interacts (tag n (node p)) (tag n (node q))" using w(6) c1 by auto
  have same: "wire n1 = wire n \<and> tag n1 = tag n \<and> root n1 = root n \<and> dead n1 = dead n \<and> nn n1 = nn n"
  proof (cases "redex_live n p q")
    case True
    obtain k f where i: "net_interact E p q n = (k, f)" by fastforce
    have f: "\<not> f" using s c1 True i by (auto simp: wave_pair_def)
    have "k = n" by (rule interact_ok(6)[OF Cons.prems(1) True Cons.prems(2) i f])
    then show ?thesis using s True f i by (auto simp: wave_pair_def Let_def act_push_def)
  qed (use s in \<open>simp add: wave_pair_def\<close>)
  then have l: "live n1 v = live n v" for v by (simp add: live_def in_net_def)
  have rl: "redex_live n1 x y = redex_live n x y" for x y by (simp add: redex_live_def l same)
  show ?case using Cons.IH[OF w(1) Cons.prems(2) w(2) r[unfolded c1]] same l no rl by (auto simp: pq)
qed

section \<open>A wave without drivers\<close>

lemma hold_loop_none: "held s = [] \<Longrightarrow> hold_loop E drvs ps k i (s, w) = (s, w)"
  by (cases k) simp_all

lemma unowned_all: "unowned_pairs ps (map (\<lambda>_. - 1) ps) = ps"
  by (induction ps) (simp_all add: unowned_pairs_def)

lemma wave_alone:
  assumes h: "held s = []" and rd: "ready (rnet s)" and E: "\<not> in_parallel E"
  shows "\<exists>b m d. wave E shape [] limit (s, c) =
      (if b then s\<lparr>rnet := m, nested := b\<rparr> else on_net (net_flush_free E) (s\<lparr>rnet := m, nested := b\<rparr>), d) \<and>
    serial_wave E (dem_out (net_mark_demand E (rnet s))) (net_mark_demand E (rnet s), c) = (m, d)"
proof -
  let ?n = "rnet s" let ?b = "nested s \<and> reduce_depth E \<noteq> 1"
  define k where "k = net_mark_demand E ?n"
  define s1 where "s1 = s\<lparr>rnet := k, nested := ?b\<rparr>"
  define ps where "ps = dem_out k"
  define w where "w = (\<lparr>owned = map (\<lambda>_. - 1) ps, claimed = (\<lambda>_. None)\<rparr> :: wst)"
  have s1: "rnet s1 = k" "held s1 = []" "nested s1 = ?b" "s1\<lparr>rnet := x\<rparr> = s\<lparr>rnet := x, nested := ?b\<rparr>" for x
    by (simp_all add: s1_def h)
  have ok: "net_ok ?n" "stamps_ok ?n" "roots_ok ?n" using rd stamps_cap_ok by (auto simp: ready_def)
  note sp = net_mark_demand_spec[OF ok E k_def, folded ps_def]
  have mk: "dem k (node p) = dem_stamp k \<and> dem k (node q) = dem_stamp k" if "(p, q) \<in> set ps" for p q
  proof -
    have a: "(p, q) \<in> set (act ?n)" "needed ?n (node p)" "needed ?n (node q)" using that unfolding sp(5) by auto
    have "queue_live ?n" using ok(1) by (simp add: net_ok_def)
    then have "in_net ?n (node p)" "in_net ?n (node q)" using a(1) by (auto simp: queue_live_def redex_live_def live_def)
    then show ?thesis using sp(3) a(2,3) unfolding marked_def by blast
  qed
  have up: "unowned_pairs ps (owned w) = ps" by (simp add: w_def unowned_all)
  have sl: "slices shape [] w (dem_stamp k) s1 ps None = ps"
    unfolding slices_def up by (rule filter_True) (use mk in \<open>auto simp: slice_for_def s1\<close>)
  obtain m d where sw: "serial_wave E ps (k, c) = (m, d)" by fastforce
  have hl: "hold_loop E [] ps (2 * held_max) 0 (s1, w) = (s1, w)" by (rule hold_loop_none) (rule s1)
  have bw: "base_wave E ps (s1, c) = (s\<lparr>rnet := m, nested := ?b\<rparr>, d)" by (simp add: base_wave_def s1 sw)
  have ma: "match_all [] ps ps (s1, w) = (s1, w)" by (simp add: match_all_def)
  have none: "base_wave E ((if ps \<noteq> [] \<or> held s1 \<noteq> [] then slices shape [] w (dem_stamp k) s1 ps else (\<lambda>_. [])) None)
      (fold (act_one sl w limit) [] (s1, c + (steps k - steps k))) = (s\<lparr>rnet := m, nested := ?b\<rparr>, d)" for sl
  proof -
    have "(if ps \<noteq> [] \<or> held s1 \<noteq> [] then slices shape [] w (dem_stamp k) s1 ps else (\<lambda>_. [])) None = ps"
      by (cases "ps = []") (simp_all add: sl s1)
    then show ?thesis using bw by simp
  qed
  have "wave E shape [] limit (s, c) =
      (if ?b then s\<lparr>rnet := m, nested := ?b\<rparr> else on_net (net_flush_free E) (s\<lparr>rnet := m, nested := ?b\<rparr>), d)"
    unfolding wave_def Let_def prod.case k_def[symmetric] s1_def[symmetric] s1(1) ps_def[symmetric] w_def[symmetric]
      hl up ma if_cancel none by simp
  then show ?thesis using sw unfolding ps_def k_def by blast
qed

lemma wave_ready:
  assumes h: "held s = []" and rd: "ready (rnet s)" and E: "\<not> in_parallel E"
    and w: "wave E shape [] limit (s, c) = (s', c')"
  shows "held s' = []" "ready (rnet s')" "c \<le> c'" "c' - c \<le> steps (rnet s') - steps (rnet s)"
    "c' = c \<Longrightarrow> settled (rnet s')"
proof -
  let ?n = "rnet s"
  obtain b m d where w': "wave E shape [] limit (s, c) =
      (if b then s\<lparr>rnet := m, nested := b\<rparr> else on_net (net_flush_free E) (s\<lparr>rnet := m, nested := b\<rparr>), d)"
    and sw: "serial_wave E (dem_out (net_mark_demand E ?n)) (net_mark_demand E ?n, c) = (m, d)"
    using wave_alone[OF h rd E, of shape limit c] by blast
  define k where "k = net_mark_demand E ?n"
  have ok: "net_ok ?n" "stamps_ok ?n" "roots_ok ?n" "all_queued ?n {}" "stamps_cap ?n"
    using rd stamps_cap_ok by (auto simp: ready_def)
  note sp = net_mark_demand_spec[OF ok(1-3) E k_def]
  have sw: "serial_wave E (dem_out k) (k, c) = (m, d)" using sw by (simp add: k_def)
  have aq: "all_queued k (set (dem_out k) \<union> {})" using sp(6)[OF ok(4)] by simp
  have so: "net_ok m" "all_queued m {}" "c \<le> d" "d - c \<le> steps m - steps k"
    using serial_wave_ok[OF sp(1) E aq sw] by blast+
  have qm: "quiet k m" using quiet_wave[of k E "dem_out k" c] sw by simp
  have "stamps_cap k" unfolding k_def by (rule stamps_cap_mark[OF ok(5)])
  then have sm: "stamps_cap m" by (rule stamps_cap_quiet[OF _ qm])
  have "set (root m) \<subseteq> set (root ?n)" using qm sp(11) by (simp add: quiet_def)
  then have rm: "ready m" using so sm roots_ok_sub[OF ok(3)] by (simp add: ready_def)
  have st: "settled m" if "d = c"
    unfolding settled_def
  proof (intro allI impI)
    note i = serial_wave_idle[OF sp(1) E aq sw[unfolded that]]
    fix x y assume a: "redex_live m x y \<and> needed m (node x) \<and> needed m (node y)"
    have lv: "live m v = live ?n v" for v using i sp(8) by simp
    have same: "wire m = wire ?n" "tag m = tag ?n" "root m = root ?n" using i sp(7,10,11) by simp_all
    have rl: "redex_live m p q = redex_live ?n p q" "redex_live k p q = redex_live ?n p q" for p q
      by (simp_all add: redex_live_def lv same sp(7,8))
    have nx: "walk_next m p = walk_next ?n p" for p unfolding walk_next_def same by (rule refl)
    have wa: "walk_at m p \<Longrightarrow> walk_at ?n p" for p
    proof (induction rule: walk_at.induct)
      case (seed p)
      then show ?case unfolding same by (rule walk_at.seed)
    next
      case (onward p q)
      then show ?case unfolding lv nx by (blast intro: walk_at.onward)
    qed
    have ne: "needed m v \<Longrightarrow> needed ?n v" for v
      unfolding needed_def at_principal_def facing_def same lv using wa by blast
    have xy: "redex_live ?n x y" "needed ?n (node x)" "needed ?n (node y)" using a rl(1) ne by auto
    have qo: "queue_ok ?n" "queue_live ?n" using ok(1) by (simp_all add: net_ok_def)
    have "0 \<le> act_of ?n (node x)" using ok(4) xy(1) by (auto simp: all_queued_def)
    then obtain p q where pq: "(p, q) \<in> set (act ?n)" "node x = node p \<or> node x = node q"
      using queue_ok_mem[OF qo(1), of "node x"] by blast
    have "redex_live ?n p q" using qo(2) pq(1) by (auto simp: queue_live_def)
    then have e: "(p, q) = (x, y) \<or> (p, q) = (y, x)"
      using pq(2) redex_liveD[OF xy(1)] redex_liveD[of ?n p q] port_eqI by metis
    then have "(p, q) \<in> set (dem_out k)" using sp(5) pq(1) xy(2,3) by auto
    then have "redex_live k p q \<longrightarrow> \<not> interacts (tag k (node p)) (tag k (node q))" using i by blast
    then have "\<not> interacts (tag m (node p)) (tag m (node q))"
      using rl(2) \<open>redex_live ?n p q\<close> same(2) sp(10) by simp
    then show "\<not> interacts (tag m (node x)) (tag m (node y))" using e by (auto simp: interacts_def)
  qed
  have r: "s' = (if b then s\<lparr>rnet := m, nested := b\<rparr> else on_net (net_flush_free E) (s\<lparr>rnet := m, nested := b\<rparr>))" "c' = d"
    using w w' by simp_all
  note fl = ready_flush[OF rm refl, of E]
  have "held s' = [] \<and> ready (rnet s') \<and> steps (rnet s') = steps m \<and> (settled m \<longrightarrow> settled (rnet s'))"
    by (cases b) (simp_all add: r on_net_def h rm fl)
  then show "held s' = []" "ready (rnet s')" "c \<le> c'" "c' - c \<le> steps (rnet s') - steps (rnet s)"
    "c' = c \<Longrightarrow> settled (rnet s')" using so(3,4) st sp(9) r(2) by auto
qed

section \<open>The loops end\<close>

lemma waves_ready:
  "held s = [] \<Longrightarrow> ready (rnet s) \<Longrightarrow> \<not> in_parallel E \<Longrightarrow> nat (limit - steps (rnet s)) < k \<Longrightarrow>
   \<exists>s' c'. waves E shape [] limit k (s, c) = Some (s', c') \<and> held s' = [] \<and> ready (rnet s') \<and> c \<le> c' \<and>
     c' - c \<le> steps (rnet s') - steps (rnet s) \<and> (limit \<le> steps (rnet s') \<or> settled (rnet s'))"
proof (induction k arbitrary: s c)
  case (Suc k)
  show ?case
  proof (cases "act (rnet s) = [] \<or> limit \<le> steps (rnet s)")
    case True
    have "limit \<le> steps (rnet s) \<or> settled (rnet s)"
      using True Suc.prems(2) settled_idle[of "rnet s"] by (auto simp: ready_def)
    then show ?thesis using True Suc.prems by simp
  next
    case False
    obtain s1 c1 where w: "wave E shape [] limit (s, c) = (s1, c1)" by fastforce
    note wr = wave_ready[OF Suc.prems(1,2,3) w]
    show ?thesis
    proof (cases "c1 = c")
      case True
      then show ?thesis using False w wr by simp
    next
      case c1: False
      then have "nat (limit - steps (rnet s1)) < k" using wr(3,4) Suc.prems(4) False by linarith
      from Suc.IH[OF wr(1,2) Suc.prems(3) this, of c1] obtain s' c' where
        "waves E shape [] limit k (s1, c1) = Some (s', c')" "held s' = []" "ready (rnet s')" "c1 \<le> c'"
        "c' - c1 \<le> steps (rnet s') - steps (rnet s1)" "limit \<le> steps (rnet s') \<or> settled (rnet s')" by blast
      then show ?thesis using False w c1 wr(3,4) by simp
    qed
  qed
qed simp

lemma reduce_loop_ready:
  "held s = [] \<Longrightarrow> ready (rnet s) \<Longrightarrow> \<not> in_parallel E \<Longrightarrow> nat (limit - steps (rnet s)) + 1 < k \<Longrightarrow>
   \<exists>s'. reduce_loop E shape [] limit k g s = Some s' \<and> ready (rnet s') \<and>
     (limit \<le> steps (rnet s') \<or> settled (rnet s'))"
proof (induction k arbitrary: s g)
  case (Suc k)
  show ?case
  proof (cases "limit \<le> steps (rnet s)")
    case False
    have "nat (limit - steps (rnet s)) < k" using Suc.prems(4) by simp
    then obtain s1 c where w: "waves E shape [] limit k (s, 0) = Some (s1, c)" "held s1 = []" "ready (rnet s1)" "0 \<le> c"
      "c - 0 \<le> steps (rnet s1) - steps (rnet s)" "limit \<le> steps (rnet s1) \<or> settled (rnet s1)"
      using waves_ready[OF Suc.prems(1-3), of limit k shape 0] by blast
    let ?due = "collect_due E g (rnet s1)"
    define s2 where "s2 = (if ?due then on_net net_gc s1 else s1)"
    define g2 where "g2 = (if ?due then live_count (rnet s2) * 2 + 64 else g)"
    have r: "reduce_loop E shape [] limit (Suc k) g s = (if c = 0 then Some s2 else reduce_loop E shape [] limit k g2 s2)"
      using False w(1) by (simp add: Let_def s2_def g2_def)
    have s2: "held s2 = []" "ready (rnet s2)" "steps (rnet s2) = steps (rnet s1)"
      "limit \<le> steps (rnet s2) \<or> settled (rnet s2)"
      using w ready_gc[OF w(3)] by (auto simp: s2_def on_net_def)
    show ?thesis
    proof (cases "c = 0")
      case c: False
      then have "nat (limit - steps (rnet s2)) + 1 < k" using w(4,5) s2(3) Suc.prems(4) False by linarith
      from Suc.IH[OF s2(1,2) Suc.prems(3) this, of g2] show ?thesis using r c by simp
    qed (use r s2 in simp)
  qed (use Suc.prems in simp)
qed simp

text \<open>C11. The reducer returns, and leaves nothing it needs undone.  Without drivers, from a net that
  satisfies the invariant with every redex queued and no mark ahead of the stamp, \<open>net_reduce\<close> comes
  back once its loops may run one round more than the steps it is allowed; the invariant holds again,
  every redex is queued, and unless the step limit was reached no redex the answer needs is one a
  rule fires on: nothing is lost between the waves, the flushes of the free list and the collections.
\<close>

theorem reduce_alone:
  assumes "net_ok (rnet s)" "all_queued (rnet s) {}" "stamps_cap (rnet s)" "roots_ok (rnet s)" "held s = []"
    "\<not> in_parallel E" "nat (limit - steps (rnet s)) + 1 < k"
  shows "case net_reduce E shape [] g limit k s of None \<Rightarrow> False
    | Some s' \<Rightarrow> net_ok (rnet s') \<and> all_queued (rnet s') {} \<and> stamps_cap (rnet s') \<and> roots_ok (rnet s') \<and>
        (limit \<le> steps (rnet s') \<or> settled (rnet s'))"
proof -
  let ?s = "s\<lparr>nested := nested s \<or> 0 < reduce_depth E\<rparr>" and ?E = "E\<lparr>reduce_depth := reduce_depth E + 1\<rparr>"
  have rd: "held ?s = []" "ready (rnet ?s)" "\<not> in_parallel ?E" "nat (limit - steps (rnet ?s)) + 1 < k"
    using assms by (simp_all add: ready_def)
  note loop = reduce_loop_ready[OF rd, of shape]
  define gm where "gm = (case g of Some g \<Rightarrow> if 0 \<le> g then g else live_count (rnet ?s) * 2 + 64
    | None \<Rightarrow> live_count (rnet ?s) * 2 + 64)"
  obtain s' where s': "reduce_loop ?E shape [] limit k gm ?s = Some s'" "ready (rnet s')"
    "limit \<le> steps (rnet s') \<or> settled (rnet s')" using loop[of gm] by blast
  have "net_reduce E shape [] g limit k s = Some (on_net (net_flush_free ?E) s')"
    unfolding net_reduce_def net_reduce_body_def Let_def gm_def[symmetric] s'(1)
    by (rule option.map(2))
  moreover note fl = ready_flush[OF s'(2) refl, of ?E]
  ultimately show ?thesis using s'(3) by (auto simp: on_net_def ready_def)
qed

definition beta_state :: "unit rst" where
  "beta_state = \<lparr>rnet = beta_net, world = (), held = [], nested = False\<rparr>"

theorem reduce_alone_witness:
  "case net_reduce seq_env None [] None 1000 1002 beta_state of None \<Rightarrow> False
    | Some s' \<Rightarrow> net_ok (rnet s') \<and> (1000 \<le> steps (rnet s') \<or> settled (rnet s'))"
proof -
  have b: "rnet beta_state = beta_net" "held beta_state = []" by (simp_all add: beta_state_def)
  have sc: "stamps_cap beta_net" by (simp add: stamps_cap_def beta_act)
  have "steps beta_net = 0" by (simp add: beta_net_def demo_links_def beta_links_def demo_eval net_link_def act_push_def)
  then have st: "nat (1000 - steps beta_net) + 1 < 1002" by simp
  show ?thesis
    using reduce_alone[of beta_state seq_env 1000 1002 None None, unfolded b,
        OF beta_net_ok(1) beta_net_ok(2) sc beta_ready(2) refl seq_env_simps(1) st]
    by (auto split: option.splits)
qed

end
