(* ===== verification/Goi.thy ===== *)
theory Goi
  imports NetOps
begin

text \<open>
  \<open>goi_det\<close> (\<open>src/goi.c\<close>): the determinant of the wiring, as a product over the trails that following wires
  makes, modulo a prime.  A port is its flat index \<open>node * 3 + port\<close>.  The arithmetic of C is in 64 bits;
  every factor is below the modulus, so no product reaches \<open>2 ^ 63\<close>.
\<close>

definition goi_mod :: int where
  "goi_mod = 1000000007"

fun modpow_loop :: "nat \<Rightarrow> int \<Rightarrow> nat \<Rightarrow> int \<Rightarrow> int" where
  "modpow_loop 0 a e r = r"
| "modpow_loop (Suc k) a e r =
     (if e = 0 then r
      else modpow_loop k (a * a mod goi_mod) (e div 2) (if odd e then r * a mod goi_mod else r))"

definition modpow :: "int \<Rightarrow> nat \<Rightarrow> int" where
  "modpow a e = modpow_loop e a e 1"

text \<open>\<open>NXT\<close>: the port at the other end of a wire.\<close>

definition flat :: "port \<Rightarrow> nat" where
  "flat p = nat (node p) * 3 + pno p"

definition unflat :: "nat \<Rightarrow> port" where
  "unflat y = Port (int (y div 3)) (y mod 3)"

definition nxt :: "net \<Rightarrow> nat \<Rightarrow> nat option" where
  "nxt n y = (let w = wire n (unflat y) in if node w < 0 then None else Some (flat w))"

text \<open>A trail from \<open>x\<close>, marked with its number: where it ended and how many ports it marked.\<close>

fun trail :: "nat \<Rightarrow> net \<Rightarrow> int \<Rightarrow> nat option \<Rightarrow> nat \<Rightarrow> (nat \<Rightarrow> int) \<Rightarrow> nat option \<times> nat \<times> (nat \<Rightarrow> int)" where
  "trail 0 n tid x k mark = (x, k, mark)"
| "trail (Suc f) n tid x k mark =
     (case x of
        None \<Rightarrow> (None, k, mark)
      | Some y \<Rightarrow> if mark y \<noteq> 0 then (Some y, k, mark) else trail f n tid (nxt n y) (k + 1) (mark(y := tid)))"

text \<open>The ports of the cycle through \<open>x\<close>, in order from \<open>x\<close>.\<close>

fun cycle_from :: "nat \<Rightarrow> net \<Rightarrow> nat \<Rightarrow> nat \<Rightarrow> nat list" where
  "cycle_from 0 n x y = []"
| "cycle_from (Suc f) n x y =
     (if y = x then [] else y # (case nxt n y of None \<Rightarrow> [] | Some z \<Rightarrow> cycle_from f n x z))"

definition cycle_at :: "net \<Rightarrow> nat \<Rightarrow> nat \<Rightarrow> nat list" where
  "cycle_at n d x = x # (case nxt n x of None \<Rightarrow> [] | Some z \<Rightarrow> cycle_from d n x z)"

definition cycle_factor :: "nat \<Rightarrow> nat \<Rightarrow> int \<Rightarrow> int" where
  "cycle_factor k c det =
     det * modpow 2 (k - c) mod goi_mod * ((modpow 2 c - 1 + goi_mod) mod goi_mod) mod goi_mod"

definition goi_step :: "net \<Rightarrow> nat \<Rightarrow> nat \<Rightarrow> int \<times> int \<times> (nat \<Rightarrow> int) \<Rightarrow> int \<times> int \<times> (nat \<Rightarrow> int)" where
  "goi_step n d i s =
     (case s of (det, tid, mark) \<Rightarrow>
        if mark i \<noteq> 0 then s
        else let tid' = tid + 1 in
          (case trail d n tid' (Some i) 0 mark of
             (Some x, k, mark') \<Rightarrow>
               if mark' x = tid'
               then (let cy = cycle_at n d x in
                     (cycle_factor k (length cy) det, tid', \<lambda>y. if y \<in> set cy then - 1 else mark' y))
               else (det * modpow 2 k mod goi_mod, tid', mark')
           | (None, k, mark') \<Rightarrow> (det * modpow 2 k mod goi_mod, tid', mark')))"

definition goi_det :: "net \<Rightarrow> int" where
  "goi_det n =
     (let d = nat (nn n) * 3 in fst (fold (goi_step n d) [0..<d] (1, 0, \<lambda>_. 0)))"

end
