(* ===== verification/Values.thy ===== *)
theory Values
  imports Readers
begin

text \<open>
  Storage of floats (\<open>src/std/drivers/values.c\<close>): one table for the process, of 64-bit words, whose indices
  are baked into the boxes of every net.  The append takes a spin lock and fills a fresh block, so it is one
  step here.
\<close>

record vtab =
  tab :: "long list"        \<comment> \<open>the first \<open>ntab\<close> entries\<close>
  ctab :: int
  no_memory :: bool         \<comment> \<open>the next \<open>malloc\<close> fails\<close>
  warned :: bool

definition vtab_empty :: vtab where
  "vtab_empty = \<lparr>tab = [], ctab = 0, no_memory = False, warned = False\<rparr>"

definition ntab :: "vtab \<Rightarrow> int" where
  "ntab T = int (length (tab T))"

function grow_tab :: "int \<Rightarrow> int \<Rightarrow> int" where
  "grow_tab c need = (if 0 < c \<and> c < need then grow_tab (c * 2) need else c)"
  by pat_completeness auto
termination
  by (relation "measure (\<lambda>(c, need). nat (need - c))") auto

declare grow_tab.simps [simp del]

definition reserve :: "int \<Rightarrow> vtab \<Rightarrow> bool \<times> vtab" where
  "reserve need T =
     (if need \<le> ctab T then (True, T)
      else if no_memory T then (False, T)
      else (True, T\<lparr>ctab := grow_tab (if ctab T \<noteq> 0 then ctab T else 64) need\<rparr>))"

text \<open>\<open>append\<close> of \<open>n\<close> entries: the index of the first one, or -1.\<close>

definition append_vals :: "long list \<Rightarrow> vtab \<Rightarrow> int \<times> vtab" where
  "append_vals d T =
     (if d = [] then (ntab T, T)
      else case reserve (ntab T + int (length d)) T of
        (True, T1) \<Rightarrow> (ntab T, T1\<lparr>tab := tab T1 @ d\<rparr>)
      | (False, T1) \<Rightarrow> (- 1, T1))"

definition f_box :: "env \<Rightarrow> long \<Rightarrow> net \<Rightarrow> vtab \<Rightarrow> net \<times> vtab \<times> port" where
  "f_box E d n T =
     (case append_vals [d] T of (idx, T1) \<Rightarrow>
        if idx < 0 then (n, T1, NONE)
        else (case net_box_index E (word_of_int idx) n of (n1, p) \<Rightarrow> (n1, T1, p)))"

definition f_unbox :: "forcing \<Rightarrow> vtab \<Rightarrow> port \<Rightarrow> net \<Rightarrow> net \<times> val option" where
  "f_unbox frc T p n =
     (case net_peel_index frc p n of (n1, idx) \<Rightarrow>
        (n1, if sint idx < 0 \<or> ntab T \<le> sint idx then None else Some (V_float (tab T ! nat (sint idx)))))"

definition f_save :: "vtab \<Rightarrow> long list option" where
  "f_save T = (if ntab T \<le> 0 then None else Some (tab T))"

text \<open>\<open>f_load\<close>: entries resume their own indices; \<open>differs\<close> is \<open>!=\<close> on floats.\<close>

definition f_load :: "(long \<Rightarrow> long \<Rightarrow> bool) \<Rightarrow> long list \<Rightarrow> vtab \<Rightarrow> bool \<times> vtab" where
  "f_load differs d T =
     (if d = [] then (True, T)
      else case reserve (int (length d)) T of
        (False, T1) \<Rightarrow> (False, T1)
      | (True, T1) \<Rightarrow>
          (True, T1\<lparr>tab := d @ drop (length d) (tab T1),
                    warned := warned T1 \<or> (\<exists>i < min (length d) (length (tab T1)). differs (tab T1 ! i) (d ! i))\<rparr>))"

section \<open>Indices keep their meaning\<close>

lemma grow_tab_ge: "0 < c \<Longrightarrow> need \<le> grow_tab c need"
proof (induction c need rule: grow_tab.induct)
  case (1 c need)
  then show ?case by (subst grow_tab.simps) auto
qed

lemma reserve_tab: "reserve need T = (b, T1) \<Longrightarrow> tab T1 = tab T"
  by (auto simp: reserve_def split: if_splits)

lemma reserve_room: "reserve need T = (True, T1) \<Longrightarrow> 0 \<le> ctab T \<Longrightarrow> need \<le> ctab T1"
  using grow_tab_ge[of "if ctab T \<noteq> 0 then ctab T else 64" need]
  by (auto simp: reserve_def split: if_splits)

lemma append_keeps: "append_vals d T = (i, T1) \<Longrightarrow> \<exists>e. tab T1 = tab T @ e"
  by (auto simp: append_vals_def dest: reserve_tab split: if_splits prod.splits bool.splits)

end
