(* ===== verification/Pattern.thy ===== *)
theory Pattern
  imports Readers Claims
begin

text \<open>
  The structural matcher the drivers share (\<open>src/std/runtime/pattern.h\<close>): patterns as data, the bounded match,
  the recognisers of the runtime's encodings, the bridge from a match to a claim and the cache of derivations.
  A C pattern is a literal whose sub-patterns are literals; a sub-pattern is identified by its position below
  the root, which is what tells two pointers apart, since no pattern contains itself.  \<open>P_null\<close> is a null
  pointer.  The matcher reads a net and changes only the record of the match.
\<close>

section \<open>Patterns and matches\<close>

datatype pat =
    P_null
  | P_any
  | P_tag ntag
  | P_at nat pat
  | P_port nat pat
  | P_spine int int pat          \<comment> \<open>least and greatest count of slots, the latter negative for any\<close>
  | P_spine_head pat pat
  | P_bind int
  | P_ref int
  | P_not pat
  | P_fan pat
  | P_cycle int pat
  | P_cycle_ref int
  | P_pred "net \<Rightarrow> port \<Rightarrow> bool"
  | P_all pat pat

definition P_spine_min :: "int \<Rightarrow> pat \<Rightarrow> pat" where
  "P_spine_min k s = P_spine k (- 1) s"

definition P_spine_n :: "int \<Rightarrow> pat \<Rightarrow> pat" where
  "P_spine_n k s = P_spine k k s"

definition P_all3 :: "pat \<Rightarrow> pat \<Rightarrow> pat \<Rightarrow> pat" where
  "P_all3 x y z = P_all x (P_all y z)"

definition pat_slots :: nat where "pat_slots = 8"
definition pat_binds :: int where "pat_binds = 8"
definition pat_cycles :: int where "pat_cycles = 4"
definition pat_nodes :: nat where "pat_nodes = 64"
definition pat_depth :: nat where "pat_depth = 48"

definition pat_budget :: "net \<Rightarrow> int" where
  "pat_budget n = 256 + 16 * nn n"

text \<open>The masks \<open>bind_set\<close> and \<open>cyc_set\<close> are sets of slots; \<open>nodes\<close> with its counter is a list.\<close>

record lmatch =
  mroot :: port
  mok :: bool
  used :: int
  nslots :: nat
  slots :: "port list"
  nbind :: int
  bind_set :: "int set"
  binds :: "port list"
  ncyc :: int
  cyc_set :: "int set"
  cycs :: "port list"
  covered :: "int list"
  overflow :: bool
  budget :: int
  inprog :: "(nat list \<times> port) list"   \<comment> \<open>\<open>ipat\<close> and \<open>ipport\<close>\<close>

type_synonym matcher = "lmatch \<Rightarrow> bool \<times> lmatch"

text \<open>The record as \<open>memset\<close> leaves it.\<close>

definition match_zero :: lmatch where
  "match_zero = \<lparr>mroot = Port 0 0, mok = False, used = 0, nslots = 0, slots = replicate pat_slots (Port 0 0),
     nbind = 0, bind_set = {}, binds = replicate (nat pat_binds) (Port 0 0),
     ncyc = 0, cyc_set = {}, cycs = replicate (nat pat_cycles) (Port 0 0),
     covered = [], overflow = False, budget = 0, inprog = []\<rparr>"

definition lin_pat_live :: "net \<Rightarrow> int \<Rightarrow> bool" where
  "lin_pat_live n i \<longleftrightarrow> 0 \<le> i \<and> i < nn n \<and> \<not> dead n i"

definition lin_pat_cover :: "net \<Rightarrow> int \<Rightarrow> lmatch \<Rightarrow> lmatch" where
  "lin_pat_cover n v m =
     (if \<not> lin_pat_live n v then m
      else if v \<in> set (covered m) then m
      else if pat_nodes \<le> length (covered m) then m\<lparr>overflow := True\<rparr>
      else m\<lparr>covered := covered m @ [v]\<rparr>)"

definition lin_pat_covered :: "lmatch \<Rightarrow> int \<Rightarrow> bool" where
  "lin_pat_covered m v \<longleftrightarrow> v \<in> set (covered m)"

definition lin_pat_bound :: "lmatch \<Rightarrow> int \<Rightarrow> bool" where
  "lin_pat_bound m i \<longleftrightarrow> 0 \<le> i \<and> i < pat_binds \<and> i \<in> bind_set m"

definition lin_pat_bind :: "lmatch \<Rightarrow> int \<Rightarrow> port \<Rightarrow> port" where
  "lin_pat_bind m i dflt = (if lin_pat_bound m i then binds m ! nat i else dflt)"

definition lin_pat_bind_slot :: "int \<Rightarrow> port \<Rightarrow> matcher" where
  "lin_pat_bind_slot i p m =
     (if i < 0 \<or> pat_binds \<le> i then (False, m)
      else if i \<in> bind_set m then (False, m)
      else (True, m\<lparr>binds := (binds m)[nat i := p], bind_set := insert i (bind_set m),
                    nbind := (if nbind m < i + 1 then i + 1 else nbind m)\<rparr>))"

section \<open>Cells and spines\<close>

text \<open>The four nodes of a cell: \<open>\\c. \\n. ((c h) t)\<close>, read through fans.\<close>

definition cell_nodes :: "net \<Rightarrow> port \<Rightarrow> (port \<times> port \<times> port \<times> port) option" where
  "cell_nodes n p =
     (let cur = skip_dup n p in
      if \<not> lin_pat_live n (node cur) \<or> tag n (node cur) \<noteq> LAM then None
      else let c2 = skip_dup n (wire n (Port (node cur) 2)) in
      if pno c2 \<noteq> 0 \<or> \<not> lin_pat_live n (node c2) \<or> tag n (node c2) \<noteq> LAM then None
      else let body = skip_dup n (wire n (Port (node c2) 2)) in
      if \<not> lin_pat_live n (node body) \<or> tag n (node body) \<noteq> APP then None
      else let ia = skip_dup n (wire n (Port (node body) 0)) in
      if \<not> lin_pat_live n (node ia) \<or> tag n (node ia) \<noteq> APP then None
      else Some (cur, c2, body, ia))"

definition lin_pat_cell :: "net \<Rightarrow> port \<Rightarrow> lmatch \<Rightarrow> (port \<times> port) option \<times> lmatch" where
  "lin_pat_cell n p m =
     (if budget m \<le> 0 then (None, m)
      else let m1 = m\<lparr>budget := budget m - 1, used := used m + 1\<rparr> in
        (case cell_nodes n p of
           None \<Rightarrow> (None, m1)
         | Some (cur, c2, body, ia) \<Rightarrow>
             (Some (wire n (Port (node ia) 2), wire n (Port (node body) 2)),
              lin_pat_cover n (node ia) (lin_pat_cover n (node body)
                (lin_pat_cover n (node c2) (lin_pat_cover n (node cur) m1))))))"

definition lin_pat_nil_at :: "net \<Rightarrow> port \<Rightarrow> bool" where
  "lin_pat_nil_at n p =
     (let c = skip_dup n p in
      if \<not> lin_pat_live n (node c) \<or> tag n (node c) \<noteq> LAM then False
      else let q = skip_dup n (wire n (Port (node c) 2)) in
      if pno q \<noteq> 0 \<or> \<not> lin_pat_live n (node q) \<or> tag n (node q) \<noteq> LAM then False
      else let b = skip_dup n (wire n (Port (node q) 2)) in
        lin_pat_live n (node b) \<and> tag n (node b) = LAM)"

definition lin_pat_cell_at :: "net \<Rightarrow> port \<Rightarrow> (port \<times> port) option" where
  "lin_pat_cell_at n p = fst (lin_pat_cell n p (match_zero\<lparr>budget := pat_budget n\<rparr>))"

definition push_slot :: "port \<Rightarrow> lmatch \<Rightarrow> lmatch" where
  "push_slot s m =
     (let m1 = (if nslots m < pat_slots then m\<lparr>slots := (slots m)[nslots m := s]\<rparr> else m)
      in m1\<lparr>nslots := nslots m1 + 1\<rparr>)"

text \<open>The loop of \<open>lin_pat_spine\<close> over the cells: \<open>sub\<close> matches a slot.  \<open>None\<close> is a declined match, otherwise
  the number of slots; the first argument is how many steps are left of one per node.\<close>

fun spine_loop :: "net \<Rightarrow> nat \<Rightarrow> (port \<Rightarrow> matcher) \<Rightarrow> int \<Rightarrow> port \<Rightarrow> lmatch \<Rightarrow> int option \<times> lmatch" where
  "spine_loop n 0 sub k nxt m = (Some k, m)"
| "spine_loop n (Suc f) sub k nxt m =
     (if budget m \<le> 0 then (None, m)
      else case lin_pat_cell n nxt m of
        (None, m1) \<Rightarrow> (Some k, m1)
      | (Some (slot, nxt'), m1) \<Rightarrow>
          (case sub slot m1 of
             (False, m2) \<Rightarrow> (None, m2)
           | (True, m2) \<Rightarrow> spine_loop n f sub (k + 1) nxt' (push_slot slot m2)))"

definition lin_pat_spine :: "net \<Rightarrow> int \<Rightarrow> int \<Rightarrow> (port \<Rightarrow> matcher) \<Rightarrow> port \<Rightarrow> matcher" where
  "lin_pat_spine n least most sub p m =
     (let cur = skip_dup n p in
      if lin_pat_cell_at n cur = None \<and> \<not> lin_pat_nil_at n cur then (False, m)
      else case spine_loop n (nat (nn n)) sub 0 p (lin_pat_cover n (node cur) m) of
        (None, m1) \<Rightarrow> (False, m1)
      | (Some k, m1) \<Rightarrow> (\<not> k < least \<and> \<not> (0 \<le> most \<and> most < k), m1))"

definition lin_pat_spine_head :: "net \<Rightarrow> (port \<Rightarrow> matcher) \<Rightarrow> (port \<Rightarrow> matcher) \<Rightarrow> port \<Rightarrow> matcher" where
  "lin_pat_spine_head n sub rest_of p m =
     (case lin_pat_cell n p m of
        (None, m1) \<Rightarrow> (False, m1)
      | (Some (slot, nxt), m1) \<Rightarrow>
          (case sub slot m1 of
             (False, m2) \<Rightarrow> (False, m2)
           | (True, m2) \<Rightarrow> rest_of nxt (push_slot slot m2)))"

section \<open>The matcher\<close>

text \<open>\<open>lin_pat_at\<close> around a case of \<open>lin_pat_at_in\<close>: the budget, the set in progress and the depth.\<close>

definition guarded :: "nat list \<Rightarrow> port \<Rightarrow> matcher \<Rightarrow> matcher" where
  "guarded pos p f m =
     (if budget m \<le> 0 then (False, m)
      else let m1 = m\<lparr>budget := budget m - 1, used := used m + 1\<rparr> in
        if \<exists>(q, r) \<in> set (inprog m1). q = pos \<and> node r = node p then (False, m1)
        else if pat_depth \<le> length (inprog m1) then (False, m1)
        else case f (m1\<lparr>inprog := inprog m1 @ [(pos, p)]\<rparr>) of
          (r, m2) \<Rightarrow> (r, m2\<lparr>inprog := butlast (inprog m2)\<rparr>))"

text \<open>A node that passes a test is covered.\<close>

definition accept_if :: "net \<Rightarrow> bool \<Rightarrow> port \<Rightarrow> matcher" where
  "accept_if n b p m = (if b then (True, lin_pat_cover n (node p) m) else (False, m))"

primrec lin_pat_at :: "net \<Rightarrow> pat \<Rightarrow> nat list \<Rightarrow> port \<Rightarrow> matcher" where
  "lin_pat_at n P_null pos p m = (False, m)"
| "lin_pat_at n P_any pos p m = guarded pos p (accept_if n (lin_pat_live n (node p)) p) m"
| "lin_pat_at n (P_tag t) pos p m = guarded pos p (accept_if n (lin_pat_live n (node p) \<and> tag n (node p) = t) p) m"
| "lin_pat_at n (P_pred f) pos p m = guarded pos p (accept_if n (lin_pat_live n (node p) \<and> f n p) p) m"
| "lin_pat_at n (P_at i a) pos p m =
     guarded pos p (\<lambda>m. if pno p = i then lin_pat_at n a (pos @ [0]) p m else (False, m)) m"
| "lin_pat_at n (P_port i a) pos p m =
     guarded pos p (\<lambda>m. if \<not> lin_pat_live n (node p) \<or> 2 < i then (False, m)
                        else lin_pat_at n a (pos @ [0]) (wire n (Port (node p) i)) (lin_pat_cover n (node p) m)) m"
| "lin_pat_at n (P_fan a) pos p m = guarded pos p (lin_pat_at n a (pos @ [0]) (skip_dup n p)) m"
| "lin_pat_at n (P_all a b) pos p m =
     guarded pos p (\<lambda>m. case lin_pat_at n a (pos @ [0]) p m of
                          (False, m1) \<Rightarrow> (False, m1)
                        | (True, m1) \<Rightarrow> lin_pat_at n b (pos @ [1]) p m1) m"
| "lin_pat_at n (P_bind i) pos p m =
     guarded pos p (\<lambda>m. if \<not> lin_pat_live n (node p) then (False, m)
                        else case lin_pat_bind_slot i p m of
                          (False, m1) \<Rightarrow> (False, m1)
                        | (True, m1) \<Rightarrow> (True, lin_pat_cover n (node p) m1)) m"
| "lin_pat_at n (P_ref i) pos p m =
     guarded pos p (\<lambda>m. accept_if n (lin_pat_live n (node p) \<and> lin_pat_bound m i \<and> node (binds m ! nat i) = node p) p m) m"
| "lin_pat_at n (P_not a) pos p m =
     guarded pos p (\<lambda>m. case lin_pat_at n a (pos @ [0]) p m of
                          (r, m1) \<Rightarrow> (\<not> r, m1\<lparr>bind_set := bind_set m, cyc_set := cyc_set m,
                                              covered := take (length (covered m)) (covered m1),
                                              nslots := nslots m\<rparr>)) m"
| "lin_pat_at n (P_cycle i a) pos p m =
     guarded pos p (\<lambda>m.
       if i < 0 \<or> pat_cycles \<le> i \<or> \<not> lin_pat_live n (node p) then (False, m)
       else if i \<in> cyc_set m then accept_if n (node (cycs m ! nat i) = node p) p m
       else lin_pat_at n a (pos @ [0]) p
              (lin_pat_cover n (node p)
                 (m\<lparr>cycs := (cycs m)[nat i := p], cyc_set := insert i (cyc_set m),
                    ncyc := (if ncyc m < i + 1 then i + 1 else ncyc m)\<rparr>))) m"
| "lin_pat_at n (P_cycle_ref i) pos p m =
     guarded pos p (\<lambda>m.
       if i < 0 \<or> pat_cycles \<le> i \<or> \<not> lin_pat_live n (node p) then (False, m)
       else accept_if n (i \<in> cyc_set m \<and> node (cycs m ! nat i) = node p) p m) m"
| "lin_pat_at n (P_spine least most a) pos p m =
     guarded pos p (lin_pat_spine n least most (lin_pat_at n a (pos @ [0])) p) m"
| "lin_pat_at n (P_spine_head a b) pos p m =
     guarded pos p (lin_pat_spine_head n (lin_pat_at n a (pos @ [0])) (lin_pat_at n b (pos @ [1])) p) m"

text \<open>\<open>lin_pat_match\<close>: whether it matched, and the record.\<close>

definition lin_pat_match :: "net \<Rightarrow> port \<Rightarrow> pat \<Rightarrow> int \<Rightarrow> bool \<times> lmatch" where
  "lin_pat_match n rt a bud =
     (let m = match_zero\<lparr>mroot := rt, budget := (if 0 < bud then bud else 0)\<rparr> in
      if a = P_null \<or> budget m \<le> 0 then (False, m)
      else case lin_pat_at n a [] rt m of
        (False, m1) \<Rightarrow> (False, m1)
      | (True, m1) \<Rightarrow> (True, m1\<lparr>mok := True\<rparr>))"

text \<open>For evaluation: patterns hold functions, so they have no equality test.\<close>

lemma lin_pat_match_code [code]:
  "lin_pat_match n rt a bud =
     (let m = match_zero\<lparr>mroot := rt, budget := (if 0 < bud then bud else 0)\<rparr> in
      if (case a of P_null \<Rightarrow> True | _ \<Rightarrow> False) \<or> budget m \<le> 0 then (False, m)
      else case lin_pat_at n a [] rt m of
        (False, m1) \<Rightarrow> (False, m1)
      | (True, m1) \<Rightarrow> (True, m1\<lparr>mok := True\<rparr>))"
  by (cases a) (simp_all add: lin_pat_match_def)
definition lin_pat_match_pair :: "net \<Rightarrow> port \<Rightarrow> port \<Rightarrow> pat \<Rightarrow> int \<Rightarrow> bool \<times> lmatch" where
  "lin_pat_match_pair n p1 p2 a bud =
     (case lin_pat_match n p1 a bud of
        (True, m) \<Rightarrow> (True, m)
      | (False, m) \<Rightarrow> lin_pat_match n p2 a bud)"

section \<open>The shapes of the encodings\<close>

definition lin_pat_enc_first :: pat where
  "lin_pat_enc_first = P_fan (P_all3 (P_bind 0) (P_tag LAM)
     (P_port 2 (P_fan (P_all3 (P_bind 1) (P_tag LAM) (P_port 2 (P_fan (P_at 1 (P_ref 0))))))))"

definition lin_pat_enc_second :: pat where
  "lin_pat_enc_second = P_fan (P_all3 (P_bind 0) (P_tag LAM)
     (P_port 2 (P_fan (P_all3 (P_bind 1) (P_tag LAM) (P_port 2 (P_fan (P_at 1 (P_ref 1))))))))"

definition lin_pat_enc_succ :: pat where
  "lin_pat_enc_succ = P_fan (P_all3 (P_bind 0) (P_tag LAM)
     (P_port 2 (P_fan (P_all3 (P_bind 1) (P_tag LAM)
       (P_port 2 (P_fan (P_all (P_bind 2) (P_all (P_tag APP)
         (P_all (P_port 0 (P_fan (P_at 1 (P_ref 1)))) (P_port 2 (P_bind 3)))))))))))"

definition lin_pat_enc_cell_ia :: pat where
  "lin_pat_enc_cell_ia = P_fan (P_all3 (P_bind 3) (P_tag APP) (P_port 2 (P_bind 4)))"

definition lin_pat_enc_cell_body :: pat where
  "lin_pat_enc_cell_body = P_fan (P_all (P_bind 2) (P_all (P_tag APP)
     (P_all (P_port 0 lin_pat_enc_cell_ia) (P_port 2 (P_bind 5)))))"

definition lin_pat_enc_cell :: pat where
  "lin_pat_enc_cell = P_fan (P_all3 (P_bind 0) (P_tag LAM)
     (P_port 2 (P_fan (P_at 0 (P_all3 (P_bind 1) (P_tag LAM) (P_port 2 lin_pat_enc_cell_body))))))"

definition lin_pat_enc_op :: pat where
  "lin_pat_enc_op = P_at 0 (P_all (P_bind 1) (P_all (P_tag APP)
     (P_all (P_port 0 (P_at 0 (P_all (P_bind 0) (P_all (P_tag LAM) (P_port 0 (P_at 0 (P_ref 1)))))))
            (P_port 2 (P_bind 2)))))"

definition lin_pat_enc_ffi_fn :: pat where
  "lin_pat_enc_ffi_fn = P_fan (P_at 1 (P_all3 (P_bind 3) (P_tag APP) (P_port 2 (P_bind 4))))"

definition lin_pat_enc_ffi_hdr :: pat where
  "lin_pat_enc_ffi_hdr = P_fan (P_at 1 (P_all3 (P_bind 2) (P_tag APP)
     (P_all (P_port 0 lin_pat_enc_ffi_fn) (P_port 2 (P_bind 5)))))"

definition lin_pat_enc_ffi :: pat where
  "lin_pat_enc_ffi = P_fan (P_all3 (P_bind 0) (P_tag LAM)
     (P_port 2 (P_fan (P_at 0 (P_all3 (P_bind 1) (P_tag LAM) (P_port 2 lin_pat_enc_ffi_hdr))))))"

section \<open>The boxes\<close>

datatype box_dom = BOX_NUM | BOX_BOOL

definition LIN_BOX_TAIL :: "int \<Rightarrow> int \<Rightarrow> pat" where
  "LIN_BOX_TAIL fx fy = P_fan (P_all3 (P_bind 5) (P_tag APP)
     (P_all (P_port 0 (P_fan (P_at 1 (P_ref fx))))
       (P_port 2 (P_fan (P_all3 (P_bind 6) (P_tag APP)
         (P_all (P_port 0 (P_fan (P_at 1 (P_ref fy)))) (P_port 2 (P_bind 7))))))))"

definition LIN_BOX_PAT :: "int \<Rightarrow> int \<Rightarrow> pat" where
  "LIN_BOX_PAT fx fy = P_fan (P_all3 (P_bind 0) (P_tag LAM)
     (P_port 2 (P_fan (P_at 0 (P_all3 (P_bind 1) (P_tag LAM)
       (P_port 2 (P_fan (P_at 0 (P_all3 (P_bind 2) (P_tag LAM)
         (P_port 2 (P_fan (P_all3 (P_bind 3) (P_tag APP)
           (P_all (P_port 0 (P_fan (P_at 1 (P_ref 0)))) (P_port 2 (LIN_BOX_TAIL fx fy)))))))))))))))"

definition lin_pat_enc_num_box :: pat where
  "lin_pat_enc_num_box = LIN_BOX_PAT 1 2"

definition lin_pat_enc_bool_box :: pat where
  "lin_pat_enc_bool_box = LIN_BOX_PAT 2 1"

text \<open>\<open>lin_pat_box\<close>: whose box, and where the payload is seen.\<close>

definition lin_pat_box :: "net \<Rightarrow> port \<Rightarrow> (box_dom \<times> port) option" where
  "lin_pat_box n p =
     (case lin_pat_match n p lin_pat_enc_num_box (pat_budget n) of
        (True, m) \<Rightarrow> Some (BOX_NUM, binds m ! 7)
      | (False, _) \<Rightarrow>
          (case lin_pat_match n p lin_pat_enc_bool_box (pat_budget n) of
             (True, m) \<Rightarrow> Some (BOX_BOOL, binds m ! 7)
           | (False, _) \<Rightarrow> None))"

definition lin_pat_box_build :: "env \<Rightarrow> port \<Rightarrow> box_dom \<Rightarrow> net \<Rightarrow> net \<times> port" where
  "lin_pat_box_build E v bd n =
     (case net_alloc E LAM 0 n of (n1, a) \<Rightarrow> case net_alloc E LAM 0 n1 of (n2, b) \<Rightarrow>
      case net_alloc E LAM 0 n2 of (n3, c) \<Rightarrow> case net_alloc E APP 0 n3 of (n4, ou) \<Rightarrow>
      case net_alloc E APP 0 n4 of (n5, m) \<Rightarrow> case net_alloc E APP 0 n5 of (n6, q) \<Rightarrow>
      let f1 = (if bd = BOX_BOOL then c else b); f2 = (if bd = BOX_BOOL then b else c) in
        (link_all E [(Port a 2, Port b 0), (Port b 2, Port c 0), (Port c 2, Port ou 1), (Port ou 0, Port a 1),
                     (Port ou 2, Port m 1), (Port m 0, Port f1 1), (Port m 2, Port q 1), (Port q 0, Port f2 1),
                     (Port q 2, v)] n6, Port a 0))"

section \<open>Reading by shape\<close>

datatype pat_layer = Ly_terminal | Ly_inductive | Ly_false

definition lin_pat_enc_shape :: "enc \<Rightarrow> pat_layer \<Rightarrow> pat option" where
  "lin_pat_enc_shape e ly =
     (case e of
        ENC_NUM \<Rightarrow> Some (if ly = Ly_inductive then lin_pat_enc_succ else lin_pat_enc_first)
      | ENC_BOOL \<Rightarrow> Some (if ly = Ly_false then lin_pat_enc_second else lin_pat_enc_first)
      | ENC_CONS \<Rightarrow> Some (if ly = Ly_inductive then lin_pat_enc_cell else lin_pat_enc_second)
      | ENC_STR \<Rightarrow> Some (if ly = Ly_inductive then lin_pat_enc_cell else lin_pat_enc_second)
      | ENC_OP \<Rightarrow> Some lin_pat_enc_op
      | ENC_FFI \<Rightarrow> Some lin_pat_enc_ffi
      | _ \<Rightarrow> None)"

text \<open>The first of some shapes that matches.\<close>

fun first_shape :: "net \<Rightarrow> port \<Rightarrow> (pat \<times> pat_layer) list \<Rightarrow> (pat_layer \<times> lmatch) option" where
  "first_shape n p [] = None"
| "first_shape n p ((a, ly) # as) =
     (case lin_pat_match n p a (pat_budget n) of
        (True, m) \<Rightarrow> Some (ly, m)
      | (False, _) \<Rightarrow> first_shape n p as)"

definition lin_pat_enc_layer_of :: "net \<Rightarrow> port \<Rightarrow> enc \<Rightarrow> (pat_layer \<times> lmatch) option" where
  "lin_pat_enc_layer_of n p e =
     first_shape n p
       (if e = ENC_BOOL then [(lin_pat_enc_first, Ly_terminal), (lin_pat_enc_second, Ly_false)]
        else if e = ENC_NUM then [(lin_pat_enc_first, Ly_terminal), (lin_pat_enc_succ, Ly_inductive)]
        else if e = ENC_CONS \<or> e = ENC_STR then [(lin_pat_enc_cell, Ly_inductive), (lin_pat_enc_second, Ly_terminal)]
        else [])"

text \<open>The pure walk over the layers, at most one step per node.\<close>

fun num_nf_loop :: "net \<Rightarrow> enc \<Rightarrow> nat \<Rightarrow> long \<Rightarrow> port \<Rightarrow> long option" where
  "num_nf_loop n e 0 cnt p = None"
| "num_nf_loop n e (Suc k) cnt p =
     (case lin_pat_enc_layer_of n p e of
        None \<Rightarrow> None
      | Some (ly, m) \<Rightarrow>
          if e = ENC_BOOL then Some (if ly = Ly_terminal then 1 else 0)
          else if ly \<noteq> Ly_inductive then Some cnt
          else num_nf_loop n e k (cnt + 1) (binds m ! (if e = ENC_NUM then 3 else 5)))"

definition lin_pat_enc_num_nf :: "net \<Rightarrow> port \<Rightarrow> enc \<Rightarrow> long option" where
  "lin_pat_enc_num_nf n p e = (if e = ENC_OP \<or> e = ENC_FFI then None else num_nf_loop n e (nat (nn n)) 0 p)"

definition lin_pat_num_nf :: "net \<Rightarrow> port \<Rightarrow> long option" where
  "lin_pat_num_nf n p = lin_pat_enc_num_nf n p ENC_NUM"

definition lin_pat_num :: "forcing \<Rightarrow> net \<Rightarrow> port \<Rightarrow> net \<times> long" where
  "lin_pat_num frc n p = net_read_int frc p ENC_NUM n"

text \<open>The forcing walk; forcing may add nodes, so the loop is bounded by the largest node index.\<close>

function num_loop :: "forcing \<Rightarrow> enc \<Rightarrow> int \<Rightarrow> long \<Rightarrow> port \<Rightarrow> net \<Rightarrow> net \<times> long option" where
  "num_loop frc e i cnt p n =
     (if nn n \<le> i \<or> max_nodes \<le> i then (n, None)
      else case net_force_val frc p n of (n1, q) \<Rightarrow>
        (case lin_pat_enc_layer_of n1 q e of
           None \<Rightarrow> (n1, None)
         | Some (ly, m) \<Rightarrow>
             if e = ENC_BOOL then (n1, Some (if ly = Ly_terminal then 1 else 0))
             else if ly \<noteq> Ly_inductive then (n1, Some cnt)
             else (case net_force_val frc (binds m ! (if e = ENC_NUM then 3 else 5)) n1 of (n2, r) \<Rightarrow>
                     num_loop frc e (i + 1) (cnt + 1) r n2)))"
  by pat_completeness auto
termination
  by (relation "measure (\<lambda>(frc, e, i, cnt, p, n). nat (max_nodes - i))") auto

declare num_loop.simps [simp del]

definition lin_pat_enc_num :: "forcing \<Rightarrow> net \<Rightarrow> port \<Rightarrow> enc \<Rightarrow> net \<times> long option" where
  "lin_pat_enc_num frc n p e = (if e = ENC_OP \<or> e = ENC_FFI then (n, None) else num_loop frc e 0 0 p n)"

text \<open>Strings: the codes of the cells, or \<open>None\<close>; more than \<open>mx\<close> do not fit.\<close>

fun str_nf_loop :: "net \<Rightarrow> enc \<Rightarrow> nat \<Rightarrow> nat \<Rightarrow> long list \<Rightarrow> port \<Rightarrow> long list option" where
  "str_nf_loop n pay mx 0 cs p = None"
| "str_nf_loop n pay mx (Suc k) cs p =
     (case lin_pat_enc_layer_of n p ENC_STR of
        None \<Rightarrow> None
      | Some (ly, m) \<Rightarrow>
          if ly \<noteq> Ly_inductive then Some cs
          else if mx \<le> length cs then None
          else (case lin_pat_enc_num_nf n (binds m ! 4) pay of
                  None \<Rightarrow> None
                | Some code \<Rightarrow> str_nf_loop n pay mx k (cs @ [code]) (binds m ! 5)))"

definition lin_pat_enc_str_nf :: "net \<Rightarrow> port \<Rightarrow> enc \<Rightarrow> nat \<Rightarrow> long list option" where
  "lin_pat_enc_str_nf n p pay mx = str_nf_loop n pay mx (nat (nn n)) [] p"

function str_loop :: "forcing \<Rightarrow> enc \<Rightarrow> nat \<Rightarrow> int \<Rightarrow> long list \<Rightarrow> port \<Rightarrow> net \<Rightarrow> net \<times> long list option" where
  "str_loop frc pay mx i cs p n =
     (if nn n \<le> i \<or> max_nodes \<le> i then (n, None)
      else case net_force_val frc p n of (n1, q) \<Rightarrow>
        (case lin_pat_enc_layer_of n1 q ENC_STR of
           None \<Rightarrow> (n1, None)
         | Some (ly, m) \<Rightarrow>
             if ly \<noteq> Ly_inductive then (n1, Some cs)
             else if mx \<le> length cs then (n1, None)
             else (case net_force_val frc (binds m ! 4) n1 of (n2, h) \<Rightarrow>
                   case lin_pat_enc_num frc n2 h pay of
                     (n3, None) \<Rightarrow> (n3, None)
                   | (n3, Some code) \<Rightarrow>
                       (case net_force_val frc (binds m ! 5) n3 of (n4, r) \<Rightarrow>
                          str_loop frc pay mx (i + 1) (cs @ [code]) r n4))))"
  by pat_completeness auto
termination
  by (relation "measure (\<lambda>(frc, pay, mx, i, cs, p, n). nat (max_nodes - i))") auto

declare str_loop.simps [simp del]

definition lin_pat_enc_str :: "forcing \<Rightarrow> net \<Rightarrow> port \<Rightarrow> enc \<Rightarrow> nat \<Rightarrow> net \<times> long list option" where
  "lin_pat_enc_str frc n p pay mx = str_loop frc pay mx 0 [] p n"

section \<open>From a match to a claim\<close>

definition aux_ports :: "lmatch \<Rightarrow> port list" where
  "aux_ports m = concat (map (\<lambda>u. [Port u 1, Port u 2]) (covered m))"

definition leaves :: "net \<Rightarrow> lmatch \<Rightarrow> port \<Rightarrow> bool" where
  "leaves n m e \<longleftrightarrow> lin_pat_live n (node e) \<and> lin_pat_live n (node (wire n e)) \<and> \<not> lin_pat_covered m (node (wire n e))"

definition lin_pat_region_exits :: "net \<Rightarrow> lmatch \<Rightarrow> nat \<Rightarrow> port list option" where
  "lin_pat_region_exits n m mx =
     (let es = filter (leaves n m) (aux_ports m) in if overflow m \<or> mx < length es then None else Some es)"

text \<open>The redex a covered node is the lower end of.\<close>

definition redex_of :: "net \<Rightarrow> lmatch \<Rightarrow> int \<Rightarrow> apair option" where
  "redex_of n m u =
     (let w = wire n (Port u 0) in
      if \<not> lin_pat_live n u then None
      else if pno w \<noteq> 0 \<or> \<not> lin_pat_live n (node w) then None
      else if \<not> lin_pat_covered m (node w) then None
      else if node w < u then None
      else let bk = wire n w in
        if node bk \<noteq> u \<or> pno bk \<noteq> 0 then None else Some (Port u 0, w))"

definition lin_pat_claim :: "net \<Rightarrow> lmatch \<Rightarrow> port list \<Rightarrow> bool \<Rightarrow> bool \<Rightarrow> claim option" where
  "lin_pat_claim n m extra_exits rgn hld =
     (if \<not> mok m \<or> overflow m \<or> covered m = [] then None
      else let ps = List.map_filter (redex_of n m) (covered m) in
        if claim_pairs_max < length ps then None
        else if ps = [] then None
        else if rgn then
          (case lin_pat_region_exits n m claim_exits_max of
             None \<Rightarrow> None
           | Some es \<Rightarrow>
               if claim_exits_max < length es + length extra_exits then None
               else Some \<lparr>region = True, hold = hld, pairs = ps, exits = es @ extra_exits, members = []\<rparr>)
        else if extra_exits \<noteq> [] then None
        else Some \<lparr>region = False, hold = hld, pairs = ps, exits = [], members = []\<rparr>)"

section \<open>The cache\<close>

record cache_ent =
  ce_node :: "32 word"
  ce_gen :: "32 word"
  ce_val :: long

text \<open>\<open>ents\<close> is the caller's memory, of which the first \<open>cap\<close> entries are the table; \<open>None\<close> is a null pointer.\<close>

record pat_cache =
  ents :: "cache_ent list option"
  cap :: nat
  gen :: "32 word"

definition ent_zero :: cache_ent where
  "ent_zero = \<lparr>ce_node = 0, ce_gen = 0, ce_val = 0\<rparr>"

definition cache_clear :: "nat \<Rightarrow> cache_ent list \<Rightarrow> cache_ent list" where
  "cache_clear k es = replicate k ent_zero @ drop k es"

definition lin_pat_cache_init :: "cache_ent list option \<Rightarrow> int \<Rightarrow> pat_cache" where
  "lin_pat_cache_init store k =
     (let c = nat k in \<lparr>ents = map_option (cache_clear c) store, cap = c, gen = 1\<rparr>)"

definition cache_slot :: "pat_cache \<Rightarrow> int \<Rightarrow> nat" where
  "cache_slot c v = unat (word_of_int v :: 32 word) mod cap c"

definition cache_usable :: "pat_cache \<Rightarrow> bool" where
  "cache_usable c \<longleftrightarrow> ents c \<noteq> None \<and> cap c \<noteq> 0"

definition cache_at :: "pat_cache \<Rightarrow> int \<Rightarrow> cache_ent" where
  "cache_at c v = the (ents c) ! cache_slot c v"

definition cache_set :: "pat_cache \<Rightarrow> int \<Rightarrow> cache_ent \<Rightarrow> pat_cache" where
  "cache_set c v e = c\<lparr>ents := Some ((the (ents c))[cache_slot c v := e])\<rparr>"

definition lin_pat_cache_drop :: "pat_cache \<Rightarrow> int \<Rightarrow> pat_cache" where
  "lin_pat_cache_drop c v = (if \<not> cache_usable c then c else cache_set c v ((cache_at c v)\<lparr>ce_gen := 0\<rparr>))"

definition lin_pat_cache_get :: "pat_cache \<Rightarrow> int \<Rightarrow> long option" where
  "lin_pat_cache_get c v =
     (if \<not> cache_usable c then None
      else if ce_gen (cache_at c v) \<noteq> gen c \<or> ce_node (cache_at c v) \<noteq> word_of_int v then None
      else Some (ce_val (cache_at c v)))"

definition lin_pat_cache_put :: "pat_cache \<Rightarrow> int \<Rightarrow> long \<Rightarrow> pat_cache" where
  "lin_pat_cache_put c v x =
     (if \<not> cache_usable c then c
      else cache_set c v \<lparr>ce_node = word_of_int v, ce_gen = gen c, ce_val = x\<rparr>)"

text \<open>All entries at once; the generation 0 is skipped when the counter wraps.\<close>

definition lin_pat_cache_invalidate :: "pat_cache \<Rightarrow> pat_cache" where
  "lin_pat_cache_invalidate c =
     (if \<not> cache_usable c then c
      else if gen c + 1 = 0 then c\<lparr>gen := 1, ents := Some (cache_clear (cap c) (the (ents c)))\<rparr>
      else c\<lparr>gen := gen c + 1\<rparr>)"

section \<open>Operators\<close>

definition op_names :: "string list" where
  "op_names = [''lin_add'', ''lin_mul'', ''lin_sub'', ''lin_eq'', ''lin_lt'', ''lin_leq'', ''lin_gt'', ''lin_geq'',
     ''lin_div'', ''lin_mod'', ''lin_pow'']"

definition lin_op_fn :: "int \<Rightarrow> string option" where
  "lin_op_fn code = (if 0 \<le> code \<and> code < int (length op_names) then Some (op_names ! nat code) else None)"

text \<open>The head of a saturated operator: its binder is the argument of an application whose function is a lambda.\<close>

definition lin_pat_op_head :: "net \<Rightarrow> port \<Rightarrow> bool" where
  "lin_pat_op_head n p =
     (if pno p \<noteq> 0 \<or> \<not> lin_pat_live n (node p) \<or> tag n (node p) \<noteq> LAM then False
      else let use = wire n (Port (node p) 1) in
      if pno use \<noteq> 2 \<or> \<not> lin_pat_live n (node use) \<or> tag n (node use) \<noteq> APP then False
      else let fn = wire n (Port (node use) 0) in
        pno fn = 0 \<and> lin_pat_live n (node fn) \<and> tag n (node fn) = LAM)"

definition P_OP_HEAD :: pat where
  "P_OP_HEAD = P_pred lin_pat_op_head"

definition lin_pat_ffi_head :: "net \<Rightarrow> port \<Rightarrow> bool" where
  "lin_pat_ffi_head n p =
     (if pno p \<noteq> 0 \<or> \<not> lin_pat_live n (node p) \<or> tag n (node p) \<noteq> LAM then False
      else let r = skip_dup n (wire n (Port (node p) 2)) in
      if pno r \<noteq> 0 \<or> \<not> lin_pat_live n (node r) \<or> tag n (node r) \<noteq> LAM then False
      else let a2 = skip_dup n (wire n (Port (node r) 2)) in
      if pno a2 \<noteq> 1 \<or> \<not> lin_pat_live n (node a2) \<or> tag n (node a2) \<noteq> APP then False
      else let fn = skip_dup n (wire n (Port (node a2) 0)) in
        pno fn = 1 \<and> lin_pat_live n (node fn) \<and> tag n (node fn) = APP)"

text \<open>The lambda of a lambda and an application, in either order.\<close>

definition lam_of :: "net \<Rightarrow> apair \<Rightarrow> port option" where
  "lam_of n pq =
     (if tag n (node (fst pq)) = LAM \<and> tag n (node (snd pq)) = APP then Some (fst pq)
      else if tag n (node (snd pq)) = LAM \<and> tag n (node (fst pq)) = APP then Some (snd pq)
      else None)"

definition lin_pat_fold_shape :: "net \<Rightarrow> apair \<Rightarrow> bool" where
  "lin_pat_fold_shape n pq =
     (if pno (fst pq) \<noteq> 0 \<or> pno (snd pq) \<noteq> 0 \<or> \<not> lin_pat_live n (node (fst pq)) \<or> \<not> lin_pat_live n (node (snd pq)) then False
      else case lam_of n pq of None \<Rightarrow> False | Some l \<Rightarrow> lin_pat_op_head n l \<or> lin_pat_ffi_head n l)"

definition op_cell :: "net \<Rightarrow> int \<Rightarrow> (port \<times> port) option" where
  "op_cell n app =
     (if \<not> lin_pat_live n app \<or> tag n app \<noteq> APP then None else lin_pat_cell_at n (wire n (Port app 2)))"

definition lin_pat_op_code :: "net \<Rightarrow> int \<Rightarrow> int" where
  "lin_pat_op_code n app =
     (case op_cell n app of
        None \<Rightarrow> - 1
      | Some (h, ops) \<Rightarrow>
          (case lin_pat_enc_num_nf n h ENC_NUM of
             None \<Rightarrow> - 1
           | Some code \<Rightarrow> if 0 \<le> sint code \<and> sint code < int (length op_names) then sint code else - 1))"

definition lin_pat_op_args :: "net \<Rightarrow> int \<Rightarrow> port" where
  "lin_pat_op_args n app = (case op_cell n app of None \<Rightarrow> NONE | Some (h, ops) \<Rightarrow> ops)"

end
