(* ===== verification/Fold.thy ===== *)
theory Fold
  imports Pattern Scalars Types Reduce
begin

text \<open>
  The fold pre-emptor of \<open>src/std/drivers/arith.c\<close>: a driver that takes the redexes of saturated operators and
  of foreign closures, decodes their operands and puts the computed value in their place; what it cannot
  compute it hands back to the core's rule.  Its build pass boxes the value of a program.  The records of
  the readers and of the scalar registry are those of \<open>Readers\<close> and \<open>Scalars\<close>; forcing is a function on nets,
  so what drivers do to the counters while operands are forced is not seen here.
\<close>

section \<open>What the driver uses\<close>

record fold_env =
  fenv :: env
  fworld :: world
  plugin :: "scalar_state \<Rightarrow> scalar_state"
  box_float :: "long \<Rightarrow> net \<Rightarrow> net \<times> port"   \<comment> \<open>\<open>net_alloc_float\<close>\<close>
  str_addr :: "string \<Rightarrow> long"                \<comment> \<open>where a decoded string stands in memory\<close>
  double_of :: "long \<Rightarrow> long"
  strtod :: "string \<Rightarrow> long"

text \<open>The net, the registry of scalar providers with the build markers, and the count of folds.\<close>

record fold_state =
  fnet :: net
  fops :: scalar_state
  fcount :: nat

definition world_of :: "fold_env \<Rightarrow> fold_state \<Rightarrow> world" where
  "world_of X s = (fworld X)\<lparr>building := in_build (fops s)\<rparr>"

definition lin_fold_bump :: "fold_state \<Rightarrow> fold_state" where
  "lin_fold_bump s = s\<lparr>fcount := fcount s + 1\<rparr>"

definition lin_fold_total :: "fold_state \<Rightarrow> long" where
  "lin_fold_total s = of_nat (fcount s)"

text \<open>The three answers, with the value where there is one.\<close>

datatype ev = EV_NO | EV_READY val | EV_WAIT

section \<open>Heads and shapes\<close>

definition head_is_ffi :: "net \<Rightarrow> int \<Rightarrow> bool" where
  "head_is_ffi n lam = fst (lin_pat_match n (Port lam 0) lin_pat_enc_ffi (pat_budget n))"

definition op_head_of :: "world \<Rightarrow> net \<Rightarrow> int \<Rightarrow> net \<times> (string \<times> port) option" where
  "op_head_of W n app =
     (if \<not> in_net n app \<or> dead n app \<or> tag n app \<noteq> APP then (n, None)
      else case net_read_cell (force W) (wire n (Port app 2)) n of
        (n1, None) \<Rightarrow> (n1, None)
      | (n1, Some (h, t)) \<Rightarrow>
          (case net_read_int (force W) h ENC_NUM n1 of
             (n2, code) \<Rightarrow> (n2, map_option (\<lambda>fn. (fn, t)) (lin_op_fn (sint (ucast code :: 32 word))))))"

text \<open>A fan on one of the two ports the core's rule would join, one of whose copies goes to another fan or into the
  body of a binder.\<close>

definition feeds_copy :: "net \<Rightarrow> int \<Rightarrow> nat \<Rightarrow> bool" where
  "feeds_copy n f a \<longleftrightarrow>
     (let w = wire n (Port f a) in
        lin_pat_live n (node w) \<and> (tag n (node w) = DUP \<or> tag n (node w) = LAM \<and> pno w = 2))"

definition result_shared :: "net \<Rightarrow> int \<Rightarrow> int \<Rightarrow> bool" where
  "result_shared n lam app \<longleftrightarrow>
     (\<exists>p \<in> set [wire n (Port lam 2), wire n (Port app 1)].
        lin_pat_live n (node p) \<and> tag n (node p) = DUP \<and> (\<exists>a \<in> set [1, 2]. feeds_copy n (node p) a))"

definition fold_kill :: "env \<Rightarrow> int \<Rightarrow> net \<Rightarrow> net" where
  "fold_kill E v n =
     (if v < 0 \<or> nn n \<le> v \<or> dead n v then n
      else if tag n v = DUP then n
      else let n1 = net_sever E (Port v 2) (net_sever E (Port v 1) (net_sever E (Port v 0) n))
           in n1\<lparr>dead := (dead n1)(v := True)\<rparr>)"

definition val_to_port :: "fold_env \<Rightarrow> val \<Rightarrow> net \<Rightarrow> net \<times> port" where
  "val_to_port X v n =
     (case v of
        V_bool b \<Rightarrow> net_alloc_bool (fenv X) ((ucast b :: 32 word) \<noteq> 0) n
      | V_float d \<Rightarrow> box_float X d n
      | V_int k \<Rightarrow> net_alloc_scott (fenv X) k n
      | _ \<Rightarrow> net_alloc_scott (fenv X) 0 n)"

definition hop_fans :: "net \<Rightarrow> port \<Rightarrow> port" where
  "hop_fans n p = cross_loop (nat (nn n)) n p"

definition ffi_header :: "net \<Rightarrow> int \<Rightarrow> (port \<times> port) option" where
  "ffi_header n lam =
     (if \<not> in_net n lam \<or> dead n lam \<or> tag n lam \<noteq> LAM then None
      else let r = hop_fans n (wire n (Port lam 2)) in
      if \<not> in_net n (node r) \<or> pno r \<noteq> 0 \<or> tag n (node r) \<noteq> LAM then None
      else let a2 = hop_fans n (wire n (Port (node r) 2)) in
      if \<not> in_net n (node a2) \<or> pno a2 \<noteq> 1 \<or> tag n (node a2) \<noteq> APP then None
      else Some (wire n (Port (node a2) 0), wire n (Port (node a2) 2)))"

section \<open>Values\<close>

text \<open>The operands of an operator are scalars; a foreign call takes strings too, by their address.\<close>

definition scalar_of :: "val \<Rightarrow> long option" where
  "scalar_of v = (case v of V_int x \<Rightarrow> Some x | V_bool x \<Rightarrow> Some x | V_float x \<Rightarrow> Some x | _ \<Rightarrow> None)"

definition operand_of :: "fold_env \<Rightarrow> val \<Rightarrow> long option" where
  "operand_of X v = (case v of V_str s \<Rightarrow> Some (str_addr X s) | _ \<Rightarrow> scalar_of v)"

definition result_val :: "long \<Rightarrow> outkind \<Rightarrow> val" where
  "result_val out k = (case k of Out_float \<Rightarrow> V_float out | Out_bool \<Rightarrow> V_bool out | Out_int \<Rightarrow> V_int out)"

definition op_eval :: "fold_env \<Rightarrow> int \<Rightarrow> int \<Rightarrow> fold_state \<Rightarrow> fold_state \<times> ev" where
  "op_eval X lam app s =
     (if result_shared (fnet s) lam app then (s, EV_NO)
      else case op_head_of (world_of X s) (fnet s) app of
        (n1, None) \<Rightarrow> (s\<lparr>fnet := n1\<rparr>, EV_NO)
      | (n1, Some (fn, argp)) \<Rightarrow>
          (case net_spine_slots (force (world_of X s)) argp n1 of (n2, k) \<Rightarrow>
             if k < 1 then (s\<lparr>fnet := n2\<rparr>, EV_WAIT)
             else case net_spine_args (world_of X s) argp [DT_NUM] (nat k) n2 of (n3, vals) \<Rightarrow>
               if int (length vals) < k then (s\<lparr>fnet := n3\<rparr>, EV_WAIT)
               else case those (map scalar_of vals) of
                 None \<Rightarrow> (s\<lparr>fnet := n3\<rparr>, EV_WAIT)
               | Some c \<Rightarrow>
                   (case lin_scalar_ops_run (plugin X) fn k c (fops s) of
                      (None, S1) \<Rightarrow> (s\<lparr>fnet := n3, fops := S1\<rparr>, EV_NO)
                    | (Some (out, okind), S1) \<Rightarrow> (s\<lparr>fnet := n3, fops := S1\<rparr>, EV_READY (result_val out okind)))))"

definition ffi_row :: "string \<Rightarrow> bool" where
  "ffi_row fn \<longleftrightarrow> fn \<in> set [''lin_float'', ''lin_parse_float'', ''lin_streq'', ''lin_folds'', ''lin_folded'']"

definition ffi_row_pure :: "string \<Rightarrow> bool" where
  "ffi_row_pure fn \<longleftrightarrow> ffi_row fn \<and> fn \<noteq> ''lin_folds'' \<and> fn \<noteq> ''lin_folded''"

text \<open>The rows of this driver, asked when no provider supplies the call.\<close>

definition own_row :: "fold_env \<Rightarrow> string \<Rightarrow> val list \<Rightarrow> long list \<Rightarrow> fold_state \<Rightarrow> ev" where
  "own_row X fn vals c s =
     (if fn = ''lin_folds'' then EV_READY (V_int (lin_fold_total s))
      else if fn = ''lin_folded'' then EV_READY (V_bool (if 0 <s lin_fold_total s then 1 else 0))
      else if fn = ''lin_float'' \<and> vals \<noteq> [] then EV_READY (V_float (double_of X (c ! 0)))
      else if fn = ''lin_parse_float''
      then (case vals of V_str t # _ \<Rightarrow> EV_READY (V_float (strtod X t)) | _ \<Rightarrow> EV_NO)
      else EV_NO)"

definition ffi_apply :: "fold_env \<Rightarrow> string \<Rightarrow> val list \<Rightarrow> fold_state \<Rightarrow> fold_state \<times> ev" where
  "ffi_apply X fn vals s =
     (case those (map (operand_of X) vals) of
        None \<Rightarrow> (s, EV_WAIT)
      | Some c \<Rightarrow>
          (case lin_scalar_ops_run (plugin X) fn (int (length vals)) c (fops s) of
             (Some (out, okind), S1) \<Rightarrow> (s\<lparr>fops := S1\<rparr>, EV_READY (result_val out okind))
           | (None, S1) \<Rightarrow> (s\<lparr>fops := S1\<rparr>, own_row X fn vals c s)))"

text \<open>The operands of a foreign call, once it is known to be this fold's.  With no slots the C code passes a null
  buffer, which the reader writes to when the list is no spine but decodes; here that value is just refused.\<close>

definition ffi_operands :: "fold_env \<Rightarrow> string \<Rightarrow> port \<Rightarrow> fold_state \<Rightarrow> fold_state \<times> ev" where
  "ffi_operands X fn argp s =
     (case net_spine_slots (force (world_of X s)) argp (fnet s) of (n1, k0) \<Rightarrow>
        let k = (if k0 < 0 then 0 else k0) in
        (case net_spine_args (world_of X s) argp [DT_NUM] (nat k) n1 of (n2, vals) \<Rightarrow>
           if int (length vals) < k \<or> (k = 0 \<and> vals \<noteq> []) then (s\<lparr>fnet := n2\<rparr>, EV_WAIT)
           else ffi_apply X fn vals (s\<lparr>fnet := n2\<rparr>)))"

definition ffi_eval :: "fold_env \<Rightarrow> int \<Rightarrow> fold_state \<Rightarrow> fold_state \<times> ev" where
  "ffi_eval X lam s =
     (case ffi_header (fnet s) lam of
        None \<Rightarrow> (s, EV_WAIT)
      | Some (a1, argp) \<Rightarrow>
          if \<not> in_net (fnet s) (node a1) \<or> pno a1 \<noteq> 1 \<or> tag (fnet s) (node a1) \<noteq> APP then (s, EV_WAIT)
          else case net_read_string_arena (force (world_of X s)) (wire (fnet s) (Port (node a1) 2)) ENC_NUM (fnet s) of
            (n1, None) \<Rightarrow> (s\<lparr>fnet := n1\<rparr>, EV_NO)
          | (n1, Some fn) \<Rightarrow>
              (case (if ffi_row fn then (True, fops s)
                     else case lin_scalar_ops_run (plugin X) fn (- 1) [] (fops s) of (r, S1) \<Rightarrow> (r \<noteq> None, S1)) of
                 (False, S1) \<Rightarrow> (s\<lparr>fnet := n1, fops := S1\<rparr>, EV_NO)
               | (True, S1) \<Rightarrow>
                   (case lin_build_gate (plugin X) fn (ffi_row_pure fn) S1 of
                      (False, S2) \<Rightarrow> (s\<lparr>fnet := n1, fops := S2\<rparr>, EV_NO)
                    | (True, S2) \<Rightarrow> ffi_operands X fn argp (s\<lparr>fnet := n1, fops := S2\<rparr>))))"

section \<open>The rewrites\<close>

text \<open>The value takes the place of the operator's result, on the port that reads it.\<close>

definition put_result :: "env \<Rightarrow> port \<Rightarrow> int \<Rightarrow> net \<Rightarrow> net" where
  "put_result E res app n =
     (let ar = wire n (Port app 1) in
        if 0 \<le> node ar \<and> node ar < nn n \<and> \<not> dead n (node ar) then net_link E res ar True n
        else net_link E res (Port app 1) True n)"

definition fold_op_head :: "fold_env \<Rightarrow> int \<Rightarrow> int \<Rightarrow> val \<Rightarrow> fold_state \<Rightarrow> fold_state" where
  "fold_op_head X lam app v s =
     (case val_to_port X v (fnet s) of (n1, res) \<Rightarrow>
        lin_fold_bump (s\<lparr>fnet := fold_kill (fenv X) app (fold_kill (fenv X) lam (put_result (fenv X) res app n1))\<rparr>))"

definition fold_ffi_head :: "fold_env \<Rightarrow> int \<Rightarrow> int \<Rightarrow> val \<Rightarrow> fold_state \<Rightarrow> fold_state" where
  "fold_ffi_head X lam app v s =
     (case val_to_port X v (fnet s) of (n1, res) \<Rightarrow>
        lin_fold_bump (s\<lparr>fnet := fold_kill (fenv X) lam (net_link (fenv X) res (Port app 0) True n1)\<rparr>))"

text \<open>\<open>force_spine\<close>: the ports of the slots, a demand root for each, then each is forced.\<close>

fun slot_ports :: "forcing \<Rightarrow> nat \<Rightarrow> port \<Rightarrow> net \<Rightarrow> net \<times> port list" where
  "slot_ports frc 0 cur n = (n, [])"
| "slot_ports frc (Suc k) cur n =
     (case net_read_cell frc cur n of
        (n1, None) \<Rightarrow> (n1, [])
      | (n1, Some (h, t)) \<Rightarrow> (case slot_ports frc k t n1 of (n2, ps) \<Rightarrow> (n2, h # ps)))"

definition force_spine :: "forcing \<Rightarrow> port \<Rightarrow> net \<Rightarrow> net" where
  "force_spine frc argp n =
     (case net_spine_slots frc argp n of (n1, k) \<Rightarrow>
        if k \<le> 0 then n1
        else case net_force_val frc argp n1 of (n2, q) \<Rightarrow>
          (case slot_ports frc (nat k) (skip_dup n2 q) n2 of (n3, ps) \<Rightarrow>
             foldl frc (foldl lin_demand n3 ps) ps))"

section \<open>The hooks\<close>

definition arith_claim :: "net \<Rightarrow> apair \<Rightarrow> bool" where
  "arith_claim n pq =
     (case pq of (p, q) \<Rightarrow>
        if pno p \<noteq> 0 \<or> pno q \<noteq> 0 then False
        else if \<not> in_net n (node p) \<or> \<not> in_net n (node q) then False
        else if dead n (node p) \<or> dead n (node q) then False
        else if wire n p \<noteq> q then False
        else if wire n q \<noteq> p then False
        else case lam_of n pq of
          None \<Rightarrow> False
        | Some l \<Rightarrow> if lin_pat_op_head n (Port (node l) 0) then True else head_is_ffi n (node l))"

text \<open>The lambda and the application of a pair that still stands.\<close>

definition fold_ends :: "net \<Rightarrow> apair \<Rightarrow> (int \<times> int) option" where
  "fold_ends n pq =
     (case pq of (p, q) \<Rightarrow>
        if pno p \<noteq> 0 \<or> pno q \<noteq> 0 then None
        else if \<not> in_net n (node p) \<or> \<not> in_net n (node q) then None
        else if dead n (node p) \<or> dead n (node q) then None
        else case lam_of n pq of
          None \<Rightarrow> None
        | Some l \<Rightarrow>
            (let lam = node l; app = (if l = p then node q else node p) in
             if node (wire n (Port lam 0)) \<noteq> app \<or> node (wire n (Port app 0)) \<noteq> lam then None else Some (lam, app)))"

definition read_head :: "fold_env \<Rightarrow> bool \<Rightarrow> int \<Rightarrow> int \<Rightarrow> fold_state \<Rightarrow> fold_state \<times> ev" where
  "read_head X ffi lam app s =
     (if \<not> ffi \<and> lin_pat_op_head (fnet s) (Port lam 0) then op_eval X lam app s
      else if ffi then ffi_eval X lam s
      else (s, EV_NO))"

definition force_at :: "fold_env \<Rightarrow> port \<Rightarrow> fold_state \<Rightarrow> fold_state" where
  "force_at X p s = (if in_net (fnet s) (node p) then s\<lparr>fnet := force_spine (force (world_of X s)) p (fnet s)\<rparr> else s)"

text \<open>The operands were not all concrete: they are asked for, and the head is read again.\<close>

definition read_again :: "fold_env \<Rightarrow> bool \<Rightarrow> int \<Rightarrow> int \<Rightarrow> fold_state \<Rightarrow> fold_state \<times> ev" where
  "read_again X ffi lam app s =
     (let argp = (if \<not> ffi then wire (fnet s) (Port app 2)
                  else case ffi_header (fnet s) lam of Some (a1, ap) \<Rightarrow> ap | None \<Rightarrow> NONE);
          s1 = force_at X argp s
      in if ffi then ffi_eval X lam s1 else op_eval X lam app s1)"

definition count_step :: "fold_state \<Rightarrow> fold_state" where
  "count_step s = s\<lparr>fnet := (fnet s)\<lparr>steps := steps (fnet s) + 1\<rparr>\<rparr>"

text \<open>One pair of the slice: whether it was folded, and whether anything changed.\<close>

definition fold_pair :: "fold_env \<Rightarrow> apair \<Rightarrow> fold_state \<Rightarrow> fold_state \<times> bool \<times> bool" where
  "fold_pair X pq s =
     (case fold_ends (fnet s) pq of
        None \<Rightarrow> (s, False, False)
      | Some (lam, app) \<Rightarrow>
          (let ffi = head_is_ffi (fnet s) lam;
               s1 = (if \<not> ffi \<and> precompile_depth (fops s) = 0 \<and> lin_pat_op_head (fnet s) (Port lam 0)
                     then force_at X (wire (fnet s) (Port app 2)) s else s)
           in case read_head X ffi lam app s1 of (s2, e) \<Rightarrow>
             if (case e of EV_READY v \<Rightarrow> False | _ \<Rightarrow> True) \<and> in_build (fops s2) then (s2, False, False)
             else case (if e = EV_WAIT then read_again X ffi lam app s2 else (s2, e)) of
               (s3, EV_READY v) \<Rightarrow> (count_step (if ffi then fold_ffi_head X lam app v s3 else fold_op_head X lam app v s3), True, True)
             | (s3, _) \<Rightarrow>
                 (case net_interact (fenv X) (Port lam 0) (Port app 0) (fnet s3) of
                    (n4, fired) \<Rightarrow> (if fired then count_step (s3\<lparr>fnet := n4\<rparr>) else s3\<lparr>fnet := n4\<rparr>, False, fired))))"

text \<open>\<open>arith_reduce\<close>: how many were folded, and \<open>*changed\<close>.\<close>

fun arith_reduce :: "fold_env \<Rightarrow> int \<Rightarrow> apair list \<Rightarrow> fold_state \<Rightarrow> nat \<Rightarrow> int \<Rightarrow> fold_state \<times> nat \<times> int" where
  "arith_reduce X limit [] s d c = (s, d, c)"
| "arith_reduce X limit (pq # ps) s d c =
     (if 0 < limit \<and> limit \<le> steps (fnet s) then (s, d, c)
      else case fold_pair X pq s of
        (s1, folded, changed) \<Rightarrow>
          arith_reduce X limit ps s1 (if folded then d + 1 else d) (if changed then c + 1 else c))"

text \<open>The driver as the reducer sees it; its world is the registry of providers and the count of folds.\<close>

type_synonym fold_rst = "(scalar_state \<times> nat) rst"

definition fold_in :: "fold_rst \<Rightarrow> fold_state" where
  "fold_in r = \<lparr>fnet = rnet r, fops = fst (world r), fcount = snd (world r)\<rparr>"

definition fold_out :: "fold_state \<Rightarrow> fold_rst \<Rightarrow> fold_rst" where
  "fold_out s r = r\<lparr>rnet := fnet s, world := (fops s, fcount s)\<rparr>"

definition arith_engine :: "fold_env \<Rightarrow> nat \<Rightarrow> (scalar_state \<times> nat) engine" where
  "arith_engine X i =
     \<lparr>eid = i, folds_only = True, on_match = None, on_claim = Some (\<lambda>r. arith_claim (rnet r)), on_act = None,
      on_reduce = (\<lambda>r ps limit c. case arith_reduce X limit ps (fold_in r) 0 c of (s, d, c1) \<Rightarrow> (fold_out s r, c1)),
      on_revalidate = None, on_release = None\<rparr>"

section \<open>The build pass\<close>

text \<open>The domain the inferred type names; \<open>k\<close> bounds the chain of links.\<close>

definition aot_dom :: "nat \<Rightarrow> links \<Rightarrow> ty option \<Rightarrow> box_dom option" where
  "aot_dom k l t =
     (case t of
        None \<Rightarrow> None
      | Some t \<Rightarrow>
          (case find_ty k l t of
             Some (Ty_nom s ts) \<Rightarrow> if s = ''num'' then Some BOX_NUM else if s = ''bool'' then Some BOX_BOOL else None
           | _ \<Rightarrow> None))"

text \<open>\<open>reduce\<close> is the reducer up to a step count and \<open>v\<close> the port the compiler names for the term.\<close>

definition arith_aot ::
    "env \<Rightarrow> (int \<Rightarrow> net \<Rightarrow> net) \<Rightarrow> forcing \<Rightarrow> nat \<Rightarrow> links \<Rightarrow> ty option \<Rightarrow> port \<Rightarrow> net \<Rightarrow> net \<times> bool" where
  "arith_aot E reduce frc k l t v n =
     (case aot_dom k l t of
        None \<Rightarrow> (n, False)
      | Some d \<Rightarrow>
          if \<not> in_net n (node v) \<or> wire n (Port 0 0) \<noteq> v then (n, False)
          else (let n1 = frc (reduce (steps n + 2 ^ 22) n) (Port 0 0) in
                case lin_pat_box_build E (wire n1 (Port 0 0)) d n1 of
                  (n2, b) \<Rightarrow> (net_link E (Port 0 0) b False n2, True)))"

section \<open>Registration\<close>

record plugin_state =
  pl_ops :: scalar_state
  registered :: bool
  pair_shape :: "(net \<Rightarrow> apair \<Rightarrow> bool) option"   \<comment> \<open>\<open>pair_fold_shape\<close> of \<open>net.c\<close>\<close>
  pl_drivers :: registry

definition lin_pair_fold_register :: "(net \<Rightarrow> apair \<Rightarrow> bool) \<Rightarrow> plugin_state \<Rightarrow> plugin_state" where
  "lin_pair_fold_register f S = S\<lparr>pair_shape := Some f\<rparr>"

definition cap_fold :: "64 word" where "cap_fold = 0x20"

text \<open>The address of the driver's record and the sizes the compiler gives are \<open>i\<close> and \<open>L\<close>.\<close>

definition lin_arith_driver :: "layout \<Rightarrow> nat \<Rightarrow> driver" where
  "lin_arith_driver L i =
     \<lparr>ident = i, dname = Some ''arith'', magic = driver_magic, abi = driver_abi, net_size = net_bytes L, dsize = slot_end L,
      caps = cap_native_num OR cap_fold OR cap_preempt, wants = want_aot, domains = 0, priority = 5,
      hooks = [H_claim, H_reduce, H_aot]\<rparr>"

definition arith_load :: "fpu \<Rightarrow> layout \<Rightarrow> nat \<Rightarrow> plugin_state \<Rightarrow> plugin_state" where
  "arith_load F L i S =
     (let S1 = S\<lparr>pl_ops := lin_scalar_ops_add (lin_arith_scalar F) True (pl_ops S)\<rparr> in
      if registered S1 then S1
      else let S2 = lin_pair_fold_register lin_pat_fold_shape (S1\<lparr>registered := True\<rparr>)
           in S2\<lparr>pl_drivers := snd (lin_driver_add L (Some (lin_arith_driver L i)) (pl_drivers S2))\<rparr>)"

end
