(* ===== verification/PatternProps.thy ===== *)
theory PatternProps
  imports Pattern NumeralProps
begin

text \<open>
  What the matcher guarantees: a match is paid for from its budget, covers live nodes without repetition and
  leaves nothing in progress (\<open>goes\<close>); the claim filled from it passes the core's check whenever the region it
  covers is closed; a box that was built is recognised for what it is.
\<close>

section \<open>A match is bounded\<close>

definition cover_ok :: "net \<Rightarrow> lmatch \<Rightarrow> bool" where
  "cover_ok n m \<longleftrightarrow> distinct (covered m) \<and> (\<forall>v \<in> set (covered m). live n v) \<and> length (covered m) \<le> pat_nodes"

text \<open>What one step of the matcher does to the record.\<close>

definition goes :: "net \<Rightarrow> lmatch \<Rightarrow> lmatch \<Rightarrow> bool" where
  "goes n m m' \<longleftrightarrow> used m \<le> used m' \<and> used m' + budget m' = used m + budget m \<and> (0 \<le> budget m \<longrightarrow> 0 \<le> budget m') \<and>
     inprog m' = inprog m \<and> mroot m' = mroot m \<and> mok m' = mok m \<and> (cover_ok n m \<longrightarrow> cover_ok n m')"

lemma goes_refl [simp]: "goes n m m"
  by (simp add: goes_def)

lemma goes_trans: "goes n m m1 \<Longrightarrow> goes n m1 m2 \<Longrightarrow> goes n m m2"
  by (auto simp: goes_def)

lemma lin_pat_live_live [simp]: "lin_pat_live n v = live n v"
  by (auto simp: lin_pat_live_def live_def in_net_def)

lemma cover_goes [simp]: "goes n m (lin_pat_cover n v m)"
  by (auto simp: goes_def lin_pat_cover_def cover_ok_def)

lemma cover_after: "goes n m m1 \<Longrightarrow> goes n m (lin_pat_cover n v m1)"
  by (rule goes_trans[OF _ cover_goes])

lemma cover_then: "goes n (lin_pat_cover n v m) m' \<Longrightarrow> goes n m m'"
  by (rule goes_trans[OF cover_goes])

lemma bind_slot_goes: "lin_pat_bind_slot i p m = (r, m') \<Longrightarrow> goes n m m'"
  by (auto simp: lin_pat_bind_slot_def goes_def cover_ok_def split: if_splits)

lemma accept_goes: "accept_if n b p m = (r, m') \<Longrightarrow> goes n m m'"
  by (auto simp: accept_if_def split: if_splits)

lemma cell_goes: "lin_pat_cell n p m = (r, m') \<Longrightarrow> goes n m m'"
proof -
  assume a: "lin_pat_cell n p m = (r, m')"
  let ?m = "m\<lparr>budget := budget m - 1, used := used m + 1\<rparr>"
  show ?thesis
  proof (cases "budget m \<le> 0")
    case False
    then have s: "goes n m ?m" by (simp add: goes_def cover_ok_def)
    show ?thesis
    proof (cases "cell_nodes n p")
      case None
      then show ?thesis using a False s by (simp add: lin_pat_cell_def)
    next
      case (Some t)
      obtain a1 a2 a3 a4 where t: "t = (a1, a2, a3, a4)" by (cases t) auto
      have "m' = lin_pat_cover n (node a4) (lin_pat_cover n (node a3) (lin_pat_cover n (node a2) (lin_pat_cover n (node a1) ?m)))"
        using a False Some t by (simp add: lin_pat_cell_def)
      moreover have "goes n m (lin_pat_cover n (node a4) (lin_pat_cover n (node a3)
          (lin_pat_cover n (node a2) (lin_pat_cover n (node a1) ?m))))" by (intro cover_after s)
      ultimately show ?thesis by simp
    qed
  qed (use a in \<open>simp add: lin_pat_cell_def\<close>)
qed

lemma push_slot_goes [simp]: "goes n m (push_slot s m)"
  by (auto simp: goes_def push_slot_def Let_def cover_ok_def)

definition well :: "net \<Rightarrow> matcher \<Rightarrow> bool" where
  "well n f \<longleftrightarrow> (\<forall>m. goes n m (snd (f m)))"

lemma wellD: "well n f \<Longrightarrow> f m = (r, m') \<Longrightarrow> goes n m m'"
  unfolding well_def by (metis snd_conv)

lemma wellI: "(\<And>m r m'. f m = (r, m') \<Longrightarrow> goes n m m') \<Longrightarrow> well n f"
  unfolding well_def by (metis prod.collapse)

lemma spine_loop_goes:
  assumes "\<And>s. well n (sub s)"
  shows "spine_loop n f sub k nxt m = (r, m') \<Longrightarrow> goes n m m'"
proof (induction f arbitrary: k nxt m)
  case (Suc f)
  obtain c m1 where c: "lin_pat_cell n nxt m = (c, m1)" by fastforce
  note g = cell_goes[OF c]
  show ?case
  proof (cases "budget m \<le> 0 \<or> c = None")
    case False
    then obtain sl nx where sn: "c = Some (sl, nx)" by (cases c) auto
    obtain b m2 where s: "sub sl m1 = (b, m2)" by fastforce
    have g2: "goes n m m2" by (rule goes_trans[OF g wellD[OF assms s]])
    show ?thesis
    proof (cases b)
      case True
      then have "spine_loop n f sub (k + 1) nx (push_slot sl m2) = (r, m')"
        using Suc.prems False c sn s by simp
      from Suc.IH[OF this] show ?thesis by (rule goes_trans[OF g2 goes_trans[OF push_slot_goes]])
    next
      case False
      then show ?thesis using Suc.prems \<open>\<not> (budget m \<le> 0 \<or> c = None)\<close> c sn s g2 by simp
    qed
  next
    case True
    then have "m' = m \<or> m' = m1" using Suc.prems c by (cases "budget m \<le> 0") simp_all
    then show ?thesis using g by (elim disjE) simp_all
  qed
qed simp

lemma spine_well:
  assumes "\<And>s. well n (sub s)"
  shows "well n (lin_pat_spine n least most sub p)"
proof (rule wellI)
  fix m r m' assume a: "lin_pat_spine n least most sub p m = (r, m')"
  let ?m = "lin_pat_cover n (node (skip_dup n p)) m"
  obtain k m1 where s: "spine_loop n (nat (nn n)) sub 0 p ?m = (k, m1)" by fastforce
  have "goes n m m1" by (rule goes_trans[OF cover_goes spine_loop_goes[OF assms s]])
  then show "goes n m m'" using a s by (auto simp: lin_pat_spine_def Let_def split: if_splits option.splits)
qed

lemma spine_head_well:
  assumes "\<And>s. well n (sub s)" "\<And>s. well n (rest_of s)"
  shows "well n (lin_pat_spine_head n sub rest_of p)"
proof (rule wellI)
  fix m r m' assume a: "lin_pat_spine_head n sub rest_of p m = (r, m')"
  obtain c m1 where c: "lin_pat_cell n p m = (c, m1)" by fastforce
  note g = cell_goes[OF c]
  show "goes n m m'"
  proof (cases c)
    case (Some t)
    obtain sl nx where t: "t = (sl, nx)" by (cases t) auto
    obtain b m2 where s: "sub sl m1 = (b, m2)" by fastforce
    have g2: "goes n m m2" by (rule goes_trans[OF g wellD[OF assms(1) s]])
    show ?thesis
    proof (cases b)
      case True
      then have "rest_of nx (push_slot sl m2) = (r, m')" using a c Some t s by (simp add: lin_pat_spine_head_def)
      from wellD[OF assms(2) this] show ?thesis by (rule goes_trans[OF g2 goes_trans[OF push_slot_goes]])
    qed (use a c Some t s g2 in \<open>simp add: lin_pat_spine_head_def\<close>)
  qed (use a c g in \<open>simp add: lin_pat_spine_head_def\<close>)
qed

lemma guarded_well:
  assumes "well n f"
  shows "well n (guarded pos p f)"
proof (rule wellI)
  fix m r m' assume a: "guarded pos p f m = (r, m')"
  let ?m = "m\<lparr>budget := budget m - 1, used := used m + 1\<rparr>"
  let ?k = "?m\<lparr>inprog := inprog ?m @ [(pos, p)]\<rparr>"
  show "goes n m m'"
  proof (cases "budget m \<le> 0")
    case False
    then have s: "goes n m ?m" by (simp add: goes_def cover_ok_def)
    obtain b m2 where f: "f ?k = (b, m2)" by fastforce
    let ?q = "m2\<lparr>inprog := butlast (inprog m2)\<rparr>"
    have "goes n ?k m2" by (rule wellD[OF assms f])
    then have "goes n ?m ?q" by (auto simp: goes_def cover_ok_def)
    from goes_trans[OF s this] have g: "goes n m ?q" .
    have "snd (guarded pos p f m) = ?m \<or> snd (guarded pos p f m) = ?q"
      using False f by (simp add: guarded_def Let_def)
    then have "snd (guarded pos p f m) \<in> {?m, ?q}" by simp
    moreover have "\<forall>k \<in> {?m, ?q}. goes n m k" using s g by simp
    ultimately have "goes n m (snd (guarded pos p f m))" by blast
    then show ?thesis by (simp add: a)
  qed (use a in \<open>simp add: guarded_def\<close>)
qed

lemma at_well: "well n (lin_pat_at n a pos p)"
proof (induction a arbitrary: pos p)
  case (P_port i a)
  have "well n (\<lambda>m. if \<not> live n (node p) \<or> 2 < i then (False, m)
                    else lin_pat_at n a (pos @ [0]) (wire n (Port (node p) i)) (lin_pat_cover n (node p) m))"
    by (rule wellI) (auto split: if_splits dest: wellD[OF P_port] intro: cover_then)
  then show ?case using guarded_well by (simp add: well_def)
next
  case (P_all a b)
  have "well n (\<lambda>m. case lin_pat_at n a (pos @ [0]) p m of
                          (False, m1) \<Rightarrow> (False, m1)
                        | (True, m1) \<Rightarrow> lin_pat_at n b (pos @ [1]) p m1)"
    by (rule wellI) (auto split: prod.splits bool.splits dest!: wellD[OF P_all(1)] wellD[OF P_all(2)] intro: goes_trans)
  then show ?case using guarded_well by (simp add: well_def)
next
  case (P_not a)
  have "well n (\<lambda>m. case lin_pat_at n a (pos @ [0]) p m of
                          (r, m1) \<Rightarrow> (\<not> r, m1\<lparr>bind_set := bind_set m, cyc_set := cyc_set m,
                                              covered := take (length (covered m)) (covered m1),
                                              nslots := nslots m\<rparr>))"
    by (rule wellI) (auto split: prod.splits dest!: wellD[OF P_not] simp: goes_def cover_ok_def dest: in_set_takeD)
  then show ?case using guarded_well by (simp add: well_def)
next
  case (P_cycle i a)
  have "well n (\<lambda>m.
       if i < 0 \<or> pat_cycles \<le> i \<or> \<not> live n (node p) then (False, m)
       else if i \<in> cyc_set m then accept_if n (node (cycs m ! nat i) = node p) p m
       else lin_pat_at n a (pos @ [0]) p
              (lin_pat_cover n (node p)
                 (m\<lparr>cycs := (cycs m)[nat i := p], cyc_set := insert i (cyc_set m),
                    ncyc := (if ncyc m < i + 1 then i + 1 else ncyc m)\<rparr>)))"
    by (rule wellI)
      (auto split: if_splits dest!: wellD[OF P_cycle] accept_goes[of n] cover_then simp: goes_def cover_ok_def)
  then show ?case using guarded_well by (simp add: well_def)
next
  case (P_spine least most a)
  show ?case using guarded_well[OF spine_well[of n "lin_pat_at n a (pos @ [0])"]] P_spine by (simp add: well_def)
next
  case (P_spine_head a b)
  show ?case
    using guarded_well[OF spine_head_well[of n "lin_pat_at n a (pos @ [0])" "lin_pat_at n b (pos @ [1])"]] P_spine_head
    by (simp add: well_def)
next
  case (P_fan a)
  then show ?case using guarded_well by (simp add: well_def)
next
  case (P_at i a)
  have "well n (\<lambda>m. if pno p = i then lin_pat_at n a (pos @ [0]) p m else (False, m))"
    by (rule wellI) (auto split: if_splits dest: wellD[OF P_at])
  then show ?case using guarded_well by (simp add: well_def)
next
  case (P_bind i)
  have "well n (\<lambda>m. if \<not> live n (node p) then (False, m)
                    else case lin_pat_bind_slot i p m of
                      (False, m1) \<Rightarrow> (False, m1)
                    | (True, m1) \<Rightarrow> (True, lin_pat_cover n (node p) m1))"
    by (rule wellI) (auto split: if_splits prod.splits bool.splits dest!: bind_slot_goes[of _ _ _ _ _ n] intro: goes_trans)
  then show ?case using guarded_well by (simp add: well_def)
next
  case P_null
  then show ?case by (simp add: well_def)
next
  case (P_ref i)
  have "well n (\<lambda>m. accept_if n (live n (node p) \<and> lin_pat_bound m i \<and> node (binds m ! nat i) = node p) p m)"
    by (rule wellI) (rule accept_goes)
  then show ?case using guarded_well by (simp add: well_def)
next
  case (P_cycle_ref i)
  have "well n (\<lambda>m. if i < 0 \<or> pat_cycles \<le> i \<or> \<not> live n (node p) then (False, m)
       else accept_if n (i \<in> cyc_set m \<and> node (cycs m ! nat i) = node p) p m)"
    by (rule wellI) (auto split: if_splits dest: accept_goes)
  then show ?case using guarded_well by (simp add: well_def)
next
  case P_any
  have "well n (accept_if n (live n (node p)) p)" by (rule wellI) (rule accept_goes)
  then show ?case using guarded_well by (simp add: well_def)
next
  case (P_tag t)
  have "well n (accept_if n (live n (node p) \<and> tag n (node p) = t) p)" by (rule wellI) (rule accept_goes)
  then show ?case using guarded_well by (simp add: well_def)
next
  case (P_pred f)
  have "well n (accept_if n (live n (node p) \<and> f n p) p)" by (rule wellI) (rule accept_goes)
  then show ?case using guarded_well by (simp add: well_def)
qed

lemma match_goes:
  assumes "lin_pat_match n rt a bud = (r, m)"
  shows "0 \<le> used m \<and> 0 \<le> budget m \<and> used m + budget m = max 0 bud \<and> inprog m = [] \<and> mroot m = rt \<and> mok m = r \<and> cover_ok n m"
proof -
  let ?m = "match_zero\<lparr>mroot := rt, budget := (if 0 < bud then bud else 0)\<rparr>"
  have z: "used ?m = 0" "budget ?m = max 0 bud" "inprog ?m = []" "mroot ?m = rt" "mok ?m = False" "cover_ok n ?m"
    by (auto simp: match_zero_def cover_ok_def)
  show ?thesis
  proof (cases "a = P_null \<or> budget ?m \<le> 0")
    case True
    then have "m = ?m" "\<not> r" using assms by (simp_all add: lin_pat_match_def Let_def)
    then show ?thesis using z by simp
  next
    case False
    obtain b m1 where b: "lin_pat_at n a [] rt ?m = (b, m1)" by fastforce
    have g: "goes n ?m m1" by (rule wellD[OF at_well b])
    have "m = (if b then m1\<lparr>mok := True\<rparr> else m1)" "r = b"
      using assms False b by (auto simp: lin_pat_match_def Let_def split: bool.splits)
    then show ?thesis using g z by (auto simp: goes_def cover_ok_def)
  qed
qed

text \<open>C16. A match is bounded and pure.  It uses no more steps than its budget, whatever the net and the pattern,
  and ends with nothing in progress; the nodes it covers are live, without repetition and within the storage of
  the record; and \<open>ok\<close> is set exactly on a match that succeeded.
\<close>

theorem match_bounded:
  assumes "lin_pat_match n rt a bud = (r, m)"
  shows "0 \<le> used m \<and> used m \<le> max 0 bud \<and> inprog m = [] \<and> distinct (covered m) \<and> length (covered m) \<le> pat_nodes \<and>
    (\<forall>v \<in> set (covered m). live n v) \<and> mok m = r"
  using match_goes[OF assms] by (auto simp: cover_ok_def)

section \<open>The claim of a match\<close>

lemma redex_of_Some:
  "redex_of n m u = Some (p, q) \<longleftrightarrow> p = Port u 0 \<and> redex_live n p q \<and> lin_pat_covered m (node q) \<and> u \<le> node q"
proof
  assume a: "redex_of n m u = Some (p, q)"
  let ?w = "wire n (Port u 0)"
  have c: "live n u" "pno ?w = 0" "live n (node ?w)" "lin_pat_covered m (node ?w)" "\<not> node ?w < u"
    "node (wire n ?w) = u" "pno (wire n ?w) = 0" "p = Port u 0" "q = ?w"
    using a by (auto simp: redex_of_def Let_def split: if_splits)
  have "wire n ?w = Port u 0" by (rule port_eqI) (simp_all add: c)
  then show "p = Port u 0 \<and> redex_live n p q \<and> lin_pat_covered m (node q) \<and> u \<le> node q"
    using c by (simp add: redex_live_def)
next
  assume a: "p = Port u 0 \<and> redex_live n p q \<and> lin_pat_covered m (node q) \<and> u \<le> node q"
  then have "live n u" "live n (node q)" "pno q = 0" "wire n (Port u 0) = q" "wire n q = Port u 0" by (auto simp: redex_live_def)
  then show "redex_of n m u = Some (p, q)" using a by (simp add: redex_of_def)
qed

lemma map_filter_set: "set (List.map_filter f xs) = {y. \<exists>x \<in> set xs. f x = Some y}"
  by (induction xs) (auto simp: List.map_filter_simps split: option.splits)

lemma redexes_distinct: "distinct us \<Longrightarrow> distinct (List.map_filter (redex_of n m) us)"
proof (induction us)
  case (Cons u us)
  have "redex_of n m u = Some pq \<Longrightarrow> pq \<notin> set (List.map_filter (redex_of n m) us)" for pq
    using Cons.prems by (cases pq) (auto simp: map_filter_set redex_of_Some)
  then show ?case using Cons by (auto simp: List.map_filter_simps split: option.splits)
qed (simp add: List.map_filter_simps)

lemma claim_of:
  assumes "lin_pat_claim n m [] True hld = Some c"
  shows "region c" "hold c = hld" "pairs c = List.map_filter (redex_of n m) (covered m)" "pairs c \<noteq> []"
    "length (pairs c) \<le> claim_pairs_max" "exits c = filter (leaves n m) (aux_ports m)" "length (exits c) \<le> claim_exits_max"
  using assms by (auto simp: lin_pat_claim_def lin_pat_region_exits_def Let_def split: if_splits option.splits)

text \<open>What a claim made from a match names, and that its region stays within the match when the principal ports do.\<close>

lemma claim_pairs_set:
  assumes "lin_pat_claim n m [] True hld = Some c"
  shows "set (pairs c) =
    {(p, q). redex_live n p q \<and> node p \<in> set (covered m) \<and> node q \<in> set (covered m) \<and> node p \<le> node q}"
proof -
  note c = claim_of[OF assms]
  have "(p, q) \<in> set (pairs c) \<longleftrightarrow>
      redex_live n p q \<and> node p \<in> set (covered m) \<and> node q \<in> set (covered m) \<and> node p \<le> node q" for p q
  proof -
    have "p = Port (node p) 0" if "redex_live n p q" using that by (cases p) (simp add: redex_live_def)
    then show ?thesis unfolding c map_filter_set by (auto simp: redex_of_Some lin_pat_covered_def)
  qed
  then show ?thesis by auto
qed

lemma claim_exits_set:
  assumes "lin_pat_claim n m [] True hld = Some c" "\<And>v. v \<in> set (covered m) \<Longrightarrow> live n v"
  shows "set (exits c) =
    {e. node e \<in> set (covered m) \<and> (pno e = 1 \<or> pno e = 2) \<and> live n (node (wire n e)) \<and> node (wire n e) \<notin> set (covered m)}"
proof -
  note c = claim_of[OF assms(1)]
  have "e \<in> set (aux_ports m) \<longleftrightarrow> node e \<in> set (covered m) \<and> (pno e = 1 \<or> pno e = 2)" for e
    by (cases e) (auto simp: aux_ports_def)
  then show ?thesis unfolding c using assms(2) by (auto simp: leaves_def lin_pat_covered_def)
qed

lemma region_within:
  assumes P: "\<And>p q. (p, q) \<in> set (pairs c) \<Longrightarrow> node p \<in> V \<and> node q \<in> V"
    and pr: "\<And>u. u \<in> V \<Longrightarrow> live n (node (wire n (Port u 0))) \<Longrightarrow> node (wire n (Port u 0)) \<in> V"
    and X: "\<And>u i. u \<in> V \<Longrightarrow> i = 1 \<or> i = 2 \<Longrightarrow> live n (node (wire n (Port u i))) \<Longrightarrow> Port u i \<notin> set (exits c) \<Longrightarrow>
      node (wire n (Port u i)) \<in> V"
  shows "region_set n c \<subseteq> V"
proof
  fix v assume "v \<in> region_set n c"
  then have "in_region n (pairs c) (exits c) v" by (simp add: region_set_def)
  then show "v \<in> V"
  proof (induction rule: in_region.induct)
    case (start v)
    then show ?case using P by (auto simp: pair_nodes_def)
  next
    case (across u i)
    show ?case
    proof (cases "i = 0")
      case True
      then show ?thesis using pr across by auto
    next
      case False
      then have "i = 1 \<or> i = 2" using across.hyps(2) by auto
      moreover have "Port u i \<notin> set (exits c)" using across.hyps(3) by (auto simp: claim_is_exit_def)
      ultimately show ?thesis using X across.IH across.hyps(4) by auto
    qed
  qed
qed

lemma region_small:
  assumes "region_set n c \<subseteq> set vs" "length vs \<le> pat_nodes"
  shows "finite (region_set n c)" "card (region_set n c) \<le> claim_nodes_max"
proof -
  show "finite (region_set n c)" using finite_subset[OF assms(1)] by simp
  have "card (region_set n c) \<le> card (set vs)" by (rule card_mono[OF _ assms(1)]) simp
  also have "\<dots> \<le> claim_nodes_max" using card_length[of vs] assms(2) by (simp add: pat_nodes_def claim_nodes_max_def)
  finally show "card (region_set n c) \<le> claim_nodes_max" .
qed

text \<open>C15. From a match to a granted region.  The claim filled from a successful match holds exactly the live
  redexes with both nodes covered, each once, and as exits exactly the auxiliary ports of the covered region
  whose wire leaves it for a live node.  When no principal port of the region leaves it, the nodes the core
  grants lie in the region, and the core accepts the claim exactly when every exit belongs to a node that can be
  reached from the redexes.
\<close>

theorem claim_of_match:
  assumes mt: "lin_pat_match n rt a bud = (True, m)" and cl: "lin_pat_claim n m [] True hld = Some c"
  shows "distinct (pairs c) \<and>
    set (pairs c) = {(p, q). redex_live n p q \<and> node p \<in> set (covered m) \<and> node q \<in> set (covered m) \<and> node p \<le> node q} \<and>
    set (exits c) = {e. node e \<in> set (covered m) \<and> (pno e = 1 \<or> pno e = 2) \<and> live n (node (wire n e)) \<and>
      node (wire n e) \<notin> set (covered m)} \<and>
    ((\<forall>u \<in> set (covered m). live n (node (wire n (Port u 0))) \<longrightarrow> node (wire n (Port u 0)) \<in> set (covered m)) \<longrightarrow>
      region_set n c \<subseteq> set (covered m) \<and>
      ((\<exists>c'. lin_claim_check n c = Inr c') \<longleftrightarrow> (\<forall>e \<in> set (exits c). node e \<in> region_set n c)))"
proof (intro conjI impI)
  let ?V = "set (covered m)"
  have co: "distinct (covered m)" "\<And>v. v \<in> ?V \<Longrightarrow> live n v" "length (covered m) \<le> pat_nodes"
    using match_goes[OF mt] by (auto simp: cover_ok_def)
  note c = claim_of[OF cl]
  show "distinct (pairs c)" unfolding c by (rule redexes_distinct[OF co(1)])
  show P: "set (pairs c) = {(p, q). redex_live n p q \<and> node p \<in> ?V \<and> node q \<in> ?V \<and> node p \<le> node q}"
    by (rule claim_pairs_set[OF cl])
  show X: "set (exits c) = {e. node e \<in> ?V \<and> (pno e = 1 \<or> pno e = 2) \<and> live n (node (wire n e)) \<and> node (wire n e) \<notin> ?V}"
    by (rule claim_exits_set[OF cl co(2)])
  assume pr: "\<forall>u \<in> ?V. live n (node (wire n (Port u 0))) \<longrightarrow> node (wire n (Port u 0)) \<in> ?V"
  show sub: "region_set n c \<subseteq> ?V" by (rule region_within) (use P X pr in auto)
  have "\<forall>(p, q) \<in> set (pairs c). redex_live n p q" using P by auto
  moreover have "\<forall>e \<in> set (exits c). pno e \<noteq> 0 \<and> live n (node e) \<and> \<not> node (wire n e) \<in> region_set n c"
    using X co(2) sub by auto
  ultimately have "region_valid n c \<longleftrightarrow> (\<forall>e \<in> set (exits c). node e \<in> region_set n c)"
    using c region_small[OF sub co(3)] by (auto simp: region_valid_def)
  then show "(\<exists>c'. lin_claim_check n c = Inr c') \<longleftrightarrow> (\<forall>e \<in> set (exits c). node e \<in> region_set n c)"
    using region_check(1)[OF c(1)] by simp
qed

text \<open>The redex of \<open>beta_net\<close>, matched from its application.\<close>

definition demo_pat :: pat where
  "demo_pat = P_all (P_tag APP) (P_port 0 (P_tag LAM))"

lemma demo_match:
  "\<exists>m. lin_pat_match beta_net (Port 2 0) demo_pat 100 = (True, m) \<and> covered m = [2, 1] \<and> \<not> overflow m \<and> used m = 4"
proof -
  have l: "live beta_net 1" "live beta_net 2" "tag beta_net 1 = LAM" "tag beta_net 2 = APP"
    by (simp_all add: beta_net_def beta_alloc)
  have w: "wire beta_net (Port 2 0) = Port 1 0" by (simp add: beta_net_wire beta_links_def link_ends_pair)
  show ?thesis using l w
    by (simp add: lin_pat_match_def demo_pat_def match_zero_def guarded_def accept_if_def lin_pat_cover_def pat_depth_def
        pat_nodes_def)
qed

theorem match_bounded_witness:
  "\<exists>m. lin_pat_match beta_net (Port 2 0) demo_pat 100 = (True, m) \<and> used m \<le> 100 \<and> mok m"
proof -
  obtain m where m: "lin_pat_match beta_net (Port 2 0) demo_pat 100 = (True, m)" using demo_match by blast
  show ?thesis using match_bounded[OF m] m by simp
qed

lemma demo_claim:
  assumes "lin_pat_match beta_net (Port 2 0) demo_pat 100 = (True, m)"
  shows "lin_pat_claim beta_net m [] True False = Some beta_claim"
proof -
  have c: "covered m = [2, 1]" "\<not> overflow m" using demo_match assms by auto
  have k: "mok m" using match_goes[OF assms] by simp
  have l: "live beta_net v \<longleftrightarrow> 0 \<le> v \<and> v < 4" for v by (simp add: beta_net_def beta_alloc)
  have w: "wire beta_net (Port 2 0) = Port 1 0" "wire beta_net (Port 1 0) = Port 2 0" "wire beta_net (Port 1 1) = Port 1 2"
    "wire beta_net (Port 1 2) = Port 1 1" "wire beta_net (Port 2 1) = Port 3 0" "wire beta_net (Port 2 2) = Port 0 0"
    by (simp_all add: beta_net_wire beta_links_def link_ends_pair)
  show ?thesis using k c(2) w w[unfolded One_nat_def]
    by (simp add: lin_pat_claim_def c(1) List.map_filter_simps redex_of_def l lin_pat_covered_def lin_pat_region_exits_def
        aux_ports_def leaves_def beta_claim_def claim_pairs_max_def claim_exits_max_def)
qed

theorem claim_of_match_witness:
  "\<exists>m c. lin_pat_match beta_net (Port 2 0) demo_pat 100 = (True, m) \<and> lin_pat_claim beta_net m [] True False = Some c \<and>
     region_set beta_net c \<subseteq> set (covered m)"
proof -
  obtain m where m: "lin_pat_match beta_net (Port 2 0) demo_pat 100 = (True, m)" "covered m = [2, 1]" using demo_match by blast
  have "wire beta_net (Port 2 0) = Port 1 0" "wire beta_net (Port 1 0) = Port 2 0"
    by (simp_all add: beta_net_wire beta_links_def link_ends_pair)
  then have "\<forall>u \<in> set (covered m). live beta_net (node (wire beta_net (Port u 0))) \<longrightarrow>
      node (wire beta_net (Port u 0)) \<in> set (covered m)" using m(2) by simp
  then show ?thesis using claim_of_match[OF m(1) demo_claim[OF m(1)]] demo_claim[OF m(1)] m(1) by blast
qed

end
