(* ===== verification/PatternRun.thy ===== *)
theory PatternRun
  imports PatternProps
begin

text \<open>
  A reading of patterns without a record: on the patterns the encodings are made of, with budget and depth to
  spare, the matcher finds exactly what \<open>run\<close> finds.  With it the shape tests of the drivers become conditions
  on wires and tags, and a box that was built is recognised for what it is.
\<close>

section \<open>Matching as a function on bindings\<close>

type_synonym bindings = "int \<Rightarrow> port option"

primrec run :: "net \<Rightarrow> pat \<Rightarrow> port \<Rightarrow> bindings \<Rightarrow> bindings option" where
  "run n P_null p b = None"
| "run n P_any p b = None"
| "run n (P_tag t) p b = (if live n (node p) \<and> tag n (node p) = t then Some b else None)"
| "run n (P_pred f) p b = None"
| "run n (P_at i a) p b = (if pno p = i then run n a p b else None)"
| "run n (P_port i a) p b = (if live n (node p) \<and> i \<le> 2 then run n a (wire n (Port (node p) i)) b else None)"
| "run n (P_fan a) p b = run n a (skip_dup n p) b"
| "run n (P_all a c) p b = (case run n a p b of None \<Rightarrow> None | Some b1 \<Rightarrow> run n c p b1)"
| "run n (P_bind i) p b = (if live n (node p) \<and> 0 \<le> i \<and> i < pat_binds \<and> b i = None then Some (b(i \<mapsto> p)) else None)"
| "run n (P_ref i) p b = (if live n (node p) \<and> map_option node (b i) = Some (node p) then Some b else None)"
| "run n (P_not a) p b = None"
| "run n (P_cycle i a) p b = None"
| "run n (P_cycle_ref i) p b = None"
| "run n (P_spine l h a) p b = None"
| "run n (P_spine_head a c) p b = None"

primrec simple :: "pat \<Rightarrow> bool" where
  "simple P_null = False" | "simple P_any = False" | "simple (P_tag t) = True" | "simple (P_pred f) = False"
| "simple (P_at i a) = simple a" | "simple (P_port i a) = simple a" | "simple (P_fan a) = simple a"
| "simple (P_all a c) = (simple a \<and> simple c)" | "simple (P_bind i) = True" | "simple (P_ref i) = True"
| "simple (P_not a) = False" | "simple (P_cycle i a) = False" | "simple (P_cycle_ref i) = False"
| "simple (P_spine l h a) = False" | "simple (P_spine_head a c) = False"

primrec cost :: "pat \<Rightarrow> nat" where
  "cost P_null = 1" | "cost P_any = 1" | "cost (P_tag t) = 1" | "cost (P_pred f) = 1"
| "cost (P_at i a) = Suc (cost a)" | "cost (P_port i a) = Suc (cost a)" | "cost (P_fan a) = Suc (cost a)"
| "cost (P_all a c) = Suc (cost a + cost c)" | "cost (P_bind i) = 1" | "cost (P_ref i) = 1"
| "cost (P_not a) = 1" | "cost (P_cycle i a) = 1" | "cost (P_cycle_ref i) = 1"
| "cost (P_spine l h a) = 1" | "cost (P_spine_head a c) = 1"

primrec dep :: "pat \<Rightarrow> nat" where
  "dep P_null = 1" | "dep P_any = 1" | "dep (P_tag t) = 1" | "dep (P_pred f) = 1"
| "dep (P_at i a) = Suc (dep a)" | "dep (P_port i a) = Suc (dep a)" | "dep (P_fan a) = Suc (dep a)"
| "dep (P_all a c) = Suc (max (dep a) (dep c))" | "dep (P_bind i) = 1" | "dep (P_ref i) = 1"
| "dep (P_not a) = 1" | "dep (P_cycle i a) = 1" | "dep (P_cycle_ref i) = 1"
| "dep (P_spine l h a) = 1" | "dep (P_spine_head a c) = 1"

text \<open>The record stands for the bindings \<open>b\<close>.\<close>

definition rep :: "bindings \<Rightarrow> lmatch \<Rightarrow> bool" where
  "rep b m \<longleftrightarrow> dom b = bind_set m \<and> dom b \<subseteq> {0..<pat_binds} \<and> length (binds m) = nat pat_binds \<and>
     (\<forall>i q. b i = Some q \<longrightarrow> binds m ! nat i = q)"

lemma rep_cover [simp]: "rep b (lin_pat_cover n v m) = rep b m"
  by (simp add: rep_def lin_pat_cover_def)

lemma cover_fields [simp]: "budget (lin_pat_cover n v m) = budget m" "inprog (lin_pat_cover n v m) = inprog m"
  "bind_set (lin_pat_cover n v m) = bind_set m" "binds (lin_pat_cover n v m) = binds m"
  by (simp_all add: lin_pat_cover_def)

lemma rep_fields [simp]: "rep b (m\<lparr>budget := x\<rparr>) = rep b m" "rep b (m\<lparr>used := u\<rparr>) = rep b m" "rep b (m\<lparr>inprog := y\<rparr>) = rep b m"
  by (simp_all add: rep_def)

lemma rep_bind:
  assumes r: "rep b m" and i: "0 \<le> i" "i < pat_binds" "b i = None"
  shows "rep (b(i \<mapsto> p)) (m\<lparr>binds := (binds m)[nat i := p], bind_set := insert i (bind_set m), nbind := k\<rparr>)"
proof -
  have "(binds m)[nat i := p] ! nat j = q" if "(b(i \<mapsto> p)) j = Some q" for j q
  proof (cases "j = i")
    case True
    then show ?thesis using that r i by (auto simp: rep_def)
  next
    case False
    then have bj: "b j = Some q" using that by simp
    then have "j \<in> dom b" by blast
    then have "j \<in> {0..<pat_binds}" using r unfolding rep_def by blast
    then have "0 \<le> j" by simp
    then have "nat j \<noteq> nat i" using False i by auto
    then show ?thesis using r bj by (simp add: rep_def)
  qed
  moreover have "dom b = bind_set m" "bind_set m \<subseteq> {0..<pat_binds}" "length (binds m) = nat pat_binds"
    using r unfolding rep_def by metis+
  ultimately show ?thesis unfolding rep_def using i by simp
qed

text \<open>There is room for a pattern of cost \<open>c\<close> and depth \<open>d\<close> at position \<open>pos\<close>.\<close>

definition room :: "nat \<Rightarrow> nat \<Rightarrow> nat list \<Rightarrow> lmatch \<Rightarrow> bool" where
  "room c d pos m \<longleftrightarrow> int c \<le> budget m \<and> length (inprog m) + d \<le> pat_depth \<and> (\<forall>(q, r) \<in> set (inprog m). length q < length pos)"

text \<open>What running leaves: \<open>None\<close> is a match declined.\<close>

definition agrees :: "bindings option \<Rightarrow> nat \<Rightarrow> lmatch \<Rightarrow> bool \<times> lmatch \<Rightarrow> bool" where
  "agrees r c m x \<longleftrightarrow>
     (case r of None \<Rightarrow> \<not> fst x
      | Some b \<Rightarrow> fst x \<and> rep b (snd x) \<and> inprog (snd x) = inprog m \<and> budget (snd x) = budget m - int c)"

text \<open>The guard, when there is room.\<close>

definition step_in :: "nat list \<Rightarrow> port \<Rightarrow> lmatch \<Rightarrow> lmatch" where
  "step_in pos p m = m\<lparr>budget := budget m - 1, used := used m + 1, inprog := inprog m @ [(pos, p)]\<rparr>"

lemma step_in_fields [simp]: "budget (step_in pos p m) = budget m - 1" "inprog (step_in pos p m) = inprog m @ [(pos, p)]"
  "rep b (step_in pos p m) = rep b m" "bind_set (step_in pos p m) = bind_set m" "binds (step_in pos p m) = binds m"
  by (simp_all add: step_in_def rep_def)

lemma guarded_agrees:
  assumes r: "room (Suc c) (Suc d) pos m" and a: "agrees r c (step_in pos p m) (f (step_in pos p m))"
  shows "agrees r (Suc c) m (guarded pos p f m)"
proof -
  obtain b m2 where f: "f (step_in pos p m) = (b, m2)" by fastforce
  have bd: "0 < budget m" "length (inprog m) < pat_depth" using r by (auto simp: room_def)
  have nq: "\<not> (\<exists>(q, r) \<in> set (inprog m). q = pos \<and> node r = node p)" using r by (auto simp: room_def)
  have "guarded pos p f m = (b, m2\<lparr>inprog := butlast (inprog m2)\<rparr>)"
    using bd nq f by (auto simp: guarded_def step_in_def)
  then show ?thesis using a f by (auto simp: agrees_def split: option.splits)
qed

lemma room_in: "room (Suc c) (Suc d) pos m \<Longrightarrow> c' \<le> c \<Longrightarrow> d' \<le> d \<Longrightarrow> room c' d' (pos @ [i]) (step_in pos p m)"
  by (auto simp: room_def)

lemma agrees_case:
  assumes "agrees r c m x"
  obtains "r = None" "\<not> fst x"
  | b where "r = Some b" "fst x" "rep b (snd x)" "inprog (snd x) = inprog m" "budget (snd x) = budget m - int c"
  using assms by (auto simp: agrees_def split: option.splits)

theorem at_run: "simple a \<Longrightarrow> rep b m \<Longrightarrow> room (cost a) (dep a) pos m \<Longrightarrow> agrees (run n a p b) (cost a) m (lin_pat_at n a pos p m)"
proof (induction a arbitrary: pos p m b)
  case (P_tag t)
  have "agrees (run n (P_tag t) p b) 0 (step_in pos p m) (accept_if n (live n (node p) \<and> tag n (node p) = t) p (step_in pos p m))"
    using P_tag.prems by (simp add: agrees_def accept_if_def)
  then show ?case unfolding lin_pat_at.simps cost.simps One_nat_def lin_pat_live_live
    by (intro guarded_agrees[where d = "0"]) (use P_tag.prems in simp_all)
next
  case (P_bind i)
  let ?f = "\<lambda>m. if \<not> live n (node p) then (False, m)
                else case lin_pat_bind_slot i p m of
                  (False, m1) \<Rightarrow> (False, m1)
                | (True, m1) \<Rightarrow> (True, lin_pat_cover n (node p) m1)"
  have b: "i \<in> bind_set m \<longleftrightarrow> b i \<noteq> None" using P_bind.prems by (auto simp: rep_def)
  have "agrees (run n (P_bind i) p b) 0 (step_in pos p m) (?f (step_in pos p m))"
  proof (cases "live n (node p) \<and> 0 \<le> i \<and> i < pat_binds \<and> b i = None")
    case True
    then have "lin_pat_bind_slot i p (step_in pos p m) = (True, (step_in pos p m)\<lparr>binds := (binds m)[nat i := p],
        bind_set := insert i (bind_set m), nbind := (if nbind m < i + 1 then i + 1 else nbind m)\<rparr>)"
      using b by (simp add: lin_pat_bind_slot_def step_in_def)
    then show ?thesis using True rep_bind[of b "step_in pos p m" i p] P_bind.prems(2) by (simp add: agrees_def)
  next
    case False
    then show ?thesis using b by (auto simp: agrees_def lin_pat_bind_slot_def)
  qed
  then show ?case unfolding lin_pat_at.simps cost.simps One_nat_def lin_pat_live_live
    by (intro guarded_agrees[where d = "0"]) (use P_bind.prems in simp_all)
next
  case (P_ref i)
  have b: "lin_pat_bound m i \<longleftrightarrow> b i \<noteq> None" "b i = Some q \<Longrightarrow> binds m ! nat i = q" for q
    using P_ref.prems by (auto simp: rep_def lin_pat_bound_def)
  have "agrees (run n (P_ref i) p b) 0 (step_in pos p m) (accept_if n (live n (node p) \<and> lin_pat_bound (step_in pos p m) i \<and>
      node (binds (step_in pos p m) ! nat i) = node p) p (step_in pos p m))"
    using P_ref.prems b by (auto simp: agrees_def accept_if_def lin_pat_bound_def)
  then show ?case unfolding lin_pat_at.simps cost.simps One_nat_def lin_pat_live_live
    by (intro guarded_agrees[where d = "0"]) (use P_ref.prems in simp_all)
next
  case (P_at i a)
  have "agrees (run n a p b) (cost a) (step_in pos p m) (lin_pat_at n a (pos @ [0]) p (step_in pos p m))"
    using P_at.prems by (intro P_at.IH) (auto intro: room_in)
  then have "agrees (run n (P_at i a) p b) (cost a) (step_in pos p m)
      ((\<lambda>m. if pno p = i then lin_pat_at n a (pos @ [0]) p m else (False, m)) (step_in pos p m))" by (simp add: agrees_def)
  then show ?case unfolding lin_pat_at.simps cost.simps One_nat_def lin_pat_live_live
    by (intro guarded_agrees[where d = "dep a"]) (use P_at.prems in simp_all)
next
  case (P_port i a)
  have "agrees (run n a (wire n (Port (node p) i)) b) (cost a) (lin_pat_cover n (node p) (step_in pos p m))
      (lin_pat_at n a (pos @ [0]) (wire n (Port (node p) i)) (lin_pat_cover n (node p) (step_in pos p m)))"
    using P_port.prems by (intro P_port.IH) (auto simp: room_def)
  then have "agrees (run n (P_port i a) p b) (cost a) (step_in pos p m)
      ((\<lambda>m. if \<not> live n (node p) \<or> 2 < i then (False, m)
            else lin_pat_at n a (pos @ [0]) (wire n (Port (node p) i)) (lin_pat_cover n (node p) m)) (step_in pos p m))"
    by (auto simp: agrees_def split: option.splits)
  then show ?case unfolding lin_pat_at.simps cost.simps One_nat_def lin_pat_live_live
    by (intro guarded_agrees[where d = "dep a"]) (use P_port.prems in simp_all)
next
  case (P_fan a)
  have "agrees (run n a (skip_dup n p) b) (cost a) (step_in pos p m) (lin_pat_at n a (pos @ [0]) (skip_dup n p) (step_in pos p m))"
    using P_fan.prems by (intro P_fan.IH) (auto intro: room_in)
  then have "agrees (run n (P_fan a) p b) (cost a) (step_in pos p m)
      (lin_pat_at n a (pos @ [0]) (skip_dup n p) (step_in pos p m))" by simp
  then show ?case unfolding lin_pat_at.simps cost.simps One_nat_def lin_pat_live_live
    by (intro guarded_agrees[where d = "dep a"]) (use P_fan.prems in simp_all)
next
  case (P_all a c)
  let ?m = "step_in pos p m"
  let ?f = "\<lambda>m. case lin_pat_at n a (pos @ [0]) p m of
                  (False, m1) \<Rightarrow> (False, m1)
                | (True, m1) \<Rightarrow> lin_pat_at n c (pos @ [1]) p m1"
  have r: "room (cost a) (dep a) (pos @ [0]) ?m" using P_all.prems by (auto intro: room_in)
  have "agrees (run n a p b) (cost a) ?m (lin_pat_at n a (pos @ [0]) p ?m)"
    by (rule P_all.IH(1)) (use P_all.prems r in auto)
  then have "agrees (run n (P_all a c) p b) (cost a + cost c) ?m (?f ?m)"
  proof (cases rule: agrees_case)
    case 1
    then show ?thesis by (cases "lin_pat_at n a (pos @ [0]) p ?m") (auto simp: agrees_def)
  next
    case (2 b1)
    then obtain m1 where m1: "lin_pat_at n a (pos @ [0]) p ?m = (True, m1)"
      by (cases "lin_pat_at n a (pos @ [0]) p ?m") auto
    have "room (cost c) (dep c) (pos @ [1]) m1" using P_all.prems(3) 2 m1 by (auto simp: room_def)
    then have "agrees (run n c p b1) (cost c) m1 (lin_pat_at n c (pos @ [1]) p m1)"
      using P_all.IH(2)[of b1 m1 "pos @ [1]" p] P_all.prems(1) 2 m1 by simp
    then show ?thesis using 2 m1 by (auto simp: agrees_def split: option.splits)
  qed
  then show ?case unfolding lin_pat_at.simps cost.simps
    by (intro guarded_agrees[where d = "max (dep a) (dep c)"]) (use P_all.prems in simp_all)
qed simp_all

corollary match_run:
  assumes "simple a" "cost a \<le> 256" "dep a \<le> pat_depth" "a \<noteq> P_null" "0 \<le> nn n"
  shows "case run n a p Map.empty of
      None \<Rightarrow> \<not> fst (lin_pat_match n p a (pat_budget n))
    | Some b \<Rightarrow> \<exists>m. lin_pat_match n p a (pat_budget n) = (True, m) \<and> (\<forall>i q. b i = Some q \<longrightarrow> binds m ! nat i = q)"
proof -
  let ?m = "match_zero\<lparr>mroot := p, budget := pat_budget n\<rparr>"
  have bp: "256 \<le> pat_budget n" using assms(5) by (simp add: pat_budget_def)
  have r: "rep Map.empty ?m" "room (cost a) (dep a) [] ?m"
    using assms bp by (auto simp: rep_def match_zero_def room_def)
  from at_run[OF assms(1) r, of n p] show ?thesis
  proof (cases rule: agrees_case)
    case 1
    then show ?thesis using bp assms(4) by (auto simp: lin_pat_match_def Let_def split: prod.splits bool.splits)
  next
    case (2 b)
    then show ?thesis using bp assms(4) by (cases "lin_pat_at n a [] p ?m") (auto simp: lin_pat_match_def rep_def)
  qed
qed

section \<open>Boxes\<close>

lemma skip_at: "lam_at m (node p) \<or> app_at m (node p) \<Longrightarrow> skip_dup m p = p"
proof -
  have "skip_loop k m p = p" if "lam_at m (node p) \<or> app_at m (node p)" for k
    using that by (cases k) (auto simp: is_tag_def lam_at_def app_at_def)
  then show "lam_at m (node p) \<or> app_at m (node p) \<Longrightarrow> skip_dup m p = p" by (simp add: skip_dup_def)
qed

text \<open>The six nodes of a box of domain \<open>bd\<close> on the payload \<open>v\<close>.\<close>

definition box_at :: "net \<Rightarrow> int \<Rightarrow> box_dom \<Rightarrow> port \<Rightarrow> bool" where
  "box_at m a bd v \<longleftrightarrow> (\<exists>b c ou k q. distinct [a, b, c] \<and> lam_at m a \<and> lam_at m b \<and> lam_at m c \<and>
     app_at m ou \<and> app_at m k \<and> app_at m q \<and> live m (node v) \<and>
     wire m (Port a 2) = Port b 0 \<and> wire m (Port b 2) = Port c 0 \<and> wire m (Port c 2) = Port ou 1 \<and>
     wire m (Port ou 0) = Port a 1 \<and> wire m (Port ou 2) = Port k 1 \<and>
     wire m (Port k 0) = Port (if bd = BOX_BOOL then c else b) 1 \<and> wire m (Port k 2) = Port q 1 \<and>
     wire m (Port q 0) = Port (if bd = BOX_BOOL then b else c) 1 \<and> wire m (Port q 2) = v)"

lemma box_simple: "simple (LIN_BOX_PAT x y)" "cost (LIN_BOX_PAT x y) \<le> 256" "dep (LIN_BOX_PAT x y) \<le> pat_depth"
  "LIN_BOX_PAT x y \<noteq> P_null"
  by (simp_all add: LIN_BOX_PAT_def LIN_BOX_TAIL_def P_all3_def pat_depth_def)

lemma box_run:
  assumes b: "box_at m a bd v"
  shows "\<exists>r. run m (if bd = BOX_BOOL then lin_pat_enc_bool_box else lin_pat_enc_num_box) (Port a 0) Map.empty = Some r \<and> r 7 = Some v"
    "bd = BOX_BOOL \<Longrightarrow> run m lin_pat_enc_num_box (Port a 0) Map.empty = None"
proof -
  obtain b c ou k q where d: "distinct [a, b, c]" and l: "lam_at m a" "lam_at m b" "lam_at m c" "app_at m ou" "app_at m k" "app_at m q"
    and v: "live m (node v)" and w: "wire m (Port a 2) = Port b 0" "wire m (Port b 2) = Port c 0" "wire m (Port c 2) = Port ou 1"
     "wire m (Port ou 0) = Port a 1" "wire m (Port ou 2) = Port k 1" "wire m (Port k 0) = Port (if bd = BOX_BOOL then c else b) 1"
     "wire m (Port k 2) = Port q 1" "wire m (Port q 0) = Port (if bd = BOX_BOOL then b else c) 1" "wire m (Port q 2) = v"
    using b unfolding box_at_def by blast
  have lv: "live m a" "tag m a = LAM" "live m b" "tag m b = LAM" "live m c" "tag m c = LAM" "live m ou" "tag m ou = APP"
    "live m k" "tag m k = APP" "live m q" "tag m q = APP" using l by (auto simp: lam_at_def app_at_def)
  have s: "skip_dup m (Port u i) = Port u i" if "u \<in> {a, b, c, ou, k, q}" for u i
    using that l by (intro skip_at) auto
  note e = lin_pat_enc_num_box_def lin_pat_enc_bool_box_def LIN_BOX_PAT_def LIN_BOX_TAIL_def P_all3_def pat_binds_def
  show "\<exists>r. run m (if bd = BOX_BOOL then lin_pat_enc_bool_box else lin_pat_enc_num_box) (Port a 0) Map.empty = Some r \<and> r 7 = Some v"
    using d v by (cases bd) (simp_all add: e s w w[unfolded One_nat_def] lv)
  show "bd = BOX_BOOL \<Longrightarrow> run m lin_pat_enc_num_box (Port a 0) Map.empty = None"
    using d v by (simp add: e s w w[unfolded One_nat_def] lv)
qed

lemma box_reads:
  assumes b: "box_at m a bd v" and nn: "0 \<le> nn m"
  shows "lin_pat_box m (Port a 0) = Some (bd, v)"
proof -
  note r1 = match_run[OF box_simple(1)[of 1 2] box_simple(2-4) nn, of "Port a 0"]
  note r2 = match_run[OF box_simple(1)[of 2 1] box_simple(2-4) nn, of "Port a 0"]
  obtain x where x: "run m (if bd = BOX_BOOL then lin_pat_enc_bool_box else lin_pat_enc_num_box) (Port a 0) Map.empty = Some x"
    "x 7 = Some v" using box_run(1)[OF b] by blast
  have v7: "\<forall>i q. x i = Some q \<longrightarrow> binds mt ! nat i = q \<Longrightarrow> binds mt ! 7 = v" for mt
    using x(2) by (metis nat_numeral)
  show ?thesis
  proof (cases bd)
    case BOX_NUM
    then show ?thesis using x r1 v7 by (auto simp: lin_pat_box_def lin_pat_enc_num_box_def)
  next
    case BOX_BOOL
    then show ?thesis using x r1 r2 v7 box_run(2)[OF b]
      by (auto simp: lin_pat_box_def lin_pat_enc_num_box_def lin_pat_enc_bool_box_def split: prod.splits bool.splits)
  qed
qed

end
