(* ===== verification/Sever.thy ===== *)
theory Sever
  imports NetProps
begin

text \<open>
  Severing as two steps, a cut and the reaping of what it isolates, and what a sequence of cuts at one node
  leaves alone: nodes not wired to it, and ports wired elsewhere.  A port that still points at a live node
  without being pointed back at, as a rewrite leaves it for a moment, changes none of this.
\<close>

section \<open>Cutting and reaping\<close>

definition cut_at :: "port \<Rightarrow> net \<Rightarrow> net" where
  "cut_at p n = (if wire n p = NONE then n else set_wire (wire n p) NONE (set_wire p NONE n))"

definition reap :: "env \<Rightarrow> int \<Rightarrow> net \<Rightarrow> net" where
  "reap E v n =
     (if live n v \<and> (\<forall>i < 3. wire n (Port v i) = NONE) \<and> \<not> in_parallel E \<and> pins n = 0 then shelve v n else n)"

text \<open>A node's degree says whether it is isolated.\<close>

definition plain_at :: "net \<Rightarrow> int \<Rightarrow> bool" where
  "plain_at n v \<longleftrightarrow> queue_ok n \<and> queue_live n \<and> (live n v \<longrightarrow> (deg_live n v = 0 \<longleftrightarrow> (\<forall>i < 3. wire n (Port v i) = NONE)))"

lemma plain_ok: "net_ok n \<Longrightarrow> plain_at n v"
  by (auto simp: plain_at_def net_ok_def isolated_iff)

lemma release_reap:
  assumes "plain_at n v"
  shows "(if deg_live n v = 0 then net_release E n v else n) = reap E v n"
proof (cases "live n v")
  case True
  then show ?thesis using assms release_isolated[of n v E] by (auto simp: plain_at_def reap_def)
qed (simp add: reap_def net_release_def)

lemma shelve_fields [simp]: "nn (shelve v n) = nn n" "act (shelve v n) = act n" "act_of (shelve v n) = act_of n"
  "pins (shelve v n) = pins n" "lvl (shelve v n) = lvl n"
  by (simp_all add: shelve_def)

lemma reap_fields [simp]: "nn (reap E v n) = nn n" "act (reap E v n) = act n" "act_of (reap E v n) = act_of n"
  "pins (reap E v n) = pins n" "in_net (reap E v n) u = in_net n u"
  by (simp_all add: reap_def in_net_def)

lemma cut_fields [simp]: "nn (cut_at p n) = nn n" "act (cut_at p n) = act n" "act_of (cut_at p n) = act_of n"
  "pins (cut_at p n) = pins n" "live (cut_at p n) u = live n u" "in_net (cut_at p n) u = in_net n u"
  "tag (cut_at p n) = tag n" "dead (cut_at p n) = dead n"
  by (simp_all add: cut_at_def)

lemma cut_wire: "wire (cut_at p n) q = (if wire n p \<noteq> NONE \<and> (q = p \<or> q = wire n p) then NONE else wire n q)"
  by (simp add: cut_at_def)

lemma cut_same: "wire n p = NONE \<Longrightarrow> cut_at p n = n"
  by (simp add: cut_at_def)

lemma sever_reaps:
  assumes p: "in_net n (node p)" and bk: "wire n p \<noteq> NONE \<Longrightarrow> in_net n (node (wire n p)) \<and> wire n (wire n p) = p \<and> wire n p \<noteq> p"
    and c: "plain_at (cut_at p n) (node p)" "wire n p \<noteq> NONE \<Longrightarrow> plain_at (reap E (node p) (cut_at p n)) (node (wire n p))"
  shows "net_sever E p n = (if wire n p = NONE then reap E (node p) n else reap E (node (wire n p)) (reap E (node p) (cut_at p n)))"
proof (cases "wire n p = NONE")
  case True
  have "set_wire p NONE n = n" using True by (simp add: set_wire_def fun_upd_idem)
  moreover have "plain_at n (node p)" using c(1) by (simp add: cut_same True)
  note r = release_reap[OF this, of E]
  ultimately show ?thesis using p True by (simp add: net_sever_def Let_def flip: r)
next
  case False
  let ?w = "wire n p"
  have b: "in_net n (node ?w)" "wire n ?w = p" "?w \<noteq> p" using bk[OF False] by blast+
  have e: "cut_at p n = set_wire ?w NONE (set_wire p NONE n)" using False by (simp add: cut_at_def)
  have r1: "(if deg_live (cut_at p n) (node p) = 0 then net_release E (cut_at p n) (node p) else cut_at p n) = reap E (node p) (cut_at p n)"
    by (rule release_reap[OF c(1)])
  let ?k = "reap E (node p) (cut_at p n)"
  have r2: "(if deg_live ?k (node ?w) = 0 then net_release E ?k (node ?w) else ?k) = reap E (node ?w) ?k"
    by (rule release_reap[OF c(2)[OF False]])
  have i: "in_net ?k (node ?w)" using b(1) by simp
  have "net_sever E p n = (if in_net ?k (node ?w) \<and> deg_live ?k (node ?w) = 0 then net_release E ?k (node ?w) else ?k)"
    using p b by (simp add: net_sever_def Let_def flip: e r1)
  then show ?thesis using r2 i False by simp
qed

section \<open>On a sound net\<close>

lemma reap_ok:
  assumes "net_ok n"
  shows "net_ok (reap E v n)" "\<And>P. all_queued n P \<Longrightarrow> all_queued (reap E v n) P"
    "live (reap E v n) u \<Longrightarrow> live n u \<and> tag (reap E v n) u = tag n u"
    "live n u \<Longrightarrow> \<not> live (reap E v n) u \<Longrightarrow> u = v \<and> (\<forall>i < 3. wire n (Port v i) = NONE)"
    "live (reap E v n) (node q) \<or> pno q \<noteq> 0 \<Longrightarrow> wire (reap E v n) q = wire n q"
proof -
  have s: "net_ok (shelve v n)" "\<And>P. all_queued n P \<Longrightarrow> all_queued (shelve v n) P" "\<And>u. live (shelve v n) u \<longleftrightarrow> live n u \<and> u \<noteq> v"
    "\<And>q. node q \<noteq> v \<Longrightarrow> wire (shelve v n) q = wire n q" if "live n v" "\<forall>p < 3. wire n (Port v p) = NONE"
    using shelve_ok[OF assms that] by blast+
  show "net_ok (reap E v n)" "\<And>P. all_queued n P \<Longrightarrow> all_queued (reap E v n) P"
    "live n u \<Longrightarrow> \<not> live (reap E v n) u \<Longrightarrow> u = v \<and> (\<forall>i < 3. wire n (Port v i) = NONE)"
    using assms s by (auto simp: reap_def split: if_splits)
  show "live (reap E v n) u \<Longrightarrow> live n u \<and> tag (reap E v n) u = tag n u"
    using s(3) by (auto simp: reap_def shelve_def split: if_splits)
  show "live (reap E v n) (node q) \<or> pno q \<noteq> 0 \<Longrightarrow> wire (reap E v n) q = wire n q"
    using s(3) by (cases q) (auto simp: reap_def shelve_def split: if_splits)
qed

text \<open>A redex may be cut once it is out of the queue.\<close>

definition idle :: "net \<Rightarrow> port \<Rightarrow> bool" where
  "idle n p \<longleftrightarrow> \<not> redex_live n p (wire n p) \<or> act_of n (node p) < 0"

lemma sever_sound:
  assumes ok: "net_ok n" and p: "live n (node p)" "pno p < 3" and i: "idle n p"
  shows "net_sever E p n = (if wire n p = NONE then reap E (node p) n else reap E (node (wire n p)) (reap E (node p) (cut_at p n)))"
    "net_ok (cut_at p n)" "\<And>P. all_queued n P \<Longrightarrow> all_queued (cut_at p n) P"
    "wire n p \<noteq> NONE \<Longrightarrow> live n (node (wire n p)) \<and> wire n (wire n p) = p \<and> wire n p \<noteq> p \<and> pno (wire n p) < 3"
proof -
  have w: "wired n {} {}" using ok by (simp add: net_ok_def)
  have st: "standing n {} p" using p by (simp add: standing_def)
  show b: "live n (node (wire n p)) \<and> wire n (wire n p) = p \<and> wire n p \<noteq> p \<and> pno (wire n p) < 3" if "wire n p \<noteq> NONE"
    using wired_back[OF w st that] by (auto simp: standing_def)
  show c: "net_ok (cut_at p n)" "\<And>P. all_queued n P \<Longrightarrow> all_queued (cut_at p n) P"
    using cut_at_rest[OF ok st _ i[unfolded idle_def]] ok by (auto simp: cut_at_def)
  show "net_sever E p n = (if wire n p = NONE then reap E (node p) n else reap E (node (wire n p)) (reap E (node p) (cut_at p n)))"
    by (rule sever_reaps) (use p b plain_ok[OF c(1)] plain_ok[OF reap_ok(1)[OF c(1)]] in \<open>auto simp: live_def\<close>)
qed

text \<open>What a cut at \<open>v\<close> leaves of the rest: \<open>n\<close> before, \<open>m\<close> after.\<close>

definition trims :: "int \<Rightarrow> net \<Rightarrow> net \<Rightarrow> bool" where
  "trims v n m \<longleftrightarrow> net_ok m \<and> (\<forall>P. all_queued n P \<longrightarrow> all_queued m P) \<and> nn m = nn n \<and> act m = act n \<and> act_of m = act_of n \<and>
     pins m = pins n \<and> (\<forall>u. live m u \<longrightarrow> live n u \<and> tag m u = tag n u) \<and>
     (\<forall>q. live n (node q) \<and> pno q < 3 \<and> node q \<noteq> v \<and> wire n q \<noteq> NONE \<and> node (wire n q) \<noteq> v \<longrightarrow>
        live m (node q) \<and> wire m q = wire n q) \<and>
     (\<forall>u. live n u \<and> u \<noteq> v \<and> (\<forall>i < 3. node (wire n (Port u i)) \<noteq> v) \<longrightarrow> live m u \<and> (\<forall>i < 3. wire m (Port u i) = wire n (Port u i))) \<and>
     (\<forall>q. live m (node q) \<and> pno q < 3 \<longrightarrow> wire m q = wire n q \<or> wire m q = NONE) \<and>
     (\<forall>i < 3. wire n (Port v i) = NONE \<and> (live m v \<or> i \<noteq> 0) \<longrightarrow> wire m (Port v i) = NONE)"

lemma trimsD:
  assumes "trims v n m"
  shows "net_ok m" "\<And>P. all_queued n P \<Longrightarrow> all_queued m P" "nn m = nn n" "act m = act n" "act_of m = act_of n" "pins m = pins n"
    "\<And>u. live m u \<Longrightarrow> live n u" "\<And>u. live m u \<Longrightarrow> tag m u = tag n u"
    "\<And>q. live n (node q) \<Longrightarrow> pno q < 3 \<Longrightarrow> node q \<noteq> v \<Longrightarrow> wire n q \<noteq> NONE \<Longrightarrow> node (wire n q) \<noteq> v \<Longrightarrow> live m (node q) \<and> wire m q = wire n q"
    "\<And>u. live n u \<Longrightarrow> u \<noteq> v \<Longrightarrow> (\<And>i. i < 3 \<Longrightarrow> node (wire n (Port u i)) \<noteq> v) \<Longrightarrow> live m u \<and> (\<forall>i < 3. wire m (Port u i) = wire n (Port u i))"
    "\<And>q. live m (node q) \<Longrightarrow> pno q < 3 \<Longrightarrow> wire m q = wire n q \<or> wire m q = NONE"
    "\<And>i. i < 3 \<Longrightarrow> wire n (Port v i) = NONE \<Longrightarrow> live m v \<or> i \<noteq> 0 \<Longrightarrow> wire m (Port v i) = NONE"
  using assms unfolding trims_def by blast+

lemma trims_refl: "net_ok n \<Longrightarrow> trims v n n"
  by (simp add: trims_def)

lemma trims_trans: "trims v n m \<Longrightarrow> trims v m k \<Longrightarrow> trims v n k"
proof -
  assume a: "trims v n m" and b: "trims v m k"
  note A = trimsD[OF a] and B = trimsD[OF b]
  have c1: "live k (node q) \<and> wire k q = wire n q"
    if "live n (node q)" "pno q < 3" "node q \<noteq> v" "wire n q \<noteq> NONE" "node (wire n q) \<noteq> v" for q
    using A(9)[OF that] B(9)[of q] that by metis
  have c2: "live k u \<and> (\<forall>i < 3. wire k (Port u i) = wire n (Port u i))"
    if "live n u" "u \<noteq> v" "\<forall>i < 3. node (wire n (Port u i)) \<noteq> v" for u
  proof -
    have w: "live m u" "\<forall>i < 3. wire m (Port u i) = wire n (Port u i)" using A(10)[OF that(1,2)] that(3) by blast+
    then have "\<And>i. i < 3 \<Longrightarrow> node (wire m (Port u i)) \<noteq> v" using that(3) by simp
    from B(10)[OF w(1) that(2) this] show ?thesis using w(2) by simp
  qed
  have c3: "wire k q = wire n q \<or> wire k q = NONE" if "live k (node q)" "pno q < 3" for q
    using A(11)[of q] B(11)[of q] B(7)[of "node q"] that by metis
  have c4: "wire k (Port v i) = NONE" if "i < 3" "wire n (Port v i) = NONE" "live k v \<or> i \<noteq> 0" for i
    using A(12)[of i] B(12)[of i] B(7)[of v] that by metis
  have c5: "\<And>P. all_queued n P \<Longrightarrow> all_queued k P" using A(2) B(2) by blast
  have c6: "live n u \<and> tag k u = tag n u" if "live k u" for u
    using B(7,8)[OF that] A(7,8)[of u] by simp
  have c7: "nn k = nn n" "act k = act n" "act_of k = act_of n" "pins k = pins n" using A(3-6) B(3-6) by simp_all
  show ?thesis unfolding trims_def using B(1) c1 c2 c3 c4 c5 c6 c7 by blast
qed

lemma sever_trims:
  assumes ok: "net_ok n" and p: "in_net n v" "i < 3" and lv: "live n v \<or> i \<noteq> 0 \<and> wire n (Port v i) = NONE"
    and id: "live n v \<Longrightarrow> idle n (Port v i)" and m: "m = net_sever E (Port v i) n"
  shows "trims v n m" "live m v \<or> i \<noteq> 0 \<Longrightarrow> wire m (Port v i) = NONE"
    "live n v \<Longrightarrow> \<not> live m v \<Longrightarrow> j < 3 \<Longrightarrow> j \<noteq> 0 \<Longrightarrow> wire m (Port v j) = NONE"
proof -
  let ?p = "Port v i"
  let ?w = "wire n ?p"
  let ?c = "cut_at ?p n"
  let ?G = "trims v n m \<and> (live m v \<or> i \<noteq> 0 \<longrightarrow> wire m ?p = NONE) \<and>
    (live n v \<longrightarrow> \<not> live m v \<longrightarrow> (\<forall>j < 3. j \<noteq> 0 \<longrightarrow> wire m (Port v j) = NONE))"
  have ?G
  proof (cases "live n v")
    case False
    then have w: "?w = NONE" "i \<noteq> 0" using lv by blast+
    have "plain_at n v" using plain_ok[OF ok] .
    then have "m = reap E v n" using sever_reaps[of n ?p E] p(1) w m by (simp add: cut_same)
    then have "m = n" using False by (simp add: reap_def)
    then show ?thesis using False w ok by (simp add: trims_refl)
  next
    case True
    have pr: "live n (node ?p)" "pno ?p < 3" using True p(2) by simp_all
    note s = sever_sound[OF ok pr id[OF True]]
    define r where "r = reap E v ?c"
    define k where "k = (if ?w = NONE then r else reap E (node ?w) r)"
    have mk: "m = k" using s(1)[of E] m by (simp add: k_def r_def cut_same)
    have R: "net_ok r" "\<And>P. all_queued ?c P \<Longrightarrow> all_queued r P" "\<And>u. live r u \<Longrightarrow> live ?c u \<and> tag r u = tag ?c u"
      "\<And>u. live ?c u \<Longrightarrow> \<not> live r u \<Longrightarrow> u = v \<and> (\<forall>i < 3. wire ?c (Port v i) = NONE)"
      "\<And>q. live r (node q) \<or> pno q \<noteq> 0 \<Longrightarrow> wire r q = wire ?c q"
      using reap_ok[OF s(2)] unfolding r_def by blast+
    have K: "net_ok k" "\<And>P. all_queued r P \<Longrightarrow> all_queued k P" "\<And>u. live k u \<Longrightarrow> live r u \<and> tag k u = tag r u"
      "\<And>u. live r u \<Longrightarrow> \<not> live k u \<Longrightarrow> ?w \<noteq> NONE \<and> u = node ?w \<and> (\<forall>i < 3. wire r (Port u i) = NONE)"
      "\<And>q. live k (node q) \<or> pno q \<noteq> 0 \<Longrightarrow> wire k q = wire r q"
    proof -
      show "net_ok k" "\<And>P. all_queued r P \<Longrightarrow> all_queued k P" "\<And>u. live k u \<Longrightarrow> live r u \<and> tag k u = tag r u"
        "\<And>q. live k (node q) \<or> pno q \<noteq> 0 \<Longrightarrow> wire k q = wire r q"
        using reap_ok(1,2,3,5)[OF R(1)] R(1) unfolding k_def by (simp_all split: if_splits)
      fix u assume u: "live r u" "\<not> live k u"
      then have "?w \<noteq> NONE" "\<not> live (reap E (node ?w) r) u" unfolding k_def by (auto split: if_splits)
      then show "?w \<noteq> NONE \<and> u = node ?w \<and> (\<forall>i < 3. wire r (Port u i) = NONE)" using reap_ok(4)[OF R(1) u(1)] by blast
    qed
    have f: "nn k = nn n" "act k = act n" "act_of k = act_of n" "pins k = pins n" by (simp_all add: k_def r_def)
    have up: "live k u \<Longrightarrow> live n u \<and> tag k u = tag n u" for u using K(3) R(3) by fastforce
    have wk: "live k (node q) \<or> pno q \<noteq> 0 \<Longrightarrow> wire k q = wire ?c q" for q
      using K(5)[of q] R(5)[of q] K(3)[of "node q"] by metis
    have aq: "all_queued n P \<Longrightarrow> all_queued k P" for P using s(3) R(2) K(2) by blast
    have keep: "live k u" if u: "live n u" "u \<noteq> v" "j < 3" "wire ?c (Port u j) \<noteq> NONE" for u j
    proof -
      have r: "live r u" using R(4)[of u] u(1,2) by auto
      have "wire r (Port u j) = wire ?c (Port u j)" using R(5)[of "Port u j"] r by simp
      then show ?thesis using K(4)[OF r] u(3,4) by metis
    qed
    have anch: "live k (node q) \<and> wire k q = wire n q"
      if q: "live n (node q)" "pno q < 3" "node q \<noteq> v" "wire n q \<noteq> NONE" "node (wire n q) \<noteq> v" for q
    proof -
      have "q \<noteq> ?p" using q(3) by auto
      moreover have "?w \<noteq> NONE \<Longrightarrow> q \<noteq> ?w" using s(4) q(5) by auto
      ultimately have c: "wire ?c q = wire n q" by (auto simp: cut_wire)
      then have "live k (node q)" using keep[of "node q" "pno q"] q by simp
      then show ?thesis using wk[of q] c by simp
    qed
    have far: "live k u \<and> (\<forall>j < 3. wire k (Port u j) = wire n (Port u j))"
      if u: "live n u" "u \<noteq> v" "\<forall>j < 3. node (wire n (Port u j)) \<noteq> v" for u
    proof -
      have nw: "?w \<noteq> NONE \<Longrightarrow> u \<noteq> node ?w"
      proof
        assume "?w \<noteq> NONE" "u = node ?w"
        then have "wire n (Port u (pno ?w)) = ?p" "pno ?w < 3" using s(4) by auto
        then show False using u(3) by (metis port.sel(1))
      qed
      have "live r u" using R(4)[of u] u by auto
      then have "live k u" using K(4)[of u] nw by blast
      moreover have "wire ?c (Port u j) = wire n (Port u j)" for j
      proof -
        have "Port u j \<noteq> ?p" using u(2) by simp
        moreover have "?w \<noteq> NONE \<Longrightarrow> Port u j \<noteq> ?w" using nw by (metis port.sel(1))
        ultimately show ?thesis by (auto simp: cut_wire)
      qed
      ultimately show ?thesis using wk by simp
    qed
    have le: "live k (node q) \<Longrightarrow> wire k q = wire n q \<or> wire k q = NONE" for q
      using wk[of q] by (auto simp: cut_wire)
    have none: "wire k (Port v j) = NONE" if "wire n (Port v j) = NONE \<or> j = i" "live k v \<or> j \<noteq> 0" for j
      using wk[of "Port v j"] that by (auto simp: cut_wire)
    have gone: "wire k (Port v j) = NONE" if d: "\<not> live k v" "j < 3" "j \<noteq> 0" for j
    proof -
      have "wire k (Port v j) = wire r (Port v j)" "wire r (Port v j) = wire ?c (Port v j)"
        using K(5)[of "Port v j"] R(5)[of "Port v j"] d(3) by simp_all
      moreover have "live ?c v" using True by simp
      ultimately show ?thesis using R(4)[of v] K(4)[of v] d(1,2) by metis
    qed
    show ?thesis unfolding mk
    proof (intro conjI)
      show "trims v n k" unfolding trims_def using K(1) aq f up anch far le none by blast
      show "live k v \<or> i \<noteq> 0 \<longrightarrow> wire k ?p = NONE" using none by blast
      show "live n v \<longrightarrow> \<not> live k v \<longrightarrow> (\<forall>j < 3. j \<noteq> 0 \<longrightarrow> wire k (Port v j) = NONE)" using gone by blast
    qed
  qed
  then show "trims v n m" "live m v \<or> i \<noteq> 0 \<Longrightarrow> wire m (Port v i) = NONE"
    "live n v \<Longrightarrow> \<not> live m v \<Longrightarrow> j < 3 \<Longrightarrow> j \<noteq> 0 \<Longrightarrow> wire m (Port v j) = NONE"
    by blast+
qed

section \<open>Under a port that is not pointed back at\<close>

definition dang :: "int \<Rightarrow> port \<Rightarrow> net \<Rightarrow> net" where
  "dang a x n = set_wire (Port a 1) x n"

lemma dang_fields [simp]: "nn (dang a x n) = nn n" "act (dang a x n) = act n" "act_of (dang a x n) = act_of n"
  "pins (dang a x n) = pins n" "live (dang a x n) u = live n u" "in_net (dang a x n) u = in_net n u"
  "tag (dang a x n) = tag n" "dead (dang a x n) = dead n" "wire (dang a x n) = (wire n)(Port a 1 := x)"
  by (simp_all add: dang_def)

lemma dang_plain:
  assumes ok: "net_ok n" and a: "live n a" "wire n (Port a 1) = NONE" "live n (node x)" "\<exists>i < 3. wire n (Port a i) \<noteq> NONE"
  shows "plain_at (dang a x n) v"
proof -
  have r: "redex_live (dang a x n) p q" if "redex_live n p q" for p q using that by (auto simp: redex_live_def)
  have q: "queue_ok (dang a x n)" "queue_live (dang a x n)" using ok r by (auto simp: net_ok_def queue_ok_def queue_live_def)
  have "x \<noteq> NONE" using a(3) by auto
  have "deg_live (dang a x n) v = 0 \<longleftrightarrow> (\<forall>i < 3. wire (dang a x n) (Port v i) = NONE)" if "live n v"
  proof (cases "v = a")
    case True
    then have "deg_live (dang a x n) v \<noteq> 0" using a(3) unfolding deg_live_0 by (auto intro!: exI[of _ "1 :: nat"])
    moreover have "\<not> (\<forall>i < 3. wire (dang a x n) (Port v i) = NONE)" using True \<open>x \<noteq> NONE\<close> by (auto intro!: exI[of _ "1 :: nat"])
    ultimately show ?thesis by blast
  next
    case False
    then show ?thesis using isolated_iff[OF _ that] ok by (simp add: deg_live_0 net_ok_def)
  qed
  then show ?thesis using q by (simp add: plain_at_def)
qed

lemma reap_dang:
  assumes "x \<noteq> NONE" "v \<noteq> a \<or> (\<exists>i < 3. wire n (Port a i) \<noteq> NONE)"
  shows "reap E v (dang a x n) = dang a x (reap E v n)"
proof (cases "v = a")
  case True
  then have "\<not> (\<forall>i < 3. wire (dang a x n) (Port v i) = NONE)" "\<not> (\<forall>i < 3. wire n (Port v i) = NONE)"
    using assms by (auto intro!: exI[of _ "1 :: nat"])
  then show ?thesis by (simp only: reap_def) simp
next
  case False
  have "shelve v (dang a x n) = dang a x (shelve v n)"
    using False by (simp add: shelve_def dang_def set_wire_def fun_upd_twist)
  then show ?thesis using False by (auto simp: reap_def)
qed

lemma cut_dang: "p \<noteq> Port a 1 \<Longrightarrow> wire n p \<noteq> Port a 1 \<Longrightarrow> cut_at p (dang a x n) = dang a x (cut_at p n)"
  by (simp add: cut_at_def dang_def set_wire_def fun_upd_twist)

lemma sever_dang:
  assumes ok: "net_ok n" and p: "in_net n (node p)" "pno p < 3" "node p \<noteq> a"
    and lv: "live n (node p) \<or> wire n p = NONE" "live n (node p) \<Longrightarrow> idle n p"
    and a: "live n a" "wire n (Port a 1) = NONE" and x: "live n (node x)" "node x \<noteq> node p"
    and i: "i < 3" "wire n (Port a i) \<noteq> NONE" "node (wire n (Port a i)) \<noteq> node p"
  shows "net_sever E p (dang a x n) = dang a x (net_sever E p n)"
proof -
  have x0: "x \<noteq> NONE" using x(1) by auto
  have p1: "p \<noteq> Port a 1" using p(3) by auto
  show ?thesis
  proof (cases "live n (node p)")
    case False
    then have w: "wire n p = NONE" using lv(1) by blast
    have q: "plain_at n (node p)" "plain_at (dang a x n) (node p)"
      using plain_ok[OF ok] dang_plain[OF ok a x(1)] i by blast+
    have "net_sever E p n = reap E (node p) n" using sever_reaps[of n p E] p(1) w q(1) by (simp add: cut_same)
    moreover have "net_sever E p (dang a x n) = reap E (node p) (dang a x n)"
      using sever_reaps[of "dang a x n" p E] p(1) p1 w q(2) by (simp add: cut_same)
    ultimately show ?thesis using False by (simp add: reap_def)
  next
    case True
    let ?w = "wire n p"
    let ?c = "cut_at p n"
    note s = sever_sound[OF ok True p(2) lv(2)[OF True]]
    have w1: "?w \<noteq> Port a 1"
    proof
      assume w: "?w = Port a 1"
      then have "wire n (Port a 1) = p" using s(4) by force
      then have "p = NONE" using a(2) by simp
      then show False using True by simp
    qed
    have ai: "Port a i \<noteq> p" "?w \<noteq> NONE \<Longrightarrow> Port a i \<noteq> ?w" using p(3) s(4) i(3) by auto
    have c: "live ?c a" "wire ?c (Port a 1) = NONE" "live ?c (node x)" "wire ?c (Port a i) \<noteq> NONE"
      using a x ai i(2) by (auto simp: cut_wire)
    define r where "r = reap E (node p) ?c"
    have r: "net_ok r" unfolding r_def by (rule reap_ok(1)[OF s(2)])
    have rl: "live r a" "live r (node x)" unfolding r_def
      using reap_ok(4)[OF s(2), of a E "node p"] reap_ok(4)[OF s(2), of "node x" E "node p"] c x(2) p(3) by blast+
    have rw: "wire r (Port a 1) = NONE" "wire r (Port a i) \<noteq> NONE" unfolding r_def
      using reap_ok(5)[OF s(2), of E "node p"] c rl[unfolded r_def] by simp_all
    have pl: "plain_at (dang a x ?c) (node p)" "plain_at (dang a x r) (node ?w)"
      using dang_plain[OF s(2) c(1-3)] dang_plain[OF r rl(1) rw(1) rl(2)] c(4) rw(2) i(1) by blast+
    have d: "wire (dang a x n) p = ?w" "cut_at p (dang a x n) = dang a x ?c" using p1 cut_dang[OF p1 w1] by simp_all
    have e: "reap E (node p) (dang a x ?c) = dang a x r" unfolding r_def by (rule reap_dang[OF x0]) (use p(3) in blast)
    have e2: "reap E (node ?w) (dang a x r) = dang a x (reap E (node ?w) r)" by (rule reap_dang[OF x0]) (use rw(2) i(1) in blast)
    have "net_sever E p (dang a x n) =
        (if ?w = NONE then reap E (node p) (dang a x n) else reap E (node ?w) (reap E (node p) (cut_at p (dang a x n))))"
      using sever_reaps[of "dang a x n" p E] p(1) s(4) w1 pl unfolding d e by (auto simp: live_def)
    also have "\<dots> = dang a x (net_sever E p n)"
    proof (cases "?w = NONE")
      case True
      then show ?thesis using s(1)[of E] e[unfolded r_def] by (simp add: cut_same)
    next
      case False
      then show ?thesis unfolding d e using s(1)[of E] e e2 by (simp add: r_def)
    qed
    finally show ?thesis .
  qed
qed

end
