(* ===== verification/FoldProps.thy ===== *)
theory FoldProps
  imports Fold PatternRun CompileProps Sever
begin

text \<open>
  What the fold pre-emptor guarantees: the core's fold filter hides no pair from it, an operator's value takes
  the place of its redex on the port that reads it, and the build pass boxes the value the root names.
\<close>

section \<open>Killing a node\<close>

lemma kill_trims:
  assumes ok: "net_ok n" and v: "\<And>i. live n v \<Longrightarrow> i < 3 \<Longrightarrow> wire n (Port v i) = NONE" and k: "in_net n v"
    and m: "m = n\<lparr>dead := (dead n)(v := True)\<rparr>"
  shows "trims v n m" "\<not> live m v"
proof -
  have "trims v n m \<and> \<not> live m v"
  proof (cases "live n v")
    case False
    then have "m = n" using k m by (simp add: live_def fun_upd_idem)
    then show ?thesis using False ok by (simp add: trims_refl)
  next
    case True
    then have e: "m = kill v n" using m v[of 1] by (simp add: kill_def fun_upd_idem)
    note K = kill_ok[OF ok True v[OF True], folded e]
    have "nn m = nn n" "act m = act n" "act_of m = act_of n" "pins m = pins n" by (simp_all add: m)
    then show ?thesis unfolding trims_def using K by simp
  qed
  then show "trims v n m" "\<not> live m v" by blast+
qed

lemma idle_aux: "0 < pno p \<Longrightarrow> idle n p"
  by (simp add: idle_def redex_live_def)

lemma fold_kill_trims:
  assumes ok: "net_ok n" and v: "live n v" "tag n v \<noteq> DUP" and i: "idle n (Port v 0)" and m: "m = fold_kill E v n"
  shows "trims v n m" "\<not> live m v"
proof -
  define m0 where "m0 = net_sever E (Port v 0) n"
  define m1 where "m1 = net_sever E (Port v 1) m0"
  define m2 where "m2 = net_sever E (Port v 2) m1"
  have inn: "in_net n v" using v(1) by (simp add: live_def)
  note s0 = sever_trims[OF ok inn _ _ i m0_def, simplified, OF v(1)]
  note t0 = trimsD[OF s0(1)]
  have in0: "in_net m0 v" using inn t0(3) by (simp add: in_net_def)
  have lv0: "live m0 v \<or> (1 :: nat) \<noteq> 0 \<and> wire m0 (Port v 1) = NONE" using s0(3)[of 1] by auto
  note s1 = sever_trims[OF t0(1) in0 _ lv0 idle_aux m1_def, simplified]
  note t1 = trimsD[OF s1(1)]
  have in1: "in_net m1 v" using in0 t1(3) by (simp add: in_net_def)
  have lv1: "live m1 v \<or> (2 :: nat) \<noteq> 0 \<and> wire m1 (Port v 2) = NONE"
    using s1(3)[of 2] s0(3)[of 2] t1(12)[of 2] by auto
  note s2 = sever_trims[OF t1(1) in1 _ lv1 idle_aux m2_def, simplified]
  note t2 = trimsD[OF s2(1)]
  have in2: "in_net m2 v" using in1 t2(3) by (simp add: in_net_def)
  have me: "m = m2\<lparr>dead := (dead m2)(v := True)\<rparr>"
    using m v inn unfolding fold_kill_def m0_def m1_def m2_def Let_def by (simp add: live_def in_net_def)
  have iso: "wire m2 (Port v j) = NONE" if "live m2 v" "j < 3" for j
  proof -
    have l: "live m1 v" "live m0 v" using t2(7)[OF that(1)] t1(7) by blast+
    consider "j = 0" | "j = 1" | "j = 2" using \<open>j < 3\<close> by linarith
    then show ?thesis
    proof cases
      case 1
      then show ?thesis using s0(2) l t1(12)[of 0] t2(12)[of 0] that by simp
    next
      case 2
      then show ?thesis using s1(2) l t2(12)[of 1] that by simp
    next
      case 3
      then show ?thesis using s2(2) that by simp
    qed
  qed
  note k = kill_trims[OF t2(1) iso in2 me]
  show "trims v n m" using trims_trans[OF trims_trans[OF trims_trans[OF s0(1) s1(1)] s2(1)] k(1)] .
  show "\<not> live m v" by (rule k(2))
qed

text \<open>A live port wired past \<open>v\<close>.\<close>

definition held_past :: "int \<Rightarrow> net \<Rightarrow> port \<Rightarrow> bool" where
  "held_past v n q \<longleftrightarrow> live n (node q) \<and> pno q < 3 \<and> node q \<noteq> v \<and> wire n q \<noteq> NONE \<and> node (wire n q) \<noteq> v"

lemma trims_held:
  assumes "trims v n m" "held_past v n q"
  shows "held_past v m q" "wire m q = wire n q" "live m (node q)"
  using trimsD(9)[OF assms(1), of q] assms(2) by (auto simp: held_past_def)

lemma fold_kill_dang:
  assumes ok: "net_ok n" and v: "live n v" "tag n v \<noteq> DUP" "v \<noteq> a" and i: "idle n (Port v 0)"
    and a1: "wire n (Port a 1) = NONE" and h: "held_past v n (Port a j)" "held_past v n x"
  shows "fold_kill E v (dang a x n) = dang a x (fold_kill E v n)"
proof -
  define m0 where "m0 = net_sever E (Port v 0) n"
  define m1 where "m1 = net_sever E (Port v 1) m0"
  have inn: "in_net n v" using v(1) by (simp add: live_def)
  note s0 = sever_trims[OF ok inn _ _ i m0_def, simplified, OF v(1)]
  note t0 = trimsD[OF s0(1)] and h0 = trims_held[OF s0(1)]
  have in0: "in_net m0 v" using inn t0(3) by (simp add: in_net_def)
  have lv0: "live m0 v \<or> wire m0 (Port v 1) = NONE" using s0(3)[of 1] by auto
  have lv0': "live m0 v \<or> (1 :: nat) \<noteq> 0 \<and> wire m0 (Port v 1) = NONE" using lv0 by simp
  note s1 = sever_trims[OF t0(1) in0 _ lv0' idle_aux m1_def, simplified]
  note t1 = trimsD[OF s1(1)] and h1 = trims_held[OF s1(1)]
  have in1: "in_net m1 v" using in0 t1(3) by (simp add: in_net_def)
  have lv1: "live m1 v \<or> wire m1 (Port v 2) = NONE"
    using s1(3)[of 2] s0(3)[of 2] t1(12)[of 2] by auto
  have aw: "wire m0 (Port a 1) = NONE" "wire m1 (Port a 1) = NONE" "live n a" "live m0 a" "live m1 a"
    using t0(11)[of "Port a 1"] t1(11)[of "Port a 1"] a1 h0(1,3)[OF h(1)] h1(3)[OF h0(1)[OF h(1)]] h
    by (auto simp: held_past_def)
  have D: "net_sever E p (dang a x k) = dang a x (net_sever E p k)"
    if "net_ok k" "in_net k v" "p = Port v r" "r < 3" "live k v \<or> wire k p = NONE" "live k v \<Longrightarrow> idle k p" "live k a"
      "wire k (Port a 1) = NONE" "held_past v k (Port a j)" "held_past v k x" for k p r
    by (rule sever_dang[where i = j]) (use that v(3) in \<open>auto simp: held_past_def\<close>)
  have e0: "net_sever E (Port v 0) (dang a x n) = dang a x m0" unfolding m0_def
    by (rule D[OF ok inn refl]) (use v i a1 aw h in simp_all)
  have e1: "net_sever E (Port v 1) (dang a x m0) = dang a x m1" unfolding m1_def
    by (rule D[OF t0(1) in0 refl]) (use lv0 aw h0(1)[OF h(1)] h0(1)[OF h(2)] in \<open>simp_all add: idle_aux\<close>)
  have e2: "net_sever E (Port v 2) (dang a x m1) = dang a x (net_sever E (Port v 2) m1)"
    by (rule D[OF t1(1) in1 refl])
      (use lv1 aw h1(1)[OF h0(1)[OF h(1)]] h1(1)[OF h0(1)[OF h(2)]] in \<open>simp_all add: idle_aux\<close>)
  have d: "(dang a x k)\<lparr>dead := d\<rparr> = dang a x (k\<lparr>dead := d\<rparr>)" for k d by (simp add: dang_def set_wire_def)
  have g: "\<not> (v < 0 \<or> nn n \<le> v \<or> dead n v)" using inn v(1) by (auto simp: live_def in_net_def)
  have "fold_kill E v (dang a x n) = (let n1 = dang a x (net_sever E (Port v 2) m1) in n1\<lparr>dead := (dead n1)(v := True)\<rparr>)"
    unfolding fold_kill_def dang_fields e0 e1 e2 using g v(2) by simp
  also have "\<dots> = dang a x (fold_kill E v n)"
    unfolding fold_kill_def Let_def d using g v(2) by (simp add: m0_def m1_def)
  finally show ?thesis .
qed

lemma sever_none: "wire n p = NONE \<Longrightarrow> deg_live n (node p) \<noteq> 0 \<Longrightarrow> net_sever E p n = n"
  by (simp add: net_sever_def Let_def set_wire_def fun_upd_idem)

text \<open>The pair of a fold: the second node may still point at the port it gave up.\<close>

lemma kill_pair:
  fixes E :: env
  assumes ok: "net_ok n" and l: "live n lam" "tag n lam \<noteq> DUP" and a: "live n app" "tag n app \<noteq> DUP" and ne: "lam \<noteq> app"
    and id: "act_of n lam < 0" and rx: "wire n (Port lam 0) = Port app 0" "wire n (Port app 0) = Port lam 0"
    and a1: "wire n (Port app 1) = NONE"
    and h: "held_past lam n (Port app 2)" "held_past lam n ar" "held_past app n ar" "node (wire n (Port app 2)) \<noteq> app"
  defines "m \<equiv> fold_kill E app (fold_kill E lam n)"
  shows "fold_kill E app (fold_kill E lam (dang app ar n)) = m" "trims lam n (fold_kill E lam n)"
    "trims app (fold_kill E lam n) m" "net_ok m" "\<not> live m lam" "\<not> live m app"
proof -
  let ?k = "fold_kill E lam n"
  have i: "idle n (Port lam 0)" using id by (simp add: idle_def)
  note K = fold_kill_trims[OF ok l i refl, of E]
  note t = trimsD[OF K(1)] and tk = trims_held[OF K(1)]
  show "trims lam n ?k" by (rule K(1))
  have kl: "live ?k app" "tag ?k app \<noteq> DUP" using tk(3)[OF h(1)] t(8)[of app] a(2) by simp_all
  have k0: "wire ?k (Port app 0) = NONE"
  proof (rule ccontr)
    assume n0: "wire ?k (Port app 0) \<noteq> NONE"
    then have "wire ?k (Port app 0) = Port lam 0" using t(11)[of "Port app 0"] kl(1) rx(2) by simp
    moreover have "standing ?k {} (Port app 0)" using kl(1) by (simp add: standing_def)
    ultimately have "live ?k lam" using wired_back(1)[of ?k "Port app 0"] t(1) n0 by (auto simp: net_ok_def standing_def)
    then show False using K(2) by blast
  qed
  have i2: "idle ?k (Port app 0)" using k0 by (auto simp: idle_def redex_live_def)
  note M = fold_kill_trims[OF t(1) kl i2 refl, of E]
  show "trims app ?k m" "net_ok m" "\<not> live m app" using M trimsD(1)[OF M(1)] by (simp_all add: m_def)
  show "\<not> live m lam" using trimsD(7)[OF M(1), of lam] K(2) by (auto simp: m_def)
  have e: "fold_kill E lam (dang app ar n) = dang app ar ?k"
    by (rule fold_kill_dang[OF ok l ne i a1 h(1,2)])
  have arl: "live ?k (node ar)" "wire ?k ar = wire n ar" "wire n ar \<noteq> NONE" using tk(2,3)[OF h(2)] h(2) by (auto simp: held_past_def)
  have arw: "live ?k (node (wire ?k ar))"
    using wired_back(1)[of ?k ar] t(1) arl h(2) by (auto simp: net_ok_def standing_def held_past_def)
  have a2: "live ?k (node (wire ?k (Port app 2)))"
    using wired_back(1)[of ?k "Port app 2"] t(1) kl(1) tk(1)[OF h(1)] by (auto simp: net_ok_def standing_def held_past_def)
  have k1: "wire ?k (Port app 1) = NONE" using t(11)[of "Port app 1"] kl(1) a1 by simp
  have dg: "deg_live ?k app \<noteq> 0" using a2 unfolding deg_live_0 by (auto intro!: exI[of _ "2 :: nat"])
  have dg2: "deg_live (dang app ar ?k) app \<noteq> 0" using arl(1) unfolding deg_live_0 by (auto intro!: exI[of _ "1 :: nat"])
  have dg3: "deg_live ?k (node ar) \<noteq> 0"
  proof -
    have "live ?k (node (wire ?k (Port (node ar) (pno ar))))" "pno ar < 3" using arw h(2) by (simp_all add: held_past_def)
    then show ?thesis unfolding deg_live_0 by blast
  qed
  have s0: "net_sever E (Port app 0) (dang app ar ?k) = dang app ar ?k" "net_sever E (Port app 0) ?k = ?k"
    using k0 dg dg2 by (simp_all add: sever_none)
  have s1: "net_sever E (Port app 1) ?k = ?k" using k1 dg by (simp add: sever_none)
  have b: "set_wire (Port app 1) NONE (dang app ar ?k) = ?k" using k1 by (simp add: dang_def set_wire_def fun_upd_idem)
  have ik: "in_net ?k app" "in_net ?k (node ar)" using kl(1) arl(1) by (simp_all add: live_def)
  have g: "\<not> app < 0" "\<not> nn ?k \<le> app" "\<not> dead ?k app" using kl(1) by (auto simp: live_def in_net_def)
  have nb: "wire ?k ar \<noteq> Port app 1" using arl(2) h(3) by (auto simp: held_past_def)
  have "net_sever E (Port app 1) (dang app ar ?k) = ?k"
    using ik dg dg3 nb by (simp add: net_sever_def Let_def b del: One_nat_def)
  then show "fold_kill E app (fold_kill E lam (dang app ar n)) = m"
    unfolding e m_def fold_kill_def[of E app] dang_fields s0 s1 using g kl(2) by (simp del: One_nat_def)
qed

section \<open>The value of a fold\<close>

text \<open>Building queues nothing.\<close>

lemma calm_alloc: "net_alloc E t sc n = (m, u) \<Longrightarrow> act_of n v < 0 \<Longrightarrow> act_of m v < 0"
  by (auto simp: net_alloc_def alloc_slot_def net_ensure_cap_def Let_def split: if_splits)

lemma calm_level: "net_scope_app s br n = (m, g) \<Longrightarrow> act_of n v < 0 \<Longrightarrow> act_of m v < 0"
  by (auto simp: net_scope_app_def split: prod.splits)

lemma link_queue [simp]: "act_of (net_link E a b False n) = act_of n"
  by (simp add: net_link_def Let_def)

lemma link_all_queue [simp]: "act_of (link_all E ls n) = act_of n"
  by (induction ls arbitrary: n) (auto simp: link_all_def split: prod.splits)

lemma calm_bool: "net_alloc_bool E b n = (m, q) \<Longrightarrow> act_of n v < 0 \<Longrightarrow> act_of m v < 0"
  by (auto simp: net_alloc_bool_def split: prod.splits dest: calm_alloc)

text \<open>A numeral or a boolean as it stands in a net, and what reading it gives.\<close>

definition stands :: "net \<Rightarrow> port \<Rightarrow> val \<Rightarrow> bool" where
  "stands m p v =
     (case v of
        V_int k \<Rightarrow> bits_at m p (map (\<lambda>b. bit (signed_drop_bit b k) 0) [0..<scott_width k]) \<and> int (scott_width k) < nn m
      | V_bool b \<Rightarrow> bool_at m p ((ucast b :: 32 word) \<noteq> 0) \<and> 0 < nn m
      | _ \<Rightarrow> False)"

definition read_back :: "val \<Rightarrow> (enc \<times> long) option" where
  "read_back v =
     (case v of
        V_int k \<Rightarrow> Some (ENC_NUM, k AND mask 62)
      | V_bool b \<Rightarrow> Some (ENC_BOOL, if (ucast b :: 32 word) \<noteq> 0 then 1 else 0)
      | _ \<Rightarrow> None)"

lemma stands_reads:
  assumes "stands m p v" "read_back v = Some (e, x)" "resting frc m"
  shows "net_read_int frc p e m = (m, x)"
proof (cases v)
  case (V_int k)
  let ?w = "scott_width k"
  have w: "?w \<le> 62" "1 \<le> ?w"
  proof -
    show "?w \<le> 62" by (rule scott_width_spec)
    have "w \<le> width_loop f w k" for f w by (induction f arbitrary: w) (auto intro: Suc_leD)
    then show "1 \<le> ?w" unfolding scott_width_def .
  qed
  have b: "bits_at m p (map (\<lambda>b. bit (signed_drop_bit b k) 0) [0..<?w])" "int ?w < nn m" using assms(1) V_int by (auto simp: stands_def)
  have "bits_loop frc (int 0) 0 p m = (m, int (0 + ?w), 0 OR k AND mask 62)"
    using bits_loop_at[OF assms(3) b(1), of 0 0] b(2) w(1) by (simp add: numeral_bits)
  then show ?thesis using assms(2) w(2) V_int by (auto simp: net_read_int_def net_read_bits_def read_back_def)
next
  case (V_bool b)
  then have b: "bool_at m p ((ucast b :: 32 word) \<noteq> 0)" "0 < nn m" using assms(1) by (auto simp: stands_def)
  from read_bool_at[OF assms(3) b] show ?thesis using assms(2) V_bool
    by (auto simp: net_read_int_def read_bool_def read_back_def)
qed (use assms in \<open>simp_all add: stands_def\<close>)

lemma calm_scott: "net_alloc_scott E k n = (m, p) \<Longrightarrow> act_of n v < 0 \<Longrightarrow> act_of m v < 0"
proof -
  assume a: "net_alloc_scott E k n = (m, p)" and v: "act_of n v < 0"
  have nil: "act_of (fst (scott_nil E 0 n)) v < 0"
  proof -
    obtain n1 bl n2 nl n3 nr n4 t where s: "net_scope_app 0 1 n = (n1, bl)" "net_alloc E LAM 0 n1 = (n2, nl)"
      "net_alloc E LAM bl n2 = (n3, nr)" "net_alloc_bool E True (net_link E (Port nl 2) (Port nr 0) False n3) = (n4, t)"
      by (metis surj_pair)
    have "act_of n3 v < 0" by (rule calm_alloc[OF s(3) calm_alloc[OF s(2) calm_level[OF s(1) v]]])
    then have "act_of n4 v < 0" using calm_bool[OF s(4)] by simp
    then show ?thesis using s by (simp add: scott_nil_def)
  qed
  have cell: "act_of (fst (scott_cell E 0 b (k, cur))) v < 0" if k: "act_of k v < 0" for b k cur
  proof -
    obtain n1 f n2 a n3 q n4 c n5 fi n6 nr n7 ia n8 ou where s: "net_scope_app 0 1 k = (n1, f)" "net_scope_app 0 2 n1 = (n2, a)"
      "net_alloc_bool E b n2 = (n3, q)" "net_alloc E LAM f n3 = (n4, c)" "net_scope_app f 1 n4 = (n5, fi)"
      "net_alloc E LAM fi n5 = (n6, nr)" "net_alloc E APP f n6 = (n7, ia)" "net_alloc E APP a n7 = (n8, ou)"
      by (metis surj_pair)
    have "act_of n5 v < 0" by (rule calm_level[OF s(5) calm_alloc[OF s(4) calm_bool[OF s(3) calm_level[OF s(2) calm_level[OF s(1) k]]]]])
    then have "act_of n8 v < 0" using calm_alloc[OF s(8)] calm_alloc[OF s(7)] calm_alloc[OF s(6)] by blast
    then show ?thesis using s by (simp add: scott_cell_def)
  qed
  have "act_of (fst (foldl (\<lambda>s b. scott_cell E 0 (f b) s) s is)) v < 0" if "act_of (fst s) v < 0" for f s "is"
    using that
  proof (induction "is" arbitrary: s)
    case (Cons i "is")
    have "act_of (fst (scott_cell E 0 (f i) s)) v < 0" using cell[of "fst s" "f i" "snd s"] Cons.prems by simp
    from Cons.IH[OF this] show ?case by simp
  qed simp
  from this[OF nil, of "\<lambda>b. bit (signed_drop_bit b k) 0" "rev [0..<scott_width k]"]
  show ?thesis using a by (simp add: net_alloc_scott_def alloc_scott_def)
qed

lemma val_to_port_spec:
  assumes ok: "net_ok n" and E: "\<not> in_parallel (fenv X)" and v: "read_back v \<noteq> None" and r: "val_to_port X v n = (m, p)"
  shows "adds n m {}" "open_at n m p" "stands m p v" "act_of n u < 0 \<Longrightarrow> act_of m u < 0"
proof -
  have "adds n m {} \<and> open_at n m p \<and> stands m p v \<and> (act_of n u < 0 \<longrightarrow> act_of m u < 0)"
  proof (cases v)
    case (V_int k)
    then have a: "net_alloc_scott (fenv X) k n = (m, p)" using r by (simp add: val_to_port_def)
    note s = alloc_scott_spec[OF ok E _ a[unfolded net_alloc_scott_def], simplified]
    show ?thesis using s calm_scott[OF a] V_int by (simp add: stands_def)
  next
    case (V_bool b)
    then have a: "net_alloc_bool (fenv X) ((ucast b :: 32 word) \<noteq> 0) n = (m, p)" using r by (simp add: val_to_port_def)
    note s = alloc_bool_spec[OF ok E a]
    have "0 < nn m" using s(1) by (simp add: adds_def net_ok_def room_ok_def)
    then show ?thesis using s calm_bool[OF a] V_bool by (simp add: stands_def)
  qed (use v in \<open>simp_all add: read_back_def\<close>)
  then show "adds n m {}" "open_at n m p" "stands m p v" "act_of n u < 0 \<Longrightarrow> act_of m u < 0" by blast+
qed

text \<open>Nodes that keep to themselves, except that a binder's principal port may be wired out.\<close>

definition closed_in :: "int set \<Rightarrow> net \<Rightarrow> bool" where
  "closed_in S n \<longleftrightarrow> (\<forall>v \<in> S. \<forall>i < 3. wire n (Port v i) \<noteq> NONE \<longrightarrow> node (wire n (Port v i)) \<in> S)"

definition kept_in :: "int set \<Rightarrow> net \<Rightarrow> net \<Rightarrow> bool" where
  "kept_in S n m \<longleftrightarrow> (\<forall>v \<in> S. live n v \<longrightarrow> live m v \<and> tag m v = tag n v \<and>
     (\<forall>i < 3. i \<noteq> 0 \<or> tag n v \<noteq> LAM \<longrightarrow> wire m (Port v i) = wire n (Port v i)))"

lemma kept_inD:
  assumes "kept_in S n m" "v \<in> S"
  shows "lam_at n v \<Longrightarrow> lam_at m v" "app_at n v \<Longrightarrow> app_at m v" "lam_at n v \<Longrightarrow> wire m (Port v 2) = wire n (Port v 2)"
    "app_at n v \<Longrightarrow> wire m (Port v 0) = wire n (Port v 0)" "app_at n v \<Longrightarrow> wire m (Port v 2) = wire n (Port v 2)"
  using assms by (auto simp: kept_in_def lam_at_def app_at_def)

lemma closed_inD: "closed_in S n \<Longrightarrow> v \<in> S \<Longrightarrow> i < 3 \<Longrightarrow> wire n (Port v i) = q \<Longrightarrow> live n (node q) \<Longrightarrow> node q \<in> S"
  by (metis closed_in_def NONE_not_live(1) node_NONE)

lemma bool_at_kept:
  assumes b: "bool_at n p x" and S: "closed_in S n" "kept_in S n m" "node p \<in> S"
  shows "bool_at m p x"
proof -
  obtain t f where b: "p = Port t 0" "t \<noteq> f" "lam_at n t" "lam_at n f" "wire n (Port t 2) = Port f 0"
    "wire n (Port f 2) = Port (if x then t else f) 1" using b unfolding bool_at_def by blast
  have "f \<in> S" using closed_inD[OF S(1), of t 2 "Port f 0"] S(3) b by (simp add: lam_at_def)
  then show ?thesis unfolding bool_at_def using kept_inD[OF S(2)] S(3) b by (intro exI[of _ t] exI[of _ f]) simp
qed

lemma bits_at_kept:
  assumes S: "closed_in S n" "kept_in S n m"
  shows "bits_at n p bs \<Longrightarrow> node p \<in> S \<Longrightarrow> bits_at m p bs"
proof (induction bs arbitrary: p)
  case Nil
  obtain a r t where b: "p = Port a 0" "lam_at n a" "wire n (Port a 2) = Port r 0" "lam_at n r"
    "wire n (Port r 2) = Port t 0" "lam_at n t" using Nil.prems(1) by auto
  have r: "r \<in> S" using closed_inD[OF S(1), of a 2 "Port r 0"] Nil.prems(2) b by (simp add: lam_at_def)
  have t: "t \<in> S" using closed_inD[OF S(1) r, of 2 "Port t 0"] b by (simp add: lam_at_def)
  show ?case unfolding bits_at.simps
    by (intro exI[of _ a] exI[of _ r] exI[of _ t]) (use kept_inD[OF S(2)] Nil.prems(2) r t b in simp)
next
  case (Cons x bs)
  obtain c r ou ia where b: "p = Port c 0" "lam_at n c" "wire n (Port c 2) = Port r 0" "lam_at n r"
    "wire n (Port r 2) = Port ou 1" "app_at n ou" "wire n (Port ou 0) = Port ia 1" "app_at n ia"
    "bool_at n (wire n (Port ia 2)) x" "bits_at n (wire n (Port ou 2)) bs" using Cons.prems(1) by auto
  have c: "c \<in> S" using Cons.prems(2) b by simp
  have r: "r \<in> S" using closed_inD[OF S(1) c, of 2 "Port r 0"] b by (simp add: lam_at_def)
  have ou: "ou \<in> S" using closed_inD[OF S(1) r, of 2 "Port ou 1"] b by (simp add: lam_at_def app_at_def)
  have ia: "ia \<in> S" using closed_inD[OF S(1) ou, of 0 "Port ia 1"] b by (simp add: app_at_def)
  have q: "node (wire n (Port ia 2)) \<in> S"
  proof -
    have "live n (node (wire n (Port ia 2)))" using b(9) by (auto simp: bool_at_def lam_at_def)
    then show ?thesis using closed_inD[OF S(1) ia, of 2] by simp
  qed
  have cur: "node (wire n (Port ou 2)) \<in> S"
  proof -
    have "live n (node (wire n (Port ou 2)))" using b(10) by (cases bs) (auto simp: lam_at_def)
    then show ?thesis using closed_inD[OF S(1) ou, of 2] by simp
  qed
  note k = Cons.IH[OF b(10) cur] bool_at_kept[OF b(9) S q]
  show ?case unfolding bits_at.simps
    by (intro exI[of _ c] exI[of _ r] exI[of _ ou] exI[of _ ia]) (use kept_inD[OF S(2)] c r ou ia k b in simp)
qed

lemma stands_kept: "stands n p v \<Longrightarrow> closed_in S n \<Longrightarrow> kept_in S n m \<Longrightarrow> node p \<in> S \<Longrightarrow> nn m = nn n \<Longrightarrow> stands m p v"
  using bits_at_kept[of S n m p] bool_at_kept[of n p _ S m] by (auto simp: stands_def split: val.splits)

section \<open>Folding an operator\<close>

text \<open>The redex of an operator as a wave hands it out: taken from the queue, with its result and its operands
  wired to other live nodes.\<close>

definition op_redex :: "net \<Rightarrow> int \<Rightarrow> int \<Rightarrow> bool" where
  "op_redex n lam app \<longleftrightarrow> lam_at n lam \<and> app_at n app \<and> redex_live n (Port lam 0) (Port app 0) \<and> act_of n lam < 0 \<and>
     (\<forall>i \<in> {1, 2}. live n (node (wire n (Port app i))) \<and> node (wire n (Port app i)) \<notin> {lam, app})"

lemma act_push_dang: "act_push (dang a x n) p q = dang a x (act_push n p q)"
  by (simp add: act_push_def dang_def set_wire_def)

lemma put_dang:
  assumes E: "\<not> in_parallel E" and w: "wire n (Port app 1) = ar" "live n (node ar)" "node ar \<noteq> app" and r: "0 \<le> node res" "node res \<noteq> app"
  shows "put_result E res app n = dang app ar (net_link E res ar True (cut_at (Port app 1) n))"
proof -
  have a: "0 \<le> node ar" "node ar < nn n" "\<not> dead n (node ar)" using w(2) by (auto simp: live_def in_net_def)
  have ar: "ar \<noteq> NONE" using a by auto
  have e: "set_wire ar res (set_wire res ar n) = dang app ar (set_wire ar res (set_wire res ar (cut_at (Port app 1) n)))"
    using w ar r by (auto simp: cut_at_def dang_def set_wire_def fun_eq_iff intro!: net.equality)
  have "put_result E res app n = net_link E res ar True n" using a w(1) by (simp add: put_result_def)
  also have "\<dots> = dang app ar (net_link E res ar True (cut_at (Port app 1) n))"
    using a r E unfolding net_link_def Let_def e by (simp add: act_push_dang)
  finally show ?thesis .
qed

lemma link_act_of: "\<not> in_parallel E \<Longrightarrow> v \<noteq> node a \<Longrightarrow> v \<noteq> node b \<Longrightarrow> act_of (net_link E a b q n) v = act_of n v"
  by (simp add: net_link_def Let_def act_push_def)

lemma fold_net:
  fixes X :: fold_env and n lam app v
  defines "ar \<equiv> wire n (Port app 1)"
  assumes ok: "net_ok n" and E: "\<not> in_parallel (fenv X)" and red: "op_redex n lam app" and v: "read_back v \<noteq> None"
    and r: "val_to_port X v n = (n1, res)"
    and m: "m = fold_kill (fenv X) app (fold_kill (fenv X) lam (put_result (fenv X) res app n1))"
  shows "net_ok m" "\<And>P. all_queued n P \<Longrightarrow> all_queued m P" "\<not> live m lam" "\<not> live m app" "wire m ar = res" "stands m res v"
    "\<And>q. live n (node q) \<Longrightarrow> pno q < 3 \<Longrightarrow> node q \<notin> {lam, app} \<Longrightarrow> q \<noteq> ar \<Longrightarrow> wire n q \<noteq> NONE \<Longrightarrow>
      node (wire n q) \<notin> {lam, app} \<Longrightarrow> live m (node q) \<and> wire m q = wire n q"
proof -
  note V = val_to_port_spec[OF ok E v r]
  note A = addsD[OF V(1)]
  let ?z = "wire n (Port app 2)"
  have rd: "lam_at n lam" "app_at n app" "wire n (Port lam 0) = Port app 0" "wire n (Port app 0) = Port lam 0" "act_of n lam < 0"
    "live n (node ar)" "node ar \<noteq> lam" "node ar \<noteq> app" "live n (node ?z)" "node ?z \<noteq> lam" "node ?z \<noteq> app"
    using red by (auto simp: op_redex_def redex_live_def ar_def)
  have l: "live n lam" "live n app" "lam \<noteq> app" using rd(1,2) by (auto simp: lam_at_def app_at_def)
  have w1: "wire n1 q = wire n q" if "live n (node q)" for q using A(5)[OF that] by simp
  have res: "pno res = 0" "\<not> live n (node res)" "lam_at n1 (node res)" "wire n1 res = NONE" using V(2) by (auto simp: open_at_def)
  have rl: "node res \<noteq> lam" "node res \<noteq> app" "node res \<noteq> node ar" "0 \<le> node res" "res \<noteq> ar"
    using res(2,3) l rd(6) by (auto simp: lam_at_def live_def in_net_def)
  let ?c = "cut_at (Port app 1) n1"
  have pl: "live n1 (node (Port app 1))" "pno (Port app 1) < 3" using A(3) l(2) by simp_all
  have wn: "wired n {} {}" using ok by (simp add: net_ok_def)
  have st1: "standing n {} (Port app 1)" "wire n (Port app 1) \<noteq> NONE" using l(2) rd(6) by (auto simp: standing_def ar_def)
  have arb: "wire n ar = Port app 1" "pno ar < 3" using wired_back[OF wn st1] by (auto simp: ar_def standing_def)
  have idl: "idle n1 (Port app 1)" by (rule idle_aux) simp
  note C = sever_sound(2,3)[OF A(1) pl idl]
  have wa: "wire n1 (Port app 1) = ar" using w1[of "Port app 1"] l(2) by (simp add: ar_def)
  have an: "ar \<noteq> NONE" using rd(6) by auto
  have wc: "wire ?c q = (if q = Port app 1 \<or> q = ar then NONE else wire n1 q)" for q using wa an by (simp add: cut_wire)
  define k where "k = net_link (fenv X) res ar True ?c"
  have sr: "standing ?c {} res" "standing ?c {} ar" using res(1,3) A(3)[OF rd(6)] arb(2) by (auto simp: standing_def lam_at_def)
  have fr: "wire ?c res = NONE" "wire ?c ar = NONE" using wc res(4) by simp_all
  note K = net_ok_link[OF C(1) E sr(1) fr(1) sr(2) fr(2) rl(5) k_def]
  have wk: "wire k q = (if q = res then ar else if q = ar then res else if q = Port app 1 then NONE else wire n1 q)" for q
    unfolding K(2) using wc rl(5) by auto
  have lk: "live k u = live n1 u" for u using K(3) by simp
  have tk: "tag k u = tag n1 u" if "live n1 u" for u using K(4) that lk by (simp add: meta_def)
  have nk: "nn k = nn n1" by (simp add: k_def net_link_def act_push_def Let_def)
  have lv: "live k lam" "live k app" "tag k lam \<noteq> DUP" "tag k app \<noteq> DUP"
    using A(3,4) l tk lk rd(1,2) by (auto simp: lam_at_def app_at_def)
  have idk: "act_of k lam < 0" using V(4)[OF rd(5)] link_act_of[OF E, of lam res ar] rl(1) rd(7) by (simp add: k_def)
  have wo: "wire k q = wire n q" if "live n (node q)" "q \<noteq> ar" "q \<noteq> Port app 1" for q
    using wk[of q] w1[OF that(1)] that res(2) by auto
  have q0: "Port lam 0 \<noteq> ar" "Port app 0 \<noteq> ar" "Port app 2 \<noteq> ar" using rd(7,8) by auto
  have rx: "wire k (Port lam 0) = Port app 0" "wire k (Port app 0) = Port lam 0" "wire k (Port app 2) = ?z"
    using wo[of "Port lam 0"] wo[of "Port app 0"] wo[of "Port app 2"] q0 l rd(3,4) by simp_all
  have a1: "wire k (Port app 1) = NONE" using wk[of "Port app 1"] rl(2) rd(8) by auto
  have war: "wire k ar = res" using wk[of ar] rl(5) by simp
  have zn: "?z \<noteq> NONE" using rd(9) by auto
  have rn: "res \<noteq> NONE" using rl(4) by auto
  have h: "held_past lam k (Port app 2)" "held_past lam k ar" "held_past app k ar" "node (wire k (Port app 2)) \<noteq> app"
    using lv l(3) rx(3) zn rd(6-11) arb(2) war rn rl(1,2) lk A(3) by (auto simp: held_past_def)
  note P = kill_pair[OF K(1) lv(1,3,2,4) l(3) idk rx(1,2) a1 h, of "fenv X"]
  have me: "m = fold_kill (fenv X) app (fold_kill (fenv X) lam k)"
    unfolding m put_dang[OF E wa A(3)[OF rd(6)] rd(8) rl(4,2)] k_def[symmetric] by (rule P(1))
  let ?j = "fold_kill (fenv X) lam k"
  note T = trimsD[OF P(2)] and T2 = trimsD[OF P(3)[folded me]]
  note H = trims_held[OF P(2)] and H2 = trims_held[OF P(3)[folded me]]
  show "net_ok m" "\<not> live m lam" "\<not> live m app" using P(4-6) unfolding me by blast+
  show "all_queued m P" if "all_queued n P" for P
    using T2(2)[OF T(2)[OF K(5)[OF C(2)[OF A(2)[OF that]]]]] by simp
  have hj: "held_past app ?j ar" using H[OF h(2)] h(3) by (simp add: held_past_def)
  show "wire m ar = res" using H(2)[OF h(2)] H2(2)[OF hj] war by simp
  show "live m (node q) \<and> wire m q = wire n q"
    if q: "live n (node q)" "pno q < 3" "node q \<notin> {lam, app}" "q \<noteq> ar" "wire n q \<noteq> NONE" "node (wire n q) \<notin> {lam, app}" for q
  proof -
    have "q \<noteq> Port app 1" using q(3) by auto
    then have w: "wire k q = wire n q" using wo[OF q(1,4)] by blast
    have hq: "held_past lam k q" "held_past app k q" using q w lk A(3) by (auto simp: held_past_def)
    have "held_past app ?j q" using H[OF hq(1)] hq(2) by (simp add: held_past_def)
    then show ?thesis using H(2)[OF hq(1)] H2(2,3) w by simp
  qed
  define S where "S = {u. live n1 u \<and> \<not> live n u}"
  have cl: "closed_in S n1" unfolding closed_in_def
  proof (intro ballI allI impI)
    fix u i assume u: "u \<in> S" "i < 3" "wire n1 (Port u i) \<noteq> NONE"
    have w1n: "wired n1 {} {}" using A(1) by (simp add: net_ok_def)
    have "standing n1 {} (Port u i)" using u by (simp add: standing_def S_def)
    note bk = wired_back[OF w1n this u(3)]
    have "\<not> live n (node (wire n1 (Port u i)))"
    proof
      assume o: "live n (node (wire n1 (Port u i)))"
      then have e: "wire n (wire n1 (Port u i)) = Port u i" using w1[OF o] bk(2) by simp
      have "standing n {} (wire n1 (Port u i))" using o bk(1) by (simp add: standing_def)
      moreover have "Port u i \<noteq> NONE" using u(1) by (auto simp: S_def)
      ultimately have "live n u" using wired_back(1)[OF wn, of "wire n1 (Port u i)"] e by (simp add: standing_def)
      then show False using u(1) by (simp add: S_def)
    qed
    then show "node (wire n1 (Port u i)) \<in> S" using bk(1) by (simp add: S_def standing_def)
  qed
  have kp: "kept_in S n1 m" unfolding kept_in_def
  proof (intro ballI impI)
    fix u assume u: "u \<in> S" "live n1 u"
    have un: "u \<noteq> lam" "u \<noteq> app" "u \<noteq> node ar" using u l rd(6) by (auto simp: S_def)
    have far: "node (wire k (Port u i)) \<noteq> lam \<and> node (wire k (Port u i)) \<noteq> app" if "i < 3" for i
    proof (cases "Port u i = res")
      case True
      then show ?thesis using wk[of res] rd(7,8) by simp
    next
      case False
      then have w: "wire k (Port u i) = wire n1 (Port u i)" using wk[of "Port u i"] un by auto
      have "wire n1 (Port u i) \<noteq> NONE \<Longrightarrow> \<not> live n (node (wire n1 (Port u i)))"
        using cl[unfolded closed_in_def] u(1) that by (auto simp: S_def)
      moreover have "lam \<noteq> - 1" "app \<noteq> - 1" using l by auto
      ultimately show ?thesis unfolding w using l by (cases "wire n1 (Port u i) = NONE") auto
    qed
    have 1: "live ?j u \<and> (\<forall>i < 3. wire ?j (Port u i) = wire k (Port u i))"
      by (rule T(10)) (use u(2) lk un(1) far in auto)
    have 2: "live m u \<and> (\<forall>i < 3. wire m (Port u i) = wire ?j (Port u i))"
      by (rule T2(10)) (use 1 un(2) far in auto)
    have tg: "tag m u = tag n1 u" using T2(8)[of u] T(8)[of u] 1 2 tk[OF u(2)] by simp
    have "wire m (Port u i) = wire n1 (Port u i)" if "i < 3" "i \<noteq> 0 \<or> tag n1 u \<noteq> LAM" for i
    proof -
      have "Port u i \<noteq> res" using that(2) res(1,3) by (auto simp: lam_at_def)
      then have "wire k (Port u i) = wire n1 (Port u i)" using wk[of "Port u i"] un by auto
      then show ?thesis using 1 2 that(1) by simp
    qed
    then show "live m u \<and> tag m u = tag n1 u \<and> (\<forall>i < 3. i \<noteq> 0 \<or> tag n1 u \<noteq> LAM \<longrightarrow> wire m (Port u i) = wire n1 (Port u i))"
      using 2 tg by blast
  qed
  have "node res \<in> S" using res(2,3) by (simp add: S_def lam_at_def)
  moreover have "nn m = nn n1" using T(3) T2(3) nk by simp
  ultimately show "stands m res v" using stands_kept[OF V(3) cl kp] by simp
qed

text \<open>C17. An operator's fold puts the value where its result was read.  For the redex of an operator that a wave has
  taken from the queue of a sound net, \<open>fold_op_head\<close> leaves a sound net with its queue complete, without the
  redex's two nodes; the port that read the result is wired to a numeral or boolean that the readers decode as
  the value (a number as its low 62 bits), every other wire between other live nodes is as it was, and one fold
  is counted.
\<close>

theorem fold_delivers_value:
  assumes "net_ok (fnet s)" "\<not> in_parallel (fenv X)" "op_redex (fnet s) lam app" "read_back v = Some (e, x)"
    and "resting frc (fnet (fold_op_head X lam app v s))"
  shows "let n = fnet s; m = fnet (fold_op_head X lam app v s); ar = wire n (Port app 1) in
    net_read_int frc (wire m ar) e m = (m, x) \<and> net_ok m \<and> (\<forall>P. all_queued n P \<longrightarrow> all_queued m P) \<and>
    \<not> live m lam \<and> \<not> live m app \<and> fcount (fold_op_head X lam app v s) = fcount s + 1 \<and>
    (\<forall>q. live n (node q) \<and> pno q < 3 \<and> node q \<notin> {lam, app} \<and> q \<noteq> ar \<and> wire n q \<noteq> NONE \<and>
       node (wire n q) \<notin> {lam, app} \<longrightarrow> live m (node q) \<and> wire m q = wire n q)"
proof -
  obtain n1 res where r: "val_to_port X v (fnet s) = (n1, res)" by fastforce
  define m where "m = fnet (fold_op_head X lam app v s)"
  have m: "m = fold_kill (fenv X) app (fold_kill (fenv X) lam (put_result (fenv X) res app n1))"
    by (simp add: m_def fold_op_head_def r lin_fold_bump_def)
  have "read_back v \<noteq> None" using assms(4) by simp
  note F = fold_net[OF assms(1-3) this r m]
  have "net_read_int frc res e m = (m, x)" by (rule stands_reads[OF F(6) assms(4)]) (use assms(5) in \<open>simp add: m_def\<close>)
  moreover have "fcount (fold_op_head X lam app v s) = fcount s + 1" by (simp add: fold_op_head_def r lin_fold_bump_def)
  ultimately show ?thesis unfolding Let_def m_def[symmetric] using F(1-5,7) by auto
qed

text \<open>The net of \<open>(\op ((\k k) op)) t\<close> under \<open>ROOT\<close> as a wave hands its redex out: node 1 is the head, node 2 the
  application, node 5 stands for the operands.\<close>

definition op_links :: "(port \<times> port) list" where
  "op_links = [(Port 2 1, Port 0 0), (Port 2 2, Port 5 0), (Port 1 1, Port 3 2), (Port 1 2, Port 3 1), (Port 3 0, Port 4 0),
     (Port 4 1, Port 4 2), (Port 5 1, Port 5 2), (Port 1 0, Port 2 0)]"

definition op_net :: net where
  "op_net = (demo_links op_links (demo_alloc [LAM, APP, APP, LAM, LAM]))\<lparr>act := [], act_of := (\<lambda>_. - 1)\<rparr>"

lemma op_alloc:
  "tag (demo_alloc [LAM, APP, APP, LAM, LAM]) = (\<lambda>_. ERA)(0 := ROOT, 1 := LAM, 2 := APP, 3 := APP, 4 := LAM, 5 := LAM)"
  "wire (demo_alloc [LAM, APP, APP, LAM, LAM]) p = NONE"
  "live (demo_alloc [LAM, APP, APP, LAM, LAM]) v \<longleftrightarrow> 0 \<le> v \<and> v < 6" "0 \<le> nn (demo_alloc [LAM, APP, APP, LAM, LAM])"
  by (auto simp: demo_eval live_def in_net_def)

lemma op_net_live: "live op_net v \<longleftrightarrow> 0 \<le> v \<and> v < 6"
proof -
  have "live op_net v \<longleftrightarrow> live (demo_links op_links (demo_alloc [LAM, APP, APP, LAM, LAM])) v"
    by (simp add: op_net_def live_def in_net_def)
  then show ?thesis by (simp add: op_alloc)
qed

lemma op_net_wire: "wire op_net = fold link_ends op_links (\<lambda>_. NONE)"
proof -
  have "wire (demo_alloc [LAM, APP, APP, LAM, LAM]) = (\<lambda>_. NONE)" using op_alloc(2) by blast
  moreover have "wire (demo_links op_links (demo_alloc [LAM, APP, APP, LAM, LAM])) =
      fold link_ends op_links (wire (demo_alloc [LAM, APP, APP, LAM, LAM]))"
    by (rule demo_links_wire) (simp add: op_links_def)
  ultimately show ?thesis by (simp add: op_net_def)
qed

lemma op_net_tag: "tag op_net = (\<lambda>_. ERA)(0 := ROOT, 1 := LAM, 2 := APP, 3 := APP, 4 := LAM, 5 := LAM)"
  by (simp add: op_net_def op_alloc)

lemma op_net_wires: "wire op_net (Port 1 0) = Port 2 0" "wire op_net (Port 2 0) = Port 1 0" "wire op_net (Port 2 1) = Port 0 0"
  "wire op_net (Port 2 2) = Port 5 0" "wire op_net (Port 1 1) = Port 3 2" "wire op_net (Port 3 0) = Port 4 0"
  by (simp_all add: op_net_wire op_links_def link_ends_pair)

lemma unqueue_ok:
  assumes "net_ok n"
  shows "net_ok (n\<lparr>act := [], act_of := (\<lambda>_. - 1)\<rparr>)"
proof -
  let ?m = "n\<lparr>act := [], act_of := (\<lambda>_. - 1)\<rparr>"
  have "slots_ok ?m fs ps = slots_ok n fs ps" "wired ?m {} {} = wired n {} {}" for fs ps
    by (simp_all add: slots_ok_def wired_def standing_def linked_def live_def in_net_def)
  moreover have "levels_ok ?m = levels_ok n" "room_ok n \<Longrightarrow> room_ok ?m" "queue_ok ?m" "queue_live ?m"
    by (simp_all add: levels_ok_def room_ok_def queue_ok_def queue_live_def live_def in_net_def)
  ultimately show ?thesis using assms by (simp add: net_ok_def)
qed

lemma op_net_ok: "net_ok op_net"
proof -
  let ?a = "demo_alloc [LAM, APP, APP, LAM, LAM]"
  have "links_fit ?a op_links" by (simp add: links_fit_def op_links_def standing_def op_alloc)
  then have ok: "net_ok (demo_links op_links ?a)"
    using demo_links_ok[of ?a op_links] demo_alloc_ok[of "[LAM, APP, APP, LAM, LAM]"] by blast
  from unqueue_ok[OF this] show ?thesis by (simp add: op_net_def)
qed

lemma op_net_redex: "op_redex op_net 1 2"
  unfolding op_redex_def redex_live_def lam_at_def app_at_def
  using op_net_wires by (simp add: op_net_live op_net_tag del: One_nat_def) (simp add: op_net_def)

definition demo_world :: world where
  "demo_world = \<lparr>force = (\<lambda>n q. n), observe = (\<lambda>p d n. (n, None)), unbox = (\<lambda>p n. (n, None)), building = False\<rparr>"

definition demo_fold :: fold_env where
  "demo_fold = \<lparr>fenv = seq_env, fworld = demo_world, plugin = (\<lambda>S. S), box_float = (\<lambda>d n. (n, NONE)), str_addr = (\<lambda>s. 0),
     double_of = (\<lambda>x. x), strtod = (\<lambda>s. 0)\<rparr>"

definition demo_state :: fold_state where
  "demo_state = \<lparr>fnet = op_net, fops = \<lparr>scalar_ops = [], precompile_depth = 0, build_depth = 0, build_observed = 0, gate_reports = []\<rparr>,
     fcount = 0\<rparr>"

theorem fold_delivers_value_witness:
  "\<exists>m. m = fnet (fold_op_head demo_fold 1 2 (V_int 42) demo_state) \<and> net_ok m \<and>
     net_read_int (\<lambda>n q. n) (wire m (Port 0 0)) ENC_NUM m = (m, 42)"
proof -
  have x: "read_back (V_int 42) = Some (ENC_NUM, 42)" by (simp add: read_back_def mask_eq_exp_minus_1)
  have st: "fnet demo_state = op_net" "\<not> in_parallel (fenv demo_fold)" by (simp_all add: demo_state_def demo_fold_def)
  have r: "resting (\<lambda>n q. n) k" for k by (simp add: resting_def)
  show ?thesis
    using fold_delivers_value[of demo_state demo_fold 1 2 "V_int 42" ENC_NUM 42 "\<lambda>n q. n", unfolded st(1)] op_net_ok op_net_redex
      st(2) x r op_net_wires(3) by (auto simp: Let_def)
qed

section \<open>What is claimed\<close>

lemma ffi_simple: "simple lin_pat_enc_ffi" "cost lin_pat_enc_ffi \<le> 256" "dep lin_pat_enc_ffi \<le> pat_depth" "lin_pat_enc_ffi \<noteq> P_null"
  by (simp_all add: lin_pat_enc_ffi_def lin_pat_enc_ffi_hdr_def lin_pat_enc_ffi_fn_def P_all3_def pat_depth_def)

text \<open>The two ports a closure's header names lead to live nodes.\<close>

definition ffi_args_live :: "net \<Rightarrow> int \<Rightarrow> bool" where
  "ffi_args_live n lam \<longleftrightarrow>
     (let r = skip_dup n (wire n (Port lam 2)); a2 = skip_dup n (wire n (Port (node r) 2));
          fn = skip_dup n (wire n (Port (node a2) 0))
      in live n (node (wire n (Port (node fn) 2))) \<and> live n (node (wire n (Port (node a2) 2))))"

lemma head_is_ffi_iff:
  assumes l: "lam_at n lam"
  shows "head_is_ffi n lam \<longleftrightarrow> lin_pat_ffi_head n (Port lam 0) \<and> ffi_args_live n lam"
proof -
  have nn: "0 \<le> nn n" using l by (auto simp: lam_at_def live_def in_net_def)
  have s: "skip_dup n (Port lam 0) = Port lam 0" by (rule skip_at) (use l in simp)
  have "head_is_ffi n lam \<longleftrightarrow> run n lin_pat_enc_ffi (Port lam 0) Map.empty \<noteq> None"
    using match_run[OF ffi_simple nn, of "Port lam 0"] by (auto simp: head_is_ffi_def split: option.splits)
  also have "\<dots> \<longleftrightarrow> lin_pat_ffi_head n (Port lam 0) \<and> ffi_args_live n lam"
    using l by (auto simp: lin_pat_enc_ffi_def lin_pat_enc_ffi_hdr_def lin_pat_enc_ffi_fn_def P_all3_def pat_binds_def s
        lin_pat_ffi_head_def ffi_args_live_def lam_at_def Let_def)
  finally show ?thesis .
qed

text \<open>C18. The core's filter of fold-shaped pairs is exact for this driver.  The driver claims only live redexes of the
  registered fold shape, so offering it only such pairs hides none from it; and it claims every live redex of
  that shape, as long as the operand ports of live applications are wired.
\<close>

theorem fold_claim_exact:
  "(arith_claim n (p, q) \<longrightarrow> redex_live n p q \<and> lin_pat_fold_shape n (p, q)) \<and>
   (redex_live n p q \<and> lin_pat_fold_shape n (p, q) \<and> (\<forall>v. app_at n v \<longrightarrow> live n (node (wire n (Port v 2)))) \<longrightarrow>
      arith_claim n (p, q)) \<and>
   takes (Some lin_pat_fold_shape) w s (p, q) (arith_engine X i) = takes None w s (p, q) (arith_engine X i)"
proof -
  have L: "lam_at n (node l) \<and> pno l = 0" if "lam_of n (p, q) = Some l" "live n (node p)" "live n (node q)" "pno p = 0" "pno q = 0" for n l
    using that by (auto simp: lam_of_def lam_at_def split: if_splits)
  have C: "arith_claim n (p, q) \<longleftrightarrow> redex_live n p q \<and>
      (\<exists>l. lam_of n (p, q) = Some l \<and> (lin_pat_op_head n l \<or> lin_pat_ffi_head n l \<and> ffi_args_live n (node l)))" for n
  proof (cases "redex_live n p q")
    case False
    then show ?thesis by (auto simp: arith_claim_def redex_live_def live_def split: if_splits)
  next
    case True
    note r = redex_liveD[OF True]
    show ?thesis
    proof (cases "lam_of n (p, q)")
      case (Some l)
      have l: "lam_at n (node l)" "Port (node l) 0 = l" using L[OF Some r(1-4)] by (auto intro: port_eqI)
      show ?thesis using r True Some l head_is_ffi_iff[OF l(1)] by (auto simp: arith_claim_def live_def)
    qed (use r True in \<open>auto simp: arith_claim_def live_def\<close>)
  qed
  have F: "redex_live n p q \<Longrightarrow> lin_pat_fold_shape n (p, q) \<longleftrightarrow>
      (\<exists>l. lam_of n (p, q) = Some l \<and> (lin_pat_op_head n l \<or> lin_pat_ffi_head n l))" for n
    by (auto simp: lin_pat_fold_shape_def redex_live_def split: option.splits)
  have sup: "arith_claim n (p, q) \<Longrightarrow> redex_live n p q \<and> lin_pat_fold_shape n (p, q)" for n using C[of n] F[of n] by blast
  have wired: "ffi_args_live n (node l)"
    if "lin_pat_ffi_head n l" "\<forall>v. app_at n v \<longrightarrow> live n (node (wire n (Port v 2)))" for n l
    using that by (auto simp: lin_pat_ffi_head_def ffi_args_live_def app_at_def Let_def split: if_splits)
  have "takes (Some lin_pat_fold_shape) w s (p, q) (arith_engine X i) = takes None w s (p, q) (arith_engine X i)"
    using sup[of "rnet s"] by (auto simp: takes_def arith_engine_def)
  then show ?thesis using sup[of n] C[of n] F[of n] wired[of n] by blast
qed

theorem fold_claim_exact_witness:
  "arith_claim op_net (Port 1 0, Port 2 0) \<and> lin_pat_fold_shape op_net (Port 1 0, Port 2 0)"
proof -
  have "arith_claim op_net (Port 1 0, Port 2 0)"
    using op_net_wires op_net_wires[unfolded One_nat_def] op_net_live[of 1, unfolded live_def] op_net_live[of 2, unfolded live_def]
    by (simp add: arith_claim_def lam_of_def op_net_tag lin_pat_op_head_def op_net_live)
  then show ?thesis using fold_claim_exact[of op_net "Port 1 0" "Port 2 0"] by blast
qed

end
