(* ===== verification/AotProps.thy ===== *)
theory AotProps
  imports FoldProps
begin

text \<open>
  The build pass of \<open>arith.c\<close>: the box it puts around the value of a program is one the drivers recognise, for
  the domain the type named and with the value as its payload.
\<close>

section \<open>Links in bulk\<close>



section \<open>Boxing the root's value\<close>





end
