(* ===== verification/Readback.thy ===== *)
theory Readback
  imports Fold ErrState
begin

text \<open>
  The readback driver \<open>src/std/drivers/readback.c\<close> up to the printer: decoding a value with and without an
  expectation, the convention for foreign calls and their dispatch, the effects a program returns and the loop
  that performs them.  A computation changes the state of the driver and may end the process.  The foreign
  functions, files and streams of the system are a record of functions on a state of their own; reading an
  operand is a function on nets, so what a call among the operands does beside that is not seen here.
\<close>

section \<open>State\<close>

text \<open>\<open>lin_out\<close> is the stream the core redirects the value to; \<open>sinking\<close> says that it is set.\<close>

record 'o rb =
  bnet :: net
  bops :: scalar_state
  bfolds :: nat
  bdrivers :: registry
  sinking :: bool
  sink :: string
  outs :: string
  errs :: string
  sys :: 'o

text \<open>Why a computation stops: the program called \<open>exit\<close>, or the fuel of a walk ran out.\<close>

datatype stop = Exit int | Starved

type_synonym ('o, 'a) rcomp = "('o rb, stop, 'a) comp"

text \<open>The system: \<open>found\<close> is what \<open>dlsym\<close> says of a name, \<open>foreign\<close> a call of it with words of which some are doubles
  (\<open>None\<close> when libffi declines the interface), \<open>text_at\<close> the string at an address.\<close>

record 'o system =
  found :: "string \<Rightarrow> 'o \<Rightarrow> bool"
  foreign :: "string \<Rightarrow> (bool \<times> long) list \<Rightarrow> 'o \<Rightarrow> long option \<times> 'o"
  text_at :: "long \<Rightarrow> 'o \<Rightarrow> string"
  driver_at :: "string \<Rightarrow> 'o \<Rightarrow> driver option"
  load_plugin :: "string \<Rightarrow> 'o \<Rightarrow> registry \<Rightarrow> bool \<times> 'o \<times> registry"
  open_lib :: "string \<Rightarrow> 'o \<Rightarrow> long \<times> 'o"
  puts_answer :: "string \<Rightarrow> long"
  getenv :: "string \<Rightarrow> 'o \<Rightarrow> string option"
  stdin_line :: "'o \<Rightarrow> string option \<times> 'o"
  read_fd :: "int \<Rightarrow> 'o \<Rightarrow> string \<times> 'o"
  run_command :: "string \<Rightarrow> 'o \<Rightarrow> string option \<times> 'o"
  read_file :: "string \<Rightarrow> 'o \<Rightarrow> string option \<times> 'o"
  nap :: "int \<Rightarrow> 'o \<Rightarrow> 'o"
  format_g :: "long \<Rightarrow> string"      \<comment> \<open>\<open>%g\<close> of the double a word holds\<close>

record 'o rb_env = fold_env +
  rsys :: "'o system"
  rlayout :: layout
  rreduce :: "int \<Rightarrow> net \<Rightarrow> net"     \<comment> \<open>\<open>net_reduce\<close>\<close>

definition rb_world :: "'o rb_env \<Rightarrow> 'o rb \<Rightarrow> world" where
  "rb_world X s = (fworld X)\<lparr>building := in_build (bops s)\<rparr>"

definition put_net :: "net \<Rightarrow> ('o, unit) rcomp" where
  "put_net n = pmodify (\<lambda>s. s\<lparr>bnet := n\<rparr>)"

text \<open>A reader run on the net of the state.\<close>

definition reading :: "'o rb_env \<Rightarrow> (world \<Rightarrow> net \<Rightarrow> net \<times> 'a) \<Rightarrow> ('o, 'a) rcomp" where
  "reading X r s = (case r (rb_world X s) (bnet s) of (n, v) \<Rightarrow> (Inr v, s\<lparr>bnet := n\<rparr>))"

definition put_out :: "string \<Rightarrow> 'o rb \<Rightarrow> 'o rb" where
  "put_out t s = (if sinking s then s\<lparr>sink := sink s @ t\<rparr> else s\<lparr>outs := outs s @ t\<rparr>)"

definition put_stdout :: "string \<Rightarrow> 'o rb \<Rightarrow> 'o rb" where
  "put_stdout t s = s\<lparr>outs := outs s @ t\<rparr>"

definition put_err :: "string \<Rightarrow> 'o rb \<Rightarrow> 'o rb" where
  "put_err t s = s\<lparr>errs := errs s @ t\<rparr>"

section \<open>Values as text\<close>

definition show_int :: "int \<Rightarrow> string" where
  "show_int i = (if i < 0 then ''-'' @ show_nat (nat (- i)) else show_nat (nat i))"

text \<open>\<open>render_val\<close>: the text of a value, if there is one.\<close>

definition render_val :: "'o rb_env \<Rightarrow> val \<Rightarrow> string option" where
  "render_val X v =
     (case v of
        V_int k \<Rightarrow> Some (show_int (sint k))
      | V_str t \<Rightarrow> Some t
      | V_bool b \<Rightarrow> Some (if b \<noteq> 0 then ''true'' else ''false'')
      | V_float d \<Rightarrow> Some (format_g (rsys X) d)
      | V_none \<Rightarrow> None)"

section \<open>Decoding\<close>

definition box_read :: "box_dom \<Rightarrow> enc \<Rightarrow> world \<Rightarrow> port \<Rightarrow> net \<Rightarrow> net \<times> long option" where
  "box_read d e W p n =
     (case lin_pat_box n p of
        Some (w, pay) \<Rightarrow>
          if w \<noteq> d then (n, None)
          else (case net_read_int (force W) pay e n of (n1, k) \<Rightarrow> (n1, if k <s 0 then None else Some k))
      | None \<Rightarrow> (n, None))"

definition box_num :: "world \<Rightarrow> port \<Rightarrow> net \<Rightarrow> net \<times> long option" where
  "box_num = box_read BOX_NUM ENC_NUM"

definition box_bool :: "world \<Rightarrow> port \<Rightarrow> net \<Rightarrow> net \<times> long option" where
  "box_bool = box_read BOX_BOOL ENC_BOOL"

text \<open>A box first, then the encoding of the domain.\<close>

definition box_or :: "(world \<Rightarrow> port \<Rightarrow> net \<Rightarrow> net \<times> long option) \<Rightarrow> enc \<Rightarrow> (long \<Rightarrow> val) \<Rightarrow> world \<Rightarrow> port \<Rightarrow> net \<Rightarrow> net \<times> val" where
  "box_or box e mk W p n =
     (case box W p n of
        (n1, Some x) \<Rightarrow> (n1, mk x)
      | (n1, None) \<Rightarrow> (case net_read_int (force W) p e n1 of (n2, x) \<Rightarrow> (n2, if 0 \<le>s x then mk x else V_none)))"

definition decode :: "world \<Rightarrow> port \<Rightarrow> dom \<Rightarrow> net \<Rightarrow> net \<times> val" where
  "decode W p d n =
     (case d of
        DT_NUM \<Rightarrow> box_or box_num ENC_NUM V_int W p n
      | DT_BOOL \<Rightarrow> box_or box_bool ENC_BOOL V_bool W p n
      | DT_STR \<Rightarrow> (case net_read_string_arena (force W) p ENC_NUM n of (n1, r) \<Rightarrow>
                    (n1, case r of Some t \<Rightarrow> V_str t | None \<Rightarrow> V_none))
      | DT_FLOAT \<Rightarrow> (case net_read_float W p n of (n1, r) \<Rightarrow> (n1, case r of Some x \<Rightarrow> V_float x | None \<Rightarrow> V_none))
      | _ \<Rightarrow> (n, V_none))"

text \<open>A string whose structure determines it: cells of characters from 1 to 255, then the terminal.\<close>

function determined_loop :: "forcing \<Rightarrow> int \<Rightarrow> string \<Rightarrow> port \<Rightarrow> net \<Rightarrow> net \<times> string option" where
  "determined_loop frc i buf cur n =
     (if nn n \<le> i \<or> max_nodes \<le> i then (n, None)
      else case net_read_cell frc cur n of
        (n1, None) \<Rightarrow>
          (case net_read_int frc cur ENC_STR n1 of (n2, k) \<Rightarrow> (n2, if k \<noteq> 0 \<or> buf = [] then None else Some buf))
      | (n1, Some (h, t)) \<Rightarrow>
          (case net_read_int frc h ENC_NUM n1 of (n2, ch) \<Rightarrow>
             if ch \<le>s 0 \<or> 255 <s ch then (n2, None)
             else determined_loop frc (i + 1) (buf @ [char_of (unat ch)]) t n2))"
  by pat_completeness auto
termination
  by (relation "measure (\<lambda>(frc, i, buf, cur, n). nat (max_nodes - i))") auto

declare determined_loop.simps [simp del]

definition str_determined :: "forcing \<Rightarrow> port \<Rightarrow> net \<Rightarrow> net \<times> string option" where
  "str_determined frc p n = determined_loop frc 0 [] p n"

definition value_any :: "world \<Rightarrow> port \<Rightarrow> net \<Rightarrow> net \<times> val" where
  "value_any W p n =
     (case box_num W p n of
        (n1, Some b) \<Rightarrow> (n1, V_int b)
      | (n1, None) \<Rightarrow>
     (case box_bool W p n1 of
        (n2, Some b) \<Rightarrow> (n2, V_bool b)
      | (n2, None) \<Rightarrow>
     (case net_read_float W p n2 of
        (n3, Some d) \<Rightarrow> (n3, V_float d)
      | (n3, None) \<Rightarrow>
     (case net_read_int (force W) p ENC_NUM n3 of (n4, k) \<Rightarrow>
        if 0 \<le>s k then (n4, V_int k)
        else (case str_determined (force W) p n4 of (n5, r) \<Rightarrow>
                (n5, case r of Some t \<Rightarrow> V_str t | None \<Rightarrow> V_none))))))"

section \<open>The convention for foreign calls\<close>

definition is_float_fn :: "string \<Rightarrow> bool" where
  "is_float_fn fn \<longleftrightarrow>
     row_of ''lin_f'' fn \<and> fn \<noteq> ''lin_folds'' \<and> fn \<noteq> ''lin_folded'' \<and> fn \<noteq> ''lin_float'' \<and> fn \<noteq> ''lin_parse_float''"

definition str_fn :: "string \<Rightarrow> bool" where
  "str_fn fn \<longleftrightarrow> fn \<in> set [''puts'', ''getenv'', ''system'', ''dlopen'', ''lin_parse_float'', ''fopen'', ''driver_set'', ''driver_add'']"

definition rb_row_pure :: "string \<Rightarrow> bool" where
  "rb_row_pure fn \<longleftrightarrow> fn = ''lin_float'' \<or> fn = ''lin_parse_float'' \<or> fn = ''lin_streq''"

definition arg_doms :: "string \<Rightarrow> dom list" where
  "arg_doms fn =
     (if is_float_fn fn then [DT_FLOAT]
      else if fn = ''lin_streq'' \<or> fn = ''fopen'' then [DT_STR, DT_STR]
      else if str_fn fn then [DT_STR]
      else [DT_NUM])"

text \<open>A driver by its symbol, by the symbol of its plugin, or by that after the plugin has been loaded.\<close>

definition resolve_driver :: "'o rb_env \<Rightarrow> string \<Rightarrow> 'o rb \<Rightarrow> driver option \<times> 'o rb" where
  "resolve_driver X dn s =
     (let sym = ''lin_'' @ dn @ ''_driver''; Y = rsys X in
      if dn = ''cpu'' then (None, s)
      else case driver_at Y dn (sys s) of
        Some d \<Rightarrow> (Some d, s)
      | None \<Rightarrow>
          (case driver_at Y sym (sys s) of
             Some d \<Rightarrow> (Some d, s)
           | None \<Rightarrow>
               (case load_plugin Y dn (sys s) (bdrivers s) of (ok, w, R) \<Rightarrow>
                  (if ok then driver_at Y sym w else None, s\<lparr>sys := w, bdrivers := R\<rparr>))))"

definition word_of :: "'o rb_env \<Rightarrow> val \<Rightarrow> long" where
  "word_of X v = (case v of V_str t \<Rightarrow> str_addr X t | V_int k \<Rightarrow> k | V_bool k \<Rightarrow> k | V_float k \<Rightarrow> k | V_none \<Rightarrow> 0)"

definition is_float_val :: "val \<Rightarrow> bool" where
  "is_float_val v = (case v of V_float d \<Rightarrow> True | _ \<Rightarrow> False)"

definition dyn_call :: "'o rb_env \<Rightarrow> string \<Rightarrow> val list \<Rightarrow> 'o rb \<Rightarrow> long \<times> 'o rb" where
  "dyn_call X fn vs s =
     (case foreign (rsys X) fn (map (\<lambda>v. (is_float_val v, word_of X v)) vs) (sys s) of
        (r, w) \<Rightarrow> (case r of Some x \<Rightarrow> x | None \<Rightarrow> 0, s\<lparr>sys := w\<rparr>))"

text \<open>The rows of the driver set.  The name is the string operand, or what stands at the address another value names.\<close>

definition driver_rows :: "'o rb_env \<Rightarrow> string \<Rightarrow> val list \<Rightarrow> 'o rb \<Rightarrow> val \<times> 'o rb" where
  "driver_rows X fn vs s =
     (if fn = ''driver_clear'' then (V_int 1, s\<lparr>bdrivers := lin_driver_clear (bdrivers s)\<rparr>)
      else let dn = (case vs of [] \<Rightarrow> ''cpu'' | V_str t # _ \<Rightarrow> t | v # _ \<Rightarrow> text_at (rsys X) (word_of X v) (sys s)) in
      (case resolve_driver X dn s of (d, s1) \<Rightarrow>
         if dn \<noteq> ''cpu'' \<and> d = None then (V_int 0, s1)
         else let s2 = (if fn \<noteq> ''driver_add'' then s1\<lparr>bdrivers := lin_driver_clear (bdrivers s1)\<rparr> else s1) in
           (case d of
              None \<Rightarrow> (V_int 1, s2)
            | Some d \<Rightarrow>
                (case lin_driver_add (rlayout X) (Some d) (bdrivers s2) of (answer, R) \<Rightarrow>
                   (V_int (case answer of Inr i \<Rightarrow> 1 | Inl e \<Rightarrow> 0), s2\<lparr>bdrivers := R\<rparr>)))))"

text \<open>The rows on strings, asked when the first operand is one.\<close>

definition string_rows :: "'o rb_env \<Rightarrow> string \<Rightarrow> val list \<Rightarrow> 'o rb \<Rightarrow> (val \<times> 'o rb) option" where
  "string_rows X fn vs s =
     (case vs of
        V_str t # ts \<Rightarrow>
          if fn = ''lin_parse_float'' then Some (V_float (strtod X t), s)
          else if fn = ''lin_streq'' \<and> (case ts of V_str u # _ \<Rightarrow> True | _ \<Rightarrow> False)
          then Some (V_bool (if (case ts of V_str u # _ \<Rightarrow> u = t | _ \<Rightarrow> False) then 1 else 0), s)
          else if fn = ''dlopen''
          then (case open_lib (rsys X) t (sys s) of (h, w) \<Rightarrow> Some (V_int h, s\<lparr>sys := w\<rparr>))
          else if fn = ''puts'' then Some (V_int (puts_answer (rsys X) t), put_stdout (t @ [CHR 0x0A]) s)
          else if fn = ''getenv''
          then Some (V_str (case getenv (rsys X) t (sys s) of Some e \<Rightarrow> e | None \<Rightarrow> ''(null)''), s)
          else None
      | _ \<Rightarrow> None)"

definition needs_string :: "string \<Rightarrow> bool" where
  "needs_string fn \<longleftrightarrow> fn \<in> set [''lin_parse_float'', ''lin_streq'', ''dlopen'', ''puts'', ''getenv'']"

text \<open>A call of a symbol of the process: a string when the name says so, a word otherwise.\<close>

definition symbol_row :: "'o rb_env \<Rightarrow> string \<Rightarrow> val list \<Rightarrow> 'o rb \<Rightarrow> val \<times> 'o rb" where
  "symbol_row X fn vs s =
     (if \<not> found (rsys X) fn (sys s)
      then (V_none, put_err (''ffi: symbol '' @ [CHR 0x27] @ fn @ [CHR 0x27] @ '' not found'' @ [CHR 0x0A]) s)
      else case dyn_call X fn vs s of (r, s1) \<Rightarrow>
        (if row_of ''lin_fs'' fn then V_str (text_at (rsys X) r (sys s1)) else V_int r, s1))"

text \<open>\<open>rb_rows\<close>: \<open>exit\<close> ends the process.\<close>

definition rb_rows :: "'o rb_env \<Rightarrow> string \<Rightarrow> val list \<Rightarrow> ('o, val) rcomp" where
  "rb_rows X fn vs s =
     (let c = map (word_of X) vs; argc = int (length vs) in
      if fn = ''exit'' then (Inl (Exit (case c of [] \<Rightarrow> 0 | x # _ \<Rightarrow> sint (ucast x :: 32 word))), s)
      else if fn = ''driver_get''
      then (Inr (V_str (case lin_get_driver (bdrivers s) of
                          Some d \<Rightarrow> (case driver.dname d of Some t \<Rightarrow> t | None \<Rightarrow> []) | None \<Rightarrow> ''cpu'')), s)
      else if fn = ''driver_set'' \<or> fn = ''driver_add'' \<or> fn = ''driver_clear''
      then (case driver_rows X fn vs s of (v, s1) \<Rightarrow> (Inr v, s1))
      else case lin_scalar_ops_run (plugin X) fn argc c (bops s) of
        (Some (out, okind), S1) \<Rightarrow> (Inr (result_val out okind), s\<lparr>bops := S1\<rparr>)
      | (None, S1) \<Rightarrow>
          (let s1 = s\<lparr>bops := S1\<rparr> in
           if fn = ''lin_folds'' then (Inr (V_int (of_nat (bfolds s1))), s1)
           else if fn = ''lin_folded'' then (Inr (V_bool (if 0 <s (of_nat (bfolds s1) :: long) then 1 else 0)), s1)
           else if (case vs of V_str t # _ \<Rightarrow> False | [] \<Rightarrow> False | _ \<Rightarrow> True) \<and> needs_string fn then (Inr V_none, s1)
           else case string_rows X fn vs s1 of
             Some (v, s2) \<Rightarrow> (Inr v, s2)
           | None \<Rightarrow>
               if fn = ''lin_float'' then (Inr (V_float (double_of X (case c of [] \<Rightarrow> 0 | x # _ \<Rightarrow> x))), s1)
               else (case symbol_row X fn vs s1 of (v, s2) \<Rightarrow> (Inr v, s2))))"

text \<open>\<open>run_ffi\<close>: what dispatching the closure at \<open>p\<close> yields; \<open>V_none\<close> when it is none, or is not to be called now.\<close>

definition run_operands :: "'o rb_env \<Rightarrow> string \<Rightarrow> port \<Rightarrow> ('o, val) rcomp" where
  "run_operands X fn argp =
     pbind (reading X (\<lambda>W n. net_spine_slots (force W) argp n)) (\<lambda>k0.
       let k = (if k0 < 0 then 0 else k0) in
       pbind (reading X (\<lambda>W n. net_spine_args W argp (arg_doms fn) (nat k) n)) (\<lambda>vs.
         if int (length vs) < k \<or> (k = 0 \<and> vs \<noteq> []) then pret V_none else rb_rows X fn vs))"

definition run_gated :: "'o rb_env \<Rightarrow> string \<Rightarrow> port \<Rightarrow> ('o, val) rcomp" where
  "run_gated X fn argp s =
     (case lin_build_gate (plugin X) fn (rb_row_pure fn) (bops s) of (ok, S1) \<Rightarrow>
        (if ok then run_operands X fn argp else pret V_none) (s\<lparr>bops := S1\<rparr>))"

definition run_ffi :: "'o rb_env \<Rightarrow> port \<Rightarrow> ('o, val) rcomp" where
  "run_ffi X p s =
     (let n = bnet s in
      case net_ffi_header n (Port (node (skip_dup n p)) 0) of
        None \<Rightarrow> (Inr V_none, s)
      | Some (a1, argp) \<Rightarrow>
          if node a1 < 0 \<or> pno a1 \<noteq> 1 \<or> tag n (node a1) \<noteq> APP then (Inr V_none, s)
          else pbind (reading X (\<lambda>W. net_read_string_arena (force W) (wire n (Port (node a1) 2)) ENC_NUM)) (\<lambda>r.
            case r of
              None \<Rightarrow> pret V_none
            | Some fn \<Rightarrow> if fn = [] then pret V_none else run_gated X fn argp) s)"

definition net_try_ffi :: "'o rb_env \<Rightarrow> port \<Rightarrow> ('o, bool) rcomp" where
  "net_try_ffi X p =
     pbind (run_ffi X p) (\<lambda>v. case render_val X v of
        None \<Rightarrow> pret False
      | Some t \<Rightarrow> pthen (pmodify (put_out t)) (pret True))"

end
