(* ===== verification/Effects.thy ===== *)
theory Effects
  imports Readback Compile
begin

text \<open>
  The effects of a program (\<open>src/std/drivers/readback.c\<close>): their encoding, the string encoding a reader builds
  for the text it got, and one round of the loop that performs effects until the program is done.
\<close>

section \<open>The encoding\<close>

datatype eff = EFF_DONE | EFF_PRINT | EFF_WRITE | EFF_WAIT

definition eff_of :: "long \<Rightarrow> eff option" where
  "eff_of c = (if c = 0 then Some EFF_DONE else if c = 1 then Some EFF_PRINT else if c = 2 then Some EFF_WRITE
     else if c = 3 then Some EFF_WAIT else None)"

definition eff_pay :: "eff \<Rightarrow> nat" where
  "eff_pay e = (if e = EFF_WRITE then 3 else 2)"

text \<open>The spine of applications is walked from the last payload to the code, at most eight steps and three payloads.\<close>

fun dig_loop :: "forcing \<Rightarrow> nat \<Rightarrow> int \<Rightarrow> port list \<Rightarrow> port \<Rightarrow> net \<Rightarrow> net \<times> (eff \<times> port list) option" where
  "dig_loop frc 0 l pays cur n = (n, None)"
| "dig_loop frc (Suc k) l pays cur n =
     (if \<not> is_tag APP n cur \<or> pno cur \<noteq> 1 then (n, None)
      else let fn = skip_dup n (wire n (Port (node cur) 0)); a = wire n (Port (node cur) 2) in
      if node fn = l \<and> pno fn = 1
      then (case net_read_int frc a ENC_NUM n of (n1, c) \<Rightarrow>
              (n1, case eff_of c of
                     None \<Rightarrow> None
                   | Some e \<Rightarrow> if length pays \<noteq> eff_pay e then None else Some (e, pays)))
      else if 3 \<le> length pays then (n, None)
      else dig_loop frc k l (a # pays) fn n)"

definition eff_dig :: "forcing \<Rightarrow> port \<Rightarrow> net \<Rightarrow> net \<times> (eff \<times> port list) option" where
  "eff_dig frc p n =
     (case net_force_val frc p n of (n1, q) \<Rightarrow>
        let l = dup_hop n1 q in
        if \<not> is_tag LAM n1 l then (n1, None)
        else dig_loop frc 8 (node l) [] (skip_dup n1 (wire n1 (Port (node l) 2))) n1)"

fun shape_loop :: "net \<Rightarrow> nat \<Rightarrow> int \<Rightarrow> port \<Rightarrow> bool" where
  "shape_loop n 0 l cur = False"
| "shape_loop n (Suc k) l cur =
     (if \<not> is_tag APP n cur \<or> pno cur \<noteq> 1 then False
      else let fn = wire n (Port (node cur) 0) in
      if node fn = l \<and> pno fn = 1 then tag n (node (wire n (Port (node cur) 2))) \<noteq> ERA
      else shape_loop n k l fn)"

definition eff_shape :: "net \<Rightarrow> port \<Rightarrow> bool" where
  "eff_shape n p = (let l = dup_hop n p in is_tag LAM n l \<and> shape_loop n 8 (node l) (wire n (Port (node l) 2)))"

section \<open>Strings\<close>

definition string_nil :: "env \<Rightarrow> net \<Rightarrow> net \<times> port" where
  "string_nil E n =
     (case net_alloc E LAM 0 n of (n1, c) \<Rightarrow> case net_alloc E LAM 0 n1 of (n2, r) \<Rightarrow>
        (link_all E [(Port c 2, Port r 0), (Port r 2, Port r 1)] n2, Port c 0))"

definition string_cell :: "env \<Rightarrow> char \<Rightarrow> net \<times> port \<Rightarrow> net \<times> port" where
  "string_cell E ch s =
     (case s of (n, cur) \<Rightarrow>
      case net_alloc_scott E (of_char ch) n of (n1, v) \<Rightarrow>
      case net_alloc E LAM 0 n1 of (n2, c) \<Rightarrow> case net_alloc E LAM 0 n2 of (n3, r) \<Rightarrow>
      case net_alloc E APP 0 n3 of (n4, a1) \<Rightarrow> case net_alloc E APP 0 n4 of (n5, a2) \<Rightarrow>
        (link_all E [(Port c 2, Port r 0), (Port a1 0, Port c 1), (Port a1 2, v), (Port a2 0, Port a1 1), (Port a2 2, cur),
                     (Port r 2, Port a2 1)] n5, Port c 0))"

definition net_alloc_string :: "env \<Rightarrow> string \<Rightarrow> net \<Rightarrow> net \<times> port" where
  "net_alloc_string E t n = foldl (\<lambda>s ch. string_cell E ch s) (string_nil E n) (rev t)"

section \<open>Input\<close>

text \<open>A text cut at its first NUL, as a C string holds it, and without a last newline.\<close>

definition c_text :: "string \<Rightarrow> string" where
  "c_text t = takeWhile (\<lambda>c. c \<noteq> CHR 0x00) t"

definition chomp :: "string \<Rightarrow> string" where
  "chomp t = (if t \<noteq> [] \<and> last t = CHR 0x0A then butlast t else t)"

definition buffer_room :: nat where "buffer_room = 4095"

text \<open>What \<open>read_stream\<close> leaves in the buffer: nothing when the stream could not be opened.\<close>

definition stream_text :: "string option \<Rightarrow> string" where
  "stream_text r = (case r of Some t \<Rightarrow> chomp (c_text (take buffer_room t)) | None \<Rightarrow> [])"

definition line_text :: "string option \<Rightarrow> string" where
  "line_text r = (case r of Some t \<Rightarrow> chomp (c_text t) | None \<Rightarrow> [])"

text \<open>\<open>strtol\<close> in base 10: white space, a sign, digits; the value saturates.  Without digits nothing is consumed.\<close>

definition is_space :: "char \<Rightarrow> bool" where
  "is_space c \<longleftrightarrow> c = CHR 0x20 \<or> (of_char c :: nat) \<in> {9..13}"

definition digit_char :: "char \<Rightarrow> bool" where
  "digit_char c \<longleftrightarrow> of_char c \<in> {48..57::nat}"

definition strtol :: "string \<Rightarrow> int \<times> string" where
  "strtol t =
     (let u = dropWhile is_space t;
          neg = (u \<noteq> [] \<and> hd u = CHR 0x2D);
          v = (if u \<noteq> [] \<and> (hd u = CHR 0x2D \<or> hd u = CHR 0x2B) then tl u else u);
          k = int (digits_value v)
      in if takeWhile digit_char v = [] then (0, t)
         else (if neg then max (- (2 ^ 63)) (- k) else min (2 ^ 63 - 1) k, dropWhile digit_char v))"

section \<open>The loop\<close>

text \<open>\<open>eff_apply\<close>: the root is the continuation applied to the answer.\<close>

definition eff_apply :: "env \<Rightarrow> port \<Rightarrow> port \<Rightarrow> net \<Rightarrow> net" where
  "eff_apply E fn a n =
     (case net_alloc E APP 0 n of (n1, v) \<Rightarrow>
        net_link E (Port 0 0) (Port v 1) True (net_link E (Port v 2) a True (net_link E (Port v 0) fn True n1)))"

text \<open>The answer of a source: \<open>is_int\<close> 1 and 2, or the text in the buffer.\<close>

datatype answer_val = Ans_int long | Ans_bool long | Ans_text string

definition source_text :: "'o rb_env \<Rightarrow> string \<Rightarrow> 'o rb \<Rightarrow> answer_val \<times> 'o rb" where
  "source_text X t s =
     (let Y = rsys X in
      if t = ''stdin'' \<or> t = ''0'' then (case stdin_line Y (sys s) of (r, w) \<Rightarrow> (Ans_text (line_text r), s\<lparr>sys := w\<rparr>))
      else if (t \<noteq> [] \<and> hd t = CHR 0x21) \<or> row_of ''cmd:'' t
      then (case run_command Y (if t \<noteq> [] \<and> hd t = CHR 0x21 then drop 1 t else drop 4 t) (sys s) of
              (r, w) \<Rightarrow> (Ans_text (stream_text r), s\<lparr>sys := w\<rparr>))
      else if row_of ''sleep:'' t
      then (let ms = fst (strtol (drop 6 t)) in
            (Ans_int (word_of_int ms), if 0 < ms then s\<lparr>sys := nap Y ms (sys s)\<rparr> else s))
      else (case read_file Y (if row_of ''file:'' t then drop 5 t else t) (sys s) of
              (r, w) \<Rightarrow> (Ans_text (stream_text r), s\<lparr>sys := w\<rparr>)))"

definition read_source :: "'o rb_env \<Rightarrow> port \<Rightarrow> ('o, answer_val) rcomp" where
  "read_source X src =
     pbind (reading X (\<lambda>W. net_read_int (force W) src ENC_NUM)) (\<lambda>fd s.
       if fd = 0 then (case stdin_line (rsys X) (sys s) of (r, w) \<Rightarrow> (Inr (Ans_text (line_text r)), s\<lparr>sys := w\<rparr>))
       else if 0 <s fd
       then (case read_fd (rsys X) (sint (ucast fd :: 32 word)) (sys s) of (t, w) \<Rightarrow>
               (Inr (Ans_text (stream_text (Some t))), s\<lparr>sys := w\<rparr>))
       else pbind (reading X (\<lambda>W. net_read_string_arena (force W) src ENC_NUM)) (\<lambda>r s1.
              case r of None \<Rightarrow> (Inr (Ans_text []), s1) | Some t \<Rightarrow> (case source_text X t s1 of (a, s2) \<Rightarrow> (Inr a, s2))) s)"

definition wait_answer :: "'o rb_env \<Rightarrow> port \<Rightarrow> ('o, answer_val) rcomp" where
  "wait_answer X src =
     pbind (if 0 \<le> node src then run_ffi X src else pret V_none) (\<lambda>fv s.
       case fv of
         V_int k \<Rightarrow> (Inr (Ans_int k), s)
       | V_bool b \<Rightarrow> (Inr (Ans_bool b), s)
       | V_str t \<Rightarrow> (Inr (Ans_text (take buffer_room t)), s)
       | _ \<Rightarrow> if node src < 0
              then (case stdin_line (rsys X) (sys s) of (r, w) \<Rightarrow> (Inr (Ans_text (line_text r)), s\<lparr>sys := w\<rparr>))
              else read_source X src s)"

definition answer_port :: "env \<Rightarrow> answer_val \<Rightarrow> net \<Rightarrow> net \<times> port" where
  "answer_port E a n =
     (case a of
        Ans_bool b \<Rightarrow> net_alloc_bool E ((ucast b :: 32 word) \<noteq> 0) n
      | Ans_int k \<Rightarrow> net_alloc_scott E k n
      | Ans_text t \<Rightarrow>
          (case strtol t of (v, rest) \<Rightarrow>
             if t \<noteq> [] \<and> rest = [] \<and> 0 \<le> v then net_alloc_scott E (word_of_int v) n else net_alloc_string E t n))"

text \<open>A continuation that is no effect yet is applied to a unit value.\<close>

definition go_on :: "env \<Rightarrow> port \<Rightarrow> net \<Rightarrow> net" where
  "go_on E next n =
     (if is_tag LAM n next \<and> \<not> eff_shape n next
      then (case net_alloc_scott E 0 n of (n1, u) \<Rightarrow> eff_apply E next u n1)
      else net_link E (Port 0 0) next True n)"

definition reduce_root :: "'o rb_env \<Rightarrow> int \<Rightarrow> (net \<Rightarrow> net) \<Rightarrow> 'o rb \<Rightarrow> 'o rb" where
  "reduce_root X limit f s = s\<lparr>bnet := rreduce X limit (f (bnet s))\<rparr>"

text \<open>A message goes to the standard output or, for \<open>io_write_to 2\<close>, to the standard error; \<open>writer\<close> is the printer that
  writes a net no value was decoded from.\<close>

definition put_msg :: "bool \<Rightarrow> string \<Rightarrow> 'o rb \<Rightarrow> 'o rb" where
  "put_msg to_err t s = (if to_err then put_err t s else put_stdout t s)"

definition print_message :: "'o rb_env \<Rightarrow> (port \<Rightarrow> ('o, string) rcomp) \<Rightarrow> bool \<Rightarrow> port \<Rightarrow> ('o, unit) rcomp" where
  "print_message X writer to_err msg =
     pbind (net_try_ffi X msg) (\<lambda>done.
       if done then pret ()
       else pbind (reading X (\<lambda>W. value_any W msg)) (\<lambda>v.
         case render_val X v of
           Some t \<Rightarrow> pmodify (put_msg to_err t)
         | None \<Rightarrow> pbind (writer msg) (\<lambda>t. pmodify (put_msg to_err t))))"

definition do_print :: "'o rb_env \<Rightarrow> (port \<Rightarrow> ('o, string) rcomp) \<Rightarrow> int \<Rightarrow> bool \<Rightarrow> port \<Rightarrow> port \<Rightarrow> ('o, unit) rcomp" where
  "do_print X writer limit to_err msg next =
     pthen (print_message X writer to_err msg) (pmodify (reduce_root X limit (go_on (fenv X) next)))"

definition do_wait :: "'o rb_env \<Rightarrow> int \<Rightarrow> port \<Rightarrow> port \<Rightarrow> ('o, unit) rcomp" where
  "do_wait X limit src cb =
     pbind (wait_answer X src) (\<lambda>a.
       pmodify (reduce_root X limit (\<lambda>n. case answer_port (fenv X) a n of (n1, v) \<Rightarrow> eff_apply (fenv X) cb v n1)))"

text \<open>One round: \<open>None\<close> when the root is no effect, whether it was the last one otherwise.\<close>

definition io_round :: "'o rb_env \<Rightarrow> (port \<Rightarrow> ('o, string) rcomp) \<Rightarrow> int \<Rightarrow> ('o, bool option) rcomp" where
  "io_round X writer limit =
     pbind (reading X (\<lambda>W n. case net_force_val (force W) (wire n (Port 0 0)) n of
                               (n1, q) \<Rightarrow> eff_dig (force W) (dup_hop n1 q) n1)) (\<lambda>r.
       case r of
         None \<Rightarrow> pret None
       | Some (e, pay) \<Rightarrow>
           (case e of
              EFF_DONE \<Rightarrow> pret (Some True)
            | EFF_PRINT \<Rightarrow> pthen (do_print X writer limit False (pay ! 0) (pay ! 1)) (pret (Some False))
            | EFF_WRITE \<Rightarrow>
                pbind (reading X (\<lambda>W. net_read_int (force W) (pay ! 0) ENC_NUM)) (\<lambda>dst.
                  pthen (do_print X writer limit (dst = 2) (pay ! 1) (pay ! 2)) (pret (Some False)))
            | EFF_WAIT \<Rightarrow> pthen (do_wait X limit (pay ! 0) (pay ! 1)) (pret (Some False))))"

text \<open>\<open>run_io_body\<close> goes on as long as there are effects; \<open>k\<close> bounds the rounds.  The answer is 1 after an effect.\<close>

fun run_io_body :: "'o rb_env \<Rightarrow> (port \<Rightarrow> ('o, string) rcomp) \<Rightarrow> int \<Rightarrow> nat \<Rightarrow> bool \<Rightarrow> ('o, bool) rcomp" where
  "run_io_body X writer limit 0 did = pthrow Starved"
| "run_io_body X writer limit (Suc k) did =
     pbind (io_round X writer limit) (\<lambda>r.
       case r of
         None \<Rightarrow> pret did
       | Some True \<Rightarrow> pret True
       | Some False \<Rightarrow> run_io_body X writer limit k True)"

end
