(* ===== verification/Printer.thy ===== *)
theory Printer
  imports Effects
begin

text \<open>
  The net printer of \<open>src/std/drivers/readback.c\<close> and the hooks of the driver.  The printer's globals (the text
  so far, the nodes on the way, the texts kept for shared subterms, the binders being printed, the counts of
  marks) are a record; a binder is named by its depth.
\<close>

section \<open>State\<close>

record 'o pst =
  prb :: "'o rb"
  ob :: string
  qmarks :: nat
  dmarks :: nat
  vis_cap :: int
  vis :: "int set"
  viz :: "int \<times> nat \<rightharpoonup> string \<times> nat"   \<comment> \<open>the text of a port and the depth it was rendered at\<close>
  pp :: "(int \<times> string) list"           \<comment> \<open>innermost binder first\<close>

type_synonym ('o, 'a) pcomp = "('o pst, stop, 'a) comp"

definition lift :: "('o, 'a) rcomp \<Rightarrow> ('o, 'a) pcomp" where
  "lift c s = (case c (prb s) of (r, b) \<Rightarrow> (r, s\<lparr>prb := b\<rparr>))"

definition pnet :: "'o pst \<Rightarrow> net" where "pnet s = bnet (prb s)"

definition emit :: "string \<Rightarrow> ('o, unit) pcomp" where
  "emit t = pmodify (\<lambda>s. s\<lparr>ob := ob s @ t\<rparr>)"

definition q_mark :: "('o, unit) pcomp" where
  "q_mark = pmodify (\<lambda>s. s\<lparr>ob := ob s @ ''?'', qmarks := qmarks s + 1\<rparr>)"

definition d_mark :: "('o, unit) pcomp" where
  "d_mark = pmodify (\<lambda>s. s\<lparr>ob := ob s @ ''_'', dmarks := dmarks s + 1\<rparr>)"

definition binder_name :: "nat \<Rightarrow> string" where
  "binder_name d = (if d < 26 then [char_of (97 + d)] else char_of (97 + d mod 26) # show_nat (d div 26))"

definition pp_lookup :: "int \<Rightarrow> 'o pst \<Rightarrow> string option" where
  "pp_lookup v s = map_of (pp s) v"

definition pp_push :: "int \<Rightarrow> 'o pst \<Rightarrow> 'o pst" where
  "pp_push v s = s\<lparr>pp := (v, binder_name (length (pp s))) # pp s\<rparr>"

definition ob_val :: "'o rb_env \<Rightarrow> val \<Rightarrow> string option" where
  "ob_val X v = (case v of V_str t \<Rightarrow> Some ([CHR 0x22] @ t @ [CHR 0x22]) | _ \<Rightarrow> render_val X v)"

section \<open>Rendering\<close>

text \<open>What the wire of a port leads to, as the net is then.\<close>

definition at_wire :: "port \<Rightarrow> (port \<Rightarrow> ('o, unit) pcomp) \<Rightarrow> ('o, unit) pcomp" where
  "at_wire p f s = f (wire (pnet s) p) s"

definition or_else :: "'o rb_env \<Rightarrow> ('o, val) rcomp \<Rightarrow> ('o, unit) pcomp \<Rightarrow> ('o, unit) pcomp" where
  "or_else X c f = pbind (lift c) (\<lambda>v. case ob_val X v of Some t \<Rightarrow> emit t | None \<Rightarrow> f)"

type_synonym 'o renderer = "port \<Rightarrow> int \<Rightarrow> dom option \<Rightarrow> ('o, unit) pcomp"

definition binder_text :: "'o renderer \<Rightarrow> int \<Rightarrow> int \<Rightarrow> ('o, unit) pcomp" where
  "binder_text rec v depth =
     pthen (pmodify (\<lambda>s. (pp_push v s)\<lparr>ob := ob s @ [CHR 0x28, CHR 0x5C] @ binder_name (length (pp s)) @ '' ''\<rparr>))
      (pthen (at_wire (Port v 2) (\<lambda>w. rec w (depth + 1) None))
       (pmodify (\<lambda>s. s\<lparr>ob := ob s @ '')'', pp := tl (pp s)\<rparr>)))"

text \<open>A binder: a closure's value, what the domain says, what the structure determines, or the abstraction.\<close>

definition lam_text :: "'o rb_env \<Rightarrow> 'o renderer \<Rightarrow> port \<Rightarrow> int \<Rightarrow> bool \<Rightarrow> dom option \<Rightarrow> ('o, unit) pcomp" where
  "lam_text X rec p depth boxed dm =
     or_else X (run_ffi X p)
      (or_else X (case dm of Some d \<Rightarrow> reading X (\<lambda>W. decode W p d) | None \<Rightarrow> pret V_none)
       (or_else X (if dm = None \<or> boxed then reading X (\<lambda>W. value_any W p) else pret V_none)
        (binder_text rec (node p) depth)))"

definition node_text :: "'o rb_env \<Rightarrow> 'o renderer \<Rightarrow> port \<Rightarrow> int \<Rightarrow> bool \<Rightarrow> dom option \<Rightarrow> ('o, unit) pcomp" where
  "node_text X rec p depth boxed dm s =
     (case tag (pnet s) (node p) of
        ROOT \<Rightarrow> at_wire p (\<lambda>w. rec w (depth + 1) dm)
      | ERA \<Rightarrow> emit ''_''
      | DUP \<Rightarrow> at_wire (Port (node p) (if pno p = 0 then 1 else 0)) (\<lambda>w. rec w (depth + 1) dm)
      | APP \<Rightarrow> pthen (emit ''('')
                (pthen (at_wire (Port (node p) 0) (\<lambda>w. rec w (depth + 1) None))
                 (pthen (emit '' '')
                  (pthen (at_wire (Port (node p) 2) (\<lambda>w. rec w (depth + 1) None)) (emit '')''))))
      | LAM \<Rightarrow> if pno p = 0 then lam_text X rec p depth boxed dm else at_wire p (\<lambda>w. rec w (depth + 1) dm)) s"

text \<open>A port whose text is kept, whose node is on the way, or which is rendered now and kept when no mark was made.\<close>

definition memo_hit :: "port \<Rightarrow> 'o pst \<Rightarrow> string option" where
  "memo_hit p s =
     (case viz s (node p, pno p) of
        Some (t, d) \<Rightarrow> if node p < vis_cap s \<and> d = length (pp s) then Some t else None
      | None \<Rightarrow> None)"

definition keep_text :: "port \<Rightarrow> nat \<Rightarrow> nat \<Rightarrow> 'o pst \<Rightarrow> 'o pst" where
  "keep_text p q0 o0 s =
     (if node p < vis_cap s \<and> qmarks s = q0
      then s\<lparr>viz := (viz s)((node p, pno p) \<mapsto> (drop o0 (ob s), length (pp s)))\<rparr> else s)"

definition kept_text :: "'o rb_env \<Rightarrow> 'o renderer \<Rightarrow> port \<Rightarrow> int \<Rightarrow> bool \<Rightarrow> dom option \<Rightarrow> ('o, unit) pcomp" where
  "kept_text X rec p depth boxed dm s =
     (case memo_hit p s of
        Some t \<Rightarrow> emit t s
      | None \<Rightarrow>
          if node p < vis_cap s \<and> node p \<in> vis s then q_mark s
          else pthen (node_text X rec p depth boxed dm)
                 (pmodify (\<lambda>s1. keep_text p (qmarks s) (length (ob s)) (s1\<lparr>vis := vis s1 - {node p}\<rparr>)))
                 (if node p < vis_cap s then s\<lparr>vis := insert (node p) (vis s)\<rparr> else s))"

definition forced_text :: "'o rb_env \<Rightarrow> 'o renderer \<Rightarrow> int \<Rightarrow> bool \<Rightarrow> dom option \<Rightarrow> port \<Rightarrow> ('o, unit) pcomp" where
  "forced_text X rec depth boxed dm p s =
     (let n = pnet s in
      if nn n < depth \<or> \<not> in_net n (node p) then q_mark s
      else if dead n (node p) then d_mark s
      else if tag n (node p) = LAM \<and> pno p = 1
      then (case pp_lookup (node p) s of Some t \<Rightarrow> emit t s | None \<Rightarrow> q_mark s)
      else kept_text X rec p depth boxed dm s)"

definition box_domain :: "box_dom \<Rightarrow> dom" where
  "box_domain d = (case d of BOX_NUM \<Rightarrow> DT_NUM | BOX_BOOL \<Rightarrow> DT_BOOL)"

definition port_text :: "'o rb_env \<Rightarrow> 'o renderer \<Rightarrow> 'o renderer" where
  "port_text X rec p depth dm s =
     (if \<not> in_net (pnet s) (node p) then q_mark s
      else case lin_pat_box (pnet s) p of
        Some (d, pay) \<Rightarrow>
          pbind (lift (reading X (\<lambda>W. net_force_val (force W) pay))) (forced_text X rec depth True (Some (box_domain d))) s
      | None \<Rightarrow> pbind (lift (reading X (\<lambda>W. net_force_val (force W) p))) (forced_text X rec depth False dm) s)"

text \<open>\<open>k\<close> bounds the nesting of the calls.\<close>

fun print_port :: "'o rb_env \<Rightarrow> nat \<Rightarrow> 'o renderer" where
  "print_port X 0 = (\<lambda>p depth dm. pthrow Starved)"
| "print_port X (Suc k) = port_text X (print_port X k)"

definition print_start :: "'o rb \<Rightarrow> 'o pst" where
  "print_start b =
     \<lparr>prb = b, ob = [], qmarks = 0, dmarks = 0, vis_cap = nn (bnet b) + 1, vis = {}, viz = (\<lambda>_. None), pp = []\<rparr>"

text \<open>The text of the net at a port, with the marks that were made.\<close>

definition print_struct :: "'o rb_env \<Rightarrow> nat \<Rightarrow> port \<Rightarrow> dom option \<Rightarrow> ('o, string \<times> nat \<times> nat) rcomp" where
  "print_struct X k r dm b =
     (case print_port X k r 0 dm (print_start b) of
        (Inl e, s) \<Rightarrow> (Inl e, prb s)
      | (Inr u, s) \<Rightarrow> (Inr (ob s, qmarks s, dmarks s), prb s))"

section \<open>The observed result\<close>

definition mark_report :: "nat \<Rightarrow> nat \<Rightarrow> string" where
  "mark_report q d =
     (if 0 < d
      then ''lin: readback reached a node the reduction had discarded ('' @ show_nat d @
           '' mark(s)); the result is not a value'' @ [CHR 0x0A]
      else if 0 < q
      then ''lin: note: readback of a shared normal form ('' @ show_nat q @
           '' mark(s)); the value is correct but the printed text is not unique -- force it with `count` or by applying it'' @
           [CHR 0x0A]
      else [])"

definition result_text :: "'o rb_env \<Rightarrow> nat \<Rightarrow> port \<Rightarrow> dom option \<Rightarrow> ('o, unit) rcomp" where
  "result_text X k r dm =
     pbind (print_struct X k r dm) (\<lambda>(t, q, d). pmodify (\<lambda>b. put_err (mark_report q d) (put_out t b)))"

definition rendered :: "(val \<Rightarrow> string option) \<Rightarrow> ('o, val) rcomp \<Rightarrow> ('o, unit) rcomp \<Rightarrow> ('o, unit) rcomp" where
  "rendered f c g = pbind c (\<lambda>v. case f v of Some t \<Rightarrow> pmodify (put_out t) | None \<Rightarrow> g)"

definition print_body :: "'o rb_env \<Rightarrow> nat \<Rightarrow> dom option \<Rightarrow> ('o, unit) rcomp" where
  "print_body X k dm =
     pbind (reading X (\<lambda>W n. case net_force_val (force W) (wire n (Port 0 0)) n of (n1, q) \<Rightarrow> (n1, dup_hop n1 q))) (\<lambda>r b.
       (if in_net (bnet b) (node r) \<and> tag (bnet b) (node r) = LAM
        then rendered (render_val X) (run_ffi X r)
              (rendered (ob_val X) (reading X (\<lambda>W. case dm of Some d \<Rightarrow> decode W r d | None \<Rightarrow> value_any W r))
                (result_text X k r dm))
        else result_text X k r dm) b)"

section \<open>The hooks\<close>

definition rb_dispatch :: "'o rb_env \<Rightarrow> port \<Rightarrow> ('o, val) rcomp" where
  "rb_dispatch X p =
     pbind (reading X (\<lambda>W. net_force_val (force W) p)) (\<lambda>q.
     pbind (run_ffi X q) (\<lambda>v.
       if v \<noteq> V_none then pret v
       else pbind (reading X (\<lambda>W n. case net_force_val (force W) p n of (n1, q1) \<Rightarrow> (n1, wire n1 q1))) (\<lambda>far.
         if far \<noteq> p then run_ffi X far else pret V_none)))"

definition rb_read_value :: "'o rb_env \<Rightarrow> port \<Rightarrow> dom option \<Rightarrow> ('o, val option) rcomp" where
  "rb_read_value X p dm =
     pbind (if dm = Some DT_FFI \<or> dm = None then rb_dispatch X p else pret V_none) (\<lambda>v.
       if v \<noteq> V_none then pret (Some v)
       else pbind (reading X (\<lambda>W. case dm of Some d \<Rightarrow> decode W p d | None \<Rightarrow> value_any W p)) (\<lambda>v.
         pret (if v = V_none then None else Some v)))"

definition pinned :: "('o, 'a) rcomp \<Rightarrow> ('o, 'a) rcomp" where
  "pinned c =
     pthen (pmodify (\<lambda>b. b\<lparr>bnet := lin_pin (bnet b)\<rparr>))
      (pbind c (\<lambda>r. pthen (pmodify (\<lambda>b. b\<lparr>bnet := lin_unpin (bnet b)\<rparr>)) (pret r)))"

definition rb_print :: "'o rb_env \<Rightarrow> nat \<Rightarrow> dom option \<Rightarrow> ('o, int) rcomp" where
  "rb_print X k dm = pinned (pthen (print_body X k dm) (pret 0))"

definition rb_run_io :: "'o rb_env \<Rightarrow> nat \<Rightarrow> nat \<Rightarrow> int \<Rightarrow> ('o, int) rcomp" where
  "rb_run_io X k j limit =
     pinned (pbind (run_io_body X (\<lambda>p. pbind (print_struct X k p None) (\<lambda>(t, q, d). pret t)) limit j False) (\<lambda>did.
       pret (if did then 1 else 0)))"

section \<open>Registration\<close>

definition lin_readback_driver :: "layout \<Rightarrow> nat \<Rightarrow> driver" where
  "lin_readback_driver L i =
     \<lparr>ident = i, dname = Some ''readback'', magic = driver_magic, abi = driver_abi, net_size = net_bytes L, dsize = slot_end L,
      caps = cap_provider, wants = want_readback, domains = 0, priority = 0, hooks = [H_read_value, H_print, H_run_io]\<rparr>"

definition readback_load :: "layout \<Rightarrow> nat \<Rightarrow> bool \<Rightarrow> registry \<Rightarrow> bool \<times> registry" where
  "readback_load L i done R =
     (if done then (done, R) else (True, snd (lin_driver_add L (Some (lin_readback_driver L i)) R)))"

end
