(* ===== verification/ReadingStill.thy ===== *)
theory ReadingStill
  imports Printer NumeralProps
begin

text \<open>
  Reading on a net at rest: when forcing has nothing to fire, no reader changes the net, so what the readback
  driver decodes is a function of the net.
\<close>

section \<open>The readers\<close>

lemma restingD: "resting frc m \<Longrightarrow> frc m q = m"
  by (simp add: resting_def)

lemma force_loop_still: "force_loop frc i p m = (n1, q) \<Longrightarrow> resting frc m \<Longrightarrow> n1 = m"
proof (induction frc i p m rule: force_loop.induct)
  case (1 frc i p m)
  have f: "(if \<not> dead m (node p) then frc m p else m) = m" using restingD[OF 1(3)] by simp
  show ?case using 1(2) 1(1)[OF _ refl refl, unfolded f] 1(3)
    by (subst (asm) force_loop.simps) (simp add: f Let_def split: if_splits)
qed

lemma force_val_still: "net_force_val frc p m = (n1, q) \<Longrightarrow> resting frc m \<Longrightarrow> n1 = m"
  using force_loop_still by (simp add: net_force_val_def)

lemma force_val_live: "resting frc m \<Longrightarrow> live m (node p) \<Longrightarrow> net_force_val frc p m = (m, p)"
  unfolding net_force_val_def by (subst force_loop.simps) (auto simp: restingD live_def in_net_def)

lemma hop_still: "hop frc c p m = (n1, q) \<Longrightarrow> resting frc m \<Longrightarrow> n1 = m"
  by (auto simp: hop_def split: prod.splits dest!: force_val_still)

lemma hop_lam_still: "hop_lam frc c p m = (n1, q) \<Longrightarrow> resting frc m \<Longrightarrow> n1 = m"
  by (auto simp: hop_lam_def split: prod.splits dest!: hop_still)

lemma inner_lam_still: "inner_lam frc c p m = (n1, q) \<Longrightarrow> resting frc m \<Longrightarrow> n1 = m"
  by (auto simp: inner_lam_def split: prod.splits dest!: hop_still)

lemma two_lams_still: "two_lams frc c p m = (n1, q) \<Longrightarrow> resting frc m \<Longrightarrow> n1 = m"
  by (auto simp: two_lams_def split: prod.splits option.splits dest!: hop_lam_still inner_lam_still)

lemma body_still: "body_of frc c p m = (n1, q) \<Longrightarrow> resting frc m \<Longrightarrow> n1 = m"
  by (auto simp: body_of_def dest!: hop_still)

lemma sel_still: "sel_layer frc s p m = (n1, q) \<Longrightarrow> resting frc m \<Longrightarrow> n1 = m"
  by (auto simp: sel_layer_def split: prod.splits option.splits dest!: two_lams_still body_still)

lemma succ_still: "succ_layer frc p m = (n1, q) \<Longrightarrow> resting frc m \<Longrightarrow> n1 = m"
  by (auto simp: succ_layer_def split: prod.splits option.splits if_splits dest!: two_lams_still body_still hop_still)

lemma cell_still: "cell_layer frc p m = (n1, q) \<Longrightarrow> resting frc m \<Longrightarrow> n1 = m"
  by (auto simp: cell_layer_def split: prod.splits option.splits if_splits dest!: two_lams_still body_still hop_still)

lemma nil_still: "nil_layer frc p m = (n1, q) \<Longrightarrow> resting frc m \<Longrightarrow> n1 = m"
  by (auto simp: nil_layer_def split: prod.splits option.splits if_splits dest!: two_lams_still body_still)

lemma cons_still: "cons_layer frc p m = (n1, q) \<Longrightarrow> resting frc m \<Longrightarrow> n1 = m"
  by (auto simp: cons_layer_def split: prod.splits option.splits dest!: cell_still nil_still)

lemma enc_still: "enc_layer frc e p m = (n1, q) \<Longrightarrow> resting frc m \<Longrightarrow> n1 = m"
  by (auto simp: enc_layer_def split: enc.splits prod.splits option.splits if_splits dest!: sel_still succ_still cons_still)

lemma count_still: "count_loop frc e i c p m = (n1, q) \<Longrightarrow> resting frc m \<Longrightarrow> n1 = m"
proof (induction frc e i c p m rule: count_loop.induct)
  case (1 frc e i c p m)
  obtain n2 l where l: "enc_layer frc e p m = (n2, l)" by fastforce
  then have "n2 = m" using enc_still 1 by blast
  then show ?case using 1(2,3) 1(1)[OF _ l[symmetric]] l
    by (subst (asm) count_loop.simps) (auto split: if_splits option.splits layer.splits)
qed

lemma bits_still: "bits_loop frc k a p m = (n1, q) \<Longrightarrow> resting frc m \<Longrightarrow> n1 = m"
proof (induction frc k a p m rule: bits_loop.induct)
  case (1 frc k a p m)
  obtain n2 l where l: "cons_layer frc p m = (n2, l)" by fastforce
  then have n2: "n2 = m" using cons_still 1 by blast
  show ?case
  proof (cases "\<exists>h t. l = Some (Inductive h t)")
    case True
    then obtain h t where h: "l = Some (Inductive h t)" by blast
    obtain n3 b where b: "read_bool frc h m = (n3, b)" by fastforce
    then have "n3 = m" using count_still 1(3) by (auto simp: read_bool_def)
    then show ?thesis using 1(1)[OF _ l[symmetric] h refl] 1(2,3) l n2 h b
      by (subst (asm) bits_loop.simps) (auto split: if_splits)
  next
    case False
    then show ?thesis using 1(2) l n2 by (subst (asm) bits_loop.simps) (auto split: if_splits option.splits layer.splits)
  qed
qed

lemma read_int_still: "net_read_int frc p e m = (n1, k) \<Longrightarrow> resting frc m \<Longrightarrow> n1 = m"
  by (auto simp: net_read_int_def net_read_bits_def split: if_splits prod.splits dest!: count_still bits_still)

lemma string_still: "string_loop frc e i buf p m = (n1, r) \<Longrightarrow> resting frc m \<Longrightarrow> n1 = m"
proof (induction frc e i buf p m rule: string_loop.induct)
  case (1 frc e i buf p m)
  obtain n2 l where l: "cons_layer frc p m = (n2, l)" by fastforce
  then have n2: "n2 = m" using cons_still 1 by blast
  show ?case
  proof (cases "\<exists>h t. l = Some (Inductive h t)")
    case True
    then obtain h t where h: "l = Some (Inductive h t)" by blast
    obtain n3 ch where b: "net_read_int frc h e m = (n3, ch)" by fastforce
    then have "n3 = m" using read_int_still 1(3) by blast
    then show ?thesis using 1(1)[OF _ l[symmetric] h refl] 1(2,3) l n2 h b
      by (subst (asm) string_loop.simps) (auto split: if_splits)
  next
    case False
    then show ?thesis using 1(2) l n2 by (subst (asm) string_loop.simps) (auto split: if_splits option.splits layer.splits)
  qed
qed

lemma read_string_still: "net_read_string_arena frc p e m = (n1, r) \<Longrightarrow> resting frc m \<Longrightarrow> n1 = m"
  unfolding net_read_string_arena_def by (rule string_still)

lemma determined_still: "determined_loop frc i buf p m = (n1, r) \<Longrightarrow> resting frc m \<Longrightarrow> n1 = m"
proof (induction frc i buf p m rule: determined_loop.induct)
  case (1 frc i buf p m)
  obtain n2 l where l: "net_read_cell frc p m = (n2, l)" by fastforce
  then have n2: "n2 = m" using cell_still 1 unfolding net_read_cell_def by blast
  show ?case
  proof (cases l)
    case None
    then show ?thesis using 1(2,3) l n2
      by (subst (asm) determined_loop.simps) (auto split: if_splits prod.splits dest!: read_int_still)
  next
    case (Some ht)
    obtain h t where h: "ht = (h, t)" by fastforce
    obtain n3 ch where b: "net_read_int frc h ENC_NUM m = (n3, ch)" by fastforce
    then have "n3 = m" using read_int_still 1(3) by blast
    then show ?thesis using 1(1)[OF _ l[symmetric] Some h[symmetric]] 1(2,3) l n2 h b Some
      by (subst (asm) determined_loop.simps) (auto split: if_splits)
  qed
qed

lemma box_still: "box_read d e W p m = (n1, r) \<Longrightarrow> resting (force W) m \<Longrightarrow> n1 = m"
  by (auto simp: box_read_def split: option.splits prod.splits if_splits dest!: read_int_still)

section \<open>Decoding\<close>

definition unboxes_still :: "world \<Rightarrow> net \<Rightarrow> bool" where
  "unboxes_still W m \<longleftrightarrow> (\<forall>p. fst (unbox W p m) = m)"

lemma read_float_still: "net_read_float W p m = (n1, r) \<Longrightarrow> unboxes_still W m \<Longrightarrow> n1 = m"
  by (auto simp: net_read_float_def unboxes_still_def split: prod.splits option.splits val.splits) (metis fst_conv)+

lemma box_or_still:
  assumes "box_or (box_read d e) e mk W p m = (n1, v)" "resting (force W) m"
  shows "n1 = m"
  using assms by (auto simp: box_or_def split: prod.splits option.splits dest!: box_still read_int_still)

lemma decode_still:
  assumes "decode W p d m = (n1, v)" "resting (force W) m" "unboxes_still W m"
  shows "n1 = m"
  using assms box_or_still[of BOX_NUM ENC_NUM V_int W p m n1 v] box_or_still[of BOX_BOOL ENC_BOOL V_bool W p m n1 v]
  by (auto simp: decode_def box_num_def box_bool_def split: dom.splits prod.splits dest!: read_string_still read_float_still)

lemma value_any_still:
  assumes "value_any W p m = (n1, v)" "resting (force W) m" "unboxes_still W m"
  shows "n1 = m"
proof -
  obtain a r1 where a: "box_num W p m = (a, r1)" by fastforce
  obtain b r2 where b: "box_bool W p a = (b, r2)" by fastforce
  obtain c r3 where c: "net_read_float W p b = (c, r3)" by fastforce
  obtain d k where d: "net_read_int (force W) p ENC_NUM c = (d, k)" by fastforce
  obtain e r5 where e: "str_determined (force W) p d = (e, r5)" by fastforce
  have "a = m" using box_still[OF a[unfolded box_num_def] assms(2)] .
  moreover have "b = a" using box_still[OF b[unfolded box_bool_def]] assms(2) \<open>a = m\<close> by blast
  moreover have "c = b" using read_float_still[OF c] assms(3) calculation by blast
  moreover have "d = c" using read_int_still[OF d] assms(2) calculation by blast
  moreover have "e = d" using determined_still[OF e[unfolded str_determined_def]] assms(2) calculation by blast
  ultimately show ?thesis using assms(1) a b c d e by (auto simp: value_any_def split: option.splits if_splits)
qed

section \<open>A system that answers nothing\<close>

definition rest_world :: world where
  "rest_world = \<lparr>force = (\<lambda>n p. n), observe = (\<lambda>p d n. (n, None)), unbox = (\<lambda>p n. (n, None)), building = False\<rparr>"

definition rest_system :: "unit system" where
  "rest_system =
     \<lparr>found = (\<lambda>_ _. False), foreign = (\<lambda>_ _ s. (None, s)), text_at = (\<lambda>_ _. []), driver_at = (\<lambda>_ _. None),
      load_plugin = (\<lambda>_ s R. (False, s, R)), open_lib = (\<lambda>_ s. (0, s)), puts_answer = (\<lambda>_. 0), getenv = (\<lambda>_ _. None),
      stdin_line = (\<lambda>s. (None, s)), read_fd = (\<lambda>_ s. ([], s)), run_command = (\<lambda>_ s. (None, s)), read_file = (\<lambda>_ s. (None, s)),
      nap = (\<lambda>_ s. s), format_g = (\<lambda>_. [])\<rparr>"

definition rest_env :: "unit rb_env" where
  "rest_env =
     \<lparr>fenv = seq_env, fworld = rest_world, plugin = (\<lambda>S. S), box_float = (\<lambda>_ n. (n, NONE)), str_addr = (\<lambda>_. 0), double_of = (\<lambda>x. x),
      strtod = (\<lambda>_. 0), rsys = rest_system, rlayout = \<lparr>net_bytes = 0, slot_end = 0\<rparr>, rreduce = (\<lambda>_ n. n)\<rparr>"

definition rest_state :: "net \<Rightarrow> unit rb" where
  "rest_state n =
     \<lparr>bnet = n, bops = \<lparr>scalar_ops = [], precompile_depth = 0, build_depth = 0, build_observed = 0, gate_reports = []\<rparr>, bfolds = 0,
      bdrivers = registry_init, sinking = False, sink = [], outs = [], errs = [], sys = ()\<rparr>"

end
