(* ===== verification/PrinterProps.thy ===== *)
theory PrinterProps
  imports ReadingStill
begin

text \<open>
  What the printer writes.  \<open>view\<close> reads a net at rest as a term without the printer's buffer, marks and kept
  texts; the printer writes exactly the text of that term wherever the texts it keeps fit every place they are used at.
\<close>

section \<open>The reference reading\<close>

datatype rterm = R_text string | R_lam rterm | R_app rterm rterm | R_var nat | R_era

fun rtext :: "nat \<Rightarrow> rterm \<Rightarrow> string" where
  "rtext d (R_text t) = t"
| "rtext d (R_lam b) = [CHR 0x28, CHR 0x5C] @ binder_name d @ '' '' @ rtext (Suc d) b @ '')''"
| "rtext d (R_app f a) = ''('' @ rtext d f @ '' '' @ rtext d a @ '')''"
| "rtext d (R_var i) = binder_name i"
| "rtext d R_era = ''_''"

text \<open>A variable is the level of its binder, counted from the outermost.\<close>

fun level_of :: "int list \<Rightarrow> int \<Rightarrow> nat option" where
  "level_of [] v = None"
| "level_of (u # bs) v = (if u = v then Some (length bs) else level_of bs v)"

text \<open>The ports that were rendered, at which depth and as what.\<close>

type_synonym visits = "((int \<times> nat) \<times> nat \<times> rterm) set"
type_synonym lits = "port \<Rightarrow> bool \<Rightarrow> dom option \<Rightarrow> string option"

definition node_view ::
    "lits \<Rightarrow> net \<Rightarrow> (int list \<Rightarrow> port \<Rightarrow> dom option \<Rightarrow> (rterm \<times> visits) option) \<Rightarrow> int list \<Rightarrow> port \<Rightarrow> bool \<Rightarrow> dom option \<Rightarrow>
      (rterm \<times> visits) option" where
  "node_view lit n rec bs q boxed dm =
     (let v = node q in
      case tag n v of
        ROOT \<Rightarrow> rec bs (wire n q) dm
      | ERA \<Rightarrow> Some (R_era, {})
      | DUP \<Rightarrow> rec bs (wire n (Port v (if pno q = 0 then 1 else 0))) dm
      | APP \<Rightarrow>
          (case rec bs (wire n (Port v 0)) None of
             None \<Rightarrow> None
           | Some (f, V) \<Rightarrow> map_option (\<lambda>(a, W). (R_app f a, V \<union> W)) (rec bs (wire n (Port v 2)) None))
      | LAM \<Rightarrow>
          if pno q \<noteq> 0 then rec bs (wire n q) dm
          else (case lit q boxed dm of
                  Some t \<Rightarrow> Some (R_text t, {})
                | None \<Rightarrow> map_option (\<lambda>(b, V). (R_lam b, V)) (rec (v # bs) (wire n (Port v 2)) None)))"

definition unboxed :: "net \<Rightarrow> port \<Rightarrow> dom option \<Rightarrow> port \<times> bool \<times> dom option" where
  "unboxed n p dm = (case lin_pat_box n p of Some (d, pay) \<Rightarrow> (pay, True, Some (box_domain d)) | None \<Rightarrow> (p, False, dm))"

fun view :: "lits \<Rightarrow> net \<Rightarrow> nat \<Rightarrow> int set \<Rightarrow> int list \<Rightarrow> port \<Rightarrow> dom option \<Rightarrow> (rterm \<times> visits) option" where
  "view lit n 0 way bs p dm = None"
| "view lit n (Suc k) way bs p dm =
     (case unboxed n p dm of (q, boxed, dm1) \<Rightarrow>
        if \<not> in_net n (node p) \<or> \<not> live n (node q) then None
        else if tag n (node q) = LAM \<and> pno q = 1 then map_option (\<lambda>i. (R_var i, {})) (level_of bs (node q))
        else if node q \<in> way then None
        else map_option (\<lambda>(t, V). (t, insert ((node q, pno q), length bs, t) V))
               (node_view lit n (view lit n k (insert (node q) way)) bs q boxed dm1))"


section \<open>A net at rest\<close>

text \<open>Forcing and unboxing leave the net alone, and no binder is a closure.\<close>

definition steady :: "'o rb_env \<Rightarrow> 'o rb \<Rightarrow> bool" where
  "steady X b \<longleftrightarrow> resting (force (fworld X)) (bnet b) \<and> unboxes_still (rb_world X b) (bnet b) \<and>
     (\<forall>v. live (bnet b) v \<and> tag (bnet b) v = LAM \<longrightarrow> net_ffi_header (bnet b) (Port v 0) = None)"

definition shown :: "'o rb_env \<Rightarrow> 'o rb \<Rightarrow> lits" where
  "shown X b p boxed dm =
     (let W = rb_world X b; n = bnet b in
      case (case dm of Some d \<Rightarrow> ob_val X (snd (decode W p d n)) | None \<Rightarrow> None) of
        Some t \<Rightarrow> Some t
      | None \<Rightarrow> if dm = None \<or> boxed then ob_val X (snd (value_any W p n)) else None)"

lemma steady_rest: "steady X b \<Longrightarrow> resting (force (rb_world X b)) (bnet b)"
  by (simp add: steady_def rb_world_def)

lemma reading_same:
  assumes "fst (r (rb_world X b) (bnet b)) = bnet b"
  shows "reading X r b = (Inr (snd (r (rb_world X b) (bnet b))), b)"
proof -
  obtain n v where "r (rb_world X b) (bnet b) = (n, v)" by fastforce
  then show ?thesis using assms by (simp add: reading_def)
qed

lemma lift_same: "c (prb s) = (r, prb s) \<Longrightarrow> lift c s = (r, s)"
  by (simp add: lift_def)

lemma run_ffi_none:
  assumes st: "steady X b" and l: "live (bnet b) (node p)" "tag (bnet b) (node p) = LAM"
  shows "run_ffi X p b = (Inr V_none, b)"
proof -
  have "skip_dup (bnet b) p = p" unfolding skip_dup_def using l(2) by (cases "nat (nn (bnet b))") (simp_all add: is_tag_def)
  moreover have "net_ffi_header (bnet b) (Port (node p) 0) = None" using st l by (simp add: steady_def)
  ultimately show ?thesis by (simp add: run_ffi_def)
qed

lemma or_else_same:
  "c (prb s) = (Inr v, prb s) \<Longrightarrow> or_else X c f s = (case ob_val X v of Some t \<Rightarrow> emit t s | None \<Rightarrow> f s)"
  by (simp add: or_else_def pbind_def lift_same split: option.split)

lemma lam_text_steady:
  assumes st: "steady X (prb s)" and l: "live (bnet (prb s)) (node p)" "tag (bnet (prb s)) (node p) = LAM"
  shows "lam_text X rec p depth boxed dm s =
    (case shown X (prb s) p boxed dm of Some t \<Rightarrow> emit t s | None \<Rightarrow> binder_text rec (node p) depth s)"
proof -
  let ?W = "rb_world X (prb s)" and ?n = "bnet (prb s)"
  have u: "unboxes_still ?W ?n" using st by (simp add: steady_def)
  have d: "reading X (\<lambda>W. decode W p d) (prb s) = (Inr (snd (decode ?W p d ?n)), prb s)" for d
    by (rule reading_same) (metis decode_still[OF _ steady_rest[OF st] u] prod.collapse)
  have a: "reading X (\<lambda>W. value_any W p) (prb s) = (Inr (snd (value_any ?W p ?n)), prb s)"
    by (rule reading_same) (metis value_any_still[OF _ steady_rest[OF st] u] prod.collapse)
  have n: "pret V_none (prb s) = (Inr V_none, prb s)" by (simp add: pret_def)
  have vn: "ob_val X V_none = None" by (simp add: ob_val_def render_val_def)
  let ?c1 = "case dm of Some d \<Rightarrow> reading X (\<lambda>W. decode W p d) | None \<Rightarrow> pret V_none"
  let ?c2 = "if dm = None \<or> boxed then reading X (\<lambda>W. value_any W p) else pret V_none"
  have 1: "?c1 (prb s) = (Inr (case dm of Some d \<Rightarrow> snd (decode ?W p d ?n) | None \<Rightarrow> V_none), prb s)"
    by (cases dm) (simp_all add: d n)
  have 2: "?c2 (prb s) = (Inr (if dm = None \<or> boxed then snd (value_any ?W p ?n) else V_none), prb s)"
    by (simp add: a n)
  show ?thesis unfolding lam_text_def or_else_same[where c = "run_ffi X p" and s = s, OF run_ffi_none[OF st l]]
      or_else_same[where c = ?c1 and s = s, OF 1] or_else_same[where c = ?c2 and s = s, OF 2] vn shown_def Let_def
    by (cases dm) (auto simp: vn split: option.splits)
qed

section \<open>Printing\<close>

fun stack_of :: "int list \<Rightarrow> (int \<times> string) list" where
  "stack_of [] = []"
| "stack_of (v # bs) = (v, binder_name (length bs)) # stack_of bs"

lemma stack_of_facts [simp]:
  "length (stack_of bs) = length bs" "map_of (stack_of bs) v = map_option binder_name (level_of bs v)"
  by (induction bs) auto
















section \<open>The printer ends\<close>

text \<open>A computation that returns on a state and leaves what the driver holds alone.\<close>

definition ends :: "'o rb \<Rightarrow> ('o, unit) pcomp \<Rightarrow> bool" where
  "ends b c \<longleftrightarrow> (\<forall>s. prb s = b \<longrightarrow> (\<exists>s'. c s = (Inr (), s') \<and> prb s' = b))"

lemma ends_cong: "ends b c \<Longrightarrow> (\<And>s. prb s = b \<Longrightarrow> c' s = c s) \<Longrightarrow> ends b c'"
  by (simp add: ends_def)

lemma ends_basic [simp, intro]: "ends b (emit t)" "ends b q_mark" "ends b d_mark"
  "(\<And>s. prb (g s) = prb s) \<Longrightarrow> ends b (pmodify g)"
  by (simp_all add: ends_def emit_def q_mark_def d_mark_def pmodify_def)

lemma ends_then: "ends b c \<Longrightarrow> ends b c' \<Longrightarrow> ends b (pthen c c')"
  by (fastforce simp: ends_def pthen_def pbind_def)

lemma ends_wire: "(\<And>w. ends b (f w)) \<Longrightarrow> ends b (at_wire p f)"
  by (simp add: ends_def at_wire_def)

lemma ends_node:
  assumes st: "steady X b" and l: "live (bnet b) (node q)" and rec: "\<And>p dm. ends b (rec p (depth + 1) dm)"
  shows "ends b (node_text X rec q depth boxed dm)"
proof -
  have bt: "ends b (binder_text rec (node q) depth)"
    unfolding binder_text_def by (intro ends_then ends_wire rec ends_basic) (simp_all add: pp_push_def)
  have lt: "ends b (lam_text X rec q depth boxed dm)" if "tag (bnet b) (node q) = LAM"
  proof (cases "shown X b q boxed dm")
    case None
    show ?thesis by (rule ends_cong[OF bt]) (use lam_text_steady[where X = X and p = q] st l that None in auto)
  next
    case (Some t)
    show ?thesis by (rule ends_cong[OF ends_basic(1)[of b t]]) (use lam_text_steady[where X = X and p = q] st l that Some in auto)
  qed
  let ?c = "case tag (bnet b) (node q) of
      ROOT \<Rightarrow> at_wire q (\<lambda>w. rec w (depth + 1) dm)
    | ERA \<Rightarrow> emit ''_''
    | DUP \<Rightarrow> at_wire (Port (node q) (if pno q = 0 then 1 else 0)) (\<lambda>w. rec w (depth + 1) dm)
    | APP \<Rightarrow> pthen (emit ''('')
              (pthen (at_wire (Port (node q) 0) (\<lambda>w. rec w (depth + 1) None))
               (pthen (emit '' '')
                (pthen (at_wire (Port (node q) 2) (\<lambda>w. rec w (depth + 1) None)) (emit '')''))))
    | LAM \<Rightarrow> if pno q = 0 then lam_text X rec q depth boxed dm else at_wire q (\<lambda>w. rec w (depth + 1) dm)"
  have "ends b ?c" by (cases "tag (bnet b) (node q)") (auto intro!: ends_then ends_wire rec lt)
  then show ?thesis by (rule ends_cong) (simp add: node_text_def pnet_def)
qed

lemma ends_kept: "ends b (node_text X rec q depth boxed dm) \<Longrightarrow> ends b (kept_text X rec q depth boxed dm)"
  unfolding ends_def
proof (intro allI impI)
  fix s :: "'a pst" assume c: "\<forall>s. prb s = b \<longrightarrow> (\<exists>s'. node_text X rec q depth boxed dm s = (Inr (), s') \<and> prb s' = b)" and s: "prb s = b"
  have "prb (if node q < vis_cap s then s\<lparr>vis := insert (node q) (vis s)\<rparr> else s) = b" using s by simp
  then obtain s1 where "node_text X rec q depth boxed dm (if node q < vis_cap s then s\<lparr>vis := insert (node q) (vis s)\<rparr> else s) = (Inr (), s1)"
    "prb s1 = b" using c by blast
  then show "\<exists>s'. kept_text X rec q depth boxed dm s = (Inr (), s') \<and> prb s' = b"
    using s by (auto simp: kept_text_def pthen_def pbind_def pmodify_def emit_def q_mark_def keep_text_def split: option.split)
qed

lemma print_port_ends: "steady X b \<Longrightarrow> nn (bnet b) + 1 < int k + depth \<Longrightarrow> depth \<le> nn (bnet b) + 1 \<Longrightarrow> ends b (print_port X k p depth dm)"
proof (induction k arbitrary: p depth dm)
  case (Suc k)
  let ?n = "bnet b"
  have f: "ends b (forced_text X (print_port X k) depth boxed dm1 q)" for boxed dm1 q
  proof (cases "?n = ?n \<and> depth \<le> nn ?n \<and> live ?n (node q) \<and> \<not> (tag ?n (node q) = LAM \<and> pno q = 1)")
    case True
    have "ends b (kept_text X (print_port X k) q depth boxed dm1)"
      by (intro ends_kept ends_node Suc.IH) (use Suc.prems True in simp_all)
    then show ?thesis by (rule ends_cong) (use True in \<open>auto simp: forced_text_def pnet_def Let_def live_def\<close>)
  next
    case False
    have "\<exists>s'. forced_text X (print_port X k) depth boxed dm1 q s = (Inr (), s') \<and> prb s' = b" if "prb s = b" for s
      using False that by (auto simp: forced_text_def pnet_def Let_def live_def emit_def q_mark_def d_mark_def pmodify_def split: option.split)
    then show ?thesis by (simp add: ends_def)
  qed
  show ?case unfolding ends_def
  proof (intro allI impI)
    fix s :: "'a pst" assume s: "prb s = b"
    have g: "\<exists>s'. pbind (lift (reading X (\<lambda>W. net_force_val (force W) p))) (forced_text X (print_port X k) depth boxed dm1) s = (Inr (), s') \<and>
        prb s' = b" for p boxed dm1
    proof -
      obtain n1 q where q: "net_force_val (force (rb_world X b)) p ?n = (n1, q)" by fastforce
      then have "n1 = ?n" by (rule force_val_still) (rule steady_rest[OF Suc.prems(1)])
      then have "lift (reading X (\<lambda>W. net_force_val (force W) p)) s = (Inr q, s)" using q s by (intro lift_same) (simp add: reading_def)
      then show ?thesis using f s by (simp add: pbind_def ends_def)
    qed
    then show "\<exists>s'. print_port X (Suc k) p depth dm s = (Inr (), s') \<and> prb s' = b"
      using s by (auto simp: port_text_def q_mark_def pmodify_def split: option.split)
  qed
qed simp

text \<open>C21. The printer ends on every net at rest.  Whatever the wiring, sharing and cycles included, when forcing has
  nothing to fire and no binder is a closure, \<open>print_struct\<close> returns within two calls more than there are nodes
  and leaves the state of the driver as it was.
\<close>

theorem print_total:
  assumes "steady X b" "nat (nn (bnet b)) + 2 \<le> k"
  shows "\<exists>t q d. print_struct X k p dm b = (Inr (t, q, d), b)"
proof -
  have "ends b (print_port X k p 0 dm)"
  proof (cases "0 \<le> nn (bnet b)")
    case True
    then have "nn (bnet b) + 1 < int k + 0" using assms(2) by linarith
    then show ?thesis by (rule print_port_ends[OF assms(1)]) (use True in simp)
  next
    case False
    then have "port_text X rec p 0 dm s = q_mark s" if "prb s = b" for rec s
      using that by (simp add: port_text_def pnet_def in_net_def)
    moreover obtain j where "k = Suc j" using assms(2) by (cases k) simp_all
    ultimately show ?thesis by (intro ends_cong[OF ends_basic(2)]) simp
  qed
  moreover have "prb (print_start b) = b" by (simp add: print_start_def)
  ultimately obtain s where "print_port X k p 0 dm (print_start b) = (Inr (), s)" "prb s = b" unfolding ends_def by blast
  then show ?thesis by (simp add: print_struct_def)
qed

section \<open>Nets given by their wires\<close>

definition table_net :: "ntag list \<Rightarrow> (port \<times> port) list \<Rightarrow> net" where
  "table_net ts ls =
     (let k = int (length ts); ends = ls @ map prod.swap ls in
      (net_blank 64)\<lparr>nn := k, tag := (\<lambda>v. if 0 \<le> v \<and> v < k then ts ! nat v else ERA),
        wire := (\<lambda>p. case map_of ends p of Some q \<Rightarrow> q | None \<Rightarrow> NONE)\<rparr>)"

lemma rest_steady:
  assumes "\<forall>v \<in> set [0..nn n - 1]. tag n v = LAM \<longrightarrow> net_ffi_header n (Port v 0) = None"
  shows "steady rest_env (rest_state n)"
  using assms by (auto simp: steady_def rest_env_def rest_world_def rest_state_def resting_def unboxes_still_def rb_world_def
    live_def in_net_def)

text \<open>\<open>\\f. \\x. s s\<close> where both occurrences of \<open>s = f x\<close> are one application behind a fan.\<close>

definition pair_net :: net where
  "pair_net = table_net [ROOT, LAM, LAM, APP, DUP, APP]
     [(Port 0 0, Port 1 0), (Port 1 2, Port 2 0), (Port 2 2, Port 3 1), (Port 3 0, Port 4 1), (Port 3 2, Port 4 2),
      (Port 4 0, Port 5 1), (Port 5 0, Port 1 1), (Port 5 2, Port 2 1)]"


lemma pair_steady: "steady rest_env (rest_state pair_net)"
  by (rule rest_steady) code_simp



theorem print_total_witness:
  "\<exists>t q d. print_struct rest_env 8 (Port 1 0) None (rest_state pair_net) = (Inr (t, q, d), rest_state pair_net)"
  by (rule print_total[OF pair_steady]) (simp add: rest_state_def pair_net_def table_net_def)

section \<open>Where the kept texts do not fit\<close>

text \<open>\<open>\\f. \\g. t (\\w. t)\<close> with \<open>t = f (\\x. s (\\z. s))\<close> and \<open>s = g x\<close>, both shared: a normal form in which \<open>s\<close> is
  rendered at one depth under two binders \<open>x\<close> of different depths.\<close>

definition knot_net :: net where
  "knot_net = table_net [ROOT, LAM, LAM, APP, LAM, DUP, APP, LAM, APP, LAM, APP, DUP, ERA, ERA]
     [(Port 0 0, Port 1 0), (Port 1 2, Port 2 0), (Port 2 2, Port 3 1), (Port 3 0, Port 5 1), (Port 3 2, Port 4 0),
      (Port 4 1, Port 12 0), (Port 4 2, Port 5 2), (Port 5 0, Port 6 1), (Port 6 0, Port 1 1), (Port 6 2, Port 7 0),
      (Port 7 1, Port 10 2), (Port 7 2, Port 8 1), (Port 8 0, Port 11 1), (Port 8 2, Port 9 0), (Port 9 1, Port 13 0),
      (Port 9 2, Port 11 2), (Port 10 0, Port 2 1), (Port 10 1, Port 11 0)]"

text \<open>The text around the one occurrence in question.\<close>

definition knot_text :: "string \<Rightarrow> string" where
  "knot_text s = ''('' @ [CHR 0x5C] @ ''a ('' @ [CHR 0x5C] @ ''b ((a ('' @ [CHR 0x5C] @ ''c ((b c) ('' @ [CHR 0x5C] @
    ''d (b c))))) ('' @ [CHR 0x5C] @ ''c (a ('' @ [CHR 0x5C] @ ''d ('' @ s @ '' ('' @ [CHR 0x5C] @ ''e (b d)))))))))''"

text \<open>It reads as a term in which \<open>s\<close> takes its own \<open>x\<close>; the printer writes \<open>w\<close> for \<open>x\<close> in the second copy, without a mark.\<close>

lemma knot_reads:
  "map_option (\<lambda>r. rtext 0 (fst r)) (view (shown rest_env (rest_state knot_net)) knot_net 30 {} [] (Port 1 0) None) =
    Some (knot_text ''(b d)'')"
  by code_simp

lemma print_captures:
  "fst (print_struct rest_env 30 (Port 1 0) None (rest_state knot_net)) = Inr (knot_text ''(b c)'', 0, 0)"
  by code_simp

end
