(* ===== verification/StringProps.thy ===== *)
theory StringProps
  imports Effects NumeralProps
begin

text \<open>
  The strings a reader builds: they stand on the net as cells of character codes, and both readers of the runtime
  give the text back.
\<close>

section \<open>Strings on a net\<close>

fun chars_at :: "net \<Rightarrow> port \<Rightarrow> string \<Rightarrow> bool" where
  "chars_at m p [] \<longleftrightarrow> (\<exists>c r. p = Port c 0 \<and> lam_at m c \<and> wire m (Port c 2) = Port r 0 \<and> lam_at m r \<and> wire m (Port r 2) = Port r 1)"
| "chars_at m p (ch # t) \<longleftrightarrow> (\<exists>c r ou ia. p = Port c 0 \<and> lam_at m c \<and> wire m (Port c 2) = Port r 0 \<and> lam_at m r \<and>
     wire m (Port r 2) = Port ou 1 \<and> app_at m ou \<and> wire m (Port ou 0) = Port ia 1 \<and> app_at m ia \<and>
     num_at m (wire m (Port ia 2)) (of_char ch) \<and> chars_at m (wire m (Port ou 2)) t)"

lemma live_card: "adds n m X \<Longrightarrow> card (live_set n) \<le> card (live_set m)"
  by (rule card_mono[OF finite_live_set]) (auto simp: live_set_def adds_def)

lemma num_at_carries: "num_at n q k \<Longrightarrow> carries n m \<Longrightarrow> card (live_set n) \<le> card (live_set m) \<Longrightarrow> num_at m q k"
  using bits_at_carries by (fastforce simp: num_at_def)

lemma chars_at_carries: "chars_at n p t \<Longrightarrow> carries n m \<Longrightarrow> card (live_set n) \<le> card (live_set m) \<Longrightarrow> chars_at m p t"
proof (induction t arbitrary: p)
  case Nil
  obtain c r where b: "p = Port c 0" "lam_at n c" "wire n (Port c 2) = Port r 0" "lam_at n r" "wire n (Port r 2) = Port r 1"
    using Nil.prems(1) by auto
  show ?case unfolding chars_at.simps
    by (rule exI[of _ c], rule exI[of _ r]) (use b carriesD(1,2)[OF Nil.prems(2)] in simp)
next
  case (Cons ch t)
  obtain c r ou ia where b: "p = Port c 0" "lam_at n c" "wire n (Port c 2) = Port r 0" "lam_at n r"
    "wire n (Port r 2) = Port ou 1" "app_at n ou" "wire n (Port ou 0) = Port ia 1" "app_at n ia"
    "num_at n (wire n (Port ia 2)) (of_char ch)" "chars_at n (wire n (Port ou 2)) t" using Cons.prems(1) by auto
  have k: "chars_at m (wire n (Port ou 2)) t" "num_at m (wire n (Port ia 2)) (of_char ch)"
    using Cons.IH[OF b(10) Cons.prems(2,3)] num_at_carries[OF b(9) Cons.prems(2,3)] by simp_all
  show ?case unfolding chars_at.simps
    by (rule exI[of _ c], rule exI[of _ r], rule exI[of _ ou], rule exI[of _ ia])
      (use b k carriesD[OF Cons.prems(2)] in simp)
qed

lemma num_at_adds: "num_at n q k \<Longrightarrow> adds n m X \<Longrightarrow> heads n X \<Longrightarrow> num_at m q k"
  by (rule num_at_carries[OF _ adds_carries live_card])

lemma chars_at_adds: "chars_at n p t \<Longrightarrow> adds n m X \<Longrightarrow> heads n X \<Longrightarrow> chars_at m p t"
  by (rule chars_at_carries[OF _ adds_carries live_card])

section \<open>Building\<close>

lemma string_nil_spec:
  assumes ok: "net_ok n" and E: "\<not> in_parallel E" and r: "string_nil E n = (m, p)"
  shows "adds n m {}" "chars_at m p []" "open_at n m p"
proof -
  obtain n1 c n2 d where s: "net_alloc E LAM 0 n = (n1, c)" "net_alloc E LAM 0 n1 = (n2, d)"
    and m: "m = link_all E [(Port c 2, Port d 0), (Port d 2, Port d 1)] n2" and p: "p = Port c 0"
    using r by (auto simp: string_nil_def split: prod.splits)
  note s1 = stocked_alloc[OF stocked_start[OF ok] E _ s(1), simplified]
  note s2 = stocked_alloc[OF s1(1) E _ s(2), simplified, unfolded stocked_def]
  have fr: "fresh_at LAM n2 d" "fresh_at LAM n2 c" "\<not> live n d" "\<not> live n c" "d \<noteq> c" and A: "adds n n2 {}" using s2 by auto
  let ?ls = "[(Port c 2, Port d 0), (Port d 2, Port d 1)]"
  have "free_ends n2 ?ls" unfolding free_ends_def using fr by (auto simp: fresh_at_def)
  note l = adds_links[OF addsD(1)[OF A] E this, folded m]
  have w: "wire m (Port c 2) = Port d 0" "wire m (Port d 2) = Port d 1" "wire m (Port c 0) = NONE"
    using l fr by (auto simp: link_ends_pair fresh_at_def)
  have lm: "lam_at m c" "lam_at m d" using l fr by (auto simp: lam_at_def fresh_at_def)
  show "chars_at m p []" unfolding chars_at.simps by (rule exI[of _ c], rule exI[of _ d]) (use w lm p in simp)
  show "open_at n m p" using w lm fr p by (simp add: open_at_def)
  have "adds n m (set (map fst ?ls @ map snd ?ls))" using adds_trans[OF A, of m] l by simp
  then show "adds n m {}" by (elim adds_cut) (use fr in auto)
qed

lemma string_cell_spec:
  assumes b: "chars_at n cur t" "open_at n0 n cur" "adds n0 n {}" and E: "\<not> in_parallel E"
    and r: "string_cell E ch (n, cur) = (m, p)"
  shows "chars_at m p (ch # t)" "open_at n0 m p" "adds n0 m {}" "live_set n \<subset> live_set m"
proof -
  have ok: "net_ok n" using b(3) by (simp add: adds_def)
  let ?ls = "\<lambda>c d ia ou q. [(Port c 2, Port d 0), (Port ia 0, Port c 1), (Port ia 2, q), (Port ou 0, Port ia 1), (Port ou 2, cur),
                     (Port d 2, Port ou 1)]"
  obtain n1 q n2 c n3 d n4 ia n5 ou where s: "net_alloc_scott E (of_char ch) n = (n1, q)" "net_alloc E LAM 0 n1 = (n2, c)"
    "net_alloc E LAM 0 n2 = (n3, d)" "net_alloc E APP 0 n3 = (n4, ia)" "net_alloc E APP 0 n4 = (n5, ou)"
    and m: "m = link_all E (?ls c d ia ou q) n5" and p: "p = Port c 0"
    using r by (auto simp: string_cell_def split: prod.splits)
  note nu = alloc_scott_spec[OF ok E _ s(1)[unfolded net_alloc_scott_def], simplified]
  have num: "num_at n1 q (of_char ch)" using nu by (simp add: num_at_def)
  note ok1 = addsD(1)[OF nu(1)]
  note s2 = stocked_alloc[OF stocked_start[OF ok1] E _ s(2), simplified]
  note s3 = stocked_alloc[OF s2(1) E _ s(3), simplified]
  note s4 = stocked_alloc[OF s3(1) E _ s(4), simplified]
  note s5 = stocked_alloc[OF s4(1) E _ s(5), simplified, unfolded stocked_def]
  have n15: "adds n1 n5 {}" and fr: "fresh_at APP n5 ou" "fresh_at APP n5 ia" "fresh_at LAM n5 d" "fresh_at LAM n5 c"
    "\<not> live n1 ou" "\<not> live n1 ia" "\<not> live n1 d" "\<not> live n1 c" and ds: "distinct [ou, ia, d, c]"
    using s5(1) by auto
  obtain u where u: "cur = Port u 0" "lam_at n u" "wire n cur = NONE" "\<not> live n0 u"
    using b(2) by (cases cur) (auto simp: open_at_def)
  obtain v where v: "q = Port v 0" "lam_at n1 v" "wire n1 q = NONE" "\<not> live n v"
    using nu(2) by (cases q) (auto simp: open_at_def)
  have u1: "lam_at n1 u" "wire n1 cur = NONE" using adds_lam(1)[OF nu(1) u(2)] addsD(5)[OF nu(1)] u by (simp_all add: lam_at_def)
  have uv: "u \<noteq> v" using u(2) v(4) by (auto simp: lam_at_def)
  have u5: "lam_at n5 u" "wire n5 cur = NONE" "lam_at n5 v" "wire n5 q = NONE"
    using adds_lam(1)[OF n15] addsD(5)[OF n15] u1 v u(1) by (auto simp: lam_at_def)
  have ne: "u \<notin> {ou, ia, d, c}" "v \<notin> {ou, ia, d, c}" using fr u1 v(2) by (auto simp: lam_at_def)
  have "free_ends n5 (?ls c d ia ou q)" unfolding free_ends_def using fr ds u5 ne uv u(1) v(1) by (auto simp: fresh_at_def lam_at_def)
  note l = adds_links[OF addsD(1)[OF n15] E this, folded m]
  have wm: "wire m (Port c 2) = Port d 0" "wire m (Port d 2) = Port ou 1" "wire m (Port ou 0) = Port ia 1"
    "wire m (Port ou 2) = cur" "wire m (Port ia 2) = q" "wire m (Port c 0) = NONE"
    using l ds ne uv u(1) v(1) fr by (auto simp: link_ends_pair fresh_at_def)
  have lm: "lam_at m c" "lam_at m d" "app_at m ou" "app_at m ia" using l fr by (auto simp: lam_at_def app_at_def fresh_at_def)
  have n1m: "adds n1 m {cur, q}"
  proof -
    have "adds n1 m (set (map fst (?ls c d ia ou q) @ map snd (?ls c d ia ou q)))" using adds_trans[OF n15, of m] l by simp
    then show ?thesis by (elim adds_cut) (use fr in auto)
  qed
  have nm: "adds n m {cur}"
  proof -
    have "adds n m {cur, q}" using adds_trans[OF nu(1) n1m] by simp
    then show ?thesis by (elim adds_cut) (use v in auto)
  qed
  have "heads n {cur}" "heads n1 {cur, q}" using u u1 v by (simp_all add: heads_def)
  then have "chars_at m cur t" "num_at m q (of_char ch)" using chars_at_adds[OF b(1) nm] num_at_adds[OF num n1m] by blast+
  then show "chars_at m p (ch # t)" unfolding chars_at.simps
    by (intro exI[of _ c] exI[of _ d] exI[of _ ou] exI[of _ ia]) (use wm lm p in simp)
  have nc: "\<not> live n c" using fr(8) addsD(3)[OF nu(1)] by blast
  then have "\<not> live n0 c" using addsD(3)[OF b(3)] by blast
  then show "open_at n0 m p" using wm(6) lm(1) p by (simp add: open_at_def)
  have "adds n0 m {cur}" using adds_trans[OF b(3) nm] by simp
  then show "adds n0 m {}" by (elim adds_cut) (use u in auto)
  show "live_set n \<subset> live_set m" using addsD(3)[OF nm] nc lm(1) by (auto simp: live_set_def lam_at_def)
qed

lemma alloc_string_spec:
  assumes ok: "net_ok n" and E: "\<not> in_parallel E"
  shows "net_alloc_string E t n = (m, p) \<Longrightarrow> adds n m {} \<and> open_at n m p \<and> chars_at m p t \<and> length t < card (live_set m)"
  unfolding net_alloc_string_def
proof (induction t arbitrary: m p)
  case Nil
  then have r: "string_nil E n = (m, p)" by simp
  note sn = string_nil_spec[OF ok E r]
  have "node p \<in> live_set m" using sn(3) by (simp add: open_at_def lam_at_def live_set_def)
  then have "0 < card (live_set m)" using card_gt_0_iff finite_live_set by blast
  then show ?case using sn by simp
next
  case (Cons ch t)
  obtain k cur where c: "foldl (\<lambda>s ch. string_cell E ch s) (string_nil E n) (rev t) = (k, cur)" by fastforce
  have s: "string_cell E ch (k, cur) = (m, p)" using Cons.prems c by simp
  note i = Cons.IH[OF c]
  note sc = string_cell_spec[of k cur t n, OF _ _ _ E s]
  have "card (live_set k) < card (live_set m)" by (rule psubset_card_mono[OF finite_live_set sc(4)]) (use i in simp_all)
  then show ?case using sc i by simp
qed

section \<open>Room\<close>

text \<open>How far the node count may move.\<close>

lemma nn_alloc: "net_alloc E t sc n = (m, v) \<Longrightarrow> nn m \<le> nn n + 1"
  by (auto simp: net_alloc_def alloc_slot_def net_ensure_cap_def Let_def split: if_splits)

lemma nn_level: "net_scope_app s br n = (m, g) \<Longrightarrow> nn m = nn n"
  by (auto simp: net_scope_app_def split: prod.splits)

lemma nn_links [simp]: "nn (link_all E ls n) = nn n" "nn (net_link E p q False n) = nn n"
proof -
  show l: "nn (net_link E p q False n) = nn n" for p q n by (simp add: net_link_def Let_def set_wire_def)
  show "nn (link_all E ls n) = nn n" by (induction ls arbitrary: n) (auto simp: link_all_def l)
qed

lemma nn_bool: "net_alloc_bool E b n = (m, q) \<Longrightarrow> nn m \<le> nn n + 2"
  by (auto simp: net_alloc_bool_def split: prod.splits dest!: nn_alloc)

lemma nn_nil: "scott_nil E lv n = (m, q) \<Longrightarrow> nn m \<le> nn n + 4"
  by (auto simp: scott_nil_def split: prod.splits dest!: nn_alloc nn_bool nn_level)

lemma nn_cell: "scott_cell E lv b (n, cur) = (m, q) \<Longrightarrow> nn m \<le> nn n + 6"
  by (auto simp: scott_cell_def split: prod.splits dest!: nn_alloc nn_bool nn_level)

lemma nn_scott:
  assumes "net_alloc_scott E k n = (m, q)"
  shows "nn m \<le> nn n + 376"
proof -
  let ?f = "\<lambda>s b. scott_cell E 0 (bit (signed_drop_bit b k) 0) s"
  have "nn (fst (foldl ?f s bs)) \<le> nn (fst s) + 6 * int (length bs)" for s bs
  proof (induction bs rule: rev_induct)
    case (snoc b bs)
    obtain n1 c m1 c1 where "foldl ?f s bs = (n1, c)" "?f (n1, c) b = (m1, c1)" by (metis surj_pair)
    then show ?case using snoc nn_cell[of E 0 "bit (signed_drop_bit b k) 0" n1 c m1 c1] by simp
  qed simp
  from this[of "scott_nil E 0 n" "rev [0..<scott_width k]"]
  have "nn m \<le> nn (fst (scott_nil E 0 n)) + 6 * int (scott_width k)"
    using assms by (simp add: net_alloc_scott_def alloc_scott_def)
  moreover have "nn (fst (scott_nil E 0 n)) \<le> nn n + 4" using nn_nil[of E 0 n] by (metis fst_conv surj_pair)
  ultimately show ?thesis using scott_width_spec(1)[of k] by linarith
qed

lemma nn_char: "string_cell E ch (n, cur) = (m, q) \<Longrightarrow> nn m \<le> nn n + 380"
  by (auto simp: string_cell_def split: prod.splits dest!: nn_alloc nn_scott)

lemma nn_string: "net_alloc_string E t n = (m, p) \<Longrightarrow> nn m \<le> nn n + 2 + 380 * int (length t)"
  unfolding net_alloc_string_def
proof (induction t arbitrary: m p)
  case Nil
  then show ?case by (auto simp: string_nil_def split: prod.splits dest!: nn_alloc)
next
  case (Cons ch t)
  obtain k cur where c: "foldl (\<lambda>s ch. string_cell E ch s) (string_nil E n) (rev t) = (k, cur)" by fastforce
  then show ?case using Cons.IH[OF c] Cons.prems nn_char[of E ch k cur m p] by simp
qed

section \<open>Reading\<close>

lemma char_word:
  fixes ch :: char
  shows "(of_char ch :: long) AND mask 62 = of_char ch" "char_of (unat (of_char ch :: long)) = ch" "\<not> 255 <s (of_char ch :: long)"
    "ch \<noteq> CHR 0x00 \<Longrightarrow> 0 <s (of_char ch :: long)" "(of_char ch :: long) <s 256"
proof -
  have l: "(of_char ch :: nat) < 256" by (rule nat_of_char_less_256)
  have l64: "(of_char ch :: nat) < 2 ^ 63" by (rule order.strict_trans[OF l]) simp
  then have "unat (of_nat (of_char ch) :: long) = of_char ch"
    by (simp add: unsigned_of_nat take_bit_nat_eq_self_iff del: nat_of_char_less_256)
  then have u: "unat (of_char ch :: long) = of_char ch" by (simp add: of_nat_of_char)
  show "char_of (unat (of_char ch :: long)) = ch" unfolding u by simp
  have "uint (of_char ch :: long) = int (unat (of_char ch :: long))" by simp
  then have "uint (of_char ch :: long) = int (of_char ch)" by (simp only: u)
  then have s: "sint (of_char ch :: long) = int (of_char ch)"
    using l64 by (simp add: sint_uint signed_take_bit_int_eq_self del: nat_of_char_less_256)
  have c: "sint (255 :: long) = 255" "sint (256 :: long) = 256" by simp_all
  show "\<not> 255 <s (of_char ch :: long)" "(of_char ch :: long) <s 256" unfolding word_sless_alt s c using l by linarith+
  show "0 <s (of_char ch :: long)" if "ch \<noteq> CHR 0x00"
  proof -
    have "of_char ch \<noteq> (0 :: nat)"
    proof
      assume "of_char ch = (0 :: nat)"
      then have "char_of (of_char ch :: nat) = char_of (0 :: nat)" by simp
      then show False using that unfolding char_of_char by (simp add: char_of_def)
    qed
    then have "0 < int (of_char ch)" by linarith
    then show ?thesis by (simp add: word_sless_alt s)
  qed
  have "take_bit 62 (of_char ch :: long) = of_char ch"
  proof (rule bit_word_eqI)
    fix j assume "j < LENGTH(64)"
    have "\<not> bit (of_char ch :: long) j" if "62 \<le> j"
    proof
      assume "bit (of_char ch :: long) j"
      then have "bit (unat (of_char ch :: long)) j" by (simp add: bit_unsigned_iff)
      then have "(2 :: nat) ^ j \<le> of_char ch" unfolding u by (simp add: bit_iff_odd) (metis div_less even_zero not_le)
      moreover have "(2 :: nat) ^ 62 \<le> 2 ^ j" using that by (intro power_increasing) simp_all
      ultimately show False using l by simp
    qed
    then show "bit (take_bit 62 (of_char ch :: long)) j = bit (of_char ch :: long) j" by (auto simp: bit_take_bit_iff not_le[symmetric])
  qed
  then show "(of_char ch :: long) AND mask 62 = of_char ch" by (simp add: take_bit_eq_mask)
qed

lemma cons_layer_end:
  assumes rest: "resting frc m" and b: "chars_at m p []"
  shows "cons_layer frc p m = (m, Some Terminal)" "net_read_cell frc p m = (m, None)"
proof -
  obtain c r where b: "p = Port c 0" "lam_at m c" "wire m (Port c 2) = Port r 0" "lam_at m r" "wire m (Port r 2) = Port r 1"
    using b by auto
  have t: "two_lams frc False p m = (m, Some (Port c 0, Port r 0))" unfolding b(1) by (rule two_lams_at[OF rest b(2,3,4)])
  have w: "body_of frc False (Port r 0) m = (m, Port r 1)" using body_at[OF rest, of r False] b(4,5) by simp
  show "net_read_cell frc p m = (m, None)" using lam_not_app[OF b(4)] by (simp add: net_read_cell_def cell_layer_def t w tag_at)
  then show "cons_layer frc p m = (m, Some Terminal)"
    using b(4) by (simp add: cons_layer_def nil_layer_def t w tag_at flip: net_read_cell_def)
qed

lemma cons_layer_char:
  assumes rest: "resting frc m" and b: "chars_at m p (ch # t)"
  shows "\<exists>q cur. cons_layer frc p m = (m, Some (Inductive q cur)) \<and> net_read_cell frc p m = (m, Some (q, cur)) \<and>
    num_at m q (of_char ch) \<and> chars_at m cur t"
proof -
  obtain c r ou ia where b: "p = Port c 0" "lam_at m c" "wire m (Port c 2) = Port r 0" "lam_at m r"
    "wire m (Port r 2) = Port ou 1" "app_at m ou" "wire m (Port ou 0) = Port ia 1" "app_at m ia"
    "num_at m (wire m (Port ia 2)) (of_char ch)" "chars_at m (wire m (Port ou 2)) t" using b by auto
  have u: "two_lams frc False p m = (m, Some (Port c 0, Port r 0))" unfolding b(1) by (rule two_lams_at[OF rest b(2,3,4)])
  have w: "body_of frc False (Port r 0) m = (m, Port ou 1)" using body_at[OF rest, of r False] b(5,6) by simp
  have h: "hop frc False (Port ia 1) m = (m, Port ia 1)" by (rule hop_at_rest[OF rest]) (simp add: b(8))
  have "cell_layer frc p m = (m, Some (wire m (Port ia 2), wire m (Port ou 2)))"
    using b(6,7,8) by (simp add: cell_layer_def u w h[unfolded One_nat_def] tag_at)
  then show ?thesis using b(9,10) by (simp add: cons_layer_def net_read_cell_def)
qed

lemma string_loop_at:
  assumes rest: "resting frc m"
  shows "chars_at m p t \<Longrightarrow> int (i + length t) < nn m \<Longrightarrow> int (i + length t) < max_nodes \<Longrightarrow> CHR 0x00 \<notin> set t \<Longrightarrow>
    string_loop frc ENC_NUM (int i) buf p m = (m, Some (buf @ t))"
proof (induction t arbitrary: i buf p)
  case Nil
  then show ?case using cons_layer_end(1)[OF rest Nil.prems(1)] by (subst string_loop.simps) simp
next
  case (Cons ch t)
  obtain q cur where c: "cons_layer frc p m = (m, Some (Inductive q cur))" "num_at m q (of_char ch)" "chars_at m cur t"
    using cons_layer_char[OF rest Cons.prems(1)] by blast
  have a: "add_char (of_char ch) buf = buf @ [ch]"
    using char_word(4)[of ch] char_word(2,5)[of ch] Cons.prems(4) by (auto simp: add_char_def)
  have "string_loop frc ENC_NUM (int (Suc i)) (buf @ [ch]) cur m = (m, Some ((buf @ [ch]) @ t))"
    by (rule Cons.IH[OF c(3)]) (use Cons.prems in simp_all)
  then show ?case using Cons.prems(2,3)
    by (subst string_loop.simps) (simp add: c(1) read_num_at[OF rest c(2)] char_word(1) a add.commute)
qed

lemma determined_loop_at:
  assumes rest: "resting frc m"
  shows "chars_at m p t \<Longrightarrow> int (i + length t) < nn m \<Longrightarrow> int (i + length t) < max_nodes \<Longrightarrow> CHR 0x00 \<notin> set t \<Longrightarrow>
    determined_loop frc (int i) buf p m = (m, if buf @ t = [] then None else Some (buf @ t))"
proof (induction t arbitrary: i buf p)
  case Nil
  have "0 < nn m" using Nil.prems(2) by simp
  then have "net_read_int frc p ENC_STR m = (m, 0)" using cons_layer_end(1)[OF rest Nil.prems(1)]
    unfolding net_read_int_def by (subst count_loop.simps) (simp add: enc_layer_def max_nodes_def)
  then show ?case using Nil cons_layer_end(2)[OF rest Nil.prems(1)] by (subst determined_loop.simps) simp
next
  case (Cons ch t)
  obtain q cur where c: "net_read_cell frc p m = (m, Some (q, cur))" "num_at m q (of_char ch)" "chars_at m cur t"
    using cons_layer_char[OF rest Cons.prems(1)] by blast
  have a: "0 <s (of_char ch :: long)" using char_word(4)[of ch] Cons.prems(4) by auto
  then have "\<not> (of_char ch :: long) \<le>s 0" by (simp add: word_sless_alt word_sle_eq)
  then have "\<not> ((of_char ch :: long) \<le>s 0 \<or> 255 <s (of_char ch :: long))" using char_word(3) by blast
  moreover have "determined_loop frc (int (Suc i)) (buf @ [ch]) cur m = (m, Some ((buf @ [ch]) @ t))"
    using Cons.IH[OF c(3), of "Suc i" "buf @ [ch]"] Cons.prems by simp
  ultimately show ?case using Cons.prems(2,3)
    by (subst determined_loop.simps) (simp add: c(1) read_num_at[OF rest c(2)] char_word(1,2) add.commute)
qed

text \<open>C24. Strings round trip.  On a net that satisfies the invariant \<open>net_alloc_string\<close> adds a string without touching a
  node or wire that was there and keeps the invariant and the queue complete.  On the net it leaves, when there was room for
  at most 380 nodes a character and forcing has nothing to fire, \<open>net_read_string_arena\<close> gives exactly the text
  back when it holds no NUL, and \<open>str_determined\<close>, which reads without an expectation, does so unless it is empty.
\<close>

theorem string_round_trip:
  assumes "net_ok n" "\<not> in_parallel E" "net_alloc_string E t n = (m, p)" "resting frc m" "CHR 0x00 \<notin> set t"
    "nn n + 2 + 380 * int (length t) \<le> max_nodes"
  shows "net_read_string_arena frc p ENC_NUM m = (m, Some t) \<and>
    str_determined frc p m = (m, if t = [] then None else Some t) \<and> net_ok m \<and> adds n m {}"
proof -
  have a: "adds n m {}" "chars_at m p t" "length t < card (live_set m)" using alloc_string_spec[OF assms(1,2,3)] by blast+
  then have "int (0 + length t) < nn m" "nn m \<le> max_nodes"
    using live_bound[of m] nn_string[OF assms(3)] assms(6) by linarith+
  then show ?thesis using string_loop_at[OF assms(4) a(2), of 0 "[]"] determined_loop_at[OF assms(4) a(2), of 0 "[]"] assms(5) a(1)
    by (simp add: net_read_string_arena_def str_determined_def adds_def)
qed

theorem string_round_trip_witness:
  "\<exists>m p. net_alloc_string seq_env ''hi'' beta_net = (m, p) \<and>
     net_read_string_arena (\<lambda>n q. n) p ENC_NUM m = (m, Some ''hi'')"
proof -
  obtain m p where r: "net_alloc_string seq_env ''hi'' beta_net = (m, p)" by fastforce
  have "nn beta_net = 4" by (simp add: beta_net_def demo_links_def beta_links_def demo_eval net_link_def act_push_def)
  then have "nn beta_net + 2 + 380 * int (length ''hi'') \<le> max_nodes" by (simp add: max_nodes_def)
  moreover have "resting (\<lambda>n q. n) m" by (simp add: resting_def)
  ultimately show ?thesis using string_round_trip[OF beta_net_ok(1) seq_env_simps(1) r] r by simp
qed

end
