(* ===== verification/EffectProps.thy ===== *)
theory EffectProps
  imports ReadingStill StringProps PatternRun
begin

text \<open>
  What the loop of effects does with a program that prints: the effect is recognised whatever its payloads are,
  the message is decoded without an expectation, and the program goes on with what follows.
\<close>

section \<open>A string is nothing else\<close>

lemma no_box:
  assumes l: "lam_at m c" "wire m (Port c 2) = Port r 0" "lam_at m r" "wire m (Port r 2) = Port ou 1" "lam_at m ou \<or> app_at m ou"
    and nn: "0 \<le> nn m"
  shows "lin_pat_box m (Port c 0) = None"
proof -
  have s: "skip_dup m (Port c 0) = Port c 0" "skip_dup m (Port r 0) = Port r 0" "skip_dup m (Port ou 1) = Port ou 1"
    using l skip_at[of m "Port c 0"] skip_at[of m "Port r 0"] skip_at[of m "Port ou 1"] by simp_all
  have lv: "live m c" "tag m c = LAM" "live m r" "tag m r = LAM" using l by (auto simp: lam_at_def)
  have n: "run m (LIN_BOX_PAT x y) (Port c 0) Map.empty = None" for x y
    using l(2,4) by (simp add: LIN_BOX_PAT_def P_all3_def pat_binds_def s s[unfolded One_nat_def] lv)
  have "\<not> fst (lin_pat_match m (Port c 0) (LIN_BOX_PAT x y) (pat_budget m))" for x y
    using match_run[OF box_simple(1)[of x y] box_simple(2-4) nn, of "Port c 0"] n[of x y] by simp
  then show ?thesis
    by (auto simp: lin_pat_box_def lin_pat_enc_num_box_def lin_pat_enc_bool_box_def split: prod.splits bool.splits) (metis fst_conv)+
qed

lemma chars_no_box: "chars_at m p t \<Longrightarrow> 0 \<le> nn m \<Longrightarrow> lin_pat_box m p = None"
  by (cases t) (auto intro: no_box)

text \<open>No boolean, so no numeral: the head of a cell is a numeral.\<close>

lemma bits_no_bool:
  assumes rest: "resting frc m" and b: "bits_at m q bs" "0 < length bs" and nn: "0 < nn m"
  shows "read_bool frc q m = (m, - 1)"
proof -
  obtain x xs where bs: "bs = x # xs" using b(2) by (cases bs) auto
  obtain c r ou where l: "q = Port c 0" "lam_at m c" "wire m (Port c 2) = Port r 0" "lam_at m r" "wire m (Port r 2) = Port ou 1" "app_at m ou"
    using b(1) unfolding bs by auto
  have ne: "ou \<noteq> c" "ou \<noteq> r" using l lam_not_app by auto
  have "sel_layer frc second q m = (m, False)" for second
    using l ne by (simp add: sel_layer_def two_lams_at[OF rest l(2,3,4)] body_at[OF rest])
  then have "enc_layer frc ENC_BOOL q m = (m, None)" by (simp add: enc_layer_def)
  then show ?thesis using nn unfolding read_bool_def by (subst count_loop.simps) (simp add: max_nodes_def)
qed

lemma width_pos: "1 \<le> scott_width k"
proof -
  have "w \<le> width_loop f w k" for f w by (induction f arbitrary: w) (auto intro: Suc_leD)
  then show ?thesis unfolding scott_width_def .
qed

lemma chars_no_num:
  assumes rest: "resting frc m" and c: "chars_at m p t" and nn: "0 < nn m"
  shows "net_read_int frc p ENC_NUM m = (m, - 1)"
proof -
  have "bits_loop frc 0 0 p m = (m, 0, 0)"
  proof (cases t)
    case Nil
    then show ?thesis using cons_layer_end(1)[OF rest] c nn by (subst bits_loop.simps) (simp add: max_nodes_def)
  next
    case (Cons ch u)
    then obtain q cur where q: "cons_layer frc p m = (m, Some (Inductive q cur))" "num_at m q (of_char ch)"
      using cons_layer_char[OF rest] c by blast
    have "read_bool frc q m = (m, - 1)"
      by (rule bits_no_bool[OF rest]) (use q(2) nn width_pos[of "of_char ch"] in \<open>auto simp: num_at_def\<close>)
    then show ?thesis using q(1) nn by (subst bits_loop.simps) (simp add: max_nodes_def)
  qed
  then show ?thesis by (simp add: net_read_int_def net_read_bits_def)
qed

text \<open>What is decoded from it without an expectation.\<close>

definition unboxes_none :: "world \<Rightarrow> net \<Rightarrow> bool" where
  "unboxes_none W m \<longleftrightarrow> (\<forall>p. unbox W p m = (m, None))"

lemma value_any_string:
  assumes rest: "resting (force W) m" and c: "chars_at m p t" "t \<noteq> []" "CHR 0x00 \<notin> set t"
    and nn: "int (length t) < nn m" "nn m \<le> max_nodes" and ub: "unboxes_none W m"
  shows "value_any W p m = (m, V_str t)"
proof -
  have n: "0 < nn m" using nn(1) by linarith
  have b: "box_read d e W p m = (m, None)" for d e using chars_no_box[OF c(1)] n by (simp add: box_read_def)
  have f: "net_read_float W p m = (m, None)" using ub by (simp add: net_read_float_def unboxes_none_def)
  have s: "str_determined (force W) p m = (m, Some t)"
    using determined_loop_at[OF rest c(1), of 0 "[]"] c(2,3) nn by (simp add: str_determined_def)
  show ?thesis by (simp add: value_any_def box_num_def box_bool_def b f chars_no_num[OF rest c(1) n] s)
qed

text \<open>A cell has the shape of a closure's header, with the character as the name; read as a name it is empty.\<close>

lemma bool_no_num:
  assumes rest: "resting frc m" and b: "bool_at m q b" and nn: "0 < nn m"
  shows "net_read_int frc q ENC_NUM m = (m, - 1)"
proof -
  obtain t f where b: "q = Port t 0" "lam_at m t" "lam_at m f" "wire m (Port t 2) = Port f 0"
    "wire m (Port f 2) = Port (if b then t else f) 1" using b unfolding bool_at_def by blast
  have t: "two_lams frc False q m = (m, Some (Port t 0, Port f 0))" unfolding b(1) by (rule two_lams_at[OF rest b(2,4,3)])
  have w: "body_of frc False (Port f 0) m = (m, Port (if b then t else f) 1)" using body_at[OF rest, of f False] b(2,3,5) by simp
  have "cons_layer frc q m = (m, Some Terminal)"
    using b(2,3) lam_not_app by (simp add: cons_layer_def cell_layer_def nil_layer_def t w tag_at split: if_splits)
  then have "bits_loop frc 0 0 q m = (m, 0, 0)" using nn by (subst bits_loop.simps) (simp add: max_nodes_def)
  then show ?thesis by (simp add: net_read_int_def net_read_bits_def)
qed

lemma name_of_bits:
  assumes rest: "resting frc m"
  shows "bits_at m q bs \<Longrightarrow> int (i + length bs) < nn m \<Longrightarrow> i + length bs < 100 \<Longrightarrow>
    string_loop frc ENC_NUM (int i) [] q m = (m, Some [])"
proof (induction bs arbitrary: i q)
  case Nil
  then show ?case using cons_layer_nil[OF rest Nil.prems(1)] by (subst string_loop.simps) (simp add: max_nodes_def)
next
  case (Cons b bs)
  obtain h cur where c: "cons_layer frc q m = (m, Some (Inductive h cur))" "bool_at m h b" "bits_at m cur bs"
    using cons_layer_cell[OF rest Cons.prems(1)] by blast
  have r: "net_read_int frc h ENC_NUM m = (m, - 1)" by (rule bool_no_num[OF rest c(2)]) (use Cons.prems(2) in simp)
  have "add_char (- 1) [] = []" by (simp add: add_char_def word_sless_alt)
  moreover have "string_loop frc ENC_NUM (int (Suc i)) [] cur m = (m, Some [])"
    by (rule Cons.IH[OF c(3)]) (use Cons.prems in simp_all)
  ultimately show ?case using Cons.prems(2,3) by (subst string_loop.simps) (simp add: c(1) r max_nodes_def add.commute)
qed

lemma hop_none: "lam_at m (node p) \<or> app_at m (node p) \<Longrightarrow> dup_hop m p = p"
proof -
  have "cross_loop k m p = p" if "lam_at m (node p) \<or> app_at m (node p)" for k
    using that by (cases k) (auto simp: is_tag_def lam_at_def app_at_def)
  then show "lam_at m (node p) \<or> app_at m (node p) \<Longrightarrow> dup_hop m p = p" by (simp add: dup_hop_def)
qed

lemma string_no_call:
  assumes rest: "resting (force (fworld X)) (bnet s)" and c: "chars_at (bnet s) p t" "t \<noteq> []"
  shows "run_ffi X p s = (Inr V_none, s)"
proof -
  let ?m = "bnet s"
  obtain ch u where t: "t = ch # u" using c(2) by (cases t) auto
  obtain v r ou ia where b: "p = Port v 0" "lam_at ?m v" "wire ?m (Port v 2) = Port r 0" "lam_at ?m r"
    "wire ?m (Port r 2) = Port ou 1" "app_at ?m ou" "wire ?m (Port ou 0) = Port ia 1" "app_at ?m ia"
    "num_at ?m (wire ?m (Port ia 2)) (of_char ch)" using c(1) unfolding t by auto
  have sk: "skip_dup ?m p = p" using skip_at[of ?m p] b(1,2) by simp
  have h: "dup_hop ?m (Port r 0) = Port r 0" "dup_hop ?m (Port ou 1) = Port ou 1"
    using hop_none[of ?m "Port r 0"] hop_none[of ?m "Port ou 1"] b(4,6) by simp_all
  have hd: "net_ffi_header ?m p = None \<or> net_ffi_header ?m p = Some (Port ia 1, wire ?m (Port ou 2))"
    using b h by (simp add: net_ffi_header_def Let_def h[unfolded One_nat_def])
  have r2: "resting (force (rb_world X s)) ?m" using rest by (simp add: rb_world_def)
  let ?w = "scott_width (of_char ch :: long)"
  have n: "bits_at ?m (wire ?m (Port ia 2)) (map (\<lambda>b. bit (signed_drop_bit b (of_char ch :: long)) 0) [0..<?w])" "?w < card (live_set ?m)"
    using b(9) by (simp_all add: num_at_def)
  have "int ?w < nn ?m" using n(2) live_bound[of ?m] by linarith
  moreover have "?w \<le> 62" by (rule scott_width_spec)
  ultimately have "net_read_string_arena (force (rb_world X s)) (wire ?m (Port ia 2)) ENC_NUM ?m = (?m, Some [])"
    unfolding net_read_string_arena_def using name_of_bits[OF r2 n(1), of 0] by simp
  moreover have "0 \<le> ia" "tag ?m ia = APP" using b(8) by (auto simp: app_at_def live_def in_net_def)
  moreover have "Port (node p) 0 = p" using b(1) by simp
  ultimately show ?thesis using hd by (auto simp: run_ffi_def sk Let_def pbind_def reading_def pret_def)
qed

section \<open>Effects\<close>

text \<open>The spine of an effect, last payload first, down to the code.\<close>

fun eff_spine :: "net \<Rightarrow> int \<Rightarrow> port \<Rightarrow> port list \<Rightarrow> port \<Rightarrow> bool" where
  "eff_spine m l cur [] code \<longleftrightarrow> (\<exists>a. cur = Port a 1 \<and> app_at m a \<and> wire m (Port a 0) = Port l 1 \<and> wire m (Port a 2) = code)"
| "eff_spine m l cur (p # ps) code \<longleftrightarrow> (\<exists>a b. cur = Port a 1 \<and> app_at m a \<and> wire m (Port a 2) = p \<and>
     wire m (Port a 0) = Port b 1 \<and> app_at m b \<and> eff_spine m l (Port b 1) ps code)"

lemma dig_spine:
  assumes rest: "resting frc m" and l: "lam_at m l" and e: "num_at m code k" "eff_of (k AND mask 62) = Some e"
  shows "eff_spine m l cur ps code \<Longrightarrow> length ps < j \<Longrightarrow> length ps + length pays = eff_pay e \<Longrightarrow>
    dig_loop frc j l pays cur m = (m, Some (e, rev ps @ pays))"
proof (induction ps arbitrary: j cur pays)
  case Nil
  obtain a where a: "cur = Port a 1" "app_at m a" "wire m (Port a 0) = Port l 1" "wire m (Port a 2) = code" using Nil.prems(1) by auto
  obtain j' where j: "j = Suc j'" using Nil.prems(2) by (cases j) auto
  have sk: "skip_dup m (Port l 1) = Port l 1" using skip_at[of m "Port l 1"] l by simp
  show ?case using a Nil.prems(3) e(2)
    by (simp add: j tag_at Let_def sk sk[unfolded One_nat_def] read_num_at[OF rest e(1)])
next
  case (Cons p ps)
  obtain a b where a: "cur = Port a 1" "app_at m a" "wire m (Port a 2) = p" "wire m (Port a 0) = Port b 1" "app_at m b"
    "eff_spine m l (Port b 1) ps code" using Cons.prems(1) by auto
  obtain j' where j: "j = Suc j'" "length ps < j'" using Cons.prems(2) by (cases j) auto
  have sk: "skip_dup m (Port b 1) = Port b 1" using skip_at[of m "Port b 1"] a(5) by simp
  have ne: "b \<noteq> l" using l a(5) lam_not_app by blast
  have "length pays < 3" using Cons.prems(3) by (auto simp: eff_pay_def split: if_splits)
  moreover have "dig_loop frc j' l (p # pays) (Port b 1) m = (m, Some (e, rev ps @ p # pays))"
    by (rule Cons.IH[OF a(6) j(2)]) (use Cons.prems(3) in simp)
  ultimately show ?case using a(1-4) ne by (simp add: j(1) tag_at Let_def sk sk[unfolded One_nat_def])
qed

lemma eff_dig_at:
  assumes rest: "resting frc m" and l: "lam_at m l" and e: "num_at m code k" "eff_of (k AND mask 62) = Some e"
    and s: "eff_spine m l (wire m (Port l 2)) ps code" "length ps = eff_pay e"
  shows "eff_dig frc (Port l 0) m = (m, Some (e, rev ps))"
proof -
  have lv: "live m (node (Port l 0))" using l by (simp add: lam_at_def)
  obtain a where a: "wire m (Port l 2) = Port a 1" "app_at m a" using s(1) by (cases ps) auto
  have sk: "skip_dup m (Port a 1) = Port a 1" using skip_at[of m "Port a 1"] a by simp
  have "length ps < 8" using s(2) by (auto simp: eff_pay_def split: if_splits)
  then have "dig_loop frc 8 l [] (Port a 1) m = (m, Some (e, rev ps))"
    using dig_spine[OF rest l e s(1)[unfolded a(1)], of 8 "[]"] s(2) by simp
  then show ?thesis using l a(1) hop_none[of m "Port l 0"]
    by (simp add: eff_dig_def force_val_live[OF rest lv] Let_def tag_at sk sk[unfolded One_nat_def] del: dig_loop.simps)
qed

lemma reading_at: "r (rb_world X s) (bnet s) = (bnet s, v) \<Longrightarrow> reading X r s = (Inr v, s)"
  by (simp add: reading_def)

text \<open>A message that is a string.\<close>

definition says :: "'o rb_env \<Rightarrow> 'o rb \<Rightarrow> port \<Rightarrow> string \<Rightarrow> bool" where
  "says X s p t \<longleftrightarrow> chars_at (bnet s) p t \<and> t \<noteq> [] \<and> CHR 0x00 \<notin> set t \<and> int (length t) < nn (bnet s) \<and>
     nn (bnet s) \<le> max_nodes \<and> unboxes_none (rb_world X s) (bnet s)"

lemma print_string:
  assumes rest: "resting (force (fworld X)) (bnet s)" and m: "says X s msg t"
  shows "print_message X writer err msg s = (Inr (), put_msg err t s)"
proof -
  have r2: "resting (force (rb_world X s)) (bnet s)" using rest by (simp add: rb_world_def)
  have c: "run_ffi X msg s = (Inr V_none, s)" by (rule string_no_call[OF rest]) (use m in \<open>auto simp: says_def\<close>)
  have "value_any (rb_world X s) msg (bnet s) = (bnet s, V_str t)"
    by (rule value_any_string[OF r2]) (use m in \<open>auto simp: says_def\<close>)
  then have "reading X (\<lambda>W. value_any W msg) s = (Inr (V_str t), s)" by (rule reading_at)
  then show ?thesis
    by (simp add: print_message_def net_try_ffi_def pbind_def c render_val_def pret_def pmodify_def)
qed

text \<open>A message that is a call goes to the stream of the value, whatever the destination.\<close>

lemma print_call:
  "run_ffi X msg s = (Inr v, s1) \<Longrightarrow> render_val X v = Some t \<Longrightarrow> print_message X writer err msg s = (Inr (), put_out t s1)"
  by (simp add: print_message_def net_try_ffi_def pbind_def pthen_def pmodify_def pret_def)

text \<open>The effect at the root, with its payloads in the order they are applied.\<close>

definition root_effect :: "net \<Rightarrow> eff \<Rightarrow> port list \<Rightarrow> bool" where
  "root_effect m e pays \<longleftrightarrow> (\<exists>l code k. wire m (Port 0 0) = Port l 0 \<and> lam_at m l \<and> num_at m code k \<and>
     eff_of (k AND mask 62) = Some e \<and> eff_spine m l (wire m (Port l 2)) (rev pays) code \<and> length pays = eff_pay e)"

lemma root_dug:
  assumes rest: "resting frc m" and e: "root_effect m e pays"
  shows "(case net_force_val frc (wire m (Port 0 0)) m of (n1, q) \<Rightarrow> eff_dig frc (dup_hop n1 q) n1) = (m, Some (e, pays))"
proof -
  obtain l code k where l: "wire m (Port 0 0) = Port l 0" "lam_at m l" "num_at m code k" "eff_of (k AND mask 62) = Some e"
    "eff_spine m l (wire m (Port l 2)) (rev pays) code" "length (rev pays) = eff_pay e" using e by (auto simp: root_effect_def)
  have lv: "live m (node (Port l 0))" using l(2) by (simp add: lam_at_def)
  show ?thesis using eff_dig_at[OF rest l(2-6)] hop_none[of m "Port l 0"] l(1,2) by (simp add: force_val_live[OF rest lv])
qed

lemma round_dug:
  assumes rest: "resting (force (fworld X)) (bnet s)" and e: "root_effect (bnet s) e pays"
  shows "reading X (\<lambda>W n. case net_force_val (force W) (wire n (Port 0 0)) n of (n1, q) \<Rightarrow> eff_dig (force W) (dup_hop n1 q) n1) s =
    (Inr (Some (e, pays)), s)"
  by (rule reading_at) (use root_dug[OF _ e] rest in \<open>simp add: rb_world_def\<close>)

lemma done_round:
  assumes "resting (force (fworld X)) (bnet s)" "root_effect (bnet s) EFF_DONE pays"
  shows "io_round X writer limit s = (Inr (Some True), s)"
  by (simp add: io_round_def pbind_def round_dug[OF assms] pret_def)

text \<open>C22. Effects are performed once and in order.  On a net at rest whose root is the effect \<open>io_print msg next\<close>, or
  \<open>io_write_to dst msg next\<close> with a number as destination, and whose message is a non-empty string, a round of the loop
  recognises the effect, writes exactly the string, to the standard error for destination 2 and to the standard output
  otherwise, and goes on with the continuation, applied to a unit value unless it is an effect itself; it changes
  nothing else.
\<close>

theorem print_effect:
  assumes rest: "resting (force (fworld X)) (bnet s)" and msg: "says X s msg t"
    and e: "root_effect (bnet s) EFF_PRINT [msg, next] \<and> \<not> err \<or>
      root_effect (bnet s) EFF_WRITE [dst, msg, next] \<and> num_at (bnet s) dst d \<and> err = (d AND mask 62 = 2)"
  shows "io_round X writer limit s = (Inr (Some False), reduce_root X limit (go_on (fenv X) next) (put_msg err t s))"
  using e
proof
  assume p: "root_effect (bnet s) EFF_PRINT [msg, next] \<and> \<not> err"
  then show ?thesis using round_dug[OF rest conjunct1[OF p]] print_string[OF rest msg, of writer False]
    by (simp add: io_round_def pbind_def pthen_def do_print_def pret_def pmodify_def)
next
  assume p: "root_effect (bnet s) EFF_WRITE [dst, msg, next] \<and> num_at (bnet s) dst d \<and> err = (d AND mask 62 = 2)"
  have r2: "resting (force (rb_world X s)) (bnet s)" using rest by (simp add: rb_world_def)
  have "reading X (\<lambda>W. net_read_int (force W) dst ENC_NUM) s = (Inr (d AND mask 62), s)"
    by (rule reading_at) (use read_num_at[OF r2] p in blast)
  then show ?thesis using round_dug[OF rest conjunct1[OF p]] print_string[OF rest msg, of writer err] p
    by (simp add: io_round_def pbind_def pthen_def do_print_def pret_def pmodify_def)
qed

section \<open>A program that prints\<close>

definition root_net :: net where "root_net = demo_alloc []"

lemma root_net_ok: "net_ok root_net" "live root_net v \<longleftrightarrow> v = 0" "nn root_net = 1" "lvl root_net = levels_init"
proof -
  show "net_ok root_net" "lvl root_net = levels_init" unfolding root_net_def using demo_alloc_ok[of "[]"] by blast+
  show "live root_net v \<longleftrightarrow> v = 0" "nn root_net = 1" by (auto simp: root_net_def demo_eval live_def in_net_def)
qed

text \<open>\<open>\\e. e 1 msg next\<close> under the root, the message a string and the continuation a boolean.\<close>

definition print_links :: "int \<Rightarrow> int \<Rightarrow> int \<Rightarrow> int \<Rightarrow> port \<Rightarrow> port \<Rightarrow> port \<Rightarrow> (port \<times> port) list" where
  "print_links l a b c code msg next =
     [(Port l 2, Port c 1), (Port c 0, Port b 1), (Port b 0, Port a 1), (Port a 0, Port l 1),
      (Port a 2, code), (Port b 2, msg), (Port c 2, next)]"

definition print_program :: "env \<Rightarrow> string \<Rightarrow> net \<Rightarrow> net \<times> port \<times> port" where
  "print_program E t n =
     (case net_alloc_string E t n of (n1, msg) \<Rightarrow> case net_alloc_scott E 1 n1 of (n2, code) \<Rightarrow>
      case net_alloc_bool E True n2 of (n3, next) \<Rightarrow> case net_alloc E LAM 0 n3 of (n4, l) \<Rightarrow>
      case net_alloc E APP 0 n4 of (n5, a) \<Rightarrow> case net_alloc E APP 0 n5 of (n6, b) \<Rightarrow> case net_alloc E APP 0 n6 of (n7, c) \<Rightarrow>
        (net_link E (Port 0 0) (Port l 0) False (link_all E (print_links l a b c code msg next) n7), msg, next))"

text \<open>Wiring the root to a binder moves nothing an encoding is made of.\<close>

lemma root_linked:
  assumes k: "lam_at k l" "tag k 0 = ROOT" and m: "m = net_link E (Port 0 0) (Port l 0) False k"
  shows "carries k m" "wire m (Port 0 0) = Port l 0" "nn m = nn k" "card (live_set m) = card (live_set k)"
proof -
  have l: "0 \<le> l" "l \<noteq> 0" using k by (auto simp: lam_at_def live_def in_net_def)
  then have w: "wire m = (wire k)(Port 0 0 := Port l 0, Port l 0 := Port 0 0)" and t: "tag m = tag k" "\<And>x. live m x = live k x"
    by (auto simp: m net_link_def Let_def set_wire_def live_def in_net_def)
  show "nn m = nn k" "card (live_set m) = card (live_set k)" by (simp_all add: m live_set_def t(2)[unfolded m])
  show "wire m (Port 0 0) = Port l 0" using l(2) by (simp add: w)
  show "carries k m" unfolding carries_def lam_at_def app_at_def using k by (auto simp: w t lam_at_def)
qed

lemma print_program_spec:
  assumes r: "print_program seq_env t root_net = (m, msg, next)"
  shows "chars_at m msg t" "int (length t) < nn m" "nn m \<le> 385 + 380 * int (length t)" "root_effect m EFF_PRINT [msg, next]"
proof -
  note E = seq_env_simps(1)
  obtain n1 n2 code n3 n4 l n5 a n6 b n7 c where s: "net_alloc_string seq_env t root_net = (n1, msg)"
    "net_alloc_scott seq_env 1 n1 = (n2, code)" "net_alloc_bool seq_env True n2 = (n3, next)" "net_alloc seq_env LAM 0 n3 = (n4, l)"
    "net_alloc seq_env APP 0 n4 = (n5, a)" "net_alloc seq_env APP 0 n5 = (n6, b)" "net_alloc seq_env APP 0 n6 = (n7, c)"
    and m: "m = net_link seq_env (Port 0 0) (Port l 0) False (link_all seq_env (print_links l a b c code msg next) n7)"
    using r by (auto simp: print_program_def split: prod.splits)
  let ?ls = "print_links l a b c code msg next" and ?k = "link_all seq_env (print_links l a b c code msg next) n7"
  have st: "adds root_net n1 {}" "open_at root_net n1 msg" "chars_at n1 msg t" "length t < card (live_set n1)"
    using alloc_string_spec[OF root_net_ok(1) E s(1)] by blast+
  note sc = alloc_scott_spec[OF addsD(1)[OF st(1)] E _ s(2)[unfolded net_alloc_scott_def], simplified]
  note bo = alloc_bool_spec[OF addsD(1)[OF sc(1)] E s(3)]
  note s4 = stocked_alloc[OF stocked_start[OF addsD(1)[OF bo(1)]] E _ s(4), simplified]
  note s5 = stocked_alloc[OF s4(1) E _ s(5), simplified]
  note s6 = stocked_alloc[OF s5(1) E _ s(6), simplified]
  note s7 = stocked_alloc[OF s6(1) E _ s(7), simplified, unfolded stocked_def]
  have A: "adds n3 n7 {}" and fr: "fresh_at APP n7 c" "fresh_at APP n7 b" "fresh_at APP n7 a" "fresh_at LAM n7 l"
    "\<not> live n3 c" "\<not> live n3 b" "\<not> live n3 a" "\<not> live n3 l" and ds: "distinct [c, b, a, l]" using s7 by auto
  obtain u v w where u: "msg = Port u 0" "code = Port v 0" "next = Port w 0" using st(2) sc(2) bo(3)
    by (metis open_at_def port.collapse)
  note a13 = adds_then[OF sc(1) bo(1)] and a17 = adds_then[OF adds_then[OF sc(1) bo(1)] A] and a27 = adds_then[OF bo(1) A]
  have op: "lam_at n1 u" "wire n1 msg = NONE" "u \<noteq> 0" "lam_at n2 v" "wire n2 code = NONE" "\<not> live n1 v"
    "lam_at n3 w" "wire n3 next = NONE" "\<not> live n2 w"
    using st(2) sc(2) bo(3) u root_net_ok(2) by (auto simp: open_at_def)
  have k1: "lam_at n2 u" "lam_at n3 u" "lam_at n3 v" using adds_lam(1)[OF sc(1) op(1)] adds_lam(1)[OF a13 op(1)] adds_lam(1)[OF bo(1) op(4)] .
  have z: "live n1 0" using addsD(3)[OF st(1)] root_net_ok(2) by blast
  then have z3: "live n2 0" "live n3 0" using addsD(3)[OF sc(1)] addsD(3)[OF a13] by blast+
  have ne: "u \<noteq> v" "u \<noteq> w" "v \<noteq> w" "v \<noteq> 0" "w \<noteq> 0" "l \<noteq> 0" "u \<notin> {l, a, b, c}" "v \<notin> {l, a, b, c}" "w \<notin> {l, a, b, c}"
    using op k1 z z3 fr by (auto simp: lam_at_def)
  have w7: "lam_at n7 u" "lam_at n7 v" "lam_at n7 w" "wire n7 msg = NONE" "wire n7 code = NONE" "wire n7 next = NONE"
    using adds_lam(1)[OF A] k1 op addsD(5)[OF a17, of msg] addsD(5)[OF a27, of code] addsD(5)[OF A, of "next"] u by (auto simp: lam_at_def)
  have "free_ends n7 ?ls" unfolding free_ends_def print_links_def using fr ds w7 ne u by (auto simp: lam_at_def fresh_at_def)
  note lk = adds_links[OF addsD(1)[OF A] E this]
  have n1k: "adds n1 ?k {msg, code, next}"
  proof -
    have "adds n1 ?k (set (map fst ?ls @ map snd ?ls))" using adds_trans[OF a17, of ?k] lk by simp
    then show ?thesis by (elim adds_cut) (use fr addsD(3)[OF a13] in \<open>auto simp: print_links_def\<close>)
  qed
  have n2k: "adds n2 ?k {msg, code, next}"
  proof -
    have "adds n2 ?k (set (map fst ?ls @ map snd ?ls))" using adds_trans[OF a27, of ?k] lk by simp
    then show ?thesis by (elim adds_cut) (use fr addsD(3)[OF bo(1)] in \<open>auto simp: print_links_def\<close>)
  qed
  have "adds n1 ?k {msg}" "adds n2 ?k {msg, code}"
    using n1k n2k by (elim adds_cut; use op(6,9) addsD(3)[OF sc(1)] u in auto)+
  moreover have "heads n1 {msg}" "heads n2 {msg, code}" using op(1,4) k1(1) u by (simp_all add: heads_def)
  ultimately have ck: "chars_at ?k msg t" "num_at ?k code 1"
    using chars_at_adds[OF st(3)] num_at_adds[of n2 code 1] sc(3,5) by (auto simp: num_at_def)
  have lm: "lam_at ?k l" "app_at ?k a" "app_at ?k b" "app_at ?k c" using lk fr by (auto simp: lam_at_def app_at_def fresh_at_def)
  have wk: "wire ?k (Port l 2) = Port c 1" "wire ?k (Port c 0) = Port b 1" "wire ?k (Port b 0) = Port a 1" "wire ?k (Port a 0) = Port l 1"
    "wire ?k (Port a 2) = code" "wire ?k (Port b 2) = msg" "wire ?k (Port c 2) = next"
    using lk ne ds u by (auto simp: print_links_def link_ends_pair)
  have t0: "tag ?k 0 = ROOT"
  proof -
    have "tag root_net 0 = ROOT" by (simp add: root_net_def demo_eval)
    then show ?thesis using addsD(4)[OF st(1), of 0] addsD(4)[OF n1k, of 0] z root_net_ok(2) by simp
  qed
  note R = root_linked[OF lm(1) t0 m] and cm = root_linked(1)[OF lm(1) t0 m]
  have cd: "card (live_set ?k) \<le> card (live_set m)" by (simp add: R(4))
  show "chars_at m msg t" by (rule chars_at_carries[OF ck(1) cm cd])
  have "num_at m code 1" by (rule num_at_carries[OF ck(2) cm cd])
  moreover have "eff_of ((1 :: long) AND mask 62) = Some EFF_PRINT" by (simp add: eff_of_def mask_eq_exp_minus_1)
  moreover have "lam_at m l" "app_at m a" "app_at m b" "app_at m c" using carriesD[OF cm] lm by blast+
  moreover have "wire m (Port l 2) = Port c 1" "wire m (Port c 0) = Port b 1" "wire m (Port b 0) = Port a 1" "wire m (Port a 0) = Port l 1"
    "wire m (Port a 2) = code" "wire m (Port b 2) = msg" "wire m (Port c 2) = next"
    using wk carriesD(2)[OF cm lm(1)] carriesD(4)[OF cm lm(2)] carriesD(4)[OF cm lm(3)] carriesD(4)[OF cm lm(4)] by simp_all
  moreover note R(2)
  ultimately show "root_effect m EFF_PRINT [msg, next]" unfolding root_effect_def
    by (intro exI[of _ l] exI[of _ code] exI[of _ 1]) (simp add: eff_pay_def)
  have "length t < card (live_set m)" using st(4) live_card[OF n1k] cd by linarith
  then show "int (length t) < nn m" using live_bound[of m] by linarith
  show "nn m \<le> 385 + 380 * int (length t)"
    using nn_string[OF s(1)] nn_scott[OF s(2)] nn_bool[OF s(3)] nn_alloc[OF s(4)] nn_alloc[OF s(5)] nn_alloc[OF s(6)] nn_alloc[OF s(7)]
      root_net_ok(3) by (simp add: R(3))
qed

theorem print_effect_witness:
  "\<exists>m msg next. print_program seq_env ''hi'' root_net = (m, msg, next) \<and>
     io_round rest_env (\<lambda>p. pret []) 100 (rest_state m) =
       (Inr (Some False), reduce_root rest_env 100 (go_on seq_env next) (put_stdout ''hi'' (rest_state m)))"
proof -
  obtain m msg k where r: "print_program seq_env ''hi'' root_net = (m, msg, k)" by (metis surj_pair)
  note P = print_program_spec[OF r]
  have "says rest_env (rest_state m) msg ''hi''"
    using P(1-3) by (simp add: says_def rest_state_def rest_env_def rest_world_def rb_world_def unboxes_none_def max_nodes_def)
  moreover have "resting (force (fworld rest_env)) (bnet (rest_state m))" by (simp add: rest_env_def rest_world_def resting_def)
  moreover have "root_effect (bnet (rest_state m)) EFF_PRINT [msg, k] \<and> \<not> False" using P(4) by (simp add: rest_state_def)
  ultimately have "io_round rest_env (\<lambda>p. pret []) 100 (rest_state m) =
      (Inr (Some False), reduce_root rest_env 100 (go_on (fenv rest_env) k) (put_msg False ''hi'' (rest_state m)))"
    by (intro print_effect disjI1)
  then show ?thesis using r by (simp add: put_msg_def rest_env_def)
qed

end
