(* ===== verification/BuildSafe.thy ===== *)
theory BuildSafe
  imports ReadingStill
begin

text \<open>
  Foreign calls while a build marker is up: the gate lets through only what the readback driver or a provider
  declares a function of its operands, and such a call leaves the system alone.  Where the declaration and the
  rows do not agree a call gets through.
\<close>

section \<open>What a dispatch may touch\<close>








section \<open>Complete providers\<close>








section \<open>Where it gets through\<close>

text \<open>The table of \<open>arith.c\<close> owns every name that begins with one of its rows, so the gate lets a foreign symbol of such
  a name pass; with one operand the table declines it, and the build makes the call.\<close>

lemma gate_hole:
  assumes ops: "scalar_ops (bops s) = [(lin_arith_scalar F, True)]" and b: "in_build (bops s)"
  shows "lin_build_gate (plugin X) ''lin_subscribe'' (rb_row_pure ''lin_subscribe'') (bops s) = (True, bops s)"
    "rb_rows X ''lin_subscribe'' [V_int k] s = (case symbol_row X ''lin_subscribe'' [V_int k] s of (v, s1) \<Rightarrow> (Inr v, s1))"
proof -
  have q: "lin_arith_scalar F ''lin_subscribe'' (- 1) [] \<noteq> None"
    by (simp add: lin_arith_scalar_def arith_supplies_def arith_rows_def row_of_def)
  have d: "lin_arith_scalar F ''lin_subscribe'' 1 [k] = None"
    by (simp add: lin_arith_scalar_def float_row_def row_of_def)
  show "lin_build_gate (plugin X) ''lin_subscribe'' (rb_row_pure ''lin_subscribe'') (bops s) = (True, bops s)"
    using b ops q by (auto simp: lin_build_gate_def lin_scalar_ops_run_def rb_row_pure_def Let_def split: option.splits)
  have "lin_scalar_ops_run (plugin X) ''lin_subscribe'' 1 [k] (bops s) = (None, bops s)"
    using b ops d by (simp add: lin_scalar_ops_run_def Let_def)
  then show "rb_rows X ''lin_subscribe'' [V_int k] s = (case symbol_row X ''lin_subscribe'' [V_int k] s of (v, s1) \<Rightarrow> (Inr v, s1))"
    by (simp add: rb_rows_def word_of_def needs_string_def string_rows_def)
qed

end
