(* ===== verification/Spec2Isabelle.thy ===== *)
theory Spec2Isabelle
  imports Wave Registry ParserProps TypeLaws ProgramProps BuildProps EGraph CompileTerms ScalarProps ContainerProps
    ReduceProps Goi Values AotProps PrinterProps EffectProps BuildSafe
begin

text \<open>
  A verification library of the Lin interaction-net runtime (\<open>src/\<close>, \<open>std/drivers/\<close>).

  \<^bold>\<open>The program.\<close>  Lin reads lambda terms with definitions, datatypes and lets, types them, optimises
  them on an e-graph, compiles them to an interaction net with fans at levels, reduces the net in waves of the
  redexes the answer needs, and reads the answer back.  Programs are shipped as \<open>.line\<close> containers.  Drivers
  may take redexes away from the base engine, hold regions of the net across waves, carry sections in the
  container and provide native operations on scalars.

  \<^bold>\<open>Parts and theories.\<close>  Each part has a theory for its state and operations, declared in the order of
  the C file, and one or more theories for what they guarantee.
    \<^item> \<open>LinPrelude\<close>: tags, ports (\<open>lin.h\<close>) and the facts on lists and folds the parts share.  \<open>ErrState\<close>: computations
      that fail by \<open>longjmp\<close>.  \<open>ProbeTable\<close>: linear probing, with its laws in the locale
      \<open>open_addressing\<close>, interpreted for the level trie (\<open>Levels\<close>) and for the frontier table (\<open>Wave\<close>).
    \<^item> \<open>Levels\<close>: the level trie (\<open>lv_intern\<close>, \<open>scope_app\<close>, \<open>scope_meet\<close>, \<open>scope_rebase\<close>, \<open>lvl_prefix2\<close> in \<open>net.c\<close>).
      \<open>lv_wf\<close> is its invariant; a level is specified by the path \<open>lvl_path\<close> it stands for.
    \<^item> \<open>NetState\<close>: the record \<open>net\<close> is \<open>struct Net\<close>; arrays over nodes are functions on \<open>int\<close>, \<open>wire[3 * v + p]\<close> is
      \<open>wire n (Port v p)\<close>; the free and pending chains run through port 0 of the slots as in C.  Allocation, linking,
      severing, releasing, retiring, the queue \<open>act\<close> with its index \<open>act_of\<close>.
    \<^item> \<open>Interact\<close>: \<open>net_interact\<close> and what it is built of (\<open>pair_boundary\<close> with its union-find, \<open>split2\<close>,
      \<open>link_copies\<close>, \<open>retire\<close>).
    \<^item> \<open>NetInv\<close>, \<open>NetReclaim\<close>, \<open>PairInv\<close>, \<open>Boundary\<close>, \<open>Duplicate\<close>, \<open>Rules\<close>, \<open>NetOps\<close>, \<open>NetRules\<close>: the invariant \<open>net_ok\<close>
      (wires in pairs, the queue holds live redexes and indexes them, the chains of reclaimed slots, the levels),
      its preservation by every operation, and what each rule does to the wires.
    \<^item> \<open>Collector\<close>: \<open>net_gc\<close>.  \<open>Demand\<close>: \<open>net_mark_demand\<close> against \<open>needed\<close>, the needed-order reachability it
      implements.  \<open>Wave\<close>: the serial wave and the choice a threaded wave makes.
    \<^item> \<open>Claims\<close>: \<open>lin_claim_check\<close> against the region a claim may own.  \<open>Registry\<close>: acceptance, priority order and
      clearing of drivers.
    \<^item> \<open>Reduce\<close>, \<open>ReduceProps\<close>: \<open>net_reduce\<close>, \<open>net_force\<close>, \<open>net_copy\<close>.  Drivers are records of hooks on the state of a
      reduction.  \<open>ready\<close> is the invariant between waves, \<open>settled\<close> what has been reached at the end.
    \<^item> \<open>Terms\<close>, \<open>Parser\<close>, \<open>ParserTotal\<close>, \<open>ParserProps\<close>: \<open>parse.c\<close>.  The text still to be read is a string; a parser
      returns a value or a message and the state.
    \<^item> \<open>Types\<close>, \<open>TypesProps\<close>, \<open>TypeLaws\<close>: \<open>type.c\<close>.  A heap of type variables is a map of links.
    \<^item> \<open>Defs\<close>, \<open>Program\<close>, \<open>ProgramProps\<close>, \<open>Build\<close>, \<open>BuildProps\<close>: definitions, namespaces, expansion, datatypes, loading
      of files and the search for the artifact of a build (\<open>main.c\<close>).
    \<^item> \<open>EGraph\<close>, \<open>Compile\<close>, \<open>Container\<close>, \<open>ContainerProps\<close>: \<open>compile.c\<close>, and the driver sections of \<open>net.c\<close>.
    \<^item> \<open>CompileProps\<close>, \<open>CompileTerms\<close>: what the compiler leaves.  \<open>adds\<close> relates a net to a later one that keeps its
      nodes and wires, \<open>stack_ok\<close> the stack of binders to the net, \<open>made\<close> is the contract of \<open>ct\<close> on a plain term.
    \<^item> \<open>Builders\<close>, \<open>Readers\<close>, \<open>NumeralProps\<close>: the value encodings of \<open>io.c\<close>.  \<open>Scalars\<close>, \<open>ScalarProps\<close>: the table of
      \<open>std/drivers/arith.c\<close>, the registry of scalar providers and the build gate.  \<open>Values\<close>: the float table of
      \<open>std/drivers/values.c\<close>.  \<open>Goi\<close>: \<open>goi_det\<close>.
    \<^item> \<open>Pattern\<close>, \<open>PatternProps\<close>, \<open>PatternRun\<close>: the structural matcher \<open>std/runtime/pattern.h\<close>: patterns, the match state with
      its budget, the claim made from a match, the encodings the header names, the boxes and the cache.  \<open>run\<close> reads a
      pattern as a walk on the net, which is what the matcher computes on the patterns without choice.
    \<^item> \<open>Fold\<close>, \<open>Sever\<close>, \<open>FoldProps\<close>, \<open>AotProps\<close>: the fold pre-emptor of \<open>std/drivers/arith.c\<close>, its registration and its
      build pass.  \<open>trims\<close> says what severing the ports of a node leaves, \<open>dang\<close> how far the net between two cuts is
      from a sound one.
    \<^item> \<open>Readback\<close>, \<open>Effects\<close>, \<open>Printer\<close>: the readback driver \<open>std/drivers/readback.c\<close>: decoding with and without an
      expectation, the convention and dispatch of foreign calls, the effects a program returns with the loop that performs
      them, the net printer and the hooks.  The record \<open>rb\<close> holds the net, the scalar registry, the drivers and the
      streams; the system (symbols, libffi, files, input) is the record \<open>system\<close> of functions on a state of its own; the
      printer's globals are the record \<open>pst\<close>.
    \<^item> \<open>StringProps\<close>, \<open>ReadingStill\<close>, \<open>PrinterProps\<close>, \<open>EffectProps\<close>, \<open>BuildSafe\<close>: strings in the net; readers leave a net
      with nothing to fire alone; the printer against \<open>view\<close>, the term a net reads as with no buffer, mark or kept text;
      one round of the effect loop; dispatch during a build.

  \<^bold>\<open>What is shown.\<close>
    \<^item> Each rule of the calculus rewires exactly the pair it consumes, labels the copies with the paths of both
      partners, and keeps \<open>net_ok\<close> and the queue complete.
    \<^item> Allocation, severing, flushing and collection keep the invariant and change nothing else; the collector
      keeps exactly the reachable nodes.
    \<^item> The demand mark is exactly the needed nodes, a wave loses nothing, the pairs a threaded wave fires
      together are disjoint; the reducer returns within its limit and leaves no needed redex undone.
    \<^item> A claim is accepted exactly when its region is closed; the registry keeps its order and its slots.
    \<^item> The parser is total, reads what a printer writes and recovers after an error; inference is sound for a typing
      judgement, unification makes types agree, generalisation is exact; expansion ends and resolves names; a build
      ships an artifact no other beats.
    \<^item> The compiler turns a closed term into a net that satisfies \<open>net_ok\<close>, with its queue complete and its value at
      the root; a numeral is read back as its low 62 bits.
    \<^item> A match stays within the budget and the arrays it writes to, and the claim made from it is one the core accepts.
      The fold filter of the core hides no redex the fold driver claims; a folded operator leaves its value, readable, on
      the port that waited for it and the net sound; the build pass boxes the program's value.
    \<^item> A string built in the net is read back as it was.  The printer writes exactly the text of the term a net reads as,
      and always ends on a net with nothing to fire; a print effect is performed once, on the stream it names; the dispatch
      of a call in a build makes no observation.
    \<^item> The container round trip; the integer rows up to \<open>2 ^ 63\<close>; the build gate; the ownership query.
    \<^item> Lemmas that show faults: definitions that name each other make inference run without end, a let body loses its
      binder in expansion, a type variable linked to a nominal type that contains it makes a cyclic type, a failed datatype
      leaves its parameters behind; a text kept for a shared subterm is replayed with the name of another binder
      (\<open>print_captures\<close>), the build gate lets a symbol pass that only starts like a row (\<open>gate_hole\<close>), a message that is a
      call's value ignores the stream the effect names (\<open>print_call\<close>).

  \<^bold>\<open>Bounds and fuel.\<close>  The parser takes twice the length of the text plus three (two calls a byte; shown to be
  enough); the union-find of a pair has six elements and takes six; a probe takes one step a slot, and a table with a
  free slot never takes them all; \<open>hold_loop\<close> takes twice \<open>held_max\<close>, since each round moves on or shortens a list
  of at most \<open>held_max\<close>; the loops of the reducer take one round more than the steps still allowed, since a wave that changes
  anything advances \<open>steps\<close>; the printer takes two calls more than there are nodes (shown to be enough on a net with
  nothing to fire), and the effect loop a number of rounds, since a program may go on for ever.  Type inference and expansion take fuel because the C recursion need not end; expansion is
  shown to end on programs whose definitions come before their uses.  Integers are words where the C code
  depends on the width (hashes, stamps, scalars, the bytes of a container) and \<open>int\<close> or \<open>nat\<close> elsewhere: node numbers (a port
  has 30 bits for one; the container's laws state it), costs, counters.

  \<^bold>\<open>Not modelled.\<close>  The threads of a wave, the per-thread buffers and atomics (the choice of the pairs that fire
  together is modelled, their execution is the serial one); statistics and diagnostics printed on the way;
  \<open>native.c\<close>, \<open>simd.c\<close> and \<open>gpu.c\<close>, which emit code for external compilers and load the result;
  options, signals and the interactive loop of \<open>main.c\<close>; floating point, \<open>dlopen\<close> and the reducer of the forcing readers,
  which are parameters.  Forcing is a function on nets, so what drivers do to their own counters while a reader forces
  is not seen, nor what a foreign call among the operands of another one does beside its value; the addresses of decoded strings and the boxing of floats are parameters of the fold driver.
\<close>

end
